(* ===== verification/Prelude.thy ===== *)
theory Prelude
  imports Main "HOL-Library.Word" "HOL-Library.Monad_Syntax"
begin

text \<open>
  The prelude of the development: names for the machine types, the null check that
  turns a dereference of \<open>NULL\<close> into the value \<open>None\<close>, singly and doubly linked
  lists laid out in a heap of pointer fields, and the priority insertion that the
  kernel's lists refine.
\<close>

unbundle bit_operations_syntax

named_theorems heap_simps
  \<open>equations that move a linked list over a heap update outside of it\<close>

section \<open>Machine types\<close>

type_synonym u8 = "8 word"
type_synonym u16 = "16 word"
type_synonym u32 = "32 word"

text \<open>An address of the 32-bit target; the null pointer is address 0.\<close>

type_synonym ptr = "32 word"

abbreviation (input) NULL :: ptr where
  "NULL \<equiv> 0"

text \<open>
  A C function is a function into \<open>option\<close>. The value \<open>None\<close> is the outcome of a call
  that does not return normally: it dereferences \<open>NULL\<close>, it reaches the fatal error hook
  (\<open>os_error\<close>, \<open>sysThreadError\<close>), or one of its loops never ends.
\<close>

definition chk :: "ptr \<Rightarrow> unit option" where
  "chk p = (if p = NULL then None else Some ())"

lemma chk_nonnull [simp]: "p \<noteq> NULL \<Longrightarrow> chk p = Some ()"
  by (simp add: chk_def)

lemma chk_NULL [simp]: "chk NULL = None"
  by (simp add: chk_def)

lemma chk_bind_eq_Some [simp]: "(chk p \<bind> f = Some r) \<longleftrightarrow> p \<noteq> NULL \<and> f () = Some r"
  by (auto simp: chk_def)

section \<open>Widening and narrowing casts\<close>

lemma unat_ucast_widen [simp]:
  "unat (ucast (x :: u16) :: u32) = unat x"
  "unat (ucast (y :: u8) :: u32) = unat y"
  "unat (ucast (y :: u8) :: u16) = unat y"
  using unsigned_less [of x, where 'a = nat] unsigned_less [of y, where 'a = nat]
  by (simp_all add: unsigned_ucast_eq take_bit_nat_eq_self_iff)

lemma unat_ucast_narrow:
  "unat (ucast (x :: u32) :: u16) = unat x mod 65536"
  "unat (ucast (x :: u32) :: u8) = unat x mod 256"
  "unat (ucast (y :: u16) :: u8) = unat y mod 256"
  by (simp_all add: unsigned_ucast_eq take_bit_eq_mod)

lemma unat_u16_less [simp]: "unat (x :: u16) < 65536"
  using unsigned_less [of x, where 'a = nat] by simp

lemma unat_u8_less [simp]: "unat (x :: u8) < 256"
  using unsigned_less [of x, where 'a = nat] by simp

lemma unat_of_nat_u32: "n < 4294967296 \<Longrightarrow> unat (of_nat n :: u32) = n"
  by (simp add: unat_of_nat take_bit_nat_eq_self_iff)

lemma unat_of_nat_u16: "n < 65536 \<Longrightarrow> unat (of_nat n :: u16) = n"
  by (simp add: unat_of_nat take_bit_nat_eq_self_iff)

lemma unat_diff_u16: "b \<le> (a :: u16) \<Longrightarrow> unat (a - b) = unat a - unat b"
  by (simp add: unat_sub word_le_nat_alt)

lemma unat_narrow_diff:
  fixes a :: u16
  shows "m \<le> unat a \<Longrightarrow> unat (ucast (ucast a - of_nat m :: u32) :: u16) = unat a - m"
    and "unat a \<le> n \<Longrightarrow> n < 65536 \<Longrightarrow> unat (ucast (of_nat n - ucast a :: u32) :: u16) = n - unat a"
proof -
  show "unat (ucast (ucast a - of_nat m :: u32) :: u16) = unat a - m" if "m \<le> unat a"
  proof -
    have m: "unat (of_nat m :: u32) = m" using that unat_u16_less [of a]
      by (intro unat_of_nat_u32) linarith
    then have "unat (ucast a - of_nat m :: u32) = unat a - m"
      using that by (simp add: unat_sub word_le_nat_alt)
    moreover have "unat a - m < 65536" using unat_u16_less [of a] by linarith
    ultimately show ?thesis by (simp add: unat_ucast_narrow)
  qed
  show "unat (ucast (of_nat n - ucast a :: u32) :: u16) = n - unat a"
    if "unat a \<le> n" "n < 65536"
  proof -
    have n: "unat (of_nat n :: u32) = n" using that by (intro unat_of_nat_u32) linarith
    then have "unat (of_nat n - ucast a :: u32) = n - unat a"
      using that by (simp add: unat_sub word_le_nat_alt)
    then show ?thesis using that by (simp add: unat_ucast_narrow)
  qed
qed

section \<open>Linked lists in a heap\<close>

text \<open>
  \<open>chain l p xs\<close>: following the link field \<open>l\<close> from \<open>p\<close> visits exactly \<open>xs\<close> and ends
  in \<open>NULL\<close>.  \<open>blinks r q xs\<close>: the backward link \<open>r\<close> of the first element of \<open>xs\<close> is
  \<open>q\<close>, and that of every other element is the element before it.
\<close>

fun chain :: "(ptr \<Rightarrow> ptr) \<Rightarrow> ptr \<Rightarrow> ptr list \<Rightarrow> bool" where
  "chain l p [] \<longleftrightarrow> p = NULL"
| "chain l p (x # xs) \<longleftrightarrow> p = x \<and> x \<noteq> NULL \<and> chain l (l x) xs"

fun blinks :: "(ptr \<Rightarrow> ptr) \<Rightarrow> ptr \<Rightarrow> ptr list \<Rightarrow> bool" where
  "blinks r q [] \<longleftrightarrow> True"
| "blinks r q (x # xs) \<longleftrightarrow> r x = q \<and> blinks r x xs"

text \<open>The first element of a list of addresses, \<open>NULL\<close> for the empty list.\<close>

fun first_ptr :: "ptr list \<Rightarrow> ptr" where
  "first_ptr [] = NULL"
| "first_ptr (x # xs) = x"

lemma first_ptr_in_set [intro]: "xs \<noteq> [] \<Longrightarrow> first_ptr xs \<in> set xs"
  by (cases xs) auto

lemma first_ptr_notin: "x \<notin> set xs \<Longrightarrow> xs \<noteq> [] \<Longrightarrow> first_ptr xs \<noteq> x"
  by (cases xs) auto

lemma chain_NULL [simp]: "chain l NULL xs \<longleftrightarrow> xs = []"
  by (cases xs) auto

lemma chain_first_ptr: "chain l p xs \<Longrightarrow> p = first_ptr xs"
  by (cases xs) auto

lemma chain_nonnull: "chain l p xs \<Longrightarrow> x \<in> set xs \<Longrightarrow> x \<noteq> NULL"
  by (induction xs arbitrary: p) auto

lemma chain_NULL_notin: "chain l p xs \<Longrightarrow> NULL \<notin> set xs"
  using chain_nonnull by blast

lemma chain_unique: "chain l p xs \<Longrightarrow> chain l p ys \<Longrightarrow> xs = ys"
proof (induction xs arbitrary: p ys)
  case Nil
  then show ?case by simp
next
  case (Cons x xs)
  then show ?case by (cases ys) auto
qed

lemma chain_suffix: "chain l p (as @ bs) \<Longrightarrow> chain l (first_ptr bs) bs"
proof (induction as arbitrary: p)
  case Nil
  then show ?case by (cases bs) auto
qed auto

lemma chain_distinct: "chain l p xs \<Longrightarrow> distinct xs"
proof (induction xs arbitrary: p)
  case (Cons x xs)
  have "x \<notin> set xs"
  proof
    assume "x \<in> set xs"
    then obtain as bs where xs: "xs = as @ x # bs"
      by (auto simp: in_set_conv_decomp)
    from Cons.prems have "chain l (l x) xs" by simp
    moreover from Cons.prems have "chain l (l x) bs"
      using chain_suffix [of l p "x # as" "x # bs"] xs by simp
    ultimately have "xs = bs" by (rule chain_unique)
    with xs show False by simp
  qed
  with Cons show ?case by auto
qed simp

lemma chain_cong:
  "chain l p xs \<Longrightarrow> (\<And>x. x \<in> set xs \<Longrightarrow> l' x = l x) \<Longrightarrow> chain l' p xs"
  by (induction xs arbitrary: p) auto

lemma chain_upd [heap_simps]:
  "y \<notin> set xs \<Longrightarrow> chain (l(y := v)) p xs \<longleftrightarrow> chain l p xs"
  by (induction xs arbitrary: p) auto

lemma blinks_cong:
  "blinks r q xs \<Longrightarrow> (\<And>x. x \<in> set xs \<Longrightarrow> r' x = r x) \<Longrightarrow> blinks r' q xs"
  by (induction xs arbitrary: q) auto

lemma blinks_upd [heap_simps]:
  "y \<notin> set xs \<Longrightarrow> blinks (r(y := v)) q xs \<longleftrightarrow> blinks r q xs"
  by (induction xs arbitrary: q) auto

lemma blinks_append:
  "blinks r q (as @ bs) \<longleftrightarrow> blinks r q as \<and> blinks r (last (q # as)) bs"
  by (induction as arbitrary: q) auto

lemma chain_next_last:
  "chain l (l h) (as @ bs) \<Longrightarrow> l (last (h # as)) = first_ptr bs"
proof (induction as arbitrary: h)
  case Nil
  then show ?case by (simp add: chain_first_ptr)
qed auto

subsection \<open>Insertion and removal in the middle of a chain\<close>

text \<open>
  \<open>h\<close> is the header (or the element before \<open>as\<close>); the cell \<open>last (h # as)\<close> is the one
  whose link is rewritten.
\<close>

lemma chain_insert:
  assumes "chain l (l h) (as @ bs)" and "distinct (h # as @ bs)"
    and "t \<noteq> NULL" and "t \<notin> set (h # as @ bs)"
  shows "chain (l(t := first_ptr bs, last (h # as) := t))
           ((l(t := first_ptr bs, last (h # as) := t)) h) (as @ t # bs)"
  using assms
proof (induction as arbitrary: h)
  case Nil
  then have "chain l (first_ptr bs) bs"
    by (simp add: chain_first_ptr [symmetric])
  then have "chain (l(t := first_ptr bs, h := t)) (first_ptr bs) bs"
    by (rule chain_cong) (use Nil in auto)
  with Nil show ?case by (auto simp: fun_upd_def)
next
  case (Cons a as)
  then have "chain l (l a) (as @ bs)" and "l h = a" and "a \<noteq> NULL" by auto
  with Cons.IH [of a] Cons.prems show ?case
    by (cases "as = []") auto
qed

lemma chain_remove:
  assumes "chain l (l h) (as @ t # bs)" and "distinct (h # as @ t # bs)"
  shows "chain (l(last (h # as) := l t)) ((l(last (h # as) := l t)) h) (as @ bs)"
  using assms
proof (induction as arbitrary: h)
  case Nil
  then have "chain l (l t) bs" by simp
  then have "chain (l(h := l t)) (l t) bs"
    by (rule chain_cong) (use Nil in auto)
  with Nil show ?case by (auto simp: fun_upd_def)
next
  case (Cons a as)
  then have "chain l (l a) (as @ t # bs)" and "l h = a" and "a \<noteq> NULL" by auto
  with Cons.IH [of a] Cons.prems show ?case
    by (cases "as = []") auto
qed

lemma last_in_set_hd: "last (h # as) \<in> insert h (set as)"
  by (induction as arbitrary: h) auto

lemma blinks_insert:
  assumes "blinks r h (as @ bs)" and "distinct (as @ bs)" and "t \<notin> set (as @ bs)"
    and "\<And>x. x \<notin> {t, first_ptr bs} \<Longrightarrow> r' x = r x"
    and "r' t = last (h # as)" and "bs \<noteq> [] \<Longrightarrow> r' (first_ptr bs) = t"
    and "NULL \<notin> set (as @ bs)"
  shows "blinks r' h (as @ t # bs)"
proof -
  have as: "blinks r' h as"
  proof (rule blinks_cong)
    show "blinks r h as" using assms(1) by (simp add: blinks_append)
    fix x assume "x \<in> set as"
    with assms(2,3,7) have "x \<notin> {t, first_ptr bs}" by (cases bs) auto
    then show "r' x = r x" by (rule assms(4))
  qed
  have "blinks r' t bs"
  proof (cases bs)
    case (Cons b bs')
    have "blinks r' b bs'"
    proof (rule blinks_cong)
      show "blinks r b bs'" using assms(1) Cons by (simp add: blinks_append)
      fix x assume "x \<in> set bs'"
      with assms(2,3) Cons have "x \<notin> {t, first_ptr bs}" by auto
      then show "r' x = r x" by (rule assms(4))
    qed
    with Cons assms(6) show ?thesis by simp
  qed simp
  with as assms(5) show ?thesis by (simp add: blinks_append)
qed

lemma blinks_remove:
  assumes "blinks r h (as @ t # bs)" and "distinct (as @ t # bs)"
    and "\<And>x. x \<noteq> t \<Longrightarrow> x \<noteq> first_ptr bs \<Longrightarrow> r' x = r x"
    and "bs \<noteq> [] \<Longrightarrow> r' (first_ptr bs) = r t" and "NULL \<notin> set (as @ bs)"
  shows "blinks r' h (as @ bs)"
proof -
  have as: "blinks r' h as"
  proof (rule blinks_cong)
    show "blinks r h as" using assms(1) by (simp add: blinks_append)
    fix x assume "x \<in> set as"
    with assms(2,5) have "x \<noteq> t" "x \<noteq> first_ptr bs" by (cases bs; auto)+
    then show "r' x = r x" by (rule assms(3))
  qed
  have "blinks r' (last (h # as)) bs"
  proof (cases bs)
    case (Cons b bs')
    have rt: "r t = last (h # as)" using assms(1) by (simp add: blinks_append)
    have "blinks r' b bs'"
    proof (rule blinks_cong)
      show "blinks r b bs'" using assms(1) Cons by (simp add: blinks_append)
      fix x assume "x \<in> set bs'"
      with assms(2) Cons have "x \<noteq> t" "x \<noteq> first_ptr bs" by auto
      then show "r' x = r x" by (rule assms(3))
    qed
    with Cons assms(4) rt show ?thesis by simp
  qed simp
  with as show ?thesis by (simp add: blinks_append)
qed

section \<open>Insertion by descending priority\<close>

text \<open>
  The list operation that a priority-ordered task list refines: the new element goes
  behind every element whose priority is at least its own, so tasks of equal priority
  stay in the order of their arrival.
\<close>

definition ins_prio :: "('a \<Rightarrow> 'p::linorder) \<Rightarrow> 'a \<Rightarrow> 'a list \<Rightarrow> 'a list" where
  "ins_prio f t xs = takeWhile (\<lambda>x. f t \<le> f x) xs @ t # dropWhile (\<lambda>x. f t \<le> f x) xs"

definition prio_sorted :: "('a \<Rightarrow> 'p::linorder) \<Rightarrow> 'a list \<Rightarrow> bool" where
  "prio_sorted f xs \<longleftrightarrow> sorted_wrt (\<lambda>x y. f y \<le> f x) xs"

lemma set_ins_prio [simp]: "set (ins_prio f t xs) = insert t (set xs)"
proof -
  have "set xs = set (takeWhile (\<lambda>x. f t \<le> f x) xs) \<union> set (dropWhile (\<lambda>x. f t \<le> f x) xs)"
    by (metis set_append takeWhile_dropWhile_id)
  then show ?thesis by (auto simp: ins_prio_def)
qed

lemma ins_prio_not_Nil [simp]: "ins_prio f t xs \<noteq> []"
  by (simp add: ins_prio_def)

lemma prio_sorted_simps [simp]:
  "prio_sorted f []"
  "prio_sorted f (x # xs) \<longleftrightarrow> (\<forall>y\<in>set xs. f y \<le> f x) \<and> prio_sorted f xs"
  by (auto simp: prio_sorted_def)

lemma prio_sorted_append:
  "prio_sorted f (xs @ ys) \<longleftrightarrow>
     prio_sorted f xs \<and> prio_sorted f ys \<and> (\<forall>x\<in>set xs. \<forall>y\<in>set ys. f y \<le> f x)"
  by (auto simp: prio_sorted_def sorted_wrt_append)

lemma prio_sorted_cong:
  "prio_sorted f xs \<Longrightarrow> (\<And>x. x \<in> set xs \<Longrightarrow> g x = f x) \<Longrightarrow> prio_sorted g xs"
  by (induction xs) auto

lemma ins_prio_Cons:
  "ins_prio f t (x # xs) = (if f t \<le> f x then x # ins_prio f t xs else t # x # xs)"
  by (simp add: ins_prio_def)

lemma ins_prio_Nil [simp]: "ins_prio f t [] = [t]"
  by (simp add: ins_prio_def)

lemma prio_sorted_ins_prio:
  "prio_sorted f xs \<Longrightarrow> prio_sorted f (ins_prio f t xs)"
  by (induction xs) (auto simp: ins_prio_Cons)

text \<open>Ordered lists are determined by their stable insertion: the newcomer is last of its class.\<close>

lemma filter_ins_prio:
  "prio_sorted f xs \<Longrightarrow>
     filter (\<lambda>x. f x = p) (ins_prio f t xs) =
     filter (\<lambda>x. f x = p) xs @ (if f t = p then [t] else [])"
proof (induction xs)
  case (Cons x xs)
  show ?case
  proof (cases "f t \<le> f x")
    case True
    with Cons show ?thesis by (simp add: ins_prio_Cons)
  next
    case False
    with Cons.prems have "\<forall>y\<in>set (x # xs). f y < f t" by auto
    then have "f t = p \<Longrightarrow> filter (\<lambda>x. f x = p) (x # xs) = []"
      by (auto simp: filter_empty_conv)
    with False show ?thesis by (auto simp: ins_prio_Cons)
  qed
qed simp

lemma ins_prio_cong:
  "(\<And>x. x \<in> insert t (set xs) \<Longrightarrow> f x = g x) \<Longrightarrow> ins_prio f t xs = ins_prio g t xs"
  by (induction xs) (auto simp: ins_prio_Cons)

end
