(* ===== verification/RTX_State.thy ===== *)
theory RTX_State
  imports Prelude
begin

text \<open>
  The state of the RTX kernel (\<open>src/src/mbed-rtos/rtx\<close>): the fields of its control
  blocks, its global variables, and the words of memory that task stacks, memory boxes
  and mail queues live in.

  A control block is an address; each C structure field is a function from addresses to
  values. The structures \<open>OS_TCB\<close>, \<open>OS_XCB\<close>, \<open>OS_MCB\<close>, \<open>OS_SCB\<close> and \<open>OS_MUCB\<close> of
  \<open>rt_TypeDef.h\<close> and \<open>os_tcb.h\<close> begin with \<open>cb_type\<close> and have \<open>p_lnk\<close> at the same
  offset, and the code casts between them to reach these fields, so the model has one
  field function for each of them; \<open>p_rlnk\<close>, \<open>p_dlnk\<close>, \<open>p_blnk\<close> and \<open>delta_time\<close> are
  common to \<open>OS_TCB\<close> and \<open>OS_XCB\<close>. Fields that only one structure has are named after it.
\<close>

section \<open>Constants\<close>

text \<open>Values of \<open>cb_type\<close> (\<open>rt_List.h\<close>).\<close>

abbreviation (input) TCB :: u8 where "TCB \<equiv> 0"
abbreviation (input) MCB :: u8 where "MCB \<equiv> 1"
abbreviation (input) SCB :: u8 where "SCB \<equiv> 2"
abbreviation (input) MUCB :: u8 where "MUCB \<equiv> 3"
abbreviation (input) HCB :: u8 where "HCB \<equiv> 4"

text \<open>Values of a task's \<open>state\<close> (\<open>rt_Task.h\<close>).\<close>

abbreviation (input) INACTIVE :: u8 where "INACTIVE \<equiv> 0"
abbreviation (input) READY :: u8 where "READY \<equiv> 1"
abbreviation (input) RUNNING :: u8 where "RUNNING \<equiv> 2"
abbreviation (input) WAIT_DLY :: u8 where "WAIT_DLY \<equiv> 3"
abbreviation (input) WAIT_ITV :: u8 where "WAIT_ITV \<equiv> 4"
abbreviation (input) WAIT_OR :: u8 where "WAIT_OR \<equiv> 5"
abbreviation (input) WAIT_AND :: u8 where "WAIT_AND \<equiv> 6"
abbreviation (input) WAIT_SEM :: u8 where "WAIT_SEM \<equiv> 7"
abbreviation (input) WAIT_MBX :: u8 where "WAIT_MBX \<equiv> 8"
abbreviation (input) WAIT_MUT :: u8 where "WAIT_MUT \<equiv> 9"

text \<open>Return codes (\<open>rt_Task.h\<close>).\<close>

abbreviation (input) OS_R_OK :: u32 where "OS_R_OK \<equiv> 0"
abbreviation (input) OS_R_TMO :: u32 where "OS_R_TMO \<equiv> 1"
abbreviation (input) OS_R_EVT :: u32 where "OS_R_EVT \<equiv> 2"
abbreviation (input) OS_R_SEM :: u32 where "OS_R_SEM \<equiv> 3"
abbreviation (input) OS_R_MBX :: u32 where "OS_R_MBX \<equiv> 4"
abbreviation (input) OS_R_MUT :: u32 where "OS_R_MUT \<equiv> 5"
abbreviation (input) OS_R_NOK :: u32 where "OS_R_NOK \<equiv> 0xff"

text \<open>Error codes of \<open>os_error\<close> (\<open>RTX_Conf.h\<close>) and the stack marker (\<open>rt_HAL_CM.h\<close>).\<close>

abbreviation (input) OS_ERR_STK_OVF :: u32 where "OS_ERR_STK_OVF \<equiv> 1"
abbreviation (input) OS_ERR_FIFO_OVF :: u32 where "OS_ERR_FIFO_OVF \<equiv> 2"
abbreviation (input) OS_ERR_MBX_OVF :: u32 where "OS_ERR_MBX_OVF \<equiv> 3"
abbreviation (input) MAGIC_WORD :: u32 where "MAGIC_WORD \<equiv> 0xE25A2EA5"
abbreviation (input) INITIAL_xPSR :: u32 where "INITIAL_xPSR \<equiv> 0x01000000"

section \<open>Static objects\<close>

text \<open>
  The addresses of the kernel's static objects are chosen by the linker; the model fixes
  three distinct, aligned, non-null ones. Nothing but their distinctness is used.
\<close>

definition os_rdy :: ptr where "os_rdy = 0x10000000"
definition os_dly :: ptr where "os_dly = 0x10000018"
definition os_idle_TCB :: ptr where "os_idle_TCB = 0x10000030"

lemma static_objects_distinct [simp]:
  "os_rdy \<noteq> NULL" "os_dly \<noteq> NULL" "os_idle_TCB \<noteq> NULL"
  "os_rdy \<noteq> os_dly" "os_dly \<noteq> os_rdy"
  "os_idle_TCB \<noteq> os_rdy" "os_idle_TCB \<noteq> os_dly"
  "os_rdy \<noteq> os_idle_TCB" "os_dly \<noteq> os_idle_TCB"
  by (simp_all add: os_rdy_def os_dly_def os_idle_TCB_def)

section \<open>Global structures\<close>

text \<open>The post service queue \<open>OS_PSQ\<close>: a ring of (object, argument) requests.\<close>

record os_psq_t =
  psq_first :: u8
  psq_last :: u8
  psq_count :: u8
  psq_size :: u8
  psq_q :: "(ptr \<times> u32) list"

text \<open>The round robin control \<open>OS_ROBIN\<close>.\<close>

record os_robin_t =
  rr_task :: ptr
  rr_time :: u16
  rr_tout :: u16

text \<open>
  The link-time configuration of the kernel (\<open>RTX_CM_lib.h\<close>): the round robin setting,
  the size of the post service queue, the tick length in microseconds, and the stack of
  the idle demon.
\<close>

record os_conf_t =
  os_rrobin :: u32
  os_fifo_size :: u8
  os_clockrate :: u32
  idle_task_stack :: ptr
  idle_task_stack_size :: u16
  os_idle_demon :: u32

section \<open>The kernel state\<close>

record kst =
  \<comment> \<open>fields shared by the control blocks\<close>
  cb_type :: "ptr \<Rightarrow> u8"
  p_lnk :: "ptr \<Rightarrow> ptr"
  p_rlnk :: "ptr \<Rightarrow> ptr"
  p_dlnk :: "ptr \<Rightarrow> ptr"
  p_blnk :: "ptr \<Rightarrow> ptr"
  delta_time :: "ptr \<Rightarrow> u16"
  \<comment> \<open>\<open>OS_TCB\<close>\<close>
  tstate :: "ptr \<Rightarrow> u8"
  prio :: "ptr \<Rightarrow> u8"
  task_id :: "ptr \<Rightarrow> u8"
  interval_time :: "ptr \<Rightarrow> u16"
  events :: "ptr \<Rightarrow> u16"
  waits :: "ptr \<Rightarrow> u16"
  tmsg :: "ptr \<Rightarrow> u32"
  stack_frame :: "ptr \<Rightarrow> u8"
  priv_stack :: "ptr \<Rightarrow> u16"
  tsk_stack :: "ptr \<Rightarrow> u32"
  tstack :: "ptr \<Rightarrow> ptr"
  ptask :: "ptr \<Rightarrow> u32"
  \<comment> \<open>\<open>OS_SCB\<close>\<close>
  tokens :: "ptr \<Rightarrow> u16"
  \<comment> \<open>\<open>OS_MCB\<close>\<close>
  mcb_state :: "ptr \<Rightarrow> u8"
  mcb_isr_st :: "ptr \<Rightarrow> u8"
  mcb_first :: "ptr \<Rightarrow> u16"
  mcb_last :: "ptr \<Rightarrow> u16"
  mcb_count :: "ptr \<Rightarrow> u16"
  mcb_size :: "ptr \<Rightarrow> u16"
  mcb_msg :: "ptr \<Rightarrow> u16 \<Rightarrow> u32"
  \<comment> \<open>\<open>OS_MUCB\<close>\<close>
  mu_prio :: "ptr \<Rightarrow> u8"
  mu_level :: "ptr \<Rightarrow> u16"
  mu_owner :: "ptr \<Rightarrow> ptr"
  \<comment> \<open>words of memory: stacks, memory boxes, mail queue headers\<close>
  mem :: "u32 \<Rightarrow> u32"
  \<comment> \<open>global variables\<close>
  os_active_TCB :: "ptr list"
  tsk_run :: ptr
  tsk_new :: ptr
  os_time :: u32
  os_robin :: os_robin_t
  os_psq :: os_psq_t
  os_lock :: bool
  os_psh_flag :: bool
  pend_flags :: u8
  os_tick_irqn :: int
  \<comment> \<open>the pending bits of the interrupt controller and the tick interrupt enable\<close>
  pend_sv :: bool
  pend_st :: bool
  tick_enabled :: bool
  \<comment> \<open>link-time configuration\<close>
  os_conf :: os_conf_t
  \<comment> \<open>\<open>os_timer_cb\<close> and the CMSIS layer's variables\<close>
  tm_next :: "ptr \<Rightarrow> ptr"
  tm_state :: "ptr \<Rightarrow> u8"
  tm_type :: "ptr \<Rightarrow> u8"
  tm_tcnt :: "ptr \<Rightarrow> u16"
  tm_icnt :: "ptr \<Rightarrow> u16"
  tm_arg :: "ptr \<Rightarrow> u32"
  tm_timer :: "ptr \<Rightarrow> ptr"
  os_timer_head :: ptr
  os_timer_thread :: ptr
  os_timer_queue :: ptr
  os_initialized :: bool
  os_running :: bool

section \<open>Field assignments\<close>

abbreviation "set_cb_type p v \<equiv> cb_type_update (\<lambda>h. h(p := v))"
abbreviation "set_p_lnk p v \<equiv> p_lnk_update (\<lambda>h. h(p := v))"
abbreviation "set_p_rlnk p v \<equiv> p_rlnk_update (\<lambda>h. h(p := v))"
abbreviation "set_p_dlnk p v \<equiv> p_dlnk_update (\<lambda>h. h(p := v))"
abbreviation "set_p_blnk p v \<equiv> p_blnk_update (\<lambda>h. h(p := v))"
abbreviation "set_delta_time p v \<equiv> delta_time_update (\<lambda>h. h(p := v))"
abbreviation "set_tstate p v \<equiv> tstate_update (\<lambda>h. h(p := v))"
abbreviation "set_prio p v \<equiv> prio_update (\<lambda>h. h(p := v))"
abbreviation "set_task_id p v \<equiv> task_id_update (\<lambda>h. h(p := v))"
abbreviation "set_interval_time p v \<equiv> interval_time_update (\<lambda>h. h(p := v))"
abbreviation "set_events p v \<equiv> events_update (\<lambda>h. h(p := v))"
abbreviation "set_waits p v \<equiv> waits_update (\<lambda>h. h(p := v))"
abbreviation "set_tmsg p v \<equiv> tmsg_update (\<lambda>h. h(p := v))"
abbreviation "set_stack_frame p v \<equiv> stack_frame_update (\<lambda>h. h(p := v))"
abbreviation "set_priv_stack p v \<equiv> priv_stack_update (\<lambda>h. h(p := v))"
abbreviation "set_tsk_stack p v \<equiv> tsk_stack_update (\<lambda>h. h(p := v))"
abbreviation "set_tstack p v \<equiv> tstack_update (\<lambda>h. h(p := v))"
abbreviation "set_ptask p v \<equiv> ptask_update (\<lambda>h. h(p := v))"
abbreviation "set_tokens p v \<equiv> tokens_update (\<lambda>h. h(p := v))"
abbreviation "set_mcb_state p v \<equiv> mcb_state_update (\<lambda>h. h(p := v))"
abbreviation "set_mcb_isr_st p v \<equiv> mcb_isr_st_update (\<lambda>h. h(p := v))"
abbreviation "set_mcb_first p v \<equiv> mcb_first_update (\<lambda>h. h(p := v))"
abbreviation "set_mcb_last p v \<equiv> mcb_last_update (\<lambda>h. h(p := v))"
abbreviation "set_mcb_count p v \<equiv> mcb_count_update (\<lambda>h. h(p := v))"
abbreviation "set_mcb_size p v \<equiv> mcb_size_update (\<lambda>h. h(p := v))"
abbreviation "set_mcb_msg p i v \<equiv> mcb_msg_update (\<lambda>h. h(p := (h p)(i := v)))"
abbreviation "set_mu_prio p v \<equiv> mu_prio_update (\<lambda>h. h(p := v))"
abbreviation "set_mu_level p v \<equiv> mu_level_update (\<lambda>h. h(p := v))"
abbreviation "set_mu_owner p v \<equiv> mu_owner_update (\<lambda>h. h(p := v))"
abbreviation "set_mem a v \<equiv> mem_update (\<lambda>h. h(a := v))"
abbreviation "set_tm_next p v \<equiv> tm_next_update (\<lambda>h. h(p := v))"
abbreviation "set_tm_state p v \<equiv> tm_state_update (\<lambda>h. h(p := v))"
abbreviation "set_tm_type p v \<equiv> tm_type_update (\<lambda>h. h(p := v))"
abbreviation "set_tm_tcnt p v \<equiv> tm_tcnt_update (\<lambda>h. h(p := v))"
abbreviation "set_tm_icnt p v \<equiv> tm_icnt_update (\<lambda>h. h(p := v))"
abbreviation "set_tm_arg p v \<equiv> tm_arg_update (\<lambda>h. h(p := v))"
abbreviation "set_tm_timer p v \<equiv> tm_timer_update (\<lambda>h. h(p := v))"

section \<open>The fatal error hook\<close>

text \<open>
  \<open>os_error\<close> (\<open>RTX_Conf_CM.c\<close>) only calls the board support's \<open>mbed_die\<close>, which is not
  part of the repository and from which the kernel does not come back: the model of the
  call stops there.
\<close>

definition os_error :: "u32 \<Rightarrow> kst \<Rightarrow> kst option" where
  "os_error err_code s = None"

lemma os_error_None [simp]: "os_error e s = None"
  by (simp add: os_error_def)

end
