(* ===== verification/RTX_List.thy ===== *)
theory RTX_List
  imports RTX_State
begin

text \<open>
  The kernel's task lists (\<open>rt_List.c\<close>) and the two hardware helpers its clients use
  (\<open>rt_inc_qi\<close> of \<open>rt_HAL_CM.h\<close>, the return value registers of \<open>HAL_CM.c\<close>): the
  operations as the code has them on the pointer fields, and their refinement to lists
  of tasks. \<open>qrep\<close> relates the pointer fields to one list per queue header, \<open>drep\<close> to a
  list of (task, remaining ticks).
\<close>

section \<open>Hardware helpers\<close>

text \<open>\<open>rt_ret_regs\<close>: the return value registers R0..R3 in a saved stack frame.\<close>

definition rt_ret_regs :: "ptr \<Rightarrow> kst \<Rightarrow> u32" where
  "rt_ret_regs p_TCB s = tsk_stack s p_TCB + 8*4"

definition rt_ret_val :: "ptr \<Rightarrow> u32 \<Rightarrow> kst \<Rightarrow> kst option" where
  "rt_ret_val p_TCB v0 s = do {
     chk p_TCB;
     Some (set_mem (rt_ret_regs p_TCB s) v0 s) }"

definition rt_ret_val2 :: "ptr \<Rightarrow> u32 \<Rightarrow> u32 \<Rightarrow> kst \<Rightarrow> kst option" where
  "rt_ret_val2 p_TCB v0 v1 s = do {
     chk p_TCB;
     let ret = rt_ret_regs p_TCB s;
     let s = set_mem ret v0 s;
     Some (set_mem (ret + 4) v1 s) }"

text \<open>
  \<open>rt_inc_qi\<close>: claim an entry of a ring; the result is the index of the claimed entry, or
  the size of the ring when it is full. Interrupts are disabled around it.
\<close>

definition rt_inc_qi :: "u32 \<Rightarrow> u8 \<Rightarrow> u8 \<Rightarrow> u32 \<times> u8 \<times> u8" where
  "rt_inc_qi sz cnt0 first0 =
     (let cnt = ucast cnt0 in
      if cnt < sz then
        let count' = ucast (cnt + 1);
            cnt = ucast first0;
            c2 = cnt + 1;
            c2 = (if c2 = sz then 0 else c2)
        in (cnt, count', ucast c2)
      else (cnt, cnt0, first0))"

section \<open>Ready and wait lists\<close>

text \<open>\<open>p_CB->cb_type == SCB || p_CB->cb_type == MCB || p_CB->cb_type == MUCB\<close>\<close>

definition sem_mbx :: "kst \<Rightarrow> ptr \<Rightarrow> bool" where
  "sem_mbx s p_CB \<longleftrightarrow> cb_type s p_CB = SCB \<or> cb_type s p_CB = MCB \<or> cb_type s p_CB = MUCB"

text \<open>The search loop of \<open>rt_put_prio\<close>.\<close>

partial_function (option) put_prio_loop :: "kst \<Rightarrow> u8 \<Rightarrow> ptr \<Rightarrow> ptr \<Rightarrow> (ptr \<times> ptr) option" where
  "put_prio_loop s pr p_CB p_CB2 =
     (if p_CB2 \<noteq> NULL \<and> pr \<le> prio s p_CB2
      then put_prio_loop s pr p_CB2 (p_lnk s p_CB2)
      else Some (p_CB, p_CB2))"

definition rt_put_prio :: "ptr \<Rightarrow> ptr \<Rightarrow> kst \<Rightarrow> kst option" where
  "rt_put_prio p_CB p_task s = do {
     chk p_CB;
     chk p_task;
     let sem = sem_mbx s p_CB;
     (p_CB, p_CB2) \<leftarrow> put_prio_loop s (prio s p_task) p_CB (p_lnk s p_CB);
     let s = set_p_lnk p_task p_CB2 s;
     let s = set_p_lnk p_CB p_task s;
     Some (if sem then
             let s = (if p_CB2 \<noteq> NULL then set_p_rlnk p_CB2 p_task s else s)
             in set_p_rlnk p_task p_CB s
           else set_p_rlnk p_task NULL s) }"

definition rt_get_first :: "ptr \<Rightarrow> kst \<Rightarrow> (ptr \<times> kst) option" where
  "rt_get_first p_CB s = do {
     chk p_CB;
     let p_first = p_lnk s p_CB;
     chk p_first;
     let s = set_p_lnk p_CB (p_lnk s p_first) s;
     Some (p_first,
       if sem_mbx s p_CB then
         let s = (if p_lnk s p_first \<noteq> NULL
                  then set_p_lnk p_first NULL (set_p_rlnk (p_lnk s p_first) p_CB s)
                  else s)
         in set_p_rlnk p_first NULL s
       else set_p_lnk p_first NULL s) }"

definition rt_put_rdy_first :: "ptr \<Rightarrow> kst \<Rightarrow> kst option" where
  "rt_put_rdy_first p_task s = do {
     chk p_task;
     let s = set_p_lnk p_task (p_lnk s os_rdy) s;
     let s = set_p_rlnk p_task NULL s;
     Some (set_p_lnk os_rdy p_task s) }"

definition rt_get_same_rdy_prio :: "kst \<Rightarrow> (ptr \<times> kst) option" where
  "rt_get_same_rdy_prio s = do {
     let p_first = p_lnk s os_rdy;
     chk p_first;
     chk (tsk_run s);
     if prio s p_first = prio s (tsk_run s)
     then Some (p_first, set_p_lnk os_rdy (p_lnk s (p_lnk s os_rdy)) s)
     else Some (NULL, s) }"

text \<open>\<open>rt_rdy_prio\<close> (\<open>rt_List.h\<close>): the priority of the first ready task.\<close>

definition rt_rdy_prio :: "kst \<Rightarrow> u8 option" where
  "rt_rdy_prio s = do {
     chk (p_lnk s os_rdy);
     Some (prio s (p_lnk s os_rdy)) }"

text \<open>The search loop of \<open>rt_rmv_list\<close> along the ready list.\<close>

partial_function (option) rmv_rdy_loop :: "ptr \<Rightarrow> ptr \<Rightarrow> kst \<Rightarrow> kst option" where
  "rmv_rdy_loop p_task p_b s =
     (if p_b \<noteq> NULL then
        (if p_lnk s p_b = p_task then Some (set_p_lnk p_b (p_lnk s p_task) s)
         else rmv_rdy_loop p_task (p_lnk s p_b) s)
      else Some s)"

definition rt_rmv_list :: "ptr \<Rightarrow> kst \<Rightarrow> kst option" where
  "rt_rmv_list p_task s = do {
     chk p_task;
     if p_rlnk s p_task \<noteq> NULL then
       let s = set_p_lnk (p_rlnk s p_task) (p_lnk s p_task) s in
       Some (if p_lnk s p_task \<noteq> NULL
             then set_p_rlnk (p_lnk s p_task) (p_rlnk s p_task) s
             else s)
     else rmv_rdy_loop p_task os_rdy s }"

text \<open>The loop of \<open>rt_resort_prio\<close> that finds the header of a task's wait list.\<close>

partial_function (option) resort_hdr_loop :: "kst \<Rightarrow> ptr \<Rightarrow> ptr option" where
  "resort_hdr_loop s p_CB =
     (if p_CB = NULL then None
      else if cb_type s p_CB = TCB then resort_hdr_loop s (p_rlnk s p_CB)
      else Some p_CB)"

definition rt_resort_prio :: "ptr \<Rightarrow> kst \<Rightarrow> kst option" where
  "rt_resort_prio p_task s = do {
     chk p_task;
     if p_rlnk s p_task = NULL then
       (if tstate s p_task = READY then do {
          s \<leftarrow> rt_rmv_list p_task s;
          rt_put_prio os_rdy p_task s }
        else Some s)
     else do {
       p_CB \<leftarrow> resort_hdr_loop s (p_rlnk s p_task);
       s \<leftarrow> rt_rmv_list p_task s;
       rt_put_prio p_CB p_task s } }"

section \<open>The delay list\<close>

text \<open>
  The loop of \<open>rt_put_dly\<close>. Its results are the place \<open>p\<close>, the accumulated time
  \<open>delta\<close>, and whether the end of the list was reached first.
\<close>

partial_function (option) put_dly_loop :: "kst \<Rightarrow> u32 \<Rightarrow> ptr \<Rightarrow> u32 \<Rightarrow> (bool \<times> ptr \<times> u32) option" where
  "put_dly_loop s idelay p delta =
     (if delta < idelay then
        (if p_dlnk s p = NULL then Some (True, p, delta)
         else let p = p_dlnk s p in
              put_dly_loop s idelay p (delta + ucast (delta_time s p)))
      else Some (False, p, delta))"

definition put_dly_last :: "ptr \<Rightarrow> u32 \<Rightarrow> ptr \<Rightarrow> u32 \<Rightarrow> kst \<Rightarrow> kst" where
  "put_dly_last p_task idelay p delta s =
     (let s = set_p_dlnk p_task NULL s;
          s = set_p_dlnk p p_task s;
          s = set_p_blnk p_task p s;
          s = set_delta_time p (ucast (idelay - delta)) s
      in set_delta_time p_task 0 s)"

definition rt_put_dly :: "ptr \<Rightarrow> u16 \<Rightarrow> kst \<Rightarrow> kst option" where
  "rt_put_dly p_task delay s = do {
     chk p_task;
     let idelay = ucast delay;
     if p_dlnk s os_dly = NULL then Some (put_dly_last p_task idelay os_dly 0 s)
     else do {
       (at_end, p, delta) \<leftarrow> put_dly_loop s idelay os_dly (ucast (delta_time s os_dly));
       if at_end then Some (put_dly_last p_task idelay p delta s)
       else
         let s = set_p_dlnk p_task (p_dlnk s p) s;
             s = set_p_dlnk p p_task s;
             s = set_p_blnk p_task p s;
             s = (if p_dlnk s p_task \<noteq> NULL then set_p_blnk (p_dlnk s p_task) p_task s else s);
             s = set_delta_time p_task (ucast (delta - idelay)) s
         in Some (set_delta_time p (delta_time s p - delta_time s p_task) s) } }"

text \<open>
  One round of the loop of \<open>rt_dec_dly\<close>: the first delayed task becomes ready. Its first
  statements take the task out of the wait list that it may be in.
\<close>

definition dec_dly_unlink :: "ptr \<Rightarrow> kst \<Rightarrow> kst" where
  "dec_dly_unlink p_rdy s =
     (if p_rlnk s p_rdy \<noteq> NULL then
        let s = set_p_lnk (p_rlnk s p_rdy) (p_lnk s p_rdy) s;
            s = (if p_lnk s p_rdy \<noteq> NULL
                 then set_p_lnk p_rdy NULL (set_p_rlnk (p_lnk s p_rdy) (p_rlnk s p_rdy) s)
                 else s)
        in set_p_rlnk p_rdy NULL s
      else s)"

definition dec_dly_ready :: "ptr \<Rightarrow> kst \<Rightarrow> kst" where
  "dec_dly_ready p_rdy s =
     (let s = set_delta_time os_dly (delta_time s p_rdy) s;
          s = (if tstate s p_rdy = WAIT_ITV
               then set_delta_time p_rdy (interval_time s p_rdy + ucast (os_time s)) s
               else s);
          s = set_tstate p_rdy READY s;
          s = set_p_dlnk os_dly (p_dlnk s p_rdy) s;
          s = (if p_dlnk s p_rdy \<noteq> NULL
               then set_p_dlnk p_rdy NULL (set_p_blnk (p_dlnk s p_rdy) os_dly s)
               else s)
      in set_p_blnk p_rdy NULL s)"

definition dec_dly_step :: "kst \<Rightarrow> kst option" where
  "dec_dly_step s = do {
     let p_rdy = p_dlnk s os_dly;
     let s = dec_dly_unlink p_rdy s;
     s \<leftarrow> rt_put_prio os_rdy p_rdy s;
     Some (dec_dly_ready p_rdy s) }"

partial_function (option) dec_dly_loop :: "kst \<Rightarrow> kst option" where
  "dec_dly_loop s =
     (if delta_time s os_dly = 0 \<and> p_dlnk s os_dly \<noteq> NULL
      then dec_dly_step s \<bind> dec_dly_loop
      else Some s)"

definition rt_dec_dly :: "kst \<Rightarrow> kst option" where
  "rt_dec_dly s =
     (if p_dlnk s os_dly = NULL then Some s
      else dec_dly_loop (set_delta_time os_dly (delta_time s os_dly - 1) s))"

definition rt_rmv_dly :: "ptr \<Rightarrow> kst \<Rightarrow> kst option" where
  "rt_rmv_dly p_task s = do {
     chk p_task;
     let p_b = p_blnk s p_task;
     Some (if p_b \<noteq> NULL then
             let s = set_p_dlnk p_b (p_dlnk s p_task) s;
                 s = (if p_dlnk s p_task \<noteq> NULL then
                        let s = set_delta_time p_b (delta_time s p_b + delta_time s p_task) s;
                            s = set_p_blnk (p_dlnk s p_task) p_b s
                        in set_p_dlnk p_task NULL s
                      else set_delta_time p_b 0 s)
             in set_p_blnk p_task NULL s
           else s) }"

section \<open>The post service queue\<close>

definition rt_psq_enq :: "ptr \<Rightarrow> u32 \<Rightarrow> kst \<Rightarrow> kst option" where
  "rt_psq_enq entry arg s =
     (let q = os_psq s;
          (idx, count', first') = rt_inc_qi (ucast (psq_size q)) (psq_count q) (psq_first q);
          q = q\<lparr>psq_count := count', psq_first := first'\<rparr>
      in if idx < ucast (psq_size q)
         then Some (s\<lparr>os_psq := q\<lparr>psq_q := (psq_q q)[unat idx := (entry, arg)]\<rparr>\<rparr>)
         else os_error OS_ERR_FIFO_OVF (s\<lparr>os_psq := q\<rparr>))"

section \<open>Refinement of the task lists\<close>

text \<open>
  \<open>queued H Q\<close> is the set of tasks that are in the list of some header of \<open>H\<close>.
  \<open>qrep s T H Q\<close>: \<open>T\<close> is the set of tasks, \<open>H\<close> the set of list headers (the ready
  list and the synchronisation objects), and for each header \<open>h\<close> the list at \<open>h\<close> holds
  exactly the tasks \<open>Q h\<close>. Wait lists are linked backwards through \<open>p_rlnk\<close>; a task in
  no wait list has \<open>p_rlnk == NULL\<close>, which is how the code tells the two cases apart.
\<close>

definition queued :: "ptr set \<Rightarrow> (ptr \<Rightarrow> ptr list) \<Rightarrow> ptr set" where
  "queued H Q = (\<Union>h\<in>H. set (Q h))"

definition qrep :: "kst \<Rightarrow> ptr set \<Rightarrow> ptr set \<Rightarrow> (ptr \<Rightarrow> ptr list) \<Rightarrow> bool" where
  "qrep s T H Q \<longleftrightarrow>
     os_rdy \<in> H \<and> NULL \<notin> H \<and> NULL \<notin> T \<and> H \<inter> T = {} \<and>
     cb_type s os_rdy = HCB \<and> (\<forall>h\<in>H - {os_rdy}. sem_mbx s h) \<and> (\<forall>t\<in>T. cb_type s t = TCB) \<and>
     (\<forall>h\<in>H. chain (p_lnk s) (p_lnk s h) (Q h)) \<and> (\<forall>h\<in>H. set (Q h) \<subseteq> T) \<and>
     (\<forall>h\<in>H - {os_rdy}. blinks (p_rlnk s) h (Q h)) \<and>
     (\<forall>t\<in>T - queued (H - {os_rdy}) Q. p_rlnk s t = NULL) \<and>
     (\<forall>h\<in>H. \<forall>h'\<in>H. h \<noteq> h' \<longrightarrow> set (Q h) \<inter> set (Q h') = {}) \<and>
     (\<forall>h. h \<notin> H \<longrightarrow> Q h = [])"

lemma qrepD:
  assumes "qrep s T H Q"
  shows "os_rdy \<in> H" "NULL \<notin> H" "NULL \<notin> T" "H \<inter> T = {}" "cb_type s os_rdy = HCB"
    "\<And>h. h \<in> H \<Longrightarrow> h \<noteq> os_rdy \<Longrightarrow> sem_mbx s h"
    "\<And>t. t \<in> T \<Longrightarrow> cb_type s t = TCB"
    "\<And>h. h \<in> H \<Longrightarrow> chain (p_lnk s) (p_lnk s h) (Q h)"
    "\<And>h. h \<in> H \<Longrightarrow> set (Q h) \<subseteq> T"
    "\<And>h. h \<in> H \<Longrightarrow> h \<noteq> os_rdy \<Longrightarrow> blinks (p_rlnk s) h (Q h)"
    "\<And>t. t \<in> T \<Longrightarrow> t \<notin> queued (H - {os_rdy}) Q \<Longrightarrow> p_rlnk s t = NULL"
    "\<And>h h'. h \<in> H \<Longrightarrow> h' \<in> H \<Longrightarrow> h \<noteq> h' \<Longrightarrow> set (Q h) \<inter> set (Q h') = {}"
    "\<And>h. h \<notin> H \<Longrightarrow> Q h = []"
  using assms unfolding qrep_def by blast+

lemma qrep_header: "qrep s T H Q \<Longrightarrow> h \<in> H \<Longrightarrow> h \<noteq> NULL \<and> h \<notin> T"
  unfolding qrep_def by blast

lemma qrep_distinct: "qrep s T H Q \<Longrightarrow> h \<in> H \<Longrightarrow> distinct (h # Q h)"
  using qrepD(4,8,9) [of s T H Q] chain_distinct by fastforce

lemma qrep_rdy_not_sem [simp]: "qrep s T H Q \<Longrightarrow> \<not> sem_mbx s os_rdy"
  by (simp add: sem_mbx_def qrepD)

lemma qrep_sem_iff: "qrep s T H Q \<Longrightarrow> h \<in> H \<Longrightarrow> sem_mbx s h \<longleftrightarrow> h \<noteq> os_rdy"
  using qrepD(6) by fastforce

lemma queued_upd:
  "h \<in> H \<Longrightarrow> queued H (Q(h := xs)) = set xs \<union> queued (H - {h}) Q"
  by (auto simp: queued_def split: if_splits)

lemma queuedI: "h \<in> H \<Longrightarrow> x \<in> set (Q h) \<Longrightarrow> x \<in> queued H Q"
  by (auto simp: queued_def)

lemma qrep_queued_sub: "qrep s T H Q \<Longrightarrow> G \<subseteq> H \<Longrightarrow> queued G Q \<subseteq> T"
  using qrepD(9) by (fastforce simp: queued_def)

text \<open>
  One rule serves every operation that rewrites a single queue: the new chain and the
  new backward links of that queue are given, the links of all other queues are
  untouched.
\<close>

lemma qrep_update:
  assumes rep: "qrep s T H Q" and h: "h \<in> H"
    and T': "NULL \<notin> T'" "H \<inter> T' = {}" "\<And>t. t \<in> T' \<Longrightarrow> cb_type s t = TCB"
      "queued (H - {h}) Q \<subseteq> T'" "T' \<subseteq> T \<union> set xs"
    and sub: "set xs \<subseteq> T'" and dis: "set xs \<inter> queued (H - {h}) Q = {}"
    and ch: "chain L (L h) xs"
    and frameL: "\<And>x. x \<notin> insert h (set (Q h) \<union> set xs) \<Longrightarrow> L x = p_lnk s x"
    and bl: "h \<noteq> os_rdy \<Longrightarrow> blinks R h xs"
    and frameR: "\<And>x. x \<in> T' \<Longrightarrow> x \<notin> set (Q h) \<union> set xs \<Longrightarrow> R x = p_rlnk s x"
    and nullR: "\<And>x. x \<in> T' \<Longrightarrow> x \<in> set (Q h) \<union> set xs \<Longrightarrow> h = os_rdy \<or> x \<notin> set xs
                  \<Longrightarrow> R x = NULL"
  shows "qrep (s\<lparr>p_lnk := L, p_rlnk := R\<rparr>) T' H (Q(h := xs))"
proof -
  note r = qrepD [OF rep]
  have subT: "g \<in> H \<Longrightarrow> g \<noteq> h \<Longrightarrow> set (Q g) \<subseteq> T'" for g
    using T'(4) by (auto simp: queued_def)
  have dis': "g \<in> H \<Longrightarrow> g \<noteq> h \<Longrightarrow> set (Q g) \<inter> (set (Q h) \<union> set xs) = {}" for g
    using r(12) [of g h] dis h by (auto simp: queued_def)
  have other: "chain L (L g) (Q g)" if g: "g \<in> H" "g \<noteq> h" for g
  proof -
    have "g \<notin> insert h (set (Q h) \<union> set xs)"
      using g sub T'(2) r(4) r(9) [OF h] by blast
    then have "L g = p_lnk s g" by (rule frameL)
    moreover have "L x = p_lnk s x" if "x \<in> set (Q g)" for x
      using frameL [of x] dis' [OF g] that r(4) r(9) [OF g(1)] h by blast
    ultimately show ?thesis
      using chain_cong [OF r(8) [OF g(1)], of L] by simp
  qed
  have otherb: "blinks R g (Q g)" if g: "g \<in> H" "g \<noteq> h" "g \<noteq> os_rdy" for g
  proof (rule blinks_cong [OF r(10) [OF g(1,3)]])
    fix x assume "x \<in> set (Q g)"
    then show "R x = p_rlnk s x"
      using frameR [of x] dis' [OF g(1,2)] subT [OF g(1,2)] by blast
  qed
  have nul: "R t = NULL" if t: "t \<in> T'" "t \<notin> queued (H - {os_rdy}) (Q(h := xs))" for t
  proof (cases "t \<in> set (Q h) \<union> set xs")
    case True
    moreover have "h = os_rdy \<or> t \<notin> set xs"
      using t(2) h queuedI [of h "H - {os_rdy}" t "Q(h := xs)"] by auto
    ultimately show ?thesis using nullR t(1) by blast
  next
    case False
    have "t \<notin> queued (H - {os_rdy}) Q"
    proof
      assume "t \<in> queued (H - {os_rdy}) Q"
      then obtain g where "g \<in> H - {os_rdy}" "t \<in> set (Q g)" by (auto simp: queued_def)
      with False t(2) queuedI [of g "H - {os_rdy}" t "Q(h := xs)"] show False
        by (cases "g = h") auto
    qed
    moreover have "t \<in> T" using T'(5) t(1) False by blast
    ultimately show ?thesis using frameR [OF t(1) False] r(11) by simp
  qed
  show ?thesis
    unfolding qrep_def
  proof (intro conjI ballI impI)
    fix g assume "g \<in> H"
    then show "chain (p_lnk (s\<lparr>p_lnk := L, p_rlnk := R\<rparr>))
        (p_lnk (s\<lparr>p_lnk := L, p_rlnk := R\<rparr>) g) ((Q(h := xs)) g)"
      using ch other by auto
    show "set ((Q(h := xs)) g) \<subseteq> T'" using sub subT [OF \<open>g \<in> H\<close>] by auto
    fix g' assume "g' \<in> H" "g \<noteq> g'"
    then show "set ((Q(h := xs)) g) \<inter> set ((Q(h := xs)) g') = {}"
      using r(12) [OF \<open>g \<in> H\<close> \<open>g' \<in> H\<close>] dis' [OF \<open>g \<in> H\<close>] dis' [OF \<open>g' \<in> H\<close>] by auto
  next
    fix g assume "g \<in> H - {os_rdy}"
    then show "blinks (p_rlnk (s\<lparr>p_lnk := L, p_rlnk := R\<rparr>)) g ((Q(h := xs)) g)"
      using bl otherb by auto
    show "sem_mbx (s\<lparr>p_lnk := L, p_rlnk := R\<rparr>) g"
      using r(6) \<open>g \<in> H - {os_rdy}\<close> by (simp add: sem_mbx_def)
  next
    fix t assume "t \<in> T' - queued (H - {os_rdy}) (Q(h := xs))"
    then show "p_rlnk (s\<lparr>p_lnk := L, p_rlnk := R\<rparr>) t = NULL" using nul by simp
  qed (use r(1-5,13) h T' in auto)
qed

lemma qrep_drop_task: "qrep s T H Q \<Longrightarrow> t \<notin> queued H Q \<Longrightarrow> qrep s (T - {t}) H Q"
  by (auto simp: qrep_def queued_def)

text \<open>Updates of fields that the list layer does not read keep the representation.\<close>

lemma qrep_cong:
  assumes "qrep s T H Q"
    and "p_lnk s' = p_lnk s" "p_rlnk s' = p_rlnk s" "cb_type s' = cb_type s"
  shows "qrep s' T H Q"
  using assms by (simp add: qrep_def sem_mbx_def)

lemma qrep_tstate [simp]: "qrep (tstate_update f s) T H Q = qrep s T H Q"
  by (simp add: qrep_def sem_mbx_def)

subsection \<open>\<open>rt_put_prio\<close> inserts by priority\<close>

lemma put_prio_loop_eq:
  "chain (p_lnk s) p2 xs \<Longrightarrow>
     put_prio_loop s pr p p2 =
       Some (last (p # takeWhile (\<lambda>x. pr \<le> prio s x) xs),
             first_ptr (dropWhile (\<lambda>x. pr \<le> prio s x) xs))"
proof (induction xs arbitrary: p p2)
  case Nil
  then show ?case by (simp add: put_prio_loop.simps)
next
  case (Cons x xs)
  then show ?case by (subst put_prio_loop.simps) auto
qed

text \<open>
  The task may come from outside the represented ones (\<open>rt_resort_prio\<close> inserts a task
  that it has just unlinked, whose \<open>p_rlnk\<close> is stale).
\<close>

lemma rt_put_prio_insert:
  assumes rep: "qrep s T H Q" and h: "h \<in> H"
    and t: "t \<notin> T" "t \<notin> H" "t \<noteq> NULL" "cb_type s t = TCB"
  shows "\<exists>L R. rt_put_prio h t s = Some (s\<lparr>p_lnk := L, p_rlnk := R\<rparr>) \<and>
    qrep (s\<lparr>p_lnk := L, p_rlnk := R\<rparr>) (insert t T) H (Q(h := ins_prio (prio s) t (Q h)))"
proof -
  note r = qrepD [OF rep]
  define as where "as = takeWhile (\<lambda>x. prio s t \<le> prio s x) (Q h)"
  define bs where "bs = dropWhile (\<lambda>x. prio s t \<le> prio s x) (Q h)"
  have Qh: "Q h = as @ bs" by (simp add: as_def bs_def)
  have ins: "ins_prio (prio s) t (Q h) = as @ t # bs"
    by (simp add: ins_prio_def as_def bs_def)
  define q where "q = last (h # as)"
  define L where "L = (p_lnk s)(t := first_ptr bs, q := t)"
  define R where "R = (if h = os_rdy then (p_rlnk s)(t := NULL)
    else if bs = [] then (p_rlnk s)(t := q)
    else (p_rlnk s)(first_ptr bs := t, t := q))"
  have nn: "h \<noteq> NULL" "h \<noteq> t" using r(2) h t by auto
  have tQ: "t \<notin> set (as @ bs)" using t(1) r(9) [OF h] Qh by auto
  have dis: "distinct (h # as @ bs)" using qrep_distinct [OF rep h] Qh by simp
  have ch: "chain (p_lnk s) (p_lnk s h) (as @ bs)" using r(8) [OF h] Qh by simp
  have nul: "NULL \<notin> set (as @ bs)" by (rule chain_NULL_notin [OF ch])
  have qin: "q \<in> insert h (set as)" unfolding q_def by (rule last_in_set_hd)
  have loop: "put_prio_loop s (prio s t) h (p_lnk s h) = Some (q, first_ptr bs)"
    using put_prio_loop_eq [OF r(8) [OF h]] by (simp only: q_def as_def bs_def)
  have nb: "first_ptr bs = NULL \<longleftrightarrow> bs = []" using nul by (cases bs) auto
  have tb: "bs \<noteq> [] \<Longrightarrow> first_ptr bs \<noteq> t" using tQ by (auto intro: first_ptr_notin)
  have run: "rt_put_prio h t s = Some (s\<lparr>p_lnk := L, p_rlnk := R\<rparr>)"
    using nn t loop qrep_sem_iff [OF rep h]
    by (auto simp: rt_put_prio_def L_def R_def nb fun_upd_def)
  have "qrep (s\<lparr>p_lnk := L, p_rlnk := R\<rparr>) (insert t T) H (Q(h := as @ t # bs))"
  proof (rule qrep_update [OF rep h])
    show "set (as @ t # bs) \<subseteq> insert t T" using r(9) [OF h] Qh by auto
    show "queued (H - {h}) Q \<subseteq> insert t T" using r(9) by (auto simp: queued_def)
    have "set (as @ t # bs) \<inter> set (Q g) = {}" if "g \<in> H" "g \<noteq> h" for g
      using r(9) [OF that(1)] r(12) [OF h that(1)] that(2) t(1) Qh by auto
    then show "set (as @ t # bs) \<inter> queued (H - {h}) Q = {}"
      by (auto simp: queued_def)
    show "chain L (L h) (as @ t # bs)"
      using chain_insert [OF ch dis t(3)] nn tQ by (simp add: L_def q_def)
    show "blinks R h (as @ t # bs)" if "h \<noteq> os_rdy"
    proof (rule blinks_insert [where r = "p_rlnk s"])
      show "blinks (p_rlnk s) h (as @ bs)" using r(10) [OF h that] Qh by simp
    qed (use that dis tQ nul nb tb in \<open>auto simp: R_def q_def\<close>)
    fix x
    show "L x = p_lnk s x" if "x \<notin> insert h (set (Q h) \<union> set (as @ t # bs))"
      using that qin by (auto simp: L_def)
    show "R x = p_rlnk s x" if "x \<in> insert t T" "x \<notin> set (Q h) \<union> set (as @ t # bs)"
      using that by (cases bs) (auto simp: R_def)
    show "R x = NULL" if "x \<in> insert t T" "x \<in> set (Q h) \<union> set (as @ t # bs)"
        "h = os_rdy \<or> x \<notin> set (as @ t # bs)"
    proof (cases "x = t")
      case False
      with that Qh have "h = os_rdy" "x \<in> set (Q h)" "x \<in> T" by auto
      then have "x \<notin> queued (H - {os_rdy}) Q"
        using r(12) h by (auto simp: queued_def)
      with r(11) False \<open>h = os_rdy\<close> \<open>x \<in> T\<close> show ?thesis by (simp add: R_def)
    qed (use that in \<open>auto simp: R_def\<close>)
  qed (use r t in auto)
  with run show ?thesis unfolding ins by blast
qed

lemma rt_put_prio_qrep:
  assumes rep: "qrep s T H Q" and h: "h \<in> H" and t: "t \<in> T" "t \<notin> queued H Q"
  shows "\<exists>L R. rt_put_prio h t s = Some (s\<lparr>p_lnk := L, p_rlnk := R\<rparr>) \<and>
    qrep (s\<lparr>p_lnk := L, p_rlnk := R\<rparr>) T H (Q(h := ins_prio (prio s) t (Q h)))"
proof -
  have "t \<notin> H" "t \<noteq> NULL" "cb_type s t = TCB" using qrepD [OF rep] t(1) by auto
  with rt_put_prio_insert [OF qrep_drop_task [OF rep t(2)] h, of t] t(1)
  show ?thesis by (simp add: insert_absorb)
qed

subsection \<open>The other list operations\<close>

lemma rt_get_first_qrep:
  assumes rep: "qrep s T H Q" and h: "h \<in> H" and Qh: "Q h = t # xs"
  shows "\<exists>L R. rt_get_first h s = Some (t, s\<lparr>p_lnk := L, p_rlnk := R\<rparr>) \<and>
    qrep (s\<lparr>p_lnk := L, p_rlnk := R\<rparr>) T H (Q(h := xs))"
proof -
  note r = qrepD [OF rep]
  have ch: "chain (p_lnk s) (p_lnk s h) (t # xs)" using r(8) [OF h] Qh by simp
  have dis: "distinct (h # t # xs)" using qrep_distinct [OF rep h] Qh by simp
  have t: "p_lnk s h = t" "t \<noteq> NULL" "p_lnk s t = first_ptr xs"
    using ch chain_first_ptr by auto
  have nx: "first_ptr xs = NULL \<longleftrightarrow> xs = []" using ch chain_NULL_notin by (cases xs) auto
  define L where "L = (p_lnk s)(h := first_ptr xs, t := NULL)"
  define R where "R = (if h = os_rdy then p_rlnk s
    else if xs = [] then (p_rlnk s)(t := NULL)
    else (p_rlnk s)(first_ptr xs := h, t := NULL))"
  have "h \<noteq> NULL" using r(2) h by auto
  then have run: "rt_get_first h s = Some (t, s\<lparr>p_lnk := L, p_rlnk := R\<rparr>)"
    using t nx dis qrep_sem_iff [OF rep h]
    by (auto simp: rt_get_first_def L_def R_def sem_mbx_def fun_upd_def fun_eq_iff
        intro!: kst.equality)
  have "qrep (s\<lparr>p_lnk := L, p_rlnk := R\<rparr>) T H (Q(h := xs))"
  proof (rule qrep_update [OF rep h])
    show "set xs \<inter> queued (H - {h}) Q = {}"
      using r(12) h Qh by (fastforce simp: queued_def)
    have "chain (p_lnk s) (first_ptr xs) xs" using ch t by simp
    then have "chain L (first_ptr xs) xs" by (rule chain_cong) (use dis in \<open>auto simp: L_def\<close>)
    then show "chain L (L h) xs" using dis by (simp add: L_def)
    show "blinks R h xs" if "h \<noteq> os_rdy"
    proof -
      have "blinks (p_rlnk s) h ([] @ t # xs)" using r(10) [OF h that] Qh by simp
      from blinks_remove [OF this, of R] show ?thesis
        using that dis ch chain_NULL_notin [OF ch] r(10) [OF h that] Qh
        by (auto simp: R_def first_ptr_notin)
    qed
    fix x
    show "R x = p_rlnk s x" if "x \<in> T" "x \<notin> set (Q h) \<union> set xs"
      using that Qh by (cases xs) (auto simp: R_def)
    show "R x = NULL" if "x \<in> T" "x \<in> set (Q h) \<union> set xs" "h = os_rdy \<or> x \<notin> set xs"
    proof (cases "h = os_rdy")
      case True
      with that Qh have "x \<in> set (Q os_rdy)" by auto
      then have "x \<notin> queued (H - {os_rdy}) Q" using r(1,12) by (auto simp: queued_def)
      with r(11) that True show ?thesis by (simp add: R_def)
    qed (use that Qh in \<open>auto simp: R_def\<close>)
    show "queued (H - {h}) Q \<subseteq> T" by (rule qrep_queued_sub [OF rep]) auto
    show "set xs \<subseteq> T" using r(9) [OF h] Qh by auto
    show "L x = p_lnk s x" if "x \<notin> insert h (set (Q h) \<union> set xs)"
      using that Qh by (auto simp: L_def)
  qed (use r in auto)
  with run show ?thesis by blast
qed

lemma rt_put_rdy_first_qrep:
  assumes rep: "qrep s T H Q" and t: "t \<in> T" "t \<notin> queued H Q"
  shows "\<exists>L R. rt_put_rdy_first t s = Some (s\<lparr>p_lnk := L, p_rlnk := R\<rparr>) \<and>
    qrep (s\<lparr>p_lnk := L, p_rlnk := R\<rparr>) T H (Q(os_rdy := t # Q os_rdy))"
proof -
  note r = qrepD [OF rep]
  define L where "L = (p_lnk s)(t := p_lnk s os_rdy, os_rdy := t)"
  define R where "R = (p_rlnk s)(t := NULL)"
  have nn: "t \<noteq> NULL" "t \<noteq> os_rdy" "t \<notin> set (Q os_rdy)"
    using r(1,3,4) t by (auto simp: queued_def)
  then have run: "rt_put_rdy_first t s = Some (s\<lparr>p_lnk := L, p_rlnk := R\<rparr>)"
    by (simp add: rt_put_rdy_first_def L_def R_def)
  have "qrep (s\<lparr>p_lnk := L, p_rlnk := R\<rparr>) T H (Q(os_rdy := t # Q os_rdy))"
  proof (rule qrep_update [OF rep r(1)])
    have "chain L (p_lnk s os_rdy) (Q os_rdy)"
      using r(8) [OF r(1)] by (rule chain_cong) (use nn qrep_distinct [OF rep r(1)] in \<open>auto simp: L_def\<close>)
    then show "chain L (L os_rdy) (t # Q os_rdy)" using nn by (simp add: L_def)
    have "set (t # Q os_rdy) \<inter> set (Q g) = {}" if "g \<in> H" "g \<noteq> os_rdy" for g
      using r(12) [OF r(1) that(1)] that t(2) by (auto simp: queued_def)
    then show "set (t # Q os_rdy) \<inter> queued (H - {os_rdy}) Q = {}"
      by (auto simp: queued_def)
    show "R x = NULL" if "x \<in> T" "x \<in> set (Q os_rdy) \<union> set (t # Q os_rdy)" for x
    proof (cases "x = t")
      case False
      then have "x \<notin> queued (H - {os_rdy}) Q" using r(1,12) that by (auto simp: queued_def)
      with r(11) that False show ?thesis by (simp add: R_def)
    qed (simp add: R_def)
    show "queued (H - {os_rdy}) Q \<subseteq> T" by (rule qrep_queued_sub [OF rep]) auto
    show "set (t # Q os_rdy) \<subseteq> T" using r(9) [OF r(1)] t by auto
  qed (use r in \<open>auto simp: L_def R_def\<close>)
  with run show ?thesis by blast
qed

lemma qrep_unlink:
  assumes rep: "qrep s T H Q" and h: "h \<in> H" and Qh: "Q h = as @ t # bs"
    and L: "\<And>x. x \<noteq> t \<Longrightarrow> L x = ((p_lnk s)(last (h # as) := first_ptr bs)) x"
    and R: "\<And>x. x \<noteq> t \<Longrightarrow> R x = (if h \<noteq> os_rdy \<and> bs \<noteq> [] \<and> x = first_ptr bs
                                      then last (h # as) else p_rlnk s x)"
    and T': "T' = T - {t} \<or> T' = T \<and> R t = NULL"
  shows "qrep (s\<lparr>p_lnk := L, p_rlnk := R\<rparr>) T' H (Q(h := as @ bs))"
proof (rule qrep_update [OF rep h])
  note r = qrepD [OF rep]
  have ch: "chain (p_lnk s) (p_lnk s h) (as @ t # bs)" using r(8) [OF h] Qh by simp
  have dis: "distinct (h # as @ t # bs)" using qrep_distinct [OF rep h] Qh by simp
  have lt: "p_lnk s t = first_ptr bs"
    using chain_next_last [of "p_lnk s" h "as @ [t]" bs] ch by simp
  have q: "last (h # as) \<in> insert h (set as)" by (rule last_in_set_hd)
  have qt: "last (h # as) \<noteq> t" using q dis by auto
  show "chain L (L h) (as @ bs)"
  proof -
    define M where "M = (p_lnk s)(last (h # as) := first_ptr bs)"
    have "chain M (M h) (as @ bs)"
      using chain_remove [OF ch dis] by (simp only: M_def lt)
    moreover have "L h = M h" using L [of h] dis by (auto simp: M_def)
    ultimately have "chain M (L h) (as @ bs)" by simp
    then show ?thesis
    proof (rule chain_cong)
      fix x assume "x \<in> set (as @ bs)"
      then have "x \<noteq> t" using dis by auto
      then show "L x = M x" using L by (simp add: M_def)
    qed
  qed
  show "blinks R h (as @ bs)" if "h \<noteq> os_rdy"
  proof (rule blinks_remove)
    show bl: "blinks (p_rlnk s) h (as @ t # bs)" using r(10) [OF h that] Qh by simp
    show "R (first_ptr bs) = p_rlnk s t" if "bs \<noteq> []"
      using R [of "first_ptr bs"] that \<open>h \<noteq> os_rdy\<close> dis bl
      by (auto simp: blinks_append first_ptr_notin)
    show "R x = p_rlnk s x" if "x \<noteq> t" "x \<noteq> first_ptr bs" for x
      using R that by auto
  qed (use dis chain_NULL_notin [OF ch] in auto)
  have sub: "set (Q h) \<subseteq> T" by (rule r(9) [OF h])
  have "set (as @ bs) \<inter> set (Q g) = {}" if "g \<in> H" "g \<noteq> h" for g
    using r(12) [OF h that(1)] that(2) Qh by auto
  then show "set (as @ bs) \<inter> queued (H - {h}) Q = {}" by (auto simp: queued_def)
  have "t \<notin> queued (H - {h}) Q" using r(12) [OF h] Qh by (auto simp: queued_def)
  then show "queued (H - {h}) Q \<subseteq> T'" using qrep_queued_sub [OF rep, of "H - {h}"] T' by auto
  show "set (as @ bs) \<subseteq> T'" using sub Qh dis T' by auto
  fix x
  show "L x = p_lnk s x" if "x \<notin> insert h (set (Q h) \<union> set (as @ bs))"
    using L [of x] that q Qh by auto
  show "R x = p_rlnk s x" if "x \<in> T'" "x \<notin> set (Q h) \<union> set (as @ bs)"
    using R [of x] that Qh by auto
  show "R x = NULL"
    if "x \<in> T'" "x \<in> set (Q h) \<union> set (as @ bs)" "h = os_rdy \<or> x \<notin> set (as @ bs)"
  proof (cases "x = t")
    case False
    with that Qh have h: "h = os_rdy" "x \<in> set (Q h)" by auto
    then have "x \<notin> queued (H - {os_rdy}) Q" using r(1,12) by (auto simp: queued_def)
    then show ?thesis using R [of x] r(11) sub h False by auto
  qed (use that T' in auto)
qed (use qrepD [OF rep] T' in auto)

lemma rmv_rdy_loop_eq:
  "chain (p_lnk s) (p_lnk s b) (as @ t # bs) \<Longrightarrow> distinct (b # as @ t # bs) \<Longrightarrow> b \<noteq> NULL \<Longrightarrow>
     rmv_rdy_loop t b s = Some (set_p_lnk (last (b # as)) (p_lnk s t) s)"
proof (induction as arbitrary: b)
  case Nil
  then show ?case by (subst rmv_rdy_loop.simps) simp
next
  case (Cons a as)
  then have a: "p_lnk s b = a" "a \<noteq> t" "a \<noteq> NULL" "b \<noteq> NULL" by auto
  have "rmv_rdy_loop t a s = Some (set_p_lnk (last (a # as)) (p_lnk s t) s)"
    by (rule Cons.IH) (use Cons.prems a in auto)
  with a show ?case by (subst rmv_rdy_loop.simps) (simp only: last_ConsR if_True if_False simp_thms list.distinct)
qed

lemma qrep_rlnk:
  assumes "qrep s T H Q" and "h \<in> H" and "Q h = as @ t # bs"
  shows "p_rlnk s t = (if h = os_rdy then NULL else last (h # as))"
    and "last (h # as) \<noteq> NULL"
proof -
  note r = qrepD [OF assms(1)]
  have "h = os_rdy \<Longrightarrow> t \<notin> queued (H - {os_rdy}) Q"
    using r(12) [OF assms(2)] assms(3) by (auto simp: queued_def)
  moreover have "t \<in> T" using r(9) [OF assms(2)] assms(3) by auto
  moreover have "h \<noteq> os_rdy \<Longrightarrow> blinks (p_rlnk s) h (as @ t # bs)"
    using r(10) assms(2,3) by metis
  ultimately show "p_rlnk s t = (if h = os_rdy then NULL else last (h # as))"
    using r(11) by (auto simp: blinks_append)
  have "set as \<subseteq> T" using r(9) [OF assms(2)] assms(3) by auto
  then show "last (h # as) \<noteq> NULL" using last_in_set_hd [of h as] r(2,3) assms(2) by auto
qed

lemma qrep_lnk:
  assumes "qrep s T H Q" and "h \<in> H" and "Q h = as @ t # bs"
  shows "p_lnk s t = first_ptr bs" and "first_ptr bs = NULL \<longleftrightarrow> bs = []"
proof -
  have ch: "chain (p_lnk s) (p_lnk s h) (as @ t # bs)"
    using qrepD(8) [OF assms(1,2)] assms(3) by simp
  then show "p_lnk s t = first_ptr bs"
    using chain_next_last [of "p_lnk s" h "as @ [t]" bs] by simp
  show "first_ptr bs = NULL \<longleftrightarrow> bs = []"
    using chain_NULL_notin [OF ch] by (cases bs) auto
qed

lemma rt_rmv_list_qrep:
  assumes rep: "qrep s T H Q" and h: "h \<in> H" and Qh: "Q h = as @ t # bs"
  shows "\<exists>L R. rt_rmv_list t s = Some (s\<lparr>p_lnk := L, p_rlnk := R\<rparr>) \<and>
    qrep (s\<lparr>p_lnk := L, p_rlnk := R\<rparr>) (T - {t}) H (Q(h := as @ bs))"
proof -
  define q where "q = last (h # as)"
  define L where "L = (p_lnk s)(q := first_ptr bs)"
  define R where "R = (if h \<noteq> os_rdy \<and> bs \<noteq> [] then (p_rlnk s)(first_ptr bs := q) else p_rlnk s)"
  have dis: "distinct (h # as @ t # bs)" using qrep_distinct [OF rep h] Qh by simp
  have "q \<in> insert h (set as)" unfolding q_def by (rule last_in_set_hd)
  then have qt: "q \<noteq> t" using dis by auto
  have ch: "chain (p_lnk s) (p_lnk s h) (as @ t # bs)" using qrepD(8) [OF rep h] Qh by simp
  have tn: "t \<noteq> NULL" using chain_nonnull [OF ch] by simp
  note f = qrep_rlnk [OF rep h Qh, folded q_def] qrep_lnk [OF rep h Qh]
  have "rt_rmv_list t s = Some (s\<lparr>p_lnk := L, p_rlnk := R\<rparr>)"
  proof (cases "h = os_rdy")
    case True
    with rmv_rdy_loop_eq [OF ch dis] tn f show ?thesis
      by (simp add: rt_rmv_list_def L_def R_def q_def)
  next
    case False
    with tn f qt show ?thesis
      by (auto simp: rt_rmv_list_def Let_def L_def R_def fun_upd_def)
  qed
  moreover have "qrep (s\<lparr>p_lnk := L, p_rlnk := R\<rparr>) (T - {t}) H (Q(h := as @ bs))"
    by (rule qrep_unlink [OF rep h Qh]) (auto simp: L_def R_def q_def)
  ultimately show ?thesis by blast
qed

subsection \<open>\<open>rt_resort_prio\<close> moves a task to its place\<close>

lemma resort_hdr_loop_eq:
  assumes "h \<noteq> NULL" and "cb_type s h \<noteq> TCB"
  shows "blinks (p_rlnk s) h as \<Longrightarrow> \<forall>x\<in>set as. x \<noteq> NULL \<and> cb_type s x = TCB \<Longrightarrow>
     resort_hdr_loop s (last (h # as)) = Some h"
proof (induction as rule: rev_induct)
  case Nil
  with assms show ?case by (subst resort_hdr_loop.simps) simp
next
  case (snoc a as)
  then have "p_rlnk s a = last (h # as)" by (simp add: blinks_append)
  with snoc show ?case by (subst resort_hdr_loop.simps) (simp add: blinks_append)
qed

lemma rt_resort_prio_qrep:
  assumes rep: "qrep s T H Q" and h: "h \<in> H" and t: "t \<in> set (Q h)"
    and rdy: "h = os_rdy \<Longrightarrow> tstate s t = READY"
  shows "\<exists>L R. rt_resort_prio t s = Some (s\<lparr>p_lnk := L, p_rlnk := R\<rparr>) \<and>
    qrep (s\<lparr>p_lnk := L, p_rlnk := R\<rparr>) T H
      (Q(h := ins_prio (prio s) t (remove1 t (Q h))))"
proof -
  note r = qrepD [OF rep]
  obtain as bs where Qh: "Q h = as @ t # bs" using t by (auto simp: in_set_conv_decomp)
  have dis: "distinct (as @ t # bs)" using qrep_distinct [OF rep h] Qh by simp
  then have rem: "remove1 t (Q h) = as @ bs" by (simp add: Qh remove1_append)
  have tT: "t \<in> T" "t \<noteq> NULL" "t \<notin> H" using r(3,4) r(9) [OF h] t by auto
  have tc: "cb_type s t = TCB" by (rule r(7) [OF tT(1)])
  obtain L1 R1 where
    s1: "rt_rmv_list t s = Some (s\<lparr>p_lnk := L1, p_rlnk := R1\<rparr>)"
    and rep1: "qrep (s\<lparr>p_lnk := L1, p_rlnk := R1\<rparr>) (T - {t}) H (Q(h := as @ bs))"
    using rt_rmv_list_qrep [OF rep h Qh] by blast
  obtain L R where
    s2: "rt_put_prio h t (s\<lparr>p_lnk := L1, p_rlnk := R1\<rparr>) = Some (s\<lparr>p_lnk := L, p_rlnk := R\<rparr>)"
    and rep2: "qrep (s\<lparr>p_lnk := L, p_rlnk := R\<rparr>) (insert t (T - {t})) H
                 (Q(h := ins_prio (prio s) t (as @ bs)))"
    using rt_put_prio_insert [OF rep1 h, of t] tT tc by simp blast
  have "rt_resort_prio t s = Some (s\<lparr>p_lnk := L, p_rlnk := R\<rparr>)"
  proof (cases "h = os_rdy")
    case True
    with qrep_rlnk [OF rep h Qh] rdy s1 s2 tT(2) show ?thesis
      by (simp add: rt_resort_prio_def)
  next
    case False
    have "h \<noteq> NULL" using r(2) h by auto
    moreover have "cb_type s h \<noteq> TCB" using r(6) [OF h False] by (auto simp: sem_mbx_def)
    moreover have bl: "blinks (p_rlnk s) h as"
      using r(10) [OF h False] Qh by (simp add: blinks_append)
    moreover have "\<forall>x\<in>set as. x \<noteq> NULL \<and> cb_type s x = TCB"
      using r(3,7) set_mp [OF r(9) [OF h]] Qh by auto
    ultimately have "resort_hdr_loop s (last (h # as)) = Some h"
      by (rule resort_hdr_loop_eq)
    with qrep_rlnk [OF rep h Qh] False s1 s2 tT(2) show ?thesis
      by (simp add: rt_resort_prio_def)
  qed
  moreover from rep2 tT(1)
  have "qrep (s\<lparr>p_lnk := L, p_rlnk := R\<rparr>) T H (Q(h := ins_prio (prio s) t (remove1 t (Q h))))"
    by (simp add: rem insert_absorb)
  ultimately show ?thesis by blast
qed

lemma rt_resort_prio_unqueued:
  assumes "qrep s T H Q" and "t \<in> T" "t \<notin> queued H Q" and "tstate s t \<noteq> READY"
  shows "rt_resort_prio t s = Some s"
proof -
  have "t \<notin> queued (H - {os_rdy}) Q" using assms(3) by (auto simp: queued_def)
  then have "p_rlnk s t = NULL" and "t \<noteq> NULL" using qrepD(3,11) assms(1,2) by auto
  with assms(4) show ?thesis by (simp add: rt_resort_prio_def)
qed

end
