(* ===== verification/Alarms.thy ===== *)
theory Alarms
  imports Prelude
begin

text \<open>
  Lists of alarms in a heap, as the kernel timers and the timeouts of the network stack keep
  them: the elements are linked in the order of expiry, and each holds the time from the
  expiry of the element before it to its own. \<open>alarms l d L\<close> reads such a list, with the
  links \<open>l\<close> and the time differences \<open>d\<close>, as the list \<open>L\<close> of (element, remaining time) pairs.
  The head of the list is the link of the address \<open>NULL\<close>, as the search loops use it.
\<close>

section \<open>Elements and times\<close>

text \<open>The last element of a list of alarms and its time; \<open>p\<close> and \<open>b\<close> stand before the list.\<close>

definition last_ptr :: "ptr \<Rightarrow> (ptr \<times> nat) list \<Rightarrow> ptr" where
  "last_ptr p D = last (p # map fst D)"

definition last_time :: "nat \<Rightarrow> (ptr \<times> nat) list \<Rightarrow> nat" where
  "last_time b D = last (b # map snd D)"

fun tseg :: "(ptr \<Rightarrow> 'w::len word) \<Rightarrow> nat \<Rightarrow> (ptr \<times> nat) list \<Rightarrow> bool" where
  "tseg d b [] \<longleftrightarrow> True"
| "tseg d b ((x, n) # L) \<longleftrightarrow> n = b + unat (d x) \<and> tseg d n L"

definition alarms :: "(ptr \<Rightarrow> ptr) \<Rightarrow> (ptr \<Rightarrow> 'w::len word) \<Rightarrow> (ptr \<times> nat) list \<Rightarrow> bool" where
  "alarms l d L \<longleftrightarrow> chain l (l NULL) (map fst L) \<and> tseg d 0 L \<and> (\<forall>(x, n)\<in>set L. n < 2 ^ LENGTH('w))"

text \<open>A new alarm goes behind every alarm that expires no later.\<close>

definition ins_tm :: "ptr \<Rightarrow> nat \<Rightarrow> (ptr \<times> nat) list \<Rightarrow> (ptr \<times> nat) list" where
  "ins_tm t d L = takeWhile (\<lambda>(_, n). n \<le> d) L @ (t, d) # dropWhile (\<lambda>(_, n). n \<le> d) L"

text \<open>\<open>w\<close> units of time pass.\<close>

definition elapse :: "nat \<Rightarrow> (ptr \<times> nat) list \<Rightarrow> (ptr \<times> nat) list" where
  "elapse w L = map (\<lambda>(x, n). (x, n - w)) L"

lemma last_ptr_simps [simp]:
  "last_ptr p [] = p" "last_ptr p ((x, n) # D) = last_ptr x D"
  "last_ptr p (D @ [(x, n)]) = x"
  by (simp_all add: last_ptr_def)

lemma last_time_simps [simp]:
  "last_time b [] = b" "last_time b ((x, n) # D) = last_time n D"
  "last_time b (D @ [(x, n)]) = n"
  by (simp_all add: last_time_def)

lemma last_ptr_in: "last_ptr p D \<in> insert p (fst ` set D)"
  using last_in_set_hd [of p "map fst D"] by (simp add: last_ptr_def)

lemma tseg_cong: "tseg d b L \<Longrightarrow> (\<And>x. x \<in> fst ` set L \<Longrightarrow> d' x = d x) \<Longrightarrow> tseg d' b L"
  by (induction d b L rule: tseg.induct) auto

lemma tseg_append: "tseg d b (A @ B) \<longleftrightarrow> tseg d b A \<and> tseg d (last_time b A) B"
  by (induction d b A rule: tseg.induct) auto

lemma tseg_sorted: "tseg d b L \<Longrightarrow> sorted (map snd L) \<and> (\<forall>n\<in>set (map snd L). b \<le> n)"
  by (induction d b L rule: tseg.induct) (auto intro: le_trans)

lemma tseg_elapse: "w \<le> b \<Longrightarrow> tseg d b L \<Longrightarrow> tseg d (b - w) (elapse w L)"
  by (induction d b L rule: tseg.induct) (auto simp: elapse_def)

lemma fst_elapse [simp]: "map fst (elapse w L) = map fst L"
  by (simp add: elapse_def split_def)

lemma fst_set_elapse [simp]: "fst ` set (elapse w L) = fst ` set L"
  by (metis fst_elapse set_map)

lemma elapse_bound:
  "(\<And>x n. (x, n) \<in> set L \<Longrightarrow> n < b) \<Longrightarrow> \<forall>(x, n)\<in>set (elapse w L). n < b"
  by (fastforce simp: elapse_def)

lemma set_ins_tm [simp]: "set (ins_tm t d L) = insert (t, d) (set L)"
proof -
  have "set L = set (takeWhile (\<lambda>(_, n). n \<le> d) L) \<union> set (dropWhile (\<lambda>(_, n). n \<le> d) L)"
    by (metis set_append takeWhile_dropWhile_id)
  then show ?thesis by (auto simp: ins_tm_def)
qed

lemma last_time_takeWhile_le: "last_time 0 (takeWhile (\<lambda>(_, n). n \<le> k) L) \<le> k"
proof (cases "takeWhile (\<lambda>(_, n). n \<le> k) L" rule: rev_cases)
  case (snoc A a)
  then have "a \<in> set (takeWhile (\<lambda>(_, n). n \<le> k) L)" by simp
  then have "(\<lambda>(_, n). n \<le> k) a" by (rule set_takeWhileD [THEN conjunct2])
  with snoc show ?thesis by (cases a) simp
qed simp

lemma alarmsD:
  fixes d :: "ptr \<Rightarrow> 'w::len word"
  assumes "alarms l d L"
  shows "chain l (l NULL) (map fst L)" "tseg d 0 L"
    "\<And>x n. (x, n) \<in> set L \<Longrightarrow> n < 2 ^ LENGTH('w)" "distinct (NULL # map fst L)"
proof -
  show ch: "chain l (l NULL) (map fst L)" "tseg d 0 L" using assms unfolding alarms_def by blast+
  show "n < 2 ^ LENGTH('w)" if "(x, n) \<in> set L" for x n using assms that unfolding alarms_def by blast
  show "distinct (NULL # map fst L)" using chain_distinct [OF ch(1)] chain_NULL_notin [OF ch(1)] by simp
qed

lemma first_ptr_dropWhile:
  "first_ptr (map fst (dropWhile P L)) \<in> insert NULL (fst ` set L)"
proof (cases "dropWhile P L")
  case Nil
  then show ?thesis unfolding Nil by simp
next
  case (Cons a B)
  then have "a \<in> set L" by (metis list.set_intros(1) set_dropWhileD)
  then show ?thesis unfolding Cons by simp
qed

lemma first_ptr_nonnull:
  "NULL \<notin> set xs \<Longrightarrow> xs \<noteq> [] \<Longrightarrow> first_ptr xs \<noteq> NULL"
  by (cases xs) auto

section \<open>Insertion, removal and the passing of time\<close>

text \<open>The links and differences that an insertion of \<open>t\<close> with the time \<open>k\<close> has to leave.\<close>

lemma alarms_insert:
  fixes d d' :: "ptr \<Rightarrow> 'w::len word"
  assumes rep: "alarms l d L" and t: "t \<noteq> NULL" "t \<notin> fst ` set L" and k: "k < 2 ^ LENGTH('w)"
    and A: "A = takeWhile (\<lambda>(_, n). n \<le> k) L" and B: "B = dropWhile (\<lambda>(_, n). n \<le> k) L"
    and link: "l' = l(t := first_ptr (map fst B), last_ptr NULL A := t)"
    and e: "unat (d' t) = k - last_time 0 A"
    and p: "B \<noteq> [] \<Longrightarrow> d' (first_ptr (map fst B)) = d (first_ptr (map fst B)) - d' t"
    and o: "\<And>x. x \<noteq> t \<Longrightarrow> x \<noteq> first_ptr (map fst B) \<Longrightarrow> d' x = d x"
  shows "alarms l' d' (ins_tm t k L)"
proof -
  note r = alarmsD [OF rep]
  have L: "L = A @ B" by (simp add: A B)
  define m q where "m = last_time 0 A" and "q = first_ptr (map fst B)"
  have mk: "m \<le> k" using last_time_takeWhile_le by (simp add: m_def A)
  have ch: "chain l' (l' NULL) (map fst (A @ (t, k) # B))"
    unfolding link last_ptr_def map_append list.map fst_conv by (rule chain_insert) (use r(1,4) L t in auto)
  have segA: "tseg d' 0 A"
  proof (rule tseg_cong)
    show "tseg d 0 A" using r(2) L by (simp add: tseg_append)
    fix x assume x: "x \<in> fst ` set A"
    then have "x \<noteq> t" using t(2) L by auto
    moreover have "q \<in> insert NULL (fst ` set B)" by (cases B) (auto simp: q_def)
    moreover have "x \<notin> insert NULL (fst ` set B)" using x r(4) L by auto
    ultimately show "d' x = d x" using o unfolding q_def by blast
  qed
  have segB: "tseg d' k B"
  proof (cases B)
    case (Cons b B')
    obtain n where b: "b = (q, n)" using Cons by (cases b) (simp add: q_def)
    have "\<not> (\<lambda>(_, n). n \<le> k) (hd B)" unfolding B by (rule hd_dropWhile) (use Cons B in simp)
    then have kn: "k < n" using Cons b by simp
    have seg: "n = m + unat (d q)" "tseg d n B'"
      using r(2) unfolding L Cons b tseg_append tseg.simps m_def by blast+
    have "d' t \<le> d q" using e seg(1) kn by (simp add: word_le_nat_alt m_def)
    then have "unat (d' q) = unat (d q) - (k - m)"
      using p Cons e by (simp add: q_def unat_sub m_def)
    then have "n = k + unat (d' q)" using seg(1) mk kn by simp
    moreover have "tseg d' n B'"
    proof (rule tseg_cong [OF seg(2)])
      fix x assume "x \<in> fst ` set B'"
      then have "x \<noteq> t" "x \<noteq> q" using t(2) r(4) L Cons b by auto
      then show "d' x = d x" using o unfolding q_def by blast
    qed
    ultimately show ?thesis using Cons b by simp
  qed simp
  have "alarms l' d' (A @ (t, k) # B)"
    unfolding alarms_def using ch segA segB e mk r(3) L k m_def by (auto simp: tseg_append)
  then show ?thesis by (simp add: ins_tm_def A B)
qed

lemma alarms_remove:
  fixes d d' :: "ptr \<Rightarrow> 'w::len word"
  assumes rep: "alarms l d (A @ (t, n) # B)"
    and link: "l' = l(last_ptr NULL A := l t)"
    and p: "B \<noteq> [] \<Longrightarrow> d' (first_ptr (map fst B)) = d (first_ptr (map fst B)) + d t"
    and o: "\<And>x. x \<noteq> NULL \<Longrightarrow> x \<noteq> t \<Longrightarrow> x \<noteq> first_ptr (map fst B) \<Longrightarrow> d' x = d x"
  shows "alarms l' d' (A @ B)"
proof -
  note r = alarmsD [OF rep]
  have dist: "distinct (NULL # map fst A @ t # map fst B)" using r(4) by simp
  define m q where "m = last_time 0 A" and "q = first_ptr (map fst B)"
  have "l t = q" using chain_next_last [of l NULL "map fst A @ [t]" "map fst B"] r(1) by (simp add: q_def)
  then have ch: "chain l' (l' NULL) (map fst (A @ B))"
    unfolding link last_ptr_def using chain_remove [of l NULL "map fst A" t "map fst B"] r(1) dist by simp
  have seg: "tseg d 0 A" "n = m + unat (d t)" "tseg d n B"
    using r(2) unfolding tseg_append tseg.simps m_def by blast+
  have segA: "tseg d' 0 A"
  proof (rule tseg_cong [OF seg(1)])
    fix x assume "x \<in> fst ` set A"
    moreover have "q \<in> insert NULL (fst ` set B)" by (cases B) (auto simp: q_def)
    moreover have "fst ` set A \<inter> insert NULL (insert t (fst ` set B)) = {}" using dist by auto
    ultimately have "x \<noteq> NULL" "x \<noteq> t" "x \<noteq> q" by blast+
    then show "d' x = d x" using o unfolding q_def by blast
  qed
  have segB: "tseg d' m B"
  proof (cases B)
    case (Cons b B')
    obtain k where b: "b = (q, k)" using Cons by (cases b) (simp add: q_def)
    have k: "k = n + unat (d q)" "tseg d k B'" using seg(3) unfolding Cons b tseg.simps by blast+
    have "k < 2 ^ LENGTH('w)" using r(3) [of q k] Cons b by simp
    then have "unat (d' q) = unat (d q) + unat (d t)"
      using p Cons k(1) seg(2) by (simp add: q_def unat_word_ariths)
    moreover have "tseg d' k B'"
    proof (rule tseg_cong [OF k(2)])
      fix x assume "x \<in> fst ` set B'"
      then have "x \<noteq> NULL" "x \<noteq> t" "x \<noteq> q" using dist Cons b by auto
      then show "d' x = d x" using o unfolding q_def by blast
    qed
    ultimately show ?thesis using Cons b k(1) seg(2) by simp
  qed simp
  show ?thesis unfolding alarms_def using ch segA segB r(3) m_def by (auto simp: tseg_append)
qed

text \<open>Time passes, no more than the first alarm still has to wait.\<close>

lemma alarms_elapse:
  fixes d d' :: "ptr \<Rightarrow> 'w::len word"
  assumes rep: "alarms l d ((x, n) # L)" and w: "w \<le> n"
    and x: "unat (d' x) = n - w" and o: "\<And>y. y \<in> fst ` set L \<Longrightarrow> d' y = d y"
  shows "alarms l d' (elapse w ((x, n) # L))"
proof -
  note r = alarmsD [OF rep]
  have "tseg d' n L" by (rule tseg_cong [where d = d]) (use r(2) o in auto)
  then have "tseg d' (n - w) (elapse w L)" using tseg_elapse w by blast
  then have "tseg d' 0 (elapse w ((x, n) # L))" using x by (simp add: elapse_def)
  moreover have "\<forall>(y, k)\<in>set (elapse w ((x, n) # L)). k < 2 ^ LENGTH('w)"
    by (rule elapse_bound) (rule r(3))
  ultimately show ?thesis using r(1) unfolding alarms_def fst_elapse by blast
qed

text \<open>The first alarm is taken off when its time has passed.\<close>

lemma alarms_pop:
  fixes d :: "ptr \<Rightarrow> 'w::len word"
  assumes rep: "alarms l d ((x, n) # L)"
  shows "alarms (l(NULL := l x)) d (elapse n L)"
proof -
  note r = alarmsD [OF rep]
  have "tseg d n L" using r(2) unfolding tseg.simps by blast
  then have "tseg d 0 (elapse n L)" using tseg_elapse [of n n d L] by simp
  moreover have "chain l (l x) (map fst L)" using r(1) by simp
  then have "chain (l(NULL := l x)) (l x) (map fst L)" using r(4) by (simp add: chain_upd)
  moreover have "\<forall>(y, k)\<in>set (elapse n L). k < 2 ^ LENGTH('w)"
    by (rule elapse_bound) (use r(3) in auto)
  ultimately show ?thesis unfolding alarms_def fst_elapse by simp
qed

end
