(* ===== verification/RTX_Delay.thy ===== *)
theory RTX_Delay
  imports RTX_List Alarms
begin

text \<open>
  Refinement of the delay list of \<open>rt_List.c\<close>. The code keeps time differences between
  neighbours in \<open>delta_time\<close>; \<open>drep\<close> reads them as a list of (task, remaining ticks)
  pairs in the order of expiry, and each operation is shown to act on that list as its
  comment says.
\<close>

section \<open>Accumulated delays\<close>

text \<open>
  \<open>dseg d p b D\<close>: starting at the node \<open>p\<close>, which expires \<open>b\<close> ticks from now, the nodes
  of \<open>D\<close> expire at the times \<open>D\<close> lists: each node's \<open>delta_time\<close> is the time from its
  own expiry to that of its successor.
\<close>

fun dseg :: "(ptr \<Rightarrow> u16) \<Rightarrow> ptr \<Rightarrow> nat \<Rightarrow> (ptr \<times> nat) list \<Rightarrow> bool" where
  "dseg d p b [] \<longleftrightarrow> True"
| "dseg d p b ((x, n) # D) \<longleftrightarrow> n = b + unat (d p) \<and> dseg d x n D"

lemma dseg_append:
  "dseg d p b (A @ B) \<longleftrightarrow> dseg d p b A \<and> dseg d (last_ptr p A) (last_time b A) B"
  by (induction A arbitrary: p b) auto

lemma dseg_cong:
  "dseg d p b D \<Longrightarrow> (\<And>x. x \<in> insert p (fst ` set D) \<Longrightarrow> x \<noteq> last_ptr p D \<Longrightarrow> d' x = d x) \<Longrightarrow>
     distinct (p # map fst D) \<Longrightarrow> dseg d' p b D"
proof (induction D arbitrary: p b)
  case (Cons a D)
  obtain x n where a: "a = (x, n)" by (cases a)
  have "p \<noteq> last_ptr x D" using last_ptr_in [of x D] Cons.prems(3) a by auto
  then have "d' p = d p" using Cons.prems(2) [of p] a by simp
  moreover have "dseg d' x n D"
    by (rule Cons.IH) (use Cons.prems a in auto)
  ultimately show ?case using Cons.prems(1) a by simp
qed simp

lemma dseg_mono: "dseg d p b D \<Longrightarrow> (x, n) \<in> set D \<Longrightarrow> b \<le> n"
  by (induction D arbitrary: p b) fastforce+

lemma dseg_sorted: "dseg d p b D \<Longrightarrow> sorted (map snd D)"
proof (induction D arbitrary: p b)
  case (Cons a D)
  then show ?case by (cases a) (auto dest: dseg_mono)
qed simp

text \<open>The insertion that \<open>rt_put_dly\<close> refines: before the first task that expires no earlier.\<close>

definition ins_dly :: "ptr \<Rightarrow> nat \<Rightarrow> (ptr \<times> nat) list \<Rightarrow> (ptr \<times> nat) list" where
  "ins_dly t d D = takeWhile (\<lambda>(_, n). n < d) D @ (t, d) # dropWhile (\<lambda>(_, n). n < d) D"

lemma set_ins_dly [simp]: "set (ins_dly t d D) = insert (t, d) (set D)"
proof -
  have "set D = set (takeWhile (\<lambda>(_, n). n < d) D) \<union> set (dropWhile (\<lambda>(_, n). n < d) D)"
    by (metis set_append takeWhile_dropWhile_id)
  then show ?thesis by (auto simp: ins_dly_def)
qed

section \<open>Representation of the delay list\<close>

definition drep :: "kst \<Rightarrow> ptr set \<Rightarrow> (ptr \<times> nat) list \<Rightarrow> bool" where
  "drep s T D \<longleftrightarrow>
     os_dly \<notin> T \<and> NULL \<notin> T \<and> fst ` set D \<subseteq> T \<and>
     chain (p_dlnk s) (p_dlnk s os_dly) (map fst D) \<and>
     blinks (p_blnk s) os_dly (map fst D) \<and>
     (\<forall>t\<in>T - fst ` set D. p_blnk s t = NULL) \<and>
     dseg (delta_time s) os_dly 0 D \<and> delta_time s (last_ptr os_dly D) = 0 \<and>
     (\<forall>(t, n)\<in>set D. n < 65536)"

lemma drepD:
  assumes "drep s T D"
  shows "os_dly \<notin> T" "NULL \<notin> T" "fst ` set D \<subseteq> T"
    "chain (p_dlnk s) (p_dlnk s os_dly) (map fst D)"
    "blinks (p_blnk s) os_dly (map fst D)"
    "\<And>t. t \<in> T \<Longrightarrow> t \<notin> fst ` set D \<Longrightarrow> p_blnk s t = NULL"
    "dseg (delta_time s) os_dly 0 D" "delta_time s (last_ptr os_dly D) = 0"
    "\<And>t n. (t, n) \<in> set D \<Longrightarrow> n < 65536"
  using assms unfolding drep_def by auto

lemma drep_cong:
  assumes "drep s T D" "p_dlnk s' = p_dlnk s" "p_blnk s' = p_blnk s"
    "\<And>x. x = os_dly \<or> x \<in> fst ` set D \<Longrightarrow> delta_time s' x = delta_time s x"
  shows "drep s' T D"
proof -
  note r = drepD [OF assms(1)]
  have "dseg (delta_time s') os_dly 0 D"
    by (rule dseg_cong [OF r(7)])
       (use assms(4) chain_distinct [OF r(4)] r(1,3) in auto)
  moreover have "delta_time s' (last_ptr os_dly D) = 0"
    using r(8) assms(4) [of "last_ptr os_dly D"] last_ptr_in [of os_dly D] by auto
  ultimately show ?thesis using assms(1-3) unfolding drep_def by auto
qed

lemma drep_distinct: "drep s T D \<Longrightarrow> distinct (os_dly # map fst D)"
  using drepD(1,3,4) [of s T D] chain_distinct by fastforce

section \<open>\<open>rt_put_dly\<close>\<close>

lemma put_dly_loop_eq:
  fixes delay :: u16
  assumes "chain (p_dlnk s) (p_dlnk s p) (map fst D)"
    and "dseg (delta_time s) p b D" and "delta_time s (last_ptr p D) = 0"
    and "\<forall>(t, n)\<in>set D. n < 65536" and "b < 65536"
    and "unat delta = b + unat (delta_time s p)"
    and "D \<noteq> [] \<or> b < unat delay"
  shows "put_dly_loop s (ucast delay) p delta =
    (let A = takeWhile (\<lambda>(_, n). n < unat delay) D; B = dropWhile (\<lambda>(_, n). n < unat delay) D in
     if B = [] then Some (True, last_ptr p A, of_nat (last_time b A))
     else Some (False, last_ptr p A, of_nat (snd (hd B))))"
  using assms
proof (induction D arbitrary: p b delta)
  case Nil
  then have "unat delta = b" "b < unat delay" by auto
  then have "delta < ucast delay" "delta = of_nat b"
    by (auto simp: word_less_nat_alt)
  with Nil show ?case by (subst put_dly_loop.simps) simp
next
  case (Cons a D)
  obtain x n where a: "a = (x, n)" by (cases a)
  from Cons.prems a have n: "unat delta = n" "n < 65536" "p_dlnk s p = x" "x \<noteq> NULL" by auto
  have lt: "delta < ucast delay \<longleftrightarrow> n < unat delay"
    using n(1) by (simp add: word_less_nat_alt)
  show ?case
  proof (cases "n < unat delay")
    case False
    then have "\<not> delta < ucast delay" and "delta = of_nat n" using lt n(1) by auto
    with False a show ?thesis by (subst put_dly_loop.simps) simp
  next
    case True
    have "n + unat (delta_time s x) < 65536"
      using Cons.prems(2,3,4) a n(2) by (cases D) auto
    then have "unat (delta + ucast (delta_time s x)) = n + unat (delta_time s x)"
      using n(1) by (simp add: unat_word_ariths)
    then have "put_dly_loop s (ucast delay) x (delta + ucast (delta_time s x)) =
      (let A = takeWhile (\<lambda>(_, n). n < unat delay) D; B = dropWhile (\<lambda>(_, n). n < unat delay) D in
       if B = [] then Some (True, last_ptr x A, of_nat (last_time n A))
       else Some (False, last_ptr x A, of_nat (snd (hd B))))"
      by (intro Cons.IH) (use Cons.prems a n True in auto)
    with True lt n a show ?thesis by (subst put_dly_loop.simps) (simp add: Let_def)
  qed
qed

text \<open>
  The common part of the two ways in which \<open>rt_put_dly\<close> links the task: behind the node
  \<open>last_ptr os_dly A\<close> and before \<open>B\<close>.
\<close>

lemma drep_insert:
  assumes rep: "drep s T (A @ B)" and t: "t \<in> T" "t \<notin> fst ` set (A @ B)"
    and d: "d < 65536" "last_time 0 A \<le> d" "B \<noteq> [] \<Longrightarrow> d \<le> snd (hd B)"
    and L: "p_dlnk s' = (p_dlnk s)(t := first_ptr (map fst B), last_ptr os_dly A := t)"
    and R: "\<And>x. x \<notin> {t, first_ptr (map fst B)} \<Longrightarrow> p_blnk s' x = p_blnk s x"
      "p_blnk s' t = last_ptr os_dly A" "B \<noteq> [] \<Longrightarrow> p_blnk s' (fst (hd B)) = t"
    and X: "\<And>x. x \<notin> {t, last_ptr os_dly A} \<Longrightarrow> delta_time s' x = delta_time s x"
      "unat (delta_time s' (last_ptr os_dly A)) = d - last_time 0 A"
      "unat (delta_time s' t) = (if B = [] then 0 else snd (hd B) - d)"
  shows "drep s' T (A @ (t, d) # B)"
proof -
  note r = drepD [OF rep]
  have dis: "distinct (os_dly # map fst A @ map fst B)"
    using drep_distinct [OF rep] by simp
  have tn: "t \<noteq> NULL" "t \<noteq> os_dly" using r(1,2) t(1) by auto
  have tin: "t \<notin> set (os_dly # map fst A @ map fst B)" using t(2) tn by auto
  have qin: "last_ptr os_dly A \<in> insert os_dly (fst ` set A)" by (rule last_ptr_in)
  have ch: "chain (p_dlnk s') (p_dlnk s' os_dly) (map fst A @ t # map fst B)"
    unfolding L last_ptr_def
    by (rule chain_insert) (use r(4) dis tn tin in auto)
  have nul: "NULL \<notin> set (map fst A @ map fst B)" using chain_NULL_notin [OF r(4)] by simp
  have bl: "blinks (p_blnk s') os_dly (map fst A @ t # map fst B)"
  proof (rule blinks_insert [where r = "p_blnk s"])
    show "p_blnk s' (first_ptr (map fst B)) = t" if "map fst B \<noteq> []"
      using R(3) that by (cases B) auto
  qed (use r(5) R dis tin nul in \<open>auto simp: last_ptr_def\<close>)
  have seg: "dseg (delta_time s') os_dly 0 A"
  proof (rule dseg_cong [where d = "delta_time s"])
    show "dseg (delta_time s) os_dly 0 A" using r(7) by (simp add: dseg_append)
    fix x assume "x \<in> insert os_dly (fst ` set A)" "x \<noteq> last_ptr os_dly A"
    moreover from this tin have "x \<noteq> t" by (auto simp: image_iff)
    ultimately show "delta_time s' x = delta_time s x" by (intro X(1)) auto
  qed (use dis in auto)
  have segB: "dseg (delta_time s') t d B \<and> delta_time s' (last_ptr t B) = 0"
  proof (cases B)
    case Nil
    with X(3) show ?thesis by (simp add: unat_eq_0)
  next
    case (Cons b B')
    obtain x n where b: "b = (x, n)" by (cases b)
    have seg1: "dseg (delta_time s) x n B'" using r(7) unfolding Cons b dseg_append dseg.simps by blast
    have z: "delta_time s (last_ptr x B') = 0"
      using r(8) Cons b by (cases "B' = []") (auto simp: last_ptr_def)
    have frame: "delta_time s' y = delta_time s y" if "y \<in> insert x (fst ` set B')" for y
    proof (rule X(1))
      have "y \<in> set (map fst B)" using that Cons b by auto
      moreover have "set (map fst B) \<inter> insert os_dly (fst ` set A) = {}" using dis by auto
      moreover have "t \<notin> set (map fst B)" using tin by simp
      ultimately have "y \<noteq> t" "y \<notin> insert os_dly (fst ` set A)" by blast+
      then show "y \<notin> {t, last_ptr os_dly A}" using qin by auto
    qed
    have "dseg (delta_time s') x n B'"
      by (rule dseg_cong [OF seg1]) (use frame dis Cons b in simp_all)
    moreover have "delta_time s' (last_ptr x B') = 0"
      using frame [OF last_ptr_in] z by simp
    moreover have "n = d + unat (delta_time s' t)" using X(3) d(3) Cons b by simp
    ultimately show ?thesis using Cons b by simp
  qed
  have "dseg (delta_time s') os_dly 0 (A @ (t, d) # B)"
    using seg segB X(2) d(2) by (simp add: dseg_append)
  moreover have "delta_time s' (last_ptr os_dly (A @ (t, d) # B)) = 0"
    using segB by (simp add: last_ptr_def)
  moreover have "p_blnk s' x = NULL" if "x \<in> T" "x \<notin> fst ` set (A @ (t, d) # B)" for x
  proof -
    have "x \<noteq> first_ptr (map fst B)" using that r(2) by (cases B) auto
    then show ?thesis using that R(1) [of x] r(6) [of x] by auto
  qed
  ultimately show ?thesis
    unfolding drep_def using r(1,2,3,9) t d(1) ch bl by auto
qed

lemma last_time_takeWhile: "0 < d \<Longrightarrow> last_time 0 (takeWhile (\<lambda>(_, n). n < d) D) < d"
proof (cases "takeWhile (\<lambda>(_, n). n < d) D" rule: rev_cases)
  case (snoc A a)
  then have "a \<in> set (takeWhile (\<lambda>(_, n). n < d) D)" by simp
  then have "(\<lambda>(_, n). n < d) a" by (rule set_takeWhileD [THEN conjunct2])
  with snoc show ?thesis by (cases a) simp
qed simp

lemma rt_put_dly_drep:
  assumes rep: "drep s T D" and t: "t \<in> T" "t \<notin> fst ` set D" and delay: "0 < unat delay"
  shows "\<exists>L B X. rt_put_dly t delay s = Some (s\<lparr>p_dlnk := L, p_blnk := B, delta_time := X\<rparr>) \<and>
    drep (s\<lparr>p_dlnk := L, p_blnk := B, delta_time := X\<rparr>) T (ins_dly t (unat delay) D)"
proof -
  note r = drepD [OF rep]
  define d where "d = unat delay"
  define A where "A = takeWhile (\<lambda>(_, n). n < d) D"
  define B where "B = dropWhile (\<lambda>(_, n). n < d) D"
  have D: "D = A @ B" by (simp add: A_def B_def)
  define q where "q = last_ptr os_dly A"
  define m where "m = last_time 0 A"
  have md: "m < d" using last_time_takeWhile delay by (simp add: m_def A_def d_def)
  have tn: "t \<noteq> NULL" "t \<noteq> os_dly" using r(1,2) t(1) by auto
  have d: "d < 65536" by (simp add: d_def)
  have "q \<in> insert os_dly (fst ` set A)" unfolding q_def by (rule last_ptr_in)
  then have qt: "q \<noteq> t" using t tn D by auto
  have loop: "D \<noteq> [] \<Longrightarrow> put_dly_loop s (ucast delay) os_dly (ucast (delta_time s os_dly)) =
    (if B = [] then Some (True, q, of_nat m) else Some (False, q, of_nat (snd (hd B))))"
  proof -
    assume "D \<noteq> []"
    have "\<forall>(t, n)\<in>set D. n < 65536" using r(9) by blast
    from put_dly_loop_eq [OF r(4,7,8) this, of "ucast (delta_time s os_dly)" delay] \<open>D \<noteq> []\<close>
    show ?thesis by (simp only: q_def m_def A_def B_def d_def Let_def) simp
  qed
  have ne: "p_dlnk s os_dly = NULL \<longleftrightarrow> D = []" using r(4) by (cases D) auto
  show ?thesis
  proof (cases "B = []")
    case True
    define X where "X = (delta_time s)(q := ucast (ucast delay - of_nat m :: u32), t := 0)"
    let ?s' = "s\<lparr>p_dlnk := (p_dlnk s)(t := NULL, q := t), p_blnk := (p_blnk s)(t := q), delta_time := X\<rparr>"
    have "rt_put_dly t delay s = Some ?s'"
    proof (cases "D = []")
      case True
      then have "q = os_dly" "m = 0" by (simp_all add: q_def m_def A_def)
      with True ne tn show ?thesis
        by (simp add: rt_put_dly_def put_dly_last_def X_def Let_def)
    next
      case False
      with True ne tn loop show ?thesis
        by (simp add: rt_put_dly_def put_dly_last_def X_def Let_def)
    qed
    moreover have "drep ?s' T (A @ (t, d) # B)"
    proof (rule drep_insert)
      show "unat (delta_time ?s' (last_ptr os_dly A)) = d - last_time 0 A"
        using qt md by (simp add: X_def q_def [symmetric] m_def [symmetric] unat_narrow_diff d_def)
    qed (use True rep D t d md qt in \<open>auto simp: q_def m_def X_def\<close>)
    ultimately show ?thesis unfolding ins_dly_def A_def B_def d_def by blast
  next
    case False
    then obtain b n B' where B: "B = (b, n) # B'" by (cases B) auto
    have "(b, n) \<in> set D" using B D by simp
    then have "n < 65536" by (rule r(9))
    moreover have "\<not> (\<lambda>(_, n). n < d) (hd B)"
      unfolding B_def by (rule hd_dropWhile) (use False in \<open>simp add: B_def\<close>)
    ultimately have n: "d \<le> n" "n < 65536" using B by auto
    have Dne: "D \<noteq> []" using B D by auto
    have "b \<in> T" "b \<noteq> t" using r(3) t D B by auto
    then have bn: "b \<noteq> NULL" "b \<noteq> t" using r(2) by auto
    define e where "e = (ucast (of_nat n - ucast delay :: u32) :: u16)"
    have ue: "unat e = n - d"
      using n by (simp add: e_def unat_narrow_diff d_def)
    have "dseg (delta_time s) q m B" using r(7) D by (simp add: dseg_append q_def m_def)
    then have nq: "n = m + unat (delta_time s q)" using B by simp
    have lq: "p_dlnk s q = b"
      using chain_next_last [of "p_dlnk s" os_dly "map fst A" "map fst B"] r(4) D B
      by (simp add: q_def last_ptr_def)
    let ?s' = "s\<lparr>p_dlnk := (p_dlnk s)(t := b, q := t), p_blnk := (p_blnk s)(t := q, b := t),
                 delta_time := (delta_time s)(t := e, q := delta_time s q - e)\<rparr>"
    have "rt_put_dly t delay s = Some ?s'"
      using loop Dne False ne tn qt lq bn B
      by (simp add: rt_put_dly_def Let_def e_def)
    moreover have "drep ?s' T (A @ (t, d) # B)"
    proof (rule drep_insert)
      have "e \<le> delta_time s q" using ue nq md n by (simp add: word_le_nat_alt)
      then show "unat (delta_time ?s' (last_ptr os_dly A)) = d - last_time 0 A"
        using ue nq n md by (simp add: q_def [symmetric] m_def [symmetric] unat_diff_u16)
    qed (use B rep D t d md n qt ue bn in \<open>auto simp: q_def m_def\<close>)
    ultimately show ?thesis unfolding ins_dly_def A_def B_def d_def by blast
  qed
qed

section \<open>\<open>rt_rmv_dly\<close>\<close>

lemma drep_remove:
  assumes rep: "drep s T (A @ (t, n) # B)"
    and L: "\<And>x. x \<noteq> t \<Longrightarrow> p_dlnk s' x = ((p_dlnk s)(last_ptr os_dly A := first_ptr (map fst B))) x"
    and R: "\<And>x. x \<noteq> t \<Longrightarrow> x \<noteq> first_ptr (map fst B) \<Longrightarrow> p_blnk s' x = p_blnk s x"
      "B \<noteq> [] \<Longrightarrow> p_blnk s' (fst (hd B)) = last_ptr os_dly A" "p_blnk s' t = NULL"
    and X: "\<And>x. x \<notin> {t, last_ptr os_dly A} \<Longrightarrow> delta_time s' x = delta_time s x"
      "unat (delta_time s' (last_ptr os_dly A)) = (if B = [] then 0 else snd (hd B) - last_time 0 A)"
  shows "drep s' T (A @ B)"
proof -
  note r = drepD [OF rep]
  let ?q = "last_ptr os_dly A"
  have dis: "distinct (os_dly # map fst A @ t # map fst B)"
    using drep_distinct [OF rep] by simp
  have ch: "chain (p_dlnk s) (p_dlnk s os_dly) (map fst A @ t # map fst B)" using r(4) by simp
  have lt: "p_dlnk s t = first_ptr (map fst B)"
    using chain_next_last [of "p_dlnk s" os_dly "map fst A @ [t]" "map fst B"] ch by simp
  have qin: "?q \<in> insert os_dly (fst ` set A)" by (rule last_ptr_in)
  have ch': "chain (p_dlnk s') (p_dlnk s' os_dly) (map fst A @ map fst B)"
  proof -
    define M where "M = (p_dlnk s)(?q := first_ptr (map fst B))"
    have "chain M (M os_dly) (map fst A @ map fst B)"
      using chain_remove [OF ch dis] by (simp only: M_def lt last_ptr_def)
    moreover have "p_dlnk s' os_dly = M os_dly" using L [of os_dly] dis by (simp add: M_def)
    ultimately have "chain M (p_dlnk s' os_dly) (map fst A @ map fst B)" by simp
    then show ?thesis
    proof (rule chain_cong)
      fix x assume "x \<in> set (map fst A @ map fst B)"
      moreover have "t \<notin> set (map fst A @ map fst B)" using dis by simp
      ultimately have "x \<noteq> t" by blast
      then show "p_dlnk s' x = M x" using L by (simp add: M_def)
    qed
  qed
  have bl: "blinks (p_blnk s') os_dly (map fst A @ map fst B)"
  proof (rule blinks_remove)
    show b: "blinks (p_blnk s) os_dly (map fst A @ t # map fst B)" using r(5) by simp
    show "p_blnk s' (first_ptr (map fst B)) = p_blnk s t" if "map fst B \<noteq> []"
      using R(2) that b by (cases B) (auto simp: blinks_append last_ptr_def)
  qed (use dis R(1) chain_NULL_notin [OF ch] in auto)
  have seg: "dseg (delta_time s') os_dly 0 A"
  proof (rule dseg_cong [where d = "delta_time s"])
    show "dseg (delta_time s) os_dly 0 A" using r(7) by (simp add: dseg_append)
    fix x assume x: "x \<in> insert os_dly (fst ` set A)" "x \<noteq> ?q"
    moreover have "t \<notin> insert os_dly (fst ` set A)" using dis by auto
    ultimately have "x \<noteq> t" by blast
    with x show "delta_time s' x = delta_time s x" by (intro X(1)) auto
  qed (use dis in auto)
  have segB: "dseg (delta_time s') ?q (last_time 0 A) B \<and> delta_time s' (last_ptr ?q B) = 0"
  proof (cases B)
    case Nil
    with X(2) show ?thesis by (simp add: unat_eq_0)
  next
    case (Cons b B')
    obtain x m where b: "b = (x, m)" by (cases b)
    have frame: "delta_time s' y = delta_time s y" if "y \<in> insert x (fst ` set B')" for y
    proof (rule X(1))
      have "y \<in> set (map fst B)" using that Cons b by auto
      moreover have "set (map fst B) \<inter> insert t (insert os_dly (fst ` set A)) = {}" using dis by auto
      ultimately show "y \<notin> {t, ?q}" using qin by blast
    qed
    have seg0: "dseg (delta_time s) ?q (last_time 0 A) ((t, n) # (x, m) # B')"
      using r(7) Cons b by (simp only: dseg_append)
    then have seg1: "dseg (delta_time s) x m B'" and "last_time 0 A \<le> m" by auto
    have "dseg (delta_time s') x m B'"
      by (rule dseg_cong [OF seg1]) (use frame dis Cons b in simp_all)
    moreover have "delta_time s' (last_ptr x B') = 0"
      using frame [OF last_ptr_in] r(8) Cons b by (simp add: last_ptr_def split: if_splits)
    ultimately show ?thesis using Cons b X(2) \<open>last_time 0 A \<le> m\<close> by simp
  qed
  have "delta_time s' (last_ptr os_dly (A @ B)) = 0"
    using segB by (cases "B = []") (auto simp: last_ptr_def)
  moreover have "p_blnk s' x = NULL" if "x \<in> T" "x \<notin> fst ` set (A @ B)" for x
  proof (cases "x = t")
    case False
    have "x \<noteq> first_ptr (map fst B)" using that r(2) by (cases B) auto
    then show ?thesis using that R(1) [OF False] r(6) [of x] False by auto
  qed (simp add: R(3))
  ultimately show ?thesis
    unfolding drep_def using r(1,2,3,9) ch' bl seg segB by (auto simp: dseg_append)
qed

lemma rt_rmv_dly_notin:
  "drep s T D \<Longrightarrow> t \<in> T \<Longrightarrow> t \<notin> fst ` set D \<Longrightarrow> rt_rmv_dly t s = Some s"
  using drepD(2,6) [of s T D] by (auto simp: rt_rmv_dly_def)

lemma rt_rmv_dly_drep:
  assumes rep: "drep s T (A @ (t, n) # B)"
  shows "\<exists>L R X. rt_rmv_dly t s = Some (s\<lparr>p_dlnk := L, p_blnk := R, delta_time := X\<rparr>) \<and>
    drep (s\<lparr>p_dlnk := L, p_blnk := R, delta_time := X\<rparr>) T (A @ B)"
proof -
  note r = drepD [OF rep]
  define q where "q = last_ptr os_dly A"
  define m where "m = last_time 0 A"
  have dis: "distinct (os_dly # map fst A @ t # map fst B)"
    using drep_distinct [OF rep] by simp
  have ch: "chain (p_dlnk s) (p_dlnk s os_dly) (map fst A @ t # map fst B)" using r(4) by simp
  have lt: "p_dlnk s t = first_ptr (map fst B)"
    using chain_next_last [of "p_dlnk s" os_dly "map fst A @ [t]" "map fst B"] ch by simp
  have nul: "NULL \<notin> set (map fst A @ t # map fst B)" by (rule chain_NULL_notin [OF ch])
  have bt: "p_blnk s t = q" using r(5) by (simp add: blinks_append q_def last_ptr_def)
  have qin: "q \<in> insert os_dly (fst ` set A)" unfolding q_def by (rule last_ptr_in)
  then have q: "q \<noteq> t" "q \<noteq> NULL" using dis nul by auto
  have seg0: "dseg (delta_time s) q m ((t, n) # B)" using r(7) by (simp only: dseg_append q_def m_def)
  show ?thesis
  proof (cases B)
    case Nil
    let ?s' = "s\<lparr>p_dlnk := (p_dlnk s)(q := NULL), p_blnk := (p_blnk s)(t := NULL),
                 delta_time := (delta_time s)(q := 0)\<rparr>"
    have "rt_rmv_dly t s = Some ?s'"
      using Nil nul lt bt q by (simp add: rt_rmv_dly_def Let_def)
    moreover have "drep ?s' T (A @ B)"
      by (rule drep_remove [OF rep]) (use Nil in \<open>auto simp: q_def\<close>)
    ultimately show ?thesis by blast
  next
    case (Cons b B')
    obtain x k where b: "b = (x, k)" by (cases b)
    have x: "x \<noteq> NULL" "x \<noteq> t" "x \<noteq> q" using nul dis qin Cons b by auto
    have sum: "n = m + unat (delta_time s q)" "k = n + unat (delta_time s t)"
      using seg0 Cons b by auto
    have k: "k < 65536" using r(9) [of x k] Cons b by simp
    let ?s' = "s\<lparr>p_dlnk := (p_dlnk s)(q := x, t := NULL), p_blnk := (p_blnk s)(x := q, t := NULL),
                 delta_time := (delta_time s)(q := delta_time s q + delta_time s t)\<rparr>"
    have "rt_rmv_dly t s = Some ?s'"
      using Cons b nul lt bt q x by (simp add: rt_rmv_dly_def Let_def)
    moreover have "drep ?s' T (A @ B)"
    proof (rule drep_remove [OF rep])
      show "unat (delta_time ?s' (last_ptr os_dly A)) =
        (if B = [] then 0 else snd (hd B) - last_time 0 A)"
        using Cons b sum k by (simp add: q_def [symmetric] m_def [symmetric] unat_word_ariths)
    qed (use Cons b x in \<open>auto simp: q_def\<close>)
    ultimately show ?thesis by blast
  qed
qed

lemma filter_neq_fst: "t \<notin> fst ` set A \<Longrightarrow> filter (\<lambda>(x, n). x \<noteq> t) A = A"
  by (force simp: filter_id_conv)

text \<open>Removal in one statement: the task leaves the list, every other task keeps its time.\<close>

lemma rt_rmv_dly_filter:
  assumes rep: "drep s T D" and t: "t \<in> T"
  shows "\<exists>L R X. rt_rmv_dly t s = Some (s\<lparr>p_dlnk := L, p_blnk := R, delta_time := X\<rparr>) \<and>
    drep (s\<lparr>p_dlnk := L, p_blnk := R, delta_time := X\<rparr>) T (filter (\<lambda>(x, n). x \<noteq> t) D)"
proof (cases "t \<in> fst ` set D")
  case False
  then have "filter (\<lambda>(x, n). x \<noteq> t) D = D" by (rule filter_neq_fst)
  moreover have "s = s\<lparr>p_dlnk := p_dlnk s, p_blnk := p_blnk s, delta_time := delta_time s\<rparr>" by simp
  ultimately show ?thesis using rt_rmv_dly_notin [OF rep t False] rep by metis
next
  case True
  then obtain n where "(t, n) \<in> set D" by auto
  then obtain A B where D: "D = A @ (t, n) # B" by (auto simp: in_set_conv_decomp)
  have "t \<notin> fst ` set A" "t \<notin> fst ` set B" using drep_distinct [OF rep] D by auto
  then have "filter (\<lambda>(x, n). x \<noteq> t) D = A @ B" using D by (simp add: filter_neq_fst)
  then show ?thesis using rt_rmv_dly_drep [of s T A t n B] rep D by simp
qed

section \<open>\<open>rt_dec_dly\<close>\<close>

text \<open>
  A tick moves the tasks whose time is up to the ready list, in the order of the delay
  list, out of the wait list they may be in. \<open>wake_rdy\<close> is that move for one task.
\<close>

definition wake_rdy :: "(ptr \<Rightarrow> u8) \<Rightarrow> ptr \<Rightarrow> (ptr \<Rightarrow> ptr list) \<Rightarrow> (ptr \<Rightarrow> ptr list)" where
  "wake_rdy pr t Q = (\<lambda>h. remove1 t (Q h))(os_rdy := ins_prio pr t (Q os_rdy))"

text \<open>The fields that the list layer writes; everything else of the state is kept.\<close>

definition lists_mask :: "kst \<Rightarrow> kst" where
  "lists_mask s = s\<lparr>p_lnk := (\<lambda>_. NULL), p_rlnk := (\<lambda>_. NULL), p_dlnk := (\<lambda>_. NULL),
     p_blnk := (\<lambda>_. NULL), delta_time := (\<lambda>_. 0), tstate := (\<lambda>_. INACTIVE)\<rparr>"

lemma lists_mask_simps [simp]:
  "lists_mask (p_lnk_update f1 s) = lists_mask s" "lists_mask (p_rlnk_update f2 s) = lists_mask s"
  "lists_mask (p_dlnk_update f3 s) = lists_mask s" "lists_mask (p_blnk_update f4 s) = lists_mask s"
  "lists_mask (delta_time_update f5 s) = lists_mask s" "lists_mask (tstate_update f6 s) = lists_mask s"
  by (simp_all add: lists_mask_def)

lemma lists_maskD:
  assumes "lists_mask s' = lists_mask s"
  shows "cb_type s' = cb_type s" "prio s' = prio s" "tsk_run s' = tsk_run s"
    "tsk_new s' = tsk_new s" "os_time s' = os_time s" "os_robin s' = os_robin s"
    "os_psq s' = os_psq s" "interval_time s' = interval_time s" "mem s' = mem s"
    "os_active_TCB s' = os_active_TCB s" "task_id s' = task_id s"
    "tokens s' = tokens s" "events s' = events s" "waits s' = waits s"
  using arg_cong [OF assms, of cb_type] arg_cong [OF assms, of prio]
    arg_cong [OF assms, of tsk_run] arg_cong [OF assms, of tsk_new] arg_cong [OF assms, of os_time]
    arg_cong [OF assms, of os_robin] arg_cong [OF assms, of os_psq]
    arg_cong [OF assms, of interval_time] arg_cong [OF assms, of mem]
    arg_cong [OF assms, of os_active_TCB] arg_cong [OF assms, of task_id]
    arg_cong [OF assms, of tokens] arg_cong [OF assms, of events] arg_cong [OF assms, of waits]
  by (simp_all add: lists_mask_def)

lemma remove1_notin_fun: "(\<And>h. t \<notin> set (Q h)) \<Longrightarrow> (\<lambda>h. remove1 t (Q h)) = Q"
  by (auto simp: fun_eq_iff remove1_idem)

lemma dec_dly_unlink_qrep:
  assumes rep: "qrep s T H Q" and t: "t \<in> T" "t \<notin> set (Q os_rdy)"
  shows "\<exists>L R. dec_dly_unlink t s = s\<lparr>p_lnk := L, p_rlnk := R\<rparr> \<and>
    qrep (s\<lparr>p_lnk := L, p_rlnk := R\<rparr>) T H (\<lambda>h. remove1 t (Q h))"
proof (cases "t \<in> queued (H - {os_rdy}) Q")
  case False
  have "t \<notin> set (Q h)" for h
    using False t(2) qrepD(13) [OF rep, of h] by (cases "h \<in> H") (auto simp: queued_def)
  then have "(\<lambda>h. remove1 t (Q h)) = Q" by (rule remove1_notin_fun)
  moreover have "dec_dly_unlink t s = s\<lparr>p_lnk := p_lnk s, p_rlnk := p_rlnk s\<rparr>"
    using qrepD(11) [OF rep t(1) False] by (simp add: dec_dly_unlink_def)
  ultimately show ?thesis using rep by (intro exI [of _ "p_lnk s"] exI [of _ "p_rlnk s"]) simp
next
  case True
  then obtain h where h: "h \<in> H" "h \<noteq> os_rdy" "t \<in> set (Q h)" by (auto simp: queued_def)
  then obtain as bs where Qh: "Q h = as @ t # bs" by (auto simp: in_set_conv_decomp)
  have dis: "distinct (h # as @ t # bs)" using qrep_distinct [OF rep h(1)] Qh by simp
  have "t \<notin> set (Q g)" if "g \<noteq> h" for g
    using qrepD(12) [OF rep h(1), of g] qrepD(13) [OF rep, of g] that h(3)
    by (cases "g \<in> H") auto
  then have Q': "(\<lambda>h. remove1 t (Q h)) = Q(h := as @ bs)"
    using Qh dis by (auto simp: fun_eq_iff remove1_idem remove1_append)
  define q where "q = last (h # as)"
  note f = qrep_rlnk [OF rep h(1) Qh, folded q_def] qrep_lnk [OF rep h(1) Qh]
  have "q \<in> insert h (set as)" unfolding q_def by (rule last_in_set_hd)
  then have qt: "q \<noteq> t" using dis by auto
  have bt: "bs \<noteq> [] \<Longrightarrow> first_ptr bs \<noteq> t" using dis by (auto intro: first_ptr_notin)
  define L where "L = (if bs = [] then (p_lnk s)(q := first_ptr bs)
    else (p_lnk s)(q := first_ptr bs, t := NULL))"
  define R where "R = (if bs = [] then (p_rlnk s)(t := NULL)
    else (p_rlnk s)(first_ptr bs := q, t := NULL))"
  have "dec_dly_unlink t s = s\<lparr>p_lnk := L, p_rlnk := R\<rparr>"
    using f h(2) qt bt by (simp add: dec_dly_unlink_def L_def R_def Let_def)
  moreover have "qrep (s\<lparr>p_lnk := L, p_rlnk := R\<rparr>) T H (Q(h := as @ bs))"
    by (rule qrep_unlink [OF rep h(1) Qh]) (use h(2) bt in \<open>auto simp: L_def R_def q_def\<close>)
  ultimately show ?thesis unfolding Q' by blast
qed

lemma queued_remove1:
  "qrep s T H Q \<Longrightarrow> t \<notin> queued H (\<lambda>h. remove1 t (Q h))"
proof -
  assume "qrep s T H Q"
  then have "h \<in> H \<Longrightarrow> distinct (Q h)" for h by (auto dest: qrep_distinct)
  then show ?thesis by (auto simp: queued_def)
qed

lemma dec_dly_ready_fields:
  fixes s t
  defines "s' \<equiv> dec_dly_ready t s"
  assumes "t \<noteq> os_dly"
  shows "p_lnk s' = p_lnk s" "p_rlnk s' = p_rlnk s" "cb_type s' = cb_type s" "prio s' = prio s"
    "tstate s' = (tstate s)(t := READY)" "lists_mask s' = lists_mask s"
    "x \<noteq> t \<Longrightarrow> p_dlnk s' x = ((p_dlnk s)(os_dly := p_dlnk s t)) x"
    "p_blnk s' = (if p_dlnk s t = NULL then (p_blnk s)(t := NULL)
       else (p_blnk s)(p_dlnk s t := os_dly, t := NULL))"
    "x \<notin> {t, os_dly} \<Longrightarrow> delta_time s' x = delta_time s x"
    "delta_time s' os_dly = delta_time s t"
  using assms(2) by (simp_all add: s'_def dec_dly_ready_def Let_def)

lemma dec_dly_step_spec:
  assumes rep: "qrep s T H Q" and del: "drep s T ((t, 0) # D)" and t: "t \<notin> set (Q os_rdy)"
  shows "\<exists>s'. dec_dly_step s = Some s' \<and> qrep s' T H (wake_rdy (prio s) t Q) \<and> drep s' T D \<and>
    tstate s' = (tstate s)(t := READY) \<and> lists_mask s' = lists_mask s"
proof -
  note r = drepD [OF del]
  have tT: "t \<in> T" "t \<noteq> NULL" "t \<noteq> os_dly" and hd: "p_dlnk s os_dly = t"
    using r(1-4) by auto
  obtain L1 R1 where s1: "dec_dly_unlink t s = s\<lparr>p_lnk := L1, p_rlnk := R1\<rparr>"
    and rep1: "qrep (s\<lparr>p_lnk := L1, p_rlnk := R1\<rparr>) T H (\<lambda>h. remove1 t (Q h))"
    using dec_dly_unlink_qrep [OF rep tT(1) t] by blast
  obtain L R where
    s2: "rt_put_prio os_rdy t (s\<lparr>p_lnk := L1, p_rlnk := R1\<rparr>) = Some (s\<lparr>p_lnk := L, p_rlnk := R\<rparr>)"
    and rep2: "qrep (s\<lparr>p_lnk := L, p_rlnk := R\<rparr>) T H (wake_rdy (prio s) t Q)"
    using rt_put_prio_qrep [OF rep1 qrepD(1) [OF rep] tT(1) queued_remove1 [OF rep]] t
    by (auto simp: wake_rdy_def remove1_idem)
  have lt: "p_dlnk s t = first_ptr (map fst D)"
    using r(4) chain_first_ptr by auto
  have nul: "NULL \<notin> fst ` set D" "t \<notin> fst ` set D" "os_dly \<notin> fst ` set D"
    using r(1,2,3) drep_distinct [OF del] by auto
  have fn: "first_ptr (map fst D) = NULL \<longleftrightarrow> D = []" "D \<noteq> [] \<Longrightarrow> first_ptr (map fst D) = fst (hd D)"
    using nul by (cases D; force)+
  have fD: "D \<noteq> [] \<Longrightarrow> fst (hd D) \<in> fst ` set D" by (cases D) auto
  have dt: "unat (delta_time s t) = (if D = [] then 0 else snd (hd D))"
    using r(7,8) by (cases D) auto
  define s' where "s' = dec_dly_ready t (s\<lparr>p_lnk := L, p_rlnk := R\<rparr>)"
  have s': "dec_dly_step s = Some s'"
    using s1 s2 hd by (simp add: dec_dly_step_def s'_def)
  note f = dec_dly_ready_fields [where s = "s\<lparr>p_lnk := L, p_rlnk := R\<rparr>", OF tT(3),
      folded s'_def, simplified]
  have "drep s' T ([] @ D)"
  proof (rule drep_remove [where t = t and n = 0 and s = s])
    show "drep s T ([] @ (t, 0) # D)" using del by simp
    show "p_blnk s' x = p_blnk s x" if "x \<noteq> t" "x \<noteq> first_ptr (map fst D)" for x
      using that f(8) by (simp add: lt)
    show "p_blnk s' (fst (hd D)) = last_ptr os_dly []" if "D \<noteq> []"
      using that f(8) fn fD [OF that] nul by (auto simp: lt)
    show "p_blnk s' t = NULL" using f(8) by simp
  qed (use f(7,9,10) dt lt in auto)
  moreover have "qrep s' T H (wake_rdy (prio s) t Q)"
    by (rule qrep_cong [OF rep2]) (use f in auto)
  ultimately show ?thesis using s' f(5,6) by auto
qed

lemma dec_dly_loop_spec:
  assumes "qrep s T H Q" and "drep s T D" and "fst ` set D \<inter> set (Q os_rdy) = {}"
  shows "\<exists>s'. dec_dly_loop s = Some s' \<and>
    qrep s' T H (fold (wake_rdy (prio s)) (map fst (takeWhile (\<lambda>(t, n). n = 0) D)) Q) \<and>
    drep s' T (dropWhile (\<lambda>(t, n). n = 0) D) \<and>
    (\<forall>x. tstate s' x = (if x \<in> fst ` set (takeWhile (\<lambda>(t, n). n = 0) D) then READY else tstate s x)) \<and>
    lists_mask s' = lists_mask s"
  using assms
proof (induction D arbitrary: s Q)
  case Nil
  then have "p_dlnk s os_dly = NULL" using drepD(4) by fastforce
  with Nil show ?case by (subst dec_dly_loop.simps) simp
next
  case (Cons a D)
  obtain t n where a: "a = (t, n)" by (cases a)
  note r = drepD [OF Cons.prems(2)]
  have t: "p_dlnk s os_dly = t" "t \<noteq> NULL" "t \<notin> set (Q os_rdy)"
    using r(4) Cons.prems(3) a by auto
  have n: "n = unat (delta_time s os_dly)" using r(7) a by simp
  show ?case
  proof (cases "n = 0")
    case False
    with n have "delta_time s os_dly \<noteq> 0" by auto
    with False Cons.prems(1,2) a show ?thesis by (subst dec_dly_loop.simps) simp
  next
    case True
    then have guard: "delta_time s os_dly = 0" using n by (simp add: unat_eq_0)
    have "drep s T ((t, 0) # D)" using Cons.prems(2) a True by simp
    then obtain s1 where s1: "dec_dly_step s = Some s1" "qrep s1 T H (wake_rdy (prio s) t Q)"
      "drep s1 T D" "tstate s1 = (tstate s)(t := READY)" "lists_mask s1 = lists_mask s"
      using dec_dly_step_spec [OF Cons.prems(1) _ t(3)] by blast
    have "t \<notin> fst ` set D" using drep_distinct [OF Cons.prems(2)] a by auto
    then have "fst ` set D \<inter> set (wake_rdy (prio s) t Q os_rdy) = {}"
      using Cons.prems(3) a by (auto simp: wake_rdy_def)
    from Cons.IH [OF s1(2,3) this] obtain s' where
      s': "dec_dly_loop s1 = Some s'"
      "qrep s' T H (fold (wake_rdy (prio s1)) (map fst (takeWhile (\<lambda>(t, n). n = 0) D))
         (wake_rdy (prio s) t Q))"
      "drep s' T (dropWhile (\<lambda>(t, n). n = 0) D)"
      "\<forall>x. tstate s' x = (if x \<in> fst ` set (takeWhile (\<lambda>(t, n). n = 0) D) then READY else tstate s1 x)"
      "lists_mask s' = lists_mask s1" by blast
    have run: "dec_dly_loop s = Some s'"
      using guard t s1(1) s'(1) by (subst dec_dly_loop.simps) simp
    have "prio s1 = prio s" by (rule lists_maskD(2) [OF s1(5)])
    then show ?thesis using run s' s1(4,5) True a by simp
  qed
qed

text \<open>
  \<open>expired\<close> and \<open>pending\<close>: the tasks whose last tick this is, and the others with one
  tick less to go.
\<close>

definition expired :: "(ptr \<times> nat) list \<Rightarrow> ptr list" where
  "expired D = map fst (filter (\<lambda>(t, n). n = 1) D)"

definition pending :: "(ptr \<times> nat) list \<Rightarrow> (ptr \<times> nat) list" where
  "pending D = map (\<lambda>(t, n). (t, n - 1)) (filter (\<lambda>(t, n). n \<noteq> 1) D)"

lemma sorted_takeWhile_expired:
  "sorted (map snd D) \<Longrightarrow> \<forall>(t, n)\<in>set D. 0 < n \<Longrightarrow>
     map fst (takeWhile (\<lambda>(t, n). n = 0) (map (\<lambda>(t, n). (t, n - 1)) D)) = expired D \<and>
     dropWhile (\<lambda>(t, n). n = 0) (map (\<lambda>(t, n). (t, n - 1)) D) = pending D"
proof (induction D)
  case (Cons a D)
  obtain t n where a: "a = (t, n)" by (cases a)
  show ?case
  proof (cases "n = 1")
    case True
    with Cons a show ?thesis by (simp add: expired_def pending_def)
  next
    case False
    have "m \<noteq> 1" if "(x, m) \<in> set D" for x m
      using Cons.prems that a False by fastforce
    then have "filter (\<lambda>(t, n). n = 1) D = []" "filter (\<lambda>(t, n). n \<noteq> 1) D = D"
      by (auto simp: filter_empty_conv filter_id_conv)
    with Cons.prems False a show ?thesis by (simp add: expired_def pending_def)
  qed
qed (simp add: expired_def pending_def)

lemma dseg_shift:
  "dseg d p b D \<Longrightarrow> 0 < b \<Longrightarrow> dseg d p (b - 1) (map (\<lambda>(t, n). (t, n - 1)) D)"
  by (induction D arbitrary: p b) auto

lemma drep_tick:
  assumes rep: "drep s T D" and pos: "\<forall>(t, n)\<in>set D. 0 < n" and ne: "D \<noteq> []"
  shows "drep (set_delta_time os_dly (delta_time s os_dly - 1) s) T (map (\<lambda>(t, n). (t, n - 1)) D)"
proof -
  note r = drepD [OF rep]
  obtain t n D' where D: "D = (t, n) # D'" using ne by (cases D) auto
  define d' where "d' = (delta_time s)(os_dly := delta_time s os_dly - 1)"
  let ?D = "map (\<lambda>(t, n). (t, n - 1)) D"
  have dis: "distinct (os_dly # t # map fst D')" using drep_distinct [OF rep] D by simp
  have n: "n = unat (delta_time s os_dly)" "0 < n" using r(7) D pos by auto
  have "unat (d' os_dly) = n - 1"
    using n unat_diff_u16 [of 1 "delta_time s os_dly"] by (simp add: d'_def word_le_nat_alt)
  moreover have "dseg d' t n D'"
    by (rule dseg_cong [where d = "delta_time s"]) (use r(7) D dis in \<open>auto simp: d'_def\<close>)
  ultimately have seg: "dseg d' os_dly 0 ?D" using D n(2) dseg_shift [of d' t n D'] by simp
  have maps: "map fst ?D = map fst D" by (simp add: split_beta)
  have sets: "fst ` set ?D = fst ` set D" by (simp only: set_map [symmetric] maps)
  have lp: "last_ptr os_dly ?D = last_ptr os_dly D" by (simp only: last_ptr_def maps)
  have "os_dly \<notin> insert t (fst ` set D')" using dis by simp
  then have lq: "last_ptr os_dly D \<noteq> os_dly" using last_ptr_in [of t D'] D by (metis last_ptr_simps(2))
  have bnd: "\<forall>(t, n)\<in>set ?D. n < 65536" using r(9) by fastforce
  have last0: "d' (last_ptr os_dly ?D) = 0" using r(8) lq unfolding lp by (simp add: d'_def)
  have bl0: "\<forall>t\<in>T - fst ` set D. p_blnk s t = NULL" using r(6) by blast
  define s' where "s' = set_delta_time os_dly (delta_time s os_dly - 1) s"
  have f: "p_dlnk s' = p_dlnk s" "p_blnk s' = p_blnk s" "delta_time s' = d'"
    by (simp_all add: s'_def d'_def)
  have "drep s' T ?D"
    unfolding drep_def maps sets f
    by (intro conjI) (rule r(1-5) seg bnd last0 bl0)+
  then show ?thesis by (simp only: s'_def)
qed

lemma rt_dec_dly_spec:
  assumes rep: "qrep s T H Q" and del: "drep s T D" and pos: "\<forall>(t, n)\<in>set D. 0 < n"
    and dis: "fst ` set D \<inter> set (Q os_rdy) = {}"
  shows "\<exists>s'. rt_dec_dly s = Some s' \<and> qrep s' T H (fold (wake_rdy (prio s)) (expired D) Q) \<and>
    drep s' T (pending D) \<and>
    (\<forall>x. tstate s' x = (if x \<in> set (expired D) then READY else tstate s x)) \<and>
    lists_mask s' = lists_mask s"
proof (cases "D = []")
  case True
  then have "p_dlnk s os_dly = NULL" using drepD(4) [OF del] by simp
  then show ?thesis using True rep del by (simp add: rt_dec_dly_def expired_def pending_def)
next
  case False
  let ?s = "set_delta_time os_dly (delta_time s os_dly - 1) s"
  let ?D = "map (\<lambda>(t, n). (t, n - 1)) D"
  have "p_dlnk s os_dly \<noteq> NULL" using drepD(4) [OF del] False by (cases D) auto
  then have run: "rt_dec_dly s = dec_dly_loop ?s" by (simp add: rt_dec_dly_def)
  have ed: "map fst (takeWhile (\<lambda>(t, n). n = 0) ?D) = expired D"
    "dropWhile (\<lambda>(t, n). n = 0) ?D = pending D"
    using sorted_takeWhile_expired [OF dseg_sorted [OF drepD(7) [OF del]] pos] by auto
  have es: "fst ` set (takeWhile (\<lambda>(t, n). n = 0) ?D) = set (expired D)"
    by (simp only: set_map [symmetric] ed(1))
  have "qrep ?s T H Q" by (rule qrep_cong [OF rep]) simp_all
  moreover have "fst ` set ?D \<inter> set (Q os_rdy) = {}"
    using dis by (simp add: split_beta image_image)
  ultimately obtain s' where "dec_dly_loop ?s = Some s'"
    "qrep s' T H (fold (wake_rdy (prio ?s)) (expired D) Q)" "drep s' T (pending D)"
    "\<forall>x. tstate s' x = (if x \<in> set (expired D) then READY else tstate ?s x)"
    "lists_mask s' = lists_mask ?s"
    using dec_dly_loop_spec [OF _ drep_tick [OF del pos False], of H Q] unfolding ed es by blast
  then show ?thesis unfolding run by (intro exI [of _ s']) simp
qed

end
