(* ===== verification/RTX_Task.thy ===== *)
theory RTX_Task
  imports RTX_Delay
begin

text \<open>
  Tasks and scheduling: \<open>rt_Task.c\<close>, \<open>rt_Robin.c\<close>, \<open>rt_Time.c\<close>, the scheduler lock of
  \<open>rt_System.c\<close>, and the first stack frame of a task (\<open>rt_init_stack\<close> of \<open>HAL_CM.c\<close>).
  The kernel runs in handler mode: a service selects the next task in \<open>tsk_new\<close>, and the
  exception return makes it the running one (\<open>task_switch\<close>).
\<close>

section \<open>Task switching\<close>

definition rt_switch_req :: "ptr \<Rightarrow> kst \<Rightarrow> kst option" where
  "rt_switch_req p_new s = do {
     chk p_new;
     let s = s\<lparr>tsk_new := p_new\<rparr>;
     Some (set_tstate p_new RUNNING s) }"

definition rt_dispatch :: "ptr \<Rightarrow> kst \<Rightarrow> kst option" where
  "rt_dispatch next_TCB s =
     (if next_TCB = NULL then do {
        (next_TCB, s) \<leftarrow> rt_get_first os_rdy s;
        rt_switch_req next_TCB s }
      else do {
        chk (tsk_run s);
        if prio s next_TCB > prio s (tsk_run s) then do {
          s \<leftarrow> rt_put_rdy_first (tsk_run s) s;
          let s = set_tstate (tsk_run s) READY s;
          rt_switch_req next_TCB s }
        else
          let s = set_tstate next_TCB READY s in
          rt_put_prio os_rdy next_TCB s })"

definition rt_block :: "u16 \<Rightarrow> u8 \<Rightarrow> kst \<Rightarrow> kst option" where
  "rt_block timeout block_state s =
     (if timeout \<noteq> 0 then do {
        s \<leftarrow> (if timeout < 0xffff then rt_put_dly (tsk_run s) timeout s else Some s);
        chk (tsk_run s);
        let s = set_tstate (tsk_run s) block_state s;
        (next_TCB, s) \<leftarrow> rt_get_first os_rdy s;
        rt_switch_req next_TCB s }
      else Some s)"

definition rt_tsk_pass :: "kst \<Rightarrow> kst option" where
  "rt_tsk_pass s = do {
     (p_new, s) \<leftarrow> rt_get_same_rdy_prio s;
     if p_new \<noteq> NULL then do {
       s \<leftarrow> rt_put_prio os_rdy (tsk_run s) s;
       let s = set_tstate (tsk_run s) READY s;
       rt_switch_req p_new s }
     else Some s }"

definition rt_tsk_self :: "kst \<Rightarrow> u32" where
  "rt_tsk_self s = (if tsk_run s = NULL then 0 else ucast (task_id s (tsk_run s)))"

section \<open>The table of active tasks\<close>

text \<open>
  \<open>os_active_TCB[task_id-1]\<close>: an access outside of the table has no result.
\<close>

definition act_get :: "u32 \<Rightarrow> kst \<Rightarrow> ptr option" where
  "act_get tid s = (let i = unat (tid - 1) in
     if i < length (os_active_TCB s) then Some (os_active_TCB s ! i) else None)"

definition act_set :: "u32 \<Rightarrow> ptr \<Rightarrow> kst \<Rightarrow> kst option" where
  "act_set tid p s = (let i = unat (tid - 1) in
     if i < length (os_active_TCB s)
     then Some (s\<lparr>os_active_TCB := (os_active_TCB s)[i := p]\<rparr>) else None)"

definition os_maxtaskrun :: "kst \<Rightarrow> nat" where
  "os_maxtaskrun s = length (os_active_TCB s)"

text \<open>The loop of \<open>rt_get_TID\<close>: the first free entry, counted from 1; 0 when there is none.\<close>

fun get_TID_loop :: "nat \<Rightarrow> ptr list \<Rightarrow> u32" where
  "get_TID_loop tid [] = 0"
| "get_TID_loop tid (p # ps) = (if p = NULL then of_nat tid else get_TID_loop (Suc tid) ps)"

definition rt_get_TID :: "kst \<Rightarrow> u32" where
  "rt_get_TID s = get_TID_loop 1 (os_active_TCB s)"

section \<open>Initial context of a task\<close>

text \<open>The loop that clears \<open>stk[0]\<close> to \<open>stk[13]\<close>.\<close>

definition clear_words :: "u32 \<Rightarrow> nat \<Rightarrow> kst \<Rightarrow> kst" where
  "clear_words stk n s = fold (\<lambda>i. set_mem (stk + 4 * of_nat i) 0) [0..<n] s"

definition rt_init_stack :: "ptr \<Rightarrow> u32 \<Rightarrow> kst \<Rightarrow> kst option" where
  "rt_init_stack p_TCB task_body s = do {
     chk p_TCB;
     let size = (ucast (drop_bit 2 (priv_stack s p_TCB)) :: u32);
     let stk = tstack s p_TCB + 4 * size;
     let stk = (if stk AND 0x04 \<noteq> 0 then stk - 4 else stk);
     let stk = stk - 4 * 16;
     let s = set_mem (stk + 4 * 15) INITIAL_xPSR s;
     let s = set_mem (stk + 4 * 14) task_body s;
     let s = clear_words stk 14 s;
     let s = set_mem (stk + 4 * 8) (tmsg s p_TCB) s;
     let s = set_tsk_stack p_TCB stk s;
     let s = set_ptask p_TCB task_body s;
     Some (if task_id s p_TCB \<noteq> 0x01 then set_mem (tstack s p_TCB) MAGIC_WORD s else s) }"

definition rt_init_context :: "ptr \<Rightarrow> u8 \<Rightarrow> u32 \<Rightarrow> kst \<Rightarrow> kst option" where
  "rt_init_context p_TCB priority task_body s = do {
     chk p_TCB;
     let s = set_cb_type p_TCB TCB s;
     let s = set_tstate p_TCB READY s;
     let s = set_prio p_TCB priority s;
     let s = set_p_lnk p_TCB NULL s;
     let s = set_p_rlnk p_TCB NULL s;
     let s = set_p_dlnk p_TCB NULL s;
     let s = set_p_blnk p_TCB NULL s;
     let s = set_delta_time p_TCB 0 s;
     let s = set_interval_time p_TCB 0 s;
     let s = set_events p_TCB 0 s;
     let s = set_waits p_TCB 0 s;
     let s = set_stack_frame p_TCB 0 s;
     rt_init_stack p_TCB task_body s }"

text \<open>\<open>rt_stk_check\<close> (\<open>rt_System.c\<close>): task 1, the main thread, is not checked.\<close>

definition rt_stk_check :: "kst \<Rightarrow> kst option" where
  "rt_stk_check s = do {
     chk (tsk_run s);
     if task_id s (tsk_run s) = 0x01 then Some s
     else if tsk_stack s (tsk_run s) < tstack s (tsk_run s) \<or>
             mem s (tstack s (tsk_run s)) \<noteq> MAGIC_WORD
     then os_error OS_ERR_STK_OVF s
     else Some s }"

section \<open>Priorities and deletion\<close>

text \<open>The part of \<open>rt_tsk_prio\<close> under its label \<open>run\<close>.\<close>

definition tsk_prio_run :: "u8 \<Rightarrow> kst \<Rightarrow> (u32 \<times> kst) option" where
  "tsk_prio_run new_prio s = do {
     rp \<leftarrow> rt_rdy_prio s;
     s \<leftarrow> (if rp > new_prio then do {
              s \<leftarrow> rt_put_prio os_rdy (tsk_run s) s;
              let s = set_tstate (tsk_run s) READY s;
              rt_dispatch NULL s }
            else Some s);
     Some (OS_R_OK, s) }"

definition rt_tsk_prio :: "u32 \<Rightarrow> u8 \<Rightarrow> kst \<Rightarrow> (u32 \<times> kst) option" where
  "rt_tsk_prio tid new_prio s =
     (if tid = 0 then do {
        chk (tsk_run s);
        let s = set_prio (tsk_run s) new_prio s;
        tsk_prio_run new_prio s }
      else if unat tid > os_maxtaskrun s then Some (OS_R_NOK, s)
      else do {
        p_task \<leftarrow> act_get tid s;
        if p_task = NULL then Some (OS_R_NOK, s)
        else do {
          let s = set_prio p_task new_prio s;
          if p_task = tsk_run s then tsk_prio_run new_prio s
          else do {
            s \<leftarrow> rt_resort_prio p_task s;
            s \<leftarrow> (if tstate s p_task = READY then do {
                     (p_task, s) \<leftarrow> rt_get_first os_rdy s;
                     rt_dispatch p_task s }
                   else Some s);
            Some (OS_R_OK, s) } } })"

text \<open>\<open>psp\<close> is the process stack pointer that \<open>rt_get_PSP\<close> reads.\<close>

definition rt_tsk_delete :: "u32 \<Rightarrow> u32 \<Rightarrow> kst \<Rightarrow> (u32 \<times> kst) option" where
  "rt_tsk_delete psp tid s = do {
     chk (tsk_run s);
     if tid = 0 \<or> tid = ucast (task_id s (tsk_run s)) then do {
       let s = set_tstate (tsk_run s) INACTIVE s;
       let s = set_tsk_stack (tsk_run s) psp s;
       s \<leftarrow> rt_stk_check s;
       s \<leftarrow> act_set (ucast (task_id s (tsk_run s))) NULL s;
       let s = set_tstack (tsk_run s) NULL s;
       let s = s\<lparr>tsk_run := NULL\<rparr>;
       s \<leftarrow> rt_dispatch NULL s;
       Some (OS_R_OK, s) }
     else if unat tid > os_maxtaskrun s then Some (OS_R_NOK, s)
     else do {
       task_context \<leftarrow> act_get tid s;
       if task_context = NULL then Some (OS_R_NOK, s)
       else do {
         s \<leftarrow> rt_rmv_list task_context s;
         s \<leftarrow> rt_rmv_dly task_context s;
         s \<leftarrow> act_set tid NULL s;
         let s = set_tstack task_context NULL s;
         Some (OS_R_OK, s) } } }"

section \<open>Round robin (\<open>rt_Robin.c\<close>)\<close>

definition rt_init_robin :: "kst \<Rightarrow> kst" where
  "rt_init_robin s =
     s\<lparr>os_robin := (os_robin s)\<lparr>rr_task := NULL, rr_tout := ucast (os_rrobin (os_conf s))\<rparr>\<rparr>"

definition rt_chk_robin :: "kst \<Rightarrow> kst option" where
  "rt_chk_robin s = do {
     let s = (if rr_task (os_robin s) \<noteq> p_lnk s os_rdy
              then s\<lparr>os_robin := (os_robin s)
                      \<lparr>rr_task := p_lnk s os_rdy,
                       rr_time := ucast (os_time s) + rr_tout (os_robin s) - 1\<rparr>\<rparr>
              else s);
     if rr_time (os_robin s) = ucast (os_time s) then do {
       let s = s\<lparr>os_robin := (os_robin s)\<lparr>rr_task := NULL\<rparr>\<rparr>;
       (p_new, s) \<leftarrow> rt_get_first os_rdy s;
       rt_put_prio os_rdy p_new s }
     else Some s }"

section \<open>Time (\<open>rt_Time.c\<close>)\<close>

definition rt_time_get :: "kst \<Rightarrow> u32" where
  "rt_time_get s = os_time s"

definition rt_dly_wait :: "u16 \<Rightarrow> kst \<Rightarrow> kst option" where
  "rt_dly_wait delay_time s = rt_block delay_time WAIT_DLY s"

definition rt_itv_set :: "u16 \<Rightarrow> kst \<Rightarrow> kst option" where
  "rt_itv_set interval s = do {
     chk (tsk_run s);
     let s = set_interval_time (tsk_run s) interval s;
     Some (set_delta_time (tsk_run s) (interval + ucast (os_time s)) s) }"

definition rt_itv_wait :: "kst \<Rightarrow> kst option" where
  "rt_itv_wait s = do {
     chk (tsk_run s);
     let delta = delta_time s (tsk_run s) - ucast (os_time s);
     let s = set_delta_time (tsk_run s)
               (delta_time s (tsk_run s) + interval_time s (tsk_run s)) s;
     if delta AND 0x8000 = 0 then rt_block delta WAIT_ITV s else Some s }"

section \<open>Scheduler lock (\<open>rt_System.c\<close>)\<close>

text \<open>
  \<open>pend_st\<close> and \<open>pend_sv\<close> are the pending bits of the tick and of the post service
  exception in the interrupt controller (\<open>NVIC_INT_CTRL\<close> bits 26 and 28; writing bits 25
  and 27 clears them), \<open>tick_enabled\<close> the enable bit of the tick interrupt.
\<close>

definition rt_tsk_lock :: "kst \<Rightarrow> kst" where
  "rt_tsk_lock s =
     (if os_tick_irqn s < 0 then
        let s = s\<lparr>tick_enabled := False\<rparr>;
            s = s\<lparr>os_lock := True\<rparr>;
            fl = (if pend_st s then 1 else 0) OR (if pend_sv s then 4 else 0)
        in s\<lparr>pend_flags := fl, pend_st := False, pend_sv := False\<rparr>
      else
        let s = s\<lparr>tick_enabled := False\<rparr>;
            s = s\<lparr>os_lock := True\<rparr>;
            fl = (if pend_sv s then 1 else 0)
        in s\<lparr>pend_flags := fl, pend_sv := False\<rparr>)"

definition rt_tsk_unlock :: "kst \<Rightarrow> kst" where
  "rt_tsk_unlock s =
     (if os_tick_irqn s < 0 then
        let s = s\<lparr>tick_enabled := True\<rparr>;
            s = s\<lparr>os_lock := False\<rparr>;
            fl = pend_flags s OR (if os_psh_flag s then 4 else 0);
            s = s\<lparr>pend_st := pend_st s \<or> bit fl 0, pend_sv := pend_sv s \<or> bit fl 2\<rparr>
        in s\<lparr>os_psh_flag := False\<rparr>
      else
        let s = s\<lparr>tick_enabled := True\<rparr>;
            s = s\<lparr>os_lock := False\<rparr>;
            fl = pend_flags s OR (if os_psh_flag s then 1 else 0);
            s = s\<lparr>pend_sv := pend_sv s \<or> bit fl 0\<rparr>
        in s\<lparr>os_psh_flag := False\<rparr>)"

definition rt_psh_req :: "kst \<Rightarrow> kst" where
  "rt_psh_req s = (if \<not> os_lock s then s\<lparr>pend_sv := True\<rparr> else s\<lparr>os_psh_flag := True\<rparr>)"

section \<open>Start of the kernel\<close>

text \<open>
  \<open>rt_sys_init\<close>; the interrupt priorities that \<open>rt_svc_init\<close> programs are not part of
  the state.
\<close>

definition rt_sys_init :: "kst \<Rightarrow> kst option" where
  "rt_sys_init s = do {
     let s = s\<lparr>os_active_TCB := replicate (os_maxtaskrun s) NULL\<rparr>;
     let s = set_task_id os_idle_TCB 255 s;
     let s = set_priv_stack os_idle_TCB (idle_task_stack_size (os_conf s)) s;
     let s = set_tstack os_idle_TCB (idle_task_stack (os_conf s)) s;
     s \<leftarrow> rt_init_context os_idle_TCB 0 (os_idle_demon (os_conf s)) s;
     let s = set_cb_type os_rdy HCB s;
     let s = set_p_lnk os_rdy NULL s;
     let s = set_cb_type os_dly HCB s;
     let s = set_p_dlnk os_dly NULL s;
     let s = set_p_blnk os_dly NULL s;
     let s = set_delta_time os_dly 0 s;
     let s = s\<lparr>tsk_run := os_idle_TCB\<rparr>;
     let s = set_tstate (tsk_run s) RUNNING s;
     let s = s\<lparr>os_psq := (os_psq s)\<lparr>psq_first := 0, psq_last := 0,
                                    psq_size := os_fifo_size (os_conf s)\<rparr>\<rparr>;
     Some (rt_init_robin s) }"

text \<open>\<open>rt_sys_start\<close> with the default \<open>os_tick_init\<close>: the SysTick timer is the kernel tick.\<close>

definition rt_sys_start :: "kst \<Rightarrow> kst" where
  "rt_sys_start s = s\<lparr>tick_enabled := True, os_tick_irqn := -1\<rparr>"

text \<open>
  The exception return (\<open>SVC_Handler\<close> and \<open>Sys_Switch\<close> of \<open>HAL_CM3.c\<close>): when another
  task was selected, the stack pointer of the old one is saved with its registers pushed
  (\<open>psp - 32\<close>), its stack is checked, and the new task becomes the running one.
\<close>

definition task_switch :: "u32 \<Rightarrow> kst \<Rightarrow> kst option" where
  "task_switch psp s =
     (if tsk_run s = tsk_new s then Some s
      else do {
        s \<leftarrow> (if tsk_run s = NULL then Some s
              else rt_stk_check (set_tsk_stack (tsk_run s) (psp - 32) s));
        Some (s\<lparr>tsk_run := tsk_new s\<rparr>) })"

section \<open>The scheduling invariant\<close>

text \<open>
  \<open>kinv0 s T H Q D c\<close>: the lists of the kernel hold the tasks \<open>Q\<close> and the delays \<open>D\<close>,
  every list is ordered by priority, \<open>c\<close> is the one running task, exactly the tasks of
  the ready list are in state \<open>READY\<close>, delayed tasks are not ready, and \<^emph>\<open>no ready task
  has a higher priority than \<open>c\<close>\<close>. The idle demon is running or ready, so there is always
  a task to switch to. \<open>kinv\<close> adds that the running task is in no list.
\<close>

definition kinv0 ::
  "kst \<Rightarrow> ptr set \<Rightarrow> ptr set \<Rightarrow> (ptr \<Rightarrow> ptr list) \<Rightarrow> (ptr \<times> nat) list \<Rightarrow> ptr \<Rightarrow> bool" where
  "kinv0 s T H Q D c \<longleftrightarrow>
     qrep s T H Q \<and> drep s T D \<and>
     (\<forall>h\<in>H. prio_sorted (prio s) (Q h)) \<and> (\<forall>(t, n)\<in>set D. 0 < n) \<and>
     c \<in> T \<and> c \<notin> set (Q os_rdy) \<and> c \<notin> fst ` set D \<and>
     (\<forall>t\<in>T. tstate s t = RUNNING \<longleftrightarrow> t = c) \<and>
     (\<forall>t\<in>T. tstate s t = READY \<longleftrightarrow> t \<in> set (Q os_rdy)) \<and>
     fst ` set D \<inter> set (Q os_rdy) = {} \<and>
     (\<forall>x\<in>set (Q os_rdy). prio s x \<le> prio s c) \<and>
     (os_idle_TCB = c \<or> os_idle_TCB \<in> set (Q os_rdy))"

definition kinv ::
  "kst \<Rightarrow> ptr set \<Rightarrow> ptr set \<Rightarrow> (ptr \<Rightarrow> ptr list) \<Rightarrow> (ptr \<times> nat) list \<Rightarrow> ptr \<Rightarrow> bool" where
  "kinv s T H Q D c \<longleftrightarrow> kinv0 s T H Q D c \<and> c \<notin> queued H Q"

lemma kinv0D:
  assumes "kinv0 s T H Q D c"
  shows "qrep s T H Q" "drep s T D"
    "\<And>h. h \<in> H \<Longrightarrow> prio_sorted (prio s) (Q h)" "\<forall>(t, n)\<in>set D. 0 < n"
    "c \<in> T" "c \<notin> set (Q os_rdy)" "c \<notin> fst ` set D"
    "\<And>t. t \<in> T \<Longrightarrow> tstate s t = RUNNING \<longleftrightarrow> t = c"
    "\<And>t. t \<in> T \<Longrightarrow> tstate s t = READY \<longleftrightarrow> t \<in> set (Q os_rdy)"
    "fst ` set D \<inter> set (Q os_rdy) = {}"
    "\<And>x. x \<in> set (Q os_rdy) \<Longrightarrow> prio s x \<le> prio s c"
    "os_idle_TCB = c \<or> os_idle_TCB \<in> set (Q os_rdy)"
  using assms unfolding kinv0_def by blast+

lemma kinvD: "kinv s T H Q D c \<Longrightarrow> kinv0 s T H Q D c" "kinv s T H Q D c \<Longrightarrow> c \<notin> queued H Q"
  by (simp_all add: kinv_def)

lemma kinv0_cong:
  assumes "p_lnk s' = p_lnk s" "p_rlnk s' = p_rlnk s" "cb_type s' = cb_type s"
    "p_dlnk s' = p_dlnk s" "p_blnk s' = p_blnk s" "delta_time s' = delta_time s"
    "tstate s' = tstate s" "prio s' = prio s"
  shows "kinv0 s' T H Q D c = kinv0 s T H Q D c"
  unfolding kinv0_def qrep_def drep_def sem_mbx_def assms by (rule refl)

lemma kinv_cong:
  assumes "p_lnk s' = p_lnk s" "p_rlnk s' = p_rlnk s" "cb_type s' = cb_type s"
    "p_dlnk s' = p_dlnk s" "p_blnk s' = p_blnk s" "delta_time s' = delta_time s"
    "tstate s' = tstate s" "prio s' = prio s"
  shows "kinv s' T H Q D c = kinv s T H Q D c"
  by (simp add: kinv_def kinv0_cong [OF assms])

text \<open>Fields that scheduling does not read.\<close>

lemma kinv_other [simp]:
  "kinv (mem_update f s) T H Q D c = kinv s T H Q D c"
  "kinv (tokens_update f2 s) T H Q D c = kinv s T H Q D c"
  "kinv (events_update f3 s) T H Q D c = kinv s T H Q D c"
  "kinv (waits_update f3 s) T H Q D c = kinv s T H Q D c"
  "kinv (mu_level_update f4 s) T H Q D c = kinv s T H Q D c"
  "kinv (mu_owner_update f5 s) T H Q D c = kinv s T H Q D c"
  "kinv (mu_prio_update f6 s) T H Q D c = kinv s T H Q D c"
  "kinv (tsk_new_update f7 s) T H Q D c = kinv s T H Q D c"
  "kinv (tsk_run_update f7 s) T H Q D c = kinv s T H Q D c"
  "kinv (tmsg_update f8 s) T H Q D c = kinv s T H Q D c"
  "kinv (mcb_msg_update f9 s) T H Q D c = kinv s T H Q D c"
  "kinv (mcb_count_update g1 s) T H Q D c = kinv s T H Q D c"
  "kinv (mcb_first_update g1 s) T H Q D c = kinv s T H Q D c"
  "kinv (mcb_last_update g1 s) T H Q D c = kinv s T H Q D c"
  "kinv (mcb_state_update g2 s) T H Q D c = kinv s T H Q D c"
  "kinv (os_time_update g3 s) T H Q D c = kinv s T H Q D c"
  "kinv (os_robin_update g4 s) T H Q D c = kinv s T H Q D c"
  "kinv (os_psq_update g5 s) T H Q D c = kinv s T H Q D c"
  "kinv (tsk_stack_update g6 s) T H Q D c = kinv s T H Q D c"
  by (rule kinv_cong; simp)+

lemma kinv0_other [simp]:
  "kinv0 (mem_update f s) T H Q D c = kinv0 s T H Q D c"
  "kinv0 (tokens_update f2 s) T H Q D c = kinv0 s T H Q D c"
  "kinv0 (waits_update f3 s) T H Q D c = kinv0 s T H Q D c"
  "kinv0 (tmsg_update f8 s) T H Q D c = kinv0 s T H Q D c"
  "kinv0 (mcb_state_update g2 s) T H Q D c = kinv0 s T H Q D c"
  "kinv0 (tsk_new_update f7 s) T H Q D c = kinv0 s T H Q D c"
  by (rule kinv0_cong; simp)+

text \<open>The fields that scheduling writes.\<close>

definition sched_mask :: "kst \<Rightarrow> kst" where
  "sched_mask s = lists_mask (s\<lparr>tsk_new := NULL\<rparr>)"

lemma sched_mask_simps [simp]:
  "sched_mask (p_lnk_update f1 s) = sched_mask s" "sched_mask (p_rlnk_update f2 s) = sched_mask s"
  "sched_mask (p_dlnk_update f3 s) = sched_mask s" "sched_mask (p_blnk_update f4 s) = sched_mask s"
  "sched_mask (delta_time_update f5 s) = sched_mask s" "sched_mask (tstate_update f6 s) = sched_mask s"
  "sched_mask (tsk_new_update f7 s) = sched_mask s"
  by (simp_all add: sched_mask_def lists_mask_def)

lemma sched_maskD:
  assumes "sched_mask s' = sched_mask s"
  shows "cb_type s' = cb_type s" "prio s' = prio s" "tsk_run s' = tsk_run s"
    "os_time s' = os_time s" "os_robin s' = os_robin s" "os_psq s' = os_psq s" "mem s' = mem s"
    "tokens s' = tokens s" "events s' = events s" "waits s' = waits s"
    "mu_level s' = mu_level s" "mu_owner s' = mu_owner s" "mu_prio s' = mu_prio s"
    "mcb_count s' = mcb_count s" "mcb_first s' = mcb_first s" "mcb_last s' = mcb_last s"
    "mcb_msg s' = mcb_msg s" "mcb_size s' = mcb_size s" "mcb_state s' = mcb_state s"
    "os_active_TCB s' = os_active_TCB s" "task_id s' = task_id s"
  using arg_cong [OF assms, of cb_type] arg_cong [OF assms, of prio]
    arg_cong [OF assms, of tsk_run] arg_cong [OF assms, of os_time]
    arg_cong [OF assms, of os_robin] arg_cong [OF assms, of os_psq] arg_cong [OF assms, of mem]
    arg_cong [OF assms, of tokens] arg_cong [OF assms, of events] arg_cong [OF assms, of waits]
    arg_cong [OF assms, of mu_level] arg_cong [OF assms, of mu_owner] arg_cong [OF assms, of mu_prio]
    arg_cong [OF assms, of mcb_count] arg_cong [OF assms, of mcb_first]
    arg_cong [OF assms, of mcb_last] arg_cong [OF assms, of mcb_msg]
    arg_cong [OF assms, of mcb_size] arg_cong [OF assms, of mcb_state]
    arg_cong [OF assms, of os_active_TCB] arg_cong [OF assms, of task_id]
  by (simp_all add: sched_mask_def lists_mask_def)

lemma sched_mask_lists: "lists_mask s' = lists_mask s \<Longrightarrow> sched_mask s' = sched_mask s"
proof -
  assume a: "lists_mask s' = lists_mask s"
  have "sched_mask x = (lists_mask x)\<lparr>tsk_new := NULL\<rparr>" for x
    by (simp add: sched_mask_def lists_mask_def)
  with a show ?thesis by simp
qed

section \<open>Steps of the invariant\<close>

text \<open>A task in no list and not running (in limbo) may be in any waiting state.\<close>

lemma kinv_limbo_state:
  assumes "kinv s T H Q D c" and "t \<noteq> c" "t \<notin> set (Q os_rdy)" and "v \<noteq> READY" "v \<noteq> RUNNING"
  shows "kinv (set_tstate t v s) T H Q D c"
proof -
  note k = kinv0D [OF kinvD(1) [OF assms(1)]]
  have "qrep (set_tstate t v s) T H Q" by (rule qrep_cong [OF k(1)]) simp_all
  moreover have "drep (set_tstate t v s) T D" by (rule drep_cong [OF k(2)]) simp_all
  ultimately show ?thesis
    using k assms(2-5) kinvD(2) [OF assms(1)] unfolding kinv_def kinv0_def by auto
qed

lemma kinv_get_first:
  assumes "kinv s T H Q D c" and "h \<in> H" "h \<noteq> os_rdy" and "Q h = t # xs"
  shows "\<exists>L R. rt_get_first h s = Some (t, s\<lparr>p_lnk := L, p_rlnk := R\<rparr>) \<and>
    kinv (s\<lparr>p_lnk := L, p_rlnk := R\<rparr>) T H (Q(h := xs)) D c"
proof -
  note k = kinv0D [OF kinvD(1) [OF assms(1)]]
  obtain L R where run: "rt_get_first h s = Some (t, s\<lparr>p_lnk := L, p_rlnk := R\<rparr>)"
    and rep: "qrep (s\<lparr>p_lnk := L, p_rlnk := R\<rparr>) T H (Q(h := xs))"
    using rt_get_first_qrep [OF k(1) assms(2,4)] by blast
  have "drep (s\<lparr>p_lnk := L, p_rlnk := R\<rparr>) T D" by (rule drep_cong [OF k(2)]) simp_all
  moreover have "\<forall>g\<in>H. prio_sorted (prio s) ((Q(h := xs)) g)"
    using k(3) k(3) [OF assms(2)] assms(4) by auto
  moreover have "c \<notin> queued H (Q(h := xs))"
    using kinvD(2) [OF assms(1)] assms(2,4) by (auto simp: queued_def split: if_splits)
  ultimately have "kinv (s\<lparr>p_lnk := L, p_rlnk := R\<rparr>) T H (Q(h := xs)) D c"
    using k rep assms(3) unfolding kinv_def kinv0_def by simp
  with run show ?thesis by blast
qed

lemma kinv_rmv_dly:
  assumes "kinv s T H Q D c" and "t \<in> T"
  shows "\<exists>L R X. rt_rmv_dly t s = Some (s\<lparr>p_dlnk := L, p_blnk := R, delta_time := X\<rparr>) \<and>
    kinv (s\<lparr>p_dlnk := L, p_blnk := R, delta_time := X\<rparr>) T H Q (filter (\<lambda>(x, n). x \<noteq> t) D) c"
proof -
  note k = kinv0D [OF kinvD(1) [OF assms(1)]]
  obtain L R X where run: "rt_rmv_dly t s = Some (s\<lparr>p_dlnk := L, p_blnk := R, delta_time := X\<rparr>)"
    and rep: "drep (s\<lparr>p_dlnk := L, p_blnk := R, delta_time := X\<rparr>) T (filter (\<lambda>(x, n). x \<noteq> t) D)"
    using rt_rmv_dly_filter [OF k(2) assms(2)] by blast
  have "qrep (s\<lparr>p_dlnk := L, p_blnk := R, delta_time := X\<rparr>) T H Q"
    by (rule qrep_cong [OF k(1)]) simp_all
  moreover have "fst ` set (filter (\<lambda>(x, n). x \<noteq> t) D) \<subseteq> fst ` set D" by auto
  ultimately have "kinv (s\<lparr>p_dlnk := L, p_blnk := R, delta_time := X\<rparr>) T H Q
      (filter (\<lambda>(x, n). x \<noteq> t) D) c"
    using k rep kinvD(2) [OF assms(1)] unfolding kinv_def kinv0_def by auto
  with run show ?thesis by blast
qed

text \<open>
  Between the moment a handler has put the running task back into the ready list and the
  moment it selects the next one no task runs: \<open>ksus\<close> is the invariant of that phase.
\<close>

definition ksus ::
  "kst \<Rightarrow> ptr set \<Rightarrow> ptr set \<Rightarrow> (ptr \<Rightarrow> ptr list) \<Rightarrow> (ptr \<times> nat) list \<Rightarrow> bool" where
  "ksus s T H Q D \<longleftrightarrow>
     qrep s T H Q \<and> drep s T D \<and>
     (\<forall>h\<in>H. prio_sorted (prio s) (Q h)) \<and> (\<forall>(t, n)\<in>set D. 0 < n) \<and>
     (\<forall>t\<in>T. tstate s t \<noteq> RUNNING) \<and>
     (\<forall>t\<in>T. tstate s t = READY \<longleftrightarrow> t \<in> set (Q os_rdy)) \<and>
     fst ` set D \<inter> set (Q os_rdy) = {} \<and> os_idle_TCB \<in> set (Q os_rdy)"

lemma ksusD:
  assumes "ksus s T H Q D"
  shows "qrep s T H Q" "drep s T D"
    "\<And>h. h \<in> H \<Longrightarrow> prio_sorted (prio s) (Q h)" "\<forall>(t, n)\<in>set D. 0 < n"
    "\<And>t. t \<in> T \<Longrightarrow> tstate s t \<noteq> RUNNING"
    "\<And>t. t \<in> T \<Longrightarrow> tstate s t = READY \<longleftrightarrow> t \<in> set (Q os_rdy)"
    "fst ` set D \<inter> set (Q os_rdy) = {}" "os_idle_TCB \<in> set (Q os_rdy)"
  using assms unfolding ksus_def by blast+

lemma ksus_cong:
  assumes "p_lnk s' = p_lnk s" "p_rlnk s' = p_rlnk s" "cb_type s' = cb_type s"
    "p_dlnk s' = p_dlnk s" "p_blnk s' = p_blnk s" "delta_time s' = delta_time s"
    "tstate s' = tstate s" "prio s' = prio s"
  shows "ksus s' T H Q D = ksus s T H Q D"
  unfolding ksus_def qrep_def drep_def sem_mbx_def assms by (rule refl)

lemma ksus_other [simp]:
  "ksus (os_time_update g3 s) T H Q D = ksus s T H Q D"
  "ksus (os_robin_update g4 s) T H Q D = ksus s T H Q D"
  "ksus (os_psq_update g5 s) T H Q D = ksus s T H Q D"
  "ksus (mem_update f s) T H Q D = ksus s T H Q D"
  "ksus (tokens_update f2 s) T H Q D = ksus s T H Q D"
  "ksus (events_update f3 s) T H Q D = ksus s T H Q D"
  "ksus (waits_update f3 s) T H Q D = ksus s T H Q D"
  "ksus (mcb_msg_update f9 s) T H Q D = ksus s T H Q D"
  "ksus (mcb_count_update g1 s) T H Q D = ksus s T H Q D"
  "ksus (mcb_first_update g1 s) T H Q D = ksus s T H Q D"
  "ksus (mcb_last_update g1 s) T H Q D = ksus s T H Q D"
  "ksus (mcb_state_update g2 s) T H Q D = ksus s T H Q D"
  by (rule ksus_cong; simp)+

text \<open>Entering a handler: the running task goes back to the front of the ready list.\<close>

lemma ksus_enter:
  assumes k0: "kinv s T H Q D c"
  shows "\<exists>s'. rt_put_rdy_first c (set_tstate c READY s) = Some s' \<and>
    ksus s' T H (Q(os_rdy := c # Q os_rdy)) D \<and> sched_mask s' = sched_mask s \<and>
    tsk_new s' = tsk_new s"
proof -
  note k = kinv0D [OF kinvD(1) [OF k0]] and cq = kinvD(2) [OF k0]
  let ?s = "set_tstate c READY s"
  have rep: "qrep ?s T H Q" using k(1) by simp
  obtain L R where put: "rt_put_rdy_first c ?s = Some (?s\<lparr>p_lnk := L, p_rlnk := R\<rparr>)"
    and rep1: "qrep (?s\<lparr>p_lnk := L, p_rlnk := R\<rparr>) T H (Q(os_rdy := c # Q os_rdy))"
    using rt_put_rdy_first_qrep [OF rep k(5) cq] by blast
  have "ksus (?s\<lparr>p_lnk := L, p_rlnk := R\<rparr>) T H (Q(os_rdy := c # Q os_rdy)) D"
    unfolding ksus_def
  proof (intro conjI ballI)
    show "drep (?s\<lparr>p_lnk := L, p_rlnk := R\<rparr>) T D" by (rule drep_cong [OF k(2)]) simp_all
    show "prio_sorted (prio (?s\<lparr>p_lnk := L, p_rlnk := R\<rparr>)) ((Q(os_rdy := c # Q os_rdy)) h)"
      if "h \<in> H" for h using k(3) [OF that] k(11) k(3) [OF qrepD(1) [OF k(1)]] by simp
    show "tstate (?s\<lparr>p_lnk := L, p_rlnk := R\<rparr>) t \<noteq> RUNNING" if "t \<in> T" for t
      using k(8) [OF that] by simp
    show "(tstate (?s\<lparr>p_lnk := L, p_rlnk := R\<rparr>) t = READY) =
        (t \<in> set ((Q(os_rdy := c # Q os_rdy)) os_rdy))" if "t \<in> T" for t
      using k(9) [OF that] by auto
  qed (use rep1 k in auto)
  with put show ?thesis by (intro exI [of _ "?s\<lparr>p_lnk := L, p_rlnk := R\<rparr>"]) simp
qed

text \<open>A task that is in no list becomes ready.\<close>

lemma ksus_put:
  assumes k0: "ksus s T H Q D" and t: "t \<in> T" "t \<notin> queued H Q" "t \<notin> fst ` set D"
  shows "\<exists>s'. rt_put_prio os_rdy t (set_tstate t READY s) = Some s' \<and>
    ksus s' T H (Q(os_rdy := ins_prio (prio s) t (Q os_rdy))) D \<and> sched_mask s' = sched_mask s \<and>
    tsk_new s' = tsk_new s"
proof -
  note k = ksusD [OF k0]
  let ?s = "set_tstate t READY s" and ?Q = "Q(os_rdy := ins_prio (prio s) t (Q os_rdy))"
  have rep: "qrep ?s T H Q" using k(1) by simp
  obtain L R where put: "rt_put_prio os_rdy t ?s = Some (?s\<lparr>p_lnk := L, p_rlnk := R\<rparr>)"
    and rep1: "qrep (?s\<lparr>p_lnk := L, p_rlnk := R\<rparr>) T H ?Q"
    using rt_put_prio_qrep [OF rep qrepD(1) [OF k(1)] t(1,2)] by auto
  have "ksus (?s\<lparr>p_lnk := L, p_rlnk := R\<rparr>) T H ?Q D"
    unfolding ksus_def
  proof (intro conjI ballI)
    show "drep (?s\<lparr>p_lnk := L, p_rlnk := R\<rparr>) T D" by (rule drep_cong [OF k(2)]) simp_all
    show "prio_sorted (prio (?s\<lparr>p_lnk := L, p_rlnk := R\<rparr>)) (?Q h)"
      if "h \<in> H" for h
      using k(3) [OF that] prio_sorted_ins_prio [OF k(3) [OF qrepD(1) [OF k(1)]]] by simp
    show "tstate (?s\<lparr>p_lnk := L, p_rlnk := R\<rparr>) x \<noteq> RUNNING" if "x \<in> T" for x
      using k(5) [OF that] by simp
    show "(tstate (?s\<lparr>p_lnk := L, p_rlnk := R\<rparr>) x = READY) = (x \<in> set (?Q os_rdy))"
      if "x \<in> T" for x using k(6) [OF that] by auto
  qed (use rep1 k t in auto)
  with put show ?thesis by (intro exI [of _ "?s\<lparr>p_lnk := L, p_rlnk := R\<rparr>"]) simp
qed

text \<open>
  Waking a task in this phase. Between its leaving the waiting list and its entering the
  ready list the state of the task is arbitrary; the invariant is stated with some waiting
  state \<open>v\<close> in its place.
\<close>

lemma ksus_get_first:
  assumes k0: "ksus s T H Q D" and h: "h \<in> H" "h \<noteq> os_rdy" and Q: "Q h = t # xs"
  shows "\<exists>L R. rt_get_first h s = Some (t, s\<lparr>p_lnk := L, p_rlnk := R\<rparr>) \<and>
    ksus (s\<lparr>p_lnk := L, p_rlnk := R\<rparr>) T H (Q(h := xs)) D \<and>
    t \<in> T \<and> t \<noteq> NULL \<and> t \<notin> queued H (Q(h := xs))"
proof -
  note k = ksusD [OF k0]
  obtain L R where run: "rt_get_first h s = Some (t, s\<lparr>p_lnk := L, p_rlnk := R\<rparr>)"
    and rep: "qrep (s\<lparr>p_lnk := L, p_rlnk := R\<rparr>) T H (Q(h := xs))"
    using rt_get_first_qrep [OF k(1) h(1) Q] by blast
  have "drep (s\<lparr>p_lnk := L, p_rlnk := R\<rparr>) T D" by (rule drep_cong [OF k(2)]) simp_all
  moreover have "\<forall>g\<in>H. prio_sorted (prio s) ((Q(h := xs)) g)"
    using k(3) k(3) [OF h(1)] Q by auto
  ultimately have "ksus (s\<lparr>p_lnk := L, p_rlnk := R\<rparr>) T H (Q(h := xs)) D"
    using k rep h(2) unfolding ksus_def by simp
  moreover have "t \<in> T" using qrepD(9) [OF k(1) h(1)] Q by auto
  moreover from this have "t \<noteq> NULL" using qrepD(3) [OF k(1)] by auto
  moreover have "t \<notin> set xs" using qrep_distinct [OF k(1) h(1)] Q by simp
  moreover have "t \<notin> set (Q g)" if "g \<in> H" "g \<noteq> h" for g
    using qrepD(12) [OF k(1) h(1) that(1)] that(2) Q by auto
  ultimately show ?thesis using run by (auto simp: queued_def)
qed

lemma ksus_limbo_state:
  assumes "ksus (set_tstate t v s) T H Q D" and "t \<notin> set (Q os_rdy)" and "v' \<noteq> READY" "v' \<noteq> RUNNING"
  shows "ksus (set_tstate t v' s) T H Q D"
proof -
  note k = ksusD [OF assms(1)]
  show ?thesis
    unfolding ksus_def
  proof (intro conjI ballI)
    show "drep (set_tstate t v' s) T D" by (rule drep_cong [OF k(2)]) simp_all
    show "tstate (set_tstate t v' s) x \<noteq> RUNNING" if "x \<in> T" for x
      using k(5) [OF that] assms(4) by (cases "x = t") simp_all
    show "(tstate (set_tstate t v' s) x = READY) = (x \<in> set (Q os_rdy))" if "x \<in> T" for x
      using k(6) [OF that] assms(2,3) by (cases "x = t") simp_all
  qed (use k in auto)
qed

lemma ksus_rmv_dly:
  assumes "ksus (set_tstate t v s) T H Q D" and "t \<in> T"
  shows "\<exists>L R X. rt_rmv_dly t s = Some (s\<lparr>p_dlnk := L, p_blnk := R, delta_time := X\<rparr>) \<and>
    ksus (set_tstate t v (s\<lparr>p_dlnk := L, p_blnk := R, delta_time := X\<rparr>)) T H Q
      (filter (\<lambda>(x, n). x \<noteq> t) D)"
proof -
  note k = ksusD [OF assms(1)]
  have "drep s T D" by (rule drep_cong [OF k(2)]) simp_all
  then obtain L R X where run: "rt_rmv_dly t s = Some (s\<lparr>p_dlnk := L, p_blnk := R, delta_time := X\<rparr>)"
    and rep: "drep (s\<lparr>p_dlnk := L, p_blnk := R, delta_time := X\<rparr>) T (filter (\<lambda>(x, n). x \<noteq> t) D)"
    using rt_rmv_dly_filter assms(2) by blast
  define s' where "s' = set_tstate t v (s\<lparr>p_dlnk := L, p_blnk := R, delta_time := X\<rparr>)"
  have "qrep s' T H Q" by (rule qrep_cong [OF k(1)]) (simp_all add: s'_def)
  moreover have "drep s' T (filter (\<lambda>(x, n). x \<noteq> t) D)"
    by (rule drep_cong [OF rep]) (simp_all add: s'_def)
  moreover have "fst ` set (filter (\<lambda>(x, n). x \<noteq> t) D) \<subseteq> fst ` set D" by auto
  moreover have "tstate s' = (tstate s)(t := v)" "prio s' = prio s" by (simp_all add: s'_def)
  ultimately have "ksus s' T H Q (filter (\<lambda>(x, n). x \<noteq> t) D)"
    using k unfolding ksus_def by auto
  with run show ?thesis unfolding s'_def by blast
qed

lemma ksus_ready:
  assumes k0: "ksus (set_tstate t v s) T H Q D" and st: "tstate s t = READY"
    and t: "t \<in> T" "t \<notin> queued H Q" "t \<notin> fst ` set D"
  shows "\<exists>s'. rt_put_prio os_rdy t s = Some s' \<and>
    ksus s' T H (Q(os_rdy := ins_prio (prio s) t (Q os_rdy))) D \<and> sched_mask s' = sched_mask s \<and>
    tsk_new s' = tsk_new s"
proof -
  have "set_tstate t READY (set_tstate t v s) = s" using st by (simp add: comp_def fun_upd_idem)
  then show ?thesis using ksus_put [OF k0 t] by simp
qed

text \<open>
  Selecting the first ready task: the common end of \<open>rt_block\<close>, of \<open>rt_dispatch (NULL)\<close>
  and of the handlers.
\<close>

lemma ksus_switch:
  assumes k0: "ksus s T H Q D" and Q: "Q os_rdy = n # xs"
  shows "\<exists>s'. (do { (p, s) \<leftarrow> rt_get_first os_rdy s; rt_switch_req p s }) = Some s' \<and>
    tsk_new s' = n \<and> kinv s' T H (Q(os_rdy := xs)) D n \<and> sched_mask s' = sched_mask s \<and>
    tstate s' = (tstate s)(n := RUNNING)"
proof -
  note k = ksusD [OF k0]
  note r = qrepD [OF k(1)]
  obtain L R where run: "rt_get_first os_rdy s = Some (n, s\<lparr>p_lnk := L, p_rlnk := R\<rparr>)"
    and rep1: "qrep (s\<lparr>p_lnk := L, p_rlnk := R\<rparr>) T H (Q(os_rdy := xs))"
    using rt_get_first_qrep [OF k(1) r(1) Q] by blast
  define s' where "s' = set_tstate n RUNNING (s\<lparr>p_lnk := L, p_rlnk := R, tsk_new := n\<rparr>)"
  have n: "n \<in> T" "n \<noteq> NULL" using r(3) r(9) [OF r(1)] Q by auto
  have f: "prio s' = prio s" "tstate s' = (tstate s)(n := RUNNING)" "tsk_new s' = n"
    "sched_mask s' = sched_mask s" by (simp_all add: s'_def)
  have "qrep s' T H (Q(os_rdy := xs))" by (rule qrep_cong [OF rep1]) (simp_all add: s'_def)
  moreover have "drep s' T D" by (rule drep_cong [OF k(2)]) (simp_all add: s'_def)
  moreover have "\<forall>h\<in>H. prio_sorted (prio s') ((Q(os_rdy := xs)) h)"
    using k(3) k(3) [OF r(1)] Q f(1) by auto
  moreover have dn: "n \<notin> set xs" using qrep_distinct [OF k(1) r(1)] Q by simp
  moreover have "n \<notin> fst ` set D" using k(7) Q by auto
  moreover have "n \<notin> queued H (Q(os_rdy := xs))"
  proof -
    have "n \<notin> set (Q h)" if "h \<in> H" "h \<noteq> os_rdy" for h
      using r(12) [OF r(1) that(1)] that(2) Q by auto
    with dn show ?thesis by (auto simp: queued_def)
  qed
  moreover have "\<forall>t\<in>T. tstate s' t = RUNNING \<longleftrightarrow> t = n" using k(5) f(2) by auto
  moreover have "\<forall>t\<in>T. tstate s' t = READY \<longleftrightarrow> t \<in> set xs"
    using k(6) f(2) Q dn by auto
  moreover have "\<forall>x\<in>set xs. prio s' x \<le> prio s' n" using k(3) [OF r(1)] Q f(1) by auto
  ultimately have "kinv s' T H (Q(os_rdy := xs)) D n"
    using k n Q unfolding kinv_def kinv0_def by auto
  then show ?thesis using run n f by (auto simp: rt_switch_req_def s'_def)
qed

lemma kinv_block:
  assumes k0: "kinv0 s T H Q D c" and run: "tsk_run s = c" and c: "c \<noteq> os_idle_TCB"
    and tmo: "timeout \<noteq> 0" and st: "st \<noteq> READY" "st \<noteq> RUNNING"
  shows "\<exists>s' n xs. Q os_rdy = n # xs \<and> rt_block timeout st s = Some s' \<and> tsk_new s' = n \<and>
    kinv s' T H (Q(os_rdy := xs)) (if timeout < 0xffff then ins_dly c (unat timeout) D else D) n \<and>
    sched_mask s' = sched_mask s \<and> tstate s' = (tstate s)(c := st, n := RUNNING)"
proof -
  note k = kinv0D [OF k0]
  define D' where "D' = (if timeout < 0xffff then ins_dly c (unat timeout) D else D)"
  have tpos: "0 < unat timeout" using tmo by (simp add: unat_gt_0)
  have cn: "c \<noteq> NULL" using k(5) qrepD(3) [OF k(1)] by auto
  obtain n xs where Q: "Q os_rdy = n # xs" using k(12) c by (cases "Q os_rdy") auto
  have cD: "c \<notin> set (n # xs)" using k(6) Q by simp
  have "\<exists>L R X. (if timeout < 0xffff then rt_put_dly (tsk_run s) timeout s else Some s) =
       Some (s\<lparr>p_dlnk := L, p_blnk := R, delta_time := X\<rparr>) \<and>
     drep (s\<lparr>p_dlnk := L, p_blnk := R, delta_time := X\<rparr>) T D'"
  proof (cases "timeout < 0xffff")
    case True
    then show ?thesis using rt_put_dly_drep [OF k(2,5,7) tpos] run by (auto simp: D'_def)
  next
    case False
    with k(2) show ?thesis
      by (intro exI [of _ "p_dlnk s"] exI [of _ "p_blnk s"] exI [of _ "delta_time s"])
        (simp add: D'_def)
  qed
  then obtain L R X where s1:
    "(if timeout < 0xffff then rt_put_dly (tsk_run s) timeout s else Some s) =
       Some (s\<lparr>p_dlnk := L, p_blnk := R, delta_time := X\<rparr>)"
    and rep: "drep (s\<lparr>p_dlnk := L, p_blnk := R, delta_time := X\<rparr>) T D'" by blast
  define s2 where "s2 = set_tstate c st (s\<lparr>p_dlnk := L, p_blnk := R, delta_time := X\<rparr>)"
  have f: "tstate s2 = (tstate s)(c := st)" "prio s2 = prio s" "sched_mask s2 = sched_mask s"
    by (simp_all add: s2_def)
  have pos: "\<forall>(t, m)\<in>set D'. 0 < m" using k(4) tpos by (auto simp: D'_def)
  have "ksus s2 T H Q D'"
    unfolding ksus_def
  proof (intro conjI ballI)
    show "qrep s2 T H Q" by (rule qrep_cong [OF k(1)]) (simp_all add: s2_def)
    show "drep s2 T D'" by (rule drep_cong [OF rep]) (simp_all add: s2_def)
    show "prio_sorted (prio s2) (Q h)" if "h \<in> H" for h using k(3) that f(2) by simp
    show "tstate s2 t \<noteq> RUNNING" if "t \<in> T" for t using k(8) [OF that] f(1) st by auto
    show "tstate s2 t = READY \<longleftrightarrow> t \<in> set (Q os_rdy)" if "t \<in> T" for t
      using k(9) [OF that] k(6) f(1) st by auto
    show "os_idle_TCB \<in> set (Q os_rdy)" using k(12) c by auto
    show "fst ` set D' \<inter> set (Q os_rdy) = {}" using k(6,10) by (auto simp: D'_def)
    show "\<And>x. x \<in> set D' \<Longrightarrow> case x of (t, m) \<Rightarrow> 0 < m" using pos by blast
  qed
  note ksus_switch [OF this Q]
  then obtain s' where s': "(do { (p, s) \<leftarrow> rt_get_first os_rdy s2; rt_switch_req p s }) = Some s'"
    "tsk_new s' = n" "kinv s' T H (Q(os_rdy := xs)) D' n" "sched_mask s' = sched_mask s2"
    "tstate s' = (tstate s2)(n := RUNNING)" by blast
  have "rt_block timeout st s = Some s'"
    using tmo s1 s'(1) run cn by (simp add: rt_block_def s2_def)
  moreover have "tstate s' = (tstate s)(c := st, n := RUNNING)" using s'(5) f(1) by simp
  ultimately show ?thesis using Q s' f(3) unfolding D'_def by auto
qed


text \<open>
  Waking a task \<open>t\<close> that waits in no list: it preempts the running task when its priority
  is higher, otherwise it queues behind the ready tasks of at least its priority.
\<close>

definition wakes :: "kst \<Rightarrow> kst \<Rightarrow> ptr set \<Rightarrow> ptr set \<Rightarrow> (ptr \<Rightarrow> ptr list) \<Rightarrow> (ptr \<times> nat) list \<Rightarrow>
    ptr \<Rightarrow> ptr \<Rightarrow> bool" where
  "wakes s s' T H Q D c t \<longleftrightarrow>
     (if prio s t > prio s c
      then kinv s' T H (Q(os_rdy := c # Q os_rdy)) D t \<and> tsk_new s' = t
      else kinv s' T H (Q(os_rdy := ins_prio (prio s) t (Q os_rdy))) D c \<and> tsk_new s' = tsk_new s) \<and>
     sched_mask s' = sched_mask s"

lemma kinv_dispatch:
  assumes k0: "kinv s T H Q D c" and run: "tsk_run s = c"
    and t: "t \<in> T" "t \<notin> queued H Q" "t \<notin> fst ` set D" "t \<noteq> c"
  shows "\<exists>s'. rt_dispatch t s = Some s' \<and> wakes s s' T H Q D c t"
proof -
  note k = kinv0D [OF kinvD(1) [OF k0]] and cq = kinvD(2) [OF k0]
  note r = qrepD [OF k(1)]
  have nn: "c \<noteq> NULL" "t \<noteq> NULL" using r(3) k(5) t(1) by auto
  have tq: "\<And>h. t \<notin> set (Q h)" "\<And>h. c \<notin> set (Q h)"
    using t(2) cq r(13) unfolding queued_def by (metis (mono_tags, lifting) UN_I empty_iff list.set(1))+
  show ?thesis
  proof (cases "prio s t > prio s c")
    case True
    obtain L R where put: "rt_put_rdy_first c s = Some (s\<lparr>p_lnk := L, p_rlnk := R\<rparr>)"
      and rep: "qrep (s\<lparr>p_lnk := L, p_rlnk := R\<rparr>) T H (Q(os_rdy := c # Q os_rdy))"
      using rt_put_rdy_first_qrep [OF k(1,5) cq] by blast
    define s' where "s' = set_tstate t RUNNING
      (set_tstate c READY (s\<lparr>p_lnk := L, p_rlnk := R\<rparr>)\<lparr>tsk_new := t\<rparr>)"
    have rep': "qrep s' T H (Q(os_rdy := c # Q os_rdy))"
      by (rule qrep_cong [OF rep]) (simp_all add: s'_def)
    have del: "drep s' T D" by (rule drep_cong [OF k(2)]) (simp_all add: s'_def)
    have f: "tstate s' = (tstate s)(c := READY, t := RUNNING)" "prio s' = prio s" "tsk_new s' = t"
      "sched_mask s' = sched_mask s" by (simp_all add: s'_def)
    have "kinv s' T H (Q(os_rdy := c # Q os_rdy)) D t"
      unfolding kinv_def kinv0_def
    proof (intro conjI ballI)
      show "prio_sorted (prio s') ((Q(os_rdy := c # Q os_rdy)) h)" if "h \<in> H" for h
        using k(3) [OF that] k(3) [OF r(1)] k(11) f(2) by simp
      show "(tstate s' x = RUNNING) = (x = t)" if "x \<in> T" for x
        using k(8) [OF that] t(4) f(1) by auto
      show "(tstate s' x = READY) = (x \<in> set ((Q(os_rdy := c # Q os_rdy)) os_rdy))" if "x \<in> T" for x
        using k(9) [OF that] t(4) tq(1) [of os_rdy] f(1) by auto
      show "prio s' x \<le> prio s' t" if "x \<in> set ((Q(os_rdy := c # Q os_rdy)) os_rdy)" for x
        using that k(11) [of x] True f(2) by auto
      show "t \<notin> queued H (Q(os_rdy := c # Q os_rdy))" using t(2,4) by (auto simp: queued_def split: if_splits)
    qed (use rep' del k tq t in auto)
    then show ?thesis using put nn run f True
      by (auto simp: rt_dispatch_def rt_switch_req_def s'_def wakes_def)
  next
    case False
    define s1 where "s1 = set_tstate t READY s"
    have rep1: "qrep s1 T H Q" by (rule qrep_cong [OF k(1)]) (simp_all add: s1_def)
    obtain L R where put: "rt_put_prio os_rdy t s1 = Some (s1\<lparr>p_lnk := L, p_rlnk := R\<rparr>)"
      and rep: "qrep (s1\<lparr>p_lnk := L, p_rlnk := R\<rparr>) T H
        (Q(os_rdy := ins_prio (prio s1) t (Q os_rdy)))"
      using rt_put_prio_qrep [OF rep1 r(1) t(1,2)] by blast
    define s' where "s' = s1\<lparr>p_lnk := L, p_rlnk := R\<rparr>"
    have f: "tstate s' = (tstate s)(t := READY)" "prio s' = prio s" "prio s1 = prio s"
      "tsk_new s' = tsk_new s" "sched_mask s' = sched_mask s" by (simp_all add: s'_def s1_def)
    have del: "drep s' T D" by (rule drep_cong [OF k(2)]) (simp_all add: s'_def s1_def)
    have "kinv s' T H (Q(os_rdy := ins_prio (prio s) t (Q os_rdy))) D c"
      unfolding kinv_def kinv0_def
    proof (intro conjI ballI)
      show "prio_sorted (prio s') ((Q(os_rdy := ins_prio (prio s) t (Q os_rdy))) h)" if "h \<in> H" for h
        using k(3) [OF that] prio_sorted_ins_prio [OF k(3) [OF r(1)]] f(2) by simp
      show "(tstate s' x = RUNNING) = (x = c)" if "x \<in> T" for x
        using k(8) [OF that] t(4) f(1) by auto
      show "(tstate s' x = READY) = (x \<in> set ((Q(os_rdy := ins_prio (prio s) t (Q os_rdy))) os_rdy))"
        if "x \<in> T" for x using k(9) [OF that] f(1) by auto
      show "prio s' x \<le> prio s' c"
        if "x \<in> set ((Q(os_rdy := ins_prio (prio s) t (Q os_rdy))) os_rdy)" for x
        using that k(11) [of x] False f(2) by auto
      show "c \<notin> queued H (Q(os_rdy := ins_prio (prio s) t (Q os_rdy)))"
        using cq t(4) by (auto simp: queued_def split: if_splits)
    qed (use rep del k tq t f(3) in \<open>auto simp: s'_def\<close>)
    then show ?thesis using put nn run f False
      by (auto simp: rt_dispatch_def s'_def s1_def wakes_def)
  qed
qed

text \<open>
  While a service wakes several tasks a ready task may have a higher priority than the
  running one; \<open>kcore\<close> is \<open>kinv\<close> without the promise that \<open>c\<close> has the highest priority.
\<close>

definition kcore ::
  "kst \<Rightarrow> ptr set \<Rightarrow> ptr set \<Rightarrow> (ptr \<Rightarrow> ptr list) \<Rightarrow> (ptr \<times> nat) list \<Rightarrow> ptr \<Rightarrow> bool" where
  "kcore s T H Q D c \<longleftrightarrow>
     qrep s T H Q \<and> drep s T D \<and>
     (\<forall>h\<in>H. prio_sorted (prio s) (Q h)) \<and> (\<forall>(t, n)\<in>set D. 0 < n) \<and>
     c \<in> T \<and> c \<notin> queued H Q \<and> c \<notin> fst ` set D \<and>
     (\<forall>t\<in>T. tstate s t = RUNNING \<longleftrightarrow> t = c) \<and>
     (\<forall>t\<in>T. tstate s t = READY \<longleftrightarrow> t \<in> set (Q os_rdy)) \<and>
     fst ` set D \<inter> set (Q os_rdy) = {} \<and>
     (os_idle_TCB = c \<or> os_idle_TCB \<in> set (Q os_rdy))"

lemma kcoreD:
  assumes "kcore s T H Q D c"
  shows "qrep s T H Q" "drep s T D"
    "\<And>h. h \<in> H \<Longrightarrow> prio_sorted (prio s) (Q h)" "\<forall>(t, n)\<in>set D. 0 < n"
    "c \<in> T" "c \<notin> queued H Q" "c \<notin> fst ` set D"
    "\<And>t. t \<in> T \<Longrightarrow> tstate s t = RUNNING \<longleftrightarrow> t = c"
    "\<And>t. t \<in> T \<Longrightarrow> tstate s t = READY \<longleftrightarrow> t \<in> set (Q os_rdy)"
    "fst ` set D \<inter> set (Q os_rdy) = {}"
    "os_idle_TCB = c \<or> os_idle_TCB \<in> set (Q os_rdy)"
  using assms unfolding kcore_def by blast+

lemma kcore_notin: "kcore s T H Q D c \<Longrightarrow> h \<in> H \<Longrightarrow> c \<notin> set (Q h)"
  using kcoreD(6) by (fastforce simp: queued_def)

lemma kinv_kcore:
  "kinv s T H Q D c \<longleftrightarrow> kcore s T H Q D c \<and> (\<forall>x\<in>set (Q os_rdy). prio s x \<le> prio s c)"
proof -
  have "c \<notin> queued H Q \<Longrightarrow> qrep s T H Q \<Longrightarrow> c \<notin> set (Q os_rdy)"
    using qrepD(1) by (auto simp: queued_def)
  then show ?thesis unfolding kinv_def kinv0_def kcore_def by blast
qed

lemma kcore_cong:
  assumes "p_lnk s' = p_lnk s" "p_rlnk s' = p_rlnk s" "cb_type s' = cb_type s"
    "p_dlnk s' = p_dlnk s" "p_blnk s' = p_blnk s" "delta_time s' = delta_time s"
    "tstate s' = tstate s" "prio s' = prio s"
  shows "kcore s' T H Q D c = kcore s T H Q D c"
  unfolding kcore_def qrep_def drep_def sem_mbx_def assms by (rule refl)

lemma kcore_other [simp]:
  "kcore (mem_update f s) T H Q D c = kcore s T H Q D c"
  "kcore (mu_level_update f4 s) T H Q D c = kcore s T H Q D c"
  "kcore (mu_owner_update f5 s) T H Q D c = kcore s T H Q D c"
  "kcore (mu_prio_update f6 s) T H Q D c = kcore s T H Q D c"
  by (rule kcore_cong; simp)+

text \<open>The priority of the running task matters to no list.\<close>

lemma kcore_set_run_prio:
  assumes k0: "kcore s T H Q D c"
  shows "kcore (set_prio c v s) T H Q D c"
proof -
  note k = kcoreD [OF k0]
  have srt: "prio_sorted ((prio s)(c := v)) (Q h)" if "h \<in> H" for h
    by (rule prio_sorted_cong [OF k(3) [OF that]]) (use kcore_notin [OF k0 that] in auto)
  have "qrep (set_prio c v s) T H Q" by (rule qrep_cong [OF k(1)]) simp_all
  moreover have "drep (set_prio c v s) T D" by (rule drep_cong [OF k(2)]) simp_all
  ultimately show ?thesis using k srt unfolding kcore_def by simp
qed

lemma kcore_get_first:
  assumes k0: "kcore s T H Q D c" and h: "h \<in> H" "h \<noteq> os_rdy" and Q: "Q h = t # xs"
  shows "\<exists>L R. rt_get_first h s = Some (t, s\<lparr>p_lnk := L, p_rlnk := R\<rparr>) \<and>
    kcore (s\<lparr>p_lnk := L, p_rlnk := R\<rparr>) T H (Q(h := xs)) D c \<and>
    t \<in> T \<and> t \<noteq> NULL \<and> t \<noteq> c \<and> t \<notin> queued H (Q(h := xs))"
proof -
  note k = kcoreD [OF k0]
  obtain L R where run: "rt_get_first h s = Some (t, s\<lparr>p_lnk := L, p_rlnk := R\<rparr>)"
    and rep: "qrep (s\<lparr>p_lnk := L, p_rlnk := R\<rparr>) T H (Q(h := xs))"
    using rt_get_first_qrep [OF k(1) h(1) Q] by blast
  have "drep (s\<lparr>p_lnk := L, p_rlnk := R\<rparr>) T D" by (rule drep_cong [OF k(2)]) simp_all
  moreover have "\<forall>g\<in>H. prio_sorted (prio s) ((Q(h := xs)) g)"
    using k(3) k(3) [OF h(1)] Q by auto
  moreover have "c \<notin> queued H (Q(h := xs))"
    using k(6) h(1) Q by (auto simp: queued_def split: if_splits)
  ultimately have "kcore (s\<lparr>p_lnk := L, p_rlnk := R\<rparr>) T H (Q(h := xs)) D c"
    using k rep h(2) unfolding kcore_def by simp
  moreover have "t \<in> T" using qrepD(9) [OF k(1) h(1)] Q by auto
  moreover from this have "t \<noteq> NULL" using qrepD(3) [OF k(1)] by auto
  moreover have "t \<noteq> c" using kcore_notin [OF k0 h(1)] Q by auto
  moreover have "t \<notin> set xs" using qrep_distinct [OF k(1) h(1)] Q by simp
  moreover have "t \<notin> set (Q g)" if "g \<in> H" "g \<noteq> h" for g
    using qrepD(12) [OF k(1) h(1) that(1)] that(2) Q by auto
  ultimately show ?thesis using run by (auto simp: queued_def)
qed

lemma kcore_rmv_dly:
  assumes "kcore s T H Q D c" and "t \<in> T"
  shows "\<exists>L R X. rt_rmv_dly t s = Some (s\<lparr>p_dlnk := L, p_blnk := R, delta_time := X\<rparr>) \<and>
    kcore (s\<lparr>p_dlnk := L, p_blnk := R, delta_time := X\<rparr>) T H Q (filter (\<lambda>(x, n). x \<noteq> t) D) c"
proof -
  note k = kcoreD [OF assms(1)]
  obtain L R X where run: "rt_rmv_dly t s = Some (s\<lparr>p_dlnk := L, p_blnk := R, delta_time := X\<rparr>)"
    and rep: "drep (s\<lparr>p_dlnk := L, p_blnk := R, delta_time := X\<rparr>) T (filter (\<lambda>(x, n). x \<noteq> t) D)"
    using rt_rmv_dly_filter [OF k(2) assms(2)] by blast
  have "qrep (s\<lparr>p_dlnk := L, p_blnk := R, delta_time := X\<rparr>) T H Q"
    by (rule qrep_cong [OF k(1)]) simp_all
  moreover have "fst ` set (filter (\<lambda>(x, n). x \<noteq> t) D) \<subseteq> fst ` set D" by auto
  ultimately have "kcore (s\<lparr>p_dlnk := L, p_blnk := R, delta_time := X\<rparr>) T H Q
      (filter (\<lambda>(x, n). x \<noteq> t) D) c"
    using k rep unfolding kcore_def by auto
  with run show ?thesis by blast
qed

lemma kcore_put:
  assumes k0: "kcore s T H Q D c" and t: "t \<in> T" "t \<notin> queued H Q" "t \<notin> fst ` set D" "t \<noteq> c"
  shows "\<exists>s'. rt_put_prio os_rdy t (set_tstate t READY s) = Some s' \<and>
    kcore s' T H (Q(os_rdy := ins_prio (prio s) t (Q os_rdy))) D c \<and> sched_mask s' = sched_mask s \<and>
    tsk_new s' = tsk_new s"
proof -
  note k = kcoreD [OF k0]
  let ?s = "set_tstate t READY s" and ?Q = "Q(os_rdy := ins_prio (prio s) t (Q os_rdy))"
  have rep: "qrep ?s T H Q" using k(1) by simp
  obtain L R where put: "rt_put_prio os_rdy t ?s = Some (?s\<lparr>p_lnk := L, p_rlnk := R\<rparr>)"
    and rep1: "qrep (?s\<lparr>p_lnk := L, p_rlnk := R\<rparr>) T H ?Q"
    using rt_put_prio_qrep [OF rep qrepD(1) [OF k(1)] t(1,2)] by auto
  have "kcore (?s\<lparr>p_lnk := L, p_rlnk := R\<rparr>) T H ?Q D c"
    unfolding kcore_def
  proof (intro conjI ballI)
    show "drep (?s\<lparr>p_lnk := L, p_rlnk := R\<rparr>) T D" by (rule drep_cong [OF k(2)]) simp_all
    show "prio_sorted (prio (?s\<lparr>p_lnk := L, p_rlnk := R\<rparr>)) (?Q h)" if "h \<in> H" for h
      using k(3) [OF that] prio_sorted_ins_prio [OF k(3) [OF qrepD(1) [OF k(1)]]] by simp
    show "(tstate (?s\<lparr>p_lnk := L, p_rlnk := R\<rparr>) x = RUNNING) = (x = c)" if "x \<in> T" for x
      using k(8) [OF that] t(4) by simp
    show "(tstate (?s\<lparr>p_lnk := L, p_rlnk := R\<rparr>) x = READY) = (x \<in> set (?Q os_rdy))"
      if "x \<in> T" for x using k(9) [OF that] by auto
    show "c \<notin> queued H ?Q" using k(6) t(4) by (auto simp: queued_def split: if_splits)
  qed (use rep1 k t in auto)
  with put show ?thesis by (intro exI [of _ "?s\<lparr>p_lnk := L, p_rlnk := R\<rparr>"]) simp
qed

text \<open>
  The running task gives up the processor: it queues behind the ready tasks of at least
  its (possibly just changed) priority, and the first ready task is selected.
\<close>

lemma kinv_yield:
  assumes k0: "kcore s T H Q D c" and x: "ins_prio ((prio s)(c := v)) c (Q os_rdy) = n # xs"
  shows "\<exists>s1 s'. rt_put_prio os_rdy c (set_prio c v s) = Some s1 \<and>
    rt_dispatch NULL (set_tstate c READY s1) = Some s' \<and> tsk_new s' = n \<and>
    kinv s' T H (Q(os_rdy := xs)) D n \<and> sched_mask s' = sched_mask (set_prio c v s) \<and>
    tsk_run s1 = tsk_run s"
proof -
  let ?s = "set_prio c v s" and ?p = "(prio s)(c := v)"
  note k = kcoreD [OF k0] and k1 = kcoreD [OF kcore_set_run_prio [OF k0, of v]]
  have srt: "prio_sorted ?p (Q h)" if "h \<in> H" for h using k1(3) [OF that] by simp
  obtain L R where put: "rt_put_prio os_rdy c ?s = Some (?s\<lparr>p_lnk := L, p_rlnk := R\<rparr>)"
    and rep1: "qrep (?s\<lparr>p_lnk := L, p_rlnk := R\<rparr>) T H (Q(os_rdy := n # xs))"
    using rt_put_prio_qrep [OF k1(1) qrepD(1) [OF k(1)] k(5,6)] x by auto
  define s2 where "s2 = set_tstate c READY (?s\<lparr>p_lnk := L, p_rlnk := R\<rparr>)"
  have f: "prio s2 = ?p" "tstate s2 = (tstate s)(c := READY)" by (simp_all add: s2_def)
  have sx: "insert c (set (Q os_rdy)) = insert n (set xs)"
    using arg_cong [OF x, of set] by simp
  have "ksus s2 T H (Q(os_rdy := n # xs)) D"
    unfolding ksus_def
  proof (intro conjI ballI)
    show "qrep s2 T H (Q(os_rdy := n # xs))" by (rule qrep_cong [OF rep1]) (simp_all add: s2_def)
    show "drep s2 T D" by (rule drep_cong [OF k(2)]) (simp_all add: s2_def)
    show "prio_sorted (prio s2) ((Q(os_rdy := n # xs)) h)" if "h \<in> H" for h
      using srt [OF that] prio_sorted_ins_prio [OF srt [OF qrepD(1) [OF k(1)]], of c] x f(1) by simp
    show "tstate s2 t \<noteq> RUNNING" if "t \<in> T" for t using k(8) [OF that] f(2) by auto
    show "tstate s2 t = READY \<longleftrightarrow> t \<in> set ((Q(os_rdy := n # xs)) os_rdy)" if "t \<in> T" for t
      using k(9) [OF that] sx f(2) by auto
    show "fst ` set D \<inter> set ((Q(os_rdy := n # xs)) os_rdy) = {}"
      using k(7,10) by (simp add: sx [symmetric])
    show "os_idle_TCB \<in> set ((Q(os_rdy := n # xs)) os_rdy)"
      using k(11) by (simp only: fun_upd_same list.set sx [symmetric]) blast
  qed (use k(4) in blast)
  from ksus_switch [OF this] put show ?thesis
    by (auto simp: rt_dispatch_def s2_def)
qed

lemma kinv_set_run_prio:
  "kinv s T H Q D c \<Longrightarrow> (\<And>x. x \<in> set (Q os_rdy) \<Longrightarrow> prio s x \<le> v) \<Longrightarrow> kinv (set_prio c v s) T H Q D c"
  using kcore_set_run_prio [of s T H Q D c v] kcore_notin [of s T H Q D c os_rdy]
    qrepD(1) [OF kcoreD(1), of s T H Q D c]
  by (auto simp: kinv_kcore)

section \<open>Services of \<open>rt_Task.c\<close> and \<open>rt_Robin.c\<close>\<close>

lemma kinv_runs: "kinv s T H Q D c \<Longrightarrow> c \<noteq> NULL \<and> c \<in> T"
  using kinv0D(1,5) [OF kinvD(1)] qrepD(3) by blast

lemma kinv_rdy_first:
  assumes "kinv s T H Q D c" and "Q os_rdy = n # xs"
  shows "p_lnk s os_rdy = n" "n \<noteq> NULL" "n \<in> T" "n \<noteq> c"
proof -
  note k = kinv0D [OF kinvD(1) [OF assms(1)]]
  note r = qrepD [OF k(1)]
  show "p_lnk s os_rdy = n" "n \<noteq> NULL" using r(8) [OF r(1)] assms(2) by auto
  show "n \<in> T" using r(9) [OF r(1)] assms(2) by auto
  show "n \<noteq> c" using k(6) assms(2) by auto
qed

lemma rt_rdy_prio_eq: "kinv s T H Q D c \<Longrightarrow> Q os_rdy = n # xs \<Longrightarrow> rt_rdy_prio s = Some (prio s n)"
  using kinv_rdy_first by (auto simp: rt_rdy_prio_def)

text \<open>\<open>rt_tsk_pass\<close>: the processor goes to the next ready task of the same priority.\<close>

lemma kinv_tsk_pass:
  assumes k0: "kinv s T H Q D c" and run: "tsk_run s = c" and Q: "Q os_rdy = n # xs"
  shows "\<exists>s'. rt_tsk_pass s = Some s' \<and> sched_mask s' = sched_mask s \<and>
    (if prio s n = prio s c
     then kinv s' T H (Q(os_rdy := ins_prio (prio s) c xs)) D n \<and> tsk_new s' = n
     else s' = s)"
proof (cases "prio s n = prio s c")
  case False
  then show ?thesis
    using run kinv_runs [OF k0] kinv_rdy_first [OF k0 Q]
    by (auto simp: rt_tsk_pass_def rt_get_same_rdy_prio_def)
next
  case True
  note k = kinv0D [OF kinvD(1) [OF k0]] and cq = kinvD(2) [OF k0] and n = kinv_rdy_first [OF k0 Q]
  note r = qrepD [OF k(1)]
  define s1 where "s1 = set_p_lnk os_rdy (p_lnk s n) s"
  have get: "rt_get_same_rdy_prio s = Some (n, s1)"
    using True run kinv_runs [OF k0] n by (simp add: rt_get_same_rdy_prio_def s1_def)
  have rl: "p_rlnk s n = NULL" using qrep_rlnk(1) [OF k(1) r(1), of "[]" n xs] Q by simp
  have lk: "p_lnk s n = first_ptr xs" using qrep_lnk(1) [OF k(1) r(1), of "[]" n xs] Q by simp
  have nh: "n \<noteq> os_rdy" using n(3) r(1,4) by auto
  have "qrep (s\<lparr>p_lnk := (p_lnk s)(os_rdy := p_lnk s n), p_rlnk := p_rlnk s\<rparr>) T H (Q(os_rdy := [] @ xs))"
    by (rule qrep_unlink [OF k(1) r(1), of "[]" n xs]) (use Q rl lk in auto)
  then have rep1: "qrep s1 T H (Q(os_rdy := xs))"
    using qrep_cong [of _ T H "Q(os_rdy := xs)" s1] by (simp add: s1_def)
  have dn: "n \<notin> set xs" "n \<notin> queued H (Q(os_rdy := xs))"
  proof -
    show d: "n \<notin> set xs" using qrep_distinct [OF k(1) r(1)] Q by simp
    have "n \<notin> set (Q h)" if "h \<in> H" "h \<noteq> os_rdy" for h
      using r(12) [OF r(1) that(1)] that(2) Q by auto
    with d show "n \<notin> queued H (Q(os_rdy := xs))" by (auto simp: queued_def)
  qed
  have cq1: "c \<notin> queued H (Q(os_rdy := xs))"
    using cq Q r(1) by (auto simp: queued_def split: if_splits)
  obtain L R where put: "rt_put_prio os_rdy c s1 = Some (s1\<lparr>p_lnk := L, p_rlnk := R\<rparr>)"
    and rep2: "qrep (s1\<lparr>p_lnk := L, p_rlnk := R\<rparr>) T H (Q(os_rdy := ins_prio (prio s) c xs))"
    using rt_put_prio_qrep [OF rep1 r(1) k(5) cq1] by (auto simp: s1_def)
  define s' where "s' = set_tstate n RUNNING
    (set_tstate c READY (s1\<lparr>p_lnk := L, p_rlnk := R\<rparr>)\<lparr>tsk_new := n\<rparr>)"
  have f: "prio s' = prio s" "tstate s' = (tstate s)(c := READY, n := RUNNING)" "tsk_new s' = n"
    "sched_mask s' = sched_mask s" by (simp_all add: s'_def s1_def)
  have srt: "prio_sorted (prio s) (n # xs)" using k(3) [OF r(1)] Q by simp
  have "kinv s' T H (Q(os_rdy := ins_prio (prio s) c xs)) D n"
    unfolding kinv_def kinv0_def
  proof (intro conjI ballI)
    show "qrep s' T H (Q(os_rdy := ins_prio (prio s) c xs))"
      by (rule qrep_cong [OF rep2]) (simp_all add: s'_def)
    show "drep s' T D" by (rule drep_cong [OF k(2)]) (simp_all add: s'_def s1_def)
    show "prio_sorted (prio s') ((Q(os_rdy := ins_prio (prio s) c xs)) h)" if "h \<in> H" for h
      using k(3) [OF that] prio_sorted_ins_prio [of "prio s" xs c] srt f(1) by simp
    show "(tstate s' t = RUNNING) = (t = n)" if "t \<in> T" for t using k(8) [OF that] f(2) by auto
    show "(tstate s' t = READY) = (t \<in> set ((Q(os_rdy := ins_prio (prio s) c xs)) os_rdy))"
      if "t \<in> T" for t using k(9) [OF that] Q dn(1) n(4) f(2) by auto
    show "prio s' x \<le> prio s' n" if "x \<in> set ((Q(os_rdy := ins_prio (prio s) c xs)) os_rdy)" for x
      using that srt True f(1) by auto
    show "n \<notin> queued H (Q(os_rdy := ins_prio (prio s) c xs))"
      using dn n(4) by (auto simp: queued_def split: if_splits)
  qed (use k Q n dn in auto)
  then show ?thesis
    using get put run n True f by (auto simp: rt_tsk_pass_def rt_switch_req_def s'_def s1_def)
qed

text \<open>\<open>rt_tsk_prio (0, v)\<close>: the running task changes its own priority.\<close>

lemma kinv_tsk_prio_self:
  assumes k0: "kinv s T H Q D c" and run: "tsk_run s = c" "tsk_new s = c" and Q: "Q os_rdy = n # xs"
  shows "\<exists>s'. rt_tsk_prio 0 v s = Some (OS_R_OK, s') \<and>
    sched_mask s' = sched_mask (set_prio c v s) \<and>
    (if prio s n > v
     then kinv s' T H (Q(os_rdy := ins_prio ((prio s)(c := v)) c xs)) D n \<and> tsk_new s' = n
     else kinv s' T H Q D c \<and> tsk_new s' = c)"
proof -
  note k = kinv0D [OF kinvD(1) [OF k0]] and n = kinv_rdy_first [OF k0 Q]
  have cn: "c \<noteq> NULL" using kinv_runs [OF k0] by simp
  have rp: "rt_rdy_prio (set_prio c v s) = Some (prio s n)" using n by (simp add: rt_rdy_prio_def)
  show ?thesis
  proof (cases "prio s n > v")
    case True
    have "ins_prio ((prio s)(c := v)) c (Q os_rdy) = n # ins_prio ((prio s)(c := v)) c xs"
      using True n(4) Q by (simp add: ins_prio_Cons)
    from kinv_yield [OF kinv_kcore [THEN iffD1, THEN conjunct1, OF k0] this] obtain s1 s' where y:
      "rt_put_prio os_rdy c (set_prio c v s) = Some s1"
      "rt_dispatch NULL (set_tstate c READY s1) = Some s'" "tsk_new s' = n"
      "kinv s' T H (Q(os_rdy := ins_prio ((prio s)(c := v)) c xs)) D n"
      "sched_mask s' = sched_mask (set_prio c v s)" "tsk_run s1 = tsk_run s" by blast
    with True run cn rp show ?thesis
      by (simp add: rt_tsk_prio_def tsk_prio_run_def)
  next
    case False
    have "prio_sorted (prio s) (n # xs)" using k(3) qrepD(1) [OF k(1)] Q by metis
    then have "\<And>x. x \<in> set (Q os_rdy) \<Longrightarrow> prio s x \<le> v"
      using False Q by (auto intro: order_trans)
    from kinv_set_run_prio [OF k0 this] False run cn rp show ?thesis
      by (simp add: rt_tsk_prio_def tsk_prio_run_def)
  qed
qed

text \<open>\<open>rt_chk_robin\<close> keeps the ready tasks: at most it moves the first one behind its class.\<close>

lemma ksus_chk_robin:
  assumes k0: "ksus s T H Q D" and Q: "Q os_rdy = n # xs"
  shows "\<exists>s' ys. rt_chk_robin s = Some s' \<and> ksus s' T H (Q(os_rdy := ys)) D \<and>
    ys \<in> {n # xs, ins_prio (prio s) n xs} \<and> sched_mask (s'\<lparr>os_robin := os_robin s\<rparr>) = sched_mask s \<and>
    tsk_new s' = tsk_new s"
proof -
  define s0 where "s0 = (if rr_task (os_robin s) \<noteq> p_lnk s os_rdy
              then s\<lparr>os_robin := (os_robin s)
                      \<lparr>rr_task := p_lnk s os_rdy,
                       rr_time := ucast (os_time s) + rr_tout (os_robin s) - 1\<rparr>\<rparr>
              else s)"
  define s1 where "s1 = s0\<lparr>os_robin := (os_robin s0)\<lparr>rr_task := NULL\<rparr>\<rparr>"
  have k1: "ksus s0 T H Q D" "ksus s1 T H Q D" using k0 by (simp_all add: s0_def s1_def)
  note k = ksusD [OF k1(2)]
  note r = qrepD [OF k(1)]
  show ?thesis
  proof (cases "rr_time (os_robin s0) = ucast (os_time s0)")
    case False
    then have "rt_chk_robin s = Some s0" by (simp add: rt_chk_robin_def s0_def [symmetric] Let_def)
    moreover have "sched_mask (s0\<lparr>os_robin := os_robin s\<rparr>) = sched_mask s" "tsk_new s0 = tsk_new s"
      by (simp_all add: s0_def)
    moreover have "Q(os_rdy := n # xs) = Q" using Q by auto
    ultimately show ?thesis using k1(1) by (intro exI [of _ s0] exI [of _ "n # xs"]) simp
  next
    case True
    obtain L R where get: "rt_get_first os_rdy s1 = Some (n, s1\<lparr>p_lnk := L, p_rlnk := R\<rparr>)"
      and rep1: "qrep (s1\<lparr>p_lnk := L, p_rlnk := R\<rparr>) T H (Q(os_rdy := xs))"
      using rt_get_first_qrep [OF k(1) r(1) Q] by blast
    have nT: "n \<in> T" using r(9) [OF r(1)] Q by auto
    have dn: "n \<notin> queued H (Q(os_rdy := xs))"
    proof -
      have "n \<notin> set xs" using qrep_distinct [OF k(1) r(1)] Q by simp
      moreover have "n \<notin> set (Q h)" if "h \<in> H" "h \<noteq> os_rdy" for h
        using r(12) [OF r(1) that(1)] that(2) Q by auto
      ultimately show ?thesis by (auto simp: queued_def)
    qed
    obtain L' R' where put: "rt_put_prio os_rdy n (s1\<lparr>p_lnk := L, p_rlnk := R\<rparr>) =
        Some (s1\<lparr>p_lnk := L', p_rlnk := R'\<rparr>)"
      and rep2: "qrep (s1\<lparr>p_lnk := L', p_rlnk := R'\<rparr>) T H (Q(os_rdy := ins_prio (prio s1) n xs))"
      using rt_put_prio_qrep [OF rep1 r(1) nT dn] by auto
    define s' where "s' = s1\<lparr>p_lnk := L', p_rlnk := R'\<rparr>"
    have f: "tstate s' = tstate s1" "prio s' = prio s1" "prio s1 = prio s"
      "sched_mask (s'\<lparr>os_robin := os_robin s\<rparr>) = sched_mask s" "tsk_new s' = tsk_new s"
      by (simp_all add: s'_def s1_def s0_def)
    have "ksus s' T H (Q(os_rdy := ins_prio (prio s) n xs)) D"
      unfolding ksus_def
    proof (intro conjI ballI)
      show "qrep s' T H (Q(os_rdy := ins_prio (prio s) n xs))" using rep2 f(3) by (simp add: s'_def)
      show "drep s' T D" by (rule drep_cong [OF k(2)]) (simp_all add: s'_def)
      show "prio_sorted (prio s') ((Q(os_rdy := ins_prio (prio s) n xs)) h)" if "h \<in> H" for h
        using k(3) [OF that] k(3) [OF r(1)] Q prio_sorted_ins_prio [of "prio s" xs n] f(2,3) by simp
      show "(tstate s' x = READY) = (x \<in> set ((Q(os_rdy := ins_prio (prio s) n xs)) os_rdy))"
        if "x \<in> T" for x using k(6) [OF that] f(1) Q by auto
    qed (use k f(1) Q in auto)
    moreover have "rt_chk_robin s = Some s'"
      using True get put by (simp add: rt_chk_robin_def s0_def [symmetric] Let_def s1_def s'_def)
    ultimately show ?thesis using f by auto
  qed
qed

lemma prio_sorted_remove1: "prio_sorted f xs \<Longrightarrow> prio_sorted f (remove1 x xs)"
  by (induction xs) (auto dest: notin_set_remove1 [rotated] set_mp [OF set_remove1_subset])

text \<open>Changing the priority of a task that does not run: it keeps its list, in order.\<close>

lemma kcore_resort:
  assumes k0: "kcore s T H Q D c" and t: "t \<in> T" "t \<noteq> c"
  shows "\<exists>L R Q'. rt_resort_prio t (set_prio t v s) = Some ((set_prio t v s)\<lparr>p_lnk := L, p_rlnk := R\<rparr>) \<and>
    kcore ((set_prio t v s)\<lparr>p_lnk := L, p_rlnk := R\<rparr>) T H Q' D c \<and> (\<forall>h. set (Q' h) = set (Q h))"
proof -
  note k = kcoreD [OF k0]
  define u where "u = set_prio t v s"
  have rep: "qrep u T H Q" by (rule qrep_cong [OF k(1)]) (simp_all add: u_def)
  have f: "tstate u = tstate s" "prio u = (prio s)(t := v)" by (simp_all add: u_def)
  have main: ?thesis if L: "rt_resort_prio t u = Some (u\<lparr>p_lnk := L, p_rlnk := R\<rparr>)"
    and rep': "qrep (u\<lparr>p_lnk := L, p_rlnk := R\<rparr>) T H Q'"
    and srt: "\<And>h. h \<in> H \<Longrightarrow> prio_sorted (prio u) (Q' h)" and st: "\<forall>h. set (Q' h) = set (Q h)"
    for L R Q'
  proof -
    have "drep (u\<lparr>p_lnk := L, p_rlnk := R\<rparr>) T D" by (rule drep_cong [OF k(2)]) (simp_all add: u_def)
    moreover have "queued H Q' = queued H Q" using st by (auto simp: queued_def)
    ultimately have "kcore (u\<lparr>p_lnk := L, p_rlnk := R\<rparr>) T H Q' D c"
      using k rep' srt st f unfolding kcore_def by simp
    then show ?thesis using L st unfolding u_def by blast
  qed
  have other: "prio_sorted (prio u) (Q h)" if "h \<in> H" "t \<notin> set (Q h)" for h
    by (rule prio_sorted_cong [OF k(3) [OF that(1)]]) (use that(2) f in auto)
  show ?thesis
  proof (cases "t \<in> queued H Q")
    case False
    then have nq: "t \<notin> set (Q h)" if "h \<in> H" for h using that by (auto simp: queued_def)
    then have "tstate u t \<noteq> READY" using k(9) [OF t(1)] qrepD(1) [OF k(1)] f(1) by simp
    then have "rt_resort_prio t u = Some u" by (rule rt_resort_prio_unqueued [OF rep t(1) False])
    then show ?thesis using main [where L = "p_lnk u" and R = "p_rlnk u" and Q' = Q] rep other nq by simp
  next
    case True
    then obtain h where h: "h \<in> H" "t \<in> set (Q h)" by (auto simp: queued_def)
    have rdy: "h = os_rdy \<Longrightarrow> tstate u t = READY" using k(9) [OF t(1)] h f by simp
    obtain L R where L: "rt_resort_prio t u = Some (u\<lparr>p_lnk := L, p_rlnk := R\<rparr>)"
      "qrep (u\<lparr>p_lnk := L, p_rlnk := R\<rparr>) T H (Q(h := ins_prio (prio u) t (remove1 t (Q h))))"
      using rt_resort_prio_qrep [OF rep h rdy] by blast
    have dis: "distinct (Q h)" using qrep_distinct [OF k(1) h(1)] by simp
    have "prio_sorted (prio u) (remove1 t (Q h))"
      by (rule prio_sorted_cong [OF prio_sorted_remove1 [OF k(3) [OF h(1)]]]) (use dis f in auto)
    then have srt: "prio_sorted (prio u) ((Q(h := ins_prio (prio u) t (remove1 t (Q h)))) g)"
      if "g \<in> H" for g
      using that other [OF that] qrepD(12) [OF k(1) h(1) that] h(2) prio_sorted_ins_prio by fastforce
    have "\<forall>g. set ((Q(h := ins_prio (prio u) t (remove1 t (Q h)))) g) = set (Q g)"
      using dis h(2) by auto
    then show ?thesis using main [OF L srt] by blast
  qed
qed

text \<open>The first ready task is dispatched again after the order of the ready list changed.\<close>

lemma kcore_redispatch:
  assumes k0: "kcore s T H Q D c" and run: "tsk_run s = c" "tsk_new s = c" and Q: "Q os_rdy = n # xs"
    and dom: "prio s n > prio s c \<Longrightarrow> \<forall>x\<in>set xs. prio s x \<le> prio s c"
  shows "\<exists>s' Q'. (do { (p, s) \<leftarrow> rt_get_first os_rdy s; rt_dispatch p s }) = Some s' \<and>
    kinv s' T H Q' D (tsk_new s') \<and> sched_mask s' = sched_mask s \<and>
    tsk_new s' = (if prio s n > prio s c then n else c)"
proof -
  note k = kcoreD [OF k0]
  note r = qrepD [OF k(1)]
  obtain L R where get: "rt_get_first os_rdy s = Some (n, s\<lparr>p_lnk := L, p_rlnk := R\<rparr>)"
    and rep1: "qrep (s\<lparr>p_lnk := L, p_rlnk := R\<rparr>) T H (Q(os_rdy := xs))"
    using rt_get_first_qrep [OF k(1) r(1) Q] by blast
  define u where "u = s\<lparr>p_lnk := L, p_rlnk := R\<rparr>"
  have rep: "qrep u T H (Q(os_rdy := xs))" using rep1 by (simp add: u_def)
  have del: "drep u T D" by (rule drep_cong [OF k(2)]) (simp_all add: u_def)
  have n: "n \<in> T" "n \<noteq> NULL" "c \<noteq> NULL" "n \<noteq> c" "n \<notin> set xs"
    using r(3) r(9) [OF r(1)] k(5) kcore_notin [OF k0 r(1)] qrep_distinct [OF k(1) r(1)] Q by auto
  have nq: "n \<notin> queued H (Q(os_rdy := xs))"
  proof -
    have "n \<notin> set (Q h)" if "h \<in> H" "h \<noteq> os_rdy" for h
      using r(12) [OF r(1) that(1)] that(2) Q by auto
    with n(5) show ?thesis by (auto simp: queued_def)
  qed
  have cq: "c \<notin> queued H (Q(os_rdy := xs))"
    using k(6) Q r(1) by (auto simp: queued_def split: if_splits)
  have f: "prio u = prio s" "tstate u = tstate s" "sched_mask u = sched_mask s" "tsk_new u = c"
    "tsk_run u = c" using run by (simp_all add: u_def)
  have srt: "prio_sorted (prio s) (n # xs)" using k(3) [OF r(1)] Q by simp
  have nD: "n \<notin> fst ` set D" using k(10) Q by auto
  show ?thesis
  proof (cases "prio s n > prio s c")
    case False
    have rep2: "qrep (set_tstate n READY u) T H (Q(os_rdy := xs))" using rep by simp
    obtain L' R' where put: "rt_put_prio os_rdy n (set_tstate n READY u) =
        Some ((set_tstate n READY u)\<lparr>p_lnk := L', p_rlnk := R'\<rparr>)"
      and rep3: "qrep ((set_tstate n READY u)\<lparr>p_lnk := L', p_rlnk := R'\<rparr>) T H
        (Q(os_rdy := ins_prio (prio s) n xs))"
      using rt_put_prio_qrep [OF rep2 r(1) n(1) nq] f(1) by auto
    define s' where "s' = (set_tstate n READY u)\<lparr>p_lnk := L', p_rlnk := R'\<rparr>"
    have g: "prio s' = prio s" "tstate s' = (tstate s)(n := READY)" "tsk_new s' = c"
      "sched_mask s' = sched_mask s" using f by (simp_all add: s'_def)
    have "kinv s' T H (Q(os_rdy := ins_prio (prio s) n xs)) D c"
      unfolding kinv_kcore kcore_def
    proof (intro conjI ballI)
      show "drep s' T D" by (rule drep_cong [OF del]) (simp_all add: s'_def)
      show "prio_sorted (prio s') ((Q(os_rdy := ins_prio (prio s) n xs)) h)" if "h \<in> H" for h
        using k(3) [OF that] prio_sorted_ins_prio [of "prio s" xs n] srt g(1) by simp
      show "(tstate s' x = RUNNING) = (x = c)" if "x \<in> T" for x using k(8) [OF that] n(4) g(2) by auto
      show "(tstate s' x = READY) = (x \<in> set ((Q(os_rdy := ins_prio (prio s) n xs)) os_rdy))"
        if "x \<in> T" for x using k(9) [OF that] Q g(2) by auto
      show "prio s' x \<le> prio s' c" if "x \<in> set ((Q(os_rdy := ins_prio (prio s) n xs)) os_rdy)" for x
        using that srt False g(1) by (auto intro: order_trans)
      show "c \<notin> queued H (Q(os_rdy := ins_prio (prio s) n xs))"
        using cq n(4) by (auto simp: queued_def split: if_splits)
    qed (use rep3 k Q in \<open>auto simp: s'_def\<close>)
    moreover have "rt_dispatch n u = Some s'"
      using False put n f by (simp add: rt_dispatch_def s'_def)
    ultimately show ?thesis using get g False by (auto simp: u_def)
  next
    case True
    obtain L' R' where put: "rt_put_rdy_first c u = Some (u\<lparr>p_lnk := L', p_rlnk := R'\<rparr>)"
      and rep3: "qrep (u\<lparr>p_lnk := L', p_rlnk := R'\<rparr>) T H (Q(os_rdy := c # xs))"
      using rt_put_rdy_first_qrep [OF rep k(5) cq] by auto
    define s' where "s' = set_tstate n RUNNING
      (set_tstate c READY (u\<lparr>p_lnk := L', p_rlnk := R'\<rparr>)\<lparr>tsk_new := n\<rparr>)"
    have g: "prio s' = prio s" "tstate s' = (tstate s)(c := READY, n := RUNNING)" "tsk_new s' = n"
      "sched_mask s' = sched_mask s" using f by (simp_all add: s'_def)
    have "kinv s' T H (Q(os_rdy := c # xs)) D n"
      unfolding kinv_kcore kcore_def
    proof (intro conjI ballI)
      show "qrep s' T H (Q(os_rdy := c # xs))" by (rule qrep_cong [OF rep3]) (simp_all add: s'_def)
      show "drep s' T D" by (rule drep_cong [OF del]) (simp_all add: s'_def)
      show "prio_sorted (prio s') ((Q(os_rdy := c # xs)) h)" if "h \<in> H" for h
        using k(3) [OF that] dom [OF True] srt g(1) by simp
      show "(tstate s' x = RUNNING) = (x = n)" if "x \<in> T" for x using k(8) [OF that] g(2) by auto
      show "(tstate s' x = READY) = (x \<in> set ((Q(os_rdy := c # xs)) os_rdy))" if "x \<in> T" for x
        using k(9) [OF that] Q n g(2) by auto
      show "prio s' x \<le> prio s' n" if "x \<in> set ((Q(os_rdy := c # xs)) os_rdy)" for x
        using that srt True g(1) by auto
      show "n \<notin> queued H (Q(os_rdy := c # xs))"
        using nq n(4) by (auto simp: queued_def split: if_splits)
    qed (use k Q n nD in auto)
    moreover have "rt_dispatch n u = Some s'"
      using True put n f by (simp add: rt_dispatch_def rt_switch_req_def s'_def)
    ultimately show ?thesis using get g True by (auto simp: u_def)
  qed
qed

text \<open>\<open>rt_tsk_prio\<close> for a task other than the caller.\<close>

lemma kinv_tsk_prio_other:
  assumes k0: "kinv s T H Q D c" and run: "tsk_run s = c" "tsk_new s = c"
    and t: "t \<in> T" "t \<noteq> c" and id: "tid \<noteq> 0" "unat tid \<le> os_maxtaskrun s" "act_get tid s = Some t"
  shows "\<exists>s' Q'. rt_tsk_prio tid v s = Some (OS_R_OK, s') \<and> kinv s' T H Q' D (tsk_new s') \<and>
    prio s' = (prio s)(t := v) \<and> tsk_run s' = c \<and>
    tsk_new s' = (if tstate s t = READY \<and> v > prio s c then t else c)"
proof -
  have kc: "kcore s T H Q D c" and dom: "\<And>x. x \<in> set (Q os_rdy) \<Longrightarrow> prio s x \<le> prio s c"
    using k0 by (auto simp: kinv_kcore)
  obtain L R Q1 where rs: "rt_resort_prio t (set_prio t v s) =
      Some ((set_prio t v s)\<lparr>p_lnk := L, p_rlnk := R\<rparr>)"
    and k1: "kcore ((set_prio t v s)\<lparr>p_lnk := L, p_rlnk := R\<rparr>) T H Q1 D c"
    and sets: "\<forall>h. set (Q1 h) = set (Q h)"
    using kcore_resort [OF kc t] by blast
  define u where "u = (set_prio t v s)\<lparr>p_lnk := L, p_rlnk := R\<rparr>"
  have f: "prio u = (prio s)(t := v)" "tstate u = tstate s" "tsk_run u = c" "tsk_new u = c"
    "sched_mask u = sched_mask (set_prio t v s)" using run by (simp_all add: u_def)
  have tn: "t \<noteq> NULL" using t(1) qrepD(3) [OF kcoreD(1) [OF kc]] by auto
  have call: "rt_tsk_prio tid v s = do {
      s \<leftarrow> (if tstate u t = READY then do { (p, s) \<leftarrow> rt_get_first os_rdy u; rt_dispatch p s } else Some u);
      Some (OS_R_OK, s) }"
    using id tn t(2) run rs by (simp add: rt_tsk_prio_def u_def Let_def)
  have k2: "kcore u T H Q1 D c" using k1 by (simp only: u_def)
  show ?thesis
  proof (cases "tstate s t = READY")
    case False
    then have "t \<notin> set (Q os_rdy)" using kcoreD(9) [OF kc t(1)] by simp
    then have "kinv u T H Q1 D c" using k2 sets dom f(1) t(2) by (auto simp: kinv_kcore)
    then show ?thesis using call False f by auto
  next
    case True
    then have tr: "t \<in> set (Q os_rdy)" using kcoreD(9) [OF kc t(1)] by simp
    then have "Q1 os_rdy \<noteq> []" using sets by (metis empty_iff list.set(1))
    then obtain n xs where Q1: "Q1 os_rdy = n # xs" by (cases "Q1 os_rdy") auto
    have qr: "os_rdy \<in> H" using qrepD(1) [OF kcoreD(1) [OF kc]] .
    have dis: "distinct (n # xs)" using qrep_distinct [OF kcoreD(1) [OF k2] qr] Q1 by simp
    have le: "prio u x \<le> prio u c" if "x \<in> set (Q1 os_rdy)" "x \<noteq> t" for x
      using that dom [of x] sets f(1) t(2) by auto
    have srt: "prio_sorted (prio u) (n # xs)" using kcoreD(3) [OF k2 qr] Q1 by simp
    have "set (Q os_rdy) = insert n (set xs)" using sets [rule_format, of os_rdy] Q1 by simp
    then have tu: "prio u t = v" "prio u c = prio s c" "t \<in> insert n (set xs)"
      using f(1) t(2) tr by auto
    have nt: "prio u n > prio u c \<Longrightarrow> n = t" using le [of n] Q1 by fastforce
    have d1: "\<forall>x\<in>set xs. prio u x \<le> prio u c" if "prio u n > prio u c"
      using nt [OF that] dis le Q1 by auto
    obtain s' Q' where s': "(do { (p, s) \<leftarrow> rt_get_first os_rdy u; rt_dispatch p s }) = Some s'"
      "kinv s' T H Q' D (tsk_new s')" "sched_mask s' = sched_mask u"
      "tsk_new s' = (if prio u n > prio u c then n else c)"
      using kcore_redispatch [OF k2 f(3,4) Q1 d1] by blast
    have new: "tsk_new s' = (if v > prio s c then t else c)"
    proof (cases "v > prio s c")
      case True
      have "prio u t \<le> prio u n" using srt tu(3) by auto
      then have "prio u n > prio u c" using True tu by simp
      then show ?thesis using nt s'(4) True by simp
    next
      case False
      then have "\<not> prio u n > prio u c" using nt tu by auto
      then show ?thesis using s'(4) False by simp
    qed
    have "prio s' = (prio s)(t := v)" "tsk_run s' = c"
      using sched_maskD(2,3) [OF s'(3)] f by simp_all
    then show ?thesis using call s'(1,2) new f(2) True by auto
  qed
qed

section \<open>Creation of tasks\<close>

lemma fold_set_mem: "\<exists>M. fold (\<lambda>i. set_mem (f i) v) is s = s\<lparr>mem := M\<rparr>"
proof (induction "is" arbitrary: s)
  case Nil
  show ?case by (intro exI [of _ "mem s"]) simp
next
  case (Cons i "is")
  from Cons [of "set_mem (f i) v s"] obtain M where
    "fold (\<lambda>i. set_mem (f i) v) is (set_mem (f i) v s) = set_mem (f i) v s\<lparr>mem := M\<rparr>" by blast
  then show ?case by (intro exI [of _ M]) (simp only: fold.simps o_apply, simp)
qed

lemma rt_init_stack_eq:
  "p \<noteq> NULL \<Longrightarrow> \<exists>M K. rt_init_stack p b s =
     Some (s\<lparr>mem := M, tsk_stack := (tsk_stack s)(p := K), ptask := (ptask s)(p := b)\<rparr>)"
proof -
  assume p: "p \<noteq> NULL"
  define t where "t = tstack s p + 4 * (ucast (drop_bit 2 (priv_stack s p)) :: u32)"
  define k where "k = (if t AND 0x04 \<noteq> 0 then t - 4 else t) - 4 * 16"
  define u where "u = set_mem (k + 4 * 14) b (set_mem (k + 4 * 15) INITIAL_xPSR s)"
  obtain M where M: "clear_words k 14 u = u\<lparr>mem := M\<rparr>"
    using fold_set_mem [of "\<lambda>i. k + 4 * of_nat i" 0 "[0..<14]" u] unfolding clear_words_def by blast
  show ?thesis
    using p unfolding rt_init_stack_def Let_def t_def [symmetric] k_def [symmetric] u_def [symmetric] M
    by (intro exI [of _ k] exI [of _ "let m = M(k + 32 := tmsg s p) in
      if task_id s p \<noteq> 1 then m(tstack s p := MAGIC_WORD) else m"])
      (simp add: u_def Let_def comp_def)
qed

text \<open>\<open>rt_init_context\<close> makes a task in no list.\<close>

lemma rt_init_context_eq:
  assumes "p \<noteq> NULL"
  shows "\<exists>M K. rt_init_context p pr b s = Some (s\<lparr>cb_type := (cb_type s)(p := TCB),
     tstate := (tstate s)(p := READY), prio := (prio s)(p := pr), p_lnk := (p_lnk s)(p := NULL),
     p_rlnk := (p_rlnk s)(p := NULL), p_dlnk := (p_dlnk s)(p := NULL),
     p_blnk := (p_blnk s)(p := NULL), delta_time := (delta_time s)(p := 0),
     interval_time := (interval_time s)(p := 0), events := (events s)(p := 0),
     waits := (waits s)(p := 0), stack_frame := (stack_frame s)(p := 0),
     mem := M, tsk_stack := (tsk_stack s)(p := K), ptask := (ptask s)(p := b)\<rparr>)"
proof -
  define u where "u = set_stack_frame p 0 (set_waits p 0 (set_events p 0 (set_interval_time p 0
    (set_delta_time p 0 (set_p_blnk p 0 (set_p_dlnk p 0 (set_p_rlnk p 0 (set_p_lnk p 0
      (set_prio p pr (set_tstate p 1 (set_cb_type p 0 s)))))))))))"
  obtain M K where "rt_init_stack p b u =
     Some (u\<lparr>mem := M, tsk_stack := (tsk_stack u)(p := K), ptask := (ptask u)(p := b)\<rparr>)"
    using rt_init_stack_eq [OF assms] by blast
  then show ?thesis using assms unfolding rt_init_context_def Let_def u_def [symmetric]
    by (intro exI [of _ M] exI [of _ K]) (simp add: u_def)
qed

text \<open>The state after \<open>rt_sys_init\<close>: the idle demon runs, all lists are empty.\<close>

lemma kinv_sys_init:
  "\<exists>s'. rt_sys_init s = Some s' \<and> kinv s' {os_idle_TCB} {os_rdy} (\<lambda>_. []) [] os_idle_TCB \<and>
    tsk_run s' = os_idle_TCB \<and> os_active_TCB s' = replicate (os_maxtaskrun s) NULL"
proof -
  define u where "u = set_tstack os_idle_TCB (idle_task_stack (os_conf s))
    (set_priv_stack os_idle_TCB (idle_task_stack_size (os_conf s)) (set_task_id os_idle_TCB 255
      (s\<lparr>os_active_TCB := replicate (os_maxtaskrun s) NULL\<rparr>)))"
  have c: "os_conf u = os_conf s" by (simp add: u_def)
  from rt_init_context_eq [OF static_objects_distinct(3), of 0 "os_idle_demon (os_conf s)" u]
  show ?thesis
    unfolding rt_sys_init_def Let_def kinv_def kinv0_def qrep_def drep_def
    by (auto simp: c u_def rt_init_robin_def queued_def last_ptr_def)
qed

end
