(* ===== verification/RTX_Sample.thy ===== *)
theory RTX_Sample
  imports RTX_Task
begin

text \<open>
  A small concrete system that the theorems about the kernel are instantiated with: task
  A (priority 2) runs, C (priority 1) and the idle demon are ready, B (priority 3) waits
  for the semaphore S with 5 ticks left, X is a mailbox with two entries, one of them
  used, U is a mutex that C owns.
\<close>

definition smpA :: ptr where "smpA = 0x100"
definition smpB :: ptr where "smpB = 0x200"
definition smpC :: ptr where "smpC = 0x300"
definition smpS :: ptr where "smpS = 0x400"
definition smpX :: ptr where "smpX = 0x500"
definition smpU :: ptr where "smpU = 0x600"

lemmas smp_defs = smpA_def smpB_def smpC_def smpS_def smpX_def smpU_def
  os_rdy_def os_dly_def os_idle_TCB_def

definition smp_zero :: kst where
  "smp_zero = \<lparr>
     cb_type = \<lambda>_. 0, p_lnk = \<lambda>_. 0, p_rlnk = \<lambda>_. 0, p_dlnk = \<lambda>_. 0, p_blnk = \<lambda>_. 0,
     delta_time = \<lambda>_. 0, tstate = \<lambda>_. 0, prio = \<lambda>_. 0, task_id = \<lambda>_. 0, interval_time = \<lambda>_. 0,
     events = \<lambda>_. 0, waits = \<lambda>_. 0, tmsg = \<lambda>_. 0, stack_frame = \<lambda>_. 0, priv_stack = \<lambda>_. 0,
     tsk_stack = \<lambda>_. 0, tstack = \<lambda>_. 0, ptask = \<lambda>_. 0, tokens = \<lambda>_. 0, mcb_state = \<lambda>_. 0,
     mcb_isr_st = \<lambda>_. 0, mcb_first = \<lambda>_. 0, mcb_last = \<lambda>_. 0, mcb_count = \<lambda>_. 0, mcb_size = \<lambda>_. 0,
     mcb_msg = \<lambda>_ _. 0, mu_prio = \<lambda>_. 0, mu_level = \<lambda>_. 0, mu_owner = \<lambda>_. 0, mem = \<lambda>_. 0,
     os_active_TCB = [], tsk_run = 0, tsk_new = 0, os_time = 0,
     os_robin = \<lparr>rr_task = 0, rr_time = 0, rr_tout = 5\<rparr>,
     os_psq = \<lparr>psq_first = 0, psq_last = 0, psq_count = 0, psq_size = 4, psq_q = replicate 4 (0, 0)\<rparr>,
     os_lock = False, os_psh_flag = False, pend_flags = 0, os_tick_irqn = -1,
     pend_sv = False, pend_st = False, tick_enabled = True,
     os_conf = \<lparr>os_rrobin = 5, os_fifo_size = 4, os_clockrate = 1000, idle_task_stack = 0x2000,
                idle_task_stack_size = 128, os_idle_demon = 0x3000\<rparr>,
     tm_next = \<lambda>_. 0, tm_state = \<lambda>_. 0, tm_type = \<lambda>_. 0, tm_tcnt = \<lambda>_. 0, tm_icnt = \<lambda>_. 0,
     tm_arg = \<lambda>_. 0, tm_timer = \<lambda>_. 0, os_timer_head = 0, os_timer_thread = 0,
     os_timer_queue = 0, os_initialized = True, os_running = True\<rparr>"

definition smp :: kst where
  "smp = smp_zero\<lparr>
     cb_type := (\<lambda>_. TCB)(os_rdy := HCB, os_dly := HCB, smpS := SCB, smpX := MCB, smpU := MUCB),
     p_lnk := (\<lambda>_. NULL)(os_rdy := smpC, smpC := os_idle_TCB, smpS := smpB),
     p_rlnk := (\<lambda>_. NULL)(smpB := smpS),
     p_dlnk := (\<lambda>_. NULL)(os_dly := smpB),
     p_blnk := (\<lambda>_. NULL)(smpB := os_dly),
     delta_time := (\<lambda>_. 0)(os_dly := 5),
     tstate := (\<lambda>_. INACTIVE)(smpA := RUNNING, smpC := READY, os_idle_TCB := READY, smpB := WAIT_SEM),
     prio := (\<lambda>_. 0)(smpA := 2, smpB := 3, smpC := 1),
     task_id := (\<lambda>_. 0)(smpA := 1, smpB := 2, smpC := 3, os_idle_TCB := 255),
     tsk_stack := (\<lambda>_. 0)(smpA := 0x1000, smpB := 0x1100, smpC := 0x1200, os_idle_TCB := 0x1300),
     mcb_size := (\<lambda>_. 0)(smpX := 2), mcb_count := (\<lambda>_. 0)(smpX := 1),
     mcb_first := (\<lambda>_. 0)(smpX := 1), mcb_msg := (\<lambda>_ _. 0)(smpX := (\<lambda>_. 0)(0 := 0xAB)),
     mu_level := (\<lambda>_. 0)(smpU := 1), mu_owner := (\<lambda>_. 0)(smpU := smpC), mu_prio := (\<lambda>_. 0)(smpU := 1),
     os_active_TCB := [smpA, smpB, smpC],
     tsk_run := smpA, tsk_new := smpA\<rparr>"

definition smpT :: "ptr set" where "smpT = {smpA, smpB, smpC, os_idle_TCB}"
definition smpH :: "ptr set" where "smpH = {os_rdy, smpS, smpX, smpU}"
definition smpQ :: "ptr \<Rightarrow> ptr list" where
  "smpQ = (\<lambda>_. [])(os_rdy := [smpC, os_idle_TCB], smpS := [smpB])"
definition smpD :: "(ptr \<times> nat) list" where "smpD = [(smpB, 5)]"

lemma smp_qrep: "qrep smp smpT smpH smpQ"
  by (auto simp: qrep_def queued_def sem_mbx_def smp_def smpT_def smpH_def smpQ_def smp_defs)

lemma smp_drep: "drep smp smpT smpD"
  by (auto simp: drep_def last_ptr_def smp_def smpT_def smpD_def smp_defs)

lemma smp_kinv: "kinv smp smpT smpH smpQ smpD smpA"
  unfolding kinv_def kinv0_def
proof (intro conjI)
  show "qrep smp smpT smpH smpQ" by (rule smp_qrep)
  show "drep smp smpT smpD" by (rule smp_drep)
qed (auto simp: queued_def smp_def smpT_def smpH_def smpQ_def smpD_def smp_defs)

lemma smp_distinct [simp]:
  "smpA \<noteq> smpB" "smpA \<noteq> smpC" "smpA \<noteq> smpS" "smpA \<noteq> smpX" "smpA \<noteq> smpU"
  "smpA \<noteq> NULL" "smpA \<noteq> os_idle_TCB" "os_idle_TCB \<noteq> smpA" "smpA \<noteq> os_dly" "os_dly \<noteq> smpA"
  "smpA \<noteq> os_rdy" "os_rdy \<noteq> smpA" "smpB \<noteq> smpA" "smpB \<noteq> smpC" "smpB \<noteq> smpS"
  "smpB \<noteq> smpX" "smpB \<noteq> smpU" "smpB \<noteq> NULL" "smpB \<noteq> os_idle_TCB" "os_idle_TCB \<noteq> smpB"
  "smpB \<noteq> os_dly" "os_dly \<noteq> smpB" "smpB \<noteq> os_rdy" "os_rdy \<noteq> smpB" "smpC \<noteq> smpA"
  "smpC \<noteq> smpB" "smpC \<noteq> smpS" "smpC \<noteq> smpX" "smpC \<noteq> smpU" "smpC \<noteq> NULL"
  "smpC \<noteq> os_idle_TCB" "os_idle_TCB \<noteq> smpC" "smpC \<noteq> os_dly" "os_dly \<noteq> smpC" "smpC \<noteq> os_rdy"
  "os_rdy \<noteq> smpC" "smpS \<noteq> smpA" "smpS \<noteq> smpB" "smpS \<noteq> smpC" "smpS \<noteq> smpX"
  "smpS \<noteq> smpU" "smpS \<noteq> NULL" "smpS \<noteq> os_idle_TCB" "os_idle_TCB \<noteq> smpS" "smpS \<noteq> os_dly"
  "os_dly \<noteq> smpS" "smpS \<noteq> os_rdy" "os_rdy \<noteq> smpS" "smpX \<noteq> smpA" "smpX \<noteq> smpB"
  "smpX \<noteq> smpC" "smpX \<noteq> smpS" "smpX \<noteq> smpU" "smpX \<noteq> NULL" "smpX \<noteq> os_idle_TCB"
  "os_idle_TCB \<noteq> smpX" "smpX \<noteq> os_dly" "os_dly \<noteq> smpX" "smpX \<noteq> os_rdy" "os_rdy \<noteq> smpX"
  "smpU \<noteq> smpA" "smpU \<noteq> smpB" "smpU \<noteq> smpC" "smpU \<noteq> smpS" "smpU \<noteq> smpX"
  "smpU \<noteq> NULL" "smpU \<noteq> os_idle_TCB" "os_idle_TCB \<noteq> smpU" "smpU \<noteq> os_dly" "os_dly \<noteq> smpU"
  "smpU \<noteq> os_rdy" "os_rdy \<noteq> smpU"
  by (simp_all add: smp_defs)

lemma smp_fields [simp]:
  "tsk_run smp = smpA" "tsk_new smp = smpA" "smpQ os_rdy = [smpC, os_idle_TCB]" "smpQ smpS = [smpB]"
  "prio smp smpA = 2" "prio smp smpB = 3" "prio smp smpC = 1" "prio smp os_idle_TCB = 0"
  "tstate smp smpB = WAIT_SEM"
  "smpA \<in> smpT" "smpB \<in> smpT" "smpC \<in> smpT" "smpS \<in> smpH" "smpX \<in> smpH" "smpU \<in> smpH"
  "mu_level smp smpU = 1" "mu_owner smp smpU = smpC" "mu_prio smp smpU = 1" "tokens smp smpS = 0"
  by (simp_all add: smp_def smp_zero_def smpT_def smpH_def smpQ_def smp_defs)

end
