(* ===== verification/RTX_Scheduling.thy ===== *)
theory RTX_Scheduling
  imports RTX_Sample
begin

text \<open>
  What the list, delay and task layers promise, and the contract of a kernel service:
  the locale \<open>kernel_service\<close> is the interface between a service and the exception return
  that follows it. A service keeps it when it returns in a state in which the selected
  task \<open>tsk_new\<close> satisfies the scheduling invariant; the locale shows once that the system
  then runs a task of the highest priority again.
\<close>

section \<open>The contract of a kernel service\<close>

text \<open>The state in which a task runs and no service is active.\<close>

definition kstate ::
  "kst \<Rightarrow> ptr set \<Rightarrow> ptr set \<Rightarrow> (ptr \<Rightarrow> ptr list) \<Rightarrow> (ptr \<times> nat) list \<Rightarrow> bool" where
  "kstate s T H Q D \<longleftrightarrow> kinv s T H Q D (tsk_run s) \<and> tsk_new s = tsk_run s"

lemma kstateD: "kstate s T H Q D \<Longrightarrow> kinv s T H Q D (tsk_run s)"
  "kstate s T H Q D \<Longrightarrow> tsk_new s = tsk_run s"
  by (simp_all add: kstate_def)

lemma smp_kstate: "kstate smp smpT smpH smpQ smpD"
  using smp_kinv by (simp add: kstate_def)

lemma kstate_ready_le:
  assumes "kstate s T H Q D" and "t \<in> T" and "tstate s t = READY"
  shows "prio s t \<le> prio s (tsk_run s)"
  using kinv0D(9,11) [OF kinvD(1) [OF kstateD(1) [OF assms(1)]]] assms(2,3) by blast

lemma task_switch_kinv:
  assumes "kinv s T H Q D (tsk_new s)" and "task_switch psp s = Some s'"
  shows "kstate s' T H Q D"
proof -
  have "kstate (s\<lparr>tsk_run := tsk_new s\<rparr>) T H Q D" using assms(1) by (simp add: kstate_def)
  moreover have "s' = s \<and> tsk_run s = tsk_new s \<or> s' = s\<lparr>tsk_run := tsk_new s\<rparr> \<or>
      (\<exists>f. s' = (tsk_stack_update f s)\<lparr>tsk_run := tsk_new s\<rparr>)"
    using assms(2)
    by (auto simp: task_switch_def rt_stk_check_def split: if_splits option.splits bind_splits)
  ultimately show ?thesis using assms(1) by (auto simp: kstate_def)
qed

text \<open>The state in which a service leaves the system.\<close>

definition kexit :: "kst \<Rightarrow> kst \<Rightarrow> ptr set \<Rightarrow> ptr set \<Rightarrow> bool" where
  "kexit s s' T H \<longleftrightarrow> (\<exists>Q D. kinv s' T H Q D (tsk_new s')) \<and> tsk_run s' = tsk_run s"

lemma kexitI: "kinv s' T H Q D c \<Longrightarrow> tsk_new s' = c \<Longrightarrow> tsk_run s' = tsk_run s \<Longrightarrow> kexit s s' T H"
  by (auto simp: kexit_def)

lemma kexit_same: "kstate s T H Q D \<Longrightarrow> kexit s s T H"
  by (auto simp: kstate_def intro: kexitI)

locale kernel_service =
  fixes pre :: "kst \<Rightarrow> ptr set \<Rightarrow> ptr set \<Rightarrow> (ptr \<Rightarrow> ptr list) \<Rightarrow> bool"
    and svc :: "kst \<Rightarrow> kst option"
  assumes svc_returns: "kstate s T H Q D \<Longrightarrow> pre s T H Q \<Longrightarrow>
    \<exists>s'. svc s = Some s' \<and> kexit s s' T H"
begin

lemma svc_exit:
  assumes "kstate s T H Q D" "pre s T H Q" and "svc s = Some s'" and "task_switch psp s' = Some s''"
  shows "\<exists>Q' D'. kstate s'' T H Q' D'"
  using svc_returns [OF assms(1,2)] assms(3,4) task_switch_kinv unfolding kexit_def by fastforce

lemma svc_runs_highest:
  assumes "kstate s T H Q D" "pre s T H Q" and "svc s = Some s'" and "task_switch psp s' = Some s''"
    and "t \<in> T" "tstate s'' t = READY"
  shows "prio s'' t \<le> prio s'' (tsk_run s'')"
  using svc_exit [OF assms(1-4)] kstate_ready_le assms(5,6) by blast

end

subsection \<open>The services of \<open>rt_Task.c\<close> and \<open>rt_Time.c\<close>\<close>

lemma kstate_rdy:
  assumes "kstate s T H Q D" and "tsk_run s \<noteq> os_idle_TCB"
  obtains n xs where "Q os_rdy = n # xs"
  using kinv0D(12) [OF kinvD(1) [OF kstateD(1) [OF assms(1)]]] assms(2) by (cases "Q os_rdy") auto

interpretation tsk_pass: kernel_service
  "\<lambda>s T H Q. tsk_run s \<noteq> os_idle_TCB" rt_tsk_pass
proof
  fix s T H Q D
  assume k: "kstate s T H Q D" and c: "tsk_run s \<noteq> os_idle_TCB"
  obtain n xs where Q: "Q os_rdy = n # xs" using kstate_rdy [OF k c] .
  from kinv_tsk_pass [OF kstateD(1) [OF k] refl Q] k
  show "\<exists>s'. rt_tsk_pass s = Some s' \<and> kexit s s' T H"
    by (auto intro: kexitI kexit_same dest: sched_maskD(3) split: if_splits)
qed

interpretation tsk_prio_self: kernel_service
  "\<lambda>s T H Q. tsk_run s \<noteq> os_idle_TCB" "\<lambda>s. map_option snd (rt_tsk_prio 0 v s)" for v
proof
  fix s T H Q D
  assume k: "kstate s T H Q D" and c: "tsk_run s \<noteq> os_idle_TCB"
  obtain n xs where Q: "Q os_rdy = n # xs" using kstate_rdy [OF k c] .
  from kinv_tsk_prio_self [OF kstateD(1) [OF k] refl kstateD(2) [OF k] Q, of v]
  show "\<exists>s'. map_option snd (rt_tsk_prio 0 v s) = Some s' \<and> kexit s s' T H"
    by (auto intro: kexitI dest!: sched_maskD(3) split: if_splits)
qed

lemma block_returns:
  assumes k: "kstate s T H Q D" and c: "tsk_run s \<noteq> os_idle_TCB" and st: "st \<noteq> READY" "st \<noteq> RUNNING"
  shows "\<exists>s'. rt_block timeout st s = Some s' \<and> kexit s s' T H"
proof (cases "timeout = 0")
  case True
  then show ?thesis using k by (auto simp: rt_block_def intro: kexit_same)
next
  case False
  from kinv_block [OF kinvD(1) [OF kstateD(1) [OF k]] refl c False st]
  show ?thesis by (auto intro: kexitI dest: sched_maskD(3))
qed

interpretation dly_wait: kernel_service
  "\<lambda>s T H Q. tsk_run s \<noteq> os_idle_TCB" "rt_dly_wait n" for n
  by standard (unfold rt_dly_wait_def, rule block_returns, simp_all)

section \<open>Promises of the list, delay and task layers\<close>

text \<open>
  C3: \<open>rt_put_prio\<close> inserts a task that is in no list into the list of any header: it
  terminates without dereferencing \<open>NULL\<close>, keeps every other list, the result is ordered
  by descending priority, and among tasks of equal priority the new one is the last.
\<close>

theorem rt_put_prio_ordered_fifo:
  assumes "qrep s T H Q" and "h \<in> H" and "t \<in> T" "t \<notin> queued H Q"
    and "prio_sorted (prio s) (Q h)"
  shows "\<exists>s' xs. rt_put_prio h t s = Some s' \<and> qrep s' T H (Q(h := xs)) \<and>
    set xs = insert t (set (Q h)) \<and> prio_sorted (prio s') xs \<and>
    (\<forall>p. filter (\<lambda>x. prio s' x = p) xs =
      filter (\<lambda>x. prio s x = p) (Q h) @ (if prio s t = p then [t] else []))"
proof -
  obtain L R where put: "rt_put_prio h t s = Some (s\<lparr>p_lnk := L, p_rlnk := R\<rparr>)"
    and rep: "qrep (s\<lparr>p_lnk := L, p_rlnk := R\<rparr>) T H (Q(h := ins_prio (prio s) t (Q h)))"
    using rt_put_prio_qrep [OF assms(1-4)] by blast
  show ?thesis
    using put rep prio_sorted_ins_prio [OF assms(5)] filter_ins_prio [OF assms(5)]
    by (intro exI [of _ "s\<lparr>p_lnk := L, p_rlnk := R\<rparr>"] exI [of _ "ins_prio (prio s) t (Q h)"]) simp
qed

theorem rt_put_prio_ordered_fifo_witness:
  "\<exists>s' xs. rt_put_prio smpS smpA smp = Some s' \<and> qrep s' smpT smpH (smpQ(smpS := xs)) \<and>
    set xs = {smpA, smpB} \<and> prio_sorted (prio s') xs"
  using rt_put_prio_ordered_fifo [OF smp_qrep, of smpS smpA] kinvD(2) [OF smp_kinv]
  by fastforce

text \<open>
  \<open>rt_put_dly\<close> enters a task into the delta list so that the list holds its remaining
  time exactly: the remaining times of all other tasks are unchanged, although only
  differences between neighbours are stored.
\<close>

theorem rt_put_dly_refines:
  assumes "drep s T D" and "t \<in> T" "t \<notin> fst ` set D" and "0 < unat delay"
  shows "\<exists>s'. rt_put_dly t delay s = Some s' \<and> drep s' T (ins_dly t (unat delay) D)"
  using rt_put_dly_drep [OF assms] by blast

theorem rt_put_dly_refines_witness:
  "\<exists>s'. rt_put_dly smpA 3 smp = Some s' \<and> drep s' smpT [(smpA, 3), (smpB, 5)]"
  using rt_put_dly_refines [OF smp_drep, of smpA 3]
  by (simp add: smpD_def ins_dly_def smp_defs smpT_def)

text \<open>
  \<open>rt_rmv_dly\<close> takes a task out of the delta list, whether it is in it or not, and
  keeps the remaining times of all others.
\<close>

theorem rt_rmv_dly_refines:
  assumes "drep s T D" and "t \<in> T"
  shows "\<exists>s'. rt_rmv_dly t s = Some s' \<and> drep s' T (filter (\<lambda>(x, n). x \<noteq> t) D)"
  using rt_rmv_dly_filter [OF assms] by blast

theorem rt_rmv_dly_refines_witness:
  "\<exists>s'. rt_rmv_dly smpB smp = Some s' \<and> drep s' smpT []"
  using rt_rmv_dly_refines [OF smp_drep, of smpB] by (simp add: smpD_def)

text \<open>
  C4: one tick of \<open>rt_dec_dly\<close>: exactly the tasks with one tick left are taken out of the
  delta list and out of the waiting list they may be in and become ready, in the order of
  the delta list; every other task has one tick less.
\<close>

theorem rt_dec_dly_refines:
  assumes "qrep s T H Q" and "drep s T D" and "\<forall>(t, n)\<in>set D. 0 < n"
    and "fst ` set D \<inter> set (Q os_rdy) = {}"
  shows "\<exists>s'. rt_dec_dly s = Some s' \<and>
    qrep s' T H (fold (wake_rdy (prio s)) (expired D) Q) \<and> drep s' T (pending D) \<and>
    (\<forall>x. tstate s' x = (if x \<in> set (expired D) then READY else tstate s x))"
  using rt_dec_dly_spec [OF assms] by blast

theorem rt_dec_dly_refines_witness:
  "\<exists>s'. rt_dec_dly smp = Some s' \<and> qrep s' smpT smpH smpQ \<and> drep s' smpT [(smpB, 4)] \<and>
    tstate s' smpB = WAIT_SEM"
proof -
  have "\<forall>(t, n)\<in>set smpD. 0 < n" "fst ` set smpD \<inter> set (smpQ os_rdy) = {}"
    by (simp_all add: smpD_def smpQ_def smp_defs)
  from rt_dec_dly_refines [OF smp_qrep smp_drep this] show ?thesis
    by (auto simp: smpD_def expired_def pending_def)
qed

end
