(* ===== verification/RTX_Semaphore.thy ===== *)
theory RTX_Semaphore
  imports RTX_Scheduling
begin

text \<open>
  Counting semaphores (\<open>rt_Semaphore.c\<close>). A semaphore is a control block with a token
  count and a waiting list ordered by priority. The code fragments that the semaphore,
  mutex and mailbox services share (entering an empty waiting list, waking all waiting
  tasks, preempting the running task by the first ready one) are definitions of their own.
\<close>

section \<open>Fragments shared by the waiting services\<close>

text \<open>The running task becomes the only task of the waiting list of \<open>p_CB\<close>.\<close>

definition link_run :: "ptr \<Rightarrow> kst \<Rightarrow> kst option" where
  "link_run p_CB s = do {
     chk p_CB;
     let s = set_p_lnk p_CB (tsk_run s) s;
     chk (tsk_run s);
     let s = set_p_lnk (tsk_run s) NULL s;
     Some (set_p_rlnk (tsk_run s) p_CB s) }"

text \<open>The loop that makes every waiting task ready with return value 0.\<close>

partial_function (option) wake_all :: "ptr \<Rightarrow> kst \<Rightarrow> kst option" where
  "wake_all p_CB s =
     (if p_lnk s p_CB \<noteq> NULL then do {
        (p_TCB, s) \<leftarrow> rt_get_first p_CB s;
        s \<leftarrow> rt_ret_val p_TCB 0 s;
        s \<leftarrow> rt_rmv_dly p_TCB s;
        let s = set_tstate p_TCB READY s;
        s \<leftarrow> rt_put_prio os_rdy p_TCB s;
        wake_all p_CB s }
      else Some s)"

text \<open>The running task yields to a ready task of higher priority.\<close>

definition preempt_run :: "kst \<Rightarrow> kst option" where
  "preempt_run s =
     (if p_lnk s os_rdy \<noteq> NULL then do {
        chk (tsk_run s);
        if prio s (p_lnk s os_rdy) > prio s (tsk_run s) then do {
          s \<leftarrow> rt_put_prio os_rdy (tsk_run s) s;
          let s = set_tstate (tsk_run s) READY s;
          rt_dispatch NULL s }
        else Some s }
      else Some s)"

section \<open>Semaphore operations\<close>

definition rt_sem_init :: "ptr \<Rightarrow> u16 \<Rightarrow> kst \<Rightarrow> kst option" where
  "rt_sem_init semaphore token_count s = do {
     chk semaphore;
     let s = set_cb_type semaphore SCB s;
     let s = set_p_lnk semaphore NULL s;
     Some (set_tokens semaphore token_count s) }"

definition rt_sem_delete :: "ptr \<Rightarrow> kst \<Rightarrow> (u32 \<times> kst) option" where
  "rt_sem_delete semaphore s = do {
     chk semaphore;
     s \<leftarrow> wake_all semaphore s;
     s \<leftarrow> preempt_run s;
     Some (OS_R_OK, set_cb_type semaphore 0 s) }"

definition rt_sem_send :: "ptr \<Rightarrow> kst \<Rightarrow> (u32 \<times> kst) option" where
  "rt_sem_send semaphore s = do {
     chk semaphore;
     if p_lnk s semaphore \<noteq> NULL then do {
       (p_TCB, s) \<leftarrow> rt_get_first semaphore s;
       s \<leftarrow> rt_ret_val p_TCB 1 s;
       s \<leftarrow> rt_rmv_dly p_TCB s;
       s \<leftarrow> rt_dispatch p_TCB s;
       Some (OS_R_OK, s) }
     else Some (OS_R_OK, set_tokens semaphore (tokens s semaphore + 1) s) }"

definition rt_sem_wait :: "ptr \<Rightarrow> u16 \<Rightarrow> kst \<Rightarrow> (u32 \<times> kst) option" where
  "rt_sem_wait semaphore timeout s = do {
     chk semaphore;
     if tokens s semaphore \<noteq> 0 then
       Some (OS_R_OK, set_tokens semaphore (tokens s semaphore - 1) s)
     else if timeout = 0 then Some (OS_R_TMO, s)
     else do {
       s \<leftarrow> (if p_lnk s semaphore \<noteq> NULL then rt_put_prio semaphore (tsk_run s) s
              else link_run semaphore s);
       s \<leftarrow> rt_block timeout WAIT_SEM s;
       Some (OS_R_TMO, s) } }"

definition isr_sem_send :: "ptr \<Rightarrow> kst \<Rightarrow> kst option" where
  "isr_sem_send semaphore s = do {
     s \<leftarrow> rt_psq_enq semaphore 0 s;
     Some (rt_psh_req s) }"

definition rt_sem_psh :: "ptr \<Rightarrow> kst \<Rightarrow> kst option" where
  "rt_sem_psh p_CB s = do {
     chk p_CB;
     if p_lnk s p_CB \<noteq> NULL then do {
       (p_TCB, s) \<leftarrow> rt_get_first p_CB s;
       s \<leftarrow> rt_rmv_dly p_TCB s;
       let s = set_tstate p_TCB READY s;
       s \<leftarrow> rt_ret_val p_TCB 1 s;
       rt_put_prio os_rdy p_TCB s }
     else Some (set_tokens p_CB (tokens s p_CB + 1) s) }"
section \<open>Entering and leaving a waiting list\<close>

lemma qrep_p_lnk_NULL: "qrep s T H Q \<Longrightarrow> h \<in> H \<Longrightarrow> p_lnk s h = NULL \<longleftrightarrow> Q h = []"
  using qrepD(8) [of s T H Q h] by (cases "Q h") auto

lemma kinv_qrep: "kinv s T H Q D c \<Longrightarrow> qrep s T H Q"
  using kinv0D(1) [OF kinvD(1)] .

text \<open>Linking the running task directly is what \<open>rt_put_prio\<close> does on an empty list.\<close>

lemma link_run_put_prio:
  "p_lnk s h = NULL \<Longrightarrow> sem_mbx s h \<Longrightarrow> h \<noteq> tsk_run s \<Longrightarrow>
     link_run h s = rt_put_prio h (tsk_run s) s"
  by (cases "h = NULL"; cases "tsk_run s = NULL")
    (simp_all add: link_run_def rt_put_prio_def put_prio_loop.simps fun_upd_twist comp_def)

lemma kinv_wait_list:
  assumes k0: "kinv s T H Q D c" and run: "tsk_run s = c" and h: "h \<in> H" "h \<noteq> os_rdy"
  shows "\<exists>L R. (if p_lnk s h \<noteq> NULL then rt_put_prio h (tsk_run s) s else link_run h s) =
      Some (s\<lparr>p_lnk := L, p_rlnk := R\<rparr>) \<and>
    kinv0 (s\<lparr>p_lnk := L, p_rlnk := R\<rparr>) T H (Q(h := ins_prio (prio s) c (Q h))) D c"
proof -
  note k = kinv0D [OF kinvD(1) [OF k0]] and cq = kinvD(2) [OF k0]
  have hc: "h \<noteq> c" using qrepD(4) [OF k(1)] h(1) k(5) by blast
  obtain L R where put: "rt_put_prio h c s = Some (s\<lparr>p_lnk := L, p_rlnk := R\<rparr>)"
    and rep: "qrep (s\<lparr>p_lnk := L, p_rlnk := R\<rparr>) T H (Q(h := ins_prio (prio s) c (Q h)))"
    using rt_put_prio_qrep [OF k(1) h(1) k(5) cq] by blast
  have "kinv0 (s\<lparr>p_lnk := L, p_rlnk := R\<rparr>) T H (Q(h := ins_prio (prio s) c (Q h))) D c"
    unfolding kinv0_def
  proof (intro conjI ballI)
    show "drep (s\<lparr>p_lnk := L, p_rlnk := R\<rparr>) T D" by (rule drep_cong [OF k(2)]) simp_all
    show "prio_sorted (prio (s\<lparr>p_lnk := L, p_rlnk := R\<rparr>))
        ((Q(h := ins_prio (prio s) c (Q h))) g)" if "g \<in> H" for g
      using k(3) [OF that] prio_sorted_ins_prio [OF k(3) [OF h(1)]] by simp
  qed (use rep k h(2) in auto)
  moreover have "link_run h s = rt_put_prio h c s" if "p_lnk s h = NULL"
    using link_run_put_prio [OF that qrepD(6) [OF k(1) h]] hc run by simp
  ultimately show ?thesis using put run by auto
qed

text \<open>The first waiting task leaves its list; it is in no list then.\<close>

lemma kinv_first_free:
  assumes k0: "kinv s T H Q D c" and h: "h \<in> H" "h \<noteq> os_rdy" and Q: "Q h = t # xs"
  shows "t \<in> T" "t \<noteq> NULL" "t \<noteq> c" "t \<notin> queued H (Q(h := xs))" "p_lnk s h \<noteq> NULL"
proof -
  note k = kinv0D [OF kinvD(1) [OF k0]] and cq = kinvD(2) [OF k0]
  show "t \<in> T" using qrepD(9) [OF k(1) h(1)] Q by auto
  then show "t \<noteq> NULL" using qrepD(3) [OF k(1)] by auto
  show "t \<noteq> c" using cq h(1) Q by (auto simp: queued_def)
  have "t \<notin> set xs" using qrep_distinct [OF k(1) h(1)] Q by simp
  moreover have "t \<notin> set (Q g)" if "g \<in> H" "g \<noteq> h" for g
    using qrepD(12) [OF k(1) h(1) that(1)] that(2) Q by auto
  ultimately show "t \<notin> queued H (Q(h := xs))" by (auto simp: queued_def split: if_splits)
  show "p_lnk s h \<noteq> NULL" using qrep_p_lnk_NULL [OF k(1) h(1)] Q by simp
qed

text \<open>The delays of all tasks but one.\<close>

abbreviation undelay :: "ptr \<Rightarrow> (ptr \<times> nat) list \<Rightarrow> (ptr \<times> nat) list" where
  "undelay t D \<equiv> filter (\<lambda>(x, n). x \<noteq> t) D"

lemma notin_undelay [simp]: "t \<notin> fst ` set (undelay t D)"
  by auto

text \<open>
  A woken task: its delay ends and it is dispatched. \<open>u\<close> is the state after it left the
  waiting list and got its result.
\<close>

lemma kinv_wake:
  assumes k0: "kinv u T H Q D c" and run: "tsk_run u = c"
    and t: "t \<in> T" "t \<notin> queued H Q" "t \<noteq> c"
  shows "\<exists>u1 u'. rt_rmv_dly t u = Some u1 \<and> rt_dispatch t u1 = Some u' \<and>
    wakes u u' T H Q (undelay t D) c t"
proof -
  obtain L R X where rmv: "rt_rmv_dly t u = Some (u\<lparr>p_dlnk := L, p_blnk := R, delta_time := X\<rparr>)"
    and k1: "kinv (u\<lparr>p_dlnk := L, p_blnk := R, delta_time := X\<rparr>) T H Q (undelay t D) c"
    using kinv_rmv_dly [OF k0 t(1)] by blast
  obtain u' where "rt_dispatch t (u\<lparr>p_dlnk := L, p_blnk := R, delta_time := X\<rparr>) = Some u'"
    "wakes (u\<lparr>p_dlnk := L, p_blnk := R, delta_time := X\<rparr>) u' T H Q (undelay t D) c t"
    using kinv_dispatch [OF k1 _ t(1,2) notin_undelay t(3)] run by auto
  with rmv show ?thesis by (auto simp: wakes_def)
qed

lemma wakes_cong:
  "wakes u u' T H Q D c t \<Longrightarrow> prio u = prio s \<Longrightarrow> tsk_new u = tsk_new s \<Longrightarrow>
     sched_mask u = sched_mask s \<Longrightarrow> wakes s u' T H Q D c t"
  by (simp add: wakes_def split: if_splits)

lemma wakes_kexit:
  assumes "wakes s s' T H Q D c t" and "tsk_new s = c"
  shows "kexit s s' T H"
  using assms sched_maskD(3) [of s' s] by (auto simp: wakes_def intro: kexitI split: if_splits)

lemma wakes_mask: "wakes s s' T H Q D c t \<Longrightarrow> sched_mask s' = sched_mask s"
  by (simp add: wakes_def)

lemma kexit_mask:
  "kexit s1 s' T H \<Longrightarrow> tsk_run s1 = tsk_run s \<Longrightarrow> kexit s s' T H"
  by (simp add: kexit_def)

section \<open>Functional behaviour\<close>

lemma sem_send_no_waiter:
  "h \<noteq> NULL \<Longrightarrow> p_lnk s h = NULL \<Longrightarrow>
     rt_sem_send h s = Some (OS_R_OK, set_tokens h (tokens s h + 1) s)"
  by (simp add: rt_sem_send_def)

lemma sem_send_waiter:
  assumes k: "kstate s T H Q D" and h: "h \<in> H" "h \<noteq> os_rdy" and Q: "Q h = t # xs"
  shows "\<exists>s'. rt_sem_send h s = Some (OS_R_OK, s') \<and>
    wakes (set_mem (rt_ret_regs t s) 1 s) s' T H (Q(h := xs)) (undelay t D) (tsk_run s) t"
proof -
  note k0 = kstateD(1) [OF k]
  note fr = kinv_first_free [OF k0 h Q]
  have hn: "h \<noteq> NULL" using qrepD(2) [OF kinv_qrep [OF k0]] h(1) by auto
  obtain L R where get: "rt_get_first h s = Some (t, s\<lparr>p_lnk := L, p_rlnk := R\<rparr>)"
    and k1: "kinv (s\<lparr>p_lnk := L, p_rlnk := R\<rparr>) T H (Q(h := xs)) D (tsk_run s)"
    using kinv_get_first [OF k0 h Q] by blast
  define u where "u = set_mem (rt_ret_regs t s) 1 (s\<lparr>p_lnk := L, p_rlnk := R\<rparr>)"
  have "kinv u T H (Q(h := xs)) D (tsk_run s)" "tsk_run u = tsk_run s" using k1 by (simp_all add: u_def)
  from kinv_wake [OF this fr(1,4,3)] obtain u1 u' where
    w: "rt_rmv_dly t u = Some u1" "rt_dispatch t u1 = Some u'"
    "wakes u u' T H (Q(h := xs)) (undelay t D) (tsk_run s) t" by blast
  have "wakes (set_mem (rt_ret_regs t s) 1 s) u' T H (Q(h := xs)) (undelay t D) (tsk_run s) t"
    by (rule wakes_cong [OF w(3)]) (simp_all add: u_def sched_mask_def lists_mask_def)
  then show ?thesis
    using get w(1,2) fr hn by (simp add: rt_sem_send_def rt_ret_val_def rt_ret_regs_def u_def)
qed

lemma sem_wait_blocks:
  assumes k: "kstate s T H Q D" and h: "h \<in> H" "h \<noteq> os_rdy" and c: "tsk_run s \<noteq> os_idle_TCB"
    and tok: "tokens s h = 0" and tmo: "timeout \<noteq> 0"
  shows "\<exists>s' n xs. Q os_rdy = n # xs \<and> rt_sem_wait h timeout s = Some (OS_R_TMO, s') \<and>
    kinv s' T H (Q(h := ins_prio (prio s) (tsk_run s) (Q h), os_rdy := xs))
      (if timeout < 0xffff then ins_dly (tsk_run s) (unat timeout) D else D) n \<and>
    tsk_new s' = n \<and> sched_mask s' = sched_mask s \<and>
    tstate s' = (tstate s)(tsk_run s := WAIT_SEM, n := RUNNING)"
proof -
  note k0 = kstateD(1) [OF k]
  have hn: "h \<noteq> NULL" using qrepD(2) [OF kinv_qrep [OF k0]] h(1) by auto
  obtain L R where put: "(if p_lnk s h \<noteq> NULL then rt_put_prio h (tsk_run s) s else link_run h s) =
      Some (s\<lparr>p_lnk := L, p_rlnk := R\<rparr>)"
    and k1: "kinv0 (s\<lparr>p_lnk := L, p_rlnk := R\<rparr>) T H (Q(h := ins_prio (prio s) (tsk_run s) (Q h))) D
      (tsk_run s)"
    using kinv_wait_list [OF k0 refl h] by blast
  from kinv_block [OF k1 _ c tmo, of WAIT_SEM] h(2)
  show ?thesis using put hn tok tmo by (auto simp: rt_sem_wait_def)
qed

lemma set_fold_ins_prio: "set (fold (ins_prio f) xs ys) = set xs \<union> set ys"
  by (induction xs arbitrary: ys) auto

text \<open>Waking all waiting tasks: each gets 0 and becomes ready.\<close>

lemma wake_all_spec:
  assumes "kcore s T H Q D c" and h: "h \<in> H" "h \<noteq> os_rdy"
  shows "\<exists>s' D'. wake_all h s = Some s' \<and>
    kcore s' T H (Q(h := [], os_rdy := fold (ins_prio (prio s)) (Q h) (Q os_rdy))) D' c \<and>
    sched_mask (s'\<lparr>mem := mem s\<rparr>) = sched_mask s \<and> tsk_new s' = tsk_new s"
  using assms(1)
proof (induction "Q h" arbitrary: s Q D)
  case Nil
  then have "wake_all h s = Some s"
    using qrep_p_lnk_NULL [OF kcoreD(1) [OF Nil(2)] h(1)] by (simp add: wake_all.simps)
  moreover have e: "Q(h := [], os_rdy := fold (ins_prio (prio s)) (Q h) (Q os_rdy)) = Q"
    using Nil(1) by (simp add: fun_eq_iff)
  ultimately show ?case using Nil(2) unfolding e by (intro exI [of _ s] exI [of _ D]) simp
next
  case (Cons t xs)
  note k0 = Cons.prems and Q = Cons.hyps(2) [symmetric]
  obtain L R where get: "rt_get_first h s = Some (t, s\<lparr>p_lnk := L, p_rlnk := R\<rparr>)"
    and k1: "kcore (s\<lparr>p_lnk := L, p_rlnk := R\<rparr>) T H (Q(h := xs)) D c"
    and t: "t \<in> T" "t \<noteq> NULL" "t \<noteq> c" "t \<notin> queued H (Q(h := xs))"
    using kcore_get_first [OF k0 h Q] by blast
  define u where "u = set_mem (rt_ret_regs t s) 0 (s\<lparr>p_lnk := L, p_rlnk := R\<rparr>)"
  have "kcore u T H (Q(h := xs)) D c" using k1 by (simp add: u_def)
  then obtain L' R' X where rmv: "rt_rmv_dly t u = Some (u\<lparr>p_dlnk := L', p_blnk := R', delta_time := X\<rparr>)"
    and k2: "kcore (u\<lparr>p_dlnk := L', p_blnk := R', delta_time := X\<rparr>) T H (Q(h := xs)) (undelay t D) c"
    using kcore_rmv_dly t(1) by blast
  define w where "w = u\<lparr>p_dlnk := L', p_blnk := R', delta_time := X\<rparr>"
  obtain s2 where put: "rt_put_prio os_rdy t (set_tstate t READY w) = Some s2"
    and k3: "kcore s2 T H (Q(h := xs, os_rdy := ins_prio (prio w) t ((Q(h := xs)) os_rdy))) (undelay t D) c"
    and m: "sched_mask s2 = sched_mask w" "tsk_new s2 = tsk_new w"
    using kcore_put [OF k2 t(1,4) notin_undelay t(3)] unfolding w_def by blast
  have pr: "prio w = prio s" "prio s2 = prio s" using sched_maskD(2) [OF m(1)] by (simp_all add: w_def u_def)
  define Q2 where "Q2 = Q(h := xs, os_rdy := ins_prio (prio s) t (Q os_rdy))"
  have k4: "kcore s2 T H Q2 (undelay t D) c" using k3 h(2) by (simp add: Q2_def pr)
  have Q2: "Q2 h = xs" "Q2 os_rdy = ins_prio (prio s) t (Q os_rdy)" using h(2) by (simp_all add: Q2_def)
  from Cons.hyps(1) [OF Q2(1) [symmetric] k4] obtain s' D' where
    rest: "wake_all h s2 = Some s'"
    "kcore s' T H (Q2(h := [], os_rdy := fold (ins_prio (prio s2)) (Q2 h) (Q2 os_rdy))) D' c"
    "sched_mask (s'\<lparr>mem := mem s2\<rparr>) = sched_mask s2" "tsk_new s' = tsk_new s2" by blast
  have run: "wake_all h s = wake_all h s2"
    using qrep_p_lnk_NULL [OF kcoreD(1) [OF k0] h(1)] Q get rmv put t(2)
    by (subst wake_all.simps) (simp add: rt_ret_val_def rt_ret_regs_def u_def w_def)
  have QQ: "Q2(h := [], os_rdy := fold (ins_prio (prio s2)) (Q2 h) (Q2 os_rdy)) =
      Q(h := [], os_rdy := fold (ins_prio (prio s)) (Q h) (Q os_rdy))"
    unfolding Q2 pr Q by (simp add: Q2_def fun_upd_twist)
  have "sched_mask (s'\<lparr>mem := mem s\<rparr>) = (sched_mask (s'\<lparr>mem := mem s2\<rparr>))\<lparr>mem := mem s\<rparr>"
    by (simp add: sched_mask_def lists_mask_def)
  also have "\<dots> = (sched_mask w)\<lparr>mem := mem s\<rparr>" using rest(3) m(1) by simp
  also have "\<dots> = sched_mask s" by (simp add: w_def u_def sched_mask_def lists_mask_def)
  finally show ?case
    using run rest(1,2,4) m(2) unfolding QQ
    by (intro exI [of _ s'] exI [of _ D']) (simp add: w_def u_def)
qed

text \<open>After \<open>preempt_run\<close> the selected task has the highest priority again.\<close>

lemma preempt_run_spec:
  assumes k0: "kcore s T H Q D c" and run: "tsk_run s = c" "tsk_new s = c"
  shows "\<exists>s' Q'. preempt_run s = Some s' \<and> kinv s' T H Q' D (tsk_new s') \<and>
    (\<forall>h. h \<noteq> os_rdy \<longrightarrow> Q' h = Q h) \<and>
    insert (tsk_new s') (set (Q' os_rdy)) = insert c (set (Q os_rdy)) \<and>
    sched_mask s' = sched_mask s"
proof (cases "Q os_rdy")
  case Nil
  then have "preempt_run s = Some s"
    using qrep_p_lnk_NULL [OF kcoreD(1) [OF k0]] qrepD(1) [OF kcoreD(1) [OF k0]]
    by (simp add: preempt_run_def)
  then show ?thesis using k0 Nil run by (auto simp: kinv_kcore)
next
  case (Cons n xs)
  note k = kcoreD [OF k0]
  note r = qrepD [OF k(1)]
  have n: "p_lnk s os_rdy = n" "n \<noteq> NULL" "c \<noteq> NULL" using r(8) [OF r(1)] r(3) k(5) Cons by auto
  have srt: "prio_sorted (prio s) (n # xs)" using k(3) [OF r(1)] Cons by simp
  have nc: "n \<noteq> c" using kcore_notin [OF k0 r(1)] Cons by auto
  show ?thesis
  proof (cases "prio s n > prio s c")
    case False
    then have "\<forall>x\<in>set (Q os_rdy). prio s x \<le> prio s c" using srt Cons by (auto intro: order_trans)
    then show ?thesis using False n run k0 by (auto simp: preempt_run_def kinv_kcore)
  next
    case True
    have id: "set_prio c (prio s c) s = s" by simp
    have x: "ins_prio ((prio s)(c := prio s c)) c (Q os_rdy) = n # ins_prio (prio s) c xs"
      using True Cons by (simp add: ins_prio_Cons less_imp_le)
    from kinv_yield [OF k0 x] obtain s1 s' where y:
      "rt_put_prio os_rdy c s = Some s1" "rt_dispatch NULL (set_tstate c READY s1) = Some s'"
      "tsk_new s' = n" "kinv s' T H (Q(os_rdy := ins_prio (prio s) c xs)) D n"
      "sched_mask s' = sched_mask s" "tsk_run s1 = tsk_run s" unfolding id by blast
    then show ?thesis using True n run Cons
      by (intro exI [of _ s'] exI [of _ "Q(os_rdy := ins_prio (prio s) c xs)"])
        (auto simp: preempt_run_def)
  qed
qed

text \<open>Deleting a semaphore makes every task that waits for it ready.\<close>

lemma sem_delete_spec:
  assumes k: "kstate s T H Q D" and h: "h \<in> H" "h \<noteq> os_rdy"
  shows "\<exists>s' s'' Q' D'. rt_sem_delete h s = Some (OS_R_OK, s') \<and> s' = set_cb_type h 0 s'' \<and>
    kinv s'' T H Q' D' (tsk_new s'') \<and> Q' h = [] \<and> (\<forall>g. g \<noteq> os_rdy \<longrightarrow> g \<noteq> h \<longrightarrow> Q' g = Q g) \<and>
    insert (tsk_new s'') (set (Q' os_rdy)) = insert (tsk_run s) (set (Q os_rdy) \<union> set (Q h)) \<and>
    sched_mask (s''\<lparr>mem := mem s\<rparr>) = sched_mask s"
proof -
  have k0: "kcore s T H Q D (tsk_run s)" "tsk_new s = tsk_run s"
    using k by (auto simp: kstate_def kinv_kcore)
  have hn: "h \<noteq> NULL" using qrepD(2) [OF kcoreD(1) [OF k0(1)]] h(1) by auto
  define Q1 where "Q1 = Q(h := [], os_rdy := fold (ins_prio (prio s)) (Q h) (Q os_rdy))"
  obtain s1 D' where w: "wake_all h s = Some s1" "kcore s1 T H Q1 D' (tsk_run s)"
    "sched_mask (s1\<lparr>mem := mem s\<rparr>) = sched_mask s" "tsk_new s1 = tsk_new s"
    using wake_all_spec [OF k0(1) h] unfolding Q1_def by blast
  have run: "tsk_run s1 = tsk_run s" using sched_maskD(3) [OF w(3)] by simp
  obtain s'' Q' where p: "preempt_run s1 = Some s''" "kinv s'' T H Q' D' (tsk_new s'')"
    "\<forall>g. g \<noteq> os_rdy \<longrightarrow> Q' g = Q1 g"
    "insert (tsk_new s'') (set (Q' os_rdy)) = insert (tsk_run s) (set (Q1 os_rdy))"
    "sched_mask s'' = sched_mask s1"
    using preempt_run_spec [OF w(2)] run w(4) k0(2) by auto
  have "sched_mask (s''\<lparr>mem := mem s\<rparr>) = (sched_mask s'')\<lparr>mem := mem s\<rparr>"
    by (simp add: sched_mask_def lists_mask_def)
  also have "\<dots> = sched_mask (s1\<lparr>mem := mem s\<rparr>)" using p(5) by (simp add: sched_mask_def lists_mask_def)
  finally have m: "sched_mask (s''\<lparr>mem := mem s\<rparr>) = sched_mask s" using w(3) by simp
  have "rt_sem_delete h s = Some (OS_R_OK, set_cb_type h 0 s'')"
    using w(1) p(1) hn by (simp add: rt_sem_delete_def)
  moreover have "Q' h = []" "\<forall>g. g \<noteq> os_rdy \<longrightarrow> g \<noteq> h \<longrightarrow> Q' g = Q g"
    using p(3) h(2) by (auto simp: Q1_def)
  moreover have "insert (tsk_new s'') (set (Q' os_rdy)) = insert (tsk_run s) (set (Q os_rdy) \<union> set (Q h))"
    unfolding p(4) by (auto simp: Q1_def set_fold_ins_prio)
  ultimately show ?thesis using p(2) m by blast
qed

text \<open>The post service for a semaphore: the first waiting task becomes ready with result 1.\<close>

lemma sem_psh_spec:
  assumes k0: "ksus s T H Q D" and h: "h \<in> H" "h \<noteq> os_rdy"
  shows "\<exists>s' Q' D'. rt_sem_psh h s = Some s' \<and> ksus s' T H Q' D' \<and>
    (case Q h of [] \<Rightarrow> s' = set_tokens h (tokens s h + 1) s
     | t # xs \<Rightarrow> Q' = Q(h := xs, os_rdy := ins_prio (prio s) t (Q os_rdy)) \<and> D' = undelay t D \<and>
         sched_mask s' = sched_mask (set_mem (rt_ret_regs t s) 1 s)) \<and> tsk_new s' = tsk_new s"
proof (cases "Q h")
  case Nil
  have "h \<noteq> NULL" using qrepD(2) [OF ksusD(1) [OF k0]] h(1) by auto
  then have "rt_sem_psh h s = Some (set_tokens h (tokens s h + 1) s)"
    using Nil qrep_p_lnk_NULL [OF ksusD(1) [OF k0] h(1)] by (simp add: rt_sem_psh_def)
  then show ?thesis using Nil k0 by (intro exI [of _ "set_tokens h (tokens s h + 1) s"] exI [of _ Q]) auto
next
  case (Cons t xs)
  have hn: "h \<noteq> NULL" using qrepD(2) [OF ksusD(1) [OF k0]] h(1) by auto
  obtain L R where get: "rt_get_first h s = Some (t, s\<lparr>p_lnk := L, p_rlnk := R\<rparr>)"
    and k1: "ksus (s\<lparr>p_lnk := L, p_rlnk := R\<rparr>) T H (Q(h := xs)) D"
    and t: "t \<in> T" "t \<noteq> NULL" "t \<notin> queued H (Q(h := xs))"
    using ksus_get_first [OF k0 h Cons] by blast
  define u where "u = s\<lparr>p_lnk := L, p_rlnk := R\<rparr>"
  have "set_tstate t (tstate u t) u = u" by simp
  then have "ksus (set_tstate t (tstate u t) u) T H (Q(h := xs)) D"
    using k1 by (simp only: u_def [symmetric])
  then obtain L' R' X where rmv: "rt_rmv_dly t u = Some (u\<lparr>p_dlnk := L', p_blnk := R', delta_time := X\<rparr>)"
    and k2: "ksus (set_tstate t (tstate u t) (u\<lparr>p_dlnk := L', p_blnk := R', delta_time := X\<rparr>)) T H
      (Q(h := xs)) (undelay t D)"
    using ksus_rmv_dly t(1) by blast
  define w where "w = set_mem (rt_ret_regs t s) 1
    (set_tstate t READY (u\<lparr>p_dlnk := L', p_blnk := R', delta_time := X\<rparr>))"
  have k3: "ksus (set_tstate t (tstate u t) w) T H (Q(h := xs)) (undelay t D)"
    using k2 ksus_cong [of "set_tstate t (tstate u t) w" "set_tstate t (tstate u t)
      (u\<lparr>p_dlnk := L', p_blnk := R', delta_time := X\<rparr>)"] by (simp add: w_def)
  obtain s' where put: "rt_put_prio os_rdy t w = Some s'"
    "ksus s' T H (Q(h := xs, os_rdy := ins_prio (prio w) t ((Q(h := xs)) os_rdy))) (undelay t D)"
    "sched_mask s' = sched_mask w" "tsk_new s' = tsk_new w"
    using ksus_ready [OF k3 _ t(1,3) notin_undelay] by (auto simp: w_def)
  have "rt_sem_psh h s = Some s'"
    using qrep_p_lnk_NULL [OF ksusD(1) [OF k0] h(1)] Cons get rmv put(1) t(2) hn
    by (simp add: rt_sem_psh_def rt_ret_val_def rt_ret_regs_def u_def w_def)
  moreover have "sched_mask w = sched_mask (set_mem (rt_ret_regs t s) 1 s)"
    by (simp add: w_def u_def sched_mask_def lists_mask_def)
  moreover have "prio w = prio s" "tsk_new w = tsk_new s" by (simp_all add: w_def u_def)
  moreover have "(Q(h := xs)) os_rdy = Q os_rdy" using h(2) by simp
  ultimately show ?thesis using put(2-4) Cons by auto
qed

section \<open>The contract of a kernel service\<close>

interpretation sem_send: kernel_service
  "\<lambda>s T H Q. h \<in> H \<and> h \<noteq> os_rdy" "\<lambda>s. map_option snd (rt_sem_send h s)" for h
proof
  fix s T H Q D
  assume k: "kstate s T H Q D" and h: "h \<in> H \<and> h \<noteq> os_rdy"
  show "\<exists>s'. map_option snd (rt_sem_send h s) = Some s' \<and> kexit s s' T H"
  proof (cases "Q h")
    case Nil
    then have "rt_sem_send h s = Some (OS_R_OK, set_tokens h (tokens s h + 1) s)"
      using qrep_p_lnk_NULL [OF kinv_qrep [OF kstateD(1) [OF k]]] h
        qrepD(2) [OF kinv_qrep [OF kstateD(1) [OF k]]] by (intro sem_send_no_waiter) auto
    moreover have "kexit s (set_tokens h (tokens s h + 1) s) T H"
      using k by (auto simp: kstate_def intro: kexitI)
    ultimately show ?thesis by auto
  next
    case (Cons t xs)
    from sem_send_waiter [OF k _ _ Cons] h obtain s' where
      "rt_sem_send h s = Some (OS_R_OK, s')"
      "wakes (set_mem (rt_ret_regs t s) 1 s) s' T H (Q(h := xs)) (undelay t D) (tsk_run s) t" by blast
    moreover from this(2) have "kexit s s' T H"
      using wakes_kexit [THEN kexit_mask] kstateD(2) [OF k] by simp
    ultimately show ?thesis by auto
  qed
qed

interpretation sem_wait: kernel_service
  "\<lambda>s T H Q. h \<in> H \<and> h \<noteq> os_rdy \<and> tsk_run s \<noteq> os_idle_TCB"
  "\<lambda>s. map_option snd (rt_sem_wait h timeout s)" for h timeout
proof
  fix s T H Q D
  assume k: "kstate s T H Q D" and h: "h \<in> H \<and> h \<noteq> os_rdy \<and> tsk_run s \<noteq> os_idle_TCB"
  have hn: "h \<noteq> NULL" using qrepD(2) [OF kinv_qrep [OF kstateD(1) [OF k]]] h by auto
  show "\<exists>s'. map_option snd (rt_sem_wait h timeout s) = Some s' \<and> kexit s s' T H"
  proof (cases "tokens s h = 0 \<and> timeout \<noteq> 0")
    case True
    with sem_wait_blocks [OF k, of h timeout] h show ?thesis
      by (auto intro: kexitI dest: sched_maskD(3))
  next
    case False
    have "kexit s s T H" "kexit s (set_tokens h (tokens s h - 1) s) T H"
      using k by (auto simp: kstate_def intro: kexitI)
    with False hn show ?thesis by (auto simp: rt_sem_wait_def)
  qed
qed

section \<open>Promises of the semaphore services\<close>

text \<open>
  C5: \<open>rt_sem_send\<close> hands its token to the first task of the waiting list, the one that
  waits longest among those of the highest priority: that task leaves the list and the
  delay list with return value 1 and runs at once if its priority is higher than the
  caller's, otherwise it becomes ready; no token is stored. With no task waiting the token
  count grows by one.
\<close>

theorem rt_sem_send_hands_over:
  assumes "kstate s T H Q D" and "h \<in> H" "h \<noteq> os_rdy"
  shows "\<exists>s'. rt_sem_send h s = Some (OS_R_OK, s') \<and>
    (case Q h of
       [] \<Rightarrow> s' = set_tokens h (tokens s h + 1) s
     | t # xs \<Rightarrow> wakes (set_mem (rt_ret_regs t s) 1 s) s' T H (Q(h := xs)) (undelay t D) (tsk_run s) t \<and>
         tokens s' = tokens s \<and> mem s' (rt_ret_regs t s) = 1)"
proof (cases "Q h")
  case Nil
  then show ?thesis
    using sem_send_no_waiter [of h s] qrep_p_lnk_NULL [OF kinv_qrep [OF kstateD(1) [OF assms(1)]] assms(2)]
      qrepD(2) [OF kinv_qrep [OF kstateD(1) [OF assms(1)]]] assms(2) by auto
next
  case (Cons t xs)
  obtain s' where s': "rt_sem_send h s = Some (OS_R_OK, s')"
    "wakes (set_mem (rt_ret_regs t s) 1 s) s' T H (Q(h := xs)) (undelay t D) (tsk_run s) t"
    using sem_send_waiter [OF assms Cons] by blast
  note m = sched_maskD [OF wakes_mask [OF s'(2)]]
  show ?thesis using s' Cons m(7,8) by simp
qed

theorem rt_sem_send_hands_over_witness:
  "\<exists>s'. rt_sem_send smpS smp = Some (OS_R_OK, s') \<and> tsk_new s' = smpB \<and>
    kinv s' smpT smpH (smpQ(smpS := [], os_rdy := [smpA, smpC, os_idle_TCB])) [] smpB \<and>
    mem s' (rt_ret_regs smpB smp) = 1"
  using rt_sem_send_hands_over [OF smp_kstate, of smpS] by (auto simp: wakes_def smpD_def)

text \<open>
  C6: \<open>rt_sem_wait\<close> takes a token when there is one. Otherwise a call with a zero timeout
  returns \<open>OS_R_TMO\<close> and changes nothing, and any other call blocks the caller: it waits
  in the list of the semaphore behind the tasks of at least its priority, with its timeout
  in the delay list unless the timeout is \<open>0xffff\<close>, and the first ready task runs.
\<close>

theorem rt_sem_wait_takes_or_blocks:
  assumes "kstate s T H Q D" and "h \<in> H" "h \<noteq> os_rdy" and "tsk_run s \<noteq> os_idle_TCB"
  shows "if tokens s h \<noteq> 0 then
      rt_sem_wait h timeout s = Some (OS_R_OK, set_tokens h (tokens s h - 1) s)
    else if timeout = 0 then rt_sem_wait h timeout s = Some (OS_R_TMO, s)
    else \<exists>s' n xs. Q os_rdy = n # xs \<and> rt_sem_wait h timeout s = Some (OS_R_TMO, s') \<and>
      kinv s' T H (Q(h := ins_prio (prio s) (tsk_run s) (Q h), os_rdy := xs))
        (if timeout < 0xffff then ins_dly (tsk_run s) (unat timeout) D else D) n \<and>
      tsk_new s' = n \<and> tstate s' = (tstate s)(tsk_run s := WAIT_SEM, n := RUNNING)"
proof -
  have "h \<noteq> NULL" using qrepD(2) [OF kinv_qrep [OF kstateD(1) [OF assms(1)]]] assms(2) by auto
  then show ?thesis using sem_wait_blocks [OF assms(1-3,4), of timeout] by (auto simp: rt_sem_wait_def)
qed

theorem rt_sem_wait_takes_or_blocks_witness:
  "\<exists>s'. rt_sem_wait smpS 7 smp = Some (OS_R_TMO, s') \<and>
    kinv s' smpT smpH (smpQ(smpS := [smpB, smpA], os_rdy := [os_idle_TCB])) [(smpB, 5), (smpA, 7)] smpC \<and>
    tsk_new s' = smpC \<and> tstate s' smpA = WAIT_SEM"
  using rt_sem_wait_takes_or_blocks [OF smp_kstate, of smpS 7]
  by (auto simp: smpD_def ins_dly_def ins_prio_Cons)

text \<open>
  \<open>rt_sem_delete\<close> terminates, and every task that waited for the semaphore is ready
  (or runs, when its priority is the highest); all other waiting lists are unchanged.
\<close>

theorem rt_sem_delete_releases_all:
  assumes "kstate s T H Q D" and "h \<in> H" "h \<noteq> os_rdy"
  shows "\<exists>s' s'' Q' D'. rt_sem_delete h s = Some (OS_R_OK, s') \<and> s' = set_cb_type h 0 s'' \<and>
    kinv s'' T H Q' D' (tsk_new s'') \<and> Q' h = [] \<and> (\<forall>g. g \<noteq> os_rdy \<longrightarrow> g \<noteq> h \<longrightarrow> Q' g = Q g) \<and>
    insert (tsk_new s'') (set (Q' os_rdy)) = insert (tsk_run s) (set (Q os_rdy) \<union> set (Q h))"
  using sem_delete_spec [OF assms] by blast

theorem rt_sem_delete_releases_all_witness:
  "\<exists>s' s'' Q' D'. rt_sem_delete smpS smp = Some (OS_R_OK, s') \<and> s' = set_cb_type smpS 0 s'' \<and>
    kinv s'' smpT smpH Q' D' (tsk_new s'') \<and> Q' smpS = [] \<and>
    insert (tsk_new s'') (set (Q' os_rdy)) = {smpA, smpB, smpC, os_idle_TCB}"
proof -
  from rt_sem_delete_releases_all [OF smp_kstate, of smpS] obtain s' s'' Q' D' where
    "rt_sem_delete smpS smp = Some (OS_R_OK, s')" "s' = set_cb_type smpS 0 s''"
    "kinv s'' smpT smpH Q' D' (tsk_new s'')" "Q' smpS = []"
    "insert (tsk_new s'') (set (Q' os_rdy)) =
      insert (tsk_run smp) (set (smpQ os_rdy) \<union> set (smpQ smpS))" by auto
  then show ?thesis by (intro exI conjI) auto
qed

end
