(* ===== verification/Pool.thy ===== *)
theory Pool
  imports Prelude
begin

text \<open>
  The interface of a fixed-size block allocator: the memory boxes of the kernel and the
  memory pools of the network stack keep their free blocks in a linked list inside the
  blocks themselves. \<open>rep s F\<close> says that the allocator state \<open>s\<close> holds the free blocks \<open>F\<close>,
  the next one to be handed out first.
\<close>

locale block_pool =
  fixes Blocks :: "'b set"
    and rep :: "'s \<Rightarrow> 'b list \<Rightarrow> bool"
    and alloc :: "'s \<Rightarrow> ('b option \<times> 's) option"
    and release :: "'b \<Rightarrow> 's \<Rightarrow> 's option"
  assumes rep_blocks: "rep s F \<Longrightarrow> distinct F \<and> set F \<subseteq> Blocks"
    and alloc_empty: "rep s [] \<Longrightarrow> \<exists>s'. alloc s = Some (None, s') \<and> rep s' []"
    and alloc_first: "rep s (x # F) \<Longrightarrow> \<exists>s'. alloc s = Some (Some x, s') \<and> rep s' F"
    and release_put: "rep s F \<Longrightarrow> x \<in> Blocks \<Longrightarrow> x \<notin> set F \<Longrightarrow> \<exists>s'. release x s = Some s' \<and> rep s' (x # F)"
begin

text \<open>\<open>n\<close> allocations in a row; the blocks in the order they were handed out.\<close>

fun alloc_n :: "nat \<Rightarrow> 's \<Rightarrow> ('b option list \<times> 's) option" where
  "alloc_n 0 s = Some ([], s)"
| "alloc_n (Suc n) s = do {
     (b, s) \<leftarrow> alloc s;
     (bs, s) \<leftarrow> alloc_n n s;
     Some (b # bs, s) }"

text \<open>
  Allocations hand out each free block once and report exhaustion after that: there is
  no loss and no double use.
\<close>

lemma alloc_n_spec:
  "rep s F \<Longrightarrow> \<exists>s'. alloc_n n s =
     Some (map Some (take n F) @ replicate (n - length F) None, s') \<and> rep s' (drop n F)"
proof (induction n arbitrary: s F)
  case (Suc n)
  show ?case
  proof (cases F)
    case Nil
    obtain s1 where s1: "alloc s = Some (None, s1)" "rep s1 []" using Suc.prems alloc_empty Nil by blast
    with Suc.IH [OF s1(2)] Nil show ?thesis by auto
  next
    case (Cons x G)
    obtain s1 where s1: "alloc s = Some (Some x, s1)" "rep s1 G" using Suc.prems alloc_first Cons by blast
    with Suc.IH [OF s1(2)] Cons show ?thesis by auto
  qed
qed simp

text \<open>A released block is the next one to be allocated, and the pool is as before.\<close>

lemma release_alloc:
  assumes "rep s F" and "x \<in> Blocks" "x \<notin> set F"
  shows "\<exists>s1 s2. release x s = Some s1 \<and> alloc s1 = Some (Some x, s2) \<and> rep s2 F"
  using release_put [OF assms] alloc_first by blast

lemma alloc_release:
  assumes "rep s F" and "alloc s = Some (Some x, s1)"
  shows "x \<in> set F \<and> (\<exists>s2. release x s1 = Some s2 \<and> rep s2 F)"
proof (cases F)
  case Nil
  with assms alloc_empty show ?thesis by fastforce
next
  case (Cons y G)
  with assms have y: "y = x" "rep s1 G" using alloc_first [of s y G] by auto
  have "x \<in> Blocks" "x \<notin> set G" using rep_blocks [OF assms(1)] Cons y(1) by auto
  from release_put [OF y(2) this] Cons y(1) show ?thesis by auto
qed

end

end
