(* ===== verification/RTX_MemBox.thy ===== *)
theory RTX_MemBox
  imports RTX_State Pool
begin

text \<open>
  Memory boxes (\<open>rt_MemBox.c\<close>): a box begins with the words \<open>free\<close>, \<open>end\<close> and
  \<open>blk_size\<close> (\<open>OS_BM\<close>), followed by its blocks; the first word of a free block points to
  the next free block.
\<close>

section \<open>Box operations\<close>

abbreviation (input) BOX_ALIGN_8 :: u32 where "BOX_ALIGN_8 \<equiv> 0x80000000"
abbreviation (input) sizeof_OS_BM :: u32 where "sizeof_OS_BM \<equiv> 12"

text \<open>The loop that links all blocks.\<close>

partial_function (option) init_box_loop :: "u32 \<Rightarrow> u32 \<Rightarrow> u32 \<Rightarrow> kst \<Rightarrow> kst option" where
  "init_box_loop blk end1 blk_size s =
     (let next = blk + blk_size in
      if next > end1 then Some (set_mem blk 0 s)
      else init_box_loop next end1 blk_size (set_mem blk next s))"

definition init_box :: "ptr \<Rightarrow> u32 \<Rightarrow> u32 \<Rightarrow> kst \<Rightarrow> (u32 \<times> kst) option" where
  "init_box box_mem box_size blk_size s = do {
     let (blk_size, sizeof_bm) =
       (if blk_size AND BOX_ALIGN_8 \<noteq> 0
        then (((blk_size AND NOT BOX_ALIGN_8) + 7) AND NOT 7, (sizeof_OS_BM + 7) AND NOT 7)
        else ((blk_size + 3) AND NOT 3, sizeof_OS_BM));
     if blk_size = 0 then Some (1, s)
     else if blk_size + sizeof_bm > box_size then Some (1, s)
     else do {
       chk box_mem;
       let blk = box_mem + sizeof_bm;
       let s = set_mem box_mem blk s;
       let end1 = box_mem + box_size;
       let s = set_mem (box_mem + 4) end1 s;
       let s = set_mem (box_mem + 8) blk_size s;
       let end1 = end1 - blk_size;
       s \<leftarrow> init_box_loop blk end1 blk_size s;
       Some (0, s) } }"

definition rt_alloc_box :: "ptr \<Rightarrow> kst \<Rightarrow> (ptr \<times> kst) option" where
  "rt_alloc_box box_mem s = do {
     chk box_mem;
     let free = mem s box_mem;
     Some (free, if free \<noteq> NULL then set_mem box_mem (mem s free) s else s) }"

text \<open>The clearing loop of \<open>_calloc_box\<close>.\<close>

partial_function (option) calloc_loop :: "u32 \<Rightarrow> u32 \<Rightarrow> kst \<Rightarrow> kst option" where
  "calloc_loop i p s =
     (if i \<noteq> 0 then calloc_loop (i - 4) (p + 4) (set_mem p 0 s) else Some s)"

definition calloc_box :: "ptr \<Rightarrow> kst \<Rightarrow> (ptr \<times> kst) option" where
  "calloc_box box_mem s = do {
     (free, s) \<leftarrow> rt_alloc_box box_mem s;
     if free \<noteq> NULL then do {
       s \<leftarrow> calloc_loop (mem s (box_mem + 8)) free s;
       Some (free, s) }
     else Some (free, s) }"

definition rt_free_box :: "ptr \<Rightarrow> ptr \<Rightarrow> kst \<Rightarrow> (u32 \<times> kst) option" where
  "rt_free_box box_mem box s = do {
     chk box_mem;
     if box < box_mem \<or> box \<ge> mem s (box_mem + 4) then Some (1, s)
     else do {
       chk box;
       let s = set_mem box (mem s box_mem) s;
       Some (0, set_mem box_mem box s) } }"

section \<open>The free list\<close>

text \<open>
  \<open>boxrep b B s F\<close>: the box at \<open>b\<close> has the blocks \<open>B\<close>, between its header and its end, and
  \<open>F\<close> are the free ones.
\<close>

definition boxrep :: "ptr \<Rightarrow> ptr set \<Rightarrow> kst \<Rightarrow> ptr list \<Rightarrow> bool" where
  "boxrep b B s F \<longleftrightarrow> b \<noteq> NULL \<and> set F \<subseteq> B \<and> chain (mem s) (mem s b) F \<and>
     (\<forall>x\<in>B. x \<noteq> NULL \<and> x \<notin> {b, b + 4, b + 8} \<and> b \<le> x \<and> x < mem s (b + 4))"

lemma boxrep_alloc_empty: "boxrep b B s [] \<Longrightarrow> rt_alloc_box b s = Some (NULL, s)"
  by (simp add: boxrep_def rt_alloc_box_def)

lemma boxrep_alloc:
  assumes "boxrep b B s (x # F)"
  shows "rt_alloc_box b s = Some (x, set_mem b (mem s x) s)" and "boxrep b B (set_mem b (mem s x) s) F"
proof -
  have "mem s b = x" "x \<noteq> NULL" "chain (mem s) (mem s x) F" "b \<noteq> NULL" "x \<noteq> b" "b \<notin> set F"
    using assms by (auto simp: boxrep_def)
  then show "rt_alloc_box b s = Some (x, set_mem b (mem s x) s)"
    "boxrep b B (set_mem b (mem s x) s) F"
    using assms by (auto simp: boxrep_def rt_alloc_box_def heap_simps)
qed

lemma boxrep_free:
  assumes "boxrep b B s F" and "x \<in> B" "x \<notin> set F"
  shows "rt_free_box b x s = Some (0, set_mem b x (set_mem x (mem s b) s))"
    and "boxrep b B (set_mem b x (set_mem x (mem s b) s)) (x # F)"
proof -
  have x: "x \<noteq> NULL" "x \<noteq> b" "x \<noteq> b + 4" "b \<le> x" "x < mem s (b + 4)" "b \<noteq> NULL" "b \<notin> set F"
    using assms by (auto simp: boxrep_def)
  have ch: "chain ((mem s)(x := mem s b, b := x)) (mem s b) F"
    using assms x by (simp add: boxrep_def heap_simps)
  show "rt_free_box b x s = Some (0, set_mem b x (set_mem x (mem s b) s))"
    using x by (simp add: rt_free_box_def not_less not_le)
  show "boxrep b B (set_mem b x (set_mem x (mem s b) s)) (x # F)"
    using assms x ch by (auto simp: boxrep_def comp_def)
qed

text \<open>A memory box is a block pool.\<close>

interpretation box: block_pool B "boxrep b B"
  "\<lambda>s. do { (p, s) \<leftarrow> rt_alloc_box b s; Some (if p = NULL then None else Some p, s) }"
  "\<lambda>x s. do { (r, s) \<leftarrow> rt_free_box b x s; if r = 0 then Some s else None }" for b B
proof
  fix s F
  assume "boxrep b B s F"
  then show "distinct F \<and> set F \<subseteq> B" using chain_distinct by (auto simp: boxrep_def)
next
  fix s
  assume "boxrep b B s []"
  then show "\<exists>s'. (do { (p, s) \<leftarrow> rt_alloc_box b s; Some (if p = NULL then None else Some p, s) }) =
      Some (None, s') \<and> boxrep b B s' []"
    by (simp add: boxrep_alloc_empty)
next
  fix s x F
  assume a: "boxrep b B s (x # F)"
  then have "x \<noteq> NULL" by (auto simp: boxrep_def)
  then show "\<exists>s'. (do { (p, s) \<leftarrow> rt_alloc_box b s; Some (if p = NULL then None else Some p, s) }) =
      Some (Some x, s') \<and> boxrep b B s' F"
    using boxrep_alloc [OF a] by simp
next
  fix s x F
  assume "boxrep b B s F" "x \<in> B" "x \<notin> set F"
  from boxrep_free [OF this]
  show "\<exists>s'. (do { (r, s) \<leftarrow> rt_free_box b x s; if r = 0 then Some s else None }) = Some s' \<and>
      boxrep b B s' (x # F)"
    by simp
qed

section \<open>Initialisation\<close>

lemma unat_offset:
  fixes a b :: u32
  assumes "unat a + i * unat b < 4294967296"
  shows "unat (a + of_nat i * b) = unat a + i * unat b"
proof -
  have "a + of_nat i * b = of_nat (unat a + i * unat b)" by simp
  then show ?thesis using unat_of_nat_u32 [OF assms] by simp
qed

text \<open>The addresses of \<open>k\<close> consecutive blocks.\<close>

definition box_blocks :: "u32 \<Rightarrow> u32 \<Rightarrow> nat \<Rightarrow> u32 list" where
  "box_blocks blk bs k = map (\<lambda>i. blk + of_nat i * bs) [0..<k]"

lemma box_blocks_Suc: "box_blocks blk bs (Suc k) = blk # box_blocks (blk + bs) bs k"
proof -
  have "[0..<Suc k] = 0 # map Suc [0..<k]" by (simp add: upt_conv_Cons map_Suc_upt)
  then show ?thesis by (simp add: box_blocks_def algebra_simps)
qed

lemma box_blocks_range:
  assumes "unat blk + k * unat bs < 4294967296" and "x \<in> set (box_blocks blk bs k)"
  shows "\<exists>i<k. unat x = unat blk + i * unat bs"
proof -
  obtain i where i: "i < k" "x = blk + of_nat i * bs" using assms(2) by (auto simp: box_blocks_def)
  have "i * unat bs \<le> k * unat bs" using i(1) by simp
  then have "unat blk + i * unat bs < 4294967296" using assms(1) by linarith
  then have "unat x = unat blk + i * unat bs" using unat_offset [of blk i bs] i(2) by simp
  with i(1) show ?thesis by blast
qed

text \<open>
  The linking loop ends after the last block that fits, and leaves exactly the blocks in
  the list, in ascending order. \<open>k\<close> is the number of blocks that fit.
\<close>

lemma init_box_loop_spec:
  assumes "0 < bs" and "unat blk + k * unat bs \<le> unat en" and "unat en < unat blk + Suc k * unat bs"
    and "unat en + unat bs < 4294967296" and "blk \<noteq> 0"
  shows "\<exists>M. init_box_loop blk en bs s = Some (s\<lparr>mem := M\<rparr>) \<and>
    chain M blk (box_blocks blk bs (Suc k)) \<and>
    (\<forall>a. a \<notin> set (box_blocks blk bs (Suc k)) \<longrightarrow> M a = mem s a)"
  using assms(2,3,5)
proof (induction k arbitrary: blk s)
  case 0
  have n: "unat (blk + bs) = unat blk + unat bs"
    using 0 assms(4) unat_offset [of blk 1 bs] by simp
  have e: "s\<lparr>mem := (mem s)(blk := 0)\<rparr> = set_mem blk 0 s" by (cases s) simp
  have "init_box_loop blk en bs s = Some (s\<lparr>mem := (mem s)(blk := 0)\<rparr>)"
    unfolding e using 0 n by (subst init_box_loop.simps) (simp add: word_less_nat_alt)
  moreover have "box_blocks blk bs (Suc 0) = [blk]" by (simp add: box_blocks_def)
  ultimately show ?case using 0 by (intro exI [of _ "(mem s)(blk := 0)"]) (simp add: fun_upd_def)
next
  case (Suc k)
  have n: "unat (blk + bs) = unat blk + unat bs"
    using Suc.prems assms(4) unat_offset [of blk 1 bs] by simp
  have bs: "0 < unat bs" using assms(1) by (simp add: word_less_nat_alt)
  have le: "\<not> blk + bs > en" using Suc.prems n by (simp add: word_less_nat_alt not_less)
  have nz: "blk + bs \<noteq> 0" using n bs by (metis add_is_0 less_irrefl unat_0)
  define s1 where "s1 = set_mem blk (blk + bs) s"
  have p: "unat (blk + bs) + k * unat bs \<le> unat en" "unat en < unat (blk + bs) + Suc k * unat bs"
    using Suc.prems n by simp_all
  from Suc.IH [OF p nz, of s1] obtain M where
    M: "init_box_loop (blk + bs) en bs s1 = Some (s1\<lparr>mem := M\<rparr>)"
    "chain M (blk + bs) (box_blocks (blk + bs) bs (Suc k))"
    "\<forall>a. a \<notin> set (box_blocks (blk + bs) bs (Suc k)) \<longrightarrow> M a = mem s1 a" by blast
  have bnd: "unat (blk + bs) + Suc k * unat bs < 4294967296" using Suc.prems assms(4) n by simp
  have "blk \<notin> set (box_blocks (blk + bs) bs (Suc k))"
    using box_blocks_range [OF bnd, of blk] n bs by auto
  then have "M blk = blk + bs" using M(3) by (simp add: s1_def)
  moreover have "init_box_loop blk en bs s = Some (s\<lparr>mem := M\<rparr>)"
    using le M(1) by (subst init_box_loop.simps) (simp add: Let_def s1_def)
  ultimately show ?case
    using M(2,3) Suc.prems(3) unfolding box_blocks_Suc [of blk bs "Suc k"]
    by (intro exI [of _ M]) (simp add: s1_def)
qed

text \<open>The number of blocks of a box, and its blocks.\<close>

lemma init_box_spec:
  fixes b size bs :: u32
  assumes b: "b \<noteq> 0" "unat b + unat size < 4294967296"
    and bs: "bs AND BOX_ALIGN_8 = 0" "(bs + 3) AND NOT 3 = bs" "0 < unat bs"
    and fit: "unat bs + 12 \<le> unat size"
    and n: "n = (unat size - 12) div unat bs"
  shows "\<exists>s'. init_box b size bs s = Some (0, s') \<and>
    boxrep b (set (box_blocks (b + 12) bs n)) s' (box_blocks (b + 12) bs n) \<and>
    mem s' (b + 8) = bs \<and> 0 < n"
proof -
  let ?bs = "unat bs" and ?sz = "unat size"
  have npos: "0 < n" using fit bs(3) unfolding n by (simp add: div_greater_zero_iff)
  then obtain k where k: "n = Suc k" by (cases n) auto
  have nb: "n * ?bs \<le> ?sz - 12" "?sz - 12 < Suc n * ?bs"
    unfolding n using bs(3) by (simp_all add: dividend_less_times_div mult.commute)
  have small: "unat (bs + 12) = ?bs + 12"
    using unat_offset [of bs 1 12] fit unsigned_less [of size, where 'a = nat] by simp
  have blk: "unat (b + 12) = unat b + 12" using unat_offset [of b 1 12] b fit by simp
  have b4: "unat (b + 4) = unat b + 4" using unat_offset [of b 1 4] b fit by simp
  have b8: "unat (b + 8) = unat b + 8" using unat_offset [of b 1 8] b fit by simp
  have en: "unat (b + size) = unat b + ?sz" using unat_offset [of b 1 size] b(2) by simp
  have en': "unat (b + size - bs) = unat b + ?sz - ?bs"
    using en fit by (simp add: unat_sub word_le_nat_alt)
  define s1 where "s1 = set_mem (b + 8) bs (set_mem (b + 4) (b + size) (set_mem b (b + 12) s))"
  have p1: "unat (b + 12) + k * ?bs \<le> unat (b + size - bs)"
    using nb(1) en' blk k fit by simp
  have p2: "unat (b + size - bs) < unat (b + 12) + Suc k * ?bs"
    using nb(2) en' blk k fit by simp
  have p3: "unat (b + size - bs) + ?bs < 4294967296" using en' fit b(2) by simp
  have p4: "b + 12 \<noteq> 0" using blk by (metis add_is_0 unat_0 zero_neq_numeral)
  have "0 < bs" using bs(3) by (simp add: word_less_nat_alt)
  from init_box_loop_spec [OF this p1 p2 p3 p4, of s1] obtain M where
    M: "init_box_loop (b + 12) (b + size - bs) bs s1 = Some (s1\<lparr>mem := M\<rparr>)"
    "chain M (b + 12) (box_blocks (b + 12) bs n)"
    "\<forall>a. a \<notin> set (box_blocks (b + 12) bs n) \<longrightarrow> M a = mem s1 a" unfolding k by blast
  have bnd: "unat (b + 12) + n * ?bs < 4294967296" using nb(1) blk b(2) fit by simp
  have rng: "unat b + 12 \<le> unat x \<and> unat x < unat b + ?sz" if x: "x \<in> set (box_blocks (b + 12) bs n)" for x
  proof -
    obtain i where i: "i < n" "unat x = unat (b + 12) + i * ?bs" using box_blocks_range [OF bnd x] by blast
    have "Suc i * ?bs \<le> n * ?bs" using i(1) by (intro mult_le_mono1) simp
    then show ?thesis using i(2) nb(1) blk bs(3) fit by simp
  qed
  have hdr: "b \<notin> set (box_blocks (b + 12) bs n)" "b + 4 \<notin> set (box_blocks (b + 12) bs n)"
    "b + 8 \<notin> set (box_blocks (b + 12) bs n)" using rng b4 b8 by fastforce+
  have mm: "M b = b + 12" "M (b + 4) = b + size" "M (b + 8) = bs"
    using M(3) hdr by (simp_all add: s1_def)
  have "boxrep b (set (box_blocks (b + 12) bs n)) (s1\<lparr>mem := M\<rparr>) (box_blocks (b + 12) bs n)"
    unfolding boxrep_def
  proof (intro conjI ballI)
    fix x assume x: "x \<in> set (box_blocks (b + 12) bs n)"
    then show "x \<noteq> NULL" using rng [OF x] by auto
    show "x \<notin> {b, b + 4, b + 8}" using x hdr by blast
    show "b \<le> x" using rng [OF x] by (simp add: word_le_nat_alt)
    show "x < mem (s1\<lparr>mem := M\<rparr>) (b + 4)" using rng [OF x] en by (simp add: word_less_nat_alt mm)
  qed (use b M(2) mm in auto)
  moreover have "init_box b size bs s = Some (0, s1\<lparr>mem := M\<rparr>)"
  proof -
    have "\<not> bs + 12 > size" using small fit by (simp add: word_less_nat_alt not_less)
    then show ?thesis using b(1) bs M(1) by (auto simp: init_box_def Let_def s1_def comp_assoc)
  qed
  ultimately show ?thesis using mm npos by auto
qed

section \<open>Clearing a block\<close>

lemma calloc_loop_spec:
  assumes "4 * k < 4294967296"
  shows "\<exists>M. calloc_loop (of_nat (4 * k)) p s = Some (s\<lparr>mem := M\<rparr>) \<and>
    (\<forall>a. M a = (if \<exists>j<k. a = p + of_nat (4 * j) then 0 else mem s a))"
  using assms
proof (induction k arbitrary: p s)
  case 0
  then show ?case by (intro exI [of _ "mem s"]) (simp add: calloc_loop.simps)
next
  case (Suc k)
  have nz: "(of_nat (4 * Suc k) :: u32) \<noteq> 0"
    using unat_of_nat_u32 [OF Suc.prems] by (metis mult_eq_0_iff nat.distinct(1) unat_0 zero_neq_numeral)
  have eq: "(of_nat (4 * Suc k) :: u32) - 4 = of_nat (4 * k)" by (simp add: algebra_simps)
  from Suc.IH [of "p + 4" "set_mem p 0 s"] Suc.prems obtain M where
    M: "calloc_loop (of_nat (4 * k)) (p + 4) (set_mem p 0 s) = Some ((set_mem p 0 s)\<lparr>mem := M\<rparr>)"
    "\<forall>a. M a = (if \<exists>j<k. a = p + 4 + of_nat (4 * j) then 0 else mem (set_mem p 0 s) a)" by auto
  have run: "calloc_loop (of_nat (4 * Suc k)) p s = Some (s\<lparr>mem := M\<rparr>)"
    using nz M(1) by (subst calloc_loop.simps) (simp only: eq if_True not_False_eq_True, simp)
  define P where "P a \<longleftrightarrow> (\<exists>j<k. a = p + 4 + of_nat (4 * j))" for a
  have "(\<exists>j<Suc k. a = p + of_nat (4 * j)) \<longleftrightarrow> a = p \<or> P a" for a
    by (auto simp: P_def less_Suc_eq_0_disj algebra_simps)
  moreover have "M a = (if a = p \<or> P a then 0 else mem s a)" for a
    using M(2) [folded P_def] by simp
  ultimately have "\<forall>a. M a = (if \<exists>j<Suc k. a = p + of_nat (4 * j) then 0 else mem s a)" by simp
  with run show ?case by blast
qed

section \<open>Promises of the memory boxes\<close>

text \<open>
  \<open>_init_box\<close> returns 1 and touches nothing when not even one block fits; otherwise it
  terminates with a free list of exactly the \<open>(size - 12) div blk_size\<close> blocks that fit, all
  inside the box and behind its header. (Word-aligned blocks, a box that does not wrap
  around the address space.)
\<close>

theorem init_box_makes_pool:
  fixes b size bs :: u32
  assumes "b \<noteq> 0" "unat b + unat size < 4294967296"
    and "bs AND BOX_ALIGN_8 = 0" "(bs + 3) AND NOT 3 = bs" "0 < unat bs" "unat bs < 4294967284"
  shows "if unat size < unat bs + 12 then init_box b size bs s = Some (1, s)
    else \<exists>s'. init_box b size bs s = Some (0, s') \<and>
      (let n = (unat size - 12) div unat bs; F = box_blocks (b + 12) bs n
       in boxrep b (set F) s' F \<and> 0 < n \<and> mem s' (b + 8) = bs)"
proof (cases "unat size < unat bs + 12")
  case True
  have "unat (bs + 12) = unat bs + 12" using unat_offset [of bs 1 12] assms(6) by simp
  then have "bs + 12 > size" using True by (simp add: word_less_nat_alt)
  then show ?thesis using True assms(3-5) by (auto simp: init_box_def)
next
  case False
  then show ?thesis using init_box_spec [OF assms(1-5) _ refl] by (auto simp: Let_def)
qed

theorem init_box_makes_pool_witness:
  "\<exists>s'. init_box 0x1000 40 8 undefined = Some (0, s') \<and>
    boxrep 0x1000 {0x100C, 0x1014, 0x101C} s' [0x100C, 0x1014, 0x101C]"
proof -
  have "box_blocks 0x100C 8 3 = [0x100C, 0x1014, 0x101C]" by (simp add: box_blocks_def numeral_3_eq_3)
  then show ?thesis using init_box_makes_pool [of "0x1000" 40 8 undefined] by auto
qed

text \<open>
  \<open>n\<close> calls of \<open>rt_alloc_box\<close> hand out the first \<open>n\<close> free blocks, each once, and
  \<open>NULL\<close> when no block is left; the blocks that were not handed out stay free.
\<close>

theorem rt_alloc_box_hands_out_each_once:
  assumes "boxrep b B s F"
  shows "\<exists>s'. box.alloc_n b n s =
      Some (map Some (take n F) @ replicate (n - length F) None, s') \<and> boxrep b B s' (drop n F) \<and>
    distinct (take n F) \<and> set (take n F) \<inter> set (drop n F) = {}"
proof -
  have "distinct (take n F @ drop n F)" using box.rep_blocks [OF assms] by simp
  then have "distinct (take n F)" "set (take n F) \<inter> set (drop n F) = {}" by (simp_all only: distinct_append)
  with box.alloc_n_spec [OF assms, of n] show ?thesis by blast
qed

theorem rt_alloc_box_hands_out_each_once_witness:
  "\<exists>s s' :: kst. box.alloc_n 0x1000 2 s = Some ([Some 0x100C, None], s') \<and> boxrep 0x1000 {0x100C} s' []"
proof -
  define s :: kst where
    "s = undefined\<lparr>mem := (\<lambda>_. 7)(0x1000 := 0x100C, 0x1004 := 0x1014, 0x100C := 0)\<rparr>"
  have "boxrep 0x1000 {0x100C} s [0x100C]" by (simp add: boxrep_def s_def)
  from rt_alloc_box_hands_out_each_once [OF this, of 2] show ?thesis by auto
qed

text \<open>
  \<open>rt_free_box\<close> refuses an address outside of the box; a block that is in use is free
  again after it, it is the next block that is handed out, and nothing else changes.
\<close>

theorem rt_free_box_returns_block:
  assumes "boxrep b B s F"
  shows "if x < b \<or> x \<ge> mem s (b + 4) then rt_free_box b x s = Some (1, s)
    else x \<in> B - set F \<longrightarrow> (\<exists>s1. rt_free_box b x s = Some (0, s1) \<and> boxrep b B s1 (x # F) \<and>
      (\<exists>s2. rt_alloc_box b s1 = Some (x, s2) \<and> boxrep b B s2 F \<and>
        (\<forall>a. a \<noteq> x \<longrightarrow> a \<noteq> b \<longrightarrow> mem s2 a = mem s a)))"
proof (cases "x < b \<or> x \<ge> mem s (b + 4)")
  case True
  then show ?thesis using assms by (auto simp: rt_free_box_def boxrep_def)
next
  case False
  define s1 where "s1 = set_mem b x (set_mem x (mem s b) s)"
  have "\<exists>s2. rt_alloc_box b s1 = Some (x, s2) \<and> boxrep b B s2 F \<and>
        (\<forall>a. a \<noteq> x \<longrightarrow> a \<noteq> b \<longrightarrow> mem s2 a = mem s a)" if "boxrep b B s1 (x # F)"
    using boxrep_alloc [OF that] by (intro exI [of _ "set_mem b (mem s1 x) s1"]) (simp add: s1_def)
  then show ?thesis using False boxrep_free [OF assms, of x] unfolding s1_def [symmetric] by auto
qed

theorem rt_free_box_returns_block_witness:
  "\<exists>s :: kst. boxrep 0x1000 {0x100C} s [] \<and>
    (\<exists>s1. rt_free_box 0x1000 0x100C s = Some (0, s1) \<and> boxrep 0x1000 {0x100C} s1 [0x100C])"
proof -
  define s :: kst where "s = undefined\<lparr>mem := (\<lambda>_. 0)(0x1004 := 0x2000)\<rparr>"
  have "boxrep 0x1000 {0x100C} s []" by (simp add: boxrep_def s_def)
  from rt_free_box_returns_block [OF this, of "0x100C"] this show ?thesis by (auto simp: s_def)
qed

text \<open>
  \<open>_calloc_box\<close> hands out a block like \<open>rt_alloc_box\<close> and clears its words, all of them
  and no other word of the memory besides the head of the free list.
\<close>

theorem calloc_box_clears_block:
  assumes "boxrep b B s (x # F)" and "mem s (b + 8) = of_nat (4 * k)" "4 * k < 4294967296"
  shows "\<exists>s'. calloc_box b s = Some (x, s') \<and>
    (\<forall>j<k. mem s' (x + of_nat (4 * j)) = 0) \<and>
    (\<forall>a. a \<noteq> b \<longrightarrow> (\<forall>j<k. a \<noteq> x + of_nat (4 * j)) \<longrightarrow> mem s' a = mem s a)"
proof -
  define u where "u = set_mem b (mem s x) s"
  have "b + 8 \<noteq> b" by simp
  then have sz: "mem u (b + 8) = of_nat (4 * k)" using assms(2) by (simp add: u_def)
  obtain M where M: "calloc_loop (of_nat (4 * k)) x u = Some (u\<lparr>mem := M\<rparr>)"
    "\<forall>a. M a = (if \<exists>j<k. a = x + of_nat (4 * j) then 0 else mem u a)"
    using calloc_loop_spec [OF assms(3)] by blast
  have "x \<noteq> NULL" using assms(1) by (auto simp: boxrep_def)
  then have "calloc_box b s = Some (x, u\<lparr>mem := M\<rparr>)"
    using boxrep_alloc(1) [OF assms(1)] sz M(1) by (simp add: calloc_box_def u_def)
  then show ?thesis using M(2) by (intro exI [of _ "u\<lparr>mem := M\<rparr>"]) (auto simp: u_def)
qed

theorem calloc_box_clears_block_witness:
  "\<exists>s s' :: kst. calloc_box 0x1000 s = Some (0x100C, s') \<and> mem s 0x1010 = 7 \<and>
    mem s' 0x100C = 0 \<and> mem s' 0x1010 = 0"
proof -
  define s :: kst where
    "s = undefined\<lparr>mem := (\<lambda>_. 7)(0x1000 := 0x100C, 0x1004 := 0x1014, 0x1008 := 8, 0x100C := 0)\<rparr>"
  have "boxrep 0x1000 {0x100C} s [0x100C]" by (simp add: boxrep_def s_def)
  from calloc_box_clears_block [OF this, of 2] obtain s' where
    c: "calloc_box 0x1000 s = Some (0x100C, s')" "\<forall>j<2. mem s' (0x100C + of_nat (4 * j)) = 0"
    by (auto simp: s_def)
  have "mem s' 0x100C = 0" "mem s' 0x1010 = 0"
    using c(2) [rule_format, of 0] c(2) [rule_format, of 1] by simp_all
  with c(1) show ?thesis by (intro exI [of _ s] exI [of _ s']) (simp add: s_def)
qed

end
