(* ===== verification/Ring.thy ===== *)
theory Ring
  imports Prelude
begin

text \<open>
  The interface of a bounded first-in first-out buffer, and the arithmetic of the ring
  buffers that implement it in the kernel: a read index, a write index that runs ahead of
  it by the number of entries, both wrapping to zero at the size of the buffer.
\<close>

section \<open>The interface\<close>

locale fifo =
  fixes cap :: nat
    and rep :: "'s \<Rightarrow> 'a list \<Rightarrow> bool"
    and put :: "'a \<Rightarrow> 's \<Rightarrow> 's"
    and get :: "'s \<Rightarrow> 'a \<times> 's"
  assumes rep_cap: "rep s xs \<Longrightarrow> length xs \<le> cap"
    and put_rep: "rep s xs \<Longrightarrow> length xs < cap \<Longrightarrow> rep (put x s) (xs @ [x])"
    and get_rep: "rep s (x # xs) \<Longrightarrow> fst (get s) = x \<and> rep (snd (get s)) xs"
begin

fun get_n :: "nat \<Rightarrow> 's \<Rightarrow> 'a list \<times> 's" where
  "get_n 0 s = ([], s)"
| "get_n (Suc n) s = (let (x, s) = get s; (xs, s) = get_n n s in (x # xs, s))"

lemma put_all: "rep s xs \<Longrightarrow> length xs + length ys \<le> cap \<Longrightarrow> rep (fold put ys s) (xs @ ys)"
proof (induction ys arbitrary: s xs)
  case (Cons y ys)
  then have "rep (put y s) (xs @ [y])" by (intro put_rep) simp_all
  from Cons.IH [OF this] Cons.prems(2) show ?case by simp
qed simp

lemma get_all:
  "rep s xs \<Longrightarrow> n \<le> length xs \<Longrightarrow> fst (get_n n s) = take n xs \<and> rep (snd (get_n n s)) (drop n xs)"
proof (induction n arbitrary: s xs)
  case (Suc n)
  then obtain y ys where xs: "xs = y # ys" by (cases xs) auto
  with Suc.prems get_rep have g: "fst (get s) = y" "rep (snd (get s)) ys" by auto
  from Suc.IH [OF g(2)] Suc.prems(2) xs g(1) show ?case by (simp add: split_beta Let_def)
qed simp

text \<open>What is put in comes out, in order, behind what was there before.\<close>

lemma fifo_order:
  assumes "rep s xs" and "length xs + length ys \<le> cap"
  shows "fst (get_n (length xs + length ys) (fold put ys s)) = xs @ ys"
  using get_all [OF put_all [OF assms], of "length xs + length ys"] by simp

end

section \<open>Ring arithmetic\<close>

text \<open>The index after \<open>i\<close>: \<open>if (++i == n) i = 0\<close>.\<close>

definition ring_next :: "nat \<Rightarrow> nat \<Rightarrow> nat" where
  "ring_next n i = (if Suc i = n then 0 else Suc i)"

lemma ring_next_mod: "i < n \<Longrightarrow> ring_next n i = Suc i mod n"
  by (auto simp: ring_next_def)

text \<open>
  \<open>ring n buf rd wr xs\<close>: the entries \<open>xs\<close> of a ring of \<open>n\<close> entries with read index \<open>rd\<close> and
  write index \<open>wr\<close>.
\<close>

definition ring :: "nat \<Rightarrow> (nat \<Rightarrow> 'a) \<Rightarrow> nat \<Rightarrow> nat \<Rightarrow> 'a list \<Rightarrow> bool" where
  "ring n buf rd wr xs \<longleftrightarrow> 0 < n \<and> rd < n \<and> length xs \<le> n \<and> wr = (rd + length xs) mod n \<and>
     (\<forall>i<length xs. buf ((rd + i) mod n) = xs ! i)"

lemma ring_wr_less: "ring n buf rd wr xs \<Longrightarrow> wr < n"
  by (simp add: ring_def)

lemma ring_put:
  assumes r: "ring n buf rd wr xs" and "length xs < n"
    and new: "buf' wr = x" "\<And>j. j < n \<Longrightarrow> j \<noteq> wr \<Longrightarrow> buf' j = buf j"
  shows "ring n buf' rd (ring_next n wr) (xs @ [x])"
proof -
  have n: "0 < n" "rd < n" "wr = (rd + length xs) mod n" "wr < n"
    using r by (auto simp: ring_def)
  have "buf' ((rd + i) mod n) = (xs @ [x]) ! i" if "i < Suc (length xs)" for i
  proof (cases "i = length xs")
    case True
    then show ?thesis using n(3) new(1) by simp
  next
    case False
    with that have i: "i < length xs" by simp
    have "(rd + i) mod n \<noteq> (rd + length xs) mod n"
    proof
      assume "(rd + i) mod n = (rd + length xs) mod n"
      then have "n dvd (length xs - i)"
        using i mod_eq_dvd_iff_nat [of "rd + i" "rd + length xs" n] by simp
      moreover have "0 < length xs - i" "length xs - i < n" using i assms(2) by auto
      ultimately show False using nat_dvd_not_less by blast
    qed
    then have "buf' ((rd + i) mod n) = buf ((rd + i) mod n)" using new(2) n by simp
    then show ?thesis using r i by (simp add: ring_def nth_append)
  qed
  moreover have "ring_next n wr = (rd + Suc (length xs)) mod n"
    using n ring_next_mod [OF n(4)] by (simp add: mod_Suc_eq)
  ultimately show ?thesis using n assms(2) by (simp add: ring_def)
qed

lemma ring_get:
  assumes r: "ring n buf rd wr (x # xs)"
  shows "buf rd = x" and "ring n buf (ring_next n rd) wr xs"
proof -
  have n: "0 < n" "rd < n" "wr = (rd + Suc (length xs)) mod n" "Suc (length xs) \<le> n"
    "\<And>i. i < Suc (length xs) \<Longrightarrow> buf ((rd + i) mod n) = (x # xs) ! i"
    using r by (auto simp: ring_def)
  show "buf rd = x" using n(5) [of 0] n(2) by simp
  have nx: "ring_next n rd = Suc rd mod n" by (rule ring_next_mod [OF n(2)])
  have "buf ((Suc rd mod n + i) mod n) = xs ! i" if "i < length xs" for i
    using n(5) [of "Suc i"] that by (simp add: mod_add_left_eq)
  moreover have "wr = (Suc rd mod n + length xs) mod n" using n(3) by (simp add: mod_add_left_eq)
  ultimately show "ring n buf (ring_next n rd) wr xs" using n nx by (simp add: ring_def)
qed

end
