(* ===== verification/RTX_Mailbox.thy ===== *)
theory RTX_Mailbox
  imports RTX_Semaphore RTX_MemBox Ring
begin

text \<open>
  Mailboxes (\<open>rt_Mailbox.c\<close>): a ring of message words with one waiting list. The field
  \<open>state\<close> tells what the tasks of the list wait for: 1 to receive, 2 to send, 3 to
  allocate a mail block (set by the CMSIS layer).
\<close>

section \<open>Mailbox operations\<close>

text \<open>\<open>sizeof (struct OS_MCB)\<close> on the target.\<close>

abbreviation (input) sizeof_OS_MCB :: u32 where "sizeof_OS_MCB \<equiv> 20"

definition rt_mbx_init :: "ptr \<Rightarrow> u16 \<Rightarrow> kst \<Rightarrow> kst option" where
  "rt_mbx_init mailbox mbx_size s = do {
     chk mailbox;
     let s = set_cb_type mailbox MCB s;
     let s = set_mcb_state mailbox 0 s;
     let s = set_mcb_isr_st mailbox 0 s;
     let s = set_p_lnk mailbox NULL s;
     let s = set_mcb_first mailbox 0 s;
     let s = set_mcb_last mailbox 0 s;
     let s = set_mcb_count mailbox 0 s;
     Some (set_mcb_size mailbox (ucast ((ucast mbx_size + 4 - sizeof_OS_MCB) div 4)) s) }"

text \<open>The fragment that stores a message: \<open>msg[first] = p_msg\<close> and \<open>++first\<close> with wrap-around.\<close>

definition mbx_store :: "ptr \<Rightarrow> u32 \<Rightarrow> kst \<Rightarrow> kst" where
  "mbx_store p_MCB p_msg s =
     (let s = set_mcb_msg p_MCB (mcb_first s p_MCB) p_msg s;
          s = set_mcb_first p_MCB (mcb_first s p_MCB + 1) s
      in if mcb_first s p_MCB = mcb_size s p_MCB then set_mcb_first p_MCB 0 s else s)"

definition mbx_inc_count :: "ptr \<Rightarrow> kst \<Rightarrow> kst" where
  "mbx_inc_count p_MCB s = set_mcb_count p_MCB (mcb_count s p_MCB + 1) s"

definition mbx_dec_count :: "ptr \<Rightarrow> kst \<Rightarrow> kst" where
  "mbx_dec_count p_MCB s = set_mcb_count p_MCB (mcb_count s p_MCB - 1) s"

text \<open>
  The fragment that stores a further message: \<open>msg[first] = p_msg\<close>, \<open>rt_inc (&count)\<close> and
  \<open>++first\<close> with wrap-around.
\<close>

definition mbx_put :: "ptr \<Rightarrow> u32 \<Rightarrow> kst \<Rightarrow> kst" where
  "mbx_put p_MCB p_msg s =
     (let s = set_mcb_msg p_MCB (mcb_first s p_MCB) p_msg s;
          s = mbx_inc_count p_MCB s;
          s = set_mcb_first p_MCB (mcb_first s p_MCB + 1) s
      in if mcb_first s p_MCB = mcb_size s p_MCB then set_mcb_first p_MCB 0 s else s)"

text \<open>The fragment that advances the read index: \<open>++last\<close> with wrap-around.\<close>

definition mbx_next_last :: "ptr \<Rightarrow> kst \<Rightarrow> kst" where
  "mbx_next_last p_MCB s =
     (let s = set_mcb_last p_MCB (mcb_last s p_MCB + 1) s
      in if mcb_last s p_MCB = mcb_size s p_MCB then set_mcb_last p_MCB 0 s else s)"

definition rt_mbx_send :: "ptr \<Rightarrow> u32 \<Rightarrow> u16 \<Rightarrow> kst \<Rightarrow> (u32 \<times> kst) option" where
  "rt_mbx_send mailbox p_msg timeout s = do {
     chk mailbox;
     if p_lnk s mailbox \<noteq> NULL \<and> mcb_state s mailbox = 1 then do {
       (p_TCB, s) \<leftarrow> rt_get_first mailbox s;
       s \<leftarrow> rt_ret_val2 p_TCB 0x10 p_msg s;
       s \<leftarrow> rt_rmv_dly p_TCB s;
       s \<leftarrow> rt_dispatch p_TCB s;
       Some (OS_R_OK, s) }
     else if mcb_count s mailbox = mcb_size s mailbox then
       (if timeout = 0 then Some (OS_R_TMO, s)
        else do {
          s \<leftarrow> (if p_lnk s mailbox \<noteq> NULL then rt_put_prio mailbox (tsk_run s) s
                 else do {
                   s \<leftarrow> link_run mailbox s;
                   Some (set_mcb_state mailbox 2 s) });
          chk (tsk_run s);
          let s = set_tmsg (tsk_run s) p_msg s;
          s \<leftarrow> rt_block timeout WAIT_MBX s;
          Some (OS_R_TMO, s) })
     else Some (OS_R_OK, mbx_put mailbox p_msg s) }"

text \<open>The second component of the result is the value stored through \<open>message\<close>, if any.\<close>

definition rt_mbx_wait :: "ptr \<Rightarrow> u16 \<Rightarrow> kst \<Rightarrow> (u32 \<times> u32 option \<times> kst) option" where
  "rt_mbx_wait mailbox timeout s = do {
     chk mailbox;
     if mcb_count s mailbox \<noteq> 0 then do {
       let message = mcb_msg s mailbox (mcb_last s mailbox);
       let s = mbx_next_last mailbox s;
       if p_lnk s mailbox \<noteq> NULL \<and> mcb_state s mailbox = 2 then do {
         (p_TCB, s) \<leftarrow> rt_get_first mailbox s;
         s \<leftarrow> rt_ret_val p_TCB 0 s;
         let s = mbx_store mailbox (tmsg s p_TCB) s;
         s \<leftarrow> rt_rmv_dly p_TCB s;
         s \<leftarrow> rt_dispatch p_TCB s;
         Some (OS_R_OK, Some message, s) }
       else Some (OS_R_OK, Some message, mbx_dec_count mailbox s) }
     else if timeout = 0 then Some (OS_R_TMO, None, s)
     else do {
       s \<leftarrow> (if p_lnk s mailbox \<noteq> NULL then rt_put_prio mailbox (tsk_run s) s
              else do {
                s \<leftarrow> link_run mailbox s;
                Some (set_mcb_state mailbox 1 s) });
       s \<leftarrow> rt_block timeout WAIT_MBX s;
       Some (OS_R_TMO, None, s) } }"

definition rt_mbx_check :: "ptr \<Rightarrow> kst \<Rightarrow> u32 option" where
  "rt_mbx_check mailbox s = do {
     chk mailbox;
     Some (ucast (mcb_size s mailbox) - ucast (mcb_count s mailbox)) }"

definition isr_mbx_send :: "ptr \<Rightarrow> u32 \<Rightarrow> kst \<Rightarrow> kst option" where
  "isr_mbx_send mailbox p_msg s = do {
     s \<leftarrow> rt_psq_enq mailbox p_msg s;
     Some (rt_psh_req s) }"

definition isr_mbx_receive :: "ptr \<Rightarrow> kst \<Rightarrow> (u32 \<times> u32 option \<times> kst) option" where
  "isr_mbx_receive mailbox s = do {
     chk mailbox;
     if mcb_count s mailbox \<noteq> 0 then do {
       let message = mcb_msg s mailbox (mcb_last s mailbox);
       s \<leftarrow> (if mcb_state s mailbox = 2 then do {
                s \<leftarrow> rt_psq_enq mailbox 0 s;
                Some (rt_psh_req s) }
              else Some s);
       let s = mbx_dec_count mailbox s;
       Some (OS_R_MBX, Some message, mbx_next_last mailbox s) }
     else Some (OS_R_OK, None, s) }"

definition rt_mbx_psh :: "ptr \<Rightarrow> u32 \<Rightarrow> kst \<Rightarrow> kst option" where
  "rt_mbx_psh p_CB p_msg s = do {
     chk p_CB;
     if p_lnk s p_CB \<noteq> NULL then
       (if mcb_state s p_CB = 3 then do {
          (m, s) \<leftarrow> rt_alloc_box p_msg s;
          if m = NULL then Some s
          else do {
            (p_TCB, s) \<leftarrow> rt_get_first p_CB s;
            s \<leftarrow> rt_ret_val p_TCB m s;
            let s = set_tstate p_TCB READY s;
            s \<leftarrow> rt_rmv_dly p_TCB s;
            rt_put_prio os_rdy p_TCB s } }
        else if mcb_state s p_CB = 2 then do {
          (p_TCB, s) \<leftarrow> rt_get_first p_CB s;
          s \<leftarrow> rt_ret_val p_TCB 0 s;
          let s = mbx_put p_CB (tmsg s p_TCB) s;
          let s = set_tstate p_TCB READY s;
          s \<leftarrow> rt_rmv_dly p_TCB s;
          rt_put_prio os_rdy p_TCB s }
        else if mcb_state s p_CB = 1 then do {
          (p_TCB, s) \<leftarrow> rt_get_first p_CB s;
          s \<leftarrow> rt_ret_val2 p_TCB 0x10 p_msg s;
          let s = set_tstate p_TCB READY s;
          s \<leftarrow> rt_rmv_dly p_TCB s;
          rt_put_prio os_rdy p_TCB s }
        else Some s)
     else if mcb_count s p_CB < mcb_size s p_CB then
       Some (mbx_put p_CB p_msg s)
     else os_error OS_ERR_MBX_OVF s }"
section \<open>The message ring\<close>

text \<open>\<open>mrep m n s xs\<close>: the mailbox \<open>m\<close> has \<open>n\<close> entries and holds the messages \<open>xs\<close>.\<close>

definition mrep :: "ptr \<Rightarrow> nat \<Rightarrow> kst \<Rightarrow> u32 list \<Rightarrow> bool" where
  "mrep m n s xs \<longleftrightarrow> unat (mcb_size s m) = n \<and> unat (mcb_count s m) = length xs \<and>
     ring n (\<lambda>i. mcb_msg s m (of_nat i)) (unat (mcb_last s m)) (unat (mcb_first s m)) xs"

text \<open>The fragment that takes the oldest message: \<open>msg[last]\<close>, \<open>++last\<close>, \<open>rt_dec (&count)\<close>.\<close>

definition mbx_get :: "ptr \<Rightarrow> kst \<Rightarrow> u32 \<times> kst" where
  "mbx_get m s = (mcb_msg s m (mcb_last s m), mbx_dec_count m (mbx_next_last m s))"

lemma unat_add1_u16: "unat (i :: u16) + 1 < 65536 \<Longrightarrow> unat (i + 1) = unat i + 1"
proof -
  assume a: "unat i + 1 < 65536"
  have "i + 1 = of_nat (unat i + 1)" by simp
  then show ?thesis using unat_of_nat_u16 [OF a] by (simp add: add.commute)
qed

lemma of_nat_u16_inj: "j < 65536 \<Longrightarrow> (of_nat j :: u16) = i \<longleftrightarrow> j = unat i"
  by (auto simp: unat_of_nat_u16 word_unat_eq_iff)

lemma ring_next_u16:
  fixes i n :: u16
  assumes "unat i < unat n"
  shows "i + 1 = n \<Longrightarrow> ring_next (unat n) (unat i) = 0"
    and "i + 1 \<noteq> n \<Longrightarrow> ring_next (unat n) (unat i) = unat (i + 1)"
proof -
  have "unat i + 1 < 65536" using assms unat_u16_less [of n] by linarith
  then have s: "unat (i + 1) = unat i + 1" by (rule unat_add1_u16)
  then show "i + 1 = n \<Longrightarrow> ring_next (unat n) (unat i) = 0"
    "i + 1 \<noteq> n \<Longrightarrow> ring_next (unat n) (unat i) = unat (i + 1)"
    by (auto simp: ring_next_def word_unat_eq_iff)
qed

text \<open>What the three fragments do to the ring.\<close>

lemma mbx_put_eq: "mbx_put m x s = mbx_inc_count m (mbx_store m x s)"
  by (simp add: mbx_put_def mbx_store_def mbx_inc_count_def Let_def)

lemma mbx_store_fields [simp]:
  "mcb_last (mbx_store m x s) = mcb_last s" "mcb_size (mbx_store m x s) = mcb_size s"
  "mcb_count (mbx_store m x s) = mcb_count s"
  by (simp_all add: mbx_store_def Let_def)

lemma mbx_store_ring:
  assumes r: "ring n (\<lambda>i. mcb_msg s m (of_nat i)) rd (unat (mcb_first s m)) xs"
    and n: "unat (mcb_size s m) = n" and "length xs < n"
  shows "ring n (\<lambda>i. mcb_msg (mbx_store m x s) m (of_nat i)) rd
    (unat (mcb_first (mbx_store m x s) m)) (xs @ [x])"
proof -
  have w: "unat (mcb_first s m) < unat (mcb_size s m)" using ring_wr_less [OF r] n by simp
  have nb: "n < 65536" using n unat_u16_less [of "mcb_size s m"] by simp
  have f: "unat (mcb_first (mbx_store m x s) m) = ring_next n (unat (mcb_first s m))"
    using ring_next_u16 [OF w] n by (simp add: mbx_store_def Let_def)
  have g: "mcb_msg (mbx_store m x s) m = (mcb_msg s m)(mcb_first s m := x)"
    by (simp add: mbx_store_def Let_def)
  show ?thesis unfolding f g
    by (rule ring_put [OF r assms(3)]) (use nb in \<open>auto simp: of_nat_u16_inj\<close>)
qed

lemma mrep_put:
  assumes "mrep m n s xs" and "length xs < n"
  shows "mrep m n (mbx_put m x s) (xs @ [x])"
proof -
  have r: "ring n (\<lambda>i. mcb_msg s m (of_nat i)) (unat (mcb_last s m)) (unat (mcb_first s m)) xs"
    and n: "unat (mcb_size s m) = n" and c: "unat (mcb_count s m) = length xs"
    using assms(1) by (simp_all add: mrep_def)
  have "length xs + 1 < 65536" using assms(2) n unat_u16_less [of "mcb_size s m"] by linarith
  then have "unat (mcb_count s m + 1) = length xs + 1"
    using c unat_add1_u16 [of "mcb_count s m"] by simp
  then show ?thesis
    using mbx_store_ring [OF r n assms(2), of x] n
    by (simp add: mrep_def mbx_put_eq mbx_inc_count_def)
qed

lemma mbx_next_last_ring:
  assumes r: "ring n (\<lambda>i. mcb_msg s m (of_nat i)) (unat (mcb_last s m)) wr (x # xs)"
    and n: "unat (mcb_size s m) = n"
  shows "mcb_msg s m (mcb_last s m) = x"
    and "ring n (\<lambda>i. mcb_msg s m (of_nat i)) (unat (mcb_last (mbx_next_last m s) m)) wr xs"
proof -
  have w: "unat (mcb_last s m) < unat (mcb_size s m)" using r n by (simp add: ring_def)
  have f: "unat (mcb_last (mbx_next_last m s) m) = ring_next n (unat (mcb_last s m))"
    using ring_next_u16 [OF w] n by (simp add: mbx_next_last_def Let_def)
  show "mcb_msg s m (mcb_last s m) = x" using ring_get(1) [OF r] by simp
  show "ring n (\<lambda>i. mcb_msg s m (of_nat i)) (unat (mcb_last (mbx_next_last m s) m)) wr xs"
    unfolding f by (rule ring_get(2) [OF r])
qed

lemma mbx_next_last_fields [simp]:
  "mcb_msg (mbx_next_last m s) = mcb_msg s" "mcb_first (mbx_next_last m s) = mcb_first s"
  "mcb_size (mbx_next_last m s) = mcb_size s" "mcb_count (mbx_next_last m s) = mcb_count s"
  "mcb_state (mbx_next_last m s) = mcb_state s" "p_lnk (mbx_next_last m s) = p_lnk s"
  by (simp_all add: mbx_next_last_def Let_def)

lemma mrep_get:
  assumes "mrep m n s (x # xs)"
  shows "fst (mbx_get m s) = x \<and> mrep m n (snd (mbx_get m s)) xs"
proof -
  have r: "ring n (\<lambda>i. mcb_msg s m (of_nat i)) (unat (mcb_last s m)) (unat (mcb_first s m)) (x # xs)"
    and n: "unat (mcb_size s m) = n" and c: "unat (mcb_count s m) = Suc (length xs)"
    using assms by (simp_all add: mrep_def)
  have "1 \<le> mcb_count s m" using c by (simp add: word_le_nat_alt)
  then have "unat (mcb_count s m - 1) = length xs" using c unat_diff_u16 [of 1 "mcb_count s m"] by simp
  then show ?thesis
    using mbx_next_last_ring [OF r n] n by (simp add: mrep_def mbx_get_def mbx_dec_count_def)
qed

text \<open>The ring of a mailbox is a first-in first-out buffer.\<close>

interpretation mbx: fifo n "mrep m n" "mbx_put m" "mbx_get m" for m n
proof
  fix s xs
  assume "mrep m n s xs"
  then show "length xs \<le> n" by (simp add: mrep_def ring_def)
qed (rule mrep_put mrep_get; assumption)+

section \<open>Functional behaviour\<close>

lemma kinv_mbx [simp]:
  "kinv (mbx_store m x s) T H Q D c = kinv s T H Q D c"
  "kinv (mbx_put m x s) T H Q D c = kinv s T H Q D c"
  "kinv (mbx_next_last m s) T H Q D c = kinv s T H Q D c"
  "kinv (mbx_dec_count m s) T H Q D c = kinv s T H Q D c"
  by (simp_all add: mbx_store_def mbx_put_def mbx_next_last_def mbx_inc_count_def mbx_dec_count_def Let_def)

lemma mbx_tasks [simp]:
  "tsk_run (mbx_store m x s) = tsk_run s" "tsk_new (mbx_store m x s) = tsk_new s"
  "tsk_run (mbx_put m x s) = tsk_run s" "tsk_new (mbx_put m x s) = tsk_new s"
  "tsk_run (mbx_next_last m s) = tsk_run s" "tsk_new (mbx_next_last m s) = tsk_new s"
  "tsk_run (mbx_dec_count m s) = tsk_run s" "tsk_new (mbx_dec_count m s) = tsk_new s"
  "prio (mbx_store m x s) = prio s" "prio (mbx_next_last m s) = prio s"
  "tsk_stack (mbx_next_last m s) = tsk_stack s" "tmsg (mbx_next_last m s) = tmsg s"
  by (simp_all add: mbx_store_def mbx_put_def mbx_next_last_def mbx_inc_count_def mbx_dec_count_def Let_def)

text \<open>A message for a waiting receiver is handed to it directly.\<close>

lemma mbx_send_receiver:
  assumes k: "kstate s T H Q D" and h: "h \<in> H" "h \<noteq> os_rdy" and Q: "Q h = t # xs"
    and st: "mcb_state s h = 1"
  shows "\<exists>s'. rt_mbx_send h msg tmo s = Some (OS_R_OK, s') \<and>
    wakes (set_mem (rt_ret_regs t s + 4) msg (set_mem (rt_ret_regs t s) 0x10 s)) s' T H (Q(h := xs))
      (undelay t D) (tsk_run s) t"
proof -
  note k0 = kstateD(1) [OF k]
  note fr = kinv_first_free [OF k0 h Q]
  have hn: "h \<noteq> NULL" using qrepD(2) [OF kinv_qrep [OF k0]] h(1) by auto
  obtain L R where get: "rt_get_first h s = Some (t, s\<lparr>p_lnk := L, p_rlnk := R\<rparr>)"
    and k1: "kinv (s\<lparr>p_lnk := L, p_rlnk := R\<rparr>) T H (Q(h := xs)) D (tsk_run s)"
    using kinv_get_first [OF k0 h Q] by blast
  define u where "u = set_mem (rt_ret_regs t s + 4) msg (set_mem (rt_ret_regs t s) 0x10
    (s\<lparr>p_lnk := L, p_rlnk := R\<rparr>))"
  have "kinv u T H (Q(h := xs)) D (tsk_run s)" "tsk_run u = tsk_run s" using k1 by (simp_all add: u_def)
  from kinv_wake [OF this fr(1,4,3)] obtain u1 u' where
    w: "rt_rmv_dly t u = Some u1" "rt_dispatch t u1 = Some u'"
    "wakes u u' T H (Q(h := xs)) (undelay t D) (tsk_run s) t" by blast
  have "wakes (set_mem (rt_ret_regs t s + 4) msg (set_mem (rt_ret_regs t s) 0x10 s)) u' T H (Q(h := xs))
      (undelay t D) (tsk_run s) t"
    by (rule wakes_cong [OF w(3)]) (simp_all add: u_def sched_mask_def lists_mask_def)
  then show ?thesis
    using get w(1,2) fr hn st by (simp add: rt_mbx_send_def rt_ret_val2_def rt_ret_regs_def Let_def u_def)
qed

text \<open>Receiving while a sender waits: its message takes the place that became free.\<close>

definition mbx_handover :: "ptr \<Rightarrow> ptr \<Rightarrow> kst \<Rightarrow> kst" where
  "mbx_handover h t s = mbx_store h (tmsg s t) (set_mem (rt_ret_regs t s) 0 (mbx_next_last h s))"

lemma mbx_wait_sender:
  assumes k: "kstate s T H Q D" and h: "h \<in> H" "h \<noteq> os_rdy" and Q: "Q h = t # qs"
    and st: "mcb_state s h = 2" and cnz: "mcb_count s h \<noteq> 0"
  shows "\<exists>s'. rt_mbx_wait h tmo s = Some (OS_R_OK, Some (mcb_msg s h (mcb_last s h)), s') \<and>
    wakes (mbx_handover h t s) s' T H (Q(h := qs)) (undelay t D) (tsk_run s) t"
proof -
  define v where "v = mbx_next_last h s"
  have k0: "kinv v T H Q D (tsk_run s)" using kstateD(1) [OF k] by (simp add: v_def)
  note fr = kinv_first_free [OF k0 h Q]
  have hn: "h \<noteq> NULL" using qrepD(2) [OF kinv_qrep [OF k0]] h(1) by auto
  obtain L R where get: "rt_get_first h v = Some (t, v\<lparr>p_lnk := L, p_rlnk := R\<rparr>)"
    and k1: "kinv (v\<lparr>p_lnk := L, p_rlnk := R\<rparr>) T H (Q(h := qs)) D (tsk_run s)"
    using kinv_get_first [OF k0 h Q] by blast
  define u where "u = mbx_store h (tmsg s t) (set_mem (rt_ret_regs t s) 0 (v\<lparr>p_lnk := L, p_rlnk := R\<rparr>))"
  have "kinv u T H (Q(h := qs)) D (tsk_run s)" "tsk_run u = tsk_run s"
    using k1 by (simp_all add: u_def v_def)
  from kinv_wake [OF this fr(1,4,3)] obtain u1 s' where
    wk: "rt_rmv_dly t u = Some u1" "rt_dispatch t u1 = Some s'"
    "wakes u s' T H (Q(h := qs)) (undelay t D) (tsk_run s) t" by blast
  have "wakes (mbx_handover h t s) s' T H (Q(h := qs)) (undelay t D) (tsk_run s) t"
    by (rule wakes_cong [OF wk(3)])
      (simp_all add: mbx_handover_def u_def v_def mbx_store_def Let_def sched_mask_def lists_mask_def)
  moreover have "rt_mbx_wait h tmo s = Some (OS_R_OK, Some (mcb_msg s h (mcb_last s h)), s')"
    using cnz st hn get wk(1,2) fr(2,5)
    by (simp add: rt_mbx_wait_def rt_ret_val_def rt_ret_regs_def Let_def u_def v_def)
  ultimately show ?thesis by blast
qed

lemma mrep_handover:
  assumes "mrep h n s (x # xs)"
  shows "mrep h n (mbx_handover h t s) (xs @ [tmsg s t])" and "mcb_msg s h (mcb_last s h) = x"
proof -
  have r: "ring n (\<lambda>i. mcb_msg s h (of_nat i)) (unat (mcb_last s h)) (unat (mcb_first s h)) (x # xs)"
    and n: "unat (mcb_size s h) = n" and c: "unat (mcb_count s h) = Suc (length xs)"
    using assms by (simp_all add: mrep_def)
  note rv = mbx_next_last_ring [OF r n]
  show "mcb_msg s h (mcb_last s h) = x" by (rule rv(1))
  define w where "w = set_mem (rt_ret_regs t s) 0 (mbx_next_last h s)"
  have "length xs < n" using r by (simp add: ring_def)
  moreover have "ring n (\<lambda>i. mcb_msg w h (of_nat i)) (unat (mcb_last w h)) (unat (mcb_first w h)) xs"
    using rv(2) by (simp add: w_def)
  moreover have "unat (mcb_size w h) = n" using n by (simp add: w_def)
  ultimately have "ring n (\<lambda>i. mcb_msg (mbx_store h (tmsg s t) w) h (of_nat i)) (unat (mcb_last w h))
      (unat (mcb_first (mbx_store h (tmsg s t) w) h)) (xs @ [tmsg s t])" by (intro mbx_store_ring)
  then show "mrep h n (mbx_handover h t s) (xs @ [tmsg s t])"
    using n c unfolding mbx_handover_def w_def [symmetric] by (simp add: mrep_def) (simp add: w_def)
qed

lemma mrep_mask: "sched_mask s' = sched_mask s \<Longrightarrow> mrep h n s' xs = mrep h n s xs"
  using sched_maskD(14-18) [of s' s] by (simp add: mrep_def)

text \<open>Waiting for a mailbox: the first task of the list sets what the list is for.\<close>

lemma mbx_wait_list:
  assumes k0: "kinv s T H Q D c" and run: "tsk_run s = c" and h: "h \<in> H" "h \<noteq> os_rdy"
  shows "\<exists>s1. (if p_lnk s h \<noteq> NULL then rt_put_prio h (tsk_run s) s
      else do { s \<leftarrow> link_run h s; Some (set_mcb_state h v s) }) = Some s1 \<and>
    kinv0 s1 T H (Q(h := ins_prio (prio s) c (Q h))) D c \<and> tsk_run s1 = c \<and> tstate s1 = tstate s \<and>
    sched_mask s1 = sched_mask (if Q h = [] then set_mcb_state h v s else s)"
proof -
  obtain L R where p: "(if p_lnk s h \<noteq> NULL then rt_put_prio h (tsk_run s) s else link_run h s) =
      Some (s\<lparr>p_lnk := L, p_rlnk := R\<rparr>)"
    and k1: "kinv0 (s\<lparr>p_lnk := L, p_rlnk := R\<rparr>) T H (Q(h := ins_prio (prio s) c (Q h))) D c"
    using kinv_wait_list [OF k0 run h] by blast
  note e = qrep_p_lnk_NULL [OF kinv_qrep [OF k0] h(1)]
  show ?thesis
  proof (cases "p_lnk s h = NULL")
    case True
    then show ?thesis using p k1 run e
      by (intro exI [of _ "set_mcb_state h v (s\<lparr>p_lnk := L, p_rlnk := R\<rparr>)"])
        (simp add: sched_mask_def lists_mask_def)
  next
    case False
    then show ?thesis using p k1 run e by (intro exI [of _ "s\<lparr>p_lnk := L, p_rlnk := R\<rparr>"]) simp
  qed
qed

lemma mbx_send_blocks:
  assumes k: "kstate s T H Q D" and h: "h \<in> H" "h \<noteq> os_rdy" and c: "tsk_run s \<noteq> os_idle_TCB"
    and full: "mcb_count s h = mcb_size s h" "\<not> (Q h \<noteq> [] \<and> mcb_state s h = 1)" and tmo: "tmo \<noteq> 0"
  shows "\<exists>s' n xs. Q os_rdy = n # xs \<and> rt_mbx_send h msg tmo s = Some (OS_R_TMO, s') \<and>
    kinv s' T H (Q(h := ins_prio (prio s) (tsk_run s) (Q h), os_rdy := xs))
      (if tmo < 0xffff then ins_dly (tsk_run s) (unat tmo) D else D) n \<and> tsk_new s' = n \<and>
    tstate s' = (tstate s)(tsk_run s := WAIT_MBX, n := RUNNING) \<and>
    sched_mask s' = sched_mask (set_tmsg (tsk_run s) msg (if Q h = [] then set_mcb_state h 2 s else s))"
proof -
  note k0 = kstateD(1) [OF k]
  have cn: "tsk_run s \<noteq> NULL" "h \<noteq> NULL"
    using kinv_runs [OF k0] qrepD(2) [OF kinv_qrep [OF k0]] h(1) by auto
  obtain s1 where p: "(if p_lnk s h \<noteq> NULL then rt_put_prio h (tsk_run s) s
      else do { s \<leftarrow> link_run h s; Some (set_mcb_state h 2 s) }) = Some s1"
    "kinv0 s1 T H (Q(h := ins_prio (prio s) (tsk_run s) (Q h))) D (tsk_run s)"
    "tsk_run s1 = tsk_run s" "tstate s1 = tstate s"
    "sched_mask s1 = sched_mask (if Q h = [] then set_mcb_state h 2 s else s)"
    using mbx_wait_list [OF k0 refl h] by blast
  define u where "u = set_tmsg (tsk_run s) msg s1"
  have ku: "kinv0 u T H (Q(h := ins_prio (prio s) (tsk_run s) (Q h))) D (tsk_run s)"
    "tsk_run u = tsk_run s" "tstate u = tstate s" using p by (simp_all add: u_def)
  have mu: "sched_mask u =
      sched_mask (set_tmsg (tsk_run s) msg (if Q h = [] then set_mcb_state h 2 s else s))"
  proof -
    have e: "sched_mask (set_tmsg (tsk_run s) msg x) = set_tmsg (tsk_run s) msg (sched_mask x)" for x
      by (simp add: sched_mask_def lists_mask_def)
    show ?thesis using p(5) unfolding u_def e by simp
  qed
  from kinv_block [OF ku(1,2) c tmo, of WAIT_MBX] h(2) obtain s' n xs where b:
    "Q os_rdy = n # xs" "rt_block tmo WAIT_MBX u = Some s'" "tsk_new s' = n"
    "kinv s' T H (Q(h := ins_prio (prio s) (tsk_run s) (Q h), os_rdy := xs))
      (if tmo < 0xffff then ins_dly (tsk_run s) (unat tmo) D else D) n"
    "sched_mask s' = sched_mask u" "tstate s' = (tstate u)(tsk_run s := WAIT_MBX, n := RUNNING)" by auto
  have "\<not> (p_lnk s h \<noteq> NULL \<and> mcb_state s h = 1)"
    using full(2) qrep_p_lnk_NULL [OF kinv_qrep [OF k0] h(1)] by simp
  then have "rt_mbx_send h msg tmo s = Some (OS_R_TMO, s')"
    using p(1,3) b(2) cn full(1) tmo by (cases "p_lnk s h = NULL") (simp_all add: rt_mbx_send_def u_def)
  then show ?thesis using b ku(3) mu by auto
qed

lemma mbx_wait_blocks:
  assumes k: "kstate s T H Q D" and h: "h \<in> H" "h \<noteq> os_rdy" and c: "tsk_run s \<noteq> os_idle_TCB"
    and empty: "mcb_count s h = 0" and tmo: "tmo \<noteq> 0"
  shows "\<exists>s' n xs. Q os_rdy = n # xs \<and> rt_mbx_wait h tmo s = Some (OS_R_TMO, None, s') \<and>
    kinv s' T H (Q(h := ins_prio (prio s) (tsk_run s) (Q h), os_rdy := xs))
      (if tmo < 0xffff then ins_dly (tsk_run s) (unat tmo) D else D) n \<and> tsk_new s' = n \<and>
    tstate s' = (tstate s)(tsk_run s := WAIT_MBX, n := RUNNING) \<and>
    sched_mask s' = sched_mask (if Q h = [] then set_mcb_state h 1 s else s)"
proof -
  note k0 = kstateD(1) [OF k]
  have cn: "tsk_run s \<noteq> NULL" "h \<noteq> NULL"
    using kinv_runs [OF k0] qrepD(2) [OF kinv_qrep [OF k0]] h(1) by auto
  obtain s1 where p: "(if p_lnk s h \<noteq> NULL then rt_put_prio h (tsk_run s) s
      else do { s \<leftarrow> link_run h s; Some (set_mcb_state h 1 s) }) = Some s1"
    "kinv0 s1 T H (Q(h := ins_prio (prio s) (tsk_run s) (Q h))) D (tsk_run s)"
    "tsk_run s1 = tsk_run s" "tstate s1 = tstate s"
    "sched_mask s1 = sched_mask (if Q h = [] then set_mcb_state h 1 s else s)"
    using mbx_wait_list [OF k0 refl h] by blast
  from kinv_block [OF p(2,3) c tmo, of WAIT_MBX] h(2) obtain s' n xs where b:
    "Q os_rdy = n # xs" "rt_block tmo WAIT_MBX s1 = Some s'" "tsk_new s' = n"
    "kinv s' T H (Q(h := ins_prio (prio s) (tsk_run s) (Q h), os_rdy := xs))
      (if tmo < 0xffff then ins_dly (tsk_run s) (unat tmo) D else D) n"
    "sched_mask s' = sched_mask s1" "tstate s' = (tstate s1)(tsk_run s := WAIT_MBX, n := RUNNING)" by auto
  have "rt_mbx_wait h tmo s = Some (OS_R_TMO, None, s')"
    using p(1) b(2) cn empty tmo by (cases "p_lnk s h = NULL") (simp_all add: rt_mbx_wait_def)
  then show ?thesis using b p(4,5) by auto
qed

text \<open>
  In the handler: the first waiting task becomes ready. \<open>u\<close> is the state after the task left
  the list and got its result.
\<close>

lemma ksus_deliver:
  assumes k1: "ksus u T H Q D" and t: "t \<in> T" "t \<notin> queued H Q"
  shows "\<exists>w s'. rt_rmv_dly t (set_tstate t READY u) = Some w \<and> rt_put_prio os_rdy t w = Some s' \<and>
    ksus s' T H (Q(os_rdy := ins_prio (prio u) t (Q os_rdy))) (undelay t D) \<and>
    sched_mask s' = sched_mask u \<and> tsk_new s' = tsk_new u"
proof -
  have e: "set_tstate t (tstate u t) (set_tstate t READY u) = u" by (simp add: comp_def)
  have "ksus (set_tstate t (tstate u t) (set_tstate t READY u)) T H Q D" using k1 by (simp only: e)
  then obtain L R X where rmv: "rt_rmv_dly t (set_tstate t READY u) =
      Some ((set_tstate t READY u)\<lparr>p_dlnk := L, p_blnk := R, delta_time := X\<rparr>)"
    and k2: "ksus (set_tstate t (tstate u t) ((set_tstate t READY u)
      \<lparr>p_dlnk := L, p_blnk := R, delta_time := X\<rparr>)) T H Q (undelay t D)"
    using ksus_rmv_dly t(1) by blast
  define w where "w = (set_tstate t READY u)\<lparr>p_dlnk := L, p_blnk := R, delta_time := X\<rparr>"
  have k3: "ksus (set_tstate t (tstate u t) w) T H Q (undelay t D)" using k2 by (simp only: w_def)
  obtain s' where "rt_put_prio os_rdy t w = Some s'"
    "ksus s' T H (Q(os_rdy := ins_prio (prio w) t (Q os_rdy))) (undelay t D)"
    "sched_mask s' = sched_mask w" "tsk_new s' = tsk_new w"
    using ksus_ready [OF k3 _ t notin_undelay] by (auto simp: w_def)
  moreover have "sched_mask w = sched_mask u" "prio w = prio u" "tsk_new w = tsk_new u"
    by (simp_all add: w_def)
  ultimately show ?thesis using rmv unfolding w_def [symmetric] by auto
qed

lemma ksus_mbx [simp]:
  "ksus (mbx_put m x s) T H Q D = ksus s T H Q D"
  by (simp add: mbx_put_def mbx_inc_count_def Let_def)

lemma mbx_psh_mbx [simp]:
  "prio (mbx_put m x s) = prio s" "tsk_new (mbx_put m x s) = tsk_new s"
  by (simp_all add: mbx_put_def mbx_inc_count_def Let_def)

text \<open>
  What the post service hands to the first waiting task of a mailbox: a mail block, the
  place its own message needs, or the message; \<open>None\<close> when no block is free.
\<close>

definition mbx_psh_result :: "ptr \<Rightarrow> u32 \<Rightarrow> ptr \<Rightarrow> kst \<Rightarrow> kst option" where
  "mbx_psh_result h msg t s =
     (if mcb_state s h = 3 then
        (if mem s msg = NULL then None
         else Some (set_mem (rt_ret_regs t s) (mem s msg) (set_mem msg (mem s (mem s msg)) s)))
      else if mcb_state s h = 2 then
        Some (mbx_put h (tmsg s t) (set_mem (rt_ret_regs t s) 0 s))
      else Some (set_mem (rt_ret_regs t s + 4) msg (set_mem (rt_ret_regs t s) 0x10 s)))"

lemma mbx_psh_spec:
  assumes k0: "ksus s T H Q D" and h: "h \<in> H" "h \<noteq> os_rdy"
    and st: "Q h \<noteq> [] \<Longrightarrow> mcb_state s h \<in> {1, 2, 3}" "mcb_state s h = 3 \<Longrightarrow> msg \<noteq> NULL"
    and room: "Q h = [] \<Longrightarrow> mcb_count s h < mcb_size s h"
  shows "\<exists>s' Q' D'. rt_mbx_psh h msg s = Some s' \<and> ksus s' T H Q' D' \<and> tsk_new s' = tsk_new s \<and>
    (case Q h of [] \<Rightarrow> s' = mbx_put h msg s
     | t # xs \<Rightarrow> (case mbx_psh_result h msg t s of None \<Rightarrow> s' = s \<and> Q' = Q
         | Some r \<Rightarrow> Q' = Q(h := xs, os_rdy := ins_prio (prio s) t (Q os_rdy)) \<and>
             D' = undelay t D \<and> sched_mask s' = sched_mask r))"
proof (cases "Q h")
  case Nil
  have "h \<noteq> NULL" using qrepD(2) [OF ksusD(1) [OF k0]] h(1) by auto
  then have "rt_mbx_psh h msg s = Some (mbx_put h msg s)"
    using Nil room qrep_p_lnk_NULL [OF ksusD(1) [OF k0] h(1)] by (simp add: rt_mbx_psh_def)
  then show ?thesis using Nil k0 by (intro exI [of _ "mbx_put h msg s"] exI [of _ Q] exI [of _ D]) simp
next
  case (Cons t xs)
  have hn: "h \<noteq> NULL" "p_lnk s h \<noteq> NULL"
    using qrepD(2) [OF ksusD(1) [OF k0]] h(1) qrep_p_lnk_NULL [OF ksusD(1) [OF k0] h(1)] Cons by auto
  show ?thesis
  proof (cases "mbx_psh_result h msg t s")
    case None
    then have "mcb_state s h = 3" "mem s msg = NULL"
      by (auto simp: mbx_psh_result_def split: if_splits)
    then have "rt_mbx_psh h msg s = Some s"
      using hn st(2) by (simp add: rt_mbx_psh_def rt_alloc_box_def)
    then show ?thesis using Cons None k0 by auto
  next
    case (Some r)
    define s0 where "s0 = (if mcb_state s h = 3 then set_mem msg (mem s (mem s msg)) s else s)"
    have ks0: "ksus s0 T H Q D" using k0 by (simp add: s0_def)
    obtain L R where get: "rt_get_first h s0 = Some (t, s0\<lparr>p_lnk := L, p_rlnk := R\<rparr>)"
      and k1: "ksus (s0\<lparr>p_lnk := L, p_rlnk := R\<rparr>) T H (Q(h := xs)) D"
      and t: "t \<in> T" "t \<noteq> NULL" "t \<notin> queued H (Q(h := xs))"
      using ksus_get_first [OF ks0 h Cons] by blast
    define v where "v = s0\<lparr>p_lnk := L, p_rlnk := R\<rparr>"
    define u where "u = (if mcb_state s h = 3 then set_mem (rt_ret_regs t s) (mem s msg) v
       else if mcb_state s h = 2 then mbx_put h (tmsg s t) (set_mem (rt_ret_regs t s) 0 v)
       else set_mem (rt_ret_regs t s + 4) msg (set_mem (rt_ret_regs t s) 0x10 v))"
    have ku: "ksus u T H (Q(h := xs)) D" using k1 by (simp add: u_def v_def)
    from ksus_deliver [OF ku t(1,3)] obtain w s' where d:
      "rt_rmv_dly t (set_tstate t READY u) = Some w" "rt_put_prio os_rdy t w = Some s'"
      "ksus s' T H (Q(h := xs, os_rdy := ins_prio (prio u) t ((Q(h := xs)) os_rdy))) (undelay t D)"
      "sched_mask s' = sched_mask u" "tsk_new s' = tsk_new u" by blast
    have f: "prio u = prio s" "tsk_new u = tsk_new s" by (simp_all add: u_def v_def s0_def)
    have m: "sched_mask u = sched_mask r"
      using Some by (auto simp: mbx_psh_result_def u_def v_def s0_def mbx_put_def mbx_inc_count_def
          Let_def sched_mask_def lists_mask_def split: if_splits)
    consider "mcb_state s h = 3" | "mcb_state s h = 2" | "mcb_state s h = 1" using st(1) Cons by auto
    then have call: "rt_mbx_psh h msg s = Some s'"
    proof cases
      case 1
      then have "mem s msg \<noteq> NULL" using Some by (auto simp: mbx_psh_result_def)
      then show ?thesis using 1 hn st(2) get d(1,2) t(2)
        by (simp add: rt_mbx_psh_def rt_alloc_box_def rt_ret_val_def rt_ret_regs_def Let_def u_def v_def s0_def)
    next
      case 2
      then show ?thesis using hn get d(1,2) t(2)
        by (simp add: rt_mbx_psh_def rt_ret_val_def rt_ret_regs_def Let_def u_def v_def s0_def)
    next
      case 3
      then show ?thesis using hn get d(1,2) t(2)
        by (simp add: rt_mbx_psh_def rt_ret_val2_def rt_ret_regs_def Let_def u_def v_def s0_def)
    qed
    have "(Q(h := xs)) os_rdy = Q os_rdy" using h(2) by simp
    then show ?thesis using call d(3-5) f m Some Cons
      by (intro exI [of _ s'] exI [of _ "Q(h := xs, os_rdy := ins_prio (prio s) t (Q os_rdy))"]
          exI [of _ "undelay t D"]) simp
  qed
qed

section \<open>The contract of a kernel service\<close>

interpretation mbx_send: kernel_service
  "\<lambda>s T H Q. h \<in> H \<and> h \<noteq> os_rdy \<and> tsk_run s \<noteq> os_idle_TCB"
  "\<lambda>s. map_option snd (rt_mbx_send h msg tmo s)" for h msg tmo
proof
  fix s T H Q D
  assume k: "kstate s T H Q D" and h: "h \<in> H \<and> h \<noteq> os_rdy \<and> tsk_run s \<noteq> os_idle_TCB"
  note k0 = kstateD(1) [OF k]
  have hn: "h \<noteq> NULL" using qrepD(2) [OF kinv_qrep [OF k0]] h by auto
  note e = qrep_p_lnk_NULL [OF kinv_qrep [OF k0], of h]
  have ex: "kexit s (mbx_put h msg s) T H" using k by (auto simp: kstate_def intro: kexitI)
  consider (rcv) t xs where "Q h = t # xs" "mcb_state s h = 1"
    | (full) "\<not> (Q h \<noteq> [] \<and> mcb_state s h = 1)" "mcb_count s h = mcb_size s h" "tmo \<noteq> 0"
    | (other) "\<not> (Q h \<noteq> [] \<and> mcb_state s h = 1)" "mcb_count s h \<noteq> mcb_size s h \<or> tmo = 0"
    by (cases "Q h") auto
  then show "\<exists>s'. map_option snd (rt_mbx_send h msg tmo s) = Some s' \<and> kexit s s' T H"
  proof cases
    case rcv
    from mbx_send_receiver [OF k _ _ rcv, of msg tmo] h obtain s' where s':
      "rt_mbx_send h msg tmo s = Some (OS_R_OK, s')"
      "wakes (set_mem (rt_ret_regs t s + 4) msg (set_mem (rt_ret_regs t s) 0x10 s)) s' T H (Q(h := xs))
        (undelay t D) (tsk_run s) t" by blast
    from wakes_kexit [THEN kexit_mask, OF s'(2)] have "kexit s s' T H"
      using kstateD(2) [OF k] by simp
    with s'(1) show ?thesis by auto
  next
    case full
    with mbx_send_blocks [OF k, of h tmo msg] h show ?thesis
      by (auto intro!: kexitI dest: sched_maskD(3) split: if_splits)
  next
    case other
    then show ?thesis using hn e h ex kexit_same [OF k] by (auto simp: rt_mbx_send_def)
  qed
qed

interpretation mbx_wait: kernel_service
  "\<lambda>s T H Q. h \<in> H \<and> h \<noteq> os_rdy \<and> tsk_run s \<noteq> os_idle_TCB"
  "\<lambda>s. map_option (snd \<circ> snd) (rt_mbx_wait h tmo s)" for h tmo
proof
  fix s T H Q D
  assume k: "kstate s T H Q D" and h: "h \<in> H \<and> h \<noteq> os_rdy \<and> tsk_run s \<noteq> os_idle_TCB"
  note k0 = kstateD(1) [OF k]
  have hn: "h \<noteq> NULL" using qrepD(2) [OF kinv_qrep [OF k0]] h by auto
  note e = qrep_p_lnk_NULL [OF kinv_qrep [OF k0], of h]
  have ex: "kexit s (mbx_dec_count h (mbx_next_last h s)) T H"
    using k by (auto simp: kstate_def intro: kexitI)
  consider (snd) t xs where "Q h = t # xs" "mcb_state s h = 2" "mcb_count s h \<noteq> 0"
    | (take) "mcb_count s h \<noteq> 0" "\<not> (Q h \<noteq> [] \<and> mcb_state s h = 2)"
    | (none) "mcb_count s h = 0" "tmo = 0" | (blk) "mcb_count s h = 0" "tmo \<noteq> 0"
    by (cases "Q h") auto
  then show "\<exists>s'. map_option (snd \<circ> snd) (rt_mbx_wait h tmo s) = Some s' \<and> kexit s s' T H"
  proof cases
    case snd
    from mbx_wait_sender [OF k _ _ snd, of tmo] h obtain s' where s':
      "rt_mbx_wait h tmo s = Some (OS_R_OK, Some (mcb_msg s h (mcb_last s h)), s')"
      "wakes (mbx_handover h t s) s' T H (Q(h := xs)) (undelay t D) (tsk_run s) t" by blast
    from wakes_kexit [THEN kexit_mask, OF s'(2)] have "kexit s s' T H"
      using kstateD(2) [OF k] by (simp add: mbx_handover_def)
    with s'(1) show ?thesis by auto
  next
    case take
    then show ?thesis using hn e h ex by (auto simp: rt_mbx_wait_def)
  next
    case none
    then show ?thesis using hn kexit_same [OF k] by (auto simp: rt_mbx_wait_def)
  next
    case blk
    with mbx_wait_blocks [OF k, of h tmo] h show ?thesis
      by (auto intro!: kexitI dest: sched_maskD(3) split: if_splits)
  qed
qed

section \<open>Promises of the mailbox services\<close>

lemma smp_mrep: "mrep smpX 2 smp [0xAB]"
  by (simp add: mrep_def ring_def smp_def smp_zero_def)

lemma smpQ_X [simp]: "smpQ smpX = []" "smpQ smpU = []"
  by (simp_all add: smpQ_def)

text \<open>
  \<open>rt_mbx_send\<close> gives the message to the first task that waits to receive (return value
  \<open>osEventMessage\<close> and the message); with no such task it appends the message to the
  mailbox if there is room, otherwise it returns \<open>OS_R_TMO\<close> at once for a zero timeout and
  blocks the caller, with its message kept in its control block, for any other.
\<close>

theorem rt_mbx_send_delivers:
  assumes "kstate s T H Q D" and "h \<in> H" "h \<noteq> os_rdy" "tsk_run s \<noteq> os_idle_TCB" and "mrep h n s xs"
  shows "\<exists>s'. if Q h \<noteq> [] \<and> mcb_state s h = 1 then
      rt_mbx_send h msg tmo s = Some (OS_R_OK, s') \<and> mrep h n s' xs \<and>
      wakes (set_mem (rt_ret_regs (hd (Q h)) s + 4) msg (set_mem (rt_ret_regs (hd (Q h)) s) 0x10 s)) s' T H
        (Q(h := tl (Q h))) (undelay (hd (Q h)) D) (tsk_run s) (hd (Q h))
    else if length xs < n then
      rt_mbx_send h msg tmo s = Some (OS_R_OK, s') \<and> mrep h n s' (xs @ [msg])
    else rt_mbx_send h msg tmo s = Some (OS_R_TMO, s') \<and> mrep h n s' xs \<and>
      (if tmo = 0 then s' = s else tstate s' (tsk_run s) = WAIT_MBX \<and> tmsg s' (tsk_run s) = msg)"
proof -
  have n: "unat (mcb_size s h) = n" "unat (mcb_count s h) = length xs" "length xs \<le> n"
    using assms(5) mbx.rep_cap by (auto simp: mrep_def)
  then have full: "mcb_count s h = mcb_size s h \<longleftrightarrow> length xs = n" by (auto simp: word_unat_eq_iff)
  note k0 = kstateD(1) [OF assms(1)]
  have hn: "h \<noteq> NULL" "p_lnk s h = NULL \<longleftrightarrow> Q h = []"
    using qrepD(2) [OF kinv_qrep [OF k0]] assms(2) qrep_p_lnk_NULL [OF kinv_qrep [OF k0]] by auto
  consider (rcv) t qs where "Q h = t # qs" "mcb_state s h = 1"
    | (put) "\<not> (Q h \<noteq> [] \<and> mcb_state s h = 1)" "length xs < n"
    | (tmo0) "\<not> (Q h \<noteq> [] \<and> mcb_state s h = 1)" "length xs = n" "tmo = 0"
    | (blk) "\<not> (Q h \<noteq> [] \<and> mcb_state s h = 1)" "length xs = n" "tmo \<noteq> 0"
    using n(3) by (cases "Q h") force+
  then show ?thesis
  proof cases
    case rcv
    from mbx_send_receiver [OF assms(1-3) rcv, of msg tmo] obtain s' where s':
      "rt_mbx_send h msg tmo s = Some (OS_R_OK, s')"
      "wakes (set_mem (rt_ret_regs t s + 4) msg (set_mem (rt_ret_regs t s) 0x10 s)) s' T H (Q(h := qs))
        (undelay t D) (tsk_run s) t" by blast
    have "mrep h n s' xs" using assms(5) mrep_mask [OF wakes_mask [OF s'(2)]] by (simp add: mrep_def)
    with s' rcv show ?thesis by auto
  next
    case put
    then have "rt_mbx_send h msg tmo s = Some (OS_R_OK, mbx_put h msg s)"
      using hn full by (auto simp: rt_mbx_send_def)
    with put mrep_put [OF assms(5) put(2), of msg] show ?thesis by auto
  next
    case tmo0
    then have "rt_mbx_send h msg tmo s = Some (OS_R_TMO, s)" using hn full by (auto simp: rt_mbx_send_def)
    with tmo0 assms(5) show ?thesis by auto
  next
    case blk
    from mbx_send_blocks [OF assms(1-4) _ blk(1,3), of msg] blk(2) full obtain s' m ys where s':
      "Q os_rdy = m # ys" "rt_mbx_send h msg tmo s = Some (OS_R_TMO, s')"
      "tstate s' = (tstate s)(tsk_run s := WAIT_MBX, m := RUNNING)"
      "sched_mask s' = sched_mask (set_tmsg (tsk_run s) msg (if Q h = [] then set_mcb_state h 2 s else s))"
      by blast
    have "m \<noteq> tsk_run s" using kinv_rdy_first(4) [OF k0 s'(1)] .
    moreover have "tmsg s' (tsk_run s) = msg"
      using arg_cong [OF s'(4), of tmsg] by (simp add: sched_mask_def lists_mask_def)
    moreover have "mrep h n s' xs" using assms(5) mrep_mask [OF s'(4)] by (simp add: mrep_def)
    ultimately show ?thesis using s'(2,3) blk by (auto intro!: exI [of _ s'])
  qed
qed

theorem rt_mbx_send_delivers_witness:
  "\<exists>s'. rt_mbx_send smpX 0xCD 0 smp = Some (OS_R_OK, s') \<and> mrep smpX 2 s' [0xAB, 0xCD]"
  using rt_mbx_send_delivers [OF smp_kstate _ _ _ smp_mrep, of "0xCD" 0] by simp

text \<open>
  C10: \<open>rt_mbx_wait\<close> returns the oldest message if there is one, and if a sender waits for
  room its message is appended and the sender wakes up with success; with no message a
  zero timeout returns \<open>OS_R_TMO\<close>, any other blocks the caller.
\<close>

theorem rt_mbx_wait_receives_oldest:
  assumes "kstate s T H Q D" and "h \<in> H" "h \<noteq> os_rdy" "tsk_run s \<noteq> os_idle_TCB" and "mrep h n s xs"
  shows "\<exists>s'. case xs of
      x # ys \<Rightarrow> rt_mbx_wait h tmo s = Some (OS_R_OK, Some x, s') \<and>
        (if Q h \<noteq> [] \<and> mcb_state s h = 2 then mrep h n s' (ys @ [tmsg s (hd (Q h))]) \<and>
           wakes (mbx_handover h (hd (Q h)) s) s' T H (Q(h := tl (Q h))) (undelay (hd (Q h)) D)
             (tsk_run s) (hd (Q h))
         else mrep h n s' ys)
    | [] \<Rightarrow> rt_mbx_wait h tmo s = Some (OS_R_TMO, None, s') \<and> mrep h n s' [] \<and>
        (if tmo = 0 then s' = s else tstate s' (tsk_run s) = WAIT_MBX)"
proof -
  note k0 = kstateD(1) [OF assms(1)]
  have hn: "h \<noteq> NULL" "p_lnk s h = NULL \<longleftrightarrow> Q h = []"
    using qrepD(2) [OF kinv_qrep [OF k0]] assms(2) qrep_p_lnk_NULL [OF kinv_qrep [OF k0]] by auto
  have cnt: "mcb_count s h = 0 \<longleftrightarrow> xs = []"
    using assms(5) by (auto simp: mrep_def word_unat_eq_iff)
  show ?thesis
  proof (cases xs)
    case Nil
    show ?thesis
    proof (cases "tmo = 0")
      case True
      then have "rt_mbx_wait h tmo s = Some (OS_R_TMO, None, s)" using cnt Nil hn by (simp add: rt_mbx_wait_def)
      with True Nil assms(5) show ?thesis by auto
    next
      case False
      from mbx_wait_blocks [OF assms(1-4) _ False] cnt Nil obtain s' m ys where s':
        "Q os_rdy = m # ys" "rt_mbx_wait h tmo s = Some (OS_R_TMO, None, s')"
        "tstate s' = (tstate s)(tsk_run s := WAIT_MBX, m := RUNNING)"
        "sched_mask s' = sched_mask (if Q h = [] then set_mcb_state h 1 s else s)" by blast
      have "m \<noteq> tsk_run s" using kinv_rdy_first(4) [OF k0 s'(1)] .
      moreover have "mrep h n s' []"
        using assms(5) Nil unfolding mrep_mask [OF s'(4)] by (simp add: mrep_def)
      ultimately show ?thesis using s'(2,3) False Nil by (auto intro!: exI [of _ s'])
    qed
  next
    case (Cons x ys)
    note rep = assms(5) [unfolded Cons]
    show ?thesis
    proof (cases "Q h \<noteq> [] \<and> mcb_state s h = 2")
      case True
      then obtain t qs where Q: "Q h = t # qs" by (cases "Q h") auto
      from mbx_wait_sender [OF assms(1-3) Q, of tmo] True cnt Cons obtain s' where s':
        "rt_mbx_wait h tmo s = Some (OS_R_OK, Some (mcb_msg s h (mcb_last s h)), s')"
        "wakes (mbx_handover h t s) s' T H (Q(h := qs)) (undelay t D) (tsk_run s) t" by blast
      then show ?thesis
        using mrep_handover(1) [OF rep, of t] mrep_handover(2) [OF rep] mrep_mask [OF wakes_mask [OF s'(2)]] True Q Cons by auto
    next
      case False
      then have "rt_mbx_wait h tmo s = Some (OS_R_OK, Some (fst (mbx_get h s)), snd (mbx_get h s))"
        using cnt Cons hn by (auto simp: rt_mbx_wait_def mbx_get_def)
      with mrep_get [OF rep] False Cons show ?thesis by auto
    qed
  qed
qed

theorem rt_mbx_wait_receives_oldest_witness:
  "\<exists>s'. rt_mbx_wait smpX 5 smp = Some (OS_R_OK, Some 0xAB, s') \<and> mrep smpX 2 s' []"
  using rt_mbx_wait_receives_oldest [OF smp_kstate _ _ _ smp_mrep, of 5] by simp

text \<open>Sending several messages, and receiving several, with zero timeouts.\<close>

fun mbx_send_all :: "ptr \<Rightarrow> u32 list \<Rightarrow> kst \<Rightarrow> kst option" where
  "mbx_send_all h [] s = Some s"
| "mbx_send_all h (y # ys) s = do {
     (r, s) \<leftarrow> rt_mbx_send h y 0 s;
     if r = OS_R_OK then mbx_send_all h ys s else None }"

fun mbx_receive_all :: "ptr \<Rightarrow> nat \<Rightarrow> kst \<Rightarrow> (u32 option list \<times> kst) option" where
  "mbx_receive_all h 0 s = Some ([], s)"
| "mbx_receive_all h (Suc k) s = do {
     (r, x, s) \<leftarrow> rt_mbx_wait h 0 s;
     (xs, s) \<leftarrow> mbx_receive_all h k s;
     Some (x # xs, s) }"

lemma mbx_put_lnk [simp]: "p_lnk (mbx_put h x s) = p_lnk s"
  by (simp add: mbx_put_def mbx_inc_count_def Let_def)

lemma mbx_get_lnk: "p_lnk (snd (mbx_get h s)) = p_lnk s"
  by (simp add: mbx_get_def mbx_dec_count_def)

lemma mbx_send_all_eq:
  assumes "h \<noteq> NULL"
  shows "p_lnk s h = NULL \<Longrightarrow> mrep h n s xs \<Longrightarrow> length xs + length ys \<le> n \<Longrightarrow>
    mbx_send_all h ys s = Some (fold (mbx_put h) ys s)"
proof (induction ys arbitrary: s xs)
  case (Cons y ys)
  have n: "unat (mcb_size s h) = n" "unat (mcb_count s h) = length xs" "length xs < n"
    using Cons.prems by (auto simp: mrep_def)
  then have "mcb_count s h \<noteq> mcb_size s h" by (auto simp: word_unat_eq_iff)
  then have "rt_mbx_send h y 0 s = Some (OS_R_OK, mbx_put h y s)"
    using Cons.prems(1) assms by (simp add: rt_mbx_send_def)
  moreover have "mbx_send_all h ys (mbx_put h y s) = Some (fold (mbx_put h) ys (mbx_put h y s))"
    using Cons.prems mrep_put [OF Cons.prems(2) n(3), of y] by (intro Cons.IH) auto
  ultimately show ?case by simp
qed simp

lemma mbx_receive_all_eq:
  assumes "h \<noteq> NULL"
  shows "p_lnk s h = NULL \<Longrightarrow> mrep h n s xs \<Longrightarrow> k \<le> length xs \<Longrightarrow>
    \<exists>s'. mbx_receive_all h k s = Some (map Some (take k xs), s')"
proof (induction k arbitrary: s xs)
  case (Suc k)
  then obtain x ys where xs: "xs = x # ys" by (cases xs) auto
  note g = mrep_get [OF Suc.prems(2) [unfolded xs]]
  have "mcb_count s h \<noteq> 0" using Suc.prems(2) xs by (auto simp: mrep_def)
  then have "rt_mbx_wait h 0 s = Some (OS_R_OK, Some x, snd (mbx_get h s))"
    using Suc.prems(1) assms g by (simp add: rt_mbx_wait_def mbx_get_def)
  moreover obtain s' where "mbx_receive_all h k (snd (mbx_get h s)) = Some (map Some (take k ys), s')"
    using Suc.IH [of "snd (mbx_get h s)" ys] Suc.prems g xs mbx_get_lnk by auto
  ultimately show ?case using xs by simp
qed simp

text \<open>
  C11: messages that are sent to a mailbox on which no task waits are received in the order
  in which they were sent, behind the messages that were there before, for any position of
  the ring's indices.
\<close>

theorem mailbox_fifo:
  assumes "mrep h n s xs" and "h \<noteq> NULL" "p_lnk s h = NULL" and "length xs + length ys \<le> n"
  shows "\<exists>s1 s2. mbx_send_all h ys s = Some s1 \<and> mrep h n s1 (xs @ ys) \<and>
    mbx_receive_all h (length xs + length ys) s1 = Some (map Some (xs @ ys), s2)"
proof -
  have rep: "mrep h n (fold (mbx_put h) ys s) (xs @ ys)" by (rule mbx.put_all [OF assms(1,4)])
  have lnk: "p_lnk (fold (mbx_put h) ys s) = p_lnk s" by (induction ys arbitrary: s) simp_all
  obtain s2 where "mbx_receive_all h (length xs + length ys) (fold (mbx_put h) ys s) =
      Some (map Some (take (length xs + length ys) (xs @ ys)), s2)"
    using mbx_receive_all_eq [OF assms(2) _ rep, of "length xs + length ys"] assms(3) lnk by auto
  then show ?thesis using mbx_send_all_eq [OF assms(2,3,1,4)] rep by auto
qed

theorem mailbox_fifo_witness:
  "\<exists>s1 s2. mbx_send_all smpX [0xCD] smp = Some s1 \<and>
    mbx_receive_all smpX 2 s1 = Some ([Some 0xAB, Some 0xCD], s2)"
proof -
  have "p_lnk smp smpX = NULL" by (simp add: smp_def)
  from mailbox_fifo [OF smp_mrep _ this, of "[0xCD]"] show ?thesis by (auto simp: numeral_2_eq_2)
qed

text \<open>
  \<open>isr_mbx_receive\<close> tests only \<open>state == 2\<close> before it posts a request for the waiting
  sender. The state stays 2 when the sender gave up with a timeout; then the request, served
  with no task waiting, stores a message 0 that nobody sent.
\<close>

theorem isr_mbx_receive_phantom_message:
  assumes "mrep m n s (x # xs)" and "m \<noteq> NULL" "p_lnk s m = NULL" "mcb_state s m = 2"
    and "psq_count (os_psq s) < psq_size (os_psq s)" "psq_first (os_psq s) < psq_size (os_psq s)"
  shows "\<exists>s1 s2. isr_mbx_receive m s = Some (OS_R_MBX, Some x, s1) \<and>
    psq_q (os_psq s1) = (psq_q (os_psq s))[unat (psq_first (os_psq s)) := (m, 0)] \<and>
    rt_mbx_psh m 0 s1 = Some s2 \<and> mrep m n s2 (xs @ [0])"
proof -
  define q where "q = os_psq s"
  have lt: "(ucast (psq_count q) :: u32) < ucast (psq_size q)" "(ucast (psq_first q) :: u32) < ucast (psq_size q)"
    using assms(5,6) by (simp_all add: q_def word_less_nat_alt)
  obtain c' f' where enq: "rt_psq_enq m 0 s = Some (s\<lparr>os_psq := q\<lparr>psq_count := c', psq_first := f',
      psq_q := (psq_q q)[unat (psq_first q) := (m, 0)]\<rparr>\<rparr>)"
    using lt by (simp add: rt_psq_enq_def rt_inc_qi_def Let_def q_def [symmetric])
  define u where "u = rt_psh_req (s\<lparr>os_psq := q\<lparr>psq_count := c', psq_first := f',
      psq_q := (psq_q q)[unat (psq_first q) := (m, 0)]\<rparr>\<rparr>)"
  have f: "mcb_msg u = mcb_msg s" "mcb_last u = mcb_last s" "mcb_first u = mcb_first s"
    "mcb_count u = mcb_count s" "mcb_size u = mcb_size s" "p_lnk u = p_lnk s"
    "psq_q (os_psq u) = (psq_q q)[unat (psq_first q) := (m, 0)]"
    by (simp_all add: u_def rt_psh_req_def)
  have rep: "mrep m n u (x # xs)" using assms(1) f by (simp add: mrep_def)
  define s1 where "s1 = mbx_next_last m (mbx_dec_count m u)"
  have s1: "s1 = snd (mbx_get m u)"
    by (simp add: s1_def mbx_get_def mbx_next_last_def mbx_dec_count_def Let_def)
  have g: "mcb_msg u m (mcb_last u m) = x" "mrep m n s1 xs"
    using mrep_get [OF rep] by (simp_all add: s1 mbx_get_def)
  have cnz: "mcb_count s m \<noteq> 0" using assms(1) by (auto simp: mrep_def)
  have "isr_mbx_receive m s = Some (OS_R_MBX, Some x, s1)"
    using cnz assms(2,4) enq g(1) f(1,2)
    by (simp add: isr_mbx_receive_def Let_def s1_def u_def)
  moreover have lx: "length xs < n" using assms(1) by (simp add: mrep_def ring_def)
  moreover have "rt_mbx_psh m 0 s1 = Some (mbx_put m 0 s1)"
  proof -
    have "p_lnk s1 m = NULL" using assms(3) f(6) by (simp add: s1 mbx_get_lnk)
    moreover have "mcb_count s1 m < mcb_size s1 m"
      using g(2) lx by (simp add: mrep_def word_less_nat_alt)
    ultimately show ?thesis using assms(2) by (simp add: rt_mbx_psh_def)
  qed
  moreover have "psq_q (os_psq s1) = (psq_q q)[unat (psq_first q) := (m, 0)]"
    using f(7) by (simp add: s1_def mbx_next_last_def mbx_dec_count_def Let_def)
  ultimately show ?thesis using mrep_put [OF g(2) lx, of 0] by (auto simp: q_def)
qed

theorem isr_mbx_receive_phantom_message_witness:
  "\<exists>s1 s2. isr_mbx_receive smpX (set_mcb_state smpX 2 smp) = Some (OS_R_MBX, Some 0xAB, s1) \<and>
    rt_mbx_psh smpX 0 s1 = Some s2 \<and> mrep smpX 2 s2 [0]"
proof -
  have "mrep smpX 2 (set_mcb_state smpX 2 smp) [0xAB]" using smp_mrep by (simp add: mrep_def)
  moreover have "p_lnk smp smpX = NULL" "psq_count (os_psq smp) = 0" "psq_first (os_psq smp) = 0"
    "psq_size (os_psq smp) = 4" by (simp_all add: smp_def smp_zero_def)
  ultimately show ?thesis using isr_mbx_receive_phantom_message by fastforce
qed

end
