(* ===== verification/RTX_Psq.thy ===== *)
theory RTX_Psq
  imports RTX_Task Ring
begin

text \<open>
  The post service queue: a ring in which interrupt handlers leave requests for kernel
  objects. \<open>rt_psq_enq\<close> (\<open>rt_List.c\<close>) appends a request, \<open>rt_pop_req\<close> (\<open>rt_System.c\<close>)
  serves them in order. \<open>psqrep\<close> reads the ring as a list of requests.
\<close>

section \<open>Representation\<close>

definition psqrep :: "nat \<Rightarrow> kst \<Rightarrow> (ptr \<times> u32) list \<Rightarrow> bool" where
  "psqrep n s xs \<longleftrightarrow>
     ring n (\<lambda>i. psq_q (os_psq s) ! i) (unat (psq_last (os_psq s))) (unat (psq_first (os_psq s))) xs \<and>
     unat (psq_count (os_psq s)) = length xs \<and> unat (psq_size (os_psq s)) = n \<and>
     length (psq_q (os_psq s)) = n"

lemma psqrep_cong: "os_psq s' = os_psq s \<Longrightarrow> psqrep n s' xs = psqrep n s xs"
  by (simp add: psqrep_def)

text \<open>The entry of a request when there is room for it.\<close>

definition psq_put :: "ptr \<times> u32 \<Rightarrow> kst \<Rightarrow> kst" where
  "psq_put x s = (let q = os_psq s; f = psq_first q in
     s\<lparr>os_psq := q\<lparr>psq_count := psq_count q + 1, psq_first := (if f + 1 = psq_size q then 0 else f + 1),
                    psq_q := (psq_q q)[unat f := x]\<rparr>\<rparr>)"

text \<open>The advance of \<open>rt_pop_req\<close> over one request.\<close>

definition psq_get :: "kst \<Rightarrow> (ptr \<times> u32) \<times> kst" where
  "psq_get s = (let q = os_psq s; l = psq_last q in
     (psq_q q ! unat l, s\<lparr>os_psq := q\<lparr>psq_last := (if l + 1 = psq_size q then 0 else l + 1),
                    psq_count := psq_count q - 1\<rparr>\<rparr>))"

lemma unat_next_u8:
  fixes i :: u8
  assumes "unat i < unat n"
  shows "unat (if i + 1 = n then 0 else i + 1) = ring_next (unat n) (unat i)"
proof -
  have "Suc (unat i) < 256" using assms unat_u8_less [of n] by linarith
  then have "unat (i + 1) = Suc (unat i)" by (simp add: unat_word_ariths)
  then show ?thesis by (auto simp: ring_next_def word_unat_eq_iff)
qed

lemma psqrep_put:
  assumes rep: "psqrep n s xs" and "length xs < n"
  shows "psqrep n (psq_put x s) (xs @ [x])"
proof -
  let ?q = "os_psq s"
  have r: "ring n (\<lambda>i. psq_q ?q ! i) (unat (psq_last ?q)) (unat (psq_first ?q)) xs"
    "unat (psq_count ?q) = length xs" "unat (psq_size ?q) = n" "length (psq_q ?q) = n"
    using rep by (auto simp: psqrep_def)
  have f: "unat (psq_first ?q) < n" using r(1) by (simp add: ring_def)
  have "length xs < 255" using assms(2) r(3) unat_u8_less [of "psq_size ?q"] by linarith
  then have c: "unat (psq_count ?q + 1) = Suc (length xs)" using r(2) by (simp add: unat_word_ariths)
  have "ring n (\<lambda>i. (psq_q ?q)[unat (psq_first ?q) := x] ! i) (unat (psq_last ?q))
      (ring_next n (unat (psq_first ?q))) (xs @ [x])"
    by (rule ring_put [OF r(1) assms(2)]) (use f r(4) in auto)
  then show ?thesis
    using unat_next_u8 [of "psq_first ?q" "psq_size ?q"] f r c by (simp add: psqrep_def psq_put_def Let_def)
qed

lemma psqrep_get:
  assumes rep: "psqrep n s (x # xs)"
  shows "fst (psq_get s) = x \<and> psqrep n (snd (psq_get s)) xs"
proof -
  let ?q = "os_psq s"
  have r: "ring n (\<lambda>i. psq_q ?q ! i) (unat (psq_last ?q)) (unat (psq_first ?q)) (x # xs)"
    "unat (psq_count ?q) = Suc (length xs)" "unat (psq_size ?q) = n" "length (psq_q ?q) = n"
    using rep by (auto simp: psqrep_def)
  have l: "unat (psq_last ?q) < n" using r(1) by (simp add: ring_def)
  have "(1 :: u8) \<le> psq_count ?q" using r(2) by (simp add: word_le_nat_alt)
  then have c: "unat (psq_count ?q - 1) = length xs" using r(2) by (simp add: unat_sub)
  show ?thesis
    using ring_get [OF r(1)] unat_next_u8 [of "psq_last ?q" "psq_size ?q"] l r c
    by (simp add: psqrep_def psq_get_def Let_def)
qed

interpretation psq: fifo n "psqrep n" psq_put psq_get for n
  by unfold_locales (auto simp: psqrep_put psqrep_get, auto simp: psqrep_def ring_def)

lemma rt_psq_enq_eq:
  assumes "psqrep n s xs" and "length xs < n"
  shows "rt_psq_enq p a s = Some (psq_put (p, a) s)"
proof -
  let ?q = "os_psq s"
  have r: "unat (psq_count ?q) = length xs" "unat (psq_size ?q) = n" "unat (psq_first ?q) < n"
    using assms by (auto simp: psqrep_def ring_def)
  have lt: "(ucast (psq_count ?q) :: u32) < ucast (psq_size ?q)"
    "(ucast (psq_first ?q) :: u32) < ucast (psq_size ?q)"
    using r assms(2) by (simp_all add: word_less_nat_alt)
  have mm: "a mod 4294967296 mod 256 = a mod 256" for a :: nat by (rule mod_mod_cancel) simp
  have c: "(ucast (ucast (psq_count ?q) + 1 :: u32) :: u8) = psq_count ?q + 1"
    by (simp add: word_unat_eq_iff unat_ucast_narrow unat_word_ariths mm)
  have n256: "n < 256" using r(2) unat_u8_less [of "psq_size ?q"] by simp
  have f1: "(ucast (psq_first ?q) + 1 :: u32) = ucast (psq_size ?q) \<longleftrightarrow> psq_first ?q + 1 = psq_size ?q"
    using r n256 by (auto simp: word_unat_eq_iff unat_word_ariths)
  have f: "(ucast (if (ucast (psq_first ?q) + 1 :: u32) = ucast (psq_size ?q) then 0
      else ucast (psq_first ?q) + 1 :: u32) :: u8) = (if psq_first ?q + 1 = psq_size ?q then 0 else psq_first ?q + 1)"
    using f1 by (simp add: word_unat_eq_iff unat_ucast_narrow unat_word_ariths mm)
  show ?thesis
    using lt by (simp add: rt_psq_enq_def rt_inc_qi_def Let_def psq_put_def c f)
qed

text \<open>A request that finds the queue full is fatal.\<close>

lemma rt_psq_enq_full:
  assumes "psqrep n s xs" and "length xs = n"
  shows "rt_psq_enq p a s = None"
  using assms by (simp add: psqrep_def rt_psq_enq_def rt_inc_qi_def Let_def word_less_nat_alt)

end
