(* ===== verification/RTX_Timer.thy ===== *)
theory RTX_Timer
  imports RTX_Mailbox RTX_Psq
begin

text \<open>
  The software timers of \<open>rt_CMSIS.c\<close>: active timers are kept in a list in which each
  \<open>tcnt\<close> is the number of ticks after the expiry of the timer before it. \<open>trep\<close> reads the
  list as (timer, remaining ticks) pairs; starting, stopping and the tick are shown to act
  on it as a list of alarms.
\<close>

section \<open>Status codes and helper functions\<close>

text \<open>\<open>osStatus\<close> of \<open>cmsis_os.h\<close>.\<close>

abbreviation (input) osOK :: u32 where "osOK \<equiv> 0"
abbreviation (input) osEventSignal :: u32 where "osEventSignal \<equiv> 0x08"
abbreviation (input) osEventMessage :: u32 where "osEventMessage \<equiv> 0x10"
abbreviation (input) osEventMail :: u32 where "osEventMail \<equiv> 0x20"
abbreviation (input) osEventTimeout :: u32 where "osEventTimeout \<equiv> 0x40"
abbreviation (input) osErrorParameter :: u32 where "osErrorParameter \<equiv> 0x80"
abbreviation (input) osErrorResource :: u32 where "osErrorResource \<equiv> 0x81"
abbreviation (input) osErrorTimeoutResource :: u32 where "osErrorTimeoutResource \<equiv> 0xC1"
abbreviation (input) osErrorISR :: u32 where "osErrorISR \<equiv> 0x82"
abbreviation (input) osErrorValue :: u32 where "osErrorValue \<equiv> 0x86"
abbreviation (input) osErrorOS :: u32 where "osErrorOS \<equiv> 0xFF"
abbreviation (input) osWaitForever :: u32 where "osWaitForever \<equiv> 0xFFFFFFFF"

text \<open>\<open>os_timer_type\<close> and the states of a timer.\<close>

abbreviation (input) osTimerOnce :: u8 where "osTimerOnce \<equiv> 0"
abbreviation (input) osTimerPeriodic :: u8 where "osTimerPeriodic \<equiv> 1"
abbreviation (input) osTimerInvalid :: u8 where "osTimerInvalid \<equiv> 0"
abbreviation (input) osTimerStopped :: u8 where "osTimerStopped \<equiv> 1"
abbreviation (input) osTimerRunning :: u8 where "osTimerRunning \<equiv> 2"

text \<open>\<open>sysThreadError\<close> (\<open>RTX_Conf_CM.c\<close>): a call with an error status does not come back.\<close>

definition sysThreadError :: "u32 \<Rightarrow> kst \<Rightarrow> kst option" where
  "sysThreadError status s = (if status \<noteq> osOK then None else Some s)"

definition rt_ms2tick :: "kst \<Rightarrow> u32 \<Rightarrow> u32" where
  "rt_ms2tick s millisec =
     (if millisec = osWaitForever then 0xFFFF
      else if millisec > 4000000 then 0xFFFE
      else
        let tick = (1000 * millisec + os_clockrate (os_conf s) - 1) div os_clockrate (os_conf s)
        in if tick > 0xFFFE then 0xFFFE else tick)"

definition rt_id2obj :: "ptr \<Rightarrow> ptr" where
  "rt_id2obj oid = (if oid AND 3 \<noteq> 0 then NULL else oid)"

text \<open>Sending from an interrupt handler to the timer queue, \<open>isrMessagePut\<close>.\<close>

definition isrMessagePut :: "ptr \<Rightarrow> u32 \<Rightarrow> u32 \<Rightarrow> kst \<Rightarrow> (u32 \<times> kst) option" where
  "isrMessagePut queue_id info millisec s =
     (if queue_id = NULL \<or> millisec \<noteq> 0 then Some (osErrorParameter, s)
      else if cb_type s queue_id \<noteq> MCB then Some (osErrorParameter, s)
      else do {
        n \<leftarrow> rt_mbx_check queue_id s;
        if n = 0 then Some (osErrorResource, s)
        else do {
          s \<leftarrow> isr_mbx_send queue_id info s;
          Some (osOK, s) } })"

section \<open>The list of active timers\<close>

text \<open>The search loops; the result is \<open>(prev, p)\<close>, for the insertion also what is left of \<open>tcnt\<close>.\<close>

partial_function (option) timer_insert_loop ::
  "kst \<Rightarrow> ptr \<Rightarrow> ptr \<Rightarrow> u32 \<Rightarrow> (ptr \<times> ptr \<times> u32) option" where
  "timer_insert_loop s prev p tcnt =
     (if p \<noteq> NULL then
        (if tcnt < ucast (tm_tcnt s p) then Some (prev, p, tcnt)
         else timer_insert_loop s p (tm_next s p) (tcnt - ucast (tm_tcnt s p)))
      else Some (prev, p, tcnt))"

definition rt_timer_insert :: "ptr \<Rightarrow> u32 \<Rightarrow> kst \<Rightarrow> kst option" where
  "rt_timer_insert pt tcnt s = do {
     (prev, p, tcnt) \<leftarrow> timer_insert_loop s NULL (os_timer_head s) tcnt;
     chk pt;
     let s = set_tm_next pt p s;
     let s = set_tm_tcnt pt (ucast tcnt) s;
     let s = (if p \<noteq> NULL then set_tm_tcnt p (tm_tcnt s p - tm_tcnt s pt) s else s);
     Some (if prev \<noteq> NULL then set_tm_next prev pt s else s\<lparr>os_timer_head := pt\<rparr>) }"

partial_function (option) timer_remove_loop :: "kst \<Rightarrow> ptr \<Rightarrow> ptr \<Rightarrow> ptr \<Rightarrow> (ptr \<times> ptr) option" where
  "timer_remove_loop s pt prev p =
     (if p \<noteq> NULL then
        (if p = pt then Some (prev, p) else timer_remove_loop s pt p (tm_next s p))
      else Some (prev, p))"

definition rt_timer_remove :: "ptr \<Rightarrow> kst \<Rightarrow> (int \<times> kst) option" where
  "rt_timer_remove pt s = do {
     (prev, p) \<leftarrow> timer_remove_loop s pt NULL (os_timer_head s);
     if p = NULL then Some (-1, s)
     else do {
       let s = (if prev \<noteq> NULL then set_tm_next prev (tm_next s pt) s
                else s\<lparr>os_timer_head := tm_next s pt\<rparr>);
       let s = (if tm_next s pt \<noteq> NULL
                then set_tm_tcnt (tm_next s pt) (tm_tcnt s (tm_next s pt) + tm_tcnt s pt) s else s);
       Some (0, s) } }"

section \<open>Timer services\<close>

text \<open>
  A timer definition \<open>osTimerDef_t\<close> is two words of memory: the timer function \<open>ptimer\<close>
  and the address \<open>timer\<close> of the control block.
\<close>

definition svcTimerCreate :: "ptr \<Rightarrow> u32 \<Rightarrow> u32 \<Rightarrow> kst \<Rightarrow> (ptr \<times> kst) option" where
  "svcTimerCreate timer_def type argument s =
     (if timer_def = NULL \<or> mem s timer_def = NULL then do {
        s \<leftarrow> sysThreadError osErrorParameter s; Some (NULL, s) }
      else
        let pt = mem s (timer_def + 4) in
        if pt = NULL then do { s \<leftarrow> sysThreadError osErrorParameter s; Some (NULL, s) }
        else if type \<noteq> 0 \<and> type \<noteq> 1 then do { s \<leftarrow> sysThreadError osErrorValue s; Some (NULL, s) }
        else if os_timer_thread s = NULL then do { s \<leftarrow> sysThreadError osErrorResource s; Some (NULL, s) }
        else if tm_state s pt \<noteq> osTimerInvalid then do { s \<leftarrow> sysThreadError osErrorResource s; Some (NULL, s) }
        else
          let s = set_tm_state pt osTimerStopped s;
              s = set_tm_type pt (ucast type) s;
              s = set_tm_arg pt argument s;
              s = set_tm_timer pt timer_def s
          in Some (pt, s))"

definition svcTimerStart :: "ptr \<Rightarrow> u32 \<Rightarrow> kst \<Rightarrow> (u32 \<times> kst) option" where
  "svcTimerStart timer_id millisec s =
     (let pt = rt_id2obj timer_id in
      if pt = NULL then Some (osErrorParameter, s)
      else
        let tcnt = rt_ms2tick s millisec in
        if tcnt = 0 then Some (osErrorValue, s)
        else if tm_state s pt = osTimerRunning then do {
          (res, s) \<leftarrow> rt_timer_remove pt s;
          if res \<noteq> 0 then Some (osErrorResource, s)
          else do {
            s \<leftarrow> rt_timer_insert pt tcnt s;
            Some (osOK, s) } }
        else if tm_state s pt = osTimerStopped then do {
          let s = set_tm_state pt osTimerRunning s;
          let s = set_tm_icnt pt (ucast tcnt) s;
          s \<leftarrow> rt_timer_insert pt tcnt s;
          Some (osOK, s) }
        else Some (osErrorResource, s))"

definition svcTimerStop :: "ptr \<Rightarrow> kst \<Rightarrow> (u32 \<times> kst) option" where
  "svcTimerStop timer_id s =
     (let pt = rt_id2obj timer_id in
      if pt = NULL then Some (osErrorParameter, s)
      else if tm_state s pt \<noteq> osTimerRunning then Some (osErrorResource, s)
      else do {
        let s = set_tm_state pt osTimerStopped s;
        (res, s) \<leftarrow> rt_timer_remove pt s;
        Some (if res \<noteq> 0 then osErrorResource else osOK, s) })"

definition svcTimerDelete :: "ptr \<Rightarrow> kst \<Rightarrow> (u32 \<times> kst) option" where
  "svcTimerDelete timer_id s =
     (let pt = rt_id2obj timer_id in
      if pt = NULL then Some (osErrorParameter, s)
      else if tm_state s pt = osTimerRunning then do {
        (res, s) \<leftarrow> rt_timer_remove pt s;
        Some (osOK, set_tm_state pt osTimerInvalid s) }
      else if tm_state s pt = osTimerStopped then Some (osOK, set_tm_state pt osTimerInvalid s)
      else Some (osErrorResource, s))"

text \<open>The result is the pair \<open>(fp, arg)\<close> of the structure \<open>osCallback\<close>.\<close>

definition svcTimerCall :: "ptr \<Rightarrow> kst \<Rightarrow> (u32 \<times> u32) option" where
  "svcTimerCall timer_id s =
     (let pt = rt_id2obj timer_id in
      if pt = NULL then Some (NULL, NULL)
      else do {
        chk (tm_timer s pt);
        Some (mem s (tm_timer s pt), tm_arg s pt) })"

partial_function (option) timer_tick_loop :: "ptr \<Rightarrow> kst \<Rightarrow> kst option" where
  "timer_tick_loop p s =
     (if p \<noteq> NULL \<and> tm_tcnt s p = 0 then
        let pt = p; p = tm_next s p; s = s\<lparr>os_timer_head := p\<rparr> in
        isrMessagePut (os_timer_queue s) pt 0 s \<bind> (\<lambda>(_, s).
        (if tm_type s pt = osTimerPeriodic then rt_timer_insert pt (ucast (tm_icnt s pt)) s
         else Some (set_tm_state pt osTimerStopped s)) \<bind> (\<lambda>s.
        timer_tick_loop p s))
      else Some s)"

definition sysTimerTick :: "kst \<Rightarrow> kst option" where
  "sysTimerTick s =
     (let p = os_timer_head s in
      if p = NULL then Some s
      else timer_tick_loop p (set_tm_tcnt p (tm_tcnt s p - 1) s))"

section \<open>Refinement to a list of alarms\<close>

text \<open>\<open>os_timer_head\<close> read as the link of the address \<open>NULL\<close>, as \<open>prev\<close> is used in the code.\<close>

definition tlink :: "kst \<Rightarrow> ptr \<Rightarrow> ptr" where
  "tlink s = (tm_next s)(NULL := os_timer_head s)"

definition trep :: "kst \<Rightarrow> (ptr \<times> nat) list \<Rightarrow> bool" where
  "trep s L \<longleftrightarrow> alarms (tlink s) (tm_tcnt s) L"

lemma trepD:
  assumes "trep s L"
  shows "chain (tlink s) (tlink s NULL) (map fst L)" "tseg (tm_tcnt s) 0 L"
    "\<And>x n. (x, n) \<in> set L \<Longrightarrow> n < 65536" "distinct (NULL # map fst L)"
  using alarmsD [of "tlink s" "tm_tcnt s" L] assms by (simp_all add: trep_def)

lemma trep_cong:
  "tm_next s' = tm_next s \<Longrightarrow> tm_tcnt s' = tm_tcnt s \<Longrightarrow> os_timer_head s' = os_timer_head s \<Longrightarrow>
     trep s' L = trep s L"
  by (simp add: trep_def tlink_def)

lemma timer_insert_loop_eq:
  assumes "chain (tlink s) p (map fst L)" and "tseg (tm_tcnt s) b L" and "unat tcnt + b = d"
  shows "timer_insert_loop s prev p tcnt =
    (let A = takeWhile (\<lambda>(_, n). n \<le> d) L; B = dropWhile (\<lambda>(_, n). n \<le> d) L in
     Some (last_ptr prev A, first_ptr (map fst B), of_nat (d - last_time b A)))"
  using assms
proof (induction L arbitrary: prev p b tcnt)
  case Nil
  then have "p = NULL" "tcnt = of_nat (d - b)" by auto
  then show ?case by (subst timer_insert_loop.simps) simp
next
  case (Cons a L)
  obtain x n where a: "a = (x, n)" by (cases a)
  have p: "p = x" "x \<noteq> NULL" "n = b + unat (tm_tcnt s x)" "tlink s x = tm_next s x"
    using Cons.prems a by (auto simp: tlink_def)
  have lt: "tcnt < ucast (tm_tcnt s x) \<longleftrightarrow> d < n" using p(3) Cons.prems(3) by (auto simp: word_less_nat_alt)
  show ?case
  proof (cases "d < n")
    case True
    have "tcnt = of_nat (d - b)" using Cons.prems(3) by auto
    with True lt p a show ?thesis by (subst timer_insert_loop.simps) simp
  next
    case False
    have "ucast (tm_tcnt s x) \<le> tcnt" using lt False by (simp add: not_less)
    then have "unat (tcnt - ucast (tm_tcnt s x)) + n = d"
      using False p(3) Cons.prems(3) by (simp add: unat_sub word_le_nat_alt)
    then have "timer_insert_loop s x (tm_next s x) (tcnt - ucast (tm_tcnt s x)) =
      (let A = takeWhile (\<lambda>(_, n). n \<le> d) L; B = dropWhile (\<lambda>(_, n). n \<le> d) L in
       Some (last_ptr x A, first_ptr (map fst B), of_nat (d - last_time n A)))"
      by (intro Cons.IH) (use Cons.prems a p in auto)
    with False lt p a show ?thesis by (subst timer_insert_loop.simps) (simp add: Let_def)
  qed
qed

lemma tlink_upd:
  "tlink (if q \<noteq> NULL then set_tm_next q v s else s\<lparr>os_timer_head := v\<rparr>) = (tlink s)(q := v)"
  "x \<noteq> NULL \<Longrightarrow> tlink (set_tm_next x v s) = (tlink s)(x := v)"
  "tlink (tm_tcnt_update f s) = tlink s"
  by (auto simp: tlink_def)

lemma rt_timer_insert_trep:
  assumes rep: "trep s L" and t: "t \<noteq> NULL" "t \<notin> fst ` set L" and d: "unat tcnt = d" "d < 65536"
  shows "\<exists>N C h. rt_timer_insert t tcnt s = Some (s\<lparr>tm_next := N, tm_tcnt := C, os_timer_head := h\<rparr>) \<and>
    trep (s\<lparr>tm_next := N, tm_tcnt := C, os_timer_head := h\<rparr>) (ins_tm t d L)"
proof -
  note r = trepD [OF rep]
  define A where "A = takeWhile (\<lambda>(_, n). n \<le> d) L"
  define B where "B = dropWhile (\<lambda>(_, n). n \<le> d) L"
  define q m p where "q = last_ptr NULL A" and "m = last_time 0 A" and "p = first_ptr (map fst B)"
  have loop: "timer_insert_loop s NULL (os_timer_head s) tcnt = Some (q, p, of_nat (d - m))"
    using timer_insert_loop_eq [of s "os_timer_head s" L 0 tcnt d NULL] r(1,2) d(1)
    by (simp add: tlink_def q_def m_def p_def A_def B_def Let_def)
  define e where "e = (ucast (of_nat (d - m) :: u32) :: u16)"
  have e: "unat e = d - m" using d(2) by (simp add: e_def unat_ucast_narrow unat_of_nat_u32)
  define s1 where "s1 = set_tm_tcnt t e (set_tm_next t p s)"
  define s2 where "s2 = (if p \<noteq> NULL then set_tm_tcnt p (tm_tcnt s1 p - tm_tcnt s1 t) s1 else s1)"
  define s3 where "s3 = (if q \<noteq> NULL then set_tm_next q t s2 else s2\<lparr>os_timer_head := t\<rparr>)"
  have run: "rt_timer_insert t tcnt s = Some s3"
    using loop t(1) by (simp add: rt_timer_insert_def s3_def s2_def s1_def e_def)
  have form: "s3 = s\<lparr>tm_next := tm_next s3, tm_tcnt := tm_tcnt s3, os_timer_head := os_timer_head s3\<rparr>"
    by (cases s) (simp add: s3_def s2_def s1_def)
  have "p \<noteq> t" using first_ptr_dropWhile [of _ L] t unfolding p_def B_def by (metis insert_iff)
  have pn: "p \<noteq> NULL" if "B \<noteq> []"
    unfolding p_def by (rule first_ptr_nonnull) (use that r(4) set_dropWhileD in \<open>fastforce simp: B_def\<close>)+
  have link: "tlink s3 = (tlink s)(t := p, q := t)"
    using t(1) by (simp add: s3_def tlink_upd s2_def s1_def)
  have "trep s3 (ins_tm t d L)" unfolding trep_def
  proof (rule alarms_insert [OF rep [unfolded trep_def] t _ A_def B_def])
    show "tlink s3 = (tlink s)(t := first_ptr (map fst B), last_ptr NULL A := t)"
      using link unfolding p_def q_def .
  qed (use d(2) e \<open>p \<noteq> t\<close> pn in \<open>auto simp: s3_def s2_def s1_def p_def [symmetric] m_def [symmetric]\<close>)
  with run form show ?thesis by metis
qed

lemma timer_remove_loop_eq:
  assumes "chain (tlink s) p (map fst L)"
  shows "timer_remove_loop s t prev p =
    Some (last_ptr prev (takeWhile (\<lambda>(x, _). x \<noteq> t) L), first_ptr (map fst (dropWhile (\<lambda>(x, _). x \<noteq> t) L)))"
  using assms
proof (induction L arbitrary: prev p)
  case Nil
  then show ?case by (subst timer_remove_loop.simps) simp
next
  case (Cons a L)
  obtain x n where a: "a = (x, n)" by (cases a)
  have p: "p = x" "x \<noteq> NULL" "tlink s x = tm_next s x" using Cons.prems a by (auto simp: tlink_def)
  with Cons.prems a have "chain (tlink s) (tm_next s x) (map fst L)" by simp
  from Cons.IH [OF this, of x] p a show ?case by (subst timer_remove_loop.simps) auto
qed

lemma rt_timer_remove_absent:
  assumes "trep s L" and "t \<notin> fst ` set L"
  shows "rt_timer_remove t s = Some (-1, s)"
proof -
  have dw: "dropWhile (\<lambda>(x, _). x \<noteq> t) L = []" using assms(2) by (auto simp: image_iff)
  have "chain (tlink s) (os_timer_head s) (map fst L)" using trepD(1) [OF assms(1)] by (simp add: tlink_def)
  from timer_remove_loop_eq [OF this, of t NULL] show ?thesis unfolding dw by (simp add: rt_timer_remove_def)
qed

lemma rt_timer_remove_trep:
  assumes rep: "trep s (A @ (t, n) # B)"
  shows "\<exists>N C h. rt_timer_remove t s = Some (0, s\<lparr>tm_next := N, tm_tcnt := C, os_timer_head := h\<rparr>) \<and>
    trep (s\<lparr>tm_next := N, tm_tcnt := C, os_timer_head := h\<rparr>) (A @ B)"
proof -
  note r = trepD [OF rep]
  have dist: "distinct (NULL # map fst A @ t # map fst B)" using r(4) by simp
  have tw: "takeWhile (\<lambda>(x, _). x \<noteq> t) (A @ (t, n) # B) = A"
    "dropWhile (\<lambda>(x, _). x \<noteq> t) (A @ (t, n) # B) = (t, n) # B"
    using dist by (auto simp: image_iff takeWhile_append dropWhile_append takeWhile_eq_all_conv)
  define q m p where "q = last_ptr NULL A" and "m = last_time 0 A" and "p = first_ptr (map fst B)"
  have tn: "t \<noteq> NULL" using dist by auto
  have qt: "q \<noteq> t" using dist last_ptr_in [of NULL A] by (auto simp: q_def)
  have nt: "tm_next s t = p"
    using chain_next_last [of "tlink s" NULL "map fst A @ [t]" "map fst B"] r(1) tn by (simp add: p_def tlink_def)
  have loop: "timer_remove_loop s t NULL (os_timer_head s) = Some (q, t)"
    using timer_remove_loop_eq [of s "os_timer_head s" "A @ (t, n) # B" t NULL] r(1) tw
    by (simp add: tlink_def q_def)
  define s1 where "s1 = (if q \<noteq> NULL then set_tm_next q p s else s\<lparr>os_timer_head := p\<rparr>)"
  define s2 where "s2 = (if p \<noteq> NULL then set_tm_tcnt p (tm_tcnt s p + tm_tcnt s t) s1 else s1)"
  have f1: "tm_next s1 t = p" "tm_tcnt s1 = tm_tcnt s" using qt nt by (simp_all add: s1_def)
  have run: "rt_timer_remove t s = Some (0, s2)"
    using loop tn nt qt by (simp add: rt_timer_remove_def s2_def s1_def Let_def)
  have form: "s2 = s\<lparr>tm_next := tm_next s2, tm_tcnt := tm_tcnt s2, os_timer_head := os_timer_head s2\<rparr>"
    by (cases s) (simp add: s2_def s1_def)
  have pn: "p \<noteq> NULL" if "B \<noteq> []" using that dist by (cases B) (auto simp: p_def)
  have "trep s2 (A @ B)" unfolding trep_def
  proof (rule alarms_remove [OF rep [unfolded trep_def]])
    have "tlink s t = p" using nt tn by (simp add: tlink_def)
    then show "tlink s2 = (tlink s)(last_ptr NULL A := tlink s t)" 
      using tlink_upd(1) [of q p s] by (simp add: s2_def s1_def tlink_upd(3) q_def)
  qed (use pn f1 in \<open>auto simp: s2_def p_def [symmetric]\<close>)
  with run form show ?thesis by metis
qed

section \<open>The tick\<close>

text \<open>What happens to one expired timer: a periodic one is entered again with its initial count.\<close>

definition rearm :: "kst \<Rightarrow> ptr \<Rightarrow> (ptr \<times> nat) list \<Rightarrow> (ptr \<times> nat) list" where
  "rearm s x L = (if tm_type s x = osTimerPeriodic then ins_tm x (unat (tm_icnt s x)) L else L)"

text \<open>The requests that the expiry of the timers \<open>E\<close> posts: none when the timer queue has no room.\<close>

definition tm_posts :: "kst \<Rightarrow> bool" where
  "tm_posts s \<longleftrightarrow> os_timer_queue s \<noteq> NULL \<and> cb_type s (os_timer_queue s) = MCB \<and>
     mcb_size s (os_timer_queue s) \<noteq> mcb_count s (os_timer_queue s)"

definition posts :: "kst \<Rightarrow> ptr list \<Rightarrow> (ptr \<times> u32) list" where
  "posts s E = (if tm_posts s then map (\<lambda>x. (os_timer_queue s, x)) E else [])"

text \<open>The state without the timer list, the request queue and the pending bits.\<close>

definition tmask :: "kst \<Rightarrow> kst" where
  "tmask s = s\<lparr>tm_next := \<lambda>_. 0, tm_tcnt := \<lambda>_. 0, tm_state := \<lambda>_. 0, os_timer_head := 0,
     os_psq := \<lparr>psq_first = 0, psq_last = 0, psq_count = 0, psq_size = 0, psq_q = []\<rparr>,
     pend_sv := False, os_psh_flag := False\<rparr>"

lemma tmask_upd [simp]:
  "tmask (tm_next_update f s) = tmask s" "tmask (tm_tcnt_update f1 s) = tmask s"
  "tmask (tm_state_update f2 s) = tmask s" "tmask (os_timer_head_update f3 s) = tmask s"
  "tmask (os_psq_update f4 s) = tmask s" "tmask (pend_sv_update f5 s) = tmask s"
  "tmask (os_psh_flag_update f5 s) = tmask s"
  by (simp_all add: tmask_def)

lemma tmaskD:
  assumes "tmask s' = tmask s"
  shows "tm_type s' = tm_type s" "tm_icnt s' = tm_icnt s" "os_timer_queue s' = os_timer_queue s"
    "cb_type s' = cb_type s" "mcb_size s' = mcb_size s" "mcb_count s' = mcb_count s"
    "p_lnk s' = p_lnk s" "p_rlnk s' = p_rlnk s" "p_dlnk s' = p_dlnk s" "p_blnk s' = p_blnk s"
    "delta_time s' = delta_time s" "tstate s' = tstate s" "prio s' = prio s" "tsk_run s' = tsk_run s"
    "tsk_new s' = tsk_new s" "os_time s' = os_time s"
  using assms [THEN arg_cong, of tm_type] assms [THEN arg_cong, of tm_icnt]
    assms [THEN arg_cong, of os_timer_queue] assms [THEN arg_cong, of cb_type]
    assms [THEN arg_cong, of mcb_size] assms [THEN arg_cong, of mcb_count]
    assms [THEN arg_cong, of p_lnk] assms [THEN arg_cong, of p_rlnk] assms [THEN arg_cong, of p_dlnk]
    assms [THEN arg_cong, of p_blnk] assms [THEN arg_cong, of delta_time] assms [THEN arg_cong, of tstate]
    assms [THEN arg_cong, of prio] assms [THEN arg_cong, of tsk_run] assms [THEN arg_cong, of tsk_new]
    assms [THEN arg_cong, of os_time]
  by (simp_all add: tmask_def)

lemma posts_cong:
  assumes "tmask s' = tmask s"
  shows "posts s' = posts s"
  unfolding posts_def tm_posts_def fun_eq_iff tmaskD [OF assms] by simp

lemma ucast_u16_inj: "(ucast (a :: u16) :: u32) = ucast b \<longleftrightarrow> a = b"
  by (simp add: word_unat_eq_iff [of a b] word_unat_eq_iff [of "ucast a :: u32" "ucast b"])

lemma isrMessagePut_eq:
  assumes "psqrep k s xs" and "length xs + length (posts s [x]) \<le> k"
  shows "\<exists>r s1. isrMessagePut (os_timer_queue s) x 0 s = Some (r, s1) \<and> psqrep k s1 (xs @ posts s [x]) \<and>
    s1 = s\<lparr>os_psq := os_psq s1, pend_sv := pend_sv s1, os_psh_flag := os_psh_flag s1\<rparr>"
proof (cases "tm_posts s")
  case False
  then have "\<exists>r. isrMessagePut (os_timer_queue s) x 0 s = Some (r, s)"
    by (auto simp: isrMessagePut_def tm_posts_def rt_mbx_check_def ucast_u16_inj)
  with False assms(1) show ?thesis by (auto simp: posts_def)
next
  case True
  define s1 where "s1 = rt_psh_req (psq_put (os_timer_queue s, x) s)"
  have room: "length xs < k" using True assms(2) by (simp add: posts_def)
  have "isrMessagePut (os_timer_queue s) x 0 s = Some (osOK, s1)"
    using True rt_psq_enq_eq [OF assms(1) room]
    by (simp add: isrMessagePut_def tm_posts_def rt_mbx_check_def ucast_u16_inj isr_mbx_send_def s1_def)
  moreover have "psqrep k s1 (xs @ posts s [x])"
    using psqrep_put [OF assms(1) room, of "(os_timer_queue s, x)"] True
    by (simp add: s1_def posts_def rt_psh_req_def psqrep_def)
  moreover have "s1 = s\<lparr>os_psq := os_psq s1, pend_sv := pend_sv s1, os_psh_flag := os_psh_flag s1\<rparr>"
    by (cases s) (simp add: s1_def rt_psh_req_def psq_put_def Let_def)
  ultimately show ?thesis by blast
qed

lemma ins_tm_zeros: "ins_tm x d (map (\<lambda>y. (y, 0)) E @ P) = map (\<lambda>y. (y, 0)) E @ ins_tm x d P"
  by (induction E) (auto simp: ins_tm_def)

lemma fst_ins_tm: "fst ` set (ins_tm x d P) = insert x (fst ` set P)"
  by simp

lemma rearm_cong:
  "tm_type s' = tm_type s \<Longrightarrow> tm_icnt s' = tm_icnt s \<Longrightarrow> rearm s' = rearm s"
  by (auto simp: rearm_def fun_eq_iff)

text \<open>One round of the loop: the first expired timer leaves the list, posts and is entered again.\<close>

lemma timer_tick_round:
  assumes rep: "trep s ((x, 0) # map (\<lambda>y. (y, 0)) E @ P)" and q: "psqrep k s xs"
    and room: "length xs + length (posts s [x]) \<le> k"
  shows "\<exists>u. timer_tick_loop x s = timer_tick_loop (first_ptr (map fst (map (\<lambda>y. (y, 0 :: nat)) E @ P))) u \<and>
    trep u (map (\<lambda>y. (y, 0)) E @ rearm s x P) \<and> psqrep k u (xs @ posts s [x]) \<and> tmask u = tmask s \<and>
    tm_state u = (if tm_type s x = osTimerPeriodic then tm_state s else (tm_state s)(x := osTimerStopped))"
proof -
  note r = trepD [OF rep]
  let ?L = "map (\<lambda>y. (y, 0 :: nat)) E @ P"
  have x: "x \<noteq> NULL" "tm_tcnt s x = 0" "tseg (tm_tcnt s) 0 ?L" "x \<notin> fst ` set ?L"
    using r(2,4) by (auto simp: unat_eq_0)
  have ch: "chain (tlink s) (tm_next s x) (map fst ?L)" using r(1) x(1) by (auto simp: tlink_def)
  define p where "p = tm_next s x"
  have p: "p = first_ptr (map fst ?L)" using chain_first_ptr [OF ch] by (simp add: p_def)
  define s0 where "s0 = s\<lparr>os_timer_head := p\<rparr>"
  have rep0: "trep s0 ?L"
  proof -
    have "chain (tlink s0) p (map fst ?L)"
      by (rule chain_cong [OF ch [folded p_def]]) (use chain_NULL_notin [OF ch] in \<open>auto simp: tlink_def s0_def\<close>)
    then show ?thesis using x(3) r(3) by (auto simp: trep_def alarms_def s0_def tlink_def)
  qed
  have f0: "os_timer_queue s0 = os_timer_queue s" "posts s0 = posts s" "psqrep k s0 xs" "tmask s0 = tmask s"
    "tm_state s0 = tm_state s" using q posts_cong [of s0 s] by (simp_all add: s0_def psqrep_def)
  obtain res s1 where put: "isrMessagePut (os_timer_queue s) x 0 s0 = Some (res, s1)"
    and q1: "psqrep k s1 (xs @ posts s [x])"
    and s1: "s1 = s0\<lparr>os_psq := os_psq s1, pend_sv := pend_sv s1, os_psh_flag := os_psh_flag s1\<rparr>"
    using isrMessagePut_eq [OF f0(3), of x] room f0(1,2) by auto
  have m1: "tmask s1 = tmask s" by (subst s1) (simp add: f0(4))
  have g: "tm_next s1 = tm_next s0" "tm_tcnt s1 = tm_tcnt s0" "os_timer_head s1 = os_timer_head s0"
    "tm_state s1 = tm_state s" using f0(5) by (subst s1, simp)+
  have rep1: "trep s1 ?L" using rep0 trep_cong [OF g(1-3)] by simp
  note t1 = tmaskD(1,2) [OF m1]
  have loop: "timer_tick_loop x s = ((if tm_type s1 x = osTimerPeriodic
      then rt_timer_insert x (ucast (tm_icnt s1 x)) s1 else Some (set_tm_state x osTimerStopped s1)) \<bind>
        timer_tick_loop p)"
    using x(1,2) put unfolding s0_def p_def by (subst timer_tick_loop.simps) (simp add: Let_def)
  show ?thesis
  proof (cases "tm_type s x = osTimerPeriodic")
    case False
    have "trep (set_tm_state x osTimerStopped s1) ?L"
      using rep1 trep_cong [of "set_tm_state x osTimerStopped s1" s1 ?L] by simp
    with False loop t1 g(4) m1 q1 p show ?thesis
      by (intro exI [of _ "set_tm_state x osTimerStopped s1"]) (simp add: rearm_def psqrep_def)
  next
    case True
    from rt_timer_insert_trep [OF rep1 x(1,4), of "ucast (tm_icnt s1 x)" "unat (tm_icnt s x)"] t1
    obtain N C h where ins: "rt_timer_insert x (ucast (tm_icnt s1 x)) s1 =
        Some (s1\<lparr>tm_next := N, tm_tcnt := C, os_timer_head := h\<rparr>)"
      "trep (s1\<lparr>tm_next := N, tm_tcnt := C, os_timer_head := h\<rparr>) (ins_tm x (unat (tm_icnt s x)) ?L)"
      by auto
    with True loop t1 g(4) m1 q1 p show ?thesis
      by (intro exI [of _ "s1\<lparr>tm_next := N, tm_tcnt := C, os_timer_head := h\<rparr>"])
         (simp add: rearm_def psqrep_def ins_tm_zeros)
  qed
qed

lemma posts_append: "posts s (xs @ ys) = posts s xs @ posts s ys"
  by (simp add: posts_def)

lemma tick_stop:
  assumes "trep u L" and "\<forall>(x, n)\<in>set L. 0 < n"
  shows "timer_tick_loop (first_ptr (map fst L)) u = Some u"
proof (cases L)
  case Nil then show ?thesis by (subst timer_tick_loop.simps) simp
next
  case (Cons a P')
  obtain x n where a: "a = (x, n)" by (cases a)
  have "unat (tm_tcnt u x) = n" using trepD(2) [OF assms(1)] unfolding Cons a tseg.simps by simp
  then have "tm_tcnt u x \<noteq> 0" using assms(2) Cons a by auto
  then show ?thesis using Cons a by (subst timer_tick_loop.simps) simp
qed

text \<open>
  The loop goes on with the successor of the expired timer, which is not the head when the
  timer was entered before it again; then nothing more has expired.
\<close>

lemma tick_stop_rearm:
  assumes "trep u (rearm s x P)" and "\<forall>(x, n)\<in>set P. 0 < n"
  shows "timer_tick_loop (first_ptr (map fst P)) u = Some u"
proof (cases P)
  case Nil then show ?thesis by (subst timer_tick_loop.simps) simp
next
  case (Cons a P')
  obtain p n where a: "a = (p, n)" by (cases a)
  have "tm_tcnt u p \<noteq> 0"
  proof
    assume z: "tm_tcnt u p = 0"
    have "0 < n" using assms(2) Cons a by auto
    moreover have "tseg (tm_tcnt u) 0 (rearm s x P)" by (rule trepD(2) [OF assms(1)])
    ultimately show False using z
      by (simp add: rearm_def ins_tm_def Cons a split: if_splits)
  qed
  then show ?thesis using Cons a by (subst timer_tick_loop.simps) simp
qed

lemma timer_tick_loop_spec:
  assumes "trep s (map (\<lambda>y. (y, 0)) E @ P)" and "psqrep k s xs" and "length xs + length (posts s E) \<le> k"
    and "\<forall>(x, n)\<in>set P. 0 < n" and "\<forall>x\<in>set E. tm_type s x = osTimerPeriodic \<longrightarrow> tm_icnt s x \<noteq> 0"
  shows "\<exists>u. timer_tick_loop (first_ptr (map fst (map (\<lambda>y. (y, 0 :: nat)) E @ P))) s = Some u \<and>
    trep u (fold (rearm s) E P) \<and> psqrep k u (xs @ posts s E) \<and> tmask u = tmask s \<and>
    tm_state u = (\<lambda>x. if x \<in> set E \<and> tm_type s x \<noteq> osTimerPeriodic then osTimerStopped else tm_state s x)"
  using assms
proof (induction E arbitrary: s P xs)
  case Nil
  then show ?case using tick_stop [of s P] by (auto simp: posts_def)
next
  case (Cons x E)
  have pe: "posts s (x # E) = posts s [x] @ posts s E" using posts_append [of s "[x]" E] by simp
  from timer_tick_round [of s x E P k xs] Cons.prems(1,2,3) pe obtain u where
    u: "timer_tick_loop x s = timer_tick_loop (first_ptr (map fst (map (\<lambda>y. (y, 0 :: nat)) E @ P))) u"
      "trep u (map (\<lambda>y. (y, 0)) E @ rearm s x P)" "psqrep k u (xs @ posts s [x])" "tmask u = tmask s"
      "tm_state u = (if tm_type s x = osTimerPeriodic then tm_state s else (tm_state s)(x := osTimerStopped))"
    by auto
  note t = tmaskD(1,2) [OF u(4)] and po = posts_cong [OF u(4)]
  have "0 < unat (tm_icnt s x)" if "tm_type s x = osTimerPeriodic"
    using Cons.prems(5) that unat_eq_0 [of "tm_icnt s x"] by (auto simp del: unat_eq_0)
  then have pos: "\<forall>(y, n)\<in>set (rearm s x P). 0 < n" using Cons.prems(4) by (auto simp: rearm_def)
  have head: "timer_tick_loop (first_ptr (map fst (map (\<lambda>y. (y, 0 :: nat)) E @ P))) u =
      timer_tick_loop (first_ptr (map fst (map (\<lambda>y. (y, 0 :: nat)) E @ rearm s x P))) u"
    using tick_stop_rearm [of u s x P] tick_stop [of u "rearm s x P"] u(2) pos Cons.prems(4) by (cases E) simp_all
  from Cons.IH [OF u(2,3) _ pos] Cons.prems(3,5) t po pe obtain w where
    w: "timer_tick_loop (first_ptr (map fst (map (\<lambda>y. (y, 0 :: nat)) E @ rearm s x P))) u = Some w"
      "trep w (fold (rearm u) E (rearm s x P))" "psqrep k w ((xs @ posts s [x]) @ posts u E)" "tmask w = tmask u"
      "tm_state w = (\<lambda>y. if y \<in> set E \<and> tm_type u y \<noteq> osTimerPeriodic then osTimerStopped else tm_state u y)"
    by auto
  have "tm_state w = (\<lambda>y. if y \<in> set (x # E) \<and> tm_type s y \<noteq> osTimerPeriodic then osTimerStopped else tm_state s y)"
    using w(5) u(5) t(1) by (auto simp: fun_eq_iff)
  then show ?case using w u(1,4) head pe po rearm_cong [OF t] by (intro exI [of _ w]) simp
qed

text \<open>\<open>tick_timers s L\<close>: the alarms after one tick.\<close>

definition tick_timers :: "kst \<Rightarrow> (ptr \<times> nat) list \<Rightarrow> (ptr \<times> nat) list" where
  "tick_timers s L = fold (rearm s) (expired L) (pending L)"

lemma expired_pending:
  assumes "sorted (map snd L)" and "\<forall>(x, n)\<in>set L. 0 < n"
  shows "map (\<lambda>(x, n). (x, n - 1)) L = map (\<lambda>y. (y, 0)) (expired L) @ pending L"
  using assms
proof (induction L)
  case (Cons a L)
  obtain x n where a: "a = (x, n)" by (cases a)
  show ?case
  proof (cases "n = 1")
    case True
    with Cons a show ?thesis by (auto simp: expired_def pending_def)
  next
    case False
    then have "\<forall>(y, m)\<in>set (a # L). m \<noteq> 1" using Cons.prems a by fastforce
    then have "expired (a # L) = []" "pending (a # L) = map (\<lambda>(x, n). (x, n - 1)) (a # L)"
      by (auto simp: expired_def pending_def filter_empty_conv filter_id_conv intro!: filter_True)
    then show ?thesis by simp
  qed
qed (simp add: expired_def pending_def)

lemma trep_tick:
  assumes rep: "trep s ((x, n) # L)" and "0 < n"
  shows "trep (set_tm_tcnt x (tm_tcnt s x - 1) s) (map (\<lambda>(x, n). (x, n - 1)) ((x, n) # L))"
proof -
  note r = trepD [OF rep]
  have n: "n = unat (tm_tcnt s x)" using r(2) by auto
  then have "(1 :: u16) \<le> tm_tcnt s x" using assms(2) by (simp add: word_le_nat_alt)
  then have "unat (tm_tcnt s x - 1) = n - 1" using n by (simp add: unat_diff_u16)
  then have "alarms (tlink s) ((tm_tcnt s)(x := tm_tcnt s x - 1)) (elapse 1 ((x, n) # L))"
    by (intro alarms_elapse [OF rep [unfolded trep_def]]) (use assms(2) r(4) in auto)
  then show ?thesis by (simp add: trep_def tlink_upd elapse_def)
qed

lemma sysTimerTick_spec:
  assumes rep: "trep s L" and q: "psqrep k s xs" and room: "length xs + length (posts s (expired L)) \<le> k"
    and pos: "\<forall>(x, n)\<in>set L. 0 < n"
    and per: "\<forall>x\<in>set (expired L). tm_type s x = osTimerPeriodic \<longrightarrow> tm_icnt s x \<noteq> 0"
  shows "\<exists>u. sysTimerTick s = Some u \<and> trep u (tick_timers s L) \<and>
    psqrep k u (xs @ posts s (expired L)) \<and> tmask u = tmask s \<and>
    tm_state u = (\<lambda>x. if x \<in> set (expired L) \<and> tm_type s x \<noteq> osTimerPeriodic
                      then osTimerStopped else tm_state s x)"
proof (cases L)
  case Nil
  then have "os_timer_head s = NULL" using trepD(1) [OF rep] by (simp add: tlink_def)
  then show ?thesis using Nil rep q
    by (simp add: sysTimerTick_def tick_timers_def expired_def pending_def posts_def)
next
  case (Cons a L')
  obtain x n where a: "a = (x, n)" by (cases a)
  define s0 where "s0 = set_tm_tcnt x (tm_tcnt s x - 1) s"
  have h: "os_timer_head s = x" "x \<noteq> NULL" using trepD(1) [OF rep] Cons a by (auto simp: tlink_def)
  have split: "map (\<lambda>(x, n). (x, n - 1)) L = map (\<lambda>y. (y, 0)) (expired L) @ pending L"
    using expired_pending tseg_sorted [OF trepD(2) [OF rep]] pos by blast
  have rep0: "trep s0 (map (\<lambda>y. (y, 0)) (expired L) @ pending L)"
    unfolding split [symmetric] s0_def unfolding Cons a by (rule trep_tick) (use rep pos Cons a in auto)
  have f: "posts s0 = posts s" "psqrep k s0 xs" "tm_type s0 = tm_type s" "tm_icnt s0 = tm_icnt s"
    "tm_state s0 = tm_state s" "tmask s0 = tmask s" "rearm s0 = rearm s"
    using q posts_cong [of s0 s] rearm_cong [of s0 s] by (simp_all add: s0_def psqrep_def)
  have p: "\<forall>(x, n)\<in>set (pending L). 0 < n" using pos by (auto simp: pending_def)
  have fx: "first_ptr (map fst (map (\<lambda>y. (y, 0 :: nat)) (expired L) @ pending L)) = x"
    unfolding split [symmetric] by (simp add: Cons a)
  have "sysTimerTick s = timer_tick_loop x s0" using h by (simp add: sysTimerTick_def s0_def)
  with timer_tick_loop_spec [OF rep0 f(2) _ p, unfolded f fx] room per show ?thesis
    by (simp add: tick_timers_def)
qed

section \<open>Promises of the timers\<close>

lemma filter_absent: "t \<notin> fst ` set L \<Longrightarrow> filter (\<lambda>(x, n). x \<noteq> t) L = L"
  by (intro filter_True) force

lemma ms2tick_less: "unat (rt_ms2tick s ms) < 65536"
  by (simp add: rt_ms2tick_def Let_def word_less_nat_alt not_less)

text \<open>
  For every tick length up to 294 s the conversion of a time in milliseconds to ticks
  does not overflow: the result is the time rounded up to whole ticks, at most 65534, and
  65535, the value the kernel takes for an unlimited wait, stands for \<open>osWaitForever\<close> alone.
\<close>

theorem rt_ms2tick_rounds_up:
  assumes "0 < os_clockrate (os_conf s)" "os_clockrate (os_conf s) \<le> 294967295"
  shows "(rt_ms2tick s ms = 0xFFFF \<longleftrightarrow> ms = osWaitForever) \<and>
    (ms \<le> 4000000 \<longrightarrow>
       unat (rt_ms2tick s ms) = min 65534 ((1000 * unat ms + unat (os_clockrate (os_conf s)) - 1)
                                             div unat (os_clockrate (os_conf s))))"
proof -
  define r where "r = os_clockrate (os_conf s)"
  have r: "0 < unat r" "unat r \<le> 294967295" using assms by (simp_all add: r_def word_less_nat_alt word_le_nat_alt)
  have ne: "rt_ms2tick s ms \<noteq> 0xFFFF" if "ms \<noteq> osWaitForever"
    using that by (auto simp: rt_ms2tick_def Let_def)
  have "unat (rt_ms2tick s ms) = min 65534 ((1000 * unat ms + unat r - 1) div unat r)" if "ms \<le> 4000000"
  proof -
    have m: "unat ms \<le> 4000000" using that by (simp add: word_le_nat_alt)
    have "unat (1000 * ms) = 1000 * unat ms" using m by (simp add: unat_word_ariths)
    then have "unat (1000 * ms + r) = 1000 * unat ms + unat r" using m r by (simp add: unat_word_ariths)
    moreover from this have "(1 :: u32) \<le> 1000 * ms + r" using r by (simp add: word_le_nat_alt)
    ultimately have "unat (1000 * ms + r - 1) = 1000 * unat ms + unat r - 1" by (simp add: unat_sub)
    then have q: "unat ((1000 * ms + r - 1) div r) = (1000 * unat ms + unat r - 1) div unat r"
      by (simp add: unat_div)
    have "ms \<noteq> osWaitForever" "\<not> ms > 4000000" using that by auto
    then show ?thesis using q
      by (simp add: rt_ms2tick_def Let_def r_def [symmetric] word_less_nat_alt min_def)
  qed
  moreover have "rt_ms2tick s osWaitForever = 0xFFFF" by (simp add: rt_ms2tick_def)
  ultimately show ?thesis using ne r_def by auto
qed

theorem rt_ms2tick_rounds_up_witness:
  "unat (rt_ms2tick (smp\<lparr>os_conf := (os_conf smp)\<lparr>os_clockrate := 3000\<rparr>\<rparr>) 4) = 2"
  using rt_ms2tick_rounds_up [of "smp\<lparr>os_conf := (os_conf smp)\<lparr>os_clockrate := 3000\<rparr>\<rparr>" 4] by simp

text \<open>A running timer in the sample state: \<open>smpT1\<close> fires in 2 ticks, periodically every 7.\<close>

definition smpT1 :: ptr where "smpT1 = 0x700"
definition smpT2 :: ptr where "smpT2 = 0x714"

definition smp_tm :: kst where
  "smp_tm = smp\<lparr>os_timer_head := smpT1, tm_next := (\<lambda>_. NULL), tm_tcnt := (\<lambda>_. 0)(smpT1 := 2),
     tm_icnt := (\<lambda>_. 0)(smpT1 := 7), tm_type := (\<lambda>_. osTimerOnce)(smpT1 := osTimerPeriodic),
     tm_state := (\<lambda>_. osTimerInvalid)(smpT1 := osTimerRunning, smpT2 := osTimerStopped),
     os_timer_queue := smpX\<rparr>"

lemma smp_trep: "trep smp_tm [(smpT1, 2)]"
  by (simp add: trep_def alarms_def tlink_def smp_tm_def smpT1_def)

lemma smp_psqrep: "psqrep 4 smp []"
  by (simp add: psqrep_def ring_def smp_def smp_zero_def)

text \<open>
  Starting a stopped timer enters it with its period in ticks, starting a running one
  enters it again with the new time, and stopping one takes it out; all other timers keep
  their remaining times, although only differences are stored.
\<close>

theorem timer_start_stop_refines:
  assumes "trep s L" and "pt \<noteq> NULL" "pt AND 3 = 0" and "rt_ms2tick s ms = tcnt" "tcnt \<noteq> 0"
    and "tm_state s pt \<in> {osTimerRunning, osTimerStopped}"
    and "tm_state s pt = osTimerRunning \<longleftrightarrow> pt \<in> fst ` set L"
  shows "\<exists>s1 s2. svcTimerStart pt ms s = Some (osOK, s1) \<and>
      trep s1 (ins_tm pt (unat tcnt) (filter (\<lambda>(x, n). x \<noteq> pt) L)) \<and> tm_state s1 pt = osTimerRunning \<and>
      svcTimerStop pt s1 = Some (osOK, s2) \<and> trep s2 (filter (\<lambda>(x, n). x \<noteq> pt) L) \<and>
      tm_state s2 pt = osTimerStopped"
proof -
  let ?L = "filter (\<lambda>(x, n). x \<noteq> pt) L"
  have pt: "rt_id2obj pt = pt" using assms(3) by (simp add: rt_id2obj_def)
  have tc: "unat tcnt < 65536" using ms2tick_less [of s ms] assms(4) by simp
  have new: "pt \<notin> fst ` set ?L" by auto
  have "\<exists>u. trep u ?L \<and> tm_state u pt = osTimerRunning \<and>
      svcTimerStart pt ms s = rt_timer_insert pt tcnt u \<bind> (\<lambda>s. Some (osOK, s))"
  proof (cases "tm_state s pt = osTimerRunning")
    case True
    then obtain A n B where L: "L = A @ (pt, n) # B" using assms(7) by (force dest: split_list)
    have "pt \<notin> fst ` set A" "pt \<notin> fst ` set B" using trepD(4) [OF assms(1)] L by auto
    then have fl: "?L = A @ B" using L by (simp add: filter_absent)
    from rt_timer_remove_trep [OF assms(1) [unfolded L]] obtain N C h where
      rm: "rt_timer_remove pt s = Some (0, s\<lparr>tm_next := N, tm_tcnt := C, os_timer_head := h\<rparr>)"
        "trep (s\<lparr>tm_next := N, tm_tcnt := C, os_timer_head := h\<rparr>) (A @ B)" by blast
    then show ?thesis using True pt assms(2,4,5) fl
      by (intro exI [of _ "s\<lparr>tm_next := N, tm_tcnt := C, os_timer_head := h\<rparr>"])
         (simp add: svcTimerStart_def Let_def)
  next
    case False
    then have st: "tm_state s pt = osTimerStopped" and "pt \<notin> fst ` set L" using assms(6,7) by auto
    then have fl: "?L = L" by (intro filter_absent)
    define u where "u = set_tm_icnt pt (ucast tcnt) (set_tm_state pt osTimerRunning s)"
    have "trep u L" using assms(1) trep_cong [of u s L] by (simp add: u_def)
    then show ?thesis using st pt assms(2,4,5) fl
      by (intro exI [of _ u]) (simp add: svcTimerStart_def Let_def u_def)
  qed
  then obtain u where u: "trep u ?L" "tm_state u pt = osTimerRunning"
    "svcTimerStart pt ms s = rt_timer_insert pt tcnt u \<bind> (\<lambda>s. Some (osOK, s))" by blast
  from rt_timer_insert_trep [OF u(1) assms(2) new refl tc] obtain N C h where
    ins: "rt_timer_insert pt tcnt u = Some (u\<lparr>tm_next := N, tm_tcnt := C, os_timer_head := h\<rparr>)"
      "trep (u\<lparr>tm_next := N, tm_tcnt := C, os_timer_head := h\<rparr>) (ins_tm pt (unat tcnt) ?L)" by blast
  define s1 where "s1 = u\<lparr>tm_next := N, tm_tcnt := C, os_timer_head := h\<rparr>"
  define v where "v = set_tm_state pt osTimerStopped s1"
  have s1: "trep s1 (ins_tm pt (unat tcnt) ?L)" "tm_state s1 pt = osTimerRunning"
    using ins(2) u(2) by (simp_all add: s1_def)
  then have "trep v (ins_tm pt (unat tcnt) ?L)" using trep_cong [of v s1] by (simp add: v_def)
  from rt_timer_remove_trep [OF this [unfolded ins_tm_def]] obtain s2 where
    s2: "rt_timer_remove pt v = Some (0, s2)" "trep s2 ?L" "tm_state s2 pt = osTimerStopped"
    by (auto simp: v_def)
  have "svcTimerStop pt s1 = Some (osOK, s2)"
    using s2(1) s1(2) pt assms(2) by (simp add: svcTimerStop_def Let_def v_def)
  then show ?thesis using u(3) ins(1) s1 s2 by (simp add: s1_def)
qed

theorem timer_start_stop_refines_witness:
  "\<exists>s1 s2. svcTimerStart smpT2 5 smp_tm = Some (osOK, s1) \<and> trep s1 [(smpT1, 2), (smpT2, 5)] \<and>
    svcTimerStop smpT2 s1 = Some (osOK, s2) \<and> trep s2 [(smpT1, 2)]"
proof -
  have "rt_ms2tick smp_tm 5 = 5" by (simp add: rt_ms2tick_def smp_tm_def smp_def smp_zero_def)
  from timer_start_stop_refines [OF smp_trep _ _ this, of smpT2] show ?thesis
    by (simp add: smpT1_def smpT2_def smp_tm_def ins_tm_def) blast
qed

text \<open>
  C12: one tick of \<open>sysTimerTick\<close>: exactly the timers with one tick left fire, in the order
  of the list, each posts one request for the timer thread; periodic ones are entered again
  with their period, one-shot ones are stopped, and every other timer has one tick less.
\<close>

theorem sysTimerTick_fires_expired:
  assumes "trep s L" and "psqrep k s xs" and "tm_posts s" and "length xs + length (expired L) \<le> k"
    and "\<forall>(x, n)\<in>set L. 0 < n"
    and "\<forall>x\<in>set (expired L). tm_type s x = osTimerPeriodic \<longrightarrow> tm_icnt s x \<noteq> 0"
  shows "\<exists>u. sysTimerTick s = Some u \<and> trep u (fold (rearm s) (expired L) (pending L)) \<and>
    psqrep k u (xs @ map (\<lambda>x. (os_timer_queue s, x)) (expired L)) \<and>
    (\<forall>x. tm_state u x = (if x \<in> set (expired L) \<and> tm_type s x \<noteq> osTimerPeriodic
                         then osTimerStopped else tm_state s x))"
  using sysTimerTick_spec [OF assms(1,2) _ assms(5,6)] assms(3,4) by (auto simp: posts_def tick_timers_def)

theorem sysTimerTick_fires_expired_witness:
  "\<exists>u. sysTimerTick (set_tm_tcnt smpT1 1 smp_tm) = Some u \<and> trep u [(smpT1, 7)] \<and>
    psqrep 4 u [(smpX, smpT1)] \<and> tm_state u smpT1 = osTimerRunning"
proof -
  let ?s = "set_tm_tcnt smpT1 1 smp_tm"
  have rep: "trep ?s [(smpT1, 1)]" by (simp add: trep_def alarms_def tlink_def smp_tm_def smpT1_def)
  have q: "psqrep 4 ?s []" using smp_psqrep by (simp add: psqrep_def smp_tm_def)
  have p: "tm_posts ?s" "os_timer_queue ?s = smpX" "tm_type ?s smpT1 = osTimerPeriodic"
    "tm_icnt ?s smpT1 = 7" "tm_state ?s smpT1 = osTimerRunning"
    by (simp_all add: tm_posts_def smp_tm_def smp_def smp_zero_def smpT2_def smpT1_def)
  have e: "expired [(smpT1, 1)] = [smpT1]" "pending [(smpT1, 1)] = []" by (simp_all add: expired_def pending_def)
  from sysTimerTick_fires_expired [OF rep q p(1), unfolded e p] show ?thesis
    using p(2-) by (auto simp: rearm_def ins_tm_def)
qed

text \<open>
  A periodic timer that is started again while it runs does not take the new time as
  its period: \<open>icnt\<close> is set only when a stopped timer is started, so after the next
  expiry the timer continues with the old period.
\<close>

theorem svcTimerStart_restart_keeps_period:
  assumes "trep s L" and "pt \<noteq> NULL" "pt AND 3 = 0" and "rt_ms2tick s ms \<noteq> 0"
    and "tm_state s pt = osTimerRunning" "pt \<in> fst ` set L"
  shows "\<exists>s1. svcTimerStart pt ms s = Some (osOK, s1) \<and>
    trep s1 (ins_tm pt (unat (rt_ms2tick s ms)) (filter (\<lambda>(x, n). x \<noteq> pt) L)) \<and> tm_icnt s1 pt = tm_icnt s pt"
proof -
  have tc: "unat (rt_ms2tick s ms) < 65536" by (rule ms2tick_less)
  obtain A n B where L: "L = A @ (pt, n) # B" using assms(6) by (force dest: split_list)
  have "pt \<notin> fst ` set A" "pt \<notin> fst ` set B" using trepD(4) [OF assms(1)] L by auto
  then have fl: "filter (\<lambda>(x, n). x \<noteq> pt) L = A @ B" and nin: "pt \<notin> fst ` set (A @ B)"
    using L by (auto simp: filter_absent)
  from rt_timer_remove_trep [OF assms(1) [unfolded L]] obtain N C h where
    rm: "rt_timer_remove pt s = Some (0, s\<lparr>tm_next := N, tm_tcnt := C, os_timer_head := h\<rparr>)"
      "trep (s\<lparr>tm_next := N, tm_tcnt := C, os_timer_head := h\<rparr>) (A @ B)" by blast
  from rt_timer_insert_trep [OF rm(2) assms(2) nin refl tc] obtain u where
    ins: "rt_timer_insert pt (rt_ms2tick s ms) (s\<lparr>tm_next := N, tm_tcnt := C, os_timer_head := h\<rparr>) = Some u"
      "trep u (ins_tm pt (unat (rt_ms2tick s ms)) (A @ B))" "tm_icnt u = tm_icnt s" by auto
  then show ?thesis using rm(1) assms(2-5) fl by (simp add: svcTimerStart_def rt_id2obj_def Let_def)
qed

theorem svcTimerStart_restart_keeps_period_witness:
  "\<exists>s1. svcTimerStart smpT1 100 smp_tm = Some (osOK, s1) \<and> trep s1 [(smpT1, 100)] \<and> tm_icnt s1 smpT1 = 7"
proof -
  have "rt_ms2tick smp_tm 100 = 100" by (simp add: rt_ms2tick_def smp_tm_def smp_def smp_zero_def)
  with svcTimerStart_restart_keeps_period [OF smp_trep, of smpT1 100] show ?thesis
    by (simp add: smpT1_def smpT2_def smp_tm_def ins_tm_def)
qed

end
