(* ===== verification/RTX_Event.thy ===== *)
theory RTX_Event
  imports RTX_Semaphore
begin

text \<open>
  Event flags of a task (\<open>rt_Event.c\<close>). Every task has sixteen flags; it can wait for all
  (\<open>WAIT_AND\<close>) or any (\<open>WAIT_OR\<close>) of a set of them.
\<close>

section \<open>Event operations\<close>

definition rt_evt_wait :: "u16 \<Rightarrow> u16 \<Rightarrow> bool \<Rightarrow> kst \<Rightarrow> (u32 \<times> kst) option" where
  "rt_evt_wait wait_flags timeout and_wait s = do {
     chk (tsk_run s);
     let run = tsk_run s;
     if and_wait \<and> events s run AND wait_flags = wait_flags then
       Some (OS_R_EVT, set_events run (events s run AND NOT wait_flags) s)
     else if \<not> and_wait \<and> events s run AND wait_flags \<noteq> 0 then do {
       let s = set_waits run (events s run AND wait_flags) s;
       Some (OS_R_EVT, set_events run (events s run AND NOT wait_flags) s) }
     else do {
       let block_state = (if and_wait then WAIT_AND else WAIT_OR);
       let s = set_waits run wait_flags s;
       s \<leftarrow> rt_block timeout block_state s;
       Some (OS_R_TMO, s) } }"

text \<open>
  The test that \<open>rt_evt_set\<close> and \<open>rt_evt_psh\<close> make before the label \<open>wkup\<close> (\<open>rdy\<close>); a task
  that waits for any flag keeps in \<open>waits\<close> the flags that were set.
\<close>

definition evt_check :: "ptr \<Rightarrow> kst \<Rightarrow> bool \<times> kst" where
  "evt_check p_tcb s =
     (let event_flags = waits s p_tcb in
      if tstate s p_tcb = WAIT_AND \<and> events s p_tcb AND event_flags = event_flags then (True, s)
      else if tstate s p_tcb = WAIT_OR \<and> events s p_tcb AND event_flags \<noteq> 0 then
        (True, set_waits p_tcb (waits s p_tcb AND events s p_tcb) s)
      else (False, s))"

text \<open>The statements under the label up to the task's return into the ready list.\<close>

definition evt_wkup :: "ptr \<Rightarrow> u16 \<Rightarrow> kst \<Rightarrow> kst option" where
  "evt_wkup p_tcb event_flags s = do {
     let s = set_events p_tcb (events s p_tcb AND NOT event_flags) s;
     s \<leftarrow> rt_rmv_dly p_tcb s;
     let s = set_tstate p_tcb READY s;
     rt_ret_val2 p_tcb 0x08 (ucast (waits s p_tcb)) s }"

definition rt_evt_set :: "u16 \<Rightarrow> u32 \<Rightarrow> kst \<Rightarrow> kst option" where
  "rt_evt_set event_flags tid s = do {
     p_tcb \<leftarrow> act_get tid s;
     if p_tcb = NULL then Some s
     else do {
       let s = set_events p_tcb (events s p_tcb OR event_flags) s;
       let event_flags = waits s p_tcb;
       let (hit, s) = evt_check p_tcb s;
       if hit then do {
         s \<leftarrow> evt_wkup p_tcb event_flags s;
         rt_dispatch p_tcb s }
       else Some s } }"

definition rt_evt_clr :: "u16 \<Rightarrow> u32 \<Rightarrow> kst \<Rightarrow> kst option" where
  "rt_evt_clr clear_flags tid s = do {
     task \<leftarrow> act_get tid s;
     if task = NULL then Some s
     else Some (set_events task (events s task AND NOT clear_flags) s) }"

definition isr_evt_set :: "u16 \<Rightarrow> u32 \<Rightarrow> kst \<Rightarrow> kst option" where
  "isr_evt_set event_flags tid s = do {
     p_tcb \<leftarrow> act_get tid s;
     if p_tcb = NULL then Some s
     else do {
       s \<leftarrow> rt_psq_enq p_tcb (ucast event_flags) s;
       Some (rt_psh_req s) } }"

definition rt_evt_get :: "kst \<Rightarrow> u16 option" where
  "rt_evt_get s = do {
     chk (tsk_run s);
     Some (waits s (tsk_run s)) }"

definition rt_evt_psh :: "ptr \<Rightarrow> u16 \<Rightarrow> kst \<Rightarrow> kst option" where
  "rt_evt_psh p_CB set_flags s = do {
     chk p_CB;
     let s = set_events p_CB (events s p_CB OR set_flags) s;
     let event_flags = waits s p_CB;
     let (hit, s) = evt_check p_CB s;
     if hit then do {
       s \<leftarrow> evt_wkup p_CB event_flags s;
       rt_put_prio os_rdy p_CB s }
     else Some s }"
section \<open>Functional behaviour\<close>

text \<open>What \<open>evt_check\<close> decides.\<close>

definition evt_sat :: "ptr \<Rightarrow> kst \<Rightarrow> bool" where
  "evt_sat t s \<longleftrightarrow> tstate s t = WAIT_AND \<and> events s t AND waits s t = waits s t \<or>
     tstate s t = WAIT_OR \<and> events s t AND waits s t \<noteq> 0"

text \<open>The flags a woken task is told: all it waited for, or those of them that are set.\<close>

definition evt_told :: "ptr \<Rightarrow> kst \<Rightarrow> u16" where
  "evt_told t s = (if tstate s t = WAIT_OR then waits s t AND events s t else waits s t)"

lemma evt_check_eq:
  "evt_check t s = (evt_sat t s, if evt_sat t s then set_waits t (evt_told t s) s else s)"
  by (auto simp: evt_check_def evt_sat_def evt_told_def)

lemma act_get_nonzero: "act_get tid s = Some t \<Longrightarrow> t \<noteq> NULL \<Longrightarrow> rt_evt_set fl tid s =
    (let u = set_events t (events s t OR fl) s in
     if evt_sat t u then evt_wkup t (waits u t) (set_waits t (evt_told t u) u) \<bind> rt_dispatch t
     else Some u)"
  by (simp add: rt_evt_set_def evt_check_eq Let_def)

text \<open>The state in which a woken task is dispatched, up to its place in the delay list.\<close>

definition evt_result :: "ptr \<Rightarrow> kst \<Rightarrow> kst" where
  "evt_result t u = set_mem (rt_ret_regs t u + 4) (ucast (evt_told t u))
     (set_mem (rt_ret_regs t u) 0x08
       (set_events t (events u t AND NOT (waits u t)) (set_waits t (evt_told t u) u)))"

lemma evt_wkup_kinv:
  assumes k0: "kinv u T H Q D c" and t: "t \<in> T" "t \<noteq> c" "t \<notin> queued H Q"
  shows "\<exists>w. evt_wkup t (waits u t) (set_waits t (evt_told t u) u) = Some w \<and>
    kinv (set_tstate t INACTIVE w) T H Q (undelay t D) c \<and>
    sched_mask w = sched_mask (evt_result t u) \<and> tsk_new w = tsk_new u \<and> tsk_run w = tsk_run u"
proof -
  define v where "v = set_events t (events u t AND NOT (waits u t)) (set_waits t (evt_told t u) u)"
  have kv: "kinv v T H Q D c" using k0 by (simp add: v_def)
  obtain L R X where rmv: "rt_rmv_dly t v = Some (v\<lparr>p_dlnk := L, p_blnk := R, delta_time := X\<rparr>)"
    and k1: "kinv (v\<lparr>p_dlnk := L, p_blnk := R, delta_time := X\<rparr>) T H Q (undelay t D) c"
    using kinv_rmv_dly [OF kv t(1)] by blast
  define x where "x = v\<lparr>p_dlnk := L, p_blnk := R, delta_time := X\<rparr>"
  define w where "w = set_mem (rt_ret_regs t u + 4) (ucast (evt_told t u))
    (set_mem (rt_ret_regs t u) 0x08 (set_tstate t READY x))"
  have tn: "t \<noteq> NULL" using t(1) qrepD(3) [OF kinv_qrep [OF k0]] by auto
  have "evt_wkup t (waits u t) (set_waits t (evt_told t u) u) = Some w"
    using rmv tn by (simp add: evt_wkup_def rt_ret_val2_def rt_ret_regs_def Let_def v_def w_def x_def)
  moreover have "kinv (set_tstate t INACTIVE w) T H Q (undelay t D) c"
  proof -
    have "t \<notin> set (Q os_rdy)" using t(3) qrepD(1) [OF kinv_qrep [OF k0]] by (auto simp: queued_def)
    then have "kinv (set_tstate t INACTIVE x) T H Q (undelay t D) c"
      using kinv_limbo_state [OF k1 t(2), of INACTIVE] by (simp add: x_def)
    moreover have "kinv (set_tstate t INACTIVE w) T H Q (undelay t D) c =
        kinv (set_tstate t INACTIVE x) T H Q (undelay t D) c"
      by (rule kinv_cong) (simp_all add: w_def)
    ultimately show ?thesis by simp
  qed
  moreover have "sched_mask w = sched_mask (evt_result t u)"
    by (simp add: w_def x_def v_def evt_result_def sched_mask_def lists_mask_def)
  ultimately show ?thesis by (intro exI [of _ w]) (simp add: w_def x_def v_def)
qed

text \<open>\<open>rt_dispatch\<close> does not read the state of the task it dispatches.\<close>

lemma rt_dispatch_limbo:
  "t \<noteq> NULL \<Longrightarrow> t \<noteq> tsk_run s \<Longrightarrow> rt_dispatch t (set_tstate t v s) = rt_dispatch t s"
  by (cases "tsk_run s = NULL")
    (simp_all add: rt_dispatch_def rt_put_rdy_first_def rt_switch_req_def comp_def fun_upd_twist)

lemma evt_set_wakes:
  assumes k: "kstate s T H Q D" and id: "act_get tid s = Some t" and t: "t \<in> T" "t \<notin> queued H Q"
    and u: "u = set_events t (events s t OR fl) s" and sat: "evt_sat t u"
  shows "\<exists>s'. rt_evt_set fl tid s = Some s' \<and>
    wakes (evt_result t u) s' T H Q (undelay t D) (tsk_run s) t"
proof -
  note k0 = kstateD(1) [OF k]
  have tn: "t \<noteq> NULL" using t(1) qrepD(3) [OF kinv_qrep [OF k0]] by auto
  have "tstate s t \<noteq> RUNNING" using sat u by (auto simp: evt_sat_def)
  then have tc: "t \<noteq> tsk_run s" using kinv0D(8) [OF kinvD(1) [OF k0] t(1)] by auto
  have ku: "kinv u T H Q D (tsk_run s)" using k0 by (simp add: u)
  obtain w where w: "evt_wkup t (waits u t) (set_waits t (evt_told t u) u) = Some w"
    "kinv (set_tstate t INACTIVE w) T H Q (undelay t D) (tsk_run s)"
    "sched_mask w = sched_mask (evt_result t u)" "tsk_new w = tsk_new u" "tsk_run w = tsk_run u"
    using evt_wkup_kinv [OF ku t(1) tc t(2)] by blast
  have run: "tsk_run (set_tstate t INACTIVE w) = tsk_run s" using w(5) by (simp add: u)
  obtain s' where d: "rt_dispatch t (set_tstate t INACTIVE w) = Some s'"
    "wakes (set_tstate t INACTIVE w) s' T H Q (undelay t D) (tsk_run s) t"
    using kinv_dispatch [OF w(2) run t notin_undelay tc] by blast
  have "rt_dispatch t w = Some s'"
    using d(1) rt_dispatch_limbo [of t w INACTIVE] tn tc w(5) by (simp add: u)
  then have "rt_evt_set fl tid s = Some s'"
    using act_get_nonzero [OF id tn, of fl] sat w(1) by (simp add: u Let_def)
  moreover have "wakes (evt_result t u) s' T H Q (undelay t D) (tsk_run s) t"
    using d(2) by (rule wakes_cong)
      (use w(3,4) sched_maskD(2) [OF w(3)] in \<open>simp_all add: evt_result_def\<close>)
  ultimately show ?thesis by blast
qed

lemma evt_set_no_wake:
  assumes "act_get tid s = Some t" "t \<noteq> NULL" and "\<not> evt_sat t (set_events t (events s t OR fl) s)"
  shows "rt_evt_set fl tid s = Some (set_events t (events s t OR fl) s)"
  using act_get_nonzero [OF assms(1,2), of fl] assms(3) by (simp add: Let_def)

lemma evt_wait_eq:
  "tsk_run s \<noteq> NULL \<Longrightarrow> rt_evt_wait fl tmo aw s =
     (let run = tsk_run s; got = events s run AND fl in
      if (if aw then got = fl else got \<noteq> 0) then
        Some (OS_R_EVT, set_events run (events s run AND NOT fl)
          (if aw then s else set_waits run got s))
      else map_option (Pair OS_R_TMO) (rt_block tmo (if aw then WAIT_AND else WAIT_OR) (set_waits run fl s)))"
  by (simp add: rt_evt_wait_def Let_def map_conv_bind_option comp_def)

section \<open>The contract of a kernel service\<close>

interpretation evt_set: kernel_service
  "\<lambda>s T H Q. \<exists>t\<in>T. act_get tid s = Some t \<and> (tstate s t \<in> {WAIT_AND, WAIT_OR} \<longrightarrow> t \<notin> queued H Q)"
  "rt_evt_set fl tid" for fl tid
proof
  fix s T H Q D
  assume k: "kstate s T H Q D" and "\<exists>t\<in>T. act_get tid s = Some t \<and>
    (tstate s t \<in> {WAIT_AND, WAIT_OR} \<longrightarrow> t \<notin> queued H Q)"
  then obtain t where t: "t \<in> T" "act_get tid s = Some t"
    "tstate s t \<in> {WAIT_AND, WAIT_OR} \<Longrightarrow> t \<notin> queued H Q" by blast
  have tn: "t \<noteq> NULL" using t(1) qrepD(3) [OF kinv_qrep [OF kstateD(1) [OF k]]] by auto
  define u where "u = set_events t (events s t OR fl) s"
  show "\<exists>s'. rt_evt_set fl tid s = Some s' \<and> kexit s s' T H"
  proof (cases "evt_sat t u")
    case True
    then have "t \<notin> queued H Q" using t(3) by (auto simp: evt_sat_def u_def)
    from evt_set_wakes [OF k t(2,1) this u_def True] obtain s' where s':
      "rt_evt_set fl tid s = Some s'" "wakes (evt_result t u) s' T H Q (undelay t D) (tsk_run s) t" by blast
    have "kexit (evt_result t u) s' T H"
      using s'(2) by (rule wakes_kexit) (use kstateD(2) [OF k] in \<open>simp add: evt_result_def u_def\<close>)
    then have "kexit s s' T H" by (rule kexit_mask) (simp add: evt_result_def u_def)
    with s'(1) show ?thesis by blast
  next
    case False
    have "kexit s u T H" using k by (auto simp: u_def kstate_def intro: kexitI)
    with False evt_set_no_wake [OF t(2) tn, of fl] show ?thesis by (simp add: u_def)
  qed
qed

interpretation evt_wait: kernel_service
  "\<lambda>s T H Q. tsk_run s \<noteq> os_idle_TCB" "\<lambda>s. map_option snd (rt_evt_wait fl tmo aw s)" for fl tmo aw
proof
  fix s T H Q D
  assume k: "kstate s T H Q D" and c: "tsk_run s \<noteq> os_idle_TCB"
  have rn: "tsk_run s \<noteq> NULL" using kinv_runs [OF kstateD(1) [OF k]] by simp
  have ex: "kexit s (events_update f s) T H" "kexit s (events_update f (waits_update g s)) T H" for f g
    using k by (auto simp: kstate_def intro: kexitI)
  define u where "u = set_waits (tsk_run s) fl s"
  have ku: "kstate u T H Q D" using k by (simp add: kstate_def u_def)
  have "\<exists>s'. rt_block tmo (if aw then WAIT_AND else WAIT_OR) u = Some s' \<and> kexit u s' T H"
    by (rule block_returns [OF ku]) (use c in \<open>simp_all add: u_def\<close>)
  then obtain s' where b: "rt_block tmo (if aw then WAIT_AND else WAIT_OR) u = Some s'" "kexit u s' T H" by blast
  then have "kexit s s' T H" by (auto simp: kexit_def u_def)
  then show "\<exists>s'. map_option snd (rt_evt_wait fl tmo aw s) = Some s' \<and> kexit s s' T H"
    using b(1) ex unfolding evt_wait_eq [OF rn] u_def by (auto simp: Let_def)
qed

text \<open>The post service for a task: the same, in the handler.\<close>

lemma evt_psh_spec:
  assumes k0: "ksus s T H Q D" and t: "t \<in> T"
    and u: "u = set_events t (events s t OR fl) s" and nq: "evt_sat t u \<Longrightarrow> t \<notin> queued H Q"
  shows "\<exists>s' Q' D'. rt_evt_psh t fl s = Some s' \<and> ksus s' T H Q' D' \<and> tsk_new s' = tsk_new s \<and>
    (if evt_sat t u then Q' = Q(os_rdy := ins_prio (prio s) t (Q os_rdy)) \<and> D' = undelay t D \<and>
       sched_mask s' = sched_mask (evt_result t u)
     else Q' = Q \<and> D' = D \<and> s' = u)"
proof -
  have tn: "t \<noteq> NULL" using t(1) qrepD(3) [OF ksusD(1) [OF k0]] by auto
  have call: "rt_evt_psh t fl s = (if evt_sat t u
      then evt_wkup t (waits u t) (set_waits t (evt_told t u) u) \<bind> rt_put_prio os_rdy t else Some u)"
    using tn by (simp add: rt_evt_psh_def evt_check_eq Let_def u)
  have ku: "ksus u T H Q D" using k0 by (simp add: u)
  show ?thesis
  proof (cases "evt_sat t u")
    case False
    then show ?thesis using call ku by (auto simp: u)
  next
    case True
    define v where "v = set_events t (events u t AND NOT (waits u t)) (set_waits t (evt_told t u) u)"
    have e: "set_tstate t (tstate v t) v = v" by simp
    have "ksus v T H Q D" using ku by (simp add: v_def)
    then have "ksus (set_tstate t (tstate v t) v) T H Q D" by (simp only: e)
    then obtain L R X where rmv: "rt_rmv_dly t v = Some (v\<lparr>p_dlnk := L, p_blnk := R, delta_time := X\<rparr>)"
      and k1: "ksus (set_tstate t (tstate v t) (v\<lparr>p_dlnk := L, p_blnk := R, delta_time := X\<rparr>)) T H Q
        (undelay t D)"
      using ksus_rmv_dly t by blast
    define x where "x = v\<lparr>p_dlnk := L, p_blnk := R, delta_time := X\<rparr>"
    define w where "w = set_mem (rt_ret_regs t u + 4) (ucast (evt_told t u))
      (set_mem (rt_ret_regs t u) 0x08 (set_tstate t READY x))"
    have ev: "evt_wkup t (waits u t) (set_waits t (evt_told t u) u) = Some w"
      using rmv tn by (simp add: evt_wkup_def rt_ret_val2_def rt_ret_regs_def Let_def v_def w_def x_def)
    have k2: "ksus (set_tstate t (tstate v t) w) T H Q (undelay t D)"
      using k1 ksus_cong [of "set_tstate t (tstate v t) w" "set_tstate t (tstate v t) x"]
      by (simp add: w_def x_def)
    obtain s' where put: "rt_put_prio os_rdy t w = Some s'"
      "ksus s' T H (Q(os_rdy := ins_prio (prio w) t (Q os_rdy))) (undelay t D)"
      "sched_mask s' = sched_mask w" "tsk_new s' = tsk_new w"
      using ksus_ready [OF k2 _ t nq [OF True] notin_undelay] by (auto simp: w_def)
    have "sched_mask w = sched_mask (evt_result t u)"
      by (simp add: w_def x_def v_def evt_result_def sched_mask_def lists_mask_def)
    moreover have "prio w = prio s" "tsk_new w = tsk_new s" by (simp_all add: w_def x_def v_def u)
    ultimately show ?thesis using True call ev put by auto
  qed
qed

section \<open>Promises of the event services\<close>

text \<open>
  C9: \<open>rt_evt_set\<close> sets flags of a task and wakes it exactly when the task waits for all of
  its flags and they are all set, or waits for any of them and one is set; the woken task
  is told the flags (all it waited for, or those that were set), and the flags it waited
  for are cleared.
\<close>

theorem rt_evt_set_wakes_iff:
  assumes "kstate s T H Q D" and "act_get tid s = Some t" and "t \<in> T" "t \<notin> queued H Q"
    and "u = set_events t (events s t OR fl) s"
  shows "\<exists>s'. rt_evt_set fl tid s = Some s' \<and>
    (if tstate s t = WAIT_AND \<and> events u t AND waits s t = waits s t \<or>
        tstate s t = WAIT_OR \<and> events u t AND waits s t \<noteq> 0
     then wakes (evt_result t u) s' T H Q (undelay t D) (tsk_run s) t \<and>
       events s' t = (events s t OR fl) AND NOT (waits s t) \<and>
       mem s' (rt_ret_regs t s) = 0x08 \<and>
       mem s' (rt_ret_regs t s + 4) = ucast (evt_told t u)
     else s' = u)"
proof (cases "evt_sat t u")
  case True
  obtain s' where s': "rt_evt_set fl tid s = Some s'"
    "wakes (evt_result t u) s' T H Q (undelay t D) (tsk_run s) t"
    using evt_set_wakes [OF assms(1-4,5) True] by blast
  note m = sched_maskD [OF wakes_mask [OF s'(2)]]
  have ne: "rt_ret_regs t s \<noteq> rt_ret_regs t s + 4" by simp
  show ?thesis using s' True m(7,9) ne assms(5)
    by (auto simp: evt_sat_def evt_result_def rt_ret_regs_def)
next
  case False
  have "t \<noteq> NULL" using assms(3) qrepD(3) [OF kinv_qrep [OF kstateD(1) [OF assms(1)]]] by auto
  then show ?thesis using False evt_set_no_wake [OF assms(2), of fl] assms(5)
    by (auto simp: evt_sat_def)
qed

text \<open>The sample system with B waiting for any of two event flags instead of the semaphore.\<close>

definition smp_evt :: kst where
  "smp_evt = smp\<lparr>p_lnk := (p_lnk smp)(smpS := NULL), p_rlnk := (\<lambda>_. NULL),
     tstate := (tstate smp)(smpB := WAIT_OR), waits := (\<lambda>_. 5)\<rparr>"

lemma smp_evt_kstate: "kstate smp_evt smpT smpH (smpQ(smpS := [])) smpD"
proof -
  have "qrep smp_evt smpT smpH (smpQ(smpS := []))"
    by (auto simp: qrep_def queued_def sem_mbx_def smp_evt_def smp_def smpT_def smpH_def smpQ_def smp_defs)
  moreover have "drep smp_evt smpT smpD" by (rule drep_cong [OF smp_drep]) (simp_all add: smp_evt_def)
  ultimately have "kinv smp_evt smpT smpH (smpQ(smpS := [])) smpD smpA"
    unfolding kinv_def kinv0_def
    by (auto simp: queued_def smp_evt_def smp_def smpT_def smpH_def smpQ_def smpD_def smp_defs)
  then show ?thesis by (simp add: kstate_def smp_evt_def)
qed

theorem rt_evt_set_wakes_iff_witness:
  "\<exists>s'. rt_evt_set 4 2 smp_evt = Some s' \<and> tsk_new s' = smpB \<and> events s' smpB = 0"
proof -
  have f: "act_get 2 smp_evt = Some smpB" "tstate smp_evt smpB = WAIT_OR" "waits smp_evt smpB = 5"
    "events smp_evt smpB = 0" "prio smp_evt smpB = 3" "prio smp_evt smpA = 2" "tsk_run smp_evt = smpA"
    by (simp_all add: smp_evt_def smp_def smp_zero_def act_get_def smp_defs)
  moreover have "smpB \<notin> queued smpH (smpQ(smpS := []))"
    by (auto simp: queued_def smpH_def smpQ_def smp_defs)
  moreover have "(4 AND 5 :: u16) = 4" "(4 AND NOT 5 :: u16) = 0" by simp_all
  ultimately show ?thesis
    using rt_evt_set_wakes_iff [OF smp_evt_kstate, of 2 smpB _ 4, OF _ _ _ refl]
    by (auto simp: wakes_def evt_result_def)
qed

text \<open>
  A satisfied \<open>rt_evt_wait\<close> returns at once with \<open>OS_R_EVT\<close>, clears the flags it
  waited for and keeps the others; an unsatisfied one blocks the caller in the state
  \<open>WAIT_AND\<close> or \<open>WAIT_OR\<close>, with its flags unchanged, until a timeout or \<open>rt_evt_set\<close>.
\<close>

theorem rt_evt_wait_returns_or_blocks:
  assumes "kstate s T H Q D" and "tsk_run s \<noteq> os_idle_TCB" and "tmo \<noteq> 0"
    and "got = events s (tsk_run s) AND fl"
  shows "if (if aw then got = fl else got \<noteq> 0)
    then \<exists>s'. rt_evt_wait fl tmo aw s = Some (OS_R_EVT, s') \<and>
      events s' = (events s)(tsk_run s := events s (tsk_run s) AND NOT fl) \<and> tsk_new s' = tsk_run s
    else \<exists>s' n xs. rt_evt_wait fl tmo aw s = Some (OS_R_TMO, s') \<and> Q os_rdy = n # xs \<and>
      kinv s' T H (Q(os_rdy := xs))
        (if tmo < 0xffff then ins_dly (tsk_run s) (unat tmo) D else D) n \<and> tsk_new s' = n \<and>
      tstate s' = (tstate s)(tsk_run s := (if aw then WAIT_AND else WAIT_OR), n := RUNNING) \<and>
      waits s' (tsk_run s) = fl \<and> events s' = events s"
proof -
  note k0 = kstateD(1) [OF assms(1)]
  have rn: "tsk_run s \<noteq> NULL" using kinv_runs [OF k0] by simp
  define u where "u = set_waits (tsk_run s) fl s"
  have ku: "kinv0 u T H Q D (tsk_run s)" "tsk_run u = tsk_run s"
    using kinvD(1) [OF k0] by (simp_all add: u_def)
  have st: "(if aw then WAIT_AND else WAIT_OR) \<noteq> READY" "(if aw then WAIT_AND else WAIT_OR) \<noteq> RUNNING"
    by simp_all
  obtain s' n xs where b: "Q os_rdy = n # xs"
    "rt_block tmo (if aw then WAIT_AND else WAIT_OR) u = Some s'" "tsk_new s' = n"
    "kinv s' T H (Q(os_rdy := xs)) (if tmo < 0xffff then ins_dly (tsk_run s) (unat tmo) D else D) n"
    "sched_mask s' = sched_mask u"
    "tstate s' = (tstate u)(tsk_run s := (if aw then WAIT_AND else WAIT_OR), n := RUNNING)"
    using kinv_block [OF ku assms(2,3) st] by blast
  have "waits s' (tsk_run s) = fl" "events s' = events s"
    using sched_maskD(9,10) [OF b(5)] by (simp_all add: u_def)
  then show ?thesis
    using b kstateD(2) [OF assms(1)] unfolding evt_wait_eq [OF rn] Let_def assms(4) [symmetric]
    by (auto simp: u_def)
qed

theorem rt_evt_wait_returns_or_blocks_witness:
  "\<exists>s'. rt_evt_wait 6 9 True smp = Some (OS_R_TMO, s') \<and> tsk_new s' = smpC \<and>
    tstate s' smpA = WAIT_AND \<and> waits s' smpA = 6"
  using rt_evt_wait_returns_or_blocks [OF smp_kstate _ _ refl, where tmo = 9 and fl = 6 and aw = True]
  by (auto simp: smp_def smp_zero_def)

end
