(* ===== verification/RTX_System.thy ===== *)
theory RTX_System
  imports RTX_Timer RTX_Event
begin

text \<open>
  The system handlers of \<open>rt_System.c\<close>: the tick, the service of the requests that
  interrupt handlers have posted, and suspending the scheduler during a sleep.
\<close>

section \<open>Handlers\<close>

definition rt_systick :: "kst \<Rightarrow> kst option" where
  "rt_systick s = do {
     chk (tsk_run s);
     let s = set_tstate (tsk_run s) READY s;
     s \<leftarrow> rt_put_rdy_first (tsk_run s) s;
     s \<leftarrow> rt_chk_robin s;
     let s = s\<lparr>os_time := os_time s + 1\<rparr>;
     s \<leftarrow> rt_dec_dly s;
     s \<leftarrow> sysTimerTick s;
     (next, s) \<leftarrow> rt_get_first os_rdy s;
     rt_switch_req next s }"

text \<open>The dispatch on the type of the object of one request.\<close>

definition pop_req_serve :: "ptr \<times> u32 \<Rightarrow> kst \<Rightarrow> kst option" where
  "pop_req_serve r s = (case r of (p_CB, arg) \<Rightarrow> do {
     chk p_CB;
     if cb_type s p_CB = TCB then rt_evt_psh p_CB (ucast arg) s
     else if cb_type s p_CB = MCB then rt_mbx_psh p_CB arg s
     else rt_sem_psh p_CB s })"

text \<open>
  The loop of \<open>rt_pop_req\<close>; \<open>os_psq->last\<close> is written only behind it. An access outside of
  the ring has no result.
\<close>

partial_function (option) pop_req_loop :: "u32 \<Rightarrow> kst \<Rightarrow> (u32 \<times> kst) option" where
  "pop_req_loop idx s =
     (if psq_count (os_psq s) \<noteq> 0 then
        (if unat idx < length (psq_q (os_psq s))
         then pop_req_serve (psq_q (os_psq s) ! unat idx) s else None) \<bind> (\<lambda>s.
        let idx = idx + 1;
            idx = (if idx = ucast (psq_size (os_psq s)) then 0 else idx);
            s = s\<lparr>os_psq := (os_psq s)\<lparr>psq_count := psq_count (os_psq s) - 1\<rparr>\<rparr>
        in pop_req_loop idx s)
      else Some (idx, s))"

definition rt_pop_req :: "kst \<Rightarrow> kst option" where
  "rt_pop_req s = do {
     chk (tsk_run s);
     let s = set_tstate (tsk_run s) READY s;
     s \<leftarrow> rt_put_rdy_first (tsk_run s) s;
     (idx, s) \<leftarrow> pop_req_loop (ucast (psq_last (os_psq s))) s;
     let s = s\<lparr>os_psq := (os_psq s)\<lparr>psq_last := ucast idx\<rparr>\<rparr>;
     (next, s) \<leftarrow> rt_get_first os_rdy s;
     rt_switch_req next s }"

definition rt_suspend :: "kst \<Rightarrow> u32 \<times> kst" where
  "rt_suspend s =
     (let s = rt_tsk_lock s
      in (if p_dlnk s os_dly \<noteq> NULL then ucast (delta_time s os_dly) else 0xFFFF, s))"

partial_function (option) resume_loop :: "u32 \<Rightarrow> kst \<Rightarrow> kst option" where
  "resume_loop delta s =
     (if p_dlnk s os_dly \<noteq> NULL then
        rt_dec_dly s \<bind> (\<lambda>s.
        if delta = 0 then Some s
        else resume_loop (delta - 1) (s\<lparr>os_time := os_time s + 1\<rparr>))
      else Some s)"

text \<open>The update of delays and time in \<open>rt_resume\<close>.\<close>

definition resume_delays :: "u32 \<Rightarrow> kst \<Rightarrow> kst option" where
  "resume_delays sleep_time s =
     (if p_dlnk s os_dly \<noteq> NULL then
        (if sleep_time \<ge> ucast (delta_time s os_dly) then
           let delta = sleep_time - ucast (delta_time s os_dly);
               s = s\<lparr>os_time := os_time s + ucast (delta_time s os_dly)\<rparr>;
               s = set_delta_time os_dly 1 s
           in resume_loop delta s
         else
           let s = s\<lparr>os_time := os_time s + sleep_time\<rparr>
           in Some (set_delta_time os_dly (ucast (ucast (delta_time s os_dly) - sleep_time)) s))
      else Some (s\<lparr>os_time := os_time s + sleep_time\<rparr>))"

definition rt_resume :: "u32 \<Rightarrow> kst \<Rightarrow> kst option" where
  "rt_resume sleep_time s = do {
     chk (tsk_run s);
     let s = set_tstate (tsk_run s) READY s;
     s \<leftarrow> rt_put_rdy_first (tsk_run s) s;
     let s = s\<lparr>os_robin := (os_robin s)\<lparr>rr_task := NULL\<rparr>\<rparr>;
     s \<leftarrow> resume_delays sleep_time s;
     (next, s) \<leftarrow> rt_get_first os_rdy s;
     s \<leftarrow> rt_switch_req next s;
     Some (rt_tsk_unlock s) }"

section \<open>The tick\<close>

lemma fold_wake_rdy:
  assumes "distinct E"
  shows "set (fold (wake_rdy pr) E Q os_rdy) = set E \<union> set (Q os_rdy)"
    and "h \<noteq> os_rdy \<Longrightarrow> set (fold (wake_rdy pr) E Q h) \<subseteq> set (Q h)"
    and "(prio_sorted pr (Q h)) \<Longrightarrow> prio_sorted pr (fold (wake_rdy pr) E Q h)"
proof -
  show "set (fold (wake_rdy pr) E Q os_rdy) = set E \<union> set (Q os_rdy)"
    by (induction E arbitrary: Q) (auto simp: wake_rdy_def)
  show "h \<noteq> os_rdy \<Longrightarrow> set (fold (wake_rdy pr) E Q h) \<subseteq> set (Q h)"
  proof (induction E arbitrary: Q)
    case (Cons a E)
    have "set (fold (wake_rdy pr) E (wake_rdy pr a Q) h) \<subseteq> set (wake_rdy pr a Q h)"
      by (rule Cons.IH [OF Cons.prems])
    also have "\<dots> \<subseteq> set (Q h)" using Cons.prems set_remove1_subset [of a "Q h"] by (simp add: wake_rdy_def)
    finally show ?case by simp
  qed simp
  show "prio_sorted pr (Q h) \<Longrightarrow> prio_sorted pr (fold (wake_rdy pr) E Q h)"
  proof (induction E arbitrary: Q)
    case (Cons a E)
    have "prio_sorted pr (wake_rdy pr a Q h)"
      using Cons.prems prio_sorted_remove1 [of pr "Q h" a] prio_sorted_ins_prio [of pr "Q h" a]
      by (cases "h = os_rdy") (simp_all add: wake_rdy_def)
    then show ?case using Cons.IH [of "wake_rdy pr a Q"] by simp
  qed simp
qed

lemma ksus_dec_dly:
  assumes k0: "ksus s T H Q D"
  shows "\<exists>s'. rt_dec_dly s = Some s' \<and> ksus s' T H (fold (wake_rdy (prio s)) (expired D) Q) (pending D) \<and>
    lists_mask s' = lists_mask s \<and>
    (\<forall>x. tstate s' x = (if x \<in> set (expired D) then READY else tstate s x))"
proof -
  note k = ksusD [OF k0]
  from rt_dec_dly_spec [OF k(1,2,4,7)] obtain s' where
    s': "rt_dec_dly s = Some s'" "qrep s' T H (fold (wake_rdy (prio s)) (expired D) Q)" "drep s' T (pending D)"
      "\<forall>x. tstate s' x = (if x \<in> set (expired D) then READY else tstate s x)" "lists_mask s' = lists_mask s"
    by blast
  have dis: "distinct (map fst D)" using drep_distinct [OF k(2)] by simp
  have ex: "distinct (expired D)" unfolding expired_def by (rule distinct_map_filter [OF dis])
  have sub: "set (expired D) \<subseteq> fst ` set D" "fst ` set (pending D) \<subseteq> fst ` set D"
    by (force simp: expired_def pending_def)+
  have disj: "set (expired D) \<inter> fst ` set (pending D) = {}"
  proof -
    have "n = m" if "(t, n) \<in> set D" "(t, m) \<in> set D" for t n m using dis that by (rule eq_key_imp_eq_value)
    then show ?thesis by (auto simp: expired_def pending_def)
  qed
  note fw = fold_wake_rdy [OF ex, where pr = "prio s" and Q = Q]
  have pr: "prio s' = prio s" by (rule lists_maskD(2) [OF s'(5)])
  have "ksus s' T H (fold (wake_rdy (prio s)) (expired D) Q) (pending D)"
    unfolding ksus_def
  proof (intro conjI ballI)
    show "prio_sorted (prio s') (fold (wake_rdy (prio s)) (expired D) Q h)" if "h \<in> H" for h
      unfolding pr using fw(3) k(3) [OF that] by blast
    show "\<And>x. x \<in> set (pending D) \<Longrightarrow> (\<lambda>(t, n). 0 < n) x" using k(4) by (auto simp: pending_def)
    show "tstate s' t \<noteq> RUNNING" if "t \<in> T" for t using s'(4) k(5) [OF that] by auto
    show "(tstate s' t = READY) = (t \<in> set (fold (wake_rdy (prio s)) (expired D) Q os_rdy))" if "t \<in> T" for t
      using s'(4) k(6) [OF that] fw(1) by auto
    show "fst ` set (pending D) \<inter> set (fold (wake_rdy (prio s)) (expired D) Q os_rdy) = {}"
      unfolding fw(1) using k(7) sub disj by blast
    show "os_idle_TCB \<in> set (fold (wake_rdy (prio s)) (expired D) Q os_rdy)" using fw(1) k(8) by simp
  qed (use s'(2,3) in auto)
  with s' show ?thesis by blast
qed

lemma ksus_tmask:
  assumes "tmask s' = tmask s"
  shows "ksus s' T H Q D = ksus s T H Q D"
  by (rule ksus_cong) (rule tmaskD [OF assms])+

text \<open>The state without what the list layer, the round robin and the clock write.\<close>

definition smask :: "kst \<Rightarrow> kst" where
  "smask s = (sched_mask s)\<lparr>os_robin := \<lparr>rr_task = 0, rr_time = 0, rr_tout = 0\<rparr>, os_time := 0\<rparr>"

lemma smask_upd [simp]:
  "smask (os_robin_update f s) = smask s" "smask (os_time_update g s) = smask s"
  by (simp_all add: smask_def sched_mask_def lists_mask_def)

lemma smask_sched: "sched_mask s' = sched_mask s \<Longrightarrow> smask s' = smask s"
  by (simp add: smask_def)

lemma smask_timers:
  assumes "smask s' = smask s"
  shows "trep s' L = trep s L" "psqrep k s' xs = psqrep k s xs" "posts s' = posts s" "rearm s' = rearm s"
    "tm_type s' = tm_type s" "tm_icnt s' = tm_icnt s" "tsk_run s' = tsk_run s" "prio s' = prio s"
proof -
  have f: "tm_next s' = tm_next s" "tm_tcnt s' = tm_tcnt s" "os_timer_head s' = os_timer_head s"
    "os_timer_queue s' = os_timer_queue s" "mcb_size s' = mcb_size s" "mcb_count s' = mcb_count s"
    "cb_type s' = cb_type s" and q: "os_psq s' = os_psq s"
    and g: "tm_type s' = tm_type s" "tm_icnt s' = tm_icnt s" "tsk_run s' = tsk_run s" "prio s' = prio s"
    using arg_cong [OF assms, of tm_next] arg_cong [OF assms, of tm_tcnt] arg_cong [OF assms, of os_timer_head]
      arg_cong [OF assms, of os_timer_queue] arg_cong [OF assms, of mcb_size] arg_cong [OF assms, of mcb_count]
      arg_cong [OF assms, of tm_type] arg_cong [OF assms, of tm_icnt] arg_cong [OF assms, of tsk_run]
      arg_cong [OF assms, of prio] arg_cong [OF assms, of cb_type] arg_cong [OF assms, of os_psq]
    by (simp_all add: smask_def sched_mask_def lists_mask_def)
  show "trep s' L = trep s L" by (rule trep_cong [OF f(1-3)])
  show "psqrep k s' xs = psqrep k s xs" by (rule psqrep_cong [OF q])
  show "posts s' = posts s" unfolding posts_def tm_posts_def fun_eq_iff f by simp
  show "rearm s' = rearm s" by (rule rearm_cong [OF g(1,2)])
  show "tm_type s' = tm_type s" "tm_icnt s' = tm_icnt s" "tsk_run s' = tsk_run s" "prio s' = prio s"
    by (rule g)+
qed

text \<open>The part of the tick between entering the handler and selecting the next task.\<close>

lemma systick_middle:
  assumes k0: "ksus s T H Q D" and Q: "Q os_rdy = n # xs"
    and rep: "trep s L" "psqrep k s rs" "length rs + length (posts s (expired L)) \<le> k"
      "\<forall>(x, n)\<in>set L. 0 < n"
      "\<forall>x\<in>set (expired L). tm_type s x = osTimerPeriodic \<longrightarrow> tm_icnt s x \<noteq> 0"
  shows "\<exists>s' Q'. (do { s \<leftarrow> rt_chk_robin s; s \<leftarrow> rt_dec_dly (s\<lparr>os_time := os_time s + 1\<rparr>); sysTimerTick s }) = Some s' \<and>
    ksus s' T H Q' (pending D) \<and> set (Q' os_rdy) = set (expired D) \<union> set (Q os_rdy) \<and>
    os_time s' = os_time s + 1 \<and> tsk_run s' = tsk_run s \<and>
    trep s' (tick_timers s L) \<and> psqrep k s' (rs @ posts s (expired L))"
proof -
  from ksus_chk_robin [OF k0 Q] obtain s1 ys where s1: "rt_chk_robin s = Some s1"
    "ksus s1 T H (Q(os_rdy := ys)) D" "ys \<in> {n # xs, ins_prio (prio s) n xs}"
    "sched_mask (s1\<lparr>os_robin := os_robin s\<rparr>) = sched_mask s" by blast
  define u where "u = s1\<lparr>os_time := os_time s1 + 1\<rparr>"
  have ku: "ksus u T H (Q(os_rdy := ys)) D" using s1(2) by (simp add: u_def)
  have ys: "set ys = set (Q os_rdy)" using s1(3) Q by auto
  from ksus_dec_dly [OF ku] obtain s2 where s2: "rt_dec_dly u = Some s2"
    "ksus s2 T H (fold (wake_rdy (prio u)) (expired D) (Q(os_rdy := ys))) (pending D)"
    "lists_mask s2 = lists_mask u" by blast
  have m: "smask s2 = smask s"
    using smask_sched [OF s1(4)] smask_sched [OF sched_mask_lists [OF s2(3)]] by (simp add: u_def)
  have t: "os_time s2 = os_time s + 1"
    using lists_maskD(5) [OF s2(3)] sched_maskD(4) [OF s1(4)] by (simp add: u_def)
  have dis: "distinct (expired D)"
    unfolding expired_def using drep_distinct [OF ksusD(2) [OF k0]] by (intro distinct_map_filter) simp
  note e = smask_timers [OF m]
  from sysTimerTick_spec [of s2 L k rs] rep e obtain s3 where s3: "sysTimerTick s2 = Some s3"
    "trep s3 (tick_timers s2 L)" "psqrep k s3 (rs @ posts s (expired L))" "tmask s3 = tmask s2" by auto
  have "ksus s3 T H (fold (wake_rdy (prio u)) (expired D) (Q(os_rdy := ys))) (pending D)"
    using s2(2) ksus_tmask [OF s3(4)] by simp
  moreover have "set (fold (wake_rdy (prio u)) (expired D) (Q(os_rdy := ys)) os_rdy) = set (expired D) \<union> set (Q os_rdy)"
    using fold_wake_rdy(1) [OF dis] ys by simp
  moreover have "tick_timers s2 L = tick_timers s L" using e(4) by (simp add: tick_timers_def)
  moreover have "os_time s3 = os_time s + 1" "tsk_run s3 = tsk_run s"
    using tmaskD(14,16) [OF s3(4)] t e(7) by simp_all
  ultimately show ?thesis using s1(1) s2(1) s3(1-3) by (auto simp: u_def)
qed

section \<open>Promises of the handlers\<close>

section \<open>Service of the posted requests\<close>

text \<open>What the requests need: their objects exist and mailboxes have room for the messages.\<close>

definition reqs_of :: "ptr \<Rightarrow> (ptr \<times> u32) list \<Rightarrow> nat" where
  "reqs_of h rs = length (filter (\<lambda>(p, _). p = h) rs)"

lemma reqs_of_Cons [simp]: "reqs_of h ((p, a) # rs) = (if p = h then Suc (reqs_of h rs) else reqs_of h rs)"
  "reqs_of h [] = 0"
  by (simp_all add: reqs_of_def)

definition req_ok :: "ptr set \<Rightarrow> ptr set \<Rightarrow> (ptr \<Rightarrow> ptr list) \<Rightarrow> kst \<Rightarrow> (ptr \<times> u32) list \<Rightarrow> bool" where
  "req_ok T H Q s rs \<longleftrightarrow>
     (\<forall>(p, a)\<in>set rs. (cb_type s p = TCB \<and> p \<in> T) \<or> (cb_type s p \<noteq> TCB \<and> p \<in> H \<and> p \<noteq> os_rdy)) \<and>
     (\<forall>(p, a)\<in>set rs. cb_type s p = MCB \<longrightarrow>
        unat (mcb_count s p) + reqs_of p rs \<le> unat (mcb_size s p) \<and>
        (Q p \<noteq> [] \<longrightarrow> mcb_state s p \<in> {1, 2, 3}) \<and> (mcb_state s p = 3 \<longrightarrow> a \<noteq> NULL)) \<and>
     (\<forall>t\<in>T. tstate s t \<in> {WAIT_AND, WAIT_OR} \<longrightarrow> t \<notin> queued H Q)"

text \<open>None of the post functions changes a task state but to \<open>READY\<close>.\<close>

lemma list_ops_tstate:
  "rt_put_prio h t s = Some s' \<Longrightarrow> tstate s' = tstate s"
  "rt_get_first h s = Some (p, s') \<Longrightarrow> tstate s' = tstate s"
  "rt_rmv_dly t s = Some s' \<Longrightarrow> tstate s' = tstate s"
  "rt_ret_val t v s = Some s' \<Longrightarrow> tstate s' = tstate s"
  "rt_ret_val2 t v w s = Some s' \<Longrightarrow> tstate s' = tstate s"
  "rt_alloc_box b s = Some (p, s') \<Longrightarrow> tstate s' = tstate s"
  by (auto simp: rt_put_prio_def rt_get_first_def rt_rmv_dly_def rt_ret_val_def rt_ret_val2_def rt_alloc_box_def
      Let_def bind_eq_Some_conv split: if_splits prod.splits)

lemma sem_psh_tstate: "rt_sem_psh h s = Some s' \<Longrightarrow> tstate s' t \<in> {tstate s t, READY}"
  by (auto simp: rt_sem_psh_def bind_eq_Some_conv dest!: list_ops_tstate split: if_splits)

lemma evt_psh_tstate: "rt_evt_psh h fl s = Some s' \<Longrightarrow> tstate s' t \<in> {tstate s t, READY}"
  by (auto simp: rt_evt_psh_def evt_check_eq evt_wkup_def Let_def bind_eq_Some_conv
      dest!: list_ops_tstate split: if_splits)

lemma mbx_put_tstate [simp]: "tstate (mbx_put h m s) = tstate s"
  by (simp add: mbx_put_def mbx_inc_count_def Let_def)

lemma mbx_psh_tstate:
  assumes "rt_mbx_psh h m s = Some s'"
  shows "tstate s' t \<in> {tstate s t, READY}"
proof -
  have "h \<noteq> NULL" using assms by (auto simp: rt_mbx_psh_def)
  consider (three) "p_lnk s h \<noteq> NULL" "mcb_state s h = 3" | (two) "p_lnk s h \<noteq> NULL" "mcb_state s h = 2"
    | (one) "p_lnk s h \<noteq> NULL" "mcb_state s h = 1"
    | (other) "p_lnk s h = NULL \<or> mcb_state s h \<notin> {1, 2, 3}" by auto
  then show ?thesis
  proof cases
    case three
    then obtain b s1 where a: "rt_alloc_box m s = Some (b, s1)"
      using assms by (auto simp: rt_mbx_psh_def bind_eq_Some_conv)
    show ?thesis
    proof (cases "b = NULL")
      case True
      then show ?thesis using assms three a list_ops_tstate(6) [OF a] by (simp add: rt_mbx_psh_def)
    next
      case False
      then obtain p s2 s3 s4 where w: "rt_get_first h s1 = Some (p, s2)" "rt_ret_val p b s2 = Some s3"
        "rt_rmv_dly p (set_tstate p READY s3) = Some s4" "rt_put_prio os_rdy p s4 = Some s'"
        using assms three a by (auto simp: rt_mbx_psh_def bind_eq_Some_conv)
      show ?thesis
        using list_ops_tstate(1) [OF w(4)] list_ops_tstate(3) [OF w(3)] list_ops_tstate(4) [OF w(2)]
          list_ops_tstate(2) [OF w(1)] list_ops_tstate(6) [OF a] by simp
    qed
  next
    case two
    then show ?thesis using assms
      by (auto simp: rt_mbx_psh_def bind_eq_Some_conv dest!: list_ops_tstate split: if_splits)
  next
    case one
    then show ?thesis using assms
      by (auto simp: rt_mbx_psh_def bind_eq_Some_conv dest!: list_ops_tstate split: if_splits)
  next
    case other
    then show ?thesis using assms by (auto simp: rt_mbx_psh_def split: if_splits)
  qed
qed

lemma pop_req_serve_tstate:
  assumes "pop_req_serve r s = Some s'"
  shows "tstate s' t \<in> {tstate s t, READY}"
proof (cases r)
  case (Pair p a)
  then have "rt_evt_psh p (ucast a) s = Some s' \<or> rt_mbx_psh p a s = Some s' \<or> rt_sem_psh p s = Some s'"
    using assms by (auto simp: pop_req_serve_def split: if_splits)
  then show ?thesis using sem_psh_tstate evt_psh_tstate mbx_psh_tstate by blast
qed

text \<open>What one post function does to the fields the remaining requests depend on.\<close>

definition psh_frame :: "ptr \<Rightarrow> kst \<Rightarrow> kst \<Rightarrow> bool" where
  "psh_frame p s s' \<longleftrightarrow> cb_type s' = cb_type s \<and> mcb_size s' = mcb_size s \<and> mcb_state s' = mcb_state s \<and>
     os_psq s' = os_psq s \<and> tsk_run s' = tsk_run s \<and> (\<forall>h. h \<noteq> p \<longrightarrow> mcb_count s' h = mcb_count s h) \<and>
     mcb_count s' p \<in> {mcb_count s p, mcb_count s p + 1}"

lemma psh_frame_mask: "sched_mask s' = sched_mask r \<Longrightarrow> psh_frame p s r \<Longrightarrow> psh_frame p s s'"
  using sched_maskD [of s' r] by (simp add: psh_frame_def)

lemma psh_frame_mbx_put: "psh_frame h s (mbx_put h m s)" "psh_frame h s (mbx_put h m (mem_update f s))"
  by (auto simp: psh_frame_def mbx_put_def mbx_inc_count_def Let_def)

lemma req_ok_step:
  assumes ok: "req_ok T H Q s ((p, a) # rs)" and fr: "psh_frame p s s'" and k: "ksus s' T H Q' D'"
    and sub: "\<And>h. h \<in> H \<Longrightarrow> h \<noteq> os_rdy \<Longrightarrow> set (Q' h) \<subseteq> set (Q h)"
    and ts: "\<And>t. tstate s' t \<in> {tstate s t, READY}"
  shows "req_ok T H Q' s' rs"
proof -
  have c: "cb_type s' = cb_type s" "mcb_size s' = mcb_size s" "mcb_state s' = mcb_state s"
    "\<And>h. h \<noteq> p \<Longrightarrow> mcb_count s' h = mcb_count s h" "mcb_count s' p \<in> {mcb_count s p, mcb_count s p + 1}"
    using fr by (auto simp: psh_frame_def)
  have "unat (mcb_count s p + 1) \<le> Suc (unat (mcb_count s p))" by (simp add: unat_word_ariths)
  then have cnt: "unat (mcb_count s' q) + reqs_of q rs \<le> unat (mcb_count s q) + reqs_of q ((p, a) # rs)" for q
    using c(4) [of q] c(5) by (cases "q = p") auto
  have obj: "(cb_type s' q = TCB \<and> q \<in> T) \<or> (cb_type s' q \<noteq> TCB \<and> q \<in> H \<and> q \<noteq> os_rdy)"
    if "(q, b) \<in> set rs" for q b using ok that unfolding req_ok_def c(1) by auto
  have mb: "unat (mcb_count s' q) + reqs_of q rs \<le> unat (mcb_size s' q) \<and>
      (Q' q \<noteq> [] \<longrightarrow> mcb_state s' q \<in> {1, 2, 3}) \<and> (mcb_state s' q = 3 \<longrightarrow> b \<noteq> NULL)"
    if q: "(q, b) \<in> set rs" and m: "cb_type s' q = MCB" for q b
  proof -
    have "q \<in> H" "q \<noteq> os_rdy" using obj [OF q] m by auto
    then have "Q' q \<noteq> [] \<longrightarrow> Q q \<noteq> []" using sub [of q] by auto
    moreover have "unat (mcb_count s q) + reqs_of q ((p, a) # rs) \<le> unat (mcb_size s q) \<and>
      (Q q \<noteq> [] \<longrightarrow> mcb_state s q \<in> {1, 2, 3}) \<and> (mcb_state s q = 3 \<longrightarrow> b \<noteq> NULL)"
      using ok q m unfolding req_ok_def c(1) by auto
    ultimately show ?thesis using cnt [of q] unfolding c(2,3) by linarith
  qed
  have wt: "t \<notin> queued H Q'" if t: "t \<in> T" "tstate s' t \<in> {WAIT_AND, WAIT_OR}" for t
  proof -
    have nr: "tstate s' t \<noteq> READY" using t(2) by auto
    then have "tstate s t = tstate s' t" using ts [of t] by auto
    then have "t \<notin> queued H Q" using ok t unfolding req_ok_def by auto
    moreover have "t \<notin> set (Q' os_rdy)" using ksusD(6) [OF k t(1)] nr by simp
    ultimately show ?thesis using sub unfolding queued_def by blast
  qed
  show ?thesis unfolding req_ok_def using obj mb wt by blast
qed

definition sem_served :: "ptr set \<Rightarrow> (ptr \<Rightarrow> nat) \<Rightarrow> kst \<Rightarrow> (ptr \<Rightarrow> ptr list) \<Rightarrow> kst \<Rightarrow> (ptr \<Rightarrow> ptr list) \<Rightarrow> bool" where
  "sem_served H c s Q s' Q' \<longleftrightarrow> (\<forall>h\<in>H. cb_type s h = SCB \<longrightarrow> h \<noteq> os_rdy \<longrightarrow>
     Q' h = drop (c h) (Q h) \<and> tokens s' h = tokens s h + of_nat (c h - length (Q h)))"

lemma pop_req_step:
  assumes k0: "ksus s T H Q D" and ok: "req_ok T H Q s ((p, a) # rs)"
  shows "\<exists>s' Q' D'. pop_req_serve (p, a) s = Some s' \<and> ksus s' T H Q' D' \<and> psh_frame p s s' \<and>
    (\<forall>h\<in>H. h \<noteq> os_rdy \<longrightarrow> set (Q' h) \<subseteq> set (Q h)) \<and>
    sem_served H (\<lambda>h. if h = p then 1 else 0) s Q s' Q'"
proof -
  have pn: "p \<noteq> NULL" using ok qrepD(2,3) [OF ksusD(1) [OF k0]] unfolding req_ok_def by auto
  consider (evt) "cb_type s p = TCB" "p \<in> T" | (mbx) "cb_type s p = MCB" "p \<in> H" "p \<noteq> os_rdy"
    | (sem) "cb_type s p \<noteq> TCB" "cb_type s p \<noteq> MCB" "p \<in> H" "p \<noteq> os_rdy"
    using ok unfolding req_ok_def by auto
  then show ?thesis
  proof cases
    case evt
    define u where "u = set_events p (events s p OR ucast a) s"
    have "evt_sat p u \<Longrightarrow> p \<notin> queued H Q"
      using ok evt(2) unfolding req_ok_def by (auto simp: evt_sat_def u_def)
    from evt_psh_spec [OF k0 evt(2) u_def this] obtain s' Q' D' where s': "rt_evt_psh p (ucast a) s = Some s'"
      "ksus s' T H Q' D'" "if evt_sat p u then Q' = Q(os_rdy := ins_prio (prio s) p (Q os_rdy)) \<and>
        sched_mask s' = sched_mask (evt_result p u) else Q' = Q \<and> s' = u" by (auto split: if_splits)
    have fr: "psh_frame p s s'" "tokens s' = tokens s"
    proof -
      have "psh_frame p s (evt_result p u)" "psh_frame p s u"
        by (simp_all add: psh_frame_def evt_result_def u_def)
      then show "psh_frame p s s'" using s'(3) psh_frame_mask by (auto split: if_splits)
      show "tokens s' = tokens s" using s'(3) sched_maskD(8) [of s' "evt_result p u"]
        by (auto simp: evt_result_def u_def split: if_splits)
    qed
    have "h \<noteq> os_rdy \<Longrightarrow> Q' h = Q h" for h using s'(3) by (auto split: if_splits)
    then show ?thesis using s' fr pn evt
      by (intro exI [of _ s'] exI [of _ Q'] exI [of _ D']) (auto simp: pop_req_serve_def sem_served_def)
  next
    case mbx
    have mb: "unat (mcb_count s p) + reqs_of p ((p, a) # rs) \<le> unat (mcb_size s p)"
      "Q p \<noteq> [] \<Longrightarrow> mcb_state s p \<in> {1, 2, 3}" "mcb_state s p = 3 \<Longrightarrow> a \<noteq> NULL"
      using ok mbx(1) unfolding req_ok_def by auto
    then have room: "mcb_count s p < mcb_size s p" by (simp add: word_less_nat_alt)
    from mbx_psh_spec [OF k0 mbx(2,3) mb(2,3) room] obtain s' Q' D' where s':
      "rt_mbx_psh p a s = Some s'" "ksus s' T H Q' D'"
      "case Q p of [] \<Rightarrow> s' = mbx_put p a s
       | t # xs \<Rightarrow> (case mbx_psh_result p a t s of None \<Rightarrow> s' = s \<and> Q' = Q
         | Some r \<Rightarrow> Q' = Q(p := xs, os_rdy := ins_prio (prio s) t (Q os_rdy)) \<and>
             D' = undelay t D \<and> sched_mask s' = sched_mask r)" by blast
    show ?thesis
    proof (cases "Q p")
      case Nil
      then have "s' = mbx_put p a s" using s'(3) by simp
      moreover have "ksus (mbx_put p a s) T H Q D" using k0 by (simp add: mbx_put_def mbx_inc_count_def Let_def)
      moreover have "tokens (mbx_put p a s) = tokens s" by (simp add: mbx_put_def mbx_inc_count_def Let_def)
      ultimately show ?thesis using s'(1) pn mbx psh_frame_mbx_put(1) [of p s a]
        by (intro exI [of _ s'] exI [of _ Q] exI [of _ D]) (auto simp: pop_req_serve_def sem_served_def)
    next
      case (Cons t xs)
      show ?thesis
      proof (cases "mbx_psh_result p a t s")
        case None
        then show ?thesis using s' Cons pn mbx
          by (intro exI [of _ s'] exI [of _ Q] exI [of _ D']) (auto simp: pop_req_serve_def sem_served_def psh_frame_def)
      next
        case (Some r)
        then have Q': "Q' = Q(p := xs, os_rdy := ins_prio (prio s) t (Q os_rdy))" "sched_mask s' = sched_mask r"
          using s'(3) Cons by simp_all
        have "psh_frame p s r \<and> tokens r = tokens s"
          using Some psh_frame_mbx_put(2)
          by (auto simp: mbx_psh_result_def psh_frame_def mbx_put_def mbx_inc_count_def Let_def split: if_splits)
        then have "psh_frame p s s'" "tokens s' = tokens s"
          using psh_frame_mask [OF Q'(2)] sched_maskD(8) [OF Q'(2)] by auto
        then show ?thesis using s'(1,2) Q' pn mbx Cons
          by (intro exI [of _ s'] exI [of _ Q'] exI [of _ D']) (auto simp: pop_req_serve_def sem_served_def)
      qed
    qed
  next
    case sem
    from sem_psh_spec [OF k0 sem(3,4)] obtain s' Q' D' where s': "rt_sem_psh p s = Some s'" "ksus s' T H Q' D'"
      "case Q p of [] \<Rightarrow> s' = set_tokens p (tokens s p + 1) s
       | t # xs \<Rightarrow> Q' = Q(p := xs, os_rdy := ins_prio (prio s) t (Q os_rdy)) \<and>
           D' = undelay t D \<and> sched_mask s' = sched_mask (set_mem (rt_ret_regs t s) 1 s)" by blast
    show ?thesis
    proof (cases "Q p")
      case Nil
      then have "s' = set_tokens p (tokens s p + 1) s" using s'(3) by simp
      then show ?thesis using s'(1) k0 Nil pn sem
        by (intro exI [of _ s'] exI [of _ Q] exI [of _ D])
           (auto simp: pop_req_serve_def sem_served_def psh_frame_def)
    next
      case (Cons t xs)
      then have Q': "Q' = Q(p := xs, os_rdy := ins_prio (prio s) t (Q os_rdy))"
        "sched_mask s' = sched_mask (set_mem (rt_ret_regs t s) 1 s)" using s'(3) by simp_all
      have "psh_frame p s s'" by (rule psh_frame_mask [OF Q'(2)]) (simp add: psh_frame_def)
      moreover have "tokens s' = tokens s" using sched_maskD(8) [OF Q'(2)] by simp
      ultimately show ?thesis using s'(1,2) Q' pn sem Cons
        by (intro exI [of _ s'] exI [of _ Q'] exI [of _ D']) (auto simp: pop_req_serve_def sem_served_def)
    qed
  qed
qed

lemma sem_served_trans:
  assumes "sem_served H c1 s Q s1 Q1" "sem_served H c2 s1 Q1 s2 Q2" "cb_type s1 = cb_type s"
  shows "sem_served H (\<lambda>h. c1 h + c2 h) s Q s2 Q2"
  unfolding sem_served_def
proof (intro ballI impI)
  fix h assume h: "h \<in> H" "cb_type s h = SCB" "h \<noteq> os_rdy"
  have a: "Q1 h = drop (c1 h) (Q h)" "tokens s1 h = tokens s h + of_nat (c1 h - length (Q h))"
    and b: "Q2 h = drop (c2 h) (Q1 h)" "tokens s2 h = tokens s1 h + of_nat (c2 h - length (Q1 h))"
    using assms h unfolding sem_served_def by auto
  have "c1 h - length (Q h) + (c2 h - (length (Q h) - c1 h)) = c1 h + c2 h - length (Q h)" by arith
  then have "(of_nat (c1 h - length (Q h)) + of_nat (c2 h - (length (Q h) - c1 h)) :: u16) =
      of_nat (c1 h + c2 h - length (Q h))" by (metis of_nat_add)
  then show "Q2 h = drop (c1 h + c2 h) (Q h) \<and> tokens s2 h = tokens s h + of_nat (c1 h + c2 h - length (Q h))"
    using a b by (simp add: add.commute)
qed

abbreviation (input) set_last :: "u8 \<Rightarrow> kst \<Rightarrow> kst" where
  "set_last l s \<equiv> s\<lparr>os_psq := (os_psq s)\<lparr>psq_last := l\<rparr>\<rparr>"

lemma pop_req_loop_spec:
  assumes "ksus s T H Q D" and "req_ok T H Q s rs" and "psqrep k (set_last l s) rs"
  shows "\<exists>l' s' Q' D'. pop_req_loop (ucast l) s = Some (ucast l', s') \<and> ksus s' T H Q' D' \<and>
    psqrep k (set_last l' s') [] \<and> tsk_run s' = tsk_run s \<and>
    sem_served H (\<lambda>h. reqs_of h rs) s Q s' Q'"
  using assms
proof (induction rs arbitrary: s Q D l)
  case Nil
  then have "psq_count (os_psq s) = 0" by (simp add: psqrep_def unat_eq_0)
  then have "pop_req_loop (ucast l) s = Some (ucast l, s)" by (subst pop_req_loop.simps) simp
  with Nil show ?case
    by (intro exI [of _ l] exI [of _ s] exI [of _ Q] exI [of _ D]) (simp add: sem_served_def)
next
  case (Cons r rs)
  obtain p a where r: "r = (p, a)" by (cases r)
  note rep = Cons.prems(3) [unfolded r] and ok = Cons.prems(2) [unfolded r]
  define l' where "l' = (if l + 1 = psq_size (os_psq s) then 0 else l + 1)"
  have q: "psq_count (os_psq s) \<noteq> 0" "unat l < length (psq_q (os_psq s))" "psq_q (os_psq s) ! unat l = (p, a)"
    "unat l < unat (psq_size (os_psq s))"
    using rep psqrep_get [OF rep] by (auto simp: psqrep_def ring_def psq_get_def Let_def)
  have nx: "(if (ucast l + 1 :: u32) = ucast (psq_size (os_psq s)) then 0 else ucast l + 1) = (ucast l' :: u32)"
  proof -
    have "Suc (unat l) < 256" using q(4) unat_u8_less [of "psq_size (os_psq s)"] by linarith
    then show ?thesis by (auto simp: l'_def word_unat_eq_iff unat_word_ariths)
  qed
  from pop_req_step [OF Cons.prems(1) ok] obtain s1 Q1 D1 where s1: "pop_req_serve (p, a) s = Some s1"
    "ksus s1 T H Q1 D1" "psh_frame p s s1" "\<forall>h\<in>H. h \<noteq> os_rdy \<longrightarrow> set (Q1 h) \<subseteq> set (Q h)"
    "sem_served H (\<lambda>h. if h = p then 1 else 0) s Q s1 Q1" by blast
  have f: "os_psq s1 = os_psq s" "cb_type s1 = cb_type s" "tsk_run s1 = tsk_run s"
    using s1(3) by (simp_all add: psh_frame_def)
  define s2 where "s2 = s1\<lparr>os_psq := (os_psq s1)\<lparr>psq_count := psq_count (os_psq s1) - 1\<rparr>\<rparr>"
  have ok1: "req_ok T H Q1 s1 rs"
    by (rule req_ok_step [OF ok s1(3,2)]) (use s1(4) pop_req_serve_tstate [OF s1(1)] in auto)
  then have ok2: "req_ok T H Q1 s2 rs" by (simp add: req_ok_def s2_def)
  have k2: "ksus s2 T H Q1 D1" using s1(2) by (simp add: s2_def)
  have "os_psq (set_last l' s2) = os_psq (snd (psq_get (set_last l s)))"
    by (simp add: s2_def f(1) psq_get_def Let_def l'_def)
  then have rep2: "psqrep k (set_last l' s2) rs" using psqrep_get [OF rep] psqrep_cong by blast
  from Cons.IH [OF k2 ok2 rep2] obtain l'' s3 Q3 D3 where s3: "pop_req_loop (ucast l') s2 = Some (ucast l'', s3)"
    "ksus s3 T H Q3 D3" "psqrep k (set_last l'' s3) []" "tsk_run s3 = tsk_run s2"
    "sem_served H (\<lambda>h. reqs_of h rs) s2 Q1 s3 Q3" by blast
  have "pop_req_loop (ucast l) s = pop_req_loop (ucast l') s2"
    using q s1(1) by (subst pop_req_loop.simps) (simp add: Let_def s2_def f(1) nx)
  moreover have "sem_served H (\<lambda>h. reqs_of h rs) s1 Q1 s3 Q3" using s3(5) by (simp add: sem_served_def s2_def)
  then have "sem_served H (\<lambda>h. reqs_of h (r # rs)) s Q s3 Q3"
  proof -
    have "(\<lambda>h. reqs_of h (r # rs)) = (\<lambda>h. (if h = p then 1 else 0) + reqs_of h rs)" by (auto simp: r fun_eq_iff)
    then show ?thesis using sem_served_trans [OF s1(5) \<open>sem_served H (\<lambda>h. reqs_of h rs) s1 Q1 s3 Q3\<close> f(2)] by simp
  qed
  ultimately show ?case
    using s3 f(3) by (intro exI [of _ l''] exI [of _ s3] exI [of _ Q3] exI [of _ D3]) (simp add: s2_def)
qed

text \<open>One tick, for the whole kernel state.\<close>

lemma systick_spec:
  assumes "kstate s T H Q D" and "trep s L" and "psqrep k s rs"
    and "length rs + length (posts s (expired L)) \<le> k" and "\<forall>(x, n)\<in>set L. 0 < n"
    and "\<forall>x\<in>set (expired L). tm_type s x = osTimerPeriodic \<longrightarrow> tm_icnt s x \<noteq> 0"
  shows "\<exists>s' Q'. rt_systick s = Some s' \<and> kinv s' T H Q' (pending D) (tsk_new s') \<and>
    insert (tsk_new s') (set (Q' os_rdy)) = set (expired D) \<union> set (Q os_rdy) \<union> {tsk_run s} \<and>
    os_time s' = os_time s + 1 \<and> trep s' (tick_timers s L) \<and>
    psqrep k s' (rs @ posts s (expired L)) \<and> tsk_run s' = tsk_run s"
proof -
  let ?c = "tsk_run s"
  from ksus_enter [OF kstateD(1) [OF assms(1)]] obtain s0 where s0:
    "rt_put_rdy_first ?c (set_tstate ?c READY s) = Some s0"
    "ksus s0 T H (Q(os_rdy := ?c # Q os_rdy)) D" "sched_mask s0 = sched_mask s" by blast
  have m: "smask s0 = smask s" by (rule smask_sched [OF s0(3)])
  note e = smask_timers [OF m]
  have t0: "os_time s0 = os_time s" by (rule sched_maskD(4) [OF s0(3)])
  from systick_middle [OF s0(2), of ?c "Q os_rdy" L k rs] assms(2-) e obtain s1 Q' where s1:
    "(do { s \<leftarrow> rt_chk_robin s0; s \<leftarrow> rt_dec_dly (s\<lparr>os_time := os_time s + 1\<rparr>); sysTimerTick s }) = Some s1"
    "ksus s1 T H Q' (pending D)" "set (Q' os_rdy) = set (expired D) \<union> (insert ?c (set (Q os_rdy)))"
    "os_time s1 = os_time s + 1" "tsk_run s1 = tsk_run s" "trep s1 (tick_timers s0 L)"
    "psqrep k s1 (rs @ posts s (expired L))" using t0 by auto
  obtain n xs where Q': "Q' os_rdy = n # xs" using s1(3) by (cases "Q' os_rdy") auto
  from ksus_switch [OF s1(2) Q'] obtain s2 where s2:
    "(do { (p, s) \<leftarrow> rt_get_first os_rdy s1; rt_switch_req p s }) = Some s2" "tsk_new s2 = n"
    "kinv s2 T H (Q'(os_rdy := xs)) (pending D) n" "sched_mask s2 = sched_mask s1" by blast
  have cn: "?c \<noteq> NULL" using kinv_runs [OF kstateD(1) [OF assms(1)]] by simp
  have run: "rt_systick s = Some s2"
    using s0(1) s1(1) s2(1) cn by (auto simp: rt_systick_def bind_eq_Some_conv)
  have tt: "tick_timers s0 L = tick_timers s L" using e(4) by (simp add: tick_timers_def)
  note e2 = smask_timers [OF smask_sched [OF s2(4)]] and t2 = sched_maskD(4) [OF s2(4)]
  have "insert n (set xs) = set (expired D) \<union> set (Q os_rdy) \<union> {?c}" using s1(3) Q' by auto
  then show ?thesis
    using run s2 s1 e2 t2 tt by (intro exI [of _ s2] exI [of _ "Q'(os_rdy := xs)"]) simp
qed

text \<open>
  C13: the tick handler \<open>rt_systick\<close> always returns: the time advances by one, exactly the tasks
  with one tick left leave the delay list and become ready, every other delay has one tick
  less, the timers advance, and the task it selects has the highest priority of all ready
  tasks.
\<close>

theorem rt_systick_advances_time:
  assumes "kstate s T H Q D" and "trep s L" and "psqrep k s rs"
    and "length rs + length (posts s (expired L)) \<le> k" and "\<forall>(x, n)\<in>set L. 0 < n"
    and "\<forall>x\<in>set (expired L). tm_type s x = osTimerPeriodic \<longrightarrow> tm_icnt s x \<noteq> 0"
  shows "\<exists>s' Q'. rt_systick s = Some s' \<and> kinv s' T H Q' (pending D) (tsk_new s') \<and>
    insert (tsk_new s') (set (Q' os_rdy)) = set (expired D) \<union> set (Q os_rdy) \<union> {tsk_run s} \<and>
    os_time s' = os_time s + 1 \<and> trep s' (tick_timers s L) \<and>
    psqrep k s' (rs @ posts s (expired L)) \<and> tsk_run s' = tsk_run s"
  using systick_spec [OF assms] .

theorem rt_systick_advances_time_witness:
  "\<exists>s' Q'. rt_systick smp_tm = Some s' \<and> kinv s' smpT smpH Q' [(smpB, 4)] (tsk_new s') \<and>
    trep s' [(smpT1, 1)] \<and> os_time s' = 1"
proof -
  have k: "kstate smp_tm smpT smpH smpQ smpD"
    using smp_kstate kinv_cong [of smp_tm smp] by (simp add: kstate_def smp_tm_def)
  have q: "psqrep 4 smp_tm []" using smp_psqrep by (simp add: psqrep_def smp_tm_def)
  have e: "expired [(smpT1, 2)] = []" "tick_timers smp_tm [(smpT1, 2)] = [(smpT1, 1)]" "posts smp_tm [] = []"
    "pending smpD = [(smpB, 4)]" "os_time smp_tm = 0"
    by (simp_all add: expired_def pending_def tick_timers_def posts_def smpD_def smp_tm_def smp_def smp_zero_def)
  from rt_systick_advances_time [OF k smp_trep q] show ?thesis by (simp add: e) blast
qed

text \<open>The handler of the post service queue, for the whole kernel state.\<close>

lemma pop_req_spec:
  assumes "kstate s T H Q D" and "psqrep k s rs" and "req_ok T H Q s rs"
  shows "\<exists>s' Q' D'. rt_pop_req s = Some s' \<and> kinv s' T H Q' D' (tsk_new s') \<and> psqrep k s' [] \<and>
    tsk_run s' = tsk_run s \<and>
    (\<forall>h\<in>H. cb_type s h = SCB \<longrightarrow> h \<noteq> os_rdy \<longrightarrow> Q' h = drop (reqs_of h rs) (Q h) \<and>
       tokens s' h = tokens s h + of_nat (reqs_of h rs - length (Q h)))"
proof -
  let ?c = "tsk_run s"
  note k = kstateD(1) [OF assms(1)]
  from ksus_enter [OF k] obtain s0 where s0:
    "rt_put_rdy_first ?c (set_tstate ?c READY s) = Some s0"
    "ksus s0 T H (Q(os_rdy := ?c # Q os_rdy)) D" "sched_mask s0 = sched_mask s" by blast
  note e = sched_maskD [OF s0(3)]
  have ts: "tstate s0 = (tstate s)(?c := READY)"
    using s0(1) by (auto simp: rt_put_rdy_first_def bind_eq_Some_conv)
  have ok: "req_ok T H (Q(os_rdy := ?c # Q os_rdy)) s0 rs"
  proof -
    have "t \<notin> queued H (Q(os_rdy := ?c # Q os_rdy))"
      if "t \<in> T" "tstate s0 t \<in> {WAIT_AND, WAIT_OR}" for t
    proof -
      have "t \<noteq> ?c" "tstate s t \<in> {WAIT_AND, WAIT_OR}" using that ts by (auto split: if_splits)
      moreover from this have "t \<notin> queued H Q" using assms(3) that(1) unfolding req_ok_def by blast
      ultimately show ?thesis by (auto simp: queued_def split: if_splits)
    qed
    moreover have "(Q(os_rdy := ?c # Q os_rdy)) p = Q p" if "(p, a) \<in> set rs" "cb_type s p = MCB" for p a
      using assms(3) that unfolding req_ok_def by auto
    ultimately show ?thesis using assms(3) unfolding req_ok_def e by fastforce
  qed
  have rep: "psqrep k (set_last (psq_last (os_psq s0)) s0) rs" using assms(2) e by (simp add: psqrep_def)
  from pop_req_loop_spec [OF s0(2) ok rep] obtain l' s1 Q1 D1 where s1:
    "pop_req_loop (ucast (psq_last (os_psq s0))) s0 = Some (ucast l', s1)" "ksus s1 T H Q1 D1"
    "psqrep k (set_last l' s1) []" "tsk_run s1 = tsk_run s0"
    "sem_served H (\<lambda>h. reqs_of h rs) s0 (Q(os_rdy := ?c # Q os_rdy)) s1 Q1" by blast
  have k1: "ksus (set_last l' s1) T H Q1 D1" using s1(2) by simp
  obtain n xs where Q1: "Q1 os_rdy = n # xs" using ksusD(8) [OF s1(2)] by (cases "Q1 os_rdy") auto
  from ksus_switch [OF k1 Q1] obtain s2 where s2:
    "(do { (p, s) \<leftarrow> rt_get_first os_rdy (set_last l' s1); rt_switch_req p s }) = Some s2" "tsk_new s2 = n"
    "kinv s2 T H (Q1(os_rdy := xs)) D1 n" "sched_mask s2 = sched_mask (set_last l' s1)" by blast
  note e2 = sched_maskD [OF s2(4)]
  have cn: "?c \<noteq> NULL" using kinv_runs [OF k] by simp
  have "(ucast (ucast l' :: u32) :: u8) = l'" by (simp add: word_unat_eq_iff unat_ucast_narrow)
  then have "rt_pop_req s = Some s2" using s0(1) s1(1) s2(1) cn by (auto simp: rt_pop_req_def)
  moreover have "psqrep k s2 []" using s1(3) e2(6) psqrep_cong by blast
  moreover have "\<forall>h\<in>H. cb_type s h = SCB \<longrightarrow> h \<noteq> os_rdy \<longrightarrow> (Q1(os_rdy := xs)) h = drop (reqs_of h rs) (Q h) \<and>
       tokens s2 h = tokens s h + of_nat (reqs_of h rs - length (Q h))"
    using s1(5) e e2 unfolding sem_served_def by auto
  moreover have "tsk_run s2 = tsk_run s" using e2(3) s1(4) e(3) by simp
  ultimately show ?thesis using s2(2,3) by blast
qed

text \<open>
  C14: \<open>rt_pop_req\<close> serves every request of the queue and leaves it empty. A semaphore that
  got \<open>c\<close> requests has lost its first \<open>c\<close> waiting tasks to the ready list, and the requests
  beyond the waiting tasks are kept as tokens; the task that is selected has the highest
  priority of all ready tasks.
\<close>

theorem rt_pop_req_serves_all:
  assumes "kstate s T H Q D" and "psqrep k s rs" and "req_ok T H Q s rs"
  shows "\<exists>s' Q' D'. rt_pop_req s = Some s' \<and> kinv s' T H Q' D' (tsk_new s') \<and> psqrep k s' [] \<and>
    tsk_run s' = tsk_run s \<and>
    (\<forall>h\<in>H. cb_type s h = SCB \<longrightarrow> h \<noteq> os_rdy \<longrightarrow> Q' h = drop (reqs_of h rs) (Q h) \<and>
       tokens s' h = tokens s h + of_nat (reqs_of h rs - length (Q h)))"
  using pop_req_spec [OF assms] .

text \<open>The sample state with two requests for its semaphore, on which one task waits.\<close>

definition smp_req :: kst where
  "smp_req = psq_put (smpS, 0) (psq_put (smpS, 0) smp)"

theorem rt_pop_req_serves_all_witness:
  "\<exists>s' Q' D'. rt_pop_req smp_req = Some s' \<and> kinv s' smpT smpH Q' D' (tsk_new s') \<and> psqrep 4 s' [] \<and>
    Q' smpS = [] \<and> tokens s' smpS = 1"
proof -
  have k: "kstate smp_req smpT smpH smpQ smpD"
    using smp_kstate kinv_cong [of smp_req smp] by (simp add: kstate_def smp_req_def psq_put_def Let_def)
  have q: "psqrep 4 smp_req [(smpS, 0), (smpS, 0)]"
    using psqrep_put [OF psqrep_put [OF smp_psqrep], of "(smpS, 0)" "(smpS, 0)"] by (simp add: smp_req_def)
  have c: "cb_type smp_req smpS = SCB" "tokens smp_req smpS = 0" "tstate smp_req = tstate smp"
    by (simp_all add: smp_req_def psq_put_def Let_def smp_def smp_zero_def)
  have "\<forall>t\<in>smpT. tstate smp t \<notin> {WAIT_AND, WAIT_OR}" by (auto simp: smp_def smpT_def)
  then have ok: "req_ok smpT smpH smpQ smp_req [(smpS, 0), (smpS, 0)]" using c by (auto simp: req_ok_def)
  from rt_pop_req_serves_all [OF k q ok] c show ?thesis by (fastforce simp: reqs_of_def)
qed

section \<open>Resuming after a sleep\<close>

text \<open>The delays after \<open>k\<close> ticks, and the tasks whose delay is over by then.\<close>

definition after_ticks :: "nat \<Rightarrow> (ptr \<times> nat) list \<Rightarrow> (ptr \<times> nat) list" where
  "after_ticks k D = map (\<lambda>(t, n). (t, n - k)) (filter (\<lambda>(t, n). k < n) D)"

definition due :: "nat \<Rightarrow> (ptr \<times> nat) list \<Rightarrow> ptr set" where
  "due k D = fst ` set (filter (\<lambda>(t, n). n \<le> k) D)"

lemma after_ticks_simps [simp]:
  "after_ticks k [] = []"
  "after_ticks k ((t, n) # D) = (if k < n then (t, n - k) # after_ticks k D else after_ticks k D)"
  by (simp_all add: after_ticks_def)

lemma due_simps [simp]:
  "due k [] = {}" "due k ((t, n) # D) = (if n \<le> k then insert t (due k D) else due k D)"
  by (simp_all add: due_def)

lemma after_ticks_add: "after_ticks a (after_ticks b D) = after_ticks (b + a) D"
  by (induction D) auto

lemma due_iff: "t \<in> due k D \<longleftrightarrow> (\<exists>n\<le>k. (t, n) \<in> set D)"
  by (force simp: due_def)

lemma after_ticks_iff: "(t, m) \<in> set (after_ticks k D) \<longleftrightarrow> 0 < m \<and> (t, m + k) \<in> set D"
  by (force simp: after_ticks_def)

lemma due_after: "due b D \<union> due a (after_ticks b D) = due (b + a) D"
proof (rule set_eqI)
  fix t
  have "(\<exists>n\<le>b + a. (t, n) \<in> set D) \<longleftrightarrow> (\<exists>n\<le>b. (t, n) \<in> set D) \<or> (\<exists>m\<le>a. 0 < m \<and> (t, m + b) \<in> set D)"
    (is "?l \<longleftrightarrow> ?r")
  proof
    assume ?l
    then obtain n where n: "n \<le> b + a" "(t, n) \<in> set D" by blast
    show ?r
    proof (cases "n \<le> b")
      case False
      then have "n - b \<le> a" "0 < n - b" "n - b + b = n" using n(1) by auto
      then show ?thesis using n(2) by metis
    qed (use n in blast)
  next
    assume ?r
    then show ?l by (metis add.commute add_le_mono1 trans_le_add1)
  qed
  then show "t \<in> due b D \<union> due a (after_ticks b D) \<longleftrightarrow> t \<in> due (b + a) D"
    by (simp add: due_iff after_ticks_iff)
qed

lemma pending_after: "\<forall>(t, n)\<in>set D. 0 < n \<Longrightarrow> pending D = after_ticks 1 D \<and> set (expired D) = due 1 D"
  by (induction D) (auto simp: pending_def expired_def)

lemma after_ticks_max:
  assumes "sorted (map snd D)"
  shows "last_time 0 (after_ticks k D) = last_time 0 D - k" and "after_ticks k D = [] \<longleftrightarrow> last_time 0 D \<le> k"
proof -
  have "last_time b (after_ticks k D) = (if after_ticks k D = [] then b else last_time b D - k) \<and>
      (after_ticks k D = [] \<longleftrightarrow> D = [] \<or> last_time b D \<le> k)" for b
    using assms
  proof (induction D arbitrary: b)
    case (Cons a D)
    obtain t n where a: "a = (t, n)" by (cases a)
    have "n \<le> last_time n D" using Cons.prems a last_in_set [of "n # map snd D"]
      by (auto simp: last_time_def split: if_splits)
    then show ?case using Cons a by (auto simp: last_time_def)
  qed simp
  from this [of 0] show "last_time 0 (after_ticks k D) = last_time 0 D - k" "after_ticks k D = [] \<longleftrightarrow> last_time 0 D \<le> k"
    by auto
qed

text \<open>One round of the loop of \<open>rt_resume\<close>.\<close>

lemma ksus_dec_dly_after:
  assumes k: "ksus s T H Q D"
  shows "\<exists>s' Q'. rt_dec_dly s = Some s' \<and> ksus s' T H Q' (after_ticks 1 D) \<and>
    set (Q' os_rdy) = due 1 D \<union> set (Q os_rdy) \<and> os_time s' = os_time s \<and> tsk_run s' = tsk_run s"
proof -
  from ksus_dec_dly [OF k] obtain s' where s': "rt_dec_dly s = Some s'"
    "ksus s' T H (fold (wake_rdy (prio s)) (expired D) Q) (pending D)" "lists_mask s' = lists_mask s" by blast
  have dis: "distinct (expired D)"
    unfolding expired_def using drep_distinct [OF ksusD(2) [OF k]] by (intro distinct_map_filter) simp
  have pd: "pending D = after_ticks 1 D" "set (expired D) = due 1 D"
    using pending_after [OF ksusD(4) [OF k]] by simp_all
  show ?thesis
    using s' pd fold_wake_rdy(1) [OF dis] lists_maskD(3,5) [OF s'(3)]
    by (intro exI [of _ s'] exI [of _ "fold (wake_rdy (prio s)) (expired D) Q"]) simp
qed

lemma ksus_dly_empty:
  assumes "ksus s T H Q D"
  shows "p_dlnk s os_dly = NULL \<longleftrightarrow> D = []"
  using drepD(4) [OF ksusD(2) [OF assms]] by (cases D) auto

lemma resume_loop_spec:
  assumes "ksus s T H Q D"
  shows "\<exists>s' Q'. resume_loop d s = Some s' \<and> ksus s' T H Q' (after_ticks (Suc (unat d)) D) \<and>
    set (Q' os_rdy) = due (Suc (unat d)) D \<union> set (Q os_rdy) \<and>
    os_time s' = os_time s + of_nat (min (unat d) (last_time 0 D)) \<and> tsk_run s' = tsk_run s"
  using assms
proof (induction "unat d" arbitrary: d s Q D)
  case 0
  then have d: "d = 0" by (simp add: unat_eq_0)
  show ?case
  proof (cases "D = []")
    case True
    then have "resume_loop d s = Some s" using ksus_dly_empty [OF 0(2)] by (subst resume_loop.simps) simp
    with True 0(2) show ?thesis by (intro exI [of _ s] exI [of _ Q]) simp
  next
    case False
    from ksus_dec_dly_after [OF 0(2)] obtain s' Q' where s': "rt_dec_dly s = Some s'"
      "ksus s' T H Q' (after_ticks 1 D)" "set (Q' os_rdy) = due 1 D \<union> set (Q os_rdy)" "os_time s' = os_time s"
      "tsk_run s' = tsk_run s" by blast
    have "resume_loop d s = Some s'"
      using False ksus_dly_empty [OF 0(2)] s'(1) d by (subst resume_loop.simps) simp
    with s' d show ?thesis by (intro exI [of _ s'] exI [of _ Q']) simp
  qed
next
  case (Suc n)
  show ?case
  proof (cases "D = []")
    case True
    then have "resume_loop d s = Some s" using ksus_dly_empty [OF Suc(3)] by (subst resume_loop.simps) simp
    with True Suc(3) show ?thesis by (intro exI [of _ s] exI [of _ Q]) simp
  next
    case False
    from ksus_dec_dly_after [OF Suc(3)] obtain s1 Q1 where s1: "rt_dec_dly s = Some s1"
      "ksus s1 T H Q1 (after_ticks 1 D)" "set (Q1 os_rdy) = due 1 D \<union> set (Q os_rdy)" "os_time s1 = os_time s"
      "tsk_run s1 = tsk_run s" by blast
    have dn: "d \<noteq> 0" "n = unat (d - 1)"
    proof -
      show "d \<noteq> 0" using Suc(2) by auto
      then show "n = unat (d - 1)" using Suc(2) by (simp add: unat_minus_one)
    qed
    let ?u = "s1\<lparr>os_time := os_time s1 + 1\<rparr>"
    from Suc(1) [OF dn(2), of ?u Q1 "after_ticks 1 D"] s1(2) obtain s2 Q2 where s2:
      "resume_loop (d - 1) ?u = Some s2" "ksus s2 T H Q2 (after_ticks (Suc (unat (d - 1))) (after_ticks 1 D))"
      "set (Q2 os_rdy) = due (Suc (unat (d - 1))) (after_ticks 1 D) \<union> set (Q1 os_rdy)"
      "os_time s2 = os_time ?u + of_nat (min (unat (d - 1)) (last_time 0 (after_ticks 1 D)))"
      "tsk_run s2 = tsk_run s1" by auto
    have run: "resume_loop d s = Some s2"
      using False ksus_dly_empty [OF Suc(3)] s1(1) s2(1) dn(1) by (subst resume_loop.simps) simp
    have sd: "sorted (map snd D)" by (rule dseg_sorted [OF drepD(7) [OF ksusD(2) [OF Suc(3)]]])
    obtain x m D' where D: "D = (x, m) # D'" using False by (cases D) auto
    have "0 < m" "m \<le> last_time 0 D"
      using ksusD(4) [OF Suc(3)] sd D last_in_set [of "m # map snd D'"] by (auto simp: last_time_def split: if_splits)
    then have l: "0 < last_time 0 D" by simp
    have t: "os_time s2 = os_time s + of_nat (min (unat d) (last_time 0 D))"
    proof -
      have "min (unat d) (last_time 0 D) = Suc (min (unat (d - 1)) (last_time 0 (after_ticks 1 D)))"
        using after_ticks_max(1) [OF sd, of 1] l Suc(2) dn(2) by auto
      then show ?thesis using s2(4) s1(4) by (simp add: algebra_simps)
    qed
    have e: "Suc (unat d) = 1 + Suc (unat (d - 1))" using Suc(2) dn(2) by simp
    show ?thesis
      unfolding e using run s2(2,3) s1(3) t s2(5) s1(5) due_after [of 1 D "Suc (unat (d - 1))"]
      by (intro exI [of _ s2] exI [of _ Q2]) (auto simp: after_ticks_add)
  qed
qed

lemma drep_rebase:
  assumes rep: "drep s T ((x, d1) # D)" and v: "\<forall>(t, n)\<in>set ((x, d1) # D). n - d1 + unat v < 65536"
  shows "drep (set_delta_time os_dly v s) T (map (\<lambda>(t, n). (t, n - d1 + unat v)) ((x, d1) # D))"
proof -
  note r = drepD [OF rep]
  have seg: "dseg (delta_time s) x d1 D" "distinct (os_dly # x # map fst D)" using r(7) drep_distinct [OF rep] by auto
  have "dseg d p (b + e) (map (\<lambda>(t, n). (t, n - d1 + e)) E)" if "dseg d p (b + d1) E" for d p b e E
    using that
  proof (induction E arbitrary: p b)
    case (Cons a E)
    obtain t n where a: "a = (t, n)" by (cases a)
    have n: "n = b + d1 + unat (d p)" "dseg d t n E" using Cons.prems a by auto
    then have "dseg d t ((b + unat (d p)) + d1) E" by (simp add: ac_simps)
    from Cons.IH [OF this] n(1) a show ?case by (simp add: ac_simps)
  qed simp
  from this [of "delta_time s" x 0 D "unat v"] seg(1)
  have "dseg (delta_time s) x (unat v) (map (\<lambda>(t, n). (t, n - d1 + unat v)) D)" by simp
  then have seg2: "dseg ((delta_time s)(os_dly := v)) x (unat v) (map (\<lambda>(t, n). (t, n - d1 + unat v)) D)"
    by (rule dseg_cong) (use seg(2) in \<open>force simp: comp_def split_beta\<close>)+
  have mf: "map fst (map (\<lambda>(t, n). (t, n - d1 + unat v)) E) = map fst E" for E :: "(ptr \<times> nat) list"
    by (induction E) auto
  have im: "fst ` set (map (\<lambda>(t, n). (t, n - d1 + unat v)) ((x, d1) # D)) = fst ` set ((x, d1) # D)"
    by (simp add: image_image split_beta)
  have "last_ptr os_dly (map (\<lambda>(t, n). (t, n - d1 + unat v)) ((x, d1) # D)) = last_ptr os_dly ((x, d1) # D)"
    unfolding last_ptr_def mf ..
  moreover have "os_dly \<notin> insert x (fst ` set D)" using seg(2) by simp
  then have "last_ptr os_dly ((x, d1) # D) \<noteq> os_dly" 
    using last_ptr_in [of x D] by (metis last_ptr_simps(2))
  ultimately show ?thesis
    using r seg2 v unfolding drep_def mf im by (auto simp: im [simplified])
qed

lemma ksus_rebase:
  assumes k: "ksus s T H Q ((x, d1) # D)" and v: "0 < unat v" "unat v \<le> d1"
  shows "ksus (set_delta_time os_dly v s) T H Q (after_ticks (d1 - unat v) ((x, d1) # D))"
proof -
  note kd = ksusD [OF k]
  have sd: "sorted (map snd ((x, d1) # D))" by (rule dseg_sorted [OF drepD(7) [OF kd(2)]])
  have ge: "d1 \<le> n" if "(t, n) \<in> set ((x, d1) # D)" for t n using sd that by force
  have lt: "\<forall>(t, n)\<in>set ((x, d1) # D). n - d1 + unat v < 65536"
    using drepD(9) [OF kd(2)] v ge by fastforce
  have "after_ticks (d1 - unat v) E = map (\<lambda>(t, n). (t, n - d1 + unat v)) E"
    if "\<forall>(t, n)\<in>set E. d1 \<le> n" for E :: "(ptr \<times> nat) list"
    using that v by (induction E) auto
  then have eq: "after_ticks (d1 - unat v) ((x, d1) # D) = map (\<lambda>(t, n). (t, n - d1 + unat v)) ((x, d1) # D)"
    using ge by blast
  have im: "fst ` set (map (\<lambda>(t, n). (t, n - d1 + unat v)) ((x, d1) # D)) = fst ` set ((x, d1) # D)"
    by (simp add: image_image split_beta)
  have "ksus (set_delta_time os_dly v s) T H Q (map (\<lambda>(t, n). (t, n - d1 + unat v)) ((x, d1) # D))"
  proof -
    have "qrep (set_delta_time os_dly v s) T H Q" using kd(1) by (simp add: qrep_def sem_mbx_def)
    then show ?thesis unfolding ksus_def im using drep_rebase [OF kd(2) lt] kd v by (auto simp: split_beta)
  qed
  then show ?thesis unfolding eq .
qed

lemma kinv_tsk_unlock: "kinv (rt_tsk_unlock s) T H Q D c = kinv s T H Q D c"
  by (rule kinv_cong) (simp_all add: rt_tsk_unlock_def Let_def)

lemma rt_tsk_unlock_fields [simp]:
  "os_time (rt_tsk_unlock s) = os_time s" "tsk_new (rt_tsk_unlock s) = tsk_new s"
  "tsk_run (rt_tsk_unlock s) = tsk_run s" "os_lock (rt_tsk_unlock s) = False"
  by (simp_all add: rt_tsk_unlock_def Let_def)

text \<open>The time that \<open>rt_resume\<close> accounts for.\<close>

definition slept :: "nat \<Rightarrow> (ptr \<times> nat) list \<Rightarrow> nat" where
  "slept t D = (if D = [] then t else min t (Suc (last_time 0 D)))"

lemma resume_delays_spec:
  assumes k: "ksus s T H Q D"
  shows "\<exists>s' Q'. resume_delays t s = Some s' \<and> ksus s' T H Q' (after_ticks (unat t) D) \<and>
    set (Q' os_rdy) = due (unat t) D \<union> set (Q os_rdy) \<and>
    os_time s' = os_time s + of_nat (slept (unat t) D) \<and> tsk_run s' = tsk_run s"
proof (cases D)
  case Nil
  then show ?thesis using k ksus_dly_empty [OF k]
    by (intro exI [of _ "s\<lparr>os_time := os_time s + t\<rparr>"] exI [of _ Q]) (simp add: resume_delays_def slept_def)
next
  case (Cons a D')
  obtain x d1 where a: "a = (x, d1)" by (cases a)
  note kd = ksusD [OF k [unfolded Cons a]]
  have ne: "p_dlnk s os_dly \<noteq> NULL" using ksus_dly_empty [OF k] Cons by simp
  have d1: "unat (delta_time s os_dly) = d1" "0 < d1" using drepD(7) [OF kd(2)] kd(4) by auto
  have sd: "sorted (map snd D)" by (rule dseg_sorted [OF drepD(7) [OF ksusD(2) [OF k]]])
  have ge: "d1 \<le> n" if "(y, n) \<in> set D" for y n using sd that unfolding Cons a by force
  have le: "d1 \<le> last_time 0 D"
    using sd last_in_set [of "d1 # map snd D'"] by (auto simp: Cons a last_time_def split: if_splits)
  show ?thesis
  proof (cases "d1 \<le> unat t")
    case False
    have lt: "\<not> ucast (delta_time s os_dly) \<le> t" using False d1(1) by (simp add: word_le_nat_alt)
    let ?s = "s\<lparr>os_time := os_time s + t\<rparr>"
    define v where "v = (ucast (ucast (delta_time s os_dly) - t) :: u16)"
    have "unat (ucast (delta_time s os_dly) - t :: u32) = d1 - unat t"
      using lt d1(1) by (simp add: unat_sub not_le order.strict_implies_order)
    then have v: "unat v = d1 - unat t" using unat_u16_less [of "delta_time s os_dly"] d1(1)
      by (simp add: v_def unat_ucast_narrow)
    have "ksus ?s T H Q ((x, d1) # D')" using k Cons a by simp
    from ksus_rebase [OF this, of v] v False
    have ks: "ksus (set_delta_time os_dly v ?s) T H Q (after_ticks (unat t) D)" by (simp add: Cons a)
    have "due (unat t) D = {}" using ge False by (fastforce simp: due_iff)
    moreover have "slept (unat t) D = unat t" using le False by (simp add: slept_def Cons)
    ultimately show ?thesis using ne lt ks
      by (intro exI [of _ "set_delta_time os_dly v ?s"] exI [of _ Q]) (simp add: resume_delays_def v_def)
  next
    case True
    have lt: "ucast (delta_time s os_dly) \<le> t" using True d1(1) by (simp add: word_le_nat_alt)
    let ?s = "s\<lparr>os_time := os_time s + ucast (delta_time s os_dly)\<rparr>"
    let ?e = "t - ucast (delta_time s os_dly)"
    have e: "unat ?e = unat t - d1" using lt d1(1) by (simp add: unat_sub)
    have "ksus ?s T H Q ((x, d1) # D')" using k Cons a by simp
    from ksus_rebase [OF this, of 1] d1(2)
    have ks: "ksus (set_delta_time os_dly 1 ?s) T H Q (after_ticks (d1 - 1) D)" by (simp add: Cons a)
    from resume_loop_spec [OF ks, of ?e] obtain s' Q' where s': "resume_loop ?e (set_delta_time os_dly 1 ?s) = Some s'"
      "ksus s' T H Q' (after_ticks (Suc (unat ?e)) (after_ticks (d1 - 1) D))"
      "set (Q' os_rdy) = due (Suc (unat ?e)) (after_ticks (d1 - 1) D) \<union> set (Q os_rdy)"
      "os_time s' = os_time ?s + of_nat (min (unat ?e) (last_time 0 (after_ticks (d1 - 1) D)))"
      "tsk_run s' = tsk_run s" by auto
    have tt: "d1 - 1 + Suc (unat ?e) = unat t" using e True d1(2) by simp
    have du: "due (Suc (unat ?e)) (after_ticks (d1 - 1) D) = due (unat t) D"
    proof -
      have "due (d1 - 1) D = {}" using ge d1(2) by (fastforce simp: due_iff)
      then show ?thesis using due_after [of "d1 - 1" D "Suc (unat ?e)"] tt by simp
    qed
    have "min (unat ?e) (last_time 0 (after_ticks (d1 - 1) D)) + d1 = slept (unat t) D"
      using after_ticks_max(1) [OF sd, of "d1 - 1"] e True le d1(2) Cons by (auto simp: slept_def)
    then have "of_nat (slept (unat t) D) =
        of_nat (min (unat ?e) (last_time 0 (after_ticks (d1 - 1) D))) + (of_nat d1 :: u32)" by (metis of_nat_add)
    moreover have "(ucast (delta_time s os_dly) :: u32) = of_nat d1"
      using d1(1) unat_u16_less [of "delta_time s os_dly"] by (simp add: word_unat_eq_iff unat_of_nat_u32)
    ultimately have "os_time s' = os_time s + of_nat (slept (unat t) D)" using s'(4) by (simp add: ac_simps)
    then show ?thesis using s' tt du ne lt
      by (intro exI [of _ s'] exI [of _ Q']) (simp add: resume_delays_def Let_def after_ticks_add)
  qed
qed

text \<open>
  \<open>rt_resume\<close> after a sleep of \<open>t\<close> ticks returns, makes exactly the tasks ready whose
  delay is over, leaves every other task its remaining delay and selects a task of the
  highest priority. The kernel time, though, advances by \<open>t\<close> only if the delay list was
  empty or is not yet over: when the sleep outlasts the longest delay \<open>m\<close> the time advances
  by \<open>m + 1\<close>, and the rest of the sleep is lost.
\<close>

theorem rt_resume_wakes_due:
  assumes "kstate s T H Q D"
  shows "\<exists>s' Q'. rt_resume t s = Some s' \<and> kinv s' T H Q' (after_ticks (unat t) D) (tsk_new s') \<and>
    insert (tsk_new s') (set (Q' os_rdy)) = due (unat t) D \<union> set (Q os_rdy) \<union> {tsk_run s} \<and>
    os_time s' = os_time s + of_nat (if D = [] then unat t else min (unat t) (Suc (last_time 0 D))) \<and>
    tsk_run s' = tsk_run s \<and> \<not> os_lock s'"
proof -
  let ?c = "tsk_run s"
  note k = kstateD(1) [OF assms]
  from ksus_enter [OF k] obtain s0 where s0: "rt_put_rdy_first ?c (set_tstate ?c READY s) = Some s0"
    "ksus s0 T H (Q(os_rdy := ?c # Q os_rdy)) D" "sched_mask s0 = sched_mask s" by blast
  let ?u = "s0\<lparr>os_robin := (os_robin s0)\<lparr>rr_task := NULL\<rparr>\<rparr>"
  have "ksus ?u T H (Q(os_rdy := ?c # Q os_rdy)) D" using s0(2) by simp
  from resume_delays_spec [OF this, of t] obtain s1 Q1 where s1: "resume_delays t ?u = Some s1"
    "ksus s1 T H Q1 (after_ticks (unat t) D)" "set (Q1 os_rdy) = due (unat t) D \<union> insert ?c (set (Q os_rdy))"
    "os_time s1 = os_time s + of_nat (slept (unat t) D)" "tsk_run s1 = tsk_run s"
    using sched_maskD(3,4) [OF s0(3)] by auto
  obtain n xs where Q1: "Q1 os_rdy = n # xs" using s1(3) by (cases "Q1 os_rdy") auto
  from ksus_switch [OF s1(2) Q1] obtain s2 where s2:
    "(do { (p, s) \<leftarrow> rt_get_first os_rdy s1; rt_switch_req p s }) = Some s2" "tsk_new s2 = n"
    "kinv s2 T H (Q1(os_rdy := xs)) (after_ticks (unat t) D) n" "sched_mask s2 = sched_mask s1" by blast
  have cn: "?c \<noteq> NULL" using kinv_runs [OF k] by simp
  have "rt_resume t s = Some (rt_tsk_unlock s2)"
    using s0(1) s1(1) s2(1) cn by (auto simp: rt_resume_def bind_eq_Some_conv)
  moreover have "insert n (set xs) = due (unat t) D \<union> set (Q os_rdy) \<union> {?c}" using s1(3) Q1 by auto
  ultimately show ?thesis using s2 s1(4,5) sched_maskD(3,4) [OF s2(4)]
    by (intro exI [of _ "rt_tsk_unlock s2"] exI [of _ "Q1(os_rdy := xs)"]) (simp add: kinv_tsk_unlock slept_def)
qed

theorem rt_resume_wakes_due_witness:
  "\<exists>s' Q'. rt_resume 10 smp = Some s' \<and> kinv s' smpT smpH Q' [] (tsk_new s') \<and> os_time s' = os_time smp + 6"
  using rt_resume_wakes_due [OF smp_kstate, of 10] by (auto simp: smpD_def)

end
