(* ===== verification/RTX_Mutex.thy ===== *)
theory RTX_Mutex
  imports RTX_Semaphore
begin

text \<open>
  Mutexes with priority inheritance (\<open>rt_Mutex.c\<close>). A mutex records its owner, how often
  the owner has locked it, and the priority the owner had when it locked it first.
\<close>

section \<open>Mutex operations\<close>

definition rt_mut_init :: "ptr \<Rightarrow> kst \<Rightarrow> kst option" where
  "rt_mut_init mutex s = do {
     chk mutex;
     let s = set_cb_type mutex MUCB s;
     let s = set_mu_prio mutex 0 s;
     let s = set_mu_level mutex 0 s;
     let s = set_p_lnk mutex NULL s;
     Some (set_mu_owner mutex NULL s) }"

definition rt_mut_delete :: "ptr \<Rightarrow> kst \<Rightarrow> (u32 \<times> kst) option" where
  "rt_mut_delete mutex s = do {
     chk mutex;
     s \<leftarrow> (if mu_level s mutex \<noteq> 0 then do {
              chk (mu_owner s mutex);
              let s = set_prio (mu_owner s mutex) (mu_prio s mutex) s;
              if mu_owner s mutex \<noteq> tsk_run s then rt_resort_prio (mu_owner s mutex) s
              else Some s }
            else Some s);
     s \<leftarrow> wake_all mutex s;
     s \<leftarrow> preempt_run s;
     Some (OS_R_OK, set_cb_type mutex 0 s) }"

text \<open>The end of \<open>rt_mut_release\<close> when a waiting task \<open>p_TCB\<close> becomes the owner.\<close>

definition mut_pass_on :: "ptr \<Rightarrow> ptr \<Rightarrow> kst \<Rightarrow> kst option" where
  "mut_pass_on mutex p_TCB s = do {
     let s = set_mu_level mutex 1 s;
     let s = set_mu_owner mutex p_TCB s;
     let s = set_mu_prio mutex (prio s p_TCB) s;
     rp \<leftarrow> rt_rdy_prio s;
     if prio s (tsk_run s) \<ge> rp then rt_dispatch p_TCB s
     else do {
       s \<leftarrow> rt_put_prio os_rdy (tsk_run s) s;
       s \<leftarrow> rt_put_prio os_rdy p_TCB s;
       let s = set_tstate (tsk_run s) READY s;
       let s = set_tstate p_TCB READY s;
       rt_dispatch NULL s } }"

definition rt_mut_release :: "ptr \<Rightarrow> kst \<Rightarrow> (u32 \<times> kst) option" where
  "rt_mut_release mutex s = do {
     chk mutex;
     if mu_level s mutex = 0 \<or> mu_owner s mutex \<noteq> tsk_run s then Some (OS_R_NOK, s)
     else do {
       let s = set_mu_level mutex (mu_level s mutex - 1) s;
       if mu_level s mutex \<noteq> 0 then Some (OS_R_OK, s)
       else do {
         chk (tsk_run s);
         let s = set_prio (tsk_run s) (mu_prio s mutex) s;
         if p_lnk s mutex \<noteq> NULL then do {
           (p_TCB, s) \<leftarrow> rt_get_first mutex s;
           s \<leftarrow> rt_ret_val p_TCB 0 s;
           s \<leftarrow> rt_rmv_dly p_TCB s;
           s \<leftarrow> mut_pass_on mutex p_TCB s;
           Some (OS_R_OK, s) }
         else do {
           rp \<leftarrow> rt_rdy_prio s;
           s \<leftarrow> (if rp > prio s (tsk_run s) then do {
                    s \<leftarrow> rt_put_prio os_rdy (tsk_run s) s;
                    let s = set_tstate (tsk_run s) READY s;
                    rt_dispatch NULL s }
                  else Some s);
           Some (OS_R_OK, s) } } } }"

definition rt_mut_wait :: "ptr \<Rightarrow> u16 \<Rightarrow> kst \<Rightarrow> (u32 \<times> kst) option" where
  "rt_mut_wait mutex timeout s = do {
     chk mutex;
     if mu_level s mutex = 0 then do {
       let s = set_mu_owner mutex (tsk_run s) s;
       chk (tsk_run s);
       let s = set_mu_prio mutex (prio s (tsk_run s)) s;
       Some (OS_R_OK, set_mu_level mutex (mu_level s mutex + 1) s) }
     else if mu_owner s mutex = tsk_run s then
       Some (OS_R_OK, set_mu_level mutex (mu_level s mutex + 1) s)
     else if timeout = 0 then Some (OS_R_TMO, s)
     else do {
       chk (tsk_run s);
       s \<leftarrow> (if mu_prio s mutex < prio s (tsk_run s) then do {
                chk (mu_owner s mutex);
                let s = set_prio (mu_owner s mutex) (prio s (tsk_run s)) s;
                rt_resort_prio (mu_owner s mutex) s }
              else Some s);
       s \<leftarrow> (if p_lnk s mutex \<noteq> NULL then rt_put_prio mutex (tsk_run s) s
              else link_run mutex s);
       s \<leftarrow> rt_block timeout WAIT_MUT s;
       Some (OS_R_TMO, s) } }"
section \<open>Steps of the invariant\<close>

text \<open>The running task and a woken task both become ready.\<close>

lemma kcore_yield_two:
  assumes k0: "kcore u T H Q D c"
    and t: "t \<in> T" "t \<notin> queued H Q" "t \<notin> fst ` set D" "t \<noteq> c"
  shows "\<exists>s1 s2 s' n ys. rt_put_prio os_rdy c u = Some s1 \<and> rt_put_prio os_rdy t s1 = Some s2 \<and>
    rt_dispatch NULL (set_tstate t READY (set_tstate c READY s2)) = Some s' \<and>
    ins_prio (prio u) t (ins_prio (prio u) c (Q os_rdy)) = n # ys \<and>
    kinv s' T H (Q(os_rdy := ys)) D n \<and> tsk_new s' = n \<and> sched_mask s' = sched_mask u \<and>
    tsk_run s1 = tsk_run u \<and> tsk_run s2 = tsk_run u"
proof -
  note k = kcoreD [OF k0]
  note r = qrepD [OF k(1)]
  let ?q1 = "ins_prio (prio u) c (Q os_rdy)"
  let ?q2 = "ins_prio (prio u) t ?q1"
  obtain L R where p1: "rt_put_prio os_rdy c u = Some (u\<lparr>p_lnk := L, p_rlnk := R\<rparr>)"
    and rep1: "qrep (u\<lparr>p_lnk := L, p_rlnk := R\<rparr>) T H (Q(os_rdy := ?q1))"
    using rt_put_prio_qrep [OF k(1) r(1) k(5,6)] by blast
  have tq: "t \<notin> queued H (Q(os_rdy := ?q1))"
    using t(2,4) by (auto simp: queued_def split: if_splits)
  obtain L' R' where p2: "rt_put_prio os_rdy t (u\<lparr>p_lnk := L, p_rlnk := R\<rparr>) =
      Some (u\<lparr>p_lnk := L', p_rlnk := R'\<rparr>)"
    and rep2: "qrep (u\<lparr>p_lnk := L', p_rlnk := R'\<rparr>) T H (Q(os_rdy := ?q2))"
    using rt_put_prio_qrep [OF rep1 r(1) t(1) tq] by auto
  define w where "w = set_tstate t READY (set_tstate c READY (u\<lparr>p_lnk := L', p_rlnk := R'\<rparr>))"
  have f: "prio w = prio u" "tstate w = (tstate u)(c := READY, t := READY)"
    "sched_mask w = sched_mask u" by (simp_all add: w_def)
  have srt: "prio_sorted (prio u) ?q2"
    by (intro prio_sorted_ins_prio) (rule k(3) [OF r(1)])
  have sus: "ksus w T H (Q(os_rdy := ?q2)) D"
    unfolding ksus_def
  proof (intro conjI ballI)
    show "qrep w T H (Q(os_rdy := ?q2))" by (rule qrep_cong [OF rep2]) (simp_all add: w_def)
    show "drep w T D" by (rule drep_cong [OF k(2)]) (simp_all add: w_def)
    show "prio_sorted (prio w) ((Q(os_rdy := ?q2)) h)" if "h \<in> H" for h
      using k(3) [OF that] srt f(1) by simp
    show "tstate w x \<noteq> RUNNING" if "x \<in> T" for x using k(8) [OF that] f(2) by auto
    show "(tstate w x = READY) = (x \<in> set ((Q(os_rdy := ?q2)) os_rdy))" if "x \<in> T" for x
      using k(9) [OF that] f(2) by auto
  qed (use k t in auto)
  obtain n ys where q: "?q2 = n # ys" by (cases ?q2) auto
  have "(Q(os_rdy := ?q2)) os_rdy = n # ys" using q by simp
  from ksus_switch [OF sus this] obtain s' where
    "rt_dispatch NULL w = Some s'" "tsk_new s' = n" "kinv s' T H (Q(os_rdy := ys)) D n"
    "sched_mask s' = sched_mask w"
    unfolding rt_dispatch_def fun_upd_upd by (simp only: refl if_True) blast
  then show ?thesis using p1 p2 q f(3) by (auto simp: w_def)
qed

text \<open>Passing the mutex on: afterwards a task of the highest priority is selected.\<close>

lemma mut_pass_on_spec:
  assumes k0: "kcore u T H Q D c" and run: "tsk_run u = c" "tsk_new u = c"
    and t: "t \<in> T" "t \<notin> queued H Q" "t \<notin> fst ` set D" "t \<noteq> c" and Q: "Q os_rdy \<noteq> []"
  shows "\<exists>s' Q'. mut_pass_on m t u = Some s' \<and> kinv s' T H Q' D (tsk_new s') \<and>
    (\<forall>h. h \<noteq> os_rdy \<longrightarrow> Q' h = Q h) \<and>
    insert (tsk_new s') (set (Q' os_rdy)) = {c, t} \<union> set (Q os_rdy) \<and>
    sched_mask s' = sched_mask (set_mu_prio m (prio u t) (set_mu_owner m t (set_mu_level m 1 u)))"
proof -
  define w where "w = set_mu_prio m (prio u t) (set_mu_owner m t (set_mu_level m 1 u))"
  have kw: "kcore w T H Q D c" and f: "prio w = prio u" "tsk_run w = c" "tsk_new w = c"
    using k0 run by (simp_all add: w_def)
  obtain n xs where Qn: "Q os_rdy = n # xs" using Q by (cases "Q os_rdy") auto
  note r = qrepD [OF kcoreD(1) [OF kw]]
  have n: "p_lnk w os_rdy = n" "n \<noteq> NULL" using r(8) [OF r(1)] Qn by auto
  then have rp: "rt_rdy_prio w = Some (prio u n)" using f(1) by (simp add: rt_rdy_prio_def)
  have srt: "prio_sorted (prio w) (n # xs)" using kcoreD(3) [OF kw r(1)] Qn by simp
  show ?thesis
  proof (cases "prio u c \<ge> prio u n")
    case True
    then have "kinv w T H Q D c"
      unfolding kinv_kcore using kw srt f(1) Qn by (auto intro: order_trans)
    from kinv_dispatch [OF this f(2) t] obtain s' where d: "rt_dispatch t w = Some s'"
      "wakes w s' T H Q D c t" by blast
    have call: "mut_pass_on m t u = Some s'"
      using True rp d(1) f run by (simp add: mut_pass_on_def w_def)
    show ?thesis
    proof (cases "prio w t > prio w c")
      case True
      then show ?thesis using call d(2) t(4)
        by (intro exI [of _ s'] exI [of _ "Q(os_rdy := c # Q os_rdy)"]) (auto simp: wakes_def w_def)
    next
      case False
      then show ?thesis using call d(2) f(3)
        by (intro exI [of _ s'] exI [of _ "Q(os_rdy := ins_prio (prio w) t (Q os_rdy))"])
          (auto simp: wakes_def w_def)
    qed
  next
    case False
    from kcore_yield_two [OF kw t] obtain s1 s2 s' n' ys where y:
      "rt_put_prio os_rdy c w = Some s1" "rt_put_prio os_rdy t s1 = Some s2"
      "rt_dispatch NULL (set_tstate t READY (set_tstate c READY s2)) = Some s'"
      "ins_prio (prio w) t (ins_prio (prio w) c (Q os_rdy)) = n' # ys"
      "kinv s' T H (Q(os_rdy := ys)) D n'" "tsk_new s' = n'" "sched_mask s' = sched_mask w"
      "tsk_run s1 = tsk_run w" "tsk_run s2 = tsk_run w" by blast
    have "insert n' (set ys) = {c, t} \<union> set (Q os_rdy)" using arg_cong [OF y(4), of set] by auto
    moreover have "mut_pass_on m t u = Some s'"
      using False rp y f run by (simp add: mut_pass_on_def w_def)
    ultimately show ?thesis using y(5-7)
      by (intro exI [of _ s'] exI [of _ "Q(os_rdy := ys)"]) (auto simp: w_def)
  qed
qed

section \<open>Functional behaviour\<close>

lemma mut_release_waiter:
  assumes k: "kstate s T H Q D" and m: "m \<in> H" "m \<noteq> os_rdy" and c: "tsk_run s \<noteq> os_idle_TCB"
    and own: "mu_level s m = 1" "mu_owner s m = tsk_run s" and Q: "Q m = t # xs"
  shows "\<exists>s' Q'. rt_mut_release m s = Some (OS_R_OK, s') \<and> kinv s' T H Q' (undelay t D) (tsk_new s') \<and>
    Q' m = xs \<and> (\<forall>h. h \<noteq> os_rdy \<longrightarrow> h \<noteq> m \<longrightarrow> Q' h = Q h) \<and>
    insert (tsk_new s') (set (Q' os_rdy)) = {tsk_run s, t} \<union> set (Q os_rdy) \<and>
    mu_owner s' = (mu_owner s)(m := t) \<and> mu_level s' m = 1 \<and> mu_prio s' m = prio s t \<and>
    prio s' = (prio s)(tsk_run s := mu_prio s m) \<and> mem s' (rt_ret_regs t s) = 0 \<and>
    tsk_run s' = tsk_run s"
proof -
  define v where "v = set_prio (tsk_run s) (mu_prio s m) (set_mu_level m 0 s)"
  have k0: "kcore s T H Q D (tsk_run s)" "tsk_new s = tsk_run s"
    using k by (auto simp: kstate_def kinv_kcore)
  have "kcore (set_mu_level m 0 s) T H Q D (tsk_run s)" using k0(1) by simp
  then have kv: "kcore v T H Q D (tsk_run s)" unfolding v_def by (rule kcore_set_run_prio)
  have cn: "tsk_run s \<noteq> NULL" "m \<noteq> NULL"
    using qrepD(2,3) [OF kcoreD(1) [OF k0(1)]] kcoreD(5) [OF k0(1)] m(1) by auto
  obtain L R where get: "rt_get_first m v = Some (t, v\<lparr>p_lnk := L, p_rlnk := R\<rparr>)"
    and k1: "kcore (v\<lparr>p_lnk := L, p_rlnk := R\<rparr>) T H (Q(m := xs)) D (tsk_run s)"
    and t: "t \<in> T" "t \<noteq> NULL" "t \<noteq> tsk_run s" "t \<notin> queued H (Q(m := xs))"
    using kcore_get_first [OF kv m Q] by blast
  define u where "u = set_mem (rt_ret_regs t s) 0 (v\<lparr>p_lnk := L, p_rlnk := R\<rparr>)"
  have "kcore u T H (Q(m := xs)) D (tsk_run s)" using k1 by (simp add: u_def)
  then obtain L' R' X where rmv: "rt_rmv_dly t u = Some (u\<lparr>p_dlnk := L', p_blnk := R', delta_time := X\<rparr>)"
    and k2: "kcore (u\<lparr>p_dlnk := L', p_blnk := R', delta_time := X\<rparr>) T H (Q(m := xs)) (undelay t D) (tsk_run s)"
    using kcore_rmv_dly t(1) by blast
  define w where "w = u\<lparr>p_dlnk := L', p_blnk := R', delta_time := X\<rparr>"
  have kw: "kcore w T H (Q(m := xs)) (undelay t D) (tsk_run s)" using k2 by (simp only: w_def)
  have f: "tsk_run w = tsk_run s" "tsk_new w = tsk_run s" "prio w = (prio s)(tsk_run s := mu_prio s m)"
    "mem w (rt_ret_regs t s) = 0" "mu_owner w = mu_owner s"
    using k0(2) by (simp_all add: w_def u_def v_def)
  have ne: "(Q(m := xs)) os_rdy \<noteq> []" using kcoreD(11) [OF k0(1)] c m(2) by auto
  from mut_pass_on_spec [OF kw f(1,2) t(1,4) notin_undelay t(3) ne, of m] obtain s' Q' where
    p: "mut_pass_on m t w = Some s'" "kinv s' T H Q' (undelay t D) (tsk_new s')"
    "\<forall>h. h \<noteq> os_rdy \<longrightarrow> Q' h = (Q(m := xs)) h"
    "insert (tsk_new s') (set (Q' os_rdy)) = {tsk_run s, t} \<union> set ((Q(m := xs)) os_rdy)"
    "sched_mask s' = sched_mask (set_mu_prio m (prio w t) (set_mu_owner m t (set_mu_level m 1 w)))" by blast
  note mk = sched_maskD [OF p(5)]
  have "p_lnk v m \<noteq> NULL" using qrep_p_lnk_NULL [OF kcoreD(1) [OF kv] m(1)] Q by simp
  then have "rt_mut_release m s = Some (OS_R_OK, s')"
    using own cn get rmv p(1) t(2)
    by (simp add: rt_mut_release_def rt_ret_val_def rt_ret_regs_def Let_def v_def u_def w_def)
  then show ?thesis using p(2-4) mk(2,3,7,11,12,13) f t(3) m(2)
    by (intro exI [of _ s'] exI [of _ Q']) simp
qed

lemma mut_release_no_waiter:
  assumes k: "kstate s T H Q D" and m: "m \<in> H" "m \<noteq> os_rdy" and c: "tsk_run s \<noteq> os_idle_TCB"
    and own: "mu_level s m = 1" "mu_owner s m = tsk_run s" and Q: "Q m = []"
  shows "\<exists>s' Q'. rt_mut_release m s = Some (OS_R_OK, s') \<and> kinv s' T H Q' D (tsk_new s') \<and>
    (\<forall>h. h \<noteq> os_rdy \<longrightarrow> Q' h = Q h) \<and>
    insert (tsk_new s') (set (Q' os_rdy)) = insert (tsk_run s) (set (Q os_rdy)) \<and>
    mu_level s' m = 0 \<and> prio s' = (prio s)(tsk_run s := mu_prio s m) \<and> tsk_run s' = tsk_run s"
proof -
  define v where "v = set_prio (tsk_run s) (mu_prio s m) (set_mu_level m 0 s)"
  have k0: "kcore s T H Q D (tsk_run s)" "tsk_new s = tsk_run s"
    using k by (auto simp: kstate_def kinv_kcore)
  have "kcore (set_mu_level m 0 s) T H Q D (tsk_run s)" using k0(1) by simp
  then have kv: "kcore v T H Q D (tsk_run s)" unfolding v_def by (rule kcore_set_run_prio)
  have cn: "tsk_run s \<noteq> NULL" "m \<noteq> NULL"
    using qrepD(2,3) [OF kcoreD(1) [OF k0(1)]] kcoreD(5) [OF k0(1)] m(1) by auto
  have f: "tsk_run v = tsk_run s" "tsk_new v = tsk_run s" using k0(2) by (simp_all add: v_def)
  have "Q os_rdy \<noteq> []" using kcoreD(11) [OF k0(1)] c by auto
  then have rd: "p_lnk v os_rdy \<noteq> NULL"
    using qrep_p_lnk_NULL [OF kcoreD(1) [OF kv] qrepD(1) [OF kcoreD(1) [OF kv]]] by simp
  obtain s' Q' where p: "preempt_run v = Some s'" "kinv s' T H Q' D (tsk_new s')"
    "\<forall>h. h \<noteq> os_rdy \<longrightarrow> Q' h = Q h"
    "insert (tsk_new s') (set (Q' os_rdy)) = insert (tsk_run s) (set (Q os_rdy))"
    "sched_mask s' = sched_mask v"
    using preempt_run_spec [OF kv f] by blast
  note mk = sched_maskD [OF p(5)]
  have "p_lnk v m = NULL" using qrep_p_lnk_NULL [OF kcoreD(1) [OF kv] m(1)] Q by simp
  then have "rt_mut_release m s = map_option (Pair OS_R_OK) (preempt_run v)"
    using own cn rd by (simp add: rt_mut_release_def preempt_run_def rt_rdy_prio_def Let_def v_def
        map_conv_bind_option comp_def)
  then show ?thesis using p(1-4) mk(2,3,11)
    by (intro exI [of _ s'] exI [of _ Q']) (simp add: v_def)
qed

text \<open>The state of a mutex that another task owns when the caller has to wait for it.\<close>

lemma mut_wait_blocks:
  assumes k: "kstate s T H Q D" and m: "m \<in> H" "m \<noteq> os_rdy" and c: "tsk_run s \<noteq> os_idle_TCB"
    and own: "mu_level s m \<noteq> 0" "mu_owner s m \<noteq> tsk_run s" "mu_owner s m \<in> T" and tmo: "timeout \<noteq> 0"
  shows "\<exists>s' Q'. rt_mut_wait m timeout s = Some (OS_R_TMO, s') \<and>
    kinv s' T H Q' (if timeout < 0xffff then ins_dly (tsk_run s) (unat timeout) D else D) (tsk_new s') \<and>
    set (Q' m) = insert (tsk_run s) (set (Q m)) \<and> tstate s' (tsk_run s) = WAIT_MUT \<and>
    insert (tsk_new s') (set (Q' os_rdy)) = set (Q os_rdy) \<and>
    prio s' = (if mu_prio s m < prio s (tsk_run s)
               then (prio s)(mu_owner s m := prio s (tsk_run s)) else prio s) \<and>
    tsk_run s' = tsk_run s"
proof -
  let ?c = "tsk_run s" and ?o = "mu_owner s m"
  have k0: "kcore s T H Q D ?c" "tsk_new s = ?c" "kinv s T H Q D ?c"
    using k by (auto simp: kstate_def kinv_kcore)
  have cn: "?c \<noteq> NULL" "m \<noteq> NULL" "?o \<noteq> NULL"
    using qrepD(2,3) [OF kcoreD(1) [OF k0(1)]] kcoreD(5) [OF k0(1)] m(1) own(3) by auto
  define pr where "pr = (if mu_prio s m < prio s ?c then (prio s)(?o := prio s ?c) else prio s)"
  have "\<exists>u Q1. (if mu_prio s m < prio s ?c
      then rt_resort_prio ?o (set_prio ?o (prio s ?c) s) else Some s) = Some u \<and>
    kinv u T H Q1 D ?c \<and> (\<forall>h. set (Q1 h) = set (Q h)) \<and> prio u = pr \<and> tsk_run u = ?c \<and> tstate u = tstate s"
  proof (cases "mu_prio s m < prio s ?c")
    case False
    then show ?thesis using k0(3) by (auto simp: pr_def)
  next
    case True
    obtain L R Q1 where rs: "rt_resort_prio ?o (set_prio ?o (prio s ?c) s) =
        Some ((set_prio ?o (prio s ?c) s)\<lparr>p_lnk := L, p_rlnk := R\<rparr>)"
      "kcore ((set_prio ?o (prio s ?c) s)\<lparr>p_lnk := L, p_rlnk := R\<rparr>) T H Q1 D ?c"
      "\<forall>h. set (Q1 h) = set (Q h)"
      using kcore_resort [OF k0(1) own(3,2)] by blast
    have "\<forall>x\<in>set (Q os_rdy). prio s x \<le> prio s ?c" using k0(3) by (simp add: kinv_kcore)
    then have "kinv ((set_prio ?o (prio s ?c) s)\<lparr>p_lnk := L, p_rlnk := R\<rparr>) T H Q1 D ?c"
      unfolding kinv_kcore using rs(2,3) own(2) by auto
    then show ?thesis using rs True by (auto simp: pr_def)
  qed
  then obtain u Q1 where u: "(if mu_prio s m < prio s ?c
      then rt_resort_prio ?o (set_prio ?o (prio s ?c) s) else Some s) = Some u"
    "kinv u T H Q1 D ?c" "\<forall>h. set (Q1 h) = set (Q h)" "prio u = pr" "tsk_run u = ?c" by blast
  obtain L R where put: "(if p_lnk u m \<noteq> NULL then rt_put_prio m (tsk_run u) u else link_run m u) =
      Some (u\<lparr>p_lnk := L, p_rlnk := R\<rparr>)"
    and k1: "kinv0 (u\<lparr>p_lnk := L, p_rlnk := R\<rparr>) T H (Q1(m := ins_prio (prio u) ?c (Q1 m))) D ?c"
    using kinv_wait_list [OF u(2,5) m] by blast
  have run: "tsk_run (u\<lparr>p_lnk := L, p_rlnk := R\<rparr>) = ?c" using u(5) by simp
  obtain s' n xs where b: "(Q1(m := ins_prio (prio u) ?c (Q1 m))) os_rdy = n # xs"
    "rt_block timeout WAIT_MUT (u\<lparr>p_lnk := L, p_rlnk := R\<rparr>) = Some s'" "tsk_new s' = n"
    "kinv s' T H (Q1(m := ins_prio (prio u) ?c (Q1 m), os_rdy := xs))
      (if timeout < 0xffff then ins_dly ?c (unat timeout) D else D) n"
    "sched_mask s' = sched_mask (u\<lparr>p_lnk := L, p_rlnk := R\<rparr>)"
    "tstate s' = (tstate (u\<lparr>p_lnk := L, p_rlnk := R\<rparr>))(?c := WAIT_MUT, n := RUNNING)"
    using kinv_block [OF k1 run c tmo, of WAIT_MUT] by auto
  have call: "rt_mut_wait m timeout s = Some (OS_R_TMO, s')"
    using own tmo cn u(1) put b(2)
    by (cases "mu_prio s m < prio s ?c"; cases "p_lnk u m = NULL") (simp_all add: rt_mut_wait_def Let_def)
  note mk = sched_maskD [OF b(5)]
  have q: "Q1 os_rdy = n # xs" using b(1) m(2) by simp
  have "n \<noteq> ?c" using kcore_notin [of u T H Q1 D ?c os_rdy] u(2) q
      qrepD(1) [OF kcoreD(1) [OF k0(1)]] by (auto simp: kinv_kcore)
  then have ts: "tstate s' ?c = WAIT_MUT" using b(6) by simp
  have "insert n (set xs) = set (Q os_rdy)" using u(3) [rule_format, of os_rdy] q by simp
  then show ?thesis using call b(3,4) ts mk(2,3) u m(2) unfolding pr_def [symmetric]
    by (intro exI [of _ s'] exI [of _ "Q1(m := ins_prio (prio u) ?c (Q1 m), os_rdy := xs)"]) simp
qed

text \<open>Deleting a mutex restores the priority of its owner and wakes all waiting tasks.\<close>

lemma mut_delete_spec:
  assumes k: "kstate s T H Q D" and m: "m \<in> H" "m \<noteq> os_rdy"
    and own: "mu_level s m \<noteq> 0 \<Longrightarrow> mu_owner s m \<in> T"
  shows "\<exists>s' s'' Q' D'. rt_mut_delete m s = Some (OS_R_OK, s') \<and> s' = set_cb_type m 0 s'' \<and>
    kinv s'' T H Q' D' (tsk_new s'') \<and> Q' m = [] \<and>
    insert (tsk_new s'') (set (Q' os_rdy)) = insert (tsk_run s) (set (Q os_rdy) \<union> set (Q m)) \<and>
    prio s'' = (if mu_level s m \<noteq> 0 then (prio s)(mu_owner s m := mu_prio s m) else prio s) \<and>
    tsk_run s'' = tsk_run s"
proof -
  let ?c = "tsk_run s" and ?o = "mu_owner s m"
  have k0: "kcore s T H Q D ?c" "tsk_new s = ?c" using k by (auto simp: kstate_def kinv_kcore)
  have cn: "?c \<noteq> NULL" "m \<noteq> NULL" "mu_level s m \<noteq> 0 \<Longrightarrow> ?o \<noteq> NULL"
    using qrepD(2,3) [OF kcoreD(1) [OF k0(1)]] kcoreD(5) [OF k0(1)] m(1) own by auto
  define pr where "pr = (if mu_level s m \<noteq> 0 then (prio s)(?o := mu_prio s m) else prio s)"
  define f where "f = (if mu_level s m \<noteq> 0 then do {
              chk ?o;
              let s = set_prio ?o (mu_prio s m) s;
              if mu_owner s m \<noteq> tsk_run s then rt_resort_prio (mu_owner s m) s
              else Some s }
            else Some s)"
  have "\<exists>u Q1. f = Some u \<and> kcore u T H Q1 D ?c \<and> (\<forall>h. set (Q1 h) = set (Q h)) \<and> prio u = pr \<and>
      tsk_run u = ?c \<and> tsk_new u = ?c"
  proof -
    consider "mu_level s m = 0" | "mu_level s m \<noteq> 0" "?o = ?c" | "mu_level s m \<noteq> 0" "?o \<noteq> ?c" by blast
    then show ?thesis
    proof cases
      case 1
      then show ?thesis using k0 by (auto simp: f_def pr_def)
    next
      case 2
      then show ?thesis using kcore_set_run_prio [OF k0(1), of "mu_prio s m"] cn k0(2)
        by (auto simp: f_def pr_def)
    next
      case 3
      obtain L R Q1 where rs: "rt_resort_prio ?o (set_prio ?o (mu_prio s m) s) =
          Some ((set_prio ?o (mu_prio s m) s)\<lparr>p_lnk := L, p_rlnk := R\<rparr>)"
        "kcore ((set_prio ?o (mu_prio s m) s)\<lparr>p_lnk := L, p_rlnk := R\<rparr>) T H Q1 D ?c"
        "\<forall>h. set (Q1 h) = set (Q h)"
        using kcore_resort [OF k0(1) own [OF 3(1)] 3(2)] by blast
      then show ?thesis using 3 cn k0(2) by (auto simp: f_def pr_def)
    qed
  qed
  then obtain u Q1 where u: "f = Some u" "kcore u T H Q1 D ?c" "\<forall>h. set (Q1 h) = set (Q h)"
    "prio u = pr" "tsk_run u = ?c" "tsk_new u = ?c" by blast
  define Q2 where "Q2 = Q1(m := [], os_rdy := fold (ins_prio (prio u)) (Q1 m) (Q1 os_rdy))"
  obtain s1 D' where w: "wake_all m u = Some s1" "kcore s1 T H Q2 D' ?c"
    "sched_mask (s1\<lparr>mem := mem u\<rparr>) = sched_mask u" "tsk_new s1 = tsk_new u"
    using wake_all_spec [OF u(2) m] unfolding Q2_def by blast
  note mk = sched_maskD [OF w(3)]
  have run: "tsk_run s1 = ?c" "tsk_new s1 = ?c" using mk(3) w(4) u(5,6) by simp_all
  obtain s'' Q' where p: "preempt_run s1 = Some s''" "kinv s'' T H Q' D' (tsk_new s'')"
    "\<forall>h. h \<noteq> os_rdy \<longrightarrow> Q' h = Q2 h"
    "insert (tsk_new s'') (set (Q' os_rdy)) = insert ?c (set (Q2 os_rdy))"
    "sched_mask s'' = sched_mask s1"
    using preempt_run_spec [OF w(2) run] by blast
  have call: "rt_mut_delete m s = Some (OS_R_OK, set_cb_type m 0 s'')"
  proof -
    have "rt_mut_delete m s = do { s \<leftarrow> f; s \<leftarrow> wake_all m s; s \<leftarrow> preempt_run s;
        Some (OS_R_OK, set_cb_type m 0 s) }"
      unfolding rt_mut_delete_def f_def using cn(2) by (simp add: Let_def)
    then show ?thesis using u(1) w(1) p(1) by simp
  qed
  have "set (Q2 os_rdy) = set (Q1 m) \<union> set (Q1 os_rdy)" by (simp add: Q2_def set_fold_ins_prio)
  then have "insert (tsk_new s'') (set (Q' os_rdy)) = insert ?c (set (Q os_rdy) \<union> set (Q m))"
    using p(4) u(3) by auto
  moreover have "Q' m = []" using p(3) m(2) by (simp add: Q2_def)
  moreover have "prio s'' = pr" "tsk_run s'' = ?c"
    using sched_maskD(2,3) [OF p(5)] mk(2,3) u(4,5) by simp_all
  ultimately show ?thesis using call p(2) unfolding pr_def [symmetric] by blast
qed

section \<open>The contract of a kernel service\<close>

lemma kstate_nonnull: "kstate s T H Q D \<Longrightarrow> h \<in> H \<Longrightarrow> h \<noteq> NULL \<and> tsk_run s \<noteq> NULL"
  using qrepD(2) [OF kinv_qrep [OF kstateD(1)]] kinv_runs [OF kstateD(1)] by blast

interpretation mut_wait: kernel_service
  "\<lambda>s T H Q. m \<in> H \<and> m \<noteq> os_rdy \<and> tsk_run s \<noteq> os_idle_TCB \<and> (mu_level s m \<noteq> 0 \<longrightarrow> mu_owner s m \<in> T)"
  "\<lambda>s. map_option snd (rt_mut_wait m timeout s)" for m timeout
proof
  fix s T H Q D
  assume k: "kstate s T H Q D" and m: "m \<in> H \<and> m \<noteq> os_rdy \<and> tsk_run s \<noteq> os_idle_TCB \<and>
    (mu_level s m \<noteq> 0 \<longrightarrow> mu_owner s m \<in> T)"
  show "\<exists>s'. map_option snd (rt_mut_wait m timeout s) = Some s' \<and> kexit s s' T H"
  proof (cases "mu_level s m \<noteq> 0 \<and> mu_owner s m \<noteq> tsk_run s \<and> timeout \<noteq> 0")
    case True
    with mut_wait_blocks [OF k, of m timeout] m show ?thesis by (fastforce intro: kexitI)
  next
    case False
    have "kexit s s T H" "kexit s (mu_level_update f s) T H"
      "kexit s (mu_level_update f (mu_prio_update g (mu_owner_update h s))) T H" for f g h
      using k by (auto simp: kstate_def intro: kexitI)
    with False kstate_nonnull [OF k, of m] m show ?thesis by (auto simp: rt_mut_wait_def)
  qed
qed

interpretation mut_release: kernel_service
  "\<lambda>s T H Q. m \<in> H \<and> m \<noteq> os_rdy \<and> tsk_run s \<noteq> os_idle_TCB"
  "\<lambda>s. map_option snd (rt_mut_release m s)" for m
proof
  fix s T H Q D
  assume k: "kstate s T H Q D" and m: "m \<in> H \<and> m \<noteq> os_rdy \<and> tsk_run s \<noteq> os_idle_TCB"
  consider "mu_level s m = 0 \<or> mu_owner s m \<noteq> tsk_run s"
    | "mu_owner s m = tsk_run s" "mu_level s m \<noteq> 0" "mu_level s m \<noteq> 1"
    | "mu_owner s m = tsk_run s" "mu_level s m = 1" by blast
  then show "\<exists>s'. map_option snd (rt_mut_release m s) = Some s' \<and> kexit s s' T H"
  proof cases
    case 1
    with kstate_nonnull [OF k, of m] kexit_same [OF k] m show ?thesis
      by (auto simp: rt_mut_release_def)
  next
    case 2
    then have "mu_level s m - 1 \<noteq> 0" by simp
    moreover have "kexit s (mu_level_update f s) T H" for f
      using k by (auto simp: kstate_def intro: kexitI)
    ultimately show ?thesis using 2 kstate_nonnull [OF k, of m] m by (auto simp: rt_mut_release_def)
  next
    case 3
    show ?thesis
    proof (cases "Q m")
      case Nil
      from mut_release_no_waiter [OF k _ _ _ 3(2,1) Nil] m show ?thesis by (fastforce intro: kexitI)
    next
      case (Cons t xs)
      from mut_release_waiter [OF k _ _ _ 3(2,1) Cons] m show ?thesis by (fastforce intro: kexitI)
    qed
  qed
qed

section \<open>Promises of the mutex services\<close>

text \<open>
  C7: every branch of \<open>rt_mut_release\<close>. A task that does not own the mutex gets an error and changes nothing; a nested
  release only takes one from the level. The last release gives the releasing task the priority back that it had when
  it locked the mutex. If tasks wait, the mutex is passed to the first of them: that task becomes the owner with level 1 and
  its own priority recorded, its delay ends and its return value is 0; otherwise the mutex is free. The selected task has the
  highest priority of all ready tasks.
\<close>

theorem rt_mut_release_passes_on:
  assumes "kstate s T H Q D" and "m \<in> H" "m \<noteq> os_rdy" and "tsk_run s \<noteq> os_idle_TCB"
  shows "if mu_level s m = 0 \<or> mu_owner s m \<noteq> tsk_run s then rt_mut_release m s = Some (OS_R_NOK, s)
    else if mu_level s m \<noteq> 1 then rt_mut_release m s = Some (OS_R_OK, set_mu_level m (mu_level s m - 1) s)
    else \<exists>s' Q'. rt_mut_release m s = Some (OS_R_OK, s') \<and> prio s' = (prio s)(tsk_run s := mu_prio s m) \<and>
      (\<forall>h. h \<noteq> os_rdy \<longrightarrow> h \<noteq> m \<longrightarrow> Q' h = Q h) \<and>
      (case Q m of
         [] \<Rightarrow> kinv s' T H Q' D (tsk_new s') \<and> Q' m = [] \<and> mu_level s' m = 0 \<and>
           insert (tsk_new s') (set (Q' os_rdy)) = insert (tsk_run s) (set (Q os_rdy))
       | t # xs \<Rightarrow> kinv s' T H Q' (undelay t D) (tsk_new s') \<and> Q' m = xs \<and>
           insert (tsk_new s') (set (Q' os_rdy)) = {tsk_run s, t} \<union> set (Q os_rdy) \<and>
           mu_owner s' m = t \<and> mu_level s' m = 1 \<and> mu_prio s' m = prio s t \<and> mem s' (rt_ret_regs t s) = 0)"
proof -
  note n = kstate_nonnull [OF assms(1,2)]
  consider (other) "mu_level s m = 0 \<or> mu_owner s m \<noteq> tsk_run s" | (nested) "mu_level s m \<noteq> 0" "mu_owner s m = tsk_run s" "mu_level s m \<noteq> 1"
    | (last) "mu_level s m = 1" "mu_owner s m = tsk_run s" by blast
  then show ?thesis
  proof cases
    case other
    then show ?thesis using n by (simp add: rt_mut_release_def)
  next
    case nested
    then have "mu_level s m - 1 \<noteq> 0" by simp
    then show ?thesis using nested n by (simp add: rt_mut_release_def Let_def)
  next
    case last
    show ?thesis
    proof (cases "Q m")
      case Nil
      from mut_release_no_waiter [OF assms last Nil] obtain s' Q' where r: "rt_mut_release m s = Some (OS_R_OK, s')"
        "kinv s' T H Q' D (tsk_new s')" "\<forall>h. h \<noteq> os_rdy \<longrightarrow> Q' h = Q h"
        "insert (tsk_new s') (set (Q' os_rdy)) = insert (tsk_run s) (set (Q os_rdy))"
        "mu_level s' m = 0" "prio s' = (prio s)(tsk_run s := mu_prio s m)" by blast
      then have "Q' m = []" using Nil assms(3) by simp
      with r show ?thesis using last Nil by (simp, intro exI [of _ Q'] conjI) auto
    next
      case (Cons t xs)
      from mut_release_waiter [OF assms last Cons] obtain s' Q' where r: "rt_mut_release m s = Some (OS_R_OK, s')"
        "kinv s' T H Q' (undelay t D) (tsk_new s')" "Q' m = xs" "\<forall>h. h \<noteq> os_rdy \<longrightarrow> h \<noteq> m \<longrightarrow> Q' h = Q h"
        "insert (tsk_new s') (set (Q' os_rdy)) = {tsk_run s, t} \<union> set (Q os_rdy)" "mu_owner s' = (mu_owner s)(m := t)"
        "mu_level s' m = 1" "mu_prio s' m = prio s t" "prio s' = (prio s)(tsk_run s := mu_prio s m)" "mem s' (rt_ret_regs t s) = 0" by blast
      then show ?thesis using last Cons by (simp, intro exI [of _ Q'] conjI) auto
    qed
  qed
qed

text \<open>The sample system with a mutex that A owns and B waits for.\<close>

definition smp_mut :: kst where
  "smp_mut = smp\<lparr>cb_type := (cb_type smp)(smpS := MUCB), mu_level := (\<lambda>_. 1),
     mu_owner := (\<lambda>_. smpA), mu_prio := (\<lambda>_. 2)\<rparr>"

lemma smp_mut_kstate: "kstate smp_mut smpT smpH smpQ smpD"
proof -
  have "qrep smp_mut smpT smpH smpQ"
    by (auto simp: qrep_def queued_def sem_mbx_def smp_mut_def smp_def smpT_def smpH_def smpQ_def smp_defs)
  moreover have "drep smp_mut smpT smpD" by (rule drep_cong [OF smp_drep]) (simp_all add: smp_mut_def)
  ultimately have "kinv smp_mut smpT smpH smpQ smpD smpA"
    using smp_kinv unfolding kinv_def kinv0_def by (simp add: smp_mut_def)
  then show ?thesis by (simp add: kstate_def smp_mut_def)
qed

theorem rt_mut_release_passes_on_witness:
  "\<exists>s'. rt_mut_release smpS smp_mut = Some (OS_R_OK, s') \<and> mu_owner s' smpS = smpB \<and>
    prio s' smpA = 2"
  using rt_mut_release_passes_on [OF smp_mut_kstate, of smpS] by (auto simp: smp_mut_def)

text \<open>
  C8: every branch of \<open>rt_mut_wait\<close>. A free mutex is taken, with the caller as owner and its priority recorded; the owner
  itself gets one more level; with a zero timeout the call returns without the mutex. Otherwise the caller blocks in the waiting
  list of the mutex, and when its priority is above the one recorded in the mutex, the owner continues with the caller's
  priority, in its place in whatever list it is in. An owner that ran with its recorded priority thereby gets the higher one of both.
\<close>

theorem rt_mut_wait_inherits_priority:
  assumes "kstate s T H Q D" and "m \<in> H" "m \<noteq> os_rdy" and "tsk_run s \<noteq> os_idle_TCB"
    and "mu_level s m \<noteq> 0 \<Longrightarrow> mu_owner s m \<in> T"
  shows "if mu_level s m = 0
      then rt_mut_wait m timeout s = Some (OS_R_OK, set_mu_level m 1 (set_mu_prio m (prio s (tsk_run s)) (set_mu_owner m (tsk_run s) s)))
    else if mu_owner s m = tsk_run s then rt_mut_wait m timeout s = Some (OS_R_OK, set_mu_level m (mu_level s m + 1) s)
    else if timeout = 0 then rt_mut_wait m timeout s = Some (OS_R_TMO, s)
    else \<exists>s' Q'. rt_mut_wait m timeout s = Some (OS_R_TMO, s') \<and>
      kinv s' T H Q' (if timeout < 0xffff then ins_dly (tsk_run s) (unat timeout) D else D) (tsk_new s') \<and>
      set (Q' m) = insert (tsk_run s) (set (Q m)) \<and> tstate s' (tsk_run s) = WAIT_MUT \<and>
      insert (tsk_new s') (set (Q' os_rdy)) = set (Q os_rdy) \<and>
      prio s' = (if mu_prio s m < prio s (tsk_run s)
                 then (prio s)(mu_owner s m := prio s (tsk_run s)) else prio s) \<and>
      (prio s (mu_owner s m) = mu_prio s m \<longrightarrow> prio s' (mu_owner s m) = max (prio s (mu_owner s m)) (prio s (tsk_run s)))"
proof -
  note n = kstate_nonnull [OF assms(1,2)]
  let ?B = "\<lambda>s' Q'. rt_mut_wait m timeout s = Some (OS_R_TMO, s') \<and>
      kinv s' T H Q' (if timeout < 0xffff then ins_dly (tsk_run s) (unat timeout) D else D) (tsk_new s') \<and>
      set (Q' m) = insert (tsk_run s) (set (Q m)) \<and> tstate s' (tsk_run s) = WAIT_MUT \<and>
      insert (tsk_new s') (set (Q' os_rdy)) = set (Q os_rdy) \<and>
      prio s' = (if mu_prio s m < prio s (tsk_run s) then (prio s)(mu_owner s m := prio s (tsk_run s)) else prio s) \<and>
      (prio s (mu_owner s m) = mu_prio s m \<longrightarrow> prio s' (mu_owner s m) = max (prio s (mu_owner s m)) (prio s (tsk_run s)))"
  consider (free) "mu_level s m = 0" | (own) "mu_level s m \<noteq> 0" "mu_owner s m = tsk_run s"
    | (tmo) "mu_level s m \<noteq> 0" "mu_owner s m \<noteq> tsk_run s" "timeout = 0" | (block) "mu_level s m \<noteq> 0" "mu_owner s m \<noteq> tsk_run s" "timeout \<noteq> 0" by blast
  then show ?thesis
  proof cases
    case block
    from mut_wait_blocks [OF assms(1-4) block(1,2) assms(5) [OF block(1)] block(3)] obtain s' Q' where
      r: "rt_mut_wait m timeout s = Some (OS_R_TMO, s')"
      "kinv s' T H Q' (if timeout < 0xffff then ins_dly (tsk_run s) (unat timeout) D else D) (tsk_new s')"
      "set (Q' m) = insert (tsk_run s) (set (Q m))" "tstate s' (tsk_run s) = WAIT_MUT"
      "insert (tsk_new s') (set (Q' os_rdy)) = set (Q os_rdy)"
      "prio s' = (if mu_prio s m < prio s (tsk_run s) then (prio s)(mu_owner s m := prio s (tsk_run s)) else prio s)" by blast
    have "prio s (mu_owner s m) = mu_prio s m \<longrightarrow> prio s' (mu_owner s m) = max (prio s (mu_owner s m)) (prio s (tsk_run s))"
      unfolding r(6) by (auto simp: max_def)
    with r have "?B s' Q'" by blast
    then have "\<exists>s' Q'. ?B s' Q'" by blast
    then show ?thesis using block by (simp only: simp_thms if_False)
  qed (use n in \<open>simp_all add: rt_mut_wait_def Let_def\<close>)
qed

theorem rt_mut_wait_inherits_priority_witness:
  "\<exists>s'. rt_mut_wait smpU 0xffff smp = Some (OS_R_TMO, s') \<and> tstate s' smpA = WAIT_MUT \<and>
    prio s' smpC = 2"
  using rt_mut_wait_inherits_priority [OF smp_kstate, of smpU "0xffff"] by auto

text \<open>
  The inheritance test compares with the priority the owner had when it locked the
  mutex, not with its current one: a waiting task can lower the priority of an owner that
  already runs with the higher priority of another waiting task.
\<close>

theorem rt_mut_wait_can_lower_owner:
  assumes "kstate s T H Q D" and "m \<in> H" "m \<noteq> os_rdy" and "tsk_run s \<noteq> os_idle_TCB"
    and "mu_level s m \<noteq> 0" "mu_owner s m \<noteq> tsk_run s" "mu_owner s m \<in> T" and "timeout \<noteq> 0"
    and "mu_prio s m < prio s (tsk_run s)" "prio s (tsk_run s) < prio s (mu_owner s m)"
  shows "\<exists>s'. rt_mut_wait m timeout s = Some (OS_R_TMO, s') \<and>
    prio s' (mu_owner s m) < prio s (mu_owner s m)"
  using mut_wait_blocks [OF assms(1-8)] assms(9,10) by auto

theorem rt_mut_wait_can_lower_owner_witness:
  "\<exists>s'. rt_mut_wait smpU 0xffff (smp\<lparr>mu_owner := (\<lambda>_. smpB)\<rparr>) = Some (OS_R_TMO, s') \<and>
    prio s' smpB < 3"
proof -
  have "kstate (smp\<lparr>mu_owner := (\<lambda>_. smpB)\<rparr>) smpT smpH smpQ smpD"
    using smp_kstate by (simp add: kstate_def)
  from rt_mut_wait_can_lower_owner [OF this, of smpU "0xffff"] show ?thesis by simp
qed

end
