(* ===== verification/RTX_CMSIS.thy ===== *)
theory RTX_CMSIS
  imports RTX_System RTX_Mutex
begin

text \<open>
  The CMSIS-RTOS interface of \<open>rt_CMSIS.c\<close>: the service functions that run in handler mode
  check their arguments and call the kernel, and the public functions choose between the
  service call and the direct call by the processor mode. Object definitions
  (\<open>osThreadDef_t\<close> and the like, \<open>cmsis_os.h\<close>) are words of memory in the order of their
  fields. The model of a public function ends with the service function: the exception
  return that follows a service call is \<open>task_switch\<close>.
\<close>

section \<open>Processor mode and results\<close>

text \<open>The special registers \<open>IPSR\<close> (not 0 in an interrupt handler) and \<open>CONTROL\<close>.\<close>

record cpu =
  ipsr :: u32
  control :: u32

text \<open>The structure \<open>osEvent\<close>; a value that the code leaves uninitialised is \<open>None\<close>.\<close>

record osEvent =
  ev_status :: u32
  ev_value :: "u32 option"

text \<open>The link address of the function a thread returns to.\<close>

definition osThreadExit_addr :: u32 where "osThreadExit_addr = 0x00000801"

text \<open>The definitions of the timer thread and of its queue (\<open>RTX_CM_lib.h\<close>).\<close>

definition os_thread_def_osTimerThread :: ptr where "os_thread_def_osTimerThread = 0x10001000"
definition os_messageQ_def_osTimerMessageQ :: ptr where "os_messageQ_def_osTimerMessageQ = 0x10001100"

abbreviation (input) osPriorityError :: u32 where "osPriorityError \<equiv> 0x84"
abbreviation (input) osFeature_Semaphore :: u16 where "osFeature_Semaphore \<equiv> 65535"
abbreviation (input) bad_signals :: u32 where "bad_signals \<equiv> 0x80000000"

definition rt_tid2ptcb :: "ptr \<Rightarrow> kst \<Rightarrow> ptr" where
  "rt_tid2ptcb thread_id s =
     (if thread_id = NULL then NULL
      else if thread_id AND 3 \<noteq> 0 then NULL
      else if cb_type s thread_id \<noteq> TCB then NULL
      else thread_id)"

section \<open>Message queues\<close>

definition svcMessageCreate :: "ptr \<Rightarrow> ptr \<Rightarrow> kst \<Rightarrow> (ptr \<times> kst) option" where
  "svcMessageCreate queue_def thread_id s =
     (let queue_sz = mem s queue_def; pool = mem s (queue_def + 4) in
      if queue_def = NULL \<or> queue_sz = 0 \<or> pool = NULL then do {
        s \<leftarrow> sysThreadError osErrorParameter s; Some (NULL, s) }
      else if cb_type s pool \<noteq> 0 then do {
        s \<leftarrow> sysThreadError osErrorParameter s; Some (NULL, s) }
      else do {
        s \<leftarrow> rt_mbx_init pool (ucast (4 * (queue_sz + 4))) s;
        Some (pool, s) })"

definition svcMessagePut :: "ptr \<Rightarrow> u32 \<Rightarrow> u32 \<Rightarrow> kst \<Rightarrow> (u32 \<times> kst) option" where
  "svcMessagePut queue_id info millisec s =
     (if queue_id = NULL then Some (osErrorParameter, s)
      else if cb_type s queue_id \<noteq> MCB then Some (osErrorParameter, s)
      else do {
        (res, s) \<leftarrow> rt_mbx_send queue_id info (ucast (rt_ms2tick s millisec)) s;
        Some (if res = OS_R_TMO
              then (if millisec \<noteq> 0 then osErrorTimeoutResource else osErrorResource)
              else osOK, s) })"

definition svcMessageGet :: "ptr \<Rightarrow> u32 \<Rightarrow> kst \<Rightarrow> (osEvent \<times> kst) option" where
  "svcMessageGet queue_id millisec s =
     (if queue_id = NULL then Some (\<lparr>ev_status = osErrorParameter, ev_value = None\<rparr>, s)
      else if cb_type s queue_id \<noteq> MCB then Some (\<lparr>ev_status = osErrorParameter, ev_value = None\<rparr>, s)
      else do {
        (res, v, s) \<leftarrow> rt_mbx_wait queue_id (ucast (rt_ms2tick s millisec)) s;
        Some (\<lparr>ev_status = (if res = OS_R_TMO then (if millisec \<noteq> 0 then osEventTimeout else osOK)
                            else osEventMessage),
               ev_value = v\<rparr>, s) })"

definition isrMessageGet :: "ptr \<Rightarrow> u32 \<Rightarrow> kst \<Rightarrow> (osEvent \<times> kst) option" where
  "isrMessageGet queue_id millisec s =
     (if queue_id = NULL \<or> millisec \<noteq> 0 then Some (\<lparr>ev_status = osErrorParameter, ev_value = None\<rparr>, s)
      else if cb_type s queue_id \<noteq> MCB then Some (\<lparr>ev_status = osErrorParameter, ev_value = None\<rparr>, s)
      else do {
        (res, v, s) \<leftarrow> isr_mbx_receive queue_id s;
        Some (\<lparr>ev_status = (if res \<noteq> OS_R_MBX then osOK else osEventMessage), ev_value = v\<rparr>, s) })"

section \<open>Threads\<close>

text \<open>
  \<open>osThreadDef_t\<close>: the words \<open>pthread\<close>, \<open>tpriority\<close>, \<open>stacksize\<close> and \<open>stack_pointer\<close>, then
  the control block of the thread.
\<close>

definition svcThreadCreate :: "ptr \<Rightarrow> u32 \<Rightarrow> kst \<Rightarrow> (ptr \<times> kst) option" where
  "svcThreadCreate thread_def argument s =
     (let pthread = mem s thread_def;
          tpriority = mem s (thread_def + 4);
          stacksize = mem s (thread_def + 8);
          stack_pointer = mem s (thread_def + 12)
      in if thread_def = NULL \<or> pthread = NULL \<or> sint tpriority < -3 \<or> sint tpriority > 3 \<or>
            stacksize = 0 \<or> stack_pointer = NULL
      then do { s \<leftarrow> sysThreadError osErrorParameter s; Some (NULL, s) }
      else do {
        let priority = (ucast (tpriority + 3 + 1) :: u8);
        let task_context = thread_def + 16;
        let s = set_tstack task_context stack_pointer s;
        let s = set_priv_stack task_context (ucast stacksize) s;
        let s = set_tmsg task_context argument s;
        s \<leftarrow> rt_init_context task_context priority pthread s;
        let tsk = rt_get_TID s;
        s \<leftarrow> act_set tsk task_context s;
        let s = set_task_id task_context (ucast tsk) s;
        s \<leftarrow> rt_dispatch task_context s;
        ptcb \<leftarrow> act_get tsk s;
        chk ptcb;
        Some (ptcb, set_mem (tsk_stack s ptcb + 4 * 13) osThreadExit_addr s) })"

definition svcThreadGetId :: "kst \<Rightarrow> ptr option" where
  "svcThreadGetId s =
     (let tsk = rt_tsk_self s in if tsk = 0 then Some NULL else act_get tsk s)"

definition svcThreadTerminate :: "u32 \<Rightarrow> ptr \<Rightarrow> kst \<Rightarrow> (u32 \<times> kst) option" where
  "svcThreadTerminate psp thread_id s =
     (let ptcb = rt_tid2ptcb thread_id s in
      if ptcb = NULL then Some (osErrorParameter, s)
      else do {
        (res, s) \<leftarrow> rt_tsk_delete psp (ucast (task_id s ptcb)) s;
        Some (if res = OS_R_NOK then osErrorResource else osOK, s) })"

definition svcThreadYield :: "kst \<Rightarrow> (u32 \<times> kst) option" where
  "svcThreadYield s = do { s \<leftarrow> rt_tsk_pass s; Some (osOK, s) }"

definition svcThreadSetPriority :: "ptr \<Rightarrow> u32 \<Rightarrow> kst \<Rightarrow> (u32 \<times> kst) option" where
  "svcThreadSetPriority thread_id priority s =
     (let ptcb = rt_tid2ptcb thread_id s in
      if ptcb = NULL then Some (osErrorParameter, s)
      else if sint priority < -3 \<or> sint priority > 3 then Some (osErrorValue, s)
      else do {
        (res, s) \<leftarrow> rt_tsk_prio (ucast (task_id s ptcb)) (ucast (priority + 3 + 1)) s;
        Some (if res = OS_R_NOK then osErrorResource else osOK, s) })"

definition svcThreadGetPriority :: "ptr \<Rightarrow> kst \<Rightarrow> u32" where
  "svcThreadGetPriority thread_id s =
     (let ptcb = rt_tid2ptcb thread_id s in
      if ptcb = NULL then osPriorityError else ucast (prio s ptcb) - 1 - 3)"

definition osThreadCreate :: "cpu \<Rightarrow> ptr \<Rightarrow> u32 \<Rightarrow> kst \<Rightarrow> (ptr \<times> kst) option" where
  "osThreadCreate c thread_def argument s =
     (if ipsr c \<noteq> 0 then Some (NULL, s) else svcThreadCreate thread_def argument s)"

definition osThreadGetId :: "cpu \<Rightarrow> kst \<Rightarrow> ptr option" where
  "osThreadGetId c s = (if ipsr c \<noteq> 0 then Some NULL else svcThreadGetId s)"

definition osThreadTerminate :: "cpu \<Rightarrow> u32 \<Rightarrow> ptr \<Rightarrow> kst \<Rightarrow> (u32 \<times> kst) option" where
  "osThreadTerminate c psp thread_id s =
     (if ipsr c \<noteq> 0 then Some (osErrorISR, s) else svcThreadTerminate psp thread_id s)"

definition osThreadYield :: "cpu \<Rightarrow> kst \<Rightarrow> (u32 \<times> kst) option" where
  "osThreadYield c s = (if ipsr c \<noteq> 0 then Some (osErrorISR, s) else svcThreadYield s)"

definition osThreadSetPriority :: "cpu \<Rightarrow> ptr \<Rightarrow> u32 \<Rightarrow> kst \<Rightarrow> (u32 \<times> kst) option" where
  "osThreadSetPriority c thread_id priority s =
     (if ipsr c \<noteq> 0 then Some (osErrorISR, s) else svcThreadSetPriority thread_id priority s)"

definition osThreadGetPriority :: "cpu \<Rightarrow> ptr \<Rightarrow> kst \<Rightarrow> u32" where
  "osThreadGetPriority c thread_id s =
     (if ipsr c \<noteq> 0 then osPriorityError else svcThreadGetPriority thread_id s)"

text \<open>\<open>osThreadExit\<close> does not return: the thread that calls it is gone after the service.\<close>

definition osThreadExit :: "u32 \<Rightarrow> kst \<Rightarrow> kst option" where
  "osThreadExit psp s = do {
     t \<leftarrow> svcThreadGetId s;
     (_, s) \<leftarrow> svcThreadTerminate psp t s;
     Some s }"

section \<open>Kernel control\<close>

definition svcKernelInitialize :: "kst \<Rightarrow> (u32 \<times> kst) option" where
  "svcKernelInitialize s =
     (if os_initialized s then Some (osOK, s)
      else do {
        s \<leftarrow> rt_sys_init s;
        chk (tsk_run s);
        let s = set_prio (tsk_run s) 255 s;
        s \<leftarrow> sysThreadError osOK s;
        Some (osOK, s\<lparr>os_initialized := True\<rparr>) })"

text \<open>The second component is the process stack pointer that \<open>__set_PSP\<close> gets.\<close>

definition svcKernelStart :: "kst \<Rightarrow> (u32 \<times> u32 option \<times> kst) option" where
  "svcKernelStart s =
     (if os_running s then Some (osOK, None, s)
      else do {
        (q, s) \<leftarrow> svcMessageCreate os_messageQ_def_osTimerMessageQ NULL s;
        let s = s\<lparr>os_timer_queue := q\<rparr>;
        (t, s) \<leftarrow> svcThreadCreate os_thread_def_osTimerThread NULL s;
        let s = s\<lparr>os_timer_thread := t\<rparr>;
        (_, s) \<leftarrow> rt_tsk_prio 0 0 s;
        chk (tsk_run s);
        let psp = tsk_stack s (tsk_run s) + 8 * 4;
        let s = s\<lparr>tsk_run := NULL\<rparr>;
        let s = rt_sys_start s;
        Some (osOK, Some psp, s\<lparr>os_running := True\<rparr>) })"

definition svcKernelRunning :: "kst \<Rightarrow> u32" where
  "svcKernelRunning s = (if os_running s then 1 else 0)"

definition osKernelInitialize :: "cpu \<Rightarrow> kst \<Rightarrow> (u32 \<times> kst) option" where
  "osKernelInitialize c s =
     (if ipsr c \<noteq> 0 then Some (osErrorISR, s) else svcKernelInitialize s)"

text \<open>
  \<open>os_flags\<close> is the configuration constant \<open>OS_RUNPRIV\<close>; \<open>sp\<close> is the address behind the
  local array \<open>stack\<close>, the stack pointer set when the processor still uses the main stack.
  The result has the status, the new \<open>CONTROL\<close> register and process stack pointer.
\<close>

definition osKernelStart :: "u8 \<Rightarrow> u32 \<Rightarrow> cpu \<Rightarrow> kst \<Rightarrow> (u32 \<times> u32 \<times> u32 option \<times> kst) option" where
  "osKernelStart os_flags sp c s =
     (let priv = os_flags AND 1 \<noteq> 0; start = (\<lambda>ctl psp. do {
            (r, psp', s) \<leftarrow> svcKernelStart s;
            Some (r, ctl, (case psp' of None \<Rightarrow> psp | Some p \<Rightarrow> Some p), s) })
      in if ipsr c \<noteq> 0 then Some (osErrorISR, control c, None, s)
      else if control c AND 3 = 0 then start (if priv then 2 else 3) (Some sp)
      else if control c AND 3 = 1 then Some (osErrorOS, control c, None, s)
      else if control c AND 3 = 2 then start (if priv then control c else 3) None
      else if priv then Some (osErrorOS, control c, None, s)
      else start (control c) None)"

definition osKernelRunning :: "cpu \<Rightarrow> kst \<Rightarrow> u32" where
  "osKernelRunning c s =
     (if ipsr c \<noteq> 0 \<or> control c AND 1 = 0 then (if os_running s then 1 else 0) else svcKernelRunning s)"

section \<open>Delays and timers\<close>

definition svcDelay :: "u32 \<Rightarrow> kst \<Rightarrow> (u32 \<times> kst) option" where
  "svcDelay millisec s =
     (if millisec = 0 then Some (osOK, s)
      else do {
        s \<leftarrow> rt_dly_wait (ucast (rt_ms2tick s millisec)) s;
        Some (osEventTimeout, s) })"

definition osDelay :: "cpu \<Rightarrow> u32 \<Rightarrow> kst \<Rightarrow> (u32 \<times> kst) option" where
  "osDelay c millisec s = (if ipsr c \<noteq> 0 then Some (osErrorISR, s) else svcDelay millisec s)"

definition osWait :: "u32 \<Rightarrow> osEvent" where
  "osWait millisec = \<lparr>ev_status = osErrorOS, ev_value = None\<rparr>"

definition osTimerCreate :: "cpu \<Rightarrow> ptr \<Rightarrow> u32 \<Rightarrow> u32 \<Rightarrow> kst \<Rightarrow> (ptr \<times> kst) option" where
  "osTimerCreate c timer_def type argument s =
     (if ipsr c \<noteq> 0 then Some (NULL, s) else svcTimerCreate timer_def type argument s)"

definition osTimerStart :: "cpu \<Rightarrow> ptr \<Rightarrow> u32 \<Rightarrow> kst \<Rightarrow> (u32 \<times> kst) option" where
  "osTimerStart c timer_id millisec s =
     (if ipsr c \<noteq> 0 then Some (osErrorISR, s) else svcTimerStart timer_id millisec s)"

definition osTimerStop :: "cpu \<Rightarrow> ptr \<Rightarrow> kst \<Rightarrow> (u32 \<times> kst) option" where
  "osTimerStop c timer_id s =
     (if ipsr c \<noteq> 0 then Some (osErrorISR, s) else svcTimerStop timer_id s)"

definition osTimerDelete :: "cpu \<Rightarrow> ptr \<Rightarrow> kst \<Rightarrow> (u32 \<times> kst) option" where
  "osTimerDelete c timer_id s =
     (if ipsr c \<noteq> 0 then Some (osErrorISR, s) else svcTimerDelete timer_id s)"

definition osTimerCall :: "ptr \<Rightarrow> kst \<Rightarrow> (u32 \<times> u32) option" where
  "osTimerCall timer_id s = svcTimerCall timer_id s"

section \<open>Signals\<close>

definition svcSignalSet :: "ptr \<Rightarrow> u32 \<Rightarrow> kst \<Rightarrow> (u32 \<times> kst) option" where
  "svcSignalSet thread_id signals s =
     (let ptcb = rt_tid2ptcb thread_id s in
      if ptcb = NULL then Some (bad_signals, s)
      else if signals AND 0xFFFF0000 \<noteq> 0 then Some (bad_signals, s)
      else do {
        let sig = ucast (events s ptcb);
        s \<leftarrow> rt_evt_set (ucast signals) (ucast (task_id s ptcb)) s;
        Some (sig, s) })"

definition svcSignalClear :: "ptr \<Rightarrow> u32 \<Rightarrow> kst \<Rightarrow> (u32 \<times> kst) option" where
  "svcSignalClear thread_id signals s =
     (let ptcb = rt_tid2ptcb thread_id s in
      if ptcb = NULL then Some (bad_signals, s)
      else if signals AND 0xFFFF0000 \<noteq> 0 then Some (bad_signals, s)
      else do {
        let sig = ucast (events s ptcb);
        s \<leftarrow> rt_evt_clr (ucast signals) (ucast (task_id s ptcb)) s;
        Some (sig, s) })"

definition svcSignalGet :: "ptr \<Rightarrow> kst \<Rightarrow> u32" where
  "svcSignalGet thread_id s =
     (let ptcb = rt_tid2ptcb thread_id s in
      if ptcb = NULL then bad_signals else ucast (events s ptcb))"

definition svcSignalWait :: "u32 \<Rightarrow> u32 \<Rightarrow> kst \<Rightarrow> (osEvent \<times> kst) option" where
  "svcSignalWait signals millisec s =
     (if signals AND 0xFFFF0000 \<noteq> 0 then Some (\<lparr>ev_status = osErrorValue, ev_value = None\<rparr>, s)
      else do {
        (res, s) \<leftarrow> (if signals \<noteq> 0
                     then rt_evt_wait (ucast signals) (ucast (rt_ms2tick s millisec)) True s
                     else rt_evt_wait 0xFFFF (ucast (rt_ms2tick s millisec)) False s);
        if res = OS_R_EVT then do {
          chk (tsk_run s);
          Some (\<lparr>ev_status = osEventSignal,
                 ev_value = Some (if signals \<noteq> 0 then signals else ucast (waits s (tsk_run s)))\<rparr>, s) }
        else Some (\<lparr>ev_status = (if millisec \<noteq> 0 then osEventTimeout else osOK), ev_value = Some 0\<rparr>, s) })"

definition isrSignalSet :: "ptr \<Rightarrow> u32 \<Rightarrow> kst \<Rightarrow> (u32 \<times> kst) option" where
  "isrSignalSet thread_id signals s =
     (let ptcb = rt_tid2ptcb thread_id s in
      if ptcb = NULL then Some (bad_signals, s)
      else if signals AND 0xFFFF0000 \<noteq> 0 then Some (bad_signals, s)
      else do {
        let sig = ucast (events s ptcb);
        s \<leftarrow> isr_evt_set (ucast signals) (ucast (task_id s ptcb)) s;
        Some (sig, s) })"

definition osSignalSet :: "cpu \<Rightarrow> ptr \<Rightarrow> u32 \<Rightarrow> kst \<Rightarrow> (u32 \<times> kst) option" where
  "osSignalSet c thread_id signals s =
     (if ipsr c \<noteq> 0 then isrSignalSet thread_id signals s else svcSignalSet thread_id signals s)"

definition osSignalClear :: "cpu \<Rightarrow> ptr \<Rightarrow> u32 \<Rightarrow> kst \<Rightarrow> (u32 \<times> kst) option" where
  "osSignalClear c thread_id signals s =
     (if ipsr c \<noteq> 0 then Some (osErrorISR, s) else svcSignalClear thread_id signals s)"

definition osSignalGet :: "cpu \<Rightarrow> ptr \<Rightarrow> kst \<Rightarrow> u32" where
  "osSignalGet c thread_id s = (if ipsr c \<noteq> 0 then osErrorISR else svcSignalGet thread_id s)"

definition osSignalWait :: "cpu \<Rightarrow> u32 \<Rightarrow> u32 \<Rightarrow> kst \<Rightarrow> (osEvent \<times> kst) option" where
  "osSignalWait c signals millisec s =
     (if ipsr c \<noteq> 0 then Some (\<lparr>ev_status = osErrorISR, ev_value = None\<rparr>, s)
      else svcSignalWait signals millisec s)"

section \<open>Mutexes\<close>

definition svcMutexCreate :: "ptr \<Rightarrow> kst \<Rightarrow> (ptr \<times> kst) option" where
  "svcMutexCreate mutex_def s =
     (if mutex_def = NULL then do { s \<leftarrow> sysThreadError osErrorParameter s; Some (NULL, s) }
      else
        let mut = mem s mutex_def in
        if mut = NULL then do { s \<leftarrow> sysThreadError osErrorParameter s; Some (NULL, s) }
        else if cb_type s mut \<noteq> 0 then do { s \<leftarrow> sysThreadError osErrorParameter s; Some (NULL, s) }
        else do { s \<leftarrow> rt_mut_init mut s; Some (mut, s) })"

definition svcMutexWait :: "ptr \<Rightarrow> u32 \<Rightarrow> kst \<Rightarrow> (u32 \<times> kst) option" where
  "svcMutexWait mutex_id millisec s =
     (let mut = rt_id2obj mutex_id in
      if mut = NULL then Some (osErrorParameter, s)
      else if cb_type s mut \<noteq> MUCB then Some (osErrorParameter, s)
      else do {
        (res, s) \<leftarrow> rt_mut_wait mut (ucast (rt_ms2tick s millisec)) s;
        Some (if res = OS_R_TMO
              then (if millisec \<noteq> 0 then osErrorTimeoutResource else osErrorResource)
              else osOK, s) })"

definition svcMutexRelease :: "ptr \<Rightarrow> kst \<Rightarrow> (u32 \<times> kst) option" where
  "svcMutexRelease mutex_id s =
     (let mut = rt_id2obj mutex_id in
      if mut = NULL then Some (osErrorParameter, s)
      else if cb_type s mut \<noteq> MUCB then Some (osErrorParameter, s)
      else do {
        (res, s) \<leftarrow> rt_mut_release mut s;
        Some (if res = OS_R_NOK then osErrorResource else osOK, s) })"

definition svcMutexDelete :: "ptr \<Rightarrow> kst \<Rightarrow> (u32 \<times> kst) option" where
  "svcMutexDelete mutex_id s =
     (let mut = rt_id2obj mutex_id in
      if mut = NULL then Some (osErrorParameter, s)
      else if cb_type s mut \<noteq> MUCB then Some (osErrorParameter, s)
      else do {
        (_, s) \<leftarrow> rt_mut_delete mut s;
        Some (osOK, s) })"

definition osMutexCreate :: "cpu \<Rightarrow> ptr \<Rightarrow> kst \<Rightarrow> (ptr \<times> kst) option" where
  "osMutexCreate c mutex_def s = (if ipsr c \<noteq> 0 then Some (NULL, s) else svcMutexCreate mutex_def s)"

definition osMutexWait :: "cpu \<Rightarrow> ptr \<Rightarrow> u32 \<Rightarrow> kst \<Rightarrow> (u32 \<times> kst) option" where
  "osMutexWait c mutex_id millisec s =
     (if ipsr c \<noteq> 0 then Some (osErrorISR, s) else svcMutexWait mutex_id millisec s)"

definition osMutexRelease :: "cpu \<Rightarrow> ptr \<Rightarrow> kst \<Rightarrow> (u32 \<times> kst) option" where
  "osMutexRelease c mutex_id s =
     (if ipsr c \<noteq> 0 then Some (osErrorISR, s) else svcMutexRelease mutex_id s)"

definition osMutexDelete :: "cpu \<Rightarrow> ptr \<Rightarrow> kst \<Rightarrow> (u32 \<times> kst) option" where
  "osMutexDelete c mutex_id s =
     (if ipsr c \<noteq> 0 then Some (osErrorISR, s) else svcMutexDelete mutex_id s)"

section \<open>Semaphores\<close>

definition svcSemaphoreCreate :: "ptr \<Rightarrow> u32 \<Rightarrow> kst \<Rightarrow> (ptr \<times> kst) option" where
  "svcSemaphoreCreate semaphore_def count s =
     (if semaphore_def = NULL then do { s \<leftarrow> sysThreadError osErrorParameter s; Some (NULL, s) }
      else
        let sem = mem s semaphore_def in
        if sem = NULL then do { s \<leftarrow> sysThreadError osErrorParameter s; Some (NULL, s) }
        else if cb_type s sem \<noteq> 0 then do { s \<leftarrow> sysThreadError osErrorParameter s; Some (NULL, s) }
        else if sint count > 65535 then do { s \<leftarrow> sysThreadError osErrorValue s; Some (NULL, s) }
        else do { s \<leftarrow> rt_sem_init sem (ucast count) s; Some (sem, s) })"

definition svcSemaphoreWait :: "ptr \<Rightarrow> u32 \<Rightarrow> kst \<Rightarrow> (u32 \<times> kst) option" where
  "svcSemaphoreWait semaphore_id millisec s =
     (let sem = rt_id2obj semaphore_id in
      if sem = NULL then Some (- 1, s)
      else if cb_type s sem \<noteq> SCB then Some (- 1, s)
      else do {
        (res, s) \<leftarrow> rt_sem_wait sem (ucast (rt_ms2tick s millisec)) s;
        Some (if res = OS_R_TMO then 0 else ucast (tokens s sem) + 1, s) })"

definition svcSemaphoreRelease :: "ptr \<Rightarrow> kst \<Rightarrow> (u32 \<times> kst) option" where
  "svcSemaphoreRelease semaphore_id s =
     (let sem = rt_id2obj semaphore_id in
      if sem = NULL then Some (osErrorParameter, s)
      else if cb_type s sem \<noteq> SCB then Some (osErrorParameter, s)
      else if tokens s sem = osFeature_Semaphore then Some (osErrorResource, s)
      else do {
        (_, s) \<leftarrow> rt_sem_send sem s;
        Some (osOK, s) })"

definition svcSemaphoreDelete :: "ptr \<Rightarrow> kst \<Rightarrow> (u32 \<times> kst) option" where
  "svcSemaphoreDelete semaphore_id s =
     (let sem = rt_id2obj semaphore_id in
      if sem = NULL then Some (osErrorParameter, s)
      else if cb_type s sem \<noteq> SCB then Some (osErrorParameter, s)
      else do {
        (_, s) \<leftarrow> rt_sem_delete sem s;
        Some (osOK, s) })"

definition isrSemaphoreRelease :: "ptr \<Rightarrow> kst \<Rightarrow> (u32 \<times> kst) option" where
  "isrSemaphoreRelease semaphore_id s =
     (let sem = rt_id2obj semaphore_id in
      if sem = NULL then Some (osErrorParameter, s)
      else if cb_type s sem \<noteq> SCB then Some (osErrorParameter, s)
      else if tokens s sem = osFeature_Semaphore then Some (osErrorResource, s)
      else do {
        s \<leftarrow> isr_sem_send sem s;
        Some (osOK, s) })"

definition osSemaphoreCreate :: "cpu \<Rightarrow> ptr \<Rightarrow> u32 \<Rightarrow> kst \<Rightarrow> (ptr \<times> kst) option" where
  "osSemaphoreCreate c semaphore_def count s =
     (if ipsr c \<noteq> 0 then Some (NULL, s) else svcSemaphoreCreate semaphore_def count s)"

definition osSemaphoreWait :: "cpu \<Rightarrow> ptr \<Rightarrow> u32 \<Rightarrow> kst \<Rightarrow> (u32 \<times> kst) option" where
  "osSemaphoreWait c semaphore_id millisec s =
     (if ipsr c \<noteq> 0 then Some (- 1, s) else svcSemaphoreWait semaphore_id millisec s)"

definition osSemaphoreRelease :: "cpu \<Rightarrow> ptr \<Rightarrow> kst \<Rightarrow> (u32 \<times> kst) option" where
  "osSemaphoreRelease c semaphore_id s =
     (if ipsr c \<noteq> 0 then isrSemaphoreRelease semaphore_id s else svcSemaphoreRelease semaphore_id s)"

definition osSemaphoreDelete :: "cpu \<Rightarrow> ptr \<Rightarrow> kst \<Rightarrow> (u32 \<times> kst) option" where
  "osSemaphoreDelete c semaphore_id s =
     (if ipsr c \<noteq> 0 then Some (osErrorISR, s) else svcSemaphoreDelete semaphore_id s)"

section \<open>Memory pools\<close>

partial_function (option) clr_box_loop :: "u32 \<Rightarrow> u32 \<Rightarrow> kst \<Rightarrow> kst option" where
  "clr_box_loop p n s =
     (if n \<noteq> 0 then clr_box_loop (p + 4) (n - 4) (set_mem p 0 s) else Some s)"

definition rt_clr_box :: "ptr \<Rightarrow> ptr \<Rightarrow> kst \<Rightarrow> kst option" where
  "rt_clr_box box_mem box s =
     (if box \<noteq> NULL then clr_box_loop box (mem s (box_mem + 8)) s else Some s)"

definition svcPoolCreate :: "ptr \<Rightarrow> kst \<Rightarrow> (ptr \<times> kst) option" where
  "svcPoolCreate pool_def s =
     (let pool_sz = mem s pool_def; item_sz = mem s (pool_def + 4); pool = mem s (pool_def + 8) in
      if pool_def = NULL \<or> pool_sz = 0 \<or> item_sz = 0 \<or> pool = NULL then do {
        s \<leftarrow> sysThreadError osErrorParameter s; Some (NULL, s) }
      else do {
        let blk_sz = (item_sz + 3) AND NOT 3;
        (_, s) \<leftarrow> init_box pool (12 + pool_sz * blk_sz) blk_sz s;
        Some (pool, s) })"

definition sysPoolAlloc :: "ptr \<Rightarrow> bool \<Rightarrow> kst \<Rightarrow> (ptr \<times> kst) option" where
  "sysPoolAlloc pool_id clr s =
     (if pool_id = NULL then Some (NULL, s)
      else do {
        (p, s) \<leftarrow> rt_alloc_box pool_id s;
        s \<leftarrow> (if clr then rt_clr_box pool_id p s else Some s);
        Some (p, s) })"

definition sysPoolFree :: "ptr \<Rightarrow> ptr \<Rightarrow> kst \<Rightarrow> (u32 \<times> kst) option" where
  "sysPoolFree pool_id block s =
     (if pool_id = NULL then Some (osErrorParameter, s)
      else do {
        (res, s) \<leftarrow> rt_free_box pool_id block s;
        Some (if res \<noteq> 0 then osErrorValue else osOK, s) })"

definition osPoolCreate :: "cpu \<Rightarrow> ptr \<Rightarrow> kst \<Rightarrow> (ptr \<times> kst) option" where
  "osPoolCreate c pool_def s = (if ipsr c \<noteq> 0 then Some (NULL, s) else svcPoolCreate pool_def s)"

definition osPoolAlloc :: "ptr \<Rightarrow> kst \<Rightarrow> (ptr \<times> kst) option" where
  "osPoolAlloc pool_id s = sysPoolAlloc pool_id False s"

definition osPoolCAlloc :: "ptr \<Rightarrow> kst \<Rightarrow> (ptr \<times> kst) option" where
  "osPoolCAlloc pool_id s = sysPoolAlloc pool_id True s"

definition osPoolFree :: "ptr \<Rightarrow> ptr \<Rightarrow> kst \<Rightarrow> (u32 \<times> kst) option" where
  "osPoolFree pool_id block s = sysPoolFree pool_id block s"

section \<open>Public functions of message queues\<close>

definition osMessageCreate :: "cpu \<Rightarrow> ptr \<Rightarrow> ptr \<Rightarrow> kst \<Rightarrow> (ptr \<times> kst) option" where
  "osMessageCreate c queue_def thread_id s =
     (if ipsr c \<noteq> 0 then Some (NULL, s) else svcMessageCreate queue_def thread_id s)"

definition osMessagePut :: "cpu \<Rightarrow> ptr \<Rightarrow> u32 \<Rightarrow> u32 \<Rightarrow> kst \<Rightarrow> (u32 \<times> kst) option" where
  "osMessagePut c queue_id info millisec s =
     (if ipsr c \<noteq> 0 then isrMessagePut queue_id info millisec s else svcMessagePut queue_id info millisec s)"

definition osMessageGet :: "cpu \<Rightarrow> ptr \<Rightarrow> u32 \<Rightarrow> kst \<Rightarrow> (osEvent \<times> kst) option" where
  "osMessageGet c queue_id millisec s =
     (if ipsr c \<noteq> 0 then isrMessageGet queue_id millisec s else svcMessageGet queue_id millisec s)"

section \<open>Mail queues\<close>

text \<open>A mail queue is a pair of words: its mailbox and its memory box.\<close>

definition svcMailCreate :: "ptr \<Rightarrow> ptr \<Rightarrow> kst \<Rightarrow> (ptr \<times> kst) option" where
  "svcMailCreate queue_def thread_id s =
     (let queue_sz = mem s queue_def; item_sz = mem s (queue_def + 4); qpool = mem s (queue_def + 8) in
      if queue_def = NULL \<or> queue_sz = 0 \<or> item_sz = 0 \<or> qpool = NULL then do {
        s \<leftarrow> sysThreadError osErrorParameter s; Some (NULL, s) }
      else
        let pmcb = mem s qpool; pool = mem s (qpool + 4) in
        if pool = NULL \<or> pmcb = NULL \<or> cb_type s pmcb \<noteq> 0 then do {
          s \<leftarrow> sysThreadError osErrorParameter s; Some (NULL, s) }
        else do {
          let blk_sz = (item_sz + 3) AND NOT 3;
          (_, s) \<leftarrow> init_box pool (12 + queue_sz * blk_sz) blk_sz s;
          s \<leftarrow> rt_mbx_init pmcb (ucast (4 * (queue_sz + 4))) s;
          Some (qpool, s) })"

definition sysMailAlloc :: "ptr \<Rightarrow> u32 \<Rightarrow> bool \<Rightarrow> bool \<Rightarrow> kst \<Rightarrow> (ptr \<times> kst) option" where
  "sysMailAlloc queue_id millisec isr clr s =
     (if queue_id = NULL then Some (NULL, s)
      else
        let pmcb = mem s queue_id; pool = mem s (queue_id + 4) in
        if pool = NULL \<or> pmcb = NULL then Some (NULL, s)
        else if isr \<and> millisec \<noteq> 0 then Some (NULL, s)
        else do {
          (m, s) \<leftarrow> rt_alloc_box pool s;
          s \<leftarrow> (if clr then rt_clr_box pool m s else Some s);
          s \<leftarrow> (if m = NULL \<and> millisec \<noteq> 0 then do {
                   s \<leftarrow> (if p_lnk s pmcb \<noteq> NULL then rt_put_prio pmcb (tsk_run s) s
                          else do {
                            s \<leftarrow> link_run pmcb s;
                            Some (set_mcb_state pmcb 3 s) });
                   rt_block (ucast (rt_ms2tick s millisec)) WAIT_MBX s }
                 else Some s);
          Some (m, s) })"

definition sysMailFree :: "ptr \<Rightarrow> ptr \<Rightarrow> bool \<Rightarrow> kst \<Rightarrow> (u32 \<times> kst) option" where
  "sysMailFree queue_id mail isr s =
     (if queue_id = NULL then Some (osErrorParameter, s)
      else
        let pmcb = mem s queue_id; pool = mem s (queue_id + 4) in
        if pmcb = NULL \<or> pool = NULL then Some (osErrorParameter, s)
        else do {
          (res, s) \<leftarrow> rt_free_box pool mail s;
          if res \<noteq> 0 then Some (osErrorValue, s)
          else if mcb_state s pmcb = 3 then
            (if isr then do {
               s \<leftarrow> rt_psq_enq pmcb pool s;
               Some (osOK, rt_psh_req s) }
             else do {
               (m, s) \<leftarrow> rt_alloc_box pool s;
               s \<leftarrow> (if m \<noteq> NULL then do {
                        (ptcb, s) \<leftarrow> rt_get_first pmcb s;
                        let s = (if p_lnk s pmcb = NULL then set_mcb_state pmcb 0 s else s);
                        s \<leftarrow> rt_ret_val ptcb m s;
                        s \<leftarrow> rt_rmv_dly ptcb s;
                        rt_dispatch ptcb s }
                      else Some s);
               Some (osOK, s) })
          else Some (osOK, s) })"

definition osMailCreate :: "cpu \<Rightarrow> ptr \<Rightarrow> ptr \<Rightarrow> kst \<Rightarrow> (ptr \<times> kst) option" where
  "osMailCreate c queue_def thread_id s =
     (if ipsr c \<noteq> 0 then Some (NULL, s) else svcMailCreate queue_def thread_id s)"

definition osMailAlloc :: "cpu \<Rightarrow> ptr \<Rightarrow> u32 \<Rightarrow> kst \<Rightarrow> (ptr \<times> kst) option" where
  "osMailAlloc c queue_id millisec s = sysMailAlloc queue_id millisec (ipsr c \<noteq> 0) False s"

definition osMailCAlloc :: "cpu \<Rightarrow> ptr \<Rightarrow> u32 \<Rightarrow> kst \<Rightarrow> (ptr \<times> kst) option" where
  "osMailCAlloc c queue_id millisec s = sysMailAlloc queue_id millisec (ipsr c \<noteq> 0) True s"

definition osMailFree :: "cpu \<Rightarrow> ptr \<Rightarrow> ptr \<Rightarrow> kst \<Rightarrow> (u32 \<times> kst) option" where
  "osMailFree c queue_id mail s = sysMailFree queue_id mail (ipsr c \<noteq> 0) s"

definition osMailPut :: "cpu \<Rightarrow> ptr \<Rightarrow> ptr \<Rightarrow> kst \<Rightarrow> (u32 \<times> kst) option" where
  "osMailPut c queue_id mail s =
     (if queue_id = NULL then Some (osErrorParameter, s)
      else if mail = NULL then Some (osErrorValue, s)
      else osMessagePut c (mem s queue_id) mail 0 s)"

definition osMailGet :: "cpu \<Rightarrow> ptr \<Rightarrow> u32 \<Rightarrow> kst \<Rightarrow> (osEvent \<times> kst) option" where
  "osMailGet c queue_id millisec s =
     (if queue_id = NULL then Some (\<lparr>ev_status = osErrorParameter, ev_value = None\<rparr>, s)
      else do {
        (ret, s) \<leftarrow> osMessageGet c (mem s queue_id) millisec s;
        Some (if ev_status ret = osEventMessage then ret\<lparr>ev_status := osEventMail\<rparr> else ret, s) })"

section \<open>Creating a thread\<close>

lemma kinv_new_task:
  assumes k0: "kinv s T H Q D c" and t: "t \<notin> T" "t \<notin> H" "t \<noteq> NULL" "t \<noteq> os_dly"
    and l: "p_lnk s' = (p_lnk s)(t := NULL)" "p_rlnk s' = (p_rlnk s)(t := NULL)"
      "p_dlnk s' = (p_dlnk s)(t := NULL)" "p_blnk s' = (p_blnk s)(t := NULL)"
      "delta_time s' = (delta_time s)(t := 0)" "cb_type s' = (cb_type s)(t := TCB)"
      "tstate s' = (tstate s)(t := INACTIVE)" "prio s' = (prio s)(t := v)"
  shows "kinv s' (insert t T) H Q D c"
proof -
  note k = kinv0D [OF kinvD(1) [OF k0]] and cq = kinvD(2) [OF k0]
  note r = qrepD [OF k(1)] and d = drepD [OF k(2)]
  have tq: "t \<notin> set (Q h)" for h using r(9,13) t(1) by (cases "h \<in> H") auto
  have tD: "t \<notin> fst ` set D" using d(3) t(1) by blast
  have hs: "h \<noteq> t" if "h \<in> H" for h using that t(2) by blast
  have "qrep s' (insert t T) H Q"
    unfolding qrep_def
  proof (intro conjI ballI impI allI)
    show "chain (p_lnk s') (p_lnk s' h) (Q h)" if "h \<in> H" for h
      using r(8) [OF that] hs [OF that] tq chain_upd [of t "Q h"] unfolding l by simp
    show "blinks (p_rlnk s') h (Q h)" if "h \<in> H - {os_rdy}" for h
      using r(10) [of h] that tq blinks_upd [of t "Q h"] unfolding l by simp
    show "sem_mbx s' h" if "h \<in> H - {os_rdy}" for h
      using r(6) [of h] that hs [of h] unfolding sem_mbx_def l by auto
    show "p_rlnk s' x = NULL" if "x \<in> insert t T - queued (H - {os_rdy}) Q" for x
      using r(11) [of x] that unfolding l by auto
    show "set (Q h) \<inter> set (Q h') = {}" if "h \<in> H" "h' \<in> H" "h \<noteq> h'" for h h' using r(12) that by blast
    show "Q h = []" if "h \<notin> H" for h using r(13) that by blast
    show "H \<inter> insert t T = {}" using r(4) t(2) by blast
    show "cb_type s' os_rdy = HCB" using r(5) hs [OF r(1)] unfolding l by auto
    show "cb_type s' x = TCB" if "x \<in> insert t T" for x using r(7) that unfolding l by auto
    show "set (Q h) \<subseteq> insert t T" if "h \<in> H" for h using r(9) [OF that] by blast
  qed (use r t in auto)
  moreover have "drep s' (insert t T) D"
  proof -
    have fd: "t \<notin> set (map fst D)" using tD by simp
    have "chain (p_dlnk s') (p_dlnk s' os_dly) (map fst D)" "blinks (p_blnk s') os_dly (map fst D)"
      using d(4,5) t(4) chain_upd [OF fd] blinks_upd [OF fd] unfolding l by auto
    moreover have "dseg (delta_time s') os_dly 0 D"
      by (rule dseg_cong [OF d(7)]) (use tD t(4) drep_distinct [OF k(2)] in \<open>auto simp: l\<close>)
    moreover have "delta_time s' (last_ptr os_dly D) = 0" using d(8) unfolding l by simp
    moreover have "\<forall>x\<in>insert t T - fst ` set D. p_blnk s' x = NULL" using d(6) unfolding l by auto
    ultimately show ?thesis unfolding drep_def using d(1,2,3,9) t(3,4) by auto
  qed
  moreover have "\<forall>h\<in>H. prio_sorted (prio s') (Q h)"
  proof
    fix h assume "h \<in> H"
    then show "prio_sorted (prio s') (Q h)"
      by (rule prio_sorted_cong [OF k(3)]) (use tq [of h] in \<open>auto simp: l\<close>)
  qed
  moreover have "\<forall>x\<in>set (Q os_rdy). prio s' x \<le> prio s' c" using k(5,11) t(1) tq unfolding l by auto
  ultimately show ?thesis
    unfolding kinv_def kinv0_def using k(4,5,6,7,8,9,10,12) cq t(1) tq [of os_rdy] by (auto simp: l)
qed

lemma get_TID_loop_spec:
  assumes "i < length ps" "ps ! i = NULL" "\<forall>j<i. ps ! j \<noteq> NULL"
  shows "get_TID_loop n ps = of_nat (n + i)"
  using assms
proof (induction ps arbitrary: i n)
  case (Cons p ps)
  show ?case
  proof (cases i)
    case 0
    then show ?thesis using Cons.prems by simp
  next
    case (Suc j)
    then have "p \<noteq> NULL" using Cons.prems(3) by auto
    moreover have "get_TID_loop (Suc n) ps = of_nat (Suc n + j)"
      using Cons.prems Suc by (intro Cons.IH) auto
    ultimately show ?thesis using Suc by simp
  qed
qed simp

lemma get_TID_loop_full: "NULL \<notin> set ps \<Longrightarrow> get_TID_loop n ps = 0"
  by (induction ps arbitrary: n) auto

text \<open>The arguments that \<open>svcThreadCreate\<close> accepts.\<close>

definition thread_def_ok :: "ptr \<Rightarrow> kst \<Rightarrow> bool" where
  "thread_def_ok td s \<longleftrightarrow> td \<noteq> NULL \<and> mem s td \<noteq> NULL \<and>
     -3 \<le> sint (mem s (td + 4)) \<and> sint (mem s (td + 4)) \<le> 3 \<and>
     mem s (td + 8) \<noteq> 0 \<and> mem s (td + 12) \<noteq> NULL"

definition thread_prio :: "ptr \<Rightarrow> kst \<Rightarrow> u8" where
  "thread_prio td s = ucast (mem s (td + 4) + 3 + 1)"

lemma thread_create_init:
  assumes "kinv s T H Q D c" and t: "t \<notin> T" "t \<notin> H" "t \<noteq> NULL" "t \<noteq> os_dly"
  shows "\<exists>u. rt_init_context t v b (set_tmsg t arg (set_priv_stack t sz (set_tstack t sp s))) = Some u \<and>
    kinv (set_tstate t INACTIVE u) (insert t T) H Q D c \<and> tsk_run u = tsk_run s \<and> tsk_new u = tsk_new s \<and>
    os_active_TCB u = os_active_TCB s \<and> prio u = (prio s)(t := v)"
proof -
  let ?s = "set_tmsg t arg (set_priv_stack t sz (set_tstack t sp s))"
  from rt_init_context_eq [OF t(3), of v b ?s] obtain M K where u: "rt_init_context t v b ?s = Some (?s\<lparr>
     cb_type := (cb_type ?s)(t := TCB),
     tstate := (tstate ?s)(t := READY), prio := (prio ?s)(t := v), p_lnk := (p_lnk ?s)(t := NULL),
     p_rlnk := (p_rlnk ?s)(t := NULL), p_dlnk := (p_dlnk ?s)(t := NULL),
     p_blnk := (p_blnk ?s)(t := NULL), delta_time := (delta_time ?s)(t := 0),
     interval_time := (interval_time ?s)(t := 0), events := (events ?s)(t := 0),
     waits := (waits ?s)(t := 0), stack_frame := (stack_frame ?s)(t := 0),
     mem := M, tsk_stack := (tsk_stack ?s)(t := K), ptask := (ptask ?s)(t := b)\<rparr>)" (is "_ = Some ?u") by blast
  have "kinv (set_tstate t INACTIVE ?u) (insert t T) H Q D c"
    by (rule kinv_new_task [OF assms, where v = v]) simp_all
  then show ?thesis using u by (intro exI [of _ ?u]) simp
qed

section \<open>Promises of the interface\<close>

text \<open>The creation of a thread, for the whole kernel state.\<close>

lemma thread_create_spec:
  assumes "kstate s T H Q D" and "thread_def_ok td s"
    and "td + 16 \<notin> T" "td + 16 \<notin> H" "td + 16 \<noteq> NULL" "td + 16 \<noteq> os_dly"
    and "i < length (os_active_TCB s)" "length (os_active_TCB s) < 255"
      "os_active_TCB s ! i = NULL" "\<forall>j<i. os_active_TCB s ! j \<noteq> NULL"
  shows "\<exists>s'. svcThreadCreate td arg s = Some (td + 16, s') \<and>
    os_active_TCB s' = (os_active_TCB s)[i := td + 16] \<and> task_id s' (td + 16) = of_nat (Suc i) \<and>
    (if thread_prio td s > prio s (tsk_run s)
     then kinv s' (insert (td + 16) T) H (Q(os_rdy := tsk_run s # Q os_rdy)) D (td + 16) \<and> tsk_new s' = td + 16
     else kinv s' (insert (td + 16) T) H
            (Q(os_rdy := ins_prio ((prio s)(td + 16 := thread_prio td s)) (td + 16) (Q os_rdy))) D (tsk_run s) \<and>
          tsk_new s' = tsk_run s)"
proof -
  let ?t = "td + 16" and ?c = "tsk_run s"
  note k0 = kstateD(1) [OF assms(1)]
  have ct: "?c \<noteq> ?t" using kinv_runs [OF k0] assms(3) by auto
  from thread_create_init [OF k0 assms(3-6), of "thread_prio td s" "mem s td" arg "ucast (mem s (td + 8))" "mem s (td + 12)"]
  obtain u where u: "rt_init_context ?t (thread_prio td s) (mem s td)
      (set_tmsg ?t arg (set_priv_stack ?t (ucast (mem s (td + 8))) (set_tstack ?t (mem s (td + 12)) s))) = Some u"
    "kinv (set_tstate ?t INACTIVE u) (insert ?t T) H Q D ?c" "tsk_run u = ?c" "tsk_new u = tsk_new s"
    "os_active_TCB u = os_active_TCB s" "prio u = (prio s)(?t := thread_prio td s)" by blast
  have tid: "rt_get_TID u = of_nat (Suc i)"
    using get_TID_loop_spec [of i "os_active_TCB s" 1] assms(7,9,10) u(5) by (simp add: rt_get_TID_def)
  have ix: "unat (of_nat (Suc i) - 1 :: u32) = i" using assms(7,8) by (simp add: unat_of_nat_u32)
  define w where "w = set_task_id ?t (of_nat (Suc i)) (u\<lparr>os_active_TCB := (os_active_TCB s)[i := ?t]\<rparr>)"
  have act: "act_set (of_nat (Suc i)) ?t u = Some (u\<lparr>os_active_TCB := (os_active_TCB s)[i := ?t]\<rparr>)"
    using ix assms(7) u(5) by (simp add: act_set_def Let_def unsigned_minus_1_eq_mask mask_eq_exp_minus_1)
  have kw: "kinv (set_tstate ?t INACTIVE w) (insert ?t T) H Q D ?c"
    using u(2) kinv_cong [of "set_tstate ?t INACTIVE w" "set_tstate ?t INACTIVE u"] by (simp add: w_def)
  have nq: "?t \<notin> queued H Q" "?t \<notin> fst ` set D"
    using qrep_queued_sub [OF kinv_qrep [OF k0]] drepD(3) [OF kinv0D(2) [OF kinvD(1) [OF k0]]] assms(3) by blast+
  have run: "tsk_run (set_tstate ?t INACTIVE w) = ?c" "tsk_run w = ?c" "tsk_new w = tsk_new s" "prio w = prio u"
    using u(3,4) by (simp_all add: w_def)
  from kinv_dispatch [OF kw run(1) insertI1 nq ct [symmetric]] obtain s1 where
    s1: "rt_dispatch ?t (set_tstate ?t INACTIVE w) = Some s1"
      "wakes (set_tstate ?t INACTIVE w) s1 (insert ?t T) H Q D ?c ?t" by blast
  have d: "rt_dispatch ?t w = Some s1" using s1(1) rt_dispatch_limbo [OF assms(5), of w INACTIVE] ct run(2) by simp
  have m: "sched_mask s1 = sched_mask w" using wakes_mask [OF s1(2)] by simp
  have ac: "os_active_TCB s1 = (os_active_TCB s)[i := ?t]" "task_id s1 ?t = of_nat (Suc i)"
    using sched_maskD(20,21) [OF m] by (simp_all add: w_def)
  define s' where "s' = set_mem (tsk_stack s1 ?t + 4 * 13) osThreadExit_addr s1"
  have uc: "ucast (of_nat (Suc i) :: u32) = (of_nat (Suc i) :: u8)"
    using assms(7,8) by (simp add: word_unat_eq_iff unat_ucast_narrow unat_of_nat_u32 unat_of_nat take_bit_nat_eq_self_iff
      del: of_nat_Suc)
  have "act_get (of_nat (Suc i)) s1 = Some ?t" using ix ac(1) assms(7) by (simp add: act_get_def)
  then have "svcThreadCreate td arg s = Some (?t, s')"
    using assms(2,5) u(1) act d tid uc
    by (simp add: svcThreadCreate_def thread_def_ok_def thread_prio_def Let_def w_def s'_def not_less)
  moreover have "prio (set_tstate ?t INACTIVE w) = (prio s)(?t := thread_prio td s)" using run(4) u(6) by simp
  ultimately show ?thesis using s1(2) ac kstateD(2) [OF assms(1)] run(3) ct unfolding wakes_def
    by (intro exI [of _ s']) (auto simp: s'_def)
qed

text \<open>
  \<open>svcThreadCreate\<close> with a valid definition, a control block that is not in use and a
  free entry in the task table returns the control block; the new thread is entered in the
  first free entry, and the scheduling invariant holds with the thread added: it runs next
  if its priority is higher than that of the running thread, and otherwise waits behind
  the ready threads of its priority.
\<close>

theorem svcThreadCreate_schedules:
  assumes "kstate s T H Q D" and "thread_def_ok td s"
    and "td + 16 \<notin> T" "td + 16 \<notin> H" "td + 16 \<noteq> NULL" "td + 16 \<noteq> os_dly"
    and "i < length (os_active_TCB s)" "length (os_active_TCB s) < 255"
      "os_active_TCB s ! i = NULL" "\<forall>j<i. os_active_TCB s ! j \<noteq> NULL"
  shows "\<exists>s'. svcThreadCreate td arg s = Some (td + 16, s') \<and>
    os_active_TCB s' = (os_active_TCB s)[i := td + 16] \<and> task_id s' (td + 16) = of_nat (Suc i) \<and>
    (if thread_prio td s > prio s (tsk_run s)
     then kinv s' (insert (td + 16) T) H (Q(os_rdy := tsk_run s # Q os_rdy)) D (td + 16) \<and> tsk_new s' = td + 16
     else kinv s' (insert (td + 16) T) H
            (Q(os_rdy := ins_prio ((prio s)(td + 16 := thread_prio td s)) (td + 16) (Q os_rdy))) D (tsk_run s) \<and>
          tsk_new s' = tsk_run s)"
  using thread_create_spec [OF assms] .

text \<open>The sample state with a free table entry and a thread definition of high priority at 0x800.\<close>

definition smp_thr :: kst where
  "smp_thr = smp\<lparr>os_active_TCB := [smpA, smpB, smpC, NULL],
     mem := (\<lambda>_. 0)(0x800 := 0x1001, 0x804 := 1, 0x808 := 256, 0x80C := 0x3000)\<rparr>"

lemma smp_thr_kstate: "kstate smp_thr smpT smpH smpQ smpD"
  using smp_kstate kinv_cong [of smp_thr smp] by (simp add: kstate_def smp_thr_def)

lemma smp_thr_def_ok: "thread_def_ok 0x800 smp_thr"
  by (simp add: thread_def_ok_def smp_thr_def)

theorem svcThreadCreate_schedules_witness:
  "\<exists>s'. svcThreadCreate 0x800 7 smp_thr = Some (0x810, s') \<and> tsk_new s' = 0x810 \<and>
    kinv s' (insert 0x810 smpT) smpH (smpQ(os_rdy := [smpA, smpC, os_idle_TCB])) smpD 0x810 \<and>
    os_active_TCB s' = [smpA, smpB, smpC, 0x810]"
proof -
  have f: "(0x810 :: ptr) \<notin> smpT" "(0x810 :: ptr) \<notin> smpH" "(0x810 :: ptr) \<noteq> os_dly"
    by (simp_all add: smpT_def smpH_def smp_defs)
  have a: "os_active_TCB smp_thr = [smpA, smpB, smpC, NULL]" "tsk_run smp_thr = smpA" "prio smp_thr smpA = 2"
    "thread_prio 0x800 smp_thr = 5"
    by (simp_all add: smp_thr_def thread_prio_def)
  have "\<forall>j<3. [smpA, smpB, smpC, NULL] ! j \<noteq> NULL" by (auto simp: numeral_3_eq_3 less_Suc_eq)
  with svcThreadCreate_schedules [OF smp_thr_kstate smp_thr_def_ok, of 3 7] f a show ?thesis by simp blast
qed

text \<open>
  C15: when the table of active tasks is full \<open>rt_get_TID\<close> returns 0, and \<open>svcThreadCreate\<close>
  does not test for it: with a valid definition the call writes to \<open>os_active_TCB[-1]\<close>,
  outside of the table.
\<close>

theorem svcThreadCreate_full_table:
  assumes "thread_def_ok td s" and "td + 16 \<noteq> NULL" and "NULL \<notin> set (os_active_TCB s)"
    and "length (os_active_TCB s) < 65536"
  shows "\<exists>u. rt_init_context (td + 16) (thread_prio td s) (mem s td)
      (set_tmsg (td + 16) arg (set_priv_stack (td + 16) (ucast (mem s (td + 8)))
        (set_tstack (td + 16) (mem s (td + 12)) s))) = Some u \<and>
    rt_get_TID u = 0 \<and> act_set 0 (td + 16) u = None \<and> svcThreadCreate td arg s = None"
proof -
  let ?s = "set_tmsg (td + 16) arg (set_priv_stack (td + 16) (ucast (mem s (td + 8)))
        (set_tstack (td + 16) (mem s (td + 12)) s))"
  from rt_init_context_eq [OF assms(2), of "thread_prio td s" "mem s td" ?s] obtain u where
    u: "rt_init_context (td + 16) (thread_prio td s) (mem s td) ?s = Some u" "os_active_TCB u = os_active_TCB s"
    by force
  have "rt_get_TID u = 0" using get_TID_loop_full [OF assms(3)] u(2) by (simp add: rt_get_TID_def)
  moreover have "act_set 0 (td + 16) u = None" using assms(4) u(2) by (simp add: act_set_def Let_def unsigned_minus_1_eq_mask mask_eq_exp_minus_1)
  moreover from calculation have "svcThreadCreate td arg s = None"
    using assms(1) u(1) by (simp add: svcThreadCreate_def thread_def_ok_def thread_prio_def Let_def not_less)
  ultimately show ?thesis using u(1) by blast
qed

theorem svcThreadCreate_full_table_witness:
  "svcThreadCreate 0x800 7 (smp_thr\<lparr>os_active_TCB := [smpA, smpB, smpC]\<rparr>) = None"
proof -
  have "thread_def_ok 0x800 (smp_thr\<lparr>os_active_TCB := [smpA, smpB, smpC]\<rparr>)"
    using smp_thr_def_ok by (simp add: thread_def_ok_def)
  from svcThreadCreate_full_table [OF this, of 7] show ?thesis by auto
qed

text \<open>
  \<open>sysMailFree\<close> looks only at \<open>state == 3\<close> to decide that a thread waits for a block. The
  state stays 3 when the waiting thread has given up with a timeout; then returning a block
  takes the first task of the empty waiting list and follows a null pointer.
\<close>

theorem sysMailFree_stale_waiter:
  assumes "q \<noteq> NULL" "mem s q = m" "mem s (q + 4) = pool" "m \<noteq> NULL" "pool \<noteq> NULL"
    and "boxrep pool B s F" "blk \<in> B" "blk \<notin> set F"
    and "mcb_state s m = 3" "p_lnk s m = NULL"
  shows "(\<exists>u. rt_free_box pool blk s = Some (0, u) \<and> boxrep pool B u (blk # F)) \<and>
    sysMailFree q blk False s = None"
proof -
  note fr = boxrep_free [OF assms(6-8)]
  have "rt_get_first m (set_mem pool (mem u blk) u) = None"
    if "u = set_mem pool blk (set_mem blk (mem s pool) s)" for u
    using assms(4,10) that by (simp add: rt_get_first_def)
  moreover have "blk \<noteq> NULL" using assms(6,7) by (auto simp: boxrep_def)
  ultimately have "sysMailFree q blk False s = None"
    using assms(1-5,9) fr(1) boxrep_alloc(1) [OF fr(2)] by (simp add: sysMailFree_def)
  then show ?thesis using fr by blast
qed

theorem sysMailFree_stale_waiter_witness:
  "\<exists>s :: kst. boxrep 0x1000 {0x100C} s [] \<and> mcb_state s 0x500 = 3 \<and> sysMailFree 0x400 0x100C False s = None"
proof -
  define s :: kst where
    "s = smp\<lparr>mem := (\<lambda>_. 0)(0x400 := 0x500, 0x404 := 0x1000, 0x1004 := 0x2000),
       mcb_state := (\<lambda>_. 3), p_lnk := (p_lnk smp)(0x500 := NULL)\<rparr>"
  have b: "boxrep 0x1000 {0x100C} s []" by (simp add: boxrep_def s_def)
  have v: "mem s 0x400 = 0x500" "mem s (0x400 + 4) = 0x1000" "mcb_state s 0x500 = 3" "p_lnk s 0x500 = NULL"
    by (simp_all add: s_def)
  from sysMailFree_stale_waiter [OF _ v(1,2) _ _ b _ _ v(3,4), of "0x100C"] have
    "sysMailFree 0x400 0x100C False s = None" by simp
  with b v show ?thesis by blast
qed

end
