(* ===== verification/LW_State.thy ===== *)
theory LW_State
  imports Prelude
begin

text \<open>
  The state of the lwIP stack that its memory and packet buffer modules share: bytes of
  memory, the packet buffer headers, the pools of \<open>memp.c\<close> and the heap of \<open>mem.c\<close>. A
  structure in memory is one function per field from addresses, as in the kernel state.
  The configuration is that of the LPC1768 (\<open>lwipopts.h\<close>, \<open>lwipopts_conf.h\<close>): no
  assertions, no statistics, 4-byte alignment, a little-endian processor.
\<close>

record lw =
  bytes :: "ptr \<Rightarrow> u8"
  pb_next :: "ptr \<Rightarrow> ptr"
  pb_payload :: "ptr \<Rightarrow> ptr"
  pb_tot_len :: "ptr \<Rightarrow> u16"
  pb_len :: "ptr \<Rightarrow> u16"
  pb_type :: "ptr \<Rightarrow> u8"
  pb_flags :: "ptr \<Rightarrow> u8"
  pb_ref_count :: "ptr \<Rightarrow> u16"
  custom_original :: "ptr \<Rightarrow> ptr"
  memp_tab :: "ptr list"
  memp_next :: "ptr \<Rightarrow> ptr"
  ram :: ptr
  ram_end :: ptr
  lfree :: ptr
  mem_next :: "ptr \<Rightarrow> u16"
  mem_prev :: "ptr \<Rightarrow> u16"
  mem_used :: "ptr \<Rightarrow> u8"

text \<open>Assignments to a field of a structure.\<close>

abbreviation (input) put_next :: "ptr \<Rightarrow> ptr \<Rightarrow> lw \<Rightarrow> lw" where
  "put_next p v s \<equiv> s\<lparr>pb_next := (pb_next s)(p := v)\<rparr>"
abbreviation (input) put_payload :: "ptr \<Rightarrow> ptr \<Rightarrow> lw \<Rightarrow> lw" where
  "put_payload p v s \<equiv> s\<lparr>pb_payload := (pb_payload s)(p := v)\<rparr>"
abbreviation (input) put_tot_len :: "ptr \<Rightarrow> u16 \<Rightarrow> lw \<Rightarrow> lw" where
  "put_tot_len p v s \<equiv> s\<lparr>pb_tot_len := (pb_tot_len s)(p := v)\<rparr>"
abbreviation (input) put_len :: "ptr \<Rightarrow> u16 \<Rightarrow> lw \<Rightarrow> lw" where
  "put_len p v s \<equiv> s\<lparr>pb_len := (pb_len s)(p := v)\<rparr>"
abbreviation (input) put_type :: "ptr \<Rightarrow> u8 \<Rightarrow> lw \<Rightarrow> lw" where
  "put_type p v s \<equiv> s\<lparr>pb_type := (pb_type s)(p := v)\<rparr>"
abbreviation (input) put_flags :: "ptr \<Rightarrow> u8 \<Rightarrow> lw \<Rightarrow> lw" where
  "put_flags p v s \<equiv> s\<lparr>pb_flags := (pb_flags s)(p := v)\<rparr>"
abbreviation (input) put_ref :: "ptr \<Rightarrow> u16 \<Rightarrow> lw \<Rightarrow> lw" where
  "put_ref p v s \<equiv> s\<lparr>pb_ref_count := (pb_ref_count s)(p := v)\<rparr>"
abbreviation (input) put_mem_next :: "ptr \<Rightarrow> u16 \<Rightarrow> lw \<Rightarrow> lw" where
  "put_mem_next p v s \<equiv> s\<lparr>mem_next := (mem_next s)(p := v)\<rparr>"
abbreviation (input) put_mem_prev :: "ptr \<Rightarrow> u16 \<Rightarrow> lw \<Rightarrow> lw" where
  "put_mem_prev p v s \<equiv> s\<lparr>mem_prev := (mem_prev s)(p := v)\<rparr>"
abbreviation (input) put_mem_used :: "ptr \<Rightarrow> u8 \<Rightarrow> lw \<Rightarrow> lw" where
  "put_mem_used p v s \<equiv> s\<lparr>mem_used := (mem_used s)(p := v)\<rparr>"

section \<open>Bytes of memory\<close>

text \<open>The \<open>n\<close> bytes at an address, and \<open>MEMCPY\<close>.\<close>

definition bytes_at :: "(ptr \<Rightarrow> u8) \<Rightarrow> ptr \<Rightarrow> nat \<Rightarrow> u8 list" where
  "bytes_at m a n = map (\<lambda>i. m (a + of_nat i)) [0..<n]"

definition memcpy :: "ptr \<Rightarrow> ptr \<Rightarrow> nat \<Rightarrow> lw \<Rightarrow> lw" where
  "memcpy dst src n s =
     s\<lparr>bytes := (\<lambda>a. if unat (a - dst) < n then bytes s (src + (a - dst)) else bytes s a)\<rparr>"

text \<open>Reading a 16-bit and a 32-bit value through a pointer on a little-endian processor.\<close>

definition rd16 :: "(ptr \<Rightarrow> u8) \<Rightarrow> ptr \<Rightarrow> u16" where
  "rd16 m a = ucast (m a) OR push_bit 8 (ucast (m (a + 1)))"

definition rd32 :: "(ptr \<Rightarrow> u8) \<Rightarrow> ptr \<Rightarrow> u32" where
  "rd32 m a = ucast (rd16 m a) OR push_bit 16 (ucast (rd16 m (a + 2)))"

lemma length_bytes_at [simp]: "length (bytes_at m a n) = n"
  by (simp add: bytes_at_def)

lemma bytes_at_0 [simp]: "bytes_at m a 0 = []"
  by (simp add: bytes_at_def)

lemma nth_bytes_at [simp]: "i < n \<Longrightarrow> bytes_at m a n ! i = m (a + of_nat i)"
  by (simp add: bytes_at_def)

lemma bytes_at_append: "bytes_at m a (n + k) = bytes_at m a n @ bytes_at m (a + of_nat n) k"
  by (auto intro!: nth_equalityI simp: nth_append add.assoc simp flip: of_nat_add)

lemma bytes_at_Suc: "bytes_at m a (Suc n) = m a # bytes_at m (a + 1) n"
  using bytes_at_append [of m a 1 n] by (simp add: bytes_at_def)

section \<open>Alignment\<close>

definition LWIP_MEM_ALIGN :: "ptr \<Rightarrow> ptr" where
  "LWIP_MEM_ALIGN addr = (addr + 3) AND NOT 3"

section \<open>Byte order\<close>

text \<open>
  The portable functions of \<open>def.c\<close> and the instructions \<open>REV16\<close> and \<open>REV\<close> that the port
  uses in their place (\<open>cc.h\<close>); \<open>REV16\<close> swaps the bytes of both halves of a word.
\<close>

definition lwip_htons :: "u16 \<Rightarrow> u16" where
  "lwip_htons n = push_bit 8 (n AND 0xff) OR drop_bit 8 (n AND 0xff00)"

definition lwip_ntohs :: "u16 \<Rightarrow> u16" where
  "lwip_ntohs n = lwip_htons n"

definition lwip_htonl :: "u32 \<Rightarrow> u32" where
  "lwip_htonl n =
     push_bit 24 (n AND 0xff) OR push_bit 8 (n AND 0xff00) OR
     drop_bit 8 (n AND 0xff0000) OR drop_bit 24 (n AND 0xff000000)"

definition lwip_ntohl :: "u32 \<Rightarrow> u32" where
  "lwip_ntohl n = lwip_htonl n"

definition REV16 :: "u32 \<Rightarrow> u32" where
  "REV16 w = push_bit 8 (w AND 0x00ff00ff) OR drop_bit 8 (w AND 0xff00ff00)"

lemma or_shift: "(b :: nat) < 2 ^ k \<Longrightarrow> push_bit k a OR b = 2 ^ k * a + b"
proof -
  assume "b < 2 ^ k"
  then have "bit b n \<Longrightarrow> n < k" for n
    by (metis bit_take_bit_iff take_bit_nat_eq_self)
  then have "push_bit k a AND b = 0" by (simp add: bit_eq_iff bit_simps) (meson not_le)
  then show ?thesis using disjunctive_add_eq_or [of "push_bit k a" b] by (simp add: push_bit_eq_mult mult.commute)
qed

lemma mask_consts:
  "(0xff :: u16) = mask 8" "(0xff00 :: u16) = push_bit 8 (mask 8)"
  "(0xff :: u32) = mask 8" "(0xff00 :: u32) = push_bit 8 (mask 8)"
  "(0xff0000 :: u32) = push_bit 16 (mask 8)" "(0xff000000 :: u32) = push_bit 24 (mask 8)"
  "(0xffff :: u32) = mask 16"
  "(0x00ff00ff :: u32) = mask 8 OR push_bit 16 (mask 8)"
  "(0xff00ff00 :: u32) = push_bit 8 (mask 8) OR push_bit 24 (mask 8)"
  by (simp_all add: mask_eq_exp_minus_1)

lemma htons_bits: "lwip_htons n = push_bit 8 n OR drop_bit 8 n"
  unfolding lwip_htons_def mask_consts by (rule bit_word_eqI) (auto simp: bit_simps dest: bit_imp_le_length)

lemma htonl_bits: "bit (lwip_htonl n) i = 
  (i < 32 \<and> bit n (if i < 8 then 24 + i else if i < 16 then 8 + i else if i < 24 then i - 8 else i - 24))"
  unfolding lwip_htonl_def mask_consts by (auto simp: bit_simps)

lemma htonl_htonl: "lwip_htonl (lwip_htonl n) = n"
  by (rule bit_word_eqI) (auto simp: htonl_bits)

lemma unat_htons: "unat (lwip_htons n) = 256 * (unat n mod 256) + unat n div 256"
proof -
  have "unat n div 256 < 2 ^ 8" using unat_u16_less [of n] by (simp add: less_mult_imp_div_less)
  moreover have "unat (push_bit 8 n) = push_bit 8 (unat n mod 256)"
    using mod_mult_mult2 [of "unat n" 256 256]
    by (simp only: unsigned_push_bit_eq) (simp add: push_bit_eq_mult take_bit_eq_mod)
  moreover have "unat (drop_bit 8 n) = unat n div 256" by (simp add: drop_bit_eq_div unat_div)
  ultimately show ?thesis unfolding htons_bits by (simp add: unsigned_or_eq or_shift)
qed

lemma REV16_htons: "unat w < 65536 \<Longrightarrow> REV16 w = ucast (lwip_htons (ucast w))"
proof -
  assume "unat w < 65536"
  then have "take_bit 16 w = w" by (simp add: word_unat_eq_iff unsigned_take_bit_eq take_bit_nat_eq_self_iff)
  then have "bit w n \<Longrightarrow> n < 16" for n by (metis bit_take_bit_iff)
  then show ?thesis
  unfolding REV16_def mask_consts htons_bits by (intro bit_word_eqI) (fastforce simp: bit_simps)
qed
  
lemma byte_or: "unat (push_bit 8 (ucast (b :: u8)) OR ucast (c :: u8) :: u16) = 256 * unat b + unat c"
proof -
  have "unat c < 2 ^ 8" by simp
  from or_shift [OF this, of "unat b"] unat_u8_less [of b] show ?thesis 
  by (simp add: unsigned_or_eq unsigned_push_bit_eq take_bit_push_bit take_bit_nat_eq_self)
qed

end
