(* ===== verification/LW_Chksum.thy ===== *)
theory LW_Chksum
  imports LW_State
begin

text \<open>
  The Internet checksum of \<open>inet_chksum.c\<close>: the three implementations of the sum, and the
  checksums over a buffer and over a chain of packet buffers with and without the pseudo
  header. The sums are in the byte order of the processor; the reference is the ones'
  complement sum of RFC 1071 over big-endian 16-bit words.
\<close>

section \<open>The sum over a buffer\<close>

definition FOLD_U32T :: "u32 \<Rightarrow> u32" where
  "FOLD_U32T u = drop_bit 16 u + (u AND 0xffff)"

definition SWAP_BYTES_IN_WORD :: "u32 \<Rightarrow> u32" where
  "SWAP_BYTES_IN_WORD w = REV16 w"

text \<open>Version 1: byte by byte, in network order.\<close>

function chksum1_loop :: "(ptr \<Rightarrow> u8) \<Rightarrow> ptr \<Rightarrow> u16 \<Rightarrow> u32 \<Rightarrow> ptr \<times> u16 \<times> u32" where
  "chksum1_loop m octetptr len acc =
     (if len > 1 then
        let src = push_bit 8 (ucast (m octetptr)) :: u16;
            src = src OR ucast (m (octetptr + 1))
        in chksum1_loop m (octetptr + 2) (len - 2) (acc + ucast src)
      else (octetptr, len, acc))"
  by pat_completeness auto
termination
proof (relation "measure (\<lambda>(m, p, len, acc). unat len)", goal_cases)
  case (2 m octetptr len acc x xa)
  then have "2 \<le> len" by (simp add: word_le_nat_alt word_less_nat_alt)
  then show ?case by (simp add: unat_sub word_le_nat_alt)
qed simp

declare chksum1_loop.simps [simp del]

definition lwip_standard_chksum1 :: "(ptr \<Rightarrow> u8) \<Rightarrow> ptr \<Rightarrow> u16 \<Rightarrow> u16" where
  "lwip_standard_chksum1 m dataptr len =
     (let (octetptr, len, acc) = chksum1_loop m dataptr len 0;
          acc = (if len > 0 then acc + ucast (push_bit 8 (ucast (m octetptr)) :: u16) else acc);
          acc = drop_bit 16 acc + (acc AND 0xffff);
          acc = (if acc AND 0xffff0000 \<noteq> 0 then drop_bit 16 acc + (acc AND 0xffff) else acc)
      in lwip_htons (ucast acc))"

text \<open>
  Version 2: half words from an even address on; the first byte at an odd address and the
  last byte go into the two bytes of \<open>t\<close>. The length is an \<open>int\<close> of C that only decreases.
\<close>

function chksum2_loop :: "(ptr \<Rightarrow> u8) \<Rightarrow> ptr \<Rightarrow> int \<Rightarrow> u32 \<Rightarrow> ptr \<times> int \<times> u32" where
  "chksum2_loop m ps len sm =
     (if len > 1 then chksum2_loop m (ps + 2) (len - 2) (sm + ucast (rd16 m ps)) else (ps, len, sm))"
  by pat_completeness auto
termination by (relation "measure (\<lambda>(m, p, len, sm). nat len)") auto

declare chksum2_loop.simps [simp del]

definition lwip_standard_chksum2 :: "(ptr \<Rightarrow> u8) \<Rightarrow> ptr \<Rightarrow> int \<Rightarrow> u16" where
  "lwip_standard_chksum2 m dataptr len =
     (let odd_adr = (dataptr AND 1 \<noteq> 0);
          (t, pb, len) = (if odd_adr \<and> len > 0
             then (push_bit 8 (ucast (m dataptr)) :: u16, dataptr + 1, len - 1) else (0, dataptr, len));
          (ps, len, sm) = chksum2_loop m pb len 0;
          t = (if len > 0 then t OR ucast (m ps) else t);
          sm = sm + ucast t;
          sm = FOLD_U32T sm;
          sm = FOLD_U32T sm;
          sm = (if odd_adr then SWAP_BYTES_IN_WORD sm else sm)
      in ucast sm)"

text \<open>Version 3: two words at a time with the carry added back.\<close>

definition add_carry :: "u32 \<Rightarrow> u32 \<Rightarrow> u32" where
  "add_carry sm w = (let tmp = sm + w in if tmp < sm then tmp + 1 else tmp)"

function chksum3_loop :: "(ptr \<Rightarrow> u8) \<Rightarrow> ptr \<Rightarrow> int \<Rightarrow> u32 \<Rightarrow> ptr \<times> int \<times> u32" where
  "chksum3_loop m pl len sm =
     (if len > 7 then
        let tmp = add_carry sm (rd32 m pl);
            sm = add_carry tmp (rd32 m (pl + 4))
        in chksum3_loop m (pl + 8) (len - 8) sm
      else (pl, len, sm))"
  by pat_completeness auto
termination by (relation "measure (\<lambda>(m, p, len, sm). nat len)") auto

declare chksum3_loop.simps [simp del]

definition lwip_standard_chksum3 :: "(ptr \<Rightarrow> u8) \<Rightarrow> ptr \<Rightarrow> int \<Rightarrow> u16" where
  "lwip_standard_chksum3 m dataptr len =
     (let odd_adr = (dataptr AND 1 \<noteq> 0);
          (t, pb, len) = (if odd_adr \<and> len > 0
             then (push_bit 8 (ucast (m dataptr)) :: u16, dataptr + 1, len - 1) else (0, dataptr, len));
          (ps, len, sm) = (if pb AND 3 \<noteq> 0 \<and> len > 1
             then (pb + 2, len - 2, ucast (rd16 m pb)) else (pb, len, 0 :: u32));
          (pl, len, sm) = chksum3_loop m ps len sm;
          sm = FOLD_U32T sm;
          (ps, len, sm) = chksum2_loop m pl len sm;
          t = (if len > 0 then t OR ucast (m ps) else t);
          sm = sm + ucast t;
          sm = FOLD_U32T sm;
          sm = FOLD_U32T sm;
          sm = (if odd_adr then SWAP_BYTES_IN_WORD sm else sm)
      in ucast sm)"

text \<open>
  The configured version, \<open>LWIP_CHKSUM_ALGORITHM\<close> 1 in \<open>cc.h\<close>; only a GCC build replaces it by an
  assembler translation of version 3.
\<close>

abbreviation (input) LWIP_CHKSUM :: "(ptr \<Rightarrow> u8) \<Rightarrow> ptr \<Rightarrow> u16 \<Rightarrow> u16" where
  "LWIP_CHKSUM \<equiv> lwip_standard_chksum1"

definition inet_chksum :: "ptr \<Rightarrow> u16 \<Rightarrow> lw \<Rightarrow> u16" where
  "inet_chksum dataptr len s = NOT (LWIP_CHKSUM (bytes s) dataptr len)"

definition lwip_chksum_copy :: "ptr \<Rightarrow> ptr \<Rightarrow> u16 \<Rightarrow> lw \<Rightarrow> u16 \<times> lw" where
  "lwip_chksum_copy dst src len s =
     (let s = memcpy dst src (unat len) s in (LWIP_CHKSUM (bytes s) dst len, s))"

section \<open>The sum over a chain of packet buffers\<close>

text \<open>The common step: add the sum of one buffer, fold, and swap after an odd length.\<close>

definition chksum_step :: "u16 \<Rightarrow> u16 \<Rightarrow> u32 \<times> u8 \<Rightarrow> u32 \<times> u8" where
  "chksum_step sm len st = (case st of (acc, swapped) \<Rightarrow>
     let acc = FOLD_U32T (acc + ucast sm)
     in if len mod 2 \<noteq> 0 then (SWAP_BYTES_IN_WORD acc, 1 - swapped) else (acc, swapped))"

partial_function (option) chksum_pbuf_loop :: "lw \<Rightarrow> ptr \<Rightarrow> u32 \<times> u8 \<Rightarrow> (u32 \<times> u8) option" where
  "chksum_pbuf_loop s q st =
     (if q \<noteq> NULL then
        chksum_pbuf_loop s (pb_next s q)
          (chksum_step (LWIP_CHKSUM (bytes s) (pb_payload s q) (pb_len s q)) (pb_len s q) st)
      else Some st)"

definition unswap :: "u32 \<times> u8 \<Rightarrow> u32" where
  "unswap st = (case st of (acc, swapped) \<Rightarrow> if swapped \<noteq> 0 then SWAP_BYTES_IN_WORD acc else acc)"

definition inet_chksum_pbuf :: "ptr \<Rightarrow> lw \<Rightarrow> u16 option" where
  "inet_chksum_pbuf p s = do {
     st \<leftarrow> chksum_pbuf_loop s p (0, 0);
     Some (ucast (NOT (unswap st AND 0xffff))) }"

text \<open>The pseudo header and the final folding.\<close>

definition pseudo_header :: "u32 \<Rightarrow> u32 \<Rightarrow> u32 \<Rightarrow> u8 \<Rightarrow> u16 \<Rightarrow> u32" where
  "pseudo_header acc src dest proto proto_len =
     (let acc = acc + (src AND 0xffff);
          acc = acc + (drop_bit 16 src AND 0xffff);
          acc = acc + (dest AND 0xffff);
          acc = acc + (drop_bit 16 dest AND 0xffff);
          acc = acc + ucast (lwip_htons (ucast proto));
          acc = acc + ucast (lwip_htons proto_len)
      in FOLD_U32T (FOLD_U32T acc))"

definition inet_chksum_pseudo :: "ptr \<Rightarrow> u32 \<Rightarrow> u32 \<Rightarrow> u8 \<Rightarrow> u16 \<Rightarrow> lw \<Rightarrow> u16 option" where
  "inet_chksum_pseudo p src dest proto proto_len s = do {
     st \<leftarrow> chksum_pbuf_loop s p (0, 0);
     Some (ucast (NOT (pseudo_header (unswap st) src dest proto proto_len AND 0xffff))) }"

partial_function (option) chksum_partial_loop :: "lw \<Rightarrow> ptr \<Rightarrow> u16 \<Rightarrow> u32 \<times> u8 \<Rightarrow> (u32 \<times> u8) option" where
  "chksum_partial_loop s q chksum_len st =
     (if q \<noteq> NULL \<and> chksum_len > 0 then
        (let chklen = pb_len s q;
             chklen = (if chklen > chksum_len then chksum_len else chklen)
         in chksum_partial_loop s (pb_next s q) (chksum_len - chklen)
              (chksum_step (LWIP_CHKSUM (bytes s) (pb_payload s q) chklen) (pb_len s q) st))
      else Some st)"

definition inet_chksum_pseudo_partial ::
  "ptr \<Rightarrow> u32 \<Rightarrow> u32 \<Rightarrow> u8 \<Rightarrow> u16 \<Rightarrow> u16 \<Rightarrow> lw \<Rightarrow> u16 option" where
  "inet_chksum_pseudo_partial p src dest proto proto_len chksum_len s = do {
     st \<leftarrow> chksum_partial_loop s p chksum_len (0, 0);
     Some (ucast (NOT (pseudo_header (unswap st) src dest proto proto_len AND 0xffff))) }"

section \<open>Ones' complement sums\<close>

text \<open>
  The sum of the big-endian and of the little-endian 16-bit words of a list of bytes, the
  last odd byte padded with a zero byte, and the ones' complement representative of a
  number: the value in 0 to 65535 that end-around carries leave, with 0 only for 0.
\<close>

fun inet_sum :: "u8 list \<Rightarrow> nat" where
  "inet_sum [] = 0"
| "inet_sum [a] = 256 * unat a"
| "inet_sum (a # b # r) = 256 * unat a + unat b + inet_sum r"

fun le_sum :: "u8 list \<Rightarrow> nat" where
  "le_sum [] = 0"
| "le_sum [a] = unat a"
| "le_sum (a # b # r) = unat a + 256 * unat b + le_sum r"

definition oc :: "nat \<Rightarrow> nat" where
  "oc n = (if n = 0 then 0 else Suc ((n - 1) mod 65535))"

lemma oc_le: "oc n \<le> 65535"
  using mod_less_divisor [of 65535 "n - 1"] by (simp add: oc_def Suc_le_eq)

lemma oc_id: "n \<le> 65535 \<Longrightarrow> oc n = n"
  by (auto simp: oc_def)

lemma oc_eq_0 [simp]: "oc n = 0 \<longleftrightarrow> n = 0"
  by (simp add: oc_def)

lemma oc_0 [simp]: "oc 0 = 0"
  by simp

lemma oc_mod: "oc n mod 65535 = n mod 65535"
  by (cases n) (simp_all add: oc_def mod_Suc_eq)

lemma oc_unique:
  assumes "x \<le> 65535" "x mod 65535 = n mod 65535" "x = 0 \<longleftrightarrow> n = 0"
  shows "x = oc n"
proof -
  have "x mod 65535 = oc n mod 65535" using assms(2) by (simp add: oc_mod)
  moreover have "y mod 65535 = (if y = 65535 then 0 else y)" if "y \<le> 65535" for y :: nat
    using that by simp
  ultimately show ?thesis using assms(1,3) oc_le [of n] oc_eq_0 [of n] by (auto split: if_splits simp del: oc_eq_0)
qed

lemma oc_cong: "a mod 65535 = b mod 65535 \<Longrightarrow> (a = 0 \<longleftrightarrow> b = 0) \<Longrightarrow> oc a = oc b"
  using oc_unique [of "oc a" b] oc_le [of a] by (simp add: oc_mod)

lemma oc_add_left: "oc (oc a + b) = oc (a + b)"
  by (rule oc_cong) (use mod_add_cong [OF oc_mod refl] in auto)

lemma oc_add_both: "oc (oc a + oc b) = oc (a + b)"
  using oc_add_left [of a "oc b"] oc_add_left [of b a] by (simp add: add.commute)

lemma oc_add_cong: "oc a = oc b \<Longrightarrow> oc (a + k) = oc (b + k)"
  by (metis oc_add_left)

lemma oc_mult: "oc (k * oc a) = oc (k * a)"
  by (rule oc_cong) (use mod_mult_cong [OF refl oc_mod] in auto)

lemma mod_65536: "65536 * a mod 65535 = a mod (65535 :: nat)"
proof -
  have "65536 * a = a + a * 65535" by simp
  then show ?thesis by (simp only: mod_mult_self1)
qed

lemma oc_65536 [simp]: "oc (65536 * a) = oc a"
  by (rule oc_cong) (simp_all add: mod_65536)

lemma oc_fold: "oc (n div 65536 + n mod 65536) = oc n"
proof (rule oc_cong)
  have n: "n = 65536 * (n div 65536) + n mod 65536" by simp
  have "(n div 65536 + n mod 65536) mod 65535 = (65536 * (n div 65536) + n mod 65536) mod 65535"
    by (rule mod_add_cong) (simp_all add: mod_65536)
  then show "(n div 65536 + n mod 65536) mod 65535 = n mod 65535" using n by simp
  show "n div 65536 + n mod 65536 = 0 \<longleftrightarrow> n = 0" using n by auto
qed

lemma oc_swap: "w \<le> 65535 \<Longrightarrow> 256 * (w mod 256) + w div 256 = oc (256 * w)"
proof (rule oc_unique)
  assume w: "w \<le> 65535"
  have n: "w = 256 * (w div 256) + w mod 256" by simp
  have d: "w div 256 < 256" using w by (simp add: less_mult_imp_div_less)
  moreover have "w mod 256 < 256" by simp
  ultimately show "256 * (w mod 256) + w div 256 \<le> 65535" by linarith
  have "256 * w = 65536 * (w div 256) + 256 * (w mod 256)" using n by linarith
  then have "256 * w mod 65535 = (w div 256 + 256 * (w mod 256)) mod 65535"
    using mod_add_cong [OF mod_65536 refl, of "w div 256" "256 * (w mod 256)"] by simp
  then show "(256 * (w mod 256) + w div 256) mod 65535 = 256 * w mod 65535" by (simp add: add.commute)
  show "256 * (w mod 256) + w div 256 = 0 \<longleftrightarrow> 256 * w = 0" using n by (metis add_is_0 mult_is_0 zero_neq_numeral)
qed

section \<open>Sums in both byte orders\<close>

lemma sum_Cons: "inet_sum (a # r) = 256 * unat a + le_sum r" "le_sum (a # r) = unat a + inet_sum r"
  by (induction r arbitrary: a rule: inet_sum.induct) simp_all

lemma sum_append:
  "even (length xs) \<Longrightarrow> inet_sum (xs @ ys) = inet_sum xs + inet_sum ys"
  "odd (length xs) \<Longrightarrow> inet_sum (xs @ ys) = inet_sum xs + le_sum ys"
  by (induction xs rule: inet_sum.induct) (simp_all add: sum_Cons)

lemma sum_bound: "inet_sum xs \<le> 65535 * ((length xs + 1) div 2)" "le_sum xs \<le> 65535 * ((length xs + 1) div 2)"
proof (induction xs rule: inet_sum.induct)
  case (2 a)
  { case 1 show ?case using unat_u8_less [of a] by (simp del: unat_u8_less) }
  { case 2 show ?case using unat_u8_less [of a] by (simp del: unat_u8_less) }
next
  case (3 a b r)
  { case 1 then show ?case using 3(1) unat_u8_less [of a] unat_u8_less [of b] by (simp del: unat_u8_less) }
  { case 2 then show ?case using 3(2) unat_u8_less [of a] unat_u8_less [of b] by (simp del: unat_u8_less) }
qed simp_all

lemma le_sum_mod: "le_sum r mod 65535 = 256 * inet_sum r mod 65535" "256 * le_sum r mod 65535 = inet_sum r mod 65535"
proof (induction r)
  case (Cons a r)
  { case 1
    have "256 * inet_sum (a # r) mod 65535 = (65536 * unat a + 256 * le_sum r) mod 65535"
      by (simp add: sum_Cons distrib_left)
    also have "\<dots> = (unat a + inet_sum r) mod 65535"
      by (rule mod_add_cong) (use Cons.IH in \<open>simp_all add: mod_65536\<close>)
    finally show ?case by (simp add: sum_Cons) }
  { case 2
    have "256 * le_sum (a # r) mod 65535 = (256 * unat a + 256 * inet_sum r) mod 65535"
      by (simp add: sum_Cons distrib_left)
    also have "\<dots> = (256 * unat a + le_sum r) mod 65535"
      by (rule mod_add_cong) (use Cons.IH in simp_all)
    finally show ?case by (simp add: sum_Cons) }
qed simp_all

lemma sum_eq_0: "inet_sum r = 0 \<longleftrightarrow> (\<forall>x\<in>set r. x = 0)" "le_sum r = 0 \<longleftrightarrow> (\<forall>x\<in>set r. x = 0)"
  by (induction r) (auto simp: sum_Cons unat_eq_0)

lemma oc_le_sum: "oc (le_sum r) = oc (256 * inet_sum r)"
  by (rule oc_cong) (simp_all add: le_sum_mod sum_eq_0)

section \<open>The word operations\<close>

lemma unat_fold: "unat (FOLD_U32T u) = unat u div 65536 + unat u mod 65536"
proof -
  have "unat (drop_bit 16 u) = unat u div 65536" by (simp add: drop_bit_eq_div unat_div)
  moreover have "unat (u AND 0xffff) = unat u mod 65536"
    by (simp only: mask_consts take_bit_eq_mask [symmetric] unsigned_take_bit_eq) (simp add: take_bit_eq_mod)
  moreover have "unat u div 65536 < 65536" using unsigned_less [of u, where 'a = nat] by (simp add: less_mult_imp_div_less)
  moreover have "unat u mod 65536 < 65536" by simp
  ultimately show ?thesis unfolding FOLD_U32T_def
    by (subst unat_add_lem [THEN iffD1]) simp_all
qed

lemma oc_unat_fold: "oc (unat (FOLD_U32T u)) = oc (unat u)"
  by (simp add: unat_fold oc_fold)

lemma fold_once: "unat u \<le> 131070 \<Longrightarrow> unat (FOLD_U32T u) = oc (unat u)"
proof -
  assume u: "unat u \<le> 131070"
  have "unat u div 65536 + unat u mod 65536 \<le> 65535"
  proof (cases "unat u < 65536")
    case False
    then have "unat u div 65536 = 1" using u by (simp add: div_nat_eqI)
    moreover have "unat u = 65536 * (unat u div 65536) + unat u mod 65536" by simp
    ultimately show ?thesis using u by linarith
  qed simp
  then show ?thesis using oc_unat_fold [of u] oc_id by (simp add: unat_fold)
qed

lemma fold_twice: "unat (FOLD_U32T (FOLD_U32T u)) = oc (unat u)"
proof -
  have "unat u div 65536 < 65536" using unsigned_less [of u, where 'a = nat] by (simp add: less_mult_imp_div_less)
  moreover have "unat u mod 65536 < 65536" by simp
  ultimately have "unat (FOLD_U32T u) \<le> 131070" unfolding unat_fold by linarith
  then show ?thesis by (simp add: fold_once oc_unat_fold)
qed

lemma unat_htons_oc: "unat (lwip_htons n) = oc (256 * unat n)"
  using oc_swap [of "unat n"] unat_u16_less [of n] by (simp add: unat_htons less_Suc_eq_le del: unat_u16_less)

lemma unat_SWAP: "unat w < 65536 \<Longrightarrow> unat (SWAP_BYTES_IN_WORD w) = oc (256 * unat w)"
  by (simp add: SWAP_BYTES_IN_WORD_def REV16_htons unat_htons_oc unat_ucast_narrow)

lemma unat_rd16: "unat (rd16 m a) = unat (m a) + 256 * unat (m (a + 1))"
  using byte_or [of "m (a + 1)" "m a"] by (simp add: rd16_def or.commute)

section \<open>The three versions\<close>

lemma unat_add_u32: "unat a + unat b < 4294967296 \<Longrightarrow> unat (a + b :: u32) = unat a + unat b"
  by (simp add: unat_add_lem [THEN iffD1])

lemma bytes_at_2: "bytes_at m p (Suc (Suc n)) = m p # m (p + 1) # bytes_at m (p + 2) n"
  by (simp add: bytes_at_Suc add.assoc)

lemma chksum1_loop_spec:
  assumes "unat acc + inet_sum (bytes_at m p (unat len)) < 4294967296"
    and "chksum1_loop m p len acc = (p', len', acc')"
  shows "len' \<le> 1 \<and> unat acc' + inet_sum (bytes_at m p' (unat len')) = unat acc + inet_sum (bytes_at m p (unat len))"
  using assms
proof (induction m p len acc rule: chksum1_loop.induct)
  case (1 m p len acc)
  show ?case
  proof (cases "len > 1")
    case True
    define w where "w = (push_bit 8 (ucast (m p)) :: u16) OR ucast (m (p + 1))"
    have "2 \<le> len" using True by (simp add: word_le_nat_alt word_less_nat_alt)
    then have l: "unat len = Suc (Suc (unat (len - 2)))" by (simp add: unat_sub word_le_nat_alt)
    have w: "unat w = 256 * unat (m p) + unat (m (p + 1))" by (simp add: w_def byte_or)
    have a: "unat (acc + ucast w) = unat acc + unat w"
      using 1(2) w by (intro trans [OF unat_add_u32]) (simp_all add: l bytes_at_2)
    have "len' \<le> 1 \<and> unat acc' + inet_sum (bytes_at m p' (unat len')) =
        unat (acc + ucast w) + inet_sum (bytes_at m (p + 2) (unat (len - 2)))"
      by (rule 1(1) [OF True refl w_def]) (use 1(2,3) True w a in
        \<open>simp_all add: l bytes_at_2 chksum1_loop.simps [of m p] w_def Let_def\<close>)
    then show ?thesis using a w by (simp add: l bytes_at_2)
  next
    case False
    then show ?thesis using 1(3) by (simp add: chksum1_loop.simps)
  qed
qed

lemma high_half: "x AND 0xffff0000 = 0 \<longleftrightarrow> unat (x :: u32) \<le> 65535"
proof -
  have c: "(0xffff0000 :: u32) = push_bit 16 (mask 16)" by (simp add: mask_eq_exp_minus_1)
  have "x AND 0xffff0000 = push_bit 16 (drop_bit 16 x)"
    unfolding c by (rule bit_word_eqI) (auto simp: bit_simps)
  moreover have "drop_bit 16 (push_bit 16 (drop_bit 16 x)) = drop_bit 16 x"
    by (rule bit_word_eqI) (auto simp: bit_simps dest: bit_imp_le_length)
  then have "push_bit 16 (drop_bit 16 x) = 0 \<longleftrightarrow> drop_bit 16 x = 0" by (metis drop_bit_of_0 push_bit_of_0)
  moreover have "drop_bit 16 x = 0 \<longleftrightarrow> unat x div 65536 = 0"
    by (simp add: drop_bit_eq_div word_unat_eq_iff unat_div)
  ultimately show ?thesis by (auto simp: div_eq_0_iff)
qed

lemma byte_zero: "len \<le> (1 :: u16) \<Longrightarrow> len = 0 \<or> len = 1"
  by (simp add: word_le_nat_alt word_unat_eq_iff) linarith

lemma chksum1_oc: "lwip_standard_chksum1 m p len = lwip_htons (of_nat (oc (inet_sum (bytes_at m p (unat len)))))"
proof -
  let ?n = "inet_sum (bytes_at m p (unat len))"
  obtain p' l' acc where r: "chksum1_loop m p len 0 = (p', l', acc)" by (metis prod_cases3)
  have "?n \<le> 65535 * ((unat len + 1) div 2)" using sum_bound(1) [of "bytes_at m p (unat len)"] by simp
  moreover have "(unat len + 1) div 2 \<le> 32768" using unat_u16_less [of len] by linarith
  ultimately have b: "?n < 4294967296" by linarith
  note spec = chksum1_loop_spec [OF _ r]
  have l: "l' = 0 \<or> l' = 1" using spec b byte_zero [of l'] by simp
  define acc1 where "acc1 = (if l' > 0 then acc + ucast (push_bit 8 (ucast (m p')) :: u16) else acc)"
  have u: "unat (push_bit 8 (ucast (m p')) :: u16) = 256 * unat (m p')" using byte_or [of "m p'" 0] by simp
  have a1: "unat acc1 = ?n"
  proof (cases "l' = 0")
    case True
    then show ?thesis using spec b by (simp add: acc1_def)
  next
    case False
    then have l1: "l' = 1" using l by simp
    then have s: "unat acc + 256 * unat (m p') = ?n" using spec b by (simp add: bytes_at_def)
    have "unat acc1 = unat acc + 256 * unat (m p')"
      using l1 s b u by (simp add: acc1_def unat_add_u32)
    then show ?thesis using s by simp
  qed
  define acc2 where "acc2 = FOLD_U32T acc1"
  have f: "unat (if acc2 AND 0xffff0000 \<noteq> 0 then FOLD_U32T acc2 else acc2) = oc ?n"
    using fold_twice [of acc1] a1 high_half [of acc2] oc_unat_fold [of acc1] oc_id [of "unat acc2"]
    by (auto simp: acc2_def)
  then have "ucast (if acc2 AND 0xffff0000 \<noteq> 0 then FOLD_U32T acc2 else acc2) = (of_nat (oc ?n) :: u16)"
    using oc_le [of ?n] by (simp add: word_unat_eq_iff unat_ucast_narrow unat_of_nat take_bit_eq_mod del: if_split)
  moreover have "lwip_standard_chksum1 m p len =
      lwip_htons (ucast (if acc2 AND 0xffff0000 \<noteq> 0 then FOLD_U32T acc2 else acc2))"
    unfolding lwip_standard_chksum1_def r Let_def prod.case
      acc1_def [symmetric] FOLD_U32T_def [symmetric] acc2_def [symmetric] by (rule refl)
  ultimately show ?thesis by simp
qed

lemma chksum2_loop_spec:
  assumes "unat sm + le_sum (bytes_at m p (nat len)) < 4294967296"
    and "chksum2_loop m p len sm = (p', len', sm')"
  shows "len' \<le> 1 \<and> unat sm' + le_sum (bytes_at m p' (nat len')) = unat sm + le_sum (bytes_at m p (nat len))"
  using assms
proof (induction m p len sm rule: chksum2_loop.induct)
  case (1 m p len sm)
  show ?case
  proof (cases "len > 1")
    case True
    then have l: "nat len = Suc (Suc (nat (len - 2)))" by simp
    have a: "unat (sm + ucast (rd16 m p)) = unat sm + unat (rd16 m p)"
      using 1(2) by (intro trans [OF unat_add_u32]) (simp_all add: l bytes_at_2 unat_rd16)
    have "len' \<le> 1 \<and> unat sm' + le_sum (bytes_at m p' (nat len')) =
        unat (sm + ucast (rd16 m p)) + le_sum (bytes_at m (p + 2) (nat (len - 2)))"
      by (rule 1(1) [OF True]) (use 1(2,3) True a in
        \<open>simp_all add: l bytes_at_2 unat_rd16 chksum2_loop.simps [of m p]\<close>)
    then show ?thesis using a by (simp add: l bytes_at_2 unat_rd16)
  next
    case False
    then show ?thesis using 1(3) by (simp add: chksum2_loop.simps)
  qed
qed

text \<open>The tail that versions 2 and 3 share, from the half word loop on.\<close>

definition chksum_tail :: "(ptr \<Rightarrow> u8) \<Rightarrow> bool \<Rightarrow> u16 \<Rightarrow> ptr \<Rightarrow> int \<Rightarrow> u32 \<Rightarrow> u16" where
  "chksum_tail m odd_adr t p len sm =
     (let (ps, len, sm) = chksum2_loop m p len sm;
          t = (if len > 0 then t OR ucast (m ps) else t);
          sm = sm + ucast t;
          sm = FOLD_U32T sm;
          sm = FOLD_U32T sm;
          sm = (if odd_adr then SWAP_BYTES_IN_WORD sm else sm)
      in ucast sm)"

lemma chksum_tail_spec:
  assumes "unat sm + 256 * unat b + le_sum (bytes_at m p (nat len)) < 4294967296"
  shows "chksum_tail m odd_adr (push_bit 8 (ucast (b :: u8))) p len sm =
    (of_nat (let n = unat sm + 256 * unat b + le_sum (bytes_at m p (nat len))
      in oc (if odd_adr then 256 * n else n)) :: u16)"
proof -
  let ?n = "unat sm + 256 * unat b + le_sum (bytes_at m p (nat len))"
  obtain p' l' sm' where r: "chksum2_loop m p len sm = (p', l', sm')" by (metis prod_cases3)
  have sp: "l' \<le> 1" "unat sm' + le_sum (bytes_at m p' (nat l')) = unat sm + le_sum (bytes_at m p (nat len))"
    using chksum2_loop_spec [OF _ r] assms by auto
  define t where "t = (if l' > 0 then push_bit 8 (ucast b) OR ucast (m p') else push_bit 8 (ucast b) :: u16)"
  have t: "unat t = 256 * unat b + le_sum (bytes_at m p' (nat l'))"
  proof (cases "l' > 0")
    case True
    then have "l' = 1" using sp(1) by simp
    then show ?thesis by (simp add: t_def byte_or bytes_at_def)
  next
    case False
    then show ?thesis using byte_or [of b 0] by (simp add: t_def)
  qed
  have "unat (sm' + ucast t) = ?n" using t sp(2) assms by (simp add: unat_add_u32)
  then have f: "unat (FOLD_U32T (FOLD_U32T (sm' + ucast t))) = oc ?n" by (simp add: fold_twice)
  have sw: "unat (SWAP_BYTES_IN_WORD (FOLD_U32T (FOLD_U32T (sm' + ucast t)))) = oc (256 * ?n)"
    using f oc_le [of ?n] by (subst unat_SWAP) (simp_all add: oc_mult)
  show ?thesis
    using f sw oc_le [of ?n] oc_le [of "256 * ?n"]
    by (simp add: chksum_tail_def r t_def [symmetric] word_unat_eq_iff unat_ucast_narrow unat_of_nat
        take_bit_eq_mod Let_def)
qed

lemma odd_first:
  assumes "0 < len"
  shows "bytes_at m p (nat len) = m p # bytes_at m (p + 1) (nat (len - 1))"
proof -
  have "nat len = Suc (nat (len - 1))" using assms by simp
  then show ?thesis by (simp add: bytes_at_Suc)
qed

lemma htons_of_nat_oc: "lwip_htons (of_nat (oc n)) = of_nat (oc (256 * n))"
proof -
  have "unat (of_nat (oc n) :: u16) = oc n" using oc_le [of n] by (intro unat_of_nat_u16) simp
  then show ?thesis
    using unat_htons_oc [of "of_nat (oc n)"] oc_le [of "256 * n"]
    by (simp add: word_unat_eq_iff unat_of_nat_u16 oc_mult)
qed

lemma chksum2_oc:
  assumes "len \<le> 0x20000"
  shows "lwip_standard_chksum2 m p len = of_nat (oc (256 * inet_sum (bytes_at m p (nat len))))"
proof (cases "p AND 1 \<noteq> 0 \<and> len > 0")
  case True
  then have c: "lwip_standard_chksum2 m p len = chksum_tail m True (push_bit 8 (ucast (m p))) (p + 1) (len - 1) 0"
    by (simp add: lwip_standard_chksum2_def chksum_tail_def)
  have n: "256 * unat (m p) + le_sum (bytes_at m (p + 1) (nat (len - 1))) = inet_sum (bytes_at m p (nat len))"
    using True by (simp add: odd_first sum_Cons)
  have "inet_sum (bytes_at m p (nat len)) \<le> 65535 * ((nat len + 1) div 2)"
    using sum_bound(1) [of "bytes_at m p (nat len)"] by simp
  moreover have "(nat len + 1) div 2 \<le> 65536" using assms by linarith
  ultimately have "inet_sum (bytes_at m p (nat len)) < 4294967296" by linarith
  then show ?thesis using c n chksum_tail_spec [of 0 "m p" m "p + 1" "len - 1" True] by (simp add: Let_def)
next
  case False
  then have c: "lwip_standard_chksum2 m p len = (if len > 0 then chksum_tail m False (push_bit 8 (ucast (0 :: u8))) p len 0
      else 0)"
    by (auto simp: lwip_standard_chksum2_def chksum_tail_def chksum2_loop.simps [of m p len] FOLD_U32T_def
        SWAP_BYTES_IN_WORD_def REV16_def)
  have "le_sum (bytes_at m p (nat len)) \<le> 65535 * ((nat len + 1) div 2)"
    using sum_bound(2) [of "bytes_at m p (nat len)"] by simp
  moreover have "(nat len + 1) div 2 \<le> 65536" using assms by linarith
  ultimately have "le_sum (bytes_at m p (nat len)) < 4294967296" by linarith
  then show ?thesis using c chksum_tail_spec [of 0 0 m p len False] by (simp add: Let_def oc_le_sum)
qed

lemma unat_rd32: "unat (rd32 m a) = unat (rd16 m a) + 65536 * unat (rd16 m (a + 2))"
proof -
  have "unat (rd16 m a) < 2 ^ 16" by simp
  moreover have "unat (push_bit 16 (ucast (rd16 m (a + 2))) :: u32) = push_bit 16 (unat (rd16 m (a + 2)))"
    using unat_u16_less [of "rd16 m (a + 2)"]
    by (simp only: unsigned_push_bit_eq) (simp add: push_bit_eq_mult take_bit_eq_mod)
  ultimately show ?thesis
    using or_shift [of "unat (rd16 m a)" 16 "unat (rd16 m (a + 2))"]
    by (simp add: rd32_def unsigned_or_eq or.commute)
qed

lemma oc_rd32: "oc (k + unat (rd32 m a)) = oc (k + le_sum (bytes_at m a 4))"
proof -
  have "bytes_at m a 4 = [m a, m (a + 1), m (a + 2), m (a + 3)]" by (simp add: bytes_at_def upt_rec)
  then have l: "le_sum (bytes_at m a 4) = unat (rd16 m a) + unat (rd16 m (a + 2))"
    by (simp add: unat_rd16 add.assoc)
  have "oc (unat (rd16 m a) + 65536 * unat (rd16 m (a + 2)) + k) = oc (unat (rd16 m a) + unat (rd16 m (a + 2)) + k)"
    by (intro oc_add_cong oc_cong mod_add_cong) (auto simp: mod_65536)
  then show ?thesis by (simp add: l unat_rd32 add.commute)
qed

lemma oc_add_carry: "oc (unat (add_carry a b) + k) = oc (unat a + unat b + k)"
proof (cases "unat a + unat b < 4294967296")
  case True
  then have "unat (a + b) = unat a + unat b" by (rule unat_add_u32)
  then show ?thesis by (simp add: add_carry_def Let_def word_less_nat_alt)
next
  case False
  have ab: "unat a < 4294967296" "unat b < 4294967296"
    using unsigned_less [of a, where 'a = nat] unsigned_less [of b, where 'a = nat] by simp_all
  have "unat (a + b) = (unat a + unat b) mod 4294967296" by (simp add: unat_word_ariths)
  also have "\<dots> = unat a + unat b - 4294967296"
    using False ab by (simp add: mod_if)
  finally have s: "unat (a + b) = unat a + unat b - 4294967296" .
  then have "a + b < a" using ab False by (simp add: word_less_nat_alt)
  moreover have "unat (a + b + 1) = unat (a + b) + 1"
    using s ab by (intro trans [OF unat_add_u32]) simp_all
  ultimately have c: "unat (add_carry a b) = unat a + unat b - 4294967295"
    using s False by (simp add: add_carry_def Let_def)
  have "unat a + unat b = unat (add_carry a b) + 65537 * 65535" using c False by simp
  then have "(unat a + unat b) mod 65535 = unat (add_carry a b) mod 65535" by (simp only: mod_mult_self1)
  then have "oc (unat (add_carry a b)) = oc (unat a + unat b)"
    using c False by (intro oc_cong) auto
  then show ?thesis by (rule oc_add_cong)
qed

lemma chksum3_loop_spec:
  assumes "chksum3_loop m p len sm = (p', len', sm')"
  shows "len' \<le> max len 7 \<and> len' \<le> 7 \<and>
    oc (unat sm' + k + le_sum (bytes_at m p' (nat len'))) = oc (unat sm + k + le_sum (bytes_at m p (nat len)))"
  using assms
proof (induction m p len sm rule: chksum3_loop.induct)
  case (1 m p len sm)
  show ?case
  proof (cases "len > 7")
    case True
    let ?s1 = "add_carry sm (rd32 m p)" and ?s2 = "add_carry (add_carry sm (rd32 m p)) (rd32 m (p + 4))"
    let ?r = "le_sum (bytes_at m (p + 8) (nat (len - 8)))"
    have "nat len = 4 + (4 + nat (len - 8))" using True by linarith
    then have "bytes_at m p (nat len) = bytes_at m p (4 + (4 + nat (len - 8)))" by (rule arg_cong)
    also have "\<dots> = bytes_at m p 4 @ bytes_at m (p + 4) 4 @ bytes_at m (p + 8) (nat (len - 8))"
      unfolding bytes_at_append by (simp add: add.assoc)
    finally have l: "le_sum (bytes_at m p (nat len)) = le_sum (bytes_at m p 4) + le_sum (bytes_at m (p + 4) 4) + ?r"
      by (simp add: bytes_at_def upt_rec)
    have "oc (unat ?s2 + k + ?r) = oc (unat ?s1 + (unat (rd32 m (p + 4)) + k + ?r))"
      using oc_add_carry [of ?s1 "rd32 m (p + 4)" "k + ?r"] by (simp add: add_ac)
    also have "\<dots> = oc (unat sm + unat (rd32 m p) + (unat (rd32 m (p + 4)) + k + ?r))" by (rule oc_add_carry)
    also have "\<dots> = oc (unat sm + unat (rd32 m (p + 4)) + k + ?r + le_sum (bytes_at m p 4))"
      using oc_rd32 [of "unat sm + unat (rd32 m (p + 4)) + k + ?r" m p] by (simp add: add_ac)
    also have "\<dots> = oc (unat sm + k + ?r + le_sum (bytes_at m p 4) + le_sum (bytes_at m (p + 4) 4))"
      using oc_rd32 [of "unat sm + k + ?r + le_sum (bytes_at m p 4)" m "p + 4"] by (simp add: add_ac)
    finally have e: "oc (unat ?s2 + k + ?r) = oc (unat sm + k + le_sum (bytes_at m p (nat len)))"
      by (simp add: l add_ac)
    have "len' \<le> max (len - 8) 7 \<and> len' \<le> 7 \<and>
        oc (unat sm' + k + le_sum (bytes_at m p' (nat len'))) = oc (unat ?s2 + k + ?r)"
      by (rule 1(1) [OF True refl refl]) (use 1(2) True in \<open>simp add: chksum3_loop.simps [of m p] Let_def\<close>)
    then show ?thesis using e by auto
  next
    case False
    then show ?thesis using 1(2) by (simp add: chksum3_loop.simps)
  qed
qed

lemma chksum3_body:
  assumes "chksum3_loop m p len sm = (p', len', sm')"
  shows "chksum_tail m odd_adr (push_bit 8 (ucast (b :: u8))) p' len' (FOLD_U32T sm') =
    (of_nat (let n = unat sm + 256 * unat b + le_sum (bytes_at m p (nat len))
      in oc (if odd_adr then 256 * n else n)) :: u16)"
proof -
  note sp = chksum3_loop_spec [OF assms, of "256 * unat b"]
  let ?n = "unat sm + 256 * unat b + le_sum (bytes_at m p (nat len))"
  let ?n' = "unat (FOLD_U32T sm') + 256 * unat b + le_sum (bytes_at m p' (nat len'))"
  have "le_sum (bytes_at m p' (nat len')) \<le> 65535 * ((nat len' + 1) div 2)"
    using sum_bound(2) [of "bytes_at m p' (nat len')"] by simp
  moreover have "(nat len' + 1) div 2 \<le> 4" using sp by linarith
  moreover have "unat sm' div 65536 < 65536" "unat sm' mod 65536 < 65536"
    using unsigned_less [of sm', where 'a = nat] by (simp_all add: less_mult_imp_div_less)
  ultimately have "?n' < 4294967296" using unat_u8_less [of b] unfolding unat_fold by linarith
  moreover have n: "oc ?n' = oc ?n"
    using oc_add_cong [OF oc_unat_fold, of sm' "256 * unat b + le_sum (bytes_at m p' (nat len'))"] sp
    by (simp add: add_ac)
  moreover have "oc (256 * ?n') = oc (256 * ?n)" using n oc_mult by metis
  ultimately show ?thesis by (simp add: chksum_tail_spec Let_def)
qed

lemma chksum3_tail:
  assumes "q AND 3 \<noteq> 0 \<and> l > 1 \<Longrightarrow> st = (q + 2, l - 2, ucast (rd16 m q))"
    and "\<not> (q AND 3 \<noteq> 0 \<and> l > 1) \<Longrightarrow> st = (q, l, 0)"
    and "st = (ps, len, sm)" "chksum3_loop m ps len sm = (p', len', sm')"
  shows "chksum_tail m odd_adr (push_bit 8 (ucast (b :: u8))) p' len' (FOLD_U32T sm') =
    (of_nat (let n = 256 * unat b + le_sum (bytes_at m q (nat l)) in oc (if odd_adr then 256 * n else n)) :: u16)"
proof -
  have "unat sm + le_sum (bytes_at m ps (nat len)) = le_sum (bytes_at m q (nat l))"
  proof (cases "q AND 3 \<noteq> 0 \<and> l > 1")
    case True
    then have "l > 1" by simp
    then have "nat l = Suc (Suc (nat (l - 2)))" by simp
    then show ?thesis using True assms(1,3) by (simp add: bytes_at_2 unat_rd16)
  next
    case False
    then show ?thesis using assms(2,3) by simp
  qed
  then have e: "unat sm + 256 * unat b + le_sum (bytes_at m ps (nat len)) = 256 * unat b + le_sum (bytes_at m q (nat l))"
    by simp
  show ?thesis using chksum3_body [OF assms(4), of odd_adr b] unfolding e .
qed

lemma chksum3_oc: "lwip_standard_chksum3 m p len = of_nat (oc (256 * inet_sum (bytes_at m p (nat len))))"
proof -
  define o1 where "o1 \<longleftrightarrow> p AND 1 \<noteq> 0 \<and> len > 0"
  define b where "b = (if o1 then m p else 0)"
  define q where "q = (if o1 then p + 1 else p)"
  define l where "l = (if o1 then len - 1 else len)"
  obtain ps l1 sm where st: "(if q AND 3 \<noteq> 0 \<and> l > 1 then (q + 2, l - 2, ucast (rd16 m q)) else (q, l, 0 :: u32)) = (ps, l1, sm)"
    by (metis prod_cases3)
  obtain p' l' sm' where r: "chksum3_loop m ps l1 sm = (p', l', sm')" by (metis prod_cases3)
  have "(if o1 then (push_bit 8 (ucast (m p)) :: u16, p + 1, len - 1) else (0, p, len)) =
      (push_bit 8 (ucast b) :: u16, q, l)" by (simp add: b_def q_def l_def)
  then have "lwip_standard_chksum3 m p len =
      chksum_tail m (p AND 1 \<noteq> 0) (push_bit 8 (ucast b)) p' l' (FOLD_U32T sm')"
    using st r by (simp add: lwip_standard_chksum3_def chksum_tail_def o1_def [symmetric] Let_def)
  also have "\<dots> = of_nat (let n = 256 * unat b + le_sum (bytes_at m q (nat l)) in oc (if p AND 1 \<noteq> 0 then 256 * n else n))"
    by (rule chksum3_tail [OF _ _ st r]) simp_all
  also have "\<dots> = of_nat (oc (256 * inet_sum (bytes_at m p (nat len))))"
  proof (cases o1)
    case True
    then show ?thesis by (simp add: o1_def b_def q_def l_def odd_first [of len] sum_Cons Let_def)
  next
    case False
    then have "p AND 1 = 0 \<or> nat len = 0" by (auto simp: o1_def)
    with False show ?thesis by (auto simp: b_def q_def l_def oc_le_sum Let_def)
  qed
  finally show ?thesis .
qed

section \<open>Chains of packet buffers\<close>

text \<open>The data of one packet buffer, and of a chain of them.\<close>

definition pdata :: "lw \<Rightarrow> ptr \<Rightarrow> u8 list" where
  "pdata s q = bytes_at (bytes s) (pb_payload s q) (unat (pb_len s q))"

definition cdata :: "lw \<Rightarrow> ptr list \<Rightarrow> u8 list" where
  "cdata s ps = concat (map (pdata s) ps)"

lemma cdata_simps [simp]: "cdata s [] = []" "cdata s (q # ps) = pdata s q @ cdata s ps"
  by (simp_all add: cdata_def)

lemma length_pdata [simp]: "length (pdata s q) = unat (pb_len s q)"
  by (simp add: pdata_def)

text \<open>The state of the chain loop after the bytes \<open>D\<close>.\<close>

definition chk_inv :: "u8 list \<Rightarrow> u32 \<times> u8 \<Rightarrow> bool" where
  "chk_inv D st \<longleftrightarrow> unat (fst st) = oc ((if odd (length D) then 1 else 256) * inet_sum D) \<and>
     snd st = (if odd (length D) then 1 else 0)"

lemma chk_inv_step:
  assumes "chk_inv D st"
  shows "chk_inv (D @ bytes_at m p (unat l)) (chksum_step (lwip_standard_chksum1 m p l) l st)"
proof -
  let ?x = "bytes_at m p (unat l)"
  obtain acc sw where st: "st = (acc, sw)" by fastforce
  let ?k = "if odd (length D) then 1 else 256 :: nat"
  have a: "unat acc = oc (?k * inet_sum D)" "sw = (if odd (length D) then 1 else 0)"
    using assms by (simp_all add: chk_inv_def st)
  have c: "unat (lwip_standard_chksum1 m p l) = oc (256 * inet_sum ?x)"
    using oc_le [of "256 * inet_sum ?x"] by (simp add: chksum1_oc htons_of_nat_oc unat_of_nat_u16)
  define acc1 where "acc1 = acc + ucast (lwip_standard_chksum1 m p l)"
  have u: "unat acc1 = oc (?k * inet_sum D) + oc (256 * inet_sum ?x)"
    unfolding acc1_def using a(1) c oc_le [of "?k * inet_sum D"] oc_le [of "256 * inet_sum ?x"]
    by (simp add: unat_add_u32)
  then have "unat (FOLD_U32T acc1) = oc (oc (?k * inet_sum D) + oc (256 * inet_sum ?x))"
    using oc_le [of "?k * inet_sum D"] oc_le [of "256 * inet_sum ?x"] by (simp add: fold_once)
  also have "\<dots> = oc (?k * inet_sum D + 256 * inet_sum ?x)" by (rule oc_add_both)
  also have "\<dots> = oc (?k * inet_sum (D @ ?x))"
    using oc_add_cong [OF oc_le_sum [of ?x], of "inet_sum D"]
    by (simp add: sum_append distrib_left add.commute)
  finally have f: "unat (FOLD_U32T acc1) = oc (?k * inet_sum (D @ ?x))" .
  have l2: "l mod 2 \<noteq> 0 \<longleftrightarrow> odd (unat l)"
    by (simp add: word_unat_eq_iff unat_mod even_iff_mod_2_eq_zero)
  show ?thesis
  proof (cases "odd (unat l)")
    case True
    have "unat (SWAP_BYTES_IN_WORD (FOLD_U32T acc1)) = oc (256 * (?k * inet_sum (D @ ?x)))"
      using f oc_le [of "?k * inet_sum (D @ ?x)"] by (subst unat_SWAP) (simp_all add: oc_mult)
    then show ?thesis using True l2 a(2)
      by (simp add: chksum_step_def chk_inv_def st acc1_def [symmetric] Let_def)
  next
    case False
    then show ?thesis using f l2 a(2)
      by (simp add: chksum_step_def chk_inv_def st acc1_def [symmetric] Let_def)
  qed
qed

lemma chk_inv_unswap: "chk_inv D st \<Longrightarrow> unat (unswap st) = oc (256 * inet_sum D)"
  using oc_le [of "inet_sum D"] by (cases st) (auto simp: chk_inv_def unswap_def unat_SWAP oc_mult)

lemma chksum_pbuf_loop_spec:
  assumes "chain (pb_next s) q ps" "chk_inv D st"
  shows "\<exists>st'. chksum_pbuf_loop s q st = Some st' \<and> chk_inv (D @ cdata s ps) st'"
  using assms
proof (induction ps arbitrary: q D st)
  case Nil
  then show ?case by (simp add: chksum_pbuf_loop.simps)
next
  case (Cons x ps)
  then have "q = x" "x \<noteq> NULL" "chain (pb_next s) (pb_next s x) ps" by simp_all
  with Cons.IH [OF this(3) chk_inv_step [OF Cons.prems(2), of "bytes s" "pb_payload s x" "pb_len s x"]]
  show ?case by (simp add: chksum_pbuf_loop.simps [of s x] pdata_def)
qed

lemma unswap_step:
  assumes "chk_inv D st"
  shows "unswap (chksum_step c l st) = unswap (chksum_step c l' st)"
proof -
  obtain acc sw where st: "st = (acc, sw)" by fastforce
  have sw: "sw = 0 \<or> sw = 1" and "unat acc \<le> 65535"
    using assms oc_le by (auto simp: chk_inv_def st)
  then have "unat (acc + ucast c) \<le> 131070" using unat_u16_less [of c] by (simp add: unat_add_u32 del: unat_u16_less)
  then have f: "unat (FOLD_U32T (acc + ucast c)) \<le> 65535" by (simp add: fold_once oc_le)
  then have s1: "unat (SWAP_BYTES_IN_WORD (FOLD_U32T (acc + ucast c))) = oc (256 * unat (FOLD_U32T (acc + ucast c)))"
    by (intro unat_SWAP) simp
  have "unat (SWAP_BYTES_IN_WORD (SWAP_BYTES_IN_WORD (FOLD_U32T (acc + ucast c)))) =
      oc (256 * unat (SWAP_BYTES_IN_WORD (FOLD_U32T (acc + ucast c))))"
    using s1 oc_le [of "256 * unat (FOLD_U32T (acc + ucast c))"] by (intro unat_SWAP) linarith
  then have "unat (SWAP_BYTES_IN_WORD (SWAP_BYTES_IN_WORD (FOLD_U32T (acc + ucast c)))) = unat (FOLD_U32T (acc + ucast c))"
    using s1 f by (simp add: oc_mult oc_id)
  then have "SWAP_BYTES_IN_WORD (SWAP_BYTES_IN_WORD (FOLD_U32T (acc + ucast c))) = FOLD_U32T (acc + ucast c)"
    by (simp add: word_unat_eq_iff)
  then show ?thesis using sw by (auto simp: chksum_step_def unswap_def st Let_def)
qed

lemma chksum_partial_loop_spec:
  assumes "chain (pb_next s) q ps" "chk_inv D st"
  shows "\<exists>st'. chksum_partial_loop s q n st = Some st' \<and>
    unat (unswap st') = oc (256 * inet_sum (D @ take (unat n) (cdata s ps)))"
  using assms
proof (induction ps arbitrary: q D st n)
  case Nil
  then show ?case by (simp add: chksum_partial_loop.simps chk_inv_unswap)
next
  case (Cons x ps)
  then have x: "q = x" "x \<noteq> NULL" "chain (pb_next s) (pb_next s x) ps" by simp_all
  let ?l = "pb_len s x" and ?p = "pb_payload s x"
  consider (none) "n = 0" | (part) "n \<noteq> 0" "?l > n" | (all) "n \<noteq> 0" "?l \<le> n" by fastforce
  then show ?case
  proof cases
    case none
    then show ?thesis using Cons.prems(2) by (simp add: chksum_partial_loop.simps [of s q] chk_inv_unswap)
  next
    case part
    let ?c = "lwip_standard_chksum1 (bytes s) ?p n"
    have "take (unat n) (cdata s (x # ps)) = bytes_at (bytes s) ?p (unat n)"
      using part(2) by (simp add: pdata_def bytes_at_def take_map word_less_nat_alt)
    moreover have "unat (unswap (chksum_step ?c ?l st)) = oc (256 * inet_sum (D @ bytes_at (bytes s) ?p (unat n)))"
      using chk_inv_unswap [OF chk_inv_step [OF Cons.prems(2), of "bytes s" ?p n]] unswap_step [OF Cons.prems(2), of ?c ?l n]
      by simp
    ultimately show ?thesis using x part
      by (simp add: chksum_partial_loop.simps [of s x] chksum_partial_loop.simps [of s "pb_next s x" 0] word_gt_0)
  next
    case all
    have "unat (n - ?l) = unat n - unat ?l" using all(2) by (rule unat_diff_u16)
    then have "take (unat n) (cdata s (x # ps)) = pdata s x @ take (unat (n - ?l)) (cdata s ps)"
      using all(2) by (simp add: word_le_nat_alt)
    with Cons.IH [OF x(3) chk_inv_step [OF Cons.prems(2), of "bytes s" ?p ?l], of "n - ?l"] x all show ?thesis
      by (simp add: chksum_partial_loop.simps [of s x] pdata_def word_gt_0 not_less [symmetric] Let_def del: not_less)
  qed
qed

text \<open>The bytes of the pseudo header of RFC 793 as they go over the wire.\<close>

definition word_bytes :: "u32 \<Rightarrow> u8 list" where
  "word_bytes w = [ucast w, ucast (drop_bit 8 w), ucast (drop_bit 16 w), ucast (drop_bit 24 w)]"

definition pseudo_bytes :: "u32 \<Rightarrow> u32 \<Rightarrow> u8 \<Rightarrow> u16 \<Rightarrow> u8 list" where
  "pseudo_bytes src dest proto proto_len =
     word_bytes src @ word_bytes dest @ [0, proto, ucast (drop_bit 8 proto_len), ucast proto_len]"

lemma low_half: "unat (w AND 0xffff :: u32) = unat w mod 65536"
  by (simp only: mask_consts take_bit_eq_mask [symmetric] unsigned_take_bit_eq) (simp add: take_bit_eq_mod)

lemma unat_drop_bit_u32: "unat (drop_bit k (w :: u32)) = unat w div 2 ^ k"
  by (subst unat_drop_bit_eq) (rule drop_bit_eq_div)

lemma unat_high_byte: "unat (ucast (drop_bit 8 (x :: u16)) :: u8) = unat x div 256"
proof -
  have "unat (drop_bit 8 x) = unat x div 256" by (subst unat_drop_bit_eq) (simp add: drop_bit_eq_div)
  moreover have "unat x div 256 < 256" using unat_u16_less [of x] by (simp add: less_mult_imp_div_less del: unat_u16_less)
  ultimately show ?thesis by (simp add: unat_ucast_narrow)
qed

lemma inet_sum_word_bytes: "le_sum (word_bytes w @ r) = unat w mod 65536 + unat w div 65536 + le_sum r"
proof -
  let ?n = "unat w"
  have "?n mod 65536 = ?n mod 256 + 256 * (?n div 256 mod 256)"
    using mod_mult2_eq [of ?n 256 256] by simp
  moreover have "?n div 65536 = ?n div 65536 mod 256 + 256 * (?n div 16777216)"
    using mod_mult_div_eq [of "?n div 65536" 256] by (simp add: div_mult2_eq [symmetric])
  moreover have "?n div 16777216 < 256" using unsigned_less [of w, where 'a = nat] by (simp add: less_mult_imp_div_less)
  ultimately show ?thesis by (simp add: word_bytes_def unat_ucast_narrow unat_drop_bit_u32)
qed

lemma pseudo_header_oc:
  assumes "unat acc = oc (256 * n)"
  shows "unat (pseudo_header acc src dest proto proto_len) =
    oc (256 * (inet_sum (pseudo_bytes src dest proto proto_len) + n))"
proof -
  let ?h = "\<lambda>w. unat w mod 65536 + unat w div 65536"
  let ?t = "unat (lwip_htons (ucast proto)) + unat (lwip_htons proto_len)"
  have hb: "unat (w :: u32) mod 65536 < 65536" "unat w div 65536 < 65536" for w
    using unsigned_less [of w, where 'a = nat] by (simp_all add: less_mult_imp_div_less)
  have dm: "unat (drop_bit 16 (w :: u32)) mod 65536 = unat w div 65536" for w
    using hb(2) [of w] by (simp add: unat_drop_bit_u32)
  have "unat (pseudo_header acc src dest proto proto_len) = oc (unat acc + ?h src + ?h dest + ?t)"
    unfolding pseudo_header_def Let_def fold_twice
    using hb [of src] hb [of dest] unat_u16_less [of "lwip_htons (ucast proto)"] unat_u16_less [of "lwip_htons proto_len"]
      oc_le [of "256 * n"] assms
    by (simp add: unat_add_u32 low_half dm add.assoc del: unat_u16_less)
  also have "?t = le_sum [0, proto] + le_sum [ucast (drop_bit 8 proto_len), ucast proto_len]"
    by (simp add: unat_htons unat_high_byte unat_ucast_narrow(3) [of proto_len] add.commute)
  also have "unat acc + ?h src + ?h dest + (le_sum [0, proto] + le_sum [ucast (drop_bit 8 proto_len), ucast proto_len]) =
      oc (256 * n) + le_sum (pseudo_bytes src dest proto proto_len)"
    by (simp add: pseudo_bytes_def inet_sum_word_bytes assms)
  also have "oc \<dots> = oc (256 * n + le_sum (pseudo_bytes src dest proto proto_len))" by (rule oc_add_left)
  also have "\<dots> = oc (le_sum (pseudo_bytes src dest proto proto_len) + 256 * n)" by (simp only: add.commute)
  also have "\<dots> = oc (256 * (inet_sum (pseudo_bytes src dest proto proto_len) + n))"
    using oc_add_cong [OF oc_le_sum] by (simp add: distrib_left)
  finally show ?thesis .
qed

lemma not_low: "unat a \<le> 65535 \<Longrightarrow> ucast (NOT (a AND 0xffff) :: u32) = (NOT (of_nat (unat a)) :: u16)"
proof -
  assume "unat a \<le> 65535"
  then have "a AND 0xffff = a" by (simp add: word_unat_eq_iff low_half)
  moreover have "ucast (NOT a) = (NOT (ucast a) :: u16)" by (rule bit_word_eqI) (simp add: bit_simps)
  ultimately show ?thesis by simp
qed

text \<open>The checksum field for the bytes \<open>D\<close>, as the processor stores it.\<close>

definition chksum_field :: "u8 list \<Rightarrow> u16" where
  "chksum_field D = NOT (lwip_htons (of_nat (oc (inet_sum D))))"

lemma chksum_field_eq:
  assumes "unat a = oc (256 * inet_sum D)"
  shows "ucast (NOT (a AND 0xffff) :: u32) = chksum_field D"
  using not_low [of a] oc_le assms by (simp add: chksum_field_def htons_of_nat_oc)

lemma inet_chksum_eq: "inet_chksum p len s = chksum_field (bytes_at (bytes s) p (unat len))"
  by (simp add: inet_chksum_def chksum_field_def chksum1_oc)

lemma chksum_field_le: "chksum_field D = NOT (of_nat (oc (le_sum D)))"
  by (simp add: chksum_field_def htons_of_nat_oc oc_le_sum)

lemma le_sum_update:
  assumes "even k" "Suc k < length D" "D ! k = 0" "D ! Suc k = 0"
  shows "le_sum (D[k := a, Suc k := b]) = le_sum D + (unat a + 256 * unat b)"
  using assms
proof (induction D arbitrary: k rule: le_sum.induct)
  case (3 x y r)
  show ?case
  proof (cases k)
    case 0
    then show ?thesis using 3(4,5) by simp
  next
    case (Suc j)
    then obtain i where "k = Suc (Suc i)" using 3(2) by (cases j) auto
    then show ?thesis using 3 by simp
  qed
qed simp_all

lemma oc_complement: "oc (n + (65535 - oc n)) = 65535"
proof (cases n)
  case (Suc j)
  define q r where "q = j div 65535" and "r = j mod 65535"
  have "j = r + q * 65535" "r < 65535" by (simp_all add: q_def r_def)
  moreover have "oc n = Suc r" using Suc by (simp add: oc_def r_def)
  ultimately have "n + (65535 - oc n) = 65535 * Suc q" using Suc by simp
  then show ?thesis by (intro oc_unique [symmetric]) simp_all
qed (simp add: oc_id)

lemma unat_not_u16: "unat (NOT (x :: u16)) = 65535 - unat x"
proof -
  have "NOT x = 0xffff - x" by (simp add: not_eq_complement)
  moreover have "x \<le> 0xffff" using unat_u16_less [of x] by (simp add: word_le_nat_alt del: unat_u16_less)
  ultimately show ?thesis by (simp add: unat_sub)
qed

section \<open>Promises of the interface\<close>

text \<open>
  C16: the three versions of \<open>lwip_standard_chksum\<close> compute the same sum for every buffer
  at every address: the ones' complement sum of its big-endian 16-bit words, in the byte
  order of the processor. Version 2 does so for all lengths up to 0x20000, as its comment
  promises, and version 3 for all lengths.
\<close>

theorem chksum_versions_agree:
  "lwip_standard_chksum1 m p len = lwip_htons (of_nat (oc (inet_sum (bytes_at m p (unat len))))) \<and>
   (n \<le> 0x20000 \<longrightarrow>
     lwip_standard_chksum2 m p (int n) = lwip_htons (of_nat (oc (inet_sum (bytes_at m p n))))) \<and>
   lwip_standard_chksum3 m p (int n) = lwip_htons (of_nat (oc (inet_sum (bytes_at m p n))))"
  by (simp add: chksum1_oc chksum2_oc chksum3_oc htons_of_nat_oc)

theorem chksum_versions_agree_witness:
  "lwip_standard_chksum2 (\<lambda>a. ucast a) 0x101 3 = lwip_standard_chksum3 (\<lambda>a. ucast a) 0x101 3 \<and>
   lwip_standard_chksum1 (\<lambda>a. ucast a) 0x101 3 = 0x0204"
proof -
  have b: "bytes_at (\<lambda>a. ucast a) 0x101 3 = [1, 2, 3 :: u8]" by (simp add: bytes_at_def upt_rec)
  show ?thesis
    using chksum_versions_agree [of "\<lambda>a. ucast a" "0x101" 3 3] b by (simp add: oc_def lwip_htons_def)
qed

lemma inet_chksum_pbuf_eqs:
  assumes "chain (pb_next s) p ps"
  shows "inet_chksum_pbuf p s = Some (chksum_field (cdata s ps))"
    "inet_chksum_pseudo p src dest proto proto_len s =
      Some (chksum_field (pseudo_bytes src dest proto proto_len @ cdata s ps))"
    "inet_chksum_pseudo_partial p src dest proto proto_len n s =
      Some (chksum_field (pseudo_bytes src dest proto proto_len @ take (unat n) (cdata s ps)))"
proof -
  have i: "chk_inv [] (0, 0)" by (simp add: chk_inv_def)
  have ev: "even (length (pseudo_bytes src dest proto proto_len))" by (simp add: pseudo_bytes_def word_bytes_def)
  obtain st where st: "chksum_pbuf_loop s p (0, 0) = Some st" "chk_inv (cdata s ps) st"
    using chksum_pbuf_loop_spec [OF assms i] by auto
  obtain st' where st': "chksum_partial_loop s p n (0, 0) = Some st'"
    "unat (unswap st') = oc (256 * inet_sum (take (unat n) (cdata s ps)))"
    using chksum_partial_loop_spec [OF assms i, of n] by auto
  note u = chk_inv_unswap [OF st(2)]
  note f = chksum_field_eq [OF u] chksum_field_eq [OF pseudo_header_oc [OF u, of src dest proto proto_len, folded sum_append(1) [OF ev]]]
    chksum_field_eq [OF pseudo_header_oc [OF st'(2), of src dest proto proto_len, folded sum_append(1) [OF ev]]]
  show "inet_chksum_pbuf p s = Some (chksum_field (cdata s ps))"
    "inet_chksum_pseudo p src dest proto proto_len s = Some (chksum_field (pseudo_bytes src dest proto proto_len @ cdata s ps))"
    "inet_chksum_pseudo_partial p src dest proto proto_len n s =
      Some (chksum_field (pseudo_bytes src dest proto proto_len @ take (unat n) (cdata s ps)))"
    unfolding inet_chksum_pbuf_def inet_chksum_pseudo_def inet_chksum_pseudo_partial_def st(1) st'(1)
    by (simp_all only: Option.bind.bind_lunit f simp_thms)
qed

text \<open>
  C17: for a chain of packet buffers of any lengths, odd ones included, the checksum
  functions return the checksum of the concatenated data; with the pseudo header in front of
  it, and in the partial version of the first \<open>n\<close> bytes only.
\<close>

theorem inet_chksum_pbuf_concat:
  assumes "chain (pb_next s) p ps"
  shows "inet_chksum_pbuf p s = Some (chksum_field (cdata s ps)) \<and>
    inet_chksum_pseudo p src dest proto proto_len s =
      Some (chksum_field (pseudo_bytes src dest proto proto_len @ cdata s ps)) \<and>
    inet_chksum_pseudo_partial p src dest proto proto_len n s =
      Some (chksum_field (pseudo_bytes src dest proto proto_len @ take (unat n) (cdata s ps)))"
  using inet_chksum_pbuf_eqs [OF assms] by simp

definition smp_pb :: lw where
  "smp_pb = undefined\<lparr>bytes := (\<lambda>a. ucast a),
     pb_next := (\<lambda>_. NULL)(0x500 := 0x600), pb_payload := (\<lambda>_. 0)(0x500 := 0x10, 0x600 := 0x30),
     pb_len := (\<lambda>_. 0)(0x500 := 3, 0x600 := 2), pb_tot_len := (\<lambda>_. 0)(0x500 := 5, 0x600 := 2)\<rparr>"

lemma smp_pb_chain: "chain (pb_next smp_pb) 0x500 [0x500, 0x600]"
  by (simp add: smp_pb_def)

lemma smp_pb_data: "cdata smp_pb [0x500, 0x600] = [0x10, 0x11, 0x12, 0x30, 0x31]"
  by (simp add: pdata_def smp_pb_def bytes_at_def upt_rec)

theorem inet_chksum_pbuf_concat_witness:
  "inet_chksum_pbuf 0x500 smp_pb = Some (chksum_field [0x10, 0x11, 0x12, 0x30, 0x31])"
  using inet_chksum_pbuf_concat [OF smp_pb_chain] unfolding smp_pb_data by blast

text \<open>
  A packet that carries its checksum passes the receiver's test. If the 16-bit field at
  an even offset holds the checksum that \<open>inet_chksum\<close> computed over the packet with the
  field cleared, \<open>inet_chksum\<close> over the packet is 0.
\<close>

theorem inet_chksum_verifies:
  assumes "even k" "k + 2 \<le> unat len" and "bytes s (p + of_nat k) = 0" "bytes s (p + of_nat k + 1) = 0"
    and "bytes_at (bytes s') p (unat len) =
      (bytes_at (bytes s) p (unat len))[k := ucast c, Suc k := ucast (drop_bit 8 c)]"
    and "c = inet_chksum p len s"
  shows "inet_chksum p len s' = 0"
proof -
  let ?D = "bytes_at (bytes s) p (unat len)"
  have z: "?D ! k = 0" "?D ! Suc k = 0" using assms(2-4) by (simp_all add: add_ac)
  have c: "unat c = 65535 - oc (le_sum ?D)"
    unfolding assms(6) inet_chksum_eq chksum_field_le using oc_le [of "le_sum ?D"]
    by (simp add: unat_not_u16 unat_of_nat_u16)
  have "le_sum (bytes_at (bytes s') p (unat len)) = le_sum ?D + unat c"
    using le_sum_update [OF assms(1) _ z, of "ucast c" "ucast (drop_bit 8 c)"] assms(2,5)
    by (simp add: unat_high_byte unat_ucast_narrow(3) [of c])
  also have "\<dots> = le_sum ?D + (65535 - oc (le_sum ?D))" by (simp only: c)
  finally have "oc (le_sum (bytes_at (bytes s') p (unat len))) = 65535" by (simp only: oc_complement)
  then show ?thesis unfolding inet_chksum_eq chksum_field_le by simp
qed

theorem inet_chksum_verifies_witness:
  "\<exists>s s' :: lw. inet_chksum 0x100 4 s \<noteq> 0 \<and> inet_chksum 0x100 4 s' = 0"
proof -
  define s :: lw where "s = undefined\<lparr>bytes := (\<lambda>a. 0)(0x100 := 0x45)\<rparr>"
  define c where "c = inet_chksum 0x100 4 s"
  define s' where "s' = s\<lparr>bytes := (bytes s)(0x102 := ucast c, 0x103 := ucast (drop_bit 8 c))\<rparr>"
  have u: "unat (4 :: u16) = 4" by simp
  have D: "bytes_at (bytes s) 0x100 4 = [0x45, 0, 0, 0]" by (simp add: s_def bytes_at_def upt_rec)
  have "bytes_at (bytes s') 0x100 4 = [0x45, 0, ucast c, ucast (drop_bit 8 c)]"
    by (simp add: s'_def s_def bytes_at_def upt_rec)
  then have "bytes_at (bytes s') 0x100 (unat (4 :: u16)) =
      (bytes_at (bytes s) 0x100 (unat (4 :: u16)))[2 := ucast c, Suc 2 := ucast (drop_bit 8 c)]"
    unfolding u D by simp
  from inet_chksum_verifies [OF _ _ _ _ this c_def] have "inet_chksum 0x100 4 s' = 0" by (simp add: s_def)
  moreover have "inet_chksum 0x100 4 s \<noteq> 0"
    unfolding inet_chksum_eq u D by (simp add: chksum_field_le oc_id)
  ultimately show ?thesis by blast
qed

end
