(* ===== verification/LW_Memp.thy ===== *)
theory LW_Memp
  imports LW_State Pool
begin

text \<open>
  The fixed-size element pools of \<open>memp.c\<close>. Every pool keeps its free elements in a list
  that is linked through the elements; \<open>memp_tab\<close> holds the heads. The element counts and
  sizes (\<open>memp_num\<close>, \<open>memp_sizes\<close>) come from \<open>memp_std.h\<close> and the sizes of the structures
  there; they are arguments of \<open>memp_init\<close>. A pool is named by its position in that file;
  the positions of the pools used here are those of the configuration with UDP, TCP, IP
  reassembly and fragmentation, the netconn interface, IGMP, timers and DNS, and without
  SNMP, raw sockets and ARP queues.
\<close>

section \<open>Definitions\<close>

abbreviation (input) MEMP_FRAG_PBUF :: nat where "MEMP_FRAG_PBUF \<equiv> 5"
abbreviation (input) MEMP_PBUF :: nat where "MEMP_PBUF \<equiv> 13"
abbreviation (input) MEMP_PBUF_POOL :: nat where "MEMP_PBUF_POOL \<equiv> 14"

text \<open>The inner and the outer loop of \<open>memp_init\<close>.\<close>

fun memp_init_pool :: "nat \<Rightarrow> u16 \<Rightarrow> nat \<Rightarrow> ptr \<times> lw \<Rightarrow> ptr \<times> lw" where
  "memp_init_pool 0 sz i (memp, s) = (memp, s)"
| "memp_init_pool (Suc n) sz i (memp, s) =
     (let s = s\<lparr>memp_next := (memp_next s)(memp := memp_tab s ! i)\<rparr>;
          s = s\<lparr>memp_tab := (memp_tab s)[i := memp]\<rparr>
      in memp_init_pool n sz i (memp + ucast sz, s))"

fun memp_init_loop :: "(u16 \<times> u16) list \<Rightarrow> nat \<Rightarrow> ptr \<times> lw \<Rightarrow> ptr \<times> lw" where
  "memp_init_loop [] i st = st"
| "memp_init_loop ((num, sz) # ps) i (memp, s) =
     (let s = s\<lparr>memp_tab := (memp_tab s)[i := NULL]\<rparr>
      in memp_init_loop ps (Suc i) (memp_init_pool (unat num) sz i (memp, s)))"

definition memp_init :: "(u16 \<times> u16) list \<Rightarrow> ptr \<Rightarrow> lw \<Rightarrow> lw" where
  "memp_init pools memp_memory s =
     snd (memp_init_loop pools 0 (LWIP_MEM_ALIGN memp_memory, s\<lparr>memp_tab := replicate (length pools) NULL\<rparr>))"

definition memp_malloc :: "nat \<Rightarrow> lw \<Rightarrow> ptr \<times> lw" where
  "memp_malloc type s =
     (if \<not> type < length (memp_tab s) then (NULL, s)
      else
        let memp = memp_tab s ! type in
        if memp \<noteq> NULL then (memp, s\<lparr>memp_tab := (memp_tab s)[type := memp_next s memp]\<rparr>)
        else (memp, s))"

text \<open>An index outside of \<open>memp_tab\<close> has no result.\<close>

definition memp_free :: "nat \<Rightarrow> ptr \<Rightarrow> lw \<Rightarrow> lw option" where
  "memp_free type mem s =
     (if mem = NULL then Some s
      else if type < length (memp_tab s) then
        let s = s\<lparr>memp_next := (memp_next s)(mem := memp_tab s ! type)\<rparr>
        in Some (s\<lparr>memp_tab := (memp_tab s)[type := mem]\<rparr>)
      else None)"

section \<open>A pool refines a stack of free elements\<close>

definition mrep :: "nat \<Rightarrow> ptr set \<Rightarrow> lw \<Rightarrow> ptr list \<Rightarrow> bool" where
  "mrep t B s F \<longleftrightarrow> t < length (memp_tab s) \<and> set F \<subseteq> B \<and> NULL \<notin> B \<and>
     chain (memp_next s) (memp_tab s ! t) F"

lemma mrep_malloc_empty: "mrep t B s [] \<Longrightarrow> memp_malloc t s = (NULL, s)"
  by (simp add: mrep_def memp_malloc_def)

lemma mrep_malloc:
  assumes "mrep t B s (x # F)"
  shows "memp_malloc t s = (x, s\<lparr>memp_tab := (memp_tab s)[t := memp_next s x]\<rparr>)"
    and "mrep t B (s\<lparr>memp_tab := (memp_tab s)[t := memp_next s x]\<rparr>) F"
  using assms by (auto simp: mrep_def memp_malloc_def Let_def)

lemma mrep_free:
  assumes "mrep t B s F" and "x \<in> B" "x \<notin> set F"
  shows "memp_free t x s =
      Some (s\<lparr>memp_next := (memp_next s)(x := memp_tab s ! t), memp_tab := (memp_tab s)[t := x]\<rparr>)"
    and "mrep t B (s\<lparr>memp_next := (memp_next s)(x := memp_tab s ! t), memp_tab := (memp_tab s)[t := x]\<rparr>) (x # F)"
proof -
  have "x \<noteq> NULL" using assms(1,2) by (auto simp: mrep_def)
  then show "memp_free t x s =
      Some (s\<lparr>memp_next := (memp_next s)(x := memp_tab s ! t), memp_tab := (memp_tab s)[t := x]\<rparr>)"
    "mrep t B (s\<lparr>memp_next := (memp_next s)(x := memp_tab s ! t), memp_tab := (memp_tab s)[t := x]\<rparr>) (x # F)"
    using assms by (auto simp: mrep_def memp_free_def Let_def heap_simps)
qed

interpretation memp: block_pool B "mrep t B"
  "\<lambda>s. case memp_malloc t s of (p, s') \<Rightarrow> Some (if p = NULL then None else Some p, s')" "memp_free t"
  for t :: nat and B :: "ptr set"
proof
  fix s F x
  show "distinct F \<and> set F \<subseteq> B" if "mrep t B s F"
    using that chain_distinct by (auto simp: mrep_def)
  show "\<exists>s'. (case memp_malloc t s of (p, s') \<Rightarrow> Some (if p = NULL then None else Some p, s')) = Some (None, s') \<and>
      mrep t B s' []" if "mrep t B s []"
    using that by (simp add: mrep_malloc_empty)
  show "\<exists>s'. (case memp_malloc t s of (p, s') \<Rightarrow> Some (if p = NULL then None else Some p, s')) = Some (Some x, s') \<and>
      mrep t B s' F" if "mrep t B s (x # F)"
  proof -
    have "x \<noteq> NULL" using that by (auto simp: mrep_def)
    then show ?thesis using mrep_malloc [OF that] by simp
  qed
  show "\<exists>s'. memp_free t x s = Some s' \<and> mrep t B s' (x # F)" if "mrep t B s F" "x \<in> B" "x \<notin> set F"
    using mrep_free [OF that] by blast
qed

section \<open>Initialisation\<close>

text \<open>The elements of the pools in the order of the memory.\<close>

definition elems :: "ptr \<Rightarrow> nat \<Rightarrow> nat \<Rightarrow> ptr list" where
  "elems a sz n = map (\<lambda>k. a + of_nat (k * sz)) [0..<n]"

lemma elems_Suc: "elems a sz (Suc n) = a # elems (a + of_nat sz) sz n"
proof -
  have "elems a sz (Suc n) = map (\<lambda>k. a + of_nat (k * sz)) (0 # map Suc [0..<n])"
    by (simp add: elems_def map_Suc_upt upt_conv_Cons [of 0 "Suc n"] del: upt_Suc)
  then show ?thesis by (simp add: elems_def comp_def algebra_simps)
qed

fun pools_at :: "ptr \<Rightarrow> (u16 \<times> u16) list \<Rightarrow> ptr list list" where
  "pools_at a [] = []"
| "pools_at a ((num, sz) # ps) = elems a (unat sz) (unat num) # pools_at (a + of_nat (unat num * unat sz)) ps"

definition pool_bytes :: "(u16 \<times> u16) list \<Rightarrow> nat" where
  "pool_bytes ps = (\<Sum>(num, sz)\<leftarrow>ps. unat num * unat sz)"

lemma memp_init_pool_spec:
  assumes "chain (memp_next s) (memp_tab s ! i) F" "i < length (memp_tab s)"
    and "distinct (elems a (unat sz) n)" "NULL \<notin> set (elems a (unat sz) n)"
      "set (elems a (unat sz) n) \<inter> set F = {}"
  shows "\<exists>L t. memp_init_pool n sz i (a, s) = (a + of_nat (n * unat sz), s\<lparr>memp_next := L, memp_tab := (memp_tab s)[i := t]\<rparr>) \<and>
    chain L t (rev (elems a (unat sz) n) @ F) \<and>
    (\<forall>x. x \<notin> set (elems a (unat sz) n) \<longrightarrow> L x = memp_next s x)"
  using assms
proof (induction n arbitrary: a s F)
  case 0
  then show ?case by (intro exI [of _ "memp_next s"] exI [of _ "memp_tab s ! i"]) (simp add: elems_def)
next
  case (Suc n)
  let ?s = "s\<lparr>memp_next := (memp_next s)(a := memp_tab s ! i), memp_tab := (memp_tab s)[i := a]\<rparr>"
  have "chain (memp_next ?s) (memp_tab ?s ! i) (a # F)"
    using Suc.prems by (auto simp: elems_Suc heap_simps)
  from Suc.IH [OF this, of "a + of_nat (unat sz)"] Suc.prems
  obtain L t where "memp_init_pool n sz i (a + of_nat (unat sz), ?s) =
      (a + of_nat (unat sz) + of_nat (n * unat sz), ?s\<lparr>memp_next := L, memp_tab := (memp_tab ?s)[i := t]\<rparr>)"
    "chain L t (rev (elems (a + of_nat (unat sz)) (unat sz) n) @ a # F)"
    "\<forall>x. x \<notin> set (elems (a + of_nat (unat sz)) (unat sz) n) \<longrightarrow> L x = memp_next ?s x"
    by (auto simp: elems_Suc)
  then show ?case by (intro exI [of _ L] exI [of _ t]) (auto simp: elems_Suc algebra_simps)
qed

lemma pool_bytes_simps [simp]: "pool_bytes [] = 0" "pool_bytes ((n, z) # ps) = unat n * unat z + pool_bytes ps"
  by (simp_all add: pool_bytes_def)

lemma unat_elem:
  assumes "unat (a :: ptr) + n * z < 4294967296" "k \<le> n"
  shows "unat (a + of_nat (k * z)) = unat a + k * z"
proof -
  have "k * z \<le> n * z" using assms(2) by simp
  then have k: "unat a + k * z < 4294967296" using assms(1) by linarith
  then have "unat (of_nat (k * z) :: ptr) = k * z" by (intro unat_of_nat_u32) simp
  then show ?thesis using k by (simp add: unat_word_ariths del: of_nat_mult)
qed

text \<open>An element lies inside of the memory of its pool.\<close>

lemma elems_range:
  assumes "unat a + n * z < 4294967296" "x \<in> set (elems a z n)"
  shows "unat a \<le> unat x \<and> unat x + z \<le> unat a + n * z"
proof -
  from assms(2) obtain k where k: "k < n" "x = a + of_nat (k * z)" by (auto simp: elems_def)
  have "Suc k * z \<le> n * z" using k(1) by (intro mult_le_mono1) simp
  then show ?thesis using k unat_elem [OF assms(1), of k] by simp
qed

lemma pools_range:
  assumes "unat a + pool_bytes ps < 4294967296" "i < length ps" "x \<in> set (pools_at a ps ! i)"
  shows "unat a \<le> unat x \<and> unat x + unat (snd (ps ! i)) \<le> unat a + pool_bytes ps"
  using assms
proof (induction a ps arbitrary: i rule: pools_at.induct)
  case (2 a num sz ps)
  have b: "unat a + unat num * unat sz < 4294967296" using 2(2) by simp
  show ?case
  proof (cases i)
    case 0
    then show ?thesis using elems_range [OF b] 2(4) by fastforce
  next
    case (Suc j)
    then show ?thesis using 2(1) [of j] 2(2-4) unat_elem [OF b, of "unat num"] by simp
  qed
qed simp

text \<open>Two different elements do not overlap.\<close>

lemma elems_apart:
  assumes "unat a + n * z < 4294967296" "x \<in> set (elems a z n)" "y \<in> set (elems a z n)" "x \<noteq> y"
  shows "unat x + z \<le> unat y \<or> unat y + z \<le> unat x"
proof -
  from assms(2,3) obtain k l where k: "k < n" "x = a + of_nat (k * z)" and l: "l < n" "y = a + of_nat (l * z)"
    by (auto simp: elems_def)
  have "Suc k * z \<le> l * z \<or> Suc l * z \<le> k * z"
    using assms(4) k(2) l(2) by (metis Suc_leI linorder_neqE_nat mult_le_mono1)
  then show ?thesis using k l unat_elem [OF assms(1), of k] unat_elem [OF assms(1), of l] by auto
qed

lemma pools_apart:
  assumes "unat a + pool_bytes ps < 4294967296" "i < length ps" "j < length ps"
    "x \<in> set (pools_at a ps ! i)" "y \<in> set (pools_at a ps ! j)" "(i, x) \<noteq> (j, y)"
  shows "unat x + unat (snd (ps ! i)) \<le> unat y \<or> unat y + unat (snd (ps ! j)) \<le> unat x"
  using assms
proof (induction a ps arbitrary: i j x y rule: pools_at.induct)
  case (2 a num sz ps)
  let ?b = "a + of_nat (unat num * unat sz)"
  have b: "unat a + unat num * unat sz < 4294967296" using 2(2) by simp
  have ub: "unat ?b = unat a + unat num * unat sz" using unat_elem [OF b, of "unat num"] by simp
  have lt: "unat u + unat sz \<le> unat v" if "u \<in> set (elems a (unat sz) (unat num))" "k < length ps" "v \<in> set (pools_at ?b ps ! k)"
    for u v k using elems_range [OF b that(1)] pools_range [of ?b ps k v] that(2,3) 2(2) ub by simp
  show ?case
  proof (cases i)
    case 0
    then show ?thesis using 2(3-7) lt elems_apart [OF b] by (cases j) (auto simp del: of_nat_mult)
  next
    case i: (Suc i')
    show ?thesis
    proof (cases j)
      case 0
      then show ?thesis using 2(3-7) i lt by (auto simp del: of_nat_mult)
    next
      case (Suc j')
      have "unat ?b + pool_bytes ps < 4294967296" using 2(2) ub by simp
      from 2(1) [OF this, of i' j' x y] 2(3-7) i Suc show ?thesis by simp
    qed
  qed
qed simp

lemma elems_distinct:
  assumes "unat a + n * z < 4294967296" "0 < z"
  shows "distinct (elems a z n)"
proof -
  have "k = l" if "k < n" "l < n" "a + of_nat (k * z) = a + of_nat (l * z)" for k l
    using that unat_elem [OF assms(1), of k] unat_elem [OF assms(1), of l] assms(2) by simp
  then show ?thesis by (auto simp: elems_def distinct_map inj_on_def)
qed

lemma memp_init_loop_spec:
  assumes "0 < unat a" "unat a + pool_bytes ps < 4294967296" "\<forall>(num, sz)\<in>set ps. 0 < sz"
    and "i + length ps = length (memp_tab s)"
  shows "\<exists>b L tb. memp_init_loop ps i (a, s) = (b, s\<lparr>memp_next := L, memp_tab := tb\<rparr>) \<and> length tb = length (memp_tab s) \<and>
    (\<forall>j<i. tb ! j = memp_tab s ! j) \<and> (\<forall>x. unat x < unat a \<longrightarrow> L x = memp_next s x) \<and>
    (\<forall>j<length ps. chain L (tb ! (i + j)) (rev (pools_at a ps ! j)))"
  using assms
proof (induction ps arbitrary: a i s)
  case Nil
  then show ?case by (intro exI [of _ a] exI [of _ "memp_next s"] exI [of _ "memp_tab s"]) simp
next
  case (Cons p ps)
  obtain num sz where p: "p = (num, sz)" by fastforce
  let ?E = "elems a (unat sz) (unat num)" and ?b = "a + of_nat (unat num * unat sz)"
  let ?s = "s\<lparr>memp_tab := (memp_tab s)[i := NULL]\<rparr>"
  have z: "0 < unat sz" using Cons.prems(3) p by (simp add: word_less_nat_alt)
  have b: "unat a + unat num * unat sz < 4294967296" using Cons.prems(2) p by simp
  have ub: "unat ?b = unat a + unat num * unat sz" using unat_elem [OF b, of "unat num"] by simp
  have r: "unat a \<le> unat x \<and> unat x < unat ?b" if "x \<in> set ?E" for x
    using elems_range [OF b that] ub z by linarith
  have nn: "NULL \<notin> set ?E" using r Cons.prems(1) by fastforce
  from memp_init_pool_spec [of ?s i "[]" a sz "unat num"] elems_distinct [OF b z] nn Cons.prems(4)
  obtain L t where L: "memp_init_pool (unat num) sz i (a, ?s) = (?b, ?s\<lparr>memp_next := L, memp_tab := (memp_tab ?s)[i := t]\<rparr>)"
    "chain L t (rev ?E)" "\<forall>x. x \<notin> set ?E \<longrightarrow> L x = memp_next s x"
    by auto
  let ?u = "s\<lparr>memp_next := L, memp_tab := (memp_tab s)[i := t]\<rparr>"
  have "\<exists>b M tb. memp_init_loop ps (Suc i) (?b, ?u) = (b, ?u\<lparr>memp_next := M, memp_tab := tb\<rparr>) \<and> length tb = length (memp_tab ?u) \<and>
    (\<forall>j<Suc i. tb ! j = memp_tab ?u ! j) \<and> (\<forall>x. unat x < unat ?b \<longrightarrow> M x = memp_next ?u x) \<and>
    (\<forall>j<length ps. chain M (tb ! (Suc i + j)) (rev (pools_at ?b ps ! j)))"
    by (rule Cons.IH) (use Cons.prems ub in \<open>auto simp: p\<close>)
  then obtain c M tb where M: "memp_init_loop ps (Suc i) (?b, ?u) = (c, s\<lparr>memp_next := M, memp_tab := tb\<rparr>)"
    "length tb = length (memp_tab s)" "\<forall>j<Suc i. tb ! j = (memp_tab s)[i := t] ! j"
    "\<forall>x. unat x < unat ?b \<longrightarrow> M x = L x" "\<forall>j<length ps. chain M (tb ! (Suc i + j)) (rev (pools_at ?b ps ! j))"
    by auto
  have run: "memp_init_loop (p # ps) i (a, s) = (c, s\<lparr>memp_next := M, memp_tab := tb\<rparr>)"
    using L(1) M(1) by (simp add: p Let_def)
  have ti: "tb ! i = t" using M(3) Cons.prems(4) by simp
  have "chain M t (rev ?E)" by (rule chain_cong [OF L(2)]) (use M(4) r in auto)
  then have "chain M (tb ! (i + j)) (rev (pools_at a (p # ps) ! j))" if "j < length (p # ps)" for j
    using that M(5) ti by (cases j) (auto simp: p)
  moreover have "\<forall>x. unat x < unat a \<longrightarrow> M x = memp_next s x" using M(4) L(3) r ub by (metis add_lessD1 leD trans_less_add1)
  ultimately show ?case using run M(2,3)
    by (intro exI [of _ c] exI [of _ M] exI [of _ tb]) auto
qed

section \<open>Promises of the interface\<close>

text \<open>
  \<open>memp_init\<close> carves the pools out of the memory block: afterwards every pool holds all
  its elements, as many as \<open>memp_num\<close> says; all elements lie inside of the block, and no
  two elements, of the same or of different pools, overlap.
\<close>

theorem memp_init_makes_pools:
  assumes "a = LWIP_MEM_ALIGN memp_memory" "a \<noteq> NULL" "unat a + pool_bytes ps < 4294967296"
    and "\<forall>(num, sz)\<in>set ps. 0 < sz" "i < length ps"
  shows "mrep i (set (pools_at a ps ! i)) (memp_init ps memp_memory s) (rev (pools_at a ps ! i)) \<and>
    length (pools_at a ps ! i) = unat (fst (ps ! i)) \<and>
    (\<forall>x\<in>set (pools_at a ps ! i). unat a \<le> unat x \<and> unat x + unat (snd (ps ! i)) \<le> unat a + pool_bytes ps \<and>
      (\<forall>j<length ps. \<forall>y\<in>set (pools_at a ps ! j). (i, x) \<noteq> (j, y) \<longrightarrow>
        unat x + unat (snd (ps ! i)) \<le> unat y \<or> unat y + unat (snd (ps ! j)) \<le> unat x))"
proof -
  have a: "0 < unat a" using assms(2) by (simp add: unat_gt_0)
  from memp_init_loop_spec [OF a assms(3,4), of 0 "s\<lparr>memp_tab := replicate (length ps) NULL\<rparr>"]
  obtain b L tb where r: "memp_init ps memp_memory s = s\<lparr>memp_next := L, memp_tab := tb\<rparr>"
    "length tb = length ps" "\<forall>j<length ps. chain L (tb ! j) (rev (pools_at a ps ! j))"
    by (auto simp: memp_init_def assms(1) [symmetric])
  have "NULL \<notin> set (pools_at a ps ! i)" using pools_range [OF assms(3,5), of NULL] a by auto
  moreover have "length (pools_at a ps ! i) = unat (fst (ps ! i))"
    using assms(5) by (induction a ps arbitrary: i rule: pools_at.induct) (auto simp: elems_def nth_Cons split: nat.splits)
  ultimately show ?thesis
    using r assms(5) pools_range [OF assms(3,5)] pools_apart [OF assms(3,5)] by (auto simp: mrep_def)
qed

theorem memp_init_makes_pools_witness:
  "\<exists>s :: lw. mrep 1 {0x1010, 0x1030} s [0x1030, 0x1010]"
proof -
  have m: "LWIP_MEM_ALIGN 0x1001 = 0x1004" by (simp add: LWIP_MEM_ALIGN_def)
  have "pools_at 0x1004 [(1, 12), (2, 32)] ! 1 = [0x1010, 0x1030]" by (simp add: elems_def upt_rec)
  then show ?thesis
    using memp_init_makes_pools [OF m [symmetric], of "[(1, 12), (2, 32)]" 1] by fastforce
qed

end
