(* ===== verification/LW_Mem.thy ===== *)
theory LW_Mem
  imports LW_State
begin

text \<open>
  The heap of \<open>mem.c\<close>: a first-fit allocator over one array, in which every block starts
  with a header \<open>struct mem\<close> with the indices of the next and the previous block. The
  configuration is that of the LPC1768: \<open>MEM_SIZE\<close> is 16362, so that \<open>mem_size_t\<close> is a
  16-bit type, and \<open>mem_free\<close> is not called from interrupts. The mutex that protects the
  heap makes every operation atomic and has no definition.
\<close>

section \<open>Definitions\<close>

definition MEM_SIZE_ALIGNED :: u16 where "MEM_SIZE_ALIGNED = 16364"

text \<open>The size of \<open>struct mem\<close>, aligned.\<close>

definition SIZEOF_STRUCT_MEM :: u16 where "SIZEOF_STRUCT_MEM = 8"

definition MIN_SIZE_ALIGNED :: u16 where "MIN_SIZE_ALIGNED = 12"

text \<open>The expression is computed in 32 bits and stored into a \<open>mem_size_t\<close>.\<close>

definition LWIP_MEM_ALIGN_SIZE :: "u16 \<Rightarrow> u16" where
  "LWIP_MEM_ALIGN_SIZE sz = ucast ((ucast sz + 3 :: u32) AND NOT 3)"

text \<open>Every data block is at least \<open>MIN_SIZE_ALIGNED\<close> long.\<close>

definition at_least_min :: "u16 \<Rightarrow> u16" where
  "at_least_min sz = (if sz < MIN_SIZE_ALIGNED then MIN_SIZE_ALIGNED else sz)"

text \<open>The address \<open>&ram[i]\<close>, and the index of an address in the heap.\<close>

definition ram_at :: "lw \<Rightarrow> u16 \<Rightarrow> ptr" where
  "ram_at s i = ram s + ucast i"

definition ram_idx :: "lw \<Rightarrow> ptr \<Rightarrow> u16" where
  "ram_idx s p = ucast (p - ram s)"

definition plug_holes :: "ptr \<Rightarrow> lw \<Rightarrow> lw" where
  "plug_holes mem s =
     (let nmem = ram_at s (mem_next s mem);
          s = (if mem \<noteq> nmem \<and> mem_used s nmem = 0 \<and> nmem \<noteq> ram_end s then
                 let s = (if lfree s = nmem then s\<lparr>lfree := mem\<rparr> else s);
                     s = put_mem_next mem (mem_next s nmem) s
                 in put_mem_prev (ram_at s (mem_next s nmem)) (ram_idx s mem) s
               else s);
          pmem = ram_at s (mem_prev s mem)
      in if pmem \<noteq> mem \<and> mem_used s pmem = 0 then
           let s = (if lfree s = mem then s\<lparr>lfree := pmem\<rparr> else s);
               s = put_mem_next pmem (mem_next s mem) s
           in put_mem_prev (ram_at s (mem_next s mem)) (ram_idx s pmem) s
         else s)"

text \<open>\<open>ram_heap\<close> is the address of the array.\<close>

definition mem_init :: "ptr \<Rightarrow> lw \<Rightarrow> lw" where
  "mem_init ram_heap s =
     (let s = s\<lparr>ram := LWIP_MEM_ALIGN ram_heap\<rparr>;
          mem = ram s;
          s = put_mem_next mem MEM_SIZE_ALIGNED s;
          s = put_mem_prev mem 0 s;
          s = put_mem_used mem 0 s;
          s = s\<lparr>ram_end := ram_at s MEM_SIZE_ALIGNED\<rparr>;
          s = put_mem_used (ram_end s) 1 s;
          s = put_mem_next (ram_end s) MEM_SIZE_ALIGNED s;
          s = put_mem_prev (ram_end s) MEM_SIZE_ALIGNED s
      in s\<lparr>lfree := ram s\<rparr>)"

definition mem_free :: "ptr \<Rightarrow> lw \<Rightarrow> lw" where
  "mem_free rmem s =
     (if rmem = NULL then s
      else if rmem < ram s \<or> rmem \<ge> ram_end s then s
      else
        let mem = rmem - ucast SIZEOF_STRUCT_MEM;
            s = put_mem_used mem 0 s;
            s = (if mem < lfree s then s\<lparr>lfree := mem\<rparr> else s)
        in plug_holes mem s)"

text \<open>The header writes that both branches of \<open>mem_trim\<close> share.\<close>

definition put_split :: "ptr \<Rightarrow> u16 \<Rightarrow> u16 \<Rightarrow> u16 \<Rightarrow> lw \<Rightarrow> lw" where
  "put_split mem ptr ptr2 nxt s =
     (let mem2 = ram_at s ptr2;
          s = put_mem_used mem2 0 s;
          s = put_mem_next mem2 nxt s;
          s = put_mem_prev mem2 ptr s;
          s = put_mem_next mem ptr2 s
      in if mem_next s mem2 \<noteq> MEM_SIZE_ALIGNED
         then put_mem_prev (ram_at s (mem_next s mem2)) ptr2 s else s)"

definition mem_trim :: "ptr \<Rightarrow> u16 \<Rightarrow> lw \<Rightarrow> ptr \<times> lw" where
  "mem_trim rmem newsize s =
     (let newsize = at_least_min (LWIP_MEM_ALIGN_SIZE newsize) in
      if newsize > MEM_SIZE_ALIGNED then (NULL, s)
      else if rmem < ram s \<or> rmem \<ge> ram_end s then (rmem, s)
      else
        let mem = rmem - ucast SIZEOF_STRUCT_MEM;
            ptr = ram_idx s mem;
            sz = mem_next s mem - ptr - SIZEOF_STRUCT_MEM in
        if newsize > sz then (NULL, s)
        else if newsize = sz then (rmem, s)
        else
          let mem2 = ram_at s (mem_next s mem) in
          if mem_used s mem2 = 0 then
            let ptr2 = ptr + SIZEOF_STRUCT_MEM + newsize;
                nxt = mem_next s mem2;
                s = (if lfree s = mem2 then s\<lparr>lfree := ram_at s ptr2\<rparr> else s)
            in (rmem, put_split mem ptr ptr2 nxt s)
          else if (ucast newsize + ucast SIZEOF_STRUCT_MEM + ucast MIN_SIZE_ALIGNED :: u32) \<le> ucast sz then
            let ptr2 = ptr + SIZEOF_STRUCT_MEM + newsize;
                s = (if ram_at s ptr2 < lfree s then s\<lparr>lfree := ram_at s ptr2\<rparr> else s)
            in (rmem, put_split mem ptr ptr2 (mem_next s mem) s)
          else (rmem, s))"

text \<open>The search of \<open>mem_malloc\<close> for a free block; the value is its index.\<close>

partial_function (option) malloc_scan :: "lw \<Rightarrow> u16 \<Rightarrow> u16 \<Rightarrow> u16 option option" where
  "malloc_scan s sz ptr =
     (if ptr < MEM_SIZE_ALIGNED - sz then
        (let mem = ram_at s ptr in
         if mem_used s mem = 0 \<and>
           (ucast (mem_next s mem) - (ucast ptr + ucast SIZEOF_STRUCT_MEM) :: u32) \<ge> ucast sz
         then Some (Some ptr)
         else malloc_scan s sz (mem_next s mem))
      else Some None)"

text \<open>The loop that moves \<open>lfree\<close> to the next free block.\<close>

partial_function (option) lfree_loop :: "lw \<Rightarrow> lw option" where
  "lfree_loop s =
     (if mem_used s (lfree s) \<noteq> 0 \<and> lfree s \<noteq> ram_end s
      then lfree_loop (s\<lparr>lfree := ram_at s (mem_next s (lfree s))\<rparr>) else Some s)"

text \<open>Taking the block that was found: it is split if the rest can hold another block.\<close>

definition malloc_take :: "u16 \<Rightarrow> u16 \<Rightarrow> lw \<Rightarrow> lw" where
  "malloc_take sz ptr s =
     (let mem = ram_at s ptr in
      if (ucast (mem_next s mem) - (ucast ptr + ucast SIZEOF_STRUCT_MEM) :: u32)
           \<ge> ucast sz + ucast SIZEOF_STRUCT_MEM + ucast MIN_SIZE_ALIGNED then
        let ptr2 = ptr + SIZEOF_STRUCT_MEM + sz;
            mem2 = ram_at s ptr2;
            s = put_mem_used mem2 0 s;
            s = put_mem_next mem2 (mem_next s mem) s;
            s = put_mem_prev mem2 ptr s;
            s = put_mem_next mem ptr2 s;
            s = put_mem_used mem 1 s
        in if mem_next s mem2 \<noteq> MEM_SIZE_ALIGNED
           then put_mem_prev (ram_at s (mem_next s mem2)) ptr2 s else s
      else put_mem_used mem 1 s)"

text \<open>The block at \<open>ptr\<close> was found: it is taken, and \<open>lfree\<close> moves on if it was the lowest.\<close>

definition malloc_at :: "u16 \<Rightarrow> u16 \<Rightarrow> lw \<Rightarrow> (ptr \<times> lw) option" where
  "malloc_at sz ptr s = do {
     let mem = ram_at s ptr;
     let s = malloc_take sz ptr s;
     s \<leftarrow> (if mem = lfree s then lfree_loop s else Some s);
     Some (mem + ucast SIZEOF_STRUCT_MEM, s) }"

definition mem_malloc :: "u16 \<Rightarrow> lw \<Rightarrow> (ptr \<times> lw) option" where
  "mem_malloc sz s =
     (if sz = 0 then Some (NULL, s)
      else
        let sz = at_least_min (LWIP_MEM_ALIGN_SIZE sz) in
        if sz > MEM_SIZE_ALIGNED then Some (NULL, s)
        else do {
          found \<leftarrow> malloc_scan s sz (ram_idx s (lfree s));
          case found of None \<Rightarrow> Some (NULL, s) | Some ptr \<Rightarrow> malloc_at sz ptr s })"

text \<open>
  The request is the product in 16 bits; \<open>memset\<close> gets the product in 32 bits.
\<close>

definition mem_calloc :: "u16 \<Rightarrow> u16 \<Rightarrow> lw \<Rightarrow> (ptr \<times> lw) option" where
  "mem_calloc count sz s = do {
     (p, s) \<leftarrow> mem_malloc (count * sz) s;
     let n = unat (ucast count * ucast sz :: u32);
     Some (p, if p \<noteq> NULL then s\<lparr>bytes := (\<lambda>a. if unat (a - p) < n then 0 else bytes s a)\<rparr> else s) }"


section \<open>The heap as a list of blocks\<close>

text \<open>
  The abstract heap is the list of its blocks in the order of the memory, each with its
  size (header included) and whether it is used. \<open>hseg s p i bs e\<close>: the headers from
  index \<open>i\<close> to index \<open>e\<close> are those of the blocks \<open>bs\<close>, and the block before starts at \<open>p\<close>.
\<close>

type_synonym blocks = "(nat \<times> bool) list"

definition hdr :: "lw \<Rightarrow> nat \<Rightarrow> ptr" where
  "hdr s i = ram s + of_nat i"

definition tot :: "blocks \<Rightarrow> nat" where
  "tot bs = sum_list (map fst bs)"

fun hseg :: "lw \<Rightarrow> nat \<Rightarrow> nat \<Rightarrow> blocks \<Rightarrow> nat \<Rightarrow> bool" where
  "hseg s p i [] e \<longleftrightarrow> i = e"
| "hseg s p i ((n, u) # bs) e \<longleftrightarrow>
     mem_next s (hdr s i) = of_nat (i + n) \<and> mem_prev s (hdr s i) = of_nat p \<and>
     mem_used s (hdr s i) = (if u then 1 else 0) \<and> 20 \<le> n \<and> 4 dvd n \<and> hseg s i (i + n) bs e"

text \<open>The index of the first free block.\<close>

fun ffree :: "nat \<Rightarrow> blocks \<Rightarrow> nat" where
  "ffree i [] = i"
| "ffree i ((n, u) # bs) = (if u then ffree (i + n) bs else i)"

text \<open>No two free blocks are adjacent.\<close>

fun merged :: "blocks \<Rightarrow> bool" where
  "merged ((n, u) # (m, v) # bs) \<longleftrightarrow> (u \<or> v) \<and> merged ((m, v) # bs)"
| "merged _ \<longleftrightarrow> True"

definition heap :: "lw \<Rightarrow> blocks \<Rightarrow> bool" where
  "heap s bs \<longleftrightarrow> ram s \<noteq> NULL \<and> 4 dvd unat (ram s) \<and> unat (ram s) + 16384 < 4294967296 \<and>
     ram_end s = hdr s 16364 \<and> mem_used s (ram_end s) = 1 \<and>
     hseg s 0 0 bs 16364 \<and> merged bs \<and> lfree s = hdr s (ffree 0 bs)"

lemma heapD:
  assumes "heap s bs"
  shows "ram s \<noteq> NULL" "4 dvd unat (ram s)" "unat (ram s) + 16384 < 4294967296" "ram_end s = hdr s 16364"
    "mem_used s (ram_end s) = 1" "hseg s 0 0 bs 16364" "merged bs" "lfree s = hdr s (ffree 0 bs)"
  using assms unfolding heap_def by blast+

lemma tot_simps [simp]: "tot [] = 0" "tot (b # bs) = fst b + tot bs" "tot (as @ bs) = tot as + tot bs"
  by (simp_all add: tot_def)

lemma hseg_tot: "hseg s p i bs e \<Longrightarrow> e = i + tot bs"
  by (induction s p i bs e rule: hseg.induct) auto

lemma hseg_append:
  "hseg s p i (as @ bs) e \<longleftrightarrow> hseg s p i as (i + tot as) \<and>
     hseg s (if as = [] then p else i + tot (butlast as)) (i + tot as) bs e"
  by (induction s p i as e rule: hseg.induct) (auto simp: add.assoc)

lemma hdr_upd [simp]:
  "hdr (s\<lparr>mem_next := N\<rparr>) i = hdr s i" "hdr (s\<lparr>mem_prev := P\<rparr>) i = hdr s i" "hdr (s\<lparr>mem_used := U\<rparr>) i = hdr s i"
  "hdr (s\<lparr>lfree := f\<rparr>) i = hdr s i"
  by (simp_all add: hdr_def)

lemma ram_at_upd [simp]:
  "ram_at (s\<lparr>mem_next := N\<rparr>) j = ram_at s j" "ram_at (s\<lparr>mem_prev := P\<rparr>) j = ram_at s j"
  "ram_at (s\<lparr>mem_used := U\<rparr>) j = ram_at s j" "ram_at (s\<lparr>lfree := f\<rparr>) j = ram_at s j"
  by (simp_all add: ram_at_def)

lemma ram_idx_upd [simp]:
  "ram_idx (s\<lparr>mem_next := N\<rparr>) p = ram_idx s p" "ram_idx (s\<lparr>mem_prev := P\<rparr>) p = ram_idx s p"
  "ram_idx (s\<lparr>mem_used := U\<rparr>) p = ram_idx s p" "ram_idx (s\<lparr>lfree := f\<rparr>) p = ram_idx s p"
  by (simp_all add: ram_idx_def)

lemma hdr_unat: "unat (ram s) + 16384 < 4294967296 \<Longrightarrow> i \<le> 16384 \<Longrightarrow> unat (hdr s i) = unat (ram s) + i"
  by (simp add: hdr_def unat_word_ariths unat_of_nat_u32)

lemma hdr_nonnull: "ram s \<noteq> NULL \<Longrightarrow> unat (ram s) + 16384 < 4294967296 \<Longrightarrow> i \<le> 16384 \<Longrightarrow> hdr s i \<noteq> NULL"
  using hdr_unat [of s i] by (auto simp: unat_eq_0)

lemma hdr_eq: "unat (ram s) + 16384 < 4294967296 \<Longrightarrow> i \<le> 16384 \<Longrightarrow> j \<le> 16384 \<Longrightarrow> hdr s i = hdr s j \<longleftrightarrow> i = j"
  by (metis add_left_cancel hdr_unat)

lemma hdr_less: "unat (ram s) + 16384 < 4294967296 \<Longrightarrow> i \<le> 16384 \<Longrightarrow> j \<le> 16384 \<Longrightarrow> hdr s i < hdr s j \<longleftrightarrow> i < j"
  by (simp add: word_less_nat_alt hdr_unat)

lemma ucast_of_nat_u32: "i < 65536 \<Longrightarrow> ucast (of_nat i :: u16) = (of_nat i :: u32)"
  by (simp add: word_unat_eq_iff unat_of_nat_u16 unat_of_nat_u32)

lemma ram_at_hdr: "i < 65536 \<Longrightarrow> ram_at s (of_nat i) = hdr s i"
  by (simp add: ram_at_def hdr_def ucast_of_nat_u32)

lemma ram_idx_hdr: "i < 65536 \<Longrightarrow> ram_idx s (hdr s i) = of_nat i"
  by (simp add: ram_idx_def hdr_def word_unat_eq_iff unat_ucast_narrow unat_of_nat_u32 unat_of_nat_u16)

text \<open>The indices of the headers, and a segment over an update of the headers.\<close>

fun idxs :: "nat \<Rightarrow> blocks \<Rightarrow> nat set" where
  "idxs i [] = {}"
| "idxs i ((n, u) # bs) = insert i (idxs (i + n) bs)"

lemma idxs_range: "j \<in> idxs i bs \<Longrightarrow> i \<le> j \<and> j \<le> i + tot bs"
  by (induction i bs rule: idxs.induct) auto

lemma hseg_idxs: "hseg s p i bs e \<Longrightarrow> j \<in> idxs i bs \<Longrightarrow> i \<le> j \<and> j + 20 \<le> e"
proof (induction s p i bs e rule: hseg.induct)
  case (2 s p i n u bs e)
  then show ?case using hseg_tot [of s i "i + n" bs e] by fastforce
qed simp

lemma hseg_cong:
  assumes "hseg s p i bs e" and "ram s' = ram s"
    and "\<And>j. j \<in> idxs i bs \<Longrightarrow> mem_next s' (hdr s j) = mem_next s (hdr s j) \<and> mem_used s' (hdr s j) = mem_used s (hdr s j) \<and>
      mem_prev s' (hdr s j) = (if j = i then of_nat p' else mem_prev s (hdr s j))"
  shows "hseg s' p' i bs e"
  using assms
proof (induction s p i bs e arbitrary: p' rule: hseg.induct)
  case (2 s p i n u bs e)
  have h: "hdr s' j = hdr s j" for j by (simp add: hdr_def 2(3))
  have "hseg s' i (i + n) bs e"
  proof (rule 2(1))
    show "hseg s i (i + n) bs e" "ram s' = ram s" using 2(2,3) by auto
    fix j assume j: "j \<in> idxs (i + n) bs"
    have "20 \<le> n" using 2(2) by simp
    then have "j \<noteq> i" using idxs_range [OF j] by linarith
    moreover have "mem_prev s (hdr s (i + n)) = of_nat i" if "j = i + n"
      using 2(2) j that by (cases bs) (auto dest: idxs_range)
    ultimately show "mem_next s' (hdr s j) = mem_next s (hdr s j) \<and> mem_used s' (hdr s j) = mem_used s (hdr s j) \<and>
      mem_prev s' (hdr s j) = (if j = i + n then of_nat i else mem_prev s (hdr s j))"
      using 2(4) [of j] j by simp
  qed
  then show ?case using 2(2) 2(4) [of i] by (simp add: h)
qed simp

lemma hseg_lfree: "hseg s p i bs e \<Longrightarrow> hseg (s\<lparr>lfree := f\<rparr>) p i bs e"
  by (induction s p i bs e rule: hseg.induct) auto

definition all_used :: "blocks \<Rightarrow> bool" where
  "all_used bs \<longleftrightarrow> (\<forall>b\<in>set bs. snd b)"

lemma all_used_simps [simp]:
  "all_used []" "all_used (b # bs) \<longleftrightarrow> snd b \<and> all_used bs" "all_used (as @ bs) \<longleftrightarrow> all_used as \<and> all_used bs"
  by (auto simp: all_used_def)

lemma ffree_used: "all_used as \<Longrightarrow> ffree i (as @ bs) = ffree (i + tot as) bs"
  by (induction i as rule: ffree.induct) (auto simp: add.assoc)

lemma ffree_free: "\<not> all_used as \<Longrightarrow> ffree i (as @ bs) = ffree i as"
  by (induction i as rule: ffree.induct) auto

lemma ffree_bounds: "i \<le> ffree i bs \<and> ffree i bs \<le> i + tot bs"
  by (induction i bs rule: ffree.induct) auto

lemma ffree_lt: "\<not> all_used as \<Longrightarrow> \<forall>b\<in>set as. 0 < fst b \<Longrightarrow> ffree i as < i + tot as"
  by (induction i as rule: ffree.induct) (auto simp: add.assoc)

lemma hseg_pos: "hseg s p i bs e \<Longrightarrow> b \<in> set bs \<Longrightarrow> 20 \<le> fst b \<and> 4 dvd fst b"
  by (induction s p i bs e rule: hseg.induct) auto

lemma merged_Cons: "merged (b # bs) \<longleftrightarrow> merged bs \<and> (bs = [] \<or> snd b \<or> snd (hd bs))"
  by (cases b; cases bs) auto

lemma merged_append:
  "merged (as @ bs) \<longleftrightarrow> merged as \<and> merged bs \<and> (as = [] \<or> bs = [] \<or> snd (last as) \<or> snd (hd bs))"
  by (induction as) (auto simp: merged_Cons hd_append)

text \<open>
  Replacing the blocks \<open>ms\<close> in the middle of the heap by \<open>ms'\<close>: the headers outside stay
  as they are, but for the backward index of the block behind.
\<close>

lemma hseg_replace:
  assumes rep: "hseg s 0 0 (as @ ms @ cs) 16364" and r: "ram s' = ram s" and ne: "ms \<noteq> []" "ms' \<noteq> []"
    and out: "\<And>j. j < tot as \<or> tot as + tot ms \<le> j \<Longrightarrow> j < 16364 \<Longrightarrow>
      mem_next s' (hdr s j) = mem_next s (hdr s j) \<and> mem_used s' (hdr s j) = mem_used s (hdr s j) \<and>
      (j \<noteq> tot as + tot ms \<longrightarrow> mem_prev s' (hdr s j) = mem_prev s (hdr s j))"
    and pv: "tot as + tot ms < 16364 \<Longrightarrow> mem_prev s' (hdr s (tot as + tot ms)) = of_nat (tot as + tot (butlast ms'))"
    and mid: "hseg s' (if as = [] then 0 else tot (butlast as)) (tot as) ms' (tot as + tot ms)"
  shows "hseg s' 0 0 (as @ ms' @ cs) 16364"
proof -
  let ?e = "tot as + tot ms"
  have sg: "hseg s 0 0 as (tot as)" "hseg s (tot as + tot (butlast ms)) ?e cs 16364"
    using rep ne unfolding hseg_append by auto
  have t: "16364 = ?e + tot cs" "tot ms' = tot ms" using hseg_tot [OF rep] hseg_tot [OF mid] by auto
  have "hseg s' 0 0 as (tot as)"
  proof (rule hseg_cong [OF sg(1) r])
    fix j assume j: "j \<in> idxs 0 as"
    moreover have "j + 20 \<le> tot as" using hseg_idxs [OF sg(1) j] by blast
    moreover have "mem_prev s (hdr s 0) = 0" using sg(1) j by (cases as) auto
    ultimately show "mem_next s' (hdr s j) = mem_next s (hdr s j) \<and> mem_used s' (hdr s j) = mem_used s (hdr s j) \<and>
      mem_prev s' (hdr s j) = (if j = 0 then of_nat 0 else mem_prev s (hdr s j))"
      using out [of j] t by auto
  qed
  moreover have "hseg s' (tot as + tot (butlast ms')) ?e cs 16364"
  proof (rule hseg_cong [OF sg(2) r])
    fix j assume "j \<in> idxs ?e cs"
    then have "?e \<le> j" "j + 20 \<le> 16364" using hseg_idxs [OF sg(2)] by auto
    then show "mem_next s' (hdr s j) = mem_next s (hdr s j) \<and> mem_used s' (hdr s j) = mem_used s (hdr s j) \<and>
      mem_prev s' (hdr s j) = (if j = ?e then of_nat (tot as + tot (butlast ms')) else mem_prev s (hdr s j))"
      using out [of j] pv by auto
  qed
  ultimately show ?thesis using mid ne t(2) unfolding hseg_append by auto
qed

section \<open>Allocation\<close>

text \<open>First fit: the index of the first free block with room for \<open>k\<close> bytes.\<close>

fun find_fit :: "nat \<Rightarrow> nat \<Rightarrow> blocks \<Rightarrow> nat option" where
  "find_fit k i [] = None"
| "find_fit k i ((n, u) # bs) = (if \<not> u \<and> k + 8 \<le> n then Some i else find_fit k (i + n) bs)"

lemma find_fit_used: "all_used as \<Longrightarrow> find_fit k i (as @ bs) = find_fit k (i + tot as) bs"
  by (induction k i as rule: find_fit.induct) (auto simp: add.assoc)

lemma find_fit_ffree: "find_fit k i bs = find_fit k (ffree i bs) (dropWhile snd bs)"
  by (induction k i bs rule: find_fit.induct) auto

lemma find_fit_late: "tot bs \<le> k \<Longrightarrow> find_fit k i bs = None"
  by (induction k i bs rule: find_fit.induct) auto

lemma find_fit_Some:
  "find_fit k i bs = Some j \<Longrightarrow> \<exists>as n cs. bs = as @ (n, False) # cs \<and> j = i + tot as \<and> k + 8 \<le> n \<and> find_fit k i as = None"
proof (induction k i bs rule: find_fit.induct)
  case (2 k i n u bs)
  show ?case
  proof (cases "\<not> u \<and> k + 8 \<le> n")
    case True
    then show ?thesis using 2(2) by (intro exI [of _ "[]"]) auto
  next
    case False
    then obtain as m cs where "bs = as @ (m, False) # cs" "j = i + n + tot as" "k + 8 \<le> m" "find_fit k (i + n) as = None"
      using 2 by auto
    then show ?thesis using False by (intro exI [of _ "(n, u) # as"] exI [of _ m] exI [of _ cs]) auto
  qed
qed simp

lemma dropWhile_split: "\<exists>as. bs = as @ dropWhile snd bs \<and> all_used as \<and> ffree i bs = i + tot as" for bs :: blocks
proof -
  have "bs = takeWhile snd bs @ dropWhile snd bs" by simp
  moreover have u: "all_used (takeWhile snd bs)" by (auto simp: all_used_def dest: set_takeWhileD)
  moreover have "ffree j (dropWhile snd bs) = j" for j
    by (induction bs) auto
  moreover have "ffree i (takeWhile snd bs @ dropWhile snd bs) = ffree (i + tot (takeWhile snd bs)) (dropWhile snd bs)"
    by (rule ffree_used [OF u])
  ultimately show ?thesis by (intro exI [of _ "takeWhile snd bs"]) auto
qed

lemma malloc_scan_spec:
  assumes "hseg s p i bs 16364" "0 < k" "k \<le> 16364"
  shows "malloc_scan s (of_nat k) (of_nat i) = Some (map_option of_nat (find_fit k i bs))"
  using assms(1)
proof (induction bs arbitrary: p i)
  case Nil
  then show ?case using assms(2,3)
    by (simp add: malloc_scan.simps MEM_SIZE_ALIGNED_def word_less_nat_alt unat_sub word_le_nat_alt unat_of_nat_u16)
next
  case (Cons b bs)
  obtain n u where b: "b = (n, u)" by fastforce
  have t: "16364 = i + n + tot bs" "20 \<le> n" using hseg_tot [OF Cons.prems] Cons.prems by (auto simp: b)
  have c: "(of_nat i :: u16) < MEM_SIZE_ALIGNED - of_nat k \<longleftrightarrow> i < 16364 - k"
    using t assms(3) by (simp add: MEM_SIZE_ALIGNED_def word_less_nat_alt unat_sub word_le_nat_alt unat_of_nat_u16)
  have d: "(ucast (of_nat (i + n) :: u16) - (ucast (of_nat i :: u16) + ucast SIZEOF_STRUCT_MEM) :: u32) = of_nat (n - 8)"
    using t by (simp add: ucast_of_nat_u32 SIZEOF_STRUCT_MEM_def of_nat_diff del: of_nat_add)
      (simp add: of_nat_add)
  have f: "(of_nat (n - 8) :: u32) \<ge> ucast (of_nat k :: u16) \<longleftrightarrow> k + 8 \<le> n"
  proof -
    have "unat (of_nat (n - 8) :: u32) = n - 8" using t by (intro unat_of_nat_u32) simp
    then show ?thesis using t assms(3)
      by (auto simp: ucast_of_nat_u32 word_le_nat_alt unat_of_nat_u32 simp del: of_nat_diff)
  qed
  have h: "ram_at s (of_nat i) = hdr s i" using t by (intro ram_at_hdr) simp
  have m: "mem_next s (hdr s i) = of_nat (i + n)" "mem_used s (hdr s i) = (if u then 1 else 0)" "hseg s i (i + n) bs 16364"
    using Cons.prems by (auto simp: b)
  show ?case
  proof (cases "i < 16364 - k")
    case True
    show ?thesis
    proof (cases "\<not> u \<and> k + 8 \<le> n")
      case True
      then show ?thesis using \<open>i < 16364 - k\<close> c d f h m
        by (subst malloc_scan.simps) (simp add: b del: of_nat_add)
    next
      case False
      then show ?thesis using \<open>i < 16364 - k\<close> c d f h m Cons.IH [OF m(3)]
        by (subst malloc_scan.simps) (auto simp: b simp del: of_nat_add)
    qed
  next
    case False
    then have "find_fit k i (b # bs) = None" using t by (intro find_fit_late) (simp add: b)
    then show ?thesis using c False by (subst malloc_scan.simps) simp
  qed
qed

lemma lfree_loop_spec:
  assumes "hseg s p i bs 16364" "ram_end s = hdr s 16364" "mem_used s (hdr s 16364) = 1"
    and "unat (ram s) + 16384 < 4294967296" "lfree s = hdr s i"
  shows "lfree_loop s = Some (s\<lparr>lfree := hdr s (ffree i bs)\<rparr>)"
  using assms
proof (induction bs arbitrary: s p i)
  case Nil
  then show ?case by (simp add: lfree_loop.simps)
next
  case (Cons b bs)
  obtain n u where b: "b = (n, u)" by fastforce
  have t: "16364 = i + n + tot bs" "20 \<le> n" using hseg_tot [OF Cons.prems(1)] Cons.prems(1) by (auto simp: b)
  show ?case
  proof (cases u)
    case True
    let ?s = "s\<lparr>lfree := hdr s (i + n)\<rparr>"
    have "hseg ?s i (i + n) bs 16364"
      by (rule hseg_cong [of s i]) (use Cons.prems(1) in \<open>cases bs; auto simp: b\<close>)+
    from Cons.IH [OF this] have "lfree_loop ?s = Some (s\<lparr>lfree := hdr s (ffree (i + n) bs)\<rparr>)"
      using Cons.prems by simp
    moreover have "hdr s i \<noteq> hdr s 16364" using t Cons.prems(4) by (subst hdr_eq) simp_all
    ultimately show ?thesis using Cons.prems t True
      by (subst lfree_loop.simps) (simp add: b ram_at_hdr del: of_nat_add)
  next
    case False
    then show ?thesis using Cons.prems by (subst lfree_loop.simps) (simp add: b)
  qed
qed

definition take_block :: "nat \<Rightarrow> nat \<Rightarrow> blocks" where
  "take_block k n = (if k + 28 \<le> n then [(k + 8, True), (n - (k + 8), False)] else [(n, True)])"

lemma malloc_take_spec:
  assumes "hseg s 0 0 (as @ (n, False) # cs) 16364" "12 \<le> k" "k + 8 \<le> n" "4 dvd k"
    and r: "unat (ram s) + 16384 < 4294967296"
  shows "\<exists>N P U. malloc_take (of_nat k) (of_nat (tot as)) s = s\<lparr>mem_next := N, mem_prev := P, mem_used := U\<rparr> \<and>
    hseg (s\<lparr>mem_next := N, mem_prev := P, mem_used := U\<rparr>) 0 0 (as @ take_block k n @ cs) 16364 \<and>
    U (hdr s 16364) = mem_used s (hdr s 16364)"
proof -
  let ?i = "tot as" and ?p = "if as = [] then 0 else tot (butlast as)"
  have sg: "hseg s 0 0 as ?i" "hseg s ?p ?i [(n, False)] (?i + n)" "hseg s ?i (?i + n) cs 16364"
    using assms(1) unfolding hseg_append by auto
  have t: "16364 = ?i + n + tot cs" "20 \<le> n" "4 dvd n" using hseg_tot [OF assms(1)] sg(2) by auto
  note eq = hdr_eq [OF r]
  have h: "ram_at s (of_nat j) = hdr s j" if "j \<le> 16364" for j using that by (intro ram_at_hdr) simp
  have hd0: "mem_next s (hdr s ?i) = of_nat (?i + n)" "mem_prev s (hdr s ?i) = of_nat ?p" using sg(2) by auto
  have d: "(ucast (of_nat (?i + n) :: u16) - (ucast (of_nat ?i :: u16) + ucast SIZEOF_STRUCT_MEM) :: u32) = of_nat (n - 8)"
    using t by (simp add: ucast_of_nat_u32 SIZEOF_STRUCT_MEM_def of_nat_diff del: of_nat_add)
      (simp add: of_nat_add)
  have c: "(ucast (of_nat k :: u16) + ucast SIZEOF_STRUCT_MEM + ucast MIN_SIZE_ALIGNED :: u32) \<le> of_nat (n - 8) \<longleftrightarrow> k + 28 \<le> n"
  proof -
    have "unat (of_nat (n - 8) :: u32) = n - 8" using t by (intro unat_of_nat_u32) simp
    moreover have "(ucast (of_nat k :: u16) + ucast SIZEOF_STRUCT_MEM + ucast MIN_SIZE_ALIGNED :: u32) = of_nat (k + 20)"
      using t assms(3) by (simp add: ucast_of_nat_u32 SIZEOF_STRUCT_MEM_def MIN_SIZE_ALIGNED_def)
    moreover have "unat (of_nat (k + 20) :: u32) = k + 20" using t assms(3) by (intro unat_of_nat_u32) simp
    ultimately show ?thesis using t assms(3) by (auto simp: word_le_nat_alt simp del: of_nat_diff of_nat_add)
  qed
  show ?thesis
  proof (cases "k + 28 \<le> n")
    case True
    let ?q = "?i + (k + 8)"
    have q: "of_nat ?i + SIZEOF_STRUCT_MEM + of_nat k = (of_nat ?q :: u16)" by (simp add: SIZEOF_STRUCT_MEM_def)
    define N where "N = (mem_next s)(hdr s ?q := of_nat (?i + n), hdr s ?i := of_nat ?q)"
    define U where "U = (mem_used s)(hdr s ?q := 0, hdr s ?i := 1)"
    define P where "P = (if ?i + n = 16364 then (mem_prev s)(hdr s ?q := of_nat ?i)
      else (mem_prev s)(hdr s ?q := of_nat ?i, hdr s (?i + n) := of_nat ?q))"
    let ?s = "s\<lparr>mem_next := N, mem_prev := P, mem_used := U\<rparr>"
    have ne: "hdr s ?q \<noteq> hdr s ?i" "hdr s ?i \<noteq> hdr s ?q" using t True by (simp_all add: eq)
    have e: "(of_nat (?i + n) :: u16) = MEM_SIZE_ALIGNED \<longleftrightarrow> ?i + n = 16364"
      using t by (auto simp: MEM_SIZE_ALIGNED_def word_unat_eq_iff unat_of_nat_u16 simp del: of_nat_add)
    have run: "malloc_take (of_nat k) (of_nat ?i) s = ?s"
      using t True hd0 d c q ne e h [of ?i] h [of ?q] h [of "?i + n"]
      by (auto simp: malloc_take_def Let_def N_def P_def U_def simp del: of_nat_add)
    have "4 dvd n - (k + 8)" using assms(4) t(3) True by (intro dvd_diff_nat) auto
    moreover have "P (hdr s ?i) = of_nat ?p" "P (hdr s ?q) = of_nat ?i" using t True hd0(2) by (auto simp: P_def eq)
    ultimately have mid: "hseg ?s ?p ?i [(k + 8, True), (n - (k + 8), False)] (?i + n)"
      using t True assms(2,4) by (auto simp: N_def U_def eq add.assoc simp del: of_nat_add)
    have "hseg ?s 0 0 (as @ [(k + 8, True), (n - (k + 8), False)] @ cs) 16364"
      by (rule hseg_replace [of s as "[(n, False)]"])
        (use assms(1) t True mid in \<open>auto simp: N_def P_def U_def eq simp del: of_nat_add\<close>)
    then have "hseg ?s 0 0 (as @ take_block k n @ cs) 16364" using True by (simp add: take_block_def)
    moreover have "U (hdr s 16364) = mem_used s (hdr s 16364)" using t True by (simp add: U_def eq)
    ultimately show ?thesis using run by blast
  next
    case False
    let ?s = "s\<lparr>mem_used := (mem_used s)(hdr s ?i := 1)\<rparr>"
    have run: "malloc_take (of_nat k) (of_nat ?i) s = ?s"
      using t False hd0 d c h [of ?i] by (auto simp: malloc_take_def Let_def simp del: of_nat_add)
    have pv: "mem_prev s (hdr s (?i + n)) = of_nat ?i" if "?i + n < 16364" using sg(3) t that by (cases cs) auto
    have mid: "hseg ?s ?p ?i [(n, True)] (?i + n)" using sg(2) by auto
    have "hseg ?s 0 0 (as @ [(n, True)] @ cs) 16364"
      by (rule hseg_replace [of s as "[(n, False)]"]) (use assms(1) t pv mid in \<open>auto simp: eq\<close>)
    then have "hseg ?s 0 0 (as @ take_block k n @ cs) 16364" using False by (simp add: take_block_def)
    moreover have "hdr s 16364 \<noteq> hdr s ?i" using t by (simp add: eq)
    ultimately show ?thesis using run
      by (intro exI [of _ "mem_next s"] exI [of _ "mem_prev s"] exI [of _ "(mem_used s)(hdr s ?i := 1)"]) simp
  qed
qed

text \<open>The size of a block for a request of \<open>k\<close> bytes.\<close>

definition request :: "nat \<Rightarrow> nat" where
  "request k = max 12 (4 * ((k + 3) div 4))"

lemma align_size: "unat (LWIP_MEM_ALIGN_SIZE sz) = (if unat sz \<le> 65532 then 4 * ((unat sz + 3) div 4) else 0)"
proof -
  have c: "NOT 3 = (NOT (mask 2) :: u32)" by (simp add: mask_eq_exp_minus_1)
  have "x AND NOT 3 = push_bit 2 (drop_bit 2 x)" for x :: u32
  proof -
    have "Suc (Suc (n - 2)) = n" if "2 \<le> n" for n :: nat using that by simp
    then show ?thesis unfolding c by (intro bit_word_eqI) (auto simp: bit_simps)
  qed
  moreover have u: "unat (ucast sz + 3 :: u32) = unat sz + 3"
    using unat_u16_less [of sz] by (simp add: unat_word_ariths del: unat_u16_less)
  moreover have "unat (push_bit 2 (drop_bit 2 x)) = 4 * (unat x div 4)" if "unat x < 70000" for x :: u32
  proof -
    have "unat (drop_bit 2 x) = unat x div 4" by (simp add: drop_bit_eq_div unat_div)
    moreover have "unat (push_bit 2 y) = 4 * unat y" if "unat y < 70000" for y :: u32
      using that by (simp add: push_bit_eq_mult unat_word_ariths)
    ultimately show ?thesis using that by (metis div_le_dividend le_less_trans)
  qed
  ultimately have "unat ((ucast sz + 3 :: u32) AND NOT 3) = 4 * ((unat sz + 3) div 4)"
    using unat_u16_less [of sz] by (simp del: unat_u16_less)
  moreover have "4 * ((unat sz + 3) div 4) < 65536 \<longleftrightarrow> unat sz \<le> 65532" by auto
  moreover have "(unat sz + 3) div 4 = 16384" if "\<not> unat sz \<le> 65532"
    using that unat_u16_less [of sz] by (intro div_nat_eqI) (simp_all del: unat_u16_less)
  ultimately show ?thesis by (auto simp: LWIP_MEM_ALIGN_SIZE_def unat_ucast_narrow)
qed

lemma at_least_min_request:
  assumes "unat sz \<le> 65532"
  shows "at_least_min (LWIP_MEM_ALIGN_SIZE sz) = of_nat (request (unat sz))"
proof -
  have "4 * ((unat sz + 3) div 4) < 65536" using assms by linarith
  then have "unat (of_nat (4 * ((unat sz + 3) div 4)) :: u16) = 4 * ((unat sz + 3) div 4)" by (rule unat_of_nat_u16)
  then show ?thesis using align_size [of sz] assms
    by (auto simp: at_least_min_def request_def MIN_SIZE_ALIGNED_def word_less_nat_alt word_unat_eq_iff max_def
        simp del: of_nat_mult)
qed

lemma request_props: "12 \<le> request k" "4 dvd request k" "k \<le> request k" "k \<le> 65532 \<Longrightarrow> request k < 65536"
proof -
  have "k \<le> 4 * ((k + 3) div 4)" by linarith
  moreover have "4 dvd (12 :: nat)" by presburger
  ultimately show "12 \<le> request k" "4 dvd request k" "k \<le> request k" "k \<le> 65532 \<Longrightarrow> request k < 65536"
    by (auto simp: request_def max_def)
qed

lemma malloc_at_spec:
  assumes hp: "heap s (as @ (n, False) # cs)" and k: "12 \<le> k" "k + 8 \<le> n" "4 dvd k"
  shows "\<exists>s'. malloc_at (of_nat k) (of_nat (tot as)) s = Some (hdr s (tot as + 8), s') \<and>
    heap s' (as @ take_block k n @ cs) \<and>
    (\<exists>N P U f. s' = s\<lparr>mem_next := N, mem_prev := P, mem_used := U, lfree := f\<rparr>)"
proof -
  note h = heapD [OF hp]
  let ?i = "tot as" and ?bs = "as @ take_block k n @ cs"
  have i: "?i \<le> 16364" using hseg_tot [OF h(6)] by simp
  obtain N P U where u: "malloc_take (of_nat k) (of_nat ?i) s = s\<lparr>mem_next := N, mem_prev := P, mem_used := U\<rparr>"
    "hseg (s\<lparr>mem_next := N, mem_prev := P, mem_used := U\<rparr>) 0 0 ?bs 16364" "U (hdr s 16364) = mem_used s (hdr s 16364)"
    using malloc_take_spec [OF h(6) k h(3)] by auto
  let ?u = "s\<lparr>mem_next := N, mem_prev := P, mem_used := U\<rparr>"
  have mg: "merged ?bs" using h(7) by (auto simp: merged_append merged_Cons hd_append take_block_def)
  have fin: "(if hdr s ?i = lfree s then lfree_loop ?u else Some ?u) = Some (?u\<lparr>lfree := hdr s (ffree 0 ?bs)\<rparr>)"
  proof (cases "all_used as")
    case True
    have "hseg ?u (if as = [] then 0 else tot (butlast as)) ?i (take_block k n @ cs) 16364"
      using u(2) by (subst (asm) hseg_append) auto
    then have "lfree_loop ?u = Some (?u\<lparr>lfree := hdr ?u (ffree ?i (take_block k n @ cs))\<rparr>)" if "lfree s = hdr s ?i"
      using that h(3,4,5) u(3) by (intro lfree_loop_spec) simp_all
    moreover have "lfree s = hdr s ?i" using ffree_used [OF True, of 0] by (simp add: h(8))
    ultimately show ?thesis using ffree_used [OF True, of 0] by simp
  next
    case False
    have "0 < fst b" if "b \<in> set as" for b using hseg_pos [OF h(6), of b] that by auto
    then have "ffree 0 as < ?i" using ffree_lt [OF False, of 0] by simp
    then have "hdr s ?i \<noteq> lfree s" using i ffree_free [OF False] by (simp add: h(8) hdr_eq [OF h(3)])
    moreover have "?u\<lparr>lfree := hdr s (ffree 0 ?bs)\<rparr> = ?u" using ffree_free [OF False] h(8) by simp
    ultimately show ?thesis by simp
  qed
  have "hseg (?u\<lparr>lfree := hdr s (ffree 0 ?bs)\<rparr>) 0 0 ?bs 16364" by (rule hseg_lfree [OF u(2)])
  then have "heap (?u\<lparr>lfree := hdr s (ffree 0 ?bs)\<rparr>) ?bs"
    using h(1,2,3,4,5) u(3) mg by (simp add: heap_def)
  moreover have "malloc_at (of_nat k) (of_nat ?i) s = Some (hdr s (?i + 8), ?u\<lparr>lfree := hdr s (ffree 0 ?bs)\<rparr>)"
    using i u(1) fin by (simp add: malloc_at_def ram_at_hdr hdr_def SIZEOF_STRUCT_MEM_def add.assoc)
  ultimately show ?thesis by (intro exI [of _ "?u\<lparr>lfree := hdr s (ffree 0 ?bs)\<rparr>"]) auto
qed

text \<open>What \<open>mem_malloc\<close> does for a request that \<open>LWIP_MEM_ALIGN_SIZE\<close> does not wrap around.\<close>

lemma mem_malloc_heap:
  assumes hp: "heap s bs" and sz: "sz \<noteq> 0" "unat sz \<le> 65532"
  defines "k \<equiv> request (unat sz)"
  shows "case find_fit k 0 bs of
      None \<Rightarrow> mem_malloc sz s = Some (NULL, s)
    | Some i \<Rightarrow> \<exists>as n cs s'. bs = as @ (n, False) # cs \<and> i = tot as \<and> k + 8 \<le> n \<and> find_fit k 0 as = None \<and>
        mem_malloc sz s = Some (hdr s (i + 8), s') \<and> heap s' (as @ take_block k n @ cs) \<and>
        (\<exists>N P U f. s' = s\<lparr>mem_next := N, mem_prev := P, mem_used := U, lfree := f\<rparr>)"
proof -
  note h = heapD [OF hp]
  note kp = request_props [of "unat sz", folded k_def]
  have k: "unat (of_nat k :: u16) = k" using kp(4) sz(2) by (intro unat_of_nat_u16) simp
  have m: "mem_malloc sz s = (if 16364 < k then Some (NULL, s) else do {
          found \<leftarrow> malloc_scan s (of_nat k) (ram_idx s (lfree s));
          case found of None \<Rightarrow> Some (NULL, s) | Some ptr \<Rightarrow> malloc_at (of_nat k) ptr s })"
    using sz k at_least_min_request [OF sz(2), folded k_def]
    by (simp add: mem_malloc_def MEM_SIZE_ALIGNED_def word_less_nat_alt Let_def)
  have t: "tot bs = 16364" using hseg_tot [OF h(6)] by simp
  obtain us where us: "bs = us @ dropWhile snd bs" "all_used us" "ffree 0 bs = tot us"
    using dropWhile_split [of bs 0] by auto
  have l: "tot us \<le> 16364" using us(1) t by (metis le_add1 tot_simps(3))
  have sg: "hseg s (if us = [] then 0 else tot (butlast us)) (tot us) (dropWhile snd bs) 16364"
    using h(6) us(1) hseg_append [of s 0 0 us "dropWhile snd bs" 16364] by auto
  have sc: "malloc_scan s (of_nat k) (ram_idx s (lfree s)) = Some (map_option of_nat (find_fit k 0 bs))" if "k \<le> 16364"
    using malloc_scan_spec [OF sg _ that] kp(1) l us(3) find_fit_ffree [of k 0 bs] by (simp add: h(8) ram_idx_hdr)
  show ?thesis
  proof (cases "find_fit k 0 bs")
    case None
    then show ?thesis using m sc by (simp add: not_less)
  next
    case (Some i)
    obtain as n cs where b: "bs = as @ (n, False) # cs" "i = tot as" "k + 8 \<le> n" "find_fit k 0 as = None"
      using find_fit_Some [OF Some] by auto
    have "k \<le> 16364" using b t by auto
    then have m': "mem_malloc sz s = malloc_at (of_nat k) (of_nat (tot as)) s" using m sc Some b(2) by simp
    from malloc_at_spec [OF hp [unfolded b(1)] kp(1) b(3) kp(2)] obtain s' where
      s': "malloc_at (of_nat k) (of_nat (tot as)) s = Some (hdr s (tot as + 8), s')" "heap s' (as @ take_block k n @ cs)"
      "\<exists>N P U f. s' = s\<lparr>mem_next := N, mem_prev := P, mem_used := U, lfree := f\<rparr>" by blast
    have s1: "mem_malloc sz s = Some (hdr s (i + 8), s')" unfolding m' s'(1) b(2) by (rule refl)
    show ?thesis unfolding Some option.case
      by (rule exI [of _ as], rule exI [of _ n], rule exI [of _ cs], rule exI [of _ s']) (intro conjI b s1 s'(2,3))
  qed
qed

section \<open>Release\<close>

text \<open>The blocks after the block of size \<open>n\<close> between \<open>as\<close> and \<open>cs\<close> has been freed and merged.\<close>

fun join_next :: "nat \<Rightarrow> blocks \<Rightarrow> blocks" where
  "join_next n ((m, False) # cs) = (n + m, False) # cs"
| "join_next n cs = (n, False) # cs"

definition join_prev :: "blocks \<Rightarrow> blocks \<Rightarrow> blocks" where
  "join_prev as bs = (if as \<noteq> [] \<and> \<not> snd (last as)
     then butlast as @ (fst (last as) + fst (hd bs), False) # tl bs else as @ bs)"

definition release_block :: "blocks \<Rightarrow> nat \<Rightarrow> blocks \<Rightarrow> blocks" where
  "release_block as n cs = join_prev as (join_next n cs)"

text \<open>The two halves of \<open>plug_holes\<close>.\<close>

definition plug_fwd :: "ptr \<Rightarrow> lw \<Rightarrow> lw" where
  "plug_fwd mem s =
     (let nmem = ram_at s (mem_next s mem)
      in if mem \<noteq> nmem \<and> mem_used s nmem = 0 \<and> nmem \<noteq> ram_end s then
           let s = (if lfree s = nmem then s\<lparr>lfree := mem\<rparr> else s);
               s = put_mem_next mem (mem_next s nmem) s
           in put_mem_prev (ram_at s (mem_next s nmem)) (ram_idx s mem) s
         else s)"

definition plug_bwd :: "ptr \<Rightarrow> lw \<Rightarrow> lw" where
  "plug_bwd mem s =
     (let pmem = ram_at s (mem_prev s mem)
      in if pmem \<noteq> mem \<and> mem_used s pmem = 0 then
           let s = (if lfree s = mem then s\<lparr>lfree := pmem\<rparr> else s);
               s = put_mem_next pmem (mem_next s mem) s
           in put_mem_prev (ram_at s (mem_next s mem)) (ram_idx s pmem) s
         else s)"

lemma plug_holes_split: "plug_holes mem s = plug_bwd mem (plug_fwd mem s)"
  unfolding plug_holes_def plug_fwd_def plug_bwd_def Let_def by (rule refl)

text \<open>The heap apart from \<open>lfree\<close> and the merging.\<close>

definition heap0 :: "lw \<Rightarrow> blocks \<Rightarrow> bool" where
  "heap0 s bs \<longleftrightarrow> ram s \<noteq> NULL \<and> 4 dvd unat (ram s) \<and> unat (ram s) + 16384 < 4294967296 \<and>
     ram_end s = hdr s 16364 \<and> mem_used s (ram_end s) = 1 \<and> hseg s 0 0 bs 16364"

lemma heap0D:
  assumes "heap0 s bs"
  shows "ram s \<noteq> NULL" "4 dvd unat (ram s)" "unat (ram s) + 16384 < 4294967296" "ram_end s = hdr s 16364"
    "mem_used s (ram_end s) = 1" "hseg s 0 0 bs 16364"
  using assms unfolding heap0_def by blast+

lemma heap_heap0: "heap s bs \<longleftrightarrow> heap0 s bs \<and> merged bs \<and> lfree s = hdr s (ffree 0 bs)"
  unfolding heap_def heap0_def by blast

lemma plug_fwd_spec:
  assumes "heap0 s (as @ (n, False) # cs)" "lfree s = hdr s l" "l \<le> tot as"
  shows "heap0 (plug_fwd (hdr s (tot as)) s) (as @ join_next n cs) \<and>
    (\<exists>N P. plug_fwd (hdr s (tot as)) s = s\<lparr>mem_next := N, mem_prev := P\<rparr>)"
proof -
  note h = heap0D [OF assms(1)]
  let ?i = "tot as" and ?p = "if as = [] then 0 else tot (butlast as)"
  note eq = hdr_eq [OF h(3)]
  have sg: "hseg s ?p ?i [(n, False)] (?i + n)" "hseg s ?i (?i + n) cs 16364"
    using h(6) unfolding hseg_append by auto
  have t: "16364 = ?i + n + tot cs" "20 \<le> n" "4 dvd n" using hseg_tot [OF h(6)] sg(1) by auto
  have at: "ram_at s (of_nat j) = hdr s j" "ram_idx s (hdr s j) = of_nat j" if "j \<le> 16364" for j
    using that by (simp_all add: ram_at_hdr ram_idx_hdr)
  have nx: "mem_next s (hdr s ?i) = of_nat (?i + n)" "ram_at s (of_nat (?i + n)) = hdr s (?i + n)"
    using sg(1) t at(1) [of "?i + n"] by auto
  consider (join) m ds where "cs = (m, False) # ds" | (no) "join_next n cs = (n, False) # cs" "cs = [] \<or> snd (hd cs)"
    by (cases "(n, cs)" rule: join_next.cases) auto
  then show ?thesis
  proof cases
    case join
    have t2: "16364 = ?i + n + m + tot ds" "20 \<le> m" "4 dvd m" using t sg(2) join by auto
    have nm: "mem_next s (hdr s (?i + n)) = of_nat (?i + n + m)" "mem_used s (hdr s (?i + n)) = 0"
      using sg(2) join by auto
    let ?N = "(mem_next s)(hdr s ?i := of_nat (?i + n + m))" and ?P = "(mem_prev s)(hdr s (?i + n + m) := of_nat ?i)"
    let ?s = "s\<lparr>mem_next := ?N, mem_prev := ?P\<rparr>"
    have "hdr s l \<noteq> hdr s (?i + n)" "hdr s ?i \<noteq> hdr s (?i + n)" "hdr s (?i + n) \<noteq> hdr s 16364"
      using t2 t(2) assms(3) by (simp_all add: eq)
    then have run: "plug_fwd (hdr s ?i) s = ?s"
      using nx nm assms(2) h(4) at(2) [of ?i] at(1) [of "?i + n + m"] t2
      by (simp add: plug_fwd_def Let_def del: of_nat_add)
    have mid: "hseg ?s ?p ?i [(n + m, False)] (?i + (n + m))"
      using sg(1) t t2 by (auto simp: eq add.assoc simp del: of_nat_add)
    have "hseg ?s 0 0 (as @ [(n + m, False)] @ ds) 16364"
      by (rule hseg_replace [of s as "[(n, False), (m, False)]"])
        (use h(6) join t t2 mid in \<open>auto simp: eq add.assoc simp del: of_nat_add\<close>)
    then have "heap0 ?s (as @ join_next n cs)" using h by (simp add: heap0_def join)
    then show ?thesis using run by (intro conjI exI) auto
  next
    case no
    have "\<not> (hdr s ?i \<noteq> hdr s (?i + n) \<and> mem_used s (hdr s (?i + n)) = 0 \<and> hdr s (?i + n) \<noteq> ram_end s)"
      using no(2) sg(2) h(4) by (cases cs) auto
    then have "plug_fwd (hdr s ?i) s = s" unfolding plug_fwd_def Let_def nx by (rule if_not_P)
    then show ?thesis using no(1) assms(1)
      by (intro conjI exI [of _ "mem_next s"] exI [of _ "mem_prev s"]) simp_all
  qed
qed

lemma plug_bwd_spec:
  assumes "heap0 s (as @ (n, False) # cs)" "lfree s = hdr s l" "l \<le> tot as" "as \<noteq> [] \<Longrightarrow> \<not> snd (last as) \<Longrightarrow> l \<noteq> tot as"
  shows "heap0 (plug_bwd (hdr s (tot as)) s) (join_prev as ((n, False) # cs)) \<and>
    (\<exists>N P. plug_bwd (hdr s (tot as)) s = s\<lparr>mem_next := N, mem_prev := P\<rparr>)"
proof -
  note h = heap0D [OF assms(1)]
  let ?i = "tot as" and ?p = "if as = [] then 0 else tot (butlast as)"
  note eq = hdr_eq [OF h(3)]
  have sg: "hseg s 0 0 as ?i" "hseg s ?p ?i [(n, False)] (?i + n)"
    using h(6) unfolding hseg_append by auto
  have t: "16364 = ?i + n + tot cs" "20 \<le> n" "4 dvd n" using hseg_tot [OF h(6)] sg(2) by auto
  have at: "ram_at s (of_nat j) = hdr s j" "ram_idx s (hdr s j) = of_nat j" if "j \<le> 16364" for j
    using that by (simp_all add: ram_at_hdr ram_idx_hdr)
  have nx: "mem_next s (hdr s ?i) = of_nat (?i + n)" "mem_prev s (hdr s ?i) = of_nat ?p" using sg(2) by auto
  have pl: "?p \<le> ?i" by (cases as rule: rev_cases) auto
  have pr: "ram_at s (of_nat ?p) = hdr s ?p" using pl t by (intro at(1)) linarith
  show ?thesis
  proof (cases "as = [] \<or> snd (last as)")
    case False
    then obtain as' m where join: "as = as' @ [(m, False)]" by (cases as rule: rev_cases) auto
    have s2: "hseg s (if as' = [] then 0 else tot (butlast as')) (tot as') [(m, False)] ?i" and p: "?p = tot as'"
      using sg(1) unfolding join hseg_append by auto
    have t2: "?i = tot as' + m" "20 \<le> m" "4 dvd m" using s2 by auto
    let ?N = "(mem_next s)(hdr s ?p := of_nat (?i + n))" and ?P = "(mem_prev s)(hdr s (?i + n) := of_nat ?p)"
    let ?s = "s\<lparr>mem_next := ?N, mem_prev := ?P\<rparr>"
    have us: "mem_used s (hdr s ?p) = 0" using s2 p by auto
    have "hdr s ?p \<noteq> hdr s ?i" using t t2 p by (simp add: eq)
    moreover have "hdr s l \<noteq> hdr s ?i" using assms(3,4) join t by (simp add: eq)
    ultimately have run: "plug_bwd (hdr s ?i) s = ?s"
      using nx pr us assms(2) at(2) [of ?p] at(1) [of "?i + n"] t p t2
      by (simp add: plug_bwd_def Let_def del: of_nat_add)
    have mid: "hseg ?s (if as' = [] then 0 else tot (butlast as')) (tot as') [(m + n, False)] (tot as' + (m + n))"
      using s2 t t2 p by (auto simp: eq add.assoc simp del: of_nat_add)
    have "hseg ?s 0 0 (as' @ [(m + n, False)] @ cs) 16364"
      by (rule hseg_replace [of s as' "[(m, False), (n, False)]"])
        (use h(6) join t t2 p mid in \<open>auto simp: eq add.assoc simp del: of_nat_add\<close>)
    then have "heap0 ?s (join_prev as ((n, False) # cs))" using h by (simp add: heap0_def join join_prev_def)
    then show ?thesis using run by (intro conjI exI) auto
  next
    case no: True
    have "\<not> (hdr s ?p \<noteq> hdr s ?i \<and> mem_used s (hdr s ?p) = 0)"
    proof (cases as rule: rev_cases)
      case (snoc as' b)
      then have "hseg s (if as' = [] then 0 else tot (butlast as')) (tot as') [b] ?i" "?p = tot as'"
        using sg(1) unfolding snoc hseg_append by auto
      then show ?thesis using no snoc by (cases b) auto
    qed simp
    then have "plug_bwd (hdr s ?i) s = s" unfolding plug_bwd_def Let_def nx(2) pr by (rule if_not_P)
    moreover have "join_prev as ((n, False) # cs) = as @ (n, False) # cs" using no by (auto simp: join_prev_def)
    ultimately show ?thesis using assms(1)
      by (intro conjI exI [of _ "mem_next s"] exI [of _ "mem_prev s"]) simp_all
  qed
qed

lemma join_next_eq: "\<exists>m ds. join_next n cs = (m, False) # ds"
  by (cases "(n, cs)" rule: join_next.cases) auto

lemma ffree_release: "ffree 0 (release_block as n cs) = ffree 0 (as @ (n, False) # cs)"
proof -
  obtain m ds where j: "join_next n cs = (m, False) # ds" using join_next_eq by blast
  have f: "ffree 0 (as @ (k, False) # xs) = (if all_used as then tot as else ffree 0 as)" for as k xs
    using ffree_used [of as 0] ffree_free [of as 0] by simp
  show ?thesis
  proof (cases "as = [] \<or> snd (last as)")
    case True
    then show ?thesis by (auto simp: release_block_def join_prev_def j f)
  next
    case False
    then obtain as' k where "as = as' @ [(k, False)]" by (cases as rule: rev_cases) auto
    then show ?thesis by (simp add: release_block_def join_prev_def j f)
  qed
qed

lemma merged_release: "merged (as @ (n, True) # cs) \<Longrightarrow> merged (release_block as n cs)"
proof -
  assume m: "merged (as @ (n, True) # cs)"
  then have "merged (join_next n cs)"
    by (cases "(n, cs)" rule: join_next.cases) (auto simp: merged_append merged_Cons)
  moreover have "merged as" using m by (simp add: merged_append)
  moreover obtain k ds where j: "join_next n cs = (k, False) # ds" using join_next_eq by blast
  ultimately show ?thesis
  proof (cases "as = [] \<or> snd (last as)")
    case False
    then obtain as' l where "as = as' @ [(l, False)]" by (cases as rule: rev_cases) auto
    then show ?thesis using m \<open>merged (join_next n cs)\<close>
      by (auto simp: release_block_def join_prev_def j merged_append merged_Cons)
  qed (auto simp: release_block_def join_prev_def merged_append)
qed

lemma mem_free_heap:
  assumes hp: "heap s (as @ (n, True) # cs)"
  shows "heap (mem_free (hdr s (tot as + 8)) s) (release_block as n cs) \<and>
    (\<exists>N P U f. mem_free (hdr s (tot as + 8)) s = s\<lparr>mem_next := N, mem_prev := P, mem_used := U, lfree := f\<rparr>)"
proof -
  note h = heapD [OF hp]
  let ?i = "tot as" and ?bs = "as @ (n, False) # cs"
  note eq = hdr_eq [OF h(3)]
  have sg: "hseg s (if as = [] then 0 else tot (butlast as)) ?i [(n, True)] (?i + n)" "hseg s ?i (?i + n) cs 16364"
    using h(6) unfolding hseg_append by auto
  have t: "16364 = ?i + n + tot cs" "20 \<le> n" using hseg_tot [OF h(6)] sg(1) by auto
  have pv: "mem_prev s (hdr s (?i + n)) = of_nat ?i" if "?i + n < 16364" using sg(2) t that by (cases cs) auto
  have f: "ffree 0 ?bs = (if ?i < ffree 0 (as @ (n, True) # cs) then ?i else ffree 0 (as @ (n, True) # cs))"
  proof (cases "all_used as")
    case True
    then show ?thesis using ffree_used [of as 0] ffree_bounds [of "?i + n" cs] t(2) by simp
  next
    case False
    have "0 < fst b" if "b \<in> set as" for b using hseg_pos [OF h(6), of b] that by auto
    then show ?thesis using ffree_free [OF False, of 0] ffree_lt [OF False, of 0] by simp
  qed
  have fl: "ffree 0 (as @ (n, True) # cs) \<le> 16364" using ffree_bounds [of 0 "as @ (n, True) # cs"] t by simp
  define u where "u = s\<lparr>mem_used := (mem_used s)(hdr s ?i := 0), lfree := hdr s (ffree 0 ?bs)\<rparr>"
  have "hseg (s\<lparr>mem_used := (mem_used s)(hdr s ?i := 0)\<rparr>) 0 0 (as @ [(n, False)] @ cs) 16364"
    by (rule hseg_replace [of s as "[(n, True)]"]) (use h(6) t pv sg(1) in \<open>auto simp: eq\<close>)
  then have u0: "heap0 u ?bs" using hseg_lfree h(1-5) t by (simp add: heap0_def u_def eq)
  have "hdr s (?i + 8) - ucast SIZEOF_STRUCT_MEM = hdr s ?i" by (simp add: hdr_def SIZEOF_STRUCT_MEM_def)
  moreover have "\<not> (hdr s (?i + 8) < ram s \<or> hdr s (?i + 8) \<ge> ram_end s)"
    using h(3,4) t hdr_unat [OF h(3), of "?i + 8"] by (auto simp: word_less_nat_alt word_le_nat_alt hdr_unat)
  moreover have "hdr s (?i + 8) \<noteq> NULL" using hdr_nonnull [OF h(1,3)] t by simp
  moreover have "hdr s ?i < lfree s \<longleftrightarrow> ?i < ffree 0 (as @ (n, True) # cs)"
    using t fl by (simp add: h(8) hdr_less [OF h(3)])
  moreover have "(if ?i < ffree 0 (as @ (n, True) # cs) then s\<lparr>mem_used := (mem_used s)(hdr s ?i := 0), lfree := hdr s ?i\<rparr>
      else s\<lparr>mem_used := (mem_used s)(hdr s ?i := 0)\<rparr>) = u"
    by (simp add: u_def f h(8) [symmetric])
  ultimately have run: "mem_free (hdr s (?i + 8)) s = plug_holes (hdr s ?i) u"
    by (simp add: mem_free_def Let_def split: if_splits)
  obtain m ds where j: "join_next n cs = (m, False) # ds" using join_next_eq by blast
  have lu: "lfree u = hdr u (ffree 0 ?bs)" "hdr u = hdr s" by (simp_all add: u_def fun_eq_iff)
  have le: "ffree 0 ?bs \<le> ?i" using f by auto
  from plug_fwd_spec [OF u0 lu(1) le] obtain N P where fw: "plug_fwd (hdr s ?i) u = u\<lparr>mem_next := N, mem_prev := P\<rparr>"
    "heap0 (plug_fwd (hdr s ?i) u) (as @ (m, False) # ds)" by (auto simp: j lu(2))
  let ?v = "plug_fwd (hdr s ?i) u"
  have lv: "lfree ?v = hdr ?v (ffree 0 ?bs)" "hdr ?v = hdr s" using fw(1) lu by (simp_all add: fun_eq_iff)
  have nl: "as \<noteq> [] \<Longrightarrow> \<not> snd (last as) \<Longrightarrow> ffree 0 ?bs \<noteq> ?i"
  proof -
    assume "as \<noteq> []" "\<not> snd (last as)"
    then have "\<not> all_used as" by (auto simp: all_used_def)
    moreover have "0 < fst b" if "b \<in> set as" for b using hseg_pos [OF h(6), of b] that by auto
    ultimately show ?thesis using ffree_free [of as 0] ffree_lt [of as 0] by simp
  qed
  from plug_bwd_spec [OF fw(2) lv(1) le nl] obtain N' P' where bw: "plug_bwd (hdr s ?i) ?v = ?v\<lparr>mem_next := N', mem_prev := P'\<rparr>"
    "heap0 (plug_bwd (hdr s ?i) ?v) (release_block as n cs)" by (auto simp: lv(2) release_block_def j)
  have "lfree (plug_bwd (hdr s ?i) ?v) = hdr (plug_bwd (hdr s ?i) ?v) (ffree 0 (release_block as n cs))"
    using bw(1) lv by (simp add: ffree_release)
  then have "heap (mem_free (hdr s (?i + 8)) s) (release_block as n cs)"
    using bw(2) merged_release [OF h(7)] by (simp add: heap_heap0 run plug_holes_split)
  moreover have "mem_free (hdr s (?i + 8)) s = s\<lparr>mem_next := N', mem_prev := P',
      mem_used := (mem_used s)(hdr s ?i := 0), lfree := hdr s (ffree 0 ?bs)\<rparr>"
    using bw(1) fw(1) by (simp add: run plug_holes_split u_def)
  ultimately show ?thesis by blast
qed

section \<open>Shrinking a block\<close>

text \<open>The blocks from the shrunk block on: the rest goes to a free block behind it, or into a new one.\<close>

fun trim_block :: "nat \<Rightarrow> nat \<Rightarrow> blocks \<Rightarrow> blocks" where
  "trim_block k n ((m, False) # cs) = (k + 8, True) # (m + (n - (k + 8)), False) # cs"
| "trim_block k n cs = (if k + 28 \<le> n then (k + 8, True) # (n - (k + 8), False) # cs else (n, True) # cs)"

lemma put_split_spec:
  assumes h: "heap0 s (as @ ms @ cs)" "hd ms = (n, True)" "ms \<noteq> []" "e = tot as + tot ms"
    and k: "12 \<le> k" "4 dvd k" "k + 28 \<le> tot ms"
  shows "\<exists>N P U. put_split (hdr s (tot as)) (of_nat (tot as)) (of_nat (tot as + (k + 8))) (of_nat e) s =
      s\<lparr>mem_next := N, mem_prev := P, mem_used := U\<rparr> \<and>
    heap0 (s\<lparr>mem_next := N, mem_prev := P, mem_used := U\<rparr>) (as @ [(k + 8, True), (tot ms - (k + 8), False)] @ cs)"
proof -
  note h0 = heap0D [OF h(1)]
  let ?i = "tot as" and ?p = "if as = [] then 0 else tot (butlast as)"
  let ?q = "?i + (k + 8)"
  note eq = hdr_eq [OF h0(3)]
  have sg: "hseg s ?p ?i ms e" using h0(6) h(4) unfolding hseg_append by auto
  have t: "16364 = e + tot cs" using hseg_tot [OF h0(6)] h(4) by simp
  have hd0: "mem_prev s (hdr s ?i) = of_nat ?p" "mem_used s (hdr s ?i) = 1" using sg h(2,3) by (cases ms; auto)+
  have dv: "4 dvd tot ms - (k + 8)"
  proof -
    have "4 dvd tot ms" using hseg_pos [OF sg] by (induction ms) auto
    then show ?thesis using k(2) by (intro dvd_diff_nat) auto
  qed
  define N where "N = (mem_next s)(hdr s ?q := of_nat e, hdr s ?i := of_nat ?q)"
  define U where "U = (mem_used s)(hdr s ?q := 0)"
  define P where "P = (if e = 16364 then (mem_prev s)(hdr s ?q := of_nat ?i)
    else (mem_prev s)(hdr s ?q := of_nat ?i, hdr s e := of_nat ?q))"
  let ?s = "s\<lparr>mem_next := N, mem_prev := P, mem_used := U\<rparr>"
  have ne: "hdr s ?q \<noteq> hdr s ?i" "hdr s ?i \<noteq> hdr s ?q" "hdr s ?q \<noteq> hdr s e" using t h(4) k by (simp_all add: eq)
  have e: "(of_nat e :: u16) = MEM_SIZE_ALIGNED \<longleftrightarrow> e = 16364"
    using t by (auto simp: MEM_SIZE_ALIGNED_def word_unat_eq_iff unat_of_nat_u16)
  have "ram_at s (of_nat ?q) = hdr s ?q" "ram_at s (of_nat e) = hdr s e" using t h(4) k by (simp_all add: ram_at_hdr del: of_nat_add)
  then have run: "put_split (hdr s ?i) (of_nat ?i) (of_nat ?q) (of_nat e) s = ?s"
    using ne e by (auto simp: put_split_def Let_def N_def P_def U_def simp del: of_nat_add)
  have "P (hdr s ?i) = of_nat ?p" "P (hdr s ?q) = of_nat ?i" using t h(4) k hd0 by (auto simp: P_def eq)
  then have mid: "hseg ?s ?p ?i [(k + 8, True), (tot ms - (k + 8), False)] e"
    using t h(4) k dv hd0 by (auto simp: N_def U_def eq add.assoc simp del: of_nat_add)
  have "hseg ?s 0 0 (as @ [(k + 8, True), (tot ms - (k + 8), False)] @ cs) 16364"
    by (rule hseg_replace [OF h0(6), of ?s])
      (use h(3,4) t k mid in \<open>auto simp: N_def P_def U_def eq simp del: of_nat_add\<close>)
  then have "heap0 ?s (as @ [(k + 8, True), (tot ms - (k + 8), False)] @ cs)"
    using h0(1-5) t h(4) k by (simp add: heap0_def U_def eq)
  with run show ?thesis by blast
qed

lemma heap0_lfree: "heap0 (s\<lparr>lfree := f\<rparr>) bs \<longleftrightarrow> heap0 s bs"
  using hseg_lfree [of s 0 0 bs 16364 f] hseg_lfree [of "s\<lparr>lfree := f\<rparr>" 0 0 bs 16364 "lfree s"] by (auto simp: heap0_def)

lemma heap_put_split:
  assumes hp: "heap s (as @ ms @ cs)" "hd ms = (n, True)" "ms \<noteq> []" "e = tot as + tot ms"
    and k: "12 \<le> k" "4 dvd k" "k + 28 \<le> tot ms"
    and cs: "cs = [] \<or> snd (hd cs)" and f: "f = hdr s (if all_used as then tot as + (k + 8) else ffree 0 as)"
  shows "heap (put_split (hdr s (tot as)) (of_nat (tot as)) (of_nat (tot as + (k + 8))) (of_nat e) (s\<lparr>lfree := f\<rparr>))
      (as @ (k + 8, True) # (tot ms - (k + 8), False) # cs) \<and>
    (\<exists>N P U f'. put_split (hdr s (tot as)) (of_nat (tot as)) (of_nat (tot as + (k + 8))) (of_nat e) (s\<lparr>lfree := f\<rparr>) =
      s\<lparr>mem_next := N, mem_prev := P, mem_used := U, lfree := f'\<rparr>)"
proof -
  let ?bs = "as @ (k + 8, True) # (tot ms - (k + 8), False) # cs"
  have "heap0 (s\<lparr>lfree := f\<rparr>) (as @ ms @ cs)" using hp(1) by (simp add: heap_heap0 heap0_lfree)
  from put_split_spec [OF this hp(2-4) k] obtain N P U where
    u: "put_split (hdr s (tot as)) (of_nat (tot as)) (of_nat (tot as + (k + 8))) (of_nat e) (s\<lparr>lfree := f\<rparr>) =
      s\<lparr>lfree := f, mem_next := N, mem_prev := P, mem_used := U\<rparr>"
    "heap0 (s\<lparr>lfree := f, mem_next := N, mem_prev := P, mem_used := U\<rparr>) ?bs" by auto
  have "merged ?bs" using heapD(7) [OF hp(1)] hp(2,3) cs by (auto simp: merged_append merged_Cons hd_append)
  moreover have "ffree 0 ?bs = (if all_used as then tot as + (k + 8) else ffree 0 as)"
    using ffree_used [of as 0] ffree_free [of as 0] by simp
  ultimately have "heap (s\<lparr>lfree := f, mem_next := N, mem_prev := P, mem_used := U\<rparr>) ?bs"
    using u(2) f by (simp add: heap_heap0)
  then show ?thesis unfolding u(1)
    by (intro conjI exI [of _ N] exI [of _ P] exI [of _ U] exI [of _ f]) simp_all
qed

text \<open>The three ways in which \<open>mem_trim\<close> writes the headers.\<close>

lemma trim_writes:
  assumes hp: "heap s (as @ (n, True) # cs)" and k: "12 \<le> k" "4 dvd k" "k + 8 \<le> n"
  shows "\<exists>s'. (if k + 8 = n then s
      else if mem_used s (hdr s (tot as + n)) = 0 then
        put_split (hdr s (tot as)) (of_nat (tot as)) (of_nat (tot as + (k + 8))) (mem_next s (hdr s (tot as + n)))
          (if lfree s = hdr s (tot as + n) then s\<lparr>lfree := hdr s (tot as + (k + 8))\<rparr> else s)
      else if k + 28 \<le> n then
        put_split (hdr s (tot as)) (of_nat (tot as)) (of_nat (tot as + (k + 8))) (of_nat (tot as + n))
          (if hdr s (tot as + (k + 8)) < lfree s then s\<lparr>lfree := hdr s (tot as + (k + 8))\<rparr> else s)
      else s) = s' \<and> heap s' (as @ trim_block k n cs) \<and>
      (\<exists>N P U f. s' = s\<lparr>mem_next := N, mem_prev := P, mem_used := U, lfree := f\<rparr>)"
proof -
  note h = heapD [OF hp]
  let ?i = "tot as"
  let ?q = "?i + (k + 8)"
  have sg: "hseg s (if as = [] then 0 else tot (butlast as)) ?i [(n, True)] (?i + n)" "hseg s ?i (?i + n) cs 16364"
    using h(6) unfolding hseg_append by auto
  have t: "16364 = ?i + n + tot cs" "20 \<le> n" "4 dvd n" using hseg_tot [OF h(6)] sg(1) by auto
  have id: "\<exists>N P U f. s = s\<lparr>mem_next := N, mem_prev := P, mem_used := U, lfree := f\<rparr>"
    by (intro exI [of _ "mem_next s"] exI [of _ "mem_prev s"] exI [of _ "mem_used s"] exI [of _ "lfree s"]) simp
  have fa: "ffree 0 as < ?i" if "\<not> all_used as"
  proof -
    have "0 < fst b" if "b \<in> set as" for b using hseg_pos [OF h(6), of b] that by auto
    then show ?thesis using ffree_lt [OF that, of 0] by simp
  qed
  have ff: "lfree s = hdr s (if all_used as then ffree (?i + n) cs else ffree 0 as)"
    using h(8) ffree_used [of as 0] ffree_free [of as 0] by simp
  have fb: "ffree (?i + n) cs \<le> 16364" "?i + n \<le> ffree (?i + n) cs" using ffree_bounds [of "?i + n" cs] t by auto
  consider (same) "k + 8 = n" | (move) m ds where "k + 8 \<noteq> n" "cs = (m, False) # ds"
    | (used) "k + 8 \<noteq> n" "cs = [] \<or> snd (hd cs)"
    by (cases "k + 8 = n"; cases "cs = [] \<or> snd (hd cs)"; cases cs) auto
  then show ?thesis
  proof cases
    case same
    then have "trim_block k n cs = (n, True) # cs" by (cases "(k, n, cs)" rule: trim_block.cases) auto
    then show ?thesis using same hp id by simp
  next
    case move
    have nx: "mem_used s (hdr s (?i + n)) = 0" "mem_next s (hdr s (?i + n)) = of_nat (?i + (n + m))"
      using sg(2) move by (auto simp: add.assoc)
    have m: "20 \<le> m" "16364 = ?i + n + m + tot ds" using sg(2) move t by auto
    have kd: "k + 28 \<le> n + m" using k move(1) m by simp
    have ms: "ds = [] \<or> snd (hd ds)" using h(7) move by (auto simp: merged_append merged_Cons)
    have f: "(if lfree s = hdr s (?i + n) then s\<lparr>lfree := hdr s ?q\<rparr> else s) =
        s\<lparr>lfree := hdr s (if all_used as then ?q else ffree 0 as)\<rparr>"
    proof (cases "all_used as")
      case True
      then show ?thesis using ff move by simp
    next
      case False
      then have l: "lfree s = hdr s (ffree 0 as)" using ff by simp
      moreover have "hdr s (ffree 0 as) \<noteq> hdr s (?i + n)" using fa [OF False] m by (simp add: hdr_eq [OF h(3)])
      ultimately show ?thesis using False by (simp add: l [symmetric])
    qed
    have "heap s (as @ [(n, True), (m, False)] @ ds)" using hp move by simp
    from heap_put_split [OF this, of n "?i + (n + m)" k] kd k ms nx move f show ?thesis by (auto simp: add.commute)
  next
    case used
    have nx: "mem_used s (hdr s (?i + n)) \<noteq> 0" using sg(2) used h(4,5) by (cases cs) auto
    have tb: "trim_block k n cs = (if k + 28 \<le> n then (k + 8, True) # (n - (k + 8), False) # cs else (n, True) # cs)"
      using used by (cases "(k, n, cs)" rule: trim_block.cases) auto
    have f: "(if hdr s ?q < lfree s then s\<lparr>lfree := hdr s ?q\<rparr> else s) =
        s\<lparr>lfree := hdr s (if all_used as then ?q else ffree 0 as)\<rparr>" if "k + 28 \<le> n"
    proof (cases "all_used as")
      case True
      have "hdr s ?q < hdr s (ffree (?i + n) cs)" using fb that by (simp add: hdr_less [OF h(3)])
      then show ?thesis using ff True by simp
    next
      case False
      then have l: "lfree s = hdr s (ffree 0 as)" using ff by simp
      moreover have "\<not> hdr s ?q < hdr s (ffree 0 as)" using fa [OF False] t that by (simp add: hdr_less [OF h(3)])
      ultimately show ?thesis using False by (simp add: l [symmetric])
    qed
    show ?thesis
    proof (cases "k + 28 \<le> n")
      case True
      have hp': "heap s (as @ [(n, True)] @ cs)" using hp by simp
      have "tot [(n, True)] = n" "k + 28 \<le> tot [(n, True)]" using True by simp_all
      note g = heap_put_split [OF hp' _ _ _ k(1,2) this(2) used(2) refl, of n "?i + n", unfolded this(1)]
      show ?thesis unfolding if_not_P [OF used(1)] if_not_P [OF nx] if_P [OF True] f [OF True] tb
        using g by simp
    next
      case False
      then show ?thesis using used nx tb hp id by simp
    qed
  qed
qed

text \<open>The body of \<open>mem_trim\<close> for a block of the heap that is big enough.\<close>

lemma mem_trim_split:
  assumes "newsize = at_least_min (LWIP_MEM_ALIGN_SIZE sz)" "\<not> newsize > MEM_SIZE_ALIGNED"
    and "\<not> (rmem < ram s \<or> rmem \<ge> ram_end s)" "mem = rmem - ucast SIZEOF_STRUCT_MEM"
    and "old = mem_next s mem - ram_idx s mem - SIZEOF_STRUCT_MEM" "newsize \<le> old"
    and "ptr2 = ram_idx s mem + SIZEOF_STRUCT_MEM + newsize" "mem2 = ram_at s (mem_next s mem)"
  shows "mem_trim rmem sz s = (rmem,
    if newsize = old then s
    else if mem_used s mem2 = 0 then
      put_split mem (ram_idx s mem) ptr2 (mem_next s mem2) (if lfree s = mem2 then s\<lparr>lfree := ram_at s ptr2\<rparr> else s)
    else if (ucast newsize + ucast SIZEOF_STRUCT_MEM + ucast MIN_SIZE_ALIGNED :: u32) \<le> ucast old then
      put_split mem (ram_idx s mem) ptr2 (mem_next s mem) (if ram_at s ptr2 < lfree s then s\<lparr>lfree := ram_at s ptr2\<rparr> else s)
    else s)"
  using assms(2,3,6) unfolding mem_trim_def assms(1) [symmetric] assms(4) [symmetric] Let_def
    assms(5) [symmetric] assms(7) [symmetric] assms(8) [symmetric]
  by (simp add: not_le [symmetric])

lemma mem_trim_heap:
  assumes hp: "heap s (as @ (n, True) # cs)" and sz: "unat sz \<le> 65532"
  defines "k \<equiv> request (unat sz)"
  assumes kn: "k + 8 \<le> n"
  shows "\<exists>s'. mem_trim (hdr s (tot as + 8)) sz s = (hdr s (tot as + 8), s') \<and> heap s' (as @ trim_block k n cs) \<and>
    (\<exists>N P U f. s' = s\<lparr>mem_next := N, mem_prev := P, mem_used := U, lfree := f\<rparr>)"
proof -
  note h = heapD [OF hp]
  note kp = request_props [of "unat sz", folded k_def]
  let ?i = "tot as"
  let ?q = "?i + (k + 8)"
  have h0: "heap0 s (as @ (n, True) # cs)" using hp by (simp add: heap_heap0)
  have sg: "hseg s (if as = [] then 0 else tot (butlast as)) ?i [(n, True)] (?i + n)" "hseg s ?i (?i + n) cs 16364"
    using h(6) unfolding hseg_append by auto
  have t: "16364 = ?i + n + tot cs" "20 \<le> n" "4 dvd n" using hseg_tot [OF h(6)] sg(1) by auto
  have nx: "mem_next s (hdr s ?i) = of_nat (?i + n)" using sg(1) by simp
  have at: "ram_at s (of_nat j) = hdr s j" "ram_idx s (hdr s j) = of_nat j" if "j \<le> 16364" for j
    using that by (simp_all add: ram_at_hdr ram_idx_hdr)
  have ku: "unat (of_nat k :: u16) = k" using t kn by (intro unat_of_nat_u16) simp
  have nu: "unat (of_nat (n - 8) :: u16) = n - 8" using t by (intro unat_of_nat_u16) simp
  have old: "of_nat (n - 8) = mem_next s (hdr s ?i) - ram_idx s (hdr s ?i) - SIZEOF_STRUCT_MEM"
    using t nx at(2) [of ?i] by (simp add: SIZEOF_STRUCT_MEM_def of_nat_diff)
  have p2: "of_nat ?q = ram_idx s (hdr s ?i) + SIZEOF_STRUCT_MEM + of_nat k"
    using t at(2) [of ?i] by (simp add: SIZEOF_STRUCT_MEM_def)
  have m2: "hdr s (?i + n) = ram_at s (mem_next s (hdr s ?i))" using nx at(1) [of "?i + n"] t by (simp del: of_nat_add)
  have mm: "hdr s ?i = hdr s (?i + 8) - ucast SIZEOF_STRUCT_MEM" by (simp add: hdr_def SIZEOF_STRUCT_MEM_def)
  have rg: "\<not> (hdr s (?i + 8) < ram s \<or> hdr s (?i + 8) \<ge> ram_end s)"
    using h(3,4) t hdr_unat [OF h(3), of "?i + 8"] by (auto simp: word_less_nat_alt word_le_nat_alt hdr_unat)
  have le: "(of_nat k :: u16) \<le> of_nat (n - 8)" using ku nu kn by (simp add: word_le_nat_alt del: of_nat_diff)
  have nb: "\<not> (of_nat k :: u16) > MEM_SIZE_ALIGNED"
    using ku kn t by (simp add: MEM_SIZE_ALIGNED_def word_less_nat_alt)
  have c: "(ucast (of_nat k :: u16) + ucast SIZEOF_STRUCT_MEM + ucast MIN_SIZE_ALIGNED :: u32) \<le> ucast (of_nat (n - 8) :: u16)
      \<longleftrightarrow> k + 28 \<le> n"
    using ku nu t kn by (auto simp: word_le_nat_alt unat_word_ariths SIZEOF_STRUCT_MEM_def MIN_SIZE_ALIGNED_def simp del: of_nat_diff)
  note run = mem_trim_split [OF at_least_min_request [OF sz, folded k_def, symmetric] nb rg mm old le p2 m2]
  have aq: "ram_at s (of_nat ?q) = hdr s ?q" using t kn by (intro at(1)) simp
  have eqk: "(of_nat k :: u16) = of_nat (n - 8) \<longleftrightarrow> k + 8 = n"
    using ku nu t by (auto simp: word_unat_eq_iff simp del: of_nat_diff)
  have "mem_trim (hdr s (?i + 8)) sz s = (hdr s (?i + 8), if k + 8 = n then s
      else if mem_used s (hdr s (?i + n)) = 0 then
        put_split (hdr s ?i) (of_nat ?i) (of_nat ?q) (mem_next s (hdr s (?i + n)))
          (if lfree s = hdr s (?i + n) then s\<lparr>lfree := hdr s ?q\<rparr> else s)
      else if k + 28 \<le> n then
        put_split (hdr s ?i) (of_nat ?i) (of_nat ?q) (of_nat (?i + n)) (if hdr s ?q < lfree s then s\<lparr>lfree := hdr s ?q\<rparr> else s)
      else s)"
    using run at(2) [of ?i] t unfolding c eqk aq nx by (simp del: of_nat_add)
  moreover have "\<exists>s'. (if k + 8 = n then s
      else if mem_used s (hdr s (?i + n)) = 0 then
        put_split (hdr s ?i) (of_nat ?i) (of_nat ?q) (mem_next s (hdr s (?i + n)))
          (if lfree s = hdr s (?i + n) then s\<lparr>lfree := hdr s ?q\<rparr> else s)
      else if k + 28 \<le> n then
        put_split (hdr s ?i) (of_nat ?i) (of_nat ?q) (of_nat (?i + n)) (if hdr s ?q < lfree s then s\<lparr>lfree := hdr s ?q\<rparr> else s)
      else s) = s' \<and> heap s' (as @ trim_block k n cs) \<and>
      (\<exists>N P U f. s' = s\<lparr>mem_next := N, mem_prev := P, mem_used := U, lfree := f\<rparr>)"
    by (rule trim_writes [OF hp kp(1,2) kn])
  ultimately show ?thesis by simp
qed

section \<open>Promises of the interface\<close>

text \<open>The data areas of the used blocks: start index and length.\<close>

fun areas :: "nat \<Rightarrow> blocks \<Rightarrow> (nat \<times> nat) list" where
  "areas i [] = []"
| "areas i ((n, u) # bs) = (if u then [(i + 8, n - 8)] else []) @ areas (i + n) bs"

lemma areas_append: "areas i (as @ bs) = areas i as @ areas (i + tot as) bs"
  by (induction i as rule: areas.induct) (auto simp: add.assoc)

lemma areas_range: "\<forall>b\<in>set bs. 20 \<le> fst b \<Longrightarrow> (j, m) \<in> set (areas i bs) \<Longrightarrow> i + 8 \<le> j \<and> j + m \<le> i + tot bs"
  by (induction i bs rule: areas.induct) (auto split: if_splits)

lemma areas_take_block:
  "areas i (as @ take_block k n @ cs) =
     areas i as @ (i + tot as + 8, if k + 28 \<le> n then k else n - 8) # areas (i + tot as + n) cs" if "k + 8 \<le> n"
  using that by (auto simp: take_block_def areas_append)

lemma areas_release: "areas 0 (release_block as n cs) = areas 0 as @ areas (tot as + n) cs"
proof -
  have j: "areas i (join_next n cs) = areas (i + n) cs" for i
    by (cases "(n, cs)" rule: join_next.cases) (auto simp: add.assoc)
  obtain m ds where d: "join_next n cs = (m, False) # ds" using join_next_eq by blast
  show ?thesis
  proof (cases "as = [] \<or> snd (last as)")
    case True
    then show ?thesis by (auto simp: release_block_def join_prev_def areas_append j)
  next
    case False
    then obtain as' l where "as = as' @ [(l, False)]" by (cases as rule: rev_cases) auto
    then show ?thesis using j [of "tot as"] by (simp add: release_block_def join_prev_def areas_append d add.assoc)
  qed
qed

lemma heap_area_split:
  assumes "(j, m) \<in> set (areas i bs)"
  shows "\<exists>as n cs. bs = as @ (n, True) # cs \<and> j = i + tot as + 8 \<and> m = n - 8"
  using assms
proof (induction i bs rule: areas.induct)
  case (2 i n u bs)
  show ?case
  proof (cases "u \<and> (j, m) = (i + 8, n - 8)")
    case True
    then show ?thesis by (intro exI [of _ "[]"] exI [of _ n] exI [of _ bs]) simp
  next
    case False
    then obtain as k cs where "bs = as @ (k, True) # cs" "j = i + n + tot as + 8" "m = k - 8"
      using 2 by (auto split: if_splits)
    then show ?thesis by (intro exI [of _ "(n, u) # as"] exI [of _ k] exI [of _ cs]) simp
  qed
qed simp

text \<open>A request of up to 65532 bytes.\<close>

lemma mem_malloc_fresh:
  assumes "heap s bs" and "sz \<noteq> 0" "unat sz \<le> 65532"
  shows "(\<forall>(n, u)\<in>set bs. u \<or> n < request (unat sz) + 8) \<and> mem_malloc sz s = Some (NULL, s) \<or>
    (\<exists>s' bs' i n. mem_malloc sz s = Some (ram s + of_nat i, s') \<and> heap s' bs' \<and> bytes s' = bytes s \<and>
      4 dvd unat (ram s + of_nat i) \<and> unat sz \<le> n \<and> i + n \<le> 16364 \<and>
      (\<forall>(j, m)\<in>set (areas 0 bs). i + n \<le> j \<or> j + m \<le> i) \<and>
      (\<exists>xs ys. areas 0 bs = xs @ ys \<and> areas 0 bs' = xs @ (i, n) # ys))"
proof -
  note h = heapD [OF assms(1)] and mh = mem_malloc_heap [OF assms]
  let ?k = "request (unat sz)"
  have none: "find_fit k i bs = None \<Longrightarrow> \<forall>(n, u)\<in>set bs. u \<or> n < k + 8" for k i
    by (induction k i bs rule: find_fit.induct) (auto split: if_splits)
  show ?thesis
  proof (cases "find_fit ?k 0 bs")
    case None
    then show ?thesis using mh none by simp
  next
    case (Some i)
    with mh obtain as n cs s' where b: "bs = as @ (n, False) # cs" "i = tot as" "?k + 8 \<le> n"
      "mem_malloc sz s = Some (hdr s (i + 8), s')" "heap s' (as @ take_block ?k n @ cs)" "bytes s' = bytes s"
      by fastforce
    have p: "20 \<le> fst x \<and> 4 dvd fst x" if "x \<in> set bs" for x using hseg_pos [OF h(6) that] .
    have t: "16364 = i + n + tot cs" using hseg_tot [OF h(6)] b(1,2) by simp
    have "4 dvd tot as" using p b(1) by (induction as arbitrary: bs) auto
    then have "4 dvd unat (hdr s (i + 8))" using h(2,3) t b(2,3) by (simp add: hdr_unat)
    moreover have "(\<forall>(j, m)\<in>set (areas 0 bs). i + 8 + l \<le> j \<or> j + m \<le> i + 8)" if "l \<le> n - 8" for l
    proof -
      have "j + m \<le> i" if "(j, m) \<in> set (areas 0 as)" for j m using areas_range [OF _ that] p b(1,2) by simp
      moreover have "i + n + 8 \<le> j" if "(j, m) \<in> set (areas (i + n) cs)" for j m using areas_range [OF _ that] p b(1) by simp
      ultimately show ?thesis using that b(1,2,3) by (fastforce simp: areas_append)
    qed
    moreover have "unat sz \<le> (if ?k + 28 \<le> n then ?k else n - 8)" using request_props(3) [of "unat sz"] b(3) by auto
    moreover have "(if ?k + 28 \<le> n then ?k else n - 8) \<le> n - 8" using b(3) by auto
    ultimately show ?thesis
      using b t areas_take_block [OF b(3), of 0 as cs] request_props(3) [of "unat sz"]
      by (intro disjI2 exI [of _ s'] exI [of _ "as @ take_block ?k n @ cs"] exI [of _ "i + 8"]
          exI [of _ "if ?k + 28 \<le> n then ?k else n - 8"] conjI exI [of _ "areas 0 as"] exI [of _ "areas (i + n) cs"])
        (simp_all add: hdr_def areas_append)
  qed
qed

text \<open>
  \<open>LWIP_MEM_ALIGN_SIZE\<close> wraps around in a 16-bit \<open>mem_size_t\<close>: a request of 65533 to
  65535 bytes is not refused but served like a request of 12 bytes.
\<close>

lemma mem_malloc_wraps:
  assumes "65532 < unat sz"
  shows "mem_malloc sz s = mem_malloc 12 s"
proof -
  have "LWIP_MEM_ALIGN_SIZE sz = 0" using align_size [of sz] assms by (simp add: unat_eq_0)
  moreover have "LWIP_MEM_ALIGN_SIZE 12 = 12" using align_size [of 12] by (simp add: word_unat_eq_iff)
  moreover have "sz \<noteq> 0" using assms by auto
  ultimately show ?thesis by (simp add: mem_malloc_def at_least_min_def MIN_SIZE_ALIGNED_def)
qed

text \<open>
  C18: in a well-formed heap \<open>mem_malloc\<close> returns for every size. A request of 0 bytes gets nothing. Otherwise, either
  no free block has room for the request and the heap is unchanged, or it returns the aligned address of an area that lies
  inside of the heap and overlaps no area that is in use, and the heap is well-formed with exactly this area added. The area has
  at least the requested size if that is at most 65532; a larger request is treated as one of 12 bytes.
\<close>

theorem mem_malloc_gives_fresh_area:
  fixes sz :: u16
  assumes "heap s bs"
  defines "k \<equiv> if unat sz \<le> 65532 then unat sz else 12"
  shows "if sz = 0 then mem_malloc sz s = Some (NULL, s)
    else (\<forall>(n, u)\<in>set bs. u \<or> n < request k + 8) \<and> mem_malloc sz s = Some (NULL, s) \<or>
      (\<exists>s' bs' i n. mem_malloc sz s = Some (ram s + of_nat i, s') \<and> heap s' bs' \<and> bytes s' = bytes s \<and>
        4 dvd unat (ram s + of_nat i) \<and> k \<le> n \<and> i + n \<le> 16364 \<and>
        (\<forall>(j, m)\<in>set (areas 0 bs). i + n \<le> j \<or> j + m \<le> i) \<and>
        (\<exists>xs ys. areas 0 bs = xs @ ys \<and> areas 0 bs' = xs @ (i, n) # ys))"
proof -
  consider (zero) "sz = 0" | (fits) "sz \<noteq> 0" "unat sz \<le> 65532" | (wraps) "sz \<noteq> 0" "65532 < unat sz" by fastforce
  then show ?thesis
  proof cases
    case zero
    then show ?thesis by (simp add: mem_malloc_def)
  next
    case fits
    then show ?thesis using mem_malloc_fresh [OF assms(1) fits] by (simp add: k_def)
  next
    case wraps
    have k: "k = 12" using wraps(2) by (simp add: k_def)
    show ?thesis unfolding k mem_malloc_wraps [OF wraps(2)] using mem_malloc_fresh [OF assms(1), of 12] wraps(1) by simp
  qed
qed

text \<open>The heap that \<open>mem_init\<close> sets up in an array at a fixed address.\<close>

lemma mem_init_heap:
  assumes "a = LWIP_MEM_ALIGN ram_heap" "a \<noteq> NULL" "4 dvd unat a" "unat a + 16384 < 4294967296"
  shows "heap (mem_init ram_heap s) [(16364, False)]"
proof -
  have "a + 16364 \<noteq> a" by simp
  then show ?thesis using assms(2-4)
    by (simp add: heap_def mem_init_def Let_def MEM_SIZE_ALIGNED_def ram_at_def hdr_def assms(1) [symmetric])
qed

definition smp_heap :: lw where
  "smp_heap = mem_init 0x20000000 undefined"

lemma smp_heap_rep: "heap smp_heap [(16364, False)]" and smp_heap_ram: "ram smp_heap = 0x20000000"
proof -
  have a: "LWIP_MEM_ALIGN 0x20000000 = 0x20000000" by (simp add: LWIP_MEM_ALIGN_def)
  have "4 dvd unat (0x20000000 :: ptr)" by simp
  then show "heap smp_heap [(16364, False)]" unfolding smp_heap_def
    by (intro mem_init_heap [OF a [symmetric]]) simp_all
  show "ram smp_heap = 0x20000000" by (simp add: smp_heap_def mem_init_def Let_def a)
qed

theorem mem_malloc_gives_fresh_area_witness:
  "\<exists>s' bs i n. mem_malloc 100 smp_heap = Some (0x20000000 + of_nat i, s') \<and> heap s' bs \<and> 100 \<le> n \<and> areas 0 bs = [(i, n)]"
proof -
  have "request (unat (100 :: u16)) = 100" by (simp add: request_def)
  then have f: "\<not> (\<forall>(n, u)\<in>set [(16364, False)]. u \<or> n < request (unat (100 :: u16)) + 8)" by simp
  have u: "unat (100 :: u16) = 100" by simp
  from mem_malloc_gives_fresh_area [OF smp_heap_rep, of 100] f obtain s' bs i n where
    "mem_malloc 100 smp_heap = Some (ram smp_heap + of_nat i, s')" "heap s' bs" "unat (100 :: u16) \<le> n"
    "\<exists>xs ys. areas 0 [(16364, False)] = xs @ ys \<and> areas 0 bs = xs @ (i, n) # ys"
    by auto
  then show ?thesis unfolding smp_heap_ram u by auto
qed

text \<open>
  C19: freeing an allocated area gives it back and nothing else: after \<open>mem_malloc\<close> and
  \<open>mem_free\<close> the heap has the same blocks as before, the neighbours merged again.
\<close>

theorem mem_free_undoes_malloc:
  assumes "heap s bs" and "sz \<noteq> 0" "unat sz \<le> 65532" and "mem_malloc sz s = Some (p, s')" "p \<noteq> NULL"
  shows "heap (mem_free p s') bs \<and> bytes (mem_free p s') = bytes s"
proof -
  note h = heapD [OF assms(1)]
  let ?k = "request (unat sz)"
  obtain i where i: "find_fit ?k 0 bs = Some i"
    using mem_malloc_heap [OF assms(1-3)] assms(4,5) by (cases "find_fit ?k 0 bs") auto
  then obtain as n cs where b: "bs = as @ (n, False) # cs" "i = tot as" "?k + 8 \<le> n" "p = hdr s (tot as + 8)"
    "heap s' (as @ take_block ?k n @ cs)" "ram s' = ram s" "bytes s' = bytes s"
    using mem_malloc_heap [OF assms(1-3)] assms(4) by fastforce
  obtain m ds where t: "take_block ?k n @ cs = (m, True) # ds" "release_block as m ds = bs"
  proof (cases "?k + 28 \<le> n")
    case True
    then show ?thesis using that [of "?k + 8" "(n - (?k + 8), False) # cs"] h(7) b(1)
      by (auto simp: take_block_def release_block_def join_prev_def merged_append merged_Cons)
  next
    case False
    have "join_next n cs = (n, False) # cs" using h(7) b(1)
      by (cases "(n, cs)" rule: join_next.cases) (auto simp: merged_append merged_Cons)
    then show ?thesis using that [of n cs] h(7) b(1) False
      by (auto simp: take_block_def release_block_def join_prev_def merged_append merged_Cons)
  qed
  have "hdr s' (tot as + 8) = p" using b(4,6) by (simp add: hdr_def)
  then show ?thesis using mem_free_heap [OF b(5) [unfolded t(1)]] t(2) b(7) by auto
qed

theorem mem_free_undoes_malloc_witness:
  "\<exists>p s'. mem_malloc 100 smp_heap = Some (p, s') \<and> heap (mem_free p s') [(16364, False)]"
proof -
  have "find_fit (request (unat (100 :: u16))) 0 [(16364, False)] = Some 0" by (simp add: request_def)
  with mem_malloc_heap [OF smp_heap_rep, of 100] obtain s' where
    m: "mem_malloc 100 smp_heap = Some (hdr smp_heap 8, s')" by (auto simp: Cons_eq_append_conv)
  moreover have "hdr smp_heap 8 \<noteq> NULL" by (simp add: hdr_def smp_heap_ram)
  ultimately show ?thesis using mem_free_undoes_malloc [OF smp_heap_rep, of 100] by auto
qed

text \<open>
  C20: \<open>mem_free\<close> of an area in use takes exactly this area out of use, and \<open>mem_trim\<close> to a
  size that fits shrinks it in place to at least the new size; all other areas in use and
  all data bytes stay as they are, and the heap stays well-formed: its headers are linked
  in both directions, no two free blocks are adjacent, and \<open>lfree\<close> is the lowest free block.
\<close>

theorem mem_free_trim_keep_heap:
  assumes "heap s bs" and "areas 0 bs = xs @ (i, n) # ys"
  shows "(\<exists>bs'. heap (mem_free (ram s + of_nat i) s) bs' \<and> areas 0 bs' = xs @ ys) \<and>
    bytes (mem_free (ram s + of_nat i) s) = bytes s \<and>
    (unat sz \<le> 65532 \<and> request (unat sz) \<le> n \<longrightarrow>
      (\<exists>s' bs' m. mem_trim (ram s + of_nat i) sz s = (ram s + of_nat i, s') \<and> heap s' bs' \<and> bytes s' = bytes s \<and>
        unat sz \<le> m \<and> m \<le> n \<and> areas 0 bs' = xs @ (i, m) # ys))"
proof -
  note h = heapD [OF assms(1)]
  have pos: "\<forall>b\<in>set bs. 20 \<le> fst b" using hseg_pos [OF h(6)] by blast
  obtain as k cs where b: "bs = as @ (k, True) # cs" "i = tot as + 8" "n = k - 8"
    using heap_area_split [of i n 0 bs] assms(2) by auto
  have k: "20 \<le> k" using pos b(1) by simp
  have "xs = areas 0 as \<and> ys = areas (tot as + k) cs"
  proof -
    have e: "areas 0 as @ (i, n) # areas (tot as + k) cs = xs @ (i, n) # ys"
      using assms(2) b by (simp add: areas_append)
    moreover have "(i, n) \<notin> set (areas 0 as)" using areas_range [of as i n 0] pos b by auto
    moreover have "(i, n) \<notin> set (areas (tot as + k) cs)" using areas_range [of cs i n "tot as + k"] pos b k by auto
    ultimately show ?thesis by (metis append_Cons_eq_iff)
  qed
  then have xy: "xs = areas 0 as" "ys = areas (tot as + k) cs" by simp_all
  have hp: "heap s (as @ (k, True) # cs)" using assms(1) b(1) by simp
  have hd: "hdr s (tot as + 8) = ram s + of_nat i" by (simp add: hdr_def b(2))
  from mem_free_heap [OF hp] have fr: "heap (mem_free (ram s + of_nat i) s) (release_block as k cs)"
    "bytes (mem_free (ram s + of_nat i) s) = bytes s" by (auto simp: hd)
  have tr: "\<exists>s' bs' m. mem_trim (ram s + of_nat i) sz s = (ram s + of_nat i, s') \<and> heap s' bs' \<and> bytes s' = bytes s \<and>
        unat sz \<le> m \<and> m \<le> n \<and> areas 0 bs' = xs @ (i, m) # ys" if sz: "unat sz \<le> 65532" "request (unat sz) \<le> n"
  proof -
    let ?k = "request (unat sz)"
    have kn: "?k + 8 \<le> k" using sz(2) b(3) k by simp
    obtain s' where s': "mem_trim (ram s + of_nat i) sz s = (ram s + of_nat i, s')" "heap s' (as @ trim_block ?k k cs)" "bytes s' = bytes s"
      using mem_trim_heap [OF hp sz(1) kn] by (auto simp: hd)
    have "\<exists>m. unat sz \<le> m \<and> m \<le> n \<and> areas 0 (as @ trim_block ?k k cs) = xs @ (i, m) # ys"
      using kn request_props(3) [of "unat sz"]
      by (cases "(?k, k, cs)" rule: trim_block.cases) (auto simp: areas_append xy b add_ac)
    with s' show ?thesis by blast
  qed
  show ?thesis using fr tr areas_release [of as k cs] xy by blast
qed

theorem mem_free_trim_keep_heap_witness:
  "\<exists>s bs i. heap s bs \<and> areas 0 bs = [(i, 100)] \<and> (\<exists>bs'. heap (mem_free (ram s + of_nat i) s) bs' \<and> areas 0 bs' = []) \<and>
    (\<exists>s' bs' m. mem_trim (ram s + of_nat i) 40 s = (ram s + of_nat i, s') \<and> heap s' bs' \<and> 40 \<le> m \<and> areas 0 bs' = [(i, m)])"
proof -
  have "find_fit (request (unat (100 :: u16))) 0 [(16364, False)] = Some 0" by (simp add: request_def)
  with mem_malloc_heap [OF smp_heap_rep, of 100] obtain s' where
    "heap s' (take_block (request (unat (100 :: u16))) 16364)" by (auto simp: Cons_eq_append_conv)
  then have r: "heap s' [(108, True), (16256, False)]" by (simp add: take_block_def request_def)
  have a: "areas 0 [(108, True), (16256, False)] = [] @ (8, 100) # []" by simp
  have k: "unat (40 :: u16) = 40" "request 40 = 40" by (simp_all add: request_def)
  from mem_free_trim_keep_heap [OF r a, of 40] r show ?thesis unfolding k
    by (intro exI [of _ s'] exI [of _ "[(108, True), (16256, False)]"] exI [of _ 8]) auto
qed

end
