(* ===== verification/LW_Pbuf.thy ===== *)
theory LW_Pbuf
  imports LW_Chksum LW_Memp LW_Mem
begin

text \<open>
  The packet buffers of \<open>pbuf.c\<close>, over the pools of \<open>memp.c\<close> and the heap of \<open>mem.c\<close>. The
  only custom packet buffers of the source are the references of \<open>ip_frag.c\<close>, whose release
  function is \<open>ipfrag_free_pbuf_custom\<close>. A dereference of \<open>NULL\<close> has no result.
\<close>

section \<open>Constants\<close>

abbreviation (input) PBUF_TRANSPORT :: u8 where "PBUF_TRANSPORT \<equiv> 0"
abbreviation (input) PBUF_IP :: u8 where "PBUF_IP \<equiv> 1"
abbreviation (input) PBUF_LINK :: u8 where "PBUF_LINK \<equiv> 2"
abbreviation (input) PBUF_RAW :: u8 where "PBUF_RAW \<equiv> 3"

abbreviation (input) PBUF_RAM :: u8 where "PBUF_RAM \<equiv> 0"
abbreviation (input) PBUF_ROM :: u8 where "PBUF_ROM \<equiv> 1"
abbreviation (input) PBUF_REF :: u8 where "PBUF_REF \<equiv> 2"
abbreviation (input) PBUF_POOL :: u8 where "PBUF_POOL \<equiv> 3"

abbreviation (input) PBUF_FLAG_IS_CUSTOM :: u8 where "PBUF_FLAG_IS_CUSTOM \<equiv> 2"

abbreviation (input) ERR_OK :: int where "ERR_OK \<equiv> 0"
abbreviation (input) ERR_VAL :: int where "ERR_VAL \<equiv> -6"
abbreviation (input) ERR_ARG :: int where "ERR_ARG \<equiv> -14"

text \<open>The aligned size of \<open>struct pbuf\<close>, and the aligned room for data in a buffer of the pool.\<close>

definition SIZEOF_STRUCT_PBUF :: u16 where "SIZEOF_STRUCT_PBUF = 16"

definition PBUF_POOL_BUFSIZE_ALIGNED :: u16 where "PBUF_POOL_BUFSIZE_ALIGNED = 1516"

section \<open>Release and references\<close>

text \<open>The loop of \<open>pbuf_free\<close>; for a custom buffer \<open>ipfrag_free_pbuf_custom\<close> calls \<open>pbuf_free\<close> again.\<close>

partial_function (option) pbuf_free_loop :: "u8 \<Rightarrow> ptr \<Rightarrow> lw \<Rightarrow> (u8 \<times> lw) option" where
  "pbuf_free_loop count p s =
     (if p \<noteq> NULL then
        (let ref = pb_ref_count s p - 1; s = put_ref p ref s in
         if ref = 0 then
           (let q = pb_next s p; type = pb_type s p in
            (if pb_flags s p AND PBUF_FLAG_IS_CUSTOM \<noteq> 0 then
               (if custom_original s p \<noteq> NULL
                then pbuf_free_loop 0 (custom_original s p) s \<bind> (\<lambda>r. Some (snd r)) else Some s)
               \<bind> (\<lambda>s. memp_free MEMP_FRAG_PBUF p s)
             else if type = PBUF_POOL then memp_free MEMP_PBUF_POOL p s
             else if type = PBUF_ROM \<or> type = PBUF_REF then memp_free MEMP_PBUF p s
             else Some (mem_free p s))
            \<bind> (\<lambda>s. pbuf_free_loop (count + 1) q s))
         else pbuf_free_loop count NULL s)
      else Some (count, s))"

definition pbuf_free :: "ptr \<Rightarrow> lw \<Rightarrow> (u8 \<times> lw) option" where
  "pbuf_free p s = (if p = NULL then Some (0, s) else pbuf_free_loop 0 p s)"

partial_function (option) clen_loop :: "lw \<Rightarrow> u8 \<Rightarrow> ptr \<Rightarrow> u8 option" where
  "clen_loop s len p = (if p \<noteq> NULL then clen_loop s (len + 1) (pb_next s p) else Some len)"

definition pbuf_clen :: "ptr \<Rightarrow> lw \<Rightarrow> u8 option" where
  "pbuf_clen p s = clen_loop s 0 p"

definition pbuf_ref :: "ptr \<Rightarrow> lw \<Rightarrow> lw" where
  "pbuf_ref p s = (if p \<noteq> NULL then put_ref p (pb_ref_count s p + 1) s else s)"

section \<open>Allocation\<close>

text \<open>The header room of a layer; a bad layer has none.\<close>

definition layer_offset :: "u8 \<Rightarrow> u16 option" where
  "layer_offset layer =
     (if layer = PBUF_TRANSPORT then Some (20 + 20 + 14)
      else if layer = PBUF_IP then Some (20 + 14)
      else if layer = PBUF_LINK then Some 14
      else if layer = PBUF_RAW then Some 0
      else None)"

text \<open>The tail of a chain from the pool; the value is whether there were enough buffers.\<close>

partial_function (option) alloc_pool_loop :: "ptr \<Rightarrow> ptr \<Rightarrow> int \<Rightarrow> lw \<Rightarrow> (bool \<times> lw) option" where
  "alloc_pool_loop p r rem_len s =
     (if rem_len > 0 then
        (case memp_malloc MEMP_PBUF_POOL s of (q, s) \<Rightarrow>
           if q = NULL then pbuf_free p s \<bind> (\<lambda>x. Some (False, snd x))
           else
             let s = put_type q PBUF_POOL s;
                 s = put_flags q 0 s;
                 s = put_next q NULL s;
                 s = put_next r q s;
                 s = put_tot_len q (of_int rem_len) s;
                 s = put_len q (min (of_int rem_len) PBUF_POOL_BUFSIZE_ALIGNED) s;
                 s = put_payload q (q + ucast SIZEOF_STRUCT_PBUF) s;
                 s = put_ref q 1 s
             in alloc_pool_loop p q (rem_len - uint (pb_len s q)) s)
      else Some (True, s))"

text \<open>The end of \<open>pbuf_alloc\<close>: reference count and flags.\<close>

definition alloc_done :: "ptr \<Rightarrow> lw \<Rightarrow> (ptr \<times> lw) option" where
  "alloc_done p s = Some (p, put_flags p 0 (put_ref p 1 s))"

definition alloc_pool :: "u16 \<Rightarrow> u16 \<Rightarrow> lw \<Rightarrow> (ptr \<times> lw) option" where
  "alloc_pool offset len s =
     (case memp_malloc MEMP_PBUF_POOL s of (p, s) \<Rightarrow>
        if p = NULL then Some (NULL, s)
        else do {
          let s = put_type p PBUF_POOL s;
          let s = put_next p NULL s;
          let s = put_payload p (LWIP_MEM_ALIGN (p + (ucast SIZEOF_STRUCT_PBUF + ucast offset))) s;
          let s = put_tot_len p len s;
          let s = put_len p (min len (PBUF_POOL_BUFSIZE_ALIGNED - LWIP_MEM_ALIGN_SIZE offset)) s;
          let s = put_ref p 1 s;
          (ok, s) \<leftarrow> alloc_pool_loop p p (uint len - uint (pb_len s p)) s;
          if ok then alloc_done p s else Some (NULL, s) })"

text \<open>The sum of the two sizes is passed to \<open>mem_malloc\<close> as a \<open>mem_size_t\<close> of 16 bits.\<close>

definition alloc_ram :: "u16 \<Rightarrow> u16 \<Rightarrow> lw \<Rightarrow> (ptr \<times> lw) option" where
  "alloc_ram offset len s = do {
     (p, s) \<leftarrow> mem_malloc (LWIP_MEM_ALIGN_SIZE (SIZEOF_STRUCT_PBUF + offset) + LWIP_MEM_ALIGN_SIZE len) s;
     if p = NULL then Some (NULL, s)
     else
       let s = put_payload p (LWIP_MEM_ALIGN (p + ucast SIZEOF_STRUCT_PBUF + ucast offset)) s;
           s = put_tot_len p len s;
           s = put_len p len s;
           s = put_next p NULL s;
           s = put_type p PBUF_RAM s
       in alloc_done p s }"

definition alloc_ref :: "u16 \<Rightarrow> u8 \<Rightarrow> lw \<Rightarrow> (ptr \<times> lw) option" where
  "alloc_ref len type s =
     (case memp_malloc MEMP_PBUF s of (p, s) \<Rightarrow>
        if p = NULL then Some (NULL, s)
        else
          let s = put_payload p NULL s;
              s = put_tot_len p len s;
              s = put_len p len s;
              s = put_next p NULL s;
              s = put_type p type s
          in alloc_done p s)"

definition pbuf_alloc :: "u8 \<Rightarrow> u16 \<Rightarrow> u8 \<Rightarrow> lw \<Rightarrow> (ptr \<times> lw) option" where
  "pbuf_alloc layer len type s =
     (case layer_offset layer of
        None \<Rightarrow> Some (NULL, s)
      | Some offset \<Rightarrow>
          if type = PBUF_POOL then alloc_pool offset len s
          else if type = PBUF_RAM then alloc_ram offset len s
          else if type = PBUF_ROM \<or> type = PBUF_REF then alloc_ref len type s
          else Some (NULL, s))"

definition pbuf_alloced_custom :: "u8 \<Rightarrow> u16 \<Rightarrow> u8 \<Rightarrow> ptr \<Rightarrow> ptr \<Rightarrow> u16 \<Rightarrow> lw \<Rightarrow> ptr \<times> lw" where
  "pbuf_alloced_custom l len type p payload_mem payload_mem_len s =
     (case layer_offset l of
        None \<Rightarrow> (NULL, s)
      | Some offset \<Rightarrow>
          if unat (LWIP_MEM_ALIGN_SIZE offset) + unat len < unat payload_mem_len then (NULL, s)
          else
            let s = put_next p NULL s;
                s = put_payload p (if payload_mem \<noteq> NULL then payload_mem + ucast offset else NULL) s;
                s = put_flags p PBUF_FLAG_IS_CUSTOM s;
                s = put_tot_len p len s;
                s = put_len p len s;
                s = put_type p type s;
                s = put_ref p 1 s
            in (p, s))"

section \<open>Sizes and headers\<close>

partial_function (option) realloc_loop :: "u16 \<Rightarrow> ptr \<Rightarrow> u16 \<Rightarrow> lw \<Rightarrow> (ptr \<times> u16 \<times> lw) option" where
  "realloc_loop grow q rem_len s =
     (if q = NULL then None
      else if rem_len > pb_len s q then
        realloc_loop grow (pb_next s q) (rem_len - pb_len s q) (put_tot_len q (pb_tot_len s q + grow) s)
      else Some (q, rem_len, s))"

definition pbuf_realloc :: "ptr \<Rightarrow> u16 \<Rightarrow> lw \<Rightarrow> lw option" where
  "pbuf_realloc p new_len s = do {
     chk p;
     if new_len \<ge> pb_tot_len s p then Some s
     else do {
       let grow = new_len - pb_tot_len s p;
       (q, rem_len, s) \<leftarrow> realloc_loop grow p new_len s;
       let (q, s) = (if pb_type s q = PBUF_RAM \<and> rem_len \<noteq> pb_len s q
                     then mem_trim q (ucast (pb_payload s q - q) + rem_len) s else (q, s));
       chk q;
       let s = put_len q rem_len s;
       let s = put_tot_len q (pb_len s q) s;
       s \<leftarrow> (if pb_next s q \<noteq> NULL then pbuf_free (pb_next s q) s \<bind> (\<lambda>r. Some (snd r)) else Some s);
       Some (put_next q NULL s) } }"

text \<open>The increment is a signed 16-bit value; a sum with it wraps around like the pointer does.\<close>

definition pbuf_header :: "ptr \<Rightarrow> 16 word \<Rightarrow> lw \<Rightarrow> u8 \<times> lw" where
  "pbuf_header p inc s =
     (if inc = 0 \<or> p = NULL then (0, s)
      else
        let increment_magnitude = (if sint inc < 0 then - inc else inc) in
        if sint inc < 0 \<and> \<not> increment_magnitude \<le> pb_len s p then (1, s)
        else
          let type = pb_type s p;
              payload = pb_payload s p;
              new_payload = payload - scast inc;
              fin = (\<lambda>s. (0, put_tot_len p (pb_tot_len s p + inc) (put_len p (pb_len s p + inc) s))) in
          if type = PBUF_RAM \<or> type = PBUF_POOL then
            (if new_payload < p + ucast SIZEOF_STRUCT_PBUF then (1, s) else fin (put_payload p new_payload s))
          else if type = PBUF_REF \<or> type = PBUF_ROM then
            (if sint inc < 0 \<and> increment_magnitude \<le> pb_len s p then fin (put_payload p new_payload s) else (1, s))
          else (1, s))"

section \<open>Chains\<close>

partial_function (option) cat_loop :: "ptr \<Rightarrow> ptr \<Rightarrow> lw \<Rightarrow> (ptr \<times> lw) option" where
  "cat_loop p t s =
     (if pb_next s p \<noteq> NULL
      then cat_loop (pb_next s p) t (put_tot_len p (pb_tot_len s p + pb_tot_len s t) s) else Some (p, s))"

definition pbuf_cat :: "ptr \<Rightarrow> ptr \<Rightarrow> lw \<Rightarrow> lw option" where
  "pbuf_cat h t s =
     (if h = NULL \<or> t = NULL then Some s
      else do {
        (p, s) \<leftarrow> cat_loop h t s;
        let s = put_tot_len p (pb_tot_len s p + pb_tot_len s t) s;
        Some (put_next p t s) })"

definition pbuf_chain :: "ptr \<Rightarrow> ptr \<Rightarrow> lw \<Rightarrow> lw option" where
  "pbuf_chain h t s = do {
     s \<leftarrow> pbuf_cat h t s;
     Some (pbuf_ref t s) }"

definition pbuf_dechain :: "ptr \<Rightarrow> lw \<Rightarrow> (ptr \<times> lw) option" where
  "pbuf_dechain p s = do {
     chk p;
     let q = pb_next s p;
     (tail_gone, s) \<leftarrow> (if q \<noteq> NULL then
         let s = put_tot_len q (pb_tot_len s p - pb_len s p) s;
             s = put_next p NULL s;
             s = put_tot_len p (pb_len s p) s
         in pbuf_free q s
       else Some (1, s));
     Some (if tail_gone > 0 then NULL else q, s) }"

section \<open>Copying\<close>

partial_function (option) copy_loop :: "ptr \<Rightarrow> u16 \<Rightarrow> ptr \<Rightarrow> u16 \<Rightarrow> lw \<Rightarrow> (int \<times> lw) option" where
  "copy_loop p_to offset_to p_from offset_from s =
     (if p_to = NULL \<or> p_from = NULL then None
      else
        let len = (if uint (pb_len s p_to) - uint offset_to \<ge> uint (pb_len s p_from) - uint offset_from
                   then pb_len s p_from - offset_from else pb_len s p_to - offset_to);
            s = memcpy (pb_payload s p_to + ucast offset_to) (pb_payload s p_from + ucast offset_from) (unat len) s;
            offset_to = offset_to + len;
            offset_from = offset_from + len;
            (offset_to, p_to) = (if offset_to = pb_len s p_to then (0, pb_next s p_to) else (offset_to, p_to));
            (offset_from, p_from) =
              (if offset_from \<ge> pb_len s p_from then (0, pb_next s p_from) else (offset_from, p_from)) in
        if p_from \<noteq> NULL \<and> pb_len s p_from = pb_tot_len s p_from \<and> pb_next s p_from \<noteq> NULL then Some (ERR_VAL, s)
        else if p_to \<noteq> NULL \<and> pb_len s p_to = pb_tot_len s p_to \<and> pb_next s p_to \<noteq> NULL then Some (ERR_VAL, s)
        else if p_from \<noteq> NULL then copy_loop p_to offset_to p_from offset_from s
        else Some (ERR_OK, s))"

definition pbuf_copy :: "ptr \<Rightarrow> ptr \<Rightarrow> lw \<Rightarrow> (int \<times> lw) option" where
  "pbuf_copy p_to p_from s =
     (if \<not> (p_to \<noteq> NULL \<and> p_from \<noteq> NULL \<and> pb_tot_len s p_to \<ge> pb_tot_len s p_from) then Some (ERR_ARG, s)
      else copy_loop p_to 0 p_from 0 s)"

partial_function (option) copy_partial_loop :: "ptr \<Rightarrow> ptr \<Rightarrow> u16 \<Rightarrow> u16 \<Rightarrow> u16 \<Rightarrow> lw \<Rightarrow> (u16 \<times> lw) option" where
  "copy_partial_loop p dataptr left len offset s =
     (if len \<noteq> 0 \<and> p \<noteq> NULL then
        (if offset \<noteq> 0 \<and> offset \<ge> pb_len s p then
           copy_partial_loop (pb_next s p) dataptr left len (offset - pb_len s p) s
         else
           let buf_copy_len = pb_len s p - offset;
               buf_copy_len = (if buf_copy_len > len then len else buf_copy_len);
               s = memcpy (dataptr + ucast left) (pb_payload s p + ucast offset) (unat buf_copy_len) s
           in copy_partial_loop (pb_next s p) dataptr (left + buf_copy_len) (len - buf_copy_len) 0 s)
      else Some (left, s))"

text \<open>In the source \<open>copied_total\<close> and \<open>left\<close> always have the same value.\<close>

definition pbuf_copy_partial :: "ptr \<Rightarrow> ptr \<Rightarrow> u16 \<Rightarrow> u16 \<Rightarrow> lw \<Rightarrow> (u16 \<times> lw) option" where
  "pbuf_copy_partial buf dataptr len offset s =
     (if buf = NULL \<or> dataptr = NULL then Some (0, s)
      else copy_partial_loop buf dataptr 0 len offset s)"

partial_function (option) take_loop :: "ptr \<Rightarrow> ptr \<Rightarrow> u16 \<Rightarrow> u16 \<Rightarrow> lw \<Rightarrow> lw option" where
  "take_loop p dataptr copied_total total_copy_len s =
     (if total_copy_len \<noteq> 0 then
        (if p = NULL then None
         else
           let buf_copy_len = (if total_copy_len > pb_len s p then pb_len s p else total_copy_len);
               s = memcpy (pb_payload s p) (dataptr + ucast copied_total) (unat buf_copy_len) s
           in take_loop (pb_next s p) dataptr (copied_total + buf_copy_len) (total_copy_len - buf_copy_len) s)
      else Some s)"

definition pbuf_take :: "ptr \<Rightarrow> ptr \<Rightarrow> u16 \<Rightarrow> lw \<Rightarrow> (int \<times> lw) option" where
  "pbuf_take buf dataptr len s =
     (if buf = NULL \<or> dataptr = NULL then Some (0, s)
      else if pb_tot_len s buf < len then Some (ERR_ARG, s)
      else do {
        s \<leftarrow> take_loop buf dataptr 0 len s;
        Some (ERR_OK, s) })"

definition pbuf_coalesce :: "ptr \<Rightarrow> u8 \<Rightarrow> lw \<Rightarrow> (ptr \<times> lw) option" where
  "pbuf_coalesce p layer s = do {
     chk p;
     if pb_next s p = NULL then Some (p, s)
     else do {
       (q, s) \<leftarrow> pbuf_alloc layer (pb_tot_len s p) PBUF_RAM s;
       if q = NULL then Some (p, s)
       else do {
         (err, s) \<leftarrow> pbuf_copy q p s;
         (count, s) \<leftarrow> pbuf_free p s;
         Some (q, s) } } }"

definition pbuf_fill_chksum :: "ptr \<Rightarrow> u16 \<Rightarrow> ptr \<Rightarrow> u16 \<Rightarrow> u16 \<Rightarrow> lw \<Rightarrow> (int \<times> u16 \<times> lw) option" where
  "pbuf_fill_chksum p start_offset dataptr len chksum s = do {
     chk p;
     if start_offset \<ge> pb_len s p \<or> unat start_offset + unat len > unat (pb_len s p) then Some (ERR_ARG, chksum, s)
     else
       let dst_ptr = pb_payload s p + ucast start_offset;
           (copy_chksum, s) = lwip_chksum_copy dst_ptr dataptr len s;
           copy_chksum = (if start_offset AND 1 \<noteq> 0 then ucast (SWAP_BYTES_IN_WORD (ucast copy_chksum)) else copy_chksum);
           acc = ucast chksum + ucast copy_chksum :: u32
       in Some (ERR_OK, ucast (FOLD_U32T acc), s) }"

section \<open>Looking at the contents\<close>

partial_function (option) find_pbuf :: "lw \<Rightarrow> ptr \<Rightarrow> u16 \<Rightarrow> (ptr \<times> u16) option" where
  "find_pbuf s q n =
     (if q \<noteq> NULL \<and> pb_len s q \<le> n then find_pbuf s (pb_next s q) (n - pb_len s q) else Some (q, n))"

definition pbuf_get_at :: "ptr \<Rightarrow> u16 \<Rightarrow> lw \<Rightarrow> u8 option" where
  "pbuf_get_at p offset s = do {
     (q, copy_from) \<leftarrow> find_pbuf s p offset;
     Some (if q \<noteq> NULL \<and> pb_len s q > copy_from then bytes s (pb_payload s q + ucast copy_from) else 0) }"

partial_function (option) memcmp_loop :: "lw \<Rightarrow> ptr \<Rightarrow> u16 \<Rightarrow> ptr \<Rightarrow> u16 \<Rightarrow> u16 \<Rightarrow> u16 option" where
  "memcmp_loop s q start s2 n i =
     (if i < n then
        pbuf_get_at q (start + i) s \<bind> (\<lambda>a.
        let b = bytes s (s2 + ucast i) in
        if a \<noteq> b then Some (i + 1) else memcmp_loop s q start s2 n (i + 1))
      else Some 0)"

definition pbuf_memcmp :: "ptr \<Rightarrow> u16 \<Rightarrow> ptr \<Rightarrow> u16 \<Rightarrow> lw \<Rightarrow> u16 option" where
  "pbuf_memcmp p offset s2 n s = do {
     (q, start) \<leftarrow> find_pbuf s p offset;
     if q \<noteq> NULL \<and> pb_len s q > start then memcmp_loop s q start s2 n 0 else Some 0xffff }"

partial_function (option) memfind_loop :: "lw \<Rightarrow> ptr \<Rightarrow> ptr \<Rightarrow> u16 \<Rightarrow> u16 \<Rightarrow> u16 \<Rightarrow> u16 option" where
  "memfind_loop s p mem mem_len max_i i =
     (if i \<le> max_i then
        pbuf_memcmp p i mem mem_len s \<bind> (\<lambda>plus.
        if plus = 0 then Some i else memfind_loop s p mem mem_len max_i (i + plus))
      else Some 0xFFFF)"

definition pbuf_memfind :: "ptr \<Rightarrow> ptr \<Rightarrow> u16 \<Rightarrow> u16 \<Rightarrow> lw \<Rightarrow> u16 option" where
  "pbuf_memfind p mem mem_len start_offset s = do {
     chk p;
     let max_i = pb_tot_len s p - mem_len;
     if unat (pb_tot_len s p) \<ge> unat mem_len + unat start_offset
     then memfind_loop s p mem mem_len max_i start_offset else Some 0xFFFF }"

text \<open>\<open>strlen\<close> of the C library, with the length in a \<open>size_t\<close>.\<close>

partial_function (option) strlen_loop :: "lw \<Rightarrow> ptr \<Rightarrow> u32 \<Rightarrow> u32 option" where
  "strlen_loop s str n = (if bytes s (str + n) = 0 then Some n else strlen_loop s str (n + 1))"

definition pbuf_strstr :: "ptr \<Rightarrow> ptr \<Rightarrow> lw \<Rightarrow> u16 option" where
  "pbuf_strstr p substr s =
     (if substr = NULL \<or> bytes s substr = 0 then Some 0xFFFF
      else do {
        chk p;
        if pb_tot_len s p = 0xFFFF then Some 0xFFFF
        else do {
          substr_len \<leftarrow> strlen_loop s substr 0;
          if substr_len \<ge> 0xFFFF then Some 0xFFFF
          else pbuf_memfind p substr (ucast substr_len) 0 s } })"

section \<open>The contents of a chain\<close>

text \<open>
  \<open>pchain s p ps\<close>: the chain from \<open>p\<close> has the buffers \<open>ps\<close>, and every \<open>tot_len\<close> is the
  length of the data from its buffer on, the invariant that \<open>pbuf.h\<close> states.
\<close>

fun tot_ok :: "lw \<Rightarrow> ptr list \<Rightarrow> bool" where
  "tot_ok s [] \<longleftrightarrow> True"
| "tot_ok s (q # qs) \<longleftrightarrow> unat (pb_tot_len s q) = length (cdata s (q # qs)) \<and> tot_ok s qs"

definition pchain :: "lw \<Rightarrow> ptr \<Rightarrow> ptr list \<Rightarrow> bool" where
  "pchain s p ps \<longleftrightarrow> chain (pb_next s) p ps \<and> tot_ok s ps"

lemma cdata_append [simp]: "cdata s (as @ bs) = cdata s as @ cdata s bs"
  by (simp add: cdata_def)

lemma pchain_len: "pchain s p ps \<Longrightarrow> ps \<noteq> [] \<Longrightarrow> length (cdata s ps) = unat (pb_tot_len s p)"
  by (cases ps) (auto simp: pchain_def)

lemma of_nat_unat_u16: "(of_nat (unat (n :: u16)) :: u32) = ucast n"
  using unat_u16_less [of n] by (simp add: word_unat_eq_iff unat_of_nat_u32 del: unat_u16_less)

lemma find_pbuf_spec:
  assumes "chain (pb_next s) p ps"
  shows "if unat off < length (cdata s ps)
    then \<exists>as q bs n. ps = as @ q # bs \<and> find_pbuf s p off = Some (q, n) \<and> unat n < unat (pb_len s q) \<and> q \<noteq> NULL \<and>
      chain (pb_next s) q (q # bs) \<and> length (cdata s as) + unat n = unat off
    else \<exists>n. find_pbuf s p off = Some (NULL, n)"
  using assms
proof (induction ps arbitrary: p off)
  case Nil
  then show ?case by (simp add: find_pbuf.simps)
next
  case (Cons x ps)
  then have x: "p = x" "x \<noteq> NULL" "chain (pb_next s) (pb_next s x) ps" by simp_all
  show ?case
  proof (cases "pb_len s x \<le> off")
    case True
    have u: "unat (off - pb_len s x) = unat off - unat (pb_len s x)" using True by (rule unat_diff_u16)
    have le: "unat (pb_len s x) \<le> unat off" using True by (simp add: word_le_nat_alt)
    have f: "find_pbuf s p off = find_pbuf s (pb_next s x) (off - pb_len s x)"
      using x True by (subst find_pbuf.simps) simp
    show ?thesis
    proof (cases "unat off < length (cdata s (x # ps))")
      case True
      then have "unat (off - pb_len s x) < length (cdata s ps)" using u le by simp
      with Cons.IH [OF x(3), of "off - pb_len s x"] obtain as q bs n where
        "ps = as @ q # bs" "find_pbuf s (pb_next s x) (off - pb_len s x) = Some (q, n)" "unat n < unat (pb_len s q)"
        "q \<noteq> NULL" "chain (pb_next s) q (q # bs)" "length (cdata s as) + unat n = unat off - unat (pb_len s x)"
        by (auto simp: u)
      then show ?thesis using f le True by (intro if_P [THEN iffD2] exI [of _ "x # as"] exI [of _ q] exI [of _ bs] exI [of _ n]) auto
    next
      case False
      then have "\<not> unat (off - pb_len s x) < length (cdata s ps)" using u le by simp
      with Cons.IH [OF x(3), of "off - pb_len s x"] f False show ?thesis by simp
    qed
  next
    case False
    then have "find_pbuf s p off = Some (x, off)" using x by (subst find_pbuf.simps) simp
    moreover have "unat off < unat (pb_len s x)" using False by (simp add: word_le_nat_alt)
    ultimately show ?thesis using x
      by (simp, intro exI [of _ "[]"] exI [of _ x] exI [of _ ps] exI [of _ off]) simp
  qed
qed

lemma pbuf_get_at_eq:
  assumes "chain (pb_next s) p ps"
  shows "pbuf_get_at p off s = Some (if unat off < length (cdata s ps) then cdata s ps ! unat off else 0)"
proof (cases "unat off < length (cdata s ps)")
  case True
  with find_pbuf_spec [OF assms, of off] obtain as q bs n where
    f: "ps = as @ q # bs" "find_pbuf s p off = Some (q, n)" "unat n < unat (pb_len s q)" "q \<noteq> NULL"
      "length (cdata s as) + unat n = unat off" by auto
  have "cdata s ps ! unat off = pdata s q ! unat n" using f by (simp add: nth_append f(5) [symmetric])
  also have "\<dots> = bytes s (pb_payload s q + ucast n)" using f(3) by (simp add: pdata_def of_nat_unat_u16)
  finally show ?thesis using f True by (simp add: pbuf_get_at_def word_less_nat_alt)
next
  case False
  with find_pbuf_spec [OF assms, of off] obtain n where "find_pbuf s p off = Some (NULL, n)" by auto
  then show ?thesis using False by (simp add: pbuf_get_at_def)
qed

lemma memcmp_loop_spec:
  assumes "chain (pb_next s) q ps" "unat start + unat n \<le> length (cdata s ps)" "length (cdata s ps) < 65536"
    and "i \<le> n"
  shows "\<exists>r. memcmp_loop s q start s2 n i = Some r \<and>
    (if \<forall>j. unat i \<le> j \<and> j < unat n \<longrightarrow> cdata s ps ! (unat start + j) = bytes s (s2 + of_nat j) then r = 0
     else \<exists>j. unat i \<le> j \<and> j < unat n \<and> cdata s ps ! (unat start + j) \<noteq> bytes s (s2 + of_nat j) \<and> r = of_nat (Suc j))"
  using assms(4)
proof (induction "unat n - unat i" arbitrary: i)
  case 0
  then have "i = n" by (simp add: word_unat_eq_iff word_le_nat_alt)
  then show ?case by (subst memcmp_loop.simps) auto
next
  case (Suc d)
  then have lt: "i < n" "unat i < unat n" by (simp_all add: word_less_nat_alt)
  have i1: "unat (i + 1) = Suc (unat i)" using lt(2) unat_u16_less [of n] by (simp add: unat_word_ariths del: unat_u16_less)
  have si: "unat (start + i) = unat start + unat i" using assms(2,3) lt(2) by (simp add: unat_word_ariths)
  have g: "pbuf_get_at q (start + i) s = Some (cdata s ps ! (unat start + unat i))"
    using pbuf_get_at_eq [OF assms(1), of "start + i"] si assms(2) lt(2) by simp
  show ?case
  proof (cases "cdata s ps ! (unat start + unat i) = bytes s (s2 + ucast i)")
    case False
    then have "memcmp_loop s q start s2 n i = Some (i + 1)" using g lt(1) by (subst memcmp_loop.simps) (simp add: Let_def)
    moreover have "i + 1 = of_nat (Suc (unat i))" by simp
    ultimately show ?thesis using False lt(2)
      by (intro exI [of _ "i + 1"]) (auto simp: of_nat_unat_u16 intro!: exI [of _ "unat i"])
  next
    case True
    have "memcmp_loop s q start s2 n i = memcmp_loop s q start s2 n (i + 1)"
      using True g lt(1) by (subst memcmp_loop.simps) (simp add: Let_def)
    moreover have "d = unat n - unat (i + 1)" "i + 1 \<le> n" using Suc(2) i1 lt(2) by (simp_all add: word_le_nat_alt)
    from Suc(1) [OF this] obtain r where "memcmp_loop s q start s2 n (i + 1) = Some r"
      "if \<forall>j. Suc (unat i) \<le> j \<and> j < unat n \<longrightarrow> cdata s ps ! (unat start + j) = bytes s (s2 + of_nat j) then r = 0
       else \<exists>j. Suc (unat i) \<le> j \<and> j < unat n \<and> cdata s ps ! (unat start + j) \<noteq> bytes s (s2 + of_nat j) \<and> r = of_nat (Suc j)"
      unfolding i1 by blast
    moreover have "(\<forall>j. Suc (unat i) \<le> j \<and> j < unat n \<longrightarrow> cdata s ps ! (unat start + j) = bytes s (s2 + of_nat j)) =
        (\<forall>j. unat i \<le> j \<and> j < unat n \<longrightarrow> cdata s ps ! (unat start + j) = bytes s (s2 + of_nat j))"
      using True by (metis Suc_leI le_neq_implies_less Suc_leD of_nat_unat_u16)
    ultimately show ?thesis
      by (intro exI [of _ r]) ((simp del: of_nat_Suc split: if_splits)?; blast dest: Suc_leD)
  qed
qed

text \<open>The pattern at an address is in the data at an index.\<close>

definition match_at :: "lw \<Rightarrow> u8 list \<Rightarrow> ptr \<Rightarrow> nat \<Rightarrow> nat \<Rightarrow> bool" where
  "match_at s D mem n i \<longleftrightarrow> take n (drop i D) = bytes_at (bytes s) mem n"

lemma match_at_nth:
  "i + n \<le> length D \<Longrightarrow> match_at s D mem n i \<longleftrightarrow> (\<forall>j<n. D ! (i + j) = bytes s (mem + of_nat j))"
  by (auto simp: match_at_def list_eq_iff_nth_eq)

lemma pbuf_memcmp_spec:
  assumes "chain (pb_next s) p ps" "unat off + unat n \<le> length (cdata s ps)" "length (cdata s ps) < 65536" "0 < unat n"
  shows "\<exists>r. pbuf_memcmp p off s2 n s = Some r \<and>
    (if match_at s (cdata s ps) s2 (unat n) (unat off) then r = 0
     else \<exists>j<unat n. cdata s ps ! (unat off + j) \<noteq> bytes s (s2 + of_nat j) \<and> r = of_nat (Suc j))"
proof -
  have "unat off < length (cdata s ps)" using assms(2,4) by simp
  with find_pbuf_spec [OF assms(1), of off] obtain as q bs k where
    f: "ps = as @ q # bs" "find_pbuf s p off = Some (q, k)" "unat k < unat (pb_len s q)" "q \<noteq> NULL"
      "chain (pb_next s) q (q # bs)" "length (cdata s as) + unat k = unat off" by auto
  have c: "cdata s ps ! (unat off + j) = cdata s (q # bs) ! (unat k + j)" for j
    using f(1) f(6) by (simp add: nth_append f(6) [symmetric] add.assoc)
  have b: "unat k + unat n \<le> length (cdata s (q # bs))" "length (cdata s (q # bs)) < 65536" using assms(2,3) f(1,6) by simp_all
  have "pbuf_memcmp p off s2 n s = memcmp_loop s q k s2 n 0" using f by (simp add: pbuf_memcmp_def word_less_nat_alt)
  with memcmp_loop_spec [OF f(5) b, of 0 s2] show ?thesis
    by (auto simp: match_at_nth [OF assms(2)] c split: if_splits)
qed

lemma memfind_loop_spec:
  assumes "chain (pb_next s) p ps" "L = length (cdata s ps)" "L < 65535" "0 < unat n" "unat n \<le> L"
    and "unat max_i = L - unat n"
  shows "unat i \<le> L \<Longrightarrow> \<exists>r. memfind_loop s p mem n max_i i = Some r \<and>
    (r = 0xFFFF \<or> unat i \<le> unat r \<and> unat r + unat n \<le> L \<and> match_at s (cdata s ps) mem (unat n) (unat r))"
proof (induction "L - unat i" arbitrary: i rule: less_induct)
  case less
  show ?case
  proof (cases "i \<le> max_i")
    case True
    then have le: "unat i + unat n \<le> L" using assms(4-6) by (simp add: word_le_nat_alt)
    have "unat i + unat n \<le> length (cdata s ps)" "length (cdata s ps) < 65536" using le assms(2,3) by simp_all
    from pbuf_memcmp_spec [OF assms(1) this assms(4), of mem] obtain r where r: "pbuf_memcmp p i mem n s = Some r"
      "if match_at s (cdata s ps) mem (unat n) (unat i) then r = 0
       else \<exists>j<unat n. cdata s ps ! (unat i + j) \<noteq> bytes s (mem + of_nat j) \<and> r = of_nat (Suc j)" by blast
    show ?thesis
    proof (cases "match_at s (cdata s ps) mem (unat n) (unat i)")
      case True
      then show ?thesis using r le \<open>i \<le> max_i\<close>
        by (intro exI [of _ i]) (simp add: memfind_loop.simps [of s p mem n max_i i])
    next
      case False
      with r(2) have "\<exists>j<unat n. r = of_nat (Suc j)" by (simp del: of_nat_Suc) blast
      then obtain j where j: "j < unat n" "r = of_nat (Suc j)" by blast
      have "unat r = Suc j" using j le assms(3) by (simp add: unat_of_nat_u16 del: of_nat_Suc)
      then have u: "unat (i + r) = unat i + Suc j" "r \<noteq> 0"
        using j(1) le assms(3) by (auto simp: unat_word_ariths)
      have "L - unat (i + r) < L - unat i" "unat (i + r) \<le> L" using u le j(1) by auto
      from less(1) [OF this] obtain k where "memfind_loop s p mem n max_i (i + r) = Some k"
        "k = 0xFFFF \<or> unat (i + r) \<le> unat k \<and> unat k + unat n \<le> L \<and> match_at s (cdata s ps) mem (unat n) (unat k)" by blast
      then show ?thesis using r(1) u \<open>i \<le> max_i\<close>
        by (intro exI [of _ k]) (auto simp: memfind_loop.simps [of s p mem n max_i i])
    qed
  next
    case False
    then show ?thesis by (subst memfind_loop.simps) simp
  qed
qed


section \<open>Copying data in and out\<close>

definition region :: "ptr \<Rightarrow> nat \<Rightarrow> ptr set" where
  "region a n = {x. unat (x - a) < n}"

text \<open>The bytes that the buffers of a chain hold, and that two of them do not share any.\<close>

definition payloads :: "lw \<Rightarrow> ptr list \<Rightarrow> ptr set" where
  "payloads s ps = (\<Union>q\<in>set ps. region (pb_payload s q) (unat (pb_len s q)))"

fun apart :: "lw \<Rightarrow> ptr list \<Rightarrow> bool" where
  "apart s [] \<longleftrightarrow> True"
| "apart s (q # qs) \<longleftrightarrow> region (pb_payload s q) (unat (pb_len s q)) \<inter> payloads s qs = {} \<and> apart s qs"

text \<open>Only bytes of a set differ.\<close>

definition writes :: "ptr set \<Rightarrow> lw \<Rightarrow> lw \<Rightarrow> bool" where
  "writes R s s' \<longleftrightarrow> (\<exists>b. s' = s\<lparr>bytes := b\<rparr>) \<and> (\<forall>a. a \<notin> R \<longrightarrow> bytes s' a = bytes s a)"

lemma writes_refl: "writes R s s"
  by (auto simp: writes_def intro: exI [of _ "bytes s"])

lemma writes_trans: "writes R s s' \<Longrightarrow> writes R' s' s'' \<Longrightarrow> writes (R \<union> R') s s''"
  by (auto simp: writes_def)

lemma writes_mono: "writes R s s' \<Longrightarrow> R \<subseteq> R' \<Longrightarrow> writes R' s s'"
  by (auto simp: writes_def)

lemma writes_fields:
  assumes "writes R s s'"
  shows "pb_next s' = pb_next s" "pb_payload s' = pb_payload s" "pb_len s' = pb_len s" "pb_tot_len s' = pb_tot_len s"
    "payloads s' = payloads s"
  using assms by (auto simp: writes_def payloads_def)

lemma payloads_simps [simp]:
  "payloads s [] = {}" "payloads s (q # qs) = region (pb_payload s q) (unat (pb_len s q)) \<union> payloads s qs"
  by (simp_all add: payloads_def)

lemma in_region: "i < n \<Longrightarrow> i < 4294967296 \<Longrightarrow> a + of_nat i \<in> region a n"
  by (simp add: region_def unat_of_nat_u32)

lemma writes_bytes_at:
  assumes "writes R s s'" "R \<inter> region a n = {}" "n \<le> 65536"
  shows "bytes_at (bytes s') a n = bytes_at (bytes s) a n"
proof (intro nth_equalityI)
  fix i assume "i < length (bytes_at (bytes s') a n)"
  then have i: "i < n" "a + of_nat i \<in> region a n" using assms(3) by (auto intro!: in_region)
  then have "a + of_nat i \<notin> R" using assms(2) by blast
  with assms(1) i(1) show "bytes_at (bytes s') a n ! i = bytes_at (bytes s) a n ! i" by (simp add: writes_def)
qed simp

lemma writes_cdata:
  assumes "writes R s s'" "R \<inter> payloads s ps = {}"
  shows "cdata s' ps = cdata s ps"
  using assms(2)
proof (induction ps)
  case (Cons q ps)
  have "pdata s' q = pdata s q" unfolding pdata_def writes_fields [OF assms(1)]
    using writes_bytes_at [OF assms(1)] Cons.prems unat_u16_less [of "pb_len s q"] by (simp del: unat_u16_less add: Int_Un_distrib)
  with Cons show ?case by (simp add: Int_Un_distrib)
qed simp

lemma writes_apart: "writes R s s' \<Longrightarrow> apart s' ps = apart s ps"
  by (induction ps) (simp_all add: writes_fields)

lemma memcpy_writes: "writes (region dst n) s (memcpy dst src n s)"
  by (auto simp: writes_def memcpy_def region_def)

lemma memcpy_fields [simp]:
  "pb_next (memcpy d a n s) = pb_next s" "pb_payload (memcpy d a n s) = pb_payload s"
  "pb_len (memcpy d a n s) = pb_len s" "pb_tot_len (memcpy d a n s) = pb_tot_len s"
  by (simp_all add: memcpy_def)

lemma memcpy_bytes_at: "n \<le> 65536 \<Longrightarrow> bytes_at (bytes (memcpy dst src n s)) dst n = bytes_at (bytes s) src n"
  by (intro nth_equalityI) (auto simp: memcpy_def unat_of_nat_u32)

lemma region_append:
  assumes "n + k \<le> 65536"
  shows "region a (n + k) = region a n \<union> region (a + of_nat n) k" "region a n \<inter> region (a + of_nat n) k = {}"
proof -
  have u: "unat (x - (a + of_nat n)) = (if n \<le> unat (x - a) then unat (x - a) - n else unat (x - a) + 4294967296 - n)" for x
  proof -
    have "x - (a + of_nat n) = (x - a) - of_nat n" by simp
    moreover have "unat ((x - a) - of_nat n) =
        (if n \<le> unat (x - a) then unat (x - a) - n else unat (x - a) + 4294967296 - n)"
      using assms by (simp add: unat_sub_if' unat_of_nat_u32)
    ultimately show ?thesis by (simp only:)
  qed
  show "region a (n + k) = region a n \<union> region (a + of_nat n) k" "region a n \<inter> region (a + of_nat n) k = {}"
    using assms by (auto simp: region_def u split: if_splits)
qed

lemma ucast_add_u16:
  "unat (a :: u16) + unat b < 65536 \<Longrightarrow> (ucast (a + b) :: u32) = ucast a + of_nat (unat b)"
  by (simp add: word_unat_eq_iff unat_word_ariths of_nat_unat_u16)

lemma copy_partial_loop_spec:
  assumes "chain (pb_next s) p ps" "unat left + unat len < 65536"
    and "region (d + ucast left) (unat len) \<inter> payloads s ps = {}"
  shows "\<exists>s'. copy_partial_loop p d left len off s =
      Some (left + of_nat (min (unat len) (length (cdata s ps) - unat off)), s') \<and>
    writes (region (d + ucast left) (min (unat len) (length (cdata s ps) - unat off))) s s' \<and>
    bytes_at (bytes s') (d + ucast left) (min (unat len) (length (cdata s ps) - unat off)) =
      take (unat len) (drop (unat off) (cdata s ps))"
  using assms
proof (induction ps arbitrary: p left len off s)
  case Nil
  then show ?case by (auto simp: copy_partial_loop.simps writes_refl)
next
  case (Cons x ps)
  then have x: "p = x" "x \<noteq> NULL" "chain (pb_next s) (pb_next s x) ps" by simp_all
  consider "len = 0" | "len \<noteq> 0" "off \<noteq> 0" "off \<ge> pb_len s x" | "len \<noteq> 0" "off \<noteq> 0 \<longrightarrow> off < pb_len s x" by force
  then show ?case
  proof cases
    case 1
    then show ?thesis by (subst copy_partial_loop.simps) (simp add: writes_refl)
  next
    case 2
    have u: "unat (off - pb_len s x) = unat off - unat (pb_len s x)" using 2(3) by (rule unat_diff_u16)
    have le: "unat (pb_len s x) \<le> unat off" using 2(3) by (simp add: word_le_nat_alt)
    have "copy_partial_loop p d left len off s = copy_partial_loop (pb_next s x) d left len (off - pb_len s x) s"
      using x 2 by (subst copy_partial_loop.simps) simp
    moreover have "region (d + ucast left) (unat len) \<inter> payloads s ps = {}" using Cons.prems(3) by (simp add: Int_Un_distrib)
    note Cons.IH [OF x(3) Cons.prems(2) this, of "off - pb_len s x"]
    moreover have "length (cdata s (x # ps)) - unat off = length (cdata s ps) - (unat off - unat (pb_len s x))" using le by simp
    moreover have "drop (unat off) (cdata s (x # ps)) = drop (unat off - unat (pb_len s x)) (cdata s ps)" using le by simp
    ultimately show ?thesis by (simp only: u)
  next
    case 3
    define n where "n = (if pb_len s x - off > len then len else pb_len s x - off)"
    define s1 where "s1 = memcpy (d + ucast left) (pb_payload s x + ucast off) (unat n) s"
    have u: "unat (pb_len s x - off) = unat (pb_len s x) - unat off" "unat off \<le> unat (pb_len s x)"
      using 3(2) by (cases "off = 0"; simp add: unat_diff_u16 word_le_nat_alt word_less_nat_alt)+
    have n: "unat n = min (unat len) (unat (pb_len s x) - unat off)" by (simp add: n_def u word_less_nat_alt)
    have f: "copy_partial_loop p d left len off s = copy_partial_loop (pb_next s x) d (left + n) (len - n) 0 s1"
      using x 3 by (subst copy_partial_loop.simps) (auto simp: n_def s1_def Let_def)
    have w: "writes (region (d + ucast left) (unat n)) s s1" unfolding s1_def by (rule memcpy_writes)
    have l: "unat (left + n) = unat left + unat n" using n Cons.prems(2) by (simp add: unat_word_ariths)
    have d: "unat (len - n) = unat len - unat n" using n by (simp add: unat_diff_u16 word_le_nat_alt)
    have "(ucast (left + n) :: u32) = ucast left + of_nat (unat n)"
      using n Cons.prems(2) by (intro ucast_add_u16) simp
    then have a: "d + ucast (left + n) = d + ucast left + of_nat (unat n)" by simp
    have r: "region (d + ucast left) (unat len) = region (d + ucast left) (unat n) \<union> region (d + ucast (left + n)) (unat len - unat n)"
      unfolding a using region_append(1) [of "unat n" "unat len - unat n"] n Cons.prems(2) by simp
    let ?A = "d + ucast left"
    define k where "k = min (unat len - unat n) (length (cdata s ps))"
    have k: "min (unat len) (length (cdata s (x # ps)) - unat off) = unat n + k" using n u(2) by (auto simp: k_def min_def)
    have nk: "unat n + k \<le> 65536" using n Cons.prems(2) by (simp add: k_def)
    have c: "cdata s1 ps = cdata s ps" using writes_cdata [OF w] Cons.prems(3) r by (simp add: Int_Un_distrib Int_Un_distrib2)
    have "region (d + ucast (left + n)) (unat (len - n)) \<inter> payloads s1 ps = {}" "unat (left + n) + unat (len - n) < 65536"
      using Cons.prems(2,3) r n by (auto simp: d l writes_fields [OF w])
    moreover have "chain (pb_next s1) (pb_next s x) ps" using x(3) by (simp add: writes_fields [OF w])
    ultimately obtain s' where
      s': "copy_partial_loop (pb_next s x) d (left + n) (len - n) 0 s1 = Some (left + n + of_nat k, s')"
      "writes (region (?A + of_nat (unat n)) k) s1 s'"
      "bytes_at (bytes s') (?A + of_nat (unat n)) k = take (unat len - unat n) (cdata s ps)"
      using Cons.IH [of s1 "pb_next s x" "left + n" "len - n" 0] by (auto simp: c d a k_def)
    have "writes (region ?A (unat n + k)) s s'"
      using writes_trans [OF w s'(2)] region_append(1) [OF nk] by simp
    moreover have "bytes_at (bytes s') ?A (unat n) = bytes_at (bytes s1) ?A (unat n)"
      using s'(2) region_append(2) [OF nk, of ?A] nk by (intro writes_bytes_at) auto
    moreover have "bytes_at (bytes s1) ?A (unat n) = take (unat n) (drop (unat off) (pdata s x))"
      unfolding s1_def using n u(2) unat_u16_less [of n]
      by (subst memcpy_bytes_at) (auto intro!: nth_equalityI simp: pdata_def of_nat_unat_u16 add.assoc simp del: unat_u16_less)
    moreover have "take (unat len) (drop (unat off) (cdata s (x # ps))) =
        take (unat n) (drop (unat off) (pdata s x)) @ take (unat len - unat n) (cdata s ps)"
      using n u(2) by (auto simp: min_def)
    moreover have "left + n + of_nat k = left + of_nat (unat n + k)" by simp
    ultimately show ?thesis using s' f unfolding k by (intro exI [of _ s']) (simp only: bytes_at_append simp_thms)
  qed
qed

lemma take_loop_spec:
  assumes "chain (pb_next s) p ps" "unat cp + unat len < 65536" "unat len \<le> length (cdata s ps)"
    and "region (d + ucast cp) (unat len) \<inter> payloads s ps = {}" "apart s ps"
  shows "\<exists>s'. take_loop p d cp len s = Some s' \<and> writes (payloads s ps) s s' \<and>
    cdata s' ps = bytes_at (bytes s) (d + ucast cp) (unat len) @ drop (unat len) (cdata s ps)"
  using assms
proof (induction ps arbitrary: p cp len s)
  case Nil
  then have "len = 0" by (simp add: unat_eq_0)
  then show ?case by (auto simp: take_loop.simps writes_refl)
next
  case (Cons x ps)
  then have x: "p = x" "x \<noteq> NULL" "chain (pb_next s) (pb_next s x) ps" by simp_all
  show ?case
  proof (cases "len = 0")
    case True
    then show ?thesis by (subst take_loop.simps) (simp add: writes_refl)
  next
    case False
    define n where "n = (if len > pb_len s x then pb_len s x else len)"
    define s1 where "s1 = memcpy (pb_payload s x) (d + ucast cp) (unat n) s"
    let ?A = "d + ucast cp" and ?X = "region (pb_payload s x) (unat (pb_len s x))"
    have n: "unat n = min (unat len) (unat (pb_len s x))" by (simp add: n_def word_less_nat_alt)
    have f: "take_loop p d cp len s = take_loop (pb_next s x) d (cp + n) (len - n) s1"
      using x False by (subst take_loop.simps) (simp add: n_def s1_def Let_def)
    have "writes (region (pb_payload s x) (unat n)) s s1" unfolding s1_def by (rule memcpy_writes)
    then have w: "writes ?X s s1" using n by (auto elim!: writes_mono simp: region_def)
    have l: "unat (cp + n) = unat cp + unat n" using n Cons.prems(2) by (simp add: unat_word_ariths)
    have d: "unat (len - n) = unat len - unat n" using n by (simp add: unat_diff_u16 word_le_nat_alt)
    have "(ucast (cp + n) :: u32) = ucast cp + of_nat (unat n)"
      using n Cons.prems(2) by (intro ucast_add_u16) simp
    then have a: "d + ucast (cp + n) = ?A + of_nat (unat n)" by simp
    have nl: "unat n + (unat len - unat n) = unat len" using n by simp
    have r: "region ?A (unat len) = region ?A (unat n) \<union> region (?A + of_nat (unat n)) (unat len - unat n)"
      using region_append(1) [of "unat n" "unat len - unat n"] n Cons.prems(2) by simp
    have dj: "region ?A (unat len) \<inter> ?X = {}" "?X \<inter> payloads s ps = {}" "apart s ps" using Cons.prems(4,5) by auto
    have c: "cdata s1 ps = cdata s ps" using writes_cdata [OF w dj(2)] .
    have b: "bytes_at (bytes s1) (?A + of_nat (unat n)) (unat len - unat n) =
        bytes_at (bytes s) (?A + of_nat (unat n)) (unat len - unat n)"
      using w dj(1) r Cons.prems(2) by (intro writes_bytes_at) auto
    have "region (d + ucast (cp + n)) (unat (len - n)) \<inter> payloads s1 ps = {}" "unat (cp + n) + unat (len - n) < 65536"
      "unat (len - n) \<le> length (cdata s1 ps)"
      using Cons.prems(2-4) r n by (auto simp: d l a c writes_fields [OF w])
    moreover have "chain (pb_next s1) (pb_next s x) ps" "apart s1 ps" using x(3) dj(3) w by (simp_all add: writes_fields writes_apart)
    ultimately obtain s' where
      s': "take_loop (pb_next s x) d (cp + n) (len - n) s1 = Some s'" "writes (payloads s ps) s1 s'"
      "cdata s' ps = bytes_at (bytes s) (?A + of_nat (unat n)) (unat len - unat n) @ drop (unat len - unat n) (cdata s ps)"
      using Cons.IH [of s1 "pb_next s x" "cp + n" "len - n"] by (auto simp: c d a b [simplified] writes_fields [OF w])
    have "pdata s' x = pdata s1 x"
      unfolding pdata_def writes_fields [OF s'(2)] using dj(2) unat_u16_less [of "pb_len s1 x"]
      by (intro writes_bytes_at [OF s'(2)]) (auto simp: writes_fields [OF w] simp del: unat_u16_less)
    also have "\<dots> = bytes_at (bytes s) ?A (unat n) @ drop (unat n) (pdata s x)"
    proof (intro nth_equalityI)
      fix i assume "i < length (pdata s1 x)"
      then have i: "i < unat (pb_len s x)" by (simp add: pdata_def writes_fields [OF w])
      then have "unat (of_nat i :: ptr) = i" using unat_u16_less [of "pb_len s x"] by (simp add: unat_of_nat_u32 del: unat_u16_less)
      then show "pdata s1 x ! i = (bytes_at (bytes s) ?A (unat n) @ drop (unat n) (pdata s x)) ! i"
        using i by (simp add: pdata_def s1_def memcpy_def nth_append)
    qed (use n in \<open>simp add: pdata_def writes_fields [OF w]\<close>)
    finally have "cdata s' (x # ps) = bytes_at (bytes s) ?A (unat len) @ drop (unat len) (cdata s (x # ps))"
      using s'(3) n by (subst nl [symmetric], unfold bytes_at_append) (auto simp: min_def)
    moreover have "writes (payloads s (x # ps)) s s'" using writes_trans [OF w s'(2)] by simp
    ultimately show ?thesis using s'(1) f by simp
  qed
qed

lemma pbuf_copy_partial_spec:
  assumes "chain (pb_next s) p ps" "p \<noteq> NULL" "d \<noteq> NULL" "region d (unat len) \<inter> payloads s ps = {}"
  shows "\<exists>s'. pbuf_copy_partial p d len off s = Some (of_nat (min (unat len) (length (cdata s ps) - unat off)), s') \<and>
    writes (region d (min (unat len) (length (cdata s ps) - unat off))) s s' \<and>
    bytes_at (bytes s') d (min (unat len) (length (cdata s ps) - unat off)) =
      take (unat len) (drop (unat off) (cdata s ps))"
  using copy_partial_loop_spec [OF assms(1), of 0 len d off] assms(2-4) by (simp add: pbuf_copy_partial_def)

lemma pbuf_take_spec:
  assumes "chain (pb_next s) p ps" "p \<noteq> NULL" "d \<noteq> NULL" "tot_ok s ps"
    and "region d (unat len) \<inter> payloads s ps = {}" "apart s ps" "unat len \<le> length (cdata s ps)"
  shows "\<exists>s'. pbuf_take p d len s = Some (ERR_OK, s') \<and> writes (payloads s ps) s s' \<and>
    cdata s' ps = bytes_at (bytes s) d (unat len) @ drop (unat len) (cdata s ps)"
proof -
  have "unat (pb_tot_len s p) = length (cdata s ps)" using assms(1,2,4) by (cases ps) auto
  then have "\<not> pb_tot_len s p < len" using assms(7) by (simp add: word_less_nat_alt)
  with take_loop_spec [OF assms(1), of 0 len d] assms(2,3,5-7) show ?thesis by (auto simp: pbuf_take_def)
qed

section \<open>Joining chains\<close>

lemma cat_loop_spec:
  assumes "chain (pb_next s) p (x # xs)" "t \<notin> set (x # xs)"
  shows "cat_loop p t s = Some (last (x # xs),
    s\<lparr>pb_tot_len := (\<lambda>q. if q \<in> set (butlast (x # xs)) then pb_tot_len s q + pb_tot_len s t else pb_tot_len s q)\<rparr>)"
  using assms
proof (induction xs arbitrary: x p s)
  case Nil
  then show ?case by (subst cat_loop.simps) simp
next
  case (Cons y xs)
  let ?s = "put_tot_len x (pb_tot_len s x + pb_tot_len s t) s"
  have d: "distinct (x # y # xs)" using Cons.prems(1) by (rule chain_distinct)
  have "cat_loop p t s = cat_loop y t ?s" using Cons.prems by (subst cat_loop.simps) auto
  also have "\<dots> = Some (last (y # xs),
      ?s\<lparr>pb_tot_len := (\<lambda>q. if q \<in> set (butlast (y # xs)) then pb_tot_len ?s q + pb_tot_len ?s t else pb_tot_len ?s q)\<rparr>)"
    using Cons.prems by (intro Cons.IH) auto
  also have "(\<lambda>q. if q \<in> set (butlast (y # xs)) then pb_tot_len ?s q + pb_tot_len ?s t else pb_tot_len ?s q) =
      (\<lambda>q. if q \<in> set (butlast (x # y # xs)) then pb_tot_len s q + pb_tot_len s t else pb_tot_len s q)"
    using Cons.prems(2) d by (auto simp: fun_eq_iff dest: in_set_butlastD)
  finally show ?case by simp
qed

lemma cdata_cong: "(\<And>q. q \<in> set ps \<Longrightarrow> pdata s' q = pdata s q) \<Longrightarrow> cdata s' ps = cdata s ps"
  by (simp add: cdata_def cong: map_cong)

lemma tot_ok_cong:
  "(\<And>q. q \<in> set ps \<Longrightarrow> pb_tot_len s' q = pb_tot_len s q \<and> pdata s' q = pdata s q) \<Longrightarrow> tot_ok s' ps = tot_ok s ps"
proof (induction ps)
  case (Cons q ps)
  then have "cdata s' (q # ps) = cdata s (q # ps)" by (intro cdata_cong) auto
  moreover have "tot_ok s' ps = tot_ok s ps" by (rule Cons.IH) (simp add: Cons.prems)
  ultimately show ?case using Cons.prems [of q] by (simp only: tot_ok.simps) simp
qed simp

lemma tot_ok_append:
  assumes "tot_ok s hs" "tot_ok s ts" "length (cdata s hs) + length (cdata s ts) < 65536"
    and "\<And>q. q \<in> set hs \<Longrightarrow> pb_tot_len s' q = pb_tot_len s q + of_nat (length (cdata s ts))"
    and "\<And>q. q \<in> set ts \<Longrightarrow> pb_tot_len s' q = pb_tot_len s q"
    and "\<And>q. pdata s' q = pdata s q"
  shows "tot_ok s' (hs @ ts)"
  using assms
proof (induction hs)
  case Nil
  then show ?case using tot_ok_cong [of ts s' s] by simp
next
  case (Cons q hs)
  have c: "cdata s' qs = cdata s qs" for qs using assms(6) by (intro cdata_cong)
  have "unat (pb_tot_len s' q) = unat (pb_tot_len s q) + length (cdata s ts)"
    using Cons.prems(1,3,4) by (simp add: unat_word_ariths unat_of_nat_u16)
  then show ?case using Cons by (auto simp: c)
qed

lemma chain_join:
  assumes "chain l h hs" "chain l t ts" "hs \<noteq> []" "set hs \<inter> set ts = {}"
  shows "chain (l(last hs := t)) h (hs @ ts)"
  using assms
proof (induction hs arbitrary: h)
  case (Cons x xs)
  have d: "distinct (x # xs)" using Cons.prems(1) by (rule chain_distinct)
  show ?case
  proof (cases "xs = []")
    case True
    have "chain (l(x := t)) t ts" using Cons.prems(2,4) by (simp add: chain_upd)
    then show ?thesis using True Cons.prems(1) by (simp add: fun_upd_def)
  next
    case False
    then have "chain (l(last xs := t)) (l x) (xs @ ts)" using Cons.IH [of "l x"] Cons.prems by (simp add: fun_upd_def)
    moreover have "x \<noteq> last xs" using False d by auto
    ultimately show ?thesis using False Cons.prems(1) by (simp add: fun_upd_def)
  qed
qed simp

lemma pbuf_cat_eq:
  assumes "chain (pb_next s) h hs" "chain (pb_next s) t ts" "hs \<noteq> []" "ts \<noteq> []" "set hs \<inter> set ts = {}"
  shows "pbuf_cat h t s = Some (s\<lparr>pb_tot_len := (\<lambda>q. if q \<in> set hs then pb_tot_len s q + pb_tot_len s t else pb_tot_len s q),
    pb_next := (pb_next s)(last hs := t)\<rparr>)"
proof -
  have th: "t \<in> set ts" "t \<noteq> NULL" "h \<noteq> NULL" using assms by (cases ts; cases hs; simp)+
  have "t \<notin> set hs" using th(1) assms(5) by blast
  obtain x xs where hs: "hs = x # xs" using assms(3) by (cases hs) auto
  have d: "distinct hs" using assms(1) by (rule chain_distinct)
  have "last hs \<notin> set (butlast hs)" "set hs = insert (last hs) (set (butlast hs))"
    using d assms(3) by (metis append_butlast_last_id distinct_append not_distinct_conv_prefix, metis append_butlast_last_id assms(3) list.simps(15) rotate1.simps(2) set_rotate1)
  then show ?thesis
    using cat_loop_spec [of s h x xs t] assms(1) \<open>t \<notin> set hs\<close> th assms(3)
    by (auto simp: pbuf_cat_def hs [symmetric] Let_def fun_eq_iff)
qed

lemma pbuf_cat_spec:
  assumes "pchain s h hs" "pchain s t ts" "hs \<noteq> []" "ts \<noteq> []" "set hs \<inter> set ts = {}"
    and "length (cdata s hs) + length (cdata s ts) < 65536"
  shows "\<exists>s'. pbuf_cat h t s = Some s' \<and> pchain s' h (hs @ ts) \<and> cdata s' (hs @ ts) = cdata s hs @ cdata s ts \<and>
    (\<forall>q. pdata s' q = pdata s q) \<and> pb_ref_count s' = pb_ref_count s"
proof -
  have c: "chain (pb_next s) h hs" "chain (pb_next s) t ts" using assms(1,2) by (auto simp: pchain_def)
  define f where "f = (\<lambda>q. if q \<in> set hs then pb_tot_len s q + pb_tot_len s t else pb_tot_len s q)"
  define s' where "s' = s\<lparr>pb_tot_len := f, pb_next := (pb_next s)(last hs := t)\<rparr>"
  have "pbuf_cat h t s = Some s'" using pbuf_cat_eq [OF c assms(3-5)] by (simp add: s'_def f_def)
  moreover have p: "pdata s' q = pdata s q" for q by (simp add: s'_def pdata_def)
  moreover have "cdata s' (hs @ ts) = cdata s hs @ cdata s ts" using cdata_cong [of _ s' s] p by simp
  moreover have "chain (pb_next s') h (hs @ ts)" using chain_join [OF c assms(3,5)] by (simp add: s'_def)
  moreover have "pb_tot_len s t = of_nat (length (cdata s ts))"
    using pchain_len [OF assms(2,4)] by simp
  then have "tot_ok s' (hs @ ts)" using assms(1,2,5,6) p
    by (intro tot_ok_append [of s]) (auto simp: pchain_def s'_def f_def)
  ultimately show ?thesis by (auto simp: pchain_def s'_def)
qed

section \<open>Properties\<close>

text \<open>
  An answer of \<open>pbuf_memfind\<close> other than 0xFFFF is a place at or behind the start offset
  where the pattern stands in the data of the chain, and the search ends.
\<close>

theorem pbuf_memfind_sound:
  assumes "pchain s p ps" "ps \<noteq> []" "length (cdata s ps) < 65535" "0 < n"
  shows "\<exists>r. pbuf_memfind p mem n start s = Some r \<and>
    (r = 0xFFFF \<or> start \<le> r \<and> take (unat n) (drop (unat r) (cdata s ps)) = bytes_at (bytes s) mem (unat n))"
proof -
  have c: "chain (pb_next s) p ps" "p \<noteq> NULL" using assms(1,2) by (cases ps; simp add: pchain_def)+
  note t = pchain_len [OF assms(1,2), symmetric]
  show ?thesis
  proof (cases "unat (pb_tot_len s p) \<ge> unat n + unat start")
    case True
    then have "unat (pb_tot_len s p - n) = length (cdata s ps) - unat n"
      using t by (simp add: unat_diff_u16 word_le_nat_alt)
    moreover have "0 < unat n" "unat n \<le> length (cdata s ps)" "unat start \<le> length (cdata s ps)"
      using assms(4) True t by (simp_all add: unat_gt_0 word_neq_0_conv)
    ultimately show ?thesis
      using memfind_loop_spec [OF c(1) refl assms(3), of n "pb_tot_len s p - n" start mem] True c(2)
      by (auto simp: pbuf_memfind_def Let_def match_at_def word_le_nat_alt)
  next
    case False
    then show ?thesis using c(2) by (simp add: pbuf_memfind_def Let_def)
  qed
qed

text \<open>A chain of one buffer with the bytes \<open>aaab\<close>; the pattern \<open>aab\<close> stands at 0x40.\<close>

definition smp_find :: lw where
  "smp_find = undefined\<lparr>bytes := (\<lambda>_. 0)(0x10 := 97, 0x11 := 97, 0x12 := 97, 0x13 := 98, 0x40 := 97, 0x41 := 97, 0x42 := 98),
     pb_next := (\<lambda>_. NULL), pb_payload := (\<lambda>_. 0)(0x500 := 0x10),
     pb_len := (\<lambda>_. 0)(0x500 := 4), pb_tot_len := (\<lambda>_. 0)(0x500 := 4)\<rparr>"

lemma smp_find_chain: "pchain smp_find 0x500 [0x500]" "cdata smp_find [0x500] = [97, 97, 97, 98]"
  "bytes_at (bytes smp_find) 0x40 3 = [97, 97, 98]" "bytes_at (bytes smp_find) 0x11 3 = [97, 97, 98]"
  by (simp_all add: pchain_def smp_find_def pdata_def bytes_at_def upt_rec)

theorem pbuf_memfind_sound_witness:
  "\<exists>r. pbuf_memfind 0x500 0x11 3 1 smp_find = Some r \<and>
    (r = 0xFFFF \<or> 1 \<le> r \<and> take 3 (drop (unat r) [97, 97, 97, 98]) = [97, 97, 98 :: u8])"
  using pbuf_memfind_sound [OF smp_find_chain(1), where n = 3 and mem = "0x11" and start = 1] unfolding smp_find_chain by (simp add: smp_find_chain)

text \<open>
  \<open>pbuf_memfind\<close> can miss the pattern. After a mismatch it goes on behind the byte that
  differed, so in the data \<open>aaab\<close> it does not find \<open>aab\<close>, which stands there at offset 1.
\<close>

theorem pbuf_memfind_misses:
  "pbuf_memfind 0x500 0x40 3 0 smp_find = Some 0xFFFF \<and>
   take 3 (drop 1 (cdata smp_find [0x500])) = bytes_at (bytes smp_find) 0x40 3"
proof -
  have g: "pbuf_memcmp 0x500 0 0x40 3 smp_find = Some 3"
    by (simp add: pbuf_memcmp_def find_pbuf.simps pbuf_get_at_def memcmp_loop.simps smp_find_def word_le_nat_alt)
  have "memfind_loop smp_find 0x500 0x40 3 1 0 = Some 0xFFFF"
    by (simp add: g memfind_loop.simps [of _ _ _ _ _ 0] memfind_loop.simps [of _ _ _ _ _ 3] word_le_nat_alt)
  moreover have "pb_tot_len smp_find 0x500 = 4" by (simp add: smp_find_def)
  ultimately have "pbuf_memfind 0x500 0x40 3 0 smp_find = Some 0xFFFF" by (simp add: pbuf_memfind_def)
  then show ?thesis unfolding smp_find_chain by simp
qed

text \<open>
  C21: data put into a chain with \<open>pbuf_take\<close> comes out again with \<open>pbuf_copy_partial\<close>, from
  any offset, if the application's areas and the payloads do not overlap; nothing but the
  payloads and the destination is written.
\<close>

theorem pbuf_take_copy_partial:
  assumes "pchain s p ps" "ps \<noteq> []" "apart s ps" "src \<noteq> NULL" "dst \<noteq> NULL"
    and "region src (unat len) \<inter> payloads s ps = {}" "region dst (unat n) \<inter> payloads s ps = {}"
    and "unat len \<le> length (cdata s ps)" "unat off + unat n \<le> unat len"
  shows "\<exists>s1 s2. pbuf_take p src len s = Some (ERR_OK, s1) \<and> pbuf_copy_partial p dst n off s1 = Some (n, s2) \<and>
    bytes_at (bytes s2) dst (unat n) = bytes_at (bytes s) (src + ucast off) (unat n) \<and>
    writes (payloads s ps \<union> region dst (unat n)) s s2"
proof -
  have c: "chain (pb_next s) p ps" "tot_ok s ps" "p \<noteq> NULL" using assms(1,2) by (cases ps; simp add: pchain_def)+
  let ?D = "bytes_at (bytes s) src (unat len)"
  from pbuf_take_spec [OF c(1,3) assms(4) c(2) assms(6,3,8)] obtain s1 where
    s1: "pbuf_take p src len s = Some (ERR_OK, s1)" "writes (payloads s ps) s s1" "cdata s1 ps = ?D @ drop (unat len) (cdata s ps)"
    by blast
  let ?m = "min (unat n) (length (cdata s1 ps) - unat off)"
  have m: "?m = unat n" using s1(3) assms(9) by simp
  have "chain (pb_next s1) p ps" "region dst (unat n) \<inter> payloads s1 ps = {}"
    using c(1) assms(7) by (simp_all add: writes_fields [OF s1(2)])
  from pbuf_copy_partial_spec [OF this(1) c(3) assms(5) this(2), of off] obtain s2 where
    s2: "pbuf_copy_partial p dst n off s1 = Some (n, s2)" "writes (region dst (unat n)) s1 s2"
      "bytes_at (bytes s2) dst (unat n) = take (unat n) (drop (unat off) (cdata s1 ps))"
    unfolding m by auto
  have "take (unat n) (drop (unat off) (cdata s1 ps)) = take (unat n) (drop (unat off) ?D)" using assms(9) by (simp add: s1(3))
  also have "\<dots> = bytes_at (bytes s) (src + ucast off) (unat n)"
    using assms(9) by (auto intro!: nth_equalityI simp: add.assoc of_nat_unat_u16)
  finally show ?thesis using s1 s2 writes_trans [OF s1(2) s2(2)] by simp
qed

lemma region_Suc: "region a (Suc n) = insert a (region (a + 1) n)" if "n < 65536"
proof -
  have "region a 1 = {a}" by (auto simp: region_def unat_eq_0)
  then show ?thesis using region_append(1) [of 1 n a] that by simp
qed

lemma region_0 [simp]: "region a 0 = {}"
  by (simp add: region_def)

lemma region_numerals:
  "region a 2 = {a, a + 1}" "region a 3 = {a, a + 1, a + 2}" "region a 4 = {a, a + 1, a + 2, a + 3}"
proof -
  show r2: "region a 2 = {a, a + 1}" for a using region_Suc [of 1 a] region_Suc [of 0 "a + 1"] by (simp add: numeral_2_eq_2)
  show r3: "region a 3 = {a, a + 1, a + 2}" for a using region_Suc [of 2 a] by (simp add: r2 add.assoc)
  show "region a 4 = {a, a + 1, a + 2, a + 3}" using region_Suc [of 3 a] by (simp add: r3 add.assoc)
qed

lemma smp_pb_apart:
  "pchain smp_pb 0x500 [0x500, 0x600]" "apart smp_pb [0x500, 0x600]" "payloads smp_pb [0x500, 0x600] = {0x30, 0x31, 0x10, 0x11, 0x12}"
  by (simp_all add: pchain_def smp_pb_def region_numerals pdata_def)

theorem pbuf_take_copy_partial_witness:
  "\<exists>s1 s2. pbuf_take 0x500 0x80 4 smp_pb = Some (ERR_OK, s1) \<and> pbuf_copy_partial 0x500 0xA0 3 1 s1 = Some (3, s2) \<and>
    bytes_at (bytes s2) 0xA0 3 = [0x81, 0x82, 0x83]"
proof -
  have "region 0x80 4 \<inter> payloads smp_pb [0x500, 0x600] = {}" "region 0xA0 3 \<inter> payloads smp_pb [0x500, 0x600] = {}"
    unfolding smp_pb_apart by (simp_all add: region_numerals)
  moreover have "unat (4 :: u16) \<le> length (cdata smp_pb [0x500, 0x600])" unfolding smp_pb_data by simp
  moreover have "bytes_at (bytes smp_pb) 0x81 3 = [0x81, 0x82, 0x83]" by (simp add: smp_pb_def bytes_at_def upt_rec)
  ultimately show ?thesis
    using pbuf_take_copy_partial [OF smp_pb_apart(1) _ smp_pb_apart(2), where src = "0x80" and dst = "0xA0" and len = 4 and n = 3 and off = 1] by auto
qed

text \<open>
  \<open>pbuf_cat\<close> keeps the invariant of the chains: the joined chain has the buffers and
  the data of the two, in this order, and every \<open>tot_len\<close> is again the length of the data
  from its buffer on. Reference counts do not change.
\<close>

theorem pbuf_cat_joins:
  assumes "pchain s h hs" "pchain s t ts" "hs \<noteq> []" "ts \<noteq> []" "set hs \<inter> set ts = {}"
    and "length (cdata s hs) + length (cdata s ts) < 65536"
  shows "\<exists>s'. pbuf_cat h t s = Some s' \<and> pchain s' h (hs @ ts) \<and> cdata s' (hs @ ts) = cdata s hs @ cdata s ts \<and>
    pb_ref_count s' = pb_ref_count s"
  using pbuf_cat_spec [OF assms] by blast

theorem pbuf_cat_joins_witness:
  "\<exists>s'. pbuf_cat 0x500 0x700 (smp_pb\<lparr>pb_len := (pb_len smp_pb)(0x700 := 2), pb_tot_len := (pb_tot_len smp_pb)(0x700 := 2)\<rparr>) = Some s' \<and>
    pchain s' 0x500 [0x500, 0x600, 0x700]"
proof -
  let ?s = "smp_pb\<lparr>pb_len := (pb_len smp_pb)(0x700 := 2), pb_tot_len := (pb_tot_len smp_pb)(0x700 := 2)\<rparr>"
  have "pchain ?s 0x500 [0x500, 0x600]" "pchain ?s 0x700 [0x700]"
    "length (cdata ?s [0x500, 0x600]) + length (cdata ?s [0x700]) < 65536"
    by (simp_all add: pchain_def smp_pb_def pdata_def)
  from pbuf_cat_joins [OF this(1,2) _ _ _ this(3)] show ?thesis by auto
qed

lemma sint_minus_u16:
  fixes i :: "16 word"
  assumes "sint i \<noteq> -32768"
  shows "sint (- i) = - sint i" "scast (- i) = (- scast i :: u32)"
proof -
  have "- 32768 \<le> sint i" "sint i < 32768" using sint_greater_eq [of i] sint_lt [of i] by simp_all
  moreover have "- i = word_of_int (- sint i)" by simp
  ultimately show s: "sint (- i) = - sint i" using assms by (simp only: int_word_sint) simp
  show "scast (- i) = (- scast i :: u32)" using s by (metis scast_eq of_int_minus)
qed

text \<open>
  Moving the payload of a buffer that has its own memory and moving it back restores
  the buffer: after \<open>pbuf_header p inc\<close> succeeded, \<open>pbuf_header p (- inc)\<close> succeeds and the
  state is the one before. The length must not pass 65535 on the way.
\<close>

theorem pbuf_header_undo:
  assumes "pb_type s p = PBUF_RAM \<or> pb_type s p = PBUF_POOL" "p + ucast SIZEOF_STRUCT_PBUF \<le> pb_payload s p"
    and "sint (inc :: 16 word) \<noteq> -32768" "0 < sint inc \<longrightarrow> uint (pb_len s p) + sint inc < 65536"
    and "pbuf_header p inc s = (0, s1)"
  shows "pbuf_header p (- inc) s1 = (0, s)"
proof (cases "inc = 0 \<or> p = NULL")
  case True
  then show ?thesis using assms(5) by (auto simp: pbuf_header_def)
next
  case False
  note m = sint_minus_u16 [OF assms(3)]
  have s1: "s1 = s\<lparr>pb_payload := (pb_payload s)(p := pb_payload s p - scast inc), pb_len := (pb_len s)(p := pb_len s p + inc),
      pb_tot_len := (pb_tot_len s)(p := pb_tot_len s p + inc)\<rparr>"
    using assms(1,5) False by (auto simp: pbuf_header_def Let_def split: if_splits)
  have "inc \<le> pb_len s p + inc" if "0 < sint inc"
  proof -
    have "sint inc = (uint inc + 32768) mod 65536 - 32768" using int_word_sint [of "uint inc", where 'a = 16] by simp
    moreover have "(uint inc + 32768) mod 65536 = (if uint inc < 32768 then uint inc + 32768 else uint inc - 32768)"
      using uint_bounded [of inc] mod_add_self2 [of "uint inc - 32768" "65536 :: int"]
      by (auto simp: add.commute)
    ultimately have "sint inc = uint inc" using that uint_bounded [of inc] by (simp split: if_splits)
    then show ?thesis using assms(4) that by (simp add: word_le_def uint_word_ariths)
  qed
  then have "\<not> (sint (- inc) < 0 \<and> \<not> inc \<le> pb_len s1 p)" by (simp add: m s1)
  then show ?thesis using False assms(1,2) by (auto simp: pbuf_header_def Let_def s1 m not_less)
qed

definition smp_ram :: lw where
  "smp_ram = undefined\<lparr>pb_next := (\<lambda>_. NULL), pb_type := (\<lambda>_. 0), pb_payload := (\<lambda>_. 0)(0x500 := 0x546),
     pb_len := (\<lambda>_. 0)(0x500 := 10), pb_tot_len := (\<lambda>_. 0)(0x500 := 10)\<rparr>"

theorem pbuf_header_undo_witness:
  "\<exists>s1. pbuf_header 0x500 14 smp_ram = (0, s1) \<and> pb_payload s1 0x500 = 0x538 \<and> pb_len s1 0x500 = 24 \<and>
    pbuf_header 0x500 (- 14) s1 = (0, smp_ram)"
proof -
  let ?s = "smp_ram\<lparr>pb_payload := (pb_payload smp_ram)(0x500 := 0x538), pb_len := (pb_len smp_ram)(0x500 := 24),
    pb_tot_len := (pb_tot_len smp_ram)(0x500 := 24)\<rparr>"
  have "pbuf_header 0x500 14 smp_ram = (0, ?s)"
    by (simp add: pbuf_header_def smp_ram_def Let_def SIZEOF_STRUCT_PBUF_def)
  with pbuf_header_undo [OF _ _ _ _ this] show ?thesis
    by (simp add: smp_ram_def SIZEOF_STRUCT_PBUF_def)
qed

text \<open>
  The size test of \<open>pbuf_alloced_custom\<close> is the wrong way round. An area that is too small
  for header room and data is accepted, and an area with room to spare is refused.
\<close>

theorem pbuf_alloced_custom_test:
  assumes "layer_offset l = Some offset" "p \<noteq> NULL"
    and "unat payload_mem_len \<noteq> unat (LWIP_MEM_ALIGN_SIZE offset) + unat len"
  shows "fst (pbuf_alloced_custom l len type p payload_mem payload_mem_len s) \<noteq> NULL \<longleftrightarrow>
    unat payload_mem_len < unat (LWIP_MEM_ALIGN_SIZE offset) + unat len"
  using assms by (auto simp: pbuf_alloced_custom_def Let_def)

theorem pbuf_alloced_custom_test_witness:
  "fst (pbuf_alloced_custom PBUF_RAW 100 PBUF_REF 0x500 0x900 20 smp_ram) \<noteq> NULL \<and>
   fst (pbuf_alloced_custom PBUF_RAW 100 PBUF_REF 0x500 0x900 200 smp_ram) = NULL"
proof -
  have "layer_offset PBUF_RAW = Some 0" "unat (LWIP_MEM_ALIGN_SIZE 0) = 0" by (simp_all add: layer_offset_def LWIP_MEM_ALIGN_SIZE_def)
  with pbuf_alloced_custom_test [of PBUF_RAW 0 "0x500" 20 100 PBUF_REF "0x900" smp_ram]
    pbuf_alloced_custom_test [of PBUF_RAW 0 "0x500" 200 100 PBUF_REF "0x900" smp_ram]
  show ?thesis by simp
qed

end
