(* ===== verification/LW_PbufAlloc.thy ===== *)
theory LW_PbufAlloc
  imports LW_Pbuf
begin

text \<open>
  The release of packet buffers of all kinds, with reference counts, and the allocation of chains from the pool, which are
  allocated whole or not at all.
\<close>

section \<open>Reference counts\<close>

text \<open>A buffer of the pool, not a custom one.\<close>

definition pool_buf :: "lw \<Rightarrow> ptr \<Rightarrow> bool" where
  "pool_buf s q \<longleftrightarrow> pb_type s q = PBUF_POOL \<and> pb_flags s q AND PBUF_FLAG_IS_CUSTOM = 0"

lemma memp_free_fields:
  assumes "memp_free t x s = Some s'"
  shows "pb_next s' = pb_next s" "pb_type s' = pb_type s" "pb_flags s' = pb_flags s" "pb_ref_count s' = pb_ref_count s"
    "pb_tot_len s' = pb_tot_len s" "pb_len s' = pb_len s" "pb_payload s' = pb_payload s" "bytes s' = bytes s"
  using assms by (auto simp: memp_free_def Let_def split: if_splits)

lemma pbuf_free_loop_spec:
  assumes "chain (pb_next s) p (as @ bs)" "mrep MEMP_PBUF_POOL B s F"
    and "\<forall>q\<in>set as. pool_buf s q \<and> pb_ref_count s q = 1 \<and> q \<in> B \<and> q \<notin> set F"
    and "bs \<noteq> [] \<Longrightarrow> pb_ref_count s (hd bs) \<noteq> 1"
  shows "\<exists>s'. pbuf_free_loop n p s = Some (n + of_nat (length as), s') \<and> mrep MEMP_PBUF_POOL B s' (rev as @ F) \<and>
    (\<forall>q. pb_ref_count s' q = (if q \<in> set as \<or> bs \<noteq> [] \<and> q = hd bs then pb_ref_count s q - 1 else pb_ref_count s q)) \<and>
    pb_next s' = pb_next s \<and> pb_tot_len s' = pb_tot_len s \<and> pb_len s' = pb_len s \<and> pb_payload s' = pb_payload s \<and>
    bytes s' = bytes s"
  using assms
proof (induction as arbitrary: s p n F)
  case Nil
  show ?case
  proof (cases bs)
    case Nil
    then show ?thesis using Nil.prems Nil by (subst pbuf_free_loop.simps) auto
  next
    case (Cons b bs')
    then have b: "p = b" "b \<noteq> NULL" "pb_ref_count s b - 1 \<noteq> 0" using Nil.prems by auto
    let ?s = "put_ref b (pb_ref_count s b - 1) s"
    have "pbuf_free_loop n p s = Some (n, ?s)"
      using b by (subst pbuf_free_loop.simps) (simp add: Let_def pbuf_free_loop.simps [of _ NULL])
    moreover have "mrep MEMP_PBUF_POOL B ?s F" using Nil.prems(2) by (simp add: mrep_def)
    ultimately show ?thesis using Cons by auto
  qed
next
  case (Cons x as)
  then have x: "p = x" "x \<noteq> NULL" "chain (pb_next s) (pb_next s x) (as @ bs)" "pool_buf s x" "pb_ref_count s x = 1"
    "x \<in> B" "x \<notin> set F" by simp_all
  have d: "distinct (x # as @ bs)" using chain_distinct [OF Cons.prems(1)] by simp
  let ?s = "put_ref x 0 s"
  have m: "mrep MEMP_PBUF_POOL B ?s F" using Cons.prems(2) by (simp add: mrep_def)
  obtain s1 where s1: "memp_free MEMP_PBUF_POOL x ?s = Some s1" "mrep MEMP_PBUF_POOL B s1 (x # F)"
    using mrep_free [OF m x(6,7)] by blast
  note fld = memp_free_fields [OF s1(1), simplified]
  have f: "pbuf_free_loop n p s = pbuf_free_loop (n + 1) (pb_next s x) s1"
    using x s1(1) by (subst pbuf_free_loop.simps) (simp add: Let_def pool_buf_def)
  have own: "\<forall>q\<in>set as. pool_buf s1 q \<and> pb_ref_count s1 q = 1 \<and> q \<in> B \<and> q \<notin> set (x # F)"
    using Cons.prems(3) d by (auto simp: pool_buf_def fld)
  have shared: "pb_ref_count s1 (hd bs) \<noteq> 1" if "bs \<noteq> []" using Cons.prems(4) d that by (cases bs) (auto simp: fld)
  have "chain (pb_next s1) (pb_next s x) (as @ bs)" using x(3) by (simp add: fld)
  from Cons.IH [OF this s1(2) own shared, of "n + 1"] obtain s' where
    "pbuf_free_loop (n + 1) (pb_next s x) s1 = Some (n + 1 + of_nat (length as), s')" "mrep MEMP_PBUF_POOL B s' (rev as @ x # F)"
    "\<forall>q. pb_ref_count s' q = (if q \<in> set as \<or> bs \<noteq> [] \<and> q = hd bs then pb_ref_count s1 q - 1 else pb_ref_count s1 q)"
    "pb_next s' = pb_next s1" "pb_tot_len s' = pb_tot_len s1" "pb_len s' = pb_len s1" "pb_payload s' = pb_payload s1"
    "bytes s' = bytes s1" by blast
  moreover have "x \<noteq> hd bs" if "bs \<noteq> []" using d that by (cases bs) auto
  ultimately show ?case using f d x(5) by (auto simp: fld add.assoc)
qed

section \<open>Buffers from the pool\<close>

text \<open>The number of further buffers that \<open>n\<close> bytes need.\<close>

definition bufs_for :: "nat \<Rightarrow> nat" where
  "bufs_for n = (n + 1515) div 1516"

text \<open>One round of the loop, with the buffer \<open>q\<close> from the pool put behind \<open>r\<close>.\<close>

definition pool_step :: "ptr \<Rightarrow> ptr \<Rightarrow> nat \<Rightarrow> lw \<Rightarrow> lw" where
  "pool_step r q rem s = s\<lparr>memp_tab := (memp_tab s)[MEMP_PBUF_POOL := memp_next s q],
    pb_type := (pb_type s)(q := PBUF_POOL), pb_flags := (pb_flags s)(q := 0),
    pb_next := (pb_next s)(q := NULL, r := q), pb_tot_len := (pb_tot_len s)(q := of_nat rem),
    pb_len := (pb_len s)(q := of_nat (min rem 1516)), pb_payload := (pb_payload s)(q := q + 16),
    pb_ref_count := (pb_ref_count s)(q := 1)\<rparr>"

lemma pool_step_fields [simp]:
  "pb_type (pool_step r q rem s) = (pb_type s)(q := PBUF_POOL)" "pb_flags (pool_step r q rem s) = (pb_flags s)(q := 0)"
  "pb_next (pool_step r q rem s) = (pb_next s)(q := NULL, r := q)"
  "pb_tot_len (pool_step r q rem s) = (pb_tot_len s)(q := of_nat rem)"
  "pb_len (pool_step r q rem s) = (pb_len s)(q := of_nat (min rem 1516))"
  "pb_payload (pool_step r q rem s) = (pb_payload s)(q := q + 16)"
  "pb_ref_count (pool_step r q rem s) = (pb_ref_count s)(q := 1)"
  by (simp_all add: pool_step_def)

lemma alloc_pool_round:
  assumes "mrep MEMP_PBUF_POOL B s (q # F)" "0 < rem" "rem < 65536"
  shows "alloc_pool_loop p r (int rem) s = alloc_pool_loop p q (int (rem - min rem 1516)) (pool_step r q rem s)"
    and "mrep MEMP_PBUF_POOL B (pool_step r q rem s) F"
proof -
  let ?n = "min rem 1516" and ?s = "s\<lparr>memp_tab := (memp_tab s)[MEMP_PBUF_POOL := memp_next s q]\<rparr>"
  have q: "q \<noteq> NULL" using assms(1) by (auto simp: mrep_def)
  have a: "memp_malloc MEMP_PBUF_POOL s = (q, ?s)" "mrep MEMP_PBUF_POOL B ?s F"
    using mrep_malloc [OF assms(1)] by simp_all
  have "min (of_nat rem) PBUF_POOL_BUFSIZE_ALIGNED = (of_nat ?n :: u16)"
    using assms(3) by (auto simp: PBUF_POOL_BUFSIZE_ALIGNED_def min_def word_le_nat_alt unat_of_nat_u16)
  moreover have "uint (of_nat ?n :: u16) = int ?n"
    using assms(3) by (simp only: uint_nat unat_of_nat_u16)
  ultimately show "alloc_pool_loop p r (int rem) s = alloc_pool_loop p q (int (rem - ?n)) (pool_step r q rem s)"
    using assms(2) q a(1)
    by (subst alloc_pool_loop.simps) (simp add: Let_def pool_step_def SIZEOF_STRUCT_PBUF_def of_nat_diff del: of_nat_min)
  show "mrep MEMP_PBUF_POOL B (pool_step r q rem s) F" using a(2) by (auto simp: mrep_def pool_step_def)
qed

lemma alloc_pool_loop_ok:
  assumes "mrep MEMP_PBUF_POOL B s (qs @ F)" "length qs = bufs_for rem" "rem < 65536" "distinct (r # qs @ F)" "r \<noteq> NULL"
    and "pb_next s r = NULL"
  shows "\<exists>s'. alloc_pool_loop p r (int rem) s = Some (True, s') \<and> mrep MEMP_PBUF_POOL B s' F \<and>
    chain (pb_next s') r (r # qs) \<and> tot_ok s' qs \<and> length (cdata s' qs) = rem \<and>
    (\<forall>q\<in>set qs. pool_buf s' q \<and> pb_ref_count s' q = 1 \<and> pb_payload s' q = q + 16 \<and> unat (pb_len s' q) \<le> 1516) \<and>
    (\<forall>q. q \<notin> set qs \<longrightarrow> pb_type s' q = pb_type s q \<and> pb_flags s' q = pb_flags s q \<and> pb_ref_count s' q = pb_ref_count s q \<and>
       pb_payload s' q = pb_payload s q \<and> pb_len s' q = pb_len s q \<and> pb_tot_len s' q = pb_tot_len s q \<and>
       (q \<noteq> r \<longrightarrow> pb_next s' q = pb_next s q))"
  using assms
proof (induction qs arbitrary: r rem s)
  case Nil
  then have "rem = 0" by (auto simp: bufs_for_def)
  then show ?case using Nil by (subst alloc_pool_loop.simps) simp
next
  case (Cons q qs)
  have rem: "rem > 0" using Cons.prems(2) by (cases "rem = 0") (auto simp: bufs_for_def)
  have q: "q \<noteq> NULL" "q \<in> B" using Cons.prems(1) by (auto simp: mrep_def)
  let ?n = "min rem 1516" and ?s = "pool_step r q rem s"
  have m: "mrep MEMP_PBUF_POOL B s (q # qs @ F)" using Cons.prems(1) by simp
  note f = alloc_pool_round(1) [OF m rem Cons.prems(3), of p r] alloc_pool_round(2) [OF m rem Cons.prems(3), of r]
  have n': "length qs = bufs_for (rem - ?n)" "rem - ?n < 65536" using Cons.prems(3) Cons.prems(2) rem by (auto simp: bufs_for_def min_def le_div_geq)
  have d: "distinct (q # qs @ F)" "pb_next ?s q = NULL" using Cons.prems(4) by auto
  from Cons.IH [OF f(2) n' d(1) q(1) d(2)] obtain s' where s': "alloc_pool_loop p q (int (rem - ?n)) ?s = Some (True, s')" "mrep MEMP_PBUF_POOL B s' F"
    "chain (pb_next s') q (q # qs)" "tot_ok s' qs" "length (cdata s' qs) = rem - ?n"
    "\<forall>q\<in>set qs. pool_buf s' q \<and> pb_ref_count s' q = 1 \<and> pb_payload s' q = q + 16 \<and> unat (pb_len s' q) \<le> 1516"
    "\<forall>x. x \<notin> set qs \<longrightarrow> pb_type s' x = pb_type ?s x \<and> pb_flags s' x = pb_flags ?s x \<and> pb_ref_count s' x = pb_ref_count ?s x \<and>
       pb_payload s' x = pb_payload ?s x \<and> pb_len s' x = pb_len ?s x \<and> pb_tot_len s' x = pb_tot_len ?s x \<and>
       (x \<noteq> q \<longrightarrow> pb_next s' x = pb_next ?s x)"
    by blast
  have qs: "q \<notin> set qs" "r \<notin> set qs" "r \<noteq> q" using Cons.prems(4) by auto
  have n: "unat (of_nat ?n :: u16) = ?n" "unat (of_nat rem :: u16) = rem" using Cons.prems(3) by (simp_all add: unat_of_nat_u16 min_def)
  have l: "pb_len s' q = of_nat ?n" "pb_tot_len s' q = of_nat rem" "pool_buf s' q" "pb_ref_count s' q = 1" "pb_payload s' q = q + 16"
    using s'(7) qs(1) by (simp_all add: pool_buf_def)
  have "pb_next s' r = q" using s'(7) qs by simp
  then have "chain (pb_next s') r (r # q # qs)" using s'(3) Cons.prems(5) by simp
  moreover have "length (cdata s' (q # qs)) = rem" "tot_ok s' (q # qs)" using s'(4,5) l n by (simp_all add: pdata_def)
  moreover have "\<forall>x\<in>set (q # qs). pool_buf s' x \<and> pb_ref_count s' x = 1 \<and> pb_payload s' x = x + 16 \<and> unat (pb_len s' x) \<le> 1516"
    using s'(6) l n by simp
  moreover have "\<forall>x. x \<notin> set (q # qs) \<longrightarrow> pb_type s' x = pb_type s x \<and> pb_flags s' x = pb_flags s x \<and> pb_ref_count s' x = pb_ref_count s x \<and>
       pb_payload s' x = pb_payload s x \<and> pb_len s' x = pb_len s x \<and> pb_tot_len s' x = pb_tot_len s x \<and>
       (x \<noteq> r \<longrightarrow> pb_next s' x = pb_next s x)"
    using s'(7) by simp
  moreover have "alloc_pool_loop p r (int rem) s = Some (True, s')" using f(1) s'(1) by (rule trans)
  ultimately show ?case using s'(2) by (intro exI [of _ s'] conjI)
qed

lemma alloc_pool_loop_fail:
  assumes "mrep MEMP_PBUF_POOL B s F" "length F < bufs_for rem" "rem < 65536"
    and "chain (pb_next s) p ps" "ps \<noteq> []" "r = last ps"
    and "\<forall>q\<in>set ps. pool_buf s q \<and> pb_ref_count s q = 1 \<and> q \<in> B \<and> q \<notin> set F"
  shows "\<exists>s' F'. alloc_pool_loop p r (int rem) s = Some (False, s') \<and> mrep MEMP_PBUF_POOL B s' F' \<and> set F' = set ps \<union> set F"
  using assms
proof (induction F arbitrary: r rem s ps)
  case Nil
  then have rem: "rem > 0" by (cases "rem = 0") (auto simp: bufs_for_def)
  have "p \<noteq> NULL" using Nil.prems(4,5) by (cases ps) auto
  with pbuf_free_loop_spec [of s p ps "[]" B "[]" 0] Nil.prems obtain s' where
    "pbuf_free p s = Some (of_nat (length ps), s')" "mrep MEMP_PBUF_POOL B s' (rev ps)" by (auto simp: pbuf_free_def)
  moreover have "memp_malloc MEMP_PBUF_POOL s = (NULL, s)" using Nil.prems(1) by (rule mrep_malloc_empty)
  ultimately show ?case using rem by (subst alloc_pool_loop.simps) auto
next
  case (Cons q F)
  then have rem: "rem > 0" by (cases "rem = 0") (auto simp: bufs_for_def)
  let ?n = "min rem 1516" and ?s = "pool_step r q rem s"
  note f = alloc_pool_round(1) [OF Cons.prems(1) rem Cons.prems(3), of p r]
    alloc_pool_round(2) [OF Cons.prems(1) rem Cons.prems(3), of r]
  have "distinct (q # F)" using Cons.prems(1) chain_distinct unfolding mrep_def by blast
  then have q: "q \<noteq> NULL" "q \<in> B" "q \<notin> set F" "q \<notin> set ps" using Cons.prems(1,7) by (auto simp: mrep_def)
  have n: "length F < bufs_for (rem - ?n)" "rem - ?n < 65536"
    using Cons.prems(2,3) rem by (auto simp: bufs_for_def min_def le_div_geq)
  have c: "chain (pb_next ?s) p (ps @ [q])" "ps @ [q] \<noteq> []" "q = last (ps @ [q])"
    using chain_join [of "(pb_next s)(q := NULL)" p ps q "[q]"] Cons.prems(4-6) q by (simp_all add: chain_upd)
  have "\<forall>x\<in>set (ps @ [q]). pool_buf ?s x \<and> pb_ref_count ?s x = 1 \<and> x \<in> B \<and> x \<notin> set F"
    using Cons.prems(7) q by (auto simp: pool_buf_def)
  from Cons.IH [OF f(2) n c this] f(1) show ?case by auto
qed

text \<open>The room for data in the first buffer of a chain, and the number of buffers of the chain.\<close>

definition first_room :: "u16 \<Rightarrow> nat" where
  "first_room offset = 1516 - unat (LWIP_MEM_ALIGN_SIZE offset)"

definition bufs_of :: "u16 \<Rightarrow> u16 \<Rightarrow> nat" where
  "bufs_of offset len = Suc (bufs_for (unat len - first_room offset))"

lemma layer_offset_room:
  assumes "layer_offset layer = Some offset"
  shows "unat (PBUF_POOL_BUFSIZE_ALIGNED - LWIP_MEM_ALIGN_SIZE offset) = first_room offset" "first_room offset \<le> 1516"
  using assms by (auto simp: layer_offset_def first_room_def LWIP_MEM_ALIGN_SIZE_def PBUF_POOL_BUFSIZE_ALIGNED_def split: if_splits)

text \<open>The first buffer, before the loop.\<close>

definition pool_first :: "u16 \<Rightarrow> u16 \<Rightarrow> ptr \<Rightarrow> lw \<Rightarrow> lw" where
  "pool_first offset len p s = s\<lparr>memp_tab := (memp_tab s)[MEMP_PBUF_POOL := memp_next s p],
    pb_type := (pb_type s)(p := PBUF_POOL), pb_next := (pb_next s)(p := NULL),
    pb_payload := (pb_payload s)(p := LWIP_MEM_ALIGN (p + (ucast SIZEOF_STRUCT_PBUF + ucast offset))),
    pb_tot_len := (pb_tot_len s)(p := len),
    pb_len := (pb_len s)(p := of_nat (min (unat len) (first_room offset))), pb_ref_count := (pb_ref_count s)(p := 1)\<rparr>"

lemma pbuf_alloc_pool_eq:
  assumes "layer_offset layer = Some offset" "mrep MEMP_PBUF_POOL B s (p # F)"
  shows "pbuf_alloc layer len PBUF_POOL s =
      alloc_pool_loop p p (int (unat len - first_room offset)) (pool_first offset len p s) \<bind>
      (\<lambda>(ok, s). if ok then alloc_done p s else Some (NULL, s))"
    and "mrep MEMP_PBUF_POOL B (pool_first offset len p s) F"
proof -
  let ?n = "min (unat len) (first_room offset)"
  have p: "p \<noteq> NULL" using assms(2) by (auto simp: mrep_def)
  note a = mrep_malloc [OF assms(2)]
  note r = layer_offset_room [OF assms(1)]
  have n: "min len (PBUF_POOL_BUFSIZE_ALIGNED - LWIP_MEM_ALIGN_SIZE offset) = of_nat ?n"
    unfolding word_unat_eq_iff using r by (simp add: min_def word_le_nat_alt unat_of_nat_u16)
  have "uint len - uint (of_nat ?n :: u16) = int (unat len - first_room offset)"
    unfolding uint_nat using r(2) by (simp add: unat_of_nat_u16 min_def of_nat_diff del: of_nat_unat)
  then show "pbuf_alloc layer len PBUF_POOL s =
      alloc_pool_loop p p (int (unat len - first_room offset)) (pool_first offset len p s) \<bind>
      (\<lambda>(ok, s). if ok then alloc_done p s else Some (NULL, s))"
    using p n by (simp add: pbuf_alloc_def assms(1) alloc_pool_def a(1) Let_def pool_first_def)
  show "mrep MEMP_PBUF_POOL B (pool_first offset len p s) F" using a(2) by (auto simp: mrep_def pool_first_def)
qed
section \<open>Buffers of all kinds\<close>

text \<open>
  The memory of packet buffers: the areas of the heap that are in use, and the free elements of the pools of buffers with data, of
  references to data, and of references to the data of another packet.
\<close>

type_synonym stores = "(nat \<times> nat) list \<times> ptr list \<times> ptr list \<times> ptr list"

fun stores :: "ptr set \<times> ptr set \<times> ptr set \<Rightarrow> lw \<Rightarrow> stores \<Rightarrow> bool" where
  "stores (Bp, Br, Bc) s (A, P, R, C) \<longleftrightarrow> (\<exists>bs. heap s bs \<and> areas 0 bs = A) \<and> mrep MEMP_PBUF_POOL Bp s P \<and>
     mrep MEMP_PBUF Br s R \<and> mrep MEMP_FRAG_PBUF Bc s C \<and> Bp \<inter> Br = {} \<and> Bp \<inter> Bc = {} \<and> Br \<inter> Bc = {}"

abbreviation (input) custom_buf :: "lw \<Rightarrow> ptr \<Rightarrow> bool" where
  "custom_buf s q \<equiv> pb_flags s q AND PBUF_FLAG_IS_CUSTOM \<noteq> 0"

text \<open>A buffer that is allocated where its kind says, and what giving it back there changes.\<close>

fun held :: "ptr set \<times> ptr set \<times> ptr set \<Rightarrow> lw \<Rightarrow> stores \<Rightarrow> ptr \<Rightarrow> bool" where
  "held (Bp, Br, Bc) s (A, P, R, C) q \<longleftrightarrow>
     (if custom_buf s q then q \<in> Bc \<and> q \<notin> set C
      else if pb_type s q = PBUF_POOL then q \<in> Bp \<and> q \<notin> set P
      else if pb_type s q = PBUF_ROM \<or> pb_type s q = PBUF_REF then q \<in> Br \<and> q \<notin> set R
      else \<exists>(i, n)\<in>set A. q = ram s + of_nat i)"

fun given_back :: "lw \<Rightarrow> ptr \<Rightarrow> stores \<Rightarrow> stores" where
  "given_back s q (A, P, R, C) =
     (if custom_buf s q then (A, P, R, q # C)
      else if pb_type s q = PBUF_POOL then (A, q # P, R, C)
      else if pb_type s q = PBUF_ROM \<or> pb_type s q = PBUF_REF then (A, P, q # R, C)
      else (filter (\<lambda>(i, n). ram s + of_nat i \<noteq> q) A, P, R, C))"

text \<open>The number of buffers that refer to the data of the packet \<open>q\<close>.\<close>

definition refs_to :: "lw \<Rightarrow> ptr list \<Rightarrow> ptr \<Rightarrow> nat" where
  "refs_to s qs q = length (filter (\<lambda>x. custom_buf s x \<and> custom_original s x = q) qs)"

definition same_bufs :: "lw \<Rightarrow> lw \<Rightarrow> bool" where
  "same_bufs s s' \<longleftrightarrow> pb_next s' = pb_next s \<and> pb_type s' = pb_type s \<and> pb_flags s' = pb_flags s \<and> pb_tot_len s' = pb_tot_len s \<and>
     pb_len s' = pb_len s \<and> pb_payload s' = pb_payload s \<and> bytes s' = bytes s \<and> custom_original s' = custom_original s \<and> ram s' = ram s"

lemma same_bufs_trans: "same_bufs s s' \<Longrightarrow> same_bufs s' s'' \<Longrightarrow> same_bufs s s''"
  by (simp add: same_bufs_def)

lemma same_bufs_spec:
  assumes "same_bufs s s'"
  shows "held B s' st q = held B s st q" "given_back s' = given_back s" "refs_to s' = refs_to s"
  using assms by (cases B; cases st; auto simp: same_bufs_def refs_to_def fun_eq_iff)+

lemma heap_frame:
  assumes "heap s bs" "ram s' = ram s" "ram_end s' = ram_end s" "lfree s' = lfree s" "mem_next s' = mem_next s" "mem_prev s' = mem_prev s" "mem_used s' = mem_used s"
  shows "heap s' bs"
proof -
  have h: "hdr s' = hdr s" by (simp add: hdr_def fun_eq_iff assms(2))
  have "hseg s' p i cs e" if "hseg s p i cs e" for p i cs e using that
    by (induction cs arbitrary: p i) (auto simp: h assms(5-7))
  then show ?thesis using assms unfolding heap_def h by auto
qed

lemma stores_put_ref: "stores B s st \<Longrightarrow> stores B (put_ref q v s) st"
proof -
  assume a: "stores B s st"
  have "heap (put_ref q v s) bs" if "heap s bs" for bs by (rule heap_frame [OF that]) simp_all
  with a show ?thesis by (cases B; cases st) (auto simp: mrep_def)
qed

lemma mrep_other:
  assumes "mrep t B s F" "x \<notin> B" "t \<noteq> u"
  shows "mrep t B (s\<lparr>memp_next := (memp_next s)(x := v), memp_tab := (memp_tab s)[u := w]\<rparr>) F"
proof -
  have "chain ((memp_next s)(x := v)) (memp_tab s ! t) F" using assms by (subst chain_upd) (auto simp: mrep_def)
  then show ?thesis using assms by (auto simp: mrep_def)
qed

lemma stores_memp:
  assumes "stores (Bp, Br, Bc) s (A, P, R, C)"
  defines "s' t x \<equiv> s\<lparr>memp_next := (memp_next s)(x := memp_tab s ! t), memp_tab := (memp_tab s)[t := x]\<rparr>"
  shows "x \<in> Bp \<Longrightarrow> x \<notin> set P \<Longrightarrow> memp_free MEMP_PBUF_POOL x s = Some (s' 14 x) \<and> stores (Bp, Br, Bc) (s' 14 x) (A, x # P, R, C)"
    "x \<in> Br \<Longrightarrow> x \<notin> set R \<Longrightarrow> memp_free MEMP_PBUF x s = Some (s' 13 x) \<and> stores (Bp, Br, Bc) (s' 13 x) (A, P, x # R, C)"
    "x \<in> Bc \<Longrightarrow> x \<notin> set C \<Longrightarrow> memp_free MEMP_FRAG_PBUF x s = Some (s' 5 x) \<and> stores (Bp, Br, Bc) (s' 5 x) (A, P, R, x # C)"
    "same_bufs s (s' t x)" "pb_ref_count (s' t x) = pb_ref_count s"
proof -
  note st = assms(1) [unfolded stores.simps]
  obtain bs where bs: "heap s bs" "areas 0 bs = A" using st by blast
  have h: "heap (s' t x) bs" for t x by (rule heap_frame [OF bs(1)]) (simp_all add: s'_def)
  have m: "mrep MEMP_PBUF_POOL Bp s P" "mrep MEMP_PBUF Br s R" "mrep MEMP_FRAG_PBUF Bc s C" "Bp \<inter> Br = {}" "Bp \<inter> Bc = {}" "Br \<inter> Bc = {}"
    using st by blast+
  show "memp_free MEMP_PBUF_POOL x s = Some (s' 14 x) \<and> stores (Bp, Br, Bc) (s' 14 x) (A, x # P, R, C)" if x: "x \<in> Bp" "x \<notin> set P"
  proof -
    have "x \<notin> Br" "x \<notin> Bc" using m(4-6) x(1) by auto
    then have "mrep MEMP_PBUF Br (s' 14 x) R" "mrep MEMP_FRAG_PBUF Bc (s' 14 x) C" unfolding s'_def by (simp_all add: mrep_other m)
    moreover have "memp_free MEMP_PBUF_POOL x s = Some (s' 14 x)" "mrep MEMP_PBUF_POOL Bp (s' 14 x) (x # P)" using mrep_free [OF m(1) x] by (simp_all add: s'_def)
    ultimately show ?thesis unfolding stores.simps using h [of 14 x] bs(2) m(4-6) by blast
  qed
  show "memp_free MEMP_PBUF x s = Some (s' 13 x) \<and> stores (Bp, Br, Bc) (s' 13 x) (A, P, x # R, C)" if x: "x \<in> Br" "x \<notin> set R"
  proof -
    have "x \<notin> Bp" "x \<notin> Bc" using m(4-6) x(1) by auto
    then have "mrep MEMP_PBUF_POOL Bp (s' 13 x) P" "mrep MEMP_FRAG_PBUF Bc (s' 13 x) C" unfolding s'_def by (simp_all add: mrep_other m)
    moreover have "memp_free MEMP_PBUF x s = Some (s' 13 x)" "mrep MEMP_PBUF Br (s' 13 x) (x # R)" using mrep_free [OF m(2) x] by (simp_all add: s'_def)
    ultimately show ?thesis unfolding stores.simps using h [of 13 x] bs(2) m(4-6) by blast
  qed
  show "memp_free MEMP_FRAG_PBUF x s = Some (s' 5 x) \<and> stores (Bp, Br, Bc) (s' 5 x) (A, P, R, x # C)" if x: "x \<in> Bc" "x \<notin> set C"
  proof -
    have "x \<notin> Bp" "x \<notin> Br" using m(4-6) x(1) by auto
    then have "mrep MEMP_PBUF_POOL Bp (s' 5 x) P" "mrep MEMP_PBUF Br (s' 5 x) R" unfolding s'_def by (simp_all add: mrep_other m)
    moreover have "memp_free MEMP_FRAG_PBUF x s = Some (s' 5 x)" "mrep MEMP_FRAG_PBUF Bc (s' 5 x) (x # C)" using mrep_free [OF m(3) x] by (simp_all add: s'_def)
    ultimately show ?thesis unfolding stores.simps using h [of 5 x] bs(2) m(4-6) by blast
  qed
qed (simp_all add: s'_def same_bufs_def)

text \<open>The heap without the area at the address of \<open>q\<close>.\<close>

lemma heap_free_area:
  assumes hp: "heap s bs" and q: "(i, n) \<in> set (areas 0 bs)" "q = ram s + of_nat i"
  shows "\<exists>bs' N P U f. heap (mem_free q s) bs' \<and> areas 0 bs' = filter (\<lambda>(i, n). ram s + of_nat i \<noteq> q) (areas 0 bs) \<and>
    mem_free q s = s\<lparr>mem_next := N, mem_prev := P, mem_used := U, lfree := f\<rparr>"
proof -
  note h = heapD [OF hp]
  have pos: "\<forall>b\<in>set bs. 20 \<le> fst b" using hseg_pos [OF h(6)] by blast
  have t: "tot bs = 16364" using hseg_tot [OF h(6)] by simp
  obtain as k cs where b: "bs = as @ (k, True) # cs" "i = tot as + 8" "n = k - 8" using heap_area_split [OF q(1)] by auto
  have k: "20 \<le> k" using pos b(1) by simp
  have qh: "hdr s i = q" by (simp add: hdr_def q(2))
  have ne: "ram s + of_nat j \<noteq> q" if "j \<le> 16384" "j \<noteq> i" for j
    using hdr_eq [OF h(3), of j i] that t b(1,2) by (simp add: hdr_def q(2))
  have ar: "areas 0 bs = areas 0 as @ (i, n) # areas (tot as + k) cs" using b by (simp add: areas_append)
  have out: "filter (\<lambda>(i, n). ram s + of_nat i \<noteq> q) xs = xs" if "\<And>j m. (j, m) \<in> set xs \<Longrightarrow> j \<le> 16384 \<and> j \<noteq> i" for xs
    using ne that by (auto simp: filter_id_conv)
  have 1: "filter (\<lambda>(i, n). ram s + of_nat i \<noteq> q) (areas 0 as) = areas 0 as"
    by (rule out) (use areas_range [of as _ _ 0] pos b t in \<open>fastforce\<close>)
  have 2: "filter (\<lambda>(i, n). ram s + of_nat i \<noteq> q) (areas (tot as + k) cs) = areas (tot as + k) cs"
    by (rule out) (use areas_range [of cs _ _ "tot as + k"] pos b t k in \<open>fastforce\<close>)
  have f: "filter (\<lambda>(i, n). ram s + of_nat i \<noteq> q) (areas 0 bs) = areas 0 as @ areas (tot as + k) cs" unfolding ar using 1 2 q(2) by simp
  have "heap s (as @ (k, True) # cs)" using hp b(1) by simp
  from mem_free_heap [OF this] show ?thesis unfolding f qh [unfolded b(2)] using areas_release [of as k cs] by blast
qed

lemma held_given_back: "q \<noteq> x \<Longrightarrow> held B s st q \<Longrightarrow> held B s (given_back s x st) q"
  by (cases B; cases st) (auto split: if_splits)

lemma free_one:
  assumes st: "stores B s st" "held B s st x" and x: "pb_ref_count s x = 1" "x \<noteq> NULL"
    and orig: "custom_buf s x \<Longrightarrow> custom_original s x \<noteq> NULL \<Longrightarrow> custom_original s x \<noteq> x \<and> 1 < pb_ref_count s (custom_original s x)"
  shows "\<exists>s'. pbuf_free_loop n x s = pbuf_free_loop (n + 1) (pb_next s x) s' \<and> stores B s' (given_back s x st) \<and> same_bufs s s' \<and>
    (\<forall>q. q \<noteq> NULL \<longrightarrow> pb_ref_count s' q = pb_ref_count s q - (if q = x \<or> custom_buf s x \<and> custom_original s x = q then 1 else 0))"
proof -
  obtain Bp Br Bc A P R C where B: "B = (Bp, Br, Bc)" "st = (A, P, R, C)" by (metis prod_cases3 prod_cases4)
  let ?s = "put_ref x 0 s"
  have s0: "stores (Bp, Br, Bc) ?s (A, P, R, C)" using stores_put_ref [OF st(1)] unfolding B .
  have h: "held (Bp, Br, Bc) s (A, P, R, C) x" using st(2) unfolding B .
  consider (custom) "custom_buf s x" | (pool) "\<not> custom_buf s x" "pb_type s x = PBUF_POOL"
    | (rom) "\<not> custom_buf s x" "pb_type s x \<noteq> PBUF_POOL" "pb_type s x = PBUF_ROM \<or> pb_type s x = PBUF_REF"
    | (ram) "\<not> custom_buf s x" "pb_type s x \<noteq> PBUF_POOL" "\<not> (pb_type s x = PBUF_ROM \<or> pb_type s x = PBUF_REF)" by blast
  then show ?thesis
  proof cases
    case pool
    then have "x \<in> Bp" "x \<notin> set P" using h by auto
    note m = stores_memp(1) [OF s0 this] stores_memp(4,5) [OF s0, of 14 x]
    show ?thesis unfolding B using m x pool
      by (intro exI [of _ "?s\<lparr>memp_next := (memp_next ?s)(x := memp_tab ?s ! 14), memp_tab := (memp_tab ?s)[14 := x]\<rparr>"] conjI)
        (auto simp: pbuf_free_loop.simps [of n x] Let_def same_bufs_def)
  next
    case rom
    then have "x \<in> Br" "x \<notin> set R" using h by auto
    note m = stores_memp(2) [OF s0 this] stores_memp(4,5) [OF s0, of 13 x]
    show ?thesis unfolding B using m x rom
      by (intro exI [of _ "?s\<lparr>memp_next := (memp_next ?s)(x := memp_tab ?s ! 13), memp_tab := (memp_tab ?s)[13 := x]\<rparr>"] conjI)
        (auto simp: pbuf_free_loop.simps [of n x] Let_def same_bufs_def)
  next
    case ram
    then obtain i k where i: "(i, k) \<in> set A" "x = ram ?s + of_nat i" using h by auto
    obtain bs where bs: "heap ?s bs" "areas 0 bs = A" using s0 by auto
    from heap_free_area [OF bs(1) _ i(2)] i(1) bs(2) obtain bs' N P' U f where
      m: "heap (mem_free x ?s) bs'" "areas 0 bs' = filter (\<lambda>(i, n). ram ?s + of_nat i \<noteq> x) A"
      "mem_free x ?s = ?s\<lparr>mem_next := N, mem_prev := P', mem_used := U, lfree := f\<rparr>" by blast
    have "stores (Bp, Br, Bc) (mem_free x ?s) (filter (\<lambda>(i, n). ram s + of_nat i \<noteq> x) A, P, R, C)"
      using m(1,2) s0 by (auto simp: m(3) mrep_def)
    then show ?thesis unfolding B using x ram m(3)
      by (intro exI [of _ "mem_free x ?s"] conjI) (auto simp: pbuf_free_loop.simps [of n x] Let_def same_bufs_def)
  next
    case custom
    let ?o = "custom_original s x"
    define t where "t = (if ?o \<noteq> NULL then put_ref ?o (pb_ref_count s ?o - 1) ?s else ?s)"
    have t: "same_bufs s t" "stores (Bp, Br, Bc) t (A, P, R, C)" using s0 stores_put_ref [OF s0] by (auto simp: t_def same_bufs_def)
    have o: "pbuf_free_loop 0 ?o ?s = Some (0, t)" if "?o \<noteq> NULL"
    proof -
      have "?o \<noteq> x" "pb_ref_count s ?o - 1 \<noteq> 0" using orig [OF custom that] by auto
      then show ?thesis using that by (subst pbuf_free_loop.simps) (simp add: Let_def t_def pbuf_free_loop.simps [of _ NULL])
    qed
    have "x \<in> Bc" "x \<notin> set C" using h custom by auto
    note m = stores_memp(3) [OF t(2) this] stores_memp(4,5) [OF t(2), of 5 x]
    let ?u = "t\<lparr>memp_next := (memp_next t)(x := memp_tab t ! 5), memp_tab := (memp_tab t)[5 := x]\<rparr>"
    have f: "pbuf_free_loop n x s = pbuf_free_loop (n + 1) (pb_next s x) ?u"
      using custom x conjunct1 [OF m(1)] o by (cases "?o = NULL"; subst pbuf_free_loop.simps) (simp_all add: Let_def t_def)
    have "pb_ref_count ?u q = pb_ref_count s q - (if q = x \<or> custom_buf s x \<and> ?o = q then 1 else 0)" if "q \<noteq> NULL" for q
      using that custom x(1) orig [OF custom] by (auto simp: t_def)
    then show ?thesis unfolding B using f m(1,2) t(1) custom by (intro exI [of _ ?u] conjI) (auto simp: same_bufs_def)
  qed
qed

lemma pbuf_free_loop_stores:
  assumes "chain (pb_next s) p (as @ bs)" "stores B s st" "\<forall>q\<in>set as. held B s st q \<and> pb_ref_count s q = 1"
    and "\<forall>q. q \<noteq> NULL \<and> 0 < refs_to s as q \<longrightarrow> q \<notin> set (as @ bs) \<and> refs_to s as q < unat (pb_ref_count s q)"
    and "bs \<noteq> [] \<Longrightarrow> pb_ref_count s (hd bs) \<noteq> 1"
  shows "\<exists>s'. pbuf_free_loop n p s = Some (n + of_nat (length as), s') \<and> stores B s' (fold (given_back s) as st) \<and> same_bufs s s' \<and>
    (\<forall>q. q \<noteq> NULL \<and> q \<notin> set as \<longrightarrow> pb_ref_count s' q = pb_ref_count s q - (if bs \<noteq> [] \<and> q = hd bs then 1 else 0) - of_nat (refs_to s as q))"
  using assms
proof (induction as arbitrary: s p n st)
  case Nil
  show ?case
  proof (cases bs)
    case Nil
    then show ?thesis using Nil.prems Nil by (subst pbuf_free_loop.simps) (auto simp: same_bufs_def refs_to_def)
  next
    case (Cons b bs')
    then have b: "p = b" "b \<noteq> NULL" "pb_ref_count s b - 1 \<noteq> 0" using Nil.prems by auto
    let ?s = "put_ref b (pb_ref_count s b - 1) s"
    have "pbuf_free_loop n p s = Some (n, ?s)"
      using b by (subst pbuf_free_loop.simps) (simp add: Let_def pbuf_free_loop.simps [of _ NULL])
    then show ?thesis using Cons stores_put_ref [OF Nil.prems(2)] by (auto simp: same_bufs_def refs_to_def)
  qed
next
  case (Cons x as)
  let ?o = "custom_original s x"
  have x: "p = x" "x \<noteq> NULL" "chain (pb_next s) (pb_next s x) (as @ bs)" "held B s st x" "pb_ref_count s x = 1" using Cons.prems by simp_all
  have d: "distinct (x # as @ bs)" using chain_distinct [OF Cons.prems(1)] by simp
  have rt: "refs_to s (x # as) q = (if custom_buf s x \<and> ?o = q then Suc (refs_to s as q) else refs_to s as q)" for q by (simp add: refs_to_def)
  have og: "?o \<notin> set (x # as @ bs)" "Suc (refs_to s as ?o) < unat (pb_ref_count s ?o)" if "custom_buf s x" "?o \<noteq> NULL"
    using Cons.prems(4) [rule_format, of ?o] that rt [of ?o] by auto
  have "?o \<noteq> x \<and> 1 < pb_ref_count s ?o" if "custom_buf s x" "?o \<noteq> NULL" using og [OF that] by (simp add: word_less_nat_alt)
  from free_one [OF Cons.prems(2) x(4,5,2) this, of n] obtain s1 where s1: "pbuf_free_loop n x s = pbuf_free_loop (n + 1) (pb_next s x) s1"
    "stores B s1 (given_back s x st)" "same_bufs s s1"
    "\<forall>q. q \<noteq> NULL \<longrightarrow> pb_ref_count s1 q = pb_ref_count s q - (if q = x \<or> custom_buf s x \<and> ?o = q then 1 else 0)" by blast
  note sb = same_bufs_spec [OF s1(3)]
  have nn: "q \<noteq> NULL" if "q \<in> set (x # as @ bs)" for q using chain_nonnull [OF Cons.prems(1)] that by auto
  have rc: "pb_ref_count s1 q = pb_ref_count s q" if "q \<in> set (as @ bs)" for q
  proof -
    have n: "q \<noteq> NULL" "q \<noteq> x" using nn [of q] d that by auto
    have "\<not> (custom_buf s x \<and> ?o = q)" using og(1) n(1) that by auto
    then show ?thesis using s1(4) [rule_format, OF n(1)] n(2) by simp
  qed
  have c: "chain (pb_next s1) (pb_next s x) (as @ bs)" using x(3) s1(3) by (simp add: same_bufs_def)
  have own: "\<forall>q\<in>set as. held B s1 (given_back s x st) q \<and> pb_ref_count s1 q = 1"
  proof
    fix q assume q: "q \<in> set as"
    then have "q \<noteq> x" "held B s st q" "pb_ref_count s q = 1" using Cons.prems(3) d by auto
    then show "held B s1 (given_back s x st) q \<and> pb_ref_count s1 q = 1" using held_given_back [of q x B s st] rc [of q] q by (simp add: sb(1))
  qed
  have orig: "\<forall>q. q \<noteq> NULL \<and> 0 < refs_to s1 as q \<longrightarrow> q \<notin> set (as @ bs) \<and> refs_to s1 as q < unat (pb_ref_count s1 q)"
  proof (intro allI impI)
    fix q assume q: "q \<noteq> NULL \<and> 0 < refs_to s1 as q"
    then have a: "q \<notin> set (x # as @ bs)" "refs_to s (x # as) q < unat (pb_ref_count s q)"
      using Cons.prems(4) [rule_format, of q] rt [of q] by (auto simp: sb(3))
    moreover have "unat (pb_ref_count s q - 1) = unat (pb_ref_count s q) - 1" if "0 < unat (pb_ref_count s q)"
      using that unat_diff_u16 [of 1 "pb_ref_count s q"] by (simp add: word_le_nat_alt)
    ultimately show "q \<notin> set (as @ bs) \<and> refs_to s1 as q < unat (pb_ref_count s1 q)"
      using s1(4) q rt [of q] by (auto simp: sb(3) split: if_splits)
  qed
  have shared: "pb_ref_count s1 (hd bs) \<noteq> 1" if "bs \<noteq> []" using Cons.prems(5) [OF that] rc [of "hd bs"] that by simp
  from Cons.IH [OF c s1(2) own orig shared, of "n + 1"] obtain s' where s': "pbuf_free_loop (n + 1) (pb_next s x) s1 = Some (n + 1 + of_nat (length as), s')"
    "stores B s' (fold (given_back s1) as (given_back s x st))" "same_bufs s1 s'"
    "\<forall>q. q \<noteq> NULL \<and> q \<notin> set as \<longrightarrow> pb_ref_count s' q = pb_ref_count s1 q - (if bs \<noteq> [] \<and> q = hd bs then 1 else 0) - of_nat (refs_to s1 as q)" by blast
  have "pb_ref_count s' q = pb_ref_count s q - (if bs \<noteq> [] \<and> q = hd bs then 1 else 0) - of_nat (refs_to s (x # as) q)"
    if "q \<noteq> NULL" "q \<notin> set (x # as)" for q
    using s'(4) s1(4) that rt [of q] by (auto simp: sb(3) algebra_simps)
  then show ?case using s1(1) s'(1,2) same_bufs_trans [OF s1(3) s'(3)] x(1) by (auto simp: sb(2) add.assoc)
qed

section \<open>Properties\<close>

text \<open>
  C22: \<open>pbuf_free\<close> on a chain of buffers of any kind. The first buffers of the chain, up to the first one with another
  reference, are given back to the heap or to the pool that they are from, and their number is returned; nothing else is given back.
  The buffer with another reference loses one and, like all behind it, stays as it is. A buffer that
  refers to the data of another packet gives up its reference to that packet, which must have further ones.
\<close>

theorem pbuf_free_counts:
  assumes "chain (pb_next s) p (as @ bs)" "stores B s st" "\<forall>q\<in>set as. held B s st q \<and> pb_ref_count s q = 1"
    and "\<forall>q. q \<noteq> NULL \<and> 0 < refs_to s as q \<longrightarrow> q \<notin> set (as @ bs) \<and> refs_to s as q < unat (pb_ref_count s q)"
    and "bs \<noteq> [] \<longrightarrow> 1 < pb_ref_count s (hd bs)"
  shows "\<exists>s'. pbuf_free p s = Some (of_nat (length as), s') \<and> stores B s' (fold (given_back s) as st) \<and>
    chain (pb_next s') (if bs = [] then NULL else hd bs) bs \<and> cdata s' bs = cdata s bs \<and>
    (\<forall>q. q \<noteq> NULL \<and> q \<notin> set as \<longrightarrow>
      pb_ref_count s' q = pb_ref_count s q - (if bs \<noteq> [] \<and> q = hd bs then 1 else 0) - of_nat (refs_to s as q))"
proof (cases "p = NULL")
  case True
  then have "as @ bs = []" using assms(1) by (cases "as @ bs") auto
  then show ?thesis using True assms(2) by (auto simp: pbuf_free_def refs_to_def)
next
  case False
  have "bs \<noteq> [] \<Longrightarrow> pb_ref_count s (hd bs) \<noteq> 1" using assms(5) by auto
  from pbuf_free_loop_stores [OF assms(1-4) this, of 0] obtain s' where
    s': "pbuf_free_loop 0 p s = Some (of_nat (length as), s')" "stores B s' (fold (given_back s) as st)" "same_bufs s s'"
    "\<forall>q. q \<noteq> NULL \<and> q \<notin> set as \<longrightarrow> pb_ref_count s' q = pb_ref_count s q - (if bs \<noteq> [] \<and> q = hd bs then 1 else 0) - of_nat (refs_to s as q)" by auto
  have "chain (pb_next s) (first_ptr bs) bs" using assms(1) by (rule chain_suffix)
  moreover have "first_ptr bs = (if bs = [] then NULL else hd bs)" by (cases bs) simp_all
  moreover have "cdata s' bs = cdata s bs" by (rule cdata_cong) (use s'(3) in \<open>simp add: pdata_def same_bufs_def\<close>)
  ultimately show ?thesis using s' False by (auto simp: pbuf_free_def same_bufs_def)
qed

text \<open>
  A chain of a buffer in the heap, one of the pool, a reference to data and one to the data of the packet \<open>0xA000\<close>, and another buffer of the
  pool that somebody else refers to.
\<close>

definition smp_kinds :: "lw \<Rightarrow> lw" where
  "smp_kinds h = h\<lparr>memp_tab := (replicate 15 NULL)[14 := 0x1000], memp_next := (\<lambda>_. NULL), pb_flags := (\<lambda>_. 0)(0x6000 := 2),
     pb_type := (\<lambda>_. PBUF_RAM)(0x8000 := PBUF_POOL, 0x9000 := PBUF_POOL, 0x7000 := PBUF_REF, 0x6000 := PBUF_REF), custom_original := (\<lambda>_. 0xA000),
     pb_ref_count := (\<lambda>_. 1)(0x9000 := 2, 0xA000 := 3),
     pb_next := (\<lambda>_. NULL)(0x20000008 := 0x8000, 0x8000 := 0x7000, 0x7000 := 0x6000, 0x6000 := 0x9000)\<rparr>"

theorem pbuf_free_counts_witness:
  "\<exists>s s'. pbuf_free 0x20000008 s = Some (4, s') \<and> stores ({0x1000, 0x8000, 0x9000}, {0x7000}, {0x6000}) s ([(8, 100)], [0x1000], [], []) \<and>
    stores ({0x1000, 0x8000, 0x9000}, {0x7000}, {0x6000}) s' ([], [0x8000, 0x1000], [0x7000], [0x6000]) \<and>
    pb_ref_count s' 0x9000 = 1 \<and> pb_ref_count s' 0xA000 = 2"
proof -
  have "find_fit (request (unat (100 :: u16))) 0 [(16364, False)] = Some 0" by (simp add: request_def)
  with mem_malloc_heap [OF smp_heap_rep, of 100] obtain h where
    h: "heap h (take_block (request (unat (100 :: u16))) 16364)" "ram h = ram smp_heap" by (auto simp: Cons_eq_append_conv)
  let ?s = "smp_kinds h" and ?as = "[0x20000008, 0x8000, 0x7000, 0x6000] :: ptr list" and ?bs = "[0x9000] :: ptr list"
  have r: "ram ?s = 0x20000000" using h(2) smp_heap_ram by (simp add: smp_kinds_def)
  have "heap ?s [(108, True), (16256, False)]" by (rule heap_frame [of h]) (use h in \<open>simp_all add: smp_kinds_def take_block_def request_def\<close>)
  then have "\<exists>bs. heap ?s bs \<and> areas 0 bs = [(8, 100)]" by (intro exI [of _ "[(108, True), (16256, False)]"]) simp
  then have st: "stores ({0x1000, 0x8000, 0x9000}, {0x7000}, {0x6000}) ?s ([(8, 100)], [0x1000], [], [])"
    by (simp add: mrep_def smp_kinds_def)
  have c: "chain (pb_next ?s) 0x20000008 (?as @ ?bs)" by (simp add: smp_kinds_def)
  have own: "\<forall>q\<in>set ?as. held ({0x1000, 0x8000, 0x9000}, {0x7000}, {0x6000}) ?s ([(8, 100)], [0x1000], [], []) q \<and> pb_ref_count ?s q = 1"
    using r by (simp add: smp_kinds_def)
  have rt: "refs_to ?s ?as q = (if q = 0xA000 then 1 else 0)" for q by (simp add: refs_to_def smp_kinds_def)
  have og: "\<forall>q. q \<noteq> NULL \<and> 0 < refs_to ?s ?as q \<longrightarrow> q \<notin> set (?as @ ?bs) \<and> refs_to ?s ?as q < unat (pb_ref_count ?s q)"
    unfolding rt by (simp add: smp_kinds_def)
  have fd: "fold (given_back ?s) ?as ([(8, 100)], [0x1000], [], []) = ([], [0x8000, 0x1000], [0x7000], [0x6000])"
    using r by (simp add: smp_kinds_def)
  have "?bs \<noteq> [] \<longrightarrow> 1 < pb_ref_count ?s (hd ?bs)" by (simp add: smp_kinds_def)
  from pbuf_free_counts [OF c st own og this] obtain s' where s': "pbuf_free 0x20000008 ?s = Some (of_nat (length ?as), s')"
    "stores ({0x1000, 0x8000, 0x9000}, {0x7000}, {0x6000}) s' (fold (given_back ?s) ?as ([(8, 100)], [0x1000], [], []))"
    and rc: "\<forall>q. q \<noteq> NULL \<and> q \<notin> set ?as \<longrightarrow>
      pb_ref_count s' q = pb_ref_count ?s q - (if ?bs \<noteq> [] \<and> q = hd ?bs then 1 else 0) - of_nat (refs_to ?s ?as q)" by (elim exE conjE) (rule that)
  have "pb_ref_count s' 0x9000 = 1" "pb_ref_count s' 0xA000 = 2"
    using rc [rule_format, of "0x9000"] rc [rule_format, of "0xA000"] by (simp_all add: rt) (simp_all add: smp_kinds_def)
  moreover have "pbuf_free 0x20000008 ?s = Some (4, s')" using s'(1) by simp
  ultimately show ?thesis using st s'(2) [unfolded fd] by (intro exI [of _ ?s] exI [of _ s'] conjI)
qed

text \<open>A pool of three buffers.\<close>

definition smp_pool :: lw where
  "smp_pool = undefined\<lparr>memp_tab := replicate 14 NULL @ [0x1000], memp_next := (\<lambda>_. NULL)(0x1000 := 0x2000, 0x2000 := 0x3000),
     pb_flags := (\<lambda>_. 0), pb_type := (\<lambda>_. 0)(0x8000 := PBUF_POOL, 0x9000 := PBUF_POOL), pb_ref_count := (\<lambda>_. 1)(0x9000 := 2),
     pb_next := (\<lambda>_. NULL)(0x8000 := 0x9000)\<rparr>"

abbreviation (input) smp_bufs :: "ptr set" where "smp_bufs \<equiv> {0x1000, 0x2000, 0x3000, 0x8000, 0x9000}"

lemma smp_pool_mrep: "mrep MEMP_PBUF_POOL smp_bufs smp_pool [0x1000, 0x2000, 0x3000]"
  by (simp add: mrep_def smp_pool_def nth_append)

text \<open>
  C23: \<open>pbuf_alloc\<close> of a chain from the pool is all or nothing. With enough free buffers the
  chain is well formed, has exactly the requested length, one reference to each buffer, and the
  pool keeps the rest; otherwise the result is \<open>NULL\<close> and no free buffer is lost. The failure
  path looks at the flags of the first buffer before they are written: they must not have
  the custom bit from an earlier use.
\<close>

theorem pbuf_alloc_pool_all_or_nothing:
  assumes "layer_offset layer = Some offset" "mrep MEMP_PBUF_POOL B s F"
    and "F \<noteq> [] \<longrightarrow> pb_flags s (hd F) AND PBUF_FLAG_IS_CUSTOM = 0"
  shows "if bufs_of offset len \<le> length F
    then \<exists>s'. pbuf_alloc layer len PBUF_POOL s = Some (hd F, s') \<and> pchain s' (hd F) (take (bufs_of offset len) F) \<and>
      length (cdata s' (take (bufs_of offset len) F)) = unat len \<and>
      (\<forall>q\<in>set (take (bufs_of offset len) F). pool_buf s' q \<and> pb_ref_count s' q = 1) \<and>
      mrep MEMP_PBUF_POOL B s' (drop (bufs_of offset len) F)
    else \<exists>s' F'. pbuf_alloc layer len PBUF_POOL s = Some (NULL, s') \<and> mrep MEMP_PBUF_POOL B s' F' \<and> set F' = set F"
proof (cases F)
  case Nil
  then have "pbuf_alloc layer len PBUF_POOL s = Some (NULL, s)"
    using mrep_malloc_empty assms(1,2) by (simp add: pbuf_alloc_def alloc_pool_def)
  then show ?thesis using Nil assms(2) by (auto simp: bufs_of_def)
next
  case (Cons p G)
  let ?r = "unat len - first_room offset" and ?s = "pool_first offset len p s"
  have m: "mrep MEMP_PBUF_POOL B s (p # G)" using assms(2) Cons by simp
  note e = pbuf_alloc_pool_eq [OF assms(1) m, of len]
  have "distinct (p # G)" using m chain_distinct unfolding mrep_def by blast
  then have p: "p \<noteq> NULL" "p \<in> B" "p \<notin> set G" "distinct (p # G)" using m by (auto simp: mrep_def)
  have r: "?r < 65536" using unat_u16_less [of len] by linarith
  have pf: "pb_next ?s p = NULL" "pb_type ?s p = PBUF_POOL" "pb_ref_count ?s p = 1" "pb_tot_len ?s p = len"
    "pb_flags ?s p = pb_flags s p" "unat (pb_len ?s p) = min (unat len) (first_room offset)"
    using layer_offset_room(2) [OF assms(1)] by (simp_all add: pool_first_def unat_of_nat_u16 min_def)
  show ?thesis
  proof (cases "bufs_of offset len \<le> length F")
    case True
    define qs where "qs = take (bufs_for ?r) G"
    define R where "R = drop (bufs_for ?r) G"
    have G: "G = qs @ R" "length qs = bufs_for ?r" using True Cons by (simp_all add: qs_def R_def bufs_of_def)
    have "mrep MEMP_PBUF_POOL B ?s (qs @ R)" "distinct (p # qs @ R)" using e(2) p(4) G(1) by simp_all
    from alloc_pool_loop_ok [OF this(1) G(2) r this(2) p(1) pf(1), of p] obtain s1 where
      s1: "alloc_pool_loop p p (int ?r) ?s = Some (True, s1)" "mrep MEMP_PBUF_POOL B s1 R" "chain (pb_next s1) p (p # qs)"
        "tot_ok s1 qs" "length (cdata s1 qs) = ?r"
        "\<forall>q\<in>set qs. pool_buf s1 q \<and> pb_ref_count s1 q = 1 \<and> pb_payload s1 q = q + 16 \<and> unat (pb_len s1 q) \<le> 1516"
        "\<forall>q. q \<notin> set qs \<longrightarrow> pb_type s1 q = pb_type ?s q \<and> pb_flags s1 q = pb_flags ?s q \<and> pb_ref_count s1 q = pb_ref_count ?s q \<and>
          pb_payload s1 q = pb_payload ?s q \<and> pb_len s1 q = pb_len ?s q \<and> pb_tot_len s1 q = pb_tot_len ?s q \<and>
          (q \<noteq> p \<longrightarrow> pb_next s1 q = pb_next ?s q)" by blast
    define s2 where "s2 = put_flags p 0 (put_ref p 1 s1)"
    have "pbuf_alloc layer len PBUF_POOL s = Some (p, s2)" unfolding e(1) s1(1) by (simp add: alloc_done_def s2_def)
    moreover have d: "pdata s2 q = pdata s1 q" for q by (simp add: s2_def pdata_def)
    have c: "cdata s2 qs = cdata s1 qs" "tot_ok s2 qs" using cdata_cong [of qs s2 s1] tot_ok_cong [of qs s2 s1] d s1(4)
      by (simp_all add: s2_def)
    have pq: "p \<notin> set qs" using p(3) G(1) by simp
    with s1(7) pf have q: "pb_type s1 p = PBUF_POOL" "unat (pb_len s1 p) = min (unat len) (first_room offset)" "pb_tot_len s1 p = len"
      by auto
    have l: "length (cdata s2 (p # qs)) = unat len" using c(1) s1(5) q(2) d by (simp add: pdata_def)
    moreover have "pchain s2 p (p # qs)" using s1(3) c(2) l q(3) by (simp add: pchain_def s2_def)
    moreover have "\<forall>x\<in>set (p # qs). pool_buf s2 x \<and> pb_ref_count s2 x = 1"
      using s1(6) q(1) by (auto simp: pool_buf_def s2_def)
    moreover have "mrep MEMP_PBUF_POOL B s2 R" using s1(2) by (simp add: mrep_def s2_def)
    moreover have "take (bufs_of offset len) F = p # qs" "drop (bufs_of offset len) F = R" "hd F = p"
      using Cons by (simp_all add: bufs_of_def qs_def R_def)
    ultimately show ?thesis using True by (simp del: cdata_simps)
  next
    case False
    then have "length G < bufs_for ?r" using Cons by (simp add: bufs_of_def)
    moreover have "\<forall>q\<in>set [p]. pool_buf ?s q \<and> pb_ref_count ?s q = 1 \<and> q \<in> B \<and> q \<notin> set G"
      using p pf assms(3) Cons by (simp add: pool_buf_def)
    ultimately obtain s' F' where "alloc_pool_loop p p (int ?r) ?s = Some (False, s')" "mrep MEMP_PBUF_POOL B s' F'"
      "set F' = set [p] \<union> set G"
      using alloc_pool_loop_fail [OF e(2) _ r, of p "[p]" p] p(1) pf(1) by auto
    then show ?thesis using False Cons unfolding e(1) by auto
  qed
qed

theorem pbuf_alloc_pool_all_or_nothing_witness:
  "(\<exists>s'. pbuf_alloc PBUF_RAW 4000 PBUF_POOL smp_pool = Some (0x1000, s') \<and> pchain s' 0x1000 [0x1000, 0x2000, 0x3000]) \<and>
   (\<exists>s' F'. pbuf_alloc PBUF_RAW 5000 PBUF_POOL smp_pool = Some (NULL, s') \<and> mrep MEMP_PBUF_POOL smp_bufs s' F' \<and>
     set F' = {0x1000, 0x2000, 0x3000})"
proof -
  have b: "bufs_of 0 4000 = 3" "bufs_of 0 5000 = 4" by (simp_all add: bufs_of_def bufs_for_def first_room_def LWIP_MEM_ALIGN_SIZE_def)
  have "layer_offset PBUF_RAW = Some 0" "pb_flags smp_pool (hd [0x1000, 0x2000, 0x3000]) AND PBUF_FLAG_IS_CUSTOM = 0"
    by (simp_all add: layer_offset_def smp_pool_def)
  note p = pbuf_alloc_pool_all_or_nothing [OF this(1) smp_pool_mrep] this(2)
  show ?thesis using p(1) [of 4000] p(1) [of 5000] p(2) by (simp add: b) blast
qed

end
