(* ===== verification/LW_IPaddr.thy ===== *)
theory LW_IPaddr
  imports LW_State
begin

text \<open>
  IPv4 addresses: \<open>ip_addr.c\<close>. An address is a 32-bit word in network byte order, that is, its
  first octet is the least significant byte of the word on this processor. A text is a
  sequence of bytes in memory that ends with a zero byte. A loop over a text that does not
  end has no result.
\<close>

section \<open>Addresses and interfaces\<close>

abbreviation (input) IPADDR_ANY :: u32 where "IPADDR_ANY \<equiv> 0"
abbreviation (input) IPADDR_BROADCAST :: u32 where "IPADDR_BROADCAST \<equiv> 0xffffffff"
abbreviation (input) IPADDR_NONE :: u32 where "IPADDR_NONE \<equiv> 0xffffffff"
abbreviation (input) NETIF_FLAG_BROADCAST :: u8 where "NETIF_FLAG_BROADCAST \<equiv> 2"

text \<open>The fields of \<open>struct netif\<close> that the modelled functions read.\<close>

record netif =
  ip_addr :: u32
  netmask :: u32
  gw :: u32
  mtu :: u16
  hwaddr :: "u8 list"
  netif_flags :: u8

definition ip_addr_isany :: "u32 \<Rightarrow> bool" where
  "ip_addr_isany addr \<longleftrightarrow> addr = IPADDR_ANY"

text \<open>The constants are in network byte order, as the macro \<open>PP_HTONL\<close> makes them.\<close>

definition ip_addr_ismulticast :: "u32 \<Rightarrow> bool" where
  "ip_addr_ismulticast addr \<longleftrightarrow> addr AND 0xf0 = 0xe0"

definition ip_addr_islinklocal :: "u32 \<Rightarrow> bool" where
  "ip_addr_islinklocal addr \<longleftrightarrow> addr AND 0xffff = 0xfea9"

definition ip_addr_netcmp :: "u32 \<Rightarrow> u32 \<Rightarrow> u32 \<Rightarrow> bool" where
  "ip_addr_netcmp addr1 addr2 msk \<longleftrightarrow> addr1 AND msk = addr2 AND msk"

definition ip4_addr_isbroadcast :: "u32 \<Rightarrow> netif \<Rightarrow> u8" where
  "ip4_addr_isbroadcast addr nif =
     (if NOT addr = IPADDR_ANY \<or> addr = IPADDR_ANY then 1
      else if netif_flags nif AND NETIF_FLAG_BROADCAST = 0 then 0
      else if addr = ip_addr nif then 0
      else if ip_addr_netcmp addr (ip_addr nif) (netmask nif) \<and>
              addr AND NOT (netmask nif) = IPADDR_BROADCAST AND NOT (netmask nif) then 1
      else 0)"

lemma half_less: "msk \<noteq> 0 \<Longrightarrow> unat (drop_bit 1 msk) < unat (msk :: u32)"
  by (simp add: unat_drop_bit_eq drop_bit_eq_div unat_div unat_gt_0)

lemma tenth_less: "ap div 10 \<noteq> 0 \<Longrightarrow> unat (ap div 10) < unat (ap :: u8)"
  by (cases "ap = 0") (simp_all add: unat_div unat_gt_0)

text \<open>The two loops over the bits of a netmask: to the first zero, and that no one is behind it.\<close>

function first_zero :: "u32 \<Rightarrow> u32 \<Rightarrow> u32" where
  "first_zero nm msk = (if msk \<noteq> 0 then if nm AND msk = 0 then msk else first_zero nm (drop_bit 1 msk) else msk)"
  by auto
termination
  by (relation "measure (\<lambda>(nm, msk). unat msk)") (use half_less in auto)

function only_zeros :: "u32 \<Rightarrow> u32 \<Rightarrow> u8" where
  "only_zeros nm msk = (if msk \<noteq> 0 then if nm AND msk \<noteq> 0 then 0 else only_zeros nm (drop_bit 1 msk) else 1)"
  by auto
termination
  by (relation "measure (\<lambda>(nm, msk). unat msk)") (use half_less in auto)

declare first_zero.simps [simp del] only_zeros.simps [simp del]

definition ip4_addr_netmask_valid :: "u32 \<Rightarrow> u8" where
  "ip4_addr_netmask_valid nm =
     (let nm_hostorder = lwip_htonl nm in only_zeros nm_hostorder (first_zero nm_hostorder (push_bit 31 1)))"

section \<open>From text to addresses\<close>

definition in_range :: "u8 \<Rightarrow> u8 \<Rightarrow> u8 \<Rightarrow> bool" where
  "in_range c lo up \<longleftrightarrow> lo \<le> c \<and> c \<le> up"

definition isdigit :: "u8 \<Rightarrow> bool" where
  "isdigit c \<longleftrightarrow> in_range c 0x30 0x39"

definition isxdigit :: "u8 \<Rightarrow> bool" where
  "isxdigit c \<longleftrightarrow> isdigit c \<or> in_range c 0x61 0x66 \<or> in_range c 0x41 0x46"

definition islower :: "u8 \<Rightarrow> bool" where
  "islower c \<longleftrightarrow> in_range c 0x61 0x7a"

definition isspace :: "u8 \<Rightarrow> bool" where
  "isspace c \<longleftrightarrow> c = 0x20 \<or> c = 0x0c \<or> c = 0x0a \<or> c = 0x0d \<or> c = 0x09 \<or> c = 0x0b"

text \<open>The digits of a number; the value wraps around at 32 bits.\<close>

partial_function (option) aton_digits :: "(ptr \<Rightarrow> u8) \<Rightarrow> u8 \<Rightarrow> ptr \<Rightarrow> u32 \<Rightarrow> (ptr \<times> u32) option" where
  "aton_digits m base cp val =
     (let c = m cp in
      if isdigit c then aton_digits m base (cp + 1) (val * ucast base + ucast (c - 0x30))
      else if base = 16 \<and> isxdigit c then
        aton_digits m base (cp + 1) (push_bit 4 val OR (ucast c + 10 - (if islower c then 0x61 else 0x41)))
      else Some (cp, val))"

text \<open>The base of a number from its prefix, and where its digits begin.\<close>

definition aton_base :: "(ptr \<Rightarrow> u8) \<Rightarrow> ptr \<Rightarrow> u8 \<times> ptr" where
  "aton_base m cp =
     (if m cp = 0x30 then
        if m (cp + 1) = 0x78 \<or> m (cp + 1) = 0x58 then (16, cp + 2) else (8, cp + 1)
      else (10, cp))"

text \<open>The numbers between the dots. The inner \<open>None\<close> is the result 0.\<close>

partial_function (option) aton_loop :: "(ptr \<Rightarrow> u8) \<Rightarrow> ptr \<Rightarrow> u32 list \<Rightarrow> (ptr \<times> u32 \<times> u32 list) option option" where
  "aton_loop m cp parts =
     (if \<not> isdigit (m cp) then Some None
      else
        let (base, cp) = aton_base m cp in
        aton_digits m base cp 0 \<bind> (\<lambda>(cp, val).
        if m cp = 0x2e then
          if length parts \<ge> 3 then Some None else aton_loop m (cp + 1) (parts @ [val])
        else Some (Some (cp, val, parts))))"

definition aton_value :: "u32 \<Rightarrow> u32 list \<Rightarrow> u32 option" where
  "aton_value val parts =
     (case parts of
        [] \<Rightarrow> Some val
      | [a] \<Rightarrow> if val > 0xffffff then None else Some (val OR push_bit 24 a)
      | [a, b] \<Rightarrow> if val > 0xffff then None else Some (val OR (push_bit 24 a OR push_bit 16 b))
      | [a, b, c] \<Rightarrow> if val > 0xff then None else Some (val OR (push_bit 24 a OR push_bit 16 b OR push_bit 8 c))
      | _ \<Rightarrow> Some val)"

text \<open>The address that \<open>ipaddr_aton\<close> stores when it returns 1; the inner \<open>None\<close> is the result 0.\<close>

definition ipaddr_aton :: "(ptr \<Rightarrow> u8) \<Rightarrow> ptr \<Rightarrow> u32 option option" where
  "ipaddr_aton m cp = aton_loop m cp [] \<bind> (\<lambda>r.
     case r of
       None \<Rightarrow> Some None
     | Some (cp, val, parts) \<Rightarrow>
         if m cp \<noteq> 0 \<and> \<not> isspace (m cp) then Some None
         else Some (map_option lwip_htonl (aton_value val parts)))"

definition ipaddr_addr :: "(ptr \<Rightarrow> u8) \<Rightarrow> ptr \<Rightarrow> u32 option" where
  "ipaddr_addr m cp = ipaddr_aton m cp \<bind> (\<lambda>r. case r of Some v \<Rightarrow> Some v | None \<Rightarrow> Some IPADDR_NONE)"

section \<open>From addresses to text\<close>

text \<open>The decimal digits of a byte, the last one first (the array \<open>inv\<close>).\<close>

function ntoa_digits :: "u8 \<Rightarrow> u8 list" where
  "ntoa_digits ap =
     (let rem = ap mod 10; ap = ap div 10 in (0x30 + rem) # (if ap \<noteq> 0 then ntoa_digits ap else []))"
  by auto
termination
  by (relation "measure unat") (use tenth_less in auto)

declare ntoa_digits.simps [simp del]

text \<open>
  One byte put at \<open>rp\<close> if the buffer has room; \<open>Inl\<close> is the return with \<open>NULL\<close>. The state is
  the memory, \<open>rp\<close> and \<open>len\<close>.
\<close>

type_synonym ntoa_state = "(ptr \<Rightarrow> u8) \<times> ptr \<times> int"

definition ntoa_put :: "int \<Rightarrow> u8 \<Rightarrow> ntoa_state \<Rightarrow> (ptr \<Rightarrow> u8) + ntoa_state" where
  "ntoa_put buflen b st = (case st of (m, rp, len) \<Rightarrow> if len \<ge> buflen then Inl m else Inr (m(rp := b), rp + 1, len + 1))"

fun ntoa_puts :: "int \<Rightarrow> u8 list \<Rightarrow> ntoa_state \<Rightarrow> (ptr \<Rightarrow> u8) + ntoa_state" where
  "ntoa_puts buflen [] st = Inr st"
| "ntoa_puts buflen (b # bs) st = (case ntoa_put buflen b st of Inl m \<Rightarrow> Inl m | Inr st \<Rightarrow> ntoa_puts buflen bs st)"

fun ntoa_octets :: "int \<Rightarrow> u8 list \<Rightarrow> ntoa_state \<Rightarrow> (ptr \<Rightarrow> u8) + ntoa_state" where
  "ntoa_octets buflen [] st = Inr st"
| "ntoa_octets buflen (ap # aps) st =
     (case ntoa_puts buflen (rev (ntoa_digits ap)) st of
        Inl m \<Rightarrow> Inl m
      | Inr st \<Rightarrow> case ntoa_put buflen 0x2e st of Inl m \<Rightarrow> Inl m | Inr st \<Rightarrow> ntoa_octets buflen aps st)"

text \<open>The four bytes of the address in the order of memory.\<close>

definition addr_octets :: "u32 \<Rightarrow> u8 list" where
  "addr_octets a = [ucast a, ucast (drop_bit 8 a), ucast (drop_bit 16 a), ucast (drop_bit 24 a)]"

text \<open>The memory after the call and the pointer it returns.\<close>

definition ipaddr_ntoa_r :: "u32 \<Rightarrow> ptr \<Rightarrow> int \<Rightarrow> (ptr \<Rightarrow> u8) \<Rightarrow> (ptr \<Rightarrow> u8) \<times> ptr" where
  "ipaddr_ntoa_r addr buf buflen m =
     (case ntoa_octets buflen (addr_octets addr) (m, buf, 0) of
        Inl m \<Rightarrow> (m, NULL)
      | Inr (m, rp, len) \<Rightarrow> (m(rp - 1 := 0), buf))"

text \<open>The static buffer \<open>str\<close> has 16 bytes.\<close>

definition ipaddr_ntoa :: "ptr \<Rightarrow> u32 \<Rightarrow> (ptr \<Rightarrow> u8) \<Rightarrow> (ptr \<Rightarrow> u8) \<times> ptr" where
  "ipaddr_ntoa str addr m = ipaddr_ntoa_r addr str 16 m"


section \<open>Netmasks\<close>

lemma and_bit_mask: "nm AND push_bit k 1 = 0 \<longleftrightarrow> \<not> bit nm k" for nm :: u32
  by (simp add: bit_iff_and_push_bit_not_eq_0)

lemma drop_bit_mask: "Suc k < 32 \<Longrightarrow> drop_bit 1 (push_bit (Suc k) 1) = (push_bit k 1 :: u32)"
  by (rule bit_word_eqI) (auto simp: bit_drop_bit_eq bit_exp_iff simp del: power_Suc)

lemma mask_nonzero: "k < 32 \<Longrightarrow> push_bit k 1 \<noteq> (0 :: u32)"
proof
  assume k: "k < 32" and "push_bit k 1 = (0 :: u32)"
  then have "bit (0 :: u32) k" using bit_exp_iff [where ?'a = u32, of k k] by simp
  then show False by simp
qed

lemma only_zeros_spec: "k < 32 \<Longrightarrow> only_zeros nm (push_bit k 1) = (if \<exists>j\<le>k. bit nm j then 0 else 1)"
proof (induction k)
  case 0
  have "drop_bit 1 (push_bit 0 1 :: u32) = 0" by simp
  then show ?case using and_bit_mask [of nm 0] mask_nonzero [of 0]
    by (subst only_zeros.simps) (simp add: only_zeros.simps [of nm 0])
next
  case (Suc k)
  then show ?case using and_bit_mask [of nm "Suc k"] mask_nonzero [of "Suc k"] drop_bit_mask [of k]
    by (subst only_zeros.simps) (auto simp: le_Suc_eq)
qed

lemma first_zero_spec:
  "k < 32 \<Longrightarrow> (if \<forall>j\<le>k. bit nm j then first_zero nm (push_bit k 1) = 0
    else \<exists>i\<le>k. \<not> bit nm i \<and> (\<forall>j\<le>k. i < j \<longrightarrow> bit nm j) \<and> first_zero nm (push_bit k 1) = push_bit i 1)"
proof (induction k)
  case 0
  have "drop_bit 1 (push_bit 0 1 :: u32) = 0" by simp
  then show ?case using and_bit_mask [of nm 0] mask_nonzero [of 0]
    by (subst (1 2) first_zero.simps) (auto simp: first_zero.simps [of nm 0])
next
  case (Suc k)
  show ?case
  proof (cases "bit nm (Suc k)")
    case True
    then have "first_zero nm (push_bit (Suc k) 1) = first_zero nm (push_bit k 1)"
      using Suc.prems and_bit_mask [of nm "Suc k"] mask_nonzero [of "Suc k"] drop_bit_mask [of k]
      by (subst first_zero.simps) simp
    with Suc True show ?thesis by (auto simp: le_Suc_eq split: if_splits)
  next
    case False
    then have "first_zero nm (push_bit (Suc k) 1) = push_bit (Suc k) 1"
      using Suc.prems and_bit_mask [of nm "Suc k"] mask_nonzero [of "Suc k"] by (subst first_zero.simps) simp
    with False show ?thesis by (auto intro!: exI [of _ "Suc k"])
  qed
qed

lemma netmask_valid_bits:
  "ip4_addr_netmask_valid nm = (if \<exists>n\<le>32. \<forall>j<32. bit (lwip_htonl nm) j \<longleftrightarrow> 32 - n \<le> j then 1 else 0)"
proof -
  let ?h = "lwip_htonl nm"
  show ?thesis
  proof (cases "\<forall>j\<le>31. bit ?h j")
    case True
    then have "first_zero ?h (push_bit 31 1) = 0" using first_zero_spec [of 31 ?h] by simp
    moreover have "\<exists>n\<le>32. \<forall>j<32. bit ?h j \<longleftrightarrow> 32 - n \<le> j" using True by (intro exI [of _ 32]) auto
    ultimately show ?thesis by (simp add: ip4_addr_netmask_valid_def Let_def only_zeros.simps [of _ 0])
  next
    case False
    with first_zero_spec [of 31 ?h] obtain i where i: "i \<le> 31" "\<not> bit ?h i" "\<forall>j\<le>31. i < j \<longrightarrow> bit ?h j"
      "first_zero ?h (push_bit 31 1) = push_bit i 1" by auto
    have "(\<exists>j\<le>i. bit ?h j) \<longleftrightarrow> \<not> (\<exists>n\<le>32. \<forall>j<32. bit ?h j \<longleftrightarrow> 32 - n \<le> j)"
    proof
      assume "\<exists>j\<le>i. bit ?h j"
      then obtain j where j: "j \<le> i" "bit ?h j" by blast
      show "\<not> (\<exists>n\<le>32. \<forall>j<32. bit ?h j \<longleftrightarrow> 32 - n \<le> j)"
      proof
        assume "\<exists>n\<le>32. \<forall>j<32. bit ?h j \<longleftrightarrow> 32 - n \<le> j"
        then obtain n where n: "\<forall>j<32. bit ?h j \<longleftrightarrow> 32 - n \<le> j" by blast
        have "32 - n \<le> j" "\<not> 32 - n \<le> i" using n j i(1,2) by auto
        with j(1) show False by simp
      qed
    next
      assume a: "\<not> (\<exists>n\<le>32. \<forall>j<32. bit ?h j \<longleftrightarrow> 32 - n \<le> j)"
      show "\<exists>j\<le>i. bit ?h j"
      proof (rule ccontr)
        assume "\<not> (\<exists>j\<le>i. bit ?h j)"
        then have "bit ?h j \<longleftrightarrow> 32 - (31 - i) \<le> j" if "j < 32" for j
          using i(1,3) that by (cases "j \<le> i") auto
        moreover have "31 - i \<le> 32" by simp
        ultimately show False using a by blast
      qed
    qed
    then show ?thesis using only_zeros_spec [of i ?h] i by (auto simp: ip4_addr_netmask_valid_def Let_def)
  qed
qed

lemma netmask_valid_spec:
  "ip4_addr_netmask_valid nm = (if \<exists>n\<le>32. lwip_htonl nm = NOT (mask (32 - n)) then 1 else 0)"
proof -
  have "lwip_htonl nm = NOT (mask m) \<longleftrightarrow> (\<forall>j<32. bit (lwip_htonl nm) j \<longleftrightarrow> m \<le> j)" for m
    by (auto simp: bit_eq_iff bit_not_iff bit_mask_iff not_less)
  then show ?thesis unfolding netmask_valid_bits by simp
qed

section \<open>The text of an address\<close>

text \<open>The characters of an octet, of the octets, and of an address without the final dot.\<close>

definition octet_text :: "u8 \<Rightarrow> u8 list" where
  "octet_text b = rev (ntoa_digits b)"

definition octets_text :: "u8 list \<Rightarrow> u8 list" where
  "octets_text bs = concat (map (\<lambda>b. octet_text b @ [0x2e]) bs)"

definition dec_val :: "u32 \<Rightarrow> u8 list \<Rightarrow> u32" where
  "dec_val v ds = foldl (\<lambda>v c. v * 10 + ucast (c - 0x30)) v ds"

lemma digit_char: "r < (10 :: u8) \<Longrightarrow> isdigit (0x30 + r) \<and> (0x30 + r) - 0x30 = r"
proof -
  assume "r < 10"
  then have "unat r < 10" by (simp add: word_less_nat_alt)
  then have "unat (0x30 + r) = 0x30 + unat r" by (subst unat_add_lem [THEN iffD1]) auto
  then show ?thesis using \<open>unat r < 10\<close> by (simp add: isdigit_def in_range_def word_le_nat_alt)
qed

lemma mod_10_less: "(b :: u8) mod 10 < 10"
  by (simp add: word_less_nat_alt unat_mod)

lemma octet_text_rec: "octet_text b = (if b div 10 \<noteq> 0 then octet_text (b div 10) else []) @ [0x30 + b mod 10]"
  unfolding octet_text_def by (subst ntoa_digits.simps) (simp add: Let_def)

lemma octet_text_digits: "c \<in> set (octet_text b) \<Longrightarrow> isdigit c"
proof (induction b rule: ntoa_digits.induct)
  case (1 b)
  then show ?case using digit_char [OF mod_10_less [of b]] by (subst (asm) octet_text_rec) (auto split: if_splits)
qed

lemma dec_val_octet: "dec_val 0 (octet_text b) = ucast b"
proof (induction b rule: ntoa_digits.induct)
  case (1 b)
  have c: "ucast b = ucast (b div 10) * 10 + (ucast (b mod 10) :: u32)"
    using unat_u8_less [of b] by (simp add: word_unat_eq_iff unat_word_ariths unat_div unat_mod del: unat_u8_less)
  have "(0x30 + b mod 10) - 0x30 = b mod 10" using digit_char [OF mod_10_less [of b]] by simp
  then show ?case using 1 c
    by (subst octet_text_rec) (auto simp: dec_val_def unat_div_distrib)
qed

lemma div_10_eq_0: "(b :: u8) div 10 = 0 \<longleftrightarrow> b < 10"
  by (simp add: word_unat_eq_iff word_less_nat_alt unat_div div_eq_0_iff)

lemma octet_text_cases:
  "octet_text b =
    (if b < 10 then [0x30 + b]
     else if b div 10 < 10 then [0x30 + b div 10, 0x30 + b mod 10]
     else [0x30 + b div 10 div 10, 0x30 + b div 10 mod 10, 0x30 + b mod 10])"
proof -
  have *: "x mod 10 = x" if "x < 10" for x :: u8
    using that by (simp add: word_less_nat_alt word_unat_eq_iff unat_mod)
  have "b div 10 div 10 < 10" using unat_u8_less [of b]
    by (simp add: word_less_nat_alt unat_div less_mult_imp_div_less del: unat_u8_less)
  then show ?thesis
    by (subst octet_text_rec, subst (1) octet_text_rec, subst (1) octet_text_rec) (simp add: div_10_eq_0 *)
qed

lemma octet_text_length: "length (octet_text b) \<le> 3" "octet_text b \<noteq> []"
  by (simp_all add: octet_text_cases)

lemma octet_text_hd: "hd (octet_text b) = 0x30 \<Longrightarrow> octet_text b = [0x30]"
  by (auto simp: octet_text_cases div_10_eq_0 [symmetric] split: if_splits)

section \<open>Writing the text\<close>

lemma ntoa_puts_append:
  "ntoa_puts n (xs @ ys) st = (case ntoa_puts n xs st of Inl m \<Rightarrow> Inl m | Inr st \<Rightarrow> ntoa_puts n ys st)"
  by (induction xs arbitrary: st) (auto split: sum.splits)

lemma ntoa_octets_text: "ntoa_octets n aps st = ntoa_puts n (octets_text aps) st"
  by (induction aps arbitrary: st)
    (auto simp: octets_text_def octet_text_def ntoa_puts_append split: sum.splits)

lemma ntoa_puts_small: "len \<le> n \<Longrightarrow> n - len < int (length bs) \<Longrightarrow> \<exists>m'. ntoa_puts n bs (m, rp, len) = Inl m'"
  by (induction bs arbitrary: m rp len) (auto simp: ntoa_put_def)

lemma ntoa_puts_room:
  "int (length bs) \<le> n - len \<Longrightarrow> length bs < 2 ^ 32 \<Longrightarrow>
   \<exists>m'. ntoa_puts n bs (m, rp, len) = Inr (m', rp + of_nat (length bs), len + int (length bs)) \<and>
     bytes_at m' rp (length bs) = bs \<and> (\<forall>q. length bs \<le> unat (q - rp) \<longrightarrow> m' q = m q)"
proof (induction bs arbitrary: m rp len)
  case Nil
  then show ?case by simp
next
  case (Cons b bs)
  have "int (length bs) \<le> n - (len + 1)" "length bs < 2 ^ 32" using Cons.prems by auto
  from Cons.IH [OF this, of "m(rp := b)" "rp + 1"] obtain m' where
    m': "ntoa_puts n bs (m(rp := b), rp + 1, len + 1) = Inr (m', rp + 1 + of_nat (length bs), len + 1 + int (length bs))"
    "bytes_at m' (rp + 1) (length bs) = bs" "\<forall>q. length bs \<le> unat (q - (rp + 1)) \<longrightarrow> m' q = (m(rp := b)) q" by blast
  have "unat (rp - (rp + 1)) = 2 ^ 32 - 1" by (simp add: unsigned_minus_1_eq_mask mask_eq_exp_minus_1)
  then have "m' rp = b" using m'(3) Cons.prems(2) by simp
  moreover have "m' q = m q" if "length (b # bs) \<le> unat (q - rp)" for q
  proof -
    have "q - rp \<noteq> 0" using that by auto
    then have "unat (q - (rp + 1)) = unat (q - rp) - 1" using unat_minus_one [of "q - rp"] by (simp add: algebra_simps)
    then show ?thesis using m'(3) that by auto
  qed
  moreover have "\<not> n \<le> len" using Cons.prems(1) by simp
  ultimately show ?case using m'(1,2) by (simp add: ntoa_put_def bytes_at_Suc add.assoc)
qed

section \<open>Reading the text\<close>

lemma aton_digits_spec:
  "bytes_at m cp (length ds) = ds \<Longrightarrow> \<forall>d\<in>set ds. isdigit d \<Longrightarrow> \<not> isdigit (m (cp + of_nat (length ds))) \<Longrightarrow>
   aton_digits m 10 cp v = Some (cp + of_nat (length ds), dec_val v ds)"
proof (induction ds arbitrary: cp v)
  case Nil
  then show ?case by (simp add: aton_digits.simps dec_val_def)
next
  case (Cons d ds)
  have "aton_digits m 10 (cp + 1) w = Some (cp + 1 + of_nat (length ds), dec_val w ds)" for w
    using Cons.prems by (intro Cons.IH) (auto simp: bytes_at_Suc add.assoc)
  then show ?case using Cons.prems by (subst aton_digits.simps) (simp add: bytes_at_Suc dec_val_def add.assoc)
qed

lemma aton_octet:
  assumes "bytes_at m cp (length (octet_text b)) = octet_text b"
    and "m (cp + of_nat (length (octet_text b))) = 0x2e \<or> m (cp + of_nat (length (octet_text b))) = 0"
  shows "isdigit (m cp) \<and>
    (case aton_base m cp of (base, cp') \<Rightarrow> aton_digits m base cp' 0) = Some (cp + of_nat (length (octet_text b)), ucast b)"
proof -
  let ?t = "octet_text b"
  have n: "\<not> isdigit (m (cp + of_nat (length ?t)))" "m (cp + of_nat (length ?t)) \<noteq> 0x78" "m (cp + of_nat (length ?t)) \<noteq> 0x58"
    using assms(2) by (auto simp: isdigit_def in_range_def)
  have hd: "m cp = hd ?t" using assms(1) octet_text_length(2) [of b]
    by (cases ?t) (auto simp: bytes_at_Suc)
  then have "isdigit (m cp)" using octet_text_digits [of "hd ?t" b] octet_text_length(2) [of b] by simp
  moreover have "(case aton_base m cp of (base, cp') \<Rightarrow> aton_digits m base cp' 0) = Some (cp + of_nat (length ?t), ucast b)"
  proof (cases "m cp = 0x30")
    case True
    then have t: "?t = [0x30]" using hd octet_text_hd by metis
    have "ucast b = (0 :: u32)" using dec_val_octet [of b] t by (simp add: dec_val_def)
    then show ?thesis using n t True by (simp add: aton_base_def aton_digits.simps)
  next
    case False
    have "aton_digits m 10 cp 0 = Some (cp + of_nat (length ?t), dec_val 0 ?t)"
      using assms(1) n(1) octet_text_digits by (intro aton_digits_spec) auto
    with False show ?thesis by (simp add: aton_base_def dec_val_octet)
  qed
  ultimately show ?thesis ..
qed

lemma bytes_at_Cons_iff: "bytes_at m p (length (x # xs)) = x # xs \<longleftrightarrow> m p = x \<and> bytes_at m (p + 1) (length xs) = xs"
  by (simp add: bytes_at_Suc)

lemma bytes_at_append_iff:
  "bytes_at m p (length (xs @ ys)) = xs @ ys \<longleftrightarrow>
   bytes_at m p (length xs) = xs \<and> bytes_at m (p + of_nat (length xs)) (length ys) = ys"
  by (simp add: bytes_at_append)

lemma aton_loop_octet:
  assumes "bytes_at m p (length (octet_text b @ 0x2e # r)) = octet_text b @ 0x2e # r" "length parts < 3"
  shows "\<exists>p'. aton_loop m p parts = aton_loop m p' (parts @ [ucast b]) \<and> bytes_at m p' (length r) = r"
proof -
  have *: "bytes_at m p (length (octet_text b)) = octet_text b" "m (p + of_nat (length (octet_text b))) = 0x2e"
    "bytes_at m (p + of_nat (length (octet_text b)) + 1) (length r) = r"
    using assms(1) by (simp_all only: bytes_at_append_iff bytes_at_Cons_iff)
  have "aton_loop m p parts = aton_loop m (p + of_nat (length (octet_text b)) + 1) (parts @ [ucast b])"
    using aton_octet [OF *(1)] *(2) assms(2) by (subst aton_loop.simps) (auto simp: split_def)
  with *(3) show ?thesis by blast
qed

lemma aton_loop_last:
  assumes "bytes_at m p (length (octet_text b @ [0])) = octet_text b @ [0]"
  shows "\<exists>e. m e = 0 \<and> aton_loop m p parts = Some (Some (e, ucast b, parts))"
proof -
  have *: "bytes_at m p (length (octet_text b)) = octet_text b" "m (p + of_nat (length (octet_text b))) = 0"
    using assms by (simp_all only: bytes_at_append_iff bytes_at_Cons_iff)
  then have "aton_loop m p parts = Some (Some (p + of_nat (length (octet_text b)), ucast b, parts))"
    using aton_octet [OF *(1)] by (subst aton_loop.simps) (auto simp: split_def)
  with *(2) show ?thesis by blast
qed

text \<open>The whole text of an address in memory, with the zero byte behind it.\<close>

definition addr_text :: "u32 \<Rightarrow> u8 list" where
  "addr_text a = butlast (octets_text (addr_octets a)) @ [0]"

lemma addr_text_eq:
  "addr_text a = octet_text (ucast a) @ 0x2e # octet_text (ucast (drop_bit 8 a)) @ 0x2e #
     octet_text (ucast (drop_bit 16 a)) @ 0x2e # octet_text (ucast (drop_bit 24 a)) @ [0]"
  by (simp add: addr_text_def addr_octets_def octets_text_def butlast_append)

lemma octets_text_length: "length (octets_text bs) \<le> 4 * length bs"
proof (induction bs)
  case (Cons b bs)
  then show ?case using octet_text_length(1) [of b] by (simp add: octets_text_def)
qed (simp add: octets_text_def)

lemma octets_text_ne: "octets_text (addr_octets a) \<noteq> []"
  by (simp add: octets_text_def addr_octets_def)

lemma length_addr_text: "length (addr_text a) = length (octets_text (addr_octets a))"
  using octets_text_ne [of a] by (simp add: addr_text_def)

lemma addr_text_length: "length (addr_text a) \<le> 16"
  using octets_text_length [of "addr_octets a"] by (simp add: length_addr_text) (simp add: addr_octets_def)

lemma octets_value:
  "lwip_htonl (ucast (ucast (drop_bit 24 a) :: u8) OR (push_bit 24 (ucast (ucast a :: u8)) OR
     push_bit 16 (ucast (ucast (drop_bit 8 a) :: u8)) OR push_bit 8 (ucast (ucast (drop_bit 16 a) :: u8)))) = (a :: u32)"
  by (rule bit_word_eqI) (auto simp: htonl_bits bit_simps)

lemma aton_addr_text:
  assumes "bytes_at m p (length (addr_text a)) = addr_text a"
  shows "ipaddr_aton m p = Some (Some a)"
proof -
  obtain p1 where p1: "aton_loop m p [] = aton_loop m p1 ([] @ [ucast (ucast a :: u8)])"
    "bytes_at m p1 (length (octet_text (ucast (drop_bit 8 a)) @ 0x2e # octet_text (ucast (drop_bit 16 a)) @ 0x2e # octet_text (ucast (drop_bit 24 a)) @ [0])) =
      octet_text (ucast (drop_bit 8 a)) @ 0x2e # octet_text (ucast (drop_bit 16 a)) @ 0x2e # octet_text (ucast (drop_bit 24 a)) @ [0]"
    using aton_loop_octet [OF assms [unfolded addr_text_eq], of "[]"] by auto
  obtain p2 where p2: "aton_loop m p1 ([] @ [ucast (ucast a :: u8)]) = aton_loop m p2 (([] @ [ucast (ucast a :: u8)]) @ [ucast (ucast (drop_bit 8 a) :: u8)])"
    "bytes_at m p2 (length (octet_text (ucast (drop_bit 16 a)) @ 0x2e # octet_text (ucast (drop_bit 24 a)) @ [0])) =
      octet_text (ucast (drop_bit 16 a)) @ 0x2e # octet_text (ucast (drop_bit 24 a)) @ [0]"
    using aton_loop_octet [OF p1(2), of "[] @ [ucast (ucast a :: u8)]"] by auto
  obtain p3 where p3: "aton_loop m p2 [ucast (ucast a :: u8), ucast (ucast (drop_bit 8 a) :: u8)] =
      aton_loop m p3 [ucast (ucast a :: u8), ucast (ucast (drop_bit 8 a) :: u8), ucast (ucast (drop_bit 16 a) :: u8)]"
    "bytes_at m p3 (length (octet_text (ucast (drop_bit 24 a)) @ [0])) = octet_text (ucast (drop_bit 24 a)) @ [0]"
    using aton_loop_octet [OF p2(2), of "[ucast (ucast a :: u8), ucast (ucast (drop_bit 8 a) :: u8)]"] by auto
  obtain e where "m e = 0" "aton_loop m p [] = Some (Some (e, ucast (ucast (drop_bit 24 a) :: u8),
      [ucast (ucast a :: u8), ucast (ucast (drop_bit 8 a) :: u8), ucast (ucast (drop_bit 16 a) :: u8)]))"
    using aton_loop_last [OF p3(2)] p1(1) p2(1) p3(1) by auto
  moreover have "\<not> (0xff :: u32) < ucast (ucast (drop_bit 24 a) :: u8)"
    using unat_u8_less [of "ucast (drop_bit 24 a)"] by (simp add: word_less_nat_alt del: unat_u8_less)
  ultimately show ?thesis by (simp add: ipaddr_aton_def aton_value_def octets_value)
qed

lemma ntoa_r_spec:
  assumes "int (length (addr_text a)) \<le> buflen"
  shows "\<exists>m'. ipaddr_ntoa_r a buf buflen m = (m', buf) \<and> bytes_at m' buf (length (addr_text a)) = addr_text a \<and>
    (\<forall>q. length (addr_text a) \<le> unat (q - buf) \<longrightarrow> m' q = m q)"
proof -
  let ?t = "octets_text (addr_octets a)"
  have L: "length ?t < 2 ^ 32" using addr_text_length [of a] by (simp add: length_addr_text)
  obtain m' where m': "ntoa_puts buflen ?t (m, buf, 0) = Inr (m', buf + of_nat (length ?t), 0 + int (length ?t))"
    "bytes_at m' buf (length ?t) = ?t" "\<forall>q. length ?t \<le> unat (q - buf) \<longrightarrow> m' q = m q"
    using ntoa_puts_room [of ?t buflen 0 m buf] assms L by (auto simp: length_addr_text)
  obtain x xs where t: "?t = xs @ [x]" using octets_text_ne [of a] by (metis append_butlast_last_id)
  let ?e = "buf + of_nat (length xs)"
  have xs: "unat (of_nat (length xs) :: u32) = length xs" using L t by (intro unat_of_nat_u32) simp
  have ne: "of_nat i \<noteq> (of_nat (length xs) :: u32)" if "i < length xs" for i
  proof
    assume "of_nat i = (of_nat (length xs) :: u32)"
    then have "unat (of_nat i :: u32) = length xs" using xs by simp
    with that L t show False by (simp add: unat_of_nat_u32)
  qed
  have "bytes_at (m'(?e := 0)) buf (length xs) = bytes_at m' buf (length xs)"
    using ne by (intro nth_equalityI) auto
  then have "bytes_at (m'(?e := 0)) buf (length (addr_text a)) = addr_text a"
    using m'(2) unfolding t addr_text_def butlast_snoc bytes_at_append_iff bytes_at_Cons_iff by simp
  moreover have "(m'(?e := 0)) q = m q" if "length (addr_text a) \<le> unat (q - buf)" for q
    using m'(3) that t xs by (auto simp: length_addr_text)
  ultimately show ?thesis using m'(1) t
    by (intro exI [of _ "m'(?e := 0)"]) (simp add: ipaddr_ntoa_r_def ntoa_octets_text)
qed

lemma ntoa_r_small: "0 \<le> buflen \<Longrightarrow> buflen < int (length (addr_text a)) \<Longrightarrow> \<exists>m'. ipaddr_ntoa_r a buf buflen m = (m', NULL)"
  using ntoa_puts_small [of 0 buflen "octets_text (addr_octets a)" m buf]
  by (auto simp: ipaddr_ntoa_r_def ntoa_octets_text length_addr_text)

text \<open>
  C24: \<open>ipaddr_ntoa\<close> always returns its buffer, touches nothing outside its 16 bytes, and
  \<open>ipaddr_aton\<close> reads the text it left there as the same address.
\<close>

theorem ntoa_aton_roundtrip:
  "\<exists>m'. ipaddr_ntoa str a m = (m', str) \<and> ipaddr_aton m' str = Some (Some a) \<and>
     {q. m' q \<noteq> m q} \<subseteq> {q. unat (q - str) < 16}"
proof -
  have "int (length (addr_text a)) \<le> 16" using addr_text_length [of a] by simp
  from ntoa_r_spec [OF this] obtain m' where m': "ipaddr_ntoa_r a str 16 m = (m', str)"
    "bytes_at m' str (length (addr_text a)) = addr_text a" "\<forall>q. length (addr_text a) \<le> unat (q - str) \<longrightarrow> m' q = m q"
    by blast
  have "{q. m' q \<noteq> m q} \<subseteq> {q. unat (q - str) < 16}"
    using m'(3) addr_text_length [of a] by (auto simp: not_le) (meson not_le order_trans)
  with m'(1) aton_addr_text [OF m'(2)] show ?thesis unfolding ipaddr_ntoa_def by blast
qed

text \<open>The buffer that is too small: a shorter buffer gives \<open>NULL\<close>, a longer one the whole text.\<close>

lemma ntoa_r_returns:
  "0 \<le> buflen \<Longrightarrow> buf \<noteq> NULL \<Longrightarrow> snd (ipaddr_ntoa_r a buf buflen m) = buf \<longleftrightarrow> int (length (addr_text a)) \<le> buflen"
  using ntoa_r_spec [of a buflen buf m] ntoa_r_small [of buflen a buf m] by (cases "int (length (addr_text a)) \<le> buflen") auto

text \<open>
  A part before the last is not checked: the text \<open>256.0.0.1\<close> is accepted, and is the
  address 0.0.0.1; so is \<open>09.0.0.1\<close>, whose first number is octal.
\<close>

definition mem_text :: "u8 list \<Rightarrow> ptr \<Rightarrow> u8" where
  "mem_text cs p = (if unat p < length cs then cs ! unat p else 0)"

lemma aton_accepts_256:
  "ipaddr_aton (mem_text [0x32, 0x35, 0x36, 0x2e, 0x30, 0x2e, 0x30, 0x2e, 0x31]) 0 = Some (Some 0x01000000)"
  by (simp add: ipaddr_aton_def aton_loop.simps aton_base_def aton_digits.simps mem_text_def isdigit_def in_range_def
      isspace_def aton_value_def lwip_htonl_def)

lemma aton_accepts_octal_9:
  "ipaddr_aton (mem_text [0x30, 0x39, 0x2e, 0x30, 0x2e, 0x30, 0x2e, 0x31]) 0 = Some (Some 0x01000009)"
  by (simp add: ipaddr_aton_def aton_loop.simps aton_base_def aton_digits.simps mem_text_def isdigit_def in_range_def
      isspace_def aton_value_def lwip_htonl_def)

section \<open>Reading a text ends at its zero byte\<close>

text \<open>Two memories hold the same text of at most \<open>n\<close> bytes with its zero byte.\<close>

definition same_text :: "(ptr \<Rightarrow> u8) \<Rightarrow> (ptr \<Rightarrow> u8) \<Rightarrow> ptr \<Rightarrow> nat \<Rightarrow> bool" where
  "same_text m m' cp n \<longleftrightarrow> m (cp + of_nat n) = 0 \<and> bytes_at m' cp (Suc n) = bytes_at m cp (Suc n)"

lemma same_text_first: "same_text m m' cp n \<Longrightarrow> m' cp = m cp"
  by (simp add: same_text_def bytes_at_Suc)

lemma same_text_0: "same_text m m' cp 0 \<Longrightarrow> m cp = 0"
  by (simp add: same_text_def)

lemma same_text_Suc: "same_text m m' cp (Suc n) \<Longrightarrow> same_text m m' (cp + 1) n"
  by (simp add: same_text_def bytes_at_Suc add.assoc)

lemma same_text_step: "same_text m m' cp n \<Longrightarrow> m cp \<noteq> 0 \<Longrightarrow> \<exists>k. n = Suc k \<and> same_text m m' (cp + 1) k"
  by (cases n) (auto dest: same_text_0 same_text_Suc)

lemma char_nonzero: "isdigit c \<Longrightarrow> c \<noteq> 0" "isxdigit c \<Longrightarrow> c \<noteq> 0"
  by (auto simp: isdigit_def isxdigit_def in_range_def)

lemma aton_digits_ends:
  "same_text m m' cp n \<Longrightarrow>
   \<exists>cp' v' k. aton_digits m base cp v = Some (cp', v') \<and> aton_digits m' base cp v = Some (cp', v') \<and> k \<le> n \<and> same_text m m' cp' k"
proof (induction n arbitrary: cp v)
  case 0
  then have "\<not> isdigit (m cp)" "\<not> isxdigit (m cp)" using char_nonzero same_text_0 by metis+
  then show ?case using 0 same_text_first [OF 0] by (simp add: aton_digits.simps)
next
  case (Suc n)
  note IH = Suc.IH [OF same_text_Suc [OF Suc.prems]]
  have eq: "m' cp = m cp" using same_text_first [OF Suc.prems] .
  show ?case
  proof (cases "isdigit (m cp) \<or> base = 16 \<and> isxdigit (m cp)")
    case True
    then obtain w where "aton_digits m base cp v = aton_digits m base (cp + 1) w" "aton_digits m' base cp v = aton_digits m' base (cp + 1) w"
      using eq aton_digits.simps [of m base cp v] aton_digits.simps [of m' base cp v] by (cases "isdigit (m cp)") (auto simp: Let_def)
    with IH [of w] show ?thesis by (metis le_SucI)
  next
    case False
    then show ?thesis using Suc.prems eq by (auto simp: aton_digits.simps)
  qed
qed

lemma aton_base_ends:
  assumes "same_text m m' cp n"
  shows "\<exists>base cp' k. aton_base m cp = (base, cp') \<and> aton_base m' cp = (base, cp') \<and> k \<le> n \<and> same_text m m' cp' k"
proof (cases "m cp = 0x30")
  case True
  then obtain k where k: "n = Suc k" "same_text m m' (cp + 1) k" using same_text_step [OF assms] by auto
  show ?thesis
  proof (cases "m (cp + 1) = 0x78 \<or> m (cp + 1) = 0x58")
    case x: True
    then have "m (cp + 1) \<noteq> 0" by auto
    then obtain j where "k = Suc j" "same_text m m' (cp + 1 + 1) j" using same_text_step [OF k(2)] by blast
    then show ?thesis using x True k same_text_first [OF assms] same_text_first [OF k(2)]
      by (intro exI [of _ 16] exI [of _ "cp + 2"] exI [of _ j]) (auto simp: aton_base_def add.assoc)
  next
    case False
    then show ?thesis using True k same_text_first [OF assms] same_text_first [OF k(2)]
      by (intro exI [of _ 8] exI [of _ "cp + 1"] exI [of _ k]) (auto simp: aton_base_def)
  qed
next
  case False
  then show ?thesis using assms same_text_first [OF assms] by (auto simp: aton_base_def)
qed

lemma aton_loop_ends:
  "same_text m m' cp n \<Longrightarrow>
   \<exists>r. aton_loop m cp parts = Some r \<and> aton_loop m' cp parts = Some r \<and>
     (case r of None \<Rightarrow> True | Some (cp', val, parts') \<Rightarrow> m' cp' = m cp')"
proof (induction n arbitrary: cp parts rule: less_induct)
  case (less n)
  have eq: "m' cp = m cp" using same_text_first [OF less.prems] .
  obtain base cp1 k1 where b: "aton_base m cp = (base, cp1)" "aton_base m' cp = (base, cp1)" "k1 \<le> n" "same_text m m' cp1 k1"
    using aton_base_ends [OF less.prems] by blast
  obtain cp2 v k2 where d: "aton_digits m base cp1 0 = Some (cp2, v)" "aton_digits m' base cp1 0 = Some (cp2, v)"
    "k2 \<le> k1" "same_text m m' cp2 k2"
    using aton_digits_ends [OF b(4)] by blast
  have eq2: "m' cp2 = m cp2" using same_text_first [OF d(4)] .
  show ?case
  proof (cases "isdigit (m cp) \<and> m cp2 = 0x2e \<and> length parts < 3")
    case True
    then obtain k3 where "k2 = Suc k3" "same_text m m' (cp2 + 1) k3" using same_text_step [OF d(4)] by auto
    then have "\<exists>r. aton_loop m (cp2 + 1) (parts @ [v]) = Some r \<and> aton_loop m' (cp2 + 1) (parts @ [v]) = Some r \<and>
        (case r of None \<Rightarrow> True | Some (cp', val, parts') \<Rightarrow> m' cp' = m cp')"
      using less.IH [of k3] d(3) b(3) by simp
    moreover have "aton_loop m cp parts = aton_loop m (cp2 + 1) (parts @ [v])" "aton_loop m' cp parts = aton_loop m' (cp2 + 1) (parts @ [v])"
      using True b(1,2) d(1,2) eq eq2 by (subst (1) aton_loop.simps, simp)+
    ultimately show ?thesis by simp
  next
    case False
    then show ?thesis using b(1,2) d(1,2) eq eq2 by (subst (1 2) aton_loop.simps) auto
  qed
qed

lemma aton_ends:
  assumes "same_text m m' cp n"
  shows "\<exists>r. ipaddr_aton m cp = Some r \<and> ipaddr_aton m' cp = Some r"
  using aton_loop_ends [OF assms, of "[]"] by (auto simp: ipaddr_aton_def split: option.splits)

text \<open>
  C25: \<open>ipaddr_aton\<close> returns on every text that has its zero byte, whatever its characters,
  and its result depends on no byte behind the zero byte.
\<close>

theorem ipaddr_aton_returns:
  assumes "m (cp + of_nat n) = 0" and "bytes_at m' cp (Suc n) = bytes_at m cp (Suc n)"
  shows "\<exists>r. ipaddr_aton m cp = Some r \<and> ipaddr_aton m' cp = Some r"
  using assms aton_ends unfolding same_text_def by blast

text \<open>Witness: the text \<open>1.2\<close> in one memory, followed by other bytes in the other.\<close>

theorem ipaddr_aton_returns_witness:
  "\<exists>r. ipaddr_aton (mem_text [0x31, 0x2e, 0x32]) 0 = Some r \<and> ipaddr_aton (mem_text [0x31, 0x2e, 0x32, 0, 0x37]) 0 = Some r"
  by (rule ipaddr_aton_returns [where n = 3]) (simp_all add: mem_text_def bytes_at_def upt_rec)

section \<open>Broadcast addresses\<close>

lemma host_all_ones: "addr AND msk = ip AND msk \<and> addr AND NOT msk = NOT msk \<longleftrightarrow> addr = ip OR NOT (msk :: u32)"
  by (auto simp: bit_eq_iff bit_simps)

lemma isbroadcast_iff:
  "ip4_addr_isbroadcast addr nif \<noteq> 0 \<longleftrightarrow>
   addr = 0 \<or> addr = - 1 \<or>
   netif_flags nif AND 2 \<noteq> 0 \<and> addr \<noteq> ip_addr nif \<and> addr = ip_addr nif OR NOT (netmask nif)"
proof -
  have "(0xffffffff :: u32) = - 1" by simp
  then have "0xffffffff AND NOT (netmask nif) = NOT (netmask nif)" by (simp only: and.left_neutral)
  moreover have "NOT addr = 0 \<longleftrightarrow> addr = - 1" by (metis bit.compl_eq_compl_iff bit.compl_one)
  ultimately show ?thesis using host_all_ones [of addr "netmask nif" "ip_addr nif"]
    by (auto simp: ip4_addr_isbroadcast_def ip_addr_netcmp_def)
qed

end
