(* ===== verification/LW_Packet.thy ===== *)
theory LW_Packet
  imports LW_PbufAlloc LW_IPaddr
begin

text \<open>
  What the protocol modules share: writing bytes into packets, and what the functions of the
  packet buffers keep of the links of all buffers.
\<close>

abbreviation (input) ERR_MEM :: int where "ERR_MEM \<equiv> -1"
abbreviation (input) ERR_BUF :: int where "ERR_BUF \<equiv> -2"
abbreviation (input) ERR_RTE :: int where "ERR_RTE \<equiv> -4"

section \<open>Bytes of packets\<close>

text \<open>Bytes written at an address: a 6-byte or 4-byte address, a 16-bit value.\<close>

definition wr :: "ptr \<Rightarrow> u8 list \<Rightarrow> lw \<Rightarrow> lw" where
  "wr a bs s = s\<lparr>bytes := (\<lambda>x. if unat (x - a) < length bs then bs ! unat (x - a) else bytes s x)\<rparr>"

definition wr16 :: "ptr \<Rightarrow> u16 \<Rightarrow> lw \<Rightarrow> lw" where
  "wr16 a v s = wr a [ucast v, ucast (drop_bit 8 v)] s"

definition wr32 :: "ptr \<Rightarrow> u32 \<Rightarrow> lw \<Rightarrow> lw" where
  "wr32 a v s = wr a (addr_octets v) s"

lemma wr_fields [simp]:
  "pb_payload (wr a bs s) = pb_payload s" "pb_len (wr a bs s) = pb_len s" "pb_payload (wr16 a v s) = pb_payload s"
  "pb_len (wr16 a v s) = pb_len s" "pb_payload (wr32 a w s) = pb_payload s" "pb_len (wr32 a w s) = pb_len s"
  by (simp_all add: wr_def wr16_def wr32_def)

lemma length_octets [simp]: "length (addr_octets ip) = 4"
  by (simp add: addr_octets_def)

text \<open>Bytes written inside of a larger area.\<close>

lemma bytes_at_wr:
  assumes "k + length bs \<le> n" "n \<le> 65536"
  shows "bytes_at (bytes (wr (a + of_nat k) bs s)) a n =
    take k (bytes_at (bytes s) a n) @ bs @ drop (k + length bs) (bytes_at (bytes s) a n)"
proof (rule nth_equalityI)
  show "length (bytes_at (bytes (wr (a + of_nat k) bs s)) a n) =
      length (take k (bytes_at (bytes s) a n) @ bs @ drop (k + length bs) (bytes_at (bytes s) a n))"
    using assms by simp
next
  fix i assume "i < length (bytes_at (bytes (wr (a + of_nat k) bs s)) a n)"
  then have i: "i < n" by simp
  have d: "unat (of_nat i - of_nat k :: u32) = (if k \<le> i then i - k else 4294967296 + i - k)"
  proof (cases "k \<le> i")
    case True
    then have "of_nat i - of_nat k = (of_nat (i - k) :: u32)" by (simp add: of_nat_diff)
    then show ?thesis using True i assms by (simp add: unat_of_nat_u32 del: of_nat_diff)
  next
    case False
    then have "(of_nat i - of_nat k :: u32) = of_nat (4294967296 + i - k)"
      using i assms by (simp add: of_nat_diff)
    then show ?thesis using False i assms by (simp only: unat_of_nat_u32) simp
  qed
  show "bytes_at (bytes (wr (a + of_nat k) bs s)) a n ! i =
      (take k (bytes_at (bytes s) a n) @ bs @ drop (k + length bs) (bytes_at (bytes s) a n)) ! i"
    using i assms by (auto simp: wr_def d nth_append)
qed

definition put_bytes :: "nat \<Rightarrow> u8 list \<Rightarrow> u8 list \<Rightarrow> u8 list" where
  "put_bytes k bs l = take k l @ bs @ drop (k + length bs) l"

lemma bytes_at_put:
  "k + length bs \<le> n \<Longrightarrow> n \<le> 65536 \<Longrightarrow> bytes_at (bytes (wr (a + of_nat k) bs s)) a n = put_bytes k bs (bytes_at (bytes s) a n)"
  unfolding put_bytes_def by (rule bytes_at_wr)

lemma bytes_at_sub:
  "k + l \<le> n \<Longrightarrow> bytes_at b (a + of_nat k) l = take l (drop k (bytes_at b a n))"
  by (rule nth_equalityI) (simp_all add: add.assoc)

lemma length_put_bytes: "k + length bs \<le> length l \<Longrightarrow> length (put_bytes k bs l) = length l"
  by (simp add: put_bytes_def)

lemma htons_bytes: "[ucast (lwip_htons v), ucast (drop_bit 8 (lwip_htons v))] = [ucast (drop_bit 8 v), ucast v :: u8]"
  unfolding htons_bits by (simp add: bit_eq_iff bit_simps)

lemma htons_put: "wr16 a (lwip_htons v) s = wr a [ucast (drop_bit 8 v), ucast v] s"
  by (simp add: wr16_def htons_bytes)

section \<open>What the operations do to the buffers\<close>

text \<open>
  The links and flags of buffers are left alone or cleared, and no pool appears or goes away:
  this is all that the calls of the buffer functions and the driver have to keep for the
  queued packets to stay finite chains.
\<close>

definition keeps :: "lw \<Rightarrow> lw \<Rightarrow> bool" where
  "keeps s s' \<longleftrightarrow> (\<forall>x. (pb_next s' x = pb_next s x \<or> pb_next s' x = NULL) \<and> (pb_flags s' x = pb_flags s x \<or> pb_flags s' x = 0)) \<and>
     length (memp_tab s') = length (memp_tab s)"

text \<open>A packet that \<open>pbuf_free\<close> can release: a finite chain of buffers that are not custom ones.\<close>

definition packet :: "lw \<Rightarrow> ptr \<Rightarrow> bool" where
  "packet s q \<longleftrightarrow> (\<exists>ps. chain (pb_next s) q ps \<and> (\<forall>x\<in>set ps. pb_flags s x AND PBUF_FLAG_IS_CUSTOM = 0))"

lemma keeps_refl [simp]: "keeps s s"
  by (simp add: keeps_def)

lemma keeps_trans: "keeps s s' \<Longrightarrow> keeps s' s'' \<Longrightarrow> keeps s s''"
  by (simp add: keeps_def) metis

lemma chain_keeps:
  "chain (pb_next s) q ps \<Longrightarrow> keeps s s' \<Longrightarrow> \<exists>ps'. chain (pb_next s') q ps' \<and> set ps' \<subseteq> set ps"
proof (induction ps arbitrary: q)
  case (Cons x ps)
  then have x: "q = x" "x \<noteq> NULL" "chain (pb_next s) (pb_next s x) ps" by auto
  from Cons.IH [OF x(3) Cons.prems(2)] obtain ps' where ps': "chain (pb_next s') (pb_next s x) ps'" "set ps' \<subseteq> set ps" by blast
  consider "pb_next s' x = pb_next s x" | "pb_next s' x = NULL" using Cons.prems(2) by (auto simp: keeps_def)
  then show ?case
  proof cases
    case 1
    then show ?thesis using x ps' by (intro exI [of _ "x # ps'"]) auto
  next
    case 2
    then show ?thesis using x by (intro exI [of _ "[x]"]) auto
  qed
qed auto

lemma packet_keeps: "packet s q \<Longrightarrow> keeps s s' \<Longrightarrow> packet s' q"
proof -
  assume "packet s q" and k: "keeps s s'"
  then obtain ps where ps: "chain (pb_next s) q ps" "\<forall>x\<in>set ps. pb_flags s x AND PBUF_FLAG_IS_CUSTOM = 0"
    by (auto simp: packet_def)
  obtain ps' where "chain (pb_next s') q ps'" "set ps' \<subseteq> set ps" using chain_keeps [OF ps(1) k] by blast
  moreover have "\<forall>x\<in>set ps. pb_flags s' x AND PBUF_FLAG_IS_CUSTOM = 0"
  proof
    fix x assume "x \<in> set ps"
    moreover have "pb_flags s' x = pb_flags s x \<or> pb_flags s' x = 0" using k by (simp add: keeps_def)
    ultimately show "pb_flags s' x AND PBUF_FLAG_IS_CUSTOM = 0" using ps(2) by auto
  qed
  ultimately show ?thesis unfolding packet_def by blast
qed

lemma mem_free_fields:
  "pb_next (mem_free p s) = pb_next s" "pb_flags (mem_free p s) = pb_flags s" "memp_tab (mem_free p s) = memp_tab s"
  by (simp_all add: mem_free_def plug_holes_def Let_def)

lemma memp_free_total:
  assumes "t < length (memp_tab s)"
  shows "\<exists>s'. memp_free t x s = Some s' \<and> pb_next s' = pb_next s \<and> pb_flags s' = pb_flags s \<and>
    length (memp_tab s') = length (memp_tab s)"
  using assms by (simp add: memp_free_def Let_def)

lemma pbuf_free_loop_total:
  assumes "chain (pb_next s) p ps" "\<forall>x\<in>set ps. pb_flags s x AND PBUF_FLAG_IS_CUSTOM = 0" "14 < length (memp_tab s)"
  shows "\<exists>n' s'. pbuf_free_loop n p s = Some (n', s') \<and> pb_next s' = pb_next s \<and> pb_flags s' = pb_flags s \<and>
    length (memp_tab s') = length (memp_tab s)"
  using assms
proof (induction ps arbitrary: n p s)
  case Nil
  then show ?case by (simp add: pbuf_free_loop.simps)
next
  case (Cons x ps)
  have x: "p = x" "x \<noteq> NULL" "pb_flags s x AND PBUF_FLAG_IS_CUSTOM = 0" using Cons.prems by auto
  let ?s = "put_ref x 0 s"
  show ?case
  proof (cases "pb_ref_count s x - 1 = 0")
    case False
    then show ?thesis using x by (subst pbuf_free_loop.simps) (simp add: Let_def pbuf_free_loop.simps [of _ NULL])
  next
    case True
    have "\<exists>s1. (if pb_type s x = PBUF_POOL then memp_free MEMP_PBUF_POOL x ?s
        else if pb_type s x = PBUF_ROM \<or> pb_type s x = PBUF_REF then memp_free MEMP_PBUF x ?s
        else Some (mem_free x ?s)) = Some s1 \<and> pb_next s1 = pb_next s \<and> pb_flags s1 = pb_flags s \<and>
        length (memp_tab s1) = length (memp_tab s)"
    proof -
      have "\<exists>s1. memp_free MEMP_PBUF_POOL x ?s = Some s1 \<and> pb_next s1 = pb_next s \<and> pb_flags s1 = pb_flags s \<and>
          length (memp_tab s1) = length (memp_tab s)"
        using memp_free_total [of MEMP_PBUF_POOL ?s x] Cons.prems(3) by simp
      moreover have "\<exists>s1. memp_free MEMP_PBUF x ?s = Some s1 \<and> pb_next s1 = pb_next s \<and> pb_flags s1 = pb_flags s \<and>
          length (memp_tab s1) = length (memp_tab s)"
        using memp_free_total [of MEMP_PBUF ?s x] Cons.prems(3) by simp
      ultimately show ?thesis by (simp add: mem_free_fields)
    qed
    then obtain s1 where s1: "(if pb_type s x = PBUF_POOL then memp_free MEMP_PBUF_POOL x ?s
        else if pb_type s x = PBUF_ROM \<or> pb_type s x = PBUF_REF then memp_free MEMP_PBUF x ?s
        else Some (mem_free x ?s)) = Some s1" "pb_next s1 = pb_next s" "pb_flags s1 = pb_flags s"
        "length (memp_tab s1) = length (memp_tab s)" by blast
    have "pbuf_free_loop n p s = pbuf_free_loop (n + 1) (pb_next s x) s1"
      using x True s1(1) by (subst pbuf_free_loop.simps) (auto simp: Let_def split: if_splits)
    moreover have "chain (pb_next s1) (pb_next s x) ps" "\<forall>y\<in>set ps. pb_flags s1 y AND PBUF_FLAG_IS_CUSTOM = 0" "14 < length (memp_tab s1)"
      using Cons.prems s1 by auto
    ultimately show ?thesis using Cons.IH [of s1 "pb_next s x" "n + 1"] s1 by auto
  qed
qed

lemma pbuf_free_total:
  assumes "packet s q" "14 < length (memp_tab s)"
  shows "\<exists>n s'. pbuf_free q s = Some (n, s') \<and> keeps s s'"
proof -
  from assms(1) obtain ps where "chain (pb_next s) q ps" "\<forall>x\<in>set ps. pb_flags s x AND PBUF_FLAG_IS_CUSTOM = 0"
    by (auto simp: packet_def)
  from pbuf_free_loop_total [OF this assms(2), of 0] show ?thesis by (auto simp: pbuf_free_def keeps_def)
qed

lemma wr_keeps [simp]: "keeps s (wr a bs s)" "keeps s (wr16 a v s)" "keeps s (wr32 a w s)"
  by (simp_all add: keeps_def wr_def wr16_def wr32_def)

lemma pbuf_header_keeps: "keeps s (snd (pbuf_header p inc s))"
  by (simp add: pbuf_header_def Let_def keeps_def)

lemma single_packet: "p \<noteq> NULL \<Longrightarrow> pb_next s p = NULL \<Longrightarrow> pb_flags s p = 0 \<Longrightarrow> packet s p"
  unfolding packet_def by (intro exI [of _ "[p]"]) simp

lemma if_SomeE:
  "(if c then x else y) = Some r \<Longrightarrow> (c \<Longrightarrow> x = Some r \<Longrightarrow> P) \<Longrightarrow> (\<not> c \<Longrightarrow> y = Some r \<Longrightarrow> P) \<Longrightarrow> P"
  by (simp split: if_splits)

lemma lfree_loop_fields:
  "lfree_loop s = Some s' \<Longrightarrow> pb_next s' = pb_next s \<and> pb_flags s' = pb_flags s \<and> memp_tab s' = memp_tab s"
proof (erule lfree_loop.raw_induct [rotated])
  fix f :: "lw \<Rightarrow> lw option" and s s' :: lw
  assume "\<And>x y. f x = Some y \<Longrightarrow> pb_next y = pb_next x \<and> pb_flags y = pb_flags x \<and> memp_tab y = memp_tab x"
    and "(if mem_used s (lfree s) \<noteq> 0 \<and> lfree s \<noteq> ram_end s then f (s\<lparr>lfree := ram_at s (mem_next s (lfree s))\<rparr>) else Some s) = Some s'"
  then show "pb_next s' = pb_next s \<and> pb_flags s' = pb_flags s \<and> memp_tab s' = memp_tab s" by (fastforce split: if_splits)
qed

lemma malloc_take_fields:
  "pb_next (malloc_take sz ptr s) = pb_next s" "pb_flags (malloc_take sz ptr s) = pb_flags s" "memp_tab (malloc_take sz ptr s) = memp_tab s"
  by (simp_all add: malloc_take_def Let_def)

lemma malloc_at_fields:
  assumes "malloc_at sz ptr s = Some (p, s')"
  shows "pb_next s' = pb_next s \<and> pb_flags s' = pb_flags s \<and> memp_tab s' = memp_tab s"
proof -
  let ?s = "malloc_take sz ptr s"
  from assms have "(if ram_at s ptr = lfree ?s then lfree_loop ?s else Some ?s) = Some s'"
    by (auto simp: malloc_at_def Let_def bind_eq_Some_conv)
  then show ?thesis using lfree_loop_fields [of ?s s'] malloc_take_fields [of sz ptr s] by (auto split: if_splits)
qed

lemma mem_malloc_fields:
  assumes "mem_malloc sz s = Some (p, s')"
  shows "pb_next s' = pb_next s \<and> pb_flags s' = pb_flags s \<and> memp_tab s' = memp_tab s"
  using assms malloc_at_fields unfolding mem_malloc_def Let_def
  by (elim if_SomeE) (auto simp: bind_eq_Some_conv split: option.splits)

lemma alloc_ram_keeps:
  assumes "alloc_ram offset len s = Some (p, s')"
  shows "keeps s s' \<and> (p \<noteq> NULL \<longrightarrow> pb_next s' p = NULL \<and> pb_flags s' p = 0)"
proof -
  let ?n = "LWIP_MEM_ALIGN_SIZE (SIZEOF_STRUCT_PBUF + offset) + LWIP_MEM_ALIGN_SIZE len"
  from assms obtain r s1 where m: "mem_malloc ?n s = Some (r, s1)" by (auto simp: alloc_ram_def bind_eq_Some_conv)
  note f = mem_malloc_fields [OF m]
  show ?thesis
  proof (cases "r = NULL")
    case True
    then have "p = NULL" "s' = s1" using assms m by (auto simp: alloc_ram_def)
    then show ?thesis using f by (simp add: keeps_def)
  next
    case False
    have "p = r" "pb_next s' = (pb_next s1)(r := NULL)" "pb_flags s' = (pb_flags s1)(r := 0)" "memp_tab s' = memp_tab s1"
      using assms m False by (auto simp: alloc_ram_def alloc_done_def Let_def)
    then show ?thesis using f by (simp add: keeps_def)
  qed
qed

lemma pbuf_alloc_ram: "layer_offset layer = Some n \<Longrightarrow> pbuf_alloc layer len PBUF_RAM s = alloc_ram n len s"
  by (simp add: pbuf_alloc_def)

lemma memp_free_keeps: "memp_free t x s = Some s' \<Longrightarrow> keeps s s'"
  by (auto simp: memp_free_def keeps_def Let_def split: if_splits)

lemma mem_free_keeps: "keeps s (mem_free p s)"
  by (simp add: keeps_def mem_free_fields)

lemma put_ref_keeps: "keeps s (put_ref p r s)"
  by (simp add: keeps_def)

text \<open>
  A relation between states that the release of a single buffer keeps is kept by \<open>pbuf_free\<close>.
\<close>

locale release_kept =
  fixes R :: "lw \<Rightarrow> lw \<Rightarrow> bool"
  assumes kept_refl: "R s s"
    and kept_trans: "R s s' \<Longrightarrow> R s' s'' \<Longrightarrow> R s s''"
    and put_ref_kept: "R s (put_ref p n s)"
    and memp_free_kept: "memp_free t p s = Some s' \<Longrightarrow> R s s'"
    and mem_free_kept: "R s (mem_free p s)"
begin

lemma pbuf_free_loop_kept: "pbuf_free_loop n p s = Some r \<Longrightarrow> R s (snd r)"
proof (erule pbuf_free_loop.raw_induct [where P = "\<lambda>n p s r. R s (snd r)", rotated], goal_cases step)
  case (step f n p s r)
  note IH = step(1) and run = step(2)
  let ?s = "put_ref p (pb_ref_count s p - 1) s"
  have ref: "R s ?s" by (rule put_ref_kept)
  consider "p = NULL" | "p \<noteq> NULL" "pb_ref_count s p - 1 \<noteq> 0" | "p \<noteq> NULL" "pb_ref_count s p - 1 = 0" by blast
  then show "R s (snd r)"
  proof cases
    case 1
    then show ?thesis using run kept_refl by auto
  next
    case 2
    then have "f n NULL ?s = Some r" using run by (simp add: Let_def)
    from kept_trans [OF ref IH [OF this]] show ?thesis .
  next
    case 3
    let ?s = "put_ref p 0 s"
    have ref: "R s ?s" by (rule put_ref_kept)
    let ?custom = "(if custom_original ?s p \<noteq> NULL then f 0 (custom_original ?s p) ?s \<bind> (\<lambda>r. Some (snd r)) else Some ?s)
      \<bind> (\<lambda>s. memp_free MEMP_FRAG_PBUF p s)"
    let ?release = "if pb_flags s p AND PBUF_FLAG_IS_CUSTOM \<noteq> 0 then ?custom
      else if pb_type s p = PBUF_POOL then memp_free MEMP_PBUF_POOL p ?s
      else if pb_type s p = PBUF_ROM \<or> pb_type s p = PBUF_REF then memp_free MEMP_PBUF p ?s
      else Some (mem_free p ?s)"
    from 3 run have "?release \<bind> (\<lambda>s1. f (n + 1) (pb_next s p) s1) = Some r"
      by (simp add: Let_def split del: if_split)
    then obtain s1 where s1: "?release = Some s1" "f (n + 1) (pb_next s p) s1 = Some r" by (rule bind_eq_Some_conv [THEN iffD1, elim_format]) blast
    have custom: "R ?s s1" if "?custom = Some s1"
    proof -
      from that obtain s2 where s2: "(if custom_original ?s p \<noteq> NULL then f 0 (custom_original ?s p) ?s \<bind> (\<lambda>r. Some (snd r)) else Some ?s) = Some s2"
        "memp_free MEMP_FRAG_PBUF p s2 = Some s1" by (rule bind_eq_Some_conv [THEN iffD1, elim_format]) blast
      have "R ?s s2" using s2(1) IH kept_refl by (auto simp: bind_eq_Some_conv split: if_splits)
      then show ?thesis using memp_free_kept [OF s2(2)] kept_trans by blast
    qed
    have "R ?s s1" using s1(1) custom memp_free_kept mem_free_kept by (auto split: if_splits)
    then show ?thesis using ref IH [OF s1(2)] kept_trans by blast
  qed
qed

lemma pbuf_free_kept: "pbuf_free p s = Some (n, s') \<Longrightarrow> R s s'"
  using pbuf_free_loop_kept [of 0 p s "(n, s')"] kept_refl by (auto simp: pbuf_free_def split: if_splits)

end

interpretation links: release_kept keeps
  by unfold_locales (auto intro: keeps_trans put_ref_keeps memp_free_keeps mem_free_keeps)

lemma pbuf_free_keeps: "pbuf_free p s = Some (n, s') \<Longrightarrow> keeps s s'"
  by (rule links.pbuf_free_kept)

text \<open>The contents of the buffers and their links.\<close>

definition same_data :: "lw \<Rightarrow> lw \<Rightarrow> bool" where
  "same_data s s' \<longleftrightarrow> bytes s' = bytes s \<and> pb_payload s' = pb_payload s \<and> pb_len s' = pb_len s \<and> pb_tot_len s' = pb_tot_len s \<and>
     pb_next s' = pb_next s \<and> pb_type s' = pb_type s \<and> pb_flags s' = pb_flags s \<and> length (memp_tab s') = length (memp_tab s)"

lemma mem_free_contents:
  "bytes (mem_free p s) = bytes s" "pb_payload (mem_free p s) = pb_payload s" "pb_len (mem_free p s) = pb_len s"
  "pb_tot_len (mem_free p s) = pb_tot_len s" "pb_type (mem_free p s) = pb_type s"
  by (simp_all add: mem_free_def plug_holes_def Let_def)

lemma memp_free_same: "memp_free t x s = Some s' \<Longrightarrow> same_data s s'"
  by (auto simp: memp_free_def same_data_def Let_def split: if_splits)

interpretation contents: release_kept same_data
proof unfold_locales
  show "same_data s (mem_free p s)" for s p by (simp add: same_data_def mem_free_fields mem_free_contents)
  show "same_data s s'" if "memp_free t p s = Some s'" for t p s s' using that by (rule memp_free_same)
qed (simp_all add: same_data_def)

lemma copy_loop_bytes: "copy_loop p i q j s = Some r \<Longrightarrow> keeps s (snd r)"
proof (erule copy_loop.raw_induct [where P = "\<lambda>p i q j s r. keeps s (snd r)", rotated], goal_cases step)
  case (step f p i q j s r)
  have m: "keeps s (memcpy a b n s)" for a b n by (simp add: keeps_def memcpy_def)
  have "keeps s (snd r)" if "f p' i' q' j' (memcpy a b n s) = Some r" for p' i' q' j' a b n
    using keeps_trans [OF m step(1) [OF that]] .
  with m show ?case using step(2) unfolding Let_def case_prod_unfold
    by (elim if_SomeE) (auto split del: if_split)
qed

lemma pbuf_copy_keeps: "pbuf_copy p q s = Some (e, s') \<Longrightarrow> keeps s s'"
  using copy_loop_bytes [of p 0 q 0 s "(e, s')"] by (auto simp: pbuf_copy_def split: if_splits)

lemma pbuf_ref_keeps: "keeps s (pbuf_ref p s)"
  by (simp add: pbuf_ref_def keeps_def)

section \<open>Reading what was written\<close>

lemma wr_writes: "writes (region a (length bs)) s (wr a bs s)"
  by (auto simp: writes_def wr_def region_def)

lemma region_sub: "k + n \<le> m \<Longrightarrow> m \<le> 65536 \<Longrightarrow> region (a + of_nat k) n \<subseteq> region a m"
proof
  fix x assume h: "k + n \<le> m" "m \<le> 65536" and x: "x \<in> region (a + of_nat k) n"
  let ?i = "unat (x - (a + of_nat k))"
  have i: "?i < n" using x by (simp add: region_def)
  have "x - a = (x - (a + of_nat k)) + of_nat k" by simp
  also have "\<dots> = of_nat (?i + k)" by simp
  finally have "unat (x - a) = ?i + k" using i h by (simp add: unat_of_nat_u32 del: of_nat_add)
  then show "x \<in> region a m" using i h by (simp add: region_def)
qed

lemma region_behind: "k + n \<le> 65536 \<Longrightarrow> region (a + of_nat k) n \<inter> region a k = {}"
proof (rule equals0I)
  fix x assume h: "k + n \<le> 65536" and x: "x \<in> region (a + of_nat k) n \<inter> region a k"
  let ?i = "unat (x - (a + of_nat k))"
  have i: "?i < n" using x by (simp add: region_def)
  have "x - a = (x - (a + of_nat k)) + of_nat k" by simp
  also have "\<dots> = of_nat (?i + k)" by simp
  finally have "unat (x - a) = ?i + k" using i h by (simp add: unat_of_nat_u32 del: of_nat_add)
  then show False using x by (simp add: region_def)
qed

lemma rd16_bytes: "rd16 b a = ucast (bytes_at b a 2 ! 0) OR push_bit 8 (ucast (bytes_at b a 2 ! 1))"
  by (simp add: rd16_def)

lemma rd16_writes:
  assumes "writes R s s'" "R \<inter> region a 2 = {}"
  shows "rd16 (bytes s') a = rd16 (bytes s) a"
proof -
  have "bytes_at (bytes s') a 2 = bytes_at (bytes s) a 2" by (rule writes_bytes_at [OF assms]) simp
  then show ?thesis by (simp only: rd16_bytes)
qed

lemma rd32_writes:
  assumes w: "writes R s s'" and d: "R \<inter> region a 4 = {}"
  shows "rd32 (bytes s') a = rd32 (bytes s) a"
proof -
  have "region a 2 \<subseteq> region a 4" "region (a + 2) 2 \<subseteq> region a 4"
    using region_sub [of 0 2 4 a] region_sub [of 2 2 4 a] by simp_all
  then have "R \<inter> region a 2 = {}" "R \<inter> region (a + 2) 2 = {}" using d by blast+
  from this [THEN rd16_writes [OF w]] show ?thesis by (simp add: rd32_def)
qed

lemma rd16_wr16: "rd16 (bytes (wr16 a v s)) a = v"
  by (simp add: rd16_def wr16_def wr_def bit_eq_iff bit_simps) (auto simp: bit_simps dest: bit_imp_le_length)

lemma rd32_wr32: "rd32 (bytes (wr32 a v s)) a = v"
proof (rule bit_word_eqI)
  fix n assume "n < LENGTH(32)"
  then consider "n < 8" | "8 \<le> n" "n < 16" | "16 \<le> n" "n < 24" | "24 \<le> n" "n < 32" by force
  then show "bit (rd32 (bytes (wr32 a v s)) a) n = bit v n"
    by cases (auto simp: rd32_def rd16_def wr32_def wr_def addr_octets_def bit_simps)
qed

section \<open>Headers in front of the data\<close>

lemma drop_bytes_at: "k \<le> n \<Longrightarrow> drop k (bytes_at b a n) = bytes_at b (a + of_nat k) (n - k)"
  by (rule nth_equalityI) (simp_all add: add.assoc)

text \<open>A chain with another payload, length and total length in its first buffer.\<close>

lemma pchain_first:
  assumes ps: "pchain s r (r # qs)" and t: "unat t = length (bytes_at (bytes s) a (unat l) @ cdata s qs)"
  defines "s' \<equiv> s\<lparr>pb_payload := (pb_payload s)(r := a), pb_len := (pb_len s)(r := l), pb_tot_len := (pb_tot_len s)(r := t)\<rparr>"
  shows "pchain s' r (r # qs)" "cdata s' (r # qs) = bytes_at (bytes s) a (unat l) @ cdata s qs"
proof -
  have r: "r \<notin> set qs" using ps chain_distinct [of "pb_next s" r "r # qs"] by (auto simp: pchain_def)
  have d: "pdata s' r = bytes_at (bytes s) a (unat l)" by (simp add: pdata_def s'_def)
  have e: "pdata s' q = pdata s q" if "q \<noteq> r" for q using that by (simp add: pdata_def s'_def)
  have dq: "cdata s' qs = cdata s qs" by (rule cdata_cong, rule e) (use r in auto)
  show c: "cdata s' (r # qs) = bytes_at (bytes s) a (unat l) @ cdata s qs" using d dq by simp
  have "tot_ok s' qs = tot_ok s qs" by (rule tot_ok_cong, rule conjI [OF _ e]) (use r in \<open>auto simp: s'_def\<close>)
  then have "tot_ok s' (r # qs)" using ps c t by (simp add: pchain_def s'_def)
  then show "pchain s' r (r # qs)" using ps by (simp add: pchain_def s'_def)
qed

lemma sint_small:
  assumes "unat (k :: u16) < 32768"
  shows "sint k = uint k" "(scast k :: u32) = ucast k"
proof -
  have "uint k < 32768" using assms by (metis of_nat_less_iff of_nat_numeral uint_nat)
  then show "sint k = uint k" unfolding sint_uint by (intro signed_take_bit_int_eq_self) (simp_all add: order_trans [OF _ unsigned_greater_eq])
  then show "(scast k :: u32) = ucast k" by (simp add: scast_eq)
qed

lemma pbuf_header_hide:
  fixes k :: u16
  assumes ps: "pchain s r (r # qs)" and k: "k \<le> pb_len s r" "unat k < 32768" and ok: "fst (pbuf_header r (- k) s) = 0"
  defines "s' \<equiv> snd (pbuf_header r (- k) s)"
  shows "s' = s\<lparr>pb_payload := (pb_payload s)(r := pb_payload s r + ucast k), pb_len := (pb_len s)(r := pb_len s r - k),
      pb_tot_len := (pb_tot_len s)(r := pb_tot_len s r - k)\<rparr>"
    "pchain s' r (r # qs)" "cdata s' (r # qs) = drop (unat k) (cdata s (r # qs))"
proof -
  have r: "r \<noteq> NULL" using ps by (auto simp: pchain_def)
  show eq: "s' = s\<lparr>pb_payload := (pb_payload s)(r := pb_payload s r + ucast k), pb_len := (pb_len s)(r := pb_len s r - k),
      pb_tot_len := (pb_tot_len s)(r := pb_tot_len s r - k)\<rparr>"
  proof (cases "k = 0")
    case False
    then have u: "0 < unat k" by (simp add: unat_gt_0)
    note si = sint_small [OF k(2)]
    have "0 < uint k" using u by (metis of_nat_0_less_iff uint_nat)
    then have "0 < sint k" unfolding si .
    then have "sint k \<noteq> -32768" by linarith
    note sm = sint_minus_u16 [OF this]
    have n: "sint (- k) < 0" "scast (- k) = (- ucast k :: u32)" unfolding sm si(2) using \<open>0 < sint k\<close> by simp_all
    show ?thesis using ok r k(1) False n unfolding s'_def pbuf_header_def by (auto simp: Let_def split: if_splits)
  qed (simp add: s'_def pbuf_header_def)
  have n: "unat k \<le> unat (pb_len s r)" "unat (pb_len s r - k) = unat (pb_len s r) - unat k"
    using k(1) unat_diff_u16 [OF k(1)] by (simp_all add: word_le_nat_alt)
  have t: "unat (pb_tot_len s r) = length (cdata s (r # qs))" using ps by (simp add: pchain_def)
  have d: "drop (unat k) (cdata s (r # qs)) = bytes_at (bytes s) (pb_payload s r + ucast k) (unat (pb_len s r - k)) @ cdata s qs"
    using drop_bytes_at [OF n(1), of "bytes s" "pb_payload s r"] n by (simp add: pdata_def)
  have "k \<le> pb_tot_len s r" using t n(1) by (simp add: word_le_nat_alt)
  then have "unat (pb_tot_len s r - k) = length (drop (unat k) (cdata s (r # qs)))" using unat_diff_u16 [of k "pb_tot_len s r"] t by simp
  from pchain_first [OF ps this [unfolded d]] show "pchain s' r (r # qs)" "cdata s' (r # qs) = drop (unat k) (cdata s (r # qs))"
    unfolding eq d by simp_all
qed

lemma pbuf_header_show:
  fixes k :: u16
  assumes ps: "pchain s r (r # qs)" and k: "unat k < 32768" "length (cdata s (r # qs)) + unat k < 65536" and ok: "fst (pbuf_header r k s) = 0"
  defines "s' \<equiv> snd (pbuf_header r k s)"
  shows "s' = s\<lparr>pb_payload := (pb_payload s)(r := pb_payload s r - ucast k), pb_len := (pb_len s)(r := pb_len s r + k),
      pb_tot_len := (pb_tot_len s)(r := pb_tot_len s r + k)\<rparr>"
    "pchain s' r (r # qs)" "cdata s' (r # qs) = bytes_at (bytes s) (pb_payload s r - ucast k) (unat k) @ cdata s (r # qs)"
proof -
  have r: "r \<noteq> NULL" using ps by (auto simp: pchain_def)
  show eq: "s' = s\<lparr>pb_payload := (pb_payload s)(r := pb_payload s r - ucast k), pb_len := (pb_len s)(r := pb_len s r + k),
      pb_tot_len := (pb_tot_len s)(r := pb_tot_len s r + k)\<rparr>"
  proof (cases "k = 0")
    case False
    note si = sint_small [OF k(1)]
    have n: "\<not> sint k < 0" "scast k = (ucast k :: u32)" unfolding si by (simp_all add: not_less)
    show ?thesis using ok r False unfolding s'_def pbuf_header_def n(2) by (auto simp: n(1) Let_def split: if_splits)
  qed (simp add: s'_def pbuf_header_def)
  have t: "unat (pb_tot_len s r) = length (cdata s (r # qs))" using ps by (simp add: pchain_def)
  have b: "unat (pb_len s r) + unat k < 2 ^ LENGTH(16)" using k(2) by simp
  have l: "unat (pb_len s r + k) = unat k + unat (pb_len s r)" unfolding unat_word_ariths mod_less [OF b] by (rule add.commute)
  have d: "bytes_at (bytes s) (pb_payload s r - ucast k) (unat k) @ cdata s (r # qs) =
      bytes_at (bytes s) (pb_payload s r - ucast k) (unat (pb_len s r + k)) @ cdata s qs"
    unfolding l bytes_at_append by (simp add: pdata_def)
  have "unat (pb_tot_len s r + k) = length (bytes_at (bytes s) (pb_payload s r - ucast k) (unat (pb_len s r + k)) @ cdata s qs)"
    unfolding d [symmetric] using t k(2) by (simp add: unat_word_ariths)
  from pchain_first [OF ps this] show "pchain s' r (r # qs)"
    "cdata s' (r # qs) = bytes_at (bytes s) (pb_payload s r - ucast k) (unat k) @ cdata s (r # qs)" unfolding eq d by simp_all
qed


end
