(* ===== verification/LW_Arp.thy ===== *)
theory LW_Arp
  imports LW_Packet
begin

text \<open>
  The address resolution protocol: \<open>etharp.c\<close>, in the configuration with a table of ten
  entries, one queued packet per entry (\<open>ARP_QUEUEING\<close> is 0), no static entries, no VLAN tags
  and no padding of the Ethernet header. The driver function \<open>linkoutput\<close> of the interface, the
  IP layer and the DHCP client are parameters. A packet that is handed to the driver is kept in
  \<open>sent\<close> with the bytes of its first buffer.
\<close>

section \<open>State\<close>

abbreviation (input) ARP_TABLE_SIZE :: nat where "ARP_TABLE_SIZE \<equiv> 10"
abbreviation (input) ARP_MAXAGE :: u8 where "ARP_MAXAGE \<equiv> 240"
abbreviation (input) ARP_MAXPENDING :: u8 where "ARP_MAXPENDING \<equiv> 2"
abbreviation (input) ETHARP_FLAG_TRY_HARD :: u8 where "ETHARP_FLAG_TRY_HARD \<equiv> 1"
abbreviation (input) ETHARP_FLAG_FIND_ONLY :: u8 where "ETHARP_FLAG_FIND_ONLY \<equiv> 2"
abbreviation (input) NETIF_FLAG_ETHARP :: u8 where "NETIF_FLAG_ETHARP \<equiv> 0x20"

datatype etharp_state = ETHARP_STATE_EMPTY | ETHARP_STATE_PENDING | ETHARP_STATE_STABLE

record etharp_entry =
  e_q :: ptr
  e_ipaddr :: u32
  e_ethaddr :: "u8 list"
  e_state :: etharp_state
  e_ctime :: u8

record arp =
  lws :: lw
  arp_table :: "etharp_entry list"
  etharp_cached_entry :: nat
  sent :: "(ptr \<times> u8 list) list"

definition ethbroadcast :: "u8 list" where
  "ethbroadcast = replicate 6 0xff"

definition ethzero :: "u8 list" where
  "ethzero = replicate 6 0"

text \<open>Assignment to a field of an entry, with the function that changes the entry.\<close>

definition upd_entry :: "nat \<Rightarrow> (etharp_entry \<Rightarrow> etharp_entry) \<Rightarrow> arp \<Rightarrow> arp" where
  "upd_entry i f a = a\<lparr>arp_table := (arp_table a)[i := f (arp_table a ! i)]\<rparr>"

section \<open>The table\<close>

definition free_entry :: "nat \<Rightarrow> arp \<Rightarrow> arp option" where
  "free_entry i a = do {
     a \<leftarrow> (if e_q (arp_table a ! i) \<noteq> NULL then do {
             (_, m) \<leftarrow> pbuf_free (e_q (arp_table a ! i)) (lws a);
             Some (upd_entry i (e_q_update (\<lambda>_. NULL)) (a\<lparr>lws := m\<rparr>)) }
           else Some a);
     Some (upd_entry i (e_state_update (\<lambda>_. ETHARP_STATE_EMPTY)) a) }"

text \<open>The body of the loop of \<open>etharp_tmr\<close>, and the loop over the entries \<open>is\<close>.\<close>

definition tmr_entry :: "nat \<Rightarrow> arp \<Rightarrow> arp option" where
  "tmr_entry i a =
     (if e_state (arp_table a ! i) \<noteq> ETHARP_STATE_EMPTY then
        let a = upd_entry i (\<lambda>e. e\<lparr>e_ctime := e_ctime e + 1\<rparr>) a in
        if e_ctime (arp_table a ! i) \<ge> ARP_MAXAGE \<or>
           e_state (arp_table a ! i) = ETHARP_STATE_PENDING \<and> e_ctime (arp_table a ! i) \<ge> ARP_MAXPENDING
        then free_entry i a else Some a
      else Some a)"

fun tmr_loop :: "nat list \<Rightarrow> arp \<Rightarrow> arp option" where
  "tmr_loop [] a = Some a"
| "tmr_loop (i # is) a = tmr_entry i a \<bind> tmr_loop is"

definition etharp_tmr :: "arp \<Rightarrow> arp option" where
  "etharp_tmr a = tmr_loop [0..<ARP_TABLE_SIZE] a"

text \<open>
  The candidates that the search remembers; the index \<open>ARP_TABLE_SIZE\<close> stands for none.
\<close>

record cand =
  empty :: nat
  old_pending :: nat
  old_stable :: nat
  old_queue :: nat
  age_pending :: u8
  age_stable :: u8
  age_queue :: u8

text \<open>The search; the result is the matching index, or the candidates when there is none.\<close>

fun find_loop :: "u32 option \<Rightarrow> etharp_entry list \<Rightarrow> nat \<Rightarrow> cand \<Rightarrow> nat + cand" where
  "find_loop ipaddr [] i c = Inr c"
| "find_loop ipaddr (e # es) i c =
     (if empty c = ARP_TABLE_SIZE \<and> e_state e = ETHARP_STATE_EMPTY then find_loop ipaddr es (Suc i) (c\<lparr>empty := i\<rparr>)
      else if e_state e \<noteq> ETHARP_STATE_EMPTY then
        if ipaddr = Some (e_ipaddr e) then Inl i
        else
          let c = (if e_state e = ETHARP_STATE_PENDING then
                     if e_q e \<noteq> NULL then
                       if e_ctime e \<ge> age_queue c then c\<lparr>old_queue := i, age_queue := e_ctime e\<rparr> else c
                     else if e_ctime e \<ge> age_pending c then c\<lparr>old_pending := i, age_pending := e_ctime e\<rparr> else c
                   else if e_state e = ETHARP_STATE_STABLE then
                     if e_ctime e \<ge> age_stable c then c\<lparr>old_stable := i, age_stable := e_ctime e\<rparr> else c
                   else c)
          in find_loop ipaddr es (Suc i) c
      else find_loop ipaddr es (Suc i) c)"

definition cand0 :: cand where
  "cand0 = \<lparr>empty = ARP_TABLE_SIZE, old_pending = ARP_TABLE_SIZE, old_stable = ARP_TABLE_SIZE, old_queue = ARP_TABLE_SIZE,
     age_pending = 0, age_stable = 0, age_queue = 0\<rparr>"

text \<open>The new entry at an empty index: its address and age.\<close>

definition new_entry :: "u32 option \<Rightarrow> nat \<Rightarrow> arp \<Rightarrow> arp" where
  "new_entry ipaddr i a =
     (let a = (case ipaddr of Some ip \<Rightarrow> upd_entry i (e_ipaddr_update (\<lambda>_. ip)) a | None \<Rightarrow> a)
      in upd_entry i (e_ctime_update (\<lambda>_. 0)) a)"

definition find_entry :: "u32 option \<Rightarrow> u8 \<Rightarrow> arp \<Rightarrow> (int \<times> arp) option" where
  "find_entry ipaddr flags a =
     (case find_loop ipaddr (arp_table a) 0 cand0 of
        Inl i \<Rightarrow> Some (int i, a)
      | Inr c \<Rightarrow>
          if flags AND ETHARP_FLAG_FIND_ONLY \<noteq> 0 \<or> empty c = ARP_TABLE_SIZE \<and> flags AND ETHARP_FLAG_TRY_HARD = 0
          then Some (ERR_MEM, a)
          else if empty c < ARP_TABLE_SIZE then Some (int (empty c), new_entry ipaddr (empty c) a)
          else
            let i = (if old_stable c < ARP_TABLE_SIZE then old_stable c
                     else if old_pending c < ARP_TABLE_SIZE then old_pending c
                     else old_queue c)
            in if i < ARP_TABLE_SIZE then free_entry i a \<bind> (\<lambda>a. Some (int i, new_entry ipaddr i a))
               else Some (ERR_MEM, a))"

section \<open>Sending\<close>

type_synonym link = "netif \<Rightarrow> ptr \<Rightarrow> lw \<Rightarrow> int \<times> lw"

definition linkoutput :: "link \<Rightarrow> netif \<Rightarrow> ptr \<Rightarrow> arp \<Rightarrow> int \<times> arp" where
  "linkoutput link nif p a =
     (case link nif p (lws a) of (r, m) \<Rightarrow> (r, a\<lparr>lws := m, sent := sent a @ [(p, pdata (lws a) p)]\<rparr>))"

text \<open>The fields of \<open>struct eth_hdr\<close>: \<open>dest\<close> at 0, \<open>src\<close> at 6, \<open>type\<close> at 12.\<close>

definition etharp_send_ip :: "link \<Rightarrow> netif \<Rightarrow> ptr \<Rightarrow> u8 list \<Rightarrow> u8 list \<Rightarrow> arp \<Rightarrow> int \<times> arp" where
  "etharp_send_ip link nif p src dst a =
     (let ethhdr = pb_payload (lws a) p;
          m = wr ethhdr dst (lws a);
          m = wr (ethhdr + 6) src m;
          m = wr16 (ethhdr + 12) (lwip_htons 0x0800) m
      in linkoutput link nif p (a\<lparr>lws := m\<rparr>))"

text \<open>
  The fields of \<open>struct etharp_hdr\<close>, which begins behind the Ethernet header: \<open>hwtype\<close> at 14,
  \<open>proto\<close> at 16, \<open>hwlen\<close> at 18, \<open>protolen\<close> at 19, \<open>opcode\<close> at 20, \<open>shwaddr\<close> at 22, \<open>sipaddr\<close> at 28,
  \<open>dhwaddr\<close> at 32, \<open>dipaddr\<close> at 38.
\<close>

definition etharp_raw ::
  "link \<Rightarrow> netif \<Rightarrow> u8 list \<Rightarrow> u8 list \<Rightarrow> u8 list \<Rightarrow> u32 \<Rightarrow> u8 list \<Rightarrow> u32 \<Rightarrow> u16 \<Rightarrow> arp \<Rightarrow> (int \<times> arp) option" where
  "etharp_raw link nif ethsrc_addr ethdst_addr hwsrc_addr ipsrc_addr hwdst_addr ipdst_addr opcode a = do {
     (p, m) \<leftarrow> pbuf_alloc PBUF_RAW 42 PBUF_RAM (lws a);
     if p = NULL then Some (ERR_MEM, a\<lparr>lws := m\<rparr>)
     else do {
       let e = pb_payload m p;
       let m = wr16 (e + 20) (lwip_htons opcode) m;
       let m = wr (e + 22) hwsrc_addr m;
       let m = wr (e + 32) hwdst_addr m;
       let m = wr e ethdst_addr m;
       let m = wr (e + 6) ethsrc_addr m;
       let m = wr32 (e + 28) ipsrc_addr m;
       let m = wr32 (e + 38) ipdst_addr m;
       let m = wr16 (e + 14) (lwip_htons 1) m;
       let m = wr16 (e + 16) (lwip_htons 0x0800) m;
       let m = wr (e + 18) [6] m;
       let m = wr (e + 19) [4] m;
       let m = wr16 (e + 12) (lwip_htons 0x0806) m;
       let (result, a) = linkoutput link nif p (a\<lparr>lws := m\<rparr>);
       (_, m) \<leftarrow> pbuf_free p (lws a);
       Some (result, a\<lparr>lws := m\<rparr>) } }"

definition etharp_request :: "link \<Rightarrow> netif \<Rightarrow> u32 \<Rightarrow> arp \<Rightarrow> (int \<times> arp) option" where
  "etharp_request link nif ipaddr a =
     etharp_raw link nif (hwaddr nif) ethbroadcast (hwaddr nif) (ip_addr nif) ethzero ipaddr 1 a"

section \<open>Updates and look-ups\<close>

text \<open>The entry \<open>i\<close> becomes stable, and a packet that waits for the address is sent.\<close>

definition learn_entry :: "link \<Rightarrow> netif \<Rightarrow> nat \<Rightarrow> u8 list \<Rightarrow> arp \<Rightarrow> (int \<times> arp) option" where
  "learn_entry link nif i ethaddr a = do {
     let a = upd_entry i (e_state_update (\<lambda>_. ETHARP_STATE_STABLE)) a;
     let a = upd_entry i (e_ethaddr_update (\<lambda>_. ethaddr)) a;
     let a = upd_entry i (e_ctime_update (\<lambda>_. 0)) a;
     if e_q (arp_table a ! i) \<noteq> NULL then do {
       let p = e_q (arp_table a ! i);
       let a = upd_entry i (e_q_update (\<lambda>_. NULL)) a;
       let (_, a) = etharp_send_ip link nif p (hwaddr nif) ethaddr a;
       (_, m) \<leftarrow> pbuf_free p (lws a);
       Some (ERR_OK, a\<lparr>lws := m\<rparr>) }
     else Some (ERR_OK, a) }"

definition update_arp_entry :: "link \<Rightarrow> netif \<Rightarrow> u32 \<Rightarrow> u8 list \<Rightarrow> u8 \<Rightarrow> arp \<Rightarrow> (int \<times> arp) option" where
  "update_arp_entry link nif ipaddr ethaddr flags a =
     (if ip_addr_isany ipaddr \<or> ip4_addr_isbroadcast ipaddr nif \<noteq> 0 \<or> ip_addr_ismulticast ipaddr then Some (ERR_ARG, a)
      else do {
        (i, a) \<leftarrow> find_entry (Some ipaddr) flags a;
        if i < 0 then Some (i, a) else learn_entry link nif (nat i) ethaddr a })"

text \<open>The index of the stable entry, with the Ethernet and the IP address it holds.\<close>

definition etharp_find_addr :: "u32 \<Rightarrow> arp \<Rightarrow> ((int \<times> u8 list \<times> u32) option \<times> arp) option" where
  "etharp_find_addr ipaddr a = do {
     (i, a) \<leftarrow> find_entry (Some ipaddr) ETHARP_FLAG_FIND_ONLY a;
     if i \<ge> 0 \<and> e_state (arp_table a ! nat i) = ETHARP_STATE_STABLE
     then Some (Some (i, e_ethaddr (arp_table a ! nat i), e_ipaddr (arp_table a ! nat i)), a)
     else Some (None, a) }"

text \<open>The first buffer of a chain that is not read-only memory.\<close>

partial_function (option) copy_needed_loop :: "lw \<Rightarrow> ptr \<Rightarrow> ptr option" where
  "copy_needed_loop s p = (if p \<noteq> NULL then if pb_type s p \<noteq> PBUF_ROM then Some p else copy_needed_loop s (pb_next s p) else Some NULL)"

text \<open>The packet that is queued for \<open>q\<close>: a copy, or the packet itself with one more reference.\<close>

definition take_over :: "ptr \<Rightarrow> lw \<Rightarrow> (ptr \<times> lw) option" where
  "take_over q m = do {
     p \<leftarrow> copy_needed_loop m q;
     if p \<noteq> NULL then do {
       (p, m) \<leftarrow> pbuf_alloc PBUF_RAW (pb_tot_len m p) PBUF_RAM m;
       if p \<noteq> NULL then do {
         (e, m) \<leftarrow> pbuf_copy p q m;
         if e \<noteq> ERR_OK then do { (_, m) \<leftarrow> pbuf_free p m; Some (NULL, m) } else Some (p, m) }
       else Some (NULL, m) }
     else Some (q, pbuf_ref q m) }"

definition queue_packet :: "nat \<Rightarrow> ptr \<Rightarrow> arp \<Rightarrow> (int \<times> arp) option" where
  "queue_packet i q a = do {
     (p, m) \<leftarrow> take_over q (lws a);
     let a = a\<lparr>lws := m\<rparr>;
     if p \<noteq> NULL then do {
       m \<leftarrow> (if e_q (arp_table a ! i) \<noteq> NULL
              then pbuf_free (e_q (arp_table a ! i)) (lws a) \<bind> (\<lambda>(_, m). Some m) else Some (lws a));
       Some (ERR_OK, upd_entry i (e_q_update (\<lambda>_. p)) (a\<lparr>lws := m\<rparr>)) }
     else Some (ERR_MEM, a) }"

definition etharp_query :: "link \<Rightarrow> netif \<Rightarrow> u32 \<Rightarrow> ptr \<Rightarrow> arp \<Rightarrow> (int \<times> arp) option" where
  "etharp_query link nif ipaddr q a =
     (if ip4_addr_isbroadcast ipaddr nif \<noteq> 0 \<or> ip_addr_ismulticast ipaddr \<or> ip_addr_isany ipaddr then Some (ERR_ARG, a)
      else do {
        (i, a) \<leftarrow> find_entry (Some ipaddr) ETHARP_FLAG_TRY_HARD a;
        if i < 0 then Some (i, a)
        else do {
          let i = nat i;
          let a = (if e_state (arp_table a ! i) = ETHARP_STATE_EMPTY
                   then upd_entry i (e_state_update (\<lambda>_. ETHARP_STATE_PENDING)) a else a);
          (result, a) \<leftarrow> (if e_state (arp_table a ! i) = ETHARP_STATE_PENDING \<or> q = NULL
                          then etharp_request link nif ipaddr a else Some (ERR_MEM, a));
          if q = NULL then Some (result, a)
          else if e_state (arp_table a ! i) = ETHARP_STATE_STABLE then
            Some (etharp_send_ip link nif q (hwaddr nif) (e_ethaddr (arp_table a ! i)) (a\<lparr>etharp_cached_entry := i\<rparr>))
          else if e_state (arp_table a ! i) = ETHARP_STATE_PENDING then queue_packet i q a
          else Some (result, a) } })"

text \<open>The Ethernet address of a multicast group.\<close>

definition mcast_ethaddr :: "u32 \<Rightarrow> u8 list" where
  "mcast_ethaddr ipaddr =
     [0x01, 0x00, 0x5e, addr_octets ipaddr ! 1 AND 0x7f, addr_octets ipaddr ! 2, addr_octets ipaddr ! 3]"

definition etharp_output :: "link \<Rightarrow> netif \<Rightarrow> ptr \<Rightarrow> u32 \<Rightarrow> arp \<Rightarrow> (int \<times> arp) option" where
  "etharp_output link nif q ipaddr a =
     (case pbuf_header q 14 (lws a) of (r, m) \<Rightarrow>
        let a = a\<lparr>lws := m\<rparr> in
        if r \<noteq> 0 then Some (ERR_BUF, a)
        else if ip4_addr_isbroadcast ipaddr nif \<noteq> 0 then Some (etharp_send_ip link nif q (hwaddr nif) ethbroadcast a)
        else if ip_addr_ismulticast ipaddr then Some (etharp_send_ip link nif q (hwaddr nif) (mcast_ethaddr ipaddr) a)
        else
          let outside = \<not> ip_addr_netcmp ipaddr (ip_addr nif) (netmask nif) \<and> \<not> ip_addr_islinklocal ipaddr in
          if outside \<and> ip_addr_isany (gw nif) then Some (ERR_RTE, a)
          else
            let ipaddr = (if outside then gw nif else ipaddr);
                e = arp_table a ! etharp_cached_entry a in
            if e_state e = ETHARP_STATE_STABLE \<and> ipaddr = e_ipaddr e
            then Some (etharp_send_ip link nif q (hwaddr nif) (e_ethaddr e) a)
            else etharp_query link nif ipaddr q a)"

section \<open>Received frames\<close>

text \<open>The reply to a request: the packet is turned around in its buffer.\<close>

definition arp_reply :: "link \<Rightarrow> netif \<Rightarrow> u8 list \<Rightarrow> ptr \<Rightarrow> arp \<Rightarrow> arp" where
  "arp_reply link nif ethaddr p a =
     (let e = pb_payload (lws a) p;
          m = wr16 (e + 20) (lwip_htons 2) (lws a);
          m = wr (e + 38) (bytes_at (bytes m) (e + 28) 4) m;
          m = wr32 (e + 28) (ip_addr nif) m;
          m = wr (e + 32) (bytes_at (bytes m) (e + 22) 6) m;
          m = wr e (bytes_at (bytes m) (e + 22) 6) m;
          m = wr (e + 22) ethaddr m;
          m = wr (e + 6) ethaddr m
      in snd (linkoutput link nif p (a\<lparr>lws := m\<rparr>)))"

definition etharp_arp_input ::
  "(u32 \<Rightarrow> arp \<Rightarrow> arp option) \<Rightarrow> link \<Rightarrow> netif \<Rightarrow> u8 list \<Rightarrow> ptr \<Rightarrow> arp \<Rightarrow> arp option" where
  "etharp_arp_input dhcp_arp_reply link nif ethaddr p a =
     (let drop = (\<lambda>a. pbuf_free p (lws a) \<bind> (\<lambda>(_, m). Some (a\<lparr>lws := m\<rparr>)));
          e = pb_payload (lws a) p;
          b = bytes (lws a) in
      if pb_len (lws a) p < 42 then drop a
      else if rd16 b (e + 14) \<noteq> lwip_htons 1 \<or> b (e + 18) \<noteq> 6 \<or> b (e + 19) \<noteq> 4 \<or> rd16 b (e + 16) \<noteq> lwip_htons 0x0800 then drop a
      else
        let sipaddr = rd32 b (e + 28);
            dipaddr = rd32 b (e + 38);
            for_us = (\<not> ip_addr_isany (ip_addr nif) \<and> dipaddr = ip_addr nif) in
        update_arp_entry link nif sipaddr (bytes_at b (e + 22) 6)
          (if for_us then ETHARP_FLAG_TRY_HARD else ETHARP_FLAG_FIND_ONLY) a \<bind> (\<lambda>(_, a).
        (if rd16 (bytes (lws a)) (e + 20) = lwip_htons 1 then
           Some (if for_us then arp_reply link nif ethaddr p a else a)
         else if rd16 (bytes (lws a)) (e + 20) = lwip_htons 2 then dhcp_arp_reply sipaddr a
         else Some a) \<bind> drop))"

text \<open>\<open>ip_input\<close> takes the packet and the interface, and is responsible for the packet.\<close>

definition ethernet_input ::
  "(u32 \<Rightarrow> arp \<Rightarrow> arp option) \<Rightarrow> (ptr \<Rightarrow> netif \<Rightarrow> arp \<Rightarrow> arp option) \<Rightarrow> link \<Rightarrow> ptr \<Rightarrow> netif \<Rightarrow> arp \<Rightarrow> (int \<times> arp) option" where
  "ethernet_input dhcp_arp_reply ip_input link p nif a =
     (let free_and_return = (\<lambda>a. pbuf_free p (lws a) \<bind> (\<lambda>(_, m). Some (ERR_OK, a\<lparr>lws := m\<rparr>)));
          type = rd16 (bytes (lws a)) (pb_payload (lws a) p + 12) in
      if pb_len (lws a) p \<le> 14 then free_and_return a
      else if type = lwip_htons 0x0800 then
        if netif_flags nif AND NETIF_FLAG_ETHARP = 0 then free_and_return a
        else case pbuf_header p (- 14) (lws a) of (r, m) \<Rightarrow>
          if r \<noteq> 0 then free_and_return (a\<lparr>lws := m\<rparr>)
          else ip_input p nif (a\<lparr>lws := m\<rparr>) \<bind> (\<lambda>a. Some (ERR_OK, a))
      else if type = lwip_htons 0x0806 then
        if netif_flags nif AND NETIF_FLAG_ETHARP = 0 then free_and_return a
        else etharp_arp_input dhcp_arp_reply link nif (hwaddr nif) p a \<bind> (\<lambda>a. Some (ERR_OK, a))
      else free_and_return a)"


section \<open>The driver\<close>

text \<open>The driver keeps the links of the buffers that it is not given.\<close>

definition link_ok :: "link \<Rightarrow> bool" where
  "link_ok link \<longleftrightarrow> (\<forall>nif p m. keeps m (snd (link nif p m)))"

lemma linkoutput_eq:
  assumes "link_ok link"
  shows "\<exists>r m. linkoutput link nif p a = (r, a\<lparr>lws := m, sent := sent a @ [(p, pdata (lws a) p)]\<rparr>) \<and> keeps (lws a) m"
  using assms unfolding link_ok_def linkoutput_def by (cases "link nif p (lws a)") (metis case_prod_conv snd_conv)

lemma send_ip_eq:
  assumes "link_ok link"
  shows "\<exists>r m d. etharp_send_ip link nif p src dst a = (r, a\<lparr>lws := m, sent := sent a @ [(p, d)]\<rparr>) \<and> keeps (lws a) m"
proof -
  let ?e = "pb_payload (lws a) p"
  let ?m = "wr16 (?e + 12) (lwip_htons 0x0800) (wr (?e + 6) src (wr ?e dst (lws a)))"
  have "keeps (lws a) ?m" by (meson keeps_trans wr_keeps)
  then show ?thesis using linkoutput_eq [OF assms, of nif p "a\<lparr>lws := ?m\<rparr>"] keeps_trans
    by (fastforce simp: etharp_send_ip_def Let_def)
qed

section \<open>The search\<close>

definition matches :: "u32 option \<Rightarrow> etharp_entry \<Rightarrow> bool" where
  "matches ip e \<longleftrightarrow> e_state e \<noteq> ETHARP_STATE_EMPTY \<and> ip = Some (e_ipaddr e)"

lemma find_loop_Inl:
  "find_loop ip es i c = Inl j \<Longrightarrow> \<exists>k<length es. j = i + k \<and> matches ip (es ! k)"
proof (induction ip es i c rule: find_loop.induct)
  case (2 ip e es i c)
  show ?case
  proof (cases "matches ip e")
    case True
    then show ?thesis using 2(4) by (intro exI [of _ 0]) (auto simp: matches_def)
  next
    case False
    with 2 obtain k where "k < length es" "j = Suc i + k" "matches ip (es ! k)"
      by (auto simp: matches_def Let_def split: if_splits)
    then show ?thesis by (intro exI [of _ "Suc k"]) auto
  qed
qed simp

lemma find_loop_Inr: "find_loop ip es i c = Inr c' \<Longrightarrow> e \<in> set es \<Longrightarrow> \<not> matches ip e"
proof (induction ip es i c rule: find_loop.induct)
  case (2 ip x es i c)
  then show ?case by (auto simp: matches_def Let_def split: if_splits)
qed simp

text \<open>The oldest of the entries of a kind among the first \<open>n\<close>; \<open>ARP_TABLE_SIZE\<close> if there is none.\<close>

definition oldest :: "(etharp_entry \<Rightarrow> bool) \<Rightarrow> etharp_entry list \<Rightarrow> nat \<Rightarrow> nat \<Rightarrow> u8 \<Rightarrow> bool" where
  "oldest P T n i age \<longleftrightarrow>
     (if \<exists>j<n. P (T ! j) then i < n \<and> P (T ! i) \<and> age = e_ctime (T ! i) \<and> (\<forall>j<n. P (T ! j) \<longrightarrow> e_ctime (T ! j) \<le> age)
      else i = ARP_TABLE_SIZE \<and> age = 0)"

definition kind_empty :: "etharp_entry \<Rightarrow> bool" where
  "kind_empty e \<longleftrightarrow> e_state e = ETHARP_STATE_EMPTY"

definition kind_stable :: "etharp_entry \<Rightarrow> bool" where
  "kind_stable e \<longleftrightarrow> e_state e = ETHARP_STATE_STABLE"

definition kind_pending :: "etharp_entry \<Rightarrow> bool" where
  "kind_pending e \<longleftrightarrow> e_state e = ETHARP_STATE_PENDING \<and> e_q e = NULL"

definition kind_queue :: "etharp_entry \<Rightarrow> bool" where
  "kind_queue e \<longleftrightarrow> e_state e = ETHARP_STATE_PENDING \<and> e_q e \<noteq> NULL"

definition first_empty :: "etharp_entry list \<Rightarrow> nat \<Rightarrow> nat \<Rightarrow> bool" where
  "first_empty T n i \<longleftrightarrow>
     (if \<exists>j<n. kind_empty (T ! j) then i < n \<and> kind_empty (T ! i) else i = ARP_TABLE_SIZE)"

definition cand_ok :: "etharp_entry list \<Rightarrow> nat \<Rightarrow> cand \<Rightarrow> bool" where
  "cand_ok T n c \<longleftrightarrow> first_empty T n (empty c) \<and>
     oldest kind_stable T n (old_stable c) (age_stable c) \<and> oldest kind_pending T n (old_pending c) (age_pending c) \<and>
     oldest kind_queue T n (old_queue c) (age_queue c)"

lemma first_skip: "\<not> kind_empty (T ! n) \<Longrightarrow> first_empty T n i \<Longrightarrow> first_empty T (Suc n) i"
  by (auto simp: first_empty_def less_Suc_eq split: if_splits)

lemma oldest_skip: "\<not> P (T ! n) \<Longrightarrow> oldest P T n i age \<Longrightarrow> oldest P T (Suc n) i age"
  by (auto simp: oldest_def less_Suc_eq split: if_splits)

lemma oldest_keep: "\<not> age \<le> e_ctime (T ! n) \<Longrightarrow> oldest P T n i age \<Longrightarrow> oldest P T (Suc n) i age"
  by (auto simp: oldest_def less_Suc_eq not_le split: if_splits intro: less_imp_le)

lemma oldest_take: "P (T ! n) \<Longrightarrow> age \<le> e_ctime (T ! n) \<Longrightarrow> oldest P T n i age \<Longrightarrow> oldest P T (Suc n) n (e_ctime (T ! n))"
  by (auto simp: oldest_def less_Suc_eq split: if_splits intro: order_trans)

lemma drop_eq_Cons: "e # es = drop n T \<Longrightarrow> n < length T \<and> T ! n = e \<and> es = drop (Suc n) T"
  by (metis Cons_nth_drop_Suc drop_all list.inject list.simps(3) not_le)

lemma cand_step:
  assumes ok: "cand_ok T n c" and ip: "\<not> matches ip (T ! n)" and n: "n < ARP_TABLE_SIZE"
  shows "\<exists>c'. find_loop ip (T ! n # es) n c = find_loop ip es (Suc n) c' \<and> cand_ok T (Suc n) c'"
proof (cases "e_state (T ! n)")
  case ETHARP_STATE_EMPTY
  then have k: "kind_empty (T ! n)" "\<not> kind_stable (T ! n)" "\<not> kind_pending (T ! n)" "\<not> kind_queue (T ! n)"
    by (simp_all add: kind_empty_def kind_stable_def kind_pending_def kind_queue_def)
  have o: "oldest kind_stable T (Suc n) (old_stable c) (age_stable c)" "oldest kind_pending T (Suc n) (old_pending c) (age_pending c)"
    "oldest kind_queue T (Suc n) (old_queue c) (age_queue c)"
    using ok k(2-4) by (auto simp: cand_ok_def intro: oldest_skip)
  show ?thesis
  proof (cases "empty c = ARP_TABLE_SIZE")
    case True
    have "cand_ok T (Suc n) (c\<lparr>empty := n\<rparr>)" using o k(1) by (auto simp: cand_ok_def first_empty_def)
    then show ?thesis using True ETHARP_STATE_EMPTY by (intro exI [of _ "c\<lparr>empty := n\<rparr>"]) simp
  next
    case False
    then have "first_empty T (Suc n) (empty c)" using ok by (auto simp: cand_ok_def first_empty_def less_Suc_eq split: if_splits)
    then have "cand_ok T (Suc n) c" using o by (simp add: cand_ok_def)
    then show ?thesis using False ETHARP_STATE_EMPTY by (intro exI [of _ c]) simp
  qed
next
  case ETHARP_STATE_PENDING
  then have k: "\<not> kind_empty (T ! n)" "\<not> kind_stable (T ! n)" "kind_pending (T ! n) \<longleftrightarrow> e_q (T ! n) = NULL"
    "kind_queue (T ! n) \<longleftrightarrow> e_q (T ! n) \<noteq> NULL" "ip \<noteq> Some (e_ipaddr (T ! n))"
    using ip by (simp_all add: kind_empty_def kind_stable_def kind_pending_def kind_queue_def matches_def)
  let ?c = "if e_q (T ! n) \<noteq> NULL then
      if e_ctime (T ! n) \<ge> age_queue c then c\<lparr>old_queue := n, age_queue := e_ctime (T ! n)\<rparr> else c
    else if e_ctime (T ! n) \<ge> age_pending c then c\<lparr>old_pending := n, age_pending := e_ctime (T ! n)\<rparr> else c"
  note parts = ok [unfolded cand_ok_def]
  have st: "first_empty T (Suc n) (empty c)" "oldest kind_stable T (Suc n) (old_stable c) (age_stable c)"
    using parts k(1,2) first_skip oldest_skip by blast+
  have "cand_ok T (Suc n) ?c"
  proof (cases "e_q (T ! n) = NULL")
    case True
    then have "oldest kind_queue T (Suc n) (old_queue c) (age_queue c)" using parts k(4) oldest_skip by blast
    with st True k(3) parts oldest_take [of kind_pending T n "age_pending c" "old_pending c"] oldest_keep [of "age_pending c" T n kind_pending]
    show ?thesis by (simp add: cand_ok_def)
  next
    case False
    then have "oldest kind_pending T (Suc n) (old_pending c) (age_pending c)" using parts k(3) oldest_skip by blast
    with st False k(4) parts oldest_take [of kind_queue T n "age_queue c" "old_queue c"] oldest_keep [of "age_queue c" T n kind_queue]
    show ?thesis by (simp add: cand_ok_def)
  qed
  then show ?thesis using ETHARP_STATE_PENDING k(5) by (intro exI [of _ ?c]) (simp add: Let_def)
next
  case ETHARP_STATE_STABLE
  then have k: "\<not> kind_empty (T ! n)" "kind_stable (T ! n)" "\<not> kind_pending (T ! n)" "\<not> kind_queue (T ! n)"
    "ip \<noteq> Some (e_ipaddr (T ! n))"
    using ip by (simp_all add: kind_empty_def kind_stable_def kind_pending_def kind_queue_def matches_def)
  let ?c = "if e_ctime (T ! n) \<ge> age_stable c then c\<lparr>old_stable := n, age_stable := e_ctime (T ! n)\<rparr> else c"
  note parts = ok [unfolded cand_ok_def]
  have "first_empty T (Suc n) (empty c)" "oldest kind_pending T (Suc n) (old_pending c) (age_pending c)"
    "oldest kind_queue T (Suc n) (old_queue c) (age_queue c)"
    using parts k(1,3,4) first_skip oldest_skip by blast+
  with k(2) parts oldest_take [of kind_stable T n "age_stable c" "old_stable c"] oldest_keep [of "age_stable c" T n kind_stable]
  have "cand_ok T (Suc n) ?c" by (simp add: cand_ok_def)
  then show ?thesis using ETHARP_STATE_STABLE k(5) by (intro exI [of _ ?c]) (simp add: Let_def)
qed

lemma find_loop_cand:
  "find_loop ip es n c = Inr c' \<Longrightarrow> es = drop n T \<Longrightarrow> n \<le> length T \<Longrightarrow> length T \<le> ARP_TABLE_SIZE \<Longrightarrow>
   cand_ok T n c \<Longrightarrow> cand_ok T (length T) c'"
proof (induction es arbitrary: n c)
  case Nil
  then show ?case by simp
next
  case (Cons e es)
  have e: "n < length T" "T ! n = e" "es = drop (Suc n) T" using drop_eq_Cons [OF Cons.prems(2)] by auto
  have "\<not> matches ip (T ! n)" using find_loop_Inr [OF Cons.prems(1)] e by simp
  then obtain c1 where c1: "find_loop ip (T ! n # es) n c = find_loop ip es (Suc n) c1" "cand_ok T (Suc n) c1"
    using cand_step [OF Cons.prems(5)] e(1) Cons.prems(4) by (meson less_le_trans)
  show ?case by (rule Cons.IH [OF _ e(3) _ Cons.prems(4) c1(2)]) (use Cons.prems(1) c1(1) e in auto)
qed

lemma cand0_ok: "cand_ok T 0 cand0"
  by (simp add: cand_ok_def first_empty_def oldest_def cand0_def)

text \<open>
  The entry that gives way to a new one: an empty entry, else the oldest stable one, else the
  oldest pending one without a packet, else the oldest pending one.
\<close>

definition victim :: "etharp_entry list \<Rightarrow> nat \<Rightarrow> bool" where
  "victim T i \<longleftrightarrow> i < length T \<and>
     (if \<exists>e\<in>set T. kind_empty e then kind_empty (T ! i)
      else if \<exists>e\<in>set T. kind_stable e
      then kind_stable (T ! i) \<and> (\<forall>e\<in>set T. kind_stable e \<longrightarrow> e_ctime e \<le> e_ctime (T ! i))
      else if \<exists>e\<in>set T. kind_pending e
      then kind_pending (T ! i) \<and> (\<forall>e\<in>set T. kind_pending e \<longrightarrow> e_ctime e \<le> e_ctime (T ! i))
      else kind_queue (T ! i) \<and> (\<forall>e\<in>set T. kind_queue e \<longrightarrow> e_ctime e \<le> e_ctime (T ! i)))"

lemma oldest_all:
  assumes "oldest P T (length T) i age" "length T = ARP_TABLE_SIZE"
  shows "if \<exists>e\<in>set T. P e then i < ARP_TABLE_SIZE \<and> P (T ! i) \<and> (\<forall>e\<in>set T. P e \<longrightarrow> e_ctime e \<le> e_ctime (T ! i))
    else i = ARP_TABLE_SIZE"
proof -
  have eqs: "(\<exists>e\<in>set T. P e) \<longleftrightarrow> (\<exists>j<length T. P (T ! j))" "(\<forall>e\<in>set T. P e \<longrightarrow> Q e) \<longleftrightarrow> (\<forall>j<length T. P (T ! j) \<longrightarrow> Q (T ! j))" for Q
    by (auto simp: set_conv_nth)
  show ?thesis unfolding eqs using assms by (auto simp: oldest_def split: if_splits)
qed

lemma all_kinds: "kind_empty e \<or> kind_stable e \<or> kind_pending e \<or> kind_queue e"
  by (cases "e_state e") (auto simp: kind_empty_def kind_stable_def kind_pending_def kind_queue_def)

lemma find_loop_victim:
  assumes "find_loop ip T 0 cand0 = Inr c" "length T = ARP_TABLE_SIZE"
  shows "if \<exists>e\<in>set T. kind_empty e then victim T (empty c) \<and> empty c < ARP_TABLE_SIZE
    else empty c = ARP_TABLE_SIZE \<and>
      (\<exists>i<ARP_TABLE_SIZE. victim T i \<and>
        i = (if old_stable c < ARP_TABLE_SIZE then old_stable c
             else if old_pending c < ARP_TABLE_SIZE then old_pending c else old_queue c))"
proof -
  have "cand_ok T (length T) c" by (rule find_loop_cand [OF assms(1)]) (use assms(2) cand0_ok in auto)
  then have f: "first_empty T (length T) (empty c)" and o: "oldest kind_stable T (length T) (old_stable c) (age_stable c)"
    "oldest kind_pending T (length T) (old_pending c) (age_pending c)" "oldest kind_queue T (length T) (old_queue c) (age_queue c)"
    by (simp_all add: cand_ok_def)
  note o = o [THEN oldest_all, OF assms(2)]
  have eqs: "(\<exists>e\<in>set T. kind_empty e) \<longleftrightarrow> (\<exists>j<length T. kind_empty (T ! j))" by (auto simp: set_conv_nth)
  show ?thesis
  proof (cases "\<exists>e\<in>set T. kind_empty e")
    case True
    then show ?thesis using f assms(2) unfolding eqs first_empty_def victim_def by (simp split: if_splits)
  next
    case False
    have "T ! 0 \<in> set T" using assms(2) by simp
    with False all_kinds have "\<exists>e\<in>set T. kind_stable e \<or> kind_pending e \<or> kind_queue e" by blast
    then show ?thesis using False f o assms(2) unfolding eqs first_empty_def victim_def
      by (auto split: if_splits)
  qed
qed

section \<open>The invariant of the table\<close>

definition entry_ok :: "etharp_entry \<Rightarrow> bool" where
  "entry_ok e \<longleftrightarrow>
     (case e_state e of
        ETHARP_STATE_EMPTY \<Rightarrow> e_q e = NULL
      | ETHARP_STATE_PENDING \<Rightarrow> e_ctime e < ARP_MAXPENDING
      | ETHARP_STATE_STABLE \<Rightarrow> e_q e = NULL \<and> e_ctime e < ARP_MAXAGE) \<and>
     (e_state e \<noteq> ETHARP_STATE_EMPTY \<longrightarrow> \<not> ip_addr_isany (e_ipaddr e) \<and> \<not> ip_addr_ismulticast (e_ipaddr e))"

text \<open>No two entries are for the same address.\<close>

definition tab_ok :: "etharp_entry list \<Rightarrow> bool" where
  "tab_ok T \<longleftrightarrow> length T = ARP_TABLE_SIZE \<and> (\<forall>e\<in>set T. entry_ok e) \<and>
     (\<forall>i<length T. \<forall>j<length T. i \<noteq> j \<longrightarrow> e_state (T ! i) \<noteq> ETHARP_STATE_EMPTY \<longrightarrow>
        e_state (T ! j) \<noteq> ETHARP_STATE_EMPTY \<longrightarrow> e_ipaddr (T ! i) \<noteq> e_ipaddr (T ! j))"

definition arp_ok :: "arp \<Rightarrow> bool" where
  "arp_ok a \<longleftrightarrow> tab_ok (arp_table a) \<and> etharp_cached_entry a < ARP_TABLE_SIZE \<and> 14 < length (memp_tab (lws a)) \<and>
     (\<forall>e\<in>set (arp_table a). packet (lws a) (e_q e))"

lemma arp_okD:
  assumes "arp_ok a"
  shows "tab_ok (arp_table a)" "length (arp_table a) = ARP_TABLE_SIZE" "14 < length (memp_tab (lws a))"
    "\<And>i. i < ARP_TABLE_SIZE \<Longrightarrow> packet (lws a) (e_q (arp_table a ! i))"
    "\<And>i. i < ARP_TABLE_SIZE \<Longrightarrow> entry_ok (arp_table a ! i)"
  using assms by (auto simp: arp_ok_def tab_ok_def)

lemma tab_ok_upd:
  assumes "tab_ok T" "entry_ok e"
    and "\<And>j. j < length T \<Longrightarrow> j \<noteq> i \<Longrightarrow> e_state e \<noteq> ETHARP_STATE_EMPTY \<Longrightarrow> e_state (T ! j) \<noteq> ETHARP_STATE_EMPTY \<Longrightarrow>
      e_ipaddr (T ! j) \<noteq> e_ipaddr e"
  shows "tab_ok (T[i := e])"
proof -
  have "\<forall>x\<in>set (T[i := e]). entry_ok x" using assms(1,2) set_update_subset_insert by (fastforce simp: tab_ok_def)
  moreover have "e_ipaddr (T[i := e] ! j) \<noteq> e_ipaddr (T[i := e] ! k)"
    if "j < length T" "k < length T" "j \<noteq> k" "e_state (T[i := e] ! j) \<noteq> ETHARP_STATE_EMPTY" "e_state (T[i := e] ! k) \<noteq> ETHARP_STATE_EMPTY" for j k
    using that assms(1) assms(3) [of j] assms(3) [of k] by (cases "j = i"; cases "k = i") (auto simp: tab_ok_def)
  ultimately show ?thesis using assms(1) by (simp add: tab_ok_def)
qed

lemma packet_NULL [simp]: "packet s NULL"
  unfolding packet_def by (intro exI [of _ "[]"]) simp

lemma arp_ok_upd:
  assumes ok: "arp_ok a" and k: "keeps (lws a) m" and e: "entry_ok e" "packet m (e_q e)"
    and u: "\<And>j. j < ARP_TABLE_SIZE \<Longrightarrow> j \<noteq> i \<Longrightarrow> e_state e \<noteq> ETHARP_STATE_EMPTY \<Longrightarrow> e_state (arp_table a ! j) \<noteq> ETHARP_STATE_EMPTY \<Longrightarrow>
      e_ipaddr (arp_table a ! j) \<noteq> e_ipaddr e"
  shows "arp_ok (a\<lparr>lws := m, arp_table := (arp_table a)[i := e]\<rparr>)"
proof -
  note r = arp_okD [OF ok]
  have "tab_ok ((arp_table a)[i := e])" by (rule tab_ok_upd [OF r(1) e(1)]) (use u r(2) in auto)
  moreover have "\<forall>x\<in>set ((arp_table a)[i := e]). packet m (e_q x)"
    using ok e(2) k set_update_subset_insert packet_keeps unfolding arp_ok_def by (metis insertE subsetD)
  ultimately show ?thesis using ok k by (simp add: arp_ok_def keeps_def)
qed

lemma arp_ok_keeps:
  assumes "arp_ok a" "keeps (lws a) (lws a')" "arp_table a' = arp_table a" "etharp_cached_entry a' < ARP_TABLE_SIZE"
  shows "arp_ok a'"
proof -
  have "length (memp_tab (lws a')) = length (memp_tab (lws a))" using assms(2) by (simp add: keeps_def)
  then show ?thesis using assms(1,3,4) packet_keeps [OF _ assms(2)] by (simp add: arp_ok_def)
qed

lemma arp_ok_uniq:
  "arp_ok a \<Longrightarrow> i < ARP_TABLE_SIZE \<Longrightarrow> j < ARP_TABLE_SIZE \<Longrightarrow> i \<noteq> j \<Longrightarrow> e_state (arp_table a ! i) \<noteq> ETHARP_STATE_EMPTY \<Longrightarrow>
   e_state (arp_table a ! j) \<noteq> ETHARP_STATE_EMPTY \<Longrightarrow> e_ipaddr (arp_table a ! i) \<noteq> e_ipaddr (arp_table a ! j)"
  by (simp add: arp_ok_def tab_ok_def)

lemma upd_entry_nth: "i < length (arp_table a) \<Longrightarrow> arp_table (upd_entry i f a) ! i = f (arp_table a ! i)"
  by (simp add: upd_entry_def)

lemma upd_entry_twice: "upd_entry i f (upd_entry i g a) = upd_entry i (f \<circ> g) a" if "i < length (arp_table a)"
  using that by (simp add: upd_entry_def)

text \<open>What is left of an entry that is freed.\<close>

definition cleared :: "etharp_entry \<Rightarrow> etharp_entry" where
  "cleared e = e\<lparr>e_q := NULL, e_state := ETHARP_STATE_EMPTY\<rparr>"

lemma free_entry_eq:
  assumes "i < length (arp_table a)" "packet (lws a) (e_q (arp_table a ! i))" "14 < length (memp_tab (lws a))"
  shows "\<exists>m. free_entry i a = Some (a\<lparr>lws := m, arp_table := (arp_table a)[i := cleared (arp_table a ! i)]\<rparr>) \<and> keeps (lws a) m"
proof (cases "e_q (arp_table a ! i) = NULL")
  case True
  then have "cleared (arp_table a ! i) = (arp_table a ! i)\<lparr>e_state := ETHARP_STATE_EMPTY\<rparr>" by (simp add: cleared_def)
  then show ?thesis using True by (intro exI [of _ "lws a"]) (simp add: free_entry_def upd_entry_def)
next
  case False
  obtain n m where "pbuf_free (e_q (arp_table a ! i)) (lws a) = Some (n, m)" "keeps (lws a) m"
    using pbuf_free_total [OF assms(2,3)] by blast
  then show ?thesis using False assms(1) by (intro exI [of _ m]) (simp add: free_entry_def upd_entry_def cleared_def)
qed

lemma cleared_ok [simp]: "entry_ok (cleared e)" "e_state (cleared e) = ETHARP_STATE_EMPTY" "e_q (cleared e) = NULL"
  by (simp_all add: entry_ok_def cleared_def)

section \<open>Ageing\<close>

definition aged :: "etharp_entry \<Rightarrow> etharp_entry" where
  "aged e =
     (if e_state e = ETHARP_STATE_EMPTY then e
      else let e = e\<lparr>e_ctime := e_ctime e + 1\<rparr> in
        if e_ctime e \<ge> ARP_MAXAGE \<or> e_state e = ETHARP_STATE_PENDING \<and> e_ctime e \<ge> ARP_MAXPENDING then cleared e else e)"

lemma age_step: "c < ARP_MAXAGE \<Longrightarrow> unat (c + 1) = unat (c :: u8) + 1"
  by (subst unat_add_lem [THEN iffD1]) (auto simp: word_less_nat_alt)

lemma aged_ok: "entry_ok e \<Longrightarrow> entry_ok (aged e)"
  by (cases "e_state e") (auto simp: aged_def Let_def entry_ok_def cleared_def not_le)

lemma aged_q: "e_q (aged e) = NULL \<or> e_q (aged e) = e_q e"
  by (auto simp: aged_def Let_def cleared_def)

lemma aged_ip: "e_state (aged e) \<noteq> ETHARP_STATE_EMPTY \<Longrightarrow> e_ipaddr (aged e) = e_ipaddr e \<and> e_state (aged e) = e_state e"
  by (auto simp: aged_def Let_def cleared_def split: if_splits)

lemma tmr_entry_eq:
  assumes "i < length (arp_table a)" "packet (lws a) (e_q (arp_table a ! i))" "14 < length (memp_tab (lws a))"
  shows "\<exists>m. tmr_entry i a = Some (a\<lparr>lws := m, arp_table := (arp_table a)[i := aged (arp_table a ! i)]\<rparr>) \<and> keeps (lws a) m"
proof -
  let ?e = "arp_table a ! i" and ?a = "upd_entry i (\<lambda>e. e\<lparr>e_ctime := e_ctime e + 1\<rparr>) a"
  have a: "arp_table ?a ! i = ?e\<lparr>e_ctime := e_ctime ?e + 1\<rparr>" "lws ?a = lws a" "i < length (arp_table ?a)"
    using assms(1) by (simp_all add: upd_entry_def)
  obtain m where m: "free_entry i ?a = Some (?a\<lparr>lws := m, arp_table := (arp_table ?a)[i := cleared (arp_table ?a ! i)]\<rparr>)" "keeps (lws a) m"
    using free_entry_eq [of i ?a] a assms(2,3) by auto
  let ?x = "e_ctime ?e + 1 \<ge> ARP_MAXAGE \<or> e_state ?e = ETHARP_STATE_PENDING \<and> e_ctime ?e + 1 \<ge> ARP_MAXPENDING"
  consider "e_state ?e = ETHARP_STATE_EMPTY" | "e_state ?e \<noteq> ETHARP_STATE_EMPTY" "?x" | "e_state ?e \<noteq> ETHARP_STATE_EMPTY" "\<not> ?x"
    by blast
  then show ?thesis
  proof cases
    case 1
    then show ?thesis by (intro exI [of _ "lws a"]) (simp add: tmr_entry_def aged_def)
  next
    case 2
    then show ?thesis using m a by (intro exI [of _ m]) (auto simp: tmr_entry_def aged_def Let_def upd_entry_def)
  next
    case 3
    then show ?thesis using a(1) by (intro exI [of _ "lws a"]) (auto simp: tmr_entry_def aged_def Let_def upd_entry_def)
  qed
qed

lemma tmr_loop_eq:
  assumes "arp_ok a" "n \<le> ARP_TABLE_SIZE"
  shows "\<exists>m. tmr_loop [n..<ARP_TABLE_SIZE] a =
      Some (a\<lparr>lws := m, arp_table := take n (arp_table a) @ map aged (drop n (arp_table a))\<rparr>) \<and> keeps (lws a) m"
  using assms
proof (induction "ARP_TABLE_SIZE - n" arbitrary: n a)
  case 0
  then have "n = ARP_TABLE_SIZE" "length (arp_table a) = ARP_TABLE_SIZE" using arp_okD(2) by auto
  then show ?case by (intro exI [of _ "lws a"]) simp
next
  case (Suc k)
  note r = arp_okD [OF Suc.prems(1)]
  let ?T = "arp_table a"
  have n: "n < ARP_TABLE_SIZE" using Suc.hyps(2) by simp
  obtain m where m: "tmr_entry n a = Some (a\<lparr>lws := m, arp_table := ?T[n := aged (?T ! n)]\<rparr>)" "keeps (lws a) m"
    using tmr_entry_eq [of n a] r n by auto
  let ?a = "a\<lparr>lws := m, arp_table := ?T[n := aged (?T ! n)]\<rparr>"
  have "arp_ok ?a"
  proof (rule arp_ok_upd [OF Suc.prems(1) m(2) aged_ok])
    show "entry_ok (?T ! n)" using r(5) n by simp
    show "packet m (e_q (aged (?T ! n)))"
      using aged_q [of "?T ! n"] packet_keeps [OF r(4) m(2), OF n] by auto
    show "e_ipaddr (?T ! j) \<noteq> e_ipaddr (aged (?T ! n))" if "j < ARP_TABLE_SIZE" "j \<noteq> n"
      "e_state (aged (?T ! n)) \<noteq> ETHARP_STATE_EMPTY" "e_state (?T ! j) \<noteq> ETHARP_STATE_EMPTY" for j
      using arp_ok_uniq [OF Suc.prems(1) that(1) n that(2) that(4)] aged_ip [OF that(3)] that(3) by simp
  qed
  moreover have "k = ARP_TABLE_SIZE - Suc n" "Suc n \<le> ARP_TABLE_SIZE" using Suc.hyps(2) by simp_all
  ultimately obtain m' where
    m': "tmr_loop [Suc n..<ARP_TABLE_SIZE] ?a = Some (?a\<lparr>lws := m', arp_table := take (Suc n) (arp_table ?a) @ map aged (drop (Suc n) (arp_table ?a))\<rparr>)"
    "keeps (lws ?a) m'" using Suc.hyps(1) by blast
  have "take (Suc n) (arp_table ?a) @ map aged (drop (Suc n) (arp_table ?a)) = take n ?T @ map aged (drop n ?T)"
    using n r(2) by (simp add: take_Suc_conv_app_nth drop_update_cancel flip: Cons_nth_drop_Suc)
  moreover have "[n..<ARP_TABLE_SIZE] = n # [Suc n..<ARP_TABLE_SIZE]" using n by (rule upt_conv_Cons)
  ultimately show ?case using m m' keeps_trans by (intro exI [of _ m']) auto
qed

lemma etharp_tmr_eq:
  assumes "arp_ok a"
  shows "\<exists>m. etharp_tmr a = Some (a\<lparr>lws := m, arp_table := map aged (arp_table a)\<rparr>) \<and> keeps (lws a) m \<and>
    arp_ok (a\<lparr>lws := m, arp_table := map aged (arp_table a)\<rparr>)"
proof -
  from tmr_loop_eq [OF assms, of 0] obtain m where
    m: "etharp_tmr a = Some (a\<lparr>lws := m, arp_table := map aged (arp_table a)\<rparr>)" "keeps (lws a) m"
    by (auto simp: etharp_tmr_def)
  note r = arp_okD [OF assms]
  have "tab_ok (map aged (arp_table a))"
    using r(1) aged_ok aged_ip by (auto simp: tab_ok_def)
  moreover have "packet m (e_q (aged e))" if "e \<in> set (arp_table a)" for e
    using that aged_q [of e] assms packet_keeps [OF _ m(2)] by (auto simp: arp_ok_def)
  ultimately have "arp_ok (a\<lparr>lws := m, arp_table := map aged (arp_table a)\<rparr>)"
    using assms m(2) by (simp add: arp_ok_def keeps_def)
  with m show ?thesis by blast
qed

text \<open>\<open>k\<close> calls of \<open>etharp_tmr\<close> in a row.\<close>

fun tmr_iter :: "nat \<Rightarrow> arp \<Rightarrow> arp option" where
  "tmr_iter 0 a = Some a"
| "tmr_iter (Suc k) a = etharp_tmr a \<bind> tmr_iter k"

lemma tmr_iter_eq:
  "arp_ok a \<Longrightarrow> \<exists>a'. tmr_iter k a = Some a' \<and> arp_ok a' \<and> arp_table a' = map (aged ^^ k) (arp_table a)"
proof (induction k arbitrary: a)
  case (Suc k)
  from etharp_tmr_eq [OF Suc.prems] obtain m where m: "etharp_tmr a = Some (a\<lparr>lws := m, arp_table := map aged (arp_table a)\<rparr>)"
    "arp_ok (a\<lparr>lws := m, arp_table := map aged (arp_table a)\<rparr>)" by blast
  from Suc.IH [OF m(2)] m(1) show ?case by (auto simp: comp_def funpow_swap1 [symmetric])
qed simp

lemma aged_empty: "e_state e = ETHARP_STATE_EMPTY \<Longrightarrow> (aged ^^ k) e = e"
  by (induction k) (simp_all add: aged_def)

text \<open>A stable entry lives for \<open>ARP_MAXAGE\<close> calls from its last update, a pending one for \<open>ARP_MAXPENDING\<close>.\<close>

lemma aged_stable:
  "e_state e = ETHARP_STATE_STABLE \<Longrightarrow> unat (e_ctime e) + k < 240 \<Longrightarrow>
   (aged ^^ k) e = e\<lparr>e_ctime := e_ctime e + of_nat k\<rparr>"
proof (induction k)
  case (Suc k)
  then have e: "(aged ^^ k) e = e\<lparr>e_ctime := e_ctime e + of_nat k\<rparr>" by simp
  have "unat (e_ctime e + of_nat k + 1) = unat (e_ctime e) + k + 1"
    using Suc.prems(2) by (simp add: unat_word_ariths unat_of_nat)
  then have "\<not> ARP_MAXAGE \<le> e_ctime e + of_nat k + 1" using Suc.prems(2) by (simp add: word_le_nat_alt)
  then have "aged (e\<lparr>e_ctime := e_ctime e + of_nat k\<rparr>) = e\<lparr>e_ctime := e_ctime e + of_nat k + 1\<rparr>"
    using Suc.prems(1) by (simp add: aged_def)
  then show ?case using e by (simp add: add.assoc add.commute [of 1])
qed simp

lemma aged_stable_dies:
  assumes "e_state e = ETHARP_STATE_STABLE" "unat (e_ctime e) < 240" "240 \<le> unat (e_ctime e) + k"
  shows "e_state ((aged ^^ k) e) = ETHARP_STATE_EMPTY"
proof -
  define n where "n = 239 - unat (e_ctime e)"
  have n: "unat (e_ctime e) + n = 239" "k = (k - Suc n) + Suc n" using assms(2,3) by (simp_all add: n_def)
  have e: "(aged ^^ n) e = e\<lparr>e_ctime := e_ctime e + of_nat n\<rparr>" using aged_stable [OF assms(1)] n(1) by simp
  have "unat (e_ctime e + of_nat n) = 239" using n(1) by (simp add: unat_word_ariths unat_of_nat)
  then have "e_ctime e + of_nat n = 239" by (simp add: word_unat_eq_iff)
  then have "aged ((aged ^^ n) e) = cleared (e\<lparr>e_ctime := 240\<rparr>)" unfolding e by (simp add: aged_def assms(1))
  then have "(aged ^^ Suc n) e = cleared (e\<lparr>e_ctime := 240\<rparr>)" by simp
  then have "(aged ^^ k) e = (aged ^^ (k - Suc n)) (cleared (e\<lparr>e_ctime := 240\<rparr>))" using n(2) by (metis funpow_add comp_apply)
  then show ?thesis by (simp add: aged_empty)
qed

lemma aged_pending_dies:
  assumes "e_state e = ETHARP_STATE_PENDING" "entry_ok e" "2 \<le> k"
  shows "e_state ((aged ^^ k) e) = ETHARP_STATE_EMPTY"
proof -
  have "e_ctime e = 0 \<or> e_ctime e = 1" using assms(1,2)
    by (simp add: entry_ok_def word_less_nat_alt word_unat_eq_iff) linarith
  then have "e_state (aged (aged e)) = ETHARP_STATE_EMPTY" using assms(1)
    by (auto simp: aged_def Let_def)
  moreover have "(aged ^^ k) e = (aged ^^ (k - 2)) (aged (aged e))"
    using assms(3) by (metis (no_types, lifting) add_2_eq_Suc' comp_apply funpow_simps_right(2) le_add_diff_inverse2)
  ultimately show ?thesis by (simp add: aged_empty)
qed

section \<open>Finding and updating entries\<close>

definition fresh :: "u32 \<Rightarrow> etharp_entry \<Rightarrow> etharp_entry" where
  "fresh ip e = (cleared e)\<lparr>e_ipaddr := ip, e_ctime := 0\<rparr>"

lemma find_entry_eq:
  assumes ok: "arp_ok a"
  defines "T \<equiv> arp_table a"
  shows "if \<exists>e\<in>set T. matches (Some ip) e
    then \<exists>i<ARP_TABLE_SIZE. find_entry (Some ip) flags a = Some (int i, a) \<and> matches (Some ip) (T ! i)
    else if flags AND ETHARP_FLAG_FIND_ONLY \<noteq> 0 \<or> \<not> (\<exists>e\<in>set T. kind_empty e) \<and> flags AND ETHARP_FLAG_TRY_HARD = 0
    then find_entry (Some ip) flags a = Some (ERR_MEM, a)
    else \<exists>i m. victim T i \<and> find_entry (Some ip) flags a = Some (int i, a\<lparr>lws := m, arp_table := T[i := fresh ip (T ! i)]\<rparr>) \<and>
      keeps (lws a) m"
proof (cases "find_loop (Some ip) T 0 cand0")
  case (Inl i)
  from find_loop_Inl [OF Inl] arp_okD(2) [OF ok] have "i < ARP_TABLE_SIZE" "matches (Some ip) (T ! i)" "\<exists>e\<in>set T. matches (Some ip) e"
    by (auto simp: T_def)
  then show ?thesis using Inl by (auto simp: find_entry_def T_def)
next
  case (Inr c)
  note r = arp_okD [OF ok]
  have no: "\<not> (\<exists>e\<in>set T. matches (Some ip) e)" using find_loop_Inr [OF Inr] by blast
  note v = find_loop_victim [OF Inr, unfolded T_def, OF r(2), folded T_def]
  let ?stop = "flags AND ETHARP_FLAG_FIND_ONLY \<noteq> 0 \<or> empty c = ARP_TABLE_SIZE \<and> flags AND ETHARP_FLAG_TRY_HARD = 0"
  have new: "new_entry (Some ip) i (a\<lparr>lws := m, arp_table := T[i := cleared (T ! i)]\<rparr>) = a\<lparr>lws := m, arp_table := T[i := fresh ip (T ! i)]\<rparr>"
    if "i < ARP_TABLE_SIZE" for i m using that r(2) by (simp add: new_entry_def upd_entry_def fresh_def T_def)
  show ?thesis
  proof (cases "\<exists>e\<in>set T. kind_empty e")
    case True
    let ?i = "empty c"
    have i: "victim T ?i" "?i < ARP_TABLE_SIZE" using v True by auto
    have "kind_empty (T ! ?i)" using i(1) True by (simp add: victim_def)
    then have "cleared (T ! ?i) = T ! ?i" using r(5) [OF i(2)] by (simp add: kind_empty_def entry_ok_def cleared_def T_def)
    then have "new_entry (Some ip) ?i a = a\<lparr>lws := lws a, arp_table := T[?i := fresh ip (T ! ?i)]\<rparr>"
      using new [OF i(2), of "lws a"] by (simp add: T_def)
    then show ?thesis using Inr no i True by (auto simp: find_entry_def T_def intro!: exI [of _ ?i] exI [of _ "lws a"])
  next
    case False
    define i where "i = (if old_stable c < ARP_TABLE_SIZE then old_stable c
             else if old_pending c < ARP_TABLE_SIZE then old_pending c else old_queue c)"
    have i: "victim T i" "i < ARP_TABLE_SIZE" "empty c = ARP_TABLE_SIZE" using v False by (auto simp: i_def)
    obtain m where m: "free_entry i a = Some (a\<lparr>lws := m, arp_table := T[i := cleared (T ! i)]\<rparr>)" "keeps (lws a) m"
      using free_entry_eq [of i a] i(2) r by (auto simp: T_def)
    have "find_entry (Some ip) flags a = (if ?stop then Some (ERR_MEM, a)
        else Some (int i, a\<lparr>lws := m, arp_table := T[i := fresh ip (T ! i)]\<rparr>))"
      using Inr i(2,3) m(1) new [OF i(2), of m] by (simp add: find_entry_def T_def i_def [symmetric] Let_def)
    then show ?thesis using no False i(1,3) m(2) by auto
  qed
qed

definition frame :: "u8 list \<Rightarrow> u8 list \<Rightarrow> u16 \<Rightarrow> u8 list \<Rightarrow> u8 list" where
  "frame dst src type d = dst @ src @ [ucast (drop_bit 8 type), ucast type] @ d"

lemma send_ip_frame:
  assumes "link_ok link" "14 \<le> pb_len (lws a) p" "length src = 6" "length dst = 6"
  shows "\<exists>r m. etharp_send_ip link nif p src dst a =
      (r, a\<lparr>lws := m, sent := sent a @ [(p, frame dst src 0x0800 (drop 14 (pdata (lws a) p)))]\<rparr>) \<and> keeps (lws a) m"
proof -
  let ?e = "pb_payload (lws a) p" and ?n = "unat (pb_len (lws a) p)"
  let ?m1 = "wr ?e dst (lws a)"
  let ?m2 = "wr (?e + 6) src ?m1"
  let ?m = "wr16 (?e + 12) (lwip_htons 0x0800) ?m2"
  have n: "14 \<le> ?n" "?n \<le> 65536" using assms(2) by (simp_all add: word_le_nat_alt less_imp_le)
  have k: "keeps (lws a) ?m" by (meson keeps_trans wr_keeps)
  have b: "bytes_at (bytes ?m) ?e ?n = frame dst src 0x0800 (drop 14 (bytes_at (bytes (lws a)) ?e ?n))"
    using bytes_at_wr [of 0 dst ?n ?e "lws a"] bytes_at_wr [of 6 src ?n ?e ?m1]
      bytes_at_wr [of 12 "[ucast (lwip_htons 0x0800), ucast (drop_bit 8 (lwip_htons 0x0800))]" ?n ?e ?m2] n assms(3,4)
    by (simp add: wr16_def htons_bytes frame_def)
  from linkoutput_eq [OF assms(1), of nif p "a\<lparr>lws := ?m\<rparr>"] obtain r m where
    "linkoutput link nif p (a\<lparr>lws := ?m\<rparr>) = (r, a\<lparr>lws := m, sent := sent a @ [(p, pdata ?m p)]\<rparr>)" "keeps ?m m" by auto
  moreover have "pdata ?m p = frame dst src 0x0800 (drop 14 (pdata (lws a) p))" using b by (simp add: pdata_def)
  ultimately show ?thesis using k keeps_trans by (auto simp: etharp_send_ip_def Let_def)
qed

definition unicast :: "netif \<Rightarrow> u32 \<Rightarrow> bool" where
  "unicast nif ip \<longleftrightarrow> \<not> ip_addr_isany ip \<and> ip4_addr_isbroadcast ip nif = 0 \<and> \<not> ip_addr_ismulticast ip"

definition learnt :: "u8 list \<Rightarrow> etharp_entry \<Rightarrow> etharp_entry" where
  "learnt mac e = e\<lparr>e_state := ETHARP_STATE_STABLE, e_ethaddr := mac, e_ctime := 0, e_q := NULL\<rparr>"

lemma learn_entry_eq:
  assumes "link_ok link" "i < length (arp_table a)" "packet (lws a) (e_q (arp_table a ! i))" "14 < length (memp_tab (lws a))"
  shows "\<exists>m out. learn_entry link nif i mac a =
      Some (ERR_OK, a\<lparr>lws := m, arp_table := (arp_table a)[i := learnt mac (arp_table a ! i)], sent := sent a @ out\<rparr>) \<and>
    keeps (lws a) m \<and> (e_q (arp_table a ! i) = NULL \<longrightarrow> out = []) \<and>
    (e_q (arp_table a ! i) \<noteq> NULL \<longrightarrow> length mac = 6 \<longrightarrow> length (hwaddr nif) = 6 \<longrightarrow> 14 \<le> pb_len (lws a) (e_q (arp_table a ! i)) \<longrightarrow>
      out = [(e_q (arp_table a ! i), frame mac (hwaddr nif) 0x0800 (drop 14 (pdata (lws a) (e_q (arp_table a ! i)))))])"
proof (cases "e_q (arp_table a ! i) = NULL")
  case True
  then have "learnt mac (arp_table a ! i) =
      (arp_table a ! i)\<lparr>e_state := ETHARP_STATE_STABLE, e_ethaddr := mac, e_ctime := 0\<rparr>" by (simp add: learnt_def)
  then show ?thesis using True assms(2)
    by (intro exI [of _ "lws a"] exI [of _ "[]"]) (simp add: learn_entry_def upd_entry_def)
next
  case False
  let ?q = "e_q (arp_table a ! i)"
  let ?a = "a\<lparr>arp_table := (arp_table a)[i := learnt mac (arp_table a ! i)]\<rparr>"
  let ?send = "etharp_send_ip link nif ?q (hwaddr nif) mac ?a"
  from send_ip_eq [OF assms(1), of nif ?q "hwaddr nif" mac ?a] obtain r m d where
    s: "?send = (r, ?a\<lparr>lws := m, sent := sent a @ [(?q, d)]\<rparr>)" "keeps (lws a) m" by auto
  have "packet m ?q" "14 < length (memp_tab m)" using packet_keeps [OF assms(3) s(2)] assms(4) s(2) by (simp_all add: keeps_def)
  then obtain n m' where m': "pbuf_free ?q m = Some (n, m')" "keeps m m'" using pbuf_free_total by blast
  have run: "learn_entry link nif i mac a = Some (ERR_OK, ?a\<lparr>lws := m', sent := sent a @ [(?q, d)]\<rparr>)"
    using False assms(2) s(1) m'(1) by (simp add: learn_entry_def upd_entry_def learnt_def Let_def)
  have "d = frame mac (hwaddr nif) 0x0800 (drop 14 (pdata (lws a) ?q))"
    if "length mac = 6" "length (hwaddr nif) = 6" "14 \<le> pb_len (lws a) ?q"
  proof -
    have "sent (snd ?send) = sent a @ [(?q, frame mac (hwaddr nif) 0x0800 (drop 14 (pdata (lws a) ?q)))]"
      using send_ip_frame [OF assms(1), of ?a ?q "hwaddr nif" mac nif] that by auto
    moreover have "sent (snd ?send) = sent a @ [(?q, d)]" using s(1) by simp
    ultimately show ?thesis by simp
  qed
  with run False s(2) m'(2) keeps_trans show ?thesis
    by (intro exI [of _ m'] exI [of _ "[(?q, d)]"]) auto
qed

lemma learnt_ok: "\<not> ip_addr_isany (e_ipaddr e) \<Longrightarrow> \<not> ip_addr_ismulticast (e_ipaddr e) \<Longrightarrow> entry_ok (learnt mac e)"
  by (simp add: entry_ok_def learnt_def)

text \<open>
  The entry that an update ends up with: the one for the address, or the victim; \<open>None\<close> when the
  table does not change.
\<close>

definition picks :: "u32 \<Rightarrow> u8 \<Rightarrow> etharp_entry list \<Rightarrow> nat option \<Rightarrow> bool" where
  "picks ip flags T r \<longleftrightarrow>
     (if \<exists>e\<in>set T. matches (Some ip) e then \<exists>i<length T. r = Some i \<and> matches (Some ip) (T ! i)
      else if flags AND ETHARP_FLAG_FIND_ONLY \<noteq> 0 \<or> \<not> (\<exists>e\<in>set T. kind_empty e) \<and> flags AND ETHARP_FLAG_TRY_HARD = 0
      then r = None
      else \<exists>i. r = Some i \<and> victim T i)"

lemma find_entry_picks:
  assumes ok: "arp_ok a"
  defines "T \<equiv> arp_table a"
  shows "\<exists>r. picks ip flags T r \<and>
    (case r of
       None \<Rightarrow> find_entry (Some ip) flags a = Some (ERR_MEM, a)
     | Some i \<Rightarrow> i < ARP_TABLE_SIZE \<and>
        (\<forall>j<ARP_TABLE_SIZE. j \<noteq> i \<longrightarrow> e_state (T ! j) \<noteq> ETHARP_STATE_EMPTY \<longrightarrow> e_ipaddr (T ! j) \<noteq> ip) \<and>
        (\<exists>m e. find_entry (Some ip) flags a = Some (int i, a\<lparr>lws := m, arp_table := T[i := e]\<rparr>) \<and> keeps (lws a) m \<and>
          e = (if matches (Some ip) (T ! i) then T ! i else fresh ip (T ! i))))"
proof (cases "\<exists>e\<in>set T. matches (Some ip) e")
  case True
  then obtain i where i: "i < ARP_TABLE_SIZE" "find_entry (Some ip) flags a = Some (int i, a)" "matches (Some ip) (T ! i)"
    using find_entry_eq [OF ok, of ip flags] by (auto simp: T_def)
  have "\<forall>j<ARP_TABLE_SIZE. j \<noteq> i \<longrightarrow> e_state (T ! j) \<noteq> ETHARP_STATE_EMPTY \<longrightarrow> e_ipaddr (T ! j) \<noteq> ip"
    using i(1,3) arp_ok_uniq [OF ok _ i(1)] by (auto simp: T_def matches_def)
  then show ?thesis using True i arp_okD(2) [OF ok]
    by (intro exI [of _ "Some i"]) (auto simp: picks_def T_def intro!: exI [of _ "lws a"])
next
  case no: False
  note f = find_entry_eq [OF ok, of ip flags, folded T_def]
  show ?thesis
  proof (cases "flags AND ETHARP_FLAG_FIND_ONLY \<noteq> 0 \<or> \<not> (\<exists>e\<in>set T. kind_empty e) \<and> flags AND ETHARP_FLAG_TRY_HARD = 0")
    case True
    then show ?thesis using no f by (intro exI [of _ None]) (auto simp: picks_def)
  next
    case False
    then obtain i m where i: "victim T i" "find_entry (Some ip) flags a = Some (int i, a\<lparr>lws := m, arp_table := T[i := fresh ip (T ! i)]\<rparr>)"
      "keeps (lws a) m" using f unfolding if_not_P [OF no] if_not_P [OF False] by blast
    have l: "i < ARP_TABLE_SIZE" using i(1) arp_okD(2) [OF ok] by (simp add: victim_def T_def)
    have nm: "\<not> matches (Some ip) (T ! j)" if "j < ARP_TABLE_SIZE" for j using no that arp_okD(2) [OF ok] by (auto simp: T_def)
    then have "\<forall>j<ARP_TABLE_SIZE. j \<noteq> i \<longrightarrow> e_state (T ! j) \<noteq> ETHARP_STATE_EMPTY \<longrightarrow> e_ipaddr (T ! j) \<noteq> ip"
      by (auto simp: matches_def)
    then show ?thesis using no False i l nm [OF l]
      by (intro exI [of _ "Some i"]) (auto simp: picks_def intro!: exI [of _ m])
  qed
qed

lemma update_arp_entry_eq:
  assumes ok: "arp_ok a" and link: "link_ok link" and uni: "unicast nif ip"
  defines "T \<equiv> arp_table a"
  shows "\<exists>r. picks ip flags T r \<and>
    (case r of
       None \<Rightarrow> update_arp_entry link nif ip mac flags a = Some (ERR_MEM, a)
     | Some i \<Rightarrow> i < ARP_TABLE_SIZE \<and>
        (\<exists>m e out. update_arp_entry link nif ip mac flags a = Some (ERR_OK, a\<lparr>lws := m, arp_table := T[i := e], sent := sent a @ out\<rparr>) \<and>
          arp_ok (a\<lparr>lws := m, arp_table := T[i := e], sent := sent a @ out\<rparr>) \<and>
          e_ipaddr e = ip \<and> e_ethaddr e = mac \<and> e_state e = ETHARP_STATE_STABLE \<and> e_ctime e = 0 \<and>
          (\<not> (matches (Some ip) (T ! i) \<and> e_q (T ! i) \<noteq> NULL) \<longrightarrow> out = []) \<and>
          (matches (Some ip) (T ! i) \<longrightarrow> e_q (T ! i) \<noteq> NULL \<longrightarrow> length mac = 6 \<longrightarrow> length (hwaddr nif) = 6 \<longrightarrow>
            14 \<le> pb_len (lws a) (e_q (T ! i)) \<longrightarrow>
            out = [(e_q (T ! i), frame mac (hwaddr nif) 0x0800 (drop 14 (pdata (lws a) (e_q (T ! i)))))])))"
proof -
  note r = arp_okD [OF ok, folded T_def]
  from find_entry_picks [OF ok, of ip flags, folded T_def] obtain p where p: "picks ip flags T p"
    "case p of None \<Rightarrow> find_entry (Some ip) flags a = Some (ERR_MEM, a)
     | Some i \<Rightarrow> i < ARP_TABLE_SIZE \<and>
        (\<forall>j<ARP_TABLE_SIZE. j \<noteq> i \<longrightarrow> e_state (T ! j) \<noteq> ETHARP_STATE_EMPTY \<longrightarrow> e_ipaddr (T ! j) \<noteq> ip) \<and>
        (\<exists>m e. find_entry (Some ip) flags a = Some (int i, a\<lparr>lws := m, arp_table := T[i := e]\<rparr>) \<and> keeps (lws a) m \<and>
          e = (if matches (Some ip) (T ! i) then T ! i else fresh ip (T ! i)))" by blast
  show ?thesis
  proof (cases p)
    case None
    then show ?thesis using p uni by (intro exI [of _ None]) (simp add: update_arp_entry_def unicast_def)
  next
    case (Some i)
    then obtain m e where i: "i < ARP_TABLE_SIZE" "\<forall>j<ARP_TABLE_SIZE. j \<noteq> i \<longrightarrow> e_state (T ! j) \<noteq> ETHARP_STATE_EMPTY \<longrightarrow> e_ipaddr (T ! j) \<noteq> ip"
      "find_entry (Some ip) flags a = Some (int i, a\<lparr>lws := m, arp_table := T[i := e]\<rparr>)" "keeps (lws a) m"
      "e = (if matches (Some ip) (T ! i) then T ! i else fresh ip (T ! i))" using p(2) by auto
    let ?a = "a\<lparr>lws := m, arp_table := T[i := e]\<rparr>"
    have e: "e_ipaddr e = ip" "e_q e = (if matches (Some ip) (T ! i) then e_q (T ! i) else NULL)"
      using i(5) by (auto simp: matches_def fresh_def)
    have "packet m (e_q e)" using e(2) packet_keeps [OF r(4) i(4), OF i(1)] by (auto simp: T_def)
    moreover have "14 < length (memp_tab m)" using r(3) i(4) by (simp add: keeps_def)
    ultimately obtain m' out where l: "learn_entry link nif i mac ?a =
        Some (ERR_OK, ?a\<lparr>lws := m', arp_table := (T[i := e])[i := learnt mac e], sent := sent a @ out\<rparr>)"
      "keeps m m'" "e_q e = NULL \<longrightarrow> out = []"
      "e_q e \<noteq> NULL \<longrightarrow> length mac = 6 \<longrightarrow> length (hwaddr nif) = 6 \<longrightarrow> 14 \<le> pb_len m (e_q e) \<longrightarrow>
        out = [(e_q e, frame mac (hwaddr nif) 0x0800 (drop 14 (pdata m (e_q e))))]"
      using learn_entry_eq [OF link, of i ?a nif mac] i(1) r(2) by (auto simp: T_def)
    have m: "m = lws a" if "matches (Some ip) (T ! i)"
    proof -
      have "\<exists>e\<in>set T. matches (Some ip) e" using that i(1) r(2) by auto
      then have "\<exists>k. find_entry (Some ip) flags a = Some (int k, a)"
        using find_entry_eq [OF ok, of ip flags] by (auto simp: T_def)
      then have "?a = a" using i(3) by auto
      then have "lws ?a = lws a" by (rule arg_cong)
      then show ?thesis by simp
    qed
    have "arp_ok (a\<lparr>lws := m', arp_table := T[i := learnt mac e]\<rparr>)"
      unfolding T_def
      by (rule arp_ok_upd [OF ok keeps_trans [OF i(4) l(2)] learnt_ok])
        (use e(1) uni i(2) in \<open>auto simp: unicast_def learnt_def T_def\<close>)
    then have "arp_ok (a\<lparr>lws := m', arp_table := T[i := learnt mac e], sent := sent a @ out\<rparr>)" by (simp add: arp_ok_def)
    moreover have "update_arp_entry link nif ip mac flags a =
        Some (ERR_OK, a\<lparr>lws := m', arp_table := T[i := learnt mac e], sent := sent a @ out\<rparr>)"
      using i(3) l(1) uni by (simp add: update_arp_entry_def unicast_def)
    moreover have "out = []" if "\<not> (matches (Some ip) (T ! i) \<and> e_q (T ! i) \<noteq> NULL)"
      using that e(2) l(3) by (simp split: if_splits)
    moreover have "out = [(e_q (T ! i), frame mac (hwaddr nif) 0x0800 (drop 14 (pdata (lws a) (e_q (T ! i)))))]"
      if "matches (Some ip) (T ! i)" "e_q (T ! i) \<noteq> NULL" "length mac = 6" "length (hwaddr nif) = 6" "14 \<le> pb_len (lws a) (e_q (T ! i))"
      using that e(2) l(4) m by simp
    moreover have "e_ipaddr (learnt mac e) = ip" "e_ethaddr (learnt mac e) = mac" "e_state (learnt mac e) = ETHARP_STATE_STABLE"
      "e_ctime (learnt mac e) = 0" using e(1) by (simp_all add: learnt_def)
    ultimately show ?thesis using p(1) Some i(1)
      by (intro exI [of _ "Some i"]) (simp only: option.case, blast)
  qed
qed

section \<open>Look-ups after updates\<close>

lemma find_entry_found:
  assumes "arp_ok a" "i < ARP_TABLE_SIZE" "matches (Some ip) (arp_table a ! i)"
  shows "find_entry (Some ip) flags a = Some (int i, a)"
proof -
  have "\<exists>e\<in>set (arp_table a). matches (Some ip) e" using assms arp_okD(2) [OF assms(1)] by (metis nth_mem)
  from find_entry_eq [OF assms(1), of ip flags, unfolded if_P [OF this]] obtain j where
    j: "j < ARP_TABLE_SIZE" "find_entry (Some ip) flags a = Some (int j, a)" "matches (Some ip) (arp_table a ! j)" by blast
  have "j = i" using arp_ok_uniq [OF assms(1) j(1) assms(2)] j(3) assms(3) by (auto simp: matches_def)
  with j(2) show ?thesis by simp
qed

lemma find_addr_hit:
  assumes ok: "arp_ok a" and i: "i < ARP_TABLE_SIZE" and e: "e_state (arp_table a ! i) = ETHARP_STATE_STABLE"
  shows "etharp_find_addr (e_ipaddr (arp_table a ! i)) a =
    Some (Some (int i, e_ethaddr (arp_table a ! i), e_ipaddr (arp_table a ! i)), a)"
  using find_entry_found [OF ok i, of "e_ipaddr (arp_table a ! i)"] e by (simp add: etharp_find_addr_def matches_def)

lemma find_addr_miss:
  assumes ok: "arp_ok a" and e: "\<And>e. e \<in> set (arp_table a) \<Longrightarrow> \<not> matches (Some ip) e"
  shows "etharp_find_addr ip a = Some (None, a)"
proof -
  have "find_entry (Some ip) ETHARP_FLAG_FIND_ONLY a = Some (ERR_MEM, a)"
    using find_entry_eq [OF ok, of ip ETHARP_FLAG_FIND_ONLY] e by auto
  then show ?thesis by (simp add: etharp_find_addr_def)
qed

lemma aged_iter_ip:
  "e_state ((aged ^^ k) e) \<noteq> ETHARP_STATE_EMPTY \<Longrightarrow> e_ipaddr ((aged ^^ k) e) = e_ipaddr e \<and> e_state ((aged ^^ k) e) = e_state e"
  by (induction k) (use aged_ip in fastforce)+

lemma find_addr_aged:
  assumes ok: "arp_ok a" and i: "i < ARP_TABLE_SIZE" and e: "e_state (arp_table a ! i) = ETHARP_STATE_STABLE" "e_ctime (arp_table a ! i) = 0"
  shows "\<exists>a'. tmr_iter k a = Some a' \<and> etharp_find_addr (e_ipaddr (arp_table a ! i)) a' =
    Some (if k < 240 then Some (int i, e_ethaddr (arp_table a ! i), e_ipaddr (arp_table a ! i)) else None, a')"
proof -
  let ?T = "arp_table a" and ?e = "arp_table a ! i"
  have l: "length ?T = ARP_TABLE_SIZE" using arp_okD(2) [OF ok] .
  obtain a' where a': "tmr_iter k a = Some a'" "arp_ok a'" "arp_table a' = map (aged ^^ k) ?T"
    using tmr_iter_eq [OF ok, of k] by blast
  have "etharp_find_addr (e_ipaddr ?e) a' = Some (if k < 240 then Some (int i, e_ethaddr ?e, e_ipaddr ?e) else None, a')"
  proof (cases "k < 240")
    case True
    then have "arp_table a' ! i = ?e\<lparr>e_ctime := of_nat k\<rparr>" using aged_stable [OF e(1), of k] e(2) a'(3) i l by simp
    then show ?thesis using find_addr_hit [OF a'(2) i] e(1) True by simp
  next
    case False
    have "\<not> matches (Some (e_ipaddr ?e)) x" if x: "x \<in> set (arp_table a')" for x
    proof
      assume m: "matches (Some (e_ipaddr ?e)) x"
      from x obtain j where j: "j < ARP_TABLE_SIZE" "x = (aged ^^ k) (?T ! j)" using a'(3) l by (auto simp: in_set_conv_nth)
      then have "e_ipaddr (?T ! j) = e_ipaddr ?e" "e_state (?T ! j) \<noteq> ETHARP_STATE_EMPTY"
        using aged_iter_ip [of k "?T ! j"] m by (auto simp: matches_def)
      then have "j = i" using arp_ok_uniq [OF ok j(1) i] e(1) by auto
      then show False using aged_stable_dies [OF e(1), of k] e(2) False m j(2) by (simp add: matches_def)
    qed
    then show ?thesis using find_addr_miss [OF a'(2)] False by simp
  qed
  with a'(1) show ?thesis by blast
qed

lemma update_hard_eq:
  assumes "arp_ok a" "link_ok link" "unicast nif ip"
  shows "\<exists>a' i. update_arp_entry link nif ip mac ETHARP_FLAG_TRY_HARD a = Some (ERR_OK, a') \<and> arp_ok a' \<and> i < ARP_TABLE_SIZE \<and>
    e_ipaddr (arp_table a' ! i) = ip \<and> e_ethaddr (arp_table a' ! i) = mac \<and> e_state (arp_table a' ! i) = ETHARP_STATE_STABLE \<and>
    e_ctime (arp_table a' ! i) = 0"
proof -
  from update_arp_entry_eq [OF assms, of ETHARP_FLAG_TRY_HARD mac] obtain p where p: "picks ip ETHARP_FLAG_TRY_HARD (arp_table a) p"
    "case p of None \<Rightarrow> update_arp_entry link nif ip mac ETHARP_FLAG_TRY_HARD a = Some (ERR_MEM, a)
     | Some i \<Rightarrow> i < ARP_TABLE_SIZE \<and>
        (\<exists>m e out. update_arp_entry link nif ip mac ETHARP_FLAG_TRY_HARD a =
            Some (ERR_OK, a\<lparr>lws := m, arp_table := (arp_table a)[i := e], sent := sent a @ out\<rparr>) \<and>
          arp_ok (a\<lparr>lws := m, arp_table := (arp_table a)[i := e], sent := sent a @ out\<rparr>) \<and>
          e_ipaddr e = ip \<and> e_ethaddr e = mac \<and> e_state e = ETHARP_STATE_STABLE \<and> e_ctime e = 0)"
    by (fastforce split: option.splits)
  then obtain i where i: "p = Some i" by (auto simp: picks_def split: if_splits)
  with p(2) obtain m e out where "i < ARP_TABLE_SIZE" "update_arp_entry link nif ip mac ETHARP_FLAG_TRY_HARD a =
      Some (ERR_OK, a\<lparr>lws := m, arp_table := (arp_table a)[i := e], sent := sent a @ out\<rparr>)"
    "arp_ok (a\<lparr>lws := m, arp_table := (arp_table a)[i := e], sent := sent a @ out\<rparr>)"
    "e_ipaddr e = ip" "e_ethaddr e = mac" "e_state e = ETHARP_STATE_STABLE" "e_ctime e = 0" by auto
  then show ?thesis using arp_okD(2) [OF assms(1)]
    by (intro exI [of _ "a\<lparr>lws := m, arp_table := (arp_table a)[i := e], sent := sent a @ out\<rparr>"] exI [of _ i]) simp
qed

text \<open>
  C29: an address that was learnt by \<open>update_arp_entry\<close> with \<open>ETHARP_FLAG_TRY_HARD\<close> is found, with the
  Ethernet address that was learnt, until \<open>etharp_tmr\<close> has been called \<open>ARP_MAXAGE\<close> times, and not
  afterwards.
\<close>

theorem learnt_address_found:
  assumes "arp_ok a" "link_ok link" "unicast nif ip"
  shows "\<exists>a1 a2 i. update_arp_entry link nif ip mac ETHARP_FLAG_TRY_HARD a = Some (ERR_OK, a1) \<and> tmr_iter k a1 = Some a2 \<and>
    etharp_find_addr ip a2 = Some (if k < 240 then Some (i, mac, ip) else None, a2)"
proof -
  obtain a1 i where a1: "update_arp_entry link nif ip mac ETHARP_FLAG_TRY_HARD a = Some (ERR_OK, a1)" "arp_ok a1" "i < ARP_TABLE_SIZE"
    "e_ipaddr (arp_table a1 ! i) = ip" "e_ethaddr (arp_table a1 ! i) = mac" "e_state (arp_table a1 ! i) = ETHARP_STATE_STABLE"
    "e_ctime (arp_table a1 ! i) = 0" using update_hard_eq [OF assms] by blast
  from find_addr_aged [OF a1(2,3,6,7), of k] a1 show ?thesis by auto
qed

end
