(* ===== verification/LW_ArpRun.thy ===== *)
theory LW_ArpRun
  imports LW_Arp
begin

text \<open>
  Runs of the ARP module: every operation of the module keeps the invariant of the table, and the
  bytes of the replies that it sends.
\<close>

section \<open>What the operations keep of the table\<close>

text \<open>An operation that changes buffers only: the table and the cache stay, the links are kept.\<close>

definition link_only :: "arp \<Rightarrow> arp \<Rightarrow> bool" where
  "link_only a a' \<longleftrightarrow> arp_table a' = arp_table a \<and> etharp_cached_entry a' = etharp_cached_entry a \<and> keeps (lws a) (lws a')"

lemma link_only_refl [simp]: "link_only a a"
  by (simp add: link_only_def)

lemma link_only_trans: "link_only a a' \<Longrightarrow> link_only a' a'' \<Longrightarrow> link_only a a''"
  unfolding link_only_def using keeps_trans by metis

lemma link_only_lws: "keeps (lws a) m \<Longrightarrow> link_only a (a\<lparr>lws := m\<rparr>)"
  by (simp add: link_only_def)

lemma link_only_ok: "link_only a a' \<Longrightarrow> arp_ok a \<Longrightarrow> arp_ok a'"
  by (rule arp_ok_keeps) (auto simp: link_only_def arp_ok_def)

lemma linkoutput_only: "link_ok link \<Longrightarrow> link_only a (snd (linkoutput link nif p a))"
  using linkoutput_eq [of link nif p a] by (auto simp: link_only_def)

lemma send_ip_only: "link_ok link \<Longrightarrow> link_only a (snd (etharp_send_ip link nif p src dst a))"
  using send_ip_eq [of link nif p src dst a] by (auto simp: link_only_def)

lemma etharp_raw_only:
  assumes "link_ok link" "etharp_raw link nif es ed hs si ht ti op a = Some (r, a')"
  shows "link_only a a'"
proof -
  obtain p m where p: "pbuf_alloc PBUF_RAW 42 PBUF_RAM (lws a) = Some (p, m)" using assms(2) by (auto simp: etharp_raw_def bind_eq_Some_conv)
  then have "alloc_ram 0 42 (lws a) = Some (p, m)" by (simp add: pbuf_alloc_ram layer_offset_def)
  then have k: "keeps (lws a) m" using alloc_ram_keeps by blast
  show ?thesis
  proof (cases "p = NULL")
    case True
    then show ?thesis using assms(2) p link_only_lws [OF k] by (simp add: etharp_raw_def)
  next
    case False
    define e where "e = pb_payload m p"
    define w where "w = wr16 (e + 12) (lwip_htons 0x0806) (wr (e + 19) [4] (wr (e + 18) [6] (wr16 (e + 16) (lwip_htons 0x0800)
      (wr16 (e + 14) (lwip_htons 1) (wr32 (e + 38) ti (wr32 (e + 28) si (wr (e + 6) es (wr e ed (wr (e + 32) ht (wr (e + 22) hs
      (wr16 (e + 20) (lwip_htons op) m)))))))))))"
    have "keeps m w" unfolding w_def by (intro keeps_trans [OF _ wr_keeps(1)] keeps_trans [OF _ wr_keeps(2)] keeps_trans [OF _ wr_keeps(3)] keeps_refl)
    then have w: "link_only a (a\<lparr>lws := w\<rparr>)" using link_only_lws keeps_trans [OF k] by blast
    obtain r1 a1 where s: "linkoutput link nif p (a\<lparr>lws := w\<rparr>) = (r1, a1)" by fastforce
    then have a1: "link_only a a1" using link_only_trans [OF w] linkoutput_only [OF assms(1), of "a\<lparr>lws := w\<rparr>" nif p] by simp
    from assms(2) p False s obtain n m2 where f: "pbuf_free p (lws a1) = Some (n, m2)" "a' = a1\<lparr>lws := m2\<rparr>"
      by (auto simp: etharp_raw_def Let_def e_def [symmetric] w_def [symmetric] bind_eq_Some_conv)
    show ?thesis unfolding f(2) by (rule link_only_trans [OF a1 link_only_lws [OF pbuf_free_keeps [OF f(1)]]])
  qed
qed

lemma etharp_request_only:
  "link_ok link \<Longrightarrow> etharp_request link nif ip a = Some (r, a') \<Longrightarrow> link_only a a'"
  unfolding etharp_request_def by (rule etharp_raw_only)

lemma take_over_keeps:
  assumes "take_over q m = Some (p, m')" "packet m q"
  shows "keeps m m' \<and> packet m' p"
proof -
  obtain x where x: "copy_needed_loop m q = Some x" using assms(1) by (auto simp: take_over_def bind_eq_Some_conv)
  show ?thesis
  proof (cases "x = NULL")
    case True
    then have "p = q" "m' = pbuf_ref q m" using assms(1) x by (auto simp: take_over_def)
    then show ?thesis using pbuf_ref_keeps packet_keeps [OF assms(2)] by auto
  next
    case False
    obtain y m1 where y: "pbuf_alloc PBUF_RAW (pb_tot_len m x) PBUF_RAM m = Some (y, m1)"
      using assms(1) x False by (auto simp: take_over_def bind_eq_Some_conv)
    then have "alloc_ram 0 (pb_tot_len m x) m = Some (y, m1)" by (simp add: pbuf_alloc_ram layer_offset_def)
    then have m1: "keeps m m1" "y \<noteq> NULL \<longrightarrow> packet m1 y" using alloc_ram_keeps single_packet by blast+
    show ?thesis
    proof (cases "y = NULL")
      case True
      then show ?thesis using assms(1) x False y m1 by (auto simp: take_over_def)
    next
      case yn: False
      obtain e m2 where e: "pbuf_copy y q m1 = Some (e, m2)"
        using assms(1) x False y yn by (auto simp: take_over_def bind_eq_Some_conv)
      note m2 = pbuf_copy_keeps [OF e]
      show ?thesis
      proof (cases "e = ERR_OK")
        case True
        then have "p = y" "m' = m2" using assms(1) x False y yn e by (auto simp: take_over_def)
        then show ?thesis using keeps_trans [OF m1(1) m2] packet_keeps [OF _ m2] m1(2) yn by blast
      next
        case ne: False
        from assms(1) x False y yn e ne obtain n where "pbuf_free y m2 = Some (n, m')" "p = NULL"
          by (auto simp: take_over_def bind_eq_Some_conv)
        then show ?thesis using keeps_trans [OF keeps_trans [OF m1(1) m2] pbuf_free_keeps] by simp
      qed
    qed
  qed
qed

lemma queue_packet_ok:
  assumes ok: "arp_ok a" and i: "i < ARP_TABLE_SIZE" and e: "e_state (arp_table a ! i) = ETHARP_STATE_PENDING"
    and q: "packet (lws a) q" and run: "queue_packet i q a = Some (r, a')"
  shows "arp_ok a'"
proof -
  obtain p m where p: "take_over q (lws a) = Some (p, m)" using run by (auto simp: queue_packet_def bind_eq_Some_conv)
  note k = take_over_keeps [OF p q]
  show ?thesis
  proof (cases "p = NULL")
    case True
    then have "a' = a\<lparr>lws := m\<rparr>" using run p by (auto simp: queue_packet_def)
    then show ?thesis using link_only_ok [OF link_only_lws ok] k by blast
  next
    case False
    from run p False obtain m' where m': "a' = upd_entry i (e_q_update (\<lambda>_. p)) (a\<lparr>lws := m'\<rparr>)" "keeps m m'"
      by (auto simp: queue_packet_def Let_def bind_eq_Some_conv split: if_splits intro: pbuf_free_keeps)
    let ?e = "(arp_table a ! i)\<lparr>e_q := p\<rparr>"
    have eq: "a' = a\<lparr>lws := m', arp_table := (arp_table a)[i := ?e]\<rparr>" using m'(1) by (simp add: upd_entry_def)
    show ?thesis unfolding eq
    proof (rule arp_ok_upd [OF ok])
      show "keeps (lws a) m'" using k m'(2) keeps_trans by blast
      show "entry_ok ?e" using arp_okD(5) [OF ok i] e by (simp add: entry_ok_def)
      show "packet m' (e_q ?e)" using k packet_keeps [OF _ m'(2)] by simp
      show "e_ipaddr (arp_table a ! j) \<noteq> e_ipaddr ?e"
        if "j < ARP_TABLE_SIZE" "j \<noteq> i" "e_state (arp_table a ! j) \<noteq> ETHARP_STATE_EMPTY" for j
        using arp_ok_uniq [OF ok that(1) i that(2)] that(3) e by simp
    qed
  qed
qed

lemma find_entry_hard:
  assumes ok: "arp_ok a"
  shows "\<exists>i a'. find_entry (Some ip) ETHARP_FLAG_TRY_HARD a = Some (int i, a') \<and> i < ARP_TABLE_SIZE \<and>
    (if \<exists>e\<in>set (arp_table a). matches (Some ip) e then a' = a \<and> matches (Some ip) (arp_table a ! i)
     else victim (arp_table a) i \<and>
       (\<exists>m. a' = a\<lparr>lws := m, arp_table := (arp_table a)[i := fresh ip (arp_table a ! i)]\<rparr> \<and> keeps (lws a) m))"
proof (cases "\<exists>e\<in>set (arp_table a). matches (Some ip) e")
  case True
  then show ?thesis using find_entry_eq [OF ok, of ip ETHARP_FLAG_TRY_HARD] by auto
next
  case False
  have f: "\<not> ((1 :: u8) AND 2 \<noteq> 0 \<or> \<not> (\<exists>e\<in>set (arp_table a). kind_empty e) \<and> (1 :: u8) AND 1 = 0)" by simp
  from find_entry_eq [OF ok, of ip ETHARP_FLAG_TRY_HARD, unfolded if_not_P [OF False] if_not_P [OF f]] obtain i m where
    "victim (arp_table a) i" "find_entry (Some ip) ETHARP_FLAG_TRY_HARD a =
      Some (int i, a\<lparr>lws := m, arp_table := (arp_table a)[i := fresh ip (arp_table a ! i)]\<rparr>)" "keeps (lws a) m" by blast
  moreover from this(1) have "i < ARP_TABLE_SIZE" using arp_okD(2) [OF ok] by (simp add: victim_def)
  ultimately show ?thesis using False by (intro exI [of _ i]) auto
qed

text \<open>The entry that \<open>etharp_query\<close> works on: after the search and the change to pending.\<close>

definition query_entry :: "u32 \<Rightarrow> arp \<Rightarrow> (nat \<times> arp) option" where
  "query_entry ip a = do {
     (i, a) \<leftarrow> find_entry (Some ip) ETHARP_FLAG_TRY_HARD a;
     Some (nat i, if e_state (arp_table a ! nat i) = ETHARP_STATE_EMPTY
       then upd_entry (nat i) (e_state_update (\<lambda>_. ETHARP_STATE_PENDING)) a else a) }"

lemma query_entry_ok:
  assumes ok: "arp_ok a" and ip: "\<not> ip_addr_isany ip" "\<not> ip_addr_ismulticast ip"
  shows "\<exists>i a'. query_entry ip a = Some (i, a') \<and> arp_ok a' \<and> keeps (lws a) (lws a') \<and> i < ARP_TABLE_SIZE \<and>
    matches (Some ip) (arp_table a' ! i) \<and> find_entry (Some ip) ETHARP_FLAG_TRY_HARD a \<noteq> None \<and>
    (\<forall>k b. find_entry (Some ip) ETHARP_FLAG_TRY_HARD a = Some (k, b) \<longrightarrow> k = int i)"
proof -
  let ?T = "arp_table a"
  obtain i a1 where i: "find_entry (Some ip) ETHARP_FLAG_TRY_HARD a = Some (int i, a1)" "i < ARP_TABLE_SIZE"
    "if \<exists>e\<in>set ?T. matches (Some ip) e then a1 = a \<and> matches (Some ip) (?T ! i)
     else victim ?T i \<and> (\<exists>m. a1 = a\<lparr>lws := m, arp_table := ?T[i := fresh ip (?T ! i)]\<rparr> \<and> keeps (lws a) m)"
    using find_entry_hard [OF ok] by blast
  note l = arp_okD(2) [OF ok]
  show ?thesis
  proof (cases "\<exists>e\<in>set ?T. matches (Some ip) e")
    case True
    then have "a1 = a" "matches (Some ip) (?T ! i)" using i(3) by simp_all
    then show ?thesis using i ok by (auto simp: query_entry_def matches_def)
  next
    case False
    then obtain m where m: "a1 = a\<lparr>lws := m, arp_table := ?T[i := fresh ip (?T ! i)]\<rparr>" "keeps (lws a) m" using i(3) by auto
    let ?e = "(fresh ip (?T ! i))\<lparr>e_state := ETHARP_STATE_PENDING\<rparr>"
    let ?a = "a\<lparr>lws := m, arp_table := ?T[i := ?e]\<rparr>"
    have q: "query_entry ip a = Some (i, ?a)"
      using i(1,2) m l by (simp add: query_entry_def upd_entry_def fresh_def)
    have "arp_ok ?a"
    proof (rule arp_ok_upd [OF ok m(2)])
      show "entry_ok ?e" using ip by (simp add: entry_ok_def fresh_def)
      show "packet m (e_q ?e)" by (simp add: fresh_def)
      show "e_ipaddr (?T ! j) \<noteq> e_ipaddr ?e"
        if "j < ARP_TABLE_SIZE" "e_state (?T ! j) \<noteq> ETHARP_STATE_EMPTY" for j
        using False that l by (auto simp: matches_def fresh_def)
    qed
    moreover have "matches (Some ip) (arp_table ?a ! i)" using i(2) l by (simp add: matches_def fresh_def)
    ultimately show ?thesis using q i(1,2) m(2) by auto
  qed
qed

lemma etharp_query_unfold:
  assumes "arp_ok a" "unicast nif ip" "query_entry ip a = Some (i, b)"
  shows "etharp_query link nif ip q a = do {
    (result, c) \<leftarrow> (if e_state (arp_table b ! i) = ETHARP_STATE_PENDING \<or> q = NULL
                    then etharp_request link nif ip b else Some (ERR_MEM, b));
    if q = NULL then Some (result, c)
    else if e_state (arp_table c ! i) = ETHARP_STATE_STABLE then
      Some (etharp_send_ip link nif q (hwaddr nif) (e_ethaddr (arp_table c ! i)) (c\<lparr>etharp_cached_entry := i\<rparr>))
    else if e_state (arp_table c ! i) = ETHARP_STATE_PENDING then queue_packet i q c
    else Some (result, c) }"
proof -
  obtain k a1 where k: "find_entry (Some ip) ETHARP_FLAG_TRY_HARD a = Some (k, a1)" "\<not> k < 0"
    using find_entry_hard [OF assms(1), of ip] by auto
  then have "i = nat k" "b = (if e_state (arp_table a1 ! nat k) = ETHARP_STATE_EMPTY
      then upd_entry (nat k) (e_state_update (\<lambda>_. ETHARP_STATE_PENDING)) a1 else a1)"
    using assms(3) by (auto simp: query_entry_def)
  then show ?thesis using k assms(2) by (simp add: etharp_query_def unicast_def Let_def cong: if_cong)
qed

lemma etharp_query_ok:
  assumes ok: "arp_ok a" and link: "link_ok link" and q: "packet (lws a) q" and run: "etharp_query link nif ip q a = Some (r, a')"
  shows "arp_ok a'"
proof (cases "unicast nif ip")
  case False
  then have "a' = a" using run by (auto simp: etharp_query_def unicast_def)
  then show ?thesis using ok by simp
next
  case uni: True
  then obtain i b where b: "query_entry ip a = Some (i, b)" "arp_ok b" "keeps (lws a) (lws b)" "i < ARP_TABLE_SIZE" "matches (Some ip) (arp_table b ! i)"
    using query_entry_ok [OF ok] unfolding unicast_def by blast
  from run obtain r1 c where c: "(if e_state (arp_table b ! i) = ETHARP_STATE_PENDING \<or> q = NULL
      then etharp_request link nif ip b else Some (ERR_MEM, b)) = Some (r1, c)"
    and rest: "(if q = NULL then Some (r1, c)
      else if e_state (arp_table c ! i) = ETHARP_STATE_STABLE then
        Some (etharp_send_ip link nif q (hwaddr nif) (e_ethaddr (arp_table c ! i)) (c\<lparr>etharp_cached_entry := i\<rparr>))
      else if e_state (arp_table c ! i) = ETHARP_STATE_PENDING then queue_packet i q c
      else Some (r1, c)) = Some (r, a')"
    unfolding etharp_query_unfold [OF ok uni b(1)] bind_eq_Some_conv by auto
  have bc: "link_only b c" using c etharp_request_only [OF link] by (elim if_SomeE) auto
  then have okc: "arp_ok c" "packet (lws c) q" using link_only_ok [OF bc b(2)] packet_keeps [OF packet_keeps [OF q b(3)]] bc by (auto simp: link_only_def)
  show ?thesis using rest
  proof (elim if_SomeE)
    assume *: "Some (etharp_send_ip link nif q (hwaddr nif) (e_ethaddr (arp_table c ! i)) (c\<lparr>etharp_cached_entry := i\<rparr>)) = Some (r, a')"
    have "arp_ok (c\<lparr>etharp_cached_entry := i\<rparr>)" by (rule arp_ok_keeps [OF okc(1)]) (use b(4) in auto)
    with * link_only_ok [OF send_ip_only [OF link]] show ?thesis by (metis option.inject snd_conv)
  next
    assume "e_state (arp_table c ! i) = ETHARP_STATE_PENDING" "queue_packet i q c = Some (r, a')"
    then show ?thesis using queue_packet_ok [OF okc(1) b(4) _ okc(2)] by blast
  qed (use okc in auto)
qed

lemma etharp_output_ok:
  assumes ok: "arp_ok a" and link: "link_ok link" and q: "packet (lws a) q" and run: "etharp_output link nif q ip a = Some (r, a')"
  shows "arp_ok a'"
proof -
  obtain r1 m where h: "pbuf_header q 14 (lws a) = (r1, m)" by fastforce
  let ?a = "a\<lparr>lws := m\<rparr>"
  have k: "keeps (lws a) m" using pbuf_header_keeps [of "lws a" q 14] h by simp
  have a: "arp_ok ?a" "packet (lws ?a) q" using link_only_ok [OF link_only_lws [OF k] ok] packet_keeps [OF q k] by simp_all
  have send: "arp_ok a'" if "Some (etharp_send_ip link nif q (hwaddr nif) d ?a) = Some (r, a')" for d
    using that link_only_ok [OF send_ip_only [OF link] a(1)] by (metis option.inject snd_conv)
  show ?thesis using run unfolding etharp_output_def h prod.case Let_def
    by (elim if_SomeE) (use a send etharp_query_ok [OF a(1) link a(2)] in blast)+
qed

lemma update_arp_entry_ok:
  assumes ok: "arp_ok a" and link: "link_ok link" and run: "update_arp_entry link nif ip mac flags a = Some (r, a')"
  shows "arp_ok a'"
proof (cases "unicast nif ip")
  case False
  then show ?thesis using run ok by (auto simp: update_arp_entry_def unicast_def split: if_splits)
next
  case True
  from update_arp_entry_eq [OF ok link True, of flags mac] show ?thesis using run ok by (auto split: option.splits)
qed

lemma arp_reply_only: "link_ok link \<Longrightarrow> link_only a (arp_reply link nif mac p a)"
  unfolding arp_reply_def Let_def
  by (rule link_only_trans [OF link_only_lws linkoutput_only])
    (intro keeps_trans [OF _ wr_keeps(1)] keeps_trans [OF _ wr_keeps(2)] keeps_trans [OF _ wr_keeps(3)] keeps_refl)

text \<open>The handlers of the upper layers and the DHCP client keep the invariant.\<close>

definition dhcp_ok :: "(u32 \<Rightarrow> arp \<Rightarrow> arp option) \<Rightarrow> bool" where
  "dhcp_ok dhcp_arp_reply \<longleftrightarrow> (\<forall>ip a a'. dhcp_arp_reply ip a = Some a' \<longrightarrow> arp_ok a \<longrightarrow> arp_ok a')"

definition ip_input_ok :: "(ptr \<Rightarrow> netif \<Rightarrow> arp \<Rightarrow> arp option) \<Rightarrow> bool" where
  "ip_input_ok ip_input \<longleftrightarrow> (\<forall>p nif a a'. ip_input p nif a = Some a' \<longrightarrow> arp_ok a \<longrightarrow> arp_ok a')"

lemma drop_ok: "arp_ok a \<Longrightarrow> pbuf_free p (lws a) \<bind> (\<lambda>(_, m). Some (a\<lparr>lws := m\<rparr>)) = Some a' \<Longrightarrow> arp_ok a'"
  using link_only_ok [OF link_only_lws [OF pbuf_free_keeps]] by (auto simp: bind_eq_Some_conv)

lemma etharp_arp_input_ok:
  assumes ok: "arp_ok a" and link: "link_ok link" and dhcp: "dhcp_ok dhcp"
    and run: "etharp_arp_input dhcp link nif mac p a = Some a'"
  shows "arp_ok a'"
proof -
  let ?e = "pb_payload (lws a) p" and ?b = "bytes (lws a)"
  let ?us = "\<not> ip_addr_isany (ip_addr nif) \<and> rd32 ?b (?e + 38) = ip_addr nif"
  have rest: "arp_ok a'" if u: "update_arp_entry link nif sip smac fl a = Some (r, a1)"
    and s: "(if rd16 (bytes (lws a1)) (?e + 20) = lwip_htons 1 then Some (if ?us then arp_reply link nif mac p a1 else a1)
      else if rd16 (bytes (lws a1)) (?e + 20) = lwip_htons 2 then dhcp sip a1 else Some a1) = Some a2"
    and d: "pbuf_free p (lws a2) \<bind> (\<lambda>(_, m). Some (a2\<lparr>lws := m\<rparr>)) = Some a'" for sip smac fl r a1 a2
  proof -
    have a1: "arp_ok a1" by (rule update_arp_entry_ok [OF ok link u])
    have "arp_ok a2" using s
      by (elim if_SomeE) (use a1 link_only_ok [OF arp_reply_only [OF link] a1] dhcp in \<open>auto simp: dhcp_ok_def split: if_splits\<close>)
    then show ?thesis using d by (rule drop_ok)
  qed
  show ?thesis using run unfolding etharp_arp_input_def Let_def
    by (elim if_SomeE) (use drop_ok [OF ok] rest in \<open>auto simp: bind_eq_Some_conv\<close>)
qed

lemma ethernet_input_ok:
  assumes ok: "arp_ok a" and link: "link_ok link" and dhcp: "dhcp_ok dhcp" and ip: "ip_input_ok ip_input"
    and run: "ethernet_input dhcp ip_input link p nif a = Some (r, a')"
  shows "arp_ok a'"
proof -
  obtain r1 m where h: "pbuf_header p (- 14) (lws a) = (r1, m)" by fastforce
  have "keeps (lws a) m" using pbuf_header_keeps [of "lws a" p "- 14"] h by simp
  then have a: "arp_ok (a\<lparr>lws := m\<rparr>)" using link_only_ok [OF link_only_lws _] ok by blast
  have free: "arp_ok a'" if "pbuf_free p (lws b) \<bind> (\<lambda>(_, m). Some (ERR_OK, b\<lparr>lws := m\<rparr>)) = Some (r, a')" "arp_ok b" for b
    using that link_only_ok [OF link_only_lws [OF pbuf_free_keeps]] by (auto simp: bind_eq_Some_conv)
  have up: "arp_ok a'" if "ip_input p nif (a\<lparr>lws := m\<rparr>) \<bind> (\<lambda>a. Some (ERR_OK, a)) = Some (r, a')"
    using that ip a by (auto simp: bind_eq_Some_conv ip_input_ok_def)
  have arp: "arp_ok a'" if "etharp_arp_input dhcp link nif (hwaddr nif) p a \<bind> (\<lambda>a. Some (ERR_OK, a)) = Some (r, a')"
    using that etharp_arp_input_ok [OF ok link dhcp] by (auto simp: bind_eq_Some_conv)
  show ?thesis using run unfolding ethernet_input_def Let_def h prod.case
    by (elim if_SomeE) (use free [OF _ ok] free [OF _ a] up arp in \<open>simp_all\<close>)
qed

section \<open>Runs\<close>

text \<open>
  What happens to the table while the stack runs: the timer, frames that arrive, packets that are
  sent, and changes that other parts of the stack make to the buffers, of which the queued packets
  stay finite chains.
\<close>

inductive arp_run ::
  "(u32 \<Rightarrow> arp \<Rightarrow> arp option) \<Rightarrow> (ptr \<Rightarrow> netif \<Rightarrow> arp \<Rightarrow> arp option) \<Rightarrow> link \<Rightarrow> arp \<Rightarrow> arp \<Rightarrow> bool"
  for dhcp ip_input link where
  start: "arp_run dhcp ip_input link a a"
| timer: "arp_run dhcp ip_input link a b \<Longrightarrow> etharp_tmr b = Some c \<Longrightarrow> arp_run dhcp ip_input link a c"
| inp: "arp_run dhcp ip_input link a b \<Longrightarrow> ethernet_input dhcp ip_input link p nif b = Some (r, c) \<Longrightarrow> arp_run dhcp ip_input link a c"
| outp: "arp_run dhcp ip_input link a b \<Longrightarrow> packet (lws b) q \<Longrightarrow> etharp_output link nif q ip b = Some (r, c) \<Longrightarrow>
    arp_run dhcp ip_input link a c"
| query: "arp_run dhcp ip_input link a b \<Longrightarrow> packet (lws b) q \<Longrightarrow> etharp_query link nif ip q b = Some (r, c) \<Longrightarrow>
    arp_run dhcp ip_input link a c"
| buffers: "arp_run dhcp ip_input link a b \<Longrightarrow> length (memp_tab m) = length (memp_tab (lws b)) \<Longrightarrow>
    (\<And>e. e \<in> set (arp_table b) \<Longrightarrow> packet m (e_q e)) \<Longrightarrow> arp_run dhcp ip_input link a (b\<lparr>lws := m\<rparr>)"

lemma arp_run_ok:
  assumes "arp_run dhcp ip_input link a b" "dhcp_ok dhcp" "ip_input_ok ip_input" "link_ok link" "arp_ok a"
  shows "arp_ok b"
  using assms(1,5)
proof (induction rule: arp_run.induct)
  case (timer a b c)
  then show ?case using etharp_tmr_eq [of b] by auto
next
  case (inp a b p nif r c)
  then show ?case using ethernet_input_ok [OF _ assms(4,2,3)] by blast
next
  case (outp a b q nif ip r c)
  then show ?case using etharp_output_ok [OF _ assms(4)] by blast
next
  case (query a b q nif ip r c)
  then show ?case using etharp_query_ok [OF _ assms(4)] by blast
next
  case (buffers a b m)
  then show ?case by (simp add: arp_ok_def)
qed simp

section \<open>The bytes of requests and replies\<close>

text \<open>The parts of an Ethernet frame with an ARP packet.\<close>

lemma arp_parts:
  assumes "42 \<le> length (l :: u8 list)"
  obtains d s t o' h i th ti r where "l = d @ s @ t @ o' @ h @ i @ th @ ti @ r" "length d = 6" "length s = 6" "length t = 8" "length o' = 2"
    "length h = 6" "length i = 4" "length th = 6" "length ti = 4"
proof
  let ?p = "\<lambda>k n. take n (drop k l)"
  have "drop k l = take n (drop k l) @ drop (k + n) l" for k n by (metis append_take_drop_id drop_drop add.commute)
  from this [of 0 6] this [of 6 6] this [of 12 8] this [of 20 2] this [of 22 6] this [of 28 4] this [of 32 6] this [of 38 4]
  show "l = ?p 0 6 @ ?p 6 6 @ ?p 12 8 @ ?p 20 2 @ ?p 22 6 @ ?p 28 4 @ ?p 32 6 @ ?p 38 4 @ drop 42 l" by simp
qed (use assms in auto)

lemma arp_reply_bytes:
  fixes ip :: u32
  assumes "42 \<le> length l" "length mac = 6"
  defines "l1 \<equiv> put_bytes 20 [0, 2] l"
  defines "l2 \<equiv> put_bytes 38 (take 4 (drop 28 l1)) l1"
  defines "l3 \<equiv> put_bytes 28 (addr_octets ip) l2"
  defines "l4 \<equiv> put_bytes 32 (take 6 (drop 22 l3)) l3"
  defines "l5 \<equiv> put_bytes 0 (take 6 (drop 22 l4)) l4"
  defines "l6 \<equiv> put_bytes 22 mac l5"
  shows "put_bytes 6 mac l6 =
    take 6 (drop 22 l) @ mac @ take 8 (drop 12 l) @ [0, 2] @ mac @ addr_octets ip @ take 6 (drop 22 l) @ take 4 (drop 28 l) @ drop 42 l"
proof -
  from arp_parts [OF assms(1)] obtain d s t o' h i th ti r where p: "l = d @ s @ t @ o' @ h @ i @ th @ ti @ r"
    "length d = 6" "length s = 6" "length t = 8" "length o' = 2" "length h = 6" "length i = 4" "length th = 6" "length ti = 4" .
  have 1: "l1 = d @ s @ t @ [0, 2] @ h @ i @ th @ ti @ r" using p by (simp add: l1_def put_bytes_def)
  have 2: "l2 = d @ s @ t @ [0, 2] @ h @ i @ th @ i @ r" using p 1 by (simp add: l2_def put_bytes_def)
  have 3: "l3 = d @ s @ t @ [0, 2] @ h @ addr_octets ip @ th @ i @ r" using p 2 by (simp add: l3_def put_bytes_def)
  have 4: "l4 = d @ s @ t @ [0, 2] @ h @ addr_octets ip @ h @ i @ r" using p 3 by (simp add: l4_def put_bytes_def)
  have 5: "l5 = h @ s @ t @ [0, 2] @ h @ addr_octets ip @ h @ i @ r" using p 4 by (simp add: l5_def put_bytes_def)
  have 6: "l6 = h @ s @ t @ [0, 2] @ mac @ addr_octets ip @ h @ i @ r" using p 5 assms(2) by (simp add: l6_def put_bytes_def)
  show ?thesis using p 6 assms(2) by (simp add: put_bytes_def)
qed

text \<open>
  The reply to a request goes to the hardware address of the sender, with the sender's addresses
  as target and the addresses of this interface as sender; the rest of the frame is as it arrived.
\<close>

theorem arp_reply_frame:
  assumes "42 \<le> pb_len (lws a) p" "length ethaddr = 6"
  shows "sent (arp_reply link nif ethaddr p a) = sent a @ [(p,
    let l = pdata (lws a) p in
      take 6 (drop 22 l) @ ethaddr @ take 8 (drop 12 l) @ [0, 2] @ ethaddr @ addr_octets (ip_addr nif) @
      take 6 (drop 22 l) @ take 4 (drop 28 l) @ drop 42 l)]"
proof -
  let ?e = "pb_payload (lws a) p" and ?n = "unat (pb_len (lws a) p)"
  let ?l = "pdata (lws a) p"
  have n: "42 \<le> ?n" "?n \<le> 65536" using assms(1) by (simp_all add: word_le_nat_alt less_imp_le)
  define m1 where "m1 = wr16 (?e + 20) (lwip_htons 2) (lws a)"
  define m2 where "m2 = wr (?e + 38) (bytes_at (bytes m1) (?e + 28) 4) m1"
  define m3 where "m3 = wr32 (?e + 28) (ip_addr nif) m2"
  define m4 where "m4 = wr (?e + 32) (bytes_at (bytes m3) (?e + 22) 6) m3"
  define m5 where "m5 = wr ?e (bytes_at (bytes m4) (?e + 22) 6) m4"
  define m6 where "m6 = wr (?e + 22) ethaddr m5"
  define m7 where "m7 = wr (?e + 6) ethaddr m6"
  define l where "l m = bytes_at (bytes m) ?e ?n" for m :: lw
  have 0: "l (lws a) = ?l" by (simp add: l_def pdata_def)
  have sub: "bytes_at (bytes m) (?e + of_nat k) j = take j (drop k (l m))" if "k + j \<le> ?n" for m k j
    unfolding l_def by (rule bytes_at_sub [OF that])
  have w: "l (wr (?e + of_nat k) bs m) = put_bytes k bs (l m)" if "k + length bs \<le> ?n" for m k bs
    unfolding l_def by (rule bytes_at_put [OF that n(2)])
  have 1: "l m1 = put_bytes 20 [0, 2] ?l" using w [of 20 "[0, 2]"] n(1) 0 by (simp add: m1_def htons_put)
  have 2: "l m2 = put_bytes 38 (take 4 (drop 28 (l m1))) (l m1)"
    using w [of 38 "bytes_at (bytes m1) (?e + 28) 4"] sub [of 28 4 m1] n(1) by (simp add: m2_def)
  have 3: "l m3 = put_bytes 28 (addr_octets (ip_addr nif)) (l m2)"
    using w [of 28 "addr_octets (ip_addr nif)"] n(1) by (simp add: m3_def wr32_def)
  have 4: "l m4 = put_bytes 32 (take 6 (drop 22 (l m3))) (l m3)"
    using w [of 32 "bytes_at (bytes m3) (?e + 22) 6"] sub [of 22 6 m3] n(1) by (simp add: m4_def)
  have 5: "l m5 = put_bytes 0 (take 6 (drop 22 (l m4))) (l m4)"
    using w [of 0 "bytes_at (bytes m4) (?e + 22) 6"] sub [of 22 6 m4] n(1) by (simp add: m5_def)
  have 6: "l m6 = put_bytes 22 ethaddr (l m5)" using w [of 22 ethaddr] n(1) assms(2) by (simp add: m6_def)
  have 7: "l m7 = put_bytes 6 ethaddr (l m6)" using w [of 6 ethaddr] n(1) assms(2) by (simp add: m7_def)
  have "42 \<le> length ?l" using n(1) by (simp add: pdata_def)
  from arp_reply_bytes [OF this assms(2), of "ip_addr nif"] have
    "l m7 = take 6 (drop 22 ?l) @ ethaddr @ take 8 (drop 12 ?l) @ [0, 2] @ ethaddr @ addr_octets (ip_addr nif) @
      take 6 (drop 22 ?l) @ take 4 (drop 28 ?l) @ drop 42 ?l" unfolding 7 6 5 4 3 2 1 .
  moreover have "pdata m7 p = l m7" unfolding l_def pdata_def m7_def m6_def m5_def m4_def m3_def m2_def m1_def by simp
  moreover have "sent (arp_reply link nif ethaddr p a) = sent a @ [(p, pdata m7 p)]"
    unfolding arp_reply_def Let_def m1_def [symmetric] m2_def [symmetric] m3_def [symmetric] m4_def [symmetric]
      m5_def [symmetric] m6_def [symmetric] m7_def [symmetric] by (simp add: linkoutput_def split: prod.splits)
  ultimately show ?thesis by (simp add: Let_def)
qed


section \<open>Sample state\<close>

definition smp_entry :: etharp_entry where
  "smp_entry = \<lparr>e_q = NULL, e_ipaddr = 0, e_ethaddr = ethzero, e_state = ETHARP_STATE_EMPTY, e_ctime = 0\<rparr>"

definition smp_arp :: arp where
  "smp_arp = \<lparr>lws = undefined\<lparr>bytes := (\<lambda>_. 7), pb_next := (\<lambda>_. NULL), pb_payload := (\<lambda>_. 0x1000), pb_len := (\<lambda>_. 42), pb_tot_len := (\<lambda>_. 42),
       pb_type := (\<lambda>_. PBUF_RAM), pb_flags := (\<lambda>_. 0), pb_ref_count := (\<lambda>_. 2), memp_tab := replicate 15 NULL\<rparr>,
     arp_table = replicate 10 smp_entry, etharp_cached_entry = 0, sent = []\<rparr>"

definition smp_netif :: netif where
  "smp_netif = \<lparr>ip_addr = 0x0200A8C0, netmask = 0x00FFFFFF, gw = 0x0100A8C0, mtu = 1500, hwaddr = [2, 0, 0, 0, 0, 1], netif_flags = 0x22\<rparr>"

definition smp_link :: link where
  "smp_link nif p m = (ERR_OK, m)"

lemma smp_link_ok: "link_ok smp_link"
  by (simp add: link_ok_def smp_link_def)

lemma empty_table_ok:
  assumes "arp_table a = replicate ARP_TABLE_SIZE e" "e_state e = ETHARP_STATE_EMPTY" "e_q e = NULL"
    "etharp_cached_entry a < ARP_TABLE_SIZE" "14 < length (memp_tab (lws a))"
  shows "arp_ok a"
  using assms by (simp add: arp_ok_def tab_ok_def entry_ok_def)

lemma smp_arp_ok: "arp_ok smp_arp"
  by (rule empty_table_ok [of _ smp_entry]) (simp_all add: smp_arp_def smp_entry_def)

lemma smp_unicast: "unicast smp_netif 0x0500A8C0"
  by (simp add: unicast_def smp_netif_def ip_addr_isany_def ip4_addr_isbroadcast_def ip_addr_ismulticast_def)

theorem learnt_address_found_witness:
  "\<exists>a1 a2 i. update_arp_entry smp_link smp_netif 0x0500A8C0 [2, 0, 0, 0, 0, 5] ETHARP_FLAG_TRY_HARD smp_arp = Some (ERR_OK, a1) \<and>
    tmr_iter 239 a1 = Some a2 \<and> etharp_find_addr 0x0500A8C0 a2 = Some (Some (i, [2, 0, 0, 0, 0, 5], 0x0500A8C0), a2)"
  using learnt_address_found [OF smp_arp_ok smp_link_ok smp_unicast, of "[2, 0, 0, 0, 0, 5]" 239] by simp

theorem arp_reply_frame_witness:
  "sent (arp_reply smp_link smp_netif [2, 0, 0, 0, 0, 1] 0x500 smp_arp) =
    [(0x500, replicate 6 7 @ [2, 0, 0, 0, 0, 1] @ replicate 8 7 @ [0, 2] @ [2, 0, 0, 0, 0, 1] @ [192, 168, 0, 2] @ replicate 10 7)]"
proof -
  have "(42 :: u16) \<le> pb_len (lws smp_arp) 0x500" by (simp add: smp_arp_def)
  moreover have "pdata (lws smp_arp) 0x500 = replicate 42 7"
    unfolding pdata_def by (rule nth_equalityI) (simp_all add: smp_arp_def)
  moreover have "addr_octets (ip_addr smp_netif) = [192, 168, 0, 2]" by (simp add: smp_netif_def addr_octets_def)
  ultimately show ?thesis using arp_reply_frame [of smp_arp "0x500" "[2, 0, 0, 0, 0, 1]" smp_link smp_netif]
    by (simp add: Let_def smp_arp_def) (simp add: numeral_eq_Suc)
qed

section \<open>Properties of runs\<close>

text \<open>
  C28: as long as the stack runs from an empty table, no two entries are for the same address, no entry
  is for a multicast address or for address 0, a stable entry is younger than \<open>ARP_MAXAGE\<close> and a
  pending one younger than \<open>ARP_MAXPENDING\<close> calls of the timer, only pending entries hold a packet; and
  the timer returns and ages every entry by one.
\<close>

theorem arp_table_invariant:
  assumes "arp_run dhcp ip_input link a b" "dhcp_ok dhcp" "ip_input_ok ip_input" "link_ok link"
    and "arp_table a = replicate ARP_TABLE_SIZE e" "e_state e = ETHARP_STATE_EMPTY" "e_q e = NULL"
    and "etharp_cached_entry a < ARP_TABLE_SIZE" "14 < length (memp_tab (lws a))"
  shows "tab_ok (arp_table b) \<and> (\<exists>c. etharp_tmr b = Some c \<and> arp_table c = map aged (arp_table b))"
proof -
  have ok: "arp_ok b" by (rule arp_run_ok [OF assms(1-4) empty_table_ok [OF assms(5-9)]])
  then show ?thesis using etharp_tmr_eq [OF ok] by (auto simp: arp_ok_def)
qed

theorem arp_table_invariant_witness:
  "\<exists>a b. etharp_output smp_link smp_netif 0x500 0xFFFFFFFF smp_arp = Some (ERR_OK, a) \<and>
    etharp_tmr a = Some b \<and> tab_ok (arp_table b)"
proof -
  let ?dhcp = "\<lambda>_ a. Some a" and ?ip = "\<lambda>_ _ a. Some a"
  have ok: "dhcp_ok ?dhcp" "ip_input_ok ?ip" by (simp_all add: dhcp_ok_def ip_input_ok_def)
  have init: "arp_table smp_arp = replicate ARP_TABLE_SIZE smp_entry" "e_state smp_entry = ETHARP_STATE_EMPTY" "e_q smp_entry = NULL"
    "etharp_cached_entry smp_arp < ARP_TABLE_SIZE" "14 < length (memp_tab (lws smp_arp))"
    by (simp_all add: smp_arp_def smp_entry_def)
  note inv = arp_table_invariant [OF _ ok smp_link_ok init]
  have "packet (lws smp_arp) 0x500" by (rule single_packet) (simp_all add: smp_arp_def)
  moreover obtain a where a: "etharp_output smp_link smp_netif 0x500 0xFFFFFFFF smp_arp = Some (ERR_OK, a)"
    by (simp add: etharp_output_def pbuf_header_def smp_arp_def Let_def SIZEOF_STRUCT_PBUF_def etharp_send_ip_def linkoutput_def
      smp_link_def ip4_addr_isbroadcast_def)
  ultimately have run: "arp_run ?dhcp ?ip smp_link smp_arp a" using arp_run.outp [OF arp_run.start] by blast
  from inv [OF run] obtain b where b: "etharp_tmr a = Some b" by blast
  with inv [OF arp_run.timer [OF run b]] a show ?thesis by blast
qed

text \<open>
  C30: when the hardware address of a pending entry becomes known, the packet that waits in the entry is
  sent in a frame to this address, and the entry is stable and holds no packet.
\<close>

theorem queued_packet_sent:
  assumes "arp_ok a" "link_ok link" "unicast nif (e_ipaddr (arp_table a ! i))" "i < ARP_TABLE_SIZE"
    and "e_q (arp_table a ! i) \<noteq> NULL" "14 \<le> pb_len (lws a) (e_q (arp_table a ! i))" "length mac = 6" "length (hwaddr nif) = 6"
  shows "\<exists>a'. update_arp_entry link nif (e_ipaddr (arp_table a ! i)) mac flags a = Some (ERR_OK, a') \<and>
    sent a' = sent a @ [(e_q (arp_table a ! i), frame mac (hwaddr nif) 0x0800 (drop 14 (pdata (lws a) (e_q (arp_table a ! i)))))] \<and>
    e_state (arp_table a' ! i) = ETHARP_STATE_STABLE \<and> e_ethaddr (arp_table a' ! i) = mac \<and> e_q (arp_table a' ! i) = NULL"
proof -
  let ?e = "arp_table a ! i"
  have m: "matches (Some (e_ipaddr ?e)) ?e"
    using arp_okD(5) [OF assms(1,4)] assms(5) by (cases "e_state ?e") (auto simp: matches_def entry_ok_def)
  have f: "find_entry (Some (e_ipaddr ?e)) flags a = Some (int i, a)" by (rule find_entry_found [OF assms(1,4) m])
  have l: "i < length (arp_table a)" using assms(1,4) arp_okD(2) by simp
  obtain m' out where e: "learn_entry link nif i mac a =
      Some (ERR_OK, a\<lparr>lws := m', arp_table := (arp_table a)[i := learnt mac ?e], sent := sent a @ out\<rparr>)"
    "out = [(e_q ?e, frame mac (hwaddr nif) 0x0800 (drop 14 (pdata (lws a) (e_q ?e))))]"
    using learn_entry_eq [OF assms(2) l arp_okD(4,3) [OF assms(1)], OF assms(4), of nif mac] assms(5-8) by blast
  have "update_arp_entry link nif (e_ipaddr ?e) mac flags a =
      Some (ERR_OK, a\<lparr>lws := m', arp_table := (arp_table a)[i := learnt mac ?e], sent := sent a @ out\<rparr>)"
    using f e(1) assms(3) by (simp add: update_arp_entry_def unicast_def)
  then show ?thesis using e(2) l by (simp add: learnt_def)
qed

theorem queued_packet_sent_witness:
  "\<exists>a'. update_arp_entry smp_link smp_netif 0x0500A8C0 [2, 0, 0, 0, 0, 5] ETHARP_FLAG_FIND_ONLY
      (smp_arp\<lparr>arp_table := (arp_table smp_arp)[3 := smp_entry\<lparr>e_q := 0x500, e_ipaddr := 0x0500A8C0, e_state := ETHARP_STATE_PENDING\<rparr>]\<rparr>) =
      Some (ERR_OK, a') \<and>
    sent a' = [(0x500, frame [2, 0, 0, 0, 0, 5] [2, 0, 0, 0, 0, 1] 0x0800 (replicate 28 7))]"
proof -
  let ?e = "smp_entry\<lparr>e_q := 0x500, e_ipaddr := 0x0500A8C0, e_state := ETHARP_STATE_PENDING\<rparr>"
  let ?a = "smp_arp\<lparr>arp_table := (arp_table smp_arp)[3 := ?e]\<rparr>"
  have "arp_ok (smp_arp\<lparr>lws := lws smp_arp, arp_table := (arp_table smp_arp)[3 := ?e]\<rparr>)"
  proof (rule arp_ok_upd [OF smp_arp_ok keeps_refl])
    show "entry_ok ?e" by (simp add: entry_ok_def smp_entry_def ip_addr_isany_def ip_addr_ismulticast_def)
    show "packet (lws smp_arp) (e_q ?e)" using single_packet [of "0x500" "lws smp_arp"] by (simp add: smp_arp_def)
    show "e_ipaddr (arp_table smp_arp ! j) \<noteq> e_ipaddr ?e"
      if "j < ARP_TABLE_SIZE" "e_state (arp_table smp_arp ! j) \<noteq> ETHARP_STATE_EMPTY" for j
      using that by (simp add: smp_arp_def smp_entry_def)
  qed
  then have ok: "arp_ok ?a" by simp
  have e: "arp_table ?a ! 3 = ?e" by (simp add: smp_arp_def)
  have "pdata (lws smp_arp) 0x500 = replicate 42 7"
    unfolding pdata_def by (rule nth_equalityI) (simp_all add: smp_arp_def)
  then show ?thesis
    using queued_packet_sent [OF ok smp_link_ok, of smp_netif 3 "[2, 0, 0, 0, 0, 5]" ETHARP_FLAG_FIND_ONLY, unfolded e] smp_unicast
    by (auto simp: smp_netif_def smp_arp_def)
qed

text \<open>
  The copy of a packet is as long as the rest of the chain from its first buffer that is not
  read-only memory: a packet with a read-only buffer in front of it cannot be copied into it, and is
  not queued.
\<close>

lemma rom_head_not_queued:
  assumes "q \<noteq> NULL" "pb_type m q = PBUF_ROM" "pb_next m q \<noteq> NULL" "pb_type m (pb_next m q) \<noteq> PBUF_ROM"
    and "pb_tot_len m (pb_next m q) < pb_tot_len m q"
    and "pbuf_alloc PBUF_RAW (pb_tot_len m (pb_next m q)) PBUF_RAM m = Some (y, m1)"
    and "y \<noteq> NULL \<Longrightarrow> pb_tot_len m1 y = pb_tot_len m (pb_next m q) \<and> pb_tot_len m1 q = pb_tot_len m q"
    and "take_over q m = Some (p, m')"
  shows "p = NULL"
proof -
  have "copy_needed_loop m q = Some (pb_next m q)" using assms(1-4) by (subst copy_needed_loop.simps) (simp add: copy_needed_loop.simps)
  moreover have "pbuf_copy y q m1 = Some (ERR_ARG, m1)" if "y \<noteq> NULL" using assms(5) assms(7) [OF that] by (auto simp: pbuf_copy_def)
  ultimately show ?thesis using assms(3,6,8) by (auto simp: take_over_def bind_eq_Some_conv split: if_splits)
qed

end
