(* ===== verification/LW_Timers.thy ===== *)
theory LW_Timers
  imports LW_Memp Alarms "HOL-Library.Multiset"
begin

text \<open>
  The timeouts of the stack: \<open>timers.c\<close>, and the fetch of a message with a time limit of
  \<open>sys_arch.c\<close> that the timeouts rest on. A timeout is an element of the pool
  \<open>MEMP_SYS_TIMEOUT\<close>; pending timeouts are linked in the order of expiry, each with the time
  from the expiry of the one before it. \<open>torep\<close> reads the list as alarms; the handlers that
  enter themselves again are shown never to be lost.
\<close>

section \<open>State\<close>

abbreviation (input) MEMP_SYS_TIMEOUT :: nat where "MEMP_SYS_TIMEOUT \<equiv> 11"

abbreviation (input) TCP_TMR_INTERVAL :: u32 where "TCP_TMR_INTERVAL \<equiv> 250"
abbreviation (input) IP_TMR_INTERVAL :: u32 where "IP_TMR_INTERVAL \<equiv> 1000"
abbreviation (input) ARP_TMR_INTERVAL :: u32 where "ARP_TMR_INTERVAL \<equiv> 5000"
abbreviation (input) DHCP_COARSE_TIMER_MSECS :: u32 where "DHCP_COARSE_TIMER_MSECS \<equiv> 60000"
abbreviation (input) DHCP_FINE_TIMER_MSECS :: u32 where "DHCP_FINE_TIMER_MSECS \<equiv> 500"
abbreviation (input) IGMP_TMR_INTERVAL :: u32 where "IGMP_TMR_INTERVAL \<equiv> 100"
abbreviation (input) DNS_TMR_INTERVAL :: u32 where "DNS_TMR_INTERVAL \<equiv> 1000"
abbreviation (input) SYS_ARCH_TIMEOUT :: u32 where "SYS_ARCH_TIMEOUT \<equiv> 0xffffffff"

text \<open>The functions a timeout can call: those of \<open>timers.c\<close>, or one given by its address.\<close>

datatype sys_timeout_handler =
  Tcpip_tcp_timer | Ip_reass_timer | Arp_timer | Dhcp_timer_coarse | Dhcp_timer_fine | Igmp_timer | Dns_timer
| Handler ptr

text \<open>The fields of \<open>struct sys_timeo\<close> and the variables of \<open>timers.c\<close>, over the state of the stack.\<close>

record tms =
  stk :: lw
  next_timeout :: ptr
  to_next :: "ptr \<Rightarrow> ptr"
  to_time :: "ptr \<Rightarrow> u32"
  to_h :: "ptr \<Rightarrow> sys_timeout_handler"
  to_arg :: "ptr \<Rightarrow> ptr"
  tcpip_tcp_timer_active :: bool

abbreviation (input) put_to_next :: "ptr \<Rightarrow> ptr \<Rightarrow> tms \<Rightarrow> tms" where
  "put_to_next t v s \<equiv> s\<lparr>to_next := (to_next s)(t := v)\<rparr>"
abbreviation (input) put_to_time :: "ptr \<Rightarrow> u32 \<Rightarrow> tms \<Rightarrow> tms" where
  "put_to_time t v s \<equiv> s\<lparr>to_time := (to_time s)(t := v)\<rparr>"

section \<open>Setting and removing a timeout\<close>

partial_function (option) sys_timeout_loop :: "ptr \<Rightarrow> ptr \<Rightarrow> tms \<Rightarrow> tms option" where
  "sys_timeout_loop timeout t s =
     (if t \<noteq> NULL then
        let s = put_to_time timeout (to_time s timeout - to_time s t) s in
        if to_next s t = NULL \<or> to_time s (to_next s t) > to_time s timeout then
          let s = (if to_next s t \<noteq> NULL
                   then put_to_time (to_next s t) (to_time s (to_next s t) - to_time s timeout) s else s);
              s = put_to_next timeout (to_next s t) s;
              s = put_to_next t timeout s
          in Some s
        else sys_timeout_loop timeout (to_next s t) s
      else Some s)"

definition sys_timeout :: "u32 \<Rightarrow> sys_timeout_handler \<Rightarrow> ptr \<Rightarrow> tms \<Rightarrow> tms option" where
  "sys_timeout msecs handler arg s =
     (let (timeout, m) = memp_malloc MEMP_SYS_TIMEOUT (stk s); s = s\<lparr>stk := m\<rparr> in
      if timeout = NULL then Some s
      else
        let s = put_to_next timeout NULL s;
            s = s\<lparr>to_h := (to_h s)(timeout := handler)\<rparr>;
            s = s\<lparr>to_arg := (to_arg s)(timeout := arg)\<rparr>;
            s = put_to_time timeout msecs s
        in
        if next_timeout s = NULL then Some (s\<lparr>next_timeout := timeout\<rparr>)
        else if to_time s (next_timeout s) > msecs then
          let s = put_to_time (next_timeout s) (to_time s (next_timeout s) - msecs) s;
              s = put_to_next timeout (next_timeout s) s
          in Some (s\<lparr>next_timeout := timeout\<rparr>)
        else sys_timeout_loop timeout (next_timeout s) s)"

partial_function (option) sys_untimeout_loop ::
  "sys_timeout_handler \<Rightarrow> ptr \<Rightarrow> ptr \<Rightarrow> ptr \<Rightarrow> tms \<Rightarrow> tms option" where
  "sys_untimeout_loop handler arg prev_t t s =
     (if t \<noteq> NULL then
        if to_h s t = handler \<and> to_arg s t = arg then
          let s = (if prev_t = NULL then s\<lparr>next_timeout := to_next s t\<rparr> else put_to_next prev_t (to_next s t) s);
              s = (if to_next s t \<noteq> NULL
                   then put_to_time (to_next s t) (to_time s (to_next s t) + to_time s t) s else s)
          in memp_free MEMP_SYS_TIMEOUT t (stk s) \<bind> (\<lambda>m. Some (s\<lparr>stk := m\<rparr>))
        else sys_untimeout_loop handler arg t (to_next s t) s
      else Some s)"

definition sys_untimeout :: "sys_timeout_handler \<Rightarrow> ptr \<Rightarrow> tms \<Rightarrow> tms option" where
  "sys_untimeout handler arg s =
     (if next_timeout s = NULL then Some s else sys_untimeout_loop handler arg NULL (next_timeout s) s)"

section \<open>The handlers that enter themselves again\<close>

text \<open>
  \<open>work\<close> stands for the timer functions of the protocols (\<open>tcp_tmr\<close>, \<open>ip_reass_tmr\<close>,
  \<open>etharp_tmr\<close>, \<open>dhcp_coarse_tmr\<close>, \<open>dhcp_fine_tmr\<close>, \<open>igmp_tmr\<close>, \<open>dns_tmr\<close>) and for the handlers given by
  an address; \<open>pcbs\<close> says whether there are active or waiting TCP connections.
\<close>

type_synonym timer_work = "sys_timeout_handler \<Rightarrow> ptr \<Rightarrow> lw \<Rightarrow> lw"

abbreviation (input) run_work :: "timer_work \<Rightarrow> sys_timeout_handler \<Rightarrow> ptr \<Rightarrow> tms \<Rightarrow> tms" where
  "run_work work h arg s \<equiv> s\<lparr>stk := work h arg (stk s)\<rparr>"

definition tcpip_tcp_timer :: "(lw \<Rightarrow> bool) \<Rightarrow> timer_work \<Rightarrow> ptr \<Rightarrow> tms \<Rightarrow> tms option" where
  "tcpip_tcp_timer pcbs work arg s =
     (let s = run_work work Tcpip_tcp_timer arg s in
      if pcbs (stk s) then sys_timeout TCP_TMR_INTERVAL Tcpip_tcp_timer NULL s
      else Some (s\<lparr>tcpip_tcp_timer_active := False\<rparr>))"

definition tcp_timer_needed :: "(lw \<Rightarrow> bool) \<Rightarrow> tms \<Rightarrow> tms option" where
  "tcp_timer_needed pcbs s =
     (if \<not> tcpip_tcp_timer_active s \<and> pcbs (stk s) then
        sys_timeout TCP_TMR_INTERVAL Tcpip_tcp_timer NULL (s\<lparr>tcpip_tcp_timer_active := True\<rparr>)
      else Some s)"

definition ip_reass_timer :: "timer_work \<Rightarrow> ptr \<Rightarrow> tms \<Rightarrow> tms option" where
  "ip_reass_timer work arg s = sys_timeout IP_TMR_INTERVAL Ip_reass_timer NULL (run_work work Ip_reass_timer arg s)"

definition arp_timer :: "timer_work \<Rightarrow> ptr \<Rightarrow> tms \<Rightarrow> tms option" where
  "arp_timer work arg s = sys_timeout ARP_TMR_INTERVAL Arp_timer NULL (run_work work Arp_timer arg s)"

definition dhcp_timer_coarse :: "timer_work \<Rightarrow> ptr \<Rightarrow> tms \<Rightarrow> tms option" where
  "dhcp_timer_coarse work arg s =
     sys_timeout DHCP_COARSE_TIMER_MSECS Dhcp_timer_coarse NULL (run_work work Dhcp_timer_coarse arg s)"

definition dhcp_timer_fine :: "timer_work \<Rightarrow> ptr \<Rightarrow> tms \<Rightarrow> tms option" where
  "dhcp_timer_fine work arg s =
     sys_timeout DHCP_FINE_TIMER_MSECS Dhcp_timer_fine NULL (run_work work Dhcp_timer_fine arg s)"

definition igmp_timer :: "timer_work \<Rightarrow> ptr \<Rightarrow> tms \<Rightarrow> tms option" where
  "igmp_timer work arg s = sys_timeout IGMP_TMR_INTERVAL Igmp_timer NULL (run_work work Igmp_timer arg s)"

definition dns_timer :: "timer_work \<Rightarrow> ptr \<Rightarrow> tms \<Rightarrow> tms option" where
  "dns_timer work arg s = sys_timeout DNS_TMR_INTERVAL Dns_timer NULL (run_work work Dns_timer arg s)"

text \<open>The call \<open>handler(arg)\<close>; the handler \<open>NULL\<close> is not called.\<close>

fun call_handler :: "(lw \<Rightarrow> bool) \<Rightarrow> timer_work \<Rightarrow> sys_timeout_handler \<Rightarrow> ptr \<Rightarrow> tms \<Rightarrow> tms option" where
  "call_handler pcbs work Tcpip_tcp_timer arg s = tcpip_tcp_timer pcbs work arg s"
| "call_handler pcbs work Ip_reass_timer arg s = ip_reass_timer work arg s"
| "call_handler pcbs work Arp_timer arg s = arp_timer work arg s"
| "call_handler pcbs work Dhcp_timer_coarse arg s = dhcp_timer_coarse work arg s"
| "call_handler pcbs work Dhcp_timer_fine arg s = dhcp_timer_fine work arg s"
| "call_handler pcbs work Igmp_timer arg s = igmp_timer work arg s"
| "call_handler pcbs work Dns_timer arg s = dns_timer work arg s"
| "call_handler pcbs work (Handler p) arg s = Some (if p \<noteq> NULL then run_work work (Handler p) arg s else s)"

definition sys_timeouts_init :: "tms \<Rightarrow> tms option" where
  "sys_timeouts_init s = do {
     s \<leftarrow> sys_timeout IP_TMR_INTERVAL Ip_reass_timer NULL s;
     s \<leftarrow> sys_timeout ARP_TMR_INTERVAL Arp_timer NULL s;
     s \<leftarrow> sys_timeout DHCP_COARSE_TIMER_MSECS Dhcp_timer_coarse NULL s;
     s \<leftarrow> sys_timeout DHCP_FINE_TIMER_MSECS Dhcp_timer_fine NULL s;
     s \<leftarrow> sys_timeout IGMP_TMR_INTERVAL Igmp_timer NULL s;
     sys_timeout DNS_TMR_INTERVAL Dns_timer NULL s }"

section \<open>Waiting for a message\<close>

text \<open>
  One wait for a message in the mailbox: what \<open>osMessageGet\<close> returns, a message or none, and
  the readings of the microsecond clock before and after it. \<open>sys_arch_mbox_fetch\<close> returns the
  waiting time in milliseconds, and leaves \<open>msg\<close> alone when there is no message.
\<close>

record mbox_wait =
  w_start :: u32
  w_message :: "ptr option"
  w_stop :: u32

definition sys_arch_mbox_fetch :: "mbox_wait \<Rightarrow> ptr \<Rightarrow> u32 \<times> ptr" where
  "sys_arch_mbox_fetch w msg =
     (case w_message w of
        None \<Rightarrow> (SYS_ARCH_TIMEOUT, msg)
      | Some v \<Rightarrow> ((w_stop w - w_start w) div 1000, v))"

text \<open>What happens when the first timeout has expired, up to the jump back.\<close>

definition timeout_expired :: "(lw \<Rightarrow> bool) \<Rightarrow> timer_work \<Rightarrow> tms \<Rightarrow> tms option" where
  "timeout_expired pcbs work s =
     (let tmptimeout = next_timeout s;
          s = s\<lparr>next_timeout := to_next s tmptimeout\<rparr>;
          handler = to_h s tmptimeout;
          arg = to_arg s tmptimeout
      in memp_free MEMP_SYS_TIMEOUT tmptimeout (stk s) \<bind> (\<lambda>m.
         call_handler pcbs work handler arg (s\<lparr>stk := m\<rparr>)))"

text \<open>
  The loop, with the waits it goes through; it has no result when it would wait longer than
  the given waits.
\<close>

partial_function (option) sys_timeouts_mbox_fetch ::
  "(lw \<Rightarrow> bool) \<Rightarrow> timer_work \<Rightarrow> mbox_wait list \<Rightarrow> ptr \<Rightarrow> tms \<Rightarrow> (ptr \<times> mbox_wait list \<times> tms) option" where
  "sys_timeouts_mbox_fetch pcbs work ws msg s =
     (if next_timeout s = NULL then
        case ws of [] \<Rightarrow> None | w # ws \<Rightarrow> Some (snd (sys_arch_mbox_fetch w msg), ws, s)
      else if to_time s (next_timeout s) > 0 then
        case ws of
          [] \<Rightarrow> None
        | w # ws \<Rightarrow>
            let (time_needed, msg) = sys_arch_mbox_fetch w msg in
            if time_needed = SYS_ARCH_TIMEOUT then
              timeout_expired pcbs work s \<bind> sys_timeouts_mbox_fetch pcbs work ws msg
            else if time_needed < to_time s (next_timeout s) then
              Some (msg, ws, put_to_time (next_timeout s) (to_time s (next_timeout s) - time_needed) s)
            else Some (msg, ws, put_to_time (next_timeout s) 0 s)
      else timeout_expired pcbs work s \<bind> sys_timeouts_mbox_fetch pcbs work ws msg)"


section \<open>Refinement to a list of alarms\<close>

text \<open>\<open>next_timeout\<close> read as the link of the address \<open>NULL\<close>.\<close>

definition olink :: "tms \<Rightarrow> ptr \<Rightarrow> ptr" where
  "olink s = (to_next s)(NULL := next_timeout s)"

text \<open>
  The pending timeouts are the alarms \<open>L\<close>; the pool \<open>Bs\<close> of timeouts has the free elements \<open>F\<close>,
  and a pending one is not free.
\<close>

definition torep :: "ptr set \<Rightarrow> tms \<Rightarrow> (ptr \<times> nat) list \<Rightarrow> ptr list \<Rightarrow> bool" where
  "torep Bs s L F \<longleftrightarrow> alarms (olink s) (to_time s) L \<and> mrep MEMP_SYS_TIMEOUT Bs (stk s) F \<and>
     fst ` set L \<subseteq> Bs \<and> set F \<inter> fst ` set L = {}"

lemma torepD:
  assumes "torep Bs s L F"
  shows "alarms (olink s) (to_time s) L" "mrep MEMP_SYS_TIMEOUT Bs (stk s) F" "fst ` set L \<subseteq> Bs"
    "set F \<inter> fst ` set L = {}" "set F \<subseteq> Bs" "distinct (NULL # map fst L)" "distinct F" "NULL \<notin> Bs"
  using assms alarmsD(4) [of "olink s" "to_time s" L] memp.rep_blocks [of MEMP_SYS_TIMEOUT Bs "stk s" F]
  by (auto simp: torep_def mrep_def)

lemma chain_olink: "chain (olink s) (next_timeout s) xs \<longleftrightarrow> chain (olink s) (olink s NULL) xs"
  by (simp add: olink_def)

text \<open>The loop goes to the last timeout that expires no later and enters the new one behind it.\<close>

lemma sys_timeout_loop_spec:
  assumes "chain (olink s) t (map fst ((t, n) # L))" "tseg (to_time s) b ((t, n) # L)"
    and "x \<noteq> NULL" "x \<notin> fst ` set ((t, n) # L)" "distinct (map fst ((t, n) # L))"
    and "unat (to_time s x) + b = k" "n \<le> k"
    and "A = takeWhile (\<lambda>(_, n). n \<le> k) ((t, n) # L)" "B = dropWhile (\<lambda>(_, n). n \<le> k) ((t, n) # L)"
  shows "\<exists>T. sys_timeout_loop x t s =
      Some (s\<lparr>to_time := T, to_next := (to_next s)(x := first_ptr (map fst B), last_ptr NULL A := x)\<rparr>) \<and>
    unat (T x) = k - last_time b A \<and>
    (B \<noteq> [] \<longrightarrow> T (first_ptr (map fst B)) = to_time s (first_ptr (map fst B)) - T x) \<and>
    (\<forall>y. y \<noteq> x \<longrightarrow> y \<noteq> first_ptr (map fst B) \<longrightarrow> T y = to_time s y)"
  using assms
proof (induction L arbitrary: t n b s A B)
  case Nil
  have t: "t \<noteq> NULL" "n = b + unat (to_time s t)" "to_next s t = NULL" "x \<noteq> t"
    using Nil.prems by (auto simp: olink_def)
  have "to_time s t \<le> to_time s x" using Nil.prems(6,7) t(2) by (simp add: word_le_nat_alt)
  then have "unat (to_time s x - to_time s t) = k - n" using Nil.prems(6) t(2) by (simp add: unat_sub)
  then show ?case using t Nil.prems(7-9)
    by (subst sys_timeout_loop.simps) (auto simp: fun_upd_twist intro!: exI [of _ "(to_time s)(x := to_time s x - to_time s t)"])
next
  case (Cons a L)
  obtain y m where a: "a = (y, m)" by fastforce
  have t: "t \<noteq> NULL" "n = b + unat (to_time s t)" "to_next s t = y" "x \<noteq> t" "y \<noteq> NULL" "y \<noteq> x" "y \<noteq> t"
    using Cons.prems(1-5) a by (auto simp: olink_def)
  have m: "m = n + unat (to_time s y)" using Cons.prems(2) a by simp
  have "to_time s t \<le> to_time s x" using Cons.prems(6,7) t(2) by (simp add: word_le_nat_alt)
  then have d: "unat (to_time s x - to_time s t) = k - n" using Cons.prems(6) t(2) by (simp add: unat_sub)
  let ?s = "put_to_time x (to_time s x - to_time s t) s"
  have gt: "to_time ?s (to_next ?s t) > to_time ?s x \<longleftrightarrow> k < m"
    using t m d Cons.prems(7) by (auto simp: word_less_nat_alt)
  show ?case
  proof (cases "k < m")
    case True
    let ?T = "(to_time s)(x := to_time s x - to_time s t, y := to_time s y - (to_time s x - to_time s t))"
    have AB: "A = [(t, n)]" "B = (y, m) # L" using True Cons.prems(7-9) a by auto
    have "sys_timeout_loop x t s = Some (s\<lparr>to_time := ?T, to_next := (to_next s)(x := y, t := x)\<rparr>)"
      using t gt True by (subst sys_timeout_loop.simps) (simp add: Let_def)
    then show ?thesis using AB d t by (intro exI [of _ ?T]) (simp add: fun_upd_def)
  next
    case False
    define A2 where "A2 = takeWhile (\<lambda>(_, n). n \<le> k) ((y, m) # L)"
    have AB: "B = dropWhile (\<lambda>(_, n). n \<le> k) ((y, m) # L)" using Cons.prems(7-9) a False by auto
    have q: "last_ptr NULL A2 = last_ptr NULL A" "last_time n A2 = last_time b A"
      using Cons.prems(7,8) a False by (simp_all add: A2_def)
    have "\<exists>T. sys_timeout_loop x y ?s =
        Some (?s\<lparr>to_time := T, to_next := (to_next ?s)(x := first_ptr (map fst B), last_ptr NULL A2 := x)\<rparr>) \<and>
      unat (T x) = k - last_time n A2 \<and>
      (B \<noteq> [] \<longrightarrow> T (first_ptr (map fst B)) = to_time ?s (first_ptr (map fst B)) - T x) \<and>
      (\<forall>z. z \<noteq> x \<longrightarrow> z \<noteq> first_ptr (map fst B) \<longrightarrow> T z = to_time ?s z)"
    proof (rule Cons.IH)
      show "chain (olink ?s) y (map fst ((y, m) # L))" using Cons.prems(1) a t by (simp add: olink_def fun_upd_def)
      show "tseg (to_time ?s) n ((y, m) # L)"
        by (rule tseg_cong [where d = "to_time s"]) (use Cons.prems(2,4) a in auto)
    qed (use Cons.prems a d False AB in \<open>auto simp: A2_def\<close>)
    then obtain T where T: "sys_timeout_loop x y ?s =
        Some (?s\<lparr>to_time := T, to_next := (to_next ?s)(x := first_ptr (map fst B), last_ptr NULL A := x)\<rparr>)"
      "unat (T x) = k - last_time b A"
      "B \<noteq> [] \<longrightarrow> T (first_ptr (map fst B)) = to_time ?s (first_ptr (map fst B)) - T x"
      "\<forall>z. z \<noteq> x \<longrightarrow> z \<noteq> first_ptr (map fst B) \<longrightarrow> T z = to_time ?s z" unfolding q by blast
    have run: "sys_timeout_loop x t s = sys_timeout_loop x y ?s"
      using t gt False by (subst sys_timeout_loop.simps) (simp add: Let_def)
    have "x \<notin> insert NULL (fst ` set ((y, m) # L))" using Cons.prems(3,4) a by simp
    then have "first_ptr (map fst B) \<noteq> x" unfolding AB using first_ptr_dropWhile by metis
    with T show ?thesis unfolding run by (intro exI [of _ T]) (simp add: fun_upd_def)
  qed
qed

lemma last_ptr_takeWhile: "takeWhile P L \<noteq> [] \<Longrightarrow> last_ptr p (takeWhile P L) \<in> fst ` set L"
  using set_takeWhileD [of "last (takeWhile P L)" P L] by (simp add: last_ptr_def last_map)

lemma sys_timeout_spec:
  assumes rep: "torep Bs s L (x # F)"
  shows "\<exists>s'. sys_timeout msecs h arg s = Some s' \<and> torep Bs s' (ins_tm x (unat msecs) L) F \<and>
    to_h s' = (to_h s)(x := h) \<and> to_arg s' = (to_arg s)(x := arg) \<and>
    tcpip_tcp_timer_active s' = tcpip_tcp_timer_active s"
proof -
  note r = torepD [OF rep] and al = alarmsD [OF torepD(1) [OF rep]]
  let ?k = "unat msecs"
  define A where "A = takeWhile (\<lambda>(_, n). n \<le> ?k) L"
  define B where "B = dropWhile (\<lambda>(_, n). n \<le> ?k) L"
  define m where "m = (stk s)\<lparr>memp_tab := (memp_tab (stk s))[MEMP_SYS_TIMEOUT := memp_next (stk s) x]\<rparr>"
  have x: "x \<noteq> NULL" "x \<notin> fst ` set L" "x \<in> Bs" using r(4,5,8) by auto
  have mm: "memp_malloc MEMP_SYS_TIMEOUT (stk s) = (x, m)" "mrep MEMP_SYS_TIMEOUT Bs m F"
    using mrep_malloc [OF r(2)] by (simp_all add: m_def)
  define s0 where "s0 = s\<lparr>stk := m, to_next := (to_next s)(x := NULL), to_h := (to_h s)(x := h),
      to_arg := (to_arg s)(x := arg), to_time := (to_time s)(x := msecs)\<rparr>"
  have "\<exists>T N q. sys_timeout msecs h arg s = Some (s0\<lparr>to_time := T, to_next := N, next_timeout := q\<rparr>) \<and>
      N(NULL := q) = (olink s)(x := first_ptr (map fst B), last_ptr NULL A := x) \<and>
      unat (T x) = ?k - last_time 0 A \<and>
      (B \<noteq> [] \<longrightarrow> T (first_ptr (map fst B)) = to_time s (first_ptr (map fst B)) - T x) \<and>
      (\<forall>y. y \<noteq> x \<longrightarrow> y \<noteq> first_ptr (map fst B) \<longrightarrow> T y = to_time s y)"
  proof (cases L)
    case Nil
    then have "next_timeout s = NULL" using al(1) by (simp add: olink_def)
    then show ?thesis using x Nil mm(1)
      by (intro exI [of _ "to_time s0"] exI [of _ "to_next s0"] exI [of _ x])
        (simp add: sys_timeout_def s0_def A_def B_def olink_def)
  next
    case (Cons a L')
    obtain t n where a: "a = (t, n)" by fastforce
    have t: "next_timeout s = t" "t \<noteq> NULL" "n = unat (to_time s t)" "t \<noteq> x"
      using al(1,2) x(2) Cons a by (auto simp: olink_def)
    show ?thesis
    proof (cases "msecs < to_time s t")
      case True
      then have AB: "A = []" "B = L" using t(3) Cons a by (simp_all add: A_def B_def word_less_nat_alt)
      show ?thesis using True AB t x mm(1) Cons a
        by (intro exI [of _ "(to_time s0)(t := to_time s t - msecs)"] exI [of _ "(to_next s0)(x := t)"] exI [of _ x])
          (simp add: sys_timeout_def s0_def olink_def fun_upd_twist)
    next
      case False
      then have nk: "n \<le> ?k" using t(3) by (simp add: word_less_nat_alt)
      have ne: "last_ptr NULL A \<noteq> NULL"
      proof -
        have "A \<noteq> []" using nk Cons a by (simp add: A_def)
        then have "last_ptr NULL A \<in> fst ` set L" using last_ptr_takeWhile by (simp add: A_def)
        moreover have "NULL \<notin> fst ` set L" using al(4) by simp
        ultimately show ?thesis by metis
      qed
      have "\<exists>T. sys_timeout_loop x t s0 =
          Some (s0\<lparr>to_time := T, to_next := (to_next s0)(x := first_ptr (map fst B), last_ptr NULL A := x)\<rparr>) \<and>
        unat (T x) = ?k - last_time 0 A \<and>
        (B \<noteq> [] \<longrightarrow> T (first_ptr (map fst B)) = to_time s0 (first_ptr (map fst B)) - T x) \<and>
        (\<forall>y. y \<noteq> x \<longrightarrow> y \<noteq> first_ptr (map fst B) \<longrightarrow> T y = to_time s0 y)"
      proof (rule sys_timeout_loop_spec)
        show "chain (olink s0) t (map fst ((t, n) # L'))"
        proof (rule chain_cong)
          have "olink s NULL = t" using t(1) by (simp add: olink_def)
          then show "chain (olink s) t (map fst ((t, n) # L'))" using al(1) unfolding Cons a by simp
          show "olink s0 y = olink s y" if "y \<in> set (map fst ((t, n) # L'))" for y
            using that x Cons a by (auto simp: s0_def olink_def)
        qed
        show "tseg (to_time s0) 0 ((t, n) # L')"
          by (rule tseg_cong [where d = "to_time s"]) (use al(2) Cons a x in \<open>auto simp: s0_def\<close>)
      qed (use x al(4) Cons a nk in \<open>auto simp: s0_def A_def B_def\<close>)
      then obtain T where T: "sys_timeout_loop x t s0 =
          Some (s0\<lparr>to_time := T, to_next := (to_next s0)(x := first_ptr (map fst B), last_ptr NULL A := x)\<rparr>)"
        "unat (T x) = ?k - last_time 0 A"
        "B \<noteq> [] \<longrightarrow> T (first_ptr (map fst B)) = to_time s0 (first_ptr (map fst B)) - T x"
        "\<forall>y. y \<noteq> x \<longrightarrow> y \<noteq> first_ptr (map fst B) \<longrightarrow> T y = to_time s0 y" by blast
      have run: "sys_timeout msecs h arg s = sys_timeout_loop x t s0"
        using False t x mm(1) by (simp add: sys_timeout_def s0_def)
      have "first_ptr (map fst B) \<noteq> x" using first_ptr_dropWhile [of "\<lambda>(_, n). n \<le> ?k" L] x by (auto simp: B_def)
      then show ?thesis using run T ne x
        by (intro exI [of _ T] exI [of _ "(to_next s0)(x := first_ptr (map fst B), last_ptr NULL A := x)"] exI [of _ t])
          (simp add: s0_def olink_def fun_upd_twist t(1))
    qed
  qed
  then obtain T N q where run: "sys_timeout msecs h arg s = Some (s0\<lparr>to_time := T, to_next := N, next_timeout := q\<rparr>)"
    and N: "N(NULL := q) = (olink s)(x := first_ptr (map fst B), last_ptr NULL A := x)" "unat (T x) = ?k - last_time 0 A"
      "B \<noteq> [] \<Longrightarrow> T (first_ptr (map fst B)) = to_time s (first_ptr (map fst B)) - T x"
      "\<And>y. y \<noteq> x \<Longrightarrow> y \<noteq> first_ptr (map fst B) \<Longrightarrow> T y = to_time s y" by blast
  have "alarms (N(NULL := q)) T (ins_tm x ?k L)"
    by (rule alarms_insert [OF r(1) x(1,2) unsigned_less A_def B_def N])
  then have "torep Bs (s0\<lparr>to_time := T, to_next := N, next_timeout := q\<rparr>) (ins_tm x ?k L) F"
    using mm(2) r(3,4,7) x(3) by (auto simp: torep_def olink_def s0_def)
  with run show ?thesis by (auto simp: s0_def)
qed

lemma sys_timeout_empty: "torep Bs s L [] \<Longrightarrow> sys_timeout msecs h arg s = Some s"
  using mrep_malloc_empty [of MEMP_SYS_TIMEOUT Bs "stk s"] by (simp add: torep_def sys_timeout_def)

lemma sys_untimeout_loop_skip:
  assumes "chain (olink s) p (map fst (A @ (t, n) # B))" "\<forall>(y, k)\<in>set A. \<not> (to_h s y = h \<and> to_arg s y = arg)"
  shows "sys_untimeout_loop h arg prev p s = sys_untimeout_loop h arg (last_ptr prev A) t s"
  using assms
proof (induction A arbitrary: prev p)
  case (Cons a A)
  obtain y k where a: "a = (y, k)" by fastforce
  have p: "p = y" "y \<noteq> NULL" "olink s y = to_next s y" using Cons.prems a by (auto simp: olink_def)
  then have "sys_untimeout_loop h arg prev p s = sys_untimeout_loop h arg y (to_next s y) s"
    using Cons.prems(2) a by (subst sys_untimeout_loop.simps) auto
  then show ?case using Cons.IH [of "to_next s y" y] Cons.prems a p by simp
qed (simp add: olink_def)

lemma sys_untimeout_loop_none:
  assumes "chain (olink s) p (map fst L)" "\<forall>(y, k)\<in>set L. \<not> (to_h s y = h \<and> to_arg s y = arg)"
  shows "sys_untimeout_loop h arg prev p s = Some s"
  using assms
proof (induction L arbitrary: prev p)
  case (Cons a A)
  obtain y k where a: "a = (y, k)" by fastforce
  have p: "p = y" "y \<noteq> NULL" "olink s y = to_next s y" using Cons.prems a by (auto simp: olink_def)
  then have "sys_untimeout_loop h arg prev p s = sys_untimeout_loop h arg y (to_next s y) s"
    using Cons.prems(2) a by (subst sys_untimeout_loop.simps) auto
  then show ?case using Cons.IH [of "to_next s y" y] Cons.prems a p by simp
qed (simp add: sys_untimeout_loop.simps)

lemma sys_untimeout_none:
  assumes "torep Bs s L F" "\<forall>(y, k)\<in>set L. \<not> (to_h s y = h \<and> to_arg s y = arg)"
  shows "sys_untimeout h arg s = Some s"
  using sys_untimeout_loop_none [OF _ assms(2)] alarmsD(1) [OF torepD(1) [OF assms(1)]]
  by (simp add: sys_untimeout_def chain_olink [symmetric])

lemma olink_unlink:
  "olink (if q = NULL then s\<lparr>next_timeout := v\<rparr> else put_to_next q v s) = (olink s)(q := v)"
  by (auto simp: olink_def)

lemma sys_untimeout_spec:
  assumes rep: "torep Bs s (A @ (t, n) # B) F"
    and A: "\<forall>(y, k)\<in>set A. \<not> (to_h s y = h \<and> to_arg s y = arg)" and t: "to_h s t = h" "to_arg s t = arg"
  shows "\<exists>s'. sys_untimeout h arg s = Some s' \<and> torep Bs s' (A @ B) (t # F) \<and> to_h s' = to_h s \<and> to_arg s' = to_arg s \<and>
    tcpip_tcp_timer_active s' = tcpip_tcp_timer_active s"
proof -
  note r = torepD [OF rep] and al = alarmsD [OF torepD(1) [OF rep]]
  have dist: "distinct (NULL # map fst A @ t # map fst B)" using r(6) by simp
  define q p where "q = last_ptr NULL A" and "p = first_ptr (map fst B)"
  have tn: "t \<noteq> NULL" using dist by auto
  have qt: "q \<noteq> t" using dist last_ptr_in [of NULL A] by (auto simp: q_def)
  have nt: "to_next s t = p" "olink s t = p"
    using chain_next_last [of "olink s" NULL "map fst A @ [t]" "map fst B"] al(1) tn by (simp_all add: p_def olink_def)
  have pn: "p \<noteq> NULL" if "B \<noteq> []" using that dist by (cases B) (auto simp: p_def)
  define s1 where "s1 = (if q = NULL then s\<lparr>next_timeout := p\<rparr> else put_to_next q p s)"
  define s2 where "s2 = (if p \<noteq> NULL then put_to_time p (to_time s p + to_time s t) s1 else s1)"
  have f: "to_next s1 t = p" "to_time s1 = to_time s" "stk s2 = stk s" using qt nt by (simp_all add: s1_def s2_def)
  have tB: "t \<in> Bs" "t \<notin> set F" using r(3,4) by auto
  obtain m where m: "memp_free MEMP_SYS_TIMEOUT t (stk s) = Some m" "mrep MEMP_SYS_TIMEOUT Bs m (t # F)"
    using memp.release_put [OF r(2) tB] by blast
  have "next_timeout s \<noteq> NULL" using al(1) by (auto simp: chain_olink [symmetric])
  moreover have "sys_untimeout_loop h arg q t s = Some (s2\<lparr>stk := m\<rparr>)"
    using t tn nt(1) m(1) qt by (subst sys_untimeout_loop.simps) (auto simp: s2_def s1_def)
  moreover have "sys_untimeout_loop h arg NULL (next_timeout s) s = sys_untimeout_loop h arg q t s"
    unfolding q_def using al(1) by (intro sys_untimeout_loop_skip [OF _ A]) (simp only: chain_olink)
  ultimately have run: "sys_untimeout h arg s = Some (s2\<lparr>stk := m\<rparr>)" by (simp add: sys_untimeout_def)
  have link: "olink (s2\<lparr>stk := m\<rparr>) = (olink s)(q := p)"
    using olink_unlink [where q = q and s = s and v = p] by (simp add: s2_def s1_def olink_def)
  have "alarms (olink (s2\<lparr>stk := m\<rparr>)) (to_time s2) (A @ B)"
    by (rule alarms_remove [OF r(1)])
      (use link nt pn f in \<open>auto simp: q_def [symmetric] p_def [symmetric] s2_def\<close>)
  then have "torep Bs (s2\<lparr>stk := m\<rparr>) (A @ B) (t # F)"
    using m(2) r(3,4) dist by (auto simp: torep_def)
  with run show ?thesis by (auto simp: s2_def s1_def)
qed

section \<open>The timers of the stack are never lost\<close>

definition cyclic :: "sys_timeout_handler list" where
  "cyclic = [Ip_reass_timer, Arp_timer, Dhcp_timer_coarse, Dhcp_timer_fine, Igmp_timer, Dns_timer]"

fun period :: "sys_timeout_handler \<Rightarrow> u32" where
  "period Tcpip_tcp_timer = TCP_TMR_INTERVAL"
| "period Ip_reass_timer = IP_TMR_INTERVAL"
| "period Arp_timer = ARP_TMR_INTERVAL"
| "period Dhcp_timer_coarse = DHCP_COARSE_TIMER_MSECS"
| "period Dhcp_timer_fine = DHCP_FINE_TIMER_MSECS"
| "period Igmp_timer = IGMP_TMR_INTERVAL"
| "period Dns_timer = DNS_TMR_INTERVAL"
| "period (Handler p) = 0"

text \<open>
  The alarms \<open>L\<close> call the handlers \<open>M\<close>, none later than its period; the pool has at least
  seven timeouts in all.
\<close>

definition tinv :: "ptr set \<Rightarrow> tms \<Rightarrow> sys_timeout_handler multiset \<Rightarrow> (ptr \<times> nat) list \<Rightarrow> bool" where
  "tinv Bs s M L \<longleftrightarrow> (\<exists>F. torep Bs s L F \<and> 7 \<le> length L + length F) \<and>
     image_mset (\<lambda>(x, n). to_h s x) (mset L) = M \<and> (\<forall>(x, n)\<in>set L. n \<le> unat (period (to_h s x)))"

text \<open>The cyclic timers are pending once each, the TCP timer when it is marked as active.\<close>

definition timers_ok :: "ptr set \<Rightarrow> tms \<Rightarrow> (ptr \<times> nat) list \<Rightarrow> bool" where
  "timers_ok Bs s L \<longleftrightarrow>
     tinv Bs s (mset cyclic + (if tcpip_tcp_timer_active s then {#Tcpip_tcp_timer#} else {#})) L"

text \<open>What the timer functions of the protocols may do: nothing to the pool of the timeouts.\<close>

definition work_ok :: "ptr set \<Rightarrow> timer_work \<Rightarrow> bool" where
  "work_ok Bs work \<longleftrightarrow> (\<forall>h arg m F. mrep MEMP_SYS_TIMEOUT Bs m F \<longrightarrow> mrep MEMP_SYS_TIMEOUT Bs (work h arg m) F)"

definition zeros :: "(ptr \<times> nat) list \<Rightarrow> nat" where
  "zeros L = length (filter (\<lambda>(x, n). n = 0) L)"

lemma mset_ins_tm: "mset (ins_tm x k L) = add_mset (x, k) (mset L)"
  unfolding ins_tm_def by (metis mset.simps(2) mset_append takeWhile_dropWhile_id union_mset_add_mset_right)

lemma length_ins_tm: "length (ins_tm x k L) = Suc (length L)"
  by (metis mset_ins_tm size_add_mset size_mset)

lemma zeros_ins_tm: "0 < k \<Longrightarrow> zeros (ins_tm x k L) = zeros L"
proof -
  assume "0 < k"
  then have "filter_mset (\<lambda>(x, n). n = 0) (mset (ins_tm x k L)) = filter_mset (\<lambda>(x, n). n = 0) (mset L)"
    by (simp add: mset_ins_tm)
  then show ?thesis unfolding zeros_def by (metis mset_filter size_mset)
qed

lemma tinv_size: "tinv Bs s M L \<Longrightarrow> length L = size M"
  by (auto simp: tinv_def)

lemma tinv_work:
  assumes "work_ok Bs work" "tinv Bs s M L" shows "tinv Bs (run_work work h arg s) M L"
proof -
  have "torep Bs s L F \<Longrightarrow> torep Bs (run_work work h arg s) L F" for F
    using assms(1) by (simp add: torep_def work_ok_def olink_def)
  then show ?thesis using assms(2) by (auto simp: tinv_def)
qed

lemma tinv_enter:
  assumes "tinv Bs s M L" "size M < 7" "0 < unat (period h)"
  shows "\<exists>s' x. sys_timeout (period h) h arg s = Some s' \<and> tinv Bs s' (add_mset h M) (ins_tm x (unat (period h)) L) \<and>
    tcpip_tcp_timer_active s' = tcpip_tcp_timer_active s"
proof -
  from assms(1) obtain F where F: "torep Bs s L F" "7 \<le> length L + length F" by (auto simp: tinv_def)
  have "F \<noteq> []" using F(2) tinv_size [OF assms(1)] assms(2) by auto
  then obtain x G where G: "F = x # G" by (cases F) auto
  from sys_timeout_spec [OF F(1) [unfolded G], of "period h" h arg]
  obtain s' where s': "sys_timeout (period h) h arg s = Some s'" "torep Bs s' (ins_tm x (unat (period h)) L) G"
    "to_h s' = (to_h s)(x := h)" "tcpip_tcp_timer_active s' = tcpip_tcp_timer_active s" by blast
  have x: "y \<noteq> x" if "(y, n) \<in> set L" for y n using that torepD(4) [OF F(1)] G by (force simp: image_iff)
  have "image_mset (\<lambda>(y, n). to_h s' y) (mset L) = image_mset (\<lambda>(y, n). to_h s y) (mset L)"
    using s'(3) x by (intro image_mset_cong) auto
  then have "image_mset (\<lambda>(y, n). to_h s' y) (mset (ins_tm x (unat (period h)) L)) = add_mset h M"
    using assms(1) s'(3) by (simp add: tinv_def mset_ins_tm)
  moreover have "\<forall>(y, n)\<in>set (ins_tm x (unat (period h)) L). n \<le> unat (period (to_h s' y))"
    using assms(1) s'(3) x by (fastforce simp: tinv_def)
  moreover have "7 \<le> length (ins_tm x (unat (period h)) L) + length G" using F(2) G by (simp add: length_ins_tm)
  ultimately have "tinv Bs s' (add_mset h M) (ins_tm x (unat (period h)) L)"
    using s'(2) unfolding tinv_def by blast
  with s' show ?thesis by blast
qed

text \<open>The first timeout is taken off, goes back to the pool, and its handler is called.\<close>

lemma expired_spec:
  assumes rep: "torep Bs s ((x, n) # L) F"
  shows "\<exists>s1. timeout_expired pcbs work s = call_handler pcbs work (to_h s x) (to_arg s x) s1 \<and>
    torep Bs s1 (elapse n L) (x # F) \<and> to_h s1 = to_h s \<and> to_arg s1 = to_arg s \<and>
    tcpip_tcp_timer_active s1 = tcpip_tcp_timer_active s"
proof -
  note r = torepD [OF rep] and al = alarmsD [OF torepD(1) [OF rep]]
  have x: "next_timeout s = x" "x \<noteq> NULL" using al(1) by (auto simp: olink_def)
  have xB: "x \<in> Bs" "x \<notin> set F" using r(3,4) by auto
  obtain m where m: "memp_free MEMP_SYS_TIMEOUT x (stk s) = Some m" "mrep MEMP_SYS_TIMEOUT Bs m (x # F)"
    using memp.release_put [OF r(2) xB] by blast
  let ?s = "s\<lparr>next_timeout := to_next s x, stk := m\<rparr>"
  have "olink ?s = (olink s)(NULL := olink s x)" using x(2) by (auto simp: olink_def)
  then have "alarms (olink ?s) (to_time ?s) (elapse n L)" using alarms_pop [OF r(1)] by simp
  then have "torep Bs ?s (elapse n L) (x # F)" using m(2) r(3,4,6) by (auto simp: torep_def)
  then show ?thesis using x m(1) by (intro exI [of _ ?s]) (simp add: timeout_expired_def Let_def)
qed

lemma tinv_expired:
  assumes "tinv Bs s M ((x, n) # L)"
  shows "\<exists>s1. timeout_expired pcbs work s = call_handler pcbs work (to_h s x) (to_arg s x) s1 \<and>
    M = add_mset (to_h s x) (M - {#to_h s x#}) \<and>
    tinv Bs s1 (M - {#to_h s x#}) (elapse n L) \<and> tcpip_tcp_timer_active s1 = tcpip_tcp_timer_active s"
proof -
  from assms obtain F where F: "torep Bs s ((x, n) # L) F" "7 \<le> length ((x, n) # L) + length F"
    unfolding tinv_def by blast
  from expired_spec [OF F(1), of pcbs work] obtain s1 where
    s1: "timeout_expired pcbs work s = call_handler pcbs work (to_h s x) (to_arg s x) s1"
    "torep Bs s1 (elapse n L) (x # F)" "to_h s1 = to_h s" "tcpip_tcp_timer_active s1 = tcpip_tcp_timer_active s" by blast
  have M: "M = add_mset (to_h s x) (image_mset (\<lambda>(y, k). to_h s y) (mset L))" using assms by (simp add: tinv_def)
  have "image_mset (\<lambda>(y, k). to_h s1 y) (mset (elapse n L)) = image_mset (\<lambda>(y, k). to_h s y) (mset L)"
    by (simp add: elapse_def s1(3) multiset.map_comp comp_def split_def)
  moreover have "\<forall>(y, k)\<in>set (elapse n L). k \<le> unat (period (to_h s1 y))"
    using assms by (fastforce simp: tinv_def elapse_def s1(3))
  moreover have "7 \<le> length (elapse n L) + length (x # F)" using F(2) by (simp add: elapse_def)
  ultimately have "tinv Bs s1 (M - {#to_h s x#}) (elapse n L)" using s1(2) M unfolding tinv_def by auto
  then show ?thesis using s1(1,4) M by auto
qed

text \<open>What a handler leaves: it enters itself again, or marks the TCP timer as not active.\<close>

lemma timers_ok_handler:
  assumes w: "work_ok Bs work" and h: "h \<in> insert Tcpip_tcp_timer (set cyclic)" and sz: "size M < 7"
    and inv: "tinv Bs s M L"
  shows "\<exists>s' L'. call_handler pcbs work h arg s = Some s' \<and> zeros L' = zeros L \<and>
    (tinv Bs s' (add_mset h M) L' \<and> tcpip_tcp_timer_active s' = tcpip_tcp_timer_active s \<or>
     h = Tcpip_tcp_timer \<and> tinv Bs s' M L' \<and> \<not> tcpip_tcp_timer_active s')"
proof -
  let ?s = "run_work work h arg s"
  have inv': "tinv Bs ?s M L" by (rule tinv_work [OF w inv])
  have p: "0 < unat (period h)" using h by (auto simp: cyclic_def)
  from tinv_enter [OF inv' sz p, of NULL] obtain s' x where s': "sys_timeout (period h) h NULL ?s = Some s'"
    "tinv Bs s' (add_mset h M) (ins_tm x (unat (period h)) L)" "tcpip_tcp_timer_active s' = tcpip_tcp_timer_active s"
    by auto
  have z: "zeros (ins_tm x (unat (period h)) L) = zeros L" by (rule zeros_ins_tm [OF p])
  have off: "tinv Bs (?s\<lparr>tcpip_tcp_timer_active := False\<rparr>) M L"
    using inv' by (simp add: tinv_def torep_def olink_def)
  show ?thesis
  proof (cases "h = Tcpip_tcp_timer \<and> \<not> pcbs (stk ?s)")
    case True
    then have "call_handler pcbs work h arg s = Some (?s\<lparr>tcpip_tcp_timer_active := False\<rparr>)"
      by (auto simp: tcpip_tcp_timer_def Let_def)
    then show ?thesis using off True by (intro exI [of _ "?s\<lparr>tcpip_tcp_timer_active := False\<rparr>"] exI [of _ L]) simp
  next
    case False
    then have "call_handler pcbs work h arg s = sys_timeout (period h) h NULL ?s"
      using h by (auto simp: cyclic_def tcpip_tcp_timer_def ip_reass_timer_def arp_timer_def dhcp_timer_coarse_def
          dhcp_timer_fine_def igmp_timer_def dns_timer_def)
    then show ?thesis using s' z by auto
  qed
qed

lemma timers_ok_ne:
  assumes "timers_ok Bs s L"
  obtains x n L' where "L = (x, n) # L'" "next_timeout s = x" "x \<noteq> NULL" "n = unat (to_time s x)"
proof -
  have "6 \<le> length L" using tinv_size [OF assms [unfolded timers_ok_def]] by (simp add: cyclic_def)
  then have "L \<noteq> []" by auto
  then obtain x n L' where L: "L = (x, n) # L'" by (cases L) auto
  obtain F where "torep Bs s L F" using assms by (auto simp: timers_ok_def tinv_def)
  note al = alarmsD [OF torepD(1) [OF this]]
  show thesis by (rule that [OF L]) (use al(1,2) L in \<open>auto simp: olink_def\<close>)
qed

lemma timers_ok_expired:
  assumes w: "work_ok Bs work" and ok: "timers_ok Bs s ((x, n) # L)"
  shows "\<exists>s' L'. timeout_expired pcbs work s = Some s' \<and> timers_ok Bs s' L' \<and> zeros L' = zeros (elapse n L)"
proof -
  define M where "M = mset cyclic + (if tcpip_tcp_timer_active s then {#Tcpip_tcp_timer#} else {#})"
  let ?h = "to_h s x"
  have inv: "tinv Bs s M ((x, n) # L)" using ok by (simp add: timers_ok_def M_def)
  from tinv_expired [OF inv, of pcbs work] obtain s1 where
    s1: "timeout_expired pcbs work s = call_handler pcbs work ?h (to_arg s x) s1" "M = add_mset ?h (M - {#?h#})"
    "tinv Bs s1 (M - {#?h#}) (elapse n L)" "tcpip_tcp_timer_active s1 = tcpip_tcp_timer_active s" by blast
  have "?h \<in># M" using s1(2) by (metis union_single_eq_member)
  then have h: "?h \<in> insert Tcpip_tcp_timer (set cyclic)" by (auto simp: M_def split: if_splits)
  have "size M \<le> 7" by (simp add: M_def cyclic_def)
  then have "size (M - {#?h#}) < 7" using s1(2) by (metis Suc_le_lessD size_add_mset)
  from timers_ok_handler [OF w h this s1(3), of pcbs "to_arg s x"] obtain s' L' where
    s': "call_handler pcbs work ?h (to_arg s x) s1 = Some s'" "zeros L' = zeros (elapse n L)"
    "tinv Bs s' (add_mset ?h (M - {#?h#})) L' \<and> tcpip_tcp_timer_active s' = tcpip_tcp_timer_active s1 \<or>
     ?h = Tcpip_tcp_timer \<and> tinv Bs s' (M - {#?h#}) L' \<and> \<not> tcpip_tcp_timer_active s'" by blast
  have "Tcpip_tcp_timer \<in># M \<Longrightarrow> M - {#Tcpip_tcp_timer#} = mset cyclic"
    by (auto simp: M_def cyclic_def split: if_splits)
  then have "timers_ok Bs s' L'"
    using s'(3) s1(2,4) \<open>?h \<in># M\<close> unfolding timers_ok_def by (auto simp: M_def)
  with s1(1) s'(1,2) show ?thesis by auto
qed

lemma timers_ok_message:
  assumes ok: "timers_ok Bs s ((x, n) # L)" and v: "unat v \<le> n"
  shows "timers_ok Bs (put_to_time x v s) (elapse (n - unat v) ((x, n) # L))"
proof -
  let ?L = "(x, n) # L" and ?w = "n - unat v"
  obtain F where F: "torep Bs s ?L F" "7 \<le> length ?L + length F" using ok by (auto simp: timers_ok_def tinv_def)
  note r = torepD [OF F(1)]
  have "alarms (olink s) ((to_time s)(x := v)) (elapse ?w ?L)"
    by (rule alarms_elapse [OF r(1)]) (use v r(6) in auto)
  then have "torep Bs (put_to_time x v s) (elapse ?w ?L) F"
    using r(2-4) by (simp add: torep_def olink_def)
  moreover have "image_mset (\<lambda>(y, k). to_h s y) (mset (elapse ?w ?L)) = image_mset (\<lambda>(y, k). to_h s y) (mset ?L)"
    by (simp add: elapse_def multiset.map_comp comp_def split_def)
  moreover have "\<forall>(y, k)\<in>set (elapse ?w ?L). k \<le> unat (period (to_h s y))"
    using ok by (fastforce simp: timers_ok_def tinv_def elapse_def)
  moreover have "7 \<le> length (elapse ?w ?L) + length F" using F(2) by (simp add: elapse_def)
  ultimately show ?thesis using ok by (auto simp: timers_ok_def tinv_def)
qed

lemma wait_less: "(a - b :: u32) div 1000 \<noteq> SYS_ARCH_TIMEOUT"
proof
  assume "(a - b) div 1000 = SYS_ARCH_TIMEOUT"
  then have "unat ((a - b) div 1000) = 4294967295" by simp
  then have "unat (a - b) div 1000 = 4294967295" by (simp add: unat_div)
  moreover have "unat (a - b) < 4294967296" using unsigned_less [of "a - b", where ?'a = nat] by simp
  ultimately show False by linarith
qed

text \<open>Timeouts that have expired already are served without a wait.\<close>

lemma mbox_fetch_zeros:
  assumes w: "work_ok Bs work"
  shows "timers_ok Bs s L \<Longrightarrow>
    \<exists>s' L'. sys_timeouts_mbox_fetch pcbs work ws msg s = sys_timeouts_mbox_fetch pcbs work ws msg s' \<and>
      timers_ok Bs s' L' \<and> 0 < to_time s' (next_timeout s')"
proof (induction "zeros L" arbitrary: s L rule: less_induct)
  case less
  obtain x n L1 where L: "L = (x, n) # L1" "next_timeout s = x" "x \<noteq> NULL" "n = unat (to_time s x)"
    using timers_ok_ne [OF less.prems] by blast
  show ?case
  proof (cases "n = 0")
    case True
    then have z: "\<not> 0 < to_time s x" using L(4) by (simp add: word_less_nat_alt)
    obtain s1 L2 where s1: "timeout_expired pcbs work s = Some s1" "timers_ok Bs s1 L2" "zeros L2 = zeros (elapse n L1)"
      using timers_ok_expired [OF w less.prems [unfolded L(1)]] by blast
    have "zeros L2 < zeros L" using s1(3) L(1) True by (simp add: zeros_def elapse_def split_def)
    from less.hyps [OF this s1(2)] show ?thesis using L z s1(1)
      by (subst sys_timeouts_mbox_fetch.simps) (simp add: z)
  next
    case False
    then have "0 < to_time s (next_timeout s)" using L by (simp add: word_less_nat_alt)
    with less.prems show ?thesis by blast
  qed
qed

text \<open>The fetch goes through the waits without a message, runs timers, and returns the message.\<close>

lemma mbox_fetch_spec:
  assumes w: "work_ok Bs work" and v: "w_message m = Some v"
  shows "timers_ok Bs s L \<Longrightarrow> \<forall>w\<in>set ts. w_message w = None \<Longrightarrow>
    \<exists>s' L'. sys_timeouts_mbox_fetch pcbs work (ts @ m # ws) msg s = Some (v, ws, s') \<and> timers_ok Bs s' L'"
proof (induction ts arbitrary: s L)
  case Nil
  obtain s1 L1 where s1: "sys_timeouts_mbox_fetch pcbs work (m # ws) msg s = sys_timeouts_mbox_fetch pcbs work (m # ws) msg s1"
    "timers_ok Bs s1 L1" "0 < to_time s1 (next_timeout s1)"
    using mbox_fetch_zeros [OF w Nil(1)] by blast
  obtain x n L2 where L: "L1 = (x, n) # L2" "next_timeout s1 = x" "x \<noteq> NULL" "n = unat (to_time s1 x)"
    using timers_ok_ne [OF s1(2)] by blast
  define t where "t = (w_stop m - w_start m) div 1000"
  define u where "u = (if t < to_time s1 x then to_time s1 x - t else 0)"
  have "unat u \<le> n" using L(4) by (simp add: u_def unat_sub less_imp_le)
  then have ok: "timers_ok Bs (put_to_time x u s1) (elapse (n - unat u) L1)"
    using timers_ok_message s1(2) L(1) by blast
  have "sys_timeouts_mbox_fetch pcbs work (m # ws) msg s1 = Some (v, ws, put_to_time x u s1)"
    using L s1(3) v wait_less [of "w_stop m" "w_start m"]
    by (subst sys_timeouts_mbox_fetch.simps) (simp add: sys_arch_mbox_fetch_def u_def t_def)
  with ok s1(1) show ?case by auto
next
  case (Cons w0 ts)
  obtain s1 L1 where s1: "sys_timeouts_mbox_fetch pcbs work (w0 # ts @ m # ws) msg s =
      sys_timeouts_mbox_fetch pcbs work (w0 # ts @ m # ws) msg s1"
    "timers_ok Bs s1 L1" "0 < to_time s1 (next_timeout s1)"
    using mbox_fetch_zeros [OF w Cons.prems(1)] by blast
  obtain x n L2 where L: "L1 = (x, n) # L2" "next_timeout s1 = x" "x \<noteq> NULL"
    using timers_ok_ne [OF s1(2)] by blast
  obtain s2 L3 where s2: "timeout_expired pcbs work s1 = Some s2" "timers_ok Bs s2 L3"
    using timers_ok_expired [OF w s1(2) [unfolded L(1)]] by blast
  have "sys_timeouts_mbox_fetch pcbs work (w0 # ts @ m # ws) msg s1 = sys_timeouts_mbox_fetch pcbs work (ts @ m # ws) msg s2"
    using L s1(3) s2(1) Cons.prems(2)
    by (subst sys_timeouts_mbox_fetch.simps) (simp add: sys_arch_mbox_fetch_def)
  with s1(1) Cons.IH [OF s2(2)] Cons.prems(2) show ?case by simp
qed

lemma timers_ok_needed:
  assumes "timers_ok Bs s L" shows "\<exists>s' L'. tcp_timer_needed pcbs s = Some s' \<and> timers_ok Bs s' L'"
proof (cases "\<not> tcpip_tcp_timer_active s \<and> pcbs (stk s)")
  case True
  have "tinv Bs (s\<lparr>tcpip_tcp_timer_active := True\<rparr>) (mset cyclic) L"
    using assms True by (simp add: timers_ok_def tinv_def torep_def olink_def)
  from tinv_enter [OF this, of Tcpip_tcp_timer NULL] obtain s' L' where
    "sys_timeout TCP_TMR_INTERVAL Tcpip_tcp_timer NULL (s\<lparr>tcpip_tcp_timer_active := True\<rparr>) = Some s'"
    "tinv Bs s' (add_mset Tcpip_tcp_timer (mset cyclic)) L'" "tcpip_tcp_timer_active s'" by (auto simp: cyclic_def)
  then show ?thesis using True by (auto simp: tcp_timer_needed_def timers_ok_def)
next
  case False
  with assms show ?thesis by (auto simp: tcp_timer_needed_def)
qed

lemma timers_ok_init:
  assumes "torep Bs s [] F" "7 \<le> length F" "\<not> tcpip_tcp_timer_active s"
  shows "\<exists>s' L'. sys_timeouts_init s = Some s' \<and> timers_ok Bs s' L'"
proof -
  have "tinv Bs s {#} []" using assms(1,2) by (auto simp: tinv_def)
  from tinv_enter [OF this, of Ip_reass_timer NULL] obtain s1 L1 where 1: "sys_timeout IP_TMR_INTERVAL Ip_reass_timer NULL s = Some s1"
    "tinv Bs s1 {#Ip_reass_timer#} L1" "\<not> tcpip_tcp_timer_active s1" using assms(3) by auto
  from tinv_enter [OF 1(2), of Arp_timer NULL] obtain s2 L2 where 2: "sys_timeout ARP_TMR_INTERVAL Arp_timer NULL s1 = Some s2"
    "tinv Bs s2 {#Arp_timer, Ip_reass_timer#} L2" "\<not> tcpip_tcp_timer_active s2" using 1(3) by auto
  from tinv_enter [OF 2(2), of Dhcp_timer_coarse NULL] obtain s3 L3 where
    3: "sys_timeout DHCP_COARSE_TIMER_MSECS Dhcp_timer_coarse NULL s2 = Some s3"
    "tinv Bs s3 {#Dhcp_timer_coarse, Arp_timer, Ip_reass_timer#} L3" "\<not> tcpip_tcp_timer_active s3" using 2(3) by auto
  from tinv_enter [OF 3(2), of Dhcp_timer_fine NULL] obtain s4 L4 where
    4: "sys_timeout DHCP_FINE_TIMER_MSECS Dhcp_timer_fine NULL s3 = Some s4"
    "tinv Bs s4 {#Dhcp_timer_fine, Dhcp_timer_coarse, Arp_timer, Ip_reass_timer#} L4" "\<not> tcpip_tcp_timer_active s4"
    using 3(3) by auto
  from tinv_enter [OF 4(2), of Igmp_timer NULL] obtain s5 L5 where
    5: "sys_timeout IGMP_TMR_INTERVAL Igmp_timer NULL s4 = Some s5"
    "tinv Bs s5 {#Igmp_timer, Dhcp_timer_fine, Dhcp_timer_coarse, Arp_timer, Ip_reass_timer#} L5" "\<not> tcpip_tcp_timer_active s5"
    using 4(3) by auto
  from tinv_enter [OF 5(2), of Dns_timer NULL] obtain s6 L6 where
    6: "sys_timeout DNS_TMR_INTERVAL Dns_timer NULL s5 = Some s6"
    "tinv Bs s6 {#Dns_timer, Igmp_timer, Dhcp_timer_fine, Dhcp_timer_coarse, Arp_timer, Ip_reass_timer#} L6"
    "\<not> tcpip_tcp_timer_active s6"
    using 5(3) by auto
  have "timers_ok Bs s6 L6" using 6(2,3) by (simp add: timers_ok_def cyclic_def add_mset_commute)
  then show ?thesis using 1(1) 2(1) 3(1) 4(1) 5(1) 6(1) by (auto simp: sys_timeouts_init_def)
qed

text \<open>Without a message the fetch goes on waiting.\<close>

lemma mbox_fetch_waits:
  assumes w: "work_ok Bs work"
  shows "timers_ok Bs s L \<Longrightarrow> \<forall>w\<in>set ts. w_message w = None \<Longrightarrow> sys_timeouts_mbox_fetch pcbs work ts msg s = None"
proof (induction ts arbitrary: s L)
  case Nil
  obtain s1 L1 where s1: "sys_timeouts_mbox_fetch pcbs work [] msg s = sys_timeouts_mbox_fetch pcbs work [] msg s1"
    "timers_ok Bs s1 L1" "0 < to_time s1 (next_timeout s1)"
    using mbox_fetch_zeros [OF w Nil(1)] by blast
  show ?case unfolding s1(1) using s1(3) by (subst sys_timeouts_mbox_fetch.simps) simp
next
  case (Cons w0 ts)
  obtain s1 L1 where s1: "sys_timeouts_mbox_fetch pcbs work (w0 # ts) msg s = sys_timeouts_mbox_fetch pcbs work (w0 # ts) msg s1"
    "timers_ok Bs s1 L1" "0 < to_time s1 (next_timeout s1)"
    using mbox_fetch_zeros [OF w Cons.prems(1)] by blast
  obtain x n L2 where L: "L1 = (x, n) # L2" "next_timeout s1 = x" "x \<noteq> NULL"
    using timers_ok_ne [OF s1(2)] by blast
  obtain s2 L3 where s2: "timeout_expired pcbs work s1 = Some s2" "timers_ok Bs s2 L3"
    using timers_ok_expired [OF w s1(2) [unfolded L(1)]] by blast
  have "sys_timeouts_mbox_fetch pcbs work (w0 # ts) msg s1 = sys_timeouts_mbox_fetch pcbs work ts msg s2"
    using L s1(3) s2(1) Cons.prems(2)
    by (subst sys_timeouts_mbox_fetch.simps) (simp add: sys_arch_mbox_fetch_def)
  with s1(1) Cons.IH [OF s2(2)] Cons.prems(2) show ?case by simp
qed

lemma timers_ok_fetch:
  assumes w: "work_ok Bs work" and ok: "timers_ok Bs s L"
    and run: "sys_timeouts_mbox_fetch pcbs work ws msg s = Some (m, ws', s')"
  shows "\<exists>L'. timers_ok Bs s' L'"
proof -
  obtain w0 where w0: "w0 \<in> set ws" "w_message w0 \<noteq> None" using mbox_fetch_waits [OF w ok] run by (metis option.distinct(1))
  then obtain ts m0 rest where ts: "ws = ts @ m0 # rest" "w_message m0 \<noteq> None" "\<forall>w\<in>set ts. w_message w = None"
    using split_list_first_prop [of ws "\<lambda>w. w_message w \<noteq> None"] by blast
  obtain v where v: "w_message m0 = Some v" using ts(2) by blast
  obtain t L' where "sys_timeouts_mbox_fetch pcbs work (ts @ m0 # rest) msg s = Some (v, rest, t)" "timers_ok Bs t L'"
    using mbox_fetch_spec [OF w v ok ts(3)] by blast
  with run ts(1) show ?thesis by auto
qed

text \<open>
  A run of the thread of the stack: the timers are set up on an empty list with a pool of at
  least seven timeouts; then messages are fetched, TCP connections are registered, and the
  processing of messages changes the rest of the stack.
\<close>

inductive tcpip_run :: "(lw \<Rightarrow> bool) \<Rightarrow> timer_work \<Rightarrow> ptr set \<Rightarrow> tms \<Rightarrow> bool"
  for pcbs :: "lw \<Rightarrow> bool" and work :: timer_work and Bs :: "ptr set" where
  init: "torep Bs s [] F \<Longrightarrow> 7 \<le> length F \<Longrightarrow> \<not> tcpip_tcp_timer_active s \<Longrightarrow> sys_timeouts_init s = Some s' \<Longrightarrow>
    tcpip_run pcbs work Bs s'"
| fetch: "tcpip_run pcbs work Bs s \<Longrightarrow> sys_timeouts_mbox_fetch pcbs work ws msg s = Some (m, ws', s') \<Longrightarrow>
    tcpip_run pcbs work Bs s'"
| needed: "tcpip_run pcbs work Bs s \<Longrightarrow> tcp_timer_needed pcbs s = Some s' \<Longrightarrow> tcpip_run pcbs work Bs s'"
| other: "tcpip_run pcbs work Bs s \<Longrightarrow> (\<forall>F. mrep MEMP_SYS_TIMEOUT Bs (stk s) F \<longrightarrow> mrep MEMP_SYS_TIMEOUT Bs m F) \<Longrightarrow>
    tcpip_run pcbs work Bs (s\<lparr>stk := m\<rparr>)"

lemma timers_ok_other:
  assumes "timers_ok Bs s L" "\<forall>F. mrep MEMP_SYS_TIMEOUT Bs (stk s) F \<longrightarrow> mrep MEMP_SYS_TIMEOUT Bs m F"
  shows "timers_ok Bs (s\<lparr>stk := m\<rparr>) L"
proof -
  have "torep Bs s L F \<Longrightarrow> torep Bs (s\<lparr>stk := m\<rparr>) L F" for F
    using assms(2) by (simp add: torep_def olink_def)
  then show ?thesis using assms(1) by (auto simp: timers_ok_def tinv_def)
qed

lemma tcpip_run_ok:
  assumes "work_ok Bs work" shows "tcpip_run pcbs work Bs s \<Longrightarrow> \<exists>L. timers_ok Bs s L"
proof (induction rule: tcpip_run.induct)
  case (init s F s')
  then show ?case using timers_ok_init by fastforce
next
  case (fetch s ws msg m ws' s')
  then show ?case using timers_ok_fetch [OF assms] by blast
next
  case (needed s s')
  then show ?case using timers_ok_needed by (metis option.inject)
next
  case (other s m)
  then show ?case using timers_ok_other by blast
qed

lemma timers_ok_once:
  assumes "timers_ok Bs s L" "h \<in> set cyclic"
  shows "\<exists>F x n. torep Bs s L F \<and> filter (\<lambda>(y, k). to_h s y = h) L = [(x, n)] \<and> n \<le> unat (period h)"
proof -
  let ?f = "filter (\<lambda>(y, k). to_h s y = h) L"
  obtain F where F: "torep Bs s L F" using assms(1) by (auto simp: timers_ok_def tinv_def)
  have "size {# g \<in># image_mset (\<lambda>(y, k). to_h s y) (mset L). g = h #} = 1"
    using assms by (auto simp: timers_ok_def tinv_def cyclic_def split: if_splits)
  then have "size {# p \<in># mset L. (\<lambda>(y, k). to_h s y = h) p #} = 1"
    by (simp add: filter_mset_image_mset split_def)
  then have "length ?f = 1" by (metis mset_filter size_mset)
  then obtain x n where xn: "?f = [(x, n)]" by (auto simp: length_Suc_conv)
  then have "(x, n) \<in> set L" "to_h s x = h" by (auto simp: filter_eq_Cons_iff)
  then have "n \<le> unat (period h)" using assms(1) by (auto simp: timers_ok_def tinv_def)
  with F xn show ?thesis by blast
qed

section \<open>Promises of the interface\<close>

text \<open>A stack that has done nothing but set up a pool of eight timeouts.\<close>

definition smp_tpool :: "ptr list" where
  "smp_tpool = [0x1000, 0x1010, 0x1020, 0x1030, 0x1040, 0x1050, 0x1060, 0x1070]"

definition smp_stk :: lw where
  "smp_stk = \<lparr>bytes = \<lambda>_. 0, pb_next = \<lambda>_. 0, pb_payload = \<lambda>_. 0, pb_tot_len = \<lambda>_. 0, pb_len = \<lambda>_. 0, pb_type = \<lambda>_. 0,
     pb_flags = \<lambda>_. 0, pb_ref_count = \<lambda>_. 0, custom_original = \<lambda>_. 0,
     memp_tab = (replicate 15 NULL)[MEMP_SYS_TIMEOUT := 0x1000], memp_next = \<lambda>p. if p = 0x1070 then NULL else p + 0x10,
     ram = 0, ram_end = 0, lfree = 0, mem_next = \<lambda>_. 0, mem_prev = \<lambda>_. 0, mem_used = \<lambda>_. 0\<rparr>"

definition smp_tms :: tms where
  "smp_tms = \<lparr>stk = smp_stk, next_timeout = NULL, to_next = \<lambda>_. 0, to_time = \<lambda>_. 0, to_h = \<lambda>_. Handler NULL,
     to_arg = \<lambda>_. 0, tcpip_tcp_timer_active = False\<rparr>"

lemma smp_torep: "torep (set smp_tpool) smp_tms [] smp_tpool"
  by (simp add: torep_def mrep_def smp_tms_def smp_stk_def smp_tpool_def alarms_def olink_def)

text \<open>
  \<open>sys_timeout\<close> takes a free timeout from the pool and enters it among the pending ones so
  that it expires after exactly \<open>msecs\<close>, behind those that expire no later, and every other
  pending timeout keeps its remaining time, although the code stores differences only.
\<close>

theorem sys_timeout_refines:
  assumes "torep Bs s L (x # F)"
  shows "\<exists>s'. sys_timeout msecs h arg s = Some s' \<and> torep Bs s' (ins_tm x (unat msecs) L) F \<and>
    to_h s' = (to_h s)(x := h) \<and> to_arg s' = (to_arg s)(x := arg)"
  using sys_timeout_spec [OF assms] by blast

theorem sys_timeout_refines_witness:
  "\<exists>s'. sys_timeout 500 Dhcp_timer_fine 0 smp_tms = Some s' \<and> torep (set smp_tpool) s' [(0x1000, 500)] (tl smp_tpool)"
proof -
  have "torep (set smp_tpool) smp_tms [] (0x1000 # tl smp_tpool)" using smp_torep by (simp add: smp_tpool_def)
  from sys_timeout_refines [OF this, of 500 Dhcp_timer_fine 0] show ?thesis by (auto simp: ins_tm_def)
qed

text \<open>
  \<open>sys_untimeout\<close> undoes \<open>sys_timeout\<close>: when no other pending timeout has the same handler
  and argument, the pending timeouts, their remaining times and the free list of the pool
  are again what they were.
\<close>

theorem sys_timeout_untimeout:
  assumes rep: "torep Bs s L (x # F)" and no: "\<forall>(y, k)\<in>set L. \<not> (to_h s y = h \<and> to_arg s y = arg)"
  shows "\<exists>s1 s2. sys_timeout msecs h arg s = Some s1 \<and> sys_untimeout h arg s1 = Some s2 \<and> torep Bs s2 L (x # F)"
proof -
  let ?A = "takeWhile (\<lambda>(_, n). n \<le> unat msecs) L" and ?B = "dropWhile (\<lambda>(_, n). n \<le> unat msecs) L"
  obtain s1 where s1: "sys_timeout msecs h arg s = Some s1" "torep Bs s1 (?A @ (x, unat msecs) # ?B) F"
    "to_h s1 = (to_h s)(x := h)" "to_arg s1 = (to_arg s)(x := arg)"
    using sys_timeout_spec [OF rep, of msecs h arg] by (auto simp: ins_tm_def)
  have x: "y \<noteq> x" if "(y, n) \<in> set L" for y n using that torepD(4) [OF rep] by (force simp: image_iff)
  have "\<forall>(y, k)\<in>set ?A. \<not> (to_h s1 y = h \<and> to_arg s1 y = arg)"
  proof (clarify)
    fix y k assume y: "(y, k) \<in> set ?A" and eq: "h = to_h s1 y" "arg = to_arg s1 y"
    have "(y, k) \<in> set L" using y set_takeWhileD by fastforce
    with no x [OF this] eq show False unfolding s1(3,4) by auto
  qed
  from sys_untimeout_spec [OF s1(2) this] s1 show ?thesis by auto
qed

theorem sys_timeout_untimeout_witness:
  "\<exists>s1 s2. sys_timeout 500 Dhcp_timer_fine 0 smp_tms = Some s1 \<and> sys_untimeout Dhcp_timer_fine 0 s1 = Some s2 \<and>
     torep (set smp_tpool) s2 [] (0x1000 # tl smp_tpool)"
proof -
  have "torep (set smp_tpool) smp_tms [] (0x1000 # tl smp_tpool)" using smp_torep by (simp add: smp_tpool_def)
  from sys_timeout_untimeout [OF this] show ?thesis by simp
qed

text \<open>
  C26: In every run of the stack, from \<open>sys_timeouts_init\<close> on and whatever messages arrive,
  each cyclic timer (IP reassembly, ARP, DHCP coarse and fine, IGMP, DNS) has exactly one
  pending timeout, which expires within its period: no timer is lost and none is doubled.
\<close>

theorem cyclic_timers_pending:
  assumes "tcpip_run pcbs work Bs s" and "work_ok Bs work" and "h \<in> set cyclic"
  shows "\<exists>L F x n. torep Bs s L F \<and> filter (\<lambda>(y, k). to_h s y = h) L = [(x, n)] \<and> n \<le> unat (period h)"
proof -
  from tcpip_run_ok [OF assms(2,1)] obtain L where "timers_ok Bs s L" by blast
  from timers_ok_once [OF this assms(3)] show ?thesis by blast
qed

definition smp_work :: timer_work where
  "smp_work h arg m = m"

lemma smp_work_ok: "work_ok Bs smp_work"
  by (simp add: work_ok_def smp_work_def)

lemma smp_run: "\<exists>s. sys_timeouts_init smp_tms = Some s \<and> tcpip_run (\<lambda>_. False) smp_work (set smp_tpool) s"
proof -
  have "7 \<le> length smp_tpool" "\<not> tcpip_tcp_timer_active smp_tms" by (simp_all add: smp_tpool_def smp_tms_def)
  from timers_ok_init [OF smp_torep this] tcpip_run.init [OF smp_torep this] show ?thesis by blast
qed

theorem cyclic_timers_pending_witness:
  "\<exists>s. sys_timeouts_init smp_tms = Some s \<and>
     (\<exists>L F x n. torep (set smp_tpool) s L F \<and> filter (\<lambda>(y, k). to_h s y = Arp_timer) L = [(x, n)] \<and> n \<le> 5000)"
proof -
  obtain s where s: "sys_timeouts_init smp_tms = Some s" "tcpip_run (\<lambda>_. False) smp_work (set smp_tpool) s"
    using smp_run by blast
  have "Arp_timer \<in> set cyclic" by (simp add: cyclic_def)
  from cyclic_timers_pending [OF s(2) smp_work_ok this] s(1) show ?thesis by simp
qed

section \<open>What is done before a message is returned\<close>

text \<open>
  The first timeout expires: it is taken out of the list and its element goes back to the pool, the work of its handler is done
  once, and the handler is entered again with its period; the TCP timer only while there are connections.
\<close>

definition expires :: "(lw \<Rightarrow> bool) \<Rightarrow> timer_work \<Rightarrow> tms \<Rightarrow> sys_timeout_handler \<Rightarrow> tms \<Rightarrow> bool" where
  "expires pcbs work s h s' \<longleftrightarrow> next_timeout s \<noteq> NULL \<and> h = to_h s (next_timeout s) \<and>
     (\<exists>m. memp_free MEMP_SYS_TIMEOUT (next_timeout s) (stk s) = Some m \<and>
       (let t = s\<lparr>next_timeout := to_next s (next_timeout s), stk := work h (to_arg s (next_timeout s)) m\<rparr>
        in if h = Tcpip_tcp_timer \<and> \<not> pcbs (stk t) then s' = t\<lparr>tcpip_tcp_timer_active := False\<rparr>
           else sys_timeout (period h) h NULL t = Some s'))"

text \<open>
  The timeouts with the handlers \<open>hs\<close> expire one after the other, those that are due without a wait, and one at the end of each of \<open>k\<close>
  waits; afterwards the first timeout is not due.
\<close>

inductive served :: "(lw \<Rightarrow> bool) \<Rightarrow> timer_work \<Rightarrow> nat \<Rightarrow> sys_timeout_handler list \<Rightarrow> tms \<Rightarrow> tms \<Rightarrow> bool"
  for pcbs :: "lw \<Rightarrow> bool" and work :: timer_work where
  ready: "0 < to_time s (next_timeout s) \<Longrightarrow> served pcbs work 0 [] s s"
| due: "to_time s (next_timeout s) = 0 \<Longrightarrow> expires pcbs work s h s1 \<Longrightarrow> served pcbs work k hs s1 s2 \<Longrightarrow> served pcbs work k (h # hs) s s2"
| waited: "0 < to_time s (next_timeout s) \<Longrightarrow> expires pcbs work s h s1 \<Longrightarrow> served pcbs work k hs s1 s2 \<Longrightarrow> served pcbs work (Suc k) (h # hs) s s2"

lemma timers_ok_expires:
  assumes w: "work_ok Bs work" and ok: "timers_ok Bs s L"
  obtains s' L' n L1 where "timeout_expired pcbs work s = Some s'" "timers_ok Bs s' L'" "expires pcbs work s (to_h s (next_timeout s)) s'"
    "L = (next_timeout s, n) # L1" "n = unat (to_time s (next_timeout s))" "zeros L' = zeros (elapse n L1)"
proof -
  obtain x n L1 where L: "L = (x, n) # L1" "next_timeout s = x" "x \<noteq> NULL" "n = unat (to_time s x)" using timers_ok_ne [OF ok] by blast
  obtain s' L' where s': "timeout_expired pcbs work s = Some s'" "timers_ok Bs s' L'" "zeros L' = zeros (elapse n L1)"
    using timers_ok_expired [OF w ok [unfolded L(1)]] by blast
  let ?h = "to_h s x"
  define M where "M = mset cyclic + (if tcpip_tcp_timer_active s then {#Tcpip_tcp_timer#} else {#})"
  have "tinv Bs s M ((x, n) # L1)" using ok L(1) by (simp add: timers_ok_def M_def)
  from tinv_expired [OF this, of pcbs work] have "?h \<in># M" by (metis union_single_eq_member)
  then have h: "?h \<in> insert Tcpip_tcp_timer (set cyclic)" by (auto simp: M_def split: if_splits)
  obtain m where m: "memp_free MEMP_SYS_TIMEOUT x (stk s) = Some m"
    "call_handler pcbs work ?h (to_arg s x) (s\<lparr>next_timeout := to_next s x, stk := m\<rparr>) = Some s'"
    using s'(1) L(2) by (auto simp: timeout_expired_def Let_def bind_eq_Some_conv)
  have "expires pcbs work s ?h s'" unfolding expires_def L(2) using L(3) m h
    by (auto simp: cyclic_def tcpip_tcp_timer_def ip_reass_timer_def arp_timer_def dhcp_timer_coarse_def dhcp_timer_fine_def igmp_timer_def
      dns_timer_def Let_def split: if_splits)
  then show thesis using that [of s' L' n L1] s' L by auto
qed

lemma fetch_due:
  assumes w: "work_ok Bs work"
  shows "timers_ok Bs s L \<Longrightarrow>
    \<exists>hs s' L'. sys_timeouts_mbox_fetch pcbs work ws msg s = sys_timeouts_mbox_fetch pcbs work ws msg s' \<and> timers_ok Bs s' L' \<and>
      0 < to_time s' (next_timeout s') \<and> (\<forall>k hs' s2. served pcbs work k hs' s' s2 \<longrightarrow> served pcbs work k (hs @ hs') s s2)"
proof (induction "zeros L" arbitrary: s L rule: less_induct)
  case less
  obtain s1 L2 n L1 where s1: "timeout_expired pcbs work s = Some s1" "timers_ok Bs s1 L2" "expires pcbs work s (to_h s (next_timeout s)) s1"
    "L = (next_timeout s, n) # L1" "n = unat (to_time s (next_timeout s))" "zeros L2 = zeros (elapse n L1)"
    by (rule timers_ok_expires [OF w less.prems])
  have x: "next_timeout s \<noteq> NULL" using s1(3) by (simp add: expires_def)
  show ?case
  proof (cases "n = 0")
    case True
    then have z: "to_time s (next_timeout s) = 0" using s1(5) by (simp add: unat_eq_0)
    have "zeros L2 < zeros L" using s1(4,6) True by (simp add: zeros_def elapse_def split_def)
    from less.hyps [OF this s1(2)] obtain hs s' L' where r: "sys_timeouts_mbox_fetch pcbs work ws msg s1 = sys_timeouts_mbox_fetch pcbs work ws msg s'"
      "timers_ok Bs s' L'" "0 < to_time s' (next_timeout s')" "\<forall>k hs' s2. served pcbs work k hs' s' s2 \<longrightarrow> served pcbs work k (hs @ hs') s1 s2" by blast
    have "sys_timeouts_mbox_fetch pcbs work ws msg s = sys_timeouts_mbox_fetch pcbs work ws msg s'"
      using x z s1(1) r(1) by (subst sys_timeouts_mbox_fetch.simps) simp
    moreover have "\<forall>k hs' s2. served pcbs work k hs' s' s2 \<longrightarrow> served pcbs work k ((to_h s (next_timeout s) # hs) @ hs') s s2"
      using served.due [OF z s1(3)] r(4) by simp
    ultimately show ?thesis using r(2,3) by blast
  next
    case False
    then have "0 < to_time s (next_timeout s)" using s1(5) by (simp add: word_less_nat_alt)
    then show ?thesis using less.prems by (intro exI [of _ "[]"] exI [of _ s] exI [of _ L]) simp
  qed
qed

lemma fetch_served:
  assumes w: "work_ok Bs work" and v: "w_message m = Some v"
  defines "t \<equiv> (w_stop m - w_start m) div 1000"
  shows "timers_ok Bs s L \<Longrightarrow> \<forall>w\<in>set ts. w_message w = None \<Longrightarrow>
    \<exists>hs s1. served pcbs work (length ts) hs s s1 \<and> sys_timeouts_mbox_fetch pcbs work (ts @ m # ws) msg s =
      Some (v, ws, put_to_time (next_timeout s1) (to_time s1 (next_timeout s1) - min t (to_time s1 (next_timeout s1))) s1)"
proof (induction ts arbitrary: s L)
  case Nil
  obtain hs s1 L1 where s1: "sys_timeouts_mbox_fetch pcbs work (m # ws) msg s = sys_timeouts_mbox_fetch pcbs work (m # ws) msg s1"
    "timers_ok Bs s1 L1" "0 < to_time s1 (next_timeout s1)" "\<forall>k hs' s2. served pcbs work k hs' s1 s2 \<longrightarrow> served pcbs work k (hs @ hs') s s2"
    using fetch_due [OF w Nil(1)] by blast
  have "served pcbs work 0 hs s s1" using s1(4) served.ready [OF s1(3)] by fastforce
  moreover have "next_timeout s1 \<noteq> NULL" using timers_ok_ne [OF s1(2)] by metis
  then have "sys_timeouts_mbox_fetch pcbs work (m # ws) msg s1 =
      Some (v, ws, put_to_time (next_timeout s1) (to_time s1 (next_timeout s1) - min t (to_time s1 (next_timeout s1))) s1)"
    using s1(3) v wait_less [of "w_stop m" "w_start m"]
    by (subst sys_timeouts_mbox_fetch.simps) (auto simp: sys_arch_mbox_fetch_def t_def min_def)
  ultimately show ?case unfolding append_Nil list.size s1(1) by blast
next
  case (Cons w0 ts)
  obtain hs s1 L1 where s1: "sys_timeouts_mbox_fetch pcbs work (w0 # ts @ m # ws) msg s = sys_timeouts_mbox_fetch pcbs work (w0 # ts @ m # ws) msg s1"
    "timers_ok Bs s1 L1" "0 < to_time s1 (next_timeout s1)" "\<forall>k hs' s2. served pcbs work k hs' s1 s2 \<longrightarrow> served pcbs work k (hs @ hs') s s2"
    using fetch_due [OF w Cons.prems(1)] by blast
  obtain s2 L2 n L3 where s2: "timeout_expired pcbs work s1 = Some s2" "timers_ok Bs s2 L2" "expires pcbs work s1 (to_h s1 (next_timeout s1)) s2"
    by (rule timers_ok_expires [OF w s1(2)])
  have n: "\<forall>w\<in>set ts. w_message w = None" using Cons.prems(2) by simp
  have "next_timeout s1 \<noteq> NULL" using s2(3) by (simp add: expires_def)
  then have "sys_timeouts_mbox_fetch pcbs work (w0 # ts @ m # ws) msg s1 = sys_timeouts_mbox_fetch pcbs work (ts @ m # ws) msg s2"
    using s1(3) s2(1) Cons.prems(2) by (subst sys_timeouts_mbox_fetch.simps) (simp add: sys_arch_mbox_fetch_def)
  moreover obtain hs' s3 where s3: "served pcbs work (length ts) hs' s2 s3" "sys_timeouts_mbox_fetch pcbs work (ts @ m # ws) msg s2 =
      Some (v, ws, put_to_time (next_timeout s3) (to_time s3 (next_timeout s3) - min t (to_time s3 (next_timeout s3))) s3)"
    using Cons.IH [OF s2(2) n] by blast
  moreover have "served pcbs work (Suc (length ts)) (hs @ to_h s1 (next_timeout s1) # hs') s s3"
    using s1(4) served.waited [OF s1(3) s2(3) s3(1)] by blast
  ultimately show ?case unfolding append_Cons length_Cons s1(1) s3(2) by metis
qed

text \<open>
  C27: Timers do not keep the thread of the stack from its messages: in every run, when a message arrives after any number of waits
  without one, \<open>sys_timeouts_mbox_fetch\<close> returns that message. Before the last wait, and before each other one, every timeout that is
  due has expired, and at the end of each wait without a message the first timeout has: the work of its handler is done and it is
  entered again. The waiting time for the message is taken off the first timeout, not below 0. The timers stay as in every run.
\<close>

theorem mbox_fetch_returns:
  assumes "tcpip_run pcbs work Bs s" and "work_ok Bs work"
    and "\<forall>w\<in>set ts. w_message w = None" and "w_message m = Some v"
  shows "\<exists>hs s1 s'. served pcbs work (length ts) hs s s1 \<and>
    sys_timeouts_mbox_fetch pcbs work (ts @ m # ws) msg s = Some (v, ws, s') \<and>
    s' = put_to_time (next_timeout s1) (to_time s1 (next_timeout s1) - min ((w_stop m - w_start m) div 1000) (to_time s1 (next_timeout s1))) s1 \<and>
    tcpip_run pcbs work Bs s'"
proof -
  from tcpip_run_ok [OF assms(2,1)] obtain L where "timers_ok Bs s L" by blast
  from fetch_served [OF assms(2,4) this assms(3)] tcpip_run.fetch [OF assms(1)] show ?thesis by blast
qed

theorem mbox_fetch_returns_witness:
  "\<exists>s hs s1 s'. sys_timeouts_init smp_tms = Some s \<and> served (\<lambda>_. False) smp_work 1 hs s s1 \<and>
     sys_timeouts_mbox_fetch (\<lambda>_. False) smp_work
       [\<lparr>w_start = 0, w_message = None, w_stop = 100000\<rparr>, \<lparr>w_start = 100000, w_message = Some 7, w_stop = 130000\<rparr>] 0 s = Some (7, [], s')"
proof -
  obtain s where s: "sys_timeouts_init smp_tms = Some s" "tcpip_run (\<lambda>_. False) smp_work (set smp_tpool) s"
    using smp_run by blast
  from mbox_fetch_returns [OF s(2) smp_work_ok, of "[\<lparr>w_start = 0, w_message = None, w_stop = 100000\<rparr>]"
      "\<lparr>w_start = 100000, w_message = Some 7, w_stop = 130000\<rparr>" 7 "[]" 0] s(1)
  show ?thesis by auto
qed

text \<open>
  Time that a message has waited beyond the first timeout is forgotten: the timeouts behind
  the first one are late by it.
\<close>

lemma mbox_fetch_forgets:
  assumes "next_timeout s = x" "x \<noteq> NULL" "0 < to_time s x" "w_message m = Some v"
    and "to_time s x \<le> (w_stop m - w_start m) div 1000"
  shows "sys_timeouts_mbox_fetch pcbs work (m # ws) msg s = Some (v, ws, put_to_time x 0 s)"
  using assms wait_less [of "w_stop m" "w_start m"]
  by (subst sys_timeouts_mbox_fetch.simps) (simp add: sys_arch_mbox_fetch_def)

end
