(* ===== verification/LW_Reass.thy ===== *)
theory LW_Reass
  imports LW_Packet
begin

text \<open>
  Fragments of IP datagrams: \<open>ip_frag.c\<close>, with overlap checks and the release of the oldest
  datagram, ten buffers at most, no static buffer. While a fragment waits, its IP header is
  overlaid by \<open>struct ip_reass_helper\<close>: the next fragment at offset 0, \<open>start\<close> at 4 and \<open>end\<close> at 6.
  The ICMP module, which is told of datagrams that time out, and the output function of the
  interface are parameters.
\<close>

section \<open>State\<close>

text \<open>
  The state of the IP module: the memory, the datagrams that wait for fragments, the interfaces and
  the packet that is being processed.
\<close>

abbreviation (input) MEMP_REASSDATA :: nat where "MEMP_REASSDATA \<equiv> 4"
abbreviation (input) IP_REASS_MAXAGE :: u8 where "IP_REASS_MAXAGE \<equiv> 3"
abbreviation (input) IP_REASS_MAX_PBUFS :: nat where "IP_REASS_MAX_PBUFS \<equiv> 10"
abbreviation (input) IP_REASS_FLAG_LASTFRAG :: u8 where "IP_REASS_FLAG_LASTFRAG \<equiv> 1"
abbreviation (input) IP_HLEN :: u16 where "IP_HLEN \<equiv> 20"
abbreviation (input) IP_OFFMASK :: u16 where "IP_OFFMASK \<equiv> 0x1fff"
abbreviation (input) IP_MF :: u16 where "IP_MF \<equiv> 0x2000"

record ipst =
  ilw :: lw
  ipr_next :: "ptr \<Rightarrow> ptr"
  ipr_p :: "ptr \<Rightarrow> ptr"
  ipr_iphdr :: "ptr \<Rightarrow> u8 list"
  ipr_datagram_len :: "ptr \<Rightarrow> u16"
  ipr_flags :: "ptr \<Rightarrow> u8"
  ipr_timer :: "ptr \<Rightarrow> u8"
  reassdatagrams :: ptr
  ip_reass_pbufcount :: u16
  netifs :: "ptr \<Rightarrow> netif"
  netif_next :: "ptr \<Rightarrow> ptr"
  netif_list :: ptr
  netif_default :: ptr
  ip_id :: u16
  current_netif :: ptr
  current_header :: ptr
  current_iphdr_src :: u32
  current_iphdr_dest :: u32

abbreviation (input) put_ipr_next :: "ptr \<Rightarrow> ptr \<Rightarrow> ipst \<Rightarrow> ipst" where
  "put_ipr_next r v s \<equiv> s\<lparr>ipr_next := (ipr_next s)(r := v)\<rparr>"
abbreviation (input) put_ipr_p :: "ptr \<Rightarrow> ptr \<Rightarrow> ipst \<Rightarrow> ipst" where
  "put_ipr_p r v s \<equiv> s\<lparr>ipr_p := (ipr_p s)(r := v)\<rparr>"
abbreviation (input) put_ipr_iphdr :: "ptr \<Rightarrow> u8 list \<Rightarrow> ipst \<Rightarrow> ipst" where
  "put_ipr_iphdr r v s \<equiv> s\<lparr>ipr_iphdr := (ipr_iphdr s)(r := v)\<rparr>"
abbreviation (input) put_ipr_datagram_len :: "ptr \<Rightarrow> u16 \<Rightarrow> ipst \<Rightarrow> ipst" where
  "put_ipr_datagram_len r v s \<equiv> s\<lparr>ipr_datagram_len := (ipr_datagram_len s)(r := v)\<rparr>"
abbreviation (input) put_ipr_flags :: "ptr \<Rightarrow> u8 \<Rightarrow> ipst \<Rightarrow> ipst" where
  "put_ipr_flags r v s \<equiv> s\<lparr>ipr_flags := (ipr_flags s)(r := v)\<rparr>"
abbreviation (input) put_ipr_timer :: "ptr \<Rightarrow> u8 \<Rightarrow> ipst \<Rightarrow> ipst" where
  "put_ipr_timer r v s \<equiv> s\<lparr>ipr_timer := (ipr_timer s)(r := v)\<rparr>"

text \<open>The fields of \<open>struct ip_hdr\<close> at an address.\<close>

type_synonym mem = "ptr \<Rightarrow> u8"

definition IPH_HL :: "mem \<Rightarrow> ptr \<Rightarrow> u16" where
  "IPH_HL b h = drop_bit 8 (lwip_ntohs (rd16 b h)) AND 0x0f"

definition IPH_LEN :: "mem \<Rightarrow> ptr \<Rightarrow> u16" where "IPH_LEN b h = rd16 b (h + 2)"
definition IPH_ID :: "mem \<Rightarrow> ptr \<Rightarrow> u16" where "IPH_ID b h = rd16 b (h + 4)"
definition IPH_OFFSET :: "mem \<Rightarrow> ptr \<Rightarrow> u16" where "IPH_OFFSET b h = rd16 b (h + 6)"
definition IPH_SRC :: "mem \<Rightarrow> ptr \<Rightarrow> u32" where "IPH_SRC b h = rd32 b (h + 12)"
definition IPH_DEST :: "mem \<Rightarrow> ptr \<Rightarrow> u32" where "IPH_DEST b h = rd32 b (h + 16)"

text \<open>The header that is kept in a \<open>struct ip_reassdata\<close>, as memory from address 0.\<close>

definition hmem :: "u8 list \<Rightarrow> mem" where
  "hmem l a = l ! unat a"

definition IP_ADDRESSES_AND_ID_MATCH :: "u8 list \<Rightarrow> mem \<Rightarrow> ptr \<Rightarrow> bool" where
  "IP_ADDRESSES_AND_ID_MATCH l b h \<longleftrightarrow>
     IPH_SRC (hmem l) 0 = IPH_SRC b h \<and> IPH_DEST (hmem l) 0 = IPH_DEST b h \<and> IPH_ID (hmem l) 0 = IPH_ID b h"

text \<open>The fields of the helper of a buffer.\<close>

definition next_pbuf :: "lw \<Rightarrow> ptr \<Rightarrow> ptr" where "next_pbuf s p = rd32 (bytes s) (pb_payload s p)"
definition frag_start :: "lw \<Rightarrow> ptr \<Rightarrow> u16" where "frag_start s p = rd16 (bytes s) (pb_payload s p + 4)"
definition frag_end :: "lw \<Rightarrow> ptr \<Rightarrow> u16" where "frag_end s p = rd16 (bytes s) (pb_payload s p + 6)"

definition put_next_pbuf :: "ptr \<Rightarrow> ptr \<Rightarrow> lw \<Rightarrow> lw" where
  "put_next_pbuf p v s = wr32 (pb_payload s p) v s"

section \<open>The list of datagrams\<close>

type_synonym icmp = "ptr \<Rightarrow> ipst \<Rightarrow> ipst option"

definition ip_reass_dequeue_datagram :: "ptr \<Rightarrow> ptr \<Rightarrow> ipst \<Rightarrow> ipst option" where
  "ip_reass_dequeue_datagram ipr prev s = do {
     s \<leftarrow> (if reassdatagrams s = ipr then Some (s\<lparr>reassdatagrams := ipr_next s ipr\<rparr>)
           else if prev = NULL then None else Some (put_ipr_next prev (ipr_next s ipr) s));
     m \<leftarrow> memp_free MEMP_REASSDATA ipr (ilw s);
     Some (s\<lparr>ilw := m\<rparr>) }"

partial_function (option) free_frags_loop :: "ptr \<Rightarrow> u16 \<Rightarrow> lw \<Rightarrow> (u16 \<times> lw) option" where
  "free_frags_loop p pbufs_freed s =
     (if p \<noteq> NULL then do {
        let nxt = next_pbuf s p;
        clen \<leftarrow> pbuf_clen p s;
        (_, s) \<leftarrow> pbuf_free p s;
        free_frags_loop nxt (pbufs_freed + ucast clen) s }
      else Some (pbufs_freed, s))"

definition ip_reass_free_complete_datagram :: "icmp \<Rightarrow> ptr \<Rightarrow> ptr \<Rightarrow> ipst \<Rightarrow> (u16 \<times> ipst) option" where
  "ip_reass_free_complete_datagram icmp_time_exceeded ipr prev s =
     (if ipr_p s ipr = NULL then None
      else do {
        (pbufs_freed, s) \<leftarrow>
          (if frag_start (ilw s) (ipr_p s ipr) = 0 then do {
             let p = ipr_p s ipr;
             let s = put_ipr_p ipr (next_pbuf (ilw s) p) s;
             let m = wr (pb_payload (ilw s) p) (ipr_iphdr s ipr) (ilw s);
             s \<leftarrow> icmp_time_exceeded p (s\<lparr>ilw := m\<rparr>);
             clen \<leftarrow> pbuf_clen p (ilw s);
             (_, m) \<leftarrow> pbuf_free p (ilw s);
             Some (ucast clen, s\<lparr>ilw := m\<rparr>) }
           else Some (0, s));
        (pbufs_freed, m) \<leftarrow> free_frags_loop (ipr_p s ipr) pbufs_freed (ilw s);
        s \<leftarrow> ip_reass_dequeue_datagram ipr prev (s\<lparr>ilw := m\<rparr>);
        Some (pbufs_freed, s\<lparr>ip_reass_pbufcount := ip_reass_pbufcount s - pbufs_freed\<rparr>) })"

partial_function (option) reass_tmr_loop :: "icmp \<Rightarrow> ptr \<Rightarrow> ptr \<Rightarrow> ipst \<Rightarrow> ipst option" where
  "reass_tmr_loop icmp r prev s =
     (if r \<noteq> NULL then
        if ipr_timer s r > 0 then
          let s = put_ipr_timer r (ipr_timer s r - 1) s in reass_tmr_loop icmp (ipr_next s r) r s
        else
          let tmp = r; r = ipr_next s r in
          ip_reass_free_complete_datagram icmp tmp prev s \<bind> (\<lambda>(_, s). reass_tmr_loop icmp r prev s)
      else Some s)"

definition ip_reass_tmr :: "icmp \<Rightarrow> ipst \<Rightarrow> ipst option" where
  "ip_reass_tmr icmp s = reass_tmr_loop icmp (reassdatagrams s) NULL s"

text \<open>The search for the oldest datagram besides that of the header \<open>fraghdr\<close>.\<close>

partial_function (option) oldest_loop :: "ptr \<Rightarrow> ipst \<Rightarrow> ptr \<Rightarrow> ptr \<Rightarrow> ptr \<Rightarrow> int \<Rightarrow> (ptr \<times> ptr \<times> int) option" where
  "oldest_loop fraghdr s r oldest prev other_datagrams =
     (if r \<noteq> NULL then
        let (other_datagrams, oldest) =
              (if \<not> IP_ADDRESSES_AND_ID_MATCH (ipr_iphdr s r) (bytes (ilw s)) fraghdr
               then (other_datagrams + 1, if oldest = NULL then r else if ipr_timer s r \<le> ipr_timer s oldest then r else oldest)
               else (other_datagrams, oldest));
            prev = (if ipr_next s r \<noteq> NULL then r else prev)
        in oldest_loop fraghdr s (ipr_next s r) oldest prev other_datagrams
      else Some (oldest, prev, other_datagrams))"

partial_function (option) ip_reass_remove_oldest_loop :: "icmp \<Rightarrow> ptr \<Rightarrow> int \<Rightarrow> int \<Rightarrow> ipst \<Rightarrow> (int \<times> ipst) option" where
  "ip_reass_remove_oldest_loop icmp fraghdr pbufs_needed pbufs_freed s = do {
     (oldest, prev, other_datagrams) \<leftarrow> oldest_loop fraghdr s (reassdatagrams s) NULL NULL 0;
     (pbufs_freed, s) \<leftarrow>
       (if oldest \<noteq> NULL
        then ip_reass_free_complete_datagram icmp oldest prev s \<bind> (\<lambda>(n, s). Some (pbufs_freed + uint n, s))
        else Some (pbufs_freed, s));
     if pbufs_freed < pbufs_needed \<and> other_datagrams > 1
     then ip_reass_remove_oldest_loop icmp fraghdr pbufs_needed pbufs_freed s
     else Some (pbufs_freed, s) }"

definition ip_reass_remove_oldest_datagram :: "icmp \<Rightarrow> ptr \<Rightarrow> int \<Rightarrow> ipst \<Rightarrow> (int \<times> ipst) option" where
  "ip_reass_remove_oldest_datagram icmp fraghdr pbufs_needed s = ip_reass_remove_oldest_loop icmp fraghdr pbufs_needed 0 s"

definition ip_reass_enqueue_new_datagram :: "icmp \<Rightarrow> ptr \<Rightarrow> int \<Rightarrow> ipst \<Rightarrow> (ptr \<times> ipst) option" where
  "ip_reass_enqueue_new_datagram icmp fraghdr clen s = do {
     let (ipr, m) = memp_malloc MEMP_REASSDATA (ilw s);
     let s = s\<lparr>ilw := m\<rparr>;
     (ipr, s) \<leftarrow>
       (if ipr = NULL then do {
          (n, s) \<leftarrow> ip_reass_remove_oldest_datagram icmp fraghdr clen s;
          if n \<ge> clen then let (ipr, m) = memp_malloc MEMP_REASSDATA (ilw s) in Some (ipr, s\<lparr>ilw := m\<rparr>)
          else Some (NULL, s) }
        else Some (ipr, s));
     if ipr = NULL then Some (NULL, s)
     else do {
       let s = put_ipr_p ipr NULL s;
       let s = put_ipr_datagram_len ipr 0 s;
       let s = put_ipr_flags ipr 0 s;
       let s = put_ipr_timer ipr IP_REASS_MAXAGE s;
       let s = put_ipr_next ipr (reassdatagrams s) s;
       let s = s\<lparr>reassdatagrams := ipr\<rparr>;
       Some (ipr, put_ipr_iphdr ipr (bytes_at (bytes (ilw s)) fraghdr 20) s) } }"

section \<open>The fragments of a datagram\<close>

text \<open>
  The search for the place of the new fragment, from the fragment \<open>q\<close> with the predecessor \<open>prev\<close>
  (\<open>NULL\<close>: none). The value is \<open>Inl\<close> if the new fragment is thrown away, with what is left in its
  link, and otherwise the fragment in front of which it is put (\<open>NULL\<close>: none), its predecessor, and
  whether there was no gap.
\<close>

partial_function (option) frag_place :: "lw \<Rightarrow> u16 \<Rightarrow> u16 \<Rightarrow> ptr \<Rightarrow> ptr \<Rightarrow> bool \<Rightarrow> (ptr + ptr \<times> ptr \<times> bool) option" where
  "frag_place s start end q prev valid =
     (if q \<noteq> NULL then
        if start < frag_start s q then
          if prev \<noteq> NULL \<and> (start < frag_end s prev \<or> end > frag_start s q) then Some (Inl q)
          else Some (Inr (q, prev, valid))
        else if start = frag_start s q then Some (Inl NULL)
        else if start < frag_end s q then Some (Inl NULL)
        else
          let valid = (if prev \<noteq> NULL \<and> frag_end s prev \<noteq> frag_start s q then False else valid)
          in frag_place s start end (next_pbuf s q) q valid
      else Some (Inr (NULL, prev, valid)))"

text \<open>The check that there are no gaps behind a fragment that ends at \<open>end\<close>.\<close>

partial_function (option) frag_rest :: "lw \<Rightarrow> u16 \<Rightarrow> ptr \<Rightarrow> bool option" where
  "frag_rest s end q =
     (if q \<noteq> NULL then if end \<noteq> frag_start s q then Some False else frag_rest s (frag_end s q) (next_pbuf s q) else Some True)"

definition ip_reass_chain_frag_into_datagram_and_validate :: "ptr \<Rightarrow> ptr \<Rightarrow> ipst \<Rightarrow> (bool \<times> ipst) option" where
  "ip_reass_chain_frag_into_datagram_and_validate ipr new_p s = do {
     let fraghdr = pb_payload (ilw s) new_p;
     let b = bytes (ilw s);
     let len = lwip_ntohs (IPH_LEN b fraghdr) - IPH_HL b fraghdr * 4;
     let offset = (lwip_ntohs (IPH_OFFSET b fraghdr) AND IP_OFFMASK) * 8;
     let m = wr32 fraghdr NULL (ilw s);
     let m = wr16 (fraghdr + 4) offset m;
     let m = wr16 (fraghdr + 6) (offset + len) m;
     place \<leftarrow> frag_place m offset (offset + len) (ipr_p s ipr) NULL True;
     case place of
       Inl q \<Rightarrow> do {
         let m = (if q \<noteq> NULL then put_next_pbuf new_p q m else m);
         clen \<leftarrow> pbuf_clen new_p m;
         (_, m) \<leftarrow> pbuf_free new_p m;
         Some (False, s\<lparr>ilw := m, ip_reass_pbufcount := ip_reass_pbufcount s - ucast clen\<rparr>) }
     | Inr (q, prev, valid) \<Rightarrow> do {
         let valid = (if q = NULL \<and> prev \<noteq> NULL \<and> frag_end m prev \<noteq> offset then False else valid);
         let m = (if q \<noteq> NULL then put_next_pbuf new_p q m else m);
         let s = (if prev \<noteq> NULL then s\<lparr>ilw := put_next_pbuf prev new_p m\<rparr> else put_ipr_p ipr new_p (s\<lparr>ilw := m\<rparr>));
         if ipr_flags s ipr AND IP_REASS_FLAG_LASTFRAG \<noteq> 0 then
           if valid then
             if frag_start (ilw s) (ipr_p s ipr) \<noteq> 0 then Some (False, s)
             else frag_rest (ilw s) (offset + len) (next_pbuf (ilw s) new_p) \<bind> (\<lambda>valid. Some (valid, s))
           else Some (False, s)
         else Some (False, s) } }"

section \<open>Reassembly\<close>

partial_function (option) find_datagram :: "ptr \<Rightarrow> ipst \<Rightarrow> ptr \<Rightarrow> ptr \<Rightarrow> (ptr \<times> ptr) option" where
  "find_datagram fraghdr s ipr prev =
     (if ipr \<noteq> NULL then
        if IP_ADDRESSES_AND_ID_MATCH (ipr_iphdr s ipr) (bytes (ilw s)) fraghdr then Some (ipr, prev)
        else find_datagram fraghdr s (ipr_next s ipr) ipr
      else Some (NULL, prev))"

text \<open>The headers of all fragments but the first are hidden, and the buffers are joined.\<close>

partial_function (option) join_frags :: "ptr \<Rightarrow> ptr \<Rightarrow> lw \<Rightarrow> lw option" where
  "join_frags p r s =
     (if r \<noteq> NULL then do {
        let iprh = pb_payload s r;
        let s = snd (pbuf_header r (- 20) s);
        s \<leftarrow> pbuf_cat p r s;
        join_frags p (rd32 (bytes s) iprh) s }
      else Some s)"

definition finish_datagram :: "ptr \<Rightarrow> ptr \<Rightarrow> ipst \<Rightarrow> (ptr \<times> ipst) option" where
  "finish_datagram ipr ipr_prev s = do {
     let s = put_ipr_datagram_len ipr (ipr_datagram_len s ipr + IP_HLEN) s;
     let p = ipr_p s ipr;
     let r = next_pbuf (ilw s) p;
     let fraghdr = pb_payload (ilw s) p;
     let m = wr fraghdr (ipr_iphdr s ipr) (ilw s);
     let m = wr16 (fraghdr + 2) (lwip_htons (ipr_datagram_len s ipr)) m;
     let m = wr16 (fraghdr + 6) 0 m;
     let m = wr16 (fraghdr + 10) 0 m;
     let m = wr16 (fraghdr + 10) (inet_chksum fraghdr IP_HLEN m) m;
     m \<leftarrow> join_frags p r m;
     s \<leftarrow> ip_reass_dequeue_datagram ipr ipr_prev (s\<lparr>ilw := m\<rparr>);
     clen \<leftarrow> pbuf_clen p (ilw s);
     Some (p, s\<lparr>ip_reass_pbufcount := ip_reass_pbufcount s - ucast clen\<rparr>) }"

definition reass_drop :: "ptr \<Rightarrow> ipst \<Rightarrow> (ptr \<times> ipst) option" where
  "reass_drop p s = do { (_, m) \<leftarrow> pbuf_free p (ilw s); Some (NULL, s\<lparr>ilw := m\<rparr>) }"

text \<open>The part of \<open>ip_reass\<close> for the datagram \<open>ipr\<close> that was found or made.\<close>

definition reass_add :: "ptr \<Rightarrow> ptr \<Rightarrow> u8 \<Rightarrow> ptr \<Rightarrow> ipst \<Rightarrow> (ptr \<times> ipst) option" where
  "reass_add ipr ipr_prev clen p s = do {
     let fraghdr = pb_payload (ilw s) p;
     let b = bytes (ilw s);
     let offset = (lwip_ntohs (IPH_OFFSET b fraghdr) AND IP_OFFMASK) * 8;
     let len = lwip_ntohs (IPH_LEN b fraghdr) - IPH_HL b fraghdr * 4;
     let s = s\<lparr>ip_reass_pbufcount := ip_reass_pbufcount s + ucast clen\<rparr>;
     let s = (if IPH_OFFSET b fraghdr AND lwip_htons IP_MF = 0
              then put_ipr_datagram_len ipr (offset + len) (put_ipr_flags ipr (ipr_flags s ipr OR IP_REASS_FLAG_LASTFRAG) s)
              else s);
     (valid, s) \<leftarrow> ip_reass_chain_frag_into_datagram_and_validate ipr p s;
     if valid then finish_datagram ipr ipr_prev s else Some (NULL, s) }"

definition ip_reass :: "icmp \<Rightarrow> ptr \<Rightarrow> ipst \<Rightarrow> (ptr \<times> ipst) option" where
  "ip_reass icmp p s =
     (let fraghdr = pb_payload (ilw s) p in
      if IPH_HL (bytes (ilw s)) fraghdr * 4 \<noteq> IP_HLEN then reass_drop p s
      else do {
        clen \<leftarrow> pbuf_clen p (ilw s);
        (full, s) \<leftarrow>
          (if unat (ip_reass_pbufcount s) + unat clen > IP_REASS_MAX_PBUFS then do {
             (n, s) \<leftarrow> ip_reass_remove_oldest_datagram icmp fraghdr (uint clen) s;
             Some (n = 0 \<or> unat (ip_reass_pbufcount s) + unat clen > IP_REASS_MAX_PBUFS, s) }
           else Some (False, s));
        if full then reass_drop p s
        else do {
          (ipr, ipr_prev) \<leftarrow> find_datagram fraghdr s (reassdatagrams s) NULL;
          (ipr, s) \<leftarrow>
            (if ipr = NULL then ip_reass_enqueue_new_datagram icmp fraghdr (uint clen) s
             else Some (ipr,
               if lwip_ntohs (IPH_OFFSET (bytes (ilw s)) fraghdr) AND IP_OFFMASK = 0 \<and>
                  lwip_ntohs (IPH_OFFSET (hmem (ipr_iphdr s ipr)) 0) AND IP_OFFMASK \<noteq> 0
               then put_ipr_iphdr ipr (bytes_at (bytes (ilw s)) fraghdr 20) s else s));
          if ipr = NULL then reass_drop p s else reass_add ipr ipr_prev clen p s } })"

section \<open>Fragmentation\<close>

text \<open>
  A fragment that is sent is recorded with the memory at this moment. The loop that mirrors the
  data of \<open>p\<close> in the chain of \<open>rambuf\<close>; the value is whether there was memory.
\<close>

type_synonym netif_output = "netif \<Rightarrow> ptr \<Rightarrow> u32 \<Rightarrow> lw \<Rightarrow> lw"

partial_function (option) mirror_loop :: "ptr \<Rightarrow> ptr \<Rightarrow> u16 \<Rightarrow> u16 \<Rightarrow> lw \<Rightarrow> (bool \<times> ptr \<times> u16 \<times> lw) option" where
  "mirror_loop rambuf p left_to_copy newpbuflen s =
     (if left_to_copy \<noteq> 0 then
        if p = NULL then None
        else
          let newpbuflen = (if left_to_copy < pb_len s p then left_to_copy else pb_len s p) in
          if newpbuflen = 0 then mirror_loop rambuf (pb_next s p) left_to_copy newpbuflen s
          else
            let (pcr, s) = memp_malloc MEMP_FRAG_PBUF s in
            if pcr = NULL then pbuf_free rambuf s \<bind> (\<lambda>(_, s). Some (False, p, newpbuflen, s))
            else
              let (newpbuf, s) = pbuf_alloced_custom PBUF_RAW newpbuflen PBUF_REF pcr (pb_payload s p) newpbuflen s in
              if newpbuf = NULL then do {
                s \<leftarrow> memp_free MEMP_FRAG_PBUF pcr s;
                (_, s) \<leftarrow> pbuf_free rambuf s;
                Some (False, p, newpbuflen, s) }
              else do {
                let s = pbuf_ref p s;
                let s = s\<lparr>custom_original := (custom_original s)(pcr := p)\<rparr>;
                s \<leftarrow> pbuf_cat rambuf newpbuf s;
                let left_to_copy = left_to_copy - newpbuflen;
                mirror_loop rambuf (if left_to_copy \<noteq> 0 then pb_next s p else p) left_to_copy newpbuflen s }
      else Some (True, p, newpbuflen, s))"

text \<open>The header of a fragment: a copy of the original one with its own offset, length and checksum.\<close>

definition frag_header :: "ptr \<Rightarrow> u16 \<Rightarrow> u16 \<Rightarrow> lw \<Rightarrow> lw" where
  "frag_header iphdr tmp cop m =
     (let m = wr16 (iphdr + 6) (lwip_htons tmp) m;
          m = wr16 (iphdr + 2) (lwip_htons (cop + IP_HLEN)) m;
          m = wr16 (iphdr + 10) 0 m
      in wr16 (iphdr + 10) (inet_chksum iphdr IP_HLEN m) m)"

partial_function (option) frag_loop ::
  "netif_output \<Rightarrow> netif \<Rightarrow> u32 \<Rightarrow> ptr \<Rightarrow> u16 \<Rightarrow> u16 \<Rightarrow> ptr \<Rightarrow> u16 \<Rightarrow> u16 \<Rightarrow> u16 \<Rightarrow> u16 \<Rightarrow> lw \<Rightarrow> (ptr \<times> lw) list \<Rightarrow>
   (int \<times> lw \<times> (ptr \<times> lw) list) option" where
  "frag_loop out nif dest original_iphdr omf nfb p left poff ofo newpbuflen s log =
     (if left \<noteq> 0 then do {
        let last = (uint left \<le> uint (mtu nif) - 20);
        let tmp = omf OR (IP_OFFMASK AND ofo);
        let tmp = (if \<not> last then tmp OR IP_MF else tmp);
        let cop = (if last then left else nfb * 8);
        (rambuf, s) \<leftarrow> pbuf_alloc PBUF_LINK IP_HLEN PBUF_RAM s;
        if rambuf = NULL then Some (ERR_MEM, s, log)
        else do {
          let iphdr = pb_payload s rambuf;
          let s = memcpy iphdr original_iphdr 20 s;
          let s = put_payload p (pb_payload s p + ucast poff) s;
          let s = put_len p (pb_len s p - poff) s;
          (ok, p, newpbuflen, s) \<leftarrow> mirror_loop rambuf p cop newpbuflen s;
          if \<not> ok then Some (ERR_MEM, s, log)
          else do {
            let poff = newpbuflen;
            let s = frag_header iphdr tmp cop s;
            let log = log @ [(rambuf, s)];
            (_, s) \<leftarrow> pbuf_free rambuf (out nif rambuf dest s);
            frag_loop out nif dest original_iphdr omf nfb p (left - cop) poff (ofo + nfb) newpbuflen s log } } }
      else Some (ERR_OK, s, log))"

definition ip_frag :: "netif_output \<Rightarrow> ptr \<Rightarrow> netif \<Rightarrow> u32 \<Rightarrow> lw \<Rightarrow> (int \<times> lw \<times> (ptr \<times> lw) list) option" where
  "ip_frag out p nif dest s =
     (let original_iphdr = pb_payload s p;
          tmp = lwip_ntohs (IPH_OFFSET (bytes s) original_iphdr);
          ofo = tmp AND IP_OFFMASK;
          omf = tmp AND IP_MF;
          left = pb_tot_len s p - IP_HLEN;
          nfb = word_of_int (if uint (mtu nif) \<ge> 20 then (uint (mtu nif) - 20) div 8 else - ((20 - uint (mtu nif)) div 8))
      in frag_loop out nif dest original_iphdr omf nfb p left IP_HLEN ofo 0 s [])"

section \<open>The fragments as a list\<close>

text \<open>The headers of different buffers do not overlap.\<close>

definition heads_apart :: "lw \<Rightarrow> ptr set \<Rightarrow> bool" where
  "heads_apart s P \<longleftrightarrow> (\<forall>x\<in>P. \<forall>y\<in>P. x \<noteq> y \<longrightarrow> region (pb_payload s x) 20 \<inter> region (pb_payload s y) 20 = {})"

lemma head_parts: "region a 4 \<subseteq> region a 20" "region (a + 4) 2 \<subseteq> region a 20" "region (a + 6) 2 \<subseteq> region a 20"
  using region_sub [of 0 4 20 a] region_sub [of 4 2 20 a] region_sub [of 6 2 20 a] by simp_all

lemma helper_writes:
  assumes "writes R s s'" "R \<inter> region (pb_payload s x) 20 = {}"
  shows "next_pbuf s' x = next_pbuf s x" "frag_start s' x = frag_start s x" "frag_end s' x = frag_end s x"
proof -
  let ?a = "pb_payload s x"
  have "R \<inter> region ?a 4 = {}" "R \<inter> region (?a + 4) 2 = {}" "R \<inter> region (?a + 6) 2 = {}"
    using assms(2) head_parts [of ?a] by blast+
  note d = this(1) [THEN rd32_writes [OF assms(1)]] this(2,3) [THEN rd16_writes [OF assms(1)]]
  show "next_pbuf s' x = next_pbuf s x" "frag_start s' x = frag_start s x" "frag_end s' x = frag_end s x"
    using d by (simp_all add: next_pbuf_def frag_start_def frag_end_def writes_fields [OF assms(1)])
qed

lemma put_next_writes: "writes (region (pb_payload s x) 4) s (put_next_pbuf x v s)"
  using wr_writes [of "pb_payload s x" "addr_octets v" s] by (simp add: put_next_pbuf_def wr32_def)

lemma put_next_same:
  "next_pbuf (put_next_pbuf x v s) x = v" "frag_start (put_next_pbuf x v s) x = frag_start s x" "frag_end (put_next_pbuf x v s) x = frag_end s x"
proof -
  let ?a = "pb_payload s x"
  show "next_pbuf (put_next_pbuf x v s) x = v" by (simp add: next_pbuf_def put_next_pbuf_def rd32_wr32)
  have "region (?a + 4) 2 \<inter> region ?a 4 = {}" "region (?a + 6) 2 \<inter> region ?a 4 = {}"
    using region_behind [of 4 2 ?a] region_behind [of 6 2 ?a] region_sub [of 0 4 6 ?a] by auto
  then show "frag_start (put_next_pbuf x v s) x = frag_start s x" "frag_end (put_next_pbuf x v s) x = frag_end s x"
    using rd16_writes [OF put_next_writes [of s x v], of "?a + 4"] rd16_writes [OF put_next_writes [of s x v], of "?a + 6"]
    by (simp_all add: frag_start_def frag_end_def put_next_pbuf_def Int_commute)
qed

lemma put_next_other:
  assumes "heads_apart s P" "x \<in> P" "y \<in> P" "y \<noteq> x"
  shows "next_pbuf (put_next_pbuf x v s) y = next_pbuf s y" "frag_start (put_next_pbuf x v s) y = frag_start s y"
    "frag_end (put_next_pbuf x v s) y = frag_end s y"
proof -
  have "region (pb_payload s x) 4 \<inter> region (pb_payload s y) 20 = {}"
    using assms head_parts(1) [of "pb_payload s x"] by (fastforce simp: heads_apart_def)
  from helper_writes [OF put_next_writes this] show "next_pbuf (put_next_pbuf x v s) y = next_pbuf s y"
    "frag_start (put_next_pbuf x v s) y = frag_start s y" "frag_end (put_next_pbuf x v s) y = frag_end s y" by auto
qed

lemma put_next_all:
  assumes "heads_apart s P" "x \<in> P" "y \<in> P"
  shows "next_pbuf (put_next_pbuf x v s) y = ((next_pbuf s)(x := v)) y" "frag_start (put_next_pbuf x v s) y = frag_start s y"
    "frag_end (put_next_pbuf x v s) y = frag_end s y"
  using put_next_same [of x v s] put_next_other [OF assms] by (cases "y = x"; simp)+

lemma heads_apart_writes: "writes R s s' \<Longrightarrow> heads_apart s' P = heads_apart s P"
  by (simp add: heads_apart_def writes_fields)

text \<open>Fragments that follow one another without a gap.\<close>

abbreviation gapless :: "lw \<Rightarrow> ptr list \<Rightarrow> bool" where
  "gapless s \<equiv> successively (\<lambda>x y. frag_end s x = frag_start s y)"

abbreviation opt_list :: "ptr \<Rightarrow> ptr list" where
  "opt_list p \<equiv> (if p = NULL then [] else [p])"

lemma frag_place_total:
  "chain (next_pbuf s) q ps \<Longrightarrow> \<exists>r. frag_place s st en q prev valid = Some r"
proof (induction ps arbitrary: q prev valid)
  case Nil
  then show ?case by (subst frag_place.simps) simp
next
  case (Cons x ps)
  then show ?case by (subst frag_place.simps) (auto simp: Let_def)
qed

lemma frag_place_Inr:
  assumes "chain (next_pbuf s) q ps" "frag_place s st en q prev valid = Some (Inr (q', prev', valid'))"
  shows "\<exists>as bs. ps = as @ bs \<and> q' = first_ptr bs \<and> prev' = last (prev # as) \<and>
    (\<forall>x\<in>set as. frag_start s x < st \<and> frag_end s x \<le> st) \<and>
    (bs \<noteq> [] \<longrightarrow> st < frag_start s q' \<and> (prev' \<noteq> NULL \<longrightarrow> frag_end s prev' \<le> st \<and> en \<le> frag_start s q')) \<and>
    (valid' \<longleftrightarrow> valid \<and> gapless s (opt_list prev @ as))"
  using assms
proof (induction ps arbitrary: q prev valid)
  case Nil
  then have "q' = NULL" "prev' = prev" "valid' = valid" by (auto simp: frag_place.simps)
  then show ?case by (intro exI [of _ "[]"]) auto
next
  case (Cons x ps)
  then have x: "q = x" "x \<noteq> NULL" "chain (next_pbuf s) (next_pbuf s x) ps" by auto
  note run = Cons.prems(2) [unfolded x(1), simplified frag_place.simps [of s st en x]]
  show ?case
  proof (cases "st < frag_start s x")
    case True
    then have "q' = x" "prev' = prev" "valid' = valid" "\<not> (prev \<noteq> NULL \<and> (st < frag_end s prev \<or> en > frag_start s x))"
      using run x(2) by (auto split: if_splits)
    then show ?thesis using True by (intro exI [of _ "[]"] exI [of _ "x # ps"]) auto
  next
    case False
    define v where "v = (if prev \<noteq> NULL \<and> frag_end s prev \<noteq> frag_start s x then False else valid)"
    have ge: "st \<noteq> frag_start s x" "\<not> st < frag_end s x" using run x(2) False by (auto split: if_splits)
    then have "frag_place s st en (next_pbuf s x) x v = Some (Inr (q', prev', valid'))"
      using run x(2) False by (simp add: v_def Let_def)
    from Cons.IH [OF x(3) this] obtain as bs where ab: "ps = as @ bs" "q' = first_ptr bs" "prev' = last (x # as)"
      "\<forall>y\<in>set as. frag_start s y < st \<and> frag_end s y \<le> st"
      "bs \<noteq> [] \<longrightarrow> st < frag_start s q' \<and> (prev' \<noteq> NULL \<longrightarrow> frag_end s prev' \<le> st \<and> en \<le> frag_start s q')"
      "valid' \<longleftrightarrow> v \<and> gapless s (opt_list x @ as)" by blast
    have "(v \<and> gapless s (opt_list x @ as)) = (valid \<and> gapless s (opt_list prev @ x # as))"
      using x(2) by (auto simp: v_def)
    then have "valid' \<longleftrightarrow> valid \<and> gapless s (opt_list prev @ x # as)" using ab(6) by blast
    moreover have "frag_start s x < st" "frag_end s x \<le> st" using False ge by (simp_all add: not_less order_le_less)
    ultimately show ?thesis using ab(1-5)
      by (intro exI [of _ "x # as"] exI [of _ bs] conjI) simp_all
  qed
qed

lemma frag_rest_eq:
  "chain (next_pbuf s) q ps \<Longrightarrow>
   frag_rest s en q = Some ((ps \<noteq> [] \<longrightarrow> en = frag_start s (hd ps)) \<and> gapless s ps)"
proof (induction ps arbitrary: q en)
  case Nil
  then show ?case by (subst frag_rest.simps) simp
next
  case (Cons x ps)
  then have x: "q = x" "x \<noteq> NULL" "chain (next_pbuf s) (next_pbuf s x) ps" by auto
  have "frag_rest s en q = (if en \<noteq> frag_start s x then Some False else frag_rest s (frag_end s x) (next_pbuf s x))"
    using x by (subst frag_rest.simps) simp
  then show ?case unfolding Cons.IH [OF x(3)] by (cases ps) simp_all
qed

section \<open>Insertion of a fragment\<close>

text \<open>The fragments of a datagram: the links through the overlaid headers.\<close>

definition frags :: "ipst \<Rightarrow> ptr \<Rightarrow> ptr list \<Rightarrow> bool" where
  "frags s ipr ps \<longleftrightarrow> chain (next_pbuf (ilw s)) (ipr_p s ipr) ps"

text \<open>Offset and length of the data of a fragment, as its IP header says.\<close>

definition hdr_offset :: "lw \<Rightarrow> ptr \<Rightarrow> u16" where
  "hdr_offset s p = (lwip_ntohs (IPH_OFFSET (bytes s) (pb_payload s p)) AND IP_OFFMASK) * 8"

definition hdr_len :: "lw \<Rightarrow> ptr \<Rightarrow> u16" where
  "hdr_len s p = lwip_ntohs (IPH_LEN (bytes s) (pb_payload s p)) - IPH_HL (bytes s) (pb_payload s p) * 4"

text \<open>The memory after the header of the new fragment has been overlaid.\<close>

definition overlaid :: "ptr \<Rightarrow> lw \<Rightarrow> lw" where
  "overlaid p s =
     (let a = pb_payload s p in
      wr16 (a + 6) (hdr_offset s p + hdr_len s p) (wr16 (a + 4) (hdr_offset s p) (wr32 a NULL s)))"

lemma writes_both: "writes R s s' \<Longrightarrow> writes R s' s'' \<Longrightarrow> writes R s s''"
  using writes_trans [of R s s' R s''] by simp

lemma wr16_writes: "writes (region a 2) s (wr16 a v s)"
  using wr_writes [of a "[ucast v, ucast (drop_bit 8 v)]" s] by (simp add: wr16_def numeral_2_eq_2)

lemma wr32_writes: "writes (region a 4) s (wr32 a v s)"
  using wr_writes [of a "addr_octets v" s] by (simp add: wr32_def)

lemma overlaid_writes: "writes (region (pb_payload s p) 20) s (overlaid p s)"
proof -
  let ?a = "pb_payload s p"
  have "writes (region ?a 4 \<union> region (?a + 4) 2 \<union> region (?a + 6) 2) s (overlaid p s)"
    unfolding overlaid_def Let_def by (rule writes_trans [OF writes_trans [OF wr32_writes wr16_writes] wr16_writes])
  then show ?thesis by (rule writes_mono) (use head_parts [of ?a] in blast)
qed

lemma head_fields_apart:
  "region (a + 6) 2 \<inter> region (a + 4) 2 = {}" "region (a + 6) 2 \<inter> region a 4 = {}" "region (a + 4) 2 \<inter> region a 4 = {}" for a :: ptr
  using region_behind [of 2 2 "a + 4"] region_behind [of 6 2 a] region_behind [of 4 2 a] region_sub [of 0 4 6 a]
  by (auto simp: add.assoc)

lemma overlaid_new:
  "next_pbuf (overlaid p s) p = NULL" "frag_start (overlaid p s) p = hdr_offset s p"
  "frag_end (overlaid p s) p = hdr_offset s p + hdr_len s p"
proof -
  let ?a = "pb_payload s p"
  let ?m1 = "wr32 ?a NULL s"
  let ?m2 = "wr16 (?a + 4) (hdr_offset s p) ?m1"
  note w2 = wr16_writes [of "?a + 4" ?m1 "hdr_offset s p"] and w3 = wr16_writes [of "?a + 6" ?m2 "hdr_offset s p + hdr_len s p"]
  have "rd32 (bytes (overlaid p s)) ?a = NULL"
    unfolding overlaid_def Let_def using rd32_writes [OF w3, of ?a] rd32_writes [OF w2, of ?a] head_fields_apart [of ?a] rd32_wr32
    by (simp add: Int_commute)
  moreover have "rd16 (bytes (overlaid p s)) (?a + 4) = hdr_offset s p"
    unfolding overlaid_def Let_def using rd16_writes [OF w3, of "?a + 4"] head_fields_apart [of ?a] rd16_wr16 by simp
  moreover have "rd16 (bytes (overlaid p s)) (?a + 6) = hdr_offset s p + hdr_len s p"
    unfolding overlaid_def Let_def by (rule rd16_wr16)
  ultimately show "next_pbuf (overlaid p s) p = NULL" "frag_start (overlaid p s) p = hdr_offset s p"
    "frag_end (overlaid p s) p = hdr_offset s p + hdr_len s p"
    by (simp_all add: next_pbuf_def frag_start_def frag_end_def writes_fields [OF overlaid_writes])
qed

lemma overlaid_old:
  assumes "heads_apart s (insert p P)" "x \<in> P" "p \<notin> P"
  shows "next_pbuf (overlaid p s) x = next_pbuf s x" "frag_start (overlaid p s) x = frag_start s x" "frag_end (overlaid p s) x = frag_end s x"
  using assms by (intro helper_writes [OF overlaid_writes]; auto simp: heads_apart_def)+

text \<open>When the new fragment is thrown away: its data overlaps that of one that is there.\<close>

definition overlaps :: "lw \<Rightarrow> u16 \<Rightarrow> u16 \<Rightarrow> ptr \<Rightarrow> bool" where
  "overlaps s st en x \<longleftrightarrow> frag_start s x = st \<or> frag_start s x < st \<and> st < frag_end s x \<or> st < frag_start s x \<and> frag_start s x < en"

lemma frag_place_Inl:
  assumes "chain (next_pbuf s) q ps" "frag_place s st en q prev valid = Some (Inl q')" "prev \<noteq> NULL \<Longrightarrow> frag_end s prev \<le> st"
  shows "\<exists>x\<in>set ps. overlaps s st en x"
  using assms
proof (induction ps arbitrary: q prev valid)
  case Nil
  then show ?case by (simp add: frag_place.simps)
next
  case (Cons x ps)
  then have x: "q = x" "x \<noteq> NULL" "chain (next_pbuf s) (next_pbuf s x) ps" by auto
  note run = Cons.prems(2) [unfolded x(1), simplified frag_place.simps [of s st en x]]
  show ?case
  proof (cases "overlaps s st en x")
    case False
    then have n: "st \<noteq> frag_start s x" "\<not> (frag_start s x < st \<and> st < frag_end s x)" "\<not> (st < frag_start s x \<and> frag_start s x < en)"
      by (auto simp: overlaps_def)
    have "\<not> st < frag_start s x" using run x(2) n(3) Cons.prems(3) by (auto split: if_splits)
    then have "frag_start s x < st" "\<not> st < frag_end s x" using n by auto
    then obtain v where "frag_place s st en (next_pbuf s x) x v = Some (Inl q')"
      using run x(2) n(1) by (auto simp: Let_def split: if_splits)
    from Cons.IH [OF x(3) this] \<open>\<not> st < frag_end s x\<close> show ?thesis by auto
  qed auto
qed

text \<open>A fragment with offset 0 is thrown away only if there is one with this offset already.\<close>

lemma frag_place_first:
  assumes "chain (next_pbuf s) q ps" "frag_place s 0 en q NULL valid = Some (Inl q')"
  shows "\<exists>x\<in>set ps. frag_start s x = 0"
  using assms by (cases ps) (auto simp: frag_place.simps [of s 0] word_neq_0_conv split: if_splits)

lemma clen_loop_total: "chain (pb_next s) p ps \<Longrightarrow> clen_loop s n p = Some (n + of_nat (length ps))"
proof (induction ps arbitrary: n p)
  case Nil
  then show ?case by (subst clen_loop.simps) simp
next
  case (Cons x ps)
  then have "clen_loop s n p = clen_loop s (n + 1) (pb_next s x)" by (subst clen_loop.simps) simp
  with Cons show ?case by (simp add: algebra_simps)
qed

lemma pbuf_clen_eq: "chain (pb_next s) p ps \<Longrightarrow> pbuf_clen p s = Some (of_nat (length ps))"
  by (simp add: pbuf_clen_def clen_loop_total)

lemma packet_chain: "packet s p \<Longrightarrow> \<exists>ps. chain (pb_next s) p ps"
  by (auto simp: packet_def)

lemma packet_same: "same_data s s' \<Longrightarrow> packet s' p = packet s p"
  by (simp add: packet_def same_data_def)

lemma writes_packet: "writes R s s' \<Longrightarrow> packet s' p = packet s p \<and> memp_tab s' = memp_tab s"
  by (auto simp: packet_def writes_def)

text \<open>Links with the head of the list as the link of \<open>NULL\<close>.\<close>

lemma frag_insert_chain:
  assumes c: "chain (next_pbuf m) p (as @ bs)" and new: "new \<noteq> NULL" "new \<notin> set (as @ bs)"
    and h: "heads_apart m (insert new (set (as @ bs)))" and prev: "prev = last (NULL # as)"
  defines "m1 \<equiv> (if bs \<noteq> [] then put_next_pbuf new (first_ptr bs) m else m)"
  defines "m2 \<equiv> (if prev \<noteq> NULL then put_next_pbuf prev new m1 else m1)"
  assumes nn: "next_pbuf m new = NULL"
  shows "chain (next_pbuf m2) (if prev \<noteq> NULL then p else new) (as @ new # bs)"
    "\<And>x. x \<in> set (as @ new # bs) \<Longrightarrow> frag_start m2 x = frag_start m x \<and> frag_end m2 x = frag_end m x"
    "writes (\<Union>x\<in>set (as @ new # bs). region (pb_payload m x) 20) m m2"
proof -
  let ?P = "insert new (set (as @ bs))"
  let ?R = "\<Union>x\<in>set (as @ new # bs). region (pb_payload m x) 20"
  have nil: "NULL \<notin> set (as @ bs)" using chain_NULL_notin [OF c] .
  have pv: "prev \<noteq> NULL \<longleftrightarrow> as \<noteq> []" "as \<noteq> [] \<Longrightarrow> prev = last as \<and> prev \<in> set as"
    using nil prev by (auto dest: last_in_set)
  have w1: "writes (region (pb_payload m new) 4) m m1" unfolding m1_def using put_next_writes writes_refl by simp
  have h1: "heads_apart m1 ?P" using h heads_apart_writes [OF w1] by simp
  have e1: "next_pbuf m1 x = ((next_pbuf m)(new := first_ptr bs)) x \<and> frag_start m1 x = frag_start m x \<and> frag_end m1 x = frag_end m x"
    if "x \<in> ?P" for x using put_next_all [OF h _ that, of new "first_ptr bs"] nn by (auto simp: m1_def)
  have e2: "next_pbuf m2 x = ((next_pbuf m)(new := first_ptr bs, NULL := p, last (NULL # as) := new)) x \<and>
      frag_start m2 x = frag_start m x \<and> frag_end m2 x = frag_end m x" if x: "x \<in> ?P" for x
  proof (cases "as = []")
    case True
    then show ?thesis using e1 [OF x] x nil new(1) pv(1) by (auto simp: m2_def)
  next
    case False
    then have "prev \<in> ?P" using pv(2) by simp
    from put_next_all [OF h1 this x, of new] e1 [OF x] show ?thesis using False pv x nil new(1) by (auto simp: m2_def)
  qed
  show "\<And>x. x \<in> set (as @ new # bs) \<Longrightarrow> frag_start m2 x = frag_start m x \<and> frag_end m2 x = frag_end m x" using e2 by auto
  let ?l = "(next_pbuf m)(NULL := p)"
  have "chain ?l (?l NULL) (as @ bs)" using c chain_upd [OF nil, of "next_pbuf m" p p] by simp
  moreover have "distinct (NULL # as @ bs)" using chain_distinct [OF c] nil by simp
  ultimately have c1: "chain (?l(new := first_ptr bs, last (NULL # as) := new)) ((?l(new := first_ptr bs, last (NULL # as) := new)) NULL) (as @ new # bs)"
    using new by (intro chain_insert) auto
  have c2: "?l(new := first_ptr bs, last (NULL # as) := new) = (next_pbuf m)(new := first_ptr bs, NULL := p, last (NULL # as) := new)"
    using new(1) by (simp add: fun_upd_twist)
  have c3: "(?l(new := first_ptr bs, last (NULL # as) := new)) NULL = (if prev \<noteq> NULL then p else new)"
    using pv new(1) nil by auto
  from c1 have "chain ((next_pbuf m)(new := first_ptr bs, NULL := p, last (NULL # as) := new)) (if prev \<noteq> NULL then p else new) (as @ new # bs)"
    unfolding c3 unfolding c2 .
  then show "chain (next_pbuf m2) (if prev \<noteq> NULL then p else new) (as @ new # bs)"
    by (rule chain_cong) (use e2 in \<open>simp del: fun_upd_apply\<close>)
  have sub: "region (pb_payload m x) 4 \<subseteq> ?R" if "x \<in> set (as @ new # bs)" for x using that head_parts(1) by blast
  have "writes ?R m1 m2"
  proof (cases "as = []")
    case True
    then show ?thesis using pv(1) writes_refl by (simp add: m2_def)
  next
    case False
    then have "prev \<in> set (as @ new # bs)" "prev \<noteq> NULL" using pv by auto
    then show ?thesis using put_next_writes [of m1 prev new, THEN writes_mono] sub by (simp add: m2_def writes_fields(2) [OF w1])
  qed
  moreover have "writes ?R m m1" by (rule writes_mono [OF w1 sub]) simp
  ultimately show "writes ?R m m2" by (rule writes_both [rotated])
qed

text \<open>
  The answer that the insertion of \<open>new\<close> between \<open>as\<close> and \<open>bs\<close> gives: the last fragment was seen,
  there are no gaps in front of the predecessor and behind \<open>new\<close>, and the first fragment is there. The gap
  in front of \<open>new\<close> is looked at only if \<open>new\<close> is the last one.
\<close>

definition seems_complete :: "ipst \<Rightarrow> ptr \<Rightarrow> ptr list \<Rightarrow> ptr \<Rightarrow> ptr list \<Rightarrow> bool" where
  "seems_complete s ipr as new bs \<longleftrightarrow> ipr_flags s ipr AND IP_REASS_FLAG_LASTFRAG \<noteq> 0 \<and>
     gapless (ilw s) as \<and> (bs = [] \<longrightarrow> gapless (ilw s) (as @ [new])) \<and> gapless (ilw s) (new # bs) \<and>
     frag_start (ilw s) (hd (as @ [new])) = 0"

lemma gapless_cong:
  "(\<And>x. x \<in> set ps \<Longrightarrow> frag_start s' x = frag_start s x \<and> frag_end s' x = frag_end s x) \<Longrightarrow> gapless s' ps = gapless s ps"
  by (rule successively_cong) auto

lemma chain_frag_spec:
  assumes fr: "frags s ipr ps" and new: "new \<noteq> NULL" "new \<notin> set ps" and h: "heads_apart (ilw s) (insert new (set ps))"
    and pk: "packet (ilw s) new" "14 < length (memp_tab (ilw s))"
  defines "st \<equiv> hdr_offset (ilw s) new" and "en \<equiv> hdr_offset (ilw s) new + hdr_len (ilw s) new"
  shows "(\<exists>as bs m. ps = as @ bs \<and>
      ip_reass_chain_frag_into_datagram_and_validate ipr new s =
        Some (seems_complete (s\<lparr>ilw := m\<rparr>) ipr as new bs, put_ipr_p ipr (first_ptr (as @ [new])) (s\<lparr>ilw := m\<rparr>)) \<and>
      frags (put_ipr_p ipr (first_ptr (as @ [new])) (s\<lparr>ilw := m\<rparr>)) ipr (as @ new # bs) \<and>
      (\<forall>x\<in>set ps. frag_start m x = frag_start (ilw s) x \<and> frag_end m x = frag_end (ilw s) x) \<and>
      frag_start m new = st \<and> frag_end m new = en \<and>
      (\<forall>x\<in>set as. frag_start m x < st \<and> frag_end m x \<le> st) \<and> (bs \<noteq> [] \<longrightarrow> st < frag_start m (hd bs)) \<and>
      writes (\<Union>x\<in>set (as @ new # bs). region (pb_payload (ilw s) x) 20) (ilw s) m) \<or>
    (\<exists>m n. ip_reass_chain_frag_into_datagram_and_validate ipr new s =
        Some (False, s\<lparr>ilw := m, ip_reass_pbufcount := ip_reass_pbufcount s - ucast (n :: u8)\<rparr>) \<and>
      frags (s\<lparr>ilw := m\<rparr>) ipr ps \<and> (\<exists>x\<in>set ps. overlaps (ilw s) st en x) \<and>
      (\<forall>x\<in>set ps. frag_start m x = frag_start (ilw s) x \<and> frag_end m x = frag_end (ilw s) x) \<and>
      (st = 0 \<longrightarrow> (\<exists>x\<in>set ps. frag_start (ilw s) x = 0)))"
proof -
  let ?s = "ilw s" and ?p = "ipr_p s ipr"
  define m where "m = overlaid new ?s"
  note w = overlaid_writes [of ?s new, folded m_def] and old = overlaid_old [OF h _ new(2), folded m_def]
  have nw: "next_pbuf m new = NULL" "frag_start m new = st" "frag_end m new = en"
    using overlaid_new [of new ?s] by (simp_all add: m_def st_def en_def)
  have c: "chain (next_pbuf m) ?p ps" using fr old(1) unfolding frags_def by (auto elim: chain_cong)
  have hm: "heads_apart m (insert new (set ps))" using h heads_apart_writes [OF w] by simp
  obtain r where r: "frag_place m st en ?p NULL True = Some r" using frag_place_total [OF c] by blast
  have unf: "ip_reass_chain_frag_into_datagram_and_validate ipr new s =
    (case r of
       Inl q \<Rightarrow> do {
         let m = (if q \<noteq> NULL then put_next_pbuf new q m else m);
         clen \<leftarrow> pbuf_clen new m;
         (_, m) \<leftarrow> pbuf_free new m;
         Some (False, s\<lparr>ilw := m, ip_reass_pbufcount := ip_reass_pbufcount s - ucast clen\<rparr>) }
     | Inr (q, prev, valid) \<Rightarrow> do {
         let valid = (if q = NULL \<and> prev \<noteq> NULL \<and> frag_end m prev \<noteq> st then False else valid);
         let m = (if q \<noteq> NULL then put_next_pbuf new q m else m);
         let s = (if prev \<noteq> NULL then s\<lparr>ilw := put_next_pbuf prev new m\<rparr> else put_ipr_p ipr new (s\<lparr>ilw := m\<rparr>));
         if ipr_flags s ipr AND IP_REASS_FLAG_LASTFRAG \<noteq> 0 then
           if valid then
             if frag_start (ilw s) (ipr_p s ipr) \<noteq> 0 then Some (False, s)
             else frag_rest (ilw s) en (next_pbuf (ilw s) new) \<bind> (\<lambda>valid. Some (valid, s))
           else Some (False, s)
         else Some (False, s) })"
    unfolding ip_reass_chain_frag_into_datagram_and_validate_def Let_def
    using r unfolding m_def overlaid_def st_def en_def hdr_offset_def hdr_len_def Let_def by simp
  show ?thesis
  proof (cases r)
    case (Inl q)
    define m1 where "m1 = (if q \<noteq> NULL then put_next_pbuf new q m else m)"
    have w1: "writes (region (pb_payload m new) 4) m m1" unfolding m1_def using put_next_writes writes_refl by simp
    have "packet m1 new" "14 < length (memp_tab m1)" using pk writes_packet [OF w] writes_packet [OF w1] by simp_all
    then obtain n m2 cs where f: "pbuf_free new m1 = Some (n, m2)" "chain (pb_next m1) new cs"
      using pbuf_free_total packet_chain by blast
    have same: "same_data m1 m2" by (rule contents.pbuf_free_kept [OF f(1)])
    have e: "next_pbuf m2 x = next_pbuf ?s x \<and> frag_start m2 x = frag_start ?s x \<and> frag_end m2 x = frag_end ?s x" if "x \<in> set ps" for x
    proof -
      have "next_pbuf m1 x = next_pbuf m x \<and> frag_start m1 x = frag_start m x \<and> frag_end m1 x = frag_end m x"
        using put_next_other [OF hm, of new x q] that new(2) by (auto simp: m1_def)
      moreover have "next_pbuf m2 x = next_pbuf m1 x \<and> frag_start m2 x = frag_start m1 x \<and> frag_end m2 x = frag_end m1 x"
        using same by (simp add: same_data_def next_pbuf_def frag_start_def frag_end_def)
      ultimately show ?thesis using old [OF that] by simp
    qed
    have "ip_reass_chain_frag_into_datagram_and_validate ipr new s =
        Some (False, s\<lparr>ilw := m2, ip_reass_pbufcount := ip_reass_pbufcount s - ucast (of_nat (length cs) :: u8)\<rparr>)"
      using unf Inl f(1) pbuf_clen_eq [OF f(2)] by (simp add: m1_def Let_def)
    moreover have "frags (s\<lparr>ilw := m2\<rparr>) ipr ps" using fr e by (auto simp: frags_def elim!: chain_cong)
    moreover have "\<exists>x\<in>set ps. overlaps ?s st en x"
      using frag_place_Inl [OF c r [unfolded Inl]] old by (auto simp: overlaps_def)
    moreover have "st = 0 \<longrightarrow> (\<exists>x\<in>set ps. frag_start ?s x = 0)"
    proof
      assume "st = 0"
      then have "\<exists>x\<in>set ps. frag_start m x = 0" using frag_place_first [OF c, of en True q] r Inl by simp
      then show "\<exists>x\<in>set ps. frag_start ?s x = 0" using old(2) by auto
    qed
    moreover have "\<forall>x\<in>set ps. frag_start m2 x = frag_start ?s x \<and> frag_end m2 x = frag_end ?s x" using e by blast
    ultimately show ?thesis by (intro disjI2 exI conjI)
  next
    case (Inr t)
    obtain q prev valid where t: "t = (q, prev, valid)" by (cases t)
    from frag_place_Inr [OF c r [unfolded Inr t]] obtain as bs where ab: "ps = as @ bs" "q = first_ptr bs" "prev = last (NULL # as)"
      "\<forall>x\<in>set as. frag_start m x < st \<and> frag_end m x \<le> st" "bs \<noteq> [] \<longrightarrow> st < frag_start m q" "valid = gapless m as"
      by (auto simp del: last.simps)
    have q: "q \<noteq> NULL \<longleftrightarrow> bs \<noteq> []" using chain_NULL_notin [OF c] ab(1,2) by (cases bs) auto
    have prev: "prev \<noteq> NULL \<longleftrightarrow> as \<noteq> []" "as \<noteq> [] \<Longrightarrow> prev = last as" using chain_NULL_notin [OF c] ab(1,3) by (auto dest: last_in_set)
    define m1 where "m1 = (if bs \<noteq> [] then put_next_pbuf new (first_ptr bs) m else m)"
    define m2 where "m2 = (if prev \<noteq> NULL then put_next_pbuf prev new m1 else m1)"
    note ins = frag_insert_chain [of m ?p as bs new prev, folded m1_def, folded m2_def, OF c [unfolded ab(1)] new(1) new(2) [unfolded ab(1)] hm [unfolded ab(1)] ab(3) nw(1)]
    have m1: "(if q \<noteq> NULL then put_next_pbuf new q m else m) = m1" using q by (simp add: m1_def ab(2))
    let ?s2 = "put_ipr_p ipr (first_ptr (as @ [new])) (s\<lparr>ilw := m2\<rparr>)"
    have p: "(if prev \<noteq> NULL then ?p else new) = first_ptr (as @ [new])"
      using prev(1) chain_first_ptr [OF c] ab(1) by (cases as) auto
    have s2: "(if prev \<noteq> NULL then s\<lparr>ilw := put_next_pbuf prev new m1\<rparr> else put_ipr_p ipr new (s\<lparr>ilw := m1\<rparr>)) = ?s2"
      using p by (auto simp: m2_def fun_upd_idem)
    have fr2: "frags ?s2 ipr (as @ new # bs)" using ins(1) p by (simp add: frags_def)
    have nb: "chain (next_pbuf m2) (next_pbuf m2 new) bs"
      using chain_suffix [OF ins(1), of] by simp
    have hd: "hd (as @ [new]) = first_ptr (as @ [new])" by (cases as) auto
    have g: "gapless m2 xs = gapless m xs" if "set xs \<subseteq> set (as @ new # bs)" for xs by (rule gapless_cong) (use ins(2) that in blast)
    define v where "v = (if q = NULL \<and> prev \<noteq> NULL \<and> frag_end m prev \<noteq> st then False else valid)"
    have v: "v \<longleftrightarrow> gapless m2 as \<and> (bs = [] \<longrightarrow> gapless m2 (as @ [new]))"
      using q prev ab(6) nw(2) g [of as] g [of "as @ [new]"] by (auto simp: v_def successively_append_iff)
    have rest: "frag_rest m2 en (next_pbuf m2 new) = Some (gapless m2 (new # bs))"
      unfolding frag_rest_eq [OF nb] using ins(2) [of new] nw(3) by (cases bs) auto
    have "ip_reass_chain_frag_into_datagram_and_validate ipr new s =
      (if ipr_flags ?s2 ipr AND IP_REASS_FLAG_LASTFRAG \<noteq> 0 then
         if v then
           if frag_start m2 (ipr_p ?s2 ipr) \<noteq> 0 then Some (False, ?s2)
           else frag_rest m2 en (next_pbuf m2 new) \<bind> (\<lambda>valid. Some (valid, ?s2))
         else Some (False, ?s2)
       else Some (False, ?s2))"
      unfolding unf Inr t prod.case sum.case Let_def v_def [symmetric] m1 s2 by (simp cong: if_cong split del: if_split)
    also have "\<dots> = Some (seems_complete (s\<lparr>ilw := m2\<rparr>) ipr as new bs, ?s2)"
      using v hd unfolding rest seems_complete_def by auto
    finally have run: "ip_reass_chain_frag_into_datagram_and_validate ipr new s = Some (seems_complete (s\<lparr>ilw := m2\<rparr>) ipr as new bs, ?s2)" .
    have e: "\<forall>x\<in>set ps. frag_start m2 x = frag_start ?s x \<and> frag_end m2 x = frag_end ?s x" using ins(2) old ab(1) by auto
    have w2: "writes (\<Union>x\<in>set (as @ new # bs). region (pb_payload ?s x) 20) ?s m2"
      by (rule writes_both [OF writes_mono [OF w] ins(3) [unfolded writes_fields(2) [OF w]]]) auto
    have lt: "\<forall>x\<in>set as. frag_start m2 x < st \<and> frag_end m2 x \<le> st" "bs \<noteq> [] \<longrightarrow> st < frag_start m2 (hd bs)"
      using ab(4) ins(2) apply simp
      using ab(5) ins(2) ab(2) by (cases bs) auto
    have n2: "frag_start m2 new = st" "frag_end m2 new = en" using ins(2) [of new] nw(2,3) by simp_all
    show ?thesis by (intro disjI1 exI [of _ as] exI [of _ bs] exI [of _ m2] conjI ab(1) run fr2 e w2 lt n2)
  qed
qed

section \<open>Order and completeness\<close>

abbreviation by_offset :: "lw \<Rightarrow> ptr list \<Rightarrow> bool" where
  "by_offset s \<equiv> sorted_wrt (\<lambda>x y. frag_start s x < frag_start s y)"

lemma by_offset_cong: "(\<And>x. x \<in> set ps \<Longrightarrow> frag_start s' x = frag_start s x) \<Longrightarrow> by_offset s' ps = by_offset s ps"
  by (induction ps) auto

lemma by_offset_insert:
  assumes "by_offset s (as @ bs)" "\<forall>x\<in>set as. frag_start s x < frag_start s new" "bs \<noteq> [] \<longrightarrow> frag_start s new < frag_start s (hd bs)"
  shows "by_offset s (as @ new # bs)"
proof -
  have "\<forall>y\<in>set bs. frag_start s new < frag_start s y"
    using assms(1,3) by (cases bs) (auto simp: sorted_wrt_append intro: less_trans)
  then show ?thesis using assms(1,2) by (auto simp: sorted_wrt_append)
qed

lemma gapless_by_offset:
  "gapless s ps \<Longrightarrow> \<forall>x\<in>set ps. frag_start s x < frag_end s x \<Longrightarrow> by_offset s ps \<and> (\<forall>x\<in>set ps. ps \<noteq> [] \<longrightarrow> frag_start s (hd ps) \<le> frag_start s x)"
proof (induction ps)
  case (Cons x ps)
  show ?case
  proof (cases ps)
    case Nil
    then show ?thesis by simp
  next
    case (Cons y qs)
    then have g: "frag_end s x = frag_start s y" "gapless s ps" using Cons.prems(1) by auto
    have IH: "by_offset s ps" "\<forall>z\<in>set ps. frag_start s y \<le> frag_start s z" using Cons.IH [OF g(2)] Cons.prems(2) Cons by auto
    have "frag_start s x < frag_start s y" using Cons.prems(2) g(1) by auto
    then have "\<forall>z\<in>set ps. frag_start s x < frag_start s z" using IH(2) by (auto intro: less_le_trans)
    then show ?thesis using IH(1) by (auto intro: less_imp_le)
  qed
qed simp

text \<open>Two ways to cut a list in front of the elements behind \<open>st\<close> are the same.\<close>

lemma cut_unique:
  assumes "as @ bs = as' @ bs'" "by_offset s (as @ bs)"
    and "\<forall>x\<in>set as. frag_start s x < st" "bs \<noteq> [] \<longrightarrow> st < frag_start s (hd bs)"
    and "\<forall>x\<in>set as'. frag_start s x < st" "bs' \<noteq> [] \<longrightarrow> st < frag_start s (hd bs')"
  shows "as = as' \<and> bs = bs'"
proof -
  have *: "as = as'" if "as = as' @ us" "us @ bs = bs'" "\<forall>x\<in>set as. frag_start s x < st" "bs' \<noteq> [] \<longrightarrow> st < frag_start s (hd bs')"
    for as as' bs bs' us
    using that by (cases us) auto
  from assms(1) consider us where "as = as' @ us" "us @ bs = bs'" | us where "as' = as @ us" "us @ bs' = bs"
    by (auto simp: append_eq_append_conv2)
  then have "as = as'" using *[of as as' _ bs bs'] *[of as' as _ bs' bs] assms(3-6) by cases auto
  then show ?thesis using assms(1) by simp
qed

text \<open>
  A fragment that is put into its datagram is thrown away only if its data overlaps that of a fragment
  that is there; otherwise it is linked in, and the fragments stay ordered by their offsets, with the
  offsets and ends that they had.
\<close>

theorem fragment_inserted_in_order:
  assumes "frags s ipr ps" "by_offset (ilw s) ps" "new \<noteq> NULL" "new \<notin> set ps" "heads_apart (ilw s) (insert new (set ps))"
    and "packet (ilw s) new" "14 < length (memp_tab (ilw s))"
  shows "\<exists>valid s' ps'. ip_reass_chain_frag_into_datagram_and_validate ipr new s = Some (valid, s') \<and>
    frags s' ipr ps' \<and> by_offset (ilw s') ps' \<and>
    (\<forall>x\<in>set ps. frag_start (ilw s') x = frag_start (ilw s) x \<and> frag_end (ilw s') x = frag_end (ilw s) x) \<and>
    (ps' = ps \<and> \<not> valid \<and> (\<exists>x\<in>set ps. overlaps (ilw s) (hdr_offset (ilw s) new) (hdr_offset (ilw s) new + hdr_len (ilw s) new) x) \<or>
     set ps' = insert new (set ps) \<and> length ps' = Suc (length ps) \<and>
     frag_start (ilw s') new = hdr_offset (ilw s) new \<and> frag_end (ilw s') new = hdr_offset (ilw s) new + hdr_len (ilw s) new)"
  using chain_frag_spec [OF assms(1,3-7)]
proof (elim disjE exE conjE, goal_cases placed dropped)
  case (placed as bs m)
  let ?s = "put_ipr_p ipr (first_ptr (as @ [new])) (s\<lparr>ilw := m\<rparr>)"
  have "by_offset m (as @ bs)" using assms(2) placed(1,4) by_offset_cong [of ps m "ilw s"] by simp
  then have "by_offset m (as @ new # bs)" using placed(5,7,8) by (intro by_offset_insert) auto
  then show ?case using placed by (intro exI [of _ "seems_complete (s\<lparr>ilw := m\<rparr>) ipr as new bs"] exI [of _ ?s] exI [of _ "as @ new # bs"]) simp
next
  case (dropped m n)
  have "by_offset m ps" using assms(2) dropped(4) by_offset_cong [of ps m "ilw s"] by blast
  then show ?case using dropped
    by (intro exI [of _ False] exI [of _ "s\<lparr>ilw := m, ip_reass_pbufcount := ip_reass_pbufcount s - ucast n\<rparr>"] exI [of _ ps])
      (simp add: frags_def)
qed

text \<open>The offsets and ends of the fragments follow one another from 0 to \<open>n\<close>, none is empty.\<close>

fun tiles :: "u16 \<Rightarrow> (u16 \<times> u16) list \<Rightarrow> u16 \<Rightarrow> bool" where
  "tiles a [] n \<longleftrightarrow> a = n"
| "tiles a ((st, en) # xs) n \<longleftrightarrow> st = a \<and> st < en \<and> tiles en xs n"

abbreviation extent :: "lw \<Rightarrow> ptr \<Rightarrow> u16 \<times> u16" where
  "extent s x \<equiv> (frag_start s x, frag_end s x)"

lemma tiles_gapless:
  "tiles a (map (extent s) ps) n \<Longrightarrow> gapless s ps \<and> (\<forall>x\<in>set ps. frag_start s x < frag_end s x) \<and> (ps \<noteq> [] \<longrightarrow> frag_start s (hd ps) = a)"
proof (induction ps arbitrary: a)
  case (Cons x ps)
  then show ?case by (cases ps) auto
qed simp

lemma tiles_append: "tiles a (xs @ ys) n \<longleftrightarrow> (\<exists>b. tiles a xs b \<and> tiles b ys n)"
  by (induction xs arbitrary: a) auto

lemma tiles_unique: "tiles a xs n \<Longrightarrow> tiles a xs k \<Longrightarrow> n = k"
  by (induction a xs n rule: tiles.induct) auto

lemma tiles_last: "tiles a xs n \<Longrightarrow> xs \<noteq> [] \<Longrightarrow> snd (last xs) = n"
  by (induction a xs n rule: tiles.induct) auto

lemma tiles_bounds: "tiles a xs n \<Longrightarrow> a \<le> n \<and> (\<forall>(st, en)\<in>set xs. a \<le> st \<and> en \<le> n)"
proof (induction xs arbitrary: a)
  case (Cons x xs)
  then show ?case by (cases x) (fastforce intro: order_trans less_imp_le)
qed simp

text \<open>
  The fragments \<open>as\<close> cover the data from 0 to \<open>a\<close>, the new fragment with \<open>bs\<close> that from \<open>st\<close> to \<open>n\<close>.
\<close>

lemma tiles_sides:
  assumes "tiles 0 (map (extent s) as) a" "a \<le> st" "tiles st ((st, en) # map (extent s) bs) n"
  shows "st < en" "\<forall>x\<in>set as. frag_start s x < frag_end s x \<and> frag_end s x \<le> st"
    "\<forall>x\<in>set bs. frag_start s x < frag_end s x \<and> en \<le> frag_start s x"
proof -
  have b: "tiles en (map (extent s) bs) n" "st < en" using assms(3) by auto
  then show "st < en" by simp
  show "\<forall>x\<in>set as. frag_start s x < frag_end s x \<and> frag_end s x \<le> st"
    using tiles_gapless [OF assms(1)] tiles_bounds [OF assms(1)] assms(2) by (auto intro: order_trans)
  show "\<forall>x\<in>set bs. frag_start s x < frag_end s x \<and> en \<le> frag_start s x"
    using tiles_gapless [OF b(1)] tiles_bounds [OF b(1)] by auto
qed

lemma sides_no_overlap:
  assumes "tiles 0 (map (extent s) as) a" "a \<le> st" "tiles st ((st, en) # map (extent s) bs) n" "x \<in> set (as @ bs)"
  shows "\<not> overlaps s st en x"
proof -
  note t = tiles_sides [OF assms(1-3)]
  consider "x \<in> set as" | "x \<in> set bs" using assms(4) by auto
  then show ?thesis
  proof cases
    case 1
    then have "frag_start s x < st" "\<not> st < frag_end s x" using t(2) by (auto intro: less_le_trans)
    then show ?thesis by (auto simp: overlaps_def)
  next
    case 2
    then have "st < frag_start s x" "\<not> frag_start s x < en" using t(1,3) by (auto intro: less_le_trans)
    then show ?thesis by (auto simp: overlaps_def)
  qed
qed

lemma frag_between:
  assumes "frags s ipr (as @ bs)" "new \<noteq> NULL" "new \<notin> set (as @ bs)" "heads_apart (ilw s) (insert new (set (as @ bs)))"
    and "packet (ilw s) new" "14 < length (memp_tab (ilw s))" "ipr_flags s ipr AND IP_REASS_FLAG_LASTFRAG \<noteq> 0"
    and "st = hdr_offset (ilw s) new" "en = hdr_offset (ilw s) new + hdr_len (ilw s) new"
    and t: "tiles 0 (map (extent (ilw s)) as) a" "a \<le> st" "tiles st ((st, en) # map (extent (ilw s)) bs) n"
    and ends: "as = [] \<or> bs = [] \<Longrightarrow> a = st"
  shows "\<exists>s'. ip_reass_chain_frag_into_datagram_and_validate ipr new s = Some (True, s') \<and> frags s' ipr (as @ new # bs) \<and>
    tiles 0 (map (extent (ilw s')) as) a \<and> tiles st (map (extent (ilw s')) (new # bs)) n \<and>
    s' = put_ipr_p ipr (first_ptr (as @ [new])) (s\<lparr>ilw := ilw s'\<rparr>) \<and>
    writes (\<Union>x\<in>set (as @ new # bs). region (pb_payload (ilw s) x) 20) (ilw s) (ilw s')"
  using chain_frag_spec [OF assms(1-6), folded assms(8,9)]
proof (elim disjE exE conjE, goal_cases placed dropped)
  case (placed as' bs' m)
  let ?s = "put_ipr_p ipr (first_ptr (as @ [new])) (s\<lparr>ilw := m\<rparr>)"
  have ext: "map (extent m) xs = map (extent (ilw s)) xs" if "set xs \<subseteq> set (as @ bs)" for xs
    by (intro map_cong refl) (use placed(4) that in auto)
  have ea: "map (extent m) as = map (extent (ilw s)) as" and eb: "map (extent m) bs = map (extent (ilw s)) bs" by (rule ext; auto)+
  have all: "tiles 0 (map (extent m) as) a" "tiles st (map (extent m) (new # bs)) n"
    using t(1,3) placed(5,6) ea eb unfolding list.map(2) by (simp_all only: tiles.simps)
  note d = tiles_sides [OF t]
  note g = tiles_gapless [OF all(1)] tiles_gapless [OF all(2)]
  have bs: "\<forall>y\<in>set bs. st < frag_start m y" using d(1,3) placed(4) by (auto intro: less_le_trans)
  have as: "\<forall>x\<in>set as. frag_start m x < st" using d(2) placed(4) by (auto intro: less_le_trans)
  have bo: "by_offset m (as @ bs)"
    using gapless_by_offset [of m as] gapless_by_offset [of m "new # bs"] g as bs by (auto simp: sorted_wrt_append intro: less_trans)
  have "as = as' \<and> bs = bs'" by (rule cut_unique [OF placed(1) bo as]) (use bs placed(7,8) in auto)
  then have eq: "as' = as" "bs' = bs" by auto
  have "frag_end m (last as) = a" if "as \<noteq> []" using tiles_last [OF all(1)] that by (simp add: last_map)
  then have "bs = [] \<longrightarrow> gapless m (as @ [new])" using g(1) ends placed(5) by (auto simp: successively_append_iff)
  moreover have "frag_start m (hd (as @ [new])) = 0"
    using g(1) ends t(1) placed(5) by (cases "as = []") auto
  ultimately have "seems_complete (s\<lparr>ilw := m\<rparr>) ipr as new bs"
    using g assms(7) unfolding seems_complete_def by simp
  then show ?case using placed(2,3,9) all unfolding eq by (intro exI [of _ ?s]) auto
next
  case (dropped m k)
  then show ?case using sides_no_overlap [OF t] by blast
qed

text \<open>
  C31: when the last missing fragment of a datagram arrives, so that the fragments cover the datagram
  from 0 on without gaps and overlaps, it is put in its place and the datagram is found to be complete.
\<close>

theorem complete_datagram_recognised:
  assumes "frags s ipr (as @ bs)" "new \<noteq> NULL" "new \<notin> set (as @ bs)" "heads_apart (ilw s) (insert new (set (as @ bs)))"
    and "packet (ilw s) new" "14 < length (memp_tab (ilw s))"
    and "ipr_flags s ipr AND IP_REASS_FLAG_LASTFRAG \<noteq> 0"
    and "tiles 0 (map (extent (ilw s)) as @ (hdr_offset (ilw s) new, hdr_offset (ilw s) new + hdr_len (ilw s) new) # map (extent (ilw s)) bs) n"
  shows "\<exists>s'. ip_reass_chain_frag_into_datagram_and_validate ipr new s = Some (True, s') \<and>
    frags s' ipr (as @ new # bs) \<and> tiles 0 (map (extent (ilw s')) (as @ new # bs)) n"
proof -
  let ?st = "hdr_offset (ilw s) new"
  have "tiles 0 (map (extent (ilw s)) as) ?st" "tiles ?st ((?st, ?st + hdr_len (ilw s) new) # map (extent (ilw s)) bs) n"
    using assms(8) by (auto simp: tiles_append)
  from frag_between [OF assms(1-7) refl refl this(1) order_refl this(2) refl] show ?thesis
    unfolding map_append tiles_append by blast
qed

text \<open>
  The gap in front of a fragment that is inserted between two others is not looked at: a datagram
  is found to be complete although its data from \<open>a\<close> to the start of the new fragment is missing.
\<close>

lemma gap_in_front_accepted:
  assumes "frags s ipr (as @ bs)" "new \<noteq> NULL" "new \<notin> set (as @ bs)" "heads_apart (ilw s) (insert new (set (as @ bs)))"
    and "packet (ilw s) new" "14 < length (memp_tab (ilw s))" "ipr_flags s ipr AND IP_REASS_FLAG_LASTFRAG \<noteq> 0"
    and "as \<noteq> []" "bs \<noteq> []" "st = hdr_offset (ilw s) new" "en = hdr_offset (ilw s) new + hdr_len (ilw s) new"
    and "tiles 0 (map (extent (ilw s)) as) a" "a < st" "tiles st ((st, en) # map (extent (ilw s)) bs) n"
  shows "\<exists>s'. ip_reass_chain_frag_into_datagram_and_validate ipr new s = Some (True, s') \<and> frags s' ipr (as @ new # bs) \<and>
    \<not> tiles 0 (map (extent (ilw s')) (as @ new # bs)) n"
proof -
  have "as = [] \<or> bs = [] \<Longrightarrow> a = st" using assms(8,9) by simp
  from frag_between [OF assms(1-7,10,11,12) less_imp_le [OF assms(13)] assms(14) this] obtain s' where
    s': "ip_reass_chain_frag_into_datagram_and_validate ipr new s = Some (True, s')" "frags s' ipr (as @ new # bs)"
    "tiles 0 (map (extent (ilw s')) as) a" "tiles st (map (extent (ilw s')) (new # bs)) n" by blast
  have "\<not> tiles 0 (map (extent (ilw s')) (as @ new # bs)) n"
  proof
    assume "tiles 0 (map (extent (ilw s')) (as @ new # bs)) n"
    then obtain b where b: "tiles 0 (map (extent (ilw s')) as) b" "tiles b (map (extent (ilw s')) (new # bs)) n"
      unfolding map_append tiles_append by blast
    have "b = a" by (rule tiles_unique [OF b(1) s'(3)])
    then show False using b(2) s'(4) assms(13) by auto
  qed
  with s'(1,2) show ?thesis by blast
qed

section \<open>The data of a reassembled datagram\<close>























section \<open>The header of the first fragment\<close>

text \<open>
  \<open>hds x\<close> is the header with which the fragment \<open>x\<close> has arrived. The header \<open>H\<close> that is kept for a datagram with the fragments \<open>ps\<close> is
  that of the fragment with offset 0, and as long as this one is missing, a header with another offset.
\<close>

definition hoff :: "u8 list \<Rightarrow> u16" where
  "hoff l = lwip_ntohs (IPH_OFFSET (hmem l) 0) AND IP_OFFMASK"

definition first_header :: "lw \<Rightarrow> (ptr \<Rightarrow> u8 list) \<Rightarrow> u8 list \<Rightarrow> ptr list \<Rightarrow> bool" where
  "first_header m hds H ps \<longleftrightarrow>
     (\<forall>x\<in>set ps. frag_start m x = 0 \<longrightarrow> H = hds x) \<and> ((\<exists>x\<in>set ps. frag_start m x = 0) \<longleftrightarrow> hoff H = 0)"

definition header_of :: "lw \<Rightarrow> ptr \<Rightarrow> u8 list" where
  "header_of m p = bytes_at (bytes m) (pb_payload m p) 20"

text \<open>The header that is kept after the arrival of the fragment \<open>p\<close>.\<close>

definition kept_header :: "lw \<Rightarrow> ptr \<Rightarrow> u8 list \<Rightarrow> u8 list" where
  "kept_header m p H = (if hoff (header_of m p) = 0 \<and> hoff H \<noteq> 0 then header_of m p else H)"

lemma hoff_header: "hoff (header_of m p) = lwip_ntohs (IPH_OFFSET (bytes m) (pb_payload m p)) AND IP_OFFMASK"
proof -
  have "header_of m p ! 6 = bytes m (pb_payload m p + 6)" "header_of m p ! 7 = bytes m (pb_payload m p + 7)"
    by (simp_all add: header_of_def bytes_at_def)
  then show ?thesis by (simp add: hoff_def IPH_OFFSET_def hmem_def rd16_def add.assoc)
qed

lemma hdr_offset_0: "hdr_offset m p = 0 \<longleftrightarrow> hoff (header_of m p) = 0"
proof -
  have "unat (x AND 0x1fff) \<le> 0x1fff" for x :: u16 using word_and_le1 [of x "0x1fff"] by (simp add: word_le_nat_alt)
  then have "unat ((x AND 0x1fff) * 8) = unat (x AND 0x1fff) * 8" for x :: u16
    by (simp add: unat_word_ariths le_less_trans [of _ "0x1fff * 8"])
  then have "(x AND 0x1fff) * 8 = 0 \<longleftrightarrow> x AND 0x1fff = 0" for x :: u16 by (metis mult_is_0 unat_eq_0 zero_neq_numeral)
  then show ?thesis by (simp add: hdr_offset_def hoff_header)
qed

lemma find_datagram_spec:
  assumes "chain (ipr_next s) r (xs @ ipr # ys)" "\<forall>x\<in>set xs. \<not> IP_ADDRESSES_AND_ID_MATCH (ipr_iphdr s x) (bytes (ilw s)) a"
    and "IP_ADDRESSES_AND_ID_MATCH (ipr_iphdr s ipr) (bytes (ilw s)) a"
  shows "find_datagram a s r prev = Some (ipr, last (prev # xs))"
  using assms
proof (induction xs arbitrary: r prev)
  case Nil
  then show ?case by (subst find_datagram.simps) auto
next
  case (Cons x xs)
  then show ?case by (subst find_datagram.simps) auto
qed

lemma find_datagram_none:
  assumes "chain (ipr_next s) r xs" "\<forall>x\<in>set xs. \<not> IP_ADDRESSES_AND_ID_MATCH (ipr_iphdr s x) (bytes (ilw s)) a"
  shows "\<exists>prev'. find_datagram a s r prev = Some (NULL, prev')"
  using assms
proof (induction xs arbitrary: r prev)
  case Nil
  then show ?case by (subst find_datagram.simps) auto
next
  case (Cons x xs)
  then show ?case by (subst find_datagram.simps) auto
qed

text \<open>The fragment \<open>p\<close>, without options, belongs to the datagram \<open>ipr\<close> of the list, behind the datagrams \<open>xs\<close>, and there is room for its buffers \<open>cs\<close>.\<close>

definition belongs :: "ipst \<Rightarrow> ptr \<Rightarrow> ptr list \<Rightarrow> ptr \<Rightarrow> ptr list \<Rightarrow> bool" where
  "belongs s p cs ipr xs \<longleftrightarrow>
     IPH_HL (bytes (ilw s)) (pb_payload (ilw s) p) = 5 \<and> chain (pb_next (ilw s)) p cs \<and>
     unat (ip_reass_pbufcount s) + length cs \<le> IP_REASS_MAX_PBUFS \<and>
     (\<exists>ys. chain (ipr_next s) (reassdatagrams s) (xs @ ipr # ys)) \<and>
     (\<forall>x\<in>set xs. \<not> IP_ADDRESSES_AND_ID_MATCH (ipr_iphdr s x) (bytes (ilw s)) (pb_payload (ilw s) p)) \<and>
     IP_ADDRESSES_AND_ID_MATCH (ipr_iphdr s ipr) (bytes (ilw s)) (pb_payload (ilw s) p)"

lemma ip_reass_found:
  assumes "belongs s p cs ipr xs"
  shows "ip_reass icmp p s = reass_add ipr (last (NULL # xs)) (of_nat (length cs)) p (put_ipr_iphdr ipr (kept_header (ilw s) p (ipr_iphdr s ipr)) s)"
    "reassdatagrams s = ipr \<or> last (NULL # xs) \<noteq> NULL"
proof -
  let ?a = "pb_payload (ilw s) p"
  note b = assms [unfolded belongs_def]
  from b obtain ys where ys: "chain (ipr_next s) (reassdatagrams s) (xs @ ipr # ys)" by blast
  have f: "find_datagram ?a s (reassdatagrams s) NULL = Some (ipr, last (NULL # xs))" using find_datagram_spec [OF ys] b by blast
  have nn: "NULL \<notin> set (xs @ ipr # ys)" by (rule chain_NULL_notin [OF ys])
  then show "reassdatagrams s = ipr \<or> last (NULL # xs) \<noteq> NULL" using ys by (cases xs) (auto dest: last_in_set)
  have c: "pbuf_clen p (ilw s) = Some (of_nat (length cs))" using b pbuf_clen_eq by blast
  have u: "unat (of_nat (length cs) :: u8) = length cs" using b by (simp add: unat_of_nat)
  have k: "(if lwip_ntohs (IPH_OFFSET (bytes (ilw s)) ?a) AND IP_OFFMASK = 0 \<and> lwip_ntohs (IPH_OFFSET (hmem (ipr_iphdr s ipr)) 0) AND IP_OFFMASK \<noteq> 0
      then put_ipr_iphdr ipr (bytes_at (bytes (ilw s)) ?a 20) s else s) = put_ipr_iphdr ipr (kept_header (ilw s) p (ipr_iphdr s ipr)) s"
    by (auto simp: kept_header_def hoff_header header_of_def [symmetric] hoff_def [of "ipr_iphdr s ipr"] fun_upd_idem)
  show "ip_reass icmp p s = reass_add ipr (last (NULL # xs)) (of_nat (length cs)) p (put_ipr_iphdr ipr (kept_header (ilw s) p (ipr_iphdr s ipr)) s)"
    unfolding ip_reass_def Let_def c k [symmetric] using b f u nn by (simp del: last.simps split del: if_split)
qed

lemma first_header_cong:
  "(\<And>x. x \<in> set ps \<Longrightarrow> frag_start m' x = frag_start m x) \<Longrightarrow> first_header m' hds H ps = first_header m hds H ps"
  by (simp add: first_header_def)

text \<open>The kept header with the new fragment linked in: the others have other offsets.\<close>

lemma first_header_placed:
  assumes H: "first_header m hds H ps" and m2: "\<forall>x\<in>set ps. frag_start m2 x = frag_start m x" "frag_start m2 new = hdr_offset m new"
    and hds: "hds new = header_of m new" and ne: "\<forall>x\<in>set ps. frag_start m x \<noteq> hdr_offset m new"
    and ps': "set ps' = insert new (set ps)"
  shows "first_header m2 hds (kept_header m new H) ps'"
proof (cases "hoff (header_of m new) = 0")
  case True
  then have z: "hdr_offset m new = 0" by (simp add: hdr_offset_0)
  then have n: "\<forall>x\<in>set ps. frag_start m2 x \<noteq> 0" using m2(1) ne by auto
  then have "hoff H \<noteq> 0" using H m2(1) by (auto simp: first_header_def)
  then show ?thesis using True z n m2(2) hds by (auto simp: first_header_def kept_header_def ps')
next
  case False
  then have z: "hdr_offset m new \<noteq> 0" by (simp add: hdr_offset_0)
  then show ?thesis using False H m2 by (auto simp: first_header_def kept_header_def ps')
qed

lemma first_header_dropped:
  assumes "first_header m hds H ps" "hdr_offset m new = 0 \<longrightarrow> (\<exists>x\<in>set ps. frag_start m x = 0)"
  shows "kept_header m new H = H"
  using assms by (auto simp: first_header_def kept_header_def hdr_offset_0)

text \<open>What \<open>reass_add\<close> does before the fragment is linked in.\<close>

definition counted :: "ptr \<Rightarrow> u8 \<Rightarrow> ptr \<Rightarrow> ipst \<Rightarrow> ipst" where
  "counted ipr clen new s = (let s = s\<lparr>ip_reass_pbufcount := ip_reass_pbufcount s + ucast clen\<rparr> in
     if IPH_OFFSET (bytes (ilw s)) (pb_payload (ilw s) new) AND lwip_htons IP_MF = 0
     then put_ipr_datagram_len ipr (hdr_offset (ilw s) new + hdr_len (ilw s) new) (put_ipr_flags ipr (ipr_flags s ipr OR IP_REASS_FLAG_LASTFRAG) s)
     else s)"

lemma counted_same: "ilw (counted ipr clen new s) = ilw s" "ipr_p (counted ipr clen new s) = ipr_p s" "ipr_iphdr (counted ipr clen new s) = ipr_iphdr s"
  by (auto simp: counted_def Let_def)

lemma reass_add_counted:
  "reass_add ipr prev clen new s = do {
     (valid, s) \<leftarrow> ip_reass_chain_frag_into_datagram_and_validate ipr new (counted ipr clen new s);
     if valid then finish_datagram ipr prev s else Some (NULL, s) }"
  unfolding reass_add_def Let_def counted_def hdr_offset_def hdr_len_def by simp

lemma finish_datagram_NULL: "finish_datagram ipr prev s = Some (q, s') \<Longrightarrow> q = ipr_p s ipr"
  by (auto simp: finish_datagram_def Let_def bind_eq_Some_conv)

lemma reass_add_collects:
  assumes fr: "frags s ipr ps" "by_offset (ilw s) ps" and new: "new \<noteq> NULL" "new \<notin> set ps" "heads_apart (ilw s) (insert new (set ps))"
    and pk: "packet (ilw s) new" "14 < length (memp_tab (ilw s))"
    and run: "reass_add ipr prev clen new s = Some (NULL, s')"
  shows "\<exists>ps'. frags s' ipr ps' \<and> by_offset (ilw s') ps' \<and> ipr_iphdr s' = ipr_iphdr s \<and>
    (\<forall>x\<in>set ps. frag_start (ilw s') x = frag_start (ilw s) x) \<and>
    (ps' = ps \<and> ps \<noteq> [] \<and> (hdr_offset (ilw s) new = 0 \<longrightarrow> (\<exists>x\<in>set ps. frag_start (ilw s) x = 0)) \<or>
     set ps' = insert new (set ps) \<and> frag_start (ilw s') new = hdr_offset (ilw s) new \<and> (\<forall>x\<in>set ps. frag_start (ilw s) x \<noteq> hdr_offset (ilw s) new))"
proof -
  define s1 where "s1 = counted ipr clen new s"
  note c = counted_same [of ipr clen new s, folded s1_def]
  have f1: "frags s1 ipr ps" using fr(1) by (simp add: frags_def c)
  note spec = chain_frag_spec [OF f1 new(1,2), unfolded c(1), OF new(3) pk]
  from spec show ?thesis
  proof (elim disjE exE conjE, goal_cases placed dropped)
    case (placed as bs m)
    let ?s = "put_ipr_p ipr (first_ptr (as @ [new])) (s1\<lparr>ilw := m\<rparr>)"
    have p: "ipr_p ?s ipr \<noteq> NULL" using placed(3) by (cases as) (auto simp: frags_def)
    have s': "s' = ?s" using run p unfolding reass_add_counted s1_def [symmetric] placed(2)
      by (auto dest: finish_datagram_NULL split: if_splits)
    have b: "by_offset m (as @ bs)" using fr(2) placed(1,4) by_offset_cong [of ps m "ilw s"] by simp
    then have b2: "by_offset m (as @ new # bs)" using placed(5,7,8) by (intro by_offset_insert) auto
    then have "\<forall>x\<in>set ps. frag_start m x \<noteq> frag_start m new" using placed(1) by (auto simp: sorted_wrt_append)
    then show ?case using placed b2 by (intro exI [of _ "as @ new # bs"]) (auto simp: s' c)
  next
    case (dropped m k)
    have s': "s' = s1\<lparr>ilw := m, ip_reass_pbufcount := ip_reass_pbufcount s1 - ucast k\<rparr>"
      using run unfolding reass_add_counted s1_def [symmetric] dropped(1) by simp
    have "by_offset m ps" using fr(2) dropped(4) by_offset_cong [of ps m "ilw s"] by blast
    moreover have "ps \<noteq> []" using dropped(3) by auto
    ultimately show ?case using dropped by (intro exI [of _ ps]) (simp add: s' frags_def c)
  qed
qed

text \<open>
  As long as fragments are missing, a fragment of the datagram is linked in or thrown away, and the header that is kept stays the right
  one. The first fragment that arrives for a datagram gives its header.
\<close>

lemma ip_reass_collects:
  assumes b: "belongs s new cs ipr xs"
    and fr: "frags s ipr ps" "by_offset (ilw s) ps" and new: "new \<noteq> NULL" "new \<notin> set ps" "heads_apart (ilw s) (insert new (set ps))"
    and pk: "packet (ilw s) new" "14 < length (memp_tab (ilw s))"
    and H: "first_header (ilw s) hds (ipr_iphdr s ipr) ps" "hds new = header_of (ilw s) new"
    and run: "ip_reass icmp new s = Some (NULL, s')"
  shows "\<exists>ps'. frags s' ipr ps' \<and> by_offset (ilw s') ps' \<and> first_header (ilw s') hds (ipr_iphdr s' ipr) ps' \<and>
    (ps' = ps \<or> set ps' = insert new (set ps))"
proof -
  define s0 where "s0 = put_ipr_iphdr ipr (kept_header (ilw s) new (ipr_iphdr s ipr)) s"
  have s0: "ilw s0 = ilw s" "frags s0 ipr ps" "ipr_iphdr s0 ipr = kept_header (ilw s) new (ipr_iphdr s ipr)"
    using fr(1) by (simp_all add: s0_def frags_def)
  have "reass_add ipr (last (NULL # xs)) (of_nat (length cs)) new s0 = Some (NULL, s')"
    using run ip_reass_found(1) [OF b] by (simp add: s0_def del: last.simps)
  from reass_add_collects [OF s0(2) _ new(1,2) _ _ _ this, unfolded s0(1), OF fr(2) new(3) pk] obtain ps' where
    ps': "frags s' ipr ps'" "by_offset (ilw s') ps'" "ipr_iphdr s' = ipr_iphdr s0" "\<forall>x\<in>set ps. frag_start (ilw s') x = frag_start (ilw s) x"
    "ps' = ps \<and> (hdr_offset (ilw s) new = 0 \<longrightarrow> (\<exists>x\<in>set ps. frag_start (ilw s) x = 0)) \<or>
     set ps' = insert new (set ps) \<and> frag_start (ilw s') new = hdr_offset (ilw s) new \<and> (\<forall>x\<in>set ps. frag_start (ilw s) x \<noteq> hdr_offset (ilw s) new)"
    by blast
  have "first_header (ilw s') hds (ipr_iphdr s' ipr) ps'"
    using ps'(5)
  proof (elim disjE conjE)
    assume d: "ps' = ps" "hdr_offset (ilw s) new = 0 \<longrightarrow> (\<exists>x\<in>set ps. frag_start (ilw s) x = 0)"
    then show ?thesis using first_header_dropped [OF H(1) d(2)] H(1) first_header_cong [of ps "ilw s'" "ilw s"] ps'(4) by (simp add: ps'(3) s0(3))
  next
    assume d: "set ps' = insert new (set ps)" "frag_start (ilw s') new = hdr_offset (ilw s) new" "\<forall>x\<in>set ps. frag_start (ilw s) x \<noteq> hdr_offset (ilw s) new"
    show ?thesis using first_header_placed [OF H(1) ps'(4) d(2) H(2) d(3,1)] by (simp add: ps'(3) s0(3))
  qed
  then show ?thesis using ps'(1,2,5) by blast
qed


lemma ip_reass_starts:
  assumes p: "IPH_HL (bytes (ilw s)) (pb_payload (ilw s) new) = 5" "chain (pb_next (ilw s)) new cs" "unat (ip_reass_pbufcount s) + length cs \<le> IP_REASS_MAX_PBUFS"
    and xs: "chain (ipr_next s) (reassdatagrams s) xs" "\<forall>x\<in>set xs. \<not> IP_ADDRESSES_AND_ID_MATCH (ipr_iphdr s x) (bytes (ilw s)) (pb_payload (ilw s) new)"
    and ipr: "memp_tab (ilw s) ! MEMP_REASSDATA = ipr" "ipr \<noteq> NULL"
    and new: "new \<noteq> NULL" "packet (ilw s) new" "14 < length (memp_tab (ilw s))" and hds: "hds new = header_of (ilw s) new"
    and run: "ip_reass icmp new s = Some (NULL, s')"
  shows "\<exists>ps. frags s' ipr ps \<and> set ps = {new} \<and> by_offset (ilw s') ps \<and> first_header (ilw s') hds (ipr_iphdr s' ipr) ps"
proof -
  define m where "m = (ilw s)\<lparr>memp_tab := (memp_tab (ilw s))[MEMP_REASSDATA := memp_next (ilw s) ipr]\<rparr>"
  have m: "memp_malloc MEMP_REASSDATA (ilw s) = (ipr, m)" using ipr new(3) by (simp add: memp_malloc_def m_def)
  have d: "same_data (ilw s) m" by (simp add: same_data_def m_def)
  obtain prev where f: "find_datagram (pb_payload (ilw s) new) s (reassdatagrams s) NULL = Some (NULL, prev)" using find_datagram_none [OF xs] by blast
  have c: "pbuf_clen new (ilw s) = Some (of_nat (length cs))" "unat (of_nat (length cs) :: u8) = length cs"
    using pbuf_clen_eq [OF p(2)] p(3) by (simp_all add: unat_of_nat)
  obtain s0 where s0: "ip_reass_enqueue_new_datagram icmp (pb_payload (ilw s) new) (uint (of_nat (length cs) :: u8)) s = Some (ipr, s0)"
    "ilw s0 = m" "ipr_p s0 ipr = NULL" "ipr_iphdr s0 ipr = header_of (ilw s) new"
    using ipr(2) d by (simp add: ip_reass_enqueue_new_datagram_def m Let_def header_of_def same_data_def)
  have e: "header_of m new = header_of (ilw s) new" "hdr_offset m new = hdr_offset (ilw s) new"
    using d by (simp_all add: header_of_def hdr_offset_def same_data_def)
  have pk: "packet (ilw s0) new" "14 < length (memp_tab (ilw s0))" using new(2,3) packet_same [OF d] d by (simp_all add: s0(2) same_data_def)
  have "reass_add ipr prev (of_nat (length cs)) new s0 = Some (NULL, s')"
    using run f c p(1,3) s0(1) ipr(2) unfolding ip_reass_def Let_def by simp
  from reass_add_collects [OF _ _ new(1) _ _ pk this, of "[]"] obtain ps where
    ps: "frags s' ipr ps" "by_offset (ilw s') ps" "ipr_iphdr s' = ipr_iphdr s0" "set ps = {new}" "frag_start (ilw s') new = hdr_offset (ilw s) new"
    by (auto simp: frags_def s0(2,3) heads_apart_def e)
  then have "first_header (ilw s') hds (ipr_iphdr s' ipr) ps" using hds by (simp add: first_header_def s0(4) hdr_offset_0)
  with ps show ?thesis by blast
qed


section \<open>A datagram of two fragments\<close>

text \<open>The first fragment, of 8 bytes, is stored at \<open>0x100\<close>; the second and last one arrives at \<open>0x200\<close>.\<close>

definition smp_frags :: ipst where
  "smp_frags = \<lparr>ilw = undefined\<lparr>bytes := (\<lambda>_. 0)(0x1006 := 8, 0x2000 := 0x45, 0x2003 := 0x1c, 0x2007 := 1), pb_next := (\<lambda>_. NULL),
       pb_payload := (\<lambda>x. x * 16), pb_len := (\<lambda>_. 28), pb_tot_len := (\<lambda>_. 28), pb_type := (\<lambda>_. PBUF_RAM), pb_flags := (\<lambda>_. 0),
       pb_ref_count := (\<lambda>_. 1), memp_tab := replicate 15 NULL\<rparr>,
     ipr_next = (\<lambda>_. NULL), ipr_p = (\<lambda>_. 0x100), ipr_iphdr = (\<lambda>_. [0x45, 0, 0, 28, 0, 0, 0x20, 0] @ replicate 12 0),
     ipr_datagram_len = (\<lambda>_. 0), ipr_flags = (\<lambda>_. 1), ipr_timer = (\<lambda>_. 3), reassdatagrams = 0x10, ip_reass_pbufcount = 1,
     netifs = undefined, netif_next = (\<lambda>_. NULL), netif_list = NULL, netif_default = NULL, ip_id = 0, current_netif = NULL, current_header = NULL,
     current_iphdr_src = 0, current_iphdr_dest = 0\<rparr>"

lemma smp_region: "region 0x1000 28 \<inter> region 0x2000 28 = {}" "region 0x1000 20 \<inter> region 0x2000 20 = {}"
proof -
  show "region 0x1000 28 \<inter> region 0x2000 28 = {}"
    using region_behind [of 4096 28 "0x1000"] region_sub [of 0 28 4096 "0x1000"] by auto
  then show "region 0x1000 20 \<inter> region 0x2000 20 = {}"
    using region_sub [of 0 20 28 "0x1000"] region_sub [of 0 20 28 "0x2000"] by auto
qed

lemma smp_frags_chain:
  "frags smp_frags 0x10 [0x100]" "heads_apart (ilw smp_frags) {0x200, 0x100}" "packet (ilw smp_frags) 0x200"
  "14 < length (memp_tab (ilw smp_frags))" "ipr_flags smp_frags 0x10 AND IP_REASS_FLAG_LASTFRAG \<noteq> 0"
  subgoal by (simp add: frags_def smp_frags_def next_pbuf_def rd32_def rd16_def)
  subgoal using smp_region(2) by (auto simp: heads_apart_def smp_frags_def)
  subgoal by (simp add: packet_def smp_frags_def exI [of _ "[0x200]"])
  subgoal by (simp add: smp_frags_def)
  subgoal by (simp add: smp_frags_def)
  done

lemma smp_frags_extents:
  "hdr_offset (ilw smp_frags) 0x200 = 8" "hdr_len (ilw smp_frags) 0x200 = 8" "extent (ilw smp_frags) 0x100 = (0, 8)"
  by (simp_all add: hdr_offset_def hdr_len_def smp_frags_def frag_start_def frag_end_def rd16_def IPH_OFFSET_def IPH_LEN_def IPH_HL_def
    lwip_ntohs_def lwip_htons_def)

theorem fragment_inserted_in_order_witness:
  "\<exists>valid s' ps'. ip_reass_chain_frag_into_datagram_and_validate 0x10 0x200 smp_frags = Some (valid, s') \<and>
    frags s' 0x10 ps' \<and> by_offset (ilw s') ps'"
  using fragment_inserted_in_order [OF smp_frags_chain(1) _ _ _ _ smp_frags_chain(3,4)] smp_frags_chain(2) by fastforce

theorem complete_datagram_recognised_witness:
  "\<exists>s'. ip_reass_chain_frag_into_datagram_and_validate 0x10 0x200 smp_frags = Some (True, s') \<and>
    frags s' 0x10 [0x100, 0x200] \<and> tiles 0 (map (extent (ilw s')) [0x100, 0x200]) 16"
  using complete_datagram_recognised [of smp_frags "0x10" "[0x100]" "[]" "0x200" 16] smp_frags_chain smp_frags_extents by simp







section \<open>The oldest datagram\<close>

text \<open>
  The predecessor that the search gives is that of the last element of the list, not that of the oldest datagram: with the datagram of
  the new fragment at the end, the oldest datagram can be its own predecessor. Taking it out then changes only its own link.
\<close>

lemma oldest_own_predecessor:
  assumes "chain (ipr_next s) (reassdatagrams s) [a, b, c]" "IP_ADDRESSES_AND_ID_MATCH (ipr_iphdr s c) (bytes (ilw s)) fraghdr"
    and "\<not> IP_ADDRESSES_AND_ID_MATCH (ipr_iphdr s a) (bytes (ilw s)) fraghdr" "\<not> IP_ADDRESSES_AND_ID_MATCH (ipr_iphdr s b) (bytes (ilw s)) fraghdr"
    and "ipr_timer s b \<le> ipr_timer s a"
  shows "oldest_loop fraghdr s (reassdatagrams s) NULL NULL 0 = Some (b, b, 2)"
    "ip_reass_dequeue_datagram b b s = Some s' \<Longrightarrow> chain (ipr_next s') (reassdatagrams s') [a, b, c]"
proof -
  have c: "reassdatagrams s = a" "a \<noteq> NULL" "ipr_next s a = b" "b \<noteq> NULL" "ipr_next s b = c" "c \<noteq> NULL" "ipr_next s c = NULL" "a \<noteq> b" "b \<noteq> c"
    using assms(1) chain_distinct [OF assms(1)] by auto
  show "oldest_loop fraghdr s (reassdatagrams s) NULL NULL 0 = Some (b, b, 2)"
    using c assms(2-5) by (simp add: oldest_loop.simps [of fraghdr s _ _ _ _])
  show "chain (ipr_next s') (reassdatagrams s') [a, b, c]" if "ip_reass_dequeue_datagram b b s = Some s'"
    using that c by (auto simp: ip_reass_dequeue_datagram_def bind_eq_Some_conv)
qed

end
