(* ===== verification/LW_Ip.thy ===== *)
theory LW_Ip
  imports LW_Reass
begin

text \<open>
  Routing and sending of IP packets: \<open>ip_route\<close> and the output functions of \<open>ip.c\<close>, with IP options
  (which IGMP uses), the checksum computed while the header is written, fragmentation, and
  without the loop interface. The output function of the interface is a parameter. An address of which
  the code gets a pointer is a value here, the any address for a \<open>NULL\<close> source; the destination
  \<open>IP_HDRINCL\<close> is \<open>None\<close>.
\<close>

section \<open>Routing\<close>

abbreviation (input) NETIF_FLAG_UP :: u8 where "NETIF_FLAG_UP \<equiv> 0x01"
abbreviation (input) NETIF_FLAG_IGMP :: u8 where "NETIF_FLAG_IGMP \<equiv> 0x80"
abbreviation (input) IP_PROTO_ICMP :: u8 where "IP_PROTO_ICMP \<equiv> 1"
abbreviation (input) IP_PROTO_IGMP :: u8 where "IP_PROTO_IGMP \<equiv> 2"
abbreviation (input) IP_PROTO_TCP :: u8 where "IP_PROTO_TCP \<equiv> 6"
abbreviation (input) IP_PROTO_UDP :: u8 where "IP_PROTO_UDP \<equiv> 17"

definition netif_is_up :: "netif \<Rightarrow> bool" where
  "netif_is_up nif \<longleftrightarrow> netif_flags nif AND NETIF_FLAG_UP \<noteq> 0"

partial_function (option) route_loop :: "ipst \<Rightarrow> u32 \<Rightarrow> ptr \<Rightarrow> ptr option" where
  "route_loop s dest nif =
     (if nif \<noteq> NULL then
        if netif_is_up (netifs s nif) \<and> ip_addr_netcmp dest (ip_addr (netifs s nif)) (netmask (netifs s nif)) then Some nif
        else route_loop s dest (netif_next s nif)
      else Some NULL)"

definition ip_route :: "u32 \<Rightarrow> ipst \<Rightarrow> ptr option" where
  "ip_route dest s = do {
     nif \<leftarrow> route_loop s dest (netif_list s);
     if nif \<noteq> NULL then Some nif
     else if netif_default s = NULL \<or> \<not> netif_is_up (netifs s (netif_default s)) then Some NULL
     else Some (netif_default s) }"

section \<open>Output\<close>

definition IPH_VHLTOS :: "u16 \<Rightarrow> u16 \<Rightarrow> u16 \<Rightarrow> u16" where
  "IPH_VHLTOS v hl tos = lwip_htons (push_bit 12 v OR push_bit 8 hl OR tos)"

definition wr8 :: "ptr \<Rightarrow> u8 \<Rightarrow> lw \<Rightarrow> lw" where
  "wr8 a v s = wr a [v] s"

definition LWIP_MAKE_U16 :: "u8 \<Rightarrow> u8 \<Rightarrow> u32" where
  "LWIP_MAKE_U16 a b = push_bit 8 (ucast a) OR ucast b"

text \<open>The options in front of the data, filled up with zeros, and their part of the checksum.\<close>

definition put_options :: "ptr \<Rightarrow> ptr \<Rightarrow> u16 \<Rightarrow> u16 \<Rightarrow> lw \<Rightarrow> lw" where
  "put_options a ip_options optlen optlen_aligned s =
     (let s = memcpy a ip_options (unat optlen) s
      in if optlen < optlen_aligned then wr (a + ucast optlen) (replicate (unat (optlen_aligned - optlen)) 0) s else s)"

definition options_sum :: "lw \<Rightarrow> ptr \<Rightarrow> u16 \<Rightarrow> u32" where
  "options_sum s a optlen_aligned = fold (\<lambda>i c. c + ucast (rd16 (bytes s) (a + 2 * of_nat i))) [0..<unat optlen_aligned div 2] 0"

text \<open>
  The header of 20 bytes at \<open>h\<close>, with a checksum that is computed from \<open>chk_sum\<close> on.
\<close>

definition put_iphdr :: "ptr \<Rightarrow> u32 \<Rightarrow> u32 \<Rightarrow> u32 \<Rightarrow> u8 \<Rightarrow> u8 \<Rightarrow> u8 \<Rightarrow> u16 \<Rightarrow> u16 \<Rightarrow> u16 \<Rightarrow> lw \<Rightarrow> lw" where
  "put_iphdr h chk_sum src dest ttl tos proto ip_hlen len ident s =
     (let s = wr8 (h + 8) ttl s;
          s = wr8 (h + 9) proto s;
          chk_sum = chk_sum + LWIP_MAKE_U16 proto ttl;
          s = wr32 (h + 16) dest s;
          chk_sum = chk_sum + (dest AND 0xFFFF);
          chk_sum = chk_sum + drop_bit 16 dest;
          s = wr16 h (IPH_VHLTOS 4 (ip_hlen div 4) (ucast tos)) s;
          chk_sum = chk_sum + ucast (rd16 (bytes s) h);
          s = wr16 (h + 2) (lwip_htons len) s;
          chk_sum = chk_sum + ucast (rd16 (bytes s) (h + 2));
          s = wr16 (h + 6) 0 s;
          s = wr16 (h + 4) (lwip_htons ident) s;
          chk_sum = chk_sum + ucast (rd16 (bytes s) (h + 4));
          s = wr32 (h + 12) src s;
          chk_sum = chk_sum + (src AND 0xFFFF);
          chk_sum = chk_sum + drop_bit 16 src;
          chk_sum = drop_bit 16 chk_sum + (chk_sum AND 0xFFFF);
          chk_sum = drop_bit 16 chk_sum + chk_sum;
          chk_sum = NOT chk_sum
      in wr16 (h + 10) (ucast chk_sum) s)"

text \<open>The error of an interface is returned.\<close>

type_synonym netif_out = "netif \<Rightarrow> ptr \<Rightarrow> u32 \<Rightarrow> lw \<Rightarrow> int \<times> lw"

definition ip_send :: "netif_out \<Rightarrow> ptr \<Rightarrow> u32 \<Rightarrow> netif \<Rightarrow> ipst \<Rightarrow> (int \<times> ipst) option" where
  "ip_send out p dest nif s =
     (if mtu nif \<noteq> 0 \<and> pb_tot_len (ilw s) p > mtu nif
      then ip_frag (\<lambda>nif p dest m. snd (out nif p dest m)) p nif dest (ilw s) \<bind> (\<lambda>(err, m, log). Some (err, s\<lparr>ilw := m\<rparr>))
      else let (err, m) = out nif p dest (ilw s) in Some (err, s\<lparr>ilw := m\<rparr>))"

definition ip_output_if_opt ::
  "netif_out \<Rightarrow> ptr \<Rightarrow> u32 \<Rightarrow> u32 option \<Rightarrow> u8 \<Rightarrow> u8 \<Rightarrow> u8 \<Rightarrow> ptr \<Rightarrow> ptr \<Rightarrow> u16 \<Rightarrow> ipst \<Rightarrow> (int \<times> ipst) option" where
  "ip_output_if_opt out p src dest ttl tos proto nif ip_options optlen s =
     (case dest of
        Some dest \<Rightarrow>
          let optlen_aligned = (if optlen \<noteq> 0 then (optlen + 3) AND NOT 3 else 0);
              ip_hlen = IP_HLEN + optlen_aligned;
              (full, m) = (if optlen \<noteq> 0 then pbuf_header p optlen_aligned (ilw s) else (0, ilw s)) in
          if full \<noteq> 0 then Some (ERR_BUF, s\<lparr>ilw := m\<rparr>)
          else
            let m = (if optlen \<noteq> 0 then put_options (pb_payload m p) ip_options optlen optlen_aligned m else m);
                chk_sum = (if optlen \<noteq> 0 then options_sum m (pb_payload m p) optlen_aligned else 0);
                (full, m) = pbuf_header p IP_HLEN m in
            if full \<noteq> 0 then Some (ERR_BUF, s\<lparr>ilw := m\<rparr>)
            else
              let m = put_iphdr (pb_payload m p) chk_sum (if ip_addr_isany src then ip_addr (netifs s nif) else src) dest ttl tos proto
                        ip_hlen (pb_tot_len m p) (ip_id s) m
              in ip_send out p dest (netifs s nif) (s\<lparr>ilw := m, ip_id := ip_id s + 1\<rparr>)
      | None \<Rightarrow> ip_send out p (IPH_DEST (bytes (ilw s)) (pb_payload (ilw s) p)) (netifs s nif) s)"

definition ip_output_if :: "netif_out \<Rightarrow> ptr \<Rightarrow> u32 \<Rightarrow> u32 option \<Rightarrow> u8 \<Rightarrow> u8 \<Rightarrow> u8 \<Rightarrow> ptr \<Rightarrow> ipst \<Rightarrow> (int \<times> ipst) option" where
  "ip_output_if out p src dest ttl tos proto nif s = ip_output_if_opt out p src dest ttl tos proto nif NULL 0 s"

definition ip_output :: "netif_out \<Rightarrow> ptr \<Rightarrow> u32 \<Rightarrow> u32 \<Rightarrow> u8 \<Rightarrow> u8 \<Rightarrow> u8 \<Rightarrow> ipst \<Rightarrow> (int \<times> ipst) option" where
  "ip_output out p src dest ttl tos proto s = do {
     nif \<leftarrow> ip_route dest s;
     if nif = NULL then Some (ERR_RTE, s) else ip_output_if out p src (Some dest) ttl tos proto nif s }"

section \<open>Checksums inside of a message\<close>

lemma le_sum_append: "even (length xs) \<Longrightarrow> le_sum (xs @ ys) = le_sum xs + le_sum ys"
  by (induction xs rule: le_sum.induct) auto

lemma chksum_field_0: "chksum_field D = 0 \<longleftrightarrow> oc (le_sum D) = 65535"
proof -
  have "unat (of_nat (oc (le_sum D)) :: u16) = oc (le_sum D)" using oc_le [of "le_sum D"] by (simp add: unat_of_nat_u16)
  moreover have "chksum_field D = 0 \<longleftrightarrow> unat (chksum_field D) = 0" by (simp add: unat_eq_zero)
  ultimately show ?thesis using oc_le [of "le_sum D"] by (auto simp: chksum_field_le unat_not_u16)
qed

text \<open>
  A message whose checksum field holds the checksum of the message with the field zero passes the
  check, and also if 0 is replaced by \<open>0xffff\<close>.
\<close>

lemma word_parts: "unat (ucast (v :: u16) :: u8) + 256 * unat (ucast (drop_bit 8 v) :: u8) = unat v"
  by (simp add: unat_high_byte unat_ucast_narrow(3) [of v])

lemma chksum_inserted:
  assumes "even (length A)" and "v = chksum_field (A @ [0, 0] @ B) \<or> chksum_field (A @ [0, 0] @ B) = 0 \<and> v = 0xffff \<and> (A @ B \<noteq> replicate (length (A @ B)) 0)"
  shows "chksum_field (A @ [ucast v, ucast (drop_bit 8 v)] @ B) = 0"
proof -
  let ?n = "le_sum (A @ [0, 0] @ B)"
  have s: "le_sum (A @ [ucast v, ucast (drop_bit 8 v)] @ B) = ?n + unat v"
    using word_parts [of v] assms(1) by (simp add: le_sum_append)
  have u: "unat (of_nat (oc ?n) :: u16) = oc ?n" using oc_le [of ?n] by (simp add: unat_of_nat_u16)
  from assms(2) show ?thesis
  proof
    assume "v = chksum_field (A @ [0, 0] @ B)"
    then have "unat v = 65535 - oc ?n" using u by (simp add: chksum_field_le unat_not_u16)
    then show ?thesis using oc_complement [of ?n] s by (simp add: chksum_field_0)
  next
    assume h: "chksum_field (A @ [0, 0] @ B) = 0 \<and> v = 0xffff \<and> A @ B \<noteq> replicate (length (A @ B)) 0"
    then have "oc ?n = 65535" by (simp only: chksum_field_0)
    moreover have "oc (?n + 65535) = oc ?n" using \<open>oc ?n = 65535\<close> oc_eq_0 [of ?n] by (intro oc_cong) auto
    ultimately show ?thesis using s h by (simp add: chksum_field_0)
  qed
qed

section \<open>The header\<close>

definition ip_header :: "u32 \<Rightarrow> u32 \<Rightarrow> u8 \<Rightarrow> u8 \<Rightarrow> u8 \<Rightarrow> u16 \<Rightarrow> u16 \<Rightarrow> u16 \<Rightarrow> u8 list" where
  "ip_header src dest ttl tos proto len ident c =
     [0x45, tos, ucast (drop_bit 8 len), ucast len, ucast (drop_bit 8 ident), ucast ident, 0, 0, ttl, proto,
      ucast c, ucast (drop_bit 8 c)] @ addr_octets src @ addr_octets dest"

lemma octets_word: "addr_octets = word_bytes"
  by (simp add: fun_eq_iff addr_octets_def word_bytes_def)

lemma ip_header_sum:
  "le_sum (ip_header src dest ttl tos proto len ident 0) =
     (unat ttl + 256 * unat proto) + (unat dest mod 65536 + unat dest div 65536) + (0x45 + 256 * unat tos) + unat (lwip_htons len) +
     unat (lwip_htons ident) + (unat src mod 65536 + unat src div 65536)"
  using inet_sum_word_bytes [of src "word_bytes dest"] inet_sum_word_bytes [of dest "[]"]
  by (simp add: ip_header_def octets_word unat_htons unat_high_byte unat_ucast_narrow(3) [of len] unat_ucast_narrow(3) [of ident])

lemma unat_htons_parts: "unat (lwip_htons v) = unat (ucast (drop_bit 8 v) :: u8) + 256 * unat (ucast v :: u8)"
  using word_parts [of "lwip_htons v"] htons_bytes [of v] by simp

lemma vhltos_bytes:
  "ucast (drop_bit 8 (push_bit 12 4 OR push_bit 8 5 OR ucast (tos :: u8) :: u16)) = (0x45 :: u8)"
  "ucast (push_bit 12 4 OR push_bit 8 5 OR ucast (tos :: u8) :: u16) = tos"
proof -
  have v: "push_bit 12 4 OR push_bit 8 5 OR ucast (tos :: u8) = (0x4500 OR ucast tos :: u16)" by (simp flip: or.assoc)
  show "ucast (drop_bit 8 (push_bit 12 4 OR push_bit 8 5 OR ucast tos :: u16)) = (0x45 :: u8)" unfolding v
    by (rule bit_word_eqI) (auto simp: bit_simps dest: bit_imp_le_length)
  show "ucast (push_bit 12 4 OR push_bit 8 5 OR ucast tos :: u16) = tos" unfolding v
    by (rule bit_word_eqI) (auto simp: bit_simps numeral_eq_Suc less_Suc_eq)
qed

lemma vhltos: "unat (IPH_VHLTOS 4 5 (ucast tos)) = 0x45 + 256 * unat tos" "wr16 h (IPH_VHLTOS 4 5 (ucast tos)) s = wr h [0x45, tos] s"
  unfolding IPH_VHLTOS_def unat_htons_parts htons_put vhltos_bytes by simp_all

lemma make_u16: "unat (LWIP_MAKE_U16 a b) = 256 * unat a + unat b"
proof -
  have "LWIP_MAKE_U16 a b = push_bit 8 (ucast a) + ucast b"
    unfolding LWIP_MAKE_U16_def by (rule disjunctive_add [symmetric]) (auto simp: bit_simps dest: bit_imp_le_length)
  then show ?thesis using unat_u8_less [of a] unat_u8_less [of b] by (simp add: push_bit_eq_mult unat_word_ariths del: unat_u8_less)
qed

text \<open>Two additions of the carry in 32 bits, of which only the lower half is stored.\<close>

lemma inline_fold: "(ucast (NOT (let c = drop_bit 16 t + (t AND 0xFFFF) in drop_bit 16 c + c)) :: u16) = NOT (of_nat (oc (unat (t :: u32))))"
proof -
  let ?c = "FOLD_U32T t"
  have "ucast (drop_bit 16 ?c + ?c) = (ucast (FOLD_U32T ?c) :: u16)"
    unfolding FOLD_U32T_def [of ?c] by (simp add: word_unat_eq_iff unat_ucast_narrow unat_word_ariths low_half mod_mod_cancel mod_add_right_eq)
  moreover have "(ucast (FOLD_U32T ?c) :: u16) = of_nat (oc (unat t))" by (simp flip: fold_twice)
  moreover have "ucast (NOT w) = (NOT (ucast w) :: u16)" for w :: u32 by (rule bit_word_eqI) (simp add: bit_simps)
  ultimately show ?thesis by (simp add: FOLD_U32T_def Let_def)
qed

lemma put_iphdr_eq:
  "put_iphdr h 0 src dest ttl tos proto 20 len ident s =
     (let s = wr h [0x45, tos] (wr32 (h + 16) dest (wr (h + 9) [proto] (wr (h + 8) [ttl] s)));
          s = wr (h + 2) [ucast (drop_bit 8 len), ucast len] s;
          s = wr (h + 4) [ucast (drop_bit 8 ident), ucast ident] (wr (h + 6) [0, 0] s)
      in wr16 (h + 10) (chksum_field (ip_header src dest ttl tos proto len ident 0)) (wr32 (h + 12) src s))"
proof -
  define t where "t = 0 + LWIP_MAKE_U16 proto ttl + (dest AND 0xFFFF) + drop_bit 16 dest + ucast (IPH_VHLTOS 4 5 (ucast tos)) + ucast (lwip_htons len) +
    ucast (lwip_htons ident) + (src AND 0xFFFF) + drop_bit 16 src"
  have hb: "unat (w :: u32) mod 65536 < 65536" "unat w div 65536 < 65536" for w
    using unsigned_less [of w, where 'a = nat] by (simp_all add: less_mult_imp_div_less)
  have "unat t = le_sum (ip_header src dest ttl tos proto len ident 0)"
    using hb [of src] hb [of dest] unat_u16_less [of "lwip_htons len"] unat_u16_less [of "lwip_htons ident"] unat_u8_less [of tos]
      unat_u8_less [of ttl] unat_u8_less [of proto]
    by (simp add: t_def ip_header_sum unat_add_u32 low_half unat_drop_bit_u32 make_u16 vhltos(1) del: unat_u16_less unat_u8_less)
  then have c: "NOT (of_nat (oc (unat t))) = chksum_field (ip_header src dest ttl tos proto len ident 0)" by (simp add: chksum_field_le)
  show ?thesis
    unfolding put_iphdr_def Let_def wr8_def rd16_wr16 c [symmetric] inline_fold [of t, unfolded Let_def, symmetric]
    by (simp add: t_def vhltos(2) htons_put wr16_def [of "h + 6"])
qed

lemma put_bytes_iphdr:
  assumes "20 \<le> length d" "length A = 4" "length B = 4"
  shows "put_bytes 10 [x, y] (put_bytes 12 A (put_bytes 4 [i1, i2] (put_bytes 6 [0, 0] (put_bytes 2 [n1, n2] (put_bytes 0 [v, w]
    (put_bytes 16 B (put_bytes 9 [q] (put_bytes 8 [t] d)))))))) = [v, w, n1, n2, i1, i2, 0, 0, t, q, x, y] @ A @ B @ drop 20 d"
proof -
  obtain a1 a2 a3 a4 where A: "A = [a1, a2, a3, a4]" using assms(2) by (auto simp: numeral_eq_Suc length_Suc_conv)
  obtain b1 b2 b3 b4 where B: "B = [b1, b2, b3, b4]" using assms(3) by (auto simp: numeral_eq_Suc length_Suc_conv)
  have "length (take 20 d) = 20" using assms(1) by simp
  then obtain d1 d2 d3 d4 d5 d6 d7 d8 d9 d10 d11 d12 d13 d14 d15 d16 d17 d18 d19 d20 where
    t: "take 20 d = [d1, d2, d3, d4, d5, d6, d7, d8, d9, d10, d11, d12, d13, d14, d15, d16, d17, d18, d19, d20]"
    by (auto simp: numeral_eq_Suc length_Suc_conv simp del: length_take)
  have d: "d = [d1, d2, d3, d4, d5, d6, d7, d8, d9, d10, d11, d12, d13, d14, d15, d16, d17, d18, d19, d20] @ drop 20 d"
    unfolding t [symmetric] by simp
  show ?thesis by (subst d) (simp add: put_bytes_def A B)
qed

lemma put_iphdr_bytes:
  assumes "20 \<le> k" "k \<le> 65536"
  shows "\<exists>c. bytes_at (bytes (put_iphdr h 0 src dest ttl tos proto 20 len ident s)) h k =
      ip_header src dest ttl tos proto len ident c @ drop 20 (bytes_at (bytes s) h k) \<and>
    chksum_field (ip_header src dest ttl tos proto len ident c) = 0"
proof -
  define c where "c = chksum_field (ip_header src dest ttl tos proto len ident 0)"
  have w: "bytes_at (bytes (wr (h + of_nat i) bs m)) h k = put_bytes i bs (bytes_at (bytes m) h k)" if "i + length bs \<le> k" for i bs and m :: lw
    by (rule bytes_at_put [OF that assms(2)])
  have w32: "bytes_at (bytes (wr32 (h + of_nat i) v m)) h k = put_bytes i (addr_octets v) (bytes_at (bytes m) h k)" if "i + 4 \<le> k" for i v and m :: lw
    using w [of i "addr_octets v" m] that by (simp add: wr32_def)
  note ws = w [of 0, simplified] w [of 2, simplified] w [of 4, simplified] w [of 6, simplified] w [of 8, simplified] w [of 9, simplified] w [of 10, simplified]
    w32 [of 12, simplified] w32 [of 16, simplified]
  have "bytes_at (bytes (put_iphdr h 0 src dest ttl tos proto 20 len ident s)) h k =
      ip_header src dest ttl tos proto len ident c @ drop 20 (bytes_at (bytes s) h k)"
    unfolding put_iphdr_eq Let_def wr16_def c_def [symmetric] ip_header_def [of _ _ _ _ _ _ _ c] append_assoc
    using assms(1) by (simp add: ws put_bytes_iphdr)
  moreover have "chksum_field (ip_header src dest ttl tos proto len ident c) = 0"
    using chksum_inserted [of "[0x45, tos, ucast (drop_bit 8 len), ucast len, ucast (drop_bit 8 ident), ucast ident, 0, 0, ttl, proto]" c
      "addr_octets src @ addr_octets dest"] by (simp add: c_def ip_header_def)
  ultimately show ?thesis by blast
qed

lemma put_iphdr_writes: "writes (region h 20) s (put_iphdr h 0 src dest ttl tos proto 20 len ident s)"
proof -
  have r: "writes (region h 20) m (wr (h + of_nat i) bs m)" if "i + length bs \<le> 20" for i bs and m :: lw
    by (rule writes_mono [OF wr_writes region_sub]) (use that in simp_all)
  note rs = r [of 0, simplified] r [of 2, simplified] r [of 4, simplified] r [of 6, simplified] r [of 8, simplified] r [of 9, simplified] r [of 10, simplified]
    r [of 12, simplified] r [of 16, simplified]
  show ?thesis unfolding put_iphdr_eq Let_def wr16_def wr32_def
    by (intro writes_both [OF _ rs(7)] writes_both [OF _ rs(8)] writes_both [OF _ rs(3)] writes_both [OF _ rs(4)] writes_both [OF _ rs(2)]
      writes_both [OF _ rs(1)] writes_both [OF _ rs(9)] writes_both [OF _ rs(6)] rs(5)) simp_all
qed

section \<open>The packet that is sent\<close>

lemma pchain_writes:
  assumes w: "writes (region a n) s s'" and ps: "pchain s p (p # qs)"
    and a: "a = pb_payload s p" "n \<le> unat (pb_len s p)" and d: "region a n \<inter> payloads s qs = {}"
  shows "pchain s' p (p # qs)" "cdata s' (p # qs) = bytes_at (bytes s') a n @ drop n (cdata s (p # qs))"
proof -
  note f = writes_fields [OF w]
  let ?l = "unat (pb_len s p)"
  have l: "?l \<le> 65536" by (simp add: less_imp_le)
  have "region (a + of_nat n) (?l - n) \<inter> region a n = {}" by (rule region_behind) (use l a(2) in simp)
  then have "bytes_at (bytes s') (a + of_nat n) (?l - n) = bytes_at (bytes s) (a + of_nat n) (?l - n)"
    by (intro writes_bytes_at [OF w]) (use l in auto)
  moreover have "bytes_at b a ?l = bytes_at b a n @ bytes_at b (a + of_nat n) (?l - n)" for b
    using bytes_at_append [of b a n "?l - n"] a(2) by simp
  ultimately have p: "pdata s' p = bytes_at (bytes s') a n @ drop n (pdata s p)"
    using a by (simp add: pdata_def f drop_bytes_at)
  have q: "cdata s' qs = cdata s qs" by (rule writes_cdata [OF w d])
  show c: "cdata s' (p # qs) = bytes_at (bytes s') a n @ drop n (cdata s (p # qs))" using p q a(2) by simp
  have len: "length (cdata s' (p # qs)) = length (cdata s (p # qs))" using c a(2) by simp
  have "tot_ok s' qs = tot_ok s qs"
    by (rule tot_ok_cong) (use d in \<open>auto simp: f pdata_def payloads_def less_imp_le intro!: writes_bytes_at [OF w]\<close>)
  then have "tot_ok s' (p # qs)" using ps len by (simp add: pchain_def f)
  then show "pchain s' p (p # qs)" using ps by (simp add: pchain_def f)
qed

lemma ip_output_if_header:
  assumes ps: "pchain (ilw s) p (p # qs)" and ok: "fst (pbuf_header p 20 (ilw s)) = 0"
    and len: "length (cdata (ilw s) (p # qs)) + 20 < 65536"
    and ap: "region (pb_payload (ilw s) p - 20) 20 \<inter> payloads (ilw s) qs = {}"
    and sr: "sr = (if ip_addr_isany src then ip_addr (netifs s nif) else src)"
  shows "\<exists>c m. ip_output_if out p src (Some dest) ttl tos proto nif s =
      ip_send out p dest (netifs s nif) (s\<lparr>ilw := m, ip_id := ip_id s + 1\<rparr>) \<and> pchain m p (p # qs) \<and>
    cdata m (p # qs) = ip_header sr dest ttl tos proto (of_nat (length (cdata (ilw s) (p # qs)) + 20)) (ip_id s) c @ cdata (ilw s) (p # qs) \<and>
    pb_tot_len m p = of_nat (length (cdata (ilw s) (p # qs)) + 20) \<and>
    inet_chksum (pb_payload m p) 20 m = 0 \<and>
    chksum_field (ip_header sr dest ttl tos proto (of_nat (length (cdata (ilw s) (p # qs)) + 20)) (ip_id s) c) = 0"
proof -
  let ?m = "ilw s" and ?n = "of_nat (length (cdata (ilw s) (p # qs)) + 20) :: u16"
  define m1 where "m1 = snd (pbuf_header p 20 ?m)"
  have k: "unat (20 :: u16) < 32768" "length (cdata ?m (p # qs)) + unat (20 :: u16) < 65536" using len by simp_all
  note h = pbuf_header_show [OF ps k ok, folded m1_def]
  let ?a = "pb_payload ?m p - 20"
  define m where "m = put_iphdr ?a 0 sr dest ttl tos proto 20 (pb_tot_len m1 p) (ip_id s) m1"
  have a: "pb_payload m1 p = ?a" "payloads m1 qs = payloads ?m qs"
  proof -
    have "p \<notin> set qs" using ps chain_distinct [of "pb_next ?m" p "p # qs"] by (auto simp: pchain_def)
    then show "payloads m1 qs = payloads ?m qs" unfolding payloads_def by (intro SUP_cong) (auto simp: h(1))
  qed (simp add: h(1))
  have t: "pb_tot_len m1 p = ?n"
  proof -
    have "unat (pb_tot_len m1 p) = length (cdata m1 (p # qs))" using h(2) by (simp add: pchain_def)
    also have "\<dots> = length (cdata ?m (p # qs)) + 20" unfolding h(3) by simp
    finally show ?thesis unfolding word_unat_eq_iff unat_of_nat_u16 [OF len] .
  qed
  have l: "20 \<le> unat (pb_len m1 p)" "unat (pb_len m1 p) \<le> 65536"
  proof -
    have "unat (pb_len ?m p) + unat (20 :: u16) < 2 ^ LENGTH(16)" using len by simp
    then have "unat (pb_len ?m p + 20) = unat (pb_len ?m p) + unat (20 :: u16)" unfolding unat_word_ariths by (rule mod_less)
    then show "20 \<le> unat (pb_len m1 p)" by (simp add: h(1))
  qed (simp add: less_imp_le)
  have w: "writes (region ?a 20) m1 m" unfolding m_def by (rule put_iphdr_writes)
  note pw = pchain_writes [OF w h(2) a(1) [symmetric] l(1) ap [folded a(2)]]
  from put_iphdr_bytes [of 20 ?a sr dest ttl tos proto "pb_tot_len m1 p" "ip_id s" m1] obtain c where
    c: "bytes_at (bytes m) ?a 20 = ip_header sr dest ttl tos proto ?n (ip_id s) c" "chksum_field (ip_header sr dest ttl tos proto ?n (ip_id s) c) = 0"
    by (auto simp: m_def t)
  have "cdata m (p # qs) = ip_header sr dest ttl tos proto ?n (ip_id s) c @ cdata ?m (p # qs)" unfolding pw(2) c(1) h(3) by simp
  moreover have "ip_output_if out p src (Some dest) ttl tos proto nif s = ip_send out p dest (netifs s nif) (s\<lparr>ilw := m, ip_id := ip_id s + 1\<rparr>)"
  proof -
    have "pbuf_header p 20 ?m = (0, m1)" using ok by (simp add: m1_def prod_eq_iff)
    then show ?thesis by (simp add: ip_output_if_def ip_output_if_opt_def m_def a(1) sr)
  qed
  moreover have "pb_tot_len m p = ?n" using t by (simp add: writes_fields [OF w])
  moreover have "inet_chksum (pb_payload m p) 20 m = 0" using c by (simp add: inet_chksum_eq writes_fields [OF w] a(1))
  ultimately show ?thesis using pw(1) c(2) by (intro exI conjI)
qed

text \<open>
  C33: a packet that fits the interface is handed to the output function of the interface as one
  chain with an IP header in front of its data: addresses, length, identification and protocol as asked for,
  the address of the interface for an open source address. The checksum that is computed while
  the header is written passes the check of \<open>inet_chksum\<close>.
\<close>

theorem ip_output_if_packet:
  assumes "pchain (ilw s) p (p # qs)" "fst (pbuf_header p 20 (ilw s)) = 0" "length (cdata (ilw s) (p # qs)) + 20 < 65536"
    and "region (pb_payload (ilw s) p - 20) 20 \<inter> payloads (ilw s) qs = {}"
    and "mtu (netifs s nif) = 0 \<or> length (cdata (ilw s) (p # qs)) + 20 \<le> unat (mtu (netifs s nif))"
  shows "\<exists>c m. ip_output_if out p src (Some dest) ttl tos proto nif s =
      (let (err, m') = out (netifs s nif) p dest m in Some (err, s\<lparr>ilw := m', ip_id := ip_id s + 1\<rparr>)) \<and> pchain m p (p # qs) \<and>
    cdata m (p # qs) = ip_header (if ip_addr_isany src then ip_addr (netifs s nif) else src) dest ttl tos proto
      (of_nat (length (cdata (ilw s) (p # qs)) + 20)) (ip_id s) c @ cdata (ilw s) (p # qs) \<and>
    inet_chksum (pb_payload m p) 20 m = 0"
proof -
  from ip_output_if_header [OF assms(1-4) refl, of out src dest ttl tos proto nif] obtain c m where
    m: "ip_output_if out p src (Some dest) ttl tos proto nif s = ip_send out p dest (netifs s nif) (s\<lparr>ilw := m, ip_id := ip_id s + 1\<rparr>)"
    "pchain m p (p # qs)" "cdata m (p # qs) = ip_header (if ip_addr_isany src then ip_addr (netifs s nif) else src) dest ttl tos proto
      (of_nat (length (cdata (ilw s) (p # qs)) + 20)) (ip_id s) c @ cdata (ilw s) (p # qs)"
    "pb_tot_len m p = of_nat (length (cdata (ilw s) (p # qs)) + 20)" "inet_chksum (pb_payload m p) 20 m = 0" by blast
  have "\<not> (mtu (netifs s nif) \<noteq> 0 \<and> pb_tot_len m p > mtu (netifs s nif))"
    using assms(5) unfolding word_less_nat_alt m(4) unat_of_nat_u16 [OF assms(3)] by auto
  then have "ip_output_if out p src (Some dest) ttl tos proto nif s =
      (let (err, m') = out (netifs s nif) p dest m in Some (err, s\<lparr>ilw := m', ip_id := ip_id s + 1\<rparr>))"
    unfolding m(1) by (auto simp: ip_send_def split: prod.splits)
  then show ?thesis using m(2,3,5) by blast
qed

lemma ip_route_spec:
  assumes "chain (netif_next s) (netif_list s) ns"
  shows "ip_route dest s = Some (case find (\<lambda>n. netif_is_up (netifs s n) \<and> ip_addr_netcmp dest (ip_addr (netifs s n)) (netmask (netifs s n))) ns of
    Some n \<Rightarrow> n | None \<Rightarrow> if netif_default s \<noteq> NULL \<and> netif_is_up (netifs s (netif_default s)) then netif_default s else NULL)"
proof -
  let ?P = "\<lambda>n. netif_is_up (netifs s n) \<and> ip_addr_netcmp dest (ip_addr (netifs s n)) (netmask (netifs s n))"
  have l: "route_loop s dest q = Some (case find ?P ns of Some n \<Rightarrow> n | None \<Rightarrow> NULL)" if "chain (netif_next s) q ns" for q ns
    using that by (induction ns arbitrary: q) (subst route_loop.simps, auto)+
  have "find ?P ns = Some n \<Longrightarrow> n \<noteq> NULL" for n using chain_nonnull [OF assms] by (auto simp: find_Some_iff)
  then show ?thesis unfolding ip_route_def l [OF assms] by (auto split: option.splits)
qed

text \<open>A packet of 8 bytes in front of which there is room for headers, and one interface.\<close>

definition smp_if :: netif where
  "smp_if = \<lparr>ip_addr = 0x0200A8C0, netmask = 0x00FFFFFF, gw = 0x0100A8C0, mtu = 1500, hwaddr = [2, 0, 0, 0, 0, 1], netif_flags = 0x33\<rparr>"

definition smp_ip :: ipst where
  "smp_ip = smp_frags\<lparr>ilw := (ilw smp_frags)\<lparr>pb_payload := (\<lambda>x. x + 0x100), pb_len := (\<lambda>_. 8), pb_tot_len := (\<lambda>_. 8)\<rparr>,
     netifs := (\<lambda>_. smp_if), netif_list := 0x10, netif_default := 0x10\<rparr>"

theorem ip_output_if_packet_witness:
  "\<exists>c m. ip_output_if (\<lambda>nif p dest m. (0, m)) 0x1000 0 (Some 0x0500A8C0) 255 0 17 0x10 smp_ip = Some (0, smp_ip\<lparr>ilw := m, ip_id := 1\<rparr>) \<and> pchain m 0x1000 [0x1000] \<and>
    cdata m [0x1000] = ip_header 0x0200A8C0 0x0500A8C0 255 0 17 28 0 c @ cdata (ilw smp_ip) [0x1000] \<and> inet_chksum (pb_payload m 0x1000) 20 m = 0"
proof -
  have "pchain (ilw smp_ip) 0x1000 [0x1000]" "fst (pbuf_header 0x1000 20 (ilw smp_ip)) = 0" "length (cdata (ilw smp_ip) [0x1000]) = 8"
    by (simp_all add: pchain_def smp_ip_def smp_frags_def pbuf_header_def SIZEOF_STRUCT_PBUF_def pdata_def)
  from ip_output_if_packet [OF this(1,2), of "0x10" "\<lambda>nif p dest m. (0, m)" 0 "0x0500A8C0" 255 0 17] this(3) show ?thesis
    by (simp add: smp_ip_def smp_frags_def smp_if_def ip_addr_isany_def payloads_def)
qed

end
