(* ===== verification/LW_Icmp.thy ===== *)
theory LW_Icmp
  imports LW_Ip
begin

text \<open>
  ICMP: \<open>icmp.c\<close>, in the configuration that answers broadcast pings but no multicast ones and checks
  whether a request has room for the headers of the answer. What happened to the packet of an answer is
  with the interface, whose output function is a parameter.
\<close>

abbreviation (input) ICMP_ER :: u8 where "ICMP_ER \<equiv> 0"
abbreviation (input) ICMP_DUR :: u8 where "ICMP_DUR \<equiv> 3"
abbreviation (input) ICMP_ECHO :: u8 where "ICMP_ECHO \<equiv> 8"
abbreviation (input) ICMP_TE :: u8 where "ICMP_TE \<equiv> 11"
abbreviation (input) ICMP_TTL :: u8 where "ICMP_TTL \<equiv> 255"
abbreviation (input) ICMP_TE_FRAG :: u8 where "ICMP_TE_FRAG \<equiv> 1"
abbreviation (input) ICMP_DUR_PROTO :: u8 where "ICMP_DUR_PROTO \<equiv> 2"
abbreviation (input) ICMP_DUR_PORT :: u8 where "ICMP_DUR_PORT \<equiv> 3"

section \<open>Error messages\<close>

definition free_packet :: "ptr \<Rightarrow> ipst \<Rightarrow> ipst option" where
  "free_packet p s = pbuf_free p (ilw s) \<bind> (\<lambda>(_, m). Some (s\<lparr>ilw := m\<rparr>))"

definition put_icmp_error :: "ptr \<Rightarrow> ptr \<Rightarrow> u8 \<Rightarrow> u8 \<Rightarrow> u16 \<Rightarrow> lw \<Rightarrow> lw" where
  "put_icmp_error icmphdr orig type code len m =
     (let m = wr8 icmphdr type m;
          m = wr8 (icmphdr + 1) code m;
          m = wr16 (icmphdr + 4) 0 m;
          m = wr16 (icmphdr + 6) 0 m;
          m = memcpy (icmphdr + 8) orig 28 m;
          m = wr16 (icmphdr + 2) 0 m
      in wr16 (icmphdr + 2) (inet_chksum icmphdr len m) m)"

definition icmp_send_response :: "netif_out \<Rightarrow> ptr \<Rightarrow> u8 \<Rightarrow> u8 \<Rightarrow> ipst \<Rightarrow> ipst option" where
  "icmp_send_response out p type code s = do {
     (q, m) \<leftarrow> pbuf_alloc PBUF_IP (8 + IP_HLEN + 8) PBUF_RAM (ilw s);
     if q = NULL then Some (s\<lparr>ilw := m\<rparr>)
     else do {
       let m = put_icmp_error (pb_payload m q) (pb_payload m p) type code (pb_len m q) m;
       (_, s) \<leftarrow> ip_output out q IPADDR_ANY (IPH_SRC (bytes m) (pb_payload m p)) ICMP_TTL 0 IP_PROTO_ICMP (s\<lparr>ilw := m\<rparr>);
       free_packet q s } }"

definition icmp_dest_unreach :: "netif_out \<Rightarrow> ptr \<Rightarrow> u8 \<Rightarrow> ipst \<Rightarrow> ipst option" where
  "icmp_dest_unreach out p t s = icmp_send_response out p ICMP_DUR t s"

definition icmp_time_exceeded :: "netif_out \<Rightarrow> ptr \<Rightarrow> u8 \<Rightarrow> ipst \<Rightarrow> ipst option" where
  "icmp_time_exceeded out p t s = icmp_send_response out p ICMP_TE t s"

section \<open>Answers to echo requests\<close>

text \<open>
  A buffer with room for the headers in front of the message: the packet itself or a copy of it. The
  value is \<open>None\<close> inside if there is no memory; the IP header of a copy is that of the copy.
\<close>

definition echo_buffer :: "ptr \<Rightarrow> ptr \<Rightarrow> u16 \<Rightarrow> lw \<Rightarrow> ((ptr \<times> ptr) option \<times> lw) option" where
  "echo_buffer p iphdr hlen m =
     (case pbuf_header p (20 + 14) m of (full, m) \<Rightarrow>
      if full \<noteq> 0 then
        case pbuf_header p hlen m of (full, m) \<Rightarrow>
        if full \<noteq> 0 then Some (None, m)
        else do {
          (r, m) \<leftarrow> pbuf_alloc PBUF_LINK (pb_tot_len m p) PBUF_RAM m;
          if r = NULL then Some (None, m)
          else do {
            (err, m) \<leftarrow> pbuf_copy r p m;
            if err \<noteq> ERR_OK then Some (None, m)
            else do {
              let iphdr = pb_payload m r;
              case pbuf_header r (- hlen) m of (full, m) \<Rightarrow>
              if full \<noteq> 0 then Some (None, m)
              else do {
                (_, m) \<leftarrow> pbuf_free p m;
                Some (Some (r, iphdr), m) } } } }
      else
        case pbuf_header p (- (20 + 14)) m of (full, m) \<Rightarrow>
        if full \<noteq> 0 then Some (None, m) else Some (Some (p, iphdr), m))"

definition echo_chksum :: "u16 \<Rightarrow> u16" where
  "echo_chksum c = (if c \<ge> lwip_htons (0xffff - push_bit 8 (ucast ICMP_ECHO)) then c + (lwip_htons (push_bit 8 (ucast ICMP_ECHO)) + 1)
     else c + lwip_htons (push_bit 8 (ucast ICMP_ECHO)))"

definition put_echo_reply :: "ptr \<Rightarrow> ptr \<Rightarrow> u32 \<Rightarrow> u32 \<Rightarrow> lw \<Rightarrow> lw" where
  "put_echo_reply iphdr iecho src dest m =
     (let m = wr32 (iphdr + 12) dest m;
          m = wr32 (iphdr + 16) src m;
          m = wr8 iecho ICMP_ER m;
          m = wr16 (iecho + 2) (echo_chksum (rd16 (bytes m) (iecho + 2))) m;
          m = wr8 (iphdr + 8) ICMP_TTL m;
          m = wr16 (iphdr + 10) 0 m
      in wr16 (iphdr + 10) (inet_chksum iphdr IP_HLEN m) m)"

definition icmp_echo :: "netif_out \<Rightarrow> ptr \<Rightarrow> ptr \<Rightarrow> ptr \<Rightarrow> u16 \<Rightarrow> ipst \<Rightarrow> ipst option" where
  "icmp_echo out p inp iphdr hlen s =
     (if ip_addr_ismulticast (current_iphdr_dest s) then free_packet p s
      else if pb_tot_len (ilw s) p < 8 then free_packet p s
      else do {
        c \<leftarrow> inet_chksum_pbuf p (ilw s);
        if c \<noteq> 0 then free_packet p s
        else do {
          (b, m) \<leftarrow> echo_buffer p iphdr hlen (ilw s);
          case b of
            None \<Rightarrow> free_packet p (s\<lparr>ilw := m\<rparr>)
          | Some (p, iphdr) \<Rightarrow>
              let m = put_echo_reply iphdr (pb_payload m p) (current_iphdr_src s) (current_iphdr_dest s) m in
              case pbuf_header p hlen m of (full, m) \<Rightarrow>
              if full \<noteq> 0 then free_packet p (s\<lparr>ilw := m\<rparr>)
              else ip_output_if out p (current_iphdr_dest s) None ICMP_TTL 0 IP_PROTO_ICMP inp (s\<lparr>ilw := m\<rparr>) \<bind> (\<lambda>(_, s). free_packet p s) } })"

definition icmp_input :: "netif_out \<Rightarrow> ptr \<Rightarrow> ptr \<Rightarrow> ipst \<Rightarrow> ipst option" where
  "icmp_input out p inp s =
     (let iphdr = pb_payload (ilw s) p;
          hlen = IPH_HL (bytes (ilw s)) iphdr * 4;
          (full, m) = pbuf_header p (- hlen) (ilw s);
          s = s\<lparr>ilw := m\<rparr> in
      if full \<noteq> 0 \<or> pb_tot_len m p < 4 then free_packet p s
      else
        let type = bytes m (pb_payload m p) in
        if type = ICMP_ECHO then icmp_echo out p inp iphdr hlen s else free_packet p s)"

section \<open>The checksum of the answer\<close>

lemma echo_chksum_eq: "echo_chksum c = (if 0xfff7 \<le> c then c + 9 else c + 8)"
  by (simp add: echo_chksum_def lwip_htons_def)

text \<open>
  The checksum is adapted to the changed type without looking at the data. The answer passes the
  check of its receiver unless it is zero all over.
\<close>

lemma unat_echo_chksum: "unat (echo_chksum v) = (if unat v < 0xfff7 then unat v + 8 else unat v + 8 - 65535)"
proof (cases "unat v < 0xfff7")
  case True
  then have "\<not> 0xfff7 \<le> v" "unat v + unat (8 :: u16) < 2 ^ LENGTH(16)" by (simp_all add: word_le_nat_alt)
  then show ?thesis using True unfolding echo_chksum_eq by (simp add: unat_word_ariths)
next
  case False
  then have "0xfff7 \<le> v" "65536 \<le> unat v + 9" "unat v + 9 < 2 * 65536" using unat_u16_less [of v]
    by (simp_all add: word_le_nat_alt del: unat_u16_less)
  moreover from this have "(unat v + 9) mod 65536 = unat v + 9 - 65536" by (simp add: mod_if)
  ultimately show ?thesis using False unfolding echo_chksum_eq by (simp add: unat_word_ariths)
qed

lemma echo_reply_chksum:
  assumes "chksum_field ([8, code, ucast v, ucast (drop_bit 8 v)] @ R) = 0"
    and "[code, ucast (echo_chksum v), ucast (drop_bit 8 (echo_chksum v))] @ R \<noteq> replicate (length R + 3) 0"
  shows "chksum_field ([0, code, ucast (echo_chksum v), ucast (drop_bit 8 (echo_chksum v))] @ R) = 0"
proof -
  let ?D = "[8, code, ucast v, ucast (drop_bit 8 v)] @ R" and ?E = "[0, code, ucast (echo_chksum v), ucast (drop_bit 8 (echo_chksum v))] @ R"
  have D: "le_sum ?D = 8 + 256 * unat code + unat v + le_sum R" using word_parts [of v] by simp
  have E: "le_sum ?E = 256 * unat code + unat (echo_chksum v) + le_sum R" using word_parts [of "echo_chksum v"] by simp
  have "le_sum ?E \<noteq> 0"
  proof
    assume "le_sum ?E = 0"
    then have "\<forall>x\<in>set ?E. x = 0" by (simp only: sum_eq_0)
    then have "?E = replicate (length ?E) 0" by (metis replicate_eqI)
    then show False using assms(2) by (simp add: numeral_eq_Suc)
  qed
  moreover have "le_sum ?E mod 65535 = le_sum ?D mod 65535"
  proof (cases "unat v < 0xfff7")
    case True
    then show ?thesis unfolding D E unat_echo_chksum by (simp add: ac_simps)
  next
    case False
    then have "le_sum ?D = le_sum ?E + 65535" unfolding D E unat_echo_chksum by simp
    then show ?thesis by (simp only: mod_add_self2)
  qed
  moreover have "le_sum ?D \<noteq> 0" unfolding D by simp
  ultimately have "oc (le_sum ?E) = oc (le_sum ?D)" by (intro oc_cong) auto
  then show ?thesis using assms(1) unfolding chksum_field_0 by simp
qed

lemma echo_reply_chksum_eq:
  assumes "chksum_field ([8, code, ucast v, ucast (drop_bit 8 v)] @ R) = 0"
  defines "reply \<equiv> [0, code, ucast (echo_chksum v), ucast (drop_bit 8 (echo_chksum v))] @ R"
  shows "chksum_field reply = (if reply = replicate (length reply) 0 then 0xffff else 0)"
proof (cases "reply = replicate (length reply) 0")
  case True
  have "le_sum reply = 0" unfolding sum_eq_0 by (subst True) simp
  then show ?thesis using True by (simp add: chksum_field_le oc_def)
next
  case False
  then show ?thesis using echo_reply_chksum [OF assms(1)] by (auto simp: reply_def numeral_eq_Suc)
qed

text \<open>An empty echo request with identifier and sequence number 0 gets an answer that its receiver throws away.\<close>

lemma empty_echo_reply_refused:
  "chksum_field [8, 0, 0xf7, 0xff, 0, 0, 0, 0] = 0" "echo_chksum 0xfff7 = 0" "chksum_field [0, 0, 0, 0, 0, 0, 0, 0] = 0xffff"
  by (simp_all add: chksum_field_le oc_def echo_chksum_eq)

section \<open>The answer\<close>

lemma rd16_at: "b a = ucast v \<Longrightarrow> b (a + 1) = ucast (drop_bit 8 v) \<Longrightarrow> rd16 b a = v"
  using word_parts [of v] by (simp add: word_unat_eq_iff unat_rd16)

lemma put_bytes_echo:
  assumes "length H = 20" "length A = 4" "length B = 4"
  shows "put_bytes 10 [x, y] (put_bytes 8 [t] (put_bytes 22 [c1, c2] (put_bytes 20 [0] (put_bytes 16 B (put_bytes 12 A
      (H @ [a, code, b, c] @ R)))))) = (take 8 H @ [t, H ! 9, x, y] @ A @ B) @ [0, code, c1, c2] @ R"
proof -
  obtain a1 a2 a3 a4 where A: "A = [a1, a2, a3, a4]" using assms(2) by (auto simp: numeral_eq_Suc length_Suc_conv)
  obtain b1 b2 b3 b4 where B: "B = [b1, b2, b3, b4]" using assms(3) by (auto simp: numeral_eq_Suc length_Suc_conv)
  obtain d1 d2 d3 d4 d5 d6 d7 d8 d9 d10 d11 d12 d13 d14 d15 d16 d17 d18 d19 d20 where
    H: "H = [d1, d2, d3, d4, d5, d6, d7, d8, d9, d10, d11, d12, d13, d14, d15, d16, d17, d18, d19, d20]"
    using assms(1) by (auto simp: numeral_eq_Suc length_Suc_conv)
  show ?thesis by (simp add: put_bytes_def A B H)
qed

definition reply_header :: "u8 list \<Rightarrow> u32 \<Rightarrow> u32 \<Rightarrow> u16 \<Rightarrow> u8 list" where
  "reply_header H src dest c = take 8 H @ [ICMP_TTL, H ! 9, ucast c, ucast (drop_bit 8 c)] @ addr_octets dest @ addr_octets src"

lemma put_echo_reply_bytes:
  assumes d: "bytes_at (bytes m) h k = H @ [8, code, ucast v, ucast (drop_bit 8 v)] @ R" "length H = 20" "k \<le> 65536"
  shows "\<exists>c. bytes_at (bytes (put_echo_reply h (h + 20) src dest m)) h k =
      reply_header H src dest c @ [0, code, ucast (echo_chksum v), ucast (drop_bit 8 (echo_chksum v))] @ R \<and>
    chksum_field (reply_header H src dest c) = 0"
proof -
  have "length (bytes_at (bytes m) h k) = 24 + length R" unfolding d(1) using d(2) by simp
  then have k: "24 \<le> k" by simp
  have w: "bytes_at (bytes (wr (h + of_nat i) bs s)) h k = put_bytes i bs (bytes_at (bytes s) h k)" if "i + length bs \<le> k" for i bs and s :: lw
    by (rule bytes_at_put [OF that d(3)])
  have w32: "bytes_at (bytes (wr32 (h + of_nat i) x s)) h k = put_bytes i (addr_octets x) (bytes_at (bytes s) h k)" if "i + 4 \<le> k" for i x and s :: lw
    using w [of i "addr_octets x" s] that by (simp add: wr32_def)
  note ws = w [of 8, simplified] w [of 10, simplified] w [of 20, simplified] w [of 22, simplified] w32 [of 12, simplified] w32 [of 16, simplified]
  define m1 where "m1 = wr8 (h + 20) 0 (wr32 (h + 16) src (wr32 (h + 12) dest m))"
  have m1: "bytes_at (bytes m1) h k = put_bytes 20 [0] (put_bytes 16 (addr_octets src) (put_bytes 12 (addr_octets dest)
      (H @ [8, code, ucast v, ucast (drop_bit 8 v)] @ R)))" using k by (simp add: m1_def wr8_def ws d(1))
  have "bytes m1 (h + of_nat i) = bytes_at (bytes m1) h k ! i" if "i < k" for i using that by simp
  from this [of 22] this [of 23] k have r: "bytes m1 (h + 22) = ucast v" "bytes m1 (h + 23) = ucast (drop_bit 8 v)"
    unfolding m1 using d(2) by (simp_all add: put_bytes_def nth_append)
  have rd: "rd16 (bytes m1) (h + 22) = v" by (rule rd16_at) (use r in \<open>simp_all add: add.assoc\<close>)
  define m2 where "m2 = wr16 (h + 10) 0 (wr8 (h + 8) ICMP_TTL (wr16 (h + 22) (echo_chksum v) m1))"
  define c where "c = inet_chksum h 20 m2"
  have m2: "bytes_at (bytes m2) h k = reply_header H src dest 0 @ [0, code, ucast (echo_chksum v), ucast (drop_bit 8 (echo_chksum v))] @ R"
    using k d(2) by (simp add: m2_def wr8_def wr16_def ws m1 put_bytes_echo [simplified] reply_header_def)
  have e: "bytes_at (bytes m2) h 20 = reply_header H src dest 0"
    using bytes_at_sub [of 0 20 k "bytes m2" h] k d(2) unfolding m2 by (simp add: reply_header_def)
  have "bytes_at (bytes (wr16 (h + 10) c m2)) h k =
      reply_header H src dest c @ [0, code, ucast (echo_chksum v), ucast (drop_bit 8 (echo_chksum v))] @ R"
    using k d(2) by (simp add: wr16_def ws m2 put_bytes_def reply_header_def)
  moreover have "chksum_field (reply_header H src dest c) = 0"
    using chksum_inserted [of "take 8 H @ [ICMP_TTL, H ! 9]" c "addr_octets dest @ addr_octets src"] d(2)
    by (simp add: c_def inet_chksum_eq e reply_header_def)
  moreover have "put_echo_reply h (h + 20) src dest m = wr16 (h + 10) c m2"
    by (simp add: put_echo_reply_def Let_def m1_def [symmetric] rd add.assoc c_def m2_def)
  ultimately show ?thesis by auto
qed

lemma rd32_at:
  assumes "bytes_at b a 4 = addr_octets v"
  shows "rd32 b a = v"
proof -
  have "b (a + of_nat i) = addr_octets v ! i" if "i < 4" for i using arg_cong [OF assms, of "\<lambda>l. l ! i"] that by simp
  from this [of 0] this [of 1] this [of 2] this [of 3] show ?thesis
    using rd32_wr32 [of a v undefined] by (simp add: rd32_def rd16_def wr32_def wr_def addr_octets_def add.assoc)
qed

text \<open>Moving the payload of a buffer with its own memory, and what the answer needs of the room in front.\<close>

lemma pbuf_header_own:
  assumes "p \<noteq> NULL" "pb_type m p = PBUF_RAM \<or> pb_type m p = PBUF_POOL" "inc \<noteq> 0" "sint inc < 0 \<Longrightarrow> - inc \<le> pb_len m p"
    and "p + ucast SIZEOF_STRUCT_PBUF \<le> pb_payload m p - scast inc"
  shows "pbuf_header p inc m = (0, m\<lparr>pb_payload := (pb_payload m)(p := pb_payload m p - scast inc),
    pb_len := (pb_len m)(p := pb_len m p + inc), pb_tot_len := (pb_tot_len m)(p := pb_tot_len m p + inc)\<rparr>)"
  using assms by (auto simp: pbuf_header_def Let_def not_less)

lemma wr_frame:
  "wr a bs (m\<lparr>pb_payload := x, pb_len := y, pb_tot_len := z\<rparr>) = (wr a bs m)\<lparr>pb_payload := x, pb_len := y, pb_tot_len := z\<rparr>"
  by (cases m) (simp add: wr_def cong: if_cong)

lemma put_echo_reply_frame:
  "put_echo_reply h e src dest (m\<lparr>pb_payload := x, pb_len := y, pb_tot_len := z\<rparr>) =
     (put_echo_reply h e src dest m)\<lparr>pb_payload := x, pb_len := y, pb_tot_len := z\<rparr>"
  by (simp add: put_echo_reply_def Let_def wr_frame wr8_def wr16_def wr32_def inet_chksum_def)

lemma put_echo_reply_writes: "writes (region h 24) m (put_echo_reply h (h + 20) src dest m)"
proof -
  have r: "writes (region h 24) s (wr (h + of_nat i) bs s)" if "i + length bs \<le> 24" for i bs and s :: lw
    by (rule writes_mono [OF wr_writes region_sub]) (use that in simp_all)
  note rs = r [of 8, simplified] r [of 10, simplified] r [of 12, simplified] r [of 16, simplified] r [of 20, simplified] r [of 22, simplified]
  have e: "h + 20 + 2 = h + 22" by simp
  show ?thesis unfolding put_echo_reply_def Let_def wr16_def wr32_def wr8_def e
    by (intro writes_both [OF _ rs(2)] writes_both [OF _ rs(1)] writes_both [OF _ rs(6)] writes_both [OF _ rs(5)] writes_both [OF _ rs(4)] rs(3))
      simp_all
qed

lemma echo_buffer_room:
  assumes "p \<noteq> NULL" "pb_type m p = PBUF_RAM \<or> pb_type m p = PBUF_POOL"
    and "p + ucast SIZEOF_STRUCT_PBUF \<le> pb_payload m p - 34" "p + ucast SIZEOF_STRUCT_PBUF \<le> pb_payload m p" "unat (pb_len m p) + 34 < 65536"
  shows "echo_buffer p iphdr hlen m = Some (Some (p, iphdr), m)"
proof -
  let ?m = "m\<lparr>pb_payload := (pb_payload m)(p := pb_payload m p - 34), pb_len := (pb_len m)(p := pb_len m p + 34),
    pb_tot_len := (pb_tot_len m)(p := pb_tot_len m p + 34)\<rparr>"
  have "unat (pb_len m p + 34) = unat (pb_len m p) + 34" using assms(5) by (simp add: unat_word_ariths)
  then have "34 \<le> pb_len m p + 34" by (simp add: word_le_nat_alt)
  moreover have "pbuf_header p (20 + 14) m = (0, ?m)" using pbuf_header_own [OF assms(1,2), of 34] assms(3) by simp
  moreover have "pbuf_header p (- (20 + 14)) ?m = (0, m)"
    using pbuf_header_own [of p ?m "- 34"] assms(1,2,4) \<open>34 \<le> pb_len m p + 34\<close> by simp
  ultimately show ?thesis by (simp add: echo_buffer_def)
qed

text \<open>The first buffer of a chain whose data begins with a header that it holds.\<close>

lemma first_buffer:
  assumes "cdata s (p # qs) = A @ B" "length A \<le> unat (pb_len s p)"
  shows "\<exists>R. pdata s p = A @ R \<and> B = R @ cdata s qs"
proof -
  have "A @ B = pdata s p @ cdata s qs" using assms(1) by simp
  then show ?thesis using assms(2) by (auto simp: append_eq_append_conv2)
qed

lemma icmp_echo_spec:
  assumes ps: "pchain (ilw s) p (p # qs)" and d: "cdata (ilw s) (p # qs) = H @ [8, code, ucast v, ucast (drop_bit 8 v)] @ R" "length H = 20" "4 \<le> length R"
    and hl: "IPH_HL (bytes (ilw s)) (pb_payload (ilw s) p) = 5" and len: "24 \<le> pb_len (ilw s) p" "length (cdata (ilw s) (p # qs)) + 14 < 65536"
    and ty: "pb_type (ilw s) p = PBUF_RAM \<or> pb_type (ilw s) p = PBUF_POOL"
    and room: "p + 16 \<le> pb_payload (ilw s) p - 14" "p + 16 \<le> pb_payload (ilw s) p" "p + 16 \<le> pb_payload (ilw s) p + 20"
    and ap: "region (pb_payload (ilw s) p) 24 \<inter> payloads (ilw s) qs = {}"
    and chk: "chksum_field ([8, code, ucast v, ucast (drop_bit 8 v)] @ R) = 0" and un: "\<not> ip_addr_ismulticast (current_iphdr_dest s)"
  shows "\<exists>c m. icmp_input out p inp s = (ip_send out p (current_iphdr_src s) (netifs s inp) (s\<lparr>ilw := m\<rparr>) \<bind> (\<lambda>(_, s). free_packet p s)) \<and>
    pchain m p (p # qs) \<and> pb_tot_len m p = pb_tot_len (ilw s) p \<and>
    cdata m (p # qs) = reply_header H (current_iphdr_src s) (current_iphdr_dest s) c @
      [0, code, ucast (echo_chksum v), ucast (drop_bit 8 (echo_chksum v))] @ R \<and>
    chksum_field (reply_header H (current_iphdr_src s) (current_iphdr_dest s) c) = 0"
proof -
  let ?m = "ilw s" and ?h = "pb_payload (ilw s) p"
  define m4 where "m4 = put_echo_reply ?h (?h + 20) (current_iphdr_src s) (current_iphdr_dest s) ?m"
  have p: "p \<noteq> NULL" using ps by (auto simp: pchain_def)
  let ?hide = "\<lambda>m. m\<lparr>pb_payload := (pb_payload ?m)(p := ?h + 20), pb_len := (pb_len ?m)(p := pb_len ?m p - 20),
    pb_tot_len := (pb_tot_len ?m)(p := pb_tot_len ?m p - 20)\<rparr>"
  have l: "24 \<le> unat (pb_len ?m p)" "20 \<le> pb_len ?m p" using len(1) by (simp_all add: word_le_nat_alt)
  have "(scast (- 20 :: u16) :: u32) = - 20" by simp
  then have hide: "pbuf_header p (- 20) ?m = (0, ?hide ?m)"
    using pbuf_header_own [OF p ty, of "- 20"] l(2) room(3) by (simp add: SIZEOF_STRUCT_PBUF_def)
  let ?m1 = "?hide ?m"
  have hd: "pchain ?m1 p (p # qs)" "cdata ?m1 (p # qs) = drop 20 (cdata ?m (p # qs))"
    using pbuf_header_hide(2,3) [OF ps l(2)] unfolding hide by simp_all
  have k: "unat (pb_len ?m p) + 14 < 65536" using len(2) by simp
  have l1: "unat (pb_len ?m p - 20) = unat (pb_len ?m p) - 20" using unat_diff_u16 [OF l(2)] by simp
  have buf: "echo_buffer p ?h 20 ?m1 = Some (Some (p, ?h), ?m1)"
  proof (rule echo_buffer_room)
    show "p + ucast SIZEOF_STRUCT_PBUF \<le> pb_payload ?m1 p - 34" using room(1) by (simp add: SIZEOF_STRUCT_PBUF_def)
    show "p + ucast SIZEOF_STRUCT_PBUF \<le> pb_payload ?m1 p" using room(3) by (simp add: SIZEOF_STRUCT_PBUF_def)
    show "unat (pb_len ?m1 p) + 34 < 65536" using k l1 l(1) by simp
  qed (use p ty in simp_all)
  have rep: "put_echo_reply ?h (?h + 20) (current_iphdr_src s) (current_iphdr_dest s) ?m1 = ?hide m4"
    unfolding m4_def by (rule put_echo_reply_frame)
  have w: "writes (region ?h 24) ?m m4" unfolding m4_def by (rule put_echo_reply_writes)
  note f = writes_fields [OF w]
  have unhide: "pbuf_header p 20 (?hide m4) = (0, m4)"
  proof -
    have t: "pb_type m4 = pb_type ?m" using w by (auto simp: writes_def)
    have "(?hide m4)\<lparr>pb_payload := pb_payload m4, pb_len := pb_len m4, pb_tot_len := pb_tot_len m4\<rparr> = m4" by (cases m4) simp
    then show ?thesis using pbuf_header_own [OF p, of "?hide m4" 20] t ty room(2) by (simp add: SIZEOF_STRUCT_PBUF_def f)
  qed
  from first_buffer [of ?m p qs "H @ [8, code, ucast v, ucast (drop_bit 8 v)]" R] obtain R1 where
    R1: "pdata ?m p = (H @ [8, code, ucast v, ucast (drop_bit 8 v)]) @ R1" "R = R1 @ cdata ?m qs" using d l(1) by auto
  from put_echo_reply_bytes [of ?m ?h "unat (pb_len ?m p)" H code v R1 "current_iphdr_src s" "current_iphdr_dest s", folded m4_def] obtain c where
    c: "pdata m4 p = reply_header H (current_iphdr_src s) (current_iphdr_dest s) c @ [0, code, ucast (echo_chksum v), ucast (drop_bit 8 (echo_chksum v))] @ R1"
    "chksum_field (reply_header H (current_iphdr_src s) (current_iphdr_dest s) c) = 0" using R1(1) d(2) by (auto simp: pdata_def f less_imp_le)
  have d4: "cdata m4 (p # qs) = reply_header H (current_iphdr_src s) (current_iphdr_dest s) c @
      [0, code, ucast (echo_chksum v), ucast (drop_bit 8 (echo_chksum v))] @ R"
    using writes_cdata [OF w ap] c(1) R1(2) by simp
  have pc: "pchain m4 p (p # qs)" by (rule pchain_writes [OF w ps refl l(1) ap])
  have dest: "IPH_DEST (bytes m4) ?h = current_iphdr_src s"
  proof -
    have "bytes_at (bytes m4) (?h + 16) 4 = take 4 (drop 16 (pdata m4 p))"
      using bytes_at_sub [of 16 4 "unat (pb_len ?m p)" "bytes m4" ?h] l(1) by (simp add: pdata_def f)
    also have "\<dots> = addr_octets (current_iphdr_src s)" unfolding c(1) using d(2) by (simp add: reply_header_def)
    finally show ?thesis unfolding IPH_DEST_def by (rule rd32_at)
  qed
  have type: "bytes ?m (?h + 20) = 8"
  proof -
    have "bytes ?m (?h + of_nat 20) = pdata ?m p ! 20" using l(1) by (simp add: pdata_def)
    also have "\<dots> = 8" unfolding R1(1) using d(2) by (simp add: nth_append)
    finally show ?thesis by simp
  qed
  have tot: "\<not> pb_tot_len ?m p - 20 < 4" "\<not> pb_tot_len ?m p - 20 < 8"
  proof -
    have "unat (pb_tot_len ?m p) = 24 + length R" using pchain_len [OF ps] unfolding d(1) using d(2) by simp
    moreover from this have "20 \<le> pb_tot_len ?m p" by (simp add: word_le_nat_alt)
    ultimately show "\<not> pb_tot_len ?m p - 20 < 4" "\<not> pb_tot_len ?m p - 20 < 8"
      using unat_diff_u16 [of 20 "pb_tot_len ?m p"] d(3) by (simp_all add: word_less_nat_alt)
  qed
  have sum: "inet_chksum_pbuf p ?m1 = Some 0"
  proof -
    have "cdata ?m1 (p # qs) = [8, code, ucast v, ucast (drop_bit 8 v)] @ R" unfolding hd(2) d(1) using d(2) by simp
    moreover have "chain (pb_next ?m1) p (p # qs)" using hd(1) by (simp only: pchain_def)
    ultimately show ?thesis using inet_chksum_pbuf_eqs(1) [of ?m1 p "p # qs"] chk by (simp only:)
  qed
  have "icmp_input out p inp s = (ip_send out p (current_iphdr_src s) (netifs s inp) (s\<lparr>ilw := m4\<rparr>) \<bind> (\<lambda>(_, s). free_packet p s))"
    using hide buf rep unhide type tot un sum dest
    by (simp add: icmp_input_def hl icmp_echo_def ip_output_if_def ip_output_if_opt_def f)
  then show ?thesis using pc d4 c(2) f(4) by (intro exI [of _ c] exI [of _ m4]) simp
qed

lemma icmp_echo_released:
  assumes ps: "pchain (ilw s) p (p # qs)" and d: "cdata (ilw s) (p # qs) = H @ [8, code, ucast v, ucast (drop_bit 8 v)] @ R" "length H = 20"
    and hl: "IPH_HL (bytes (ilw s)) (pb_payload (ilw s) p) = 5" and len: "24 \<le> pb_len (ilw s) p"
    and ty: "pb_type (ilw s) p = PBUF_RAM \<or> pb_type (ilw s) p = PBUF_POOL" and room: "p + 16 \<le> pb_payload (ilw s) p + 20"
    and no: "ip_addr_ismulticast (current_iphdr_dest s) \<or> length R < 4 \<or> chksum_field ([8, code, ucast v, ucast (drop_bit 8 v)] @ R) \<noteq> 0"
  shows "icmp_input out p inp s = free_packet p (s\<lparr>ilw := snd (pbuf_header p (- 20) (ilw s))\<rparr>)"
proof -
  let ?m = "ilw s" and ?h = "pb_payload (ilw s) p"
  define m where "m = snd (pbuf_header p (- 20) ?m)"
  have p: "p \<noteq> NULL" using ps by (auto simp: pchain_def)
  have l: "24 \<le> unat (pb_len ?m p)" "20 \<le> pb_len ?m p" using len by (simp_all add: word_le_nat_alt)
  have "(scast (- 20 :: u16) :: u32) = - 20" by simp
  then have hide: "pbuf_header p (- 20) ?m = (0, m)" and m: "bytes m = bytes ?m" "pb_payload m p = ?h + 20" "pb_tot_len m p = pb_tot_len ?m p - 20"
    using pbuf_header_own [OF p ty, of "- 20"] l(2) room by (simp_all add: m_def SIZEOF_STRUCT_PBUF_def)
  have hd: "pchain m p (p # qs)" "cdata m (p # qs) = drop 20 (cdata ?m (p # qs))"
    using pbuf_header_hide(2,3) [OF ps l(2)] unfolding hide by simp_all
  have dm: "cdata m (p # qs) = [8, code, ucast v, ucast (drop_bit 8 v)] @ R" unfolding hd(2) d(1) using d(2) by simp
  have tot: "unat (pb_tot_len m p) = 4 + length R" using pchain_len [OF hd(1)] unfolding dm by simp
  have "bytes ?m (?h + of_nat 20) = pdata ?m p ! 20" using l(1) by (simp add: pdata_def)
  also have "\<dots> = cdata ?m (p # qs) ! 20" using l(1) by (simp add: nth_append pdata_def)
  also have "\<dots> = 8" unfolding d(1) using d(2) by (simp add: nth_append)
  finally have type: "bytes m (pb_payload m p) = 8" by (simp add: m)
  have "chain (pb_next m) p (p # qs)" using hd(1) by (simp only: pchain_def)
  then have sum: "inet_chksum_pbuf p m = Some (chksum_field ([8, code, ucast v, ucast (drop_bit 8 v)] @ R))"
    using inet_chksum_pbuf_eqs(1) [of m p "p # qs"] unfolding dm by blast
  have short: "\<not> pb_tot_len m p < 4" "pb_tot_len m p < 8 \<longleftrightarrow> length R < 4" using tot by (simp_all add: word_less_nat_alt)
  have "icmp_input out p inp s = icmp_echo out p inp ?h 20 (s\<lparr>ilw := m\<rparr>)" using hide type short(1) by (simp add: icmp_input_def hl)
  also have "\<dots> = free_packet p (s\<lparr>ilw := m\<rparr>)" using no short(2) sum by (auto simp: icmp_echo_def)
  finally show ?thesis by (simp add: m_def)
qed

text \<open>
  C34: An echo request of at least 4 bytes behind an IP header without options, in a buffer with room for the headers of the answer, is
  answered if it is not sent to a multicast address, has the 8 bytes of an echo header and a valid checksum; otherwise the packet
  is only released. The answer is handed to the interface, in the same buffers, with the addresses exchanged, the type of an answer,
  all other data of the message unchanged and a valid checksum of the IP header. The checksum of the message is valid too, except
  for the message that is zero all over, which its receiver will throw away.
\<close>

theorem icmp_echo_answered:
  assumes "pchain (ilw s) p (p # qs)" "cdata (ilw s) (p # qs) = H @ [8, code, ucast v, ucast (drop_bit 8 v)] @ R" "length H = 20"
    and "IPH_HL (bytes (ilw s)) (pb_payload (ilw s) p) = 5" "24 \<le> pb_len (ilw s) p" "length (cdata (ilw s) (p # qs)) + 14 < 65536"
    and "pb_type (ilw s) p = PBUF_RAM \<or> pb_type (ilw s) p = PBUF_POOL"
    and "p + 16 \<le> pb_payload (ilw s) p - 14" "p + 16 \<le> pb_payload (ilw s) p" "p + 16 \<le> pb_payload (ilw s) p + 20"
    and "region (pb_payload (ilw s) p) 24 \<inter> payloads (ilw s) qs = {}"
    and "mtu (netifs s inp) = 0 \<or> pb_tot_len (ilw s) p \<le> mtu (netifs s inp)"
  shows "if ip_addr_ismulticast (current_iphdr_dest s) \<or> length R < 4 \<or> chksum_field ([8, code, ucast v, ucast (drop_bit 8 v)] @ R) \<noteq> 0
    then icmp_input out p inp s = free_packet p (s\<lparr>ilw := snd (pbuf_header p (- 20) (ilw s))\<rparr>)
    else \<exists>c m reply. icmp_input out p inp s =
        (let (err, m') = out (netifs s inp) p (current_iphdr_src s) m in free_packet p (s\<lparr>ilw := m'\<rparr>)) \<and> pchain m p (p # qs) \<and>
      cdata m (p # qs) = reply_header H (current_iphdr_src s) (current_iphdr_dest s) c @ reply \<and>
      chksum_field (reply_header H (current_iphdr_src s) (current_iphdr_dest s) c) = 0 \<and>
      reply = [0, code, ucast (echo_chksum v), ucast (drop_bit 8 (echo_chksum v))] @ R \<and>
      chksum_field reply = (if reply = replicate (length reply) 0 then 0xffff else 0)"
proof (cases "ip_addr_ismulticast (current_iphdr_dest s) \<or> length R < 4 \<or> chksum_field ([8, code, ucast v, ucast (drop_bit 8 v)] @ R) \<noteq> 0")
  case True
  show ?thesis unfolding if_P [OF True] by (rule icmp_echo_released [OF assms(1-5,7,10) True])
next
  case False
  let ?r = "[0, code, ucast (echo_chksum v), ucast (drop_bit 8 (echo_chksum v))] @ R"
  from False have F: "4 \<le> length R" "chksum_field ([8, code, ucast v, ucast (drop_bit 8 v)] @ R) = 0" "\<not> ip_addr_ismulticast (current_iphdr_dest s)"
    by auto
  from icmp_echo_spec [OF assms(1-3) F(1) assms(4-11) F(2,3), of out inp] obtain c m where
    m: "icmp_input out p inp s = (ip_send out p (current_iphdr_src s) (netifs s inp) (s\<lparr>ilw := m\<rparr>) \<bind> (\<lambda>(_, s). free_packet p s))"
    "pchain m p (p # qs)" "pb_tot_len m p = pb_tot_len (ilw s) p"
    "cdata m (p # qs) = reply_header H (current_iphdr_src s) (current_iphdr_dest s) c @ ?r"
    "chksum_field (reply_header H (current_iphdr_src s) (current_iphdr_dest s) c) = 0" by blast
  have "\<not> (mtu (netifs s inp) \<noteq> 0 \<and> pb_tot_len m p > mtu (netifs s inp))" using assms(12) m(3) by auto
  then have "icmp_input out p inp s = (let (err, m') = out (netifs s inp) p (current_iphdr_src s) m in free_packet p (s\<lparr>ilw := m'\<rparr>))"
    unfolding m(1) by (auto simp: ip_send_def split: prod.splits)
  then show ?thesis unfolding if_not_P [OF False] using m(2,4,5) echo_reply_chksum_eq [OF F(2)] by blast
qed

text \<open>A ping with the identifier \<open>0x0100\<close>, from \<open>192.168.0.5\<close> to \<open>192.168.0.2\<close>.\<close>

definition smp_ping :: ipst where
  "smp_ping = smp_ip\<lparr>ilw := (ilw smp_ip)\<lparr>bytes := (\<lambda>_. 0)(0x1100 := 0x45, 0x1114 := 8, 0x1116 := 0xf6, 0x1117 := 0xff, 0x1118 := 1),
     pb_len := (\<lambda>_. 28), pb_tot_len := (\<lambda>_. 28)\<rparr>, current_iphdr_src := 0x0500A8C0, current_iphdr_dest := 0x0200A8C0\<rparr>"

theorem icmp_echo_answered_witness:
  "\<exists>c m. icmp_input (\<lambda>nif p dest m. (0, m)) 0x1000 0x10 smp_ping = free_packet 0x1000 (smp_ping\<lparr>ilw := m\<rparr>) \<and>
    cdata m [0x1000] = reply_header [0x45, 0, 0, 0, 0, 0, 0, 0, 0, 0, 0, 0, 0, 0, 0, 0, 0, 0, 0, 0] 0x0500A8C0 0x0200A8C0 c @ [0, 0, 0xfe, 0xff] @ [1, 0, 0, 0] \<and>
    chksum_field [0, 0, 0xfe, 0xff, 1, 0, 0, 0] = 0"
proof -
  let ?m = "ilw smp_ping"
  have d: "cdata ?m [0x1000] = [0x45, 0, 0, 0, 0, 0, 0, 0, 0, 0, 0, 0, 0, 0, 0, 0, 0, 0, 0, 0] @ [8, 0, ucast (0xfff6 :: u16), ucast (drop_bit 8 (0xfff6 :: u16))] @ [1, 0, 0, 0]"
    by (simp add: smp_ping_def smp_ip_def pdata_def bytes_at_def upt_rec)
  have "pchain ?m 0x1000 [0x1000]" using d by (simp add: pchain_def smp_ping_def smp_ip_def smp_frags_def)
  moreover have "IPH_HL (bytes ?m) (pb_payload ?m 0x1000) = 5" by (simp add: IPH_HL_def smp_ping_def smp_ip_def rd16_def lwip_ntohs_def lwip_htons_def)
  moreover have "chksum_field ([8, 0, ucast (0xfff6 :: u16), ucast (drop_bit 8 (0xfff6 :: u16))] @ [1, 0, 0, 0]) = 0"
    by (simp add: chksum_field_le oc_def)
  moreover have "[0, ucast (echo_chksum 0xfff6), ucast (drop_bit 8 (echo_chksum 0xfff6))] @ [1, 0, 0, 0] \<noteq> replicate (length [1 :: u8, 0, 0, 0] + 3) (0 :: u8)"
    by (simp add: numeral_eq_Suc)
  ultimately obtain c m where m: "icmp_input (\<lambda>nif p dest m. (0, m)) 0x1000 0x10 smp_ping = free_packet 0x1000 (smp_ping\<lparr>ilw := m\<rparr>)"
    "cdata m [0x1000] = reply_header [0x45, 0, 0, 0, 0, 0, 0, 0, 0, 0, 0, 0, 0, 0, 0, 0, 0, 0, 0, 0] 0x0500A8C0 0x0200A8C0 c @
      [0, 0, ucast (echo_chksum 0xfff6), ucast (drop_bit 8 (echo_chksum 0xfff6))] @ [1, 0, 0, 0]"
    "chksum_field ([0, 0, ucast (echo_chksum 0xfff6), ucast (drop_bit 8 (echo_chksum 0xfff6))] @ [1, 0, 0, 0]) = 0"
    using icmp_echo_answered [OF _ d, of "0x10" "\<lambda>nif p dest m. (0, m)"]
    by (auto simp: smp_ping_def smp_ip_def smp_frags_def smp_if_def payloads_def ip_addr_ismulticast_def)
  have e: "ucast (echo_chksum 0xfff6) = (0xfe :: u8)" "ucast (drop_bit 8 (echo_chksum 0xfff6)) = (0xff :: u8)" by (simp_all add: echo_chksum_eq)
  show ?thesis using m unfolding e by (intro exI [of _ c] exI [of _ m]) simp
qed

end
