(* ===== verification/LW_Udp.thy ===== *)
theory LW_Udp
  imports LW_Icmp
begin

text \<open>
  UDP: \<open>udp.c\<close>, with DHCP and IGMP, the broadcast filters and the checksums made while
  copying, and without UDP-Lite and shared addresses. The callbacks of the
  applications are a parameter; the control block of the DHCP client of an interface is part of
  the state (\<open>NULL\<close>: none).
\<close>

abbreviation (input) ERR_USE :: int where "ERR_USE \<equiv> -8"
abbreviation (input) MEMP_UDP_PCB :: nat where "MEMP_UDP_PCB \<equiv> 0"
abbreviation (input) UDP_HLEN :: u16 where "UDP_HLEN \<equiv> 8"
abbreviation (input) UDP_TTL :: u8 where "UDP_TTL \<equiv> 255"
abbreviation (input) UDP_FLAGS_NOCHKSUM :: u8 where "UDP_FLAGS_NOCHKSUM \<equiv> 0x01"
abbreviation (input) UDP_FLAGS_CONNECTED :: u8 where "UDP_FLAGS_CONNECTED \<equiv> 0x04"
abbreviation (input) UDP_FLAGS_MULTICAST_LOOP :: u8 where "UDP_FLAGS_MULTICAST_LOOP \<equiv> 0x08"
abbreviation (input) SOF_BROADCAST :: u8 where "SOF_BROADCAST \<equiv> 0x20"
abbreviation (input) PBUF_FLAG_MCASTLOOP :: u8 where "PBUF_FLAG_MCASTLOOP \<equiv> 0x04"
abbreviation (input) DHCP_CLIENT_PORT :: u16 where "DHCP_CLIENT_PORT \<equiv> 68"
abbreviation (input) DHCP_SERVER_PORT :: u16 where "DHCP_SERVER_PORT \<equiv> 67"
abbreviation (input) UDP_LOCAL_PORT_RANGE_START :: u16 where "UDP_LOCAL_PORT_RANGE_START \<equiv> 0xc000"
abbreviation (input) UDP_LOCAL_PORT_RANGE_END :: u16 where "UDP_LOCAL_PORT_RANGE_END \<equiv> 0xffff"

section \<open>State\<close>

record udp =
  uip :: ipst
  u_local_ip :: "ptr \<Rightarrow> u32"
  u_remote_ip :: "ptr \<Rightarrow> u32"
  u_so_options :: "ptr \<Rightarrow> u8"
  u_tos :: "ptr \<Rightarrow> u8"
  u_ttl :: "ptr \<Rightarrow> u8"
  u_next :: "ptr \<Rightarrow> ptr"
  u_flags :: "ptr \<Rightarrow> u8"
  u_local_port :: "ptr \<Rightarrow> u16"
  u_remote_port :: "ptr \<Rightarrow> u16"
  u_multicast_ip :: "ptr \<Rightarrow> u32"
  u_recv :: "ptr \<Rightarrow> ptr"
  u_recv_arg :: "ptr \<Rightarrow> ptr"
  udp_pcbs :: ptr
  dhcp_pcb :: "ptr \<Rightarrow> ptr"

abbreviation (input) ulw :: "udp \<Rightarrow> lw" where "ulw s \<equiv> ilw (uip s)"
abbreviation (input) put_ulw :: "lw \<Rightarrow> udp \<Rightarrow> udp" where "put_ulw m s \<equiv> s\<lparr>uip := (uip s)\<lparr>ilw := m\<rparr>\<rparr>"
abbreviation (input) put_u_next :: "ptr \<Rightarrow> ptr \<Rightarrow> udp \<Rightarrow> udp" where
  "put_u_next p v s \<equiv> s\<lparr>u_next := (u_next s)(p := v)\<rparr>"
abbreviation (input) put_u_local_ip :: "ptr \<Rightarrow> u32 \<Rightarrow> udp \<Rightarrow> udp" where
  "put_u_local_ip p v s \<equiv> s\<lparr>u_local_ip := (u_local_ip s)(p := v)\<rparr>"
abbreviation (input) put_u_local_port :: "ptr \<Rightarrow> u16 \<Rightarrow> udp \<Rightarrow> udp" where
  "put_u_local_port p v s \<equiv> s\<lparr>u_local_port := (u_local_port s)(p := v)\<rparr>"

definition udp_free :: "ptr \<Rightarrow> udp \<Rightarrow> udp option" where
  "udp_free p s = pbuf_free p (ulw s) \<bind> (\<lambda>(_, m). Some (put_ulw m s))"

section \<open>Control blocks\<close>

text \<open>The search for a conflict, and whether the block itself is on the list.\<close>

partial_function (option) bind_check :: "udp \<Rightarrow> ptr \<Rightarrow> u32 \<Rightarrow> u16 \<Rightarrow> ptr \<Rightarrow> bool \<Rightarrow> (bool \<times> bool) option" where
  "bind_check s pcb ipaddr port ipcb rebind =
     (if ipcb \<noteq> NULL then
        if pcb = ipcb then bind_check s pcb ipaddr port (u_next s ipcb) True
        else if u_local_port s ipcb = port \<and>
          (ip_addr_isany (u_local_ip s ipcb) \<or> ip_addr_isany ipaddr \<or> u_local_ip s ipcb = ipaddr) then Some (True, rebind)
        else bind_check s pcb ipaddr port (u_next s ipcb) rebind
      else Some (False, rebind))"

partial_function (option) port_loop :: "udp \<Rightarrow> ptr \<Rightarrow> u16 \<Rightarrow> (ptr \<times> u16) option" where
  "port_loop s ipcb port =
     (if ipcb \<noteq> NULL \<and> port \<noteq> UDP_LOCAL_PORT_RANGE_END then
        if u_local_port s ipcb = port then port_loop s (udp_pcbs s) (port + 1)
        else port_loop s (u_next s ipcb) port
      else Some (ipcb, port))"

definition udp_bind :: "ptr \<Rightarrow> u32 \<Rightarrow> u16 \<Rightarrow> udp \<Rightarrow> (int \<times> udp) option" where
  "udp_bind pcb ipaddr port s = do {
     (used, rebind) \<leftarrow> bind_check s pcb ipaddr port (udp_pcbs s) False;
     if used then Some (ERR_USE, s)
     else do {
       let s = put_u_local_ip pcb ipaddr s;
       (ipcb, port) \<leftarrow> (if port = 0 then port_loop s (udp_pcbs s) UDP_LOCAL_PORT_RANGE_START else Some (NULL, port));
       if ipcb \<noteq> NULL then Some (ERR_USE, s)
       else do {
         let s = put_u_local_port pcb port s;
         Some (ERR_OK, if \<not> rebind then (put_u_next pcb (udp_pcbs s) s)\<lparr>udp_pcbs := pcb\<rparr> else s) } } }"

partial_function (option) on_list :: "udp \<Rightarrow> ptr \<Rightarrow> ptr \<Rightarrow> bool option" where
  "on_list s pcb ipcb =
     (if ipcb \<noteq> NULL then if pcb = ipcb then Some True else on_list s pcb (u_next s ipcb) else Some False)"

definition udp_connect :: "ptr \<Rightarrow> u32 \<Rightarrow> u16 \<Rightarrow> udp \<Rightarrow> (int \<times> udp) option" where
  "udp_connect pcb ipaddr port s = do {
     (err, s) \<leftarrow> (if u_local_port s pcb = 0 then udp_bind pcb (u_local_ip s pcb) (u_local_port s pcb) s else Some (ERR_OK, s));
     if err \<noteq> ERR_OK then Some (err, s)
     else do {
       let s = s\<lparr>u_remote_ip := (u_remote_ip s)(pcb := ipaddr)\<rparr>;
       let s = s\<lparr>u_remote_port := (u_remote_port s)(pcb := port)\<rparr>;
       let s = s\<lparr>u_flags := (u_flags s)(pcb := u_flags s pcb OR UDP_FLAGS_CONNECTED)\<rparr>;
       found \<leftarrow> on_list s pcb (udp_pcbs s);
       Some (ERR_OK, if found then s else (put_u_next pcb (udp_pcbs s) s)\<lparr>udp_pcbs := pcb\<rparr>) } }"

definition udp_disconnect :: "ptr \<Rightarrow> udp \<Rightarrow> udp" where
  "udp_disconnect pcb s =
     (let s = s\<lparr>u_remote_ip := (u_remote_ip s)(pcb := IPADDR_ANY)\<rparr>;
          s = s\<lparr>u_remote_port := (u_remote_port s)(pcb := 0)\<rparr>
      in s\<lparr>u_flags := (u_flags s)(pcb := u_flags s pcb AND NOT UDP_FLAGS_CONNECTED)\<rparr>)"

definition udp_recv :: "ptr \<Rightarrow> ptr \<Rightarrow> ptr \<Rightarrow> udp \<Rightarrow> udp" where
  "udp_recv pcb recv recv_arg s =
     (let s = s\<lparr>u_recv := (u_recv s)(pcb := recv)\<rparr> in s\<lparr>u_recv_arg := (u_recv_arg s)(pcb := recv_arg)\<rparr>)"

partial_function (option) remove_loop :: "ptr \<Rightarrow> ptr \<Rightarrow> udp \<Rightarrow> udp option" where
  "remove_loop pcb pcb2 s =
     (if pcb2 \<noteq> NULL then
        let s = (if u_next s pcb2 \<noteq> NULL \<and> u_next s pcb2 = pcb then put_u_next pcb2 (u_next s pcb) s else s)
        in remove_loop pcb (u_next s pcb2) s
      else Some s)"

definition udp_remove :: "ptr \<Rightarrow> udp \<Rightarrow> udp option" where
  "udp_remove pcb s = do {
     s \<leftarrow> (if udp_pcbs s = pcb then if pcb = NULL then None else Some (s\<lparr>udp_pcbs := u_next s (udp_pcbs s)\<rparr>)
           else remove_loop pcb (udp_pcbs s) s);
     m \<leftarrow> memp_free MEMP_UDP_PCB pcb (ulw s);
     Some (put_ulw m s) }"

definition udp_new :: "udp \<Rightarrow> ptr \<times> udp" where
  "udp_new s =
     (let (pcb, m) = memp_malloc MEMP_UDP_PCB (ulw s); s = put_ulw m s in
      if pcb \<noteq> NULL then
        (pcb, s\<lparr>u_local_ip := (u_local_ip s)(pcb := 0), u_remote_ip := (u_remote_ip s)(pcb := 0), u_so_options := (u_so_options s)(pcb := 0),
           u_tos := (u_tos s)(pcb := 0), u_ttl := (u_ttl s)(pcb := UDP_TTL), u_next := (u_next s)(pcb := NULL), u_flags := (u_flags s)(pcb := 0),
           u_local_port := (u_local_port s)(pcb := 0), u_remote_port := (u_remote_port s)(pcb := 0),
           u_multicast_ip := (u_multicast_ip s)(pcb := 0), u_recv := (u_recv s)(pcb := NULL), u_recv_arg := (u_recv_arg s)(pcb := NULL)\<rparr>)
      else (pcb, s))"

section \<open>Input\<close>

text \<open>The local address and port of a block fit to the destination of a packet, and its remote ones to the source.\<close>

definition local_match :: "udp \<Rightarrow> bool \<Rightarrow> u16 \<Rightarrow> ptr \<Rightarrow> bool" where
  "local_match s broadcast dest pcb \<longleftrightarrow> u_local_port s pcb = dest \<and>
     (\<not> broadcast \<and> ip_addr_isany (u_local_ip s pcb) \<or> u_local_ip s pcb = current_iphdr_dest (uip s) \<or>
      ip_addr_ismulticast (current_iphdr_dest (uip s)) \<or> broadcast \<and> u_so_options s pcb AND SOF_BROADCAST \<noteq> 0)"

definition remote_match :: "udp \<Rightarrow> u16 \<Rightarrow> ptr \<Rightarrow> bool" where
  "remote_match s src pcb \<longleftrightarrow> u_remote_port s pcb = src \<and>
     (ip_addr_isany (u_remote_ip s pcb) \<or> u_remote_ip s pcb = current_iphdr_src (uip s))"

partial_function (option) demux_loop :: "bool \<Rightarrow> u16 \<Rightarrow> u16 \<Rightarrow> ptr \<Rightarrow> ptr \<Rightarrow> ptr \<Rightarrow> udp \<Rightarrow> (ptr \<times> udp) option" where
  "demux_loop broadcast src dest pcb prev uncon_pcb s =
     (if pcb \<noteq> NULL then
        let uncon_pcb = (if local_match s broadcast dest pcb \<and> uncon_pcb = NULL \<and> u_flags s pcb AND UDP_FLAGS_CONNECTED = 0 then pcb else uncon_pcb) in
        if local_match s broadcast dest pcb \<and> remote_match s src pcb then
          if prev \<noteq> NULL then
            let s = put_u_next prev (u_next s pcb) s;
                s = put_u_next pcb (udp_pcbs s) s
            in Some (pcb, s\<lparr>udp_pcbs := pcb\<rparr>)
          else Some (pcb, s)
        else demux_loop broadcast src dest (u_next s pcb) pcb uncon_pcb s
      else Some (uncon_pcb, s))"

definition udp_demux :: "bool \<Rightarrow> u16 \<Rightarrow> u16 \<Rightarrow> ptr \<Rightarrow> udp \<Rightarrow> (ptr \<times> udp) option" where
  "udp_demux broadcast src dest inp s =
     (if dest = DHCP_CLIENT_PORT then
        Some (if src = DHCP_SERVER_PORT \<and> dhcp_pcb s inp \<noteq> NULL \<and>
            (ip_addr_isany (u_remote_ip s (dhcp_pcb s inp)) \<or> u_remote_ip s (dhcp_pcb s inp) = current_iphdr_src (uip s))
          then dhcp_pcb s inp else NULL, s)
      else demux_loop broadcast src dest (udp_pcbs s) NULL NULL s)"

type_synonym udp_recv_fn = "ptr \<Rightarrow> ptr \<Rightarrow> ptr \<Rightarrow> ptr \<Rightarrow> u32 \<Rightarrow> u16 \<Rightarrow> udp \<Rightarrow> udp option"

text \<open>No block was found: the sender is told, unless the destination was not a single host.\<close>

definition udp_no_port :: "netif_out \<Rightarrow> ptr \<Rightarrow> u16 \<Rightarrow> bool \<Rightarrow> udp \<Rightarrow> udp option" where
  "udp_no_port out p hlen broadcast s = do {
     s \<leftarrow> (if \<not> broadcast \<and> \<not> ip_addr_ismulticast (current_iphdr_dest (uip s)) then do {
            let m = snd (pbuf_header p (hlen + UDP_HLEN) (ulw s));
            i \<leftarrow> icmp_dest_unreach out p ICMP_DUR_PORT ((uip s)\<lparr>ilw := m\<rparr>);
            Some (s\<lparr>uip := i\<rparr>) }
          else Some s);
     udp_free p s }"

definition udp_input :: "netif_out \<Rightarrow> udp_recv_fn \<Rightarrow> ptr \<Rightarrow> ptr \<Rightarrow> udp \<Rightarrow> udp option" where
  "udp_input out call_recv p inp s =
     (let iphdr = pb_payload (ulw s) p;
          hlen = IPH_HL (bytes (ulw s)) iphdr * 4;
          (short, m) = (if unat (pb_tot_len (ulw s) p) < unat hlen + 8 then (1, ulw s) else pbuf_header p (- hlen) (ulw s));
          s = put_ulw m s in
      if short \<noteq> 0 then udp_free p s
      else do {
        let udphdr = pb_payload (ulw s) p;
        let broadcast = (ip4_addr_isbroadcast (current_iphdr_dest (uip s)) (netifs (uip s) inp) \<noteq> 0);
        let src = lwip_ntohs (rd16 (bytes (ulw s)) udphdr);
        let dest = lwip_ntohs (rd16 (bytes (ulw s)) (udphdr + 2));
        (pcb, s) \<leftarrow> udp_demux broadcast src dest inp s;
        if pcb \<noteq> NULL \<or> ip_addr (netifs (uip s) inp) = current_iphdr_dest (uip s) then do {
          c \<leftarrow> (if rd16 (bytes (ulw s)) (udphdr + 6) \<noteq> 0
                then inet_chksum_pseudo p (current_iphdr_src (uip s)) (current_iphdr_dest (uip s)) IP_PROTO_UDP (pb_tot_len (ulw s) p) (ulw s)
                else Some 0);
          if c \<noteq> 0 then udp_free p s
          else
            let (short, m) = pbuf_header p (- UDP_HLEN) (ulw s); s = put_ulw m s in
            if short \<noteq> 0 then udp_free p s
            else if pcb \<noteq> NULL then
              if u_recv s pcb \<noteq> NULL then call_recv (u_recv s pcb) (u_recv_arg s pcb) pcb p (current_iphdr_src (uip s)) src s
              else udp_free p s
            else udp_no_port out p hlen broadcast s }
        else udp_free p s })"

section \<open>Output\<close>

definition put_udphdr :: "ptr \<Rightarrow> u16 \<Rightarrow> u16 \<Rightarrow> lw \<Rightarrow> lw" where
  "put_udphdr udphdr src dest m =
     (let m = wr16 udphdr (lwip_htons src) m; m = wr16 (udphdr + 2) (lwip_htons dest) m in wr16 (udphdr + 6) 0 m)"

text \<open>The checksum, of which the part of the data may be known already.\<close>

definition udp_chksum :: "ptr \<Rightarrow> u32 \<Rightarrow> u32 \<Rightarrow> bool \<Rightarrow> u16 \<Rightarrow> lw \<Rightarrow> u16 option" where
  "udp_chksum q src_ip dst_ip have_chksum chksum m = do {
     c \<leftarrow> (if have_chksum then do {
             c \<leftarrow> inet_chksum_pseudo_partial q src_ip dst_ip IP_PROTO_UDP (pb_tot_len m q) UDP_HLEN m;
             Some (ucast (FOLD_U32T (ucast c + ucast (NOT chksum)))) }
           else inet_chksum_pseudo q src_ip dst_ip IP_PROTO_UDP (pb_tot_len m q) m);
     Some (if c = 0 then 0xffff else c) }"

text \<open>The header is put into the packet or into a buffer of its own; \<open>NULL\<close> means no memory.\<close>

definition udp_header_room :: "ptr \<Rightarrow> lw \<Rightarrow> (ptr \<times> lw) option" where
  "udp_header_room p m =
     (case pbuf_header p UDP_HLEN m of (full, m) \<Rightarrow>
      if full \<noteq> 0 then do {
        (q, m) \<leftarrow> pbuf_alloc PBUF_IP UDP_HLEN PBUF_RAM m;
        if q = NULL then Some (NULL, m)
        else if pb_tot_len m p \<noteq> 0 then pbuf_chain q p m \<bind> (\<lambda>m. Some (q, m))
        else Some (q, m) }
      else Some (p, m))"

definition udp_sendto_if_chksum ::
  "netif_out \<Rightarrow> ptr \<Rightarrow> ptr \<Rightarrow> u32 \<Rightarrow> u16 \<Rightarrow> ptr \<Rightarrow> bool \<Rightarrow> u16 \<Rightarrow> udp \<Rightarrow> (int \<times> udp) option" where
  "udp_sendto_if_chksum out pcb p dst_ip dst_port nif have_chksum chksum s =
     (if u_so_options s pcb AND SOF_BROADCAST = 0 \<and> ip4_addr_isbroadcast dst_ip (netifs (uip s) nif) \<noteq> 0 then Some (ERR_VAL, s)
      else do {
        (err, s) \<leftarrow> (if u_local_port s pcb = 0 then udp_bind pcb (u_local_ip s pcb) (u_local_port s pcb) s else Some (ERR_OK, s));
        if err \<noteq> ERR_OK then Some (err, s)
        else do {
          (q, m) \<leftarrow> udp_header_room p (ulw s);
          if q = NULL then Some (ERR_MEM, put_ulw m s)
          else do {
            let udphdr = pb_payload m q;
            let m = put_udphdr udphdr (u_local_port s pcb) dst_port m;
            let m = (if ip_addr_ismulticast dst_ip \<and> u_flags s pcb AND UDP_FLAGS_MULTICAST_LOOP \<noteq> 0
                     then put_flags q (pb_flags m q OR PBUF_FLAG_MCASTLOOP) m else m);
            let s = put_ulw m s;
            if \<not> ip_addr_isany (u_local_ip s pcb) \<and> u_local_ip s pcb \<noteq> ip_addr (netifs (uip s) nif)
            then do { s \<leftarrow> (if q \<noteq> p then udp_free q s else Some s); Some (ERR_VAL, s) }
            else do {
              let src_ip = (if ip_addr_isany (u_local_ip s pcb) then ip_addr (netifs (uip s) nif) else u_local_ip s pcb);
              let m = wr16 (udphdr + 4) (lwip_htons (pb_tot_len m q)) m;
              m \<leftarrow> (if u_flags s pcb AND UDP_FLAGS_NOCHKSUM = 0
                    then udp_chksum q src_ip dst_ip have_chksum chksum m \<bind> (\<lambda>c. Some (wr16 (udphdr + 6) c m)) else Some m);
              (err, i) \<leftarrow> ip_output_if out q src_ip (Some dst_ip) (u_ttl s pcb) (u_tos s pcb) IP_PROTO_UDP nif ((uip s)\<lparr>ilw := m\<rparr>);
              let s = s\<lparr>uip := i\<rparr>;
              s \<leftarrow> (if q \<noteq> p then udp_free q s else Some s);
              Some (err, s) } } } })"

definition udp_sendto_if :: "netif_out \<Rightarrow> ptr \<Rightarrow> ptr \<Rightarrow> u32 \<Rightarrow> u16 \<Rightarrow> ptr \<Rightarrow> udp \<Rightarrow> (int \<times> udp) option" where
  "udp_sendto_if out pcb p dst_ip dst_port nif s = udp_sendto_if_chksum out pcb p dst_ip dst_port nif False 0 s"

definition udp_sendto_chksum :: "netif_out \<Rightarrow> ptr \<Rightarrow> ptr \<Rightarrow> u32 \<Rightarrow> u16 \<Rightarrow> bool \<Rightarrow> u16 \<Rightarrow> udp \<Rightarrow> (int \<times> udp) option" where
  "udp_sendto_chksum out pcb p dst_ip dst_port have_chksum chksum s = do {
     nif \<leftarrow> ip_route (if ip_addr_ismulticast dst_ip then u_multicast_ip s pcb else dst_ip) (uip s);
     if nif = NULL then Some (ERR_RTE, s) else udp_sendto_if_chksum out pcb p dst_ip dst_port nif have_chksum chksum s }"

definition udp_sendto :: "netif_out \<Rightarrow> ptr \<Rightarrow> ptr \<Rightarrow> u32 \<Rightarrow> u16 \<Rightarrow> udp \<Rightarrow> (int \<times> udp) option" where
  "udp_sendto out pcb p dst_ip dst_port s = udp_sendto_chksum out pcb p dst_ip dst_port False 0 s"

definition udp_send_chksum :: "netif_out \<Rightarrow> ptr \<Rightarrow> ptr \<Rightarrow> bool \<Rightarrow> u16 \<Rightarrow> udp \<Rightarrow> (int \<times> udp) option" where
  "udp_send_chksum out pcb p have_chksum chksum s =
     udp_sendto_chksum out pcb p (u_remote_ip s pcb) (u_remote_port s pcb) have_chksum chksum s"

definition udp_send :: "netif_out \<Rightarrow> ptr \<Rightarrow> ptr \<Rightarrow> udp \<Rightarrow> (int \<times> udp) option" where
  "udp_send out pcb p s = udp_sendto out pcb p (u_remote_ip s pcb) (u_remote_port s pcb) s"

section \<open>Ports\<close>

text \<open>Two blocks cannot be told apart by the destination of a packet.\<close>

definition clash :: "udp \<Rightarrow> u32 \<Rightarrow> u16 \<Rightarrow> ptr \<Rightarrow> bool" where
  "clash s ip port x \<longleftrightarrow> u_local_port s x = port \<and> (ip_addr_isany (u_local_ip s x) \<or> ip_addr_isany ip \<or> u_local_ip s x = ip)"

lemma bind_check_spec:
  assumes "chain (u_next s) q ps"
  shows "bind_check s pcb ip port q rb =
    Some (\<exists>x\<in>set ps. x \<noteq> pcb \<and> clash s ip port x, rb \<or> pcb \<in> set (takeWhile (\<lambda>x. x = pcb \<or> \<not> clash s ip port x) ps))"
  using assms
proof (induction ps arbitrary: q rb)
  case Nil
  then show ?case by (subst bind_check.simps) simp
next
  case (Cons x ps)
  then have x: "q = x" "x \<noteq> NULL" "chain (u_next s) (u_next s x) ps" by auto
  show ?case
    using x Cons.IH [OF x(3), of True] Cons.IH [OF x(3), of rb] by (subst bind_check.simps) (auto simp: clash_def)
qed

lemma u16_below_max: "x \<noteq> 0xffff \<Longrightarrow> x < (0xffff :: u16)"
proof -
  assume "x \<noteq> 0xffff"
  moreover have "unat x \<le> 65535" using unat_u16_less [of x] by (simp del: unat_u16_less)
  ultimately show ?thesis by (simp add: word_less_nat_alt word_unat_eq_iff)
qed

lemma port_loop_spec:
  assumes "chain (u_next s) (udp_pcbs s) (as @ qs)" "q = first_ptr qs" "\<forall>x\<in>set as. u_local_port s x \<noteq> port" "0xc000 \<le> port" "port \<noteq> 0xffff"
    and "\<forall>v. 0xc000 \<le> v \<and> v < port \<longrightarrow> v \<in> u_local_port s ` set (as @ qs)"
  shows "\<exists>r port'. port_loop s q port = Some (r, port') \<and>
    (r = NULL \<and> 0xc000 \<le> port' \<and> port' < 0xffff \<and> port' \<notin> u_local_port s ` set (as @ qs) \<or>
     r \<noteq> NULL \<and> {0xc000..<0xffff} \<subseteq> u_local_port s ` set (as @ qs))"
  using assms
proof (induction "65535 - unat port" arbitrary: port as qs q rule: less_induct)
  case less
  note outer = less.hyps
  show ?case using less.prems
  proof (induction qs arbitrary: as q)
    case Nil
    then have "port_loop s q port = Some (NULL, port)" by (subst port_loop.simps) simp
    moreover have "port < 0xffff" by (rule u16_below_max [OF Nil.prems(5)])
    ultimately show ?case using Nil.prems by (intro exI [of _ NULL] exI [of _ port]) auto
  next
    case (Cons x qs)
    have x: "q = x" "x \<noteq> NULL" "u_next s x = first_ptr qs"
      using Cons.prems(1,2) chain_nonnull [OF Cons.prems(1), of x] chain_suffix [OF Cons.prems(1)] by (auto simp: chain_first_ptr)
    show ?case
    proof (cases "u_local_port s x = port")
      case False
      then have "port_loop s q port = port_loop s (first_ptr qs) port" using x Cons.prems(5) by (subst port_loop.simps) simp
      moreover have "chain (u_next s) (udp_pcbs s) ((as @ [x]) @ qs)" "\<forall>y\<in>set (as @ [x]). u_local_port s y \<noteq> port"
        using Cons.prems(1,3) False by auto
      ultimately show ?thesis using Cons.IH [of "as @ [x]" "first_ptr qs"] Cons.prems(4-6) by auto
    next
      case True
      then have step: "port_loop s q port = port_loop s (udp_pcbs s) (port + 1)" using x Cons.prems(5) by (subst port_loop.simps) simp
      have lt: "port < 0xffff" by (rule u16_below_max [OF Cons.prems(5)])
      then have u: "unat (port + 1) = unat port + 1" by (simp add: unat_word_ariths word_less_nat_alt)
      have all: "v \<in> u_local_port s ` set (as @ x # qs)" if "0xc000 \<le> v" "v < port + 1" for v
      proof (cases "v = port")
        case False
        then have "v < port" using that(2) u by (simp add: word_less_nat_alt word_unat_eq_iff)
        then show ?thesis using Cons.prems(6) that(1) by blast
      qed (use True in auto)
      show ?thesis
      proof (cases "port + 1 = 0xffff")
        case e: True
        have "udp_pcbs s \<noteq> NULL" using Cons.prems(1) by auto
        then have "port_loop s (udp_pcbs s) (port + 1) = Some (udp_pcbs s, port + 1)" using e by (subst port_loop.simps) simp
        moreover have "{0xc000..<0xffff} \<subseteq> u_local_port s ` set (as @ x # qs)" using all unfolding e by (intro subsetI) simp
        ultimately show ?thesis unfolding step using \<open>udp_pcbs s \<noteq> NULL\<close> by blast
      next
        case False
        have "65535 - unat (port + 1) < 65535 - unat port" using u lt by (simp add: word_less_nat_alt)
        moreover have "0xc000 \<le> port + 1" using Cons.prems(4) u by (simp add: word_le_nat_alt)
        ultimately show ?thesis unfolding step
          using outer [of "port + 1" "[]" "as @ x # qs" "udp_pcbs s"] Cons.prems(1) False all chain_first_ptr [OF Cons.prems(1)] by auto
      qed
    qed
  qed
qed

lemma free_port:
  assumes c: "chain (u_next s) (udp_pcbs s) ps" and few: "length ps < 0x3fff"
  shows "\<exists>port. port_loop s (udp_pcbs s) 0xc000 = Some (NULL, port) \<and> 0xc000 \<le> port \<and> port < 0xffff \<and> port \<notin> u_local_port s ` set ps"
proof -
  have "\<not> {0xc000..<0xffff} \<subseteq> u_local_port s ` set ps"
  proof
    assume "{0xc000..<0xffff} \<subseteq> u_local_port s ` set ps"
    then have "card {0xc000..<0xffff :: u16} \<le> length ps" by (meson card_image_le card_mono finite_imageI card_length le_trans finite_set)
    moreover have "card {0xc000..<0xffff :: u16} = 0x3fff"
    proof -
      have "bij_betw unat {0xc000..<0xffff :: u16} {0xc000..<0xffff :: nat}"
        by (rule bij_betw_byWitness [where f' = "of_nat"]) (auto simp: word_le_nat_alt word_less_nat_alt unat_of_nat_u16)
      then show ?thesis by (simp add: bij_betw_same_card)
    qed
    ultimately show False using few by simp
  qed
  moreover have "\<forall>v. 0xc000 \<le> v \<and> v < 0xc000 \<longrightarrow> v \<in> u_local_port s ` set ([] @ ps)" by (meson not_less)
  ultimately show ?thesis using port_loop_spec [of s "[]" ps "udp_pcbs s" "0xc000"] c chain_first_ptr [OF c] by auto
qed

text \<open>A block with another local address and port, and at the head of the list if it was not on it.\<close>

definition enlist :: "ptr \<Rightarrow> udp \<Rightarrow> udp" where
  "enlist pcb s = (put_u_next pcb (udp_pcbs s) s)\<lparr>udp_pcbs := pcb\<rparr>"

definition bound :: "ptr list \<Rightarrow> ptr \<Rightarrow> u32 \<Rightarrow> u16 \<Rightarrow> udp \<Rightarrow> udp" where
  "bound ps pcb ip port s = (let s = put_u_local_port pcb port (put_u_local_ip pcb ip s) in if pcb \<in> set ps then s else enlist pcb s)"

lemma udp_bind_spec:
  assumes c: "chain (u_next s) (udp_pcbs s) ps" and few: "length ps < 0x3fff"
  shows "if \<exists>x\<in>set ps. x \<noteq> pcb \<and> clash s ip port x then udp_bind pcb ip port s = Some (ERR_USE, s)
    else \<exists>port'. udp_bind pcb ip port s = Some (ERR_OK, bound ps pcb ip port' s) \<and>
      (port \<noteq> 0 \<longrightarrow> port' = port) \<and> (port = 0 \<longrightarrow> 0xc000 \<le> port' \<and> port' < 0xffff \<and> (\<forall>x\<in>set ps. u_local_port s x \<noteq> port'))"
proof (cases "\<exists>x\<in>set ps. x \<noteq> pcb \<and> clash s ip port x")
  case True
  then show ?thesis unfolding udp_bind_def bind_check_spec [OF c] by simp
next
  case False
  then have tw: "takeWhile (\<lambda>x. x = pcb \<or> \<not> clash s ip port x) ps = ps" by (auto simp: takeWhile_eq_all_conv)
  let ?s = "put_u_local_ip pcb ip s"
  have "chain (u_next ?s) (udp_pcbs ?s) ps" using c by simp
  from free_port [OF this few] obtain fp where fp: "port_loop ?s (udp_pcbs ?s) 0xc000 = Some (NULL, fp)" "0xc000 \<le> fp" "fp < 0xffff"
    "fp \<notin> u_local_port ?s ` set ps" by blast
  let ?p = "if port = 0 then fp else port"
  have "udp_bind pcb ip port s = Some (ERR_OK, bound ps pcb ip ?p s)"
    unfolding udp_bind_def bind_check_spec [OF c] tw bound_def enlist_def using False fp(1) by (auto simp: Let_def)
  moreover have "port = 0 \<longrightarrow> 0xc000 \<le> ?p \<and> ?p < 0xffff \<and> (\<forall>x\<in>set ps. u_local_port s x \<noteq> ?p)" using fp(2-4) by auto
  ultimately show ?thesis unfolding if_not_P [OF False] by (intro exI [of _ ?p]) simp
qed

section \<open>The invariant of the list\<close>

text \<open>
  Every block on the list has a port, and no two of them clash.
\<close>

definition udp_ok :: "udp \<Rightarrow> ptr list \<Rightarrow> bool" where
  "udp_ok s ps \<longleftrightarrow> chain (u_next s) (udp_pcbs s) ps \<and> (\<forall>x\<in>set ps. u_local_port s x \<noteq> 0) \<and>
     (\<forall>x\<in>set ps. \<forall>y\<in>set ps. x \<noteq> y \<longrightarrow> \<not> clash s (u_local_ip s y) (u_local_port s y) x)"

lemma clash_sym: "clash s (u_local_ip s y) (u_local_port s y) x \<longleftrightarrow> clash s (u_local_ip s x) (u_local_port s x) y"
  by (auto simp: clash_def)

lemma clash_cong:
  "u_local_port s' x = u_local_port s x \<Longrightarrow> u_local_ip s' x = u_local_ip s x \<Longrightarrow> clash s' ip port x = clash s ip port x"
  by (simp add: clash_def)

lemma udp_ok_sub:
  assumes "udp_ok s ps" "chain (u_next s') (udp_pcbs s') qs" "set qs \<subseteq> set ps"
    and "\<And>x. x \<in> set qs \<Longrightarrow> u_local_port s' x = u_local_port s x \<and> u_local_ip s' x = u_local_ip s x"
  shows "udp_ok s' qs"
  unfolding udp_ok_def
proof (intro conjI ballI impI)
  fix x y assume h: "x \<in> set qs" "y \<in> set qs" "x \<noteq> y"
  have "\<not> clash s (u_local_ip s y) (u_local_port s y) x" using assms(1,3) h by (auto simp: udp_ok_def)
  then show "\<not> clash s' (u_local_ip s' y) (u_local_port s' y) x" using assms(4) h(1,2) clash_cong [of s' x s] by simp
qed (use assms in \<open>auto simp: udp_ok_def\<close>)

lemma enlist_chain:
  assumes "chain (u_next s) (udp_pcbs s) ps" "pcb \<notin> set ps" "pcb \<noteq> NULL"
  shows "chain (u_next (enlist pcb s)) (udp_pcbs (enlist pcb s)) (pcb # ps)"
  using assms by (auto simp: enlist_def elim!: chain_cong)

lemma bound_fields:
  "u_local_port (bound ps pcb ip port s) = (u_local_port s)(pcb := port)" "u_local_ip (bound ps pcb ip port s) = (u_local_ip s)(pcb := ip)"
  "uip (bound ps pcb ip port s) = uip s"
  by (auto simp: bound_def enlist_def Let_def)

lemma bound_chain:
  assumes c: "chain (u_next s) (udp_pcbs s) ps" and pcb: "pcb \<noteq> NULL"
  shows "chain (u_next (bound ps pcb ip port s)) (udp_pcbs (bound ps pcb ip port s)) (if pcb \<in> set ps then ps else pcb # ps)"
proof (cases "pcb \<in> set ps")
  case False
  then show ?thesis using enlist_chain [of "put_u_local_port pcb port (put_u_local_ip pcb ip s)" ps pcb] c pcb by (simp add: bound_def Let_def)
qed (use c in \<open>simp add: bound_def Let_def\<close>)

lemma bound_ok:
  assumes ok: "udp_ok s ps" and pcb: "pcb \<noteq> NULL" "port \<noteq> 0" and no: "\<forall>x\<in>set ps. x \<noteq> pcb \<longrightarrow> \<not> clash s ip port x"
  shows "udp_ok (bound ps pcb ip port s) (if pcb \<in> set ps then ps else pcb # ps)"
proof -
  let ?s = "bound ps pcb ip port s" and ?ps = "if pcb \<in> set ps then ps else pcb # ps"
  have c: "chain (u_next s) (udp_pcbs s) ps" using ok by (simp add: udp_ok_def)
  have "chain (u_next ?s) (udp_pcbs ?s) ?ps" by (rule bound_chain [OF c pcb(1)])
  moreover have "\<not> clash ?s (u_local_ip ?s y) (u_local_port ?s y) x" if h: "x \<in> set ?ps" "y \<in> set ?ps" "x \<noteq> y" for x y
  proof -
    have old: "z \<in> set ps" if "z \<noteq> pcb" "z \<in> set ?ps" for z using that by (auto split: if_splits)
    consider "x = pcb" | "y = pcb" | "x \<noteq> pcb" "y \<noteq> pcb" by blast
    then show ?thesis
    proof cases
      case 1
      then show ?thesis using no old [of y] h by (auto simp: clash_def bound_fields)
    next
      case 2
      then show ?thesis using no old [of x] h by (auto simp: clash_def bound_fields)
    next
      case 3
      then show ?thesis using ok old [of x] old [of y] h by (auto simp: udp_ok_def clash_def bound_fields)
    qed
  qed
  moreover have "\<forall>x\<in>set ?ps. u_local_port ?s x \<noteq> 0" using ok pcb(2) by (auto simp: udp_ok_def bound_fields)
  ultimately show ?thesis unfolding udp_ok_def by blast
qed

text \<open>
  C36: binding a block terminates. It is refused, and nothing changes, exactly if another block of the list clashes with the
  address and the port asked for. Otherwise the block gets them, or an ephemeral port that no block has if it asked for
  none, all other blocks keep theirs, and the block is on the list once.
\<close>

theorem udp_bind_result:
  assumes "chain (u_next s) (udp_pcbs s) ps" "length ps < 0x3fff" "pcb \<noteq> NULL"
  shows "if \<exists>x\<in>set ps. x \<noteq> pcb \<and> clash s ip port x then udp_bind pcb ip port s = Some (ERR_USE, s)
    else \<exists>port' s'. udp_bind pcb ip port s = Some (ERR_OK, s') \<and> u_local_ip s' = (u_local_ip s)(pcb := ip) \<and>
      u_local_port s' = (u_local_port s)(pcb := port') \<and> chain (u_next s') (udp_pcbs s') (if pcb \<in> set ps then ps else pcb # ps) \<and>
      (if port \<noteq> 0 then port' = port else 0xc000 \<le> port' \<and> port' < 0xffff \<and> port' \<notin> u_local_port s ` set ps)"
proof (cases "\<exists>x\<in>set ps. x \<noteq> pcb \<and> clash s ip port x")
  case True
  then show ?thesis using udp_bind_spec [OF assms(1,2), of pcb ip port] by simp
next
  case False
  from udp_bind_spec [OF assms(1,2), of pcb ip port, unfolded if_not_P [OF False]] obtain port' where
    b: "udp_bind pcb ip port s = Some (ERR_OK, bound ps pcb ip port' s)"
    "if port \<noteq> 0 then port' = port else 0xc000 \<le> port' \<and> port' < 0xffff \<and> port' \<notin> u_local_port s ` set ps" by (cases "port = 0") auto
  then show ?thesis unfolding if_not_P [OF False]
    using bound_fields(1,2) [of ps pcb ip port' s] bound_chain [OF assms(1,3), of ip port'] by (intro exI conjI)
qed

text \<open>The blocks \<open>A\<close> in use: those with a port are on the list.\<close>

definition udp_inv :: "ptr set \<Rightarrow> udp \<Rightarrow> bool" where
  "udp_inv A s \<longleftrightarrow> NULL \<notin> A \<and> finite A \<and> (\<exists>ps. udp_ok s ps \<and> set ps = {x \<in> A. u_local_port s x \<noteq> 0})"

lemma udp_bind_inv:
  assumes inv: "udp_inv A s" and pcb: "pcb \<in> A" "card A < 0x3fff"
  shows "\<exists>e s'. udp_bind pcb ip port s = Some (e, s') \<and> udp_inv A s' \<and> uip s' = uip s \<and> (e = ERR_OK \<longrightarrow> u_local_port s' pcb \<noteq> 0)"
proof -
  from inv obtain ps where ps: "udp_ok s ps" "set ps = {x \<in> A. u_local_port s x \<noteq> 0}" and A: "NULL \<notin> A" "finite A" by (auto simp: udp_inv_def)
  have c: "chain (u_next s) (udp_pcbs s) ps" using ps(1) by (simp add: udp_ok_def)
  have "length ps = card (set ps)" using chain_distinct [OF c] by (simp add: distinct_card)
  also have "\<dots> \<le> card A" using ps(2) A(2) by (intro card_mono) auto
  finally have few: "length ps < 0x3fff" using pcb(2) by simp
  note spec = udp_bind_spec [OF c few, of pcb ip port]
  show ?thesis
  proof (cases "\<exists>x\<in>set ps. x \<noteq> pcb \<and> clash s ip port x")
    case True
    then show ?thesis using spec inv by (intro exI [of _ ERR_USE] exI [of _ s]) simp
  next
    case False
    from spec [unfolded if_not_P [OF False]] obtain port' where b: "udp_bind pcb ip port s = Some (ERR_OK, bound ps pcb ip port' s)" "port \<noteq> 0 \<longrightarrow> port' = port"
      "port = 0 \<longrightarrow> 0xc000 \<le> port' \<and> port' < 0xffff \<and> (\<forall>x\<in>set ps. u_local_port s x \<noteq> port')" by blast
    have p: "port' \<noteq> 0"
    proof (cases "port = 0")
      case True
      then have "0xc000 \<le> port'" using b(3) by blast
      then show ?thesis by (auto simp: word_le_nat_alt)
    qed (use b(2) in simp)
    have "\<forall>x\<in>set ps. x \<noteq> pcb \<longrightarrow> \<not> clash s ip port' x" using False b(2,3) by (cases "port = 0") (auto simp: clash_def)
    note ok = bound_ok [OF ps(1) _ p this]
    let ?ps = "if pcb \<in> set ps then ps else pcb # ps"
    have n: "pcb \<noteq> NULL" using A(1) pcb(1) by auto
    have "set ?ps = insert pcb (set ps)" by auto
    also have "\<dots> = {x \<in> A. u_local_port (bound ps pcb ip port' s) x \<noteq> 0}" unfolding ps(2) bound_fields using pcb(1) p by auto
    finally have "udp_inv A (bound ps pcb ip port' s)" unfolding udp_inv_def using A ok [OF n] by blast
    then show ?thesis using b(1) p by (auto simp: bound_fields)
  qed
qed

lemma on_list_spec: "chain (u_next s) q ps \<Longrightarrow> on_list s pcb q = Some (pcb \<in> set ps)"
  by (induction ps arbitrary: q) (subst on_list.simps, auto)+

lemma udp_inv_cong:
  assumes "udp_inv A s" "u_next s' = u_next s" "udp_pcbs s' = udp_pcbs s" "u_local_port s' = u_local_port s" "u_local_ip s' = u_local_ip s"
  shows "udp_inv A s'"
  using assms by (simp add: udp_inv_def udp_ok_def clash_def)

lemma udp_connect_inv:
  assumes inv: "udp_inv A s" and pcb: "pcb \<in> A" "card A < 0x3fff"
  shows "\<exists>e s'. udp_connect pcb ip port s = Some (e, s') \<and> udp_inv A s'"
proof -
  have "\<exists>e s1. (if u_local_port s pcb = 0 then udp_bind pcb (u_local_ip s pcb) (u_local_port s pcb) s else Some (ERR_OK, s)) = Some (e, s1) \<and>
      udp_inv A s1 \<and> (e = ERR_OK \<longrightarrow> u_local_port s1 pcb \<noteq> 0)"
    using udp_bind_inv [OF assms, of "u_local_ip s pcb" "u_local_port s pcb"] inv by auto
  then obtain e s1 where s1: "(if u_local_port s pcb = 0 then udp_bind pcb (u_local_ip s pcb) (u_local_port s pcb) s else Some (ERR_OK, s)) = Some (e, s1)"
    "udp_inv A s1" "e = ERR_OK \<longrightarrow> u_local_port s1 pcb \<noteq> 0" by blast
  show ?thesis
  proof (cases "e = ERR_OK")
    case False
    then show ?thesis unfolding udp_connect_def s1(1) using s1(2) by simp
  next
    case True
    let ?s = "s1\<lparr>u_remote_ip := (u_remote_ip s1)(pcb := ip), u_remote_port := (u_remote_port s1)(pcb := port),
      u_flags := (u_flags s1)(pcb := u_flags s1 pcb OR UDP_FLAGS_CONNECTED)\<rparr>"
    from s1(2) obtain ps where ps: "udp_ok s1 ps" "set ps = {x \<in> A. u_local_port s1 x \<noteq> 0}" by (auto simp: udp_inv_def)
    then have "chain (u_next ?s) (udp_pcbs ?s) ps" by (simp add: udp_ok_def)
    moreover have "pcb \<in> set ps" using ps(2) pcb(1) s1(3) True by simp
    ultimately have "on_list ?s pcb (udp_pcbs ?s) = Some True" using on_list_spec by auto
    then have "udp_connect pcb ip port s = Some (ERR_OK, ?s)" unfolding udp_connect_def s1(1) using True by simp
    moreover have "udp_inv A ?s" by (rule udp_inv_cong [OF s1(2)]) simp_all
    ultimately show ?thesis by blast
  qed
qed

lemma remove_loop_absent:
  "chain (u_next s) q ps \<Longrightarrow> pcb \<notin> set ps \<Longrightarrow> pcb \<noteq> NULL \<Longrightarrow> remove_loop pcb q s = Some s"
proof (induction ps arbitrary: q)
  case Nil
  then show ?case by (subst remove_loop.simps) simp
next
  case (Cons x ps)
  then have "u_next s x \<noteq> pcb" by (cases ps) auto
  then show ?case using Cons by (subst remove_loop.simps) auto
qed

lemma remove_loop_present:
  "chain (u_next s) q (as @ pcb # bs) \<Longrightarrow> as \<noteq> [] \<Longrightarrow> remove_loop pcb q s = Some (put_u_next (last as) (u_next s pcb) s)"
proof (induction as arbitrary: q)
  case (Cons a as)
  have a: "q = a" "a \<noteq> NULL" "chain (u_next s) (u_next s a) (as @ pcb # bs)" using Cons.prems(1) by auto
  have d: "distinct (a # as @ pcb # bs)" using chain_distinct [OF Cons.prems(1)] by simp
  show ?case
  proof (cases as)
    case Nil
    then have n: "u_next s a = pcb" "pcb \<noteq> NULL" "chain (u_next s) (u_next s pcb) bs" using a(3) by auto
    let ?s = "put_u_next a (u_next s pcb) s"
    have "chain (u_next ?s) (u_next s pcb) bs" by (rule chain_cong [OF n(3)]) (use d in auto)
    then have "remove_loop pcb (u_next s pcb) ?s = Some ?s" by (rule remove_loop_absent) (use d n in auto)
    then show ?thesis using a n Nil by (subst remove_loop.simps) simp
  next
    case (Cons b cs)
    then have "u_next s a \<noteq> pcb" using a(3) d by auto
    then have "remove_loop pcb q s = remove_loop pcb (u_next s a) s" using a(1,2) by (subst remove_loop.simps) simp
    then show ?thesis using Cons.IH [OF a(3)] Cons by simp
  qed
qed simp

lemma udp_remove_inv:
  assumes inv: "udp_inv A s" and pcb: "pcb \<in> A" and r: "udp_remove pcb s = Some s'"
  shows "udp_inv (A - {pcb}) s'"
proof -
  from inv obtain ps where ps: "udp_ok s ps" "set ps = {x \<in> A. u_local_port s x \<noteq> 0}" and A: "NULL \<notin> A" "finite A" by (auto simp: udp_inv_def)
  have c: "chain (u_next s) (udp_pcbs s) ps" using ps(1) by (simp add: udp_ok_def)
  have n: "pcb \<noteq> NULL" using A pcb by auto
  have "\<exists>s1 qs. (if udp_pcbs s = pcb then if pcb = NULL then None else Some (s\<lparr>udp_pcbs := u_next s (udp_pcbs s)\<rparr>)
      else remove_loop pcb (udp_pcbs s) s) = Some s1 \<and> chain (u_next s1) (udp_pcbs s1) qs \<and> set qs = set ps - {pcb} \<and>
      u_local_port s1 = u_local_port s \<and> u_local_ip s1 = u_local_ip s"
  proof (cases "pcb \<in> set ps")
    case False
    then have "udp_pcbs s \<noteq> pcb" using c n by (cases ps) auto
    then show ?thesis using remove_loop_absent [OF c False n] c False by auto
  next
    case True
    then obtain as bs where ab: "ps = as @ pcb # bs" by (meson split_list)
    have d: "distinct ps" by (rule chain_distinct [OF c])
    show ?thesis
    proof (cases as)
      case Nil
      then have "udp_pcbs s = pcb" "chain (u_next s) (u_next s pcb) bs" using c ab by auto
      then show ?thesis using n ab Nil d by (intro exI [of _ "s\<lparr>udp_pcbs := u_next s pcb\<rparr>"] exI [of _ bs]) auto
    next
      case (Cons a cs)
      then have h: "udp_pcbs s = a" "a \<noteq> pcb" using c ab d by auto
      let ?s = "put_u_next (last as) (u_next s pcb) s"
      have "chain (u_next s) (u_next s a) (cs @ pcb # bs)" using c ab Cons by simp
      from chain_remove [OF this] have "chain (u_next ?s) (u_next ?s a) (cs @ bs)" using d ab Cons by simp
      then have "chain (u_next ?s) (udp_pcbs ?s) (as @ bs)" using h c ab Cons by simp
      moreover have "remove_loop pcb (udp_pcbs s) s = Some ?s" by (rule remove_loop_present) (use c ab Cons in auto)
      ultimately show ?thesis using h d ab by (intro exI [of _ ?s] exI [of _ "as @ bs"]) auto
    qed
  qed
  then obtain s1 qs where s1: "(if udp_pcbs s = pcb then if pcb = NULL then None else Some (s\<lparr>udp_pcbs := u_next s (udp_pcbs s)\<rparr>)
      else remove_loop pcb (udp_pcbs s) s) = Some s1" "chain (u_next s1) (udp_pcbs s1) qs" "set qs = set ps - {pcb}"
      "u_local_port s1 = u_local_port s" "u_local_ip s1 = u_local_ip s" by blast
  have s': "u_next s' = u_next s1" "udp_pcbs s' = udp_pcbs s1" "u_local_port s' = u_local_port s" "u_local_ip s' = u_local_ip s"
    using r s1(4,5) unfolding udp_remove_def s1(1) by (auto simp: bind_eq_Some_conv)
  have "udp_ok s' qs" by (rule udp_ok_sub [OF ps(1)]) (use s1(2,3) s' in auto)
  then show ?thesis unfolding udp_inv_def using A s1(3) ps(2) s'(3) by (intro conjI exI [of _ qs]) auto
qed

section \<open>The receiver of a packet\<close>

definition full_match :: "udp \<Rightarrow> bool \<Rightarrow> u16 \<Rightarrow> u16 \<Rightarrow> ptr \<Rightarrow> bool" where
  "full_match s bc src dest x \<longleftrightarrow> local_match s bc dest x \<and> remote_match s src x"

definition open_match :: "udp \<Rightarrow> bool \<Rightarrow> u16 \<Rightarrow> ptr \<Rightarrow> bool" where
  "open_match s bc dest x \<longleftrightarrow> local_match s bc dest x \<and> u_flags s x AND UDP_FLAGS_CONNECTED = 0"

abbreviation found :: "ptr option \<Rightarrow> ptr" where
  "found x \<equiv> (case x of Some p \<Rightarrow> p | None \<Rightarrow> NULL)"

lemma found_append: "NULL \<notin> set as \<Longrightarrow> found (find P (as @ [x])) = (if found (find P as) = NULL \<and> P x then x else found (find P as))"
  by (induction as) auto

text \<open>A block in the middle of the list is moved to its head.\<close>

lemma move_front_chain:
  assumes c: "chain (u_next s) (udp_pcbs s) (as @ x # bs)" and n: "as \<noteq> []"
  shows "chain ((u_next s)(last as := u_next s x, x := udp_pcbs s)) x (x # as @ bs)"
proof -
  obtain a cs where as: "as = a # cs" using n by (cases as) auto
  have d: "distinct (as @ x # bs)" by (rule chain_distinct [OF c])
  have h: "udp_pcbs s = a" "a \<noteq> NULL" "x \<noteq> NULL" using c as chain_nonnull [OF c, of x] by auto
  have "chain (u_next s) (u_next s a) (cs @ x # bs)" using c as by simp
  from chain_remove [OF this] have "chain ((u_next s)(last as := u_next s x)) (((u_next s)(last as := u_next s x)) a) (cs @ bs)" using d as by simp
  then have "chain ((u_next s)(last as := u_next s x)) a (as @ bs)" using as h by simp
  moreover have "x \<notin> set (as @ bs)" using d by auto
  ultimately have "chain ((u_next s)(last as := u_next s x, x := udp_pcbs s)) (udp_pcbs s) (as @ bs)"
    unfolding h(1) by (auto elim!: chain_cong)
  then show ?thesis using h by simp
qed

lemma demux_loop_spec:
  assumes "chain (u_next s) (udp_pcbs s) (as @ qs)" "q = first_ptr qs" "prev = (if as = [] then NULL else last as)"
    and "\<forall>x\<in>set as. \<not> full_match s bc src dest x" "uncon = found (find (open_match s bc dest) as)"
  shows "demux_loop bc src dest q prev uncon s = Some (case find (full_match s bc src dest) qs of
      None \<Rightarrow> (found (find (open_match s bc dest) (as @ qs)), s)
    | Some x \<Rightarrow> (x, if as = [] \<and> qs \<noteq> [] \<and> x = hd qs then s else
        s\<lparr>u_next := (u_next s)(last (as @ takeWhile (\<lambda>y. y \<noteq> x) qs) := u_next s x, x := udp_pcbs s), udp_pcbs := x\<rparr>))"
  using assms
proof (induction qs arbitrary: as q prev uncon)
  case Nil
  then show ?case by (subst demux_loop.simps) simp
next
  case (Cons x qs)
  have x: "q = x" "x \<noteq> NULL" "u_next s x = first_ptr qs" "x \<notin> set as"
    using Cons.prems(1,2) chain_nonnull [OF Cons.prems(1), of x] chain_suffix [OF Cons.prems(1)] chain_distinct [OF Cons.prems(1)]
    by (auto simp: chain_first_ptr)
  have last: "as \<noteq> [] \<Longrightarrow> last as \<noteq> NULL \<and> last as \<noteq> x" using chain_nonnull [OF Cons.prems(1), of "last as"] x(4) by (metis last_in_set in_set_conv_decomp append_assoc Un_iff set_append)
  show ?case
  proof (cases "full_match s bc src dest x")
    case True
    then show ?thesis using x Cons.prems(3) last
      by (subst demux_loop.simps) (auto simp: full_match_def [symmetric] Let_def)
  next
    case False
    let ?u = "if local_match s bc dest x \<and> uncon = NULL \<and> u_flags s x AND UDP_FLAGS_CONNECTED = 0 then x else uncon"
    have "demux_loop bc src dest q prev uncon s = demux_loop bc src dest (first_ptr qs) x ?u s"
      using x False by (subst demux_loop.simps) (simp add: full_match_def [symmetric] Let_def)
    moreover have "?u = found (find (open_match s bc dest) (as @ [x]))"
      using found_append [of as "open_match s bc dest" x] chain_NULL_notin [OF Cons.prems(1)] Cons.prems(5) by (auto simp: open_match_def [of s bc dest x])
    moreover have "takeWhile (\<lambda>y. y \<noteq> z) (x # qs) = x # takeWhile (\<lambda>y. y \<noteq> z) qs" if "find (full_match s bc src dest) qs = Some z" for z
      using that False by (auto simp: find_Some_iff)
    ultimately show ?thesis using Cons.IH [of "as @ [x]" "first_ptr qs" x ?u] Cons.prems(1,4) False
      by (auto split: option.splits)
  qed
qed

lemma udp_demux_spec:
  assumes c: "chain (u_next s) (udp_pcbs s) ps" and d: "dest \<noteq> DHCP_CLIENT_PORT"
  shows "\<exists>s'. udp_demux bc src dest inp s = Some (case find (full_match s bc src dest) ps of
      Some x \<Rightarrow> x | None \<Rightarrow> found (find (open_match s bc dest) ps), s') \<and>
    s' = s\<lparr>u_next := u_next s', udp_pcbs := udp_pcbs s'\<rparr> \<and>
    chain (u_next s') (udp_pcbs s') (case find (full_match s bc src dest) ps of Some x \<Rightarrow> x # remove1 x ps | None \<Rightarrow> ps)"
proof -
  let ?f = "full_match s bc src dest"
  have l: "udp_demux bc src dest inp s = Some (case find ?f ps of None \<Rightarrow> (found (find (open_match s bc dest) ps), s)
    | Some x \<Rightarrow> (x, if ps \<noteq> [] \<and> x = hd ps then s else
        s\<lparr>u_next := (u_next s)(last (takeWhile (\<lambda>y. y \<noteq> x) ps) := u_next s x, x := udp_pcbs s), udp_pcbs := x\<rparr>))"
    using demux_loop_spec [of s "[]" ps "udp_pcbs s" NULL bc src dest NULL] c d chain_first_ptr [OF c]
    by (auto simp: udp_demux_def split: option.splits)
  show ?thesis
  proof (cases "find ?f ps")
    case None
    then show ?thesis unfolding l using c by (intro exI [of _ s]) simp
  next
    case (Some x)
    then have "x \<in> set ps" by (auto simp: find_Some_iff)
    then obtain as bs where ab: "ps = as @ x # bs" "x \<notin> set as" by (meson split_list_first)
    have r: "remove1 x ps = as @ bs" "takeWhile (\<lambda>y. y \<noteq> x) ps = as" using ab by (auto simp: remove1_append takeWhile_append)
    show ?thesis
    proof (cases as)
      case Nil
      then show ?thesis unfolding l using c ab r Some by (intro exI [of _ s]) simp
    next
      case (Cons a cs)
      then have "as \<noteq> []" "x \<noteq> hd ps" using ab by auto
      then show ?thesis unfolding l using Some r move_front_chain [OF c [unfolded ab(1)]] by simp
    qed
  qed
qed

text \<open>
  C37: the receiver of a packet is the first block of the list that fits its source and destination,
  otherwise the first unconnected one that fits its destination, otherwise none. The one that fits both is
  moved to the head of the list, and all others stay on the list in their order.
\<close>

theorem udp_demux_selects:
  assumes "chain (u_next s) (udp_pcbs s) ps" "dest \<noteq> DHCP_CLIENT_PORT"
  shows "\<exists>s'. udp_demux bc src dest inp s = Some (case find (full_match s bc src dest) ps of
      Some x \<Rightarrow> x | None \<Rightarrow> (case find (open_match s bc dest) ps of Some x \<Rightarrow> x | None \<Rightarrow> NULL), s') \<and>
    s' = s\<lparr>u_next := u_next s', udp_pcbs := udp_pcbs s'\<rparr> \<and>
    chain (u_next s') (udp_pcbs s') (case find (full_match s bc src dest) ps of Some x \<Rightarrow> x # remove1 x ps | None \<Rightarrow> ps)"
  by (rule udp_demux_spec [OF assms])

lemma udp_demux_inv:
  assumes inv: "udp_inv A s"
  shows "\<exists>pcb s'. udp_demux bc src dest inp s = Some (pcb, s') \<and> udp_inv A s'"
proof (cases "dest = DHCP_CLIENT_PORT")
  case False
  from inv obtain ps where ps: "udp_ok s ps" "set ps = {x \<in> A. u_local_port s x \<noteq> 0}" and A: "NULL \<notin> A" "finite A" by (auto simp: udp_inv_def)
  then have "chain (u_next s) (udp_pcbs s) ps" by (simp add: udp_ok_def)
  from udp_demux_spec [OF this False, of bc src inp] obtain pcb s' where r: "udp_demux bc src dest inp s = Some (pcb, s')"
    "s' = s\<lparr>u_next := u_next s', udp_pcbs := udp_pcbs s'\<rparr>"
    "chain (u_next s') (udp_pcbs s') (case find (full_match s bc src dest) ps of Some x \<Rightarrow> x # remove1 x ps | None \<Rightarrow> ps)" by blast
  let ?qs = "case find (full_match s bc src dest) ps of Some x \<Rightarrow> x # remove1 x ps | None \<Rightarrow> ps"
  have "insert x (set (remove1 x ps)) = set ps" if "x \<in> set ps" for x using that by (induction ps) auto
  moreover have "x \<in> set ps" if "find (full_match s bc src dest) ps = Some x" for x using that by (auto simp: find_Some_iff)
  ultimately have st: "set ?qs = set ps" by (cases "find (full_match s bc src dest) ps") simp_all
  have e: "u_local_port s' = u_local_port s" "u_local_ip s' = u_local_ip s" 
    using arg_cong [OF r(2), of u_local_port] arg_cong [OF r(2), of u_local_ip] by simp_all
  have "udp_ok s' ?qs" by (rule udp_ok_sub [OF ps(1) r(3)]) (use st e in auto)
  then have "udp_inv A s'" unfolding udp_inv_def using A st ps(2) e by (intro conjI exI [of _ ?qs]) auto
  then show ?thesis using r(1) by blast
qed (use inv in \<open>simp add: udp_demux_def\<close>)

text \<open>Sending changes the control blocks only if the sender has no port yet.\<close>

lemma udp_free_blocks: "udp_free p s = Some s' \<Longrightarrow> \<exists>i. s' = s\<lparr>uip := i\<rparr>"
  by (auto simp: udp_free_def bind_eq_Some_conv)

lemma udp_sendto_if_inv:
  assumes inv: "udp_inv A s" and pcb: "pcb \<in> A" "card A < 0x3fff" and r: "udp_sendto_if_chksum out pcb p dst_ip dst_port nif hc c s = Some (e, s')"
  shows "udp_inv A s'"
proof (cases "u_so_options s pcb AND SOF_BROADCAST = 0 \<and> ip4_addr_isbroadcast dst_ip (netifs (uip s) nif) \<noteq> 0")
  case False
  let ?b = "if u_local_port s pcb = 0 then udp_bind pcb (u_local_ip s pcb) (u_local_port s pcb) s else Some (ERR_OK, s)"
  have "\<exists>e1 s1. ?b = Some (e1, s1) \<and> udp_inv A s1"
    using udp_bind_inv [OF inv pcb, of "u_local_ip s pcb" "u_local_port s pcb"] inv by auto
  then obtain e1 s1 where s1: "?b = Some (e1, s1)" "udp_inv A s1" by blast
  have "\<exists>i. s' = s1\<lparr>uip := i\<rparr>"
    using r unfolding udp_sendto_if_chksum_def if_not_P [OF False] s1(1)
    by (auto simp: bind_eq_Some_conv Let_def split: if_splits prod.splits dest!: udp_free_blocks intro: exI [of _ "uip s1"])
  then obtain i where "s' = s1\<lparr>uip := i\<rparr>" by blast
  then show ?thesis by (intro udp_inv_cong [OF s1(2)]) simp_all
qed (use inv r in \<open>simp add: udp_sendto_if_chksum_def\<close>)

section \<open>Runs\<close>

text \<open>
  What the applications and the network do with the control blocks \<open>A\<close> in use. A new block is one that was not in use,
  which the memory pools guarantee; the fields of IP change in between.
\<close>

inductive udp_step :: "ptr set \<times> udp \<Rightarrow> ptr set \<times> udp \<Rightarrow> bool" where
  step_new: "udp_new s = (pcb, s') \<Longrightarrow> pcb \<noteq> NULL \<Longrightarrow> pcb \<notin> A \<Longrightarrow> card A < 0x3ffe \<Longrightarrow> udp_step (A, s) (insert pcb A, s')"
| step_bind: "pcb \<in> A \<Longrightarrow> udp_bind pcb ip port s = Some (e, s') \<Longrightarrow> udp_step (A, s) (A, s')"
| step_connect: "pcb \<in> A \<Longrightarrow> udp_connect pcb ip port s = Some (e, s') \<Longrightarrow> udp_step (A, s) (A, s')"
| step_disconnect: "udp_step (A, s) (A, udp_disconnect pcb s)"
| step_recv: "udp_step (A, s) (A, udp_recv pcb recv arg s)"
| step_remove: "pcb \<in> A \<Longrightarrow> udp_remove pcb s = Some s' \<Longrightarrow> udp_step (A, s) (A - {pcb}, s')"
| step_sendto: "pcb \<in> A \<Longrightarrow> udp_sendto_if_chksum out pcb p ip port nif hc c s = Some (e, s') \<Longrightarrow> udp_step (A, s) (A, s')"
| step_demux: "udp_demux bc src dest inp s = Some (pcb, s') \<Longrightarrow> udp_step (A, s) (A, s')"
| step_net: "udp_step (A, s) (A, s\<lparr>uip := i\<rparr>)"

lemma udp_new_inv:
  assumes inv: "udp_inv A s" and r: "udp_new s = (pcb, s')" "pcb \<noteq> NULL" "pcb \<notin> A"
  shows "udp_inv (insert pcb A) s'"
proof -
  from inv obtain ps where ps: "udp_ok s ps" "set ps = {x \<in> A. u_local_port s x \<noteq> 0}" and A: "NULL \<notin> A" "finite A" by (auto simp: udp_inv_def)
  have f: "u_next s' = (u_next s)(pcb := NULL)" "udp_pcbs s' = udp_pcbs s" "u_local_port s' = (u_local_port s)(pcb := 0)" "u_local_ip s' = (u_local_ip s)(pcb := 0)"
    using r(1,2) by (auto simp: udp_new_def Let_def split: prod.splits if_splits)
  have n: "pcb \<notin> set ps" using ps(2) r(3) by auto
  have "chain (u_next s') (udp_pcbs s') ps" unfolding f(1,2) by (rule chain_cong [of "u_next s"]) (use ps(1) n in \<open>auto simp: udp_ok_def\<close>)
  then have "udp_ok s' ps" by (rule udp_ok_sub [OF ps(1)]) (use n f in auto)
  moreover have "set ps = {x \<in> insert pcb A. u_local_port s' x \<noteq> 0}" using ps(2) r(3) by (auto simp: f(3))
  ultimately show ?thesis unfolding udp_inv_def using A r(2) by (intro conjI exI [of _ ps]) auto
qed

lemma udp_step_inv:
  assumes "udp_step (A, s) (A', s')" "udp_inv A s" "card A < 0x3fff"
  shows "udp_inv A' s' \<and> card A' < 0x3fff"
  using assms(1)
proof cases
  case (step_new pcb)
  then show ?thesis using udp_new_inv [OF assms(2)] assms(2) by (auto simp: udp_inv_def)
next
  case (step_bind pcb ip port e)
  then show ?thesis using udp_bind_inv [OF assms(2) _ assms(3), of pcb ip port] assms(3) by auto
next
  case (step_connect pcb ip port e)
  then show ?thesis using udp_connect_inv [OF assms(2) _ assms(3), of pcb ip port] assms(3) by auto
next
  case (step_remove pcb)
  have "card (A - {pcb}) \<le> card A" using assms(2) by (intro card_mono) (auto simp: udp_inv_def)
  then show ?thesis using step_remove udp_remove_inv [OF assms(2)] assms(3) by auto
next
  case (step_sendto pcb out p ip port nif hc c e)
  then show ?thesis using udp_sendto_if_inv [OF assms(2) _ assms(3)] assms(3) by blast
next
  case (step_demux bc src dest inp pcb)
  then show ?thesis using udp_demux_inv [OF assms(2), of bc src dest inp] assms(3) by auto
qed (use assms in \<open>auto intro!: udp_inv_cong [OF assms(2)] simp: udp_disconnect_def udp_recv_def Let_def\<close>)

lemma udp_run_inv:
  assumes "udp_step\<^sup>*\<^sup>* (A, s) (A', s')" "udp_inv A s" "card A < 0x3fff"
  shows "udp_inv A' s' \<and> card A' < 0x3fff"
  using assms(1)
proof (induction "(A', s')" arbitrary: A' s' rule: rtranclp_induct)
  case (step y)
  then show ?case using udp_step_inv by (cases y) blast
qed (use assms in auto)

text \<open>A packet that arrives is a part of a run if the callback of the application is one.\<close>

lemma step_runs:
  "udp_step\<^sup>*\<^sup>* (A, s\<lparr>uip := i\<rparr>) B \<Longrightarrow> udp_step\<^sup>*\<^sup>* (A, s) B"
  "udp_demux bc src dest inp s = Some (pcb, t) \<Longrightarrow> udp_step\<^sup>*\<^sup>* (A, t) B \<Longrightarrow> udp_step\<^sup>*\<^sup>* (A, s) B"
  by (erule converse_rtranclp_into_rtranclp [of udp_step, OF step_net], erule converse_rtranclp_into_rtranclp [of udp_step, OF step_demux])

lemma udp_no_port_net: "udp_no_port out p hlen bc s = Some s' \<Longrightarrow> \<exists>i. s' = s\<lparr>uip := i\<rparr>"
  by (auto simp: udp_no_port_def bind_eq_Some_conv Let_def split: if_splits dest!: udp_free_blocks)

lemma udp_input_run:
  assumes cb: "\<And>f arg pcb q addr port s1 s2. call_recv f arg pcb q addr port s1 = Some s2 \<Longrightarrow> \<exists>A2. udp_step\<^sup>*\<^sup>* (A, s1) (A2, s2)"
    and r: "udp_input out call_recv p inp s = Some s'"
  shows "\<exists>A'. udp_step\<^sup>*\<^sup>* (A, s) (A', s')"
proof -
  have net: "\<exists>A'. udp_step\<^sup>*\<^sup>* (A, t) (A', t\<lparr>uip := i\<rparr>)" for t i using step_net [of A t i] by blast
  have free: "\<exists>A'. udp_step\<^sup>*\<^sup>* (A, t) (A', s')" if "udp_free p (t\<lparr>uip := i\<rparr>) = Some s'" for t i
    using udp_free_blocks [OF that] net [of t] by auto
  have free0: "\<exists>A'. udp_step\<^sup>*\<^sup>* (A, t) (A', s')" if "udp_free p t = Some s'" for t
    using udp_free_blocks [OF that] net [of t] by auto
  have port: "\<exists>A'. udp_step\<^sup>*\<^sup>* (A, t) (A', s')" if "udp_no_port out p hlen bc (t\<lparr>uip := i\<rparr>) = Some s'" for t i hlen bc
    using udp_no_port_net [OF that] net [of t] by auto
  have call: "\<exists>A'. udp_step\<^sup>*\<^sup>* (A, t) (A', s')" if "call_recv f arg pcb q addr port (t\<lparr>uip := i\<rparr>) = Some s'" for t i f arg pcb q addr port
    using cb [OF that] step_runs(1) by blast
  have deliver: "\<exists>A'. udp_step\<^sup>*\<^sup>* (A, s) (A', s')"
    if "udp_demux bc src dest inp (s\<lparr>uip := i\<rparr>) = Some (pcb, t)" "\<exists>A'. udp_step\<^sup>*\<^sup>* (A, t) (A', s')" for bc src dest i pcb t
    using that(2) step_runs(1) [OF step_runs(2) [OF that(1)]] by blast
  show ?thesis using r unfolding udp_input_def
    by (auto simp: Let_def bind_eq_Some_conv split: prod.splits if_splits intro: free free0 deliver port call)
qed

text \<open>
  C35: from the empty list on, whatever the applications and the network do, the list of control blocks holds exactly the blocks in
  use that have a port, and two blocks on it never share a local port unless both are bound to different
  addresses.
\<close>

theorem udp_ports_unique:
  assumes "udp_pcbs s = NULL" "udp_step\<^sup>*\<^sup>* ({}, s) (A, s')"
  shows "\<exists>ps. chain (u_next s') (udp_pcbs s') ps \<and> distinct ps \<and> set ps = {x \<in> A. u_local_port s' x \<noteq> 0} \<and>
    (\<forall>x\<in>set ps. \<forall>y\<in>set ps. x \<noteq> y \<and> u_local_port s' x = u_local_port s' y \<longrightarrow>
      u_local_ip s' x \<noteq> u_local_ip s' y \<and> u_local_ip s' x \<noteq> IPADDR_ANY \<and> u_local_ip s' y \<noteq> IPADDR_ANY)"
proof -
  have "udp_ok s []" using assms(1) by (simp add: udp_ok_def)
  then have "udp_inv {} s" by (auto simp: udp_inv_def)
  then have "udp_inv A s'" using udp_run_inv [OF assms(2)] by simp
  then obtain ps where ps: "udp_ok s' ps" "set ps = {x \<in> A. u_local_port s' x \<noteq> 0}" by (auto simp: udp_inv_def)
  moreover have "distinct ps" using ps(1) chain_distinct by (auto simp: udp_ok_def)
  ultimately show ?thesis unfolding udp_ok_def clash_def ip_addr_isany_def by (intro exI [of _ ps]) auto
qed

section \<open>The datagram that is sent\<close>

definition udp_header :: "u16 \<Rightarrow> u16 \<Rightarrow> u16 \<Rightarrow> u16 \<Rightarrow> u8 list" where
  "udp_header src dest len c = [ucast (drop_bit 8 src), ucast src, ucast (drop_bit 8 dest), ucast dest, ucast (drop_bit 8 len), ucast len,
     ucast c, ucast (drop_bit 8 c)]"

lemma chksum_completed:
  fixes v :: u16
  assumes A: "even (length A)" and n: "le_sum (A @ [0, 0] @ B) \<noteq> 0" and v: "(le_sum (A @ [0, 0] @ B) + unat v) mod 65535 = 0"
  shows "chksum_field (A @ [ucast v, ucast (drop_bit 8 v)] @ B) = 0"
proof -
  let ?n = "le_sum (A @ [0, 0] @ B)"
  have s: "le_sum (A @ [ucast v, ucast (drop_bit 8 v)] @ B) = ?n + unat v" using word_parts [of v] A by (simp add: le_sum_append)
  have "oc (?n + unat v) = oc 65535" using n v by (intro oc_cong) auto
  then show ?thesis unfolding chksum_field_0 s by (simp add: oc_def)
qed

lemma oc_neg: "(n + (65535 - oc n)) mod 65535 = 0"
  using oc_le [of n] oc_mod [of n] by (metis mod_add_left_eq le_add_diff_inverse mod_self)

lemma mod_eq_0_add: "a mod m = 0 \<Longrightarrow> b mod m = 0 \<Longrightarrow> (a + b) mod m = (0 :: nat)"
  by (metis mod_add_eq add_0 mod_0)

text \<open>The checksum, with the sum of the data computed now or before, is never 0 and completes the datagram.\<close>

lemma udp_chksum_valid:
  assumes c: "chain (pb_next m) q qs" and d: "cdata m qs = udp_header src dest len 0 @ D" and k: "hc \<Longrightarrow> ds = of_nat (oc (le_sum D))"
  shows "\<exists>v. udp_chksum q a b hc ds m = Some v \<and> v \<noteq> 0 \<and>
    chksum_field (pseudo_bytes a b IP_PROTO_UDP (pb_tot_len m q) @ udp_header src dest len v @ D) = 0"
proof -
  let ?P = "pseudo_bytes a b IP_PROTO_UDP (pb_tot_len m q)"
  let ?A = "?P @ [ucast (drop_bit 8 src), ucast src, ucast (drop_bit 8 dest), ucast dest, ucast (drop_bit 8 len), ucast len]"
  have ev: "even (length ?A)" "even (length (?A @ [0, 0]))" by (simp_all add: pseudo_bytes_def word_bytes_def)
  let ?S = "le_sum (?A @ [0, 0])" and ?T = "le_sum D"
  have sum: "le_sum (?A @ [0, 0] @ D) = ?S + ?T" using le_sum_append [OF ev(2), of D] by simp
  have "17 \<in> set (?A @ [0, 0] @ D)" by (simp add: pseudo_bytes_def)
  moreover have "(17 :: u8) \<noteq> 0" by simp
  ultimately have nz: "le_sum (?A @ [0, 0] @ D) \<noteq> 0" using sum_eq_0(2) [of "?A @ [0, 0] @ D"] by metis
  have uo: "unat (of_nat (oc n) :: u16) = oc n" for n using oc_le [of n] by (simp add: unat_of_nat_u16)
  have cf: "unat (chksum_field E) = 65535 - oc (le_sum E)" for E by (simp add: chksum_field_le unat_not_u16 uo)
  define X where "X = (if hc then do { c \<leftarrow> inet_chksum_pseudo_partial q a b IP_PROTO_UDP (pb_tot_len m q) UDP_HLEN m;
             Some (ucast (FOLD_U32T (ucast c + ucast (NOT ds)))) }
           else inet_chksum_pseudo q a b IP_PROTO_UDP (pb_tot_len m q) m)"
  have "\<exists>w. X = Some w \<and> (?S + ?T + unat w) mod 65535 = 0"
  proof (cases hc)
    case False
    have "inet_chksum_pseudo q a b IP_PROTO_UDP (pb_tot_len m q) m = Some (chksum_field (?A @ [0, 0] @ D))"
      using inet_chksum_pbuf_eqs(2) [OF c, of a b IP_PROTO_UDP "pb_tot_len m q"] unfolding d by (simp add: udp_header_def)
    moreover have "(?S + ?T + unat (chksum_field (?A @ [0, 0] @ D))) mod 65535 = 0" unfolding cf sum by (rule oc_neg)
    ultimately show ?thesis using False by (simp add: X_def)
  next
    case True
    let ?c = "chksum_field (?A @ [0, 0])"
    have p: "inet_chksum_pseudo_partial q a b IP_PROTO_UDP (pb_tot_len m q) UDP_HLEN m = Some ?c"
      using inet_chksum_pbuf_eqs(3) [OF c, of a b IP_PROTO_UDP "pb_tot_len m q" UDP_HLEN] unfolding d by (simp add: udp_header_def)
    have u: "unat (ucast ?c + ucast (NOT ds) :: u32) = (65535 - oc ?S) + (65535 - oc ?T)"
      using k [OF True] by (simp add: unat_add_u32 cf unat_not_u16 uo)
    let ?w = "ucast (FOLD_U32T (ucast ?c + ucast (NOT ds))) :: u16"
    have f: "unat (FOLD_U32T (ucast ?c + ucast (NOT ds))) = oc ((65535 - oc ?S) + (65535 - oc ?T))" using fold_once [of "ucast ?c + ucast (NOT ds)"] u by simp
    have "unat ?w = oc ((65535 - oc ?S) + (65535 - oc ?T))" using oc_le [of "(65535 - oc ?S) + (65535 - oc ?T)"] f by (simp add: unat_ucast_narrow)
    then have "(?S + ?T + unat ?w) mod 65535 = (?S + ?T + ((65535 - oc ?S) + (65535 - oc ?T))) mod 65535" 
      by (simp only: mod_add_right_eq [of "?S + ?T" "oc _", symmetric] oc_mod mod_add_right_eq)
    also have "\<dots> = ((?S + (65535 - oc ?S)) + (?T + (65535 - oc ?T))) mod 65535" by (simp add: ac_simps)
    also have "\<dots> = 0" by (rule mod_eq_0_add) (rule oc_neg)+
    finally show ?thesis using True p by (intro exI [of _ ?w]) (simp add: X_def)
  qed
  then obtain w where w: "X = Some w" "(?S + ?T + unat w) mod 65535 = 0" by (elim exE conjE)
  let ?v = "if w = 0 then 0xffff else w"
  have "(n + unat ?v) mod 65535 = 0" if "(n + unat w) mod 65535 = 0" for n using that by (cases "w = 0") simp_all
  from this [OF w(2)] have "chksum_field (?A @ [ucast ?v, ucast (drop_bit 8 ?v)] @ D) = 0" by (intro chksum_completed [OF ev(1) nz]) (simp only: sum)
  then have "chksum_field (?P @ udp_header src dest len ?v @ D) = 0" by (simp only: udp_header_def append_assoc append_Cons append_Nil)
  moreover have "udp_chksum q a b hc ds m = Some ?v" unfolding udp_chksum_def X_def [symmetric] w(1) by simp
  moreover have "?v \<noteq> 0" by simp
  ultimately show ?thesis by blast
qed

lemma put_udphdr_bytes:
  fixes m :: lw and h :: ptr and a b l :: u16
  defines "m' \<equiv> wr16 (h + 4) (lwip_htons l) (put_udphdr h a b m)"
  shows "bytes_at (bytes m') h 8 = udp_header a b l 0" "bytes_at (bytes (wr16 (h + 6) c m')) h 8 = udp_header a b l c"
    "writes (region h 8) m m'" "writes (region h 8) m (wr16 (h + 6) c m')"
proof -
  have w: "bytes_at (bytes (wr (h + of_nat i) bs m)) h 8 = put_bytes i bs (bytes_at (bytes m) h 8)" if "i + length bs \<le> 8" for i bs and m :: lw
    by (rule bytes_at_put [OF that]) simp
  note ws = w [of 0, simplified] w [of 2, simplified] w [of 4, simplified] w [of 6, simplified]
  have "length (bytes_at (bytes m) h 8) = 8" by simp
  then obtain d1 d2 d3 d4 d5 d6 d7 d8 where d: "bytes_at (bytes m) h 8 = [d1, d2, d3, d4, d5, d6, d7, d8]"
    by (auto simp: numeral_eq_Suc length_Suc_conv simp del: length_bytes_at)
  show "bytes_at (bytes m') h 8 = udp_header a b l 0" "bytes_at (bytes (wr16 (h + 6) c m')) h 8 = udp_header a b l c"
    unfolding m'_def put_udphdr_def Let_def htons_put wr16_def [of "h + 6"]
    by (simp_all add: ws put_bytes_def udp_header_def d)
  have r: "writes (region h 8) s (wr (h + of_nat i) bs s)" if "i + length bs \<le> 8" for i bs and s :: lw
    by (rule writes_mono [OF wr_writes region_sub]) (use that in simp_all)
  note rs = r [of 0, simplified] r [of 2, simplified] r [of 4, simplified] r [of 6, simplified]
  show 3: "writes (region h 8) m m'"
    unfolding m'_def put_udphdr_def Let_def wr16_def
    by (intro writes_both [OF _ rs(3)] writes_both [OF _ rs(4)] writes_both [OF _ rs(2)] rs(1)) simp_all
  show "writes (region h 8) m (wr16 (h + 6) c m')"
    unfolding wr16_def [of "h + 6"] by (intro writes_both [OF 3 rs(4)]) simp
qed

lemma pbuf_header_room:
  fixes k :: u16
  assumes ps: "pchain m p (p # qs)" and k: "0 < unat k" "unat k < 32768" "length (cdata m (p # qs)) + unat k < 65536"
    and ty: "pb_type m p = PBUF_RAM \<or> pb_type m p = PBUF_POOL" and room: "p + 16 \<le> pb_payload m p - ucast k"
  defines "m' \<equiv> snd (pbuf_header p k m)"
  shows "pbuf_header p k m = (0, m')" "pchain m' p (p # qs)" "cdata m' (p # qs) = bytes_at (bytes m) (pb_payload m p - ucast k) (unat k) @ cdata m (p # qs)"
    "pb_payload m' p = pb_payload m p - ucast k" "payloads m' qs = payloads m qs" "pb_type m' = pb_type m" "unat k \<le> unat (pb_len m' p)"
    "pb_tot_len m' p = of_nat (length (cdata m (p # qs)) + unat k)"
proof -
  have p: "p \<noteq> NULL" "p \<notin> set qs" using ps chain_distinct [of "pb_next m" p "p # qs"] by (auto simp: pchain_def)
  have k0: "k \<noteq> 0" using k(1) by auto
  have sc: "(scast k :: u32) = ucast k" "\<not> sint k < 0" using sint_small [OF k(2)] by simp_all
  have ok: "fst (pbuf_header p k m) = 0"
    using pbuf_header_own [OF p(1) ty k0] room sc by (simp add: SIZEOF_STRUCT_PBUF_def)
  then show "pbuf_header p k m = (0, m')" by (simp add: m'_def prod_eq_iff)
  note h = pbuf_header_show [OF ps k(2,3) ok, folded m'_def]
  show "pchain m' p (p # qs)" "cdata m' (p # qs) = bytes_at (bytes m) (pb_payload m p - ucast k) (unat k) @ cdata m (p # qs)" by (rule h(2), rule h(3))
  show "pb_payload m' p = pb_payload m p - ucast k" "pb_type m' = pb_type m" by (simp_all add: h(1))
  show "payloads m' qs = payloads m qs" unfolding payloads_def by (intro SUP_cong) (use p(2) in \<open>auto simp: h(1)\<close>)
  have "unat (pb_len m p) + unat k < 2 ^ LENGTH(16)" using k(3) by simp
  then have "unat (pb_len m p + k) = unat (pb_len m p) + unat k" unfolding unat_word_ariths by (rule mod_less)
  then show "unat k \<le> unat (pb_len m' p)" by (simp add: h(1))
  have "unat (pb_tot_len m' p) = length (cdata m' (p # qs))" using h(2) by (simp add: pchain_def)
  also have "\<dots> = length (cdata m (p # qs)) + unat k" unfolding h(3) by simp
  finally show "pb_tot_len m' p = of_nat (length (cdata m (p # qs)) + unat k)" unfolding word_unat_eq_iff unat_of_nat_u16 [OF k(3)] .
qed

lemma udp_sendto_if_header:
  assumes ps: "pchain (ulw s) p (p # qs)" and len: "length (cdata (ulw s) (p # qs)) + 28 < 65536"
    and ty: "pb_type (ulw s) p = PBUF_RAM \<or> pb_type (ulw s) p = PBUF_POOL"
    and room: "p + 16 \<le> pb_payload (ulw s) p - 8" and ap: "region (pb_payload (ulw s) p - 8) 8 \<inter> payloads (ulw s) qs = {}"
    and port: "u_local_port s pcb \<noteq> 0" and bc: "ip4_addr_isbroadcast dst_ip (netifs (uip s) nif) = 0" "\<not> ip_addr_ismulticast dst_ip"
    and loc: "u_local_ip s pcb = IPADDR_ANY \<or> u_local_ip s pcb = ip_addr (netifs (uip s) nif)"
    and chk: "u_flags s pcb AND UDP_FLAGS_NOCHKSUM = 0" "hc \<Longrightarrow> ds = of_nat (oc (le_sum (cdata (ulw s) (p # qs))))"
  defines "addr \<equiv> ip_addr (netifs (uip s) nif)" and "n \<equiv> of_nat (length (cdata (ulw s) (p # qs)) + 8)"
  shows "\<exists>v m. udp_sendto_if_chksum out pcb p dst_ip dst_port nif hc ds s =
      (ip_output_if out p addr (Some dst_ip) (u_ttl s pcb) (u_tos s pcb) IP_PROTO_UDP nif ((uip s)\<lparr>ilw := m\<rparr>)
        \<bind> (\<lambda>(err, i). Some (err, s\<lparr>uip := i\<rparr>))) \<and>
    pchain m p (p # qs) \<and> cdata m (p # qs) = udp_header (u_local_port s pcb) dst_port n v @ cdata (ulw s) (p # qs) \<and>
    v \<noteq> 0 \<and> chksum_field (pseudo_bytes addr dst_ip IP_PROTO_UDP n @ udp_header (u_local_port s pcb) dst_port n v @ cdata (ulw s) (p # qs)) = 0 \<and>
    pb_payload m p = pb_payload (ulw s) p - 8 \<and> pb_type m = pb_type (ulw s) \<and> payloads m qs = payloads (ulw s) qs"
proof -
  let ?m = "ulw s" and ?D = "cdata (ulw s) (p # qs)" and ?lp = "u_local_port s pcb"
  define h' where "h' = pb_payload ?m p - 8"
  define m1 where "m1 = snd (pbuf_header p 8 ?m)"
  have p: "p \<noteq> NULL" using ps by (auto simp: pchain_def)
  have "length ?D + unat (8 :: u16) < 65536" "unat (8 :: u16) < 32768" "0 < unat (8 :: u16)" using len by simp_all
  note h0 = pbuf_header_room [OF ps this(3,2,1) ty, folded m1_def]
  have u: "unat (8 :: u16) = 8" "(ucast (8 :: u16) :: u32) = 8" by simp_all
  note h = h0 [unfolded u, OF room, folded h'_def]
  have n: "pb_tot_len m1 p = n" using h(8) by (simp add: n_def)
  define m3 where "m3 = wr16 (h' + 4) (lwip_htons n) (put_udphdr h' ?lp dst_port m1)"
  note w3 = put_udphdr_bytes(1,3) [where m = m1 and h = h' and a = ?lp and b = dst_port and l = n, folded m3_def]
  have ap1: "region h' 8 \<inter> payloads m1 qs = {}" unfolding h(5) unfolding h'_def by (rule ap)
  note pw3 = pchain_writes [OF w3(2) h(2) h(4) [symmetric] h(7) ap1, unfolded w3(1)]
  have t: "pb_tot_len m3 p = n" using n by (simp add: writes_fields [OF w3(2)])
  have d3: "cdata m3 (p # qs) = udp_header ?lp dst_port n 0 @ ?D" unfolding pw3(2) h(3) by simp
  obtain v where v: "udp_chksum p addr dst_ip hc ds m3 = Some v" "v \<noteq> 0"
    "chksum_field (pseudo_bytes addr dst_ip IP_PROTO_UDP n @ udp_header ?lp dst_port n v @ ?D) = 0"
    using udp_chksum_valid [OF _ d3, of p hc ds addr dst_ip] pw3(1) chk(2) unfolding t pchain_def by blast
  define m4 where "m4 = wr16 (h' + 6) v m3"
  note w4 = put_udphdr_bytes(2,4) [where m = m1 and h = h' and a = ?lp and b = dst_port and l = n and c = v, folded m3_def, folded m4_def]
  note pw4 = pchain_writes [OF w4(2) h(2) h(4) [symmetric] h(7) ap1, unfolded w4(1)]
  have d4: "cdata m4 (p # qs) = udp_header ?lp dst_port n v @ ?D" unfolding pw4(2) h(3) by simp
  have f: "pb_payload m4 p = pb_payload ?m p - 8" "pb_type m4 = pb_type ?m" "payloads m4 qs = payloads ?m qs"
    using w4(2) h(4-6) by (auto simp: writes_def payloads_def h'_def)
  have room1: "udp_header_room p ?m = Some (p, m1)" by (simp add: udp_header_room_def h(1))
  have t2: "pb_tot_len (put_udphdr h' ?lp dst_port m1) p = n" using t by (simp add: m3_def wr16_def wr_def)
  have src: "(if ip_addr_isany (u_local_ip s pcb) then addr else u_local_ip s pcb) = addr" "\<not> (\<not> ip_addr_isany (u_local_ip s pcb) \<and> u_local_ip s pcb \<noteq> addr)"
    using loc by (auto simp: ip_addr_isany_def addr_def)
  have "udp_sendto_if_chksum out pcb p dst_ip dst_port nif hc ds s =
      (ip_output_if out p addr (Some dst_ip) (u_ttl s pcb) (u_tos s pcb) IP_PROTO_UDP nif ((uip s)\<lparr>ilw := m4\<rparr>) \<bind> (\<lambda>(err, i). Some (err, s\<lparr>uip := i\<rparr>)))"
    using port bc p src chk(1) v(1) t2
    by (cases "ip_addr_isany (u_local_ip s pcb)") (simp_all add: udp_sendto_if_chksum_def Let_def room1 h(4) addr_def [symmetric] m3_def [symmetric] m4_def [symmetric])
  then show ?thesis using pw4(1) d4 v(2,3) f by (intro exI [of _ v] exI [of _ m4] conjI)
qed

text \<open>
  A datagram that fits the interface, sent from a block with a port to a single host out of a buffer with room for the headers, reaches the
  output function of the interface as one packet: the IP header, the ports, the length and a checksum, and the data. The
  checksum is not 0, which would mean none, and it is valid over the pseudo header, also if the sum of the data was
  computed when the data was copied.
\<close>

lemma udp_datagram_sent:
  assumes "pchain (ulw s) p (p # qs)" "length (cdata (ulw s) (p # qs)) + 28 < 65536"
    and "pb_type (ulw s) p = PBUF_RAM \<or> pb_type (ulw s) p = PBUF_POOL"
    and "p + 16 \<le> pb_payload (ulw s) p - 8" "p + 16 \<le> pb_payload (ulw s) p - 28"
    and "region (pb_payload (ulw s) p - 8) 8 \<inter> payloads (ulw s) qs = {}" "region (pb_payload (ulw s) p - 28) 20 \<inter> payloads (ulw s) qs = {}"
    and "u_local_port s pcb \<noteq> 0" "ip4_addr_isbroadcast dst_ip (netifs (uip s) nif) = 0" "\<not> ip_addr_ismulticast dst_ip"
    and "u_local_ip s pcb = IPADDR_ANY \<or> u_local_ip s pcb = ip_addr (netifs (uip s) nif)"
    and "u_flags s pcb AND UDP_FLAGS_NOCHKSUM = 0" "hc \<Longrightarrow> ds = of_nat (oc (le_sum (cdata (ulw s) (p # qs))))"
    and "mtu (netifs (uip s) nif) = 0 \<or> length (cdata (ulw s) (p # qs)) + 28 \<le> unat (mtu (netifs (uip s) nif))"
  defines "addr \<equiv> ip_addr (netifs (uip s) nif)" and "n \<equiv> of_nat (length (cdata (ulw s) (p # qs)) + 8)"
  shows "\<exists>c v m. udp_sendto_if_chksum out pcb p dst_ip dst_port nif hc ds s =
      (let (err, m') = out (netifs (uip s) nif) p dst_ip m in Some (err, s\<lparr>uip := (uip s)\<lparr>ilw := m', ip_id := ip_id (uip s) + 1\<rparr>\<rparr>)) \<and>
    pchain m p (p # qs) \<and>
    cdata m (p # qs) = ip_header addr dst_ip (u_ttl s pcb) (u_tos s pcb) IP_PROTO_UDP (of_nat (length (cdata (ulw s) (p # qs)) + 28)) (ip_id (uip s)) c @
      udp_header (u_local_port s pcb) dst_port n v @ cdata (ulw s) (p # qs) \<and>
    chksum_field (ip_header addr dst_ip (u_ttl s pcb) (u_tos s pcb) IP_PROTO_UDP (of_nat (length (cdata (ulw s) (p # qs)) + 28)) (ip_id (uip s)) c) = 0 \<and>
    v \<noteq> 0 \<and> chksum_field (pseudo_bytes addr dst_ip IP_PROTO_UDP n @ udp_header (u_local_port s pcb) dst_port n v @ cdata (ulw s) (p # qs)) = 0"
proof -
  let ?nif = "netifs (uip s) nif"
  from udp_sendto_if_header [OF assms(1-4,6,8-13), where out = out and dst_port = dst_port, folded addr_def n_def] obtain v m where
    m: "udp_sendto_if_chksum out pcb p dst_ip dst_port nif hc ds s =
      (ip_output_if out p addr (Some dst_ip) (u_ttl s pcb) (u_tos s pcb) IP_PROTO_UDP nif ((uip s)\<lparr>ilw := m\<rparr>)
        \<bind> (\<lambda>(err, i). Some (err, s\<lparr>uip := i\<rparr>)))"
    "pchain m p (p # qs)" "cdata m (p # qs) = udp_header (u_local_port s pcb) dst_port n v @ cdata (ulw s) (p # qs)" "v \<noteq> 0"
    "chksum_field (pseudo_bytes addr dst_ip IP_PROTO_UDP n @ udp_header (u_local_port s pcb) dst_port n v @ cdata (ulw s) (p # qs)) = 0"
    "pb_payload m p = pb_payload (ulw s) p - 8" "pb_type m = pb_type (ulw s)" "payloads m qs = payloads (ulw s) qs" by blast
  let ?i = "(uip s)\<lparr>ilw := m\<rparr>"
  have sr: "addr = (if ip_addr_isany addr then ip_addr (netifs ?i nif) else addr)" by (simp add: addr_def)
  have l: "length (cdata m (p # qs)) = length (cdata (ulw s) (p # qs)) + 8" unfolding m(3) by (simp add: udp_header_def)
  have "fst (pbuf_header p 20 m) = 0"
    using arg_cong [OF pbuf_header_room(1) [OF m(2), of 20], of fst] l assms(2,3,5) m(6,7) by (simp del: cdata_simps)
  moreover have "region (pb_payload m p - 20) 20 \<inter> payloads m qs = {}" using assms(7) m(6,8) by (simp add: diff_diff_add)
  moreover have "length (cdata m (p # qs)) + 20 < 65536" using l assms(2) by simp
  ultimately obtain c m2 where
    m2: "ip_output_if out p addr (Some dst_ip) (u_ttl s pcb) (u_tos s pcb) IP_PROTO_UDP nif ?i =
      ip_send out p dst_ip ?nif ((uip s)\<lparr>ilw := m2, ip_id := ip_id (uip s) + 1\<rparr>)" "pchain m2 p (p # qs)"
    "cdata m2 (p # qs) = ip_header addr dst_ip (u_ttl s pcb) (u_tos s pcb) IP_PROTO_UDP (of_nat (length (cdata m (p # qs)) + 20)) (ip_id (uip s)) c @ cdata m (p # qs)"
    "pb_tot_len m2 p = of_nat (length (cdata m (p # qs)) + 20)"
    "chksum_field (ip_header addr dst_ip (u_ttl s pcb) (u_tos s pcb) IP_PROTO_UDP (of_nat (length (cdata m (p # qs)) + 20)) (ip_id (uip s)) c) = 0"
    using ip_output_if_header [OF _ _ _ _ sr, of p qs out dst_ip "u_ttl s pcb" "u_tos s pcb" IP_PROTO_UDP] m(2) by (auto simp del: cdata_simps)
  have l2: "length (cdata m (p # qs)) + 20 = length (cdata (ulw s) (p # qs)) + 28" using l by simp
  have "\<not> (mtu ?nif \<noteq> 0 \<and> pb_tot_len m2 p > mtu ?nif)"
    using assms(14) unfolding word_less_nat_alt m2(4) l2 unat_of_nat_u16 [OF assms(2)] by auto
  then have "udp_sendto_if_chksum out pcb p dst_ip dst_port nif hc ds s =
      (let (err, m') = out ?nif p dst_ip m2 in Some (err, s\<lparr>uip := (uip s)\<lparr>ilw := m', ip_id := ip_id (uip s) + 1\<rparr>\<rparr>))"
    unfolding m(1) m2(1) by (auto simp: ip_send_def split: prod.splits)
  then show ?thesis using m2(2) m2(3) [unfolded l2, unfolded m(3)] m2(5) [unfolded l2] m(4,5) by blast
qed

section \<open>Samples\<close>

text \<open>Two blocks with the ports 1000 and 53, of which the second expects packets from port 4000.\<close>

definition smp_udp :: udp where
  "smp_udp = \<lparr>uip = smp_ip, u_local_ip = (\<lambda>_. 0), u_remote_ip = (\<lambda>_. 0), u_so_options = (\<lambda>_. 0), u_tos = (\<lambda>_. 0), u_ttl = (\<lambda>_. 255),
     u_next = (\<lambda>_. 0)(0x50 := 0x60), u_flags = (\<lambda>_. 0), u_local_port = (\<lambda>_. 0)(0x50 := 1000, 0x60 := 53), u_remote_port = (\<lambda>_. 0)(0x60 := 4000),
     u_multicast_ip = (\<lambda>_. 0), u_recv = (\<lambda>_. 0), u_recv_arg = (\<lambda>_. 0), udp_pcbs = 0x50, dhcp_pcb = (\<lambda>_. 0)\<rparr>"

lemma smp_udp_chain: "chain (u_next smp_udp) (udp_pcbs smp_udp) [0x50, 0x60]"
  by (simp add: smp_udp_def)

theorem udp_demux_selects_witness:
  "\<exists>s'. udp_demux False 4000 53 0x10 smp_udp = Some (0x60, s') \<and> chain (u_next s') (udp_pcbs s') [0x60, 0x50]"
proof -
  have "find (full_match smp_udp False 4000 53) [0x50, 0x60] = Some 0x60"
    by (simp add: smp_udp_def full_match_def local_match_def remote_match_def ip_addr_isany_def)
  then show ?thesis using udp_demux_selects [OF smp_udp_chain, of 53 False 4000 "0x10"] by auto
qed

theorem udp_bind_result_witness:
  "\<exists>port' s'. udp_bind 0x70 0 0 smp_udp = Some (ERR_OK, s') \<and> u_local_port s' 0x70 = port' \<and> 0xc000 \<le> port' \<and> port' < 0xffff \<and>
    chain (u_next s') (udp_pcbs s') [0x70, 0x50, 0x60]"
proof -
  have n: "\<not> (\<exists>x\<in>set [0x50, 0x60]. x \<noteq> 0x70 \<and> clash smp_udp 0 0 x)" by (simp add: clash_def smp_udp_def)
  show ?thesis using udp_bind_result [OF smp_udp_chain, of "0x70" 0 0, unfolded if_not_P [OF n]] by auto
qed

definition smp_udp0 :: udp where
  "smp_udp0 = smp_udp\<lparr>uip := smp_ip\<lparr>ilw := (ilw smp_ip)\<lparr>memp_tab := replicate 15 0x70\<rparr>\<rparr>, udp_pcbs := NULL\<rparr>"

theorem udp_ports_unique_witness:
  "\<exists>pcb ps s'. udp_step\<^sup>*\<^sup>* ({}, smp_udp0) ({pcb}, s') \<and> chain (u_next s') (udp_pcbs s') ps \<and> set ps = {pcb} \<and> u_local_port s' pcb = 80"
proof -
  obtain pcb s1 where n: "udp_new smp_udp0 = (pcb, s1)" by force
  then have p: "pcb \<noteq> NULL" "udp_pcbs s1 = NULL"
    by (auto simp: udp_new_def memp_malloc_def smp_udp0_def smp_udp_def smp_ip_def Let_def split: if_splits)
  have c: "chain (u_next s1) (udp_pcbs s1) []" using p(2) by simp
  have b: "udp_bind pcb 0 80 s1 = Some (ERR_OK, bound [] pcb 0 80 s1)" using udp_bind_spec [OF c, of pcb 0 80] by auto
  have r: "udp_step\<^sup>*\<^sup>* ({}, smp_udp0) ({pcb}, bound [] pcb 0 80 s1)"
    using step_new [OF n p(1), of "{}"] step_bind [OF _ b, of "{pcb}"] by (auto intro: rtranclp.intros)
  let ?s = "bound [] pcb 0 80 s1"
  have e: "{x \<in> {pcb}. u_local_port ?s x \<noteq> 0} = {pcb}" "u_local_port ?s pcb = 80" by (auto simp: bound_fields)
  have "udp_pcbs smp_udp0 = NULL" by (simp add: smp_udp0_def)
  from udp_ports_unique [OF this r, unfolded e] show ?thesis using r e(2) by blast
qed

end
