(* ===== verification/LW_Igmp.thy ===== *)
theory LW_Igmp
  imports LW_Udp
begin

text \<open>
  IGMP: \<open>igmp.c\<close>. The calls of the filter function of a driver are recorded; the
  random numbers are a sequence that the state carries along, and the place of the array with the router alert
  option on the stack is a field. A remainder by zero is \<open>None\<close>.
\<close>

abbreviation (input) MEMP_IGMP_GROUP :: nat where "MEMP_IGMP_GROUP \<equiv> 10"
abbreviation (input) IGMP_TTL :: u8 where "IGMP_TTL \<equiv> 1"
abbreviation (input) IGMP_MINLEN :: u16 where "IGMP_MINLEN \<equiv> 8"
abbreviation (input) ROUTER_ALERT :: u16 where "ROUTER_ALERT \<equiv> 0x9404"
abbreviation (input) ROUTER_ALERTLEN :: u16 where "ROUTER_ALERTLEN \<equiv> 4"
abbreviation (input) IGMP_MEMB_QUERY :: u8 where "IGMP_MEMB_QUERY \<equiv> 0x11"
abbreviation (input) IGMP_V2_MEMB_REPORT :: u8 where "IGMP_V2_MEMB_REPORT \<equiv> 0x16"
abbreviation (input) IGMP_LEAVE_GROUP :: u8 where "IGMP_LEAVE_GROUP \<equiv> 0x17"
abbreviation (input) IGMP_GROUP_NON_MEMBER :: u8 where "IGMP_GROUP_NON_MEMBER \<equiv> 0"
abbreviation (input) IGMP_GROUP_DELAYING_MEMBER :: u8 where "IGMP_GROUP_DELAYING_MEMBER \<equiv> 1"
abbreviation (input) IGMP_GROUP_IDLE_MEMBER :: u8 where "IGMP_GROUP_IDLE_MEMBER \<equiv> 2"
abbreviation (input) IGMP_V1_DELAYING_MEMBER_TMR :: u8 where "IGMP_V1_DELAYING_MEMBER_TMR \<equiv> 10"
abbreviation (input) IGMP_JOIN_DELAYING_MEMBER_TMR :: u8 where "IGMP_JOIN_DELAYING_MEMBER_TMR \<equiv> 5"
abbreviation (input) IGMP_DEL_MAC_FILTER :: u8 where "IGMP_DEL_MAC_FILTER \<equiv> 0"
abbreviation (input) IGMP_ADD_MAC_FILTER :: u8 where "IGMP_ADD_MAC_FILTER \<equiv> 1"

section \<open>State\<close>

record igm =
  gudp :: udp
  ig_next :: "ptr \<Rightarrow> ptr"
  ig_netif :: "ptr \<Rightarrow> ptr"
  ig_address :: "ptr \<Rightarrow> u32"
  ig_last_reporter :: "ptr \<Rightarrow> u8"
  ig_state :: "ptr \<Rightarrow> u8"
  ig_timer :: "ptr \<Rightarrow> u16"
  ig_use :: "ptr \<Rightarrow> u8"
  igmp_group_list :: ptr
  allsystems :: u32
  allrouters :: u32
  igmp_mac_filter :: "ptr \<Rightarrow> bool"
  mac_calls :: "(ptr \<times> u32 \<times> u8) list"
  rand_seq :: "nat \<Rightarrow> nat"
  rand_pos :: nat
  igmp_ra :: ptr

abbreviation (input) gip :: "igm \<Rightarrow> ipst" where "gip s \<equiv> uip (gudp s)"
abbreviation (input) put_gip :: "ipst \<Rightarrow> igm \<Rightarrow> igm" where "put_gip i s \<equiv> s\<lparr>gudp := (gudp s)\<lparr>uip := i\<rparr>\<rparr>"
abbreviation (input) glw :: "igm \<Rightarrow> lw" where "glw s \<equiv> ilw (gip s)"
abbreviation (input) put_glw :: "lw \<Rightarrow> igm \<Rightarrow> igm" where "put_glw m s \<equiv> put_gip ((gip s)\<lparr>ilw := m\<rparr>) s"
abbreviation (input) put_ig_next :: "ptr \<Rightarrow> ptr \<Rightarrow> igm \<Rightarrow> igm" where
  "put_ig_next p v s \<equiv> s\<lparr>ig_next := (ig_next s)(p := v)\<rparr>"
abbreviation (input) put_ig_state :: "ptr \<Rightarrow> u8 \<Rightarrow> igm \<Rightarrow> igm" where
  "put_ig_state p v s \<equiv> s\<lparr>ig_state := (ig_state s)(p := v)\<rparr>"
abbreviation (input) put_ig_timer :: "ptr \<Rightarrow> u16 \<Rightarrow> igm \<Rightarrow> igm" where
  "put_ig_timer p v s \<equiv> s\<lparr>ig_timer := (ig_timer s)(p := v)\<rparr>"
abbreviation (input) put_ig_use :: "ptr \<Rightarrow> u8 \<Rightarrow> igm \<Rightarrow> igm" where
  "put_ig_use p v s \<equiv> s\<lparr>ig_use := (ig_use s)(p := v)\<rparr>"
abbreviation (input) put_ig_last_reporter :: "ptr \<Rightarrow> u8 \<Rightarrow> igm \<Rightarrow> igm" where
  "put_ig_last_reporter p v s \<equiv> s\<lparr>ig_last_reporter := (ig_last_reporter s)(p := v)\<rparr>"

definition igmp_free :: "ptr \<Rightarrow> igm \<Rightarrow> igm option" where
  "igmp_free p s = pbuf_free p (glw s) \<bind> (\<lambda>(_, m). Some (put_glw m s))"

definition mac_filter :: "ptr \<Rightarrow> u32 \<Rightarrow> u8 \<Rightarrow> igm \<Rightarrow> igm" where
  "mac_filter nif addr action s =
     (if igmp_mac_filter s nif then s\<lparr>mac_calls := mac_calls s @ [(nif, addr, action)]\<rparr> else s)"

definition igmp_init :: "igm \<Rightarrow> igm" where
  "igmp_init s = s\<lparr>allsystems := 0x010000E0, allrouters := 0x020000E0\<rparr>"

section \<open>Timers\<close>

definition igmp_start_timer :: "ptr \<Rightarrow> u8 \<Rightarrow> igm \<Rightarrow> igm option" where
  "igmp_start_timer grp max_time s =
     (let max_time = (if max_time = 0 then 1 else max_time) in
      if unat max_time - 1 = 0 then None
      else Some ((put_ig_timer grp (of_nat (rand_seq s (rand_pos s) mod (unat max_time - 1)) + 1) s)\<lparr>rand_pos := Suc (rand_pos s)\<rparr>))"

definition igmp_delaying_member :: "ptr \<Rightarrow> u8 \<Rightarrow> igm \<Rightarrow> igm option" where
  "igmp_delaying_member grp maxresp s =
     (if ig_state s grp = IGMP_GROUP_IDLE_MEMBER \<or>
         ig_state s grp = IGMP_GROUP_DELAYING_MEMBER \<and> (ig_timer s grp = 0 \<or> ucast maxresp < ig_timer s grp)
      then igmp_start_timer grp maxresp s \<bind> (\<lambda>s. Some (put_ig_state grp IGMP_GROUP_DELAYING_MEMBER s))
      else Some s)"

section \<open>Messages\<close>

definition igmp_ip_output_if :: "netif_out \<Rightarrow> ptr \<Rightarrow> u32 \<Rightarrow> u32 \<Rightarrow> ptr \<Rightarrow> igm \<Rightarrow> igm option" where
  "igmp_ip_output_if out p src dest nif s =
     (let s = put_glw (wr16 (igmp_ra s) (lwip_htons ROUTER_ALERT) (glw s)) s;
          s = put_glw (wr16 (igmp_ra s + 2) 0 (glw s)) s
      in ip_output_if_opt out p src (Some dest) IGMP_TTL 0 IP_PROTO_IGMP nif (igmp_ra s) ROUTER_ALERTLEN (gip s) \<bind> (\<lambda>(_, i). Some (put_gip i s)))"

definition put_igmp_msg :: "ptr \<Rightarrow> u8 \<Rightarrow> u32 \<Rightarrow> lw \<Rightarrow> lw" where
  "put_igmp_msg igmp type addr m =
     (let m = wr32 (igmp + 4) addr m;
          m = wr8 igmp type m;
          m = wr8 (igmp + 1) 0 m;
          m = wr16 (igmp + 2) 0 m
      in wr16 (igmp + 2) (inet_chksum igmp IGMP_MINLEN m) m)"

definition igmp_send :: "netif_out \<Rightarrow> ptr \<Rightarrow> u8 \<Rightarrow> igm \<Rightarrow> igm option" where
  "igmp_send out grp type s = do {
     (p, m) \<leftarrow> pbuf_alloc PBUF_TRANSPORT IGMP_MINLEN PBUF_RAM (glw s);
     let s = put_glw m s;
     if p \<noteq> NULL then do {
       let src = ip_addr (netifs (gip s) (ig_netif s grp));
       s \<leftarrow> (if type = IGMP_V2_MEMB_REPORT \<or> type = IGMP_LEAVE_GROUP then do {
              let dest = (if type = IGMP_V2_MEMB_REPORT then ig_address s grp else allrouters s);
              let s = (if type = IGMP_V2_MEMB_REPORT then put_ig_last_reporter grp 1 s else s);
              let s = put_glw (put_igmp_msg (pb_payload (glw s) p) type (ig_address s grp) (glw s)) s;
              igmp_ip_output_if out p src dest (ig_netif s grp) s }
            else Some s);
       igmp_free p s }
     else Some s }"

definition igmp_timeout :: "netif_out \<Rightarrow> ptr \<Rightarrow> igm \<Rightarrow> igm option" where
  "igmp_timeout out grp s =
     (if ig_state s grp = IGMP_GROUP_DELAYING_MEMBER then igmp_send out grp IGMP_V2_MEMB_REPORT s else Some s)"

partial_function (option) igmp_tmr_loop :: "netif_out \<Rightarrow> ptr \<Rightarrow> igm \<Rightarrow> igm option" where
  "igmp_tmr_loop out grp s =
     (if grp \<noteq> NULL then do {
        s \<leftarrow> (if ig_timer s grp > 0 then
               let s = put_ig_timer grp (ig_timer s grp - 1) s
               in if ig_timer s grp = 0 then igmp_timeout out grp s else Some s
             else Some s);
        igmp_tmr_loop out (ig_next s grp) s }
      else Some s)"

definition igmp_tmr :: "netif_out \<Rightarrow> igm \<Rightarrow> igm option" where
  "igmp_tmr out s = igmp_tmr_loop out (igmp_group_list s) s"

section \<open>The list of groups\<close>

partial_function (option) lookfor_loop :: "igm \<Rightarrow> ptr \<Rightarrow> u32 \<Rightarrow> ptr \<Rightarrow> ptr option" where
  "lookfor_loop s ifp addr grp =
     (if grp \<noteq> NULL then
        if ig_netif s grp = ifp \<and> ig_address s grp = addr then Some grp else lookfor_loop s ifp addr (ig_next s grp)
      else Some NULL)"

definition igmp_lookfor_group :: "ptr \<Rightarrow> u32 \<Rightarrow> igm \<Rightarrow> ptr option" where
  "igmp_lookfor_group ifp addr s = lookfor_loop s ifp addr (igmp_group_list s)"

definition igmp_lookup_group :: "ptr \<Rightarrow> u32 \<Rightarrow> igm \<Rightarrow> (ptr \<times> igm) option" where
  "igmp_lookup_group ifp addr s = do {
     grp \<leftarrow> igmp_lookfor_group ifp addr s;
     if grp \<noteq> NULL then Some (grp, s)
     else
       let (grp, m) = memp_malloc MEMP_IGMP_GROUP (glw s); s = put_glw m s in
       if grp \<noteq> NULL then
         let s = s\<lparr>ig_netif := (ig_netif s)(grp := ifp)\<rparr>;
             s = s\<lparr>ig_address := (ig_address s)(grp := addr)\<rparr>;
             s = put_ig_timer grp 0 s;
             s = put_ig_state grp IGMP_GROUP_NON_MEMBER s;
             s = put_ig_last_reporter grp 0 s;
             s = put_ig_use grp 0 s;
             s = put_ig_next grp (igmp_group_list s) s
         in Some (grp, s\<lparr>igmp_group_list := grp\<rparr>)
       else Some (grp, s) }"

text \<open>The predecessor of the group; \<open>NULL\<close> if there is none.\<close>

partial_function (option) group_before :: "igm \<Rightarrow> ptr \<Rightarrow> ptr \<Rightarrow> ptr option" where
  "group_before s grp tmp =
     (if tmp \<noteq> NULL then if ig_next s tmp = grp then Some tmp else group_before s grp (ig_next s tmp) else Some NULL)"

definition igmp_remove_group :: "ptr \<Rightarrow> igm \<Rightarrow> (int \<times> igm) option" where
  "igmp_remove_group grp s = do {
     (err, s) \<leftarrow>
       (if igmp_group_list s = grp then
          if grp = NULL then None else Some (ERR_OK, s\<lparr>igmp_group_list := ig_next s grp\<rparr>)
        else do {
          tmp \<leftarrow> group_before s grp (igmp_group_list s);
          Some (if tmp \<noteq> NULL then (ERR_OK, put_ig_next tmp (ig_next s grp) s) else (ERR_ARG, s)) });
     m \<leftarrow> memp_free MEMP_IGMP_GROUP grp (glw s);
     Some (err, put_glw m s) }"

definition igmp_start :: "ptr \<Rightarrow> igm \<Rightarrow> (int \<times> igm) option" where
  "igmp_start nif s = do {
     (grp, s) \<leftarrow> igmp_lookup_group nif (allsystems s) s;
     if grp \<noteq> NULL then
       let s = put_ig_state grp IGMP_GROUP_IDLE_MEMBER s;
           s = put_ig_use grp (ig_use s grp + 1) s
       in Some (ERR_OK, mac_filter nif (allsystems s) IGMP_ADD_MAC_FILTER s)
     else Some (ERR_MEM, s) }"

partial_function (option) igmp_stop_loop :: "ptr \<Rightarrow> ptr \<Rightarrow> ptr \<Rightarrow> igm \<Rightarrow> igm option" where
  "igmp_stop_loop nif prev grp s =
     (if grp \<noteq> NULL then
        let nxt = ig_next s grp in
        if ig_netif s grp = nif then do {
          let s = (if grp = igmp_group_list s then s\<lparr>igmp_group_list := nxt\<rparr> else s);
          let s = (if prev \<noteq> NULL then put_ig_next prev nxt s else s);
          let s = mac_filter nif (ig_address s grp) IGMP_DEL_MAC_FILTER s;
          m \<leftarrow> memp_free MEMP_IGMP_GROUP grp (glw s);
          igmp_stop_loop nif prev nxt (put_glw m s) }
        else igmp_stop_loop nif grp nxt s
      else Some s)"

definition igmp_stop :: "ptr \<Rightarrow> igm \<Rightarrow> (int \<times> igm) option" where
  "igmp_stop nif s = igmp_stop_loop nif NULL (igmp_group_list s) s \<bind> (\<lambda>s. Some (ERR_OK, s))"

text \<open>All groups of an interface are made to report; \<open>skip\<close> is an address that is left out.\<close>

partial_function (option) delaying_loop :: "ptr \<Rightarrow> u8 \<Rightarrow> u32 option \<Rightarrow> ptr \<Rightarrow> igm \<Rightarrow> igm option" where
  "delaying_loop nif maxresp skip grp s =
     (if grp \<noteq> NULL then do {
        s \<leftarrow> (if ig_netif s grp = nif \<and> skip \<noteq> Some (ig_address s grp) then igmp_delaying_member grp maxresp s else Some s);
        delaying_loop nif maxresp skip (ig_next s grp) s }
      else Some s)"

definition igmp_report_groups :: "ptr \<Rightarrow> igm \<Rightarrow> igm option" where
  "igmp_report_groups nif s = delaying_loop nif IGMP_JOIN_DELAYING_MEMBER_TMR None (igmp_group_list s) s"

section \<open>Input\<close>

definition igmp_query :: "ptr \<Rightarrow> u32 \<Rightarrow> ptr \<Rightarrow> ptr \<Rightarrow> igm \<Rightarrow> igm option" where
  "igmp_query inp dest grp igmp s =
     (let addr = rd32 (bytes (glw s)) (igmp + 4) in
      if dest = allsystems s \<and> ip_addr_isany addr then
        let s = (if bytes (glw s) (igmp + 1) = 0 then put_glw (wr8 (igmp + 1) IGMP_V1_DELAYING_MEMBER_TMR (glw s)) s else s)
        in delaying_loop inp (bytes (glw s) (igmp + 1)) (Some (allsystems s)) (igmp_group_list s) s
      else if \<not> ip_addr_isany addr then do {
        grp \<leftarrow> (if dest = allsystems s then igmp_lookfor_group inp addr s else Some grp);
        if grp \<noteq> NULL then igmp_delaying_member grp (bytes (glw s) (igmp + 1)) s else Some s }
      else Some s)"

definition igmp_input :: "ptr \<Rightarrow> ptr \<Rightarrow> u32 \<Rightarrow> igm \<Rightarrow> igm option" where
  "igmp_input p inp dest s =
     (let iphdr = pb_payload (glw s) p;
          (short, m) = pbuf_header p (- (IPH_HL (bytes (glw s)) iphdr * 4)) (glw s);
          s = put_glw m s in
      if short \<noteq> 0 \<or> pb_len (glw s) p < IGMP_MINLEN then igmp_free p s
      else
        let igmp = pb_payload (glw s) p in
        if inet_chksum igmp (pb_len (glw s) p) (glw s) \<noteq> 0 then igmp_free p s
        else do {
          grp \<leftarrow> igmp_lookfor_group inp dest s;
          if grp = NULL then igmp_free p s
          else do {
            let type = bytes (glw s) igmp;
            s \<leftarrow> (if type = IGMP_MEMB_QUERY then igmp_query inp dest grp igmp s
                 else if type = IGMP_V2_MEMB_REPORT \<and> ig_state s grp = IGMP_GROUP_DELAYING_MEMBER then
                   Some (put_ig_last_reporter grp 0 (put_ig_state grp IGMP_GROUP_IDLE_MEMBER (put_ig_timer grp 0 s)))
                 else Some s);
            igmp_free p s } })"

section \<open>Joining and leaving\<close>

definition igmp_on :: "netif \<Rightarrow> u32 \<Rightarrow> bool" where
  "igmp_on nif ifaddr \<longleftrightarrow> netif_flags nif AND NETIF_FLAG_IGMP \<noteq> 0 \<and> (ip_addr_isany ifaddr \<or> ip_addr nif = ifaddr)"

text \<open>Joining on one interface; without memory the result is false.\<close>

definition join_netif :: "netif_out \<Rightarrow> ptr \<Rightarrow> u32 \<Rightarrow> igm \<Rightarrow> (bool \<times> igm) option" where
  "join_netif out nif groupaddr s = do {
     (grp, s) \<leftarrow> igmp_lookup_group nif groupaddr s;
     if grp \<noteq> NULL then do {
       s \<leftarrow> (if ig_state s grp \<noteq> IGMP_GROUP_NON_MEMBER then Some s
            else do {
              let s = (if ig_use s grp = 0 then mac_filter nif groupaddr IGMP_ADD_MAC_FILTER s else s);
              s \<leftarrow> igmp_send out grp IGMP_V2_MEMB_REPORT s;
              s \<leftarrow> igmp_start_timer grp IGMP_JOIN_DELAYING_MEMBER_TMR s;
              Some (put_ig_state grp IGMP_GROUP_DELAYING_MEMBER s) });
       Some (True, put_ig_use grp (ig_use s grp + 1) s) }
     else Some (False, s) }"

partial_function (option) join_loop :: "netif_out \<Rightarrow> u32 \<Rightarrow> u32 \<Rightarrow> ptr \<Rightarrow> int \<Rightarrow> igm \<Rightarrow> (int \<times> igm) option" where
  "join_loop out ifaddr groupaddr nif err s =
     (if nif \<noteq> NULL then
        if igmp_on (netifs (gip s) nif) ifaddr then do {
          (ok, s) \<leftarrow> join_netif out nif groupaddr s;
          if ok then join_loop out ifaddr groupaddr (netif_next (gip s) nif) ERR_OK s else Some (ERR_MEM, s) }
        else join_loop out ifaddr groupaddr (netif_next (gip s) nif) err s
      else Some (err, s))"

definition igmp_joingroup :: "netif_out \<Rightarrow> u32 \<Rightarrow> u32 \<Rightarrow> igm \<Rightarrow> (int \<times> igm) option" where
  "igmp_joingroup out ifaddr groupaddr s =
     (if \<not> ip_addr_ismulticast groupaddr then Some (ERR_VAL, s)
      else if groupaddr = allsystems s then Some (ERR_VAL, s)
      else join_loop out ifaddr groupaddr (netif_list (gip s)) ERR_VAL s)"

definition leave_netif :: "netif_out \<Rightarrow> ptr \<Rightarrow> u32 \<Rightarrow> igm \<Rightarrow> (bool \<times> igm) option" where
  "leave_netif out nif groupaddr s = do {
     grp \<leftarrow> igmp_lookfor_group nif groupaddr s;
     if grp \<noteq> NULL then
       if ig_use s grp \<le> 1 then do {
         s \<leftarrow> (if ig_last_reporter s grp \<noteq> 0 then igmp_send out grp IGMP_LEAVE_GROUP s else Some s);
         let s = mac_filter nif groupaddr IGMP_DEL_MAC_FILTER s;
         (_, s) \<leftarrow> igmp_remove_group grp s;
         Some (True, s) }
       else Some (True, put_ig_use grp (ig_use s grp - 1) s)
     else Some (False, s) }"

partial_function (option) leave_loop :: "netif_out \<Rightarrow> u32 \<Rightarrow> u32 \<Rightarrow> ptr \<Rightarrow> int \<Rightarrow> igm \<Rightarrow> (int \<times> igm) option" where
  "leave_loop out ifaddr groupaddr nif err s =
     (if nif \<noteq> NULL then
        if igmp_on (netifs (gip s) nif) ifaddr then do {
          (left, s) \<leftarrow> leave_netif out nif groupaddr s;
          leave_loop out ifaddr groupaddr (netif_next (gip s) nif) (if left then ERR_OK else err) s }
        else leave_loop out ifaddr groupaddr (netif_next (gip s) nif) err s
      else Some (err, s))"

definition igmp_leavegroup :: "netif_out \<Rightarrow> u32 \<Rightarrow> u32 \<Rightarrow> igm \<Rightarrow> (int \<times> igm) option" where
  "igmp_leavegroup out ifaddr groupaddr s =
     (if \<not> ip_addr_ismulticast groupaddr then Some (ERR_VAL, s)
      else if groupaddr = allsystems s then Some (ERR_VAL, s)
      else leave_loop out ifaddr groupaddr (netif_list (gip s)) ERR_VAL s)"

section \<open>What the operations keep\<close>

definition gkey :: "igm \<Rightarrow> ptr \<Rightarrow> ptr \<times> u32" where
  "gkey s g = (ig_netif s g, ig_address s g)"

lemma lookfor_spec: "chain (ig_next s) q gs \<Longrightarrow> lookfor_loop s ifp addr q = Some (found (find (\<lambda>g. gkey s g = (ifp, addr)) gs))"
  by (induction gs arbitrary: q) (subst lookfor_loop.simps, auto simp: gkey_def)+

text \<open>The membership is as before: the list, its keys, the uses and the filter; a member stays one.\<close>

definition gframe :: "igm \<Rightarrow> igm \<Rightarrow> bool" where
  "gframe s s' \<longleftrightarrow> ig_next s' = ig_next s \<and> igmp_group_list s' = igmp_group_list s \<and> ig_netif s' = ig_netif s \<and> ig_address s' = ig_address s \<and>
     ig_use s' = ig_use s \<and> mac_calls s' = mac_calls s \<and> igmp_mac_filter s' = igmp_mac_filter s \<and> allsystems s' = allsystems s \<and>
     (\<forall>g. ig_state s g \<noteq> IGMP_GROUP_NON_MEMBER \<longrightarrow> ig_state s' g \<noteq> IGMP_GROUP_NON_MEMBER)"

lemma gframe_refl [simp, intro]: "gframe s s"
  by (simp add: gframe_def)

lemma gframe_trans: "gframe s s' \<Longrightarrow> gframe s' s'' \<Longrightarrow> gframe s s''"
  by (simp add: gframe_def)

lemma gframe_net [simp]: "gframe s (s\<lparr>gudp := u\<rparr>)"
  by (simp add: gframe_def)

lemma igmp_free_net: "igmp_free p s = Some s' \<Longrightarrow> \<exists>u. s' = s\<lparr>gudp := u\<rparr>"
  by (auto simp: igmp_free_def bind_eq_Some_conv)

lemma igmp_send_net: "igmp_send out g ty s = Some s' \<Longrightarrow> \<exists>u lr. s' = s\<lparr>gudp := u, ig_last_reporter := lr\<rparr>"
proof -
  assume "igmp_send out g ty s = Some s'"
  then consider u where "s' = s\<lparr>gudp := u\<rparr>" | u v w where "s' = s\<lparr>gudp := u, ig_last_reporter := v, gudp := w\<rparr>" | u v w x where "s' = s\<lparr>gudp := u, ig_last_reporter := v, gudp := w, gudp := x\<rparr>"
    by (auto simp: igmp_send_def igmp_ip_output_if_def Let_def bind_eq_Some_conv split: if_splits dest!: igmp_free_net)
  then show ?thesis
  proof cases
    case 1
    then show ?thesis by (intro exI [of _ u] exI [of _ "ig_last_reporter s"]) simp
  next
    case 2
    then show ?thesis by (intro exI [of _ w] exI [of _ v]) simp
  next
    case 3
    then show ?thesis by (intro exI [of _ x] exI [of _ v]) simp
  qed
qed

lemma igmp_send_frame: "igmp_send out g ty s = Some s' \<Longrightarrow> gframe s s' \<and> ig_state s' = ig_state s \<and> ig_timer s' = ig_timer s"
  by (auto simp: gframe_def dest!: igmp_send_net)

lemma igmp_timer_frame: "igmp_start_timer g n s = Some s' \<Longrightarrow> gframe s s' \<and> ig_state s' = ig_state s"
  by (auto simp: igmp_start_timer_def Let_def gframe_def split: if_splits)

lemma igmp_delaying_frame: "igmp_delaying_member g n s = Some s' \<Longrightarrow> gframe s s'"
proof -
  assume "igmp_delaying_member g n s = Some s'"
  then consider "s' = s" | s1 where "igmp_start_timer g n s = Some s1" "s' = put_ig_state g IGMP_GROUP_DELAYING_MEMBER s1"
    by (auto simp: igmp_delaying_member_def bind_eq_Some_conv split: if_splits)
  then show ?thesis
  proof cases
    case 2
    then show ?thesis using igmp_timer_frame [OF 2(1)] by (auto simp: gframe_def)
  qed simp
qed

lemma delaying_loop_frame: "delaying_loop nif n skip g s = Some s' \<Longrightarrow> gframe s s'"
proof (erule delaying_loop.raw_induct [where P = "\<lambda>nif n skip g s s'. gframe s s'", rotated], goal_cases step)
  case (step f nif n skip g s s')
  note IH = step(1) and run = step(2)
  show ?case
  proof (cases "g = NULL")
    case False
    then obtain s1 where s1: "(if ig_netif s g = nif \<and> skip \<noteq> Some (ig_address s g) then igmp_delaying_member g n s else Some s) = Some s1"
      "f nif n skip (ig_next s1 g) s1 = Some s'" using run by (auto simp: bind_eq_Some_conv)
    have "gframe s s1" using s1(1) igmp_delaying_frame by (auto split: if_splits)
    from gframe_trans [OF this IH [OF s1(2)]] show ?thesis .
  qed (use run in auto)
qed

lemma igmp_timeout_frame: "igmp_timeout out g s = Some s' \<Longrightarrow> gframe s s'"
  using igmp_send_frame by (auto simp: igmp_timeout_def split: if_splits)

lemma igmp_tmr_loop_frame: "igmp_tmr_loop out g s = Some s' \<Longrightarrow> gframe s s'"
proof (erule igmp_tmr_loop.raw_induct [where P = "\<lambda>out g s s'. gframe s s'", rotated], goal_cases step)
  case (step f out g s s')
  note IH = step(1) and run = step(2)
  let ?s = "put_ig_timer g (ig_timer s g - 1) s"
  have t: "gframe s ?s" by (simp add: gframe_def)
  show ?case
  proof (cases "g = NULL")
    case False
    then obtain s1 where s1: "(if ig_timer s g > 0 then if ig_timer ?s g = 0 then igmp_timeout out g ?s else Some ?s else Some s) = Some s1"
      "f out (ig_next s1 g) s1 = Some s'" using run [unfolded Let_def] by (auto simp: bind_eq_Some_conv)
    have "gframe s s1" using s1(1) gframe_trans [OF t igmp_timeout_frame] t by (auto split: if_splits)
    from gframe_trans [OF this IH [OF s1(2)]] show ?thesis .
  qed (use run in auto)
qed

lemma igmp_query_frame: "igmp_query inp dest g igmp s = Some s' \<Longrightarrow> gframe s s'"
proof -
  assume r: "igmp_query inp dest g igmp s = Some s'"
  let ?s = "put_glw (wr8 (igmp + 1) IGMP_V1_DELAYING_MEMBER_TMR (glw s)) s"
  have "gframe s ?s" by simp
  note t = gframe_trans [OF this delaying_loop_frame]
  show ?thesis
    using r unfolding igmp_query_def Let_def
    by (elim if_SomeE) (auto simp: bind_eq_Some_conv split: if_splits intro: t delaying_loop_frame igmp_delaying_frame)
qed

section \<open>Membership\<close>

text \<open>
  The memberships \<open>M\<close> count for each interface and address how often the group was joined and not left. The list has
  one member for every group with a count above 0. The filter of the driver lets exactly these groups through: what was called
  last for a group is the addition.
\<close>

definition passes :: "(ptr \<times> u32 \<times> u8) list \<Rightarrow> ptr \<times> u32 \<Rightarrow> bool" where
  "passes cs = fold (\<lambda>(nif, addr, action) f. f((nif, addr) := action = IGMP_ADD_MAC_FILTER)) cs (\<lambda>_. False)"

lemma passes_append [simp]: "passes (cs @ [(nif, addr, action)]) = (passes cs)((nif, addr) := action = IGMP_ADD_MAC_FILTER)"
  by (simp add: passes_def)

definition igmp_rep :: "igm \<Rightarrow> (ptr \<times> u32 \<Rightarrow> nat) \<Rightarrow> ptr list \<Rightarrow> bool" where
  "igmp_rep s M gs \<longleftrightarrow> chain (ig_next s) (igmp_group_list s) gs \<and> distinct (map (gkey s) gs) \<and>
     (\<forall>g\<in>set gs. ig_state s g \<noteq> IGMP_GROUP_NON_MEMBER \<and> unat (ig_use s g) = M (gkey s g)) \<and> gkey s ` set gs = {k. 0 < M k} \<and>
     (\<forall>k. igmp_mac_filter s (fst k) \<longrightarrow> passes (mac_calls s) k = (0 < M k))"

lemma igmp_repD:
  assumes "igmp_rep s M gs"
  shows "chain (ig_next s) (igmp_group_list s) gs" "distinct (map (gkey s) gs)" "distinct gs" "NULL \<notin> set gs"
    "g \<in> set gs \<Longrightarrow> ig_state s g \<noteq> IGMP_GROUP_NON_MEMBER" "g \<in> set gs \<Longrightarrow> unat (ig_use s g) = M (gkey s g)"
    "g \<in> set gs \<Longrightarrow> 0 < M (gkey s g)" "0 < M k \<Longrightarrow> \<exists>g\<in>set gs. gkey s g = k"
    "igmp_mac_filter s nif \<Longrightarrow> passes (mac_calls s) (nif, addr) = (0 < M (nif, addr))"
proof -
  show c: "chain (ig_next s) (igmp_group_list s) gs" "distinct (map (gkey s) gs)" using assms by (simp_all add: igmp_rep_def)
  show "distinct gs" "NULL \<notin> set gs" by (rule chain_distinct [OF c(1)], rule chain_NULL_notin [OF c(1)])
  show "igmp_mac_filter s nif \<Longrightarrow> passes (mac_calls s) (nif, addr) = (0 < M (nif, addr))" using assms by (simp add: igmp_rep_def)
  have ks: "gkey s ` set gs = {k. 0 < M k}" using assms by (simp add: igmp_rep_def)
  show "g \<in> set gs \<Longrightarrow> 0 < M (gkey s g)" using ks by blast
  assume "0 < M k"
  then have "k \<in> gkey s ` set gs" unfolding ks by simp
  then show "\<exists>g\<in>set gs. gkey s g = k" by auto
qed (use assms in \<open>simp_all add: igmp_rep_def\<close>)

lemma igmp_rep_frame: "gframe s s' \<Longrightarrow> igmp_rep s M gs \<Longrightarrow> igmp_rep s' M gs"
proof -
  assume f: "gframe s s'" and r: "igmp_rep s M gs"
  have "gkey s' = gkey s" using f by (simp add: gframe_def gkey_def fun_eq_iff)
  then show ?thesis using f r by (simp add: igmp_rep_def gframe_def)
qed

lemma lookfor_rep:
  assumes "igmp_rep s M gs"
  shows "\<exists>g. igmp_lookfor_group nif addr s = Some g \<and> (g \<noteq> NULL \<longleftrightarrow> 0 < M (nif, addr)) \<and> (g \<noteq> NULL \<longrightarrow> g \<in> set gs \<and> gkey s g = (nif, addr))"
proof (cases "find (\<lambda>g. gkey s g = (nif, addr)) gs")
  case None
  then have "\<not> 0 < M (nif, addr)" using igmp_repD(8) [OF assms, of "(nif, addr)"] by (auto simp: find_None_iff)
  then show ?thesis using None lookfor_spec [OF igmp_repD(1) [OF assms]] by (simp add: igmp_lookfor_group_def)
next
  case (Some g)
  then have "g \<in> set gs" "gkey s g = (nif, addr)" by (auto simp: find_Some_iff)
  moreover from this have "0 < M (nif, addr)" "g \<noteq> NULL" using igmp_repD(4) [OF assms] igmp_repD(7) [OF assms, of g] by auto
  ultimately show ?thesis using Some lookfor_spec [OF igmp_repD(1) [OF assms]] by (simp add: igmp_lookfor_group_def)
qed

text \<open>Three changes of the list: another number of uses, a new group at the head, and a group less.\<close>

lemma igmp_rep_use:
  assumes r: "igmp_rep s M gs" and g: "g \<in> set gs" "gkey s g = k" and n: "0 < unat n"
  shows "igmp_rep (put_ig_use g n s) (M(k := unat n)) gs"
proof -
  have inj: "x = g" if "x \<in> set gs" "gkey s x = k" for x
    using igmp_repD(2) [OF r, unfolded distinct_map] that g by (metis inj_onD)
  have "0 < M k" using igmp_repD(7) [OF r g(1)] g(2) by simp
  have "gkey (put_ig_use g n s) = gkey s" by (simp add: gkey_def fun_eq_iff)
  moreover have "unat (ig_use (put_ig_use g n s) x) = (M(k := unat n)) (gkey s x)" if "x \<in> set gs" for x
  proof (cases "x = g")
    case False
    then have "gkey s x \<noteq> k" using inj that by blast
    then show ?thesis using False igmp_repD(6) [OF r that] by simp
  qed (use g(2) in simp)
  moreover have "0 < M j \<longleftrightarrow> 0 < (M(k := unat n)) j" for j using n \<open>0 < M k\<close> by simp
  ultimately show ?thesis using r unfolding igmp_rep_def by (simp del: fun_upd_apply)
qed

lemma igmp_rep_new:
  assumes r: "igmp_rep s M gs" and g: "g \<notin> set gs" "g \<noteq> NULL" and M: "M (nif, addr) = 0"
    and eq: "ig_next s' = (ig_next s)(g := igmp_group_list s)" "igmp_group_list s' = g" "ig_netif s' = (ig_netif s)(g := nif)"
      "ig_address s' = (ig_address s)(g := addr)" "ig_use s' = (ig_use s)(g := 1)" "igmp_mac_filter s' = igmp_mac_filter s"
      "ig_state s' g \<noteq> IGMP_GROUP_NON_MEMBER" "\<And>x. x \<in> set gs \<Longrightarrow> ig_state s' x = ig_state s x"
      "mac_calls s' = (if igmp_mac_filter s nif then mac_calls s @ [(nif, addr, IGMP_ADD_MAC_FILTER)] else mac_calls s)"
  shows "igmp_rep s' (M((nif, addr) := 1)) (g # gs)"
proof -
  have k: "gkey s' x = gkey s x" if "x \<in> set gs" for x using that g(1) by (auto simp: gkey_def eq)
  then have ks: "gkey s' ` set gs = gkey s ` set gs" "map (gkey s') gs = map (gkey s) gs" by auto
  have kg: "gkey s' g = (nif, addr)" by (simp add: gkey_def eq)
  have "(nif, addr) \<notin> gkey s ` set gs" using r M by (auto simp: igmp_rep_def)
  moreover have "chain (ig_next s') (igmp_group_list s') (g # gs)"
    using igmp_repD(1) [OF r] g by (auto simp: eq elim!: chain_cong)
  moreover have "unat (ig_use s' x) = (M((nif, addr) := 1)) (gkey s' x)" if "x \<in> set (g # gs)" for x
  proof (cases "x = g")
    case False
    then have x: "x \<in> set gs" using that by simp
    then have "gkey s x \<noteq> (nif, addr)" using igmp_repD(7) [OF r x] M by auto
    then show ?thesis using False x k igmp_repD(6) [OF r x] by (simp add: eq)
  qed (simp add: kg eq)
  moreover have "gkey s' ` set (g # gs) = {j. 0 < (M((nif, addr) := 1)) j}" using r ks kg by (auto simp: igmp_rep_def)
  moreover have "passes (mac_calls s') j = (0 < (M((nif, addr) := 1)) j)" if "igmp_mac_filter s' (fst j)" for j
    using that igmp_repD(9) [OF r] M by (cases j) (auto simp: eq)
  moreover have "distinct (map (gkey s') gs)" unfolding ks(2) by (rule igmp_repD(2) [OF r])
  ultimately show ?thesis using igmp_repD(5) [OF r] ks(1) kg eq(7,8) by (auto simp: igmp_rep_def)
qed

definition same_groups :: "igm \<Rightarrow> igm \<Rightarrow> bool" where
  "same_groups s s' \<longleftrightarrow> ig_netif s' = ig_netif s \<and> ig_address s' = ig_address s \<and> ig_use s' = ig_use s \<and> ig_state s' = ig_state s \<and>
     igmp_mac_filter s' = igmp_mac_filter s \<and> allsystems s' = allsystems s"

lemma igmp_rep_remove:
  assumes r: "igmp_rep s M gs" and gs: "set hs \<subseteq> set gs" and ch: "chain (ig_next s') (igmp_group_list s') hs"
    and same: "same_groups s s'"
    and M: "\<And>g. g \<in> set gs \<Longrightarrow> M' (gkey s g) = (if g \<in> set hs then M (gkey s g) else 0)" "\<And>k. M k = 0 \<Longrightarrow> M' k = 0"
    and f: "\<And>k. igmp_mac_filter s (fst k) \<Longrightarrow> passes (mac_calls s') k = (0 < M' k)"
  shows "igmp_rep s' M' hs"
proof -
  note eq = same [unfolded same_groups_def]
  have k: "gkey s' = gkey s" by (simp add: gkey_def fun_eq_iff eq)
  have inj: "inj_on (gkey s) (set hs)" using igmp_repD(2) [OF r] gs by (auto simp: distinct_map intro: inj_on_subset)
  have "k \<in> gkey s ` set hs" if p: "0 < M' k" for k
  proof -
    from p have "0 < M k" using M(2) [of k] by (cases "M k") auto
    then obtain g where "g \<in> set gs" "gkey s g = k" using igmp_repD(8) [OF r] by blast
    then show ?thesis using M(1) [of g] p by (auto split: if_splits)
  qed
  moreover have "0 < M' (gkey s g)" if "g \<in> set hs" for g using that gs M(1) [of g] igmp_repD(7) [OF r, of g] by auto
  ultimately have st: "gkey s ` set hs = {k. 0 < M' k}" by blast
  show ?thesis unfolding igmp_rep_def k
    using ch chain_distinct [OF ch] inj st gs igmp_repD(5,6) [OF r] M(1) f by (auto simp: eq distinct_map)
qed

section \<open>The operations on memberships\<close>

text \<open>The pool of groups hands out no group of the list.\<close>

definition fresh_group :: "igm \<Rightarrow> bool" where
  "fresh_group s \<longleftrightarrow> (\<forall>gs. chain (ig_next s) (igmp_group_list s) gs \<longrightarrow> fst (memp_malloc MEMP_IGMP_GROUP (glw s)) \<notin> set gs)"

definition new_group :: "ptr \<Rightarrow> ptr \<Rightarrow> u32 \<Rightarrow> igm \<Rightarrow> igm" where
  "new_group g nif addr s = s\<lparr>ig_netif := (ig_netif s)(g := nif), ig_address := (ig_address s)(g := addr), ig_timer := (ig_timer s)(g := 0),
     ig_state := (ig_state s)(g := IGMP_GROUP_NON_MEMBER), ig_last_reporter := (ig_last_reporter s)(g := 0), ig_use := (ig_use s)(g := 0),
     ig_next := (ig_next s)(g := igmp_group_list s), igmp_group_list := g\<rparr>"

lemma lookup_cases:
  assumes r: "igmp_rep s M gs" and f: "fresh_group s"
  shows "\<exists>g s1. igmp_lookup_group nif addr s = Some (g, s1) \<and>
    (g \<in> set gs \<and> gkey s g = (nif, addr) \<and> s1 = s \<or> M (nif, addr) = 0 \<and> g = NULL \<and> gframe s s1 \<or>
     M (nif, addr) = 0 \<and> g \<noteq> NULL \<and> g \<notin> set gs \<and> (\<exists>u. s1 = new_group g nif addr (s\<lparr>gudp := u\<rparr>)))"
proof -
  from lookfor_rep [OF r, of nif addr] obtain g where g: "igmp_lookfor_group nif addr s = Some g" "g \<noteq> NULL \<longleftrightarrow> 0 < M (nif, addr)"
    "g \<noteq> NULL \<longrightarrow> g \<in> set gs \<and> gkey s g = (nif, addr)" by (elim exE conjE)
  obtain n m where n: "memp_malloc MEMP_IGMP_GROUP (glw s) = (n, m)" by force
  have "n \<notin> set gs" using f igmp_repD(1) [OF r] n by (auto simp: fresh_group_def)
  then consider "g \<noteq> NULL" | "g = NULL" "n = NULL" | "g = NULL" "n \<noteq> NULL" "n \<notin> set gs" by blast
  then show ?thesis
  proof cases
    case 1
    then show ?thesis using g by (simp add: igmp_lookup_group_def)
  next
    case 2
    then have "igmp_lookup_group nif addr s = Some (NULL, put_glw m s)" using g(1) by (simp add: igmp_lookup_group_def n)
    then show ?thesis using g(2) 2 gframe_net by blast
  next
    case 3
    then have "igmp_lookup_group nif addr s = Some (n, new_group n nif addr (put_glw m s))"
      using g(1) by (simp add: igmp_lookup_group_def n new_group_def Let_def)
    then show ?thesis using g(2) 3 by blast
  qed
qed

lemma igmp_rep_filter:
  assumes r: "igmp_rep s M gs" and p: "0 < M (nif, addr)"
  shows "igmp_rep (mac_filter nif addr IGMP_ADD_MAC_FILTER s) M gs"
proof -
  let ?s = "mac_filter nif addr IGMP_ADD_MAC_FILTER s"
  have "gkey ?s = gkey s" by (simp add: gkey_def mac_filter_def fun_eq_iff)
  then show ?thesis using r p unfolding igmp_rep_def by (auto simp: mac_filter_def)
qed

lemma unat_Suc_u8: "unat x < 255 \<Longrightarrow> unat (x + 1 :: u8) = Suc (unat x)"
  by (simp add: unat_word_ariths)

lemma join_netif_rep:
  assumes r: "igmp_rep s M gs" and f: "fresh_group s" and k: "M (nif, addr) < 255" and j: "join_netif out nif addr s = Some (ok, s')"
  shows "\<exists>gs'. igmp_rep s' (if ok then M((nif, addr) := Suc (M (nif, addr))) else M) gs'"
proof -
  from lookup_cases [OF r f, of nif addr] obtain g s1 where g: "igmp_lookup_group nif addr s = Some (g, s1)"
    "g \<in> set gs \<and> gkey s g = (nif, addr) \<and> s1 = s \<or> M (nif, addr) = 0 \<and> g = NULL \<and> gframe s s1 \<or>
     M (nif, addr) = 0 \<and> g \<noteq> NULL \<and> g \<notin> set gs \<and> (\<exists>u. s1 = new_group g nif addr (s\<lparr>gudp := u\<rparr>))" by blast
  from g(2) consider (old) "g \<in> set gs" "gkey s g = (nif, addr)" "s1 = s" | (none) "g = NULL" "gframe s s1"
    | (new) u where "M (nif, addr) = 0" "g \<noteq> NULL" "g \<notin> set gs" "s1 = new_group g nif addr (s\<lparr>gudp := u\<rparr>)" by blast
  then show ?thesis
  proof cases
    case old
    have n: "g \<noteq> NULL" using igmp_repD(4) [OF r] old(1) by auto
    have j': "ok" "s' = put_ig_use g (ig_use s g + 1) s" using j igmp_repD(5) [OF r old(1)] n unfolding join_netif_def g(1) by (auto simp: old(3))
    have "unat (ig_use s g + 1) = Suc (M (nif, addr))" using igmp_repD(6) [OF r old(1)] k old(2) by (simp add: unat_Suc_u8)
    then show ?thesis using igmp_rep_use [OF r old(1,2), of "ig_use s g + 1"] j' by auto
  next
    case none
    then show ?thesis using j igmp_rep_frame [OF none(2) r] unfolding join_netif_def g(1) by auto
  next
    case new
    have st: "ig_state s1 g = 0" "ig_use s1 g = 0" by (simp_all add: new(4) new_group_def)
    let ?s2 = "mac_filter nif addr IGMP_ADD_MAC_FILTER s1"
    obtain s3 s4 where s: "igmp_send out g IGMP_V2_MEMB_REPORT ?s2 = Some s3" "igmp_start_timer g IGMP_JOIN_DELAYING_MEMBER_TMR s3 = Some s4"
      "ok" "s' = put_ig_use g (ig_use s4 g + 1) (put_ig_state g IGMP_GROUP_DELAYING_MEMBER s4)"
      using j new(2) st unfolding join_netif_def g(1) by (auto simp: bind_eq_Some_conv)
    have fr: "gframe ?s2 s4" "ig_state s4 = ig_state ?s2" using igmp_send_frame [OF s(1)] igmp_timer_frame [OF s(2)] gframe_trans by auto
    have m: "ig_next ?s2 = ig_next s1" "igmp_group_list ?s2 = igmp_group_list s1" "ig_netif ?s2 = ig_netif s1" "ig_address ?s2 = ig_address s1"
      "ig_use ?s2 = ig_use s1" "ig_state ?s2 = ig_state s1" "igmp_mac_filter ?s2 = igmp_mac_filter s1"
      "mac_calls ?s2 = (if igmp_mac_filter s1 nif then mac_calls s1 @ [(nif, addr, IGMP_ADD_MAC_FILTER)] else mac_calls s1)"
      by (simp_all add: mac_filter_def)
    have "igmp_rep s' (M((nif, addr) := 1)) (g # gs)"
      by (rule igmp_rep_new [OF r new(3,2,1)]) (use fr m new(3) in \<open>auto simp: s(4) gframe_def new(4) new_group_def\<close>)
    then show ?thesis using new(1) s(3) by auto
  qed
qed

lemma start_rep:
  assumes r: "igmp_rep s M gs" and f: "fresh_group s" and k: "M (nif, allsystems s) < 255" and j: "igmp_start nif s = Some (e, s')"
  shows "\<exists>gs'. igmp_rep s' (if e = ERR_OK then M((nif, allsystems s) := Suc (M (nif, allsystems s))) else M) gs'"
proof -
  let ?a = "allsystems s"
  from lookup_cases [OF r f, of nif ?a] obtain g s1 where g: "igmp_lookup_group nif ?a s = Some (g, s1)"
    "g \<in> set gs \<and> gkey s g = (nif, ?a) \<and> s1 = s \<or> M (nif, ?a) = 0 \<and> g = NULL \<and> gframe s s1 \<or>
     M (nif, ?a) = 0 \<and> g \<noteq> NULL \<and> g \<notin> set gs \<and> (\<exists>u. s1 = new_group g nif ?a (s\<lparr>gudp := u\<rparr>))" by blast
  from g(2) consider (old) "g \<in> set gs" "gkey s g = (nif, ?a)" "s1 = s" | (none) "g = NULL" "gframe s s1"
    | (new) u where "M (nif, ?a) = 0" "g \<noteq> NULL" "g \<notin> set gs" "s1 = new_group g nif ?a (s\<lparr>gudp := u\<rparr>)" by blast
  then show ?thesis
  proof cases
    case old
    have n: "g \<noteq> NULL" using igmp_repD(4) [OF r] old(1) by auto
    let ?s = "put_ig_state g IGMP_GROUP_IDLE_MEMBER s"
    have j': "e = ERR_OK" "s' = mac_filter nif ?a IGMP_ADD_MAC_FILTER (put_ig_use g (ig_use s g + 1) ?s)"
      using j n unfolding igmp_start_def g(1) by (auto simp: old(3) Let_def)
    have u: "unat (ig_use s g + 1) = Suc (M (nif, ?a))" using igmp_repD(6) [OF r old(1)] k old(2) by (simp add: unat_Suc_u8)
    have "igmp_rep ?s M gs" by (rule igmp_rep_frame [OF _ r]) (simp add: gframe_def)
    from igmp_rep_use [OF this old(1), of "(nif, ?a)" "ig_use s g + 1"] old(2) u
    have "igmp_rep (put_ig_use g (ig_use s g + 1) ?s) (M((nif, ?a) := Suc (M (nif, ?a)))) gs" by (simp add: gkey_def)
    then have "igmp_rep s' (M((nif, ?a) := Suc (M (nif, ?a)))) gs" unfolding j'(2) by (rule igmp_rep_filter) simp
    then show ?thesis using j'(1) by auto
  next
    case none
    then show ?thesis using j igmp_rep_frame [OF none(2) r] unfolding igmp_start_def g(1) by auto
  next
    case new
    have j': "e = ERR_OK" "s' = mac_filter nif (allsystems s1) IGMP_ADD_MAC_FILTER (put_ig_use g (ig_use s1 g + 1) (put_ig_state g IGMP_GROUP_IDLE_MEMBER s1))"
      using j new(2) unfolding igmp_start_def g(1) by (auto simp: Let_def)
    have "igmp_rep s' (M((nif, ?a) := 1)) (g # gs)"
      by (rule igmp_rep_new [OF r new(3,2,1)]) (use new(3) in \<open>auto simp: j'(2) new(4) new_group_def mac_filter_def\<close>)
    then show ?thesis using new(1) j'(1) by auto
  qed
qed

lemma group_before_spec:
  "chain (ig_next s) q (as @ g # bs) \<Longrightarrow> as \<noteq> [] \<Longrightarrow> group_before s g q = Some (last as)"
proof (induction as arbitrary: q)
  case (Cons a as)
  have a: "q = a" "a \<noteq> NULL" "chain (ig_next s) (ig_next s a) (as @ g # bs)" using Cons.prems(1) by auto
  have d: "distinct (a # as @ g # bs)" using chain_distinct [OF Cons.prems(1)] by simp
  show ?case
  proof (cases as)
    case Nil
    then show ?thesis using a by (subst group_before.simps) simp
  next
    case (Cons b cs)
    then have "ig_next s a \<noteq> g" using a(3) d by auto
    then have "group_before s g q = group_before s g (ig_next s a)" using a(1,2) by (subst group_before.simps) simp
    then show ?thesis using Cons.IH [OF a(3)] Cons by simp
  qed
qed simp

lemma igmp_remove_group_spec:
  assumes c: "chain (ig_next s) (igmp_group_list s) gs" and g: "g \<in> set gs" and r: "igmp_remove_group g s = Some (e, s')"
  shows "same_groups s s' \<and> mac_calls s' = mac_calls s \<and> chain (ig_next s') (igmp_group_list s') (remove1 g gs)"
proof -
  from split_list_first [OF g] obtain as bs where ab: "gs = as @ g # bs" "g \<notin> set as" by blast
  have d: "distinct gs" and n: "g \<noteq> NULL" using chain_distinct [OF c] chain_NULL_notin [OF c] g by auto
  have rm: "remove1 g gs = as @ bs" using ab by (simp add: remove1_append)
  show ?thesis
  proof (cases as)
    case Nil
    then have "igmp_group_list s = g" "chain (ig_next s) (ig_next s g) bs" using c ab by auto
    then show ?thesis using r n rm Nil unfolding igmp_remove_group_def
      by (auto simp: bind_eq_Some_conv same_groups_def)
  next
    case (Cons a cs)
    then have h: "igmp_group_list s = a" "a \<noteq> g" using c ab by auto
    have "group_before s g (igmp_group_list s) = Some (last as)" by (rule group_before_spec) (use c ab Cons in auto)
    moreover have "last as \<noteq> NULL" using chain_NULL_notin [OF c] ab Cons by (metis Un_iff last_in_set list.distinct(1) set_append)
    moreover have "chain ((ig_next s)(last as := ig_next s g)) a (as @ bs)"
    proof -
      have "chain (ig_next s) (ig_next s a) (cs @ g # bs)" using c ab Cons by simp
      from chain_remove [OF this] have "chain ((ig_next s)(last as := ig_next s g)) (((ig_next s)(last as := ig_next s g)) a) (cs @ bs)" using d ab Cons by simp
      then show ?thesis using Cons h c ab by simp
    qed
    ultimately show ?thesis using r h rm unfolding igmp_remove_group_def
      by (auto simp: bind_eq_Some_conv same_groups_def)
  qed
qed

lemma unat_Pred_u8: "\<not> x \<le> 1 \<Longrightarrow> unat (x - 1 :: u8) = unat x - 1 \<and> 1 < unat x"
  by (simp add: word_le_nat_alt unat_sub not_le)

lemma leave_netif_rep:
  assumes r: "igmp_rep s M gs" and j: "leave_netif out nif addr s = Some (ok, s')"
  shows "\<exists>gs'. igmp_rep s' (M((nif, addr) := M (nif, addr) - 1)) gs' \<and> (ok \<longleftrightarrow> 0 < M (nif, addr))"
proof -
  from lookfor_rep [OF r, of nif addr] obtain g where g: "igmp_lookfor_group nif addr s = Some g" "g \<noteq> NULL \<longleftrightarrow> 0 < M (nif, addr)"
    "g \<noteq> NULL \<longrightarrow> g \<in> set gs \<and> gkey s g = (nif, addr)" by (elim exE conjE)
  consider (none) "g = NULL" | (one) "g \<noteq> NULL" "ig_use s g \<le> 1" | (more) "g \<noteq> NULL" "\<not> ig_use s g \<le> 1" by blast
  then show ?thesis
  proof cases
    case none
    then have "s' = s" "\<not> ok" "M (nif, addr) = 0" using j g by (auto simp: leave_netif_def)
    then show ?thesis using r by (metis diff_0_eq_0 fun_upd_triv less_numeral_extra(3))
  next
    case one
    then have k: "g \<in> set gs" "gkey s g = (nif, addr)" "0 < M (nif, addr)" using g by auto
    have "unat (ig_use s g) \<le> 1" using one(2) by (simp add: word_le_nat_alt)
    then have M: "M (nif, addr) = 1" using igmp_repD(6) [OF r k(1)] k(2,3) by simp
    obtain s1 e where s1: "(if ig_last_reporter s g \<noteq> 0 then igmp_send out g IGMP_LEAVE_GROUP s else Some s) = Some s1"
      "igmp_remove_group g (mac_filter nif addr IGMP_DEL_MAC_FILTER s1) = Some (e, s')" "ok"
      using j one g(1) by (auto simp: leave_netif_def bind_eq_Some_conv Let_def)
    have f: "gframe s s1" "ig_state s1 = ig_state s" using s1(1) igmp_send_frame by (auto split: if_splits)
    have r1: "igmp_rep s1 M gs" by (rule igmp_rep_frame [OF f(1) r])
    let ?s = "mac_filter nif addr IGMP_DEL_MAC_FILTER s1"
    have c: "chain (ig_next ?s) (igmp_group_list ?s) gs" using igmp_repD(1) [OF r1] by (simp add: mac_filter_def)
    note rm = igmp_remove_group_spec [OF c k(1) s1(2)]
    have s': "same_groups s1 s'" "mac_calls s' = mac_calls ?s" "chain (ig_next s') (igmp_group_list s') (remove1 g gs)"
      using rm by (auto simp: mac_filter_def same_groups_def)
    have k1: "gkey s1 = gkey s" using f(1) by (simp add: gframe_def gkey_def fun_eq_iff)
    have "igmp_rep s' (M((nif, addr) := 0)) (remove1 g gs)"
    proof (rule igmp_rep_remove [OF r1 set_remove1_subset])
      fix x assume x: "x \<in> set gs"
      have "gkey s x = (nif, addr) \<longleftrightarrow> x = g" using x k(1,2) igmp_repD(2) [OF r, unfolded distinct_map] by (metis inj_onD)
      then show "(M((nif, addr) := 0)) (gkey s1 x) = (if x \<in> set (remove1 g gs) then M (gkey s1 x) else 0)"
        using x igmp_repD(3) [OF r] unfolding k1 by auto
    next
      fix k :: "ptr \<times> u32" assume "igmp_mac_filter s1 (fst k)"
      then show "passes (mac_calls s') k = (0 < (M((nif, addr) := 0)) k)"
        using igmp_repD(9) [OF r1] by (cases k) (auto simp: s'(2) mac_filter_def)
    qed (use s' in auto)
    then show ?thesis using M s1(3) by auto
  next
    case more
    then have k: "g \<in> set gs" "gkey s g = (nif, addr)" using g by auto
    have u: "unat (ig_use s g - 1) = M (nif, addr) - 1" "1 < unat (ig_use s g)"
      using unat_Pred_u8 [OF more(2)] igmp_repD(6) [OF r k(1)] k(2) by simp_all
    have "ok" "s' = put_ig_use g (ig_use s g - 1) s" using j more g(1) by (auto simp: leave_netif_def)
    moreover have "0 < unat (ig_use s g - 1)" using unat_Pred_u8 [OF more(2)] by simp
    ultimately show ?thesis using igmp_rep_use [OF r k, of "ig_use s g - 1"] u(1) g(2) more(1) by auto
  qed
qed

text \<open>The loop of \<open>igmp_stop\<close>, with the groups \<open>as\<close> that it has passed and left in the list.\<close>

lemma igmp_stop_loop_spec:
  assumes "chain (ig_next s) (igmp_group_list s) (as @ bs)" "prev = (if as = [] then NULL else last as)" "q = first_ptr bs"
    and "igmp_stop_loop nif prev q s = Some s'"
  shows "chain (ig_next s') (igmp_group_list s') (as @ filter (\<lambda>g. ig_netif s g \<noteq> nif) bs) \<and> same_groups s s' \<and>
    mac_calls s' = mac_calls s @ (if igmp_mac_filter s nif then map (\<lambda>g. (nif, ig_address s g, IGMP_DEL_MAC_FILTER)) (filter (\<lambda>g. ig_netif s g = nif) bs) else [])"
  using assms
proof (induction bs arbitrary: s as prev q)
  case Nil
  then show ?case by (subst (asm) igmp_stop_loop.simps) (auto simp: same_groups_def)
next
  case (Cons g bs)
  have n: "NULL \<notin> set (as @ g # bs)" "distinct (as @ g # bs)" using chain_NULL_notin [OF Cons.prems(1)] chain_distinct [OF Cons.prems(1)] by auto
  have g: "q = g" "g \<noteq> NULL" using n Cons.prems(3) by auto
  have nx: "ig_next s g = first_ptr bs" using chain_suffix [OF Cons.prems(1)] by (auto simp: chain_first_ptr)
  show ?case
  proof (cases "ig_netif s g = nif")
    case False
    have "igmp_stop_loop nif g (first_ptr bs) s = Some s'"
      using Cons.prems(4) g nx False by (subst (asm) igmp_stop_loop.simps) (simp add: Let_def)
    from Cons.IH [of s "as @ [g]" g "first_ptr bs", OF _ _ refl this] Cons.prems(1) False show ?thesis by simp
  next
    case True
    define s1 where "s1 = (if g = igmp_group_list s then s\<lparr>igmp_group_list := first_ptr bs\<rparr> else s)"
    define s2 where "s2 = (if prev \<noteq> NULL then put_ig_next prev (first_ptr bs) s1 else s1)"
    define s3 where "s3 = mac_filter nif (ig_address s2 g) IGMP_DEL_MAC_FILTER s2"
    have "igmp_stop_loop nif prev g s = memp_free MEMP_IGMP_GROUP g (glw s3) \<bind> (\<lambda>m. igmp_stop_loop nif prev (first_ptr bs) (put_glw m s3))"
      unfolding s3_def s2_def s1_def using g(2) nx True by (subst igmp_stop_loop.simps) (simp only: Let_def if_True simp_thms)
    then obtain m where m: "igmp_stop_loop nif prev (first_ptr bs) (put_glw m s3) = Some s'"
      using Cons.prems(4) g(1) by (auto simp: bind_eq_Some_conv)
    have f: "same_groups s (put_glw m s3)" "mac_calls s3 = mac_calls s @ (if igmp_mac_filter s nif then [(nif, ig_address s g, IGMP_DEL_MAC_FILTER)] else [])"
      by (auto simp: s3_def s2_def s1_def mac_filter_def same_groups_def)
    have "chain (ig_next s3) (igmp_group_list s3) (as @ bs)"
    proof (cases as)
      case Nil
      then show ?thesis using Cons.prems(1,2) by (auto simp: s3_def s2_def s1_def mac_filter_def nx [symmetric])
    next
      case (Cons a cs)
      have "last as \<in> set (as @ g # bs)" using last_in_set [of as] Cons by simp
      then have "last as \<noteq> NULL" using n(1) by metis
      then have h: "igmp_group_list s = a" "a \<noteq> g" "last as \<noteq> NULL" using Cons.prems(1) n Cons by auto
      have "chain (ig_next s) (ig_next s a) (cs @ g # bs)" using Cons.prems(1) Cons by simp
      from chain_remove [OF this] have "chain ((ig_next s)(last as := ig_next s g)) (((ig_next s)(last as := ig_next s g)) a) (cs @ bs)" using n(2) Cons by simp
      then show ?thesis using Cons h Cons.prems(2) n(1) by (auto simp: s3_def s2_def s1_def mac_filter_def nx [symmetric])
    qed
    then have c: "chain (ig_next (put_glw m s3)) (igmp_group_list (put_glw m s3)) (as @ bs)" by simp
    have eq: "ig_netif s3 = ig_netif s" "ig_address s3 = ig_address s" "igmp_mac_filter s3 = igmp_mac_filter s" using f(1) by (auto simp: same_groups_def)
    from Cons.IH [OF c Cons.prems(2) refl m] f eq True show ?thesis by (auto simp: same_groups_def)
  qed
qed

lemma passes_dels:
  "passes (cs @ map (\<lambda>g. (nif, f g, IGMP_DEL_MAC_FILTER)) gs) k \<longleftrightarrow> passes cs k \<and> k \<notin> (\<lambda>g. (nif, f g)) ` set gs"
proof (induction gs rule: rev_induct)
  case (snoc g gs)
  have "passes (cs @ map (\<lambda>g. (nif, f g, IGMP_DEL_MAC_FILTER)) (gs @ [g])) = (passes (cs @ map (\<lambda>g. (nif, f g, IGMP_DEL_MAC_FILTER)) gs))((nif, f g) := False)"
    using passes_append [of "cs @ map (\<lambda>g. (nif, f g, IGMP_DEL_MAC_FILTER)) gs" nif "f g" IGMP_DEL_MAC_FILTER] by simp
  then show ?case using snoc by auto
qed simp

lemma stop_rep:
  assumes r: "igmp_rep s M gs" and j: "igmp_stop nif s = Some (e, s')"
  shows "igmp_rep s' (\<lambda>(n, a). if n = nif then 0 else M (n, a)) (filter (\<lambda>g. ig_netif s g \<noteq> nif) gs)"
proof -
  have c: "chain (ig_next s) (igmp_group_list s) gs" by (rule igmp_repD(1) [OF r])
  have "igmp_stop_loop nif NULL (igmp_group_list s) s = Some s'" using j by (auto simp: igmp_stop_def bind_eq_Some_conv)
  from igmp_stop_loop_spec [of s "[]" gs NULL "igmp_group_list s" nif s'] c chain_first_ptr [OF c] this
  have s': "chain (ig_next s') (igmp_group_list s') (filter (\<lambda>g. ig_netif s g \<noteq> nif) gs)" "same_groups s s'"
    "mac_calls s' = mac_calls s @ (if igmp_mac_filter s nif then map (\<lambda>g. (nif, ig_address s g, IGMP_DEL_MAC_FILTER)) (filter (\<lambda>g. ig_netif s g = nif) gs) else [])"
    by auto
  show ?thesis
  proof (rule igmp_rep_remove [OF r _ s'(1,2)])
    fix k :: "ptr \<times> u32" assume k: "igmp_mac_filter s (fst k)"
    have "k \<notin> (\<lambda>g. (nif, ig_address s g)) ` set (filter (\<lambda>g. ig_netif s g = nif) gs) \<longleftrightarrow> \<not> (fst k = nif \<and> 0 < M k)"
    proof -
      have "0 < M k \<longleftrightarrow> k \<in> gkey s ` set gs" using r by (simp add: igmp_rep_def)
      then show ?thesis by (cases k) (auto simp: gkey_def)
    qed
    then show "passes (mac_calls s') k = (0 < (case k of (n, a) \<Rightarrow> if n = nif then 0 else M (n, a)))"
      using k igmp_repD(9) [OF r] unfolding s'(3) by (cases k) (auto simp: passes_dels)
  qed (auto simp: gkey_def)
qed

lemma igmp_input_frame: "igmp_input p inp dest s = Some s' \<Longrightarrow> gframe s s'"
proof -
  assume r: "igmp_input p inp dest s = Some s'"
  obtain short m where m: "pbuf_header p (- (IPH_HL (bytes (glw s)) (pb_payload (glw s) p) * 4)) (glw s) = (short, m)" by force
  let ?s = "put_glw m s"
  have f: "gframe ?s s'" if "igmp_free p t = Some s'" "gframe ?s t" for t
    using igmp_free_net [OF that(1)] that(2) by (auto simp: gframe_def)
  have rep: "gframe ?s (put_ig_last_reporter g 0 (put_ig_state g IGMP_GROUP_IDLE_MEMBER (put_ig_timer g 0 ?s)))" for g by (simp add: gframe_def)
  have "gframe ?s s'"
    using r unfolding igmp_input_def Let_def m prod.case
    by (auto simp: bind_eq_Some_conv split: if_splits intro: f [OF _ igmp_query_frame] f [OF _ rep] f [OF _ gframe_refl])
  then show ?thesis by (auto simp: gframe_def)
qed

section \<open>Joining and leaving on all interfaces\<close>

text \<open>The interfaces stay as they are while messages are sent.\<close>

definition same_ifs :: "igm \<Rightarrow> igm \<Rightarrow> bool" where
  "same_ifs s s' \<longleftrightarrow> netifs (gip s') = netifs (gip s) \<and> netif_next (gip s') = netif_next (gip s)"

lemma same_ifs_trans: "same_ifs s s' \<Longrightarrow> same_ifs s' s'' \<Longrightarrow> same_ifs s s''"
  by (simp add: same_ifs_def)

lemma ip_send_ifs: "ip_send out p dest nif i = Some (e, i') \<Longrightarrow> netifs i' = netifs i \<and> netif_next i' = netif_next i"
  by (auto simp: ip_send_def bind_eq_Some_conv split: if_splits prod.splits)

lemma ip_output_if_opt_ifs:
  "ip_output_if_opt out p src dest ttl tos proto nif opts optlen i = Some (e, i') \<Longrightarrow> netifs i' = netifs i \<and> netif_next i' = netif_next i"
  unfolding ip_output_if_opt_def Let_def by (auto dest: ip_send_ifs split: option.splits if_splits prod.splits)

lemma igmp_free_ifs: "igmp_free p s = Some s' \<Longrightarrow> same_ifs s s'"
  by (auto simp: igmp_free_def same_ifs_def bind_eq_Some_conv)

lemma igmp_ip_output_ifs: "igmp_ip_output_if out p src dest nif s = Some s' \<Longrightarrow> same_ifs s s'"
  by (auto simp: igmp_ip_output_if_def same_ifs_def Let_def bind_eq_Some_conv dest: ip_output_if_opt_ifs)

lemma igmp_send_ifs: "igmp_send out g ty s = Some s' \<Longrightarrow> same_ifs s s'"
  by (auto simp: igmp_send_def Let_def bind_eq_Some_conv same_ifs_def split: if_splits dest!: igmp_free_ifs igmp_ip_output_ifs)

lemma igmp_timer_ifs: "igmp_start_timer g n s = Some s' \<Longrightarrow> same_ifs s s'"
  by (auto simp: igmp_start_timer_def same_ifs_def Let_def split: if_splits)

lemma mac_filter_ifs: "same_ifs s (mac_filter nif addr a s)"
  by (simp add: mac_filter_def same_ifs_def)

lemma igmp_lookup_ifs: "igmp_lookup_group nif addr s = Some (g, s') \<Longrightarrow> same_ifs s s'"
  by (auto simp: igmp_lookup_group_def same_ifs_def Let_def bind_eq_Some_conv split: if_splits prod.splits)

lemma igmp_remove_ifs: "igmp_remove_group g s = Some (e, s') \<Longrightarrow> same_ifs s s'"
  by (auto simp: igmp_remove_group_def same_ifs_def bind_eq_Some_conv split: if_splits)

lemma join_netif_ifs:
  assumes "join_netif out nif addr s = Some (ok, s')"
  shows "same_ifs s s'"
proof -
  obtain g s1 where g: "igmp_lookup_group nif addr s = Some (g, s1)" using assms by (auto simp: join_netif_def bind_eq_Some_conv)
  note l = igmp_lookup_ifs [OF g]
  show ?thesis
  proof (cases "g \<noteq> NULL \<and> ig_state s1 g = IGMP_GROUP_NON_MEMBER")
    case True
    let ?s2 = "if ig_use s1 g = 0 then mac_filter nif addr IGMP_ADD_MAC_FILTER s1 else s1"
    obtain s3 s4 where s: "igmp_send out g IGMP_V2_MEMB_REPORT ?s2 = Some s3" "igmp_start_timer g IGMP_JOIN_DELAYING_MEMBER_TMR s3 = Some s4"
      "same_ifs s4 s'" using assms True by (auto simp: join_netif_def g bind_eq_Some_conv Let_def same_ifs_def)
    have "same_ifs s1 ?s2" using mac_filter_ifs by (simp add: same_ifs_def)
    then show ?thesis using l igmp_send_ifs [OF s(1)] igmp_timer_ifs [OF s(2)] s(3) by (simp add: same_ifs_def)
  next
    case False
    then show ?thesis using l assms by (auto simp: join_netif_def g same_ifs_def split: if_splits)
  qed
qed

lemma leave_netif_ifs:
  assumes "leave_netif out nif addr s = Some (ok, s')"
  shows "same_ifs s s'"
proof -
  obtain g where g: "igmp_lookfor_group nif addr s = Some g" using assms by (auto simp: leave_netif_def bind_eq_Some_conv)
  show ?thesis
  proof (cases "g \<noteq> NULL \<and> ig_use s g \<le> 1")
    case True
    obtain s1 e where s: "(if ig_last_reporter s g \<noteq> 0 then igmp_send out g IGMP_LEAVE_GROUP s else Some s) = Some s1"
      "igmp_remove_group g (mac_filter nif addr IGMP_DEL_MAC_FILTER s1) = Some (e, s')"
      using assms True by (auto simp: leave_netif_def g bind_eq_Some_conv Let_def)
    have "same_ifs s s1" using s(1) igmp_send_ifs by (auto simp: same_ifs_def split: if_splits)
    then show ?thesis using mac_filter_ifs [of s1] igmp_remove_ifs [OF s(2)] by (simp add: same_ifs_def)
  next
    case False
    then show ?thesis using assms by (auto simp: leave_netif_def g same_ifs_def split: if_splits)
  qed
qed

text \<open>
  The interfaces that a call of \<open>igmp_joingroup\<close> or \<open>igmp_leavegroup\<close> is for, of the list \<open>ns\<close>; those that are joined before there
  is no memory for a group, and the states in which a group may be allocated.
\<close>

abbreviation meant :: "u32 \<Rightarrow> ptr list \<Rightarrow> igm \<Rightarrow> ptr list" where
  "meant ifaddr ns s \<equiv> filter (\<lambda>n. igmp_on (netifs (gip s) n) ifaddr) ns"

fun joined :: "netif_out \<Rightarrow> u32 \<Rightarrow> ptr list \<Rightarrow> igm \<Rightarrow> ptr list" where
  "joined out addr [] s = []"
| "joined out addr (n # ns) s = (case join_netif out n addr s of Some (True, s') \<Rightarrow> n # joined out addr ns s' | _ \<Rightarrow> [])"

fun join_states :: "netif_out \<Rightarrow> u32 \<Rightarrow> ptr list \<Rightarrow> igm \<Rightarrow> igm list" where
  "join_states out addr [] s = []"
| "join_states out addr (n # ns) s = s # (case join_netif out n addr s of Some (True, s') \<Rightarrow> join_states out addr ns s' | _ \<Rightarrow> [])"

text \<open>One membership more, or less, of the group \<open>addr\<close> on the interfaces \<open>J\<close>.\<close>

definition one_more :: "ptr list \<Rightarrow> u32 \<Rightarrow> (ptr \<times> u32 \<Rightarrow> nat) \<Rightarrow> ptr \<times> u32 \<Rightarrow> nat" where
  "one_more J addr M = (\<lambda>(n, a). if n \<in> set J \<and> a = addr then Suc (M (n, a)) else M (n, a))"

definition one_less :: "ptr list \<Rightarrow> u32 \<Rightarrow> (ptr \<times> u32 \<Rightarrow> nat) \<Rightarrow> ptr \<times> u32 \<Rightarrow> nat" where
  "one_less J addr M = (\<lambda>(n, a). if n \<in> set J \<and> a = addr then M (n, a) - 1 else M (n, a))"

lemma joined_sub: "set (joined out addr ns s) \<subseteq> set ns"
proof (induction ns arbitrary: s)
  case (Cons n ns)
  show ?case using Cons by (auto split: option.splits prod.splits bool.splits)
qed simp

lemma join_loop_rep:
  assumes "chain (netif_next (gip s)) q ns" "igmp_rep s M gs" "\<forall>t\<in>set (join_states out addr (meant ifaddr ns s) s). fresh_group t"
    and "\<forall>n\<in>set ns. M (n, addr) < 255" "join_loop out ifaddr addr q e s = Some (e', s')"
  shows "\<exists>gs'. igmp_rep s' (one_more (joined out addr (meant ifaddr ns s) s) addr M) gs' \<and>
    (if joined out addr (meant ifaddr ns s) s = meant ifaddr ns s then e' = (if meant ifaddr ns s = [] then e else ERR_OK) else e' = ERR_MEM)"
  using assms
proof (induction ns arbitrary: s q M gs e)
  case Nil
  have "one_more [] addr M = M" by (simp add: one_more_def)
  with Nil show ?case by (subst (asm) join_loop.simps) auto
next
  case (Cons n ns)
  have q: "q = n" "n \<noteq> NULL" "chain (netif_next (gip s)) (netif_next (gip s) n) ns" "n \<notin> set ns"
    using Cons.prems(1) chain_distinct [OF Cons.prems(1)] by auto
  note run = Cons.prems(5) [unfolded q(1) join_loop.simps [of out ifaddr addr n e s]]
  show ?case
  proof (cases "igmp_on (netifs (gip s) n) ifaddr")
    case False
    then have "join_loop out ifaddr addr (netif_next (gip s) n) e s = Some (e', s')" using run q(2) by simp
    from Cons.IH [OF q(3) Cons.prems(2) _ _ this] Cons.prems(3,4) False show ?thesis by simp
  next
    case True
    then obtain ok s1 where s1: "join_netif out n addr s = Some (ok, s1)" using run q(2) by (auto simp: bind_eq_Some_conv)
    have fr: "fresh_group s" "M (n, addr) < 255" using Cons.prems(3,4) True by auto
    from join_netif_rep [OF Cons.prems(2) fr s1] obtain gs1 where g1: "igmp_rep s1 (if ok then M((n, addr) := Suc (M (n, addr))) else M) gs1" by blast
    have ifs: "netifs (gip s1) = netifs (gip s)" "netif_next (gip s1) = netif_next (gip s)" using join_netif_ifs [OF s1] by (simp_all add: same_ifs_def)
    show ?thesis
    proof (cases ok)
      case False
      then have "e' = ERR_MEM" "s' = s1" using run q(2) True s1 by auto
      then show ?thesis using g1 False True s1 by (auto simp: one_more_def)
    next
      case ok: True
      let ?M = "M((n, addr) := Suc (M (n, addr)))" and ?J = "joined out addr (meant ifaddr ns s) s1"
      have r: "join_loop out ifaddr addr (netif_next (gip s1) n) ERR_OK s1 = Some (e', s')" using run q(2) True s1 ok by simp
      have c: "chain (netif_next (gip s1)) (netif_next (gip s1) n) ns" using q(3) by (simp add: ifs)
      have f: "\<forall>t\<in>set (join_states out addr (meant ifaddr ns s1) s1). fresh_group t" using Cons.prems(3) True s1 ok by (simp add: ifs)
      have k: "\<forall>n\<in>set ns. ?M (n, addr) < 255" using Cons.prems(4) q(4) by auto
      have g: "igmp_rep s1 ?M gs1" using g1 ok by simp
      from Cons.IH [OF c g f k r, unfolded ifs if_cancel] obtain gs' where gs': "igmp_rep s' (one_more ?J addr ?M) gs'"
        "if ?J = meant ifaddr ns s then e' = ERR_OK else e' = ERR_MEM" by blast
      have "set ?J \<subseteq> set (meant ifaddr ns s)" by (rule joined_sub)
      then have "n \<notin> set ?J" using q(4) by auto
      then have "one_more ?J addr ?M = one_more (n # ?J) addr M" by (auto simp: one_more_def fun_eq_iff)
      then show ?thesis using gs' True s1 ok by (auto split: if_splits)
    qed
  qed
qed

lemma leave_loop_rep:
  assumes "chain (netif_next (gip s)) q ns" "igmp_rep s M gs" "leave_loop out ifaddr addr q e s = Some (e', s')"
  shows "\<exists>gs'. igmp_rep s' (one_less (meant ifaddr ns s) addr M) gs' \<and> e' = (if \<exists>n\<in>set (meant ifaddr ns s). 0 < M (n, addr) then ERR_OK else e)"
  using assms
proof (induction ns arbitrary: s q M gs e)
  case Nil
  have "one_less [] addr M = M" by (simp add: one_less_def)
  with Nil show ?case by (subst (asm) leave_loop.simps) auto
next
  case (Cons n ns)
  have q: "q = n" "n \<noteq> NULL" "chain (netif_next (gip s)) (netif_next (gip s) n) ns" "n \<notin> set ns"
    using Cons.prems(1) chain_distinct [OF Cons.prems(1)] by auto
  note run = Cons.prems(3) [unfolded q(1) leave_loop.simps [of out ifaddr addr n e s]]
  show ?case
  proof (cases "igmp_on (netifs (gip s) n) ifaddr")
    case False
    then have "leave_loop out ifaddr addr (netif_next (gip s) n) e s = Some (e', s')" using run q(2) by simp
    from Cons.IH [OF q(3) Cons.prems(2) this] False show ?thesis by simp
  next
    case True
    then obtain ok s1 where s1: "leave_netif out n addr s = Some (ok, s1)" using run q(2) by (auto simp: bind_eq_Some_conv)
    let ?M = "M((n, addr) := M (n, addr) - 1)"
    from leave_netif_rep [OF Cons.prems(2) s1] obtain gs1 where g1: "igmp_rep s1 ?M gs1" "ok \<longleftrightarrow> 0 < M (n, addr)" by blast
    have ifs: "netifs (gip s1) = netifs (gip s)" "netif_next (gip s1) = netif_next (gip s)" using leave_netif_ifs [OF s1] by (simp_all add: same_ifs_def)
    have r: "leave_loop out ifaddr addr (netif_next (gip s1) n) (if ok then ERR_OK else e) s1 = Some (e', s')" using run q(2) True s1 by simp
    have c: "chain (netif_next (gip s1)) (netif_next (gip s1) n) ns" using q(3) by (simp add: ifs)
    from Cons.IH [OF c g1(1) r, unfolded ifs] obtain gs' where gs': "igmp_rep s' (one_less (meant ifaddr ns s) addr ?M) gs'"
      "e' = (if \<exists>n\<in>set (meant ifaddr ns s). 0 < ?M (n, addr) then ERR_OK else if ok then ERR_OK else e)" by blast
    have "one_less (meant ifaddr ns s) addr ?M = one_less (meant ifaddr (n # ns) s) addr M"
      using q(4) True by (auto simp: one_less_def fun_eq_iff)
    moreover have "(\<exists>k\<in>set (meant ifaddr ns s). 0 < ?M (k, addr)) \<longleftrightarrow> (\<exists>k\<in>set (meant ifaddr ns s). 0 < M (k, addr))" using q(4) by auto
    ultimately show ?thesis using gs' True g1(2) by auto
  qed
qed

section \<open>Runs\<close>

text \<open>
  The calls of \<open>igmp.c\<close>, and anything else that the network does. \<open>M\<close> counts the memberships. A group is joined on the interfaces
  that the call is for or, if there is no memory for one of them, on those in front of it. The pool hands out no group of the list, and
  no group is joined while it has 255 memberships, as the counter has 8 bits.
\<close>

inductive igmp_step :: "(ptr \<times> u32 \<Rightarrow> nat) \<times> igm \<Rightarrow> (ptr \<times> u32 \<Rightarrow> nat) \<times> igm \<Rightarrow> bool" where
  step_start: "igmp_start nif s = Some (e, s') \<Longrightarrow> fresh_group s \<Longrightarrow> M (nif, allsystems s) < 255 \<Longrightarrow>
    igmp_step (M, s) (if e = ERR_OK then M((nif, allsystems s) := Suc (M (nif, allsystems s))) else M, s')"
| step_stop: "igmp_stop nif s = Some (e, s') \<Longrightarrow> igmp_step (M, s) (\<lambda>(n, a). if n = nif then 0 else M (n, a), s')"
| step_join: "igmp_joingroup out ifaddr addr s = Some (e, s') \<Longrightarrow> chain (netif_next (gip s)) (netif_list (gip s)) ns \<Longrightarrow>
    \<forall>t\<in>set (join_states out addr (meant ifaddr ns s) s). fresh_group t \<Longrightarrow> \<forall>n\<in>set ns. M (n, addr) < 255 \<Longrightarrow>
    igmp_step (M, s) (if \<not> ip_addr_ismulticast addr \<or> addr = allsystems s then M
      else one_more (if e = ERR_MEM then joined out addr (meant ifaddr ns s) s else meant ifaddr ns s) addr M, s')"
| step_leave: "igmp_leavegroup out ifaddr addr s = Some (e, s') \<Longrightarrow> chain (netif_next (gip s)) (netif_list (gip s)) ns \<Longrightarrow>
    igmp_step (M, s) (if \<not> ip_addr_ismulticast addr \<or> addr = allsystems s then M else one_less (meant ifaddr ns s) addr M, s')"
| step_report: "igmp_report_groups nif s = Some s' \<Longrightarrow> igmp_step (M, s) (M, s')"
| step_input: "igmp_input p inp dest s = Some s' \<Longrightarrow> igmp_step (M, s) (M, s')"
| step_tmr: "igmp_tmr out s = Some s' \<Longrightarrow> igmp_step (M, s) (M, s')"
| step_net: "igmp_step (M, s) (M, s\<lparr>gudp := u\<rparr>)"

lemma igmp_step_rep:
  assumes "igmp_step (M, s) (M', s')" "igmp_rep s M gs"
  shows "\<exists>gs'. igmp_rep s' M' gs'"
  using assms(1)
proof cases
  case (step_start nif e)
  then show ?thesis using start_rep [OF assms(2)] by blast
next
  case (step_stop nif e)
  then show ?thesis using stop_rep [OF assms(2)] by blast
next
  case (step_join out ifaddr addr e ns)
  show ?thesis
  proof (cases "\<not> ip_addr_ismulticast addr \<or> addr = allsystems s")
    case True
    then have "s' = s" using step_join(2) by (auto simp: igmp_joingroup_def split: if_splits)
    then show ?thesis using True step_join(1) assms(2) by auto
  next
    case False
    then have "join_loop out ifaddr addr (netif_list (gip s)) ERR_VAL s = Some (e, s')" using step_join(2) by (simp add: igmp_joingroup_def)
    from join_loop_rep [OF step_join(3) assms(2) step_join(4,5) this] False show ?thesis
      unfolding step_join(1) if_not_P [OF False] by (auto split: if_splits)
  qed
next
  case (step_leave out ifaddr addr e ns)
  show ?thesis
  proof (cases "\<not> ip_addr_ismulticast addr \<or> addr = allsystems s")
    case True
    then have "s' = s" using step_leave(2) by (auto simp: igmp_leavegroup_def split: if_splits)
    then show ?thesis using True step_leave(1) assms(2) by auto
  next
    case False
    then have "leave_loop out ifaddr addr (netif_list (gip s)) ERR_VAL s = Some (e, s')" using step_leave(2) by (simp add: igmp_leavegroup_def)
    from leave_loop_rep [OF step_leave(3) assms(2) this] show ?thesis unfolding step_leave(1) if_not_P [OF False] by blast
  qed
next
  case (step_report nif)
  then show ?thesis using igmp_rep_frame [OF delaying_loop_frame assms(2)] unfolding igmp_report_groups_def by blast
next
  case (step_input p inp dest)
  then show ?thesis using igmp_rep_frame [OF igmp_input_frame assms(2)] by blast
next
  case (step_tmr out)
  then show ?thesis using igmp_rep_frame [OF igmp_tmr_loop_frame assms(2)] unfolding igmp_tmr_def by blast
next
  case (step_net u)
  then show ?thesis using igmp_rep_frame [OF gframe_net assms(2)] by blast
qed

lemma igmp_run_rep:
  assumes "igmp_step\<^sup>*\<^sup>* (M, s) (M', s')" "igmp_rep s M gs"
  shows "\<exists>gs'. igmp_rep s' M' gs'"
  using assms(1)
proof (induction "(M', s')" arbitrary: M' s' rule: rtranclp_induct)
  case (step y)
  then show ?case using igmp_step_rep by (cases y) blast
qed (use assms in auto)

text \<open>
  C39: from the empty list on, in every run of the calls of \<open>igmp.c\<close> in which no group is joined while it has 255 memberships already
  (the counter has 8 bits), a group is found for an interface and an address, so that packets to it are accepted, exactly if
  \<open>igmp_joingroup\<close> (\<open>igmp_start\<close> for the group of all systems) was called for it more often than \<open>igmp_leavegroup\<close> since the
  interface was started, and the filter of the driver lets exactly these groups through. The list has no group twice, and the
  counter of a group is the number of its memberships.
\<close>

theorem igmp_memberships:
  assumes "igmp_group_list s = NULL" "mac_calls s = []" "igmp_step\<^sup>*\<^sup>* (\<lambda>_. 0, s) (M, s')"
  shows "\<exists>gs. chain (ig_next s') (igmp_group_list s') gs \<and> distinct (map (\<lambda>g. (ig_netif s' g, ig_address s' g)) gs) \<and>
    (\<forall>g\<in>set gs. unat (ig_use s' g) = M (ig_netif s' g, ig_address s' g)) \<and>
    (\<forall>nif addr. (igmp_lookfor_group nif addr s' \<noteq> Some NULL \<longleftrightarrow> 0 < M (nif, addr)) \<and>
      (igmp_mac_filter s' nif \<longrightarrow> passes (mac_calls s') (nif, addr) = (0 < M (nif, addr))))"
proof -
  have "igmp_rep s (\<lambda>_. 0) []" using assms(1,2) by (simp add: igmp_rep_def passes_def)
  from igmp_run_rep [OF assms(3) this] obtain gs where r: "igmp_rep s' M gs" by blast
  have "gkey s' = (\<lambda>g. (ig_netif s' g, ig_address s' g))" by (simp add: gkey_def fun_eq_iff)
  then have "distinct (map (\<lambda>g. (ig_netif s' g, ig_address s' g)) gs)" using igmp_repD(2) [OF r] by simp
  moreover have "igmp_lookfor_group nif addr s' \<noteq> Some NULL \<longleftrightarrow> 0 < M (nif, addr)" for nif addr using lookfor_rep [OF r, of nif addr] by auto
  ultimately show ?thesis using igmp_repD(1,6,9) [OF r] by (intro exI [of _ gs]) (auto simp: gkey_def)
qed

section \<open>Queries\<close>

lemma igmp_start_timer_eq:
  assumes "2 \<le> n"
  shows "\<exists>t. igmp_start_timer g n s = Some ((put_ig_timer g t s)\<lparr>rand_pos := Suc (rand_pos s)\<rparr>) \<and> 0 < t \<and> t < ucast n"
proof -
  have n: "2 \<le> unat n" "unat n < 256" "n \<noteq> 0" using assms by (auto simp: word_le_nat_alt)
  define r where "r = rand_seq s (rand_pos s) mod (unat n - 1)"
  have r: "r < unat n - 1" using n by (simp add: r_def)
  then have "r < 255" using unat_u8_less [of n] by linarith
  then have "unat (of_nat r + 1 :: u16) = r + 1" by (simp add: unat_word_ariths unat_of_nat_u16)
  then have "(0 :: u16) < of_nat r + 1" "of_nat r + 1 < (ucast n :: u16)" using r by (simp_all add: word_less_nat_alt)
  moreover have "igmp_start_timer g n s = Some ((put_ig_timer g (of_nat r + 1) s)\<lparr>rand_pos := Suc (rand_pos s)\<rparr>)"
    using n by (simp add: igmp_start_timer_def r_def)
  ultimately show ?thesis by blast
qed

text \<open>A member that is asked will report within the time of the query.\<close>

definition reports_within :: "igm \<Rightarrow> u8 \<Rightarrow> ptr \<Rightarrow> bool" where
  "reports_within s n g \<longleftrightarrow> ig_state s g = IGMP_GROUP_DELAYING_MEMBER \<and> 0 < ig_timer s g \<and> ig_timer s g \<le> ucast n"

definition member_state :: "igm \<Rightarrow> ptr \<Rightarrow> bool" where
  "member_state s g \<longleftrightarrow> ig_state s g \<in> {IGMP_GROUP_DELAYING_MEMBER, IGMP_GROUP_IDLE_MEMBER}"

lemma igmp_delaying_spec:
  assumes "2 \<le> n" "member_state s g"
  shows "\<exists>s'. igmp_delaying_member g n s = Some s' \<and> reports_within s' n g \<and> gframe s s' \<and> gudp s' = gudp s \<and>
    (\<forall>x. x \<noteq> g \<longrightarrow> ig_state s' x = ig_state s x \<and> ig_timer s' x = ig_timer s x)"
proof (cases "ig_state s g = IGMP_GROUP_IDLE_MEMBER \<or> ig_timer s g = 0 \<or> ucast n < ig_timer s g")
  case True
  from igmp_start_timer_eq [OF assms(1), of g s] obtain t where
    t: "igmp_start_timer g n s = Some ((put_ig_timer g t s)\<lparr>rand_pos := Suc (rand_pos s)\<rparr>)" "0 < t" "t < ucast n" by blast
  let ?s = "put_ig_state g IGMP_GROUP_DELAYING_MEMBER ((put_ig_timer g t s)\<lparr>rand_pos := Suc (rand_pos s)\<rparr>)"
  have "igmp_delaying_member g n s = Some ?s" using True assms(2) by (auto simp: igmp_delaying_member_def t(1) member_state_def)
  moreover have "reports_within ?s n g" "gframe s ?s" using t(2,3) by (auto simp: reports_within_def gframe_def)
  ultimately show ?thesis by (intro exI [of _ ?s]) simp
next
  case False
  then have "igmp_delaying_member g n s = Some s" "reports_within s n g"
    using assms(2) by (auto simp: igmp_delaying_member_def reports_within_def member_state_def not_less word_gt_0)
  then show ?thesis by (intro exI [of _ s]) simp
qed

lemma delaying_loop_spec:
  assumes "chain (ig_next s) q gs" "2 \<le> n" "\<forall>g\<in>set gs. member_state s g"
  shows "\<exists>s'. delaying_loop nif n skip q s = Some s' \<and> gframe s s' \<and> gudp s' = gudp s \<and>
    (\<forall>g\<in>set gs. ig_netif s g = nif \<and> skip \<noteq> Some (ig_address s g) \<longrightarrow> reports_within s' n g) \<and>
    (\<forall>g. g \<notin> set gs \<or> ig_netif s g \<noteq> nif \<or> skip = Some (ig_address s g) \<longrightarrow> ig_state s' g = ig_state s g \<and> ig_timer s' g = ig_timer s g)"
  using assms(1,3)
proof (induction gs arbitrary: s q)
  case Nil
  then show ?case by (subst delaying_loop.simps) simp
next
  case (Cons g gs)
  have g: "q = g" "g \<noteq> NULL" "chain (ig_next s) (ig_next s g) gs" "g \<notin> set gs" using Cons.prems(1) chain_distinct [OF Cons.prems(1)] by auto
  let ?c = "ig_netif s g = nif \<and> skip \<noteq> Some (ig_address s g)"
  have "\<exists>s1. (if ?c then igmp_delaying_member g n s else Some s) = Some s1 \<and> gframe s s1 \<and> gudp s1 = gudp s \<and> (?c \<longrightarrow> reports_within s1 n g) \<and>
      (\<forall>x. x \<noteq> g \<or> \<not> ?c \<longrightarrow> ig_state s1 x = ig_state s x \<and> ig_timer s1 x = ig_timer s x)"
    using igmp_delaying_spec [OF assms(2), of s g] Cons.prems(2) by (cases ?c) auto
  then obtain s1 where s1: "(if ?c then igmp_delaying_member g n s else Some s) = Some s1" "gframe s s1" "?c \<longrightarrow> reports_within s1 n g"
    "\<forall>x. x \<noteq> g \<or> \<not> ?c \<longrightarrow> ig_state s1 x = ig_state s x \<and> ig_timer s1 x = ig_timer s x" "gudp s1 = gudp s" by blast
  have eq: "ig_next s1 = ig_next s" "ig_netif s1 = ig_netif s" "ig_address s1 = ig_address s" using s1(2) by (simp_all add: gframe_def)
  have "ig_state s1 x = ig_state s x" if "x \<in> set gs" for x using that s1(4) g(4) by metis
  then have "chain (ig_next s1) (ig_next s1 g) gs" "\<forall>x\<in>set gs. member_state s1 x" using g(3) Cons.prems(2) by (auto simp: eq member_state_def)
  from Cons.IH [OF this] obtain s' where s': "delaying_loop nif n skip (ig_next s1 g) s1 = Some s'" "gframe s1 s'"
    "\<forall>x\<in>set gs. ig_netif s x = nif \<and> skip \<noteq> Some (ig_address s x) \<longrightarrow> reports_within s' n x"
    "\<forall>x. x \<notin> set gs \<or> ig_netif s x \<noteq> nif \<or> skip = Some (ig_address s x) \<longrightarrow> ig_state s' x = ig_state s1 x \<and> ig_timer s' x = ig_timer s1 x"
    "gudp s' = gudp s1" unfolding eq by blast
  have "delaying_loop nif n skip q s = Some s'" using g(1,2) s1(1) s'(1) by (subst delaying_loop.simps) (auto split: if_splits)
  moreover have "gframe s s'" by (rule gframe_trans [OF s1(2) s'(2)])
  moreover have "reports_within s' n x" if "x \<in> set (g # gs)" "ig_netif s x = nif \<and> skip \<noteq> Some (ig_address s x)" for x
    using that s1(3) s'(3,4) g(4) by (cases "x = g") (auto simp: reports_within_def)
  moreover have "ig_state s' x = ig_state s x \<and> ig_timer s' x = ig_timer s x"
    if "x \<notin> set (g # gs) \<or> ig_netif s x \<noteq> nif \<or> skip = Some (ig_address s x)" for x
    using that s1(4) s'(4) by (cases "x = g") auto
  ultimately show ?case using s1(5) s'(5) by metis
qed

text \<open>One call of the timer takes one from each timer that is running.\<close>

lemma igmp_tmr_counts:
  assumes "chain (ig_next s) q gs" "igmp_tmr_loop out q s = Some s'"
  shows "ig_timer s' = (\<lambda>g. if g \<in> set gs then ig_timer s g - (if 0 < ig_timer s g then 1 else 0) else ig_timer s g) \<and> ig_state s' = ig_state s"
  using assms
proof (induction gs arbitrary: s q)
  case Nil
  then show ?case by (subst (asm) igmp_tmr_loop.simps) auto
next
  case (Cons g gs)
  have g: "q = g" "g \<noteq> NULL" "chain (ig_next s) (ig_next s g) gs" "g \<notin> set gs" using Cons.prems(1) chain_distinct [OF Cons.prems(1)] by auto
  let ?s = "put_ig_timer g (ig_timer s g - 1) s"
  obtain s1 where s1: "(if ig_timer s g > 0 then if ig_timer ?s g = 0 then igmp_timeout out g ?s else Some ?s else Some s) = Some s1"
    "igmp_tmr_loop out (ig_next s1 g) s1 = Some s'" using Cons.prems(2) g(1,2) unfolding igmp_tmr_loop.simps [of out q s] Let_def by (auto simp: bind_eq_Some_conv)
  have to: "ig_timer t = ig_timer ?s \<and> ig_state t = ig_state ?s \<and> ig_next t = ig_next ?s" if "igmp_timeout out g ?s = Some t" for t
    using that igmp_send_frame [of out g IGMP_V2_MEMB_REPORT ?s t] by (auto simp: igmp_timeout_def gframe_def split: if_splits)
  have "ig_timer s1 = (ig_timer s)(g := ig_timer s g - (if 0 < ig_timer s g then 1 else 0)) \<and> ig_state s1 = ig_state s \<and> ig_next s1 = ig_next s"
  proof (cases "0 < ig_timer s g")
    case True
    then have "ig_timer s1 = ig_timer ?s \<and> ig_state s1 = ig_state ?s \<and> ig_next s1 = ig_next ?s"
      using s1(1) to [of s1] by (cases "ig_timer ?s g = 0") auto
    then show ?thesis using True by simp
  qed (use s1(1) in simp)
  then have eq: "ig_timer s1 = (ig_timer s)(g := ig_timer s g - (if 0 < ig_timer s g then 1 else 0))" "ig_state s1 = ig_state s" "ig_next s1 = ig_next s"
    by blast+
  have "chain (ig_next s1) (ig_next s1 g) gs" using g(3) by (simp add: eq)
  from Cons.IH [OF this s1(2)] show ?case unfolding eq using g(4) by (simp add: fun_eq_iff)
qed

section \<open>Reports\<close>

text \<open>A report: the IGMP message with its checksum, to the address of the group over the interface of the group.\<close>

definition report_bytes :: "u32 \<Rightarrow> u8 list" where
  "report_bytes addr = (let c = chksum_field ([IGMP_V2_MEMB_REPORT, 0, 0, 0] @ addr_octets addr)
     in [IGMP_V2_MEMB_REPORT, 0, ucast c, ucast (drop_bit 8 c)] @ addr_octets addr)"

definition send_report :: "netif_out \<Rightarrow> ptr \<Rightarrow> igm \<Rightarrow> igm option" where
  "send_report out g s = do {
     (p, m) \<leftarrow> pbuf_alloc PBUF_TRANSPORT IGMP_MINLEN PBUF_RAM (glw s);
     if p = NULL then Some (put_glw m s)
     else igmp_ip_output_if out p (ip_addr (netifs (gip s) (ig_netif s g))) (ig_address s g) (ig_netif s g)
       (put_glw (wr (pb_payload m p) (report_bytes (ig_address s g)) m) (put_ig_last_reporter g 1 s)) \<bind> igmp_free p }"

lemma report_bytes_valid: "chksum_field (report_bytes addr) = 0" "length (report_bytes addr) = 8"
  using chksum_inserted [of "[IGMP_V2_MEMB_REPORT, 0]" "chksum_field ([IGMP_V2_MEMB_REPORT, 0, 0, 0] @ addr_octets addr)" "addr_octets addr"]
  by (simp_all add: report_bytes_def Let_def)

lemma writes_wr:
  assumes "writes (region a n) m m'" "bytes_at (bytes m') a n = bs" "n \<le> 65536"
  shows "m' = wr a bs m"
proof -
  obtain b where b: "m' = m\<lparr>bytes := b\<rparr>" "\<forall>x. x \<notin> region a n \<longrightarrow> b x = bytes m x" using assms(1) by (auto simp: writes_def)
  have l: "length bs = n" using assms(2) by auto
  have "b = (\<lambda>x. if unat (x - a) < length bs then bs ! unat (x - a) else bytes m x)"
  proof
    fix x
    show "b x = (if unat (x - a) < length bs then bs ! unat (x - a) else bytes m x)"
    proof (cases "unat (x - a) < n")
      case True
      have "bs ! unat (x - a) = b (a + of_nat (unat (x - a)))" using True assms(2) b(1) by auto
      then show ?thesis using True l by simp
    qed (use b(2) l in \<open>simp add: region_def\<close>)
  qed
  then show ?thesis by (simp add: b(1) wr_def)
qed

lemma put_igmp_msg_report: "put_igmp_msg a IGMP_V2_MEMB_REPORT addr m = wr a (report_bytes addr) m"
proof (rule writes_wr)
  have r: "writes (region a 8) s (wr (a + of_nat i) bs s)" if "i + length bs \<le> 8" for i bs and s :: lw
    by (rule writes_mono [OF wr_writes region_sub]) (use that in simp_all)
  note rs = r [of 0, simplified] r [of 1, simplified] r [of 2, simplified] r [of 4, simplified]
  show "writes (region a 8) m (put_igmp_msg a IGMP_V2_MEMB_REPORT addr m)"
    unfolding put_igmp_msg_def Let_def wr16_def wr32_def wr8_def
    by (intro writes_both [OF _ rs(3)] writes_both [OF _ rs(2)] writes_both [OF _ rs(1)] rs(4)) simp_all
  have w: "bytes_at (bytes (wr (a + of_nat i) bs s)) a 8 = put_bytes i bs (bytes_at (bytes s) a 8)" if "i + length bs \<le> 8" for i bs and s :: lw
    by (rule bytes_at_put [OF that]) simp
  note ws = w [of 0, simplified] w [of 1, simplified] w [of 2, simplified] w [of 4, simplified]
  define m4 where "m4 = wr16 (a + 2) 0 (wr8 (a + 1) 0 (wr8 a IGMP_V2_MEMB_REPORT (wr32 (a + 4) addr m)))"
  define L where "L = bytes_at (bytes m) a 8"
  have "length L = 8" by (simp add: L_def)
  then obtain d1 d2 d3 d4 d5 d6 d7 d8 where d: "L = [d1, d2, d3, d4, d5, d6, d7, d8]" by (auto simp: numeral_eq_Suc length_Suc_conv)
  have m4: "bytes_at (bytes m4) a 8 = [IGMP_V2_MEMB_REPORT, 0, 0, 0] @ addr_octets addr"
    by (simp add: m4_def wr16_def wr32_def wr8_def ws L_def [symmetric] d put_bytes_def)
  have c: "inet_chksum a IGMP_MINLEN m4 = chksum_field ([IGMP_V2_MEMB_REPORT, 0, 0, 0] @ addr_octets addr)" by (simp add: inet_chksum_eq m4)
  have "put_igmp_msg a IGMP_V2_MEMB_REPORT addr m = wr16 (a + 2) (inet_chksum a IGMP_MINLEN m4) m4" by (simp add: put_igmp_msg_def m4_def Let_def)
  then show "bytes_at (bytes (put_igmp_msg a IGMP_V2_MEMB_REPORT addr m)) a 8 = report_bytes addr"
    by (simp add: wr16_def ws m4 c report_bytes_def put_bytes_def Let_def)
qed simp

lemma igmp_send_report: "igmp_send out g IGMP_V2_MEMB_REPORT s = send_report out g s"
  by (cases "pbuf_alloc PBUF_TRANSPORT IGMP_MINLEN PBUF_RAM (glw s)") (auto simp: igmp_send_def send_report_def put_igmp_msg_report Let_def)

text \<open>One call of the timer as a pass over the list of the groups, and several calls.\<close>

definition tmr_group :: "netif_out \<Rightarrow> ptr \<Rightarrow> igm \<Rightarrow> igm option" where
  "tmr_group out g s =
     (if ig_timer s g = 0 then Some s
      else if ig_timer s g = 1 \<and> ig_state s g = IGMP_GROUP_DELAYING_MEMBER then send_report out g (put_ig_timer g 0 s)
      else Some (put_ig_timer g (ig_timer s g - 1) s))"

fun tmr_groups :: "netif_out \<Rightarrow> ptr list \<Rightarrow> igm \<Rightarrow> igm option" where
  "tmr_groups out [] s = Some s"
| "tmr_groups out (g # gs) s = tmr_group out g s \<bind> tmr_groups out gs"

fun ticks :: "netif_out \<Rightarrow> nat \<Rightarrow> igm \<Rightarrow> igm option" where
  "ticks out 0 s = Some s"
| "ticks out (Suc k) s = ticks out k s \<bind> igmp_tmr out"

lemma tmr_group_eq:
  "tmr_group out g s = (if ig_timer s g > 0 then let s = put_ig_timer g (ig_timer s g - 1) s in if ig_timer s g = 0 then igmp_timeout out g s else Some s else Some s)"
proof -
  have "ig_timer s g - 1 = 0 \<longleftrightarrow> ig_timer s g = 1" by auto
  then show ?thesis by (auto simp: tmr_group_def igmp_timeout_def igmp_send_report Let_def word_gt_0)
qed

lemma tmr_group_frame: "tmr_group out g s = Some s' \<Longrightarrow> gframe s s' \<and> ig_state s' = ig_state s \<and> (\<forall>x. x \<noteq> g \<longrightarrow> ig_timer s' x = ig_timer s x)"
  unfolding tmr_group_def igmp_send_report [symmetric]
  using igmp_send_frame [of out g IGMP_V2_MEMB_REPORT "put_ig_timer g 0 s" s'] by (auto simp: gframe_def split: if_splits)

lemma tmr_groups_frame:
  "tmr_groups out gs s = Some s' \<Longrightarrow> gframe s s' \<and> ig_state s' = ig_state s \<and> (\<forall>x. x \<notin> set gs \<longrightarrow> ig_timer s' x = ig_timer s x)"
proof (induction gs arbitrary: s)
  case (Cons g gs)
  then obtain s1 where s1: "tmr_group out g s = Some s1" "tmr_groups out gs s1 = Some s'" by (auto simp: bind_eq_Some_conv)
  show ?case using Cons.IH [OF s1(2)] tmr_group_frame [OF s1(1)] gframe_trans by auto
qed simp

lemma tmr_groups_append: "tmr_groups out (as @ bs) s = tmr_groups out as s \<bind> tmr_groups out bs"
proof (induction as arbitrary: s)
  case (Cons g as)
  then show ?case by (cases "tmr_group out g s") simp_all
qed simp

lemma igmp_tmr_groups: "chain (ig_next s) q gs \<Longrightarrow> igmp_tmr_loop out q s = tmr_groups out gs s"
proof (induction gs arbitrary: s q)
  case Nil
  then show ?case by (subst igmp_tmr_loop.simps) simp
next
  case (Cons g gs)
  then have g: "q = g" "g \<noteq> NULL" "chain (ig_next s) (ig_next s g) gs" by auto
  have "igmp_tmr_loop out q s = tmr_group out g s \<bind> (\<lambda>s. igmp_tmr_loop out (ig_next s g) s)"
    unfolding tmr_group_eq g(1) using g(2) by (subst igmp_tmr_loop.simps) (simp only: if_True simp_thms)
  also have "\<dots> = tmr_group out g s \<bind> tmr_groups out gs"
  proof (cases "tmr_group out g s")
    case (Some s1)
    then have "ig_next s1 = ig_next s" using tmr_group_frame [OF Some] by (simp add: gframe_def)
    then show ?thesis using Some Cons.IH [of s1 "ig_next s1 g"] g(3) by simp
  qed simp
  finally show ?case by simp
qed

lemma ticks_count:
  assumes "chain (ig_next s) (igmp_group_list s) gs" "g \<in> set gs" "k \<le> unat (ig_timer s g)" "ticks out k s = Some s'"
  shows "gframe s s' \<and> ig_state s' = ig_state s \<and> unat (ig_timer s' g) = unat (ig_timer s g) - k"
  using assms(3,4)
proof (induction k arbitrary: s')
  case (Suc k)
  then obtain s1 where s1: "ticks out k s = Some s1" "igmp_tmr out s1 = Some s'" by (auto simp: bind_eq_Some_conv)
  have IH: "gframe s s1" "ig_state s1 = ig_state s" "unat (ig_timer s1 g) = unat (ig_timer s g) - k" using Suc.IH [OF _ s1(1)] Suc.prems(1) by auto
  have c: "chain (ig_next s1) (igmp_group_list s1) gs" using assms(1) IH(1) by (simp add: gframe_def)
  have t: "0 < ig_timer s1 g" using IH(3) Suc.prems(1) by (simp add: word_less_nat_alt)
  from igmp_tmr_counts [OF c s1(2) [unfolded igmp_tmr_def]] have "ig_timer s' g = ig_timer s1 g - 1" "ig_state s' = ig_state s1"
    using assms(2) t by auto
  moreover have "unat (ig_timer s1 g - 1) = unat (ig_timer s1 g) - 1" using t by (intro unat_minus_one) auto
  moreover have "gframe s1 s'" using igmp_tmr_loop_frame s1(2) by (simp add: igmp_tmr_def)
  ultimately show ?case using IH gframe_trans by auto
qed simp

text \<open>The group \<open>g\<close> sends its report in the call of the timer with the number \<open>t\<close>, if nothing else happens before and the calls return.\<close>

definition reports_in :: "netif_out \<Rightarrow> nat \<Rightarrow> ptr list \<Rightarrow> ptr \<Rightarrow> igm \<Rightarrow> bool" where
  "reports_in out t gs g s \<longleftrightarrow> (\<forall>s1. ticks out (t - 1) s = Some s1 \<longrightarrow>
     (\<exists>as bs. gs = as @ g # bs \<and> igmp_tmr out s1 = tmr_groups out as s1 \<bind> (\<lambda>u. send_report out g (put_ig_timer g 0 u) \<bind> tmr_groups out bs)))"

lemma delaying_reports:
  assumes c: "chain (ig_next s) (igmp_group_list s) gs" "g \<in> set gs" and g: "ig_state s g = IGMP_GROUP_DELAYING_MEMBER" "0 < ig_timer s g"
  shows "reports_in out (unat (ig_timer s g)) gs g s"
  unfolding reports_in_def
proof (intro allI impI)
  fix s1 assume s1: "ticks out (unat (ig_timer s g) - 1) s = Some s1"
  have "0 < unat (ig_timer s g)" using g(2) by (simp add: word_less_nat_alt)
  then have f: "gframe s s1" "ig_state s1 = ig_state s" "unat (ig_timer s1 g) = 1" using ticks_count [OF c _ s1] by auto
  have t: "ig_timer s1 g = 1" using f(3) by (simp add: word_unat_eq_iff)
  have c1: "chain (ig_next s1) (igmp_group_list s1) gs" using c(1) f(1) by (simp add: gframe_def)
  obtain as bs where gs: "gs = as @ g # bs" "g \<notin> set as" using split_list_first [OF c(2)] by blast
  have "tmr_groups out as s1 \<bind> (\<lambda>u. tmr_group out g u \<bind> tmr_groups out bs) = tmr_groups out as s1 \<bind> (\<lambda>u. send_report out g (put_ig_timer g 0 u) \<bind> tmr_groups out bs)"
  proof (cases "tmr_groups out as s1")
    case (Some u)
    then have "ig_timer u g = 1" "ig_state u g = IGMP_GROUP_DELAYING_MEMBER" using tmr_groups_frame [OF Some] gs(2) t f(2) g(1) by auto
    then show ?thesis using Some by (simp add: tmr_group_def)
  qed simp
  moreover have "tmr_groups out (g # bs) = (\<lambda>u. tmr_group out g u \<bind> tmr_groups out bs)" by (simp add: fun_eq_iff)
  ultimately show "\<exists>as bs. gs = as @ g # bs \<and> igmp_tmr out s1 = tmr_groups out as s1 \<bind> (\<lambda>u. send_report out g (put_ig_timer g 0 u) \<bind> tmr_groups out bs)"
    using gs(1) igmp_tmr_groups [OF c1, of out] by (intro exI [of _ as] exI [of _ bs]) (simp add: igmp_tmr_def tmr_groups_append del: tmr_groups.simps)
qed

lemma pbuf_header_packet:
  "pbuf_header p inc m = (e, m') \<Longrightarrow> pb_next m' = pb_next m \<and> pb_flags m' = pb_flags m \<and> memp_tab m' = memp_tab m"
  by (auto simp: pbuf_header_def Let_def split: if_splits)

text \<open>
  C40: after a general query that gives at least two tenths of a second (a time of 0 counts as 10), every group of the interface but the
  one of all systems has a timer \<open>t\<close> that runs and is not above the time of the query, and the timers of all other groups are as
  before. If nothing else happens and the calls of the timer return, the call of \<open>igmp_tmr\<close> with the number \<open>t\<close> sends the report of the
  group: an IGMP message with the address of the group and a valid checksum, to this address over the interface of the group.
\<close>

theorem igmp_general_query:
  assumes c: "chain (ig_next s) (igmp_group_list s) gs" and mem: "\<forall>g\<in>set gs. member_state s g"
    and pk: "packet (glw s) p" "14 < length (memp_tab (glw s))"
    and hdr: "pbuf_header p (- (IPH_HL (bytes (glw s)) (pb_payload (glw s) p) * 4)) (glw s) = (0, m)" "8 \<le> pb_len m p"
    and chk: "inet_chksum (pb_payload m p) (pb_len m p) m = 0"
    and all: "\<exists>g\<in>set gs. ig_netif s g = inp \<and> ig_address s g = allsystems s"
    and msg: "bytes m (pb_payload m p) = IGMP_MEMB_QUERY" "rd32 (bytes m) (pb_payload m p + 4) = IPADDR_ANY"
    and n: "n = (if bytes m (pb_payload m p + 1) = 0 then IGMP_V1_DELAYING_MEMBER_TMR else bytes m (pb_payload m p + 1))" "2 \<le> n"
  shows "\<exists>s'. igmp_input p inp (allsystems s) s = Some s' \<and>
    (\<forall>g\<in>set gs. if ig_netif s g = inp \<and> ig_address s g \<noteq> allsystems s
      then ig_state s' g = IGMP_GROUP_DELAYING_MEMBER \<and> 0 < ig_timer s' g \<and> ig_timer s' g \<le> ucast n \<and> reports_in out (unat (ig_timer s' g)) gs g s'
      else ig_state s' g = ig_state s g \<and> ig_timer s' g = ig_timer s g)"
proof -
  let ?i = "pb_payload m p" and ?s = "put_glw m s"
  obtain h where h: "igmp_lookfor_group inp (allsystems s) ?s = Some h" "h \<noteq> NULL"
  proof -
    have "find (\<lambda>g. gkey ?s g = (inp, allsystems s)) gs \<noteq> None" using all by (auto simp: gkey_def find_None_iff)
    then obtain h where f: "find (\<lambda>g. gkey ?s g = (inp, allsystems s)) gs = Some h" by blast
    then have "h \<in> set gs" by (auto simp: find_Some_iff)
    then have "h \<noteq> NULL" using chain_NULL_notin [OF c] by auto
    then show ?thesis using that [of h] lookfor_spec [of ?s "igmp_group_list ?s" gs inp "allsystems s"] c f by (simp add: igmp_lookfor_group_def)
  qed
  define t where "t = (if bytes m (?i + 1) = 0 then put_glw (wr8 (?i + 1) IGMP_V1_DELAYING_MEMBER_TMR m) s else ?s)"
  have t: "ig_next t = ig_next s" "igmp_group_list t = igmp_group_list s" "ig_state t = ig_state s" "ig_timer t = ig_timer s"
    "ig_netif t = ig_netif s" "ig_address t = ig_address s" "allsystems t = allsystems s" by (simp_all add: t_def)
  have nt: "bytes (glw t) (?i + 1) = n" by (simp add: t_def n(1) wr8_def wr_def)
  have "chain (ig_next t) (igmp_group_list t) gs" "\<forall>g\<in>set gs. member_state t g" using c mem by (simp_all add: t member_state_def)
  from delaying_loop_spec [OF this(1) n(2) this(2), of inp "Some (allsystems s)"] obtain s' where
    s': "delaying_loop inp n (Some (allsystems s)) (igmp_group_list t) t = Some s'" "gframe t s'" "gudp s' = gudp t"
    "\<forall>g\<in>set gs. ig_netif s g = inp \<and> Some (allsystems s) \<noteq> Some (ig_address s g) \<longrightarrow> reports_within s' n g"
    "\<forall>g. g \<notin> set gs \<or> ig_netif s g \<noteq> inp \<or> Some (allsystems s) = Some (ig_address s g) \<longrightarrow> ig_state s' g = ig_state s g \<and> ig_timer s' g = ig_timer s g"
    unfolding t by blast
  have "igmp_query inp (allsystems s) h ?i ?s = delaying_loop inp (bytes (glw t) (?i + 1)) (Some (allsystems s)) (igmp_group_list t) t"
    using msg(2) by (cases "bytes m (?i + 1) = 0") (simp_all add: igmp_query_def t_def ip_addr_isany_def)
  then have "igmp_query inp (allsystems s) h ?i ?s = Some s'" using s'(1) nt by simp
  then have run: "igmp_input p inp (allsystems s) s = igmp_free p s'"
    using hdr(1) hdr(2) [folded not_less] chk h msg(1) unfolding igmp_input_def Let_def by simp
  have "packet (glw s') p" "14 < length (memp_tab (glw s'))" unfolding s'(3)
    using pk pbuf_header_packet [OF hdr(1)] by (simp_all add: t_def wr8_def wr_def packet_def)
  then obtain u where u: "igmp_free p s' = Some (s'\<lparr>gudp := u\<rparr>)" using pbuf_free_total by (fastforce simp: igmp_free_def)
  let ?s' = "s'\<lparr>gudp := u\<rparr>"
  have c': "chain (ig_next ?s') (igmp_group_list ?s') gs" using c t s'(2) by (simp add: gframe_def)
  have "reports_in out (unat (ig_timer s' g)) gs g ?s'" if "g \<in> set gs" "reports_within s' n g" for g
    using delaying_reports [OF c' that(1), of out] that(2) by (simp add: reports_within_def)
  then show ?thesis using run u s'(4,5) by (intro exI [of _ ?s'] conjI ballI) (auto simp: reports_within_def)
qed

lemma igmp_query_remainder:
  "maxresp \<le> 1 \<Longrightarrow> ig_state s g = IGMP_GROUP_IDLE_MEMBER \<Longrightarrow> igmp_delaying_member g maxresp s = None"
proof -
  assume h: "maxresp \<le> 1" "ig_state s g = IGMP_GROUP_IDLE_MEMBER"
  have "unat (if maxresp = 0 then 1 else maxresp) - 1 = 0" using h(1) by (auto simp: word_le_nat_alt)
  then show ?thesis using h(2) by (simp add: igmp_delaying_member_def igmp_start_timer_def)
qed

section \<open>Samples\<close>

definition smp_igm0 :: igm where
  "smp_igm0 = \<lparr>gudp = smp_udp0, ig_next = (\<lambda>_. 0), ig_netif = (\<lambda>_. 0), ig_address = (\<lambda>_. 0), ig_last_reporter = (\<lambda>_. 0), ig_state = (\<lambda>_. 0),
     ig_timer = (\<lambda>_. 0), ig_use = (\<lambda>_. 0), igmp_group_list = 0, allsystems = 0x010000E0, allrouters = 0x020000E0, igmp_mac_filter = (\<lambda>_. True),
     mac_calls = [], rand_seq = (\<lambda>i. i), rand_pos = 0, igmp_ra = 0x9000\<rparr>"

text \<open>An interface on which a group is joined while there is no memory for the report.\<close>

definition smp_join :: igm where
  "smp_join = smp_igm0\<lparr>gudp := smp_udp0\<lparr>uip := (uip smp_udp0)\<lparr>ilw := (ilw (uip smp_udp0))\<lparr>ram := 0, lfree := 16364\<rparr>,
     netifs := (\<lambda>_. smp_if\<lparr>netif_flags := 0xb3\<rparr>)\<rparr>\<rparr>\<rparr>"

lemma send_without_memory:
  assumes "ram (glw s) = 0" "lfree (glw s) = 16364"
  shows "igmp_send out g ty s = Some s"
proof -
  have "malloc_scan (glw s) 80 16364 = Some None" by (subst malloc_scan.simps) (simp add: MEM_SIZE_ALIGNED_def)
  then have "mem_malloc 80 (glw s) = Some (NULL, glw s)" using assms
    by (simp add: mem_malloc_def ram_idx_def MEM_SIZE_ALIGNED_def MIN_SIZE_ALIGNED_def LWIP_MEM_ALIGN_SIZE_def at_least_min_def Let_def)
  then have "pbuf_alloc PBUF_TRANSPORT IGMP_MINLEN PBUF_RAM (glw s) = Some (NULL, glw s)"
    by (simp add: pbuf_alloc_def alloc_ram_def layer_offset_def LWIP_MEM_ALIGN_SIZE_def SIZEOF_STRUCT_PBUF_def Let_def)
  then show ?thesis by (simp add: igmp_send_def)
qed

lemma smp_join_joins: "\<exists>s'. join_netif out 0x10 0x050100E0 smp_join = Some (True, s') \<and> netif_next (gip s') 0x10 = NULL \<and> igmp_mac_filter s' 0x10"
proof -
  let ?s = "new_group 0x70 0x10 0x050100E0 (put_glw (snd (memp_malloc MEMP_IGMP_GROUP (glw smp_join))) smp_join)"
  let ?s2 = "mac_filter 0x10 0x050100E0 IGMP_ADD_MAC_FILTER ?s"
  have l: "igmp_lookfor_group 0x10 0x050100E0 smp_join = Some NULL"
    unfolding igmp_lookfor_group_def by (subst lookfor_loop.simps) (simp add: smp_join_def smp_igm0_def)
  have m: "fst (memp_malloc MEMP_IGMP_GROUP (glw smp_join)) = 0x70" by (simp add: memp_malloc_def smp_join_def smp_udp0_def Let_def)
  have g: "igmp_lookup_group 0x10 0x050100E0 smp_join = Some (0x70, ?s)"
    using m by (simp add: igmp_lookup_group_def l new_group_def Let_def split_def)
  have "igmp_send out 0x70 IGMP_V2_MEMB_REPORT ?s2 = Some ?s2"
    by (rule send_without_memory) (simp_all add: mac_filter_def new_group_def memp_malloc_def smp_join_def Let_def)
  moreover obtain s3 where "igmp_start_timer 0x70 IGMP_JOIN_DELAYING_MEMBER_TMR ?s2 = Some s3" "gudp s3 = gudp ?s2" "igmp_mac_filter s3 = igmp_mac_filter ?s2"
    by (simp add: igmp_start_timer_def)
  ultimately show ?thesis using g
    by (simp add: join_netif_def mac_filter_def new_group_def memp_malloc_def smp_join_def smp_igm0_def smp_udp0_def smp_udp_def smp_ip_def smp_frags_def)
qed

theorem igmp_memberships_witness:
  "\<exists>s'. igmp_joingroup (\<lambda>nif p dest m. (0, m)) IPADDR_ANY 0x050100E0 smp_join = Some (ERR_OK, s') \<and> igmp_step\<^sup>*\<^sup>* (\<lambda>_. 0, smp_join) ((\<lambda>_. 0)((0x10, 0x050100E0) := 1), s') \<and>
    igmp_lookfor_group 0x10 0x050100E0 s' \<noteq> Some NULL \<and> passes (mac_calls s') (0x10, 0x050100E0) \<and> \<not> passes (mac_calls s') (0x10, 0x060100E0)"
proof -
  define out :: netif_out where "out = (\<lambda>nif p dest m. (0, m))"
  let ?a = "0x050100E0"
  obtain s' where s': "join_netif out 0x10 ?a smp_join = Some (True, s')" "netif_next (gip s') 0x10 = NULL" "igmp_mac_filter s' 0x10"
    using smp_join_joins [of out] by blast
  have i: "netif_list (gip smp_join) = 0x10" "netif_next (gip smp_join) 0x10 = NULL" "igmp_on (netifs (gip smp_join) 0x10) IPADDR_ANY" "allsystems smp_join = 0x010000E0"
    "igmp_group_list smp_join = NULL" "mac_calls smp_join = []"
    by (simp_all add: smp_join_def smp_igm0_def smp_udp0_def smp_udp_def smp_ip_def smp_frags_def igmp_on_def ip_addr_isany_def)
  have e: "join_loop out IPADDR_ANY ?a NULL ERR_OK s' = Some (ERR_OK, s')" by (subst join_loop.simps) simp
  have l: "join_loop out IPADDR_ANY ?a 0x10 ERR_VAL smp_join = Some (ERR_OK, s')"
    using i(3) s' e by (subst join_loop.simps) simp
  have j: "igmp_joingroup out IPADDR_ANY ?a smp_join = Some (ERR_OK, s')" using l i(1,4) by (simp add: igmp_joingroup_def ip_addr_ismulticast_def)
  have c: "chain (netif_next (gip smp_join)) (netif_list (gip smp_join)) [0x10]" using i(1,2) by simp
  have f: "\<forall>t\<in>set (join_states out ?a (meant IPADDR_ANY [0x10] smp_join) smp_join). fresh_group t"
    using i(3,5) s'(1) by (simp add: fresh_group_def)
  have "one_more [0x10] ?a (\<lambda>_. 0) = (\<lambda>_. 0)((0x10, ?a) := 1)" by (auto simp: one_more_def fun_eq_iff)
  then have r: "igmp_step\<^sup>*\<^sup>* (\<lambda>_. 0, smp_join) ((\<lambda>_. 0)((0x10, ?a) := 1), s')"
    using igmp_step.step_join [OF j c f, of "\<lambda>_. 0"] i(3,4) by (simp add: ip_addr_ismulticast_def r_into_rtranclp)
  from igmp_memberships [OF i(5,6) r] have a: "(igmp_lookfor_group nif addr s' \<noteq> Some NULL \<longleftrightarrow> 0 < ((\<lambda>_. 0)((0x10, ?a) := 1 :: nat)) (nif, addr)) \<and>
      (igmp_mac_filter s' nif \<longrightarrow> passes (mac_calls s') (nif, addr) = (0 < ((\<lambda>_. 0)((0x10, ?a) := 1 :: nat)) (nif, addr)))" for nif addr by blast
  show ?thesis using j [unfolded out_def] r s'(3) a [of "0x10" "?a"] a [of "0x10" "0x060100E0"] by (intro exI [of _ s']) simp
qed

definition smp_query :: igm where
  "smp_query = smp_igm0\<lparr>gudp := smp_udp\<lparr>uip := smp_ping\<lparr>ilw := (ilw smp_ping)\<lparr>bytes := (\<lambda>_. 0)(0x1100 := 0x45, 0x1114 := 0x11, 0x1115 := 0x64, 0x1116 := 0xee, 0x1117 := 0x9b)\<rparr>\<rparr>\<rparr>,
     ig_next := (\<lambda>_. 0)(0x50 := 0x60), ig_netif := (\<lambda>_. 0x10), ig_address := (\<lambda>_. 0)(0x50 := 0x010000E0, 0x60 := 0x050100E0),
     ig_state := (\<lambda>_. 2), igmp_group_list := 0x50\<rparr>"

theorem igmp_general_query_witness:
  "\<exists>s'. igmp_input 0x1000 0x10 0x010000E0 smp_query = Some s' \<and> ig_state s' 0x60 = 1 \<and> 0 < ig_timer s' 0x60 \<and> ig_timer s' 0x60 \<le> 100 \<and>
    reports_in (\<lambda>nif p dest m. (0, m)) (unat (ig_timer s' 0x60)) [0x50, 0x60] 0x60 s' \<and> ig_state s' 0x50 = 2"
proof -
  let ?g = "glw smp_query"
  let ?m = "?g\<lparr>pb_payload := (pb_payload ?g)(0x1000 := 0x1114), pb_len := (pb_len ?g)(0x1000 := 8), pb_tot_len := (pb_tot_len ?g)(0x1000 := 8)\<rparr>"
  have c: "chain (ig_next smp_query) (igmp_group_list smp_query) [0x50, 0x60]" by (simp add: smp_query_def)
  have hl: "IPH_HL (bytes ?g) (pb_payload ?g 0x1000) = 5"
    by (simp add: IPH_HL_def smp_query_def smp_ping_def smp_ip_def rd16_def lwip_ntohs_def lwip_htons_def)
  have h: "pbuf_header 0x1000 (- (IPH_HL (bytes ?g) (pb_payload ?g 0x1000) * 4)) ?g = (0, ?m)"
    using pbuf_header_own [of "0x1000" ?g "- 20"] unfolding hl
    by (simp add: smp_query_def smp_ping_def smp_ip_def smp_frags_def SIZEOF_STRUCT_PBUF_def)
  have "bytes_at (bytes ?m) 0x1114 8 = [0x11, 0x64, 0xee, 0x9b, 0, 0, 0, 0]" by (simp add: smp_query_def bytes_at_def upt_rec)
  then have k: "inet_chksum (pb_payload ?m 0x1000) (pb_len ?m 0x1000) ?m = 0" by (simp add: inet_chksum_eq chksum_field_le oc_def)
  have l: "8 \<le> pb_len ?m 0x1000" by simp
  have mem: "\<forall>g\<in>set [0x50, 0x60]. member_state smp_query g" by (simp add: member_state_def smp_query_def)
  have a: "allsystems smp_query = 0x010000E0" by (simp add: smp_query_def smp_igm0_def)
  have all: "\<exists>g\<in>set [0x50, 0x60]. ig_netif smp_query g = 0x10 \<and> ig_address smp_query g = allsystems smp_query" unfolding a by (simp add: smp_query_def)
  have b: "bytes ?m = (\<lambda>_. 0)(0x1100 := 0x45, 0x1114 := 0x11, 0x1115 := 0x64, 0x1116 := 0xee, 0x1117 := 0x9b)" "pb_payload ?m 0x1000 = 0x1114"
    by (simp_all add: smp_query_def)
  have msg: "bytes ?m (pb_payload ?m 0x1000) = IGMP_MEMB_QUERY" "rd32 (bytes ?m) (pb_payload ?m 0x1000 + 4) = IPADDR_ANY"
    "0x64 = (if bytes ?m (pb_payload ?m 0x1000 + 1) = 0 then IGMP_V1_DELAYING_MEMBER_TMR else bytes ?m (pb_payload ?m 0x1000 + 1))"
    unfolding b by (simp_all add: rd32_def rd16_def)
  have "(2 :: u8) \<le> 0x64" by simp
  have pk: "packet ?g 0x1000" "14 < length (memp_tab ?g)"
    by (simp_all add: packet_def smp_query_def smp_ping_def smp_ip_def smp_frags_def exI [of _ "[0x1000]"])
  from igmp_general_query [OF c mem pk h l k all msg \<open>2 \<le> 0x64\<close>, of "\<lambda>nif p dest m. (0, m)"] obtain s' where
    s': "igmp_input 0x1000 0x10 0x010000E0 smp_query = Some s'"
    "\<forall>g\<in>set [0x50, 0x60]. if ig_netif smp_query g = 0x10 \<and> ig_address smp_query g \<noteq> 0x010000E0
      then ig_state s' g = 1 \<and> 0 < ig_timer s' g \<and> ig_timer s' g \<le> ucast (0x64 :: u8) \<and>
        reports_in (\<lambda>nif p dest m. (0, m)) (unat (ig_timer s' g)) [0x50, 0x60] g s'
      else ig_state s' g = ig_state smp_query g \<and> ig_timer s' g = ig_timer smp_query g" unfolding a by blast
  show ?thesis using s' by (intro exI [of _ s']) (simp add: smp_query_def)
qed

end
