(* ===== verification/LW_IpIn.thy ===== *)
theory LW_IpIn
  imports LW_Igmp
begin

text \<open>
  The input of IP packets: \<open>ip_input\<close> of \<open>ip.c\<close>, with reassembly, DHCP and IGMP, without forwarding and raw sockets, and the way of a
  datagram from the sender to the application. TCP is a parameter.
\<close>

section \<open>Input\<close>

definition IPH_V :: "mem \<Rightarrow> ptr \<Rightarrow> u16" where "IPH_V b h = drop_bit 12 (lwip_ntohs (rd16 b h))"
definition IPH_PROTO :: "mem \<Rightarrow> ptr \<Rightarrow> u8" where "IPH_PROTO b h = b (h + 9)"

text \<open>The interface that takes the packet: the one it came from, or another one of the list.\<close>

definition netif_takes :: "ipst \<Rightarrow> ptr \<Rightarrow> bool" where
  "netif_takes s nif \<longleftrightarrow> netif_is_up (netifs s nif) \<and> \<not> ip_addr_isany (ip_addr (netifs s nif)) \<and>
     (current_iphdr_dest s = ip_addr (netifs s nif) \<or> ip4_addr_isbroadcast (current_iphdr_dest s) (netifs s nif) \<noteq> 0)"

partial_function (option) accept_loop :: "ipst \<Rightarrow> ptr \<Rightarrow> bool \<Rightarrow> ptr \<Rightarrow> ptr option" where
  "accept_loop s inp first nif =
     (if nif = NULL then None
      else if netif_takes s nif then Some nif
      else
        let nif = (if first then netif_list s else netif_next s nif);
            nif = (if nif = inp then netif_next s nif else nif)
        in if nif \<noteq> NULL then accept_loop s inp False nif else Some NULL)"

definition ip_netif :: "ptr \<Rightarrow> igm \<Rightarrow> ptr option" where
  "ip_netif inp s =
     (if ip_addr_ismulticast (current_iphdr_dest (gip s)) then
        if netif_flags (netifs (gip s) inp) AND NETIF_FLAG_IGMP \<noteq> 0 then
          igmp_lookfor_group inp (current_iphdr_dest (gip s)) s \<bind> (\<lambda>g. Some (if g \<noteq> NULL then inp else NULL))
        else Some NULL
      else accept_loop (gip s) inp True inp)"

type_synonym tcp_in = "ptr \<Rightarrow> ptr \<Rightarrow> igm \<Rightarrow> igm option"

text \<open>The packet goes to its protocol.\<close>

definition ip_deliver :: "netif_out \<Rightarrow> udp_recv_fn \<Rightarrow> tcp_in \<Rightarrow> ptr \<Rightarrow> ptr \<Rightarrow> ptr \<Rightarrow> igm \<Rightarrow> (int \<times> igm) option" where
  "ip_deliver out call_recv tcp_input p inp iphdr s = do {
     let s = put_gip ((gip s)\<lparr>current_netif := inp, current_header := iphdr\<rparr>) s;
     let proto = IPH_PROTO (bytes (glw s)) iphdr;
     s \<leftarrow> (if proto = IP_PROTO_UDP then udp_input out call_recv p inp (gudp s) \<bind> (\<lambda>u. Some (s\<lparr>gudp := u\<rparr>))
          else if proto = IP_PROTO_TCP then tcp_input p inp s
          else if proto = IP_PROTO_ICMP then icmp_input out p inp (gip s) \<bind> (\<lambda>i. Some (put_gip i s))
          else if proto = IP_PROTO_IGMP then igmp_input p inp (current_iphdr_dest (gip s)) s
          else do {
            s \<leftarrow> (if ip4_addr_isbroadcast (current_iphdr_dest (gip s)) (netifs (gip s) inp) = 0 \<and> \<not> ip_addr_ismulticast (current_iphdr_dest (gip s))
                 then icmp_dest_unreach out p ICMP_DUR_PROTO ((gip s)\<lparr>ilw := put_payload p iphdr (glw s)\<rparr>) \<bind> (\<lambda>i. Some (put_gip i s))
                 else Some s);
            igmp_free p s });
     Some (ERR_OK, put_gip ((gip s)\<lparr>current_netif := NULL, current_header := NULL, current_iphdr_src := IPADDR_ANY, current_iphdr_dest := IPADDR_ANY\<rparr>) s) }"

definition ip_local :: "netif_out \<Rightarrow> udp_recv_fn \<Rightarrow> tcp_in \<Rightarrow> ptr \<Rightarrow> ptr \<Rightarrow> ptr \<Rightarrow> igm \<Rightarrow> (int \<times> igm) option" where
  "ip_local out call_recv tcp_input p inp iphdr s =
     (if IPH_OFFSET (bytes (glw s)) iphdr AND lwip_htons (IP_OFFMASK OR IP_MF) \<noteq> 0 then do {
        (p, i) \<leftarrow> ip_reass (\<lambda>q i. icmp_time_exceeded out q ICMP_TE_FRAG i) p (gip s);
        let s = put_gip i s;
        if p = NULL then Some (ERR_OK, s) else ip_deliver out call_recv tcp_input p inp (pb_payload (glw s) p) s }
      else ip_deliver out call_recv tcp_input p inp iphdr s)"

definition ip_drop :: "ptr \<Rightarrow> igm \<Rightarrow> (int \<times> igm) option" where
  "ip_drop p s = igmp_free p s \<bind> (\<lambda>s. Some (ERR_OK, s))"

definition ip_input :: "netif_out \<Rightarrow> udp_recv_fn \<Rightarrow> tcp_in \<Rightarrow> ptr \<Rightarrow> ptr \<Rightarrow> igm \<Rightarrow> (int \<times> igm) option" where
  "ip_input out call_recv tcp_input p inp s =
     (let b = bytes (glw s);
          iphdr = pb_payload (glw s) p;
          iphdr_hlen = IPH_HL b iphdr * 4;
          iphdr_len = lwip_ntohs (IPH_LEN b iphdr) in
      if IPH_V b iphdr \<noteq> 4 then ip_drop p s
      else if iphdr_hlen > pb_len (glw s) p \<or> iphdr_len > pb_tot_len (glw s) p then ip_drop p s
      else if inet_chksum iphdr iphdr_hlen (glw s) \<noteq> 0 then ip_drop p s
      else do {
        m \<leftarrow> pbuf_realloc p iphdr_len (glw s);
        let b = bytes m;
        let s = put_gip ((gip s)\<lparr>ilw := m, current_iphdr_dest := IPH_DEST b iphdr, current_iphdr_src := IPH_SRC b iphdr\<rparr>) s;
        nif \<leftarrow> ip_netif inp s;
        let dhcp = (nif = NULL \<and> IPH_PROTO b iphdr = IP_PROTO_UDP \<and> rd16 b (iphdr + ucast iphdr_hlen + 2) = lwip_htons DHCP_CLIENT_PORT);
        let nif = (if dhcp then inp else nif);
        let src = current_iphdr_src (gip s);
        if \<not> dhcp \<and> src \<noteq> IPADDR_ANY \<and> (ip4_addr_isbroadcast src (netifs (gip s) inp) \<noteq> 0 \<or> ip_addr_ismulticast src) then ip_drop p s
        else if nif = NULL then ip_drop p s
        else ip_local out call_recv tcp_input p inp iphdr s })"

section \<open>Reading the header\<close>

lemma bytes_at_nth: "bytes_at b a n = L \<Longrightarrow> i < n \<Longrightarrow> b (a + of_nat i) = L ! i"
  by (metis length_bytes_at nth_bytes_at)

lemma rd16_be: "b a = ucast (drop_bit 8 v) \<Longrightarrow> b (a + 1) = ucast v \<Longrightarrow> rd16 b a = lwip_htons v"
  by (rule rd16_at) (use htons_bytes [of v] in simp_all)

lemma ntohs_htons: "lwip_ntohs (lwip_htons v) = v"
  using word_parts [of v] htons_bytes [of v] unat_htons_parts [of "lwip_htons v"] by (simp add: lwip_ntohs_def word_unat_eq_iff)

lemma vhltos_fields:
  fixes tos :: u8
  defines "w \<equiv> push_bit 12 4 OR push_bit 8 5 OR ucast tos :: u16"
  shows "drop_bit 12 w = 4" "drop_bit 8 w AND 0x0f = 5"
proof -
  have w: "w = 0x4500 OR ucast tos" by (simp add: w_def flip: or.assoc)
  have z: "drop_bit 12 (ucast tos :: u16) = 0" "drop_bit 8 (ucast tos :: u16) = 0"
    by (rule bit_word_eqI, auto simp: bit_simps dest: bit_imp_le_length)+
  show "drop_bit 12 w = 4" "drop_bit 8 w AND 0x0f = 5" unfolding w by (simp_all add: drop_bit_or z)
qed

lemma header_reads:
  assumes h: "bytes_at b a 20 = ip_header src dst ttl tos proto len ident c"
  shows "IPH_V b a = 4" "IPH_HL b a = 5" "lwip_ntohs (IPH_LEN b a) = len" "IPH_OFFSET b a = 0" "IPH_PROTO b a = proto" "IPH_SRC b a = src" "IPH_DEST b a = dst"
proof -
  have b: "b (a + of_nat i) = ip_header src dst ttl tos proto len ident c ! i" if "i < 20" for i by (rule bytes_at_nth [OF h that])
  have o: "addr_octets v = [ucast v, ucast (drop_bit 8 v), ucast (drop_bit 16 v), ucast (drop_bit 24 v)]" for v by (simp add: octets_word word_bytes_def)
  let ?w = "push_bit 12 4 OR push_bit 8 5 OR ucast tos :: u16"
  have "rd16 b a = lwip_htons ?w" by (rule rd16_be) (use b [of 0] b [of 1] vhltos_bytes [of tos] in \<open>simp_all add: ip_header_def\<close>)
  then show "IPH_V b a = 4" "IPH_HL b a = 5" using vhltos_fields [of tos] by (simp_all add: IPH_V_def IPH_HL_def ntohs_htons)
  have "rd16 b (a + 2) = lwip_htons len" by (rule rd16_be) (use b [of 2] b [of 3] in \<open>simp_all add: ip_header_def add.commute\<close>)
  then show "lwip_ntohs (IPH_LEN b a) = len" by (simp add: IPH_LEN_def ntohs_htons)
  show "IPH_OFFSET b a = 0" using b [of 6] b [of 7] by (simp add: IPH_OFFSET_def rd16_def ip_header_def add.commute)
  show "IPH_PROTO b a = proto" using b [of 9] by (simp add: IPH_PROTO_def ip_header_def)
  have "bytes_at b (a + 12) 4 = take 4 (drop 12 (bytes_at b a 20))" using bytes_at_sub [of 12 4 20 b a] by simp
  then show "IPH_SRC b a = src" unfolding h IPH_SRC_def by (intro rd32_at) (simp add: ip_header_def o)
  have "bytes_at b (a + 16) 4 = take 4 (drop 16 (bytes_at b a 20))" using bytes_at_sub [of 16 4 20 b a] by simp
  then show "IPH_DEST b a = dst" unfolding h IPH_DEST_def by (intro rd32_at) (simp add: ip_header_def o)
qed

section \<open>The way of a datagram\<close>

text \<open>A header in front of the data is hidden.\<close>

definition hide :: "u16 \<Rightarrow> ptr \<Rightarrow> lw \<Rightarrow> lw" where
  "hide k p m = m\<lparr>pb_payload := (pb_payload m)(p := pb_payload m p + ucast k), pb_len := (pb_len m)(p := pb_len m p - k),
     pb_tot_len := (pb_tot_len m)(p := pb_tot_len m p - k)\<rparr>"

lemma hide_simps [simp]:
  "bytes (hide k p m) = bytes m" "pb_payload (hide k p m) p = pb_payload m p + ucast k" "pb_len (hide k p m) p = pb_len m p - k"
  "pb_type (hide k p m) = pb_type m" "pb_tot_len (hide k p m) p = pb_tot_len m p - k"
  by (simp_all add: hide_def)

lemma hide_prefix:
  assumes ps: "pchain m p (p # qs)" and d: "cdata m (p # qs) = A @ B" and k: "unat k = length A" "k \<noteq> 0" "length A < 32768" "k \<le> pb_len m p"
    and ty: "pb_type m p = PBUF_RAM \<or> pb_type m p = PBUF_POOL" and room: "p + 16 \<le> pb_payload m p + ucast k"
  shows "pbuf_header p (- k) m = (0, hide k p m)" "pchain (hide k p m) p (p # qs)" "cdata (hide k p m) (p # qs) = B"
proof -
  have p: "p \<noteq> NULL" using ps by (simp add: pchain_def)
  have u: "0 < unat k" "unat k < 32768" using k(1-3) unat_gt_0 [of k] by linarith+
  note si = sint_small [OF u(2)]
  have "0 < uint k" using u(1) by (metis of_nat_0_less_iff uint_nat)
  then have "0 < sint k" unfolding si .
  then have "sint k \<noteq> -32768" by linarith
  note sm = sint_minus_u16 [OF this]
  have n: "scast (- k) = (- ucast k :: u32)" unfolding sm si(2) by simp
  have r: "pbuf_header p (- k) m = (0, hide k p m)"
    using pbuf_header_own [OF p ty, of "- k"] k(2,4) room unfolding n by (simp add: hide_def SIZEOF_STRUCT_PBUF_def)
  show "pbuf_header p (- k) m = (0, hide k p m)" by (rule r)
  have f: "fst (pbuf_header p (- k) m) = 0" "snd (pbuf_header p (- k) m) = hide k p m" using r by simp_all
  show "pchain (hide k p m) p (p # qs)" "cdata (hide k p m) (p # qs) = B"
    using pbuf_header_hide(2,3) [OF ps k(4) u(2) f(1)] unfolding f(2) d k(1) by simp_all
qed

text \<open>The receiver of a datagram: the block that fits source and destination, or an unconnected one that fits the destination.\<close>

definition udp_target :: "udp \<Rightarrow> ptr list \<Rightarrow> bool \<Rightarrow> u16 \<Rightarrow> u16 \<Rightarrow> ptr" where
  "udp_target s ps bc src dest = (case find (full_match s bc src dest) ps of Some x \<Rightarrow> x | None \<Rightarrow> found (find (open_match s bc dest) ps))"

lemma udp_target_cong:
  assumes "u_local_port s' = u_local_port s" "u_local_ip s' = u_local_ip s" "u_so_options s' = u_so_options s" "u_remote_port s' = u_remote_port s"
    "u_remote_ip s' = u_remote_ip s" "u_flags s' = u_flags s" "current_iphdr_dest (uip s') = current_iphdr_dest (uip s)"
    "current_iphdr_src (uip s') = current_iphdr_src (uip s)"
  shows "udp_target s' = udp_target s"
proof -
  have "full_match s' = full_match s" "open_match s' = open_match s"
    using assms by (simp_all add: fun_eq_iff full_match_def open_match_def local_match_def remote_match_def)
  then show ?thesis by (intro ext) (simp only: udp_target_def)
qed

lemma udp_header_reads:
  assumes "bytes_at b a 8 = udp_header src dest len c"
  shows "lwip_ntohs (rd16 b a) = src" "lwip_ntohs (rd16 b (a + 2)) = dest" "rd16 b (a + 6) = c"
proof -
  have b: "b (a + of_nat i) = udp_header src dest len c ! i" if "i < 8" for i by (rule bytes_at_nth [OF assms that])
  have "rd16 b a = lwip_htons src" by (rule rd16_be) (use b [of 0] b [of 1] in \<open>simp_all add: udp_header_def\<close>)
  then show "lwip_ntohs (rd16 b a) = src" by (simp add: ntohs_htons)
  have "rd16 b (a + 2) = lwip_htons dest" by (rule rd16_be) (use b [of 2] b [of 3] in \<open>simp_all add: udp_header_def add.commute\<close>)
  then show "lwip_ntohs (rd16 b (a + 2)) = dest" by (simp add: ntohs_htons)
  show "rd16 b (a + 6) = c" by (rule rd16_at) (use b [of 6] b [of 7] in \<open>simp_all add: udp_header_def add.commute\<close>)
qed

lemma first_bytes:
  assumes "cdata m (p # qs) = A @ B" "length A \<le> unat (pb_len m p)"
  shows "bytes_at (bytes m) (pb_payload m p) (length A) = A"
proof -
  obtain R where "pdata m p = A @ R" using first_buffer [OF assms] by blast
  then have "bytes_at (bytes m) (pb_payload m p) (length A) = take (length A) (A @ R)"
    using bytes_at_sub [of 0 "length A" "unat (pb_len m p)" "bytes m" "pb_payload m p"] assms(2) by (simp add: pdata_def)
  then show ?thesis by simp
qed

text \<open>What \<open>udp_input\<close> does with a valid datagram that has a receiver.\<close>

lemma udp_input_delivers:
  assumes ps: "pchain (ulw s) p (p # qs)" and d: "cdata (ulw s) (p # qs) = ip_header src dst ttl tos IP_PROTO_UDP len ident c @ udp_header sp dp n v @ D"
    and n: "n = of_nat (length D + 8)" and len: "28 \<le> pb_len (ulw s) p" and ty: "pb_type (ulw s) p = PBUF_RAM \<or> pb_type (ulw s) p = PBUF_POOL"
    and room: "p + 16 \<le> pb_payload (ulw s) p + 20" "p + 16 \<le> pb_payload (ulw s) p + 28"
    and cur: "current_iphdr_src (uip s) = src" "current_iphdr_dest (uip s) = dst"
    and chk: "v = 0 \<or> chksum_field (pseudo_bytes src dst IP_PROTO_UDP n @ udp_header sp dp n v @ D) = 0"
    and us: "chain (u_next s) (udp_pcbs s) us" "dp \<noteq> DHCP_CLIENT_PORT"
    and x: "udp_target s us (ip4_addr_isbroadcast dst (netifs (uip s) inp) \<noteq> 0) sp dp = x" "x \<noteq> NULL" "u_recv s x \<noteq> NULL"
  shows "\<exists>u. udp_input out call_recv p inp s = call_recv (u_recv s x) (u_recv_arg s x) x p src sp u \<and>
    pchain (ulw u) p (p # qs) \<and> cdata (ulw u) (p # qs) = D \<and> current_iphdr_src (uip u) = src \<and> current_iphdr_dest (uip u) = dst"
proof -
  let ?m = "ulw s" let ?m1 = "hide 20 p ?m" let ?m2 = "hide 8 p ?m1"
  let ?H = "ip_header src dst ttl tos IP_PROTO_UDP len ident c" and ?U = "udp_header sp dp n v"
  have lh: "length ?H = 20" "length ?U = 8" by (simp_all add: ip_header_def udp_header_def octets_word word_bytes_def)
  have l: "28 \<le> unat (pb_len ?m p)" using len by (simp add: word_le_nat_alt)
  then have l20: "20 \<le> pb_len ?m p" "unat (pb_len ?m p - 20) = unat (pb_len ?m p) - 20" by (simp_all add: word_le_nat_alt unat_diff_u16)
  have "bytes_at (bytes ?m) (pb_payload ?m p) 20 = ?H" using first_bytes [OF d] l lh by simp
  note hr = header_reads [OF this]
  have h1: "pbuf_header p (- 20) ?m = (0, ?m1)" "pchain ?m1 p (p # qs)" "cdata ?m1 (p # qs) = ?U @ D"
    using hide_prefix [OF ps d, of 20] lh l20 ty room by (simp_all del: cdata_simps)
  have l8: "8 \<le> pb_len ?m1 p" "length ?U \<le> unat (pb_len ?m1 p)" using l l20(2) lh by (simp_all add: word_le_nat_alt)
  have "bytes_at (bytes ?m1) (pb_payload ?m1 p) 8 = ?U" using first_bytes [OF h1(3) l8(2)] lh by simp
  note ur = udp_header_reads [OF this, simplified]
  have h2: "pbuf_header p (- 8) ?m1 = (0, ?m2)" "pchain ?m2 p (p # qs)" "cdata ?m2 (p # qs) = D"
    using hide_prefix [OF h1(2,3), of 8] lh l8 ty room by (simp_all add: add.assoc del: cdata_simps)
  have t: "unat (pb_tot_len ?m p) = length D + 28" using ps d lh by (simp add: pchain_def del: cdata_simps)
  let ?s1 = "put_ulw ?m1 s" and ?bc = "ip4_addr_isbroadcast dst (netifs (uip s) inp) \<noteq> 0"
  have "udp_target ?s1 us ?bc sp dp = x" using x(1) udp_target_cong [of ?s1 s] by simp
  then obtain s2 where s2: "udp_demux ?bc sp dp inp ?s1 = Some (x, s2)" "s2 = ?s1\<lparr>u_next := u_next s2, udp_pcbs := udp_pcbs s2\<rparr>"
    using udp_demux_spec [of ?s1 us dp ?bc sp inp] us by (auto simp: udp_target_def)
  have f: "uip s2 = (uip s)\<lparr>ilw := ?m1\<rparr>" "u_recv s2 = u_recv s" "u_recv_arg s2 = u_recv_arg s" by (subst s2(2), simp)+
  have "unat (pb_tot_len ?m p - 20) = length D + 8" using t by (simp add: unat_diff_u16 word_le_nat_alt)
  then have "of_nat (unat (pb_tot_len ?m p - 20)) = n" by (simp only: n)
  then have tn: "pb_tot_len ?m1 p = n" by simp
  have c1: "chain (pb_next ?m1) p (p # qs)" using h1(2) by (simp add: pchain_def)
  have ck: "inet_chksum_pseudo p src dst IP_PROTO_UDP (pb_tot_len ?m p - 20) ?m1 = Some 0" if "v \<noteq> 0"
    using inet_chksum_pbuf_eqs(2) [OF c1, of src dst IP_PROTO_UDP n] chk that unfolding h1(3) tn [simplified] by auto
  let ?u = "put_ulw ?m2 s2"
  have "udp_input out call_recv p inp s = call_recv (u_recv s x) (u_recv_arg s x) x p src sp ?u"
    using t h1(1) s2(1) h2(1) ck x hr(2) cur ur by (cases "v = 0") (simp_all add: udp_input_def Let_def f)
  then show ?thesis using h2(2,3) cur by (intro exI [of _ ?u]) (simp add: f del: cdata_simps)
qed

text \<open>A packet from \<open>src\<close> that the interface takes as its own.\<close>

definition addressed :: "ipst \<Rightarrow> ptr \<Rightarrow> u32 \<Rightarrow> u32 \<Rightarrow> bool" where
  "addressed i inp src dst \<longleftrightarrow> inp \<noteq> NULL \<and> netif_is_up (netifs i inp) \<and> ip_addr (netifs i inp) = dst \<and> \<not> ip_addr_isany dst \<and>
     \<not> ip_addr_ismulticast dst \<and> ip4_addr_isbroadcast src (netifs i inp) = 0 \<and> \<not> ip_addr_ismulticast src"

definition input_done :: "udp \<Rightarrow> udp" where
  "input_done u = u\<lparr>uip := (uip u)\<lparr>current_netif := NULL, current_header := NULL, current_iphdr_src := IPADDR_ANY, current_iphdr_dest := IPADDR_ANY\<rparr>\<rparr>"

lemma ip_input_udp:
  assumes ps: "pchain (glw s) p (p # qs)" and d: "cdata (glw s) (p # qs) = ip_header src dst ttl tos IP_PROTO_UDP (of_nat (length D + 28)) ident c @ U @ D"
    and lU: "length U = 8" and len: "28 \<le> pb_len (glw s) p"
    and hc: "chksum_field (ip_header src dst ttl tos IP_PROTO_UDP (of_nat (length D + 28)) ident c) = 0" and ad: "addressed (gip s) inp src dst"
  shows "ip_input out call_recv tcp_input p inp s = udp_input out call_recv p inp ((gudp s)\<lparr>uip := (gip s)\<lparr>current_iphdr_dest := dst,
      current_iphdr_src := src, current_netif := inp, current_header := pb_payload (glw s) p\<rparr>\<rparr>) \<bind>
    (\<lambda>u. Some (ERR_OK, s\<lparr>gudp := input_done u\<rparr>))"
proof -
  let ?m = "glw s" and ?len = "of_nat (length D + 28) :: u16"
  let ?H = "ip_header src dst ttl tos IP_PROTO_UDP ?len ident c" and ?h = "pb_payload (glw s) p"
  have lh: "length ?H = 20" by (simp add: ip_header_def octets_word word_bytes_def)
  have p: "p \<noteq> NULL" using ps by (simp add: pchain_def)
  have l: "20 \<le> pb_len ?m p" using len by (simp add: word_le_nat_alt)
  then have l': "\<not> pb_len ?m p < 20" by (simp add: not_less)
  have b: "bytes_at (bytes ?m) ?h 20 = ?H" using first_bytes [OF d] l lh by (simp add: word_le_nat_alt)
  note hr = header_reads [OF b]
  have t: "unat (pb_tot_len ?m p) = length D + 28" using ps d lh lU by (simp add: pchain_def del: cdata_simps)
  then have "of_nat (unat (pb_tot_len ?m p)) = ?len" by (simp only:)
  then have tl: "pb_tot_len ?m p = ?len" by simp
  have ck: "inet_chksum ?h 20 ?m = 0" using hc b by (simp add: inet_chksum_eq)
  let ?i = "(gip s)\<lparr>current_iphdr_dest := dst, current_iphdr_src := src\<rparr>"
  have re: "pbuf_realloc p ?len ?m = Some ?m" using p tl by (simp add: pbuf_realloc_def)
  have nt: "accept_loop ?i inp True inp = Some inp" using ad by (subst accept_loop.simps) (simp add: addressed_def netif_takes_def)
  have "ip_netif inp (s\<lparr>gudp := (gudp s)\<lparr>uip := ?i\<rparr>\<rparr>) = Some inp" using nt ad by (simp add: ip_netif_def addressed_def)
  then show ?thesis
    using hr ck re l' tl ad by (simp add: ip_input_def Let_def ip_local_def ip_deliver_def addressed_def input_done_def)
qed

text \<open>
  A host that takes a packet: the packet is in the chain of \<open>p\<close> whose first buffer holds both headers, the interface has the destination
  address, and the block \<open>x\<close>, which has a callback, is the one for the source and the port.
\<close>

definition udp_ready :: "igm \<Rightarrow> ptr \<Rightarrow> ptr list \<Rightarrow> ptr \<Rightarrow> u32 \<Rightarrow> u32 \<Rightarrow> u16 \<Rightarrow> u16 \<Rightarrow> ptr \<Rightarrow> bool" where
  "udp_ready r p qs inp src dst sp dp x \<longleftrightarrow> pchain (glw r) p (p # qs) \<and> 28 \<le> pb_len (glw r) p \<and>
     (pb_type (glw r) p = PBUF_RAM \<or> pb_type (glw r) p = PBUF_POOL) \<and> p + 16 \<le> pb_payload (glw r) p + 20 \<and> p + 16 \<le> pb_payload (glw r) p + 28 \<and>
     addressed (gip r) inp src dst \<and> dp \<noteq> DHCP_CLIENT_PORT \<and> x \<noteq> NULL \<and> u_recv (gudp r) x \<noteq> NULL \<and>
     (\<exists>us. chain (u_next (gudp r)) (udp_pcbs (gudp r)) us \<and>
       udp_target ((gudp r)\<lparr>uip := (gip r)\<lparr>current_iphdr_dest := dst, current_iphdr_src := src\<rparr>\<rparr>) us
         (ip4_addr_isbroadcast dst (netifs (gip r) inp) \<noteq> 0) sp dp = x)"

lemma udp_ready_delivers:
  assumes r: "udp_ready r p qs inp src dst sp dp x"
    and d: "cdata (glw r) (p # qs) = ip_header src dst ttl tos IP_PROTO_UDP (of_nat (length D + 28)) ident c @ udp_header sp dp n v @ D"
    and n: "n = of_nat (length D + 8)" and hc: "chksum_field (ip_header src dst ttl tos IP_PROTO_UDP (of_nat (length D + 28)) ident c) = 0"
    and chk: "chksum_field (pseudo_bytes src dst IP_PROTO_UDP n @ udp_header sp dp n v @ D) = 0"
  shows "\<exists>u. ip_input out call_recv tcp_input p inp r =
      call_recv (u_recv (gudp r) x) (u_recv_arg (gudp r) x) x p src sp u \<bind> (\<lambda>u. Some (ERR_OK, r\<lparr>gudp := input_done u\<rparr>)) \<and>
    pchain (ulw u) p (p # qs) \<and> cdata (ulw u) (p # qs) = D \<and> current_iphdr_src (uip u) = src \<and> current_iphdr_dest (uip u) = dst"
proof -
  let ?u = "(gudp r)\<lparr>uip := (gip r)\<lparr>current_iphdr_dest := dst, current_iphdr_src := src, current_netif := inp, current_header := pb_payload (glw r) p\<rparr>\<rparr>"
  let ?t = "(gudp r)\<lparr>uip := (gip r)\<lparr>current_iphdr_dest := dst, current_iphdr_src := src\<rparr>\<rparr>"
  obtain us where us: "chain (u_next (gudp r)) (udp_pcbs (gudp r)) us" "udp_target ?t us (ip4_addr_isbroadcast dst (netifs (gip r) inp) \<noteq> 0) sp dp = x"
    using r unfolding udp_ready_def by (elim exE conjE)
  have chk': "v = 0 \<or> chksum_field (pseudo_bytes src dst IP_PROTO_UDP n @ udp_header sp dp n v @ D) = 0" using chk by blast
  have t: "udp_target ?u = udp_target ?t" by (rule udp_target_cong) simp_all
  have l: "length (udp_header sp dp n v) = 8" by (simp add: udp_header_def)
  have i: "ip_input out call_recv tcp_input p inp r = udp_input out call_recv p inp ?u \<bind> (\<lambda>u. Some (ERR_OK, r\<lparr>gudp := input_done u\<rparr>))"
    using r by (intro ip_input_udp [OF _ d l _ hc]) (simp_all add: udp_ready_def)
  have "\<exists>u. udp_input out call_recv p inp ?u = call_recv (u_recv ?u x) (u_recv_arg ?u x) x p src sp u \<and>
    pchain (ulw u) p (p # qs) \<and> cdata (ulw u) (p # qs) = D \<and> current_iphdr_src (uip u) = src \<and> current_iphdr_dest (uip u) = dst"
    using r d us by (intro udp_input_delivers [OF _ _ n _ _ _ _ _ _ chk', where us = us]) (simp_all add: udp_ready_def t del: cdata_simps)
  then show ?thesis unfolding i by (auto simp del: cdata_simps)
qed

text \<open>
  C38: a datagram that is sent from a block with a port to a single host reaches the output function of the interface as one packet. A host that
  gets the bytes of this packet in buffers of its own and is ready for it gives exactly the data that was sent to the
  callback of the block for this source and port, with the address and port of the sender.
\<close>

theorem udp_round_trip:
  assumes "pchain (ulw s) p (p # qs)" "length (cdata (ulw s) (p # qs)) + 28 < 65536"
    and "pb_type (ulw s) p = PBUF_RAM \<or> pb_type (ulw s) p = PBUF_POOL"
    and "p + 16 \<le> pb_payload (ulw s) p - 8" "p + 16 \<le> pb_payload (ulw s) p - 28"
    and "region (pb_payload (ulw s) p - 8) 8 \<inter> payloads (ulw s) qs = {}" "region (pb_payload (ulw s) p - 28) 20 \<inter> payloads (ulw s) qs = {}"
    and "u_local_port s pcb \<noteq> 0" "ip4_addr_isbroadcast dst_ip (netifs (uip s) nif) = 0" "\<not> ip_addr_ismulticast dst_ip"
    and "u_local_ip s pcb = IPADDR_ANY \<or> u_local_ip s pcb = ip_addr (netifs (uip s) nif)"
    and "u_flags s pcb AND UDP_FLAGS_NOCHKSUM = 0" "hc \<Longrightarrow> ds = of_nat (oc (le_sum (cdata (ulw s) (p # qs))))"
    and "mtu (netifs (uip s) nif) = 0 \<or> length (cdata (ulw s) (p # qs)) + 28 \<le> unat (mtu (netifs (uip s) nif))"
  defines "addr \<equiv> ip_addr (netifs (uip s) nif)"
  shows "\<exists>m. udp_sendto_if_chksum out pcb p dst_ip dst_port nif hc ds s =
      (let (err, m') = out (netifs (uip s) nif) p dst_ip m in Some (err, s\<lparr>uip := (uip s)\<lparr>ilw := m', ip_id := ip_id (uip s) + 1\<rparr>\<rparr>)) \<and>
    pchain m p (p # qs) \<and> length (cdata m (p # qs)) = length (cdata (ulw s) (p # qs)) + 28 \<and>
    (\<forall>r p' qs' inp x. udp_ready r p' qs' inp addr dst_ip (u_local_port s pcb) dst_port x \<and> cdata (glw r) (p' # qs') = cdata m (p # qs) \<longrightarrow>
      (\<exists>u. ip_input out' call_recv tcp_input p' inp r =
          call_recv (u_recv (gudp r) x) (u_recv_arg (gudp r) x) x p' addr (u_local_port s pcb) u \<bind> (\<lambda>u. Some (ERR_OK, r\<lparr>gudp := input_done u\<rparr>)) \<and>
        pchain (ulw u) p' (p' # qs') \<and> cdata (ulw u) (p' # qs') = cdata (ulw s) (p # qs)))"
proof -
  let ?D = "cdata (ulw s) (p # qs)" and ?n = "of_nat (length (cdata (ulw s) (p # qs)) + 8)"
  from udp_datagram_sent [OF assms(1-14), where out = out and dst_port = dst_port, folded addr_def] obtain c v m where
    m: "udp_sendto_if_chksum out pcb p dst_ip dst_port nif hc ds s =
      (let (err, m') = out (netifs (uip s) nif) p dst_ip m in Some (err, s\<lparr>uip := (uip s)\<lparr>ilw := m', ip_id := ip_id (uip s) + 1\<rparr>\<rparr>))"
    "pchain m p (p # qs)"
    "cdata m (p # qs) = ip_header addr dst_ip (u_ttl s pcb) (u_tos s pcb) IP_PROTO_UDP (of_nat (length ?D + 28)) (ip_id (uip s)) c @
      udp_header (u_local_port s pcb) dst_port ?n v @ ?D"
    "chksum_field (ip_header addr dst_ip (u_ttl s pcb) (u_tos s pcb) IP_PROTO_UDP (of_nat (length ?D + 28)) (ip_id (uip s)) c) = 0"
    "chksum_field (pseudo_bytes addr dst_ip IP_PROTO_UDP ?n @ udp_header (u_local_port s pcb) dst_port ?n v @ ?D) = 0" by blast
  have "\<exists>u. ip_input out' call_recv tcp_input p' inp r =
      call_recv (u_recv (gudp r) x) (u_recv_arg (gudp r) x) x p' addr (u_local_port s pcb) u \<bind> (\<lambda>u. Some (ERR_OK, r\<lparr>gudp := input_done u\<rparr>)) \<and>
    pchain (ulw u) p' (p' # qs') \<and> cdata (ulw u) (p' # qs') = ?D"
    if "udp_ready r p' qs' inp addr dst_ip (u_local_port s pcb) dst_port x" "cdata (glw r) (p' # qs') = cdata m (p # qs)" for r p' qs' inp x
    using udp_ready_delivers [OF that(1) that(2) [unfolded m(3)] refl m(4,5), of out' call_recv tcp_input] by (elim exE conjE) (intro exI conjI)
  moreover have "length (cdata m (p # qs)) = length ?D + 28" unfolding m(3) by (simp add: ip_header_def udp_header_def octets_word word_bytes_def)
  ultimately show ?thesis using m(1,2) by blast
qed

text \<open>A host with the address 192.168.0.5 that has received the packet \<open>m\<close> and has a block with the port 4000.\<close>

definition smp_host :: "lw \<Rightarrow> igm" where
  "smp_host m = smp_igm0\<lparr>gudp := smp_udp\<lparr>uip := smp_ip\<lparr>ilw := (ilw smp_ip)\<lparr>bytes := (\<lambda>a. cdata m [0x1000] ! unat (a - 0x1100)),
     pb_len := (\<lambda>_. 36), pb_tot_len := (\<lambda>_. 36)\<rparr>, netifs := (\<lambda>_. smp_if\<lparr>ip_addr := 0x0500A8C0\<rparr>)\<rparr>,
     u_local_port := (\<lambda>_. 0)(0x50 := 4000), u_recv := (\<lambda>_. 1)\<rparr>\<rparr>"

lemma smp_host_ready:
  assumes "length (cdata m [0x1000]) = 36"
  shows "udp_ready (smp_host m) 0x1000 [] 0x10 0x0200A8C0 0x0500A8C0 53 4000 0x50" "cdata (glw (smp_host m)) [0x1000] = cdata m [0x1000]"
proof -
  let ?r = "smp_host m"
  have p: "pdata (glw ?r) 0x1000 = cdata m [0x1000]"
    using assms by (intro nth_equalityI) (simp_all add: smp_host_def smp_ip_def pdata_def unat_of_nat_u32)
  then show "cdata (glw ?r) [0x1000] = cdata m [0x1000]" by simp
  have "chain (u_next (gudp ?r)) (udp_pcbs (gudp ?r)) [0x50, 0x60]" using smp_udp_chain by (simp add: smp_host_def)
  moreover have "udp_target ((gudp ?r)\<lparr>uip := (gip ?r)\<lparr>current_iphdr_dest := 0x0500A8C0, current_iphdr_src := 0x0200A8C0\<rparr>\<rparr>) [0x50, 0x60]
      (ip4_addr_isbroadcast 0x0500A8C0 (netifs (gip ?r) 0x10) \<noteq> 0) 53 4000 = 0x50"
    by (simp add: smp_host_def smp_udp_def udp_target_def full_match_def open_match_def local_match_def remote_match_def ip_addr_isany_def
      ip_addr_ismulticast_def ip4_addr_isbroadcast_def smp_ip_def smp_if_def)
  moreover have "addressed (gip ?r) 0x10 0x0200A8C0 0x0500A8C0"
    by (simp add: smp_host_def smp_ip_def smp_if_def addressed_def netif_is_up_def ip_addr_isany_def ip_addr_ismulticast_def ip4_addr_isbroadcast_def ip_addr_netcmp_def)
  moreover have "pchain (glw ?r) 0x1000 [0x1000]" using assms p by (simp add: pchain_def) (simp add: smp_host_def smp_ip_def smp_frags_def)
  ultimately show "udp_ready ?r 0x1000 [] 0x10 0x0200A8C0 0x0500A8C0 53 4000 0x50"
    unfolding udp_ready_def by (intro conjI exI [of _ "[0x50, 0x60]"]) (simp_all add: smp_host_def smp_ip_def smp_frags_def)
qed

theorem udp_round_trip_witness:
  "\<exists>m u. udp_sendto_if_chksum (\<lambda>nif p dest m. (0, m)) 0x60 0x1000 0x0500A8C0 4000 0x10 False 0 smp_udp =
      Some (0, smp_udp\<lparr>uip := smp_ip\<lparr>ilw := m, ip_id := 1\<rparr>\<rparr>) \<and>
    ip_input (\<lambda>nif p dest m. (0, m)) (\<lambda>f arg x p src port u. if src = 0x0200A8C0 \<and> port = 53 then Some u else None) (\<lambda>p inp s. None)
      0x1000 0x10 (smp_host m) = Some (ERR_OK, (smp_host m)\<lparr>gudp := input_done u\<rparr>) \<and>
    cdata (ulw u) [0x1000] = cdata (ilw smp_ip) [0x1000]"
proof -
  have f: "uip smp_udp = smp_ip" "netifs smp_ip 0x10 = smp_if" "ip_addr smp_if = 0x0200A8C0" "u_local_port smp_udp 0x60 = 53" "ip_id smp_ip = 0"
    by (simp_all add: smp_udp_def smp_ip_def smp_frags_def smp_if_def)
  have p: "pchain (ulw smp_udp) 0x1000 [0x1000]" "length (cdata (ilw smp_ip) [0x1000]) = 8"
    by (simp_all add: pchain_def smp_udp_def smp_ip_def smp_frags_def pdata_def)
  have q: "pb_type (ulw smp_udp) 0x1000 = PBUF_RAM \<or> pb_type (ulw smp_udp) 0x1000 = PBUF_POOL"
    "(0x1000 :: u32) + 16 \<le> pb_payload (ulw smp_udp) 0x1000 - 8" "(0x1000 :: u32) + 16 \<le> pb_payload (ulw smp_udp) 0x1000 - 28"
    "ip4_addr_isbroadcast 0x0500A8C0 (netifs (uip smp_udp) 0x10) = 0" "\<not> ip_addr_ismulticast 0x0500A8C0"
    "u_local_ip smp_udp 0x60 = IPADDR_ANY \<or> u_local_ip smp_udp 0x60 = ip_addr (netifs (uip smp_udp) 0x10)" "u_flags smp_udp 0x60 AND UDP_FLAGS_NOCHKSUM = 0"
    "mtu (netifs (uip smp_udp) 0x10) = 0 \<or> length (cdata (ulw smp_udp) [0x1000]) + 28 \<le> unat (mtu (netifs (uip smp_udp) 0x10))"
    by (simp_all add: smp_udp_def smp_ip_def smp_frags_def smp_if_def ip_addr_ismulticast_def ip4_addr_isbroadcast_def pdata_def)
  let ?recv = "\<lambda>f arg x p src port u. if src = 0x0200A8C0 \<and> port = 53 then Some u else None :: udp option"
  let ?out = "\<lambda>nif p dest m. (0, m)"
  obtain m where m: "udp_sendto_if_chksum ?out 0x60 0x1000 0x0500A8C0 4000 0x10 False 0 smp_udp =
      Some (0, smp_udp\<lparr>uip := smp_ip\<lparr>ilw := m, ip_id := 1\<rparr>\<rparr>)" "length (cdata m [0x1000]) = 36"
    and r: "\<forall>r p' qs' inp x. udp_ready r p' qs' inp 0x0200A8C0 0x0500A8C0 53 4000 x \<and> cdata (glw r) (p' # qs') = cdata m [0x1000] \<longrightarrow>
      (\<exists>u. ip_input ?out ?recv (\<lambda>p inp s. None) p' inp r = Some (ERR_OK, r\<lparr>gudp := input_done u\<rparr>) \<and>
        pchain (ulw u) p' (p' # qs') \<and> cdata (ulw u) (p' # qs') = cdata (ilw smp_ip) [0x1000])"
    using udp_round_trip [OF p(1) _ q(1-3) _ _ _ q(4-7) _ q(8), of False 0 ?out 4000 ?out ?recv "\<lambda>p inp s. None"] p(2)
    by (auto simp: f payloads_def simp del: cdata_simps)
  from r [rule_format, OF conjI [OF smp_host_ready [OF m(2)]]] m(1) show ?thesis by blast
qed

end
