(* ===== verification/Spec2Isabelle.thy ===== *)
theory Spec2Isabelle
  imports RTX_CMSIS LW_ArpRun LW_Timers LW_IpIn
begin

text \<open>
  Verification of the embedded C code of the board firmware: the RTX real-time kernel with its
  CMSIS-RTOS interface (\<open>src/src/mbed-rtos/rtx\<close>) and, of the lwIP stack
  (\<open>src/src/EthernetInterface/lwip\<close>), memory, packet buffers,
  addresses, timeouts, ARP, IP, ICMP, UDP and IGMP.

  \<^bold>\<open>The program.\<close> The kernel schedules tasks by priority. A service call, a tick of the timer or
  the handler of the post service queue changes the lists of the kernel and selects the next
  task, which the exception return switches to; interrupt handlers only post requests.
  Semaphores, mutexes, event flags and mailboxes block and wake tasks through the same list
  and dispatcher functions; CMSIS threads, timers, pools, message and mail queues are built on
  these. lwIP takes its memory from fixed pools and from a heap, and keeps packets in chains of
  packet buffers allocated from both; the Internet checksum runs over such chains. Its thread waits
  for messages and runs the timeouts that are due, among them the timer that ages the ARP table.
  Packets leave through the ARP module, which resolves the address and keeps a packet until the
  answer arrives, and received frames enter through it. IP routes packets to an interface and writes
  their headers, and puts the fragments of received packets together; ICMP answers echo requests
  and reports errors, UDP gives datagrams to the block with their port, and IGMP keeps the multicast groups.

  \<^bold>\<open>The model.\<close> A pointer is a 32-bit word and \<open>NULL\<close> is 0. A structure in memory is one function
  per field from addresses to values; the globals are fields of the state, the records
  \<open>kst\<close> (kernel) and \<open>lw\<close> (lwIP); \<open>tms\<close>, \<open>arp\<close> and \<open>ipst\<close> add the timeouts, the ARP table, and the interfaces
  and fragments to \<open>lw\<close>; \<open>udp\<close> adds the UDP blocks to \<open>ipst\<close>, and \<open>igm\<close> the groups to \<open>udp\<close>. Integers have their C width and wrap around. A C function is one
  definition on the state; its value is an \<open>option\<close>: \<open>None\<close> stands for a dereference of \<open>NULL\<close>, a
  call of \<open>os_error\<close> (which does not return), an access outside of a table, or a loop that does not
  end (\<open>partial_function (option)\<close>). There is no fuel: that a loop ends is part of what is
  proved. The configuration is that of the LPC1768 with the ARM compiler.

  \<^bold>\<open>Theories, kernel.\<close>
  \<^item> \<open>Prelude\<close>: words, lists and linked chains. \<open>Pool\<close> and \<open>Ring\<close>: the locales \<open>block_pool\<close> (fixed
    block allocators, interpreted by \<open>rt_MemBox.c\<close> and \<open>memp.c\<close>) and \<open>fifo\<close> (ring buffers, interpreted
    by the mailbox and the post service queue). \<open>Alarms\<close>: delta lists of remaining times, shared by
    the delay list, the CMSIS timers and the lwIP timeouts.
  \<^item> \<open>RTX_State\<close>: the record \<open>kst\<close>. \<open>RTX_List\<close>: the linked lists of \<open>rt_List.c\<close>, refined to one list
    of tasks per header (\<open>qrep\<close>). \<open>RTX_Delay\<close>: the delta list of delays, refined to a list of
    remaining times (\<open>drep\<close>).
  \<^item> \<open>RTX_Task\<close>: \<open>rt_Task.c\<close>, \<open>rt_Robin.c\<close>, \<open>rt_Time.c\<close>, \<open>HAL_CM.c\<close>, the exception return
    \<open>task_switch\<close>, and the scheduling invariant \<open>kinv\<close>. \<open>RTX_Sample\<close>: a concrete system for the
    witnesses. \<open>RTX_Scheduling\<close>: the locale \<open>kernel_service\<close>, the contract of every service: it
    returns and leaves a state that satisfies the invariant.
  \<^item> \<open>RTX_Semaphore\<close>, \<open>RTX_Mutex\<close>, \<open>RTX_Event\<close>, \<open>RTX_MemBox\<close>, \<open>RTX_Mailbox\<close>: the operations of the
    files of these names, interpretations of \<open>kernel_service\<close>, and what every branch does.
  \<^item> \<open>RTX_Psq\<close>, \<open>RTX_Timer\<close>, \<open>RTX_System\<close>: the post service queue, the CMSIS timers, the tick, the
    post service handler, suspend and resume (\<open>rt_System.c\<close>).
  \<^item> \<open>RTX_CMSIS\<close>: the service and interface functions of \<open>rt_CMSIS.c\<close>.

  \<^bold>\<open>Theories, lwIP.\<close>
  \<^item> \<open>LW_State\<close>: the record \<open>lw\<close>, bytes of memory, byte order (\<open>def.c\<close>).
  \<^item> \<open>LW_Chksum\<close>: \<open>inet_chksum.c\<close>; the three versions of the sum agree with the ones' complement sum
    of RFC 1071, and the sum over a chain is the sum over its data.
  \<^item> \<open>LW_Memp\<close>: \<open>memp.c\<close>, refined to stacks of free elements (\<open>mrep\<close>). \<open>LW_Mem\<close>: the heap \<open>mem.c\<close>,
    refined to a list of blocks (\<open>heap\<close>), with disjointness of the areas in use.
  \<^item> \<open>LW_Pbuf\<close>: \<open>pbuf.c\<close>; chains with the \<open>tot_len\<close> invariant (\<open>pchain\<close>) and their data (\<open>cdata\<close>),
    copying, joining, searching, headers. \<open>LW_PbufAlloc\<close>: allocation from the pool, and the
    release of buffers of all kinds to the heap and the pools (\<open>stores\<close>).
  \<^item> \<open>LW_IPaddr\<close>: \<open>ip_addr.c\<close>; reading and printing addresses are inverse to each other.
  \<^item> \<open>LW_Packet\<close>: what the protocols share: writing into packets, and the locale \<open>release_kept\<close> for the
    properties that releasing packets keeps.
  \<^item> \<open>LW_Timers\<close>: \<open>timers.c\<close>, refined to a list of remaining times (\<open>torep\<close>); the cyclic timers are
    always pending, and a message is returned after the timeouts that expired before (\<open>served\<close>).
  \<^item> \<open>LW_Arp\<close>: \<open>etharp.c\<close>; the search for an entry, ageing, updates, look-ups. \<open>LW_ArpRun\<close>: the
    invariant of the table over runs (\<open>arp_run\<close>), and the bytes of the frames that are sent.
  \<^item> \<open>LW_Reass\<close>: \<open>ip_frag.c\<close>; the list of the fragments of a datagram stays ordered, a complete datagram
    is recognised, and \<open>ip_reass\<close> returns it with the data of the fragments in order behind the header of the first one (\<open>first_header\<close>).
  \<^item> \<open>LW_Ip\<close>: routing and output of \<open>ip.c\<close>; the bytes of the header and the validity of its checksum. \<open>LW_Icmp\<close>: \<open>icmp.c\<close>;
    which echo requests are answered, and the bytes of the answer.
  \<^item> \<open>LW_Udp\<close>: \<open>udp.c\<close>; the invariant of the list of blocks over runs, the choice of ports and of receivers, and the bytes
    of the datagrams that are sent.
  \<^item> \<open>LW_Igmp\<close>: \<open>igmp.c\<close>, refined over runs (\<open>igmp_step\<close>) to the number of joins of each group (\<open>igmp_rep\<close>); which
    call of the timer sends the report that a query asks for.
  \<^item> \<open>LW_IpIn\<close>: \<open>ip_input\<close> of \<open>ip.c\<close>, which gives packets to ICMP, UDP and IGMP; a datagram that one host sends is what the
    application on the other one receives.

  \<^bold>\<open>This theory\<close> composes the kernel: \<open>kstep\<close> is a step of any of its parts, and the scheduling
  promise and the return of every call are proved for all runs.

  \<^bold>\<open>Not modelled.\<close> The protocols TCP, DHCP and DNS of lwIP and its socket interface,
  which use the modules above (the callbacks of applications and drivers, and the input of TCP, are parameters); SNMP and PPP, which the Ethernet configuration switches off; the
  register contents of a context switch and the SVC dispatch, which are assembler; the register
  access of drivers and of the C++ application. Protection by disabled interrupts or by the heap
  mutex is the atomicity of each definition. Assertions, statistics and debug output are off in
  the configuration. The evt_set service is not among the calls of \<open>kstep\<close>: its contract needs that
  a task that waits for events is in no waiting list, which the scheduling invariant does not say.
\<close>

section \<open>Runs of the kernel\<close>

text \<open>The calls of a running task that may block it, wake others or change the schedule.\<close>

datatype call = Pass | Delay u16 | SetPriority u8 | SemSend ptr | SemWait ptr u16 | MutWait ptr u16 | MutRelease ptr
  | EvtWait u16 u16 bool | MbxSend ptr ptr u16 | MbxWait ptr u16

fun serve :: "call \<Rightarrow> kst \<Rightarrow> kst option" where
  "serve Pass s = rt_tsk_pass s"
| "serve (Delay n) s = rt_dly_wait n s"
| "serve (SetPriority v) s = map_option snd (rt_tsk_prio 0 v s)"
| "serve (SemSend h) s = map_option snd (rt_sem_send h s)"
| "serve (SemWait h tmo) s = map_option snd (rt_sem_wait h tmo s)"
| "serve (MutWait m tmo) s = map_option snd (rt_mut_wait m tmo s)"
| "serve (MutRelease m) s = map_option snd (rt_mut_release m s)"
| "serve (EvtWait fl tmo aw) s = map_option snd (rt_evt_wait fl tmo aw s)"
| "serve (MbxSend h msg tmo) s = map_option snd (rt_mbx_send h msg tmo s)"
| "serve (MbxWait h tmo) s = map_option (snd \<circ> snd) (rt_mbx_wait h tmo s)"

text \<open>The object of a call, and what a caller must observe: the idle demon makes no calls.\<close>

fun object_of :: "call \<Rightarrow> ptr option" where
  "object_of (SemSend h) = Some h"
| "object_of (SemWait h tmo) = Some h"
| "object_of (MutWait m tmo) = Some m"
| "object_of (MutRelease m) = Some m"
| "object_of (MbxSend h msg tmo) = Some h"
| "object_of (MbxWait h tmo) = Some h"
| "object_of _ = None"

definition callable :: "ptr set \<Rightarrow> ptr set \<Rightarrow> call \<Rightarrow> kst \<Rightarrow> bool" where
  "callable T H c s \<longleftrightarrow> tsk_run s \<noteq> os_idle_TCB \<and>
     (case object_of c of None \<Rightarrow> True | Some h \<Rightarrow> h \<in> H \<and> h \<noteq> os_rdy) \<and>
     (case c of MutWait m tmo \<Rightarrow> mu_level s m \<noteq> 0 \<longrightarrow> mu_owner s m \<in> T | _ \<Rightarrow> True)"

text \<open>The kernel objects that a program creates, with the initial tokens or the bytes of storage.\<close>

datatype object = Semaphore u16 | Mutex | Mailbox u16

fun init_object :: "object \<Rightarrow> ptr \<Rightarrow> kst \<Rightarrow> kst option" where
  "init_object (Semaphore n) h s = rt_sem_init h n s"
| "init_object Mutex h s = rt_mut_init h s"
| "init_object (Mailbox n) h s = rt_mbx_init h n s"

text \<open>
  A step of the kernel with the tasks \<open>T\<close> and the waiting lists \<open>H\<close>: a service call, a tick, or
  the handler of the post service queue, each followed by the exception return; the creation
  of a thread and of a kernel object in fresh memory. The stack pointer of the task that is
  left is any.
\<close>

inductive kstep :: "ptr set \<times> ptr set \<times> kst \<Rightarrow> ptr set \<times> ptr set \<times> kst \<Rightarrow> bool" where
  service: "callable T H c s \<Longrightarrow> serve c s = Some s1 \<Longrightarrow> task_switch psp s1 = Some s' \<Longrightarrow> kstep (T, H, s) (T, H, s')"
| tick: "trep s L \<Longrightarrow> psqrep k s rs \<Longrightarrow> length rs + length (posts s (expired L)) \<le> k \<Longrightarrow> \<forall>(x, n)\<in>set L. 0 < n \<Longrightarrow>
    \<forall>x\<in>set (expired L). tm_type s x = osTimerPeriodic \<longrightarrow> tm_icnt s x \<noteq> 0 \<Longrightarrow>
    rt_systick s = Some s1 \<Longrightarrow> task_switch psp s1 = Some s' \<Longrightarrow> kstep (T, H, s) (T, H, s')"
| post: "kstate s T H Q D \<Longrightarrow> psqrep k s rs \<Longrightarrow> req_ok T H Q s rs \<Longrightarrow>
    rt_pop_req s = Some s1 \<Longrightarrow> task_switch psp s1 = Some s' \<Longrightarrow> kstep (T, H, s) (T, H, s')"
| thread: "thread_def_ok td s \<Longrightarrow> td + 16 \<notin> T \<union> H \<union> {NULL, os_dly} \<Longrightarrow>
    i < length (os_active_TCB s) \<Longrightarrow> length (os_active_TCB s) < 255 \<Longrightarrow>
    os_active_TCB s ! i = NULL \<Longrightarrow> \<forall>j<i. os_active_TCB s ! j \<noteq> NULL \<Longrightarrow>
    svcThreadCreate td arg s = Some (tid, s1) \<Longrightarrow> task_switch psp s1 = Some s' \<Longrightarrow>
    kstep (T, H, s) (insert (td + 16) T, H, s')"
| object: "h \<notin> T \<union> H \<Longrightarrow> init_object obj h s = Some s' \<Longrightarrow> kstep (T, H, s) (T, insert h H, s')"

inductive_cases kstepE: "kstep (T, H, s) (T', H', s')"

lemmas services_return = tsk_pass.svc_returns dly_wait.svc_returns tsk_prio_self.svc_returns sem_send.svc_returns
  sem_wait.svc_returns mut_wait.svc_returns mut_release.svc_returns evt_wait.svc_returns mbx_send.svc_returns mbx_wait.svc_returns

lemma serve_returns:
  assumes "kstate s T H Q D" "callable T H c s"
  shows "\<exists>s'. serve c s = Some s' \<and> kexit s s' T H"
  using services_return [OF assms(1)] assms(2) by (cases c) (auto simp: callable_def)


lemma kinv_new_object:
  assumes k: "kinv s T H Q D c" and h: "h \<notin> T \<union> H" "h \<noteq> NULL" and "ty \<in> {SCB, MCB, MUCB}"
    and eq: "p_lnk s' = (p_lnk s)(h := NULL)" "cb_type s' = (cb_type s)(h := ty)" "p_rlnk s' = p_rlnk s"
      "p_dlnk s' = p_dlnk s" "p_blnk s' = p_blnk s" "delta_time s' = delta_time s" "tstate s' = tstate s" "prio s' = prio s"
  shows "kinv s' T (insert h H) Q D c"
proof -
  note k0 = kinv0D [OF kinvD(1) [OF k]] and q = qrepD [OF kinv_qrep [OF k]]
  have Qh: "Q h = []" using kinv_qrep [OF k] h(1) by (simp add: qrep_def)
  have qu: "queued (insert h H) Q = queued H Q" "queued (insert h H - {os_rdy}) Q = queued (H - {os_rdy}) Q"
    using Qh by (auto simp: queued_def)
  have hn: "h \<noteq> os_rdy" using h(1) q(1) by auto
  have "chain ((p_lnk s)(h := NULL)) (p_lnk s g) (Q g) \<longleftrightarrow> chain (p_lnk s) (p_lnk s g) (Q g)" if "g \<in> H" for g
    using q(9) [OF that] h(1) by (intro chain_upd) blast
  then have "qrep s' T (insert h H) Q" using kinv_qrep [OF k] h hn Qh assms(4)
    unfolding qrep_def qu(2) by (auto simp: eq sem_mbx_def)
  moreover have "drep s' T D" using k0(2) by (simp add: drep_def eq)
  ultimately show ?thesis using k Qh unfolding kinv_def kinv0_def qu(1) by (auto simp: eq)
qed

lemma init_object_kstate:
  assumes "kstate s T H Q D" "h \<notin> T \<union> H" "init_object obj h s = Some s'"
  shows "kstate s' T (insert h H) Q D"
proof -
  have "h \<noteq> NULL" "tsk_run s' = tsk_run s" "tsk_new s' = tsk_new s"
    using assms(3) by (cases obj; auto simp: rt_sem_init_def rt_mut_init_def rt_mbx_init_def Let_def)+
  moreover have "kinv s' T (insert h H) Q D (tsk_run s)"
    by (rule kinv_new_object [OF kstateD(1) [OF assms(1)] assms(2), where ty = "cb_type s' h"])
      (use assms(3) in \<open>cases obj; auto simp: rt_sem_init_def rt_mut_init_def rt_mbx_init_def Let_def\<close>)+
  ultimately show ?thesis using assms(1) by (simp add: kstate_def)
qed

lemma kstep_kstate:
  assumes "kstep (T, H, s) (T', H', s')" "kstate s T H Q D"
  shows "\<exists>Q D. kstate s' T' H' Q D"
  using assms(1)
proof cases
  case (service c s1 psp)
  with serve_returns [OF assms(2), of c] show ?thesis by (auto simp: kexit_def dest: task_switch_kinv)
next
  case (tick L k rs s1 psp)
  from systick_spec [OF assms(2) tick(3-7)] tick(8) obtain Q' where "kinv s1 T H Q' (pending D) (tsk_new s1)" by auto
  from task_switch_kinv [OF this tick(9)] tick(1,2) show ?thesis by blast
next
  case (post Q D k rs s1 psp)
  with pop_req_spec [OF post(3-5)] show ?thesis by (auto dest: task_switch_kinv)
next
  case (thread td i arg tid s1 psp)
  then have "td + 16 \<notin> T" "td + 16 \<notin> H" "td + 16 \<noteq> NULL" "td + 16 \<noteq> os_dly" by auto
  from thread_create_spec [OF assms(2) _ this, of i arg] thread obtain Q' D' where "kinv s1 (insert (td + 16) T) H Q' D' (tsk_new s1)"
    by (auto split: if_splits)
  from task_switch_kinv [OF this thread(10)] thread(1,2) show ?thesis by blast
next
  case (object h obj)
  with init_object_kstate [OF assms(2) object(3,4)] show ?thesis by blast
qed

text \<open>Configurations that satisfy the scheduling invariant.\<close>

definition scheduled :: "ptr set \<times> ptr set \<times> kst \<Rightarrow> bool" where
  "scheduled = (\<lambda>(T, H, s). \<exists>Q D. kstate s T H Q D)"

lemma run_scheduled:
  assumes "kstep\<^sup>*\<^sup>* cf cf'" "scheduled cf"
  shows "scheduled cf'"
  using assms by (induction rule: rtranclp_induct) (auto simp: scheduled_def dest: kstep_kstate)

text \<open>
  C1: the kernel keeps its scheduling promise over every run. From a state that satisfies the
  invariant, any interleaving of service calls, ticks, posted requests, thread and object
  creations leads to a state in which the lists of the kernel are well formed, every list
  is ordered by priority, one task runs, and no ready task has a higher priority than it.
\<close>

theorem kernel_runs_highest:
  assumes "kstep\<^sup>*\<^sup>* (T, H, s) (T', H', s')" "kstate s T H Q D"
  shows "(\<exists>Q D. kstate s' T' H' Q D) \<and> tsk_run s' \<in> T' \<and> tstate s' (tsk_run s') = RUNNING \<and>
    (\<forall>t\<in>T'. tstate s' t = READY \<longrightarrow> prio s' t \<le> prio s' (tsk_run s'))"
proof -
  from run_scheduled [OF assms(1)] assms(2) obtain Q' D' where k: "kstate s' T' H' Q' D'"
    by (auto simp: scheduled_def)
  note k0 = kinv0D [OF kinvD(1) [OF kstateD(1) [OF k]]]
  show ?thesis using k k0(5) k0(8) [OF k0(5)] kstate_ready_le [OF k] by blast
qed

lemma smp_switch: "\<exists>s'. kstep (smpT, smpH, smp) (smpT, smpH, s') \<and> tsk_run s' = smpB"
proof -
  obtain s1 where s1: "rt_sem_send smpS smp = Some (OS_R_OK, s1)"
    "wakes (set_mem (rt_ret_regs smpB smp) 1 smp) s1 smpT smpH (smpQ(smpS := [])) (undelay smpB smpD) smpA smpB"
    using sem_send_waiter [OF smp_kstate, of smpS smpB "[]"] by auto
  then have n: "tsk_new s1 = smpB" "sched_mask s1 = sched_mask (set_mem (rt_ret_regs smpB smp) 1 smp)"
    by (simp_all add: wakes_def)
  note f = sched_maskD [OF n(2), simplified]
  have "task_switch 0x1000 s1 = Some (s1\<lparr>tsk_stack := (tsk_stack s1)(smpA := 0x1000 - 32), tsk_run := smpB\<rparr>)"
    using n(1) by (simp add: task_switch_def rt_stk_check_def f smp_def smp_zero_def)
  moreover have "callable smpT smpH (SemSend smpS) smp" "serve (SemSend smpS) smp = Some s1"
    using s1(1) by (simp_all add: callable_def)
  ultimately have "kstep (smpT, smpH, smp) (smpT, smpH, s1\<lparr>tsk_stack := (tsk_stack s1)(smpA := 0x1000 - 32), tsk_run := smpB\<rparr>)"
    by (intro kstep.service)
  then show ?thesis by (intro exI conjI, assumption) simp
qed

theorem kernel_runs_highest_witness:
  "\<exists>s''. kstep\<^sup>*\<^sup>* (smpT, smpH, smp) (smpT, insert 0x700 smpH, s'') \<and> tsk_run s'' = smpB \<and>
    (\<exists>Q D. kstate s'' smpT (insert 0x700 smpH) Q D)"
proof -
  from smp_switch obtain s' where s': "kstep (smpT, smpH, smp) (smpT, smpH, s')" "tsk_run s' = smpB" by blast
  have "(0x700 :: ptr) \<notin> smpT \<union> smpH" by (simp add: smpT_def smpH_def smp_defs)
  moreover define s'' where "s'' = set_tokens 0x700 3 (set_p_lnk 0x700 NULL (set_cb_type 0x700 SCB s'))"
  moreover have "init_object (Semaphore 3) 0x700 s' = Some s''" by (simp add: rt_sem_init_def s''_def)
  ultimately have "kstep (smpT, smpH, s') (smpT, insert 0x700 smpH, s'')" by (intro kstep.object)
  then have r: "kstep\<^sup>*\<^sup>* (smpT, smpH, smp) (smpT, insert 0x700 smpH, s'')"
    using s'(1) by (meson rtranclp.rtrancl_into_rtrancl r_into_rtranclp)
  moreover have "tsk_run s'' = smpB" using s'(2) by (simp add: s''_def)
  ultimately show ?thesis using kernel_runs_highest [OF r smp_kstate] by blast
qed

text \<open>
  C2: no service call hangs or stops the kernel. In every state that a run reaches, every
  call with an object of the kernel returns, and the task it selects is one of the kernel
  that no ready task exceeds in priority.
\<close>

theorem kernel_calls_return:
  assumes "kstep\<^sup>*\<^sup>* (T, H, s) (T', H', s')" "kstate s T H Q D" "callable T' H' c s'"
  shows "\<exists>s1. serve c s' = Some s1 \<and> tsk_new s1 \<in> T' \<and>
    (\<forall>t\<in>T'. tstate s1 t = READY \<longrightarrow> prio s1 t \<le> prio s1 (tsk_new s1))"
proof -
  from run_scheduled [OF assms(1)] assms(2) obtain Q' D' where k: "kstate s' T' H' Q' D'"
    by (auto simp: scheduled_def)
  from serve_returns [OF this assms(3)] obtain s1 Q1 D1 where
    s1: "serve c s' = Some s1" "kinv s1 T' H' Q1 D1 (tsk_new s1)" by (auto simp: kexit_def)
  note k0 = kinv0D [OF kinvD(1) [OF s1(2)]]
  show ?thesis using s1(1) k0(5,9,11) by blast
qed

theorem kernel_calls_return_witness:
  "\<exists>s' s1. kstep (smpT, smpH, smp) (smpT, smpH, s') \<and> serve (MbxWait smpX 9) s' = Some s1 \<and> tsk_new s1 \<in> smpT"
proof -
  from smp_switch obtain s' where s': "kstep (smpT, smpH, smp) (smpT, smpH, s')" "tsk_run s' = smpB" by blast
  moreover have "callable smpT smpH (MbxWait smpX 9) s'" using s'(2) by (simp add: callable_def)
  moreover have "kstep\<^sup>*\<^sup>* (smpT, smpH, smp) (smpT, smpH, s')" using s'(1) by (rule r_into_rtranclp)
  ultimately show ?thesis using kernel_calls_return [OF _ smp_kstate] by blast
qed

end
